(* ===== verification/Prelude.thy ===== *)
theory Prelude
  imports Complex_Main "HOL-Library.AList" "HOL-Library.Multiset" "HOL-Library.Char_ord"
    "HOL-Library.List_Lexorder"
begin

text \<open>
  Shared vocabulary of the development: Python exceptions as a datatype and fallible code as
  a sum, dictionaries as association lists in insertion order, the JSON-like values the
  server passes around, and the generic list lemmas that several components use.
\<close>

section \<open>Collections of rules\<close>

named_theorems result_simps \<open>equations and splits of the fallible combinators\<close>
named_theorems dict_simps \<open>look-ups after updates of insertion-ordered dictionaries\<close>

section \<open>Exceptions and fallible code\<close>

text \<open>
  The exceptions the modelled code raises. A message is kept only where the code branches on
  it; otherwise the exception class is what a caller can observe. \<open>Diverges\<close> is no Python
  exception: it is the value of a loop model whose fuel ran out, and every loop that can yield
  it comes with a theorem that it does not.
\<close>

datatype py_error =
    KeyError
  | IndexError
  | ValueError string
  | TypeError string
  | RuntimeError string
  | AssertionError
  | CancelledError
  | QueueEmpty
  | HttpError nat string
  | Diverges

type_synonym 'a result = "py_error + 'a"

abbreviation Ok :: "'a \<Rightarrow> 'a result" where
  "Ok \<equiv> Inr"

abbreviation Err :: "py_error \<Rightarrow> 'a result" where
  "Err \<equiv> Inl"

text \<open>Sequencing: the first exception ends the computation.\<close>

fun ebind :: "'a result \<Rightarrow> ('a \<Rightarrow> 'b result) \<Rightarrow> 'b result" where
  "ebind (Inl e) f = Inl e"
| "ebind (Inr x) f = f x"

text \<open>A loop that collects a list, and a loop that threads a state, left to right.\<close>

fun emap :: "('a \<Rightarrow> 'b result) \<Rightarrow> 'a list \<Rightarrow> 'b list result" where
  "emap f [] = Inr []"
| "emap f (x # xs) = ebind (f x) (\<lambda>y. ebind (emap f xs) (\<lambda>ys. Inr (y # ys)))"

fun efold :: "('a \<Rightarrow> 's \<Rightarrow> 's result) \<Rightarrow> 'a list \<Rightarrow> 's \<Rightarrow> 's result" where
  "efold f [] s = Inr s"
| "efold f (x # xs) s = ebind (f x s) (efold f xs)"

lemma ebind_Inr_iff [result_simps]: "ebind m f = Inr y \<longleftrightarrow> (\<exists>x. m = Inr x \<and> f x = Inr y)"
  by (cases m) auto

lemma ebind_Inl_iff [result_simps]:
  "ebind m f = Inl e \<longleftrightarrow> m = Inl e \<or> (\<exists>x. m = Inr x \<and> f x = Inl e)"
  by (cases m) auto

lemma emap_Inr_pure [simp]: "emap (\<lambda>x. Inr (f x)) xs = Inr (map f xs)"
  by (induction xs) auto

lemma emap_cong: "xs = ys \<Longrightarrow> (\<And>x. x \<in> set ys \<Longrightarrow> f x = g x) \<Longrightarrow> emap f xs = emap g ys"
proof (induction xs arbitrary: ys)
  case (Cons x xs)
  then show ?case by (cases ys) auto
qed simp

lemma emap_length: "emap f xs = Inr ys \<Longrightarrow> length ys = length xs"
  by (induction xs arbitrary: ys) (auto simp: result_simps)

lemma emap_cong_Inr: "(\<And>x. x \<in> set xs \<Longrightarrow> f x = Inr (g x)) \<Longrightarrow> emap f xs = Inr (map g xs)"
  by (induction xs) auto

lemma efold_append: "efold f (xs @ ys) s = ebind (efold f xs s) (efold f ys)"
proof (induction xs arbitrary: s)
  case Nil
  show ?case by simp
next
  case (Cons x xs)
  then show ?case by (cases "f x s") simp_all
qed

text \<open>
  The loop rule: an invariant that the body keeps wherever it does not raise holds at the end.
\<close>

lemma efold_invariant:
  assumes "efold f xs s = Inr t" and "P s"
    and "\<And>x u v. x \<in> set xs \<Longrightarrow> P u \<Longrightarrow> f x u = Inr v \<Longrightarrow> P v"
  shows "P t"
  using assms by (induction xs arbitrary: s) (auto simp: result_simps)

lemma efold_total:
  assumes "P s" and "\<And>x u. x \<in> set xs \<Longrightarrow> P u \<Longrightarrow> \<exists>v. f x u = Inr v \<and> P v"
  shows "\<exists>t. efold f xs s = Inr t \<and> P t"
  using assms
proof (induction xs arbitrary: s)
  case (Cons x xs)
  from Cons.prems obtain v where v: "f x s = Inr v" "P v" by auto
  have "\<exists>t. efold f xs v = Inr t \<and> P t" by (rule Cons.IH [OF v(2)]) (use Cons.prems(2) in auto)
  with v show ?case by simp
qed simp

lemma emap_Inl: "emap f xs = Inl e \<Longrightarrow> \<exists>x \<in> set xs. f x = Inl e"
  by (induction xs) (auto simp: result_simps)

lemma efold_ok:
  assumes "\<And>x s. x \<in> set xs \<Longrightarrow> \<exists>t. f x s = Inr t"
  shows "\<exists>t. efold f xs s = Inr t"
proof -
  have "\<exists>t. efold f xs s = Inr t \<and> True" by (rule efold_total) (use assms in auto)
  then show ?thesis by simp
qed

lemma emap_ok:
  assumes "\<And>x. x \<in> set xs \<Longrightarrow> \<exists>y. f x = Inr y \<and> P y"
  shows "\<exists>ys. emap f xs = Inr ys \<and> list_all P ys \<and> length ys = length xs"
  using assms
proof (induction xs)
  case (Cons x xs)
  from Cons.prems obtain y where y: "f x = Inr y" "P y" by auto
  from Cons.IH Cons.prems obtain ys where "emap f xs = Inr ys" "list_all P ys" "length ys = length xs" by auto
  with y show ?case by simp
qed simp

lemma emap_total:
  assumes "\<And>x. x \<in> set xs \<Longrightarrow> \<exists>y. f x = Inr y"
  shows "\<exists>ys. emap f xs = Inr ys"
proof -
  have "\<exists>ys. emap f xs = Inr ys \<and> list_all (\<lambda>_. True) ys \<and> length ys = length xs" by (rule emap_ok) (use assms in simp)
  then show ?thesis by blast
qed

lemma emap_list_all2: "emap f xs = Inr ys \<longleftrightarrow> list_all2 (\<lambda>x y. f x = Inr y) xs ys"
proof (induction xs arbitrary: ys)
  case (Cons x xs)
  then show ?case by (cases ys) (auto simp: ebind_Inr_iff)
qed auto

lemma emap_mem: "emap f xs = Inr ys \<Longrightarrow> x \<in> set xs \<Longrightarrow> \<exists>y \<in> set ys. f x = Inr y"
  by (induction xs arbitrary: ys) (auto simp: ebind_Inr_iff)

lemma emap_mem_rev: "emap f xs = Inr ys \<Longrightarrow> y \<in> set ys \<Longrightarrow> \<exists>x \<in> set xs. f x = Inr y"
  by (induction xs arbitrary: ys) (auto simp: ebind_Inr_iff)

text \<open>A loop that yields one row per key gives a table of the keys, in order.\<close>

lemma emap_keys:
  assumes "emap f xs = Inr ys" and "\<forall>x y. f x = Inr y \<longrightarrow> fst y = k x"
  shows "map fst ys = map k xs"
  using assms by (induction xs arbitrary: ys) (fastforce simp: ebind_Inr_iff)+

lemma efold_raises:
  assumes "\<And>x s. x \<in> set xs \<Longrightarrow> f x s \<noteq> Inl e"
  shows "efold f xs s \<noteq> Inl e"
  using assms
proof (induction xs arbitrary: s)
  case (Cons x xs)
  then show ?case by (cases "f x s") auto
qed simp

section \<open>Operations on a state\<close>

text \<open>An operation on a store: what it returns or raises, and the store it leaves behind in either case.\<close>

type_synonym ('s, 'a) op = "'s \<Rightarrow> 'a result \<times> 's"

definition then_op :: "('s, 'a) op \<Rightarrow> ('a \<Rightarrow> ('s, 'c) op) \<Rightarrow> ('s, 'c) op" where
  "then_op m f s = (case m s of (Inl e, t) \<Rightarrow> (Inl e, t) | (Inr x, t) \<Rightarrow> f x t)"

definition pure_op :: "'a result \<Rightarrow> ('s, 'a) op" where
  "pure_op r s = (r, s)"

definition when_op :: "bool \<Rightarrow> ('s, unit) op \<Rightarrow> ('s, unit) op" where
  "when_op b m = (if b then m else pure_op (Inr ()))"

section \<open>Insertion-ordered dictionaries\<close>

text \<open>
  A Python dict is an association list with distinct keys in insertion order:
  \<open>map_of\<close> is \<open>d.get(k)\<close>, \<open>AList.update k v d\<close> is \<open>d[k] = v\<close> (in place when the key
  is there, at the end otherwise), \<open>AList.delete k d\<close> is \<open>d.pop(k, None)\<close>.
\<close>

type_synonym ('k, 'v) dict = "('k \<times> 'v) list"

abbreviation dict_keys :: "('k, 'v) dict \<Rightarrow> 'k list" where
  "dict_keys d \<equiv> map fst d"

abbreviation dict_values :: "('k, 'v) dict \<Rightarrow> 'v list" where
  "dict_values d \<equiv> map snd d"

definition dict_index :: "('k, 'v) dict \<Rightarrow> 'k \<Rightarrow> 'v result" where
  "dict_index d k = (case map_of d k of None \<Rightarrow> Inl KeyError | Some v \<Rightarrow> Inr v)"

definition dict_get :: "('k, 'v) dict \<Rightarrow> 'k \<Rightarrow> 'v \<Rightarrow> 'v" where
  "dict_get d k dflt = (case map_of d k of None \<Rightarrow> dflt | Some v \<Rightarrow> v)"

text \<open>A dict built by a comprehension: later pairs overwrite earlier ones, in place.\<close>

definition dict_of :: "('k \<times> 'v) list \<Rightarrow> ('k, 'v) dict" where
  "dict_of ps = foldl (\<lambda>d (k, v). AList.update k v d) [] ps"

lemma dict_keys_update [dict_simps]:
  "dict_keys (AList.update k v d) = (if k \<in> set (dict_keys d) then dict_keys d else dict_keys d @ [k])"
  by (rule AList.update_keys)

lemma image_keys_update [dict_simps]: "fst ` set (AList.update k v d) = insert k (fst ` set d)"
  by (simp add: dom_map_of_conv_image_fst [symmetric] update_conv')

lemma map_of_update [dict_simps]: "map_of (AList.update k v d) = (map_of d)(k \<mapsto> v)"
  by (rule AList.update_conv')

lemma update_new [dict_simps]: "k \<notin> fst ` set d \<Longrightarrow> AList.update k v d = d @ [(k, v)]"
  by (induction d) auto

lemma dict_get_update [dict_simps]:
  "dict_get (AList.update k v d) k' x = (if k' = k then v else dict_get d k' x)"
  by (auto simp: dict_get_def map_of_update)

lemma distinct_keys_update [simp]:
  "distinct (dict_keys d) \<Longrightarrow> distinct (dict_keys (AList.update k v d))"
  by (simp add: dict_keys_update)

lemma map_of_foldl_update:
  "map_of (foldl (\<lambda>d (k, v). AList.update k v d) d ps) k =
     (case map_of (rev ps) k of None \<Rightarrow> map_of d k | Some v \<Rightarrow> Some v)"
  by (induction ps arbitrary: d) (auto simp: map_of_update map_add_def split: option.splits)

lemma set_keys_foldl_update:
  "fst ` set (foldl (\<lambda>d (k, v). AList.update k v d) d ps) = fst ` set d \<union> fst ` set ps"
proof (induction ps arbitrary: d)
  case (Cons p ps)
  then show ?case by (cases p) (auto simp: update_conv' image_iff dom_map_of_conv_image_fst [symmetric])
qed simp

lemma distinct_keys_foldl_update:
  "distinct (dict_keys d) \<Longrightarrow> distinct (dict_keys (foldl (\<lambda>d (k, v). AList.update k v d) d ps))"
  by (induction ps arbitrary: d) auto

lemma dict_of_snoc: "dict_of (ps @ [(k, v)]) = AList.update k v (dict_of ps)"
  by (simp add: dict_of_def)

lemma dict_of_distinct_id: "distinct (map fst ps) \<Longrightarrow> dict_of ps = ps"
proof (induction ps rule: rev_induct)
  case Nil
  show ?case by (simp add: dict_of_def)
next
  case (snoc p ps)
  obtain k v where p: "p = (k, v)" by (cases p)
  have "AList.update k v ps = ps @ [(k, v)]" if "k \<notin> fst ` set ps"
    using that by (induction ps) auto
  with snoc p show ?case by (simp add: dict_of_snoc)
qed

lemma dict_of_distinct_keys: "distinct (dict_keys (dict_of ps))"
  by (induction ps rule: rev_induct) (auto simp: dict_of_def distinct_update)

lemma set_dict_keys_dict_of: "set (dict_keys (dict_of ps)) = fst ` set ps"
proof (induction ps rule: rev_induct)
  case Nil
  show ?case by (simp add: dict_of_def)
next
  case (snoc p ps)
  then show ?case by (cases p) (auto simp: dict_of_snoc dict_simps)
qed

lemma map_of_dict_of: "map_of (dict_of ps) = map_of (rev ps)"
proof (induction ps rule: rev_induct)
  case Nil
  show ?case by (simp add: dict_of_def)
next
  case (snoc p ps)
  then show ?case by (cases p) (auto simp: dict_of_snoc dict_simps)
qed

lemma dict_index_Inr_iff [result_simps]: "dict_index d k = Inr v \<longleftrightarrow> map_of d k = Some v"
  by (auto simp: dict_index_def split: option.splits)

lemma dict_index_Inl_iff [result_simps]: "dict_index d k = Inl e \<longleftrightarrow> map_of d k = None \<and> e = KeyError"
  by (auto simp: dict_index_def split: option.splits)

section \<open>Sets kept as lists\<close>

text \<open>
  \<open>s.add(x)\<close> on a set whose iteration order is a list; every result about such code that is
  claimed below is about the elements, not about this order, unless the code sorts them.
\<close>

definition set_add :: "'a \<Rightarrow> 'a list \<Rightarrow> 'a list" where
  "set_add x xs = (if x \<in> set xs then xs else xs @ [x])"

lemma set_set_add [simp]: "set (set_add x xs) = insert x (set xs)"
  by (auto simp: set_add_def)

lemma distinct_set_add [simp]: "distinct (set_add x xs) \<longleftrightarrow> distinct xs"
  by (auto simp: set_add_def)

text \<open>Keep the first occurrence of every element, in order.\<close>

fun dedupe_into :: "'a list \<Rightarrow> 'a list \<Rightarrow> 'a list" where
  "dedupe_into seen [] = []"
| "dedupe_into seen (x # xs) =
     (if x \<in> set seen then dedupe_into seen xs else x # dedupe_into (x # seen) xs)"

lemma set_dedupe_into: "set (dedupe_into seen xs) = set xs - set seen"
  by (induction seen xs rule: dedupe_into.induct) auto

lemma distinct_dedupe_into: "distinct (dedupe_into seen xs)"
  by (induction seen xs rule: dedupe_into.induct) (auto simp: set_dedupe_into)

lemma dedupe_into_id: "distinct xs \<Longrightarrow> set xs \<inter> set seen = {} \<Longrightarrow> dedupe_into seen xs = xs"
  by (induction seen xs rule: dedupe_into.induct) auto

section \<open>JSON-like values\<close>

text \<open>
  The values of \<open>dict[str, Any]\<close> specifications. Floats are rationals: every finite float is
  one, and the code modelled here never rounds them.
\<close>

datatype pyval =
    PNone
  | PBool bool
  | PInt int
  | PFloat rat
  | PStr string
  | PList "pyval list"
  | PTuple "pyval list"
  | PDict "(string \<times> pyval) list"

text \<open>\<open>bool(v)\<close>.\<close>

fun py_truthy :: "pyval \<Rightarrow> bool" where
  "py_truthy PNone \<longleftrightarrow> False"
| "py_truthy (PBool b) \<longleftrightarrow> b"
| "py_truthy (PInt i) \<longleftrightarrow> i \<noteq> 0"
| "py_truthy (PFloat r) \<longleftrightarrow> r \<noteq> 0"
| "py_truthy (PStr s) \<longleftrightarrow> s \<noteq> []"
| "py_truthy (PList xs) \<longleftrightarrow> xs \<noteq> []"
| "py_truthy (PTuple xs) \<longleftrightarrow> xs \<noteq> []"
| "py_truthy (PDict d) \<longleftrightarrow> d \<noteq> []"

text \<open>Membership in a dict gives a smaller value, which recursion over values needs.\<close>

lemma pyval_dict_size [termination_simp]:
  "(k, v) \<in> set d \<Longrightarrow> size v < Suc (size_list (size_prod (\<lambda>_. 0) size) d)"
  by (induction d) auto

lemma pyval_dict_size_char [termination_simp]:
  "(k, v) \<in> set d \<Longrightarrow> size v < Suc (size_list (size_prod size size) d)"
  by (induction d) auto

end
