(* ===== verification/TopoSort.thy ===== *)
theory TopoSort
  imports Prelude
begin

text \<open>
  The two topological sorts of the server: the deterministic Kahn sort with a heap
  (\<open>runtime/optimizer/schedule/topo_utils.py\<close>) and the layered sort with a secondary key
  (\<open>utils/graph.py\<close>). Both decrement in-degrees in the same inner loop; one invariant over the
  nodes already emitted and the nodes that are ready carries both correctness proofs.
\<close>

section \<open>Orders that respect edges\<close>

definition in_dep_order :: "('a \<times> 'a) list \<Rightarrow> 'a list \<Rightarrow> bool" where
  "in_dep_order E ns \<longleftrightarrow> (\<forall>xs n ys. ns = xs @ n # ys \<longrightarrow> (\<forall>p. (p, n) \<in> set E \<longrightarrow> p \<in> set xs))"

lemma in_dep_order_Nil [simp]: "in_dep_order E []"
  by (simp add: in_dep_order_def)

lemma in_dep_order_snoc: "in_dep_order E (ns @ [x]) \<longleftrightarrow> in_dep_order E ns \<and> (\<forall>p. (p, x) \<in> set E \<longrightarrow> p \<in> set ns)"
proof (rule iffI)
  assume r: "in_dep_order E (ns @ [x])"
  have "in_dep_order E ns"
    unfolding in_dep_order_def
  proof (intro allI impI)
    fix xs n ys p
    assume "ns = xs @ n # ys" and "(p, n) \<in> set E"
    then have "ns @ [x] = xs @ n # (ys @ [x])" by simp
    with r \<open>(p, n) \<in> set E\<close> show "p \<in> set xs" unfolding in_dep_order_def by blast
  qed
  moreover have "p \<in> set ns" if "(p, x) \<in> set E" for p
    using r that unfolding in_dep_order_def by blast
  ultimately show "in_dep_order E ns \<and> (\<forall>p. (p, x) \<in> set E \<longrightarrow> p \<in> set ns)" by blast
next
  assume r: "in_dep_order E ns \<and> (\<forall>p. (p, x) \<in> set E \<longrightarrow> p \<in> set ns)"
  show "in_dep_order E (ns @ [x])"
    unfolding in_dep_order_def
  proof (intro allI impI)
    fix xs n ys p
    assume split: "ns @ [x] = xs @ n # ys" and e: "(p, n) \<in> set E"
    show "p \<in> set xs"
    proof (cases ys rule: rev_cases)
      case Nil
      with split e r show ?thesis by simp
    next
      case (snoc zs z)
      with split have "ns = xs @ n # zs" by simp
      with r e show ?thesis unfolding in_dep_order_def by blast
    qed
  qed
qed

text \<open>The place of a node in an order; an edge leads to a later place.\<close>

definition place :: "'a list \<Rightarrow> 'a \<Rightarrow> nat" where
  "place ns x = length (takeWhile (\<lambda>y. y \<noteq> x) ns)"

lemma in_dep_order_place:
  assumes "in_dep_order E ns" and "distinct ns" and "(p, n) \<in> set E" and "n \<in> set ns"
  shows "p \<in> set ns" and "place ns p < place ns n"
proof -
  from assms(4) obtain xs ys where ns: "ns = xs @ n # ys" and fresh: "n \<notin> set xs"
    by (meson split_list_first)
  from assms(1,3) ns have p: "p \<in> set xs" unfolding in_dep_order_def by blast
  with ns show "p \<in> set ns" by simp
  from p obtain us vs where xs: "xs = us @ p # vs" and "p \<notin> set us"
    by (meson split_list_first)
  then have "takeWhile (\<lambda>y. y \<noteq> p) ns = us"
    using ns by (simp add: takeWhile_append)
  moreover have "takeWhile (\<lambda>y. y \<noteq> n) ns = xs"
    using ns fresh by (simp add: takeWhile_append)
  ultimately show "place ns p < place ns n" using xs by (simp add: place_def)
qed

text \<open>A list that lists every node and respects the edges shows that there is no cycle.\<close>

lemma in_dep_order_acyclic:
  assumes "in_dep_order E ns" and "distinct ns" and "snd ` set E \<subseteq> set ns"
  shows "acyclic (set E)"
proof -
  have "set E \<subseteq> measure (place ns)"
    using in_dep_order_place(2) [OF assms(1,2)] assms(3) by force
  then show ?thesis by (meson acyclic_subset wf_acyclic wf_measure)
qed

section \<open>The inner loop: decrement the successors, push those that reach zero\<close>

fun relax :: "('a \<Rightarrow> 'a list \<Rightarrow> 'a list) \<Rightarrow> 'a list \<Rightarrow> ('a \<Rightarrow> int) \<times> 'a list \<Rightarrow> ('a \<Rightarrow> int) \<times> 'a list" where
  "relax push [] s = s"
| "relax push (c # cs) (indeg, ready) =
     (let d = indeg c - 1
      in relax push cs (indeg(c := d), if d = 0 then push c ready else ready))"

definition succs :: "('a \<times> 'a) list \<Rightarrow> 'a \<Rightarrow> 'a list" where
  "succs E x = map snd (filter (\<lambda>e. fst e = x) E)"

definition kahn_inv :: "'a set \<Rightarrow> ('a \<times> 'a) list \<Rightarrow> 'a list \<Rightarrow> 'a list \<Rightarrow> ('a \<Rightarrow> int) \<Rightarrow> bool" where
  "kahn_inv N E D P indeg \<longleftrightarrow>
     distinct (D @ P) \<and> set (D @ P) \<subseteq> N \<and> in_dep_order E D \<and>
     (\<forall>n\<in>N. indeg n = int (length (filter (\<lambda>e. snd e = n \<and> fst e \<notin> set D) E))) \<and>
     (\<forall>n\<in>N. indeg n = 0 \<longleftrightarrow> n \<in> set (D @ P))"

lemma kahn_inv_cong: "mset P = mset Q \<Longrightarrow> kahn_inv N E D P indeg \<Longrightarrow> kahn_inv N E D Q indeg"
  unfolding kahn_inv_def using mset_eq_imp_distinct_iff [of P Q] mset_eq_setD [of P Q] by auto

lemma kahn_inv_zero: "kahn_inv N E D P indeg \<Longrightarrow> n \<in> N \<Longrightarrow> indeg n = 0 \<longleftrightarrow> n \<in> set (D @ P)"
  unfolding kahn_inv_def by blast

lemma count_succs: "count_list (succs E x) n = length (filter (\<lambda>e. fst e = x \<and> snd e = n) E)"
  by (induction E) (auto simp: succs_def)

lemma length_filter_split:
  "length (filter P xs) = length (filter (\<lambda>x. P x \<and> Q x) xs) + length (filter (\<lambda>x. P x \<and> \<not> Q x) xs)"
  by (induction xs) auto

lemma add_mset_set_insert:
  "finite A \<Longrightarrow> c \<notin> A \<Longrightarrow> add_mset c M + mset_set A = M + mset_set (insert c A)"
  by simp

text \<open>The contract of the ready collection: pushing keeps what is there and adds the node.\<close>

locale ready_queue =
  fixes push :: "'a \<Rightarrow> 'a list \<Rightarrow> 'a list"
  assumes mset_push: "mset (push x r) = add_mset x (mset r)"
begin

lemma relax_indeg: "fst (relax push cs (indeg, r)) n = indeg n - int (count_list cs n)"
  by (induction cs arbitrary: indeg r) (auto simp: Let_def)

lemma relax_ready:
  "mset (snd (relax push cs (indeg, r))) =
     mset r + mset_set {n \<in> set cs. 1 \<le> indeg n \<and> indeg n \<le> int (count_list cs n)}"
proof (induction cs arbitrary: indeg r)
  case Nil
  show ?case by simp
next
  case (Cons c cs)
  let ?indeg = "indeg(c := indeg c - 1)"
  let ?new = "{n \<in> set cs. 1 \<le> ?indeg n \<and> ?indeg n \<le> int (count_list cs n)}"
  let ?all = "{n \<in> set (c # cs). 1 \<le> indeg n \<and> indeg n \<le> int (count_list (c # cs) n)}"
  show ?case
  proof (cases "indeg c = 1")
    case True
    then have new: "?all = insert c ?new" by auto
    have "mset (snd (relax push (c # cs) (indeg, r))) = mset (snd (relax push cs (?indeg, push c r)))"
      using True by simp
    also have "\<dots> = add_mset c (mset r) + mset_set ?new"
      by (simp only: Cons.IH mset_push)
    also have "\<dots> = mset r + mset_set (insert c ?new)"
      by (rule add_mset_set_insert) (use True in auto)
    finally show ?thesis by (simp only: new)
  next
    case False
    have "c \<in> set cs" if "1 \<le> indeg c - 1" and "indeg c - 1 \<le> int (count_list cs c)"
      using that by (cases "c \<in> set cs") (auto simp: count_list_0_iff [THEN iffD2])
    with False have new: "?all = ?new" by auto
    have "snd (relax push (c # cs) (indeg, r)) = snd (relax push cs (?indeg, r))"
      using False by simp
    then show ?thesis by (simp only: new Cons.IH)
  qed
qed

lemma kahn_step:
  assumes E: "set E \<subseteq> N \<times> N"
    and inv: "kahn_inv N E D (x # Q @ R) indeg"
    and rel: "relax push (succs E x) (indeg, R) = (indeg', R')"
  shows "kahn_inv N E (D @ [x]) (Q @ R') indeg'"
proof -
  let ?c = "\<lambda>n. length (filter (\<lambda>e. fst e = x \<and> snd e = n) E)"
  let ?rest = "\<lambda>n. length (filter (\<lambda>e. snd e = n \<and> fst e \<notin> set (D @ [x])) E)"
  from inv have xN: "x \<in> N" and fresh: "x \<notin> set D" by (auto simp: kahn_inv_def)
  have split: "indeg n = int (?rest n) + int (?c n)" if "n \<in> N" for n
  proof -
    from inv that have "indeg n = int (length (filter (\<lambda>e. snd e = n \<and> fst e \<notin> set D) E))"
      by (simp add: kahn_inv_def)
    also have "\<dots> = int (length (filter (\<lambda>e. (snd e = n \<and> fst e \<notin> set D) \<and> fst e = x) E))
        + int (length (filter (\<lambda>e. (snd e = n \<and> fst e \<notin> set D) \<and> fst e \<noteq> x) E))"
      by (subst length_filter_split [where Q = "\<lambda>e. fst e = x"]) simp
    also have "filter (\<lambda>e. (snd e = n \<and> fst e \<notin> set D) \<and> fst e = x) E = filter (\<lambda>e. fst e = x \<and> snd e = n) E"
      by (rule filter_cong) (use fresh in auto)
    also have "filter (\<lambda>e. (snd e = n \<and> fst e \<notin> set D) \<and> fst e \<noteq> x) E =
        filter (\<lambda>e. snd e = n \<and> fst e \<notin> set (D @ [x])) E"
      by (rule filter_cong) auto
    finally show ?thesis by simp
  qed
  have succN: "n \<in> N" if "n \<in> set (succs E x)" for n
    using that E by (auto simp: succs_def)
  have indeg': "indeg' n = int (?rest n)" if "n \<in> N" for n
    using relax_indeg [of "succs E x" indeg R n] rel split [OF that] by (simp add: count_succs)
  define A where "A = {n \<in> set (succs E x). 1 \<le> indeg n \<and> indeg n \<le> int (count_list (succs E x) n)}"
  have "mset R' = mset R + mset_set A"
    using relax_ready [of "succs E x" indeg R] rel by (simp add: A_def)
  then have R': "mset (Q @ R') = mset (Q @ R) + mset_set A" by simp
  have finA: "finite A" by (simp add: A_def)
  have new_iff: "n \<in> A \<longleftrightarrow> n \<in> N \<and> 0 < indeg n \<and> indeg' n = 0" for n
  proof -
    have "n \<in> set (succs E x) \<longleftrightarrow> 0 < ?c n"
      unfolding count_succs [symmetric] by (metis count_list_0_iff neq0_conv)
    then show ?thesis
      using succN [of n] split [of n] indeg' [of n] by (auto simp: A_def count_succs Suc_le_eq)
  qed
  have dist: "distinct ((D @ [x]) @ Q @ R')"
  proof -
    from inv have "distinct (D @ x # Q @ R)" and zero: "\<forall>n \<in> set (D @ x # Q @ R). n \<in> N \<and> indeg n = 0"
      by (auto simp: kahn_inv_def)
    moreover obtain zs where zs: "set zs = A" "distinct zs"
      using finite_distinct_list [OF finA] by auto
    moreover have "set zs \<inter> set (D @ x # Q @ R) = {}"
      using zero new_iff zs(1) by fastforce
    ultimately have "distinct (D @ x # Q @ R @ zs)" by auto
    moreover have "mset (D @ x # Q @ R @ zs) = mset ((D @ [x]) @ Q @ R')"
      using R' zs mset_set_set [of zs] by simp
    ultimately show ?thesis using mset_eq_imp_distinct_iff by blast
  qed
  have members: "set (Q @ R') = set (Q @ R) \<union> A"
    using arg_cong [OF R', of set_mset] finA by simp
  have sub: "set ((D @ [x]) @ Q @ R') \<subseteq> N"
    using members inv new_iff by (auto simp: kahn_inv_def)
  have ord: "in_dep_order E (D @ [x])"
  proof -
    have "p \<in> set D" if "(p, x) \<in> set E" for p
    proof (rule ccontr)
      assume "p \<notin> set D"
      with that have "filter (\<lambda>e. snd e = x \<and> fst e \<notin> set D) E \<noteq> []"
        by (force simp: filter_empty_conv)
      with inv xN show False by (auto simp: kahn_inv_def)
    qed
    with inv show ?thesis by (simp add: kahn_inv_def in_dep_order_snoc)
  qed
  have zero': "indeg' n = 0 \<longleftrightarrow> n \<in> set ((D @ [x]) @ Q @ R')" if "n \<in> N" for n
  proof -
    have "0 \<le> indeg n" and "0 \<le> indeg' n" and "indeg' n \<le> indeg n"
      using split [OF that] indeg' [OF that] by simp_all
    then have "indeg' n = 0 \<longleftrightarrow> indeg n = 0 \<or> n \<in> A"
      using new_iff [of n] that by (cases "indeg n = 0") simp_all
    also have "\<dots> \<longleftrightarrow> n \<in> set (D @ x # Q @ R) \<union> A"
      using kahn_inv_zero [OF inv that] by simp
    also have "set (D @ x # Q @ R) \<union> A = set ((D @ [x]) @ Q @ R')"
      unfolding set_append members using members by auto
    finally show ?thesis .
  qed
  show ?thesis unfolding kahn_inv_def using dist sub ord indeg' zero' by blast
qed

end

interpretation heap_ready: ready_queue "insort :: 'a::linorder \<Rightarrow> 'a list \<Rightarrow> 'a list"
  by unfold_locales simp

interpretation layer_ready: ready_queue "\<lambda>x r. r @ [x]"
  by unfold_locales simp

section \<open>What the invariant gives at the end\<close>

lemma kahn_finish_respects:
  assumes "kahn_inv N E D [] indeg" and "finite N" and "card N \<le> length D"
  shows "set D = N \<and> distinct D \<and> in_dep_order E D"
proof -
  from assms(1) have D: "distinct D" "set D \<subseteq> N" "in_dep_order E D"
    by (auto simp: kahn_inv_def)
  then have "card (set D) = length D" by (simp add: distinct_card)
  with D assms(2,3) have "set D = N"
    by (metis card_subset_eq card_mono dual_order.antisym)
  with D show ?thesis by simp
qed

lemma kahn_finish_cycle:
  assumes inv: "kahn_inv N E D [] indeg" and short: "length D < card N" and E: "set E \<subseteq> N \<times> N"
    and fin: "finite N"
  shows "\<not> acyclic (set E)"
proof
  assume "acyclic (set E)"
  then have "wf (set E)" by (rule finite_acyclic_wf [OF finite_set])
  from inv have "card (set D) = length D" by (simp add: kahn_inv_def distinct_card)
  with short fin inv have "\<exists>n. n \<in> N - set D"
    by (metis Diff_eq_empty_iff ex_in_conv List.finite_set card_mono not_less)
  with \<open>wf (set E)\<close> obtain n where n: "n \<in> N - set D" and
    min: "\<And>p. (p, n) \<in> set E \<Longrightarrow> p \<notin> N - set D"
    unfolding wf_eq_minimal by meson
  have "filter (\<lambda>e. snd e = n \<and> fst e \<notin> set D) E = []"
    using min E by (force simp: filter_empty_conv)
  with inv n show False by (auto simp: kahn_inv_def)
qed

lemma in_dep_order_acyclic_iff:
  assumes "set E \<subseteq> N \<times> N" and "kahn_inv N E D [] indeg" and "finite N"
  shows "length D = card N \<longleftrightarrow> acyclic (set E)"
proof
  assume "length D = card N"
  with kahn_finish_respects [OF assms(2,3)] have D: "set D = N" "distinct D" "in_dep_order E D" by auto
  show "acyclic (set E)"
    by (rule in_dep_order_acyclic [OF D(3) D(2)]) (use D(1) assms(1) in auto)
next
  assume ac: "acyclic (set E)"
  have "length D \<le> card N"
    using assms(2,3) by (auto simp: kahn_inv_def card_mono distinct_card [symmetric])
  with kahn_finish_cycle [OF assms(2) _ assms(1,3)] ac show "length D = card N" by fastforce
qed

section \<open>Kahn's sort with a heap\<close>

text \<open>
  \<open>topo_utils.topological_order\<close>. The node set is built as the code builds it; a Python set has
  no order of its own, so the enumeration \<open>ns\<close> stands for whatever order its iteration has, and
  the result is shown not to depend on it. The heap is the sorted list of its elements:
  \<open>heappush\<close> is \<open>insort\<close> and \<open>heappop\<close> takes the head.
\<close>

definition kahn_node_set :: "('a, 'a list) dict \<Rightarrow> 'a list option \<Rightarrow> 'a list" where
  "kahn_node_set deps nodes =
     foldl (\<lambda>ns (n, parents).
              if nodes = None \<or> n \<in> set ns
              then foldl (\<lambda>ns p. if nodes = None \<or> p \<in> set ns then set_add p ns else ns) ns parents
              else ns)
       (case nodes of None \<Rightarrow> dict_keys deps | Some xs \<Rightarrow> dedupe_into [] xs) deps"

definition kahn_edges :: "('a, 'a list) dict \<Rightarrow> 'a list \<Rightarrow> ('a \<times> 'a) list" where
  "kahn_edges deps ns = [(p, n). n \<leftarrow> ns, p \<leftarrow> dict_get deps n [], p \<in> set ns]"

text \<open>One pass over the edges fills \<open>indegree\<close> and \<open>children\<close>.\<close>

definition kahn_tables :: "('a \<times> 'a) list \<Rightarrow> ('a \<Rightarrow> int) \<times> ('a \<Rightarrow> 'a list)" where
  "kahn_tables es =
     foldl (\<lambda>(indeg, children) (p, n). (indeg(n := indeg n + 1), children(p := children p @ [n])))
       (\<lambda>_. 0, \<lambda>_. []) es"

fun kahn_loop :: "nat \<Rightarrow> ('a::linorder \<Rightarrow> 'a list) \<Rightarrow> 'a list \<Rightarrow> ('a \<Rightarrow> int) \<Rightarrow> 'a list \<Rightarrow> 'a list result" where
  "kahn_loop fuel children [] indeg order = Inr order"
| "kahn_loop 0 children (x # ready) indeg order = Inl Diverges"
| "kahn_loop (Suc fuel) children (x # ready) indeg order =
     (let (indeg', ready') = relax insort (children x) (indeg, ready)
      in kahn_loop fuel children ready' indeg' (order @ [x]))"

definition kahn_run :: "('a::linorder, 'a list) dict \<Rightarrow> 'a list \<Rightarrow> 'a list result" where
  "kahn_run deps ns =
     (let (indeg, children) = kahn_tables (kahn_edges deps ns);
          ready = sort (filter (\<lambda>n. indeg n = 0) ns)
      in ebind (kahn_loop (length ns) children ready indeg [])
           (\<lambda>order. if length order \<noteq> length ns
                    then Inl (ValueError ''Cycle detected or missing nodes when building topo order'')
                    else Inr order))"

definition topological_order :: "('a::linorder, 'a list) dict \<Rightarrow> 'a list option \<Rightarrow> 'a list result" where
  "topological_order deps nodes = kahn_run deps (kahn_node_set deps nodes)"

lemma kahn_tables_snoc:
  "kahn_tables (es @ [(p, n)]) =
     (let (indeg, children) = kahn_tables es
      in (indeg(n := indeg n + 1), children(p := children p @ [n])))"
  by (simp add: kahn_tables_def split: prod.splits)

lemma kahn_tables_eq:
  "kahn_tables es = (\<lambda>n. int (length (filter (\<lambda>e. snd e = n) es)), succs es)"
proof (induction es rule: rev_induct)
  case Nil
  show ?case by (simp add: kahn_tables_def succs_def fun_eq_iff)
next
  case (snoc e es)
  then show ?case by (cases e) (auto simp: kahn_tables_snoc succs_def fun_eq_iff)
qed

lemma kahn_init:
  assumes "distinct ns" and "set E \<subseteq> set ns \<times> set ns" and "mset P = mset (filter (\<lambda>n. indeg n = 0) ns)"
    and "\<And>n. n \<in> set ns \<Longrightarrow> indeg n = int (length (filter (\<lambda>e. snd e = n) E))"
  shows "kahn_inv (set ns) E [] P indeg"
proof -
  have "kahn_inv (set ns) E [] (filter (\<lambda>n. indeg n = 0) ns) indeg"
    using assms(1,4) by (auto simp: kahn_inv_def)
  then show ?thesis by (rule kahn_inv_cong [rotated]) (simp add: assms(3))
qed

lemma kahn_inv_length: "kahn_inv N E D P indeg \<Longrightarrow> finite N \<Longrightarrow> length D + length P \<le> card N"
  unfolding kahn_inv_def by (metis card_mono distinct_card length_append)

lemma kahn_loop_total:
  assumes "set E \<subseteq> N \<times> N" and "finite N" and "kahn_inv N E D P indeg" and "card N \<le> fuel + length D"
  shows "\<exists>order indeg'. kahn_loop fuel (succs E) P indeg D = Inr order \<and> kahn_inv N E order [] indeg'"
  using assms(3,4)
proof (induction fuel "succs E" P indeg D rule: kahn_loop.induct)
  case (1 fuel indeg order)
  then show ?case by auto
next
  case (2 x ready indeg order)
  with kahn_inv_length [OF "2.prems"(1) assms(2)] show ?case by simp
next
  case (3 fuel x ready indeg order)
  obtain indeg' ready' where rel: "relax insort (succs E x) (indeg, ready) = (indeg', ready')"
    by fastforce
  have "kahn_inv N E (order @ [x]) ready' indeg'"
    using heap_ready.kahn_step [OF assms(1) _ rel, of order "[]"] "3.prems"(1) by simp
  with "3.hyps" [OF rel [symmetric]] "3.prems"(2) rel show ?case by simp
qed

lemma kahn_edges_subset: "set (kahn_edges deps ns) \<subseteq> set ns \<times> set ns"
  by (auto simp: kahn_edges_def)

lemma kahn_run_cases:
  assumes "distinct ns"
  shows "\<exists>order indeg. kahn_inv (set ns) (kahn_edges deps ns) order [] indeg \<and>
           kahn_run deps ns = (if length order \<noteq> length ns
             then Inl (ValueError ''Cycle detected or missing nodes when building topo order'')
             else Inr order)"
proof -
  let ?E = "kahn_edges deps ns"
  let ?indeg = "\<lambda>n. int (length (filter (\<lambda>e. snd e = n) ?E))"
  let ?ready = "sort (filter (\<lambda>n. ?indeg n = 0) ns)"
  have "kahn_inv (set ns) ?E [] ?ready ?indeg"
    by (rule kahn_init [OF assms kahn_edges_subset]) simp_all
  then obtain order indeg' where
    "kahn_loop (length ns) (succs ?E) ?ready ?indeg [] = Inr order \<and> kahn_inv (set ns) ?E order [] indeg'"
    using kahn_loop_total [OF kahn_edges_subset _ _, of ns deps "[]" ?ready ?indeg "length ns"]
      distinct_card [OF assms] by auto
  then show ?thesis
    by (intro exI [of _ order] exI [of _ indeg']) (simp add: kahn_run_def kahn_tables_eq)
qed

lemma set_kahn_node_set_None:
  "set (kahn_node_set deps None) = fst ` set deps \<union> (\<Union>(n, parents) \<in> set deps. set parents)"
proof -
  have inner: "set (foldl (\<lambda>ns p. set_add p ns) ns ps) = set ns \<union> set ps" for ns ps :: "'a list"
    by (induction ps arbitrary: ns) auto
  have "set (foldl (\<lambda>ns (n, parents). foldl (\<lambda>ns p. set_add p ns) ns parents) ns ds) =
      set ns \<union> (\<Union>(n, parents) \<in> set ds. set parents)" for ns :: "'a list" and ds :: "('a, 'a list) dict"
    by (induction ds arbitrary: ns) (auto simp: inner)
  then show ?thesis by (simp add: kahn_node_set_def)
qed

lemma kahn_node_set_Some: "kahn_node_set deps (Some ns) = dedupe_into [] ns"
proof -
  have inner: "foldl (\<lambda>ns p. if p \<in> set ns then set_add p ns else ns) ns ps = ns" for ns ps :: "'a list"
    by (induction ps arbitrary: ns) (auto simp: set_add_def)
  have "foldl (\<lambda>ns (n, parents). if n \<in> set ns
      then foldl (\<lambda>ns p. if p \<in> set ns then set_add p ns else ns) ns parents else ns) ns ds = ns"
    for ns :: "'a list" and ds :: "('a, 'a list) dict"
    by (induction ds arbitrary: ns) (auto simp: inner)
  then show ?thesis by (simp add: kahn_node_set_def cong: if_cong)
qed

lemma distinct_kahn_node_set: "distinct (dict_keys deps) \<Longrightarrow> distinct (kahn_node_set deps nodes)"
proof -
  assume "distinct (dict_keys deps)"
  have inner: "distinct ns \<Longrightarrow> distinct (foldl (\<lambda>ns p. set_add p ns) ns ps)" for ns ps :: "'a list"
    by (induction ps arbitrary: ns) auto
  have "distinct ns \<Longrightarrow> distinct (foldl (\<lambda>ns (n, parents). foldl (\<lambda>ns p. set_add p ns) ns parents) ns ds)"
    for ns :: "'a list" and ds :: "('a, 'a list) dict"
    by (induction ds arbitrary: ns) (auto simp: inner)
  with \<open>distinct (dict_keys deps)\<close> show ?thesis
    by (cases nodes) (auto simp: kahn_node_set_Some distinct_dedupe_into, simp add: kahn_node_set_def)
qed

subsection \<open>The result does not depend on the iteration order of the node set\<close>

lemma sorted_relax_insort: "sorted r \<Longrightarrow> sorted (snd (relax insort cs (indeg, r)))"
  by (induction cs arbitrary: indeg r) (auto simp: Let_def sorted_insort)

lemma relax_insort_mset_cong:
  assumes "mset cs = mset ds" and "sorted r"
  shows "relax insort cs (indeg, r) = relax insort ds (indeg, r)"
proof -
  have count: "count_list cs n = count_list ds n" for n
    using assms(1) by (metis count_mset)
  have "fst (relax insort cs (indeg, r)) = fst (relax insort ds (indeg, r))"
    by (simp add: fun_eq_iff heap_ready.relax_indeg count)
  moreover have "snd (relax insort cs (indeg, r)) = snd (relax insort ds (indeg, r))"
  proof -
    have "mset (snd (relax insort cs (indeg, r))) = mset (snd (relax insort ds (indeg, r)))"
      using mset_eq_setD [OF assms(1)] by (simp add: heap_ready.relax_ready count)
    with sorted_relax_insort [OF assms(2)] show ?thesis
      by (metis properties_for_sort sorted_sort_id)
  qed
  ultimately show ?thesis by (rule prod_eqI)
qed

lemma kahn_loop_mset_cong:
  assumes "\<And>x. mset (ch x) = mset (ch' x)" and "sorted ready"
  shows "kahn_loop fuel ch ready indeg order = kahn_loop fuel ch' ready indeg order"
  using assms
proof (induction fuel ch ready indeg order rule: kahn_loop.induct)
  case (3 fuel ch x ready indeg order)
  obtain indeg' ready' where rel: "relax insort (ch x) (indeg, ready) = (indeg', ready')"
    by fastforce
  have "sorted ready" using "3.prems" by simp
  with relax_insort_mset_cong [OF "3.prems"(1)] rel
  have "relax insort (ch' x) (indeg, ready) = (indeg', ready')" by metis
  moreover have "sorted ready'"
    using sorted_relax_insort [OF \<open>sorted ready\<close>, of "ch x" indeg] rel by simp
  ultimately show ?case using "3.IH" [OF rel [symmetric] refl "3.prems"(1)] rel by simp
qed auto

lemma mset_concat_map_cong: "mset xs = mset ys \<Longrightarrow> mset (concat (map f xs)) = mset (concat (map f ys))"
  by (simp add: mset_concat sum_mset_sum_list [symmetric] multiset.map_comp del: sum_mset_sum_list)

lemma mset_kahn_edges: "mset ns = mset ms \<Longrightarrow> mset (kahn_edges deps ns) = mset (kahn_edges deps ms)"
  unfolding kahn_edges_def using mset_eq_setD [of ns ms] mset_concat_map_cong [of ns ms] by simp

lemma mset_succs: "mset E = mset F \<Longrightarrow> mset (succs E x) = mset (succs F x)"
  unfolding succs_def by (metis mset_filter mset_map)

lemma length_filter_mset: "mset E = mset F \<Longrightarrow> length (filter P E) = length (filter P F)"
  by (metis mset_filter size_mset)

lemma kahn_run_mset_cong:
  assumes "mset ns = mset ms"
  shows "kahn_run deps ns = kahn_run deps ms"
proof -
  let ?E = "kahn_edges deps ns" and ?F = "kahn_edges deps ms"
  let ?indeg = "\<lambda>n. int (length (filter (\<lambda>e. snd e = n) ?E))"
  have E: "mset ?E = mset ?F" by (rule mset_kahn_edges [OF assms])
  then have indeg: "(\<lambda>n. int (length (filter (\<lambda>e. snd e = n) ?F))) = ?indeg"
    by (metis length_filter_mset)
  have ready: "sort (filter (\<lambda>n. ?indeg n = 0) ms) = sort (filter (\<lambda>n. ?indeg n = 0) ns)"
    by (rule properties_for_sort) (simp_all only: mset_sort mset_filter assms sorted_sort)
  have "kahn_loop k (succs ?E) (sort R) i D = kahn_loop k (succs ?F) (sort R) i D" for k R i D
    by (rule kahn_loop_mset_cong [OF mset_succs [OF E]]) simp
  moreover have "length ns = length ms" using assms by (metis size_mset)
  ultimately show ?thesis
    unfolding kahn_run_def kahn_tables_eq Let_def prod.case indeg ready by simp
qed

subsection \<open>Properties\<close>

text \<open>
  Kahn's sort returns either an order that lists every node exactly once and puts every
  node after its parents, or a ValueError, and it raises exactly when the dependencies among
  the nodes are cyclic; it never runs on for ever.
\<close>

theorem topological_order_correct:
  assumes "distinct (dict_keys deps)"
  shows "case topological_order deps nodes of
           Inr order \<Rightarrow> distinct order \<and> set order = set (kahn_node_set deps nodes) \<and>
             in_dep_order (kahn_edges deps (kahn_node_set deps nodes)) order \<and>
             acyclic (set (kahn_edges deps (kahn_node_set deps nodes)))
         | Inl e \<Rightarrow> e = ValueError ''Cycle detected or missing nodes when building topo order'' \<and>
             \<not> acyclic (set (kahn_edges deps (kahn_node_set deps nodes)))"
proof -
  let ?ns = "kahn_node_set deps nodes"
  have dist: "distinct ?ns" by (rule distinct_kahn_node_set [OF assms])
  obtain order indeg where inv: "kahn_inv (set ?ns) (kahn_edges deps ?ns) order [] indeg" and
    run: "kahn_run deps ?ns = (if length order \<noteq> length ?ns
      then Inl (ValueError ''Cycle detected or missing nodes when building topo order'') else Inr order)"
    using kahn_run_cases [OF dist] by blast
  note iff = in_dep_order_acyclic_iff [OF kahn_edges_subset inv finite_set, unfolded distinct_card [OF dist]]
  show ?thesis
    using iff kahn_finish_respects [OF inv finite_set] distinct_card [OF dist]
    by (auto simp: topological_order_def run)
qed

theorem topological_order_correct_witness:
  "case topological_order [(''b'', [''a'']), (''c'', [''a'', ''b''])] None of
     Inr order \<Rightarrow> order = [''a'', ''b'', ''c''] \<and> acyclic (set (kahn_edges [(''b'', [''a'']), (''c'', [''a'', ''b''])]
       (kahn_node_set [(''b'', [''a'']), (''c'', [''a'', ''b''])] None)))
   | Inl e \<Rightarrow> False"
proof -
  have "topological_order [(''b'', [''a'']), (''c'', [''a'', ''b''])] None = Inr [''a'', ''b'', ''c'']"
    by code_simp
  then show ?thesis
    using topological_order_correct [of "[(''b'', [''a'']), (''c'', [''a'', ''b''])]" None] by simp
qed

text \<open>
  The order is deterministic: whatever order the iteration over the node set takes, the
  result (or the error) is the same.
\<close>

theorem topological_order_deterministic:
  assumes "distinct ns" and "set ns = set (kahn_node_set deps nodes)" and "distinct (dict_keys deps)"
  shows "kahn_run deps ns = topological_order deps nodes"
proof -
  have "mset ns = mset (kahn_node_set deps nodes)"
    using assms distinct_kahn_node_set set_eq_iff_mset_eq_distinct by blast
  then show ?thesis unfolding topological_order_def by (rule kahn_run_mset_cong)
qed

theorem topological_order_deterministic_witness:
  "kahn_run [(2, [3, 1 :: nat]), (3, [1])] [3, 2, 1] = topological_order [(2, [3, 1]), (3, [1])] None"
  by (rule topological_order_deterministic) (auto simp: set_kahn_node_set_None)

section \<open>The layered sort\<close>

text \<open>
  \<open>utils/graph.py\<close>. The graph maps a node to the set of its successors; the sets are lists in
  their iteration order. All nodes that are ready together form a layer, sorted (stably) by the
  secondary key when there is one, and emitted as a block.
\<close>

definition layer_nodes :: "('a, 'a list) dict \<Rightarrow> 'a list" where
  "layer_nodes graph = foldl (\<lambda>ns (n, nbrs). foldl (\<lambda>ns m. set_add m ns) ns nbrs) (dict_keys graph) graph"

definition layer_edges :: "('a, 'a list) dict \<Rightarrow> ('a \<times> 'a) list" where
  "layer_edges graph = [(n, m). (n, nbrs) \<leftarrow> graph, m \<leftarrow> nbrs]"

definition layer_indegree :: "('a, 'a list) dict \<Rightarrow> 'a \<Rightarrow> int" where
  "layer_indegree graph = foldl (\<lambda>indeg (n, m). indeg(m := indeg m + 1)) (\<lambda>_. 0) (layer_edges graph)"

definition layer_pass :: "('a, 'a list) dict \<Rightarrow> 'a list \<Rightarrow> ('a \<Rightarrow> int) \<Rightarrow> ('a \<Rightarrow> int) \<times> 'a list" where
  "layer_pass graph layer indeg =
     foldl (\<lambda>s n. relax (\<lambda>m r. r @ [m]) (dict_get graph n []) s) (indeg, []) layer"

fun layer_loop ::
  "nat \<Rightarrow> ('a \<Rightarrow> 'k::linorder) option \<Rightarrow> ('a, 'a list) dict \<Rightarrow> 'a list \<Rightarrow> ('a \<Rightarrow> int) \<Rightarrow> 'a list \<Rightarrow> 'a list result" where
  "layer_loop fuel key graph [] indeg res = Inr res"
| "layer_loop 0 key graph (x # ready) indeg res = Inl Diverges"
| "layer_loop (Suc fuel) key graph (x # ready) indeg res =
     (let layer = (case key of None \<Rightarrow> x # ready | Some k \<Rightarrow> sort_key k (x # ready));
          (indeg', ready') = layer_pass graph layer indeg
      in layer_loop fuel key graph ready' indeg' (res @ layer))"

definition topological_sort :: "('a, 'a list) dict \<Rightarrow> ('a \<Rightarrow> 'k::linorder) option \<Rightarrow> 'a list result" where
  "topological_sort graph secondary_key =
     (let ns = layer_nodes graph;
          indeg = layer_indegree graph;
          ready = filter (\<lambda>n. indeg n = 0) ns
      in ebind (layer_loop (length ns) secondary_key graph ready indeg [])
           (\<lambda>res. if length res \<noteq> length ns then Inl (ValueError ''Graph has at least one cycle.'')
                  else Inr res))"

lemma layer_indegree_eq:
  "layer_indegree graph = (\<lambda>n. int (length (filter (\<lambda>e. snd e = n) (layer_edges graph))))"
proof -
  have "foldl (\<lambda>indeg (n, m). indeg(m := indeg m + 1)) (\<lambda>_. 0) es =
      (\<lambda>n. int (length (filter (\<lambda>e. snd e = n) es)))" for es :: "('a \<times> 'a) list"
    by (induction es rule: rev_induct) (auto simp: fun_eq_iff)
  then show ?thesis by (simp add: layer_indegree_def)
qed

lemma succs_layer_edges: "distinct (dict_keys graph) \<Longrightarrow> succs (layer_edges graph) n = dict_get graph n []"
proof (induction graph)
  case Nil
  show ?case by (simp add: succs_def layer_edges_def dict_get_def)
next
  case (Cons e graph)
  obtain m nbrs where e: "e = (m, nbrs)" by (cases e)
  have split: "succs (layer_edges (e # graph)) n =
      map snd (filter (\<lambda>f. fst f = n) (map (Pair m) nbrs)) @ succs (layer_edges graph) n"
    by (simp add: succs_def layer_edges_def e)
  have own: "map snd (filter (\<lambda>f. fst f = n) (map (Pair m) nbrs)) = (if m = n then nbrs else [])"
    by (simp add: filter_map o_def)
  show ?case
  proof (cases "m = n")
    case True
    have "n \<notin> fst ` set graph" using Cons.prems e True by simp
    then have "map_of graph n = None" by (simp add: map_of_eq_None_iff)
    then show ?thesis unfolding split own using Cons e True by (simp add: dict_get_def)
  next
    case False
    then show ?thesis unfolding split own using Cons e by (simp add: dict_get_def)
  qed
qed

lemma set_layer_nodes: "set (layer_nodes graph) = fst ` set graph \<union> (\<Union>(n, nbrs) \<in> set graph. set nbrs)"
proof -
  have "layer_nodes graph = kahn_node_set graph None"
    by (simp add: layer_nodes_def kahn_node_set_def)
  then show ?thesis by (simp add: set_kahn_node_set_None)
qed

lemma distinct_layer_nodes: "distinct (dict_keys graph) \<Longrightarrow> distinct (layer_nodes graph)"
  using distinct_kahn_node_set [of graph None] by (simp add: layer_nodes_def kahn_node_set_def)

lemma layer_edges_subset: "set (layer_edges graph) \<subseteq> set (layer_nodes graph) \<times> set (layer_nodes graph)"
  by (force simp: layer_edges_def set_layer_nodes)

lemma layer_pass_inv:
  assumes "set E \<subseteq> N \<times> N" and "\<And>n. succs E n = dict_get graph n []"
    and "kahn_inv N E D (layer @ R) indeg"
    and "foldl (\<lambda>s n. relax (\<lambda>m r. r @ [m]) (dict_get graph n []) s) (indeg, R) layer = (indeg', R')"
  shows "kahn_inv N E (D @ layer) R' indeg'"
  using assms(3,4)
proof (induction layer arbitrary: D R indeg)
  case Nil
  then show ?case by simp
next
  case (Cons x layer)
  obtain i1 R1 where rel: "relax (\<lambda>m r. r @ [m]) (succs E x) (indeg, R) = (i1, R1)" by fastforce
  have "kahn_inv N E (D @ [x]) (layer @ R1) i1"
    using layer_ready.kahn_step [OF assms(1) _ rel, of D layer] Cons.prems(1) by simp
  moreover have "foldl (\<lambda>s n. relax (\<lambda>m r. r @ [m]) (dict_get graph n []) s) (i1, R1) layer = (indeg', R')"
    using Cons.prems(2) rel by (simp add: assms(2))
  ultimately have "kahn_inv N E ((D @ [x]) @ layer) R' indeg'" by (rule Cons.IH)
  then show ?case by simp
qed

lemma layer_loop_total:
  assumes "set E \<subseteq> N \<times> N" and "finite N" and "\<And>n. succs E n = dict_get graph n []"
    and "kahn_inv N E D P indeg" and "card N \<le> fuel + length D"
  shows "\<exists>order indeg'. layer_loop fuel key graph P indeg D = Inr order \<and> kahn_inv N E order [] indeg'"
  using assms(3-5)
proof (induction fuel key graph P indeg D rule: layer_loop.induct)
  case (1 fuel key graph indeg res)
  then show ?case by auto
next
  case (2 key graph x ready indeg res)
  with kahn_inv_length [OF "2.prems"(2) assms(2)] show ?case by simp
next
  case (3 fuel key graph x ready indeg res)
  define layer where "layer = (case key of None \<Rightarrow> x # ready | Some k \<Rightarrow> sort_key k (x # ready))"
  have perm: "mset layer = mset (x # ready)" by (auto simp: layer_def split: option.split)
  then have len: "1 \<le> length layer" by (metis One_nat_def Suc_leI length_greater_0_conv list.distinct(1) mset_zero_iff size_mset)
  obtain indeg' ready' where pass: "layer_pass graph layer indeg = (indeg', ready')" by fastforce
  have "kahn_inv N E res (layer @ []) indeg"
    using kahn_inv_cong [OF perm [symmetric] "3.prems"(2)] by simp
  from layer_pass_inv [OF assms(1) "3.prems"(1) this] pass
  have "kahn_inv N E (res @ layer) ready' indeg'" by (simp add: layer_pass_def)
  moreover have "card N \<le> fuel + length (res @ layer)" using "3.prems"(3) len by simp
  ultimately show ?case
    using "3.IH" [OF layer_def pass [symmetric] refl "3.prems"(1)] pass
    by (simp add: layer_def [symmetric])
qed

lemma topological_sort_ok:
  assumes "distinct (dict_keys graph)"
  shows "case topological_sort graph key of
           Inr order \<Rightarrow> distinct order \<and> set order = set (layer_nodes graph) \<and>
             in_dep_order (layer_edges graph) order \<and> acyclic (set (layer_edges graph))
         | Inl e \<Rightarrow> e = ValueError ''Graph has at least one cycle.'' \<and> \<not> acyclic (set (layer_edges graph))"
proof -
  let ?ns = "layer_nodes graph" and ?E = "layer_edges graph" and ?indeg = "layer_indegree graph"
  let ?ready = "filter (\<lambda>n. ?indeg n = 0) ?ns"
  have dist: "distinct ?ns" by (rule distinct_layer_nodes [OF assms])
  have "kahn_inv (set ?ns) ?E [] ?ready ?indeg"
    by (rule kahn_init [OF dist layer_edges_subset]) (simp_all add: layer_indegree_eq)
  then obtain order indeg' where loop: "layer_loop (length ?ns) key graph ?ready ?indeg [] = Inr order"
    and inv: "kahn_inv (set ?ns) ?E order [] indeg'"
    using layer_loop_total [OF layer_edges_subset finite_set succs_layer_edges [OF assms],
        where fuel = "length ?ns" and key = key] distinct_card [OF dist] by fastforce
  note iff = in_dep_order_acyclic_iff [OF layer_edges_subset inv finite_set, unfolded distinct_card [OF dist]]
  show ?thesis
    using iff kahn_finish_respects [OF inv finite_set] distinct_card [OF dist]
    by (auto simp: topological_sort_def loop Let_def)
qed

text \<open>
  C34: The layered sort returns every node of the graph (sources and successors) exactly once,
  each after all its predecessors, or raises the cycle error; it raises exactly on cyclic
  graphs, whatever the secondary key and the iteration order of the successor sets, and its
  loop always ends.
\<close>

theorem topological_sort_correct:
  assumes "distinct (dict_keys graph)"
  shows "case topological_sort graph key of
           Inr order \<Rightarrow> distinct order \<and> set order = set (layer_nodes graph) \<and>
             in_dep_order (layer_edges graph) order \<and> acyclic (set (layer_edges graph))
         | Inl e \<Rightarrow> e = ValueError ''Graph has at least one cycle.'' \<and> \<not> acyclic (set (layer_edges graph))"
  using assms by (rule topological_sort_ok)

theorem topological_sort_correct_witness:
  "case topological_sort [(1 :: nat, [3]), (2, [3])] (Some (\<lambda>n. 10 - n)) of
     Inr order \<Rightarrow> order = [2, 1, 3] \<and> acyclic (set (layer_edges [(1 :: nat, [3]), (2, [3])]))
   | Inl e \<Rightarrow> False"
proof -
  have "topological_sort [(1 :: nat, [3]), (2, [3])] (Some (\<lambda>n. 10 - n)) = Inr [2, 1, 3]"
    by code_simp
  then show ?thesis
    using topological_sort_correct [of "[(1 :: nat, [3]), (2, [3])]" "Some (\<lambda>n. 10 - n)"] by simp
qed

end
