(* ===== verification/RuntimeGraphs.thy ===== *)
theory RuntimeGraphs
  imports TopoSort
begin

text \<open>
  The runtime graph IR (\<open>runtime/runtime_ops.py\<close>, \<open>runtime/runtime_graph.py\<close>): runtime ops,
  graphs, their export to FlowMesh nodes, topological order, prefixing and merging, and the
  redaction of credentials (\<open>runtime/sensitive.py\<close>).
\<close>

section \<open>Runtime ops\<close>

type_synonym spec = "(string, pyval) dict"

record runtime_op =
  op_node_id :: string
  op_task_type :: string
  op_backend :: string
  op_model :: string
  op_data_spec :: spec
  op_model_spec :: spec
  op_inference_spec :: spec
  op_dependencies :: "string list"
  op_output_spec :: "spec option"
  op_condition :: "(string, string) dict option"

text \<open>The schema of a serialised op has every field but the node id, which is the key it is stored under.\<close>

record op_schema =
  sc_task_type :: string
  sc_backend :: string
  sc_model :: string
  sc_data_spec :: spec
  sc_model_spec :: spec
  sc_inference_spec :: spec
  sc_dependencies :: "string list"
  sc_output_spec :: "spec option"
  sc_condition :: "(string, string) dict option"

definition op_to_schema :: "runtime_op \<Rightarrow> op_schema" where
  "op_to_schema op =
     \<lparr>sc_task_type = op_task_type op, sc_backend = op_backend op, sc_model = op_model op,
      sc_data_spec = op_data_spec op, sc_model_spec = op_model_spec op,
      sc_inference_spec = op_inference_spec op, sc_dependencies = op_dependencies op,
      sc_output_spec = op_output_spec op, sc_condition = op_condition op\<rparr>"

definition op_from_schema :: "string \<Rightarrow> op_schema \<Rightarrow> runtime_op" where
  "op_from_schema nid sc =
     \<lparr>op_node_id = nid, op_task_type = sc_task_type sc, op_backend = sc_backend sc,
      op_model = sc_model sc, op_data_spec = sc_data_spec sc, op_model_spec = sc_model_spec sc,
      op_inference_spec = sc_inference_spec sc, op_dependencies = sc_dependencies sc,
      op_output_spec = sc_output_spec sc, op_condition = sc_condition sc\<rparr>"

definition model_key :: "runtime_op \<Rightarrow> string \<times> string \<times> string" where
  "model_key op = (op_task_type op, op_backend op, op_model op)"

text \<open>
  \<open>RuntimeOp.to_flowmesh_node\<close>. The node is a dict; the keys are set in the order the code sets
  them. \<open>self.condition["node"]\<close> raises KeyError when the condition has no node. Empty
  dependencies, an empty output spec and an empty condition are falsy and set no key.
\<close>

abbreviation pstrs :: "string list \<Rightarrow> pyval" where
  "pstrs xs \<equiv> PList (map PStr xs)"

definition pstr_dict :: "(string, string) dict \<Rightarrow> pyval" where
  "pstr_dict d = PDict (map (\<lambda>(k, v). (k, PStr v)) d)"

definition flowmesh_deps :: "runtime_op \<Rightarrow> string list result" where
  "flowmesh_deps op =
     (case op_condition op of
        None \<Rightarrow> Inr (op_dependencies op)
      | Some c \<Rightarrow> ebind (dict_index c ''node'')
          (\<lambda>n. Inr (if n \<in> set (op_dependencies op) then op_dependencies op
                    else op_dependencies op @ [n])))"

definition to_flowmesh_node :: "runtime_op \<Rightarrow> spec result" where
  "to_flowmesh_node op =
     ebind (flowmesh_deps op)
       (\<lambda>deps.
          let payload = [(''taskType'', PStr (op_task_type op)), (''data'', PDict (op_data_spec op))]
                @ (if op_task_type op \<in> {''inference'', ''diffusion'', ''embedding'', ''omni_text2image''}
                   then [(''model'', PDict (op_model_spec op))] else [])
                @ (if op_task_type op \<in> {''inference'', ''diffusion'', ''omni_text2image''}
                   then [(''inference'', PDict (op_inference_spec op))] else [])
                @ (case op_output_spec op of None \<Rightarrow> [] | Some s \<Rightarrow>
                     if s = [] then [] else [(''output'', PDict s)])
                @ (case op_condition op of None \<Rightarrow> [] | Some c \<Rightarrow>
                     if c = [] then [] else [(''condition'', pstr_dict c)])
          in Inr ([(''name'', PStr (op_node_id op)), (''spec'', PDict payload)]
                  @ (if deps = [] then [] else [(''dependsOn'', pstrs deps)])))"

section \<open>Runtime graphs\<close>

record runtime_graph =
  rg_nodes :: "(string, runtime_op) dict"
  rg_node_order :: "string list"
  rg_output_node_map :: "(string, string) dict"
  rg_output_paths :: "(string, string) dict"
  rg_dsl_to_runtime :: "(string, string list) dict"

definition node_count :: "runtime_graph \<Rightarrow> nat" where
  "node_count g = length (rg_nodes g)"

text \<open>The well-formed graphs: what the builder produces and what the other operations keep.\<close>

definition rg_wf :: "runtime_graph \<Rightarrow> bool" where
  "rg_wf g \<longleftrightarrow>
     distinct (dict_keys (rg_nodes g)) \<and> distinct (rg_node_order g) \<and>
     set (rg_node_order g) = set (dict_keys (rg_nodes g)) \<and>
     list_all (\<lambda>(nid, op). op_node_id op = nid) (rg_nodes g) \<and>
     distinct (dict_keys (rg_output_node_map g)) \<and>
     set (dict_keys (rg_output_node_map g)) \<subseteq> set (dict_keys (rg_nodes g)) \<and>
     distinct (dict_keys (rg_output_paths g)) \<and>
     set (dict_keys (rg_output_paths g)) \<subseteq> set (dict_keys (rg_nodes g)) \<and>
     distinct (dict_keys (rg_dsl_to_runtime g))"

record graph_schema =
  gs_nodes :: "(string, op_schema) dict"
  gs_node_order :: "string list"
  gs_output_node_map :: "(string, string) dict"
  gs_output_paths :: "(string, string) dict"
  gs_dsl_to_runtime :: "(string, string list) dict"

definition rg_to_schema :: "runtime_graph \<Rightarrow> graph_schema" where
  "rg_to_schema g =
     \<lparr>gs_nodes = map (\<lambda>(nid, op). (nid, op_to_schema op)) (rg_nodes g),
      gs_node_order = rg_node_order g, gs_output_node_map = rg_output_node_map g,
      gs_output_paths = rg_output_paths g, gs_dsl_to_runtime = rg_dsl_to_runtime g\<rparr>"

definition rg_from_schema :: "graph_schema \<Rightarrow> runtime_graph result" where
  "rg_from_schema sc =
     (let nodes = map (\<lambda>(nid, s). (nid, op_from_schema nid s)) (gs_nodes sc)
      in if filter (\<lambda>nid. nid \<notin> set (dict_keys nodes)) (gs_node_order sc) \<noteq> []
         then Inl (ValueError ''node_order references unknown nodes'')
         else Inr \<lparr>rg_nodes = nodes, rg_node_order = gs_node_order sc,
                   rg_output_node_map = gs_output_node_map sc, rg_output_paths = gs_output_paths sc,
                   rg_dsl_to_runtime = gs_dsl_to_runtime sc\<rparr>)"

text \<open>
  \<open>to_flowmesh_nodes\<close> keeps only the dependencies that are nodes of the graph, because
  FlowMesh would wait for ever for any other.
\<close>

definition filter_depends_on :: "string list \<Rightarrow> spec \<Rightarrow> spec" where
  "filter_depends_on valid node =
     (case map_of node ''dependsOn'' of
        Some (PList deps) \<Rightarrow>
          let kept = filter (\<lambda>d. case d of PStr s \<Rightarrow> s \<in> set valid | _ \<Rightarrow> False) deps
          in if kept \<noteq> [] then AList.update ''dependsOn'' (PList kept) node
             else AList.delete ''dependsOn'' node
      | _ \<Rightarrow> node)"

definition to_flowmesh_nodes :: "runtime_graph \<Rightarrow> spec list result" where
  "to_flowmesh_nodes g =
     emap (\<lambda>nid. ebind (dict_index (rg_nodes g) nid)
             (\<lambda>op. ebind (to_flowmesh_node op)
                (\<lambda>node. Inr (filter_depends_on (dict_keys (rg_nodes g)) node))))
       (rg_node_order g)"

text \<open>
  \<open>topological_order\<close>: the sort runs over the nodes and the DSL ids their dependencies mention;
  the result is filtered down to the nodes. Ids without a place in \<open>node_order\<close> sort last.
\<close>

definition add_successor :: "string \<Rightarrow> (string, string list) dict \<Rightarrow> string \<Rightarrow> (string, string list) dict" where
  "add_successor nid graph dep = AList.update dep (set_add nid (dict_get graph dep [])) graph"

definition rg_successors :: "runtime_graph \<Rightarrow> (string, string list) dict" where
  "rg_successors g =
     foldl (\<lambda>graph (nid, op). foldl (add_successor nid) graph (op_dependencies op))
       (map (\<lambda>(nid, op). (nid, [])) (rg_nodes g)) (rg_nodes g)"

definition order_index :: "string list \<Rightarrow> string \<Rightarrow> nat" where
  "order_index order nid =
     (let index = dict_of (zip order [0..<length order]) in dict_get index nid (length index))"

definition rg_topological_order :: "runtime_graph \<Rightarrow> string list result" where
  "rg_topological_order g =
     ebind (topological_sort (rg_successors g) (Some (order_index (rg_node_order g))))
       (\<lambda>order. Inr (filter (\<lambda>nid. nid \<in> set (dict_keys (rg_nodes g))) order))"

section \<open>Rewriting references inside specifications\<close>

text \<open>The value under a key \<open>node\<close> is a node reference when it is a string of the mapping.\<close>

definition node_ref :: "(string, string) dict \<Rightarrow> string \<Rightarrow> pyval \<Rightarrow> pyval option" where
  "node_ref m k v =
     (case v of
        PStr s \<Rightarrow> if k = ''node'' then map_option PStr (map_of m s) else None
      | _ \<Rightarrow> None)"

fun remap_node_refs :: "(string, string) dict \<Rightarrow> pyval \<Rightarrow> pyval" where
  "remap_node_refs m (PDict d) =
     PDict (map (\<lambda>(k, v). (k, case node_ref m k v of Some v' \<Rightarrow> v' | None \<Rightarrow> remap_node_refs m v)) d)"
| "remap_node_refs m (PList xs) = PList (map (remap_node_refs m) xs)"
| "remap_node_refs m (PTuple xs) = PTuple (map (remap_node_refs m) xs)"
| "remap_node_refs m v = v"

definition remap_spec :: "(string, string) dict \<Rightarrow> spec \<Rightarrow> spec" where
  "remap_spec m d = (case remap_node_refs m (PDict d) of PDict d' \<Rightarrow> d' | _ \<Rightarrow> d)"

definition remap_condition :: "(string, string) dict \<Rightarrow> (string, string) dict \<Rightarrow> (string, string) dict" where
  "remap_condition m c =
     map (\<lambda>(k, s). (k, if k = ''node'' \<and> map_of m s \<noteq> None then dict_get m s s else s)) c"

definition remap_op :: "(string, string) dict \<Rightarrow> string \<Rightarrow> runtime_op \<Rightarrow> runtime_op" where
  "remap_op m new_id op =
     \<lparr>op_node_id = new_id, op_task_type = op_task_type op, op_backend = op_backend op,
      op_model = op_model op, op_data_spec = remap_spec m (op_data_spec op),
      op_model_spec = remap_spec m (op_model_spec op),
      op_inference_spec = remap_spec m (op_inference_spec op),
      op_dependencies = map (\<lambda>d. dict_get m d d) (op_dependencies op),
      op_output_spec = map_option (remap_spec m) (op_output_spec op),
      op_condition = map_option (remap_condition m) (op_condition op)\<rparr>"

definition prefix_mapping :: "string \<Rightarrow> string \<Rightarrow> runtime_graph \<Rightarrow> (string, string) dict" where
  "prefix_mapping prefix separator g =
     map (\<lambda>(nid, op). (nid, prefix @ separator @ nid)) (rg_nodes g)"

definition with_node_prefix :: "string \<Rightarrow> string \<Rightarrow> runtime_graph \<Rightarrow> runtime_graph result" where
  "with_node_prefix prefix separator g =
     (if prefix = [] then Inr g
      else
        let m = prefix_mapping prefix separator g;
            nodes = dict_of (map (\<lambda>(nid, op). (prefix @ separator @ nid, remap_op m (prefix @ separator @ nid) op))
                       (rg_nodes g))
        in ebind (emap (dict_index m) (rg_node_order g))
            (\<lambda>order. ebind (emap (\<lambda>(nid, name). ebind (dict_index m nid) (\<lambda>n. Inr (n, name))) (rg_output_node_map g))
            (\<lambda>outs. ebind (emap (\<lambda>(nid, path). ebind (dict_index m nid) (\<lambda>n. Inr (n, path))) (rg_output_paths g))
            (\<lambda>paths. Inr
               \<lparr>rg_nodes = nodes, rg_node_order = order, rg_output_node_map = dict_of outs,
                rg_output_paths = dict_of paths,
                rg_dsl_to_runtime = map (\<lambda>(oid, rids). (oid, map (\<lambda>r. dict_get m r r) rids)) (rg_dsl_to_runtime g)\<rparr>))))"

section \<open>Merging the graphs of a batch\<close>

record merge_state =
  ms_nodes :: "(string, runtime_op) dict"
  ms_node_order :: "string list"
  ms_output_node_map :: "(string, string) dict"
  ms_output_paths :: "(string, string) dict"
  ms_dsl_to_runtime :: "(string, string list) dict"
  ms_output_mapping :: "(string, string \<times> string) dict"

definition merge_node :: "runtime_graph \<Rightarrow> string \<Rightarrow> merge_state \<Rightarrow> merge_state result" where
  "merge_node g nid s =
     (if nid \<in> set (dict_keys (ms_nodes s)) then Inl (ValueError ''Duplicate runtime node id across graphs'')
      else ebind (dict_index (rg_nodes g) nid)
             (\<lambda>op. Inr (s\<lparr>ms_nodes := AList.update nid op (ms_nodes s),
                          ms_node_order := ms_node_order s @ [nid]\<rparr>)))"

definition merge_dsl :: "(string, string list) dict \<Rightarrow> string \<times> string list \<Rightarrow> (string, string list) dict" where
  "merge_dsl d x =
     (case x of (oid, rids) \<Rightarrow>
        case map_of d oid of
          None \<Rightarrow> AList.update oid rids d
        | Some existing \<Rightarrow> AList.update oid (foldl (\<lambda>ex r. set_add r ex) existing rids) d)"

definition merge_one :: "string \<times> runtime_graph \<Rightarrow> merge_state \<Rightarrow> merge_state result" where
  "merge_one x s =
     (case x of (graph_name, g) \<Rightarrow>
        ebind (efold (merge_node g) (rg_node_order g) s)
          (\<lambda>s. Inr (s\<lparr>
             ms_dsl_to_runtime := foldl merge_dsl (ms_dsl_to_runtime s) (rg_dsl_to_runtime g),
             ms_output_node_map := foldl (\<lambda>d (n, name). AList.update n name d) (ms_output_node_map s) (rg_output_node_map g),
             ms_output_mapping := foldl (\<lambda>d (n, name). AList.update n (graph_name, name) d) (ms_output_mapping s) (rg_output_node_map g),
             ms_output_paths := foldl (\<lambda>d (n, path). AList.update n path d) (ms_output_paths s) (rg_output_paths g)\<rparr>)))"

definition merge_runtime_graphs ::
  "(string, runtime_graph) dict \<Rightarrow> (runtime_graph \<times> (string, string \<times> string) dict) result" where
  "merge_runtime_graphs graphs =
     ebind (efold merge_one graphs
              \<lparr>ms_nodes = [], ms_node_order = [], ms_output_node_map = [], ms_output_paths = [],
               ms_dsl_to_runtime = [], ms_output_mapping = []\<rparr>)
       (\<lambda>s. Inr (\<lparr>rg_nodes = ms_nodes s, rg_node_order = ms_node_order s,
                  rg_output_node_map = ms_output_node_map s, rg_output_paths = ms_output_paths s,
                  rg_dsl_to_runtime = ms_dsl_to_runtime s\<rparr>, ms_output_mapping s))"

section \<open>Redaction\<close>

definition sensitive_data_spec_keys :: "string list" where
  "sensitive_data_spec_keys = [''lumid_data_token'']"

definition redacted_token_placeholder :: string where
  "redacted_token_placeholder = ''***REDACTED***''"

text \<open>A mapping and a list are rewritten recursively; a tuple is returned as it is.\<close>

definition secret_entry :: "string \<Rightarrow> pyval \<Rightarrow> bool" where
  "secret_entry k v \<longleftrightarrow> k \<in> set sensitive_data_spec_keys \<and> (case v of PStr s \<Rightarrow> s \<noteq> [] | _ \<Rightarrow> False)"

fun redact_sensitive :: "pyval \<Rightarrow> pyval" where
  "redact_sensitive (PDict d) =
     PDict (map (\<lambda>(k, v). (k, if secret_entry k v then PStr redacted_token_placeholder else redact_sensitive v)) d)"
| "redact_sensitive (PList xs) = PList (map redact_sensitive xs)"
| "redact_sensitive v = v"

section \<open>The topological order of a graph\<close>

definition rg_deps :: "runtime_graph \<Rightarrow> (string \<times> string) list" where
  "rg_deps g = [(dep, nid). (nid, op) \<leftarrow> rg_nodes g, dep \<leftarrow> op_dependencies op]"

definition rg_dep_edges :: "runtime_graph \<Rightarrow> (string \<times> string) list" where
  "rg_dep_edges g = filter (\<lambda>e. fst e \<in> set (dict_keys (rg_nodes g))) (rg_deps g)"

lemma set_rg_deps: "set (rg_deps g) = {(dep, nid). \<exists>op. (nid, op) \<in> set (rg_nodes g) \<and> dep \<in> set (op_dependencies op)}"
  by (auto simp: rg_deps_def)

lemma layer_edges_iff:
  assumes "distinct (dict_keys graph)"
  shows "(n, m) \<in> set (layer_edges graph) \<longleftrightarrow> m \<in> set (dict_get graph n [])"
proof -
  have "m \<in> set (dict_get graph n []) \<longleftrightarrow> m \<in> set (succs (layer_edges graph) n)"
    by (simp only: succs_layer_edges [OF assms])
  also have "\<dots> \<longleftrightarrow> (n, m) \<in> set (layer_edges graph)" by (force simp: succs_def)
  finally show ?thesis by simp
qed

lemma add_successor_facts:
  "distinct (dict_keys graph) \<Longrightarrow> distinct (dict_keys (add_successor nid graph dep))"
  "fst ` set (add_successor nid graph dep) = insert dep (fst ` set graph)"
  "set (dict_get (add_successor nid graph dep) n []) =
     set (dict_get graph n []) \<union> (if n = dep then {nid} else {})"
  by (simp_all add: add_successor_def dict_get_update dom_map_of_conv_image_fst [symmetric] update_conv')

lemma add_successors_facts:
  "distinct (dict_keys graph) \<Longrightarrow> distinct (dict_keys (foldl (add_successor nid) graph deps))"
  "fst ` set (foldl (add_successor nid) graph deps) = fst ` set graph \<union> set deps"
  "set (dict_get (foldl (add_successor nid) graph deps) n []) =
     set (dict_get graph n []) \<union> (if n \<in> set deps then {nid} else {})"
  by (induction deps arbitrary: graph) (auto simp: add_successor_facts)

abbreviation add_nodes :: "(string, string list) dict \<Rightarrow> (string, runtime_op) dict \<Rightarrow> (string, string list) dict" where
  "add_nodes \<equiv> foldl (\<lambda>graph (nid, op). foldl (add_successor nid) graph (op_dependencies op))"

lemma add_nodes_facts:
  "distinct (dict_keys graph) \<Longrightarrow> distinct (dict_keys (add_nodes graph nodes))"
  "fst ` set (add_nodes graph nodes) = fst ` set graph \<union> (\<Union>x \<in> set nodes. set (op_dependencies (snd x)))"
  "set (dict_get (add_nodes graph nodes) n []) = set (dict_get graph n []) \<union>
     {m. \<exists>x \<in> set nodes. m = fst x \<and> n \<in> set (op_dependencies (snd x))}"
proof -
  show "distinct (dict_keys graph) \<Longrightarrow> distinct (dict_keys (add_nodes graph nodes))"
    by (induction nodes arbitrary: graph) (auto simp: add_successors_facts split_def)
  show "fst ` set (add_nodes graph nodes) = fst ` set graph \<union> (\<Union>x \<in> set nodes. set (op_dependencies (snd x)))"
    by (induction nodes arbitrary: graph) (simp_all add: add_successors_facts(2) split_def Un_assoc)
  show "set (dict_get (add_nodes graph nodes) n []) = set (dict_get graph n []) \<union>
     {m. \<exists>x \<in> set nodes. m = fst x \<and> n \<in> set (op_dependencies (snd x))}"
    by (induction nodes arbitrary: graph) (auto simp: add_successors_facts(3) split_def)
qed

lemma rg_successors_facts:
  assumes "distinct (dict_keys (rg_nodes g))"
  shows "distinct (dict_keys (rg_successors g))"
    and "set (layer_edges (rg_successors g)) = set (rg_deps g)"
    and "set (layer_nodes (rg_successors g)) = set (dict_keys (rg_nodes g)) \<union> fst ` set (rg_deps g)"
proof -
  define g0 where "g0 = (map (\<lambda>(nid, op). (nid, [])) (rg_nodes g) :: (string, string list) dict)"
  have keys: "dict_keys g0 = dict_keys (rg_nodes g)" by (auto simp: g0_def)
  have init: "dict_get g0 n [] = []" for n
    by (auto simp: g0_def dict_get_def split: option.splits dest!: map_of_SomeD)
  have succ: "rg_successors g = add_nodes g0 (rg_nodes g)" by (simp add: rg_successors_def g0_def)
  show dist: "distinct (dict_keys (rg_successors g))"
    unfolding succ by (rule add_nodes_facts(1)) (simp only: keys assms)
  have get: "m \<in> set (dict_get (rg_successors g) n []) \<longleftrightarrow> (n, m) \<in> set (rg_deps g)" for n m
    unfolding succ add_nodes_facts(3) init set_rg_deps by force
  show edges: "set (layer_edges (rg_successors g)) = set (rg_deps g)"
    using layer_edges_iff [OF dist] get by auto
  have "set (layer_nodes (rg_successors g)) = fst ` set (rg_successors g) \<union> snd ` set (layer_edges (rg_successors g))"
    by (force simp: set_layer_nodes layer_edges_def)
  also have "fst ` set (rg_successors g) = set (dict_keys (rg_nodes g)) \<union> fst ` set (rg_deps g)"
    unfolding succ add_nodes_facts(2) keys [symmetric] by (force simp: set_rg_deps)
  finally show "set (layer_nodes (rg_successors g)) = set (dict_keys (rg_nodes g)) \<union> fst ` set (rg_deps g)"
    unfolding edges by (force simp: set_rg_deps)
qed

lemma in_dep_order_filter:
  assumes "in_dep_order E ns"
  shows "in_dep_order (filter (\<lambda>e. P (fst e)) E) (filter P ns)"
  using assms
proof (induction ns rule: rev_induct)
  case (snoc x ns)
  then show ?case by (auto simp: in_dep_order_snoc)
qed simp

lemma in_dep_order_set_cong: "set E = set F \<Longrightarrow> in_dep_order E ns \<Longrightarrow> in_dep_order F ns"
  by (simp add: in_dep_order_def)

lemma rg_topological_order_ok:
  assumes "rg_wf g"
  shows "case rg_topological_order g of
           Inr order \<Rightarrow> distinct order \<and> set order = set (rg_node_order g) \<and>
             in_dep_order (rg_dep_edges g) order \<and> acyclic (set (rg_deps g))
         | Inl e \<Rightarrow> e = ValueError ''Graph has at least one cycle.'' \<and> \<not> acyclic (set (rg_deps g))"
proof -
  from assms have dist: "distinct (dict_keys (rg_nodes g))"
    and nodes: "set (rg_node_order g) = set (dict_keys (rg_nodes g))" by (auto simp: rg_wf_def)
  note facts = rg_successors_facts [OF dist]
  let ?key = "Some (order_index (rg_node_order g))"
  show ?thesis
  proof (cases "topological_sort (rg_successors g) ?key")
    case (Inl e)
    then show ?thesis
      using topological_sort_ok [OF facts(1), of ?key] by (simp add: rg_topological_order_def facts(2))
  next
    case (Inr order)
    then have "distinct order" "set order = set (layer_nodes (rg_successors g))"
      "in_dep_order (layer_edges (rg_successors g)) order" "acyclic (set (rg_deps g))"
      using topological_sort_ok [OF facts(1), of ?key] by (simp_all add: facts(2))
    moreover have "in_dep_order (rg_dep_edges g) (filter (\<lambda>nid. nid \<in> set (dict_keys (rg_nodes g))) order)"
      unfolding rg_dep_edges_def
      by (rule in_dep_order_filter, rule in_dep_order_set_cong [OF facts(2)], fact)
    ultimately show ?thesis using Inr nodes by (auto simp: rg_topological_order_def facts(3))
  qed
qed

text \<open>
  The topological order of a runtime graph lists exactly the nodes of the graph, each once
  and each after the nodes it depends on, also when dependencies name DSL ids that are no nodes;
  it raises the cycle error exactly when the dependencies are cyclic.
\<close>

theorem rg_topological_order_correct:
  assumes "rg_wf g"
  shows "case rg_topological_order g of
           Inr order \<Rightarrow> distinct order \<and> set order = set (rg_node_order g) \<and>
             in_dep_order (rg_dep_edges g) order \<and> acyclic (set (rg_deps g))
         | Inl e \<Rightarrow> e = ValueError ''Graph has at least one cycle.'' \<and> \<not> acyclic (set (rg_deps g))"
  using assms by (rule rg_topological_order_ok)

theorem rg_topological_order_correct_witness:
  "case rg_topological_order
     \<lparr>rg_nodes = [(''b'', op_from_schema ''b'' \<lparr>sc_task_type = [], sc_backend = [], sc_model = [], sc_data_spec = [],
         sc_model_spec = [], sc_inference_spec = [], sc_dependencies = [''a'', ''in''], sc_output_spec = None, sc_condition = None\<rparr>),
        (''a'', op_from_schema ''a'' \<lparr>sc_task_type = [], sc_backend = [], sc_model = [], sc_data_spec = [],
         sc_model_spec = [], sc_inference_spec = [], sc_dependencies = [], sc_output_spec = None, sc_condition = None\<rparr>)],
      rg_node_order = [''b'', ''a''], rg_output_node_map = [], rg_output_paths = [], rg_dsl_to_runtime = []\<rparr> of
     Inr order \<Rightarrow> order = [''a'', ''b''] \<and> set order = {''b'', ''a''} | Inl e \<Rightarrow> False"
  (is "case rg_topological_order ?g of Inr order \<Rightarrow> _ order | Inl e \<Rightarrow> False")
proof -
  have wf: "rg_wf ?g" by (simp add: rg_wf_def op_from_schema_def)
  have run: "rg_topological_order ?g = Inr [''a'', ''b'']" by code_simp
  from rg_topological_order_correct [OF wf] show ?thesis unfolding run by auto
qed

section \<open>Schemas\<close>

lemma op_from_to_schema [simp]: "op_from_schema (op_node_id op) (op_to_schema op) = op"
  by (simp add: op_from_schema_def op_to_schema_def)

text \<open>
  A well-formed graph survives the trip through its schema unchanged, and a schema whose
  order names an unknown node is refused with a ValueError.
\<close>

theorem rg_schema_roundtrip:
  "(rg_wf g \<longrightarrow> rg_from_schema (rg_to_schema g) = Inr g) \<and>
   ((\<exists>nid \<in> set (gs_node_order sc). nid \<notin> set (dict_keys (gs_nodes sc))) \<longleftrightarrow>
      rg_from_schema sc = Inl (ValueError ''node_order references unknown nodes''))"
proof -
  have keys: "map fst (map (\<lambda>(nid, s). (nid, op_from_schema nid s)) ns) = map fst ns" for ns
    by auto
  have "rg_from_schema (rg_to_schema g) = Inr g" if wf: "rg_wf g"
  proof -
    have ops: "map (\<lambda>(nid, s). (nid, op_from_schema nid s)) (map (\<lambda>(nid, op). (nid, op_to_schema op)) (rg_nodes g)) = rg_nodes g"
      using wf by (auto simp: rg_wf_def list_all_iff intro!: map_idI)
    have "filter (\<lambda>nid. nid \<notin> set (dict_keys (rg_nodes g))) (rg_node_order g) = []"
      using wf by (auto simp: rg_wf_def filter_empty_conv)
    then show ?thesis
      unfolding rg_from_schema_def rg_to_schema_def Let_def graph_schema.simps ops by simp
  qed
  moreover have "(\<exists>nid \<in> set (gs_node_order sc). nid \<notin> set (dict_keys (gs_nodes sc))) \<longleftrightarrow>
      rg_from_schema sc = Inl (ValueError ''node_order references unknown nodes'')"
    unfolding rg_from_schema_def Let_def keys by (simp add: filter_empty_conv)
  ultimately show ?thesis by blast
qed

theorem rg_schema_roundtrip_witness:
  "rg_from_schema (rg_to_schema \<lparr>rg_nodes = [], rg_node_order = [], rg_output_node_map = [],
       rg_output_paths = [], rg_dsl_to_runtime = []\<rparr>) =
   Inr \<lparr>rg_nodes = [], rg_node_order = [], rg_output_node_map = [], rg_output_paths = [], rg_dsl_to_runtime = []\<rparr>"
  by (rule rg_schema_roundtrip [THEN conjunct1, rule_format]) (simp add: rg_wf_def)

section \<open>Export to FlowMesh\<close>

definition depends_on :: "spec \<Rightarrow> string list" where
  "depends_on node =
     (case map_of node ''dependsOn'' of
        Some (PList ds) \<Rightarrow> map (\<lambda>d. case d of PStr s \<Rightarrow> s | _ \<Rightarrow> []) ds | _ \<Rightarrow> [])"

lemma depends_on_to_flowmesh_node:
  assumes "to_flowmesh_node op = Inr node" and "flowmesh_deps op = Inr deps"
  shows "map_of node ''dependsOn'' = (if deps = [] then None else Some (pstrs deps))"
    and "map_of node ''name'' = Some (PStr (op_node_id op))"
  using assms by (auto simp: to_flowmesh_node_def Let_def)

lemma filter_pstrs:
  "filter (\<lambda>d. case d of PStr s \<Rightarrow> s \<in> V | _ \<Rightarrow> False) (map PStr xs) = map PStr (filter (\<lambda>s. s \<in> V) xs)"
  by (induction xs) auto

lemma depends_on_filter:
  assumes "map_of node ''dependsOn'' = (if deps = [] then None else Some (pstrs deps))"
  shows "depends_on (filter_depends_on valid node) = filter (\<lambda>d. d \<in> set valid) deps"
proof -
  have pstr: "map ((\<lambda>d. case d of PStr s \<Rightarrow> s | _ \<Rightarrow> []) \<circ> PStr) xs = xs" for xs
    by (simp add: o_def)
  show ?thesis
    using assms
    by (auto simp: depends_on_def filter_depends_on_def Let_def filter_pstrs map_of_update
        delete_conv' pstr split: if_splits)
qed

text \<open>
  Every node exported to FlowMesh waits exactly for those of its dependencies (the condition
  node included) that are themselves exported: none is lost and no foreign id is left to wait for.
\<close>

theorem to_flowmesh_nodes_closed:
  assumes "to_flowmesh_nodes g = Inr nodes"
  shows "list_all2 (\<lambda>nid node. \<exists>op deps. map_of (rg_nodes g) nid = Some op \<and> flowmesh_deps op = Inr deps \<and>
            depends_on node = filter (\<lambda>d. d \<in> set (dict_keys (rg_nodes g))) deps)
          (rg_node_order g) nodes"
proof -
  let ?f = "\<lambda>nid. ebind (dict_index (rg_nodes g) nid)
      (\<lambda>op. ebind (to_flowmesh_node op) (\<lambda>node. Inr (filter_depends_on (dict_keys (rg_nodes g)) node)))"
  have one: "\<exists>op deps. map_of (rg_nodes g) nid = Some op \<and> flowmesh_deps op = Inr deps \<and>
      depends_on node = filter (\<lambda>d. d \<in> set (dict_keys (rg_nodes g))) deps"
    if "?f nid = Inr node" for nid node
  proof -
    from that obtain op n where op: "map_of (rg_nodes g) nid = Some op" "to_flowmesh_node op = Inr n"
      and node: "node = filter_depends_on (dict_keys (rg_nodes g)) n"
      by (auto simp: result_simps)
    moreover from op(2) obtain deps where deps: "flowmesh_deps op = Inr deps"
      by (auto simp: to_flowmesh_node_def result_simps)
    ultimately show ?thesis
      using depends_on_filter [OF depends_on_to_flowmesh_node(1) [OF op(2) deps]] by blast
  qed
  have "emap ?f order = Inr ns \<Longrightarrow> list_all2 (\<lambda>nid node. \<exists>op deps. map_of (rg_nodes g) nid = Some op \<and>
      flowmesh_deps op = Inr deps \<and> depends_on node = filter (\<lambda>d. d \<in> set (dict_keys (rg_nodes g))) deps) order ns"
    for order ns
  proof (induction order arbitrary: ns)
    case (Cons nid order)
    then obtain y ys where "?f nid = Inr y" "emap ?f order = Inr ys" "ns = y # ys"
      by (auto simp: ebind_Inr_iff simp del: ebind.simps)
    with one [of nid y] Cons.IH [of ys] show ?case by blast
  qed simp
  with assms show ?thesis by (simp add: to_flowmesh_nodes_def)
qed

theorem to_flowmesh_nodes_closed_witness:
  "list_all2 (\<lambda>nid node. depends_on node = [''a'']) [''b'']
     (case to_flowmesh_nodes \<lparr>rg_nodes = [(''b'', op_from_schema ''b'' \<lparr>sc_task_type = ''inference'', sc_backend = [],
          sc_model = [], sc_data_spec = [], sc_model_spec = [], sc_inference_spec = [], sc_dependencies = [''in''],
          sc_output_spec = None, sc_condition = Some [(''node'', ''a'')]\<rparr>), (''a'', op_from_schema ''a'' \<lparr>sc_task_type = [],
          sc_backend = [], sc_model = [], sc_data_spec = [], sc_model_spec = [], sc_inference_spec = [],
          sc_dependencies = [], sc_output_spec = None, sc_condition = None\<rparr>)],
        rg_node_order = [''b''], rg_output_node_map = [], rg_output_paths = [], rg_dsl_to_runtime = []\<rparr>
      of Inr ns \<Rightarrow> ns | Inl e \<Rightarrow> [])"
  (is "list_all2 _ _ (case to_flowmesh_nodes ?g of Inr ns \<Rightarrow> ns | Inl e \<Rightarrow> [])")
proof -
  obtain ns where ns: "to_flowmesh_nodes ?g = Inr ns"
    by (simp add: to_flowmesh_nodes_def to_flowmesh_node_def flowmesh_deps_def op_from_schema_def dict_index_def Let_def)
  show ?thesis
    unfolding ns sum.case using to_flowmesh_nodes_closed [OF ns]
    by (auto simp: list_all2_Cons1 flowmesh_deps_def op_from_schema_def dict_index_def)
qed

section \<open>Merging\<close>

definition picked_nodes :: "runtime_graph \<Rightarrow> (string, runtime_op) dict" where
  "picked_nodes g = map (\<lambda>n. (n, the (map_of (rg_nodes g) n))) (rg_node_order g)"

lemma merge_nodes_run:
  assumes "set ns \<subseteq> set (dict_keys (rg_nodes g))" and "distinct ns" and "dict_keys (ms_nodes s) = ms_node_order s"
  shows "efold (merge_node g) ns s =
     (if set ns \<inter> set (ms_node_order s) = {}
      then Inr (s\<lparr>ms_nodes := ms_nodes s @ map (\<lambda>n. (n, the (map_of (rg_nodes g) n))) ns,
                  ms_node_order := ms_node_order s @ ns\<rparr>)
      else Inl (ValueError ''Duplicate runtime node id across graphs''))"
  using assms
proof (induction ns arbitrary: s)
  case (Cons n ns)
  show ?case
  proof (cases "n \<in> set (ms_node_order s)")
    case True
    with Cons.prems(3) have "n \<in> fst ` set (ms_nodes s)" by (metis set_map)
    with True show ?thesis by (simp add: merge_node_def [of g n])
  next
    case False
    from Cons.prems(1) obtain op where op: "map_of (rg_nodes g) n = Some op"
      by (metis insert_subset list.simps(15) map_of_eq_None_iff not_Some_eq set_map)
    have keys: "n \<notin> fst ` set (ms_nodes s)"
      using False Cons.prems(3) by (metis set_map)
    let ?s = "s\<lparr>ms_nodes := ms_nodes s @ [(n, op)], ms_node_order := ms_node_order s @ [n]\<rparr>"
    have step: "merge_node g n s = Inr ?s"
      using False Cons.prems(3) keys op by (simp add: merge_node_def dict_index_def update_new)
    have "dict_keys (ms_nodes ?s) = ms_node_order ?s" using Cons.prems(3) by simp
    from Cons.IH [OF _ _ this] Cons.prems(1,2) False show ?thesis
      by (auto simp: step op)
  qed
qed simp

definition merge_good :: "(string, runtime_graph) dict \<Rightarrow> bool" where
  "merge_good graphs \<longleftrightarrow> list_all (\<lambda>(name, g). rg_wf g) graphs"

lemma merge_run:
  assumes "merge_good graphs" and "dict_keys (ms_nodes s) = ms_node_order s" and "distinct (ms_node_order s)"
  shows "efold merge_one graphs s =
     (if distinct (ms_node_order s @ concat (map (\<lambda>x. rg_node_order (snd x)) graphs))
      then Inr \<lparr>ms_nodes = ms_nodes s @ concat (map (\<lambda>x. picked_nodes (snd x)) graphs),
                ms_node_order = ms_node_order s @ concat (map (\<lambda>x. rg_node_order (snd x)) graphs),
                ms_output_node_map = foldl (\<lambda>d (n, name). AList.update n name d) (ms_output_node_map s)
                  (concat (map (\<lambda>x. rg_output_node_map (snd x)) graphs)),
                ms_output_paths = foldl (\<lambda>d (n, path). AList.update n path d) (ms_output_paths s)
                  (concat (map (\<lambda>x. rg_output_paths (snd x)) graphs)),
                ms_dsl_to_runtime = foldl merge_dsl (ms_dsl_to_runtime s)
                  (concat (map (\<lambda>x. rg_dsl_to_runtime (snd x)) graphs)),
                ms_output_mapping = foldl (\<lambda>d (n, v). AList.update n v d) (ms_output_mapping s)
                  (concat (map (\<lambda>x. map (\<lambda>(n, name). (n, fst x, name)) (rg_output_node_map (snd x))) graphs))\<rparr>
      else Inl (ValueError ''Duplicate runtime node id across graphs''))"
  using assms
proof (induction graphs arbitrary: s)
  case (Cons x graphs)
  obtain gname g where x: "x = (gname, g)" by (cases x)
  from Cons.prems(1) have wf: "rg_wf g" and good: "merge_good graphs" by (auto simp: merge_good_def x)
  from wf have sub: "set (rg_node_order g) \<subseteq> set (dict_keys (rg_nodes g))" and dist: "distinct (rg_node_order g)"
    by (auto simp: rg_wf_def)
  note run = merge_nodes_run [OF sub dist Cons.prems(2)]
  show ?case
  proof (cases "set (rg_node_order g) \<inter> set (ms_node_order s) = {}")
    case False
    then show ?thesis by (auto simp: x merge_one_def run)
  next
    case True
    define t where "t = s\<lparr>ms_nodes := ms_nodes s @ picked_nodes g, ms_node_order := ms_node_order s @ rg_node_order g,
       ms_dsl_to_runtime := foldl merge_dsl (ms_dsl_to_runtime s) (rg_dsl_to_runtime g),
       ms_output_node_map := foldl (\<lambda>d (n, name). AList.update n name d) (ms_output_node_map s) (rg_output_node_map g),
       ms_output_mapping := foldl (\<lambda>d (n, name). AList.update n (gname, name) d) (ms_output_mapping s) (rg_output_node_map g),
       ms_output_paths := foldl (\<lambda>d (n, path). AList.update n path d) (ms_output_paths s) (rg_output_paths g)\<rparr>"
    have step: "merge_one x s = Inr t"
      using True by (simp add: x merge_one_def run picked_nodes_def t_def)
    have keys: "dict_keys (ms_nodes t) = ms_node_order t"
      using Cons.prems(2) by (simp add: t_def picked_nodes_def o_def)
    have dt: "distinct (ms_node_order t)" using True dist Cons.prems(3) by (auto simp: t_def)
    have om: "foldl (\<lambda>d (n, name). AList.update n (gname, name) d) d ps =
        foldl (\<lambda>d (n, v). AList.update n v d) d (map (\<lambda>(n, name). (n, gname, name)) ps)" for d ps
      by (induction ps arbitrary: d) auto
    show ?thesis
      unfolding efold.simps step ebind.simps Cons.IH [OF good keys dt]
      by (simp add: t_def x om)
  qed
qed simp

lemma picked_nodes_keys [simp]: "dict_keys (picked_nodes g) = rg_node_order g"
  by (simp add: picked_nodes_def o_def)

lemma map_of_picked:
  "n \<in> set (rg_node_order g) \<Longrightarrow> map_of (picked_nodes g) n = Some (the (map_of (rg_nodes g) n))"
  unfolding picked_nodes_def by (simp add: map_of_map_restrict)

lemma map_of_concat_distinct:
  assumes "distinct (concat (map (\<lambda>x. dict_keys (f x)) xs))" and "x \<in> set xs" and "k \<in> set (dict_keys (f x))"
  shows "map_of (concat (map f xs)) k = map_of (f x) k"
proof -
  from assms(3) obtain v where v: "map_of (f x) k = Some v"
    by (metis map_of_eq_None_iff not_Some_eq set_map)
  then have "(k, v) \<in> set (concat (map f xs))" using assms(2) by (auto dest: map_of_SomeD)
  moreover have "distinct (dict_keys (concat (map f xs)))"
    using assms(1) by (simp add: map_concat o_def)
  ultimately show ?thesis using v by (metis map_of_is_SomeI)
qed

lemma foldl_update_distinct:
  assumes "distinct (dict_keys ps)"
  shows "map_of (foldl (\<lambda>d (n, v). AList.update n v d) [] ps) = map_of ps"
proof -
  have "map_of (rev ps) = map_of ps"
    using assms map_of_inject_set [of "rev ps" ps] by (simp add: rev_map [symmetric])
  then show ?thesis by (simp add: fun_eq_iff map_of_foldl_update split: option.split)
qed

lemma distinct_merge_dsl: "distinct (dict_keys d) \<Longrightarrow> distinct (dict_keys (foldl merge_dsl d xs))"
proof (induction xs arbitrary: d)
  case (Cons x xs)
  have "distinct (dict_keys (merge_dsl d x))"
    using Cons.prems by (cases x) (simp add: merge_dsl_def split: option.split)
  then show ?case using Cons.IH by simp
qed simp

lemma distinct_concat_sub:
  assumes "distinct (concat (map f xs))" and "\<And>x. x \<in> set xs \<Longrightarrow> distinct (h x) \<and> set (h x) \<subseteq> set (f x)"
  shows "distinct (concat (map h xs))"
  using assms
proof (induction xs)
  case (Cons x xs)
  have "set (concat (map h xs)) \<subseteq> set (concat (map f xs))" using Cons.prems(2) by (auto simp: subset_iff)
  moreover have "set (f x) \<inter> set (concat (map f xs)) = {}" using Cons.prems(1) by auto
  moreover have "distinct (h x)" "set (h x) \<subseteq> set (f x)" using Cons.prems(2) by auto
  moreover have "distinct (concat (map h xs))" by (rule Cons.IH) (use Cons.prems in auto)
  ultimately show ?case by (simp only: list.map concat.simps distinct_append) blast
qed simp

lemma rg_wf_outputs:
  assumes "rg_wf g"
  shows "distinct (dict_keys (rg_output_node_map g))" "set (dict_keys (rg_output_node_map g)) \<subseteq> set (rg_node_order g)"
    and "distinct (dict_keys (rg_output_paths g))" "set (dict_keys (rg_output_paths g)) \<subseteq> set (rg_node_order g)"
  using assms by (simp_all add: rg_wf_def)

text \<open>
  Merging the graphs of a batch keeps every node of every graph unchanged, in order, keeps
  the result well-formed and maps each output node back to its graph and output name; it fails,
  with a ValueError, exactly when two graphs share a node id.
\<close>

theorem merge_runtime_graphs_correct:
  assumes "merge_good graphs"
  shows "case merge_runtime_graphs graphs of
           Inl e \<Rightarrow> e = ValueError ''Duplicate runtime node id across graphs'' \<and>
             \<not> distinct (concat (map (\<lambda>x. rg_node_order (snd x)) graphs))
         | Inr (g, out) \<Rightarrow> rg_wf g \<and> rg_node_order g = concat (map (\<lambda>x. rg_node_order (snd x)) graphs) \<and>
             (\<forall>(gname, gi) \<in> set graphs.
                (\<forall>nid \<in> set (rg_node_order gi). map_of (rg_nodes g) nid = map_of (rg_nodes gi) nid) \<and>
                (\<forall>(nid, oname) \<in> set (rg_output_node_map gi). map_of out nid = Some (gname, oname)))"
proof (cases "distinct (concat (map (\<lambda>x. rg_node_order (snd x)) graphs))")
  case False
  then show ?thesis using merge_run [OF assms] by (simp add: merge_runtime_graphs_def)
next
  case True
  let ?orders = "concat (map (\<lambda>x. rg_node_order (snd x)) graphs)"
  let ?nodes = "concat (map (\<lambda>x. picked_nodes (snd x)) graphs)"
  let ?outs = "concat (map (\<lambda>x. rg_output_node_map (snd x)) graphs)"
  let ?mapped = "concat (map (\<lambda>x. map (\<lambda>(n, name). (n, fst x, name)) (rg_output_node_map (snd x))) graphs)"
  let ?paths = "concat (map (\<lambda>x. rg_output_paths (snd x)) graphs)"
  have wf: "rg_wf gi" if "(gname, gi) \<in> set graphs" for gname gi
    using assms that by (auto simp: merge_good_def list_all_iff)
  have wfx: "rg_wf (snd x)" if "x \<in> set graphs" for x
    using wf [of "fst x" "snd x"] that by simp
  have keys: "dict_keys ?nodes = ?orders" by (simp add: map_concat o_def)
  have picked: "map_of ?nodes nid = map_of (rg_nodes gi) nid" "map_of ?nodes nid \<noteq> None"
    if "(gname, gi) \<in> set graphs" "nid \<in> set (rg_node_order gi)" for gname gi nid
  proof -
    have "nid \<in> set (dict_keys (rg_nodes gi))" using wf [OF that(1)] that(2) by (simp add: rg_wf_def)
    then obtain op where "map_of (rg_nodes gi) nid = Some op"
      by (metis map_of_eq_None_iff not_Some_eq set_map)
    moreover have "map_of ?nodes nid = map_of (picked_nodes gi) nid"
      using map_of_concat_distinct [where f = "\<lambda>x. picked_nodes (snd x)", OF _ that(1), of nid] that(2) True by simp
    ultimately show "map_of ?nodes nid = map_of (rg_nodes gi) nid" "map_of ?nodes nid \<noteq> None"
      using map_of_picked [OF that(2)] by simp_all
  qed
  have outs: "distinct (concat (map (\<lambda>x. dict_keys (rg_output_node_map (snd x))) graphs))"
    by (rule distinct_concat_sub [OF True]) (use rg_wf_outputs [OF wfx] in blast)
  have paths: "distinct (concat (map (\<lambda>x. dict_keys (rg_output_paths (snd x))) graphs))"
    by (rule distinct_concat_sub [OF True]) (use rg_wf_outputs [OF wfx] in blast)
  have mapped: "distinct (dict_keys ?mapped)"
  proof -
    have "dict_keys ?mapped = dict_keys ?outs" by (simp add: map_concat o_def split_def)
    also have "distinct \<dots>" using outs by (simp add: map_concat o_def)
    finally show ?thesis .
  qed
  define g where "g = \<lparr>rg_nodes = ?nodes, rg_node_order = ?orders,
     rg_output_node_map = foldl (\<lambda>d (n, name). AList.update n name d) [] ?outs,
     rg_output_paths = foldl (\<lambda>d (n, path). AList.update n path d) [] ?paths,
     rg_dsl_to_runtime = foldl merge_dsl [] (concat (map (\<lambda>x. rg_dsl_to_runtime (snd x)) graphs))\<rparr>"
  define out where "out = foldl (\<lambda>d (n, v). AList.update n v d) [] ?mapped"
  have run: "merge_runtime_graphs graphs = Inr (g, out)"
    using True merge_run [OF assms] by (simp add: merge_runtime_graphs_def g_def out_def)
  have ops: "op_node_id op = nid" if "(nid, op) \<in> set ?nodes" for nid op
  proof -
    from that obtain gname gi where gi: "(gname, gi) \<in> set graphs" "(nid, op) \<in> set (picked_nodes gi)"
      by auto
    then have "nid \<in> set (rg_node_order gi)" and op: "op = the (map_of (rg_nodes gi) nid)"
      by (auto simp: picked_nodes_def)
    with picked [OF gi(1)] have "(nid, op) \<in> set (rg_nodes gi)"
      by (metis map_of_SomeD option.collapse)
    with wf [OF gi(1)] show ?thesis by (auto simp: rg_wf_def list_all_iff)
  qed
  have wfg: "rg_wf g"
  proof -
    have sub: "fst ` set (concat (map (\<lambda>x. f (snd x)) graphs)) \<subseteq> set ?orders"
      if "\<And>g. rg_wf g \<Longrightarrow> set (dict_keys (f g)) \<subseteq> set (rg_node_order g)"
      for f :: "runtime_graph \<Rightarrow> (string, string) dict"
    proof -
      have "fst ` set (concat (map (\<lambda>x. f (snd x)) graphs)) = (\<Union>x \<in> set graphs. set (dict_keys (f (snd x))))"
        by (simp add: image_UN)
      also have "\<dots> \<subseteq> (\<Union>x \<in> set graphs. set (rg_node_order (snd x)))"
        by (rule UN_mono) (use that [OF wfx] in auto)
      finally show ?thesis by simp
    qed
    have "distinct (dict_keys ?nodes)" using True unfolding keys .
    moreover have "set (dict_keys ?nodes) = set ?orders" unfolding keys ..
    moreover have "list_all (\<lambda>(nid, op). op_node_id op = nid) ?nodes" using ops by (auto simp: list_all_iff)
    ultimately show ?thesis
      using True sub [OF rg_wf_outputs(2)] sub [OF rg_wf_outputs(4)]
      unfolding rg_wf_def g_def runtime_graph.simps set_map
      by (simp add: distinct_keys_foldl_update distinct_merge_dsl set_keys_foldl_update)
  qed
  have mo: "map_of out nid = Some (gname, oname)"
    if gi: "(gname, gi) \<in> set graphs" and o: "(nid, oname) \<in> set (rg_output_node_map gi)" for gname gi nid oname
  proof -
    have "map_of out = map_of ?mapped"
      unfolding out_def by (rule foldl_update_distinct [OF mapped])
    moreover have "map_of ?mapped nid = Some (gname, oname)"
      by (rule map_of_is_SomeI [OF mapped]) (use gi o in force)
    ultimately show ?thesis by simp
  qed
  have nodes: "rg_nodes g = ?nodes" and order: "rg_node_order g = ?orders" by (simp_all add: g_def)
  have "\<forall>(gname, gi) \<in> set graphs.
      (\<forall>nid \<in> set (rg_node_order gi). map_of (rg_nodes g) nid = map_of (rg_nodes gi) nid) \<and>
      (\<forall>(nid, oname) \<in> set (rg_output_node_map gi). map_of out nid = Some (gname, oname))"
    unfolding nodes using picked(1) mo by blast
  with wfg order show ?thesis unfolding run sum.case prod.case by blast
qed

theorem merge_runtime_graphs_correct_witness:
  "case merge_runtime_graphs [(''g'', \<lparr>rg_nodes = [(''n'', op_from_schema ''n'' \<lparr>sc_task_type = [], sc_backend = [],
       sc_model = [], sc_data_spec = [], sc_model_spec = [], sc_inference_spec = [], sc_dependencies = [],
       sc_output_spec = None, sc_condition = None\<rparr>)], rg_node_order = [''n''], rg_output_node_map = [(''n'', ''out'')],
       rg_output_paths = [], rg_dsl_to_runtime = []\<rparr>)] of
     Inl e \<Rightarrow> False | Inr (g, out) \<Rightarrow> map_of out ''n'' = Some (''g'', ''out'')"
  (is "case merge_runtime_graphs ?gs of Inl e \<Rightarrow> False | Inr (g, out) \<Rightarrow> _ out")
proof -
  have good: "merge_good ?gs" by (simp add: merge_good_def rg_wf_def op_from_schema_def)
  have "distinct (concat (map (\<lambda>x. rg_node_order (snd x)) ?gs))" by simp
  with merge_runtime_graphs_correct [OF good] show ?thesis
    by (auto split: sum.splits)
qed

section \<open>Prefixing\<close>

lemma emap_index_pair:
  assumes "\<And>k v. (k, v) \<in> set d \<Longrightarrow> map_of m k = Some (h k)"
  shows "emap (\<lambda>(k, v). ebind (dict_index m k) (\<lambda>n. Inr (n, v))) d = Inr (map (\<lambda>(k, v). (h k, v)) d)"
proof -
  have "emap (\<lambda>(k, v). ebind (dict_index m k) (\<lambda>n. Inr (n, v))) d = Inr (map (\<lambda>(k, v). (h k, v)) d)"
    by (rule emap_cong_Inr) (use assms in \<open>auto simp: dict_index_def\<close>)
  then show ?thesis .
qed

lemma map_of_prefix_mapping:
  "map_of (prefix_mapping prefix sep g) nid = (if nid \<in> set (dict_keys (rg_nodes g)) then Some (prefix @ sep @ nid) else None)"
proof -
  have "map_of (map (\<lambda>(nid, op). (nid, prefix @ sep @ nid)) ns) nid =
      (if nid \<in> set (dict_keys ns) then Some (prefix @ sep @ nid) else None)" for ns :: "(string, runtime_op) dict"
    by (induction ns) auto
  then show ?thesis by (simp add: prefix_mapping_def)
qed

lemma distinct_map_inj: "distinct xs \<Longrightarrow> inj h \<Longrightarrow> distinct (map h xs)"
  by (simp add: distinct_map) (meson inj_on_subset subset_UNIV)

text \<open>
  Prefixing a well-formed graph never fails. The result is well-formed, every node id, the
  order and the outputs carry the prefix, and each node is the old one with its dependencies
  and references renamed: what named a node of the graph names the renamed node, anything else
  is left alone. The condition of an op is kept.
\<close>

theorem with_node_prefix_correct:
  assumes "rg_wf g" and "prefix \<noteq> []"
  shows "\<exists>g'. with_node_prefix prefix sep g = Inr g' \<and> rg_wf g' \<and>
     rg_node_order g' = map (\<lambda>n. prefix @ sep @ n) (rg_node_order g) \<and>
     rg_output_node_map g' = map (\<lambda>(n, name). (prefix @ sep @ n, name)) (rg_output_node_map g) \<and>
     (\<forall>(nid, op) \<in> set (rg_nodes g). \<exists>op'. map_of (rg_nodes g') (prefix @ sep @ nid) = Some op' \<and>
        op_dependencies op' = map (\<lambda>d. if d \<in> set (rg_node_order g) then prefix @ sep @ d else d) (op_dependencies op) \<and>
        (op_condition op' = None \<longleftrightarrow> op_condition op = None))"
proof -
  let ?h = "\<lambda>n. prefix @ sep @ n"
  let ?m = "prefix_mapping prefix sep g"
  have inj: "inj ?h" by (simp add: inj_on_def)
  have mem: "map_of ?m n = Some (?h n)" if "n \<in> set (dict_keys (rg_nodes g))" for n
    using that by (simp add: map_of_prefix_mapping)
  from assms(1) have wf: "distinct (dict_keys (rg_nodes g))" "distinct (rg_node_order g)"
    "set (rg_node_order g) = set (dict_keys (rg_nodes g))"
    "distinct (dict_keys (rg_output_node_map g))" "set (dict_keys (rg_output_node_map g)) \<subseteq> set (dict_keys (rg_nodes g))"
    "distinct (dict_keys (rg_output_paths g))" "set (dict_keys (rg_output_paths g)) \<subseteq> set (dict_keys (rg_nodes g))"
    "distinct (dict_keys (rg_dsl_to_runtime g))"
    unfolding rg_wf_def by blast+
  let ?nodes = "map (\<lambda>(nid, op). (?h nid, remap_op ?m (?h nid) op)) (rg_nodes g)"
  have keys: "dict_keys (map (\<lambda>(k, v). (?h k, f k v)) d) = map ?h (dict_keys d)" for d :: "(string, 'v) dict" and f :: "string \<Rightarrow> 'v \<Rightarrow> 'w"
    by auto
  have dist: "distinct (dict_keys (map (\<lambda>(k, v). (?h k, f k v)) d))"
    if "distinct (dict_keys d)" for d :: "(string, 'v) dict" and f :: "string \<Rightarrow> 'v \<Rightarrow> 'w"
    unfolding keys by (rule distinct_map_inj [OF that inj])
  have order: "emap (dict_index ?m) (rg_node_order g) = Inr (map ?h (rg_node_order g))"
    by (rule emap_cong_Inr) (use mem wf(3) in \<open>simp add: dict_index_def\<close>)
  have outs: "emap (\<lambda>(nid, name). ebind (dict_index ?m nid) (\<lambda>n. Inr (n, name))) (rg_output_node_map g) =
      Inr (map (\<lambda>(n, name). (?h n, name)) (rg_output_node_map g))"
    by (rule emap_index_pair, rule mem, rule subsetD [OF wf(5)]) force
  have paths: "emap (\<lambda>(nid, path). ebind (dict_index ?m nid) (\<lambda>n. Inr (n, path))) (rg_output_paths g) =
      Inr (map (\<lambda>(n, path). (?h n, path)) (rg_output_paths g))"
    by (rule emap_index_pair, rule mem, rule subsetD [OF wf(7)]) force
  define g' where "g' = \<lparr>rg_nodes = ?nodes, rg_node_order = map ?h (rg_node_order g),
     rg_output_node_map = map (\<lambda>(n, name). (?h n, name)) (rg_output_node_map g),
     rg_output_paths = map (\<lambda>(n, path). (?h n, path)) (rg_output_paths g),
     rg_dsl_to_runtime = map (\<lambda>(oid, rids). (oid, map (\<lambda>r. dict_get ?m r r) rids)) (rg_dsl_to_runtime g)\<rparr>"
  have run: "with_node_prefix prefix sep g = Inr g'"
    using assms(2)
    unfolding with_node_prefix_def Let_def order outs paths ebind.simps g'_def
      dict_of_distinct_id [OF dist [OF wf(1)]] dict_of_distinct_id [OF dist [OF wf(4)]]
      dict_of_distinct_id [OF dist [OF wf(6)]]
    by simp
  have dsl: "dict_keys (map (\<lambda>(oid, rids). (oid, map (\<lambda>r. dict_get ?m r r) rids)) (rg_dsl_to_runtime g)) =
      dict_keys (rg_dsl_to_runtime g)" by auto
  have "rg_wf g'"
    unfolding rg_wf_def g'_def runtime_graph.simps keys dsl
  proof (intro conjI)
    show "list_all (\<lambda>(nid, op). op_node_id op = nid) ?nodes"
      by (auto simp: list_all_iff remap_op_def)
  qed (use wf in \<open>simp_all only: distinct_map_inj [OF _ inj] set_map image_mono\<close>)
  moreover have "\<exists>op'. map_of (rg_nodes g') (?h nid) = Some op' \<and>
        op_dependencies op' = map (\<lambda>d. if d \<in> set (rg_node_order g) then ?h d else d) (op_dependencies op) \<and>
        (op_condition op' = None \<longleftrightarrow> op_condition op = None)" if "(nid, op) \<in> set (rg_nodes g)" for nid op
  proof -
    have "(?h nid, remap_op ?m (?h nid) op) \<in> set ?nodes" using that by force
    then have "map_of ?nodes (?h nid) = Some (remap_op ?m (?h nid) op)"
      by (rule map_of_is_SomeI [OF dist [OF wf(1)]])
    then show ?thesis
      by (simp add: g'_def remap_op_def dict_get_def map_of_prefix_mapping wf(3) cong: if_cong)
  qed
  ultimately show ?thesis using run by (auto simp: g'_def)
qed

theorem with_node_prefix_correct_witness:
  "\<exists>g'. with_node_prefix ''p'' ''__'' \<lparr>rg_nodes = [(''n'', op_from_schema ''n'' \<lparr>sc_task_type = [], sc_backend = [],
       sc_model = [], sc_data_spec = [], sc_model_spec = [], sc_inference_spec = [], sc_dependencies = [],
       sc_output_spec = None, sc_condition = None\<rparr>)], rg_node_order = [''n''], rg_output_node_map = [(''n'', ''out'')],
       rg_output_paths = [], rg_dsl_to_runtime = []\<rparr> = Inr g' \<and> rg_node_order g' = [''p__n'']"
  (is "\<exists>g'. with_node_prefix _ _ ?g = _ g' \<and> _ g'")
proof -
  have "rg_wf ?g" by (simp add: rg_wf_def op_from_schema_def)
  then show ?thesis using with_node_prefix_correct [of ?g "''p''" "''__''"] by auto
qed

section \<open>Redaction\<close>

text \<open>A value leaks when some dict in it, at any depth, holds a credential in clear under a sensitive key.\<close>

fun leaks :: "pyval \<Rightarrow> bool" where
  "leaks (PDict d) \<longleftrightarrow>
     list_ex (\<lambda>(k, v). secret_entry k v \<and> v \<noteq> PStr redacted_token_placeholder \<or> leaks v) d"
| "leaks (PList xs) \<longleftrightarrow> list_ex leaks xs"
| "leaks (PTuple xs) \<longleftrightarrow> list_ex leaks xs"
| "leaks v \<longleftrightarrow> False"

fun tuple_free :: "pyval \<Rightarrow> bool" where
  "tuple_free (PDict d) \<longleftrightarrow> list_all (\<lambda>(k, v). tuple_free v) d"
| "tuple_free (PList xs) \<longleftrightarrow> list_all tuple_free xs"
| "tuple_free (PTuple xs) \<longleftrightarrow> False"
| "tuple_free v \<longleftrightarrow> True"

lemma secret_entry_redact: "\<not> secret_entry k v \<Longrightarrow> \<not> secret_entry k (redact_sensitive v)"
  by (cases v) (auto simp: secret_entry_def)

lemma secret_entry_placeholder: "secret_entry k v \<Longrightarrow> secret_entry k (PStr redacted_token_placeholder)"
  by (simp add: secret_entry_def redacted_token_placeholder_def)

text \<open>
  A payload made of dicts, lists and scalars leaks no credential once redacted, and
  redacting it again changes nothing. Tuples are not entered: a credential under one stays.
\<close>

theorem redact_sensitive_no_leak:
  "(tuple_free v \<longrightarrow> \<not> leaks (redact_sensitive v)) \<and>
   redact_sensitive (redact_sensitive v) = redact_sensitive v \<and>
   redact_sensitive (PTuple vs) = PTuple vs"
proof -
  have "\<not> leaks (redact_sensitive v)" if "tuple_free v"
    using that
    by (induction v rule: redact_sensitive.induct)
      (fastforce simp: list_ex_iff list_all_iff dest: secret_entry_redact split: if_splits)+
  moreover have "redact_sensitive (redact_sensitive v) = redact_sensitive v"
    by (induction v rule: redact_sensitive.induct) (auto simp: secret_entry_redact secret_entry_placeholder)
  ultimately show ?thesis by simp
qed

theorem redact_sensitive_no_leak_witness:
  "\<not> leaks (redact_sensitive (PDict [(''data'', PList [PDict [(''lumid_data_token'', PStr ''s3cr3t'')]])]))"
  using redact_sensitive_no_leak [of "PDict [(''data'', PList [PDict [(''lumid_data_token'', PStr ''s3cr3t'')]])]" "[]"]
  by simp

end
