(* ===== verification/PyStrings.thy ===== *)
theory PyStrings
  imports Prelude
begin

text \<open>
  The string operations of Python that the modelled code calls: decimal rendering, prefix and
  suffix tests, \<open>replace\<close>, \<open>strip\<close> with a set of characters, \<open>split\<close> and \<open>partition\<close> at one
  character, \<open>lower\<close>. Strings are character lists over the 8-bit alphabet.
\<close>

section \<open>Decimal rendering\<close>

definition digit_char :: "nat \<Rightarrow> char" where
  "digit_char d = char_of (48 + d)"

fun show_nat :: "nat \<Rightarrow> string" where
  "show_nat n = (if n < 10 then [digit_char n] else show_nat (n div 10) @ [digit_char (n mod 10)])"

declare show_nat.simps [simp del]

definition digit_value :: "char \<Rightarrow> nat" where
  "digit_value c = of_char c - 48"

definition read_nat :: "string \<Rightarrow> nat" where
  "read_nat s = foldl (\<lambda>n c. 10 * n + digit_value c) 0 s"

lemma digit_value_char [simp]: "d < 10 \<Longrightarrow> digit_value (digit_char d) = d"
  by (simp add: digit_value_def digit_char_def)

lemma read_show_nat: "read_nat (show_nat n) = n"
proof (induction n rule: show_nat.induct)
  case (1 n)
  show ?case
  proof (cases "n < 10")
    case True
    then show ?thesis by (subst show_nat.simps) (simp add: read_nat_def)
  next
    case False
    with 1 have "read_nat (show_nat (n div 10)) = n div 10" by simp
    with False show ?thesis by (subst show_nat.simps) (simp add: read_nat_def)
  qed
qed

lemma show_nat_inject: "show_nat m = show_nat n \<longleftrightarrow> m = n"
  by (metis read_show_nat)

lemma show_nat_nonempty: "show_nat n \<noteq> []"
  by (subst show_nat.simps) simp

section \<open>Searching and replacing\<close>

definition starts_with :: "string \<Rightarrow> string \<Rightarrow> bool" where
  "starts_with p s \<longleftrightarrow> take (length p) s = p"

fun contains_str :: "string \<Rightarrow> string \<Rightarrow> bool" where
  "contains_str p [] \<longleftrightarrow> p = []"
| "contains_str p (c # s) \<longleftrightarrow> starts_with p (c # s) \<or> contains_str p s"

lemma drop_shorter [termination_simp]: "length (drop n xs) < Suc (length xs)"
  by simp

text \<open>
  \<open>s.replace(old, new)\<close>: the occurrences are taken from the left and do not overlap; an empty
  \<open>old\<close> matches before every character and at the end.
\<close>

fun replace_from :: "string \<Rightarrow> string \<Rightarrow> string \<Rightarrow> string" where
  "replace_from old new [] = []"
| "replace_from old new (c # s) =
     (if starts_with old (c # s) then new @ replace_from old new (drop (length old - 1) s)
      else c # replace_from old new s)"

definition str_replace :: "string \<Rightarrow> string \<Rightarrow> string \<Rightarrow> string" where
  "str_replace old new s =
     (if old = [] then new @ concat (map (\<lambda>c. c # new) s) else replace_from old new s)"

lemma replace_from_absent: "\<not> contains_str old s \<Longrightarrow> replace_from old new s = s"
  by (induction s) auto

lemma str_replace_absent: "\<not> contains_str old s \<Longrightarrow> str_replace old new s = s"
proof -
  assume absent: "\<not> contains_str old s"
  then have "old \<noteq> []" by (cases s) (auto simp: starts_with_def)
  with absent show ?thesis by (simp add: str_replace_def replace_from_absent)
qed

section \<open>Stripping and splitting\<close>

definition lstrip_chars :: "string \<Rightarrow> string \<Rightarrow> string" where
  "lstrip_chars cs s = dropWhile (\<lambda>c. c \<in> set cs) s"

definition rstrip_chars :: "string \<Rightarrow> string \<Rightarrow> string" where
  "rstrip_chars cs s = rev (dropWhile (\<lambda>c. c \<in> set cs) (rev s))"

definition strip_chars :: "string \<Rightarrow> string \<Rightarrow> string" where
  "strip_chars cs s = rstrip_chars cs (lstrip_chars cs s)"

definition whitespace :: string where
  "whitespace = [CHR '' '', CHR 0x09, CHR 0x0A, CHR 0x0B, CHR 0x0C, CHR 0x0D, CHR 0x1C, CHR 0x1D, CHR 0x1E, CHR 0x1F]"

definition str_strip :: "string \<Rightarrow> string" where
  "str_strip s = strip_chars whitespace s"

definition str_partition :: "char \<Rightarrow> string \<Rightarrow> string \<times> string" where
  "str_partition c s = (takeWhile (\<lambda>x. x \<noteq> c) s, drop 1 (dropWhile (\<lambda>x. x \<noteq> c) s))"

fun str_split :: "char \<Rightarrow> string \<Rightarrow> string list" where
  "str_split c [] = [[]]"
| "str_split c (x # xs) =
     (if x = c then [] # str_split c xs
      else case str_split c xs of [] \<Rightarrow> [[x]] | y # ys \<Rightarrow> (x # y) # ys)"

definition lower_char :: "char \<Rightarrow> char" where
  "lower_char c = (let n = of_char c :: nat in if 65 \<le> n \<and> n \<le> 90 then char_of (n + 32) else c)"

definition str_lower :: "string \<Rightarrow> string" where
  "str_lower s = map lower_char s"

definition is_alnum :: "char \<Rightarrow> bool" where
  "is_alnum c \<longleftrightarrow> (let n = of_char c :: nat in
     48 \<le> n \<and> n \<le> 57 \<or> 65 \<le> n \<and> n \<le> 90 \<or> 97 \<le> n \<and> n \<le> 122)"

lemma dropWhile_idem_hd: "dropWhile P xs = [] \<or> \<not> P (hd (dropWhile P xs))"
  by (metis hd_dropWhile)

lemma set_strip_chars: "set (strip_chars cs s) \<subseteq> set s"
  unfolding strip_chars_def rstrip_chars_def lstrip_chars_def
  by (metis set_dropWhileD set_rev subsetI)

text \<open>\<open>re.sub(r"[^...]+", "_", s)\<close>: every maximal run of characters outside the class becomes one underscore.\<close>

fun collapse_runs :: "(char \<Rightarrow> bool) \<Rightarrow> bool \<Rightarrow> string \<Rightarrow> string" where
  "collapse_runs ok inside [] = []"
| "collapse_runs ok inside (c # s) =
     (if ok c then c # collapse_runs ok False s
      else if inside then collapse_runs ok True s
      else CHR ''_'' # collapse_runs ok True s)"

lemma set_collapse_runs: "c \<in> set (collapse_runs ok inside s) \<Longrightarrow> ok c \<or> c = CHR ''_''"
  by (induction ok inside s rule: collapse_runs.induct) (auto split: if_splits)

lemma collapse_runs_id: "list_all ok s \<Longrightarrow> collapse_runs ok inside s = s"
  by (induction s arbitrary: inside) auto

lemma dropWhile_idem: "dropWhile P (dropWhile P xs) = dropWhile P xs"
  by (induction xs) auto

lemma strip_chars_idem: "strip_chars cs (strip_chars cs s) = strip_chars cs s"
proof (cases "lstrip_chars cs s")
  case Nil
  then have "dropWhile (\<lambda>c. c \<in> set cs) s = []" by (simp only: lstrip_chars_def)
  then show ?thesis by (simp only: strip_chars_def rstrip_chars_def lstrip_chars_def rev.simps dropWhile.simps)
next
  case (Cons c t)
  let ?P = "\<lambda>c. c \<in> set cs"
  have c: "c \<notin> set cs" using Cons dropWhile_idem_hd [of ?P s] by (simp add: lstrip_chars_def)
  have "dropWhile ?P (rev t @ [c]) = dropWhile ?P (rev t) @ [c]"
    using c by (induction "rev t") (auto simp: dropWhile_append)
  then have strip: "strip_chars cs s = c # rstrip_chars cs t"
    using Cons by (simp add: strip_chars_def rstrip_chars_def)
  have "lstrip_chars cs (strip_chars cs s) = strip_chars cs s" using c by (simp add: strip lstrip_chars_def)
  moreover have "rstrip_chars cs (strip_chars cs s) = strip_chars cs s"
    by (simp add: strip_chars_def rstrip_chars_def dropWhile_idem)
  ultimately show ?thesis by (simp add: strip_chars_def)
qed

lemma whitespace_code: "c \<in> set whitespace \<Longrightarrow> (of_char c :: nat) \<le> 32"
  by (auto simp: whitespace_def)

lemma lower_char_space: "lower_char c \<in> set whitespace \<longleftrightarrow> c \<in> set whitespace"
proof (cases "65 \<le> (of_char c :: nat) \<and> (of_char c :: nat) \<le> 90")
  case True
  then have "c \<notin> set whitespace" using whitespace_code [of c] by auto
  moreover have "(of_char (lower_char c) :: nat) = of_char c + 32"
    using True by (simp add: lower_char_def Let_def of_char_of)
  then have "lower_char c \<notin> set whitespace" using whitespace_code [of "lower_char c"] True by linarith
  ultimately show ?thesis by simp
next
  case False
  then have "lower_char c = c" by (simp only: lower_char_def Let_def if_False)
  then show ?thesis by simp
qed

lemma str_lower_idem: "str_lower (str_lower s) = str_lower s"
  by (simp add: str_lower_def lower_char_def Let_def of_char_of)

lemma dropWhile_lower: "dropWhile (\<lambda>c. c \<in> set whitespace) (map lower_char s) = map lower_char (dropWhile (\<lambda>c. c \<in> set whitespace) s)"
  by (induction s) (simp_all add: lower_char_space)

lemma strip_lower: "str_strip (str_lower s) = str_lower (str_strip s)"
  by (simp only: str_strip_def str_lower_def strip_chars_def rstrip_chars_def lstrip_chars_def dropWhile_lower rev_map)

lemma normalized_idem: "str_lower (str_strip (str_lower (str_strip s))) = str_lower (str_strip s)"
  by (simp add: strip_lower str_lower_idem) (simp add: str_strip_def strip_chars_idem)

text \<open>The part of a string before the first character of a kind.\<close>

lemma takeWhile_stop: "\<forall>x \<in> set xs. P x \<Longrightarrow> \<not> P c \<Longrightarrow> takeWhile P (xs @ c # ys) = xs"
  by (induction xs) auto

lemma show_nat_digit: "c \<in> set (show_nat n) \<Longrightarrow> \<exists>d < 10. c = digit_char d"
proof (induction n rule: show_nat.induct)
  case (1 n)
  show ?case
  proof (cases "n < 10")
    case True
    with 1 show ?thesis by (subst (asm) show_nat.simps) auto
  next
    case False
    with 1(2) have "c \<in> set (show_nat (n div 10)) \<or> c = digit_char (n mod 10)" by (auto simp: show_nat.simps [of n])
    then show ?thesis
    proof
      assume "c = digit_char (n mod 10)"
      then show ?thesis by (metis mod_less_divisor zero_less_numeral)
    qed (use 1(1) False in blast)
  qed
qed

lemma show_nat_no_underscore: "CHR ''_'' \<notin> set (show_nat n)"
proof
  assume "CHR ''_'' \<in> set (show_nat n)"
  then obtain d where "d < 10" "CHR ''_'' = digit_char d" using show_nat_digit by blast
  then have "(of_char (CHR ''_'') :: nat) = of_char (digit_char d)" by simp
  with \<open>d < 10\<close> show False by (simp add: digit_char_def)
qed

end
