(* ===== verification/Dedupe.thy ===== *)
theory Dedupe
  imports RuntimeGraphs PyStrings
begin

text \<open>
  Merging identical runtime ops before scheduling (\<open>runtime/optimizer/base.py\<close>): the normalised
  signature of an op, the pass that maps each node to its canonical one, and the rebuilt graph.
\<close>

section \<open>Signatures\<close>

text \<open>
  \<open>_stable_json\<close> prints a value with sorted keys. Two values print alike exactly when they agree
  up to the order of keys and tuples against lists, so the printed text is represented by the
  value with its keys sorted and its tuples turned into lists.
\<close>

fun stable_json :: "pyval \<Rightarrow> pyval" where
  "stable_json (PDict d) = PDict (sort_key fst (map (\<lambda>(k, v). (k, stable_json v)) d))"
| "stable_json (PList xs) = PList (map stable_json xs)"
| "stable_json (PTuple xs) = PList (map stable_json xs)"
| "stable_json v = v"

definition label_of :: "string \<Rightarrow> pyval \<Rightarrow> string option" where
  "label_of k v = (case v of PStr s \<Rightarrow> if k = ''label'' then Some s else None | _ \<Rightarrow> None)"

fun collect_labels :: "pyval \<Rightarrow> string list" where
  "collect_labels (PDict d) =
     concat (map (\<lambda>(k, v). (case label_of k v of Some s \<Rightarrow> [s] | None \<Rightarrow> []) @ collect_labels v) d)"
| "collect_labels (PList xs) = concat (map collect_labels xs)"
| "collect_labels (PTuple xs) = concat (map collect_labels xs)"
| "collect_labels v = []"

definition label_map :: "string list \<Rightarrow> (string, string) dict" where
  "label_map labels =
     map (\<lambda>(i, l). (l, ''__lbl'' @ show_nat i @ ''__'')) (List.enumerate 0 (sort (dedupe_into [] labels)))"

text \<open>Longest first; Python's reverse sort keeps the order of labels of the same length.\<close>

definition replacement_pairs :: "string list \<Rightarrow> (string, string) dict" where
  "replacement_pairs labels = sort_key (\<lambda>p. - int (length (fst p))) (label_map labels)"

fun replace_labels :: "(string, string) dict \<Rightarrow> (string, string) dict \<Rightarrow> pyval \<Rightarrow> pyval" where
  "replace_labels lm rp (PDict d) =
     PDict (map (\<lambda>(k, v).
       (k, case label_of k v of Some s \<Rightarrow> PStr (dict_get lm s s) | None \<Rightarrow> replace_labels lm rp v)) d)"
| "replace_labels lm rp (PList xs) = PList (map (replace_labels lm rp) xs)"
| "replace_labels lm rp (PTuple xs) = PTuple (map (replace_labels lm rp) xs)"
| "replace_labels lm rp (PStr s) = PStr (foldl (\<lambda>t (old, new). str_replace old new t) s rp)"
| "replace_labels lm rp v = v"

definition normalize_label_tokens :: "pyval \<Rightarrow> pyval" where
  "normalize_label_tokens v =
     (let labels = collect_labels v
      in if labels = [] then v else replace_labels (label_map labels) (replacement_pairs labels) v)"

text \<open>
  The remapped and normalised spec. The code checks that the result is still a dict and raises
  TypeError otherwise; a dict is always rewritten to a dict.
\<close>

definition normalize_spec_for_signature :: "spec \<Rightarrow> (string, string) dict \<Rightarrow> pyval result" where
  "normalize_spec_for_signature sp m =
     (case normalize_label_tokens (PDict (remap_spec m sp)) of
        PDict d \<Rightarrow> Inr (PDict d)
      | _ \<Rightarrow> Inl (TypeError ''Expected dict after normalizing runtime spec''))"

lemma normalize_spec_total: "\<exists>d. normalize_spec_for_signature sp m = Inr (PDict d)"
  by (simp add: normalize_spec_for_signature_def normalize_label_tokens_def Let_def)

type_synonym signature =
  "string \<times> string \<times> string \<times> pyval \<times> pyval \<times> pyval \<times> pyval option \<times> string list"

definition runtime_signature :: "runtime_op \<Rightarrow> (string, string) dict \<Rightarrow> signature result" where
  "runtime_signature op m =
     ebind (normalize_spec_for_signature (op_data_spec op) m)
       (\<lambda>data. ebind (normalize_spec_for_signature (op_model_spec op) m)
       (\<lambda>model. ebind (normalize_spec_for_signature (op_inference_spec op) m)
       (\<lambda>inference. ebind (case op_output_spec op of
            None \<Rightarrow> Inr None
          | Some out \<Rightarrow> ebind (normalize_spec_for_signature out m) (\<lambda>v. Inr (Some v)))
       (\<lambda>output. Inr
          (op_task_type op, op_backend op, op_model op, stable_json data, stable_json model,
           stable_json inference, map_option stable_json output,
           map (\<lambda>d. dict_get m d d) (op_dependencies op))))))"

section \<open>The pass and the rebuilt graph\<close>

definition dedupe_step ::
  "runtime_graph \<Rightarrow> string \<Rightarrow> (signature, string) dict \<times> (string, string) dict
     \<Rightarrow> ((signature, string) dict \<times> (string, string) dict) result" where
  "dedupe_step g nid st =
     (case st of (canon, m) \<Rightarrow>
        if nid \<in> set (dict_keys (rg_output_node_map g)) then Inr (canon, AList.update nid nid m)
        else ebind (dict_index (rg_nodes g) nid)
          (\<lambda>op. ebind (runtime_signature op m)
          (\<lambda>sig. case map_of canon sig of
             None \<Rightarrow> Inr (AList.update sig nid canon, AList.update nid nid m)
           | Some c \<Rightarrow> Inr (canon, AList.update nid c m))))"

definition dedupe_mapping :: "runtime_graph \<Rightarrow> string list \<Rightarrow> (string, string) dict result" where
  "dedupe_mapping g order = ebind (efold (dedupe_step g) order ([], [])) (\<lambda>(canon, m). Inr m)"

definition deduped_op :: "(string, string) dict \<Rightarrow> string \<Rightarrow> runtime_op \<Rightarrow> runtime_op" where
  "deduped_op m c op =
     \<lparr>op_node_id = c, op_task_type = op_task_type op, op_backend = op_backend op,
      op_model = op_model op, op_data_spec = remap_spec m (op_data_spec op),
      op_model_spec = remap_spec m (op_model_spec op),
      op_inference_spec = remap_spec m (op_inference_spec op),
      op_dependencies = dedupe_into [] (map (\<lambda>d. dict_get m d d) (op_dependencies op)),
      op_output_spec = map_option (remap_spec m) (op_output_spec op),
      op_condition = None\<rparr>"

definition dedupe_add ::
  "runtime_graph \<Rightarrow> (string, string) dict \<Rightarrow> string \<Rightarrow> (string, runtime_op) dict \<times> string list
     \<Rightarrow> ((string, runtime_op) dict \<times> string list) result" where
  "dedupe_add g m nid st =
     (case st of (nodes, order) \<Rightarrow>
        ebind (dict_index m nid)
          (\<lambda>c. if c \<in> set (dict_keys nodes) then Inr (nodes, order)
               else ebind (dict_index (rg_nodes g) c)
                      (\<lambda>op. Inr (AList.update c (deduped_op m c op) nodes, order @ [c]))))"

definition dedupe_runtime_graph :: "runtime_graph \<Rightarrow> runtime_graph result" where
  "dedupe_runtime_graph g =
     ebind (rg_topological_order g)
       (\<lambda>order. ebind (dedupe_mapping g order)
       (\<lambda>m. if list_all (\<lambda>(n, c). n = c) m then Inr g
            else ebind (efold (dedupe_add g m) (rg_node_order g) ([], []))
              (\<lambda>(nodes, new_order).
                 ebind (emap (\<lambda>(nid, name). ebind (dict_index m nid) (\<lambda>c. Inr (c, name))) (rg_output_node_map g))
              (\<lambda>outs. ebind (emap (\<lambda>(nid, path). ebind (dict_index m nid) (\<lambda>c. Inr (c, path))) (rg_output_paths g))
              (\<lambda>paths. Inr
                 \<lparr>rg_nodes = nodes, rg_node_order = new_order, rg_output_node_map = dict_of outs,
                  rg_output_paths = dict_of paths,
                  rg_dsl_to_runtime =
                    map (\<lambda>(oid, rids). (oid, dedupe_into [] (map (\<lambda>r. dict_get m r r) rids)))
                      (rg_dsl_to_runtime g)\<rparr>)))))"

definition optimize_graphs ::
  "(string, runtime_graph) dict \<Rightarrow> (runtime_graph \<times> (string, string \<times> string) dict) result" where
  "optimize_graphs graphs =
     ebind (merge_runtime_graphs graphs)
       (\<lambda>(merged, output_mapping).
          ebind (dedupe_runtime_graph merged) (\<lambda>g. Inr (g, output_mapping)))"

section \<open>What the pass establishes\<close>

text \<open>
  After the pass over a prefix \<open>xs\<close> of the topological order: exactly those nodes are mapped;
  a canonical node is mapped to itself and stands at or before the nodes mapped to it; output
  nodes are their own canonical nodes; nodes that are mapped together agree on what the
  signature compares.
\<close>

definition same_op :: "runtime_graph \<Rightarrow> (string, string) dict \<Rightarrow> string \<Rightarrow> string \<Rightarrow> bool" where
  "same_op g m a b \<longleftrightarrow>
     (case (map_of (rg_nodes g) a, map_of (rg_nodes g) b) of
        (Some x, Some y) \<Rightarrow> model_key x = model_key y \<and>
          map (\<lambda>d. dict_get m d d) (op_dependencies x) = map (\<lambda>d. dict_get m d d) (op_dependencies y)
      | _ \<Rightarrow> False)"

definition dedupe_inv ::
  "runtime_graph \<Rightarrow> string list \<Rightarrow> (signature, string) dict \<Rightarrow> (string, string) dict \<Rightarrow> bool" where
  "dedupe_inv g xs canon m \<longleftrightarrow>
     dict_keys m = xs \<and>
     (\<forall>ys n zs c. xs = ys @ n # zs \<longrightarrow> map_of m n = Some c \<longrightarrow> c = n \<or> c \<in> set ys) \<and>
     (\<forall>n c. map_of m n = Some c \<longrightarrow> map_of m c = Some c \<and> same_op g m n c) \<and>
     (\<forall>n \<in> set xs. n \<in> set (dict_keys (rg_output_node_map g)) \<longrightarrow> map_of m n = Some n) \<and>
     (\<forall>n c. map_of m n = Some c \<longrightarrow> c \<noteq> n \<longrightarrow> c \<notin> set (dict_keys (rg_output_node_map g))) \<and>
     (\<forall>sig c. map_of canon sig = Some c \<longrightarrow> map_of m c = Some c \<and>
        c \<notin> set (dict_keys (rg_output_node_map g)) \<and>
        (\<exists>op m0. map_of (rg_nodes g) c = Some op \<and> runtime_signature op m0 = Inr sig \<and>
           map (\<lambda>d. dict_get m0 d d) (op_dependencies op) = map (\<lambda>d. dict_get m d d) (op_dependencies op)))"

lemma runtime_signature_total: "\<exists>sig. runtime_signature op m = Inr sig"
proof -
  note total = normalize_spec_total [of _ m]
  obtain a where a: "normalize_spec_for_signature (op_data_spec op) m = Inr a" using total by blast
  obtain b where b: "normalize_spec_for_signature (op_model_spec op) m = Inr b" using total by blast
  obtain c where c: "normalize_spec_for_signature (op_inference_spec op) m = Inr c" using total by blast
  show ?thesis
  proof (cases "op_output_spec op")
    case None
    then show ?thesis by (simp add: runtime_signature_def a b c)
  next
    case (Some out)
    moreover obtain d where "normalize_spec_for_signature out m = Inr d" using total by blast
    ultimately show ?thesis by (simp add: runtime_signature_def a b c)
  qed
qed

lemma runtime_signature_fields:
  assumes "runtime_signature x m = Inr sig" and "runtime_signature y m' = Inr sig"
  shows "model_key x = model_key y"
    and "map (\<lambda>d. dict_get m d d) (op_dependencies x) = map (\<lambda>d. dict_get m' d d) (op_dependencies y)"
  using assms by (auto simp: runtime_signature_def model_key_def result_simps)

abbreviation mapped_deps :: "(string, string) dict \<Rightarrow> runtime_op \<Rightarrow> string list" where
  "mapped_deps m op \<equiv> map (\<lambda>d. dict_get m d d) (op_dependencies op)"

lemma mapped_deps_update: "nid \<notin> set (op_dependencies op) \<Longrightarrow> mapped_deps (AList.update nid c m) op = mapped_deps m op"
  by (auto simp: dict_get_update)

lemma dedupe_invD:
  assumes "dedupe_inv g xs canon m"
  shows "dict_keys m = xs"
    and "xs = ys @ n # zs \<Longrightarrow> map_of m n = Some c \<Longrightarrow> c = n \<or> c \<in> set ys"
    and "map_of m n = Some c \<Longrightarrow> map_of m c = Some c"
    and "map_of m n = Some c \<Longrightarrow> same_op g m n c"
    and "n \<in> set xs \<Longrightarrow> n \<in> set (dict_keys (rg_output_node_map g)) \<Longrightarrow> map_of m n = Some n"
    and "map_of m n = Some c \<Longrightarrow> c \<noteq> n \<Longrightarrow> c \<notin> set (dict_keys (rg_output_node_map g))"
    and "map_of canon sig = Some c \<Longrightarrow> map_of m c = Some c \<and> c \<notin> set (dict_keys (rg_output_node_map g)) \<and>
      (\<exists>op m0. map_of (rg_nodes g) c = Some op \<and> runtime_signature op m0 = Inr sig \<and> mapped_deps m0 op = mapped_deps m op)"
  using assms unfolding dedupe_inv_def by blast+

text \<open>No node processed so far depends on the node that comes next.\<close>

definition undepended :: "runtime_graph \<Rightarrow> string list \<Rightarrow> string \<Rightarrow> bool" where
  "undepended g xs nid \<longleftrightarrow> nid \<notin> set xs \<and>
     (\<forall>n op. n \<in> insert nid (set xs) \<longrightarrow> map_of (rg_nodes g) n = Some op \<longrightarrow> nid \<notin> set (op_dependencies op))"

lemma dedupe_inv_extend:
  assumes inv: "dedupe_inv g xs canon m" and und: "undepended g xs nid"
    and c: "c = nid \<and> map_of (rg_nodes g) nid \<noteq> None \<or>
      map_of m c = Some c \<and> same_op g m nid c \<and> nid \<notin> set (dict_keys (rg_output_node_map g)) \<and>
      c \<notin> set (dict_keys (rg_output_node_map g))"
  shows "dedupe_inv g (xs @ [nid]) canon (AList.update nid c m)"
proof -
  note I = dedupe_invD [OF inv]
  let ?m = "AList.update nid c m"
  have fresh: "nid \<notin> set xs" using und by (simp add: undepended_def)
  have look: "map_of ?m = (map_of m)(nid \<mapsto> c)" by (rule map_of_update)
  have old: "n \<in> set xs \<longleftrightarrow> map_of m n \<noteq> None" for n
    using I(1) by (metis map_of_eq_None_iff set_map)
  have free: "nid \<notin> set (op_dependencies op)" if "n \<in> insert nid (set xs)" "map_of (rg_nodes g) n = Some op" for n op
    using und that unfolding undepended_def by blast
  have same: "same_op g ?m a b" if "same_op g m a b" "a \<in> insert nid (set xs)" "b \<in> insert nid (set xs)" for a b
    using that free [OF that(2)] free [OF that(3)]
    by (auto simp: same_op_def mapped_deps_update split: option.splits)
  have refl: "same_op g m nid nid" if "map_of (rg_nodes g) nid \<noteq> None"
    using that by (auto simp: same_op_def)
  have "dict_keys ?m = xs @ [nid]"
    using fresh by (simp add: dict_keys_update I(1) del: set_map)
  moreover have "c' = n \<or> c' \<in> set ys" if "xs @ [nid] = ys @ n # zs" "map_of ?m n = Some c'" for ys n zs c'
  proof (cases zs rule: rev_cases)
    case Nil
    with that(1) have "ys = xs" "n = nid" by auto
    moreover have "c' = c" using that(2) unfolding look \<open>n = nid\<close> by simp
    moreover have "c = nid \<or> c \<in> set xs" using c old by auto
    ultimately show ?thesis by auto
  next
    case (snoc us u)
    with that(1) have "xs = ys @ n # us" by simp
    moreover from this fresh have "n \<noteq> nid" by auto
    ultimately show ?thesis using that(2) I(2) by (auto simp: look)
  qed
  moreover have "map_of ?m c' = Some c' \<and> same_op g ?m n c'" if "map_of ?m n = Some c'" for n c'
  proof (cases "n = nid")
    case True
    then have c': "c' = c" using that by (simp add: look)
    have "c \<in> insert nid (set xs)" using c old by auto
    with True c' c refl same [of nid c] show ?thesis by (auto simp: look)
  next
    case False
    then have n: "map_of m n = Some c'" using that by (simp add: look)
    then have "n \<in> set xs" "c' \<in> set xs" using I(3) old by auto
    with n I(3,4) fresh same show ?thesis by (auto simp: look)
  qed
  moreover have "\<forall>n \<in> set (xs @ [nid]). n \<in> set (dict_keys (rg_output_node_map g)) \<longrightarrow> map_of ?m n = Some n"
    using I(5) c fresh by (auto simp: look)
  moreover have "\<forall>n c'. map_of ?m n = Some c' \<longrightarrow> c' \<noteq> n \<longrightarrow> c' \<notin> set (dict_keys (rg_output_node_map g))"
    using I(6) c by (auto simp: look)
  moreover have "map_of ?m c' = Some c' \<and> c' \<notin> set (dict_keys (rg_output_node_map g)) \<and>
      (\<exists>op m0. map_of (rg_nodes g) c' = Some op \<and> runtime_signature op m0 = Inr sig \<and> mapped_deps m0 op = mapped_deps ?m op)"
    if "map_of canon sig = Some c'" for sig c'
  proof -
    from I(7) [OF that] have *: "map_of m c' = Some c'" "c' \<notin> set (dict_keys (rg_output_node_map g))" by auto
    from I(7) [OF that] obtain op m0 where op: "map_of (rg_nodes g) c' = Some op"
      "runtime_signature op m0 = Inr sig" "mapped_deps m0 op = mapped_deps m op" by auto
    have "c' \<in> set xs" using * old by auto
    then have "nid \<notin> set (op_dependencies op)" using free op(1) by blast
    then have "mapped_deps ?m op = mapped_deps m op" by (rule mapped_deps_update)
    with * op \<open>c' \<in> set xs\<close> fresh show ?thesis by (auto simp: look)
  qed
  ultimately show ?thesis unfolding dedupe_inv_def by blast
qed

lemma dedupe_inv_canon:
  assumes "dedupe_inv g xs canon m" and "map_of m c = Some c" and "c \<notin> set (dict_keys (rg_output_node_map g))"
    and "map_of (rg_nodes g) c = Some op" and "runtime_signature op m0 = Inr sig" and "mapped_deps m0 op = mapped_deps m op"
  shows "dedupe_inv g xs (AList.update sig c canon) m"
proof -
  have "map_of (AList.update sig c canon) s = Some d \<Longrightarrow> s = sig \<and> d = c \<or> map_of canon s = Some d" for s d
    by (auto simp: map_of_update split: if_splits)
  with assms show ?thesis unfolding dedupe_inv_def by blast
qed

lemma dedupe_inv_step:
  assumes inv: "dedupe_inv g xs canon m" and und: "undepended g xs nid" and op: "map_of (rg_nodes g) nid = Some op"
  shows "\<exists>canon' m'. dedupe_step g nid (canon, m) = Inr (canon', m') \<and> dedupe_inv g (xs @ [nid]) canon' m'"
proof (cases "nid \<in> set (dict_keys (rg_output_node_map g))")
  case True
  then show ?thesis using dedupe_inv_extend [OF inv und, of nid] op by (simp add: dedupe_step_def)
next
  case False
  obtain sig where sig: "runtime_signature op m = Inr sig" using runtime_signature_total by blast
  note I = dedupe_invD [OF inv]
  show ?thesis
  proof (cases "map_of canon sig")
    case (Some c)
    from I(7) [OF Some] obtain y m0 where y: "map_of m c = Some c" "c \<notin> set (dict_keys (rg_output_node_map g))"
      "map_of (rg_nodes g) c = Some y" "runtime_signature y m0 = Inr sig" "mapped_deps m0 y = mapped_deps m y" by blast
    have "same_op g m nid c"
      using runtime_signature_fields [OF sig y(4)] y(3,5) op by (simp add: same_op_def)
    then have "dedupe_inv g (xs @ [nid]) canon (AList.update nid c m)"
      using dedupe_inv_extend [OF inv und] y False by blast
    then show ?thesis using False op sig Some by (simp add: dedupe_step_def dict_index_def)
  next
    case None
    have ext: "dedupe_inv g (xs @ [nid]) canon (AList.update nid nid m)"
      using dedupe_inv_extend [OF inv und, of nid] op by simp
    have "nid \<notin> set (op_dependencies op)" using und op by (auto simp: undepended_def)
    then have deps: "mapped_deps m op = mapped_deps (AList.update nid nid m) op"
      using mapped_deps_update [of nid op nid m] by argo
    have "dedupe_inv g (xs @ [nid]) (AList.update sig nid canon) (AList.update nid nid m)"
      by (rule dedupe_inv_canon [OF ext _ False op sig deps]) (simp add: map_of_update)
    then show ?thesis using False op sig None by (simp add: dedupe_step_def dict_index_def)
  qed
qed

lemma dedupe_mapping_run:
  assumes "distinct order" and "in_dep_order (rg_dep_edges g) order" and "set order = set (dict_keys (rg_nodes g))"
    and "distinct (dict_keys (rg_nodes g))"
  shows "\<exists>canon m. dedupe_mapping g order = Inr m \<and> dedupe_inv g order canon m"
proof -
  have "\<exists>canon m. efold (dedupe_step g) xs ([], []) = Inr (canon, m) \<and> dedupe_inv g xs canon m"
    if "distinct xs" "in_dep_order (rg_dep_edges g) xs" "set xs \<subseteq> set (dict_keys (rg_nodes g))" for xs
    using that
  proof (induction xs rule: rev_induct)
    case Nil
    then show ?case by (simp add: dedupe_inv_def)
  next
    case (snoc nid xs)
    from snoc.prems(2) have ord: "in_dep_order (rg_dep_edges g) xs"
      and deps: "\<And>p. (p, nid) \<in> set (rg_dep_edges g) \<Longrightarrow> p \<in> set xs" by (auto simp: in_dep_order_snoc)
    from snoc ord obtain canon m where run: "efold (dedupe_step g) xs ([], []) = Inr (canon, m)"
      and inv: "dedupe_inv g xs canon m" by auto
    have node: "nid \<in> set (dict_keys (rg_nodes g))" using snoc.prems(3) by simp
    then obtain op where op: "map_of (rg_nodes g) nid = Some op"
      by (metis map_of_eq_None_iff not_Some_eq set_map)
    have edge: "(d, n) \<in> set (rg_dep_edges g)"
      if "map_of (rg_nodes g) n = Some x" "d \<in> set (op_dependencies x)" "d \<in> set (dict_keys (rg_nodes g))" for n d x
      using that by (auto simp: rg_dep_edges_def set_rg_deps dest: map_of_SomeD)
    have "undepended g xs nid"
      unfolding undepended_def
    proof (intro conjI allI impI)
      show "nid \<notin> set xs" using snoc.prems(1) by simp
      fix n x assume n: "n \<in> insert nid (set xs)" and x: "map_of (rg_nodes g) n = Some x"
      show "nid \<notin> set (op_dependencies x)"
      proof
        assume "nid \<in> set (op_dependencies x)"
        with edge [OF x _ node] have e: "(nid, n) \<in> set (rg_dep_edges g)" by blast
        show False
        proof (cases "n = nid")
          case True
          with deps e snoc.prems(1) show False by auto
        next
          case False
          with n obtain ys zs where "xs = ys @ n # zs" by (auto dest: split_list)
          with ord e have "nid \<in> set xs" by (auto simp: in_dep_order_def)
          with snoc.prems(1) show False by simp
        qed
      qed
    qed
    from dedupe_inv_step [OF inv this op] show ?case by (auto simp: efold_append run)
  qed
  from this [of order] assms show ?thesis by (auto simp: dedupe_mapping_def)
qed

lemma dedupe_into_cong: "set s = set t \<Longrightarrow> dedupe_into s xs = dedupe_into t xs"
proof (induction xs arbitrary: s t)
  case (Cons x xs)
  have "set (x # s) = set (x # t)" using Cons.prems by simp
  with Cons.IH [of "x # s" "x # t"] Cons.IH [OF Cons.prems] Cons.prems show ?case by simp
qed simp

lemma distinct_split_unique:
  "distinct (xs @ c # ys) \<Longrightarrow> xs @ c # ys = us @ c # vs \<Longrightarrow> xs = us"
proof (induction xs arbitrary: us)
  case Nil
  then show ?case by (cases us) auto
next
  case (Cons x xs)
  from Cons.prems obtain us' where us: "us = x # us'" "xs @ c # ys = us' @ c # vs" by (cases us) auto
  have "xs = us'" by (rule Cons.IH [OF _ us(2)]) (use Cons.prems(1) in simp)
  then show ?case by (simp add: us(1))
qed

definition canonical_of :: "(string, string) dict \<Rightarrow> string \<Rightarrow> string" where
  "canonical_of m n = the (map_of m n)"

definition rebuilt :: "runtime_graph \<Rightarrow> (string, string) dict \<Rightarrow> string \<Rightarrow> string \<times> runtime_op" where
  "rebuilt g m c = (c, deduped_op m c (the (map_of (rg_nodes g) c)))"

lemma dedupe_add_run:
  assumes "\<And>n. n \<in> set ns \<Longrightarrow> map_of m n \<noteq> None \<and> map_of (rg_nodes g) (canonical_of m n) \<noteq> None"
  shows "efold (dedupe_add g m) ns (map (rebuilt g m) acc, acc) =
     (let order = acc @ dedupe_into acc (map (canonical_of m) ns) in Inr (map (rebuilt g m) order, order))"
  using assms
proof (induction ns arbitrary: acc)
  case (Cons n ns)
  from Cons.prems [of n] obtain c op where c: "map_of m n = Some c" "map_of (rg_nodes g) c = Some op"
    by (auto simp: canonical_of_def)
  have keys: "dict_keys (map (rebuilt g m) acc) = acc" by (simp add: rebuilt_def o_def)
  note IH = Cons.IH [OF Cons.prems]
  show ?case
  proof (cases "c \<in> set acc")
    case True
    then have "c \<in> set (dict_keys (map (rebuilt g m) acc))" unfolding keys .
    then have "dedupe_add g m n (map (rebuilt g m) acc, acc) = Inr (map (rebuilt g m) acc, acc)"
      using c(1) by (simp only: dedupe_add_def dict_index_def prod.case option.case ebind.simps if_True)
    then show ?thesis using IH [of acc] c True by (simp add: canonical_of_def)
  next
    case False
    then have "c \<notin> set (dict_keys (map (rebuilt g m) acc))" unfolding keys .
    then have fresh: "c \<notin> fst ` set (map (rebuilt g m) acc)" unfolding set_map .
    then have "dedupe_add g m n (map (rebuilt g m) acc, acc) =
        Inr (map (rebuilt g m) (acc @ [c]), acc @ [c])"
      using c update_new [OF fresh] by (simp add: dedupe_add_def dict_index_def rebuilt_def image_iff)
    moreover have "dedupe_into (acc @ [c]) xs = dedupe_into (c # acc) xs" for xs
      by (rule dedupe_into_cong) simp
    ultimately show ?thesis using IH [of "acc @ [c]"] c False by (simp add: canonical_of_def Let_def)
  qed
qed (simp add: Let_def)

text \<open>The facts about a finished pass that the rest of the proof needs.\<close>

lemma dedupe_inv_final:
  assumes "dedupe_inv g T canon m" and "set T = set (dict_keys (rg_nodes g))" and "n \<in> set T"
  shows "map_of m n = Some (canonical_of m n)" and "canonical_of m n \<in> set T"
    and "canonical_of m (canonical_of m n) = canonical_of m n"
    and "map_of (rg_nodes g) (canonical_of m n) \<noteq> None"
proof -
  note I = dedupe_invD [OF assms(1)]
  have keys: "k \<in> set T \<longleftrightarrow> map_of m k \<noteq> None" for k
    using I(1) by (metis map_of_eq_None_iff set_map)
  then obtain c where c: "map_of m n = Some c" using assms(3) by auto
  then show "map_of m n = Some (canonical_of m n)" by (simp add: canonical_of_def)
  from I(3) [OF c] have "map_of m c = Some c" .
  with c keys show "canonical_of m n \<in> set T" "canonical_of m (canonical_of m n) = canonical_of m n"
    by (auto simp: canonical_of_def)
  then show "map_of (rg_nodes g) (canonical_of m n) \<noteq> None"
    using assms(2) by (simp add: map_of_eq_None_iff)
qed

lemma dict_get_canonical:
  assumes "dedupe_inv g T canon m" and "set T = set (dict_keys (rg_nodes g))"
  shows "dict_get m d d = (if d \<in> set T then canonical_of m d else d)"
proof (cases "d \<in> set T")
  case True
  then show ?thesis using dedupe_inv_final(1) [OF assms True] by (simp add: dict_get_def)
next
  case False
  then have "d \<notin> set (dict_keys m)" using dedupe_invD(1) [OF assms(1)] by simp
  then have "map_of m d = None" by (simp add: map_of_eq_None_iff)
  with False show ?thesis by (simp add: dict_get_def)
qed

lemma deduped_acyclic:
  assumes inv: "dedupe_inv g T canon m" and T: "set T = set (dict_keys (rg_nodes g))" "distinct T"
    and ord: "in_dep_order (rg_dep_edges g) T"
    and E: "\<And>p c. (p, c) \<in> set E \<Longrightarrow> c \<in> set T \<and> canonical_of m c = c \<and>
        (\<exists>op d. map_of (rg_nodes g) c = Some op \<and> d \<in> set (op_dependencies op) \<and> p = dict_get m d d)"
  shows "acyclic (set E)"
proof -
  let ?C = "filter (\<lambda>n. canonical_of m n = n) T"
  let ?D = "filter (\<lambda>p. p \<notin> set T) (dedupe_into [] (map fst E))"
  have "distinct (?D @ ?C)" using T(2) by (auto simp: distinct_dedupe_into)
  moreover have "snd ` set E \<subseteq> set (?D @ ?C)" using E by fastforce
  moreover have "in_dep_order E (?D @ ?C)"
    unfolding in_dep_order_def
  proof (intro allI impI)
    fix xs c ys p
    assume split: "?D @ ?C = xs @ c # ys" and e: "(p, c) \<in> set E"
    from E [OF e] obtain op d where c: "c \<in> set T" "canonical_of m c = c" and
      op: "map_of (rg_nodes g) c = Some op" "d \<in> set (op_dependencies op)" "p = dict_get m d d" by blast
    obtain us vs where us: "T = us @ c # vs" using c(1) by (meson split_list)
    have fresh: "c \<notin> set us" using T(2) us by simp
    have eq: "?D @ ?C = (?D @ filter (\<lambda>n. canonical_of m n = n) us) @ c # filter (\<lambda>n. canonical_of m n = n) vs"
      using c(2) by (simp add: us)
    have xs: "xs = ?D @ filter (\<lambda>n. canonical_of m n = n) us"
    proof -
      have "distinct (xs @ c # ys)" using \<open>distinct (?D @ ?C)\<close> unfolding split .
      moreover have "xs @ c # ys = (?D @ filter (\<lambda>n. canonical_of m n = n) us) @ c # filter (\<lambda>n. canonical_of m n = n) vs"
        using split eq by simp
      ultimately show ?thesis
        by (rule distinct_split_unique)
    qed
    show "p \<in> set xs"
    proof (cases "d \<in> set T")
      case False
      then have "p = d" using op(3) dict_get_canonical [OF inv T(1)] by simp
      with e False show ?thesis unfolding xs by (force simp: set_dedupe_into)
    next
      case True
      then have p: "p = canonical_of m d" using op(3) dict_get_canonical [OF inv T(1)] by simp
      have "(d, c) \<in> set (rg_dep_edges g)"
        using op True T(1) by (auto simp: rg_dep_edges_def set_rg_deps dest: map_of_SomeD)
      with ord us have "d \<in> set us" unfolding in_dep_order_def by blast
      then obtain as bs where as: "us = as @ d # bs" by (meson split_list)
      have "p = d \<or> p \<in> set as"
        using dedupe_invD(2) [OF inv, of as d "bs @ c # vs"] dedupe_inv_final(1) [OF inv T(1) True] us as p by simp
      then have "p \<in> set us" using as by auto
      moreover have "canonical_of m p = p" using dedupe_inv_final(3) [OF inv T(1) True] p by simp
      ultimately show ?thesis unfolding xs by simp
    qed
  qed
  ultimately show ?thesis using in_dep_order_acyclic by blast
qed

lemma dedupe_order_set:
  assumes "dedupe_inv g T canon m" and "set T = set (dict_keys (rg_nodes g))" and "set ns = set T"
  shows "set (dedupe_into [] (map (canonical_of m) ns)) = {c \<in> set T. canonical_of m c = c}"
  using dedupe_inv_final(2,3) [OF assms(1,2)] assms(3) by (force simp: set_dedupe_into)

lemma dedupe_rebuild:
  assumes wf: "rg_wf g" and inv: "dedupe_inv g T canon m" and T: "set T = set (dict_keys (rg_nodes g))"
  defines "order \<equiv> dedupe_into [] (map (canonical_of m) (rg_node_order g))"
  shows "efold (dedupe_add g m) (rg_node_order g) ([], []) = Inr (map (rebuilt g m) order, order)"
    and "emap (\<lambda>(nid, name). ebind (dict_index m nid) (\<lambda>c. Inr (c, name))) (rg_output_node_map g) = Inr (rg_output_node_map g)"
    and "emap (\<lambda>(nid, path). ebind (dict_index m nid) (\<lambda>c. Inr (c, path))) (rg_output_paths g) =
      Inr (map (\<lambda>(nid, path). (canonical_of m nid, path)) (rg_output_paths g))"
proof -
  note fin = dedupe_inv_final [OF inv T]
  have nodes: "set (rg_node_order g) = set T" using wf T by (simp add: rg_wf_def)
  have ok: "map_of m n \<noteq> None \<and> map_of (rg_nodes g) (canonical_of m n) \<noteq> None" if "n \<in> set (rg_node_order g)" for n
    using fin(1,4) that nodes by auto
  from dedupe_add_run [OF ok, where acc = "[]"]
  show "efold (dedupe_add g m) (rg_node_order g) ([], []) = Inr (map (rebuilt g m) order, order)"
    by (simp add: order_def Let_def)
  have outs: "map_of m n = Some n" if "n \<in> set (dict_keys (rg_output_node_map g))" for n
    using dedupe_invD(5) [OF inv _ that] that rg_wf_outputs(2) [OF wf] nodes by blast
  have "emap (\<lambda>(nid, name). ebind (dict_index m nid) (\<lambda>c. Inr (c, name))) (rg_output_node_map g) =
      Inr (map (\<lambda>(nid, name). (id nid, name)) (rg_output_node_map g))"
    by (rule emap_index_pair) (use outs in force)
  then show "emap (\<lambda>(nid, name). ebind (dict_index m nid) (\<lambda>c. Inr (c, name))) (rg_output_node_map g) = Inr (rg_output_node_map g)"
    by simp
  show "emap (\<lambda>(nid, path). ebind (dict_index m nid) (\<lambda>c. Inr (c, path))) (rg_output_paths g) =
      Inr (map (\<lambda>(nid, path). (canonical_of m nid, path)) (rg_output_paths g))"
    by (rule emap_index_pair, rule fin(1)) (use rg_wf_outputs(4) [OF wf] nodes in force)
qed

text \<open>What a pass leaves of each node: an op of the same model, with the same dependencies.\<close>

definition merged_into :: "runtime_graph \<Rightarrow> (string, string) dict \<Rightarrow> runtime_graph \<Rightarrow> string \<Rightarrow> bool" where
  "merged_into g m g' n \<longleftrightarrow>
     (case (map_of (rg_nodes g) n, map_of m n) of
        (Some op, Some c) \<Rightarrow> (case map_of (rg_nodes g') c of
            Some op' \<Rightarrow> model_key op' = model_key op \<and>
              set (op_dependencies op') = (\<lambda>d. dict_get m d d) ` set (op_dependencies op)
          | None \<Rightarrow> False)
      | _ \<Rightarrow> False)"

lemma merged_into_identity:
  assumes inv: "dedupe_inv g T canon m" and T: "set T = set (dict_keys (rg_nodes g))"
    and id: "list_all (\<lambda>(n, c). n = c) m" and n: "n \<in> set T"
  shows "merged_into g m g n"
proof -
  have same: "c = k" if "map_of m k = Some c" for k c
    using id map_of_SomeD [OF that] by (auto simp: list_all_iff)
  then have "dict_get m d d = d" for d by (auto simp: dict_get_def split: option.split)
  moreover have "map_of m n = Some n" using dedupe_inv_final(1) [OF inv T n] same by metis
  moreover have "map_of (rg_nodes g) n \<noteq> None" using n T by (simp add: map_of_eq_None_iff)
  ultimately show ?thesis by (auto simp: merged_into_def)
qed

lemma merged_into_rebuilt:
  assumes inv: "dedupe_inv g T canon m" and T: "set T = set (dict_keys (rg_nodes g))"
    and keys: "set order = {c \<in> set T. canonical_of m c = c}" and nodes: "rg_nodes g' = map (rebuilt g m) order"
    and n: "n \<in> set T"
  shows "merged_into g m g' n"
proof -
  note fin = dedupe_inv_final [OF inv T n]
  obtain op where op: "map_of (rg_nodes g) n = Some op"
    using n T by (metis map_of_eq_None_iff not_Some_eq set_map)
  obtain y where y: "map_of (rg_nodes g) (canonical_of m n) = Some y" using fin(4) by auto
  have "same_op g m n (canonical_of m n)" by (rule dedupe_invD(4) [OF inv fin(1)])
  with op y have same: "model_key op = model_key y" "mapped_deps m op = mapped_deps m y"
    by (auto simp: same_op_def)
  have "canonical_of m n \<in> set order" using fin(2,3) keys by simp
  then have "map_of (rg_nodes g') (canonical_of m n) = Some (deduped_op m (canonical_of m n) y)"
    unfolding nodes rebuilt_def by (simp add: map_of_map_restrict y)
  moreover have "set (op_dependencies (deduped_op m c y)) = (\<lambda>d. dict_get m d d) ` set (op_dependencies op)" for c
    using arg_cong [OF same(2), of set] by (simp add: deduped_op_def set_dedupe_into)
  ultimately show ?thesis using op fin(1) same(1) by (simp add: merged_into_def model_key_def deduped_op_def)
qed

lemma rebuilt_wf:
  assumes wf: "rg_wf g" and inv: "dedupe_inv g T canon m" and T: "set T = set (dict_keys (rg_nodes g))"
    and order: "distinct order" "set order = {c \<in> set T. canonical_of m c = c}"
    and g': "g' = \<lparr>rg_nodes = map (rebuilt g m) order, rg_node_order = order, rg_output_node_map = rg_output_node_map g,
       rg_output_paths = dict_of (map (\<lambda>(nid, path). (canonical_of m nid, path)) (rg_output_paths g)),
       rg_dsl_to_runtime = map (\<lambda>(oid, rids). (oid, h rids)) (rg_dsl_to_runtime g)\<rparr>"
  shows "rg_wf g'"
proof -
  have nodes: "set (rg_node_order g) = set T" using wf T by (simp add: rg_wf_def)
  have keys: "dict_keys (map (rebuilt g m) order) = order" by (simp add: rebuilt_def o_def)
  have dsl: "dict_keys (map (\<lambda>(oid, rids). (oid, h rids)) (rg_dsl_to_runtime g)) = dict_keys (rg_dsl_to_runtime g)"
    by auto
  have "set (dict_keys (rg_output_node_map g)) \<subseteq> set order"
  proof
    fix n assume n: "n \<in> set (dict_keys (rg_output_node_map g))"
    then have "n \<in> set T" using rg_wf_outputs(2) [OF wf] nodes by blast
    moreover from dedupe_invD(5) [OF inv this n] have "canonical_of m n = n" by (simp add: canonical_of_def)
    ultimately show "n \<in> set order" using order(2) by simp
  qed
  moreover have "fst ` set (map (\<lambda>(nid, path). (canonical_of m nid, path)) (rg_output_paths g)) \<subseteq> set order"
  proof -
    have "canonical_of m n \<in> set order" if "(n, path) \<in> set (rg_output_paths g)" for n path
    proof -
      have "n \<in> set T" using that rg_wf_outputs(4) [OF wf] nodes by force
      from dedupe_inv_final(2,3) [OF inv T this] show ?thesis using order(2) by simp
    qed
    then show ?thesis by auto
  qed
  moreover have "list_all (\<lambda>(nid, op). op_node_id op = nid) (map (rebuilt g m) order)"
    by (simp add: list_all_iff rebuilt_def deduped_op_def)
  ultimately show ?thesis
    using order(1) wf unfolding rg_wf_def g' runtime_graph.simps keys dsl set_dict_keys_dict_of
    by (simp add: dict_of_distinct_keys)
qed

lemma rebuilt_acyclic:
  assumes inv: "dedupe_inv g T canon m" and T: "set T = set (dict_keys (rg_nodes g))" "distinct T"
    and ord: "in_dep_order (rg_dep_edges g) T"
    and order: "set order = {c \<in> set T. canonical_of m c = c}" and nodes: "rg_nodes g' = map (rebuilt g m) order"
  shows "acyclic (set (rg_deps g'))"
proof (rule deduped_acyclic [OF inv T ord])
  fix p c assume "(p, c) \<in> set (rg_deps g')"
  then obtain op' where op': "(c, op') \<in> set (map (rebuilt g m) order)" "p \<in> set (op_dependencies op')"
    by (auto simp: set_rg_deps nodes)
  then have c: "c \<in> set T" "canonical_of m c = c" and op: "op' = deduped_op m c (the (map_of (rg_nodes g) c))"
    using order by (auto simp: rebuilt_def)
  obtain x where x: "map_of (rg_nodes g) c = Some x" using dedupe_inv_final(4) [OF inv T(1) c(1)] c(2) by auto
  have "\<exists>d \<in> set (op_dependencies x). p = dict_get m d d"
    using op'(2) by (auto simp: op x deduped_op_def set_dedupe_into)
  with c x show "c \<in> set T \<and> canonical_of m c = c \<and>
      (\<exists>op d. map_of (rg_nodes g) c = Some op \<and> d \<in> set (op_dependencies op) \<and> p = dict_get m d d)" by blast
qed

text \<open>
  C29: Merging the identical ops of a well-formed acyclic graph never fails. The result is again
  a well-formed acyclic graph on some of the nodes, with the same outputs under the same names:
  an output node is never merged away. Every old node is mapped to a node of the result that has
  its task type, backend and model and the images of exactly its dependencies.
\<close>

theorem dedupe_runtime_graph_correct:
  assumes "rg_wf g" and "acyclic (set (rg_deps g))"
  shows "\<exists>g' m. dedupe_runtime_graph g = Inr g' \<and> rg_wf g' \<and> acyclic (set (rg_deps g')) \<and>
     set (rg_node_order g') \<subseteq> set (rg_node_order g) \<and> rg_output_node_map g' = rg_output_node_map g \<and>
     (\<forall>n \<in> set (rg_node_order g). merged_into g m g' n \<and>
        (n \<in> set (dict_keys (rg_output_node_map g)) \<longrightarrow> map_of m n = Some n))"
proof -
  have nodes: "set (rg_node_order g) = set (dict_keys (rg_nodes g))" and dist: "distinct (dict_keys (rg_nodes g))"
    using assms(1) by (simp_all add: rg_wf_def)
  from rg_topological_order_ok [OF assms(1)] assms(2) obtain T where T: "rg_topological_order g = Inr T" "distinct T"
    "set T = set (rg_node_order g)" "in_dep_order (rg_dep_edges g) T"
    by (cases "rg_topological_order g") auto
  note T' = T(3) [unfolded nodes]
  obtain canon m where m: "dedupe_mapping g T = Inr m" and inv: "dedupe_inv g T canon m"
    using dedupe_mapping_run [OF T(2,4) T' dist] by blast
  have outs: "map_of m n = Some n" if "n \<in> set (rg_node_order g)" "n \<in> set (dict_keys (rg_output_node_map g))" for n
    using dedupe_invD(5) [OF inv _ that(2)] that(1) T(3) by simp
  show ?thesis
  proof (cases "list_all (\<lambda>(n, c). n = c) m")
    case True
    then have run: "dedupe_runtime_graph g = Inr g" by (simp add: dedupe_runtime_graph_def T(1) m)
    have "merged_into g m g n" if "n \<in> set (rg_node_order g)" for n
      using merged_into_identity [OF inv T' True] that T(3) by simp
    with run assms outs show ?thesis by blast
  next
    case False
    define order where "order = dedupe_into [] (map (canonical_of m) (rg_node_order g))"
    note re = dedupe_rebuild [OF assms(1) inv T', folded order_def]
    have order: "distinct order" "set order = {c \<in> set T. canonical_of m c = c}"
      unfolding order_def using dedupe_order_set [OF inv T' T(3) [symmetric]] by (simp_all add: distinct_dedupe_into)
    define g' where "g' = \<lparr>rg_nodes = map (rebuilt g m) order, rg_node_order = order,
       rg_output_node_map = rg_output_node_map g,
       rg_output_paths = dict_of (map (\<lambda>(nid, path). (canonical_of m nid, path)) (rg_output_paths g)),
       rg_dsl_to_runtime = map (\<lambda>(oid, rids). (oid, dedupe_into [] (map (\<lambda>r. dict_get m r r) rids)))
         (rg_dsl_to_runtime g)\<rparr>"
    have run: "dedupe_runtime_graph g = Inr g'"
      using False
      by (simp only: dedupe_runtime_graph_def T(1) m re ebind.simps prod.case if_False g'_def
        dict_of_distinct_id [OF rg_wf_outputs(1) [OF assms(1)]])
    have "merged_into g m g' n" if "n \<in> set (rg_node_order g)" for n
      by (rule merged_into_rebuilt [OF inv T' order(2)]) (use that T(3) in \<open>simp_all add: g'_def\<close>)
    moreover have "rg_wf g'" by (rule rebuilt_wf [OF assms(1) inv T' order g'_def])
    moreover have "acyclic (set (rg_deps g'))"
      by (rule rebuilt_acyclic [OF inv T' T(2,4) order(2)]) (simp add: g'_def)
    moreover have "set (rg_node_order g') \<subseteq> set (rg_node_order g)" "rg_output_node_map g' = rg_output_node_map g"
      using order(2) T(3) by (auto simp: g'_def)
    ultimately show ?thesis using run outs by blast
  qed
qed

definition example_op :: "string \<Rightarrow> string list \<Rightarrow> runtime_op" where
  "example_op n deps = op_from_schema n \<lparr>sc_task_type = ''t'', sc_backend = [], sc_model = [], sc_data_spec = [],
     sc_model_spec = [], sc_inference_spec = [], sc_dependencies = deps, sc_output_spec = None, sc_condition = None\<rparr>"

definition example_graph :: runtime_graph where
  "example_graph = \<lparr>rg_nodes = [(''a'', example_op ''a'' []), (''b'', example_op ''b'' []), (''c'', example_op ''c'' [''b''])],
     rg_node_order = [''a'', ''b'', ''c''], rg_output_node_map = [(''c'', ''out'')], rg_output_paths = [], rg_dsl_to_runtime = []\<rparr>"

lemma example_graph_ok: "rg_wf example_graph" "acyclic (set (rg_deps example_graph))"
proof -
  show "rg_wf example_graph" by (simp add: rg_wf_def example_graph_def example_op_def op_from_schema_def)
  have "rg_deps example_graph = [(''b'', ''c'')]" by code_simp
  moreover have "acyclic ({} :: (string \<times> string) set)" by (simp add: acyclic_def)
  ultimately show "acyclic (set (rg_deps example_graph))" by (simp add: acyclic_insert)
qed

theorem dedupe_runtime_graph_correct_witness:
  "\<exists>g' m. dedupe_runtime_graph example_graph = Inr g' \<and> rg_wf g' \<and> rg_node_order g' = [''a'', ''c''] \<and>
     merged_into example_graph m g' ''b''"
proof -
  obtain g' m where g': "dedupe_runtime_graph example_graph = Inr g'" "rg_wf g'"
    "\<forall>n \<in> set (rg_node_order example_graph). merged_into example_graph m g' n"
    using dedupe_runtime_graph_correct [OF example_graph_ok] by auto
  have "map_sum id rg_node_order (dedupe_runtime_graph example_graph) = Inr [''a'', ''c'']" by code_simp
  moreover have "''b'' \<in> set (rg_node_order example_graph)" by (simp add: example_graph_def)
  ultimately show ?thesis using g' by auto
qed

lemma rebuilt_conditions:
  assumes "efold (dedupe_add g m) ns ([], []) = Inr (nodes, order)"
  shows "list_all (\<lambda>(n, op). op_condition op = None) nodes"
proof -
  have "case (nodes, order) of (nodes, order) \<Rightarrow> list_all (\<lambda>(n, op). op_condition op = None) nodes"
  proof (rule efold_invariant [OF assms])
    fix n u v
    assume u: "case u of (nodes, order) \<Rightarrow> list_all (\<lambda>(n, op). op_condition op = None) nodes"
      and run: "dedupe_add g m n u = Inr v"
    obtain ns os where us: "u = (ns, os)" by (cases u)
    have "list_all (\<lambda>(n, op). op_condition op = None) (AList.update k (deduped_op m c op) ns)" for k c op
      using u unfolding us prod.case by (induction ns) (auto simp: deduped_op_def)
    then show "case v of (nodes, order) \<Rightarrow> list_all (\<lambda>(n, op). op_condition op = None) nodes"
      using run u by (auto simp: us dedupe_add_def result_simps split: if_splits)
  qed simp
  then show ?thesis by simp
qed

text \<open>
  The pass forgets the conditions of ops. Two ops that differ only in their condition have
  the same signature, so they are merged; and once any two nodes of the graph are merged, no op
  of the result has a condition any more, so every gated op of the graph runs unconditionally.
\<close>

theorem dedupe_forgets_conditions:
  "runtime_signature (op\<lparr>op_condition := cond\<rparr>) m = runtime_signature op m \<and>
   (dedupe_runtime_graph g = Inr g' \<longrightarrow> g' \<noteq> g \<longrightarrow> (n, op') \<in> set (rg_nodes g') \<longrightarrow> op_condition op' = None)"
proof (intro conjI impI)
  show "runtime_signature (op\<lparr>op_condition := cond\<rparr>) m = runtime_signature op m"
    by (simp add: runtime_signature_def)
  assume run: "dedupe_runtime_graph g = Inr g'" and "g' \<noteq> g" and n: "(n, op') \<in> set (rg_nodes g')"
  then obtain m' order where "efold (dedupe_add g m') (rg_node_order g) ([], []) = Inr (rg_nodes g', order)"
    by (auto simp: dedupe_runtime_graph_def result_simps split: if_splits)
  from rebuilt_conditions [OF this] n show "op_condition op' = None" by (auto simp: list_all_iff)
qed

definition gated_graph :: runtime_graph where
  "gated_graph = example_graph\<lparr>rg_nodes := [(''a'', example_op ''a'' []), (''b'', example_op ''b'' []),
     (''c'', (example_op ''c'' [''b''])\<lparr>op_condition := Some [(''node'', ''b''), (''equals'', ''yes'')]\<rparr>)]\<rparr>"

theorem dedupe_forgets_conditions_witness:
  "case dedupe_runtime_graph gated_graph of
     Inr g' \<Rightarrow> map fst (rg_nodes g') = [''a'', ''c''] \<and> (\<forall>(n, op) \<in> set (rg_nodes g'). op_condition op = None)
   | Inl e \<Rightarrow> False"
proof -
  have keys: "map_sum id (\<lambda>g'. map fst (rg_nodes g')) (dedupe_runtime_graph gated_graph) = Inr [''a'', ''c'']"
    by code_simp
  then obtain g' where g': "dedupe_runtime_graph gated_graph = Inr g'" "map fst (rg_nodes g') = [''a'', ''c'']"
    by (cases "dedupe_runtime_graph gated_graph") auto
  have "map fst (rg_nodes gated_graph) = [''a'', ''b'', ''c'']" by code_simp
  with g'(2) have ne: "g' \<noteq> gated_graph" by auto
  have "op_condition op = None" if "(n, op) \<in> set (rg_nodes g')" for n op
    using dedupe_forgets_conditions [where g = gated_graph and g' = g' and n = n and op' = op] g'(1) ne that by blast
  then show ?thesis unfolding g'(1) sum.case using g'(2) by blast
qed

text \<open>
  Renaming labels before comparing specs replaces the text of a label wherever it occurs in
  a string, also inside other words, so two ops with different prompts and no common label can
  have one signature and be merged.
\<close>

theorem label_renaming_conflates_prompts:
  "let spec = \<lambda>l prompt. [(''inputs'', PList [PDict [(''label'', PStr l)]]), (''prompt'', PStr prompt)];
       cat = (example_op ''a'' [])\<lparr>op_data_spec := spec ''a'' ''cat''\<rparr>;
       cut = (example_op ''b'' [])\<lparr>op_data_spec := spec ''u'' ''cut''\<rparr>;
       g = example_graph\<lparr>rg_nodes := [(''a'', cat), (''b'', cut), (''c'', example_op ''c'' [''b''])]\<rparr>
   in runtime_signature cat [] = runtime_signature cut [] \<and>
      map_sum id rg_node_order (dedupe_runtime_graph g) = Inr [''a'', ''c'']"
  by code_simp

end
