(* ===== verification/Clustering.thy ===== *)
theory Clustering
  imports RuntimeGraphs PyStrings "HOL-Library.Product_Lexorder"
begin

text \<open>
  Affinity clustering of queued workflows
  (\<open>runtime/job_manager/cluster_algo/clustering.py\<close>): features of a runtime graph, pairwise
  distance, greedy selection of a subset, agglomeration of clusters, and the choice of a batch.
  Sets are lists without repetition; scores and times are rationals, without the rounding of
  floats; a missing enqueue time, which the code reads as infinity, sorts last.
\<close>

section \<open>Features and distance\<close>

record workflow_affinity =
  wa_models :: "string list"
  wa_system_prompt_tokens :: "string list"
  wa_node_count :: nat

definition is_llm_backend :: "runtime_op \<Rightarrow> bool" where
  "is_llm_backend op \<longleftrightarrow> op_backend op \<in> {''vllm'', ''transformers'', ''diffusers''}"

definition system_message :: "spec \<Rightarrow> string list" where
  "system_message item =
     (case map_of item ''content'' of
        Some (PStr content) \<Rightarrow> (if map_of item ''role'' = Some (PStr ''system'') then [content] else [])
      | _ \<Rightarrow> [])"

text \<open>
  The messages of a dict are only entered when they are a list, and a dict in a list is only
  looked at as a message.
\<close>

fun extract_system_prompts :: "pyval \<Rightarrow> string list" where
  "extract_system_prompts (PDict d) =
     concat (map (\<lambda>(k, v).
       if k = ''messages'' then (case v of PList xs \<Rightarrow> extract_system_prompts v | _ \<Rightarrow> [])
       else extract_system_prompts v) d)"
| "extract_system_prompts (PList xs) =
     concat (map (\<lambda>item. case item of PDict m \<Rightarrow> system_message m | _ \<Rightarrow> extract_system_prompts item) xs)"
| "extract_system_prompts v = []"

definition word_char :: "char \<Rightarrow> bool" where
  "word_char c \<longleftrightarrow> is_alnum c \<or> c = CHR ''_''"

fun words :: "string \<Rightarrow> string list" where
  "words [] = [[]]"
| "words (c # s) =
     (if word_char c then (case words s of [] \<Rightarrow> [[c]] | w # ws \<Rightarrow> (c # w) # ws) else [] # words s)"

definition tokenize_prompts :: "string list \<Rightarrow> string list" where
  "tokenize_prompts prompts =
     dedupe_into [] (concat (map (\<lambda>p. filter (\<lambda>w. w \<noteq> []) (words (str_lower p))) prompts))"

definition build_affinity :: "runtime_graph \<Rightarrow> workflow_affinity" where
  "build_affinity g =
     (let ops = dict_values (rg_nodes g)
      in \<lparr>wa_models = dedupe_into [] (map op_model (filter (\<lambda>op. is_llm_backend op \<and> op_model op \<noteq> []) ops)),
          wa_system_prompt_tokens =
            tokenize_prompts (dedupe_into [] (concat (map (\<lambda>op. extract_system_prompts (PDict (op_data_spec op))) ops))),
          wa_node_count = node_count g\<rparr>)"

definition jaccard :: "string list \<Rightarrow> string list \<Rightarrow> rat" where
  "jaccard left right =
     (if left = [] \<or> right = [] then 0
      else of_nat (length (filter (\<lambda>x. x \<in> set right) left)) /
           of_nat (length (left @ filter (\<lambda>x. x \<notin> set left) right)))"

definition size_affinity :: "workflow_affinity \<Rightarrow> workflow_affinity \<Rightarrow> rat" where
  "size_affinity a b =
     (let max_nodes = max (wa_node_count a) (wa_node_count b)
      in if max_nodes = 0 then 1
         else 1 - \<bar>of_nat (wa_node_count a) - of_nat (wa_node_count b)\<bar> / of_nat max_nodes)"

record weights =
  model_weight :: rat
  data_weight :: rat
  size_weight :: rat

definition default_weights :: weights where
  "default_weights = \<lparr>model_weight = 7/10, data_weight = 2/10, size_weight = 1/10\<rparr>"

definition affinity_distance :: "weights \<Rightarrow> workflow_affinity \<Rightarrow> workflow_affinity \<Rightarrow> rat" where
  "affinity_distance w a b =
     1 - max 0 (min 1 (model_weight w * jaccard (wa_models a) (wa_models b) +
       data_weight w * jaccard (wa_system_prompt_tokens a) (wa_system_prompt_tokens b) +
       size_weight w * size_affinity a b))"

text \<open>
  The cached closure \<open>distance\<close>: the pair is put in order first, so a cached value is the value.
  Both ids are candidates, so their features exist.
\<close>

type_synonym affinities = "string \<Rightarrow> workflow_affinity"

definition id_distance :: "weights \<Rightarrow> affinities \<Rightarrow> string \<Rightarrow> string \<Rightarrow> rat" where
  "id_distance w aff x y = (if x = y then 0 else affinity_distance w (aff x) (aff y))"

section \<open>Scores\<close>

type_synonym dist = "string \<Rightarrow> string \<Rightarrow> rat"

definition avg_distance :: "dist \<Rightarrow> string \<Rightarrow> string list \<Rightarrow> rat" where
  "avg_distance d c selected =
     (if selected = [] then 1 else sum_list (map (d c) selected) / of_nat (length selected))"

fun pair_distances :: "dist \<Rightarrow> string list \<Rightarrow> rat list" where
  "pair_distances d [] = []"
| "pair_distances d (x # xs) = map (d x) xs @ pair_distances d xs"

definition batch_score :: "dist \<Rightarrow> string list \<Rightarrow> rat" where
  "batch_score d selected =
     (let ds = pair_distances d selected
      in if length selected \<le> 1 \<or> ds = [] then 0 else sum_list ds / of_nat (length ds))"

definition cluster_distance :: "dist \<Rightarrow> string list \<Rightarrow> string list \<Rightarrow> rat" where
  "cluster_distance d xs ys =
     (let ds = concat (map (\<lambda>x. map (d x) ys) xs)
      in if ds = [] then 0 else sum_list ds / of_nat (length ds))"

text \<open>\<open>min\<close> with a key returns the first of the smallest.\<close>

fun first_min :: "('a \<Rightarrow> 'k::linorder) \<Rightarrow> 'a \<Rightarrow> 'a list \<Rightarrow> 'a" where
  "first_min key x [] = x"
| "first_min key x (y # ys) = first_min key (if key y < key x then y else x) ys"

lemma first_min_in: "first_min key x xs \<in> set (x # xs)"
  by (induction key x xs rule: first_min.induct) (auto split: if_splits)

lemma first_min_least: "y \<in> set (x # xs) \<Longrightarrow> key (first_min key x xs) \<le> key y"
proof (induction xs arbitrary: x y)
  case (Cons z zs)
  let ?m = "if key z < key x then z else x"
  have m: "key ?m \<le> key x" "key ?m \<le> key z" by auto
  have "key (first_min key ?m zs) \<le> key ?m" by (rule Cons.IH) simp
  moreover have "y \<in> set zs \<Longrightarrow> key (first_min key ?m zs) \<le> key y" by (rule Cons.IH) simp
  ultimately show ?case using Cons.prems m by fastforce
qed simp

section \<open>Greedy selection\<close>

text \<open>A missing time is infinity: it sorts after every time.\<close>

definition time_key :: "(string, rat) dict \<Rightarrow> string \<Rightarrow> bool \<times> rat" where
  "time_key enq i = (case map_of enq i of None \<Rightarrow> (True, 0) | Some t \<Rightarrow> (False, t))"

definition pick_next :: "dist \<Rightarrow> (string, rat) dict \<Rightarrow> string list \<Rightarrow> string list \<Rightarrow> string result" where
  "pick_next d enq selected remaining =
     ebind (emap (\<lambda>c. ebind (dict_index enq c) (\<lambda>t. Inr ((avg_distance d c selected, t), c))) remaining)
       (\<lambda>keyed. case keyed of
          [] \<Rightarrow> Inl (ValueError ''min() arg is an empty sequence'')
        | k # ks \<Rightarrow> Inr (snd (first_min fst k ks)))"

text \<open>
  \<open>while len(selected) < batch_size and remaining\<close>: the first argument is the number of places
  left, which every round lowers by one.
\<close>

fun grow :: "nat \<Rightarrow> dist \<Rightarrow> (string, rat) dict \<Rightarrow> string list \<Rightarrow> string list \<Rightarrow> string list result" where
  "grow 0 d enq selected remaining = Inr selected"
| "grow (Suc n) d enq selected remaining =
     (if remaining = [] then Inr selected
      else ebind (pick_next d enq selected remaining)
             (\<lambda>c. grow n d enq (selected @ [c]) (remove1 c remaining)))"

definition oldest_of :: "(string, rat) dict \<Rightarrow> string list \<Rightarrow> rat result" where
  "oldest_of enq selected =
     ebind (emap (dict_index enq) selected)
       (\<lambda>ts. case ts of [] \<Rightarrow> Inl (ValueError ''min() arg is an empty sequence'') | t # ts \<Rightarrow> Inr (foldl min t ts))"

text \<open>
  The running best of both searches: the ids with their score and oldest time. A stored time of
  zero is falsy, and then reads as infinity.
\<close>

type_synonym best = "(string list \<times> rat \<times> rat) option"

definition improves :: "best \<Rightarrow> rat \<Rightarrow> rat \<Rightarrow> bool" where
  "improves best score oldest \<longleftrightarrow>
     (case best of
        None \<Rightarrow> True
      | Some (_, best_score, best_oldest) \<Rightarrow>
          score < best_score \<or> score = best_score \<and> (best_oldest = 0 \<or> oldest < best_oldest))"

definition update_best :: "dist \<Rightarrow> (string, rat) dict \<Rightarrow> string list \<Rightarrow> best \<Rightarrow> best result" where
  "update_best d enq chosen best =
     ebind (oldest_of enq chosen)
       (\<lambda>oldest. let score = batch_score d chosen
          in Inr (if improves best score oldest then Some (chosen, score, oldest) else best))"

definition try_seed :: "nat \<Rightarrow> dist \<Rightarrow> (string, rat) dict \<Rightarrow> string list \<Rightarrow> string \<Rightarrow> best \<Rightarrow> best result" where
  "try_seed width d enq candidates seed best =
     ebind (grow (width - 1) d enq [seed] (filter (\<lambda>c. c \<noteq> seed) candidates))
       (\<lambda>selected. update_best d enq selected best)"

definition select_subset ::
  "nat \<Rightarrow> dist \<Rightarrow> (string, rat) dict \<Rightarrow> string list \<Rightarrow> string list \<Rightarrow> string list result" where
  "select_subset width d enq candidates pinned =
     (if length candidates \<le> width then Inr candidates
      else if length pinned \<ge> width then Inr (take width (sort_key (time_key enq) pinned))
      else if pinned \<noteq> []
           then grow (width - length pinned) d enq pinned (filter (\<lambda>c. c \<notin> set pinned) candidates)
      else ebind (efold (try_seed width d enq candidates) candidates None)
             (\<lambda>best. case best of None \<Rightarrow> Inr (take width candidates) | Some (ids, _) \<Rightarrow> Inr ids))"

section \<open>Agglomeration\<close>

definition consider_cluster ::
  "nat \<Rightarrow> dist \<Rightarrow> (string, rat) dict \<Rightarrow> string list \<Rightarrow> string list \<Rightarrow> best \<Rightarrow> best result" where
  "consider_cluster width d enq pinned cluster best =
     (if list_ex (\<lambda>p. p \<notin> set cluster) pinned \<or> length cluster < width then Inr best
      else ebind (select_subset width d enq cluster pinned) (\<lambda>chosen. update_best d enq chosen best))"

definition index_pairs :: "nat \<Rightarrow> (nat \<times> nat) list" where
  "index_pairs n = concat (map (\<lambda>i. map (Pair i) [Suc i..<n]) [0..<n])"

definition closest_pair :: "dist \<Rightarrow> string list list \<Rightarrow> (nat \<times> nat) option" where
  "closest_pair d clusters =
     (case index_pairs (length clusters) of
        [] \<Rightarrow> None
      | p # ps \<Rightarrow> Some (first_min (\<lambda>(i, j). cluster_distance d (clusters ! i) (clusters ! j)) p ps))"

definition remove_at :: "nat \<Rightarrow> 'a list \<Rightarrow> 'a list" where
  "remove_at i xs = take i xs @ drop (Suc i) xs"

definition merge_pair :: "nat \<Rightarrow> nat \<Rightarrow> string list list \<Rightarrow> string list list" where
  "merge_pair i j clusters = remove_at i (remove_at j clusters) @ [clusters ! i @ clusters ! j]"

text \<open>\<open>while len(clusters) > 1\<close>: every round merges two clusters, so one round per cluster is enough.\<close>

fun agglomerate ::
  "nat \<Rightarrow> nat \<Rightarrow> dist \<Rightarrow> (string, rat) dict \<Rightarrow> string list \<Rightarrow> string list list \<Rightarrow> best \<Rightarrow> best result" where
  "agglomerate 0 width d enq pinned clusters best = (if length clusters > 1 then Inl Diverges else Inr best)"
| "agglomerate (Suc n) width d enq pinned clusters best =
     (if length clusters \<le> 1 then Inr best
      else case closest_pair d clusters of
        None \<Rightarrow> Inr best
      | Some (i, j) \<Rightarrow>
          (let next = merge_pair i j clusters
           in ebind (consider_cluster width d enq pinned (last next) best)
                (agglomerate n width d enq pinned next)))"

definition normalized_pins :: "string list \<Rightarrow> string list option \<Rightarrow> string list" where
  "normalized_pins candidates pinned =
     (case pinned of None \<Rightarrow> [] | Some ps \<Rightarrow> dedupe_into [] (filter (\<lambda>p. p \<in> set candidates) ps))"

definition affinity_table :: "(string, runtime_graph) dict \<Rightarrow> affinities" where
  "affinity_table graphs i = build_affinity (the (map_of graphs i))"

definition cluster_batch ::
  "nat \<Rightarrow> dist \<Rightarrow> (string, rat) dict \<Rightarrow> string list \<Rightarrow> string list \<Rightarrow> string list result" where
  "cluster_batch width d enq pinned candidates =
     (let singles = map (\<lambda>c. [c]) candidates
      in ebind (efold (consider_cluster width d enq pinned) singles None)
           (\<lambda>best. ebind (agglomerate (length singles) width d enq pinned singles best)
           (\<lambda>best. case best of
              None \<Rightarrow> select_subset width d enq candidates pinned
            | Some (ids, _) \<Rightarrow> Inr ids)))"

definition select_affinity_batch_ids ::
  "weights \<Rightarrow> (string, runtime_graph) dict \<Rightarrow> (string, rat) dict \<Rightarrow> int \<Rightarrow> string list option \<Rightarrow> string list result" where
  "select_affinity_batch_ids w graphs enq batch_size pinned =
     (let width = nat (if batch_size \<le> 0 then 1 else batch_size);
          candidates = dict_keys graphs;
          pins = normalized_pins candidates pinned
      in if length candidates \<le> width then Inr candidates
         else if length pins \<ge> width then Inr (take width (sort_key (time_key enq) pins))
         else cluster_batch width (id_distance w (affinity_table graphs)) enq pins candidates)"

section \<open>Selection\<close>

definition timed :: "(string, rat) dict \<Rightarrow> string list \<Rightarrow> bool" where
  "timed enq ids \<longleftrightarrow> set ids \<subseteq> set (dict_keys enq)"

lemma ebind_right: "ebind m Inr = m"
  by (cases m) auto

lemma emap_timed:
  assumes "timed enq ids"
  shows "emap (\<lambda>c. ebind (dict_index enq c) (\<lambda>t. Inr (f c t))) ids = Inr (map (\<lambda>c. f c (the (map_of enq c))) ids)"
proof (rule emap_cong_Inr)
  fix c assume "c \<in> set ids"
  then have "c \<in> set (dict_keys enq)" using assms by (auto simp: timed_def)
  then obtain t where "map_of enq c = Some t" by (metis map_of_eq_None_iff not_Some_eq set_map)
  then show "ebind (dict_index enq c) (\<lambda>t. Inr (f c t)) = Inr (f c (the (map_of enq c)))"
    by (simp add: dict_index_def)
qed

lemma pick_next_ok:
  assumes "timed enq remaining" and "remaining \<noteq> []"
  shows "\<exists>c \<in> set remaining. pick_next d enq selected remaining = Inr c"
proof -
  let ?f = "\<lambda>c t. ((avg_distance d c selected, t), c)"
  obtain r rs where r: "remaining = r # rs" using assms(2) by (cases remaining) auto
  let ?g = "\<lambda>c. ?f c (the (map_of enq c))"
  have "first_min fst (?g r) (map ?g rs) \<in> set (map ?g remaining)"
    using first_min_in [of fst "?g r" "map ?g rs"] r by simp
  then have "snd (first_min fst (?g r) (map ?g rs)) \<in> set remaining" by auto
  moreover have "pick_next d enq selected remaining = Inr (snd (first_min fst (?g r) (map ?g rs)))"
    using emap_timed [OF assms(1), of ?f] by (simp add: pick_next_def r)
  ultimately show ?thesis by blast
qed

lemma grow_ok:
  assumes "timed enq remaining" and "distinct (selected @ remaining)"
  shows "\<exists>more. grow n d enq selected remaining = Inr (selected @ more) \<and> distinct (selected @ more) \<and>
    set more \<subseteq> set remaining \<and> length more = min n (length remaining)"
  using assms
proof (induction n arbitrary: selected remaining)
  case (Suc n)
  show ?case
  proof (cases "remaining = []")
    case False
    obtain c where c: "c \<in> set remaining" "pick_next d enq selected remaining = Inr c"
      using pick_next_ok [OF Suc.prems(1) False] by blast
    have rest: "set (remove1 c remaining) \<subseteq> set remaining" "c \<notin> set (remove1 c remaining)"
      "length remaining = Suc (length (remove1 c remaining))" "distinct (remove1 c remaining)"
      using c(1) Suc.prems(2) length_pos_if_in_set [OF c(1)] by (auto simp: length_remove1 dest: notin_set_remove1)
    have "timed enq (remove1 c remaining)" using Suc.prems(1) rest(1) by (auto simp: timed_def)
    moreover have "distinct ((selected @ [c]) @ remove1 c remaining)" using Suc.prems(2) rest c(1) by auto
    ultimately obtain more where more: "grow n d enq (selected @ [c]) (remove1 c remaining) = Inr ((selected @ [c]) @ more)"
      "distinct ((selected @ [c]) @ more)" "set more \<subseteq> set (remove1 c remaining)"
      "length more = min n (length (remove1 c remaining))" using Suc.IH by blast
    then show ?thesis using c False rest by (intro exI [of _ "c # more"]) auto
  qed (use Suc.prems(2) in simp)
qed simp

text \<open>What every selection of at most \<open>width\<close> ids from \<open>candidates\<close> has to be.\<close>

definition good_batch :: "nat \<Rightarrow> string list \<Rightarrow> string list \<Rightarrow> string list \<Rightarrow> bool" where
  "good_batch width candidates pinned ids \<longleftrightarrow>
     distinct ids \<and> set ids \<subseteq> set candidates \<and> length ids = min width (length candidates) \<and>
     (if length pinned \<le> width then set pinned \<subseteq> set ids else set ids \<subseteq> set pinned)"

lemma update_best_ok:
  assumes "timed enq ids" and "ids \<noteq> []"
  shows "\<exists>best'. update_best d enq ids best = Inr best' \<and>
    (best' = best \<or> (\<exists>score old. best' = Some (ids, score, old))) \<and> (best = None \<longrightarrow> best' \<noteq> None)"
proof -
  have "emap (dict_index enq) ids = Inr (map (\<lambda>c. the (map_of enq c)) ids)"
    using emap_timed [OF assms(1), of "\<lambda>c t. t"] by (simp add: ebind_right)
  then obtain old where "oldest_of enq ids = Inr old"
    using assms(2) by (cases ids) (simp_all add: oldest_of_def)
  then show ?thesis by (auto simp: update_best_def Let_def improves_def)
qed

lemma select_subset_ok:
  assumes timed: "timed enq candidates" and dist: "distinct candidates"
    and pins: "distinct pinned" "set pinned \<subseteq> set candidates" and pos: "0 < width"
  shows "\<exists>ids. select_subset width d enq candidates pinned = Inr ids \<and> good_batch width candidates pinned ids"
proof -
  have len: "length pinned \<le> length candidates"
    using card_mono [OF _ pins(2)] distinct_card [OF pins(1)] distinct_card [OF dist] by simp
  consider (all) "length candidates \<le> width" | (pins) "width < length candidates" "width \<le> length pinned"
    | (some) "width < length candidates" "length pinned < width" "pinned \<noteq> []"
    | (free) "width < length candidates" "pinned = []" by linarith
  then show ?thesis
  proof cases
    case all
    then show ?thesis using dist pins len by (simp add: select_subset_def good_batch_def)
  next
    case pins
    let ?s = "sort_key (time_key enq) pinned"
    have sub: "set (take width ?s) \<subseteq> set pinned" using set_take_subset [of width ?s] by simp
    have "distinct (take width ?s)" using assms(3) by (simp add: distinct_take)
    moreover have "set pinned \<subseteq> set (take width ?s)" if "length pinned \<le> width" using that by simp
    ultimately show ?thesis
      using pins sub assms(4) by (auto simp: select_subset_def good_batch_def)
  next
    case some
    let ?rest = "filter (\<lambda>c. c \<notin> set pinned) candidates"
    have "timed enq ?rest" using timed by (auto simp: timed_def)
    moreover have "distinct (pinned @ ?rest)" using assms(2,3) by auto
    moreover have "length ?rest = length candidates - length pinned"
    proof -
      have "card (set candidates - set pinned) = card (set candidates) - card (set pinned)"
        by (rule card_Diff_subset) (use assms(4) in auto)
      moreover have "set ?rest = set candidates - set pinned" by auto
      ultimately show ?thesis using distinct_card [of ?rest] dist distinct_card [OF assms(2)] distinct_card [OF assms(3)] by simp
    qed
    ultimately obtain more where "grow (width - length pinned) d enq pinned ?rest = Inr (pinned @ more)"
      "distinct (pinned @ more)" "set more \<subseteq> set ?rest" "length more = min (width - length pinned) (length candidates - length pinned)"
      using grow_ok [of enq ?rest pinned "width - length pinned" d] by auto
    then show ?thesis using some assms(4) by (auto simp: select_subset_def good_batch_def)
  next
    case free
    let ?P = "\<lambda>best :: best. case best of None \<Rightarrow> True | Some (ids, _) \<Rightarrow> good_batch width candidates [] ids"
    have "\<exists>best. efold (try_seed width d enq candidates) candidates None = Inr best \<and> ?P best"
    proof (rule efold_total)
      fix seed and best :: best assume seed: "seed \<in> set candidates" and P: "?P best"
      let ?rest = "filter (\<lambda>c. c \<noteq> seed) candidates"
      have "timed enq ?rest" using timed by (auto simp: timed_def)
      moreover have "distinct ([seed] @ ?rest)" using dist by simp
      moreover have "length ?rest = length candidates - 1"
      proof -
        have "set ?rest = set candidates - {seed}" by auto
        then show ?thesis
          using distinct_card [of ?rest] dist distinct_card [OF dist] seed by (simp add: card_Diff_singleton)
      qed
      ultimately obtain more where more: "grow (width - 1) d enq [seed] ?rest = Inr ([seed] @ more)"
        "distinct ([seed] @ more)" "set more \<subseteq> set ?rest" "length more = min (width - 1) (length candidates - 1)"
        using grow_ok [of enq ?rest "[seed]" "width - 1" d] by auto
      have good: "good_batch width candidates [] ([seed] @ more)"
        using more(2-4) seed pos free(1) by (auto simp: good_batch_def)
      have "timed enq ([seed] @ more)" using more(3) seed timed by (auto simp: timed_def)
      then obtain best' where "update_best d enq ([seed] @ more) best = Inr best'"
        "best' = best \<or> (\<exists>score old. best' = Some ([seed] @ more, score, old))"
        using update_best_ok [of enq "[seed] @ more" d best] by blast
      then show "\<exists>v. try_seed width d enq candidates seed best = Inr v \<and> ?P v"
        using P good more(1) by (auto simp: try_seed_def)
    qed simp
    then obtain best where run: "efold (try_seed width d enq candidates) candidates None = Inr best" and best: "?P best"
      by blast
    have "good_batch width candidates [] (take width candidates)"
      using dist free by (auto simp: good_batch_def dest: in_set_takeD)
    with run best free show ?thesis by (cases best) (auto simp: select_subset_def)
  qed
qed

text \<open>A good batch of a large enough part of the candidates is a good batch of all of them.\<close>

lemma good_batch_mono:
  assumes "good_batch width cluster pinned ids" and "set cluster \<subseteq> set candidates" and "width \<le> length cluster"
    and "distinct cluster" and "distinct candidates"
  shows "good_batch width candidates pinned ids"
proof -
  have "length cluster \<le> length candidates"
    using card_mono [OF _ assms(2)] distinct_card [OF assms(4)] distinct_card [OF assms(5)] by simp
  with assms show ?thesis by (auto simp: good_batch_def)
qed

definition good_best :: "nat \<Rightarrow> string list \<Rightarrow> string list \<Rightarrow> best \<Rightarrow> bool" where
  "good_best width candidates pinned best \<longleftrightarrow>
     (case best of None \<Rightarrow> True | Some (ids, _) \<Rightarrow> good_batch width candidates pinned ids)"

lemma consider_cluster_ok:
  assumes "timed enq candidates" and "distinct candidates" and "distinct cluster" and "set cluster \<subseteq> set candidates"
    and "distinct pinned" and "0 < width" and best: "good_best width candidates pinned best"
  shows "\<exists>best'. consider_cluster width d enq pinned cluster best = Inr best' \<and> good_best width candidates pinned best'"
proof (cases "list_ex (\<lambda>p. p \<notin> set cluster) pinned \<or> length cluster < width")
  case True
  then show ?thesis using best by (simp add: consider_cluster_def)
next
  case False
  then have sub: "set pinned \<subseteq> set cluster" and len: "width \<le> length cluster" by (auto simp: list_ex_iff)
  have "timed enq cluster" using assms(1,4) by (auto simp: timed_def)
  then obtain ids where ids: "select_subset width d enq cluster pinned = Inr ids" "good_batch width cluster pinned ids"
    using select_subset_ok assms(3,5,6) sub by blast
  have "timed enq ids" "ids \<noteq> []" using ids(2) len assms(1,4,6) by (auto simp: good_batch_def timed_def)
  then obtain best' where "update_best d enq ids best = Inr best'"
    "best' = best \<or> (\<exists>score old. best' = Some (ids, score, old))" using update_best_ok by blast
  moreover have "good_batch width candidates pinned ids"
    using good_batch_mono [OF ids(2) assms(4) len assms(3,2)] .
  ultimately show ?thesis using False ids(1) best by (auto simp: consider_cluster_def good_best_def)
qed

lemma remove_at_mset: "i < length xs \<Longrightarrow> mset xs = add_mset (xs ! i) (mset (remove_at i xs))"
  by (subst id_take_nth_drop [of i xs]) (simp_all add: remove_at_def)

lemma length_remove_at: "i < length xs \<Longrightarrow> length (remove_at i xs) = length xs - 1"
  by (simp add: remove_at_def)

lemma merge_pair_ok:
  assumes "i < j" and "j < length clusters"
  shows "mset (concat (merge_pair i j clusters)) = mset (concat clusters)"
    and "length (merge_pair i j clusters) = length clusters - 1"
    and "last (merge_pair i j clusters) = clusters ! i @ clusters ! j"
proof -
  let ?r = "remove_at j clusters"
  have i: "i < length ?r" using assms by (simp add: length_remove_at)
  have nth: "?r ! i = clusters ! i" using assms by (simp add: remove_at_def nth_append)
  have step: "mset (concat xs) = mset (xs ! n) + mset (concat (remove_at n xs))"
    if "n < length xs" for n and xs :: "string list list"
    using that by (subst id_take_nth_drop [of n xs]) (simp_all add: remove_at_def)
  show "mset (concat (merge_pair i j clusters)) = mset (concat clusters)"
    using step [OF assms(2)] step [OF i] nth by (simp add: merge_pair_def)
  show "length (merge_pair i j clusters) = length clusters - 1"
    using assms i by (simp add: merge_pair_def length_remove_at)
  show "last (merge_pair i j clusters) = clusters ! i @ clusters ! j" by (simp add: merge_pair_def)
qed

lemma closest_pair_ok:
  assumes "1 < length clusters"
  shows "\<exists>i j. closest_pair d clusters = Some (i, j) \<and> i < j \<and> j < length clusters"
proof -
  have "(0, 1) \<in> set (index_pairs (length clusters))" using assms by (force simp: index_pairs_def intro!: bexI [of _ 0])
  then obtain p ps where ps: "index_pairs (length clusters) = p # ps" by (cases "index_pairs (length clusters)") auto
  let ?f = "\<lambda>(i, j). cluster_distance d (clusters ! i) (clusters ! j)"
  have "first_min ?f p ps \<in> set (index_pairs (length clusters))" using first_min_in [of ?f p ps] ps by simp
  then show ?thesis using ps by (auto simp: closest_pair_def index_pairs_def)
qed

lemma agglomerate_ok:
  assumes "timed enq candidates" and "distinct candidates" and "distinct pinned" and "0 < width"
    and "mset (concat clusters) = mset candidates" and "length clusters \<le> Suc n"
    and "good_best width candidates pinned best"
  shows "\<exists>best'. agglomerate n width d enq pinned clusters best = Inr best' \<and> good_best width candidates pinned best'"
  using assms(5-)
proof (induction n arbitrary: clusters best)
  case (Suc n)
  show ?case
  proof (cases "length clusters \<le> 1")
    case False
    then obtain i j where ij: "closest_pair d clusters = Some (i, j)" "i < j" "j < length clusters"
      using closest_pair_ok [of clusters d] by auto
    note merge = merge_pair_ok [OF ij(2,3)]
    let ?next = "merge_pair i j clusters"
    have perm: "mset (concat ?next) = mset candidates" using merge(1) Suc.prems(1) by simp
    then have "distinct (concat ?next)" and sub: "set (concat ?next) = set candidates"
      using assms(2) by (metis mset_eq_imp_distinct_iff, metis mset_eq_setD)
    moreover have "concat ?next = concat (butlast ?next) @ last ?next"
      by (metis append_butlast_last_id concat_append concat.simps append_Nil2 merge_pair_def snoc_eq_iff_butlast)
    ultimately have "distinct (last ?next)" "set (last ?next) \<subseteq> set candidates" by auto
    then obtain best' where best': "consider_cluster width d enq pinned (last ?next) best = Inr best'"
      "good_best width candidates pinned best'"
      using consider_cluster_ok [OF assms(1,2) _ _ assms(3,4) Suc.prems(3)] by blast
    have "length ?next \<le> Suc n" using merge(2) Suc.prems(2) by simp
    from Suc.IH [OF perm this best'(2)] show ?thesis using False ij(1) best'(1) by (simp add: Let_def)
  qed (use Suc.prems in simp)
qed simp


lemma cluster_batch_ok:
  assumes "timed enq candidates" and "distinct candidates" and "distinct pinned" and "set pinned \<subseteq> set candidates"
    and "0 < width"
  shows "\<exists>ids. cluster_batch width d enq pinned candidates = Inr ids \<and> good_batch width candidates pinned ids"
proof -
  let ?singles = "map (\<lambda>c. [c]) candidates"
  have "\<exists>best. efold (consider_cluster width d enq pinned) ?singles None = Inr best \<and> good_best width candidates pinned best"
    by (rule efold_total, simp add: good_best_def,
        rule consider_cluster_ok [OF assms(1,2) _ _ assms(3,5)]) auto
  then obtain b where b: "efold (consider_cluster width d enq pinned) ?singles None = Inr b" "good_best width candidates pinned b"
    by blast
  have concat: "concat ?singles = candidates" by (induction candidates) auto
  then obtain b' where b': "agglomerate (length ?singles) width d enq pinned ?singles b = Inr b'"
    "good_best width candidates pinned b'"
    using agglomerate_ok [OF assms(1-3,5), of ?singles "length ?singles" b d] b(2) by auto
  show ?thesis
    using select_subset_ok [OF assms(1,2,3,4,5), of d] b b' by (cases b') (auto simp: cluster_batch_def Let_def good_best_def)
qed

lemma normalized_pins_ok:
  "distinct (normalized_pins candidates pinned)" "set (normalized_pins candidates pinned) \<subseteq> set candidates"
  by (auto simp: normalized_pins_def distinct_dedupe_into set_dedupe_into split: option.splits)

lemma select_affinity_ok:
  assumes "distinct (dict_keys graphs)" and "timed enq (dict_keys graphs)"
  shows "\<exists>ids. select_affinity_batch_ids w graphs enq batch_size pinned = Inr ids \<and>
     good_batch (nat (max 1 batch_size)) (dict_keys graphs) (normalized_pins (dict_keys graphs) pinned) ids"
proof -
  define width where "width = nat (max 1 batch_size)"
  have width: "nat (if batch_size \<le> 0 then 1 else batch_size) = width" "0 < width" by (auto simp: width_def)
  let ?c = "dict_keys graphs" and ?p = "normalized_pins (dict_keys graphs) pinned"
  note pins = normalized_pins_ok [of ?c pinned]
  have len: "length ?p \<le> length ?c"
    using card_mono [OF _ pins(2)] distinct_card [OF pins(1)] distinct_card [OF assms(1)] by simp
  note run = select_affinity_batch_ids_def [of w graphs enq batch_size pinned, unfolded Let_def width(1)]
  consider (all) "length ?c \<le> width" | (pins) "width < length ?c" "width \<le> length ?p"
    | (search) "width < length ?c" "length ?p < width" by linarith
  then have "\<exists>ids. select_affinity_batch_ids w graphs enq batch_size pinned = Inr ids \<and> good_batch width ?c ?p ids"
  proof cases
    case all
    then show ?thesis using assms(1) pins(2) len run by (simp add: good_batch_def)
  next
    case pins
    let ?s = "sort_key (time_key enq) ?p"
    have sub: "set (take width ?s) \<subseteq> set ?p" using set_take_subset [of width ?s] by simp
    have "distinct (take width ?s)" using normalized_pins_ok(1) by (simp add: distinct_take)
    moreover have "set ?p \<subseteq> set (take width ?s)" if "length ?p \<le> width" using that by simp
    ultimately have "good_batch width ?c ?p (take width ?s)"
      using pins sub normalized_pins_ok(2) [of ?c pinned] by (auto simp: good_batch_def simp del: set_map)
    then show ?thesis using pins run by simp
  next
    case search
    then show ?thesis
      using cluster_batch_ok [OF assms(2,1) normalized_pins_ok width(2)] run by simp
  qed
  then show ?thesis unfolding width_def .
qed

text \<open>
  C32: Choosing a batch among the candidates, each with an enqueue time, never fails and its loops
  end: the result has
  distinct candidate ids, as many as the batch size (at least one) allows, and all pinned
  candidates are among them unless there are more of those than places, in which case only
  pinned ones are chosen.
\<close>

theorem select_affinity_batch_ids_ok:
  assumes "distinct (dict_keys graphs)" and "timed enq (dict_keys graphs)"
  shows "\<exists>ids. select_affinity_batch_ids w graphs enq batch_size pinned = Inr ids \<and>
     good_batch (nat (max 1 batch_size)) (dict_keys graphs) (normalized_pins (dict_keys graphs) pinned) ids"
  using assms by (rule select_affinity_ok)

definition tiny_graph :: "string \<Rightarrow> runtime_graph" where
  "tiny_graph m = \<lparr>rg_nodes = [(''n'', op_from_schema ''n'' \<lparr>sc_task_type = ''inference'', sc_backend = ''vllm'',
     sc_model = m, sc_data_spec = [], sc_model_spec = [], sc_inference_spec = [], sc_dependencies = [],
     sc_output_spec = None, sc_condition = None\<rparr>)], rg_node_order = [''n''], rg_output_node_map = [],
     rg_output_paths = [], rg_dsl_to_runtime = []\<rparr>"

theorem select_affinity_batch_ids_ok_witness:
  "\<exists>ids. select_affinity_batch_ids default_weights
       [(''a'', tiny_graph ''m1''), (''b'', tiny_graph ''m2''), (''c'', tiny_graph ''m1'')]
       [(''a'', 1), (''b'', 2), (''c'', 3)] 2 None = Inr ids \<and> length ids = 2 \<and> ids = [''a'', ''c'']"
proof -
  let ?g = "[(''a'', tiny_graph ''m1''), (''b'', tiny_graph ''m2''), (''c'', tiny_graph ''m1'')]"
  let ?e = "[(''a'', 1), (''b'', 2), (''c'', 3)] :: (string, rat) dict"
  have "distinct (dict_keys ?g)" "timed ?e (dict_keys ?g)" by (simp_all add: timed_def)
  from select_affinity_batch_ids_ok [OF this, of default_weights 2 None]
  obtain ids where ids: "select_affinity_batch_ids default_weights ?g ?e 2 None = Inr ids" "length ids = 2"
    by (auto simp: good_batch_def)
  moreover have "select_affinity_batch_ids default_weights ?g ?e 2 None = Inr [''a'', ''c'']" by code_simp
  ultimately show ?thesis by auto
qed

text \<open>
  The subset taken from a cluster does not always have the smallest average distance: it is
  grown greedily from each seed. Here three workflows that share one model are closest together,
  but each is closer to a partner of its own, so no seed leads to them.
\<close>

theorem select_subset_not_minimal:
  "let features = \<lambda>ms. \<lparr>wa_models = ms, wa_system_prompt_tokens = [], wa_node_count = 2\<rparr>;
       table = [(''a'', features [''x'', ''1'']), (''p'', features [''1'']), (''b'', features [''x'', ''2'']),
         (''q'', features [''2'']), (''c'', features [''x'', ''3'']), (''r'', features [''3''])];
       d = id_distance default_weights (\<lambda>i. the (map_of table i))
   in case select_subset 3 d (map (\<lambda>(i, _). (i, 1)) table) (map fst table) [] of
        Inr ids \<Rightarrow> batch_score d [''a'', ''b'', ''c''] < batch_score d ids
      | Inl e \<Rightarrow> False"
  by code_simp

end
