(* ===== verification/JobQueue.thy ===== *)
theory JobQueue
  imports Clustering
begin

text \<open>
  The workflow queue of the server (\<open>runtime/job_manager/base.py\<close>, \<open>priority_queue.py\<close>):
  per-priority and per-user queues, round-robin over dispatch partitions and users, two-phase
  reservation of a batch, starvation avoidance and user fairness.

  A \<open>WorkflowItem\<close> is shared by the queues and by \<open>_items\<close>; objects with one workflow id are one
  object, so a change of the miss counter is applied to every copy with that id. Object identity
  of a reservation is a serial number. The compiled DSL graph an item carries is opaque: \<open>'d\<close>.
\<close>

section \<open>Requests and items\<close>

datatype priority = HIGH | MEDIUM | LOW

text \<open>Iterating over the enumeration, and comparing by urgency.\<close>

definition priorities :: "priority list" where
  "priorities = [HIGH, MEDIUM, LOW]"

instantiation priority :: enum
begin

definition enum_priority :: "priority list" where
  "enum_priority = [HIGH, MEDIUM, LOW]"

definition enum_all_priority :: "(priority \<Rightarrow> bool) \<Rightarrow> bool" where
  "enum_all_priority P \<longleftrightarrow> P HIGH \<and> P MEDIUM \<and> P LOW"

definition enum_ex_priority :: "(priority \<Rightarrow> bool) \<Rightarrow> bool" where
  "enum_ex_priority P \<longleftrightarrow> P HIGH \<or> P MEDIUM \<or> P LOW"

instance
proof
  show "(UNIV :: priority set) = set enum_class.enum"
    by (auto simp: enum_priority_def) (metis priority.exhaust)
  show "enum_class.enum_all P \<longleftrightarrow> Ball UNIV P" for P :: "priority \<Rightarrow> bool"
    by (auto simp: enum_all_priority_def) (metis priority.exhaust)
  show "enum_class.enum_ex P \<longleftrightarrow> Bex UNIV P" for P :: "priority \<Rightarrow> bool"
    by (auto simp: enum_ex_priority_def) (metis priority.exhaust)
qed (simp add: enum_priority_def)

end

lemma set_priorities [simp]: "p \<in> set priorities"
  by (cases p) (simp_all add: priorities_def)

lemma distinct_priorities [simp]: "distinct priorities"
  by (simp add: priorities_def)

record hardware_requirements =
  hw_cpu :: "int option"
  hw_memory :: "string option"
  hw_gpu :: "int option"
  hw_gpu_memory :: "string option"

record request_config =
  cf_priority :: priority
  cf_user_id :: string
  cf_org_id :: string
  cf_principal_id :: string
  cf_optimizer_type :: "string option"
  cf_hardware :: "hardware_requirements option"

record slice_meta =
  sm_public_graph_name :: string
  sm_slice_index :: nat
  sm_slice_start :: nat
  sm_slice_length :: nat
  sm_total_length :: nat
  sm_template_hash :: string
  sm_varying_input_keys :: "string list"

record 'd workflow_item =
  wi_workflow_id :: string
  wi_request_id :: string
  wi_graph_name :: string
  wi_public_graph_name :: string
  wi_slice_index :: nat
  wi_slice_start :: nat
  wi_slice_length :: nat
  wi_total_length :: nat
  wi_template_hash :: string
  wi_varying_input_keys :: "string list"
  wi_runtime_graph :: runtime_graph
  wi_data_profile_graph :: runtime_graph
  wi_dsl_graph :: 'd
  wi_config :: request_config
  wi_enqueued_at :: rat
  wi_dispatch_token :: "string option"
  wi_miss_count :: int

record 'd job =
  jb_request_id :: string
  jb_runtime_graphs :: "(string, runtime_graph) dict"
  jb_data_profile_graphs :: "(string, runtime_graph) dict"
  jb_dsl_graphs :: "(string, 'd) dict"
  jb_workflow_slices :: "(string, slice_meta) dict"
  jb_config :: request_config
  jb_dispatch_token :: "string option"

record 'd batch_selection =
  bs_workflows :: "'d workflow_item list"
  bs_runtime_graphs :: "(string, runtime_graph) dict"
  bs_data_profile_graphs :: "(string, runtime_graph) dict"
  bs_config :: request_config

type_synonym hardware_signature = "int option \<times> string option \<times> int option \<times> string option"

definition hardware_signature :: "hardware_requirements option \<Rightarrow> hardware_signature" where
  "hardware_signature hw =
     (case hw of
        None \<Rightarrow> (None, None, None, None)
      | Some h \<Rightarrow> (hw_cpu h, hw_memory h, hw_gpu h, hw_gpu_memory h))"

type_synonym partition_key = "string \<times> string option \<times> string \<times> hardware_signature"

record reservation_payload =
  rp_selected_workflow_ids :: "string list"
  rp_miss_increment_targets :: "string list"
  rp_rr_partition_to_advance :: "partition_key option"
  rp_user_rr_priorities_to_advance :: "priority list"

record 'd batch_reservation =
  rv_serial :: nat
  rv_selection :: "'d batch_selection"
  rv_payload :: reservation_payload

record 'd job_manager =
  jm_quantums :: "priority \<Rightarrow> int"
  jm_starvation_limit :: int
  jm_default_optimizer_type :: string
  jm_queues :: "priority \<Rightarrow> (string, 'd workflow_item list) dict"
  jm_rr_user_order :: "priority \<Rightarrow> string list"
  jm_rr_partition_order :: "partition_key list"
  jm_rr_partition_members :: "partition_key list"
  jm_items :: "(string, 'd workflow_item) dict"
  jm_not_empty :: bool
  jm_active_reservation :: "'d batch_reservation option"
  jm_next_serial :: nat

definition new_job_manager :: "(priority \<Rightarrow> int) \<Rightarrow> int \<Rightarrow> string \<Rightarrow> 'd job_manager" where
  "new_job_manager quantums starvation_limit default_optimizer =
     \<lparr>jm_quantums = quantums, jm_starvation_limit = starvation_limit,
      jm_default_optimizer_type = default_optimizer, jm_queues = (\<lambda>_. []), jm_rr_user_order = (\<lambda>_. []),
      jm_rr_partition_order = [], jm_rr_partition_members = [], jm_items = [], jm_not_empty = False,
      jm_active_reservation = None, jm_next_serial = 0\<rparr>"

definition or_default :: "string option \<Rightarrow> string \<Rightarrow> string" where
  "or_default s dflt = (case s of Some t \<Rightarrow> if t = [] then dflt else t | None \<Rightarrow> dflt)"

definition item_partition :: "'d job_manager \<Rightarrow> 'd workflow_item \<Rightarrow> partition_key" where
  "item_partition jm item =
     (cf_principal_id (wi_config item), wi_dispatch_token item,
      or_default (cf_optimizer_type (wi_config item)) (jm_default_optimizer_type jm),
      hardware_signature (cf_hardware (wi_config item)))"

definition queue_owner_id :: "'d workflow_item \<Rightarrow> string" where
  "queue_owner_id item = cf_user_id (wi_config item)"

definition queued_at :: "'d job_manager \<Rightarrow> priority \<Rightarrow> 'd workflow_item list" where
  "queued_at jm p = concat (dict_values (jm_queues jm p))"

definition queued_items :: "'d job_manager \<Rightarrow> 'd workflow_item list" where
  "queued_items jm = concat (map (queued_at jm) priorities)"

section \<open>Enqueueing and queries\<close>

text \<open>\<open>fresh i\<close> is the id that \<open>unique_id()\<close> gives to the i-th workflow of the job.\<close>

definition make_item :: "rat \<Rightarrow> 'd job \<Rightarrow> string \<Rightarrow> string \<times> runtime_graph \<Rightarrow> 'd workflow_item result" where
  "make_item now jb wid g =
     ebind (dict_index (jb_data_profile_graphs jb) (fst g))
       (\<lambda>profile. ebind (dict_index (jb_dsl_graphs jb) (fst g))
       (\<lambda>dsl. ebind (dict_index (jb_workflow_slices jb) (fst g))
       (\<lambda>slice. Inr
          \<lparr>wi_workflow_id = wid, wi_request_id = jb_request_id jb, wi_graph_name = fst g, wi_public_graph_name = sm_public_graph_name slice,
           wi_slice_index = sm_slice_index slice, wi_slice_start = sm_slice_start slice,
           wi_slice_length = sm_slice_length slice, wi_total_length = sm_total_length slice,
           wi_template_hash = sm_template_hash slice, wi_varying_input_keys = sm_varying_input_keys slice,
           wi_runtime_graph = snd g, wi_data_profile_graph = profile, wi_dsl_graph = dsl,
           wi_config = jb_config jb, wi_enqueued_at = now, wi_dispatch_token = jb_dispatch_token jb,
           wi_miss_count = 0\<rparr>)))"

definition enqueue_item :: "'d workflow_item \<Rightarrow> 'd job_manager \<Rightarrow> 'd job_manager" where
  "enqueue_item item jm =
     (let p = cf_priority (wi_config item);
          owner = queue_owner_id item;
          queues = jm_queues jm p;
          jm1 = jm\<lparr>jm_queues := (jm_queues jm)(p := AList.update owner (dict_get queues owner [] @ [item]) queues),
                   jm_rr_user_order := (if owner \<in> set (dict_keys queues) then jm_rr_user_order jm
                     else (jm_rr_user_order jm)(p := jm_rr_user_order jm p @ [owner])),
                   jm_items := AList.update (wi_workflow_id item) item (jm_items jm)\<rparr>;
          key = item_partition jm item
      in if key \<in> set (jm_rr_partition_members jm1) then jm1
         else jm1\<lparr>jm_rr_partition_members := jm_rr_partition_members jm1 @ [key],
                  jm_rr_partition_order := jm_rr_partition_order jm1 @ [key]\<rparr>)"

definition enqueue ::
  "(nat \<Rightarrow> string) \<Rightarrow> rat \<Rightarrow> 'd job \<Rightarrow> 'd job_manager \<Rightarrow> ('d workflow_item list \<times> 'd job_manager) result" where
  "enqueue fresh now jb jm =
     ebind (emap (\<lambda>(i, g). make_item now jb (fresh i) g) (List.enumerate 0 (jb_runtime_graphs jb)))
       (\<lambda>items. Inr (items, (fold enqueue_item items jm)\<lparr>jm_not_empty := True\<rparr>))"

definition priority_queue_size :: "'d job_manager \<Rightarrow> priority \<Rightarrow> nat" where
  "priority_queue_size jm p = sum_list (map length (dict_values (jm_queues jm p)))"

definition has_work :: "'d job_manager \<Rightarrow> bool" where
  "has_work jm \<longleftrightarrow> list_ex (\<lambda>p. priority_queue_size jm p > 0) priorities"

text \<open>Whether \<open>wait_for_work\<close> returns without waiting for an enqueue.\<close>

definition wait_returns :: "'d job_manager \<Rightarrow> bool" where
  "wait_returns jm \<longleftrightarrow> has_work jm \<or> jm_not_empty jm"

definition older :: "rat option \<Rightarrow> 'd workflow_item \<Rightarrow> rat option" where
  "older oldest item =
     (case oldest of
        None \<Rightarrow> Some (wi_enqueued_at item)
      | Some t \<Rightarrow> if wi_enqueued_at item < t then Some (wi_enqueued_at item) else oldest)"

definition get_pending_stats :: "'d job_manager \<Rightarrow> nat \<times> rat option" where
  "get_pending_stats jm =
     (sum_list (map (priority_queue_size jm) priorities), foldl older None (queued_items jm))"

definition get_workflow :: "'d job_manager \<Rightarrow> string \<Rightarrow> 'd workflow_item result" where
  "get_workflow jm wid = dict_index (jm_items jm) wid"

definition finalize_workflows :: "string list \<Rightarrow> 'd job_manager \<Rightarrow> 'd job_manager" where
  "finalize_workflows wids jm = jm\<lparr>jm_items := fold AList.delete wids (jm_items jm)\<rparr>"


section \<open>Candidates\<close>

text \<open>\<open>_prune_empty_user_queues_locked\<close>: drop users without items, also from the round-robin order.\<close>

definition prune_empty_user_queues :: "priority \<Rightarrow> 'd job_manager \<Rightarrow> 'd job_manager" where
  "prune_empty_user_queues p jm =
     (let queues = filter (\<lambda>(u, q). q \<noteq> []) (jm_queues jm p)
      in jm\<lparr>jm_queues := (jm_queues jm)(p := queues),
            jm_rr_user_order := (jm_rr_user_order jm)(p :=
              filter (\<lambda>u. u \<in> set (dict_keys queues)) (jm_rr_user_order jm p))\<rparr>)"

text \<open>
  One pass over the users: each gives its next item until the limit is reached. A user's offset
  into its items is the part of the list already dropped.
\<close>

fun rr_pass :: "nat \<Rightarrow> (string \<times> 'i list) list \<Rightarrow> 'i list \<Rightarrow> 'i list \<times> (string \<times> 'i list) list" where
  "rr_pass limit [] acc = (acc, [])"
| "rr_pass limit ((u, []) # us) acc = (let (acc', us') = rr_pass limit us acc in (acc', (u, []) # us'))"
| "rr_pass limit ((u, i # items) # us) acc =
     (if length acc + 1 \<ge> limit then (acc @ [i], (u, items) # us)
      else let (acc', us') = rr_pass limit us (acc @ [i]) in (acc', (u, items) # us'))"

text \<open>\<open>while len(candidates) < limit\<close>: a pass that adds nothing ends the loop, so \<open>limit\<close> rounds are enough.\<close>

fun rr_loop :: "nat \<Rightarrow> nat \<Rightarrow> (string \<times> 'i list) list \<Rightarrow> 'i list \<Rightarrow> 'i list" where
  "rr_loop 0 limit us acc = acc"
| "rr_loop (Suc n) limit us acc =
     (if length acc \<ge> limit then acc
      else let (acc', us') = rr_pass limit us acc
           in if length acc' = length acc then acc else rr_loop n limit us' acc')"

definition peek_round_robin ::
  "priority \<Rightarrow> nat \<Rightarrow> partition_key \<Rightarrow> 'd job_manager \<Rightarrow> ('d workflow_item list \<times> bool) \<times> 'd job_manager" where
  "peek_round_robin p limit key jm =
     (if limit = 0 then (([], False), jm)
      else let jm' = prune_empty_user_queues p jm;
               rr_order = jm_rr_user_order jm' p;
               user_items = map (\<lambda>u. (u, filter (\<lambda>i. item_partition jm' i = key) (dict_get (jm_queues jm' p) u []))) rr_order;
               ordered = filter (\<lambda>(u, items). items \<noteq> []) user_items
           in if ordered = [] then (([], False), jm')
              else ((rr_loop limit limit ordered [], length rr_order > 1), jm'))"

definition pool_step ::
  "partition_key \<Rightarrow> priority \<Rightarrow> 'd workflow_item list \<times> priority list \<times> 'd job_manager
     \<Rightarrow> 'd workflow_item list \<times> priority list \<times> 'd job_manager" where
  "pool_step key p st =
     (case st of (candidates, advances, jm) \<Rightarrow>
        let quantum = nat (max 0 (jm_quantums jm p))
        in if quantum = 0 then st
           else case peek_round_robin p quantum key jm of
             ((picked, advance), jm') \<Rightarrow>
               (candidates @ picked, (if advance then advances @ [p] else advances), jm'))"

definition build_candidate_pool ::
  "partition_key \<Rightarrow> 'd job_manager \<Rightarrow> 'd workflow_item list \<times> priority list \<times> 'd job_manager" where
  "build_candidate_pool key jm = fold (pool_step key) priorities ([], [], jm)"

section \<open>Starvation and fairness\<close>

definition is_starved :: "'d job_manager \<Rightarrow> 'd workflow_item \<Rightarrow> bool" where
  "is_starved jm item \<longleftrightarrow> wi_miss_count item \<ge> jm_starvation_limit jm"

definition oldest_first :: "'d workflow_item list \<Rightarrow> string list" where
  "oldest_first items = map wi_workflow_id (sort_key wi_enqueued_at items)"

definition add_missing :: "nat \<Rightarrow> string list \<Rightarrow> string list \<Rightarrow> string list" where
  "add_missing n wids selected =
     fold (\<lambda>wid sel. if wid \<notin> set sel \<and> length sel < n then sel @ [wid] else sel) wids selected"

definition apply_starvation_policy ::
  "'d job_manager \<Rightarrow> 'd workflow_item list \<Rightarrow> string list \<Rightarrow> nat \<Rightarrow> string list" where
  "apply_starvation_policy jm candidates base n =
     (let starved = filter (is_starved jm) candidates
      in if starved = [] then take n base
         else let selected = oldest_first starved
              in if length selected \<ge> n then take n selected
                 else let filled = add_missing n base selected
                      in if length filled < n then add_missing n (map wi_workflow_id candidates) filled else filled)"

definition user_to_ids :: "'d workflow_item list \<Rightarrow> (string, string list) dict" where
  "user_to_ids candidates =
     foldl (\<lambda>d i. AList.update (queue_owner_id i) (dict_get d (queue_owner_id i) [] @ [wi_workflow_id i]) d) [] candidates"

text \<open>
  \<open>preferred or user_to_ids[user_id][0]\<close>: an empty id is falsy. Both loops stop as soon as the
  batch is full, where the code returns.
\<close>

definition user_pick :: "string list \<Rightarrow> string list \<Rightarrow> string" where
  "user_pick selected ids =
     (case find (\<lambda>w. w \<in> set selected) ids of
        Some w \<Rightarrow> if w = [] then hd ids else w
      | None \<Rightarrow> hd ids)"

fun seed_users :: "nat \<Rightarrow> string list \<Rightarrow> (string, string list) dict \<Rightarrow> string list \<Rightarrow> string list" where
  "seed_users n selected [] acc = acc"
| "seed_users n selected ((u, ids) # users) acc =
     (let picked = user_pick selected ids
      in if picked \<in> set acc then seed_users n selected users acc
         else if length acc + 1 \<ge> n then acc @ [picked]
         else seed_users n selected users (acc @ [picked]))"

fun fill_until :: "nat \<Rightarrow> string list \<Rightarrow> string list \<Rightarrow> string list" where
  "fill_until n [] acc = acc"
| "fill_until n (w # ws) acc =
     (if w \<in> set acc then fill_until n ws acc
      else if length acc + 1 \<ge> n then acc @ [w]
      else fill_until n ws (acc @ [w]))"

definition apply_user_fairness :: "'d workflow_item list \<Rightarrow> string list \<Rightarrow> nat \<Rightarrow> string list" where
  "apply_user_fairness candidates selected n =
     (if n \<le> 1 then take n selected
      else let selected = filter (\<lambda>w. w \<in> set (map wi_workflow_id candidates)) selected;
               users = user_to_ids candidates;
               seed = seed_users n selected users [];
               final = fill_until n selected seed
           in if selected = [] then []
              else if length users \<le> 1 then take n selected
              else if length seed \<ge> n then take n seed
              else if length final \<ge> n then take n final
              else take n (fill_until n (map wi_workflow_id candidates) final))"


section \<open>Partitions\<close>

text \<open>\<open>_pick_partition_round_robin_locked\<close>: stale heads are evicted, the head found stays in place.\<close>

fun pick_partition ::
  "partition_key list \<Rightarrow> partition_key list \<Rightarrow> partition_key list
     \<Rightarrow> partition_key option \<times> partition_key list \<times> partition_key list" where
  "pick_partition present [] members = (None, [], members)"
| "pick_partition present (key # order) members =
     (if key \<in> set present then (Some key, key # order, members)
      else pick_partition present order (removeAll key members))"

text \<open>The sort key of the reseeding branch: absent parts read as empty strings.\<close>

definition show_int :: "int \<Rightarrow> string" where
  "show_int i = (if i < 0 then ''-'' @ show_nat (nat (- i)) else show_nat (nat i))"

definition partition_sort_key :: "partition_key \<Rightarrow> string \<times> string \<times> string \<times> string list" where
  "partition_sort_key key =
     (case key of (owner, token, optimizer, (cpu, memory, gpu, gpu_memory)) \<Rightarrow>
        (owner, or_default token [], optimizer,
         [case cpu of None \<Rightarrow> [] | Some n \<Rightarrow> show_int n, case memory of None \<Rightarrow> [] | Some m \<Rightarrow> m,
          case gpu of None \<Rightarrow> [] | Some n \<Rightarrow> show_int n, case gpu_memory of None \<Rightarrow> [] | Some m \<Rightarrow> m]))"

definition reseed :: "partition_key list \<Rightarrow> partition_key list \<times> partition_key list \<Rightarrow> partition_key list \<times> partition_key list" where
  "reseed present st =
     fold (\<lambda>key (order, members).
       if key \<in> set members then (order, members) else (order @ [key], members @ [key]))
       (sort_key partition_sort_key present) st"

text \<open>The partition of the next round, with the round-robin order it leaves; \<open>present\<close> is not empty.\<close>

definition choose_partition :: "partition_key list \<Rightarrow> 'd job_manager \<Rightarrow> partition_key \<times> 'd job_manager" where
  "choose_partition present jm =
     (case pick_partition present (jm_rr_partition_order jm) (jm_rr_partition_members jm) of
        (Some key, order, members) \<Rightarrow>
          (key, jm\<lparr>jm_rr_partition_order := order, jm_rr_partition_members := members\<rparr>)
      | (None, order, members) \<Rightarrow>
          (case reseed present (order, members) of (order, members) \<Rightarrow>
             case pick_partition present order members of (picked, order, members) \<Rightarrow>
               ((case picked of Some key \<Rightarrow> key | None \<Rightarrow> hd present),
                jm\<lparr>jm_rr_partition_order := order, jm_rr_partition_members := members\<rparr>)))"

definition present_partitions :: "'d job_manager \<Rightarrow> partition_key list" where
  "present_partitions jm = dedupe_into [] (map (item_partition jm) (queued_items jm))"

definition anchor_partition ::
  "'d job_manager \<Rightarrow> (partition_key \<times> partition_key option) \<times> 'd job_manager" where
  "anchor_partition jm =
     (case filter (is_starved jm) (queued_items jm) of
        item # _ \<Rightarrow> ((item_partition jm item, None), jm)
      | [] \<Rightarrow> (case choose_partition (present_partitions jm) jm of (key, jm') \<Rightarrow> ((key, Some key), jm')))"

section \<open>Reservations\<close>

text \<open>The affinity selector: the graphs of the candidates, their times, the batch size, the pinned ids.\<close>

type_synonym selector =
  "(string, runtime_graph) dict \<Rightarrow> (string, rat) dict \<Rightarrow> int \<Rightarrow> string list option \<Rightarrow> string list result"

definition batch_ids :: "selector \<Rightarrow> 'd job_manager \<Rightarrow> 'd workflow_item list \<Rightarrow> int \<Rightarrow> string list result" where
  "batch_ids select jm candidates batch_size =
     (let starved = filter (is_starved jm) candidates
      in ebind (select (dict_of (map (\<lambda>i. (wi_workflow_id i, wi_runtime_graph i)) candidates))
             (dict_of (map (\<lambda>i. (wi_workflow_id i, wi_enqueued_at i)) candidates))
             batch_size (Some (oldest_first starved)))
         (\<lambda>base. let selected = apply_starvation_policy jm candidates base (nat batch_size)
            in Inr (if starved = [] then apply_user_fairness candidates selected (nat batch_size) else selected)))"

definition make_selection :: "'d workflow_item list \<Rightarrow> string list \<Rightarrow> 'd batch_selection result" where
  "make_selection candidates selected =
     ebind (emap (dict_index (dict_of (map (\<lambda>i. (wi_workflow_id i, i)) candidates))) selected)
       (\<lambda>items. case items of
          [] \<Rightarrow> Inl IndexError
        | first # _ \<Rightarrow> Inr
            \<lparr>bs_workflows = items,
             bs_runtime_graphs = dict_of (map (\<lambda>i. (wi_workflow_id i, wi_runtime_graph i)) items),
             bs_data_profile_graphs = dict_of (map (\<lambda>i. (wi_workflow_id i, wi_data_profile_graph i)) items),
             bs_config = wi_config first\<rparr>)"

definition reserve_with ::
  "selector \<Rightarrow> int \<Rightarrow> 'd job_manager \<Rightarrow> ('d batch_reservation option \<times> 'd job_manager) result" where
  "reserve_with select batch_size jm =
     (let batch_size = (if batch_size \<le> 0 then 1 else batch_size)
      in if jm_active_reservation jm \<noteq> None
         then Inl (RuntimeError ''already has an outstanding reservation'')
         else if present_partitions jm = [] then Inr (None, jm\<lparr>jm_not_empty := False\<rparr>)
         else case anchor_partition jm of ((anchor, advance), jm1) \<Rightarrow>
           case build_candidate_pool anchor jm1 of (candidates, user_advances, jm2) \<Rightarrow>
             if candidates = [] then Inr (None, jm2\<lparr>jm_not_empty := False\<rparr>)
             else ebind (batch_ids select jm2 candidates batch_size)
               (\<lambda>selected. ebind (make_selection candidates selected)
               (\<lambda>selection.
                  let reservation =
                    \<lparr>rv_serial = jm_next_serial jm2, rv_selection = selection,
                     rv_payload = \<lparr>rp_selected_workflow_ids = selected,
                       rp_miss_increment_targets =
                         filter (\<lambda>w. w \<notin> set selected) (map wi_workflow_id candidates),
                       rp_rr_partition_to_advance = advance,
                       rp_user_rr_priorities_to_advance = user_advances\<rparr>\<rparr>
                  in Inr (Some reservation,
                       jm2\<lparr>jm_active_reservation := Some reservation, jm_next_serial := Suc (jm_next_serial jm2)\<rparr>))))"

definition reserve_batch :: "int \<Rightarrow> 'd job_manager \<Rightarrow> ('d batch_reservation option \<times> 'd job_manager) result" where
  "reserve_batch = reserve_with (select_affinity_batch_ids default_weights)"

definition rotate_left :: "'a list \<Rightarrow> 'a list" where
  "rotate_left xs = (case xs of [] \<Rightarrow> [] | y # ys \<Rightarrow> ys @ [y])"

definition advance_partition :: "partition_key \<Rightarrow> 'd job_manager \<Rightarrow> 'd job_manager" where
  "advance_partition key jm =
     (case jm_rr_partition_order jm of
        [] \<Rightarrow> jm
      | head # _ \<Rightarrow> if head = key then jm\<lparr>jm_rr_partition_order := rotate_left (jm_rr_partition_order jm)\<rparr> else jm)"

definition advance_user :: "priority \<Rightarrow> 'd job_manager \<Rightarrow> 'd job_manager" where
  "advance_user p jm =
     (if length (jm_rr_user_order jm p) > 1
      then jm\<lparr>jm_rr_user_order := (jm_rr_user_order jm)(p := rotate_left (jm_rr_user_order jm p))\<rparr>
      else jm)"

text \<open>A counter is bumped on the shared object: in \<open>_items\<close> and wherever a queue holds it.\<close>

definition bump_item :: "string \<Rightarrow> 'd workflow_item \<Rightarrow> 'd workflow_item" where
  "bump_item wid item =
     (if wi_workflow_id item = wid then item\<lparr>wi_miss_count := wi_miss_count item + 1\<rparr> else item)"

definition bump_miss :: "string \<Rightarrow> 'd job_manager \<Rightarrow> 'd job_manager" where
  "bump_miss wid jm =
     (case map_of (jm_items jm) wid of
        None \<Rightarrow> jm
      | Some _ \<Rightarrow> jm\<lparr>jm_items := map (\<lambda>(k, i). (k, bump_item wid i)) (jm_items jm),
          jm_queues := (\<lambda>p. map (\<lambda>(u, q). (u, map (bump_item wid) q)) (jm_queues jm p))\<rparr>)"

definition remove_selected :: "string list \<Rightarrow> 'd job_manager \<Rightarrow> 'd job_manager" where
  "remove_selected selected jm =
     jm\<lparr>jm_queues := (\<lambda>p. filter (\<lambda>(u, q). q \<noteq> [])
          (map (\<lambda>(u, q). (u, filter (\<lambda>i. wi_workflow_id i \<notin> set selected) q)) (jm_queues jm p)))\<rparr>"

text \<open>A priority without users is skipped before its queues are pruned.\<close>

definition prune_nonempty :: "'d job_manager \<Rightarrow> priority \<Rightarrow> 'd job_manager \<Rightarrow> 'd job_manager" where
  "prune_nonempty before p jm = (if jm_queues before p = [] then jm else prune_empty_user_queues p jm)"

definition drop_stale_partitions :: "'d job_manager \<Rightarrow> 'd job_manager" where
  "drop_stale_partitions jm =
     (let remaining = present_partitions jm;
          stale = filter (\<lambda>k. k \<notin> set remaining) (jm_rr_partition_members jm)
      in jm\<lparr>jm_rr_partition_members := filter (\<lambda>k. k \<notin> set stale) (jm_rr_partition_members jm),
            jm_rr_partition_order := filter (\<lambda>k. k \<notin> set stale) (jm_rr_partition_order jm)\<rparr>)"

definition is_active :: "'d job_manager \<Rightarrow> 'd batch_reservation \<Rightarrow> bool" where
  "is_active jm r \<longleftrightarrow> (case jm_active_reservation jm of None \<Rightarrow> False | Some a \<Rightarrow> rv_serial a = rv_serial r)"

definition commit_reservation :: "'d batch_reservation \<Rightarrow> 'd job_manager \<Rightarrow> 'd job_manager result" where
  "commit_reservation r jm =
     (if \<not> is_active jm r then Inl (RuntimeError ''commit_reservation: reservation is not the active one'')
      else let payload = rv_payload r;
               jm1 = fold bump_miss (rp_miss_increment_targets payload) jm;
               jm2 = fold (prune_nonempty jm1) priorities (remove_selected (rp_selected_workflow_ids payload) jm1);
               jm3 = drop_stale_partitions jm2;
               jm4 = (case rp_rr_partition_to_advance payload of None \<Rightarrow> jm3 | Some key \<Rightarrow> advance_partition key jm3);
               jm5 = fold advance_user (rp_user_rr_priorities_to_advance payload) jm4
           in Inr (jm5\<lparr>jm_not_empty := (has_work jm5 \<and> jm_not_empty jm5), jm_active_reservation := None\<rparr>))"

definition abort_reservation :: "'d batch_reservation \<Rightarrow> 'd job_manager \<Rightarrow> 'd job_manager result" where
  "abort_reservation r jm =
     (if \<not> is_active jm r then Inl (RuntimeError ''abort_reservation: reservation is not the active one'')
      else Inr (jm\<lparr>jm_active_reservation := None\<rparr>))"

definition select_batch :: "int \<Rightarrow> 'd job_manager \<Rightarrow> ('d batch_selection option \<times> 'd job_manager) result" where
  "select_batch batch_size jm =
     ebind (reserve_batch batch_size jm)
       (\<lambda>(r, jm1). case r of
          None \<Rightarrow> Inr (None, jm1)
        | Some r \<Rightarrow> ebind (commit_reservation r jm1) (\<lambda>jm2. Inr (Some (rv_selection r), jm2)))"

lemma set_update_cases: "(k', v') \<in> set (AList.update k v d) \<Longrightarrow> (k', v') \<in> set d \<or> k' = k \<and> v' = v"
  by (induction d) (auto split: if_splits)

section \<open>The invariant of the queue\<close>

definition queue_wf :: "'d job_manager \<Rightarrow> priority \<Rightarrow> bool" where
  "queue_wf jm p \<longleftrightarrow>
     distinct (dict_keys (jm_queues jm p)) \<and>
     list_all (\<lambda>(u, q). q \<noteq> [] \<and> list_all (\<lambda>i. cf_priority (wi_config i) = p \<and> queue_owner_id i = u) q) (jm_queues jm p) \<and>
     distinct (jm_rr_user_order jm p) \<and> set (jm_rr_user_order jm p) = set (dict_keys (jm_queues jm p))"

definition jm_wf :: "'d job_manager \<Rightarrow> bool" where
  "jm_wf jm \<longleftrightarrow>
     list_all (queue_wf jm) priorities \<and>
     distinct (map wi_workflow_id (queued_items jm)) \<and>
     distinct (jm_rr_partition_order jm) \<and>
     set (jm_rr_partition_members jm) = set (jm_rr_partition_order jm) \<and>
     set (jm_rr_partition_order jm) = item_partition jm ` set (queued_items jm)"

lemma jm_wfD:
  assumes "jm_wf jm"
  shows "queue_wf jm p" and "distinct (map wi_workflow_id (queued_items jm))"
    and "distinct (jm_rr_partition_order jm)" and "set (jm_rr_partition_members jm) = set (jm_rr_partition_order jm)"
    and "set (jm_rr_partition_order jm) = item_partition jm ` set (queued_items jm)"
  using assms by (simp_all add: jm_wf_def list_all_iff)

lemma new_job_manager_wf: "jm_wf (new_job_manager quantums limit dflt)"
  by (simp add: jm_wf_def queue_wf_def new_job_manager_def queued_items_def queued_at_def list_all_iff priorities_def)

lemma queued_at_def2: "queued_at jm p = concat (map snd (jm_queues jm p))"
  by (simp add: queued_at_def)

lemma set_queued_items: "set (queued_items jm) = (\<Union>p. set (queued_at jm p))"
  by (auto simp: queued_items_def)

lemma item_partition_cong:
  "jm_default_optimizer_type a = jm_default_optimizer_type b \<Longrightarrow> item_partition a = item_partition b"
  by (simp add: item_partition_def fun_eq_iff)

text \<open>Appending to one user's queue adds the item and nothing else.\<close>

lemma mset_append_dict:
  "distinct (dict_keys d) \<Longrightarrow>
    mset (concat (dict_values (AList.update u (dict_get d u [] @ [x]) d))) = add_mset x (mset (concat (dict_values d)))"
proof (induction d)
  case (Cons a d)
  obtain v q where a: "a = (v, q)" by (cases a)
  show ?case
  proof (cases "v = u")
    case False
    then have "dict_get (a # d) u [] = dict_get d u []" by (simp add: dict_get_def a)
    with False Cons show ?thesis by (simp add: a)
  qed (simp add: a dict_get_def)
qed (simp add: dict_get_def)

lemma enqueue_item_fields:
  fixes item :: "'d workflow_item" and jm :: "'d job_manager"
  defines "p \<equiv> cf_priority (wi_config item)"
  defines "q \<equiv> AList.update (queue_owner_id item) (dict_get (jm_queues jm p) (queue_owner_id item) [] @ [item]) (jm_queues jm p)"
  shows "jm_queues (enqueue_item item jm) = (jm_queues jm)(p := q)"
    and "jm_rr_user_order (enqueue_item item jm) = (if queue_owner_id item \<in> set (dict_keys (jm_queues jm p)) then jm_rr_user_order jm
      else (jm_rr_user_order jm)(p := jm_rr_user_order jm p @ [queue_owner_id item]))"
    and "jm_items (enqueue_item item jm) = AList.update (wi_workflow_id item) item (jm_items jm)"
    and "jm_rr_partition_order (enqueue_item item jm) = (if item_partition jm item \<in> set (jm_rr_partition_members jm)
      then jm_rr_partition_order jm else jm_rr_partition_order jm @ [item_partition jm item])"
    and "jm_rr_partition_members (enqueue_item item jm) = (if item_partition jm item \<in> set (jm_rr_partition_members jm)
      then jm_rr_partition_members jm else jm_rr_partition_members jm @ [item_partition jm item])"
    and "jm_default_optimizer_type (enqueue_item item jm) = jm_default_optimizer_type jm"
    and "jm_active_reservation (enqueue_item item jm) = jm_active_reservation jm"
    and "jm_quantums (enqueue_item item jm) = jm_quantums jm"
    and "jm_starvation_limit (enqueue_item item jm) = jm_starvation_limit jm"
  unfolding p_def q_def by (simp_all add: enqueue_item_def Let_def)

lemma mset_queued_update:
  assumes "mset (concat (dict_values (f p))) = add_mset x (mset (queued_at jm p))" and "\<And>p'. p' \<noteq> p \<Longrightarrow> f p' = jm_queues jm p'"
    and "jm_queues jm' = f"
  shows "mset (queued_items jm') = add_mset x (mset (queued_items jm))"
  using assms(1) assms(2) [of HIGH] assms(2) [of MEDIUM] assms(2) [of LOW]
  by (cases p) (simp_all add: queued_items_def queued_at_def priorities_def assms(3) del: mset_concat)

lemma enqueue_item_mset:
  assumes "jm_wf jm"
  shows "mset (queued_items (enqueue_item item jm)) = add_mset item (mset (queued_items jm))"
proof (rule mset_queued_update [OF _ _ refl])
  let ?p = "cf_priority (wi_config item)"
  have "distinct (dict_keys (jm_queues jm ?p))" using jm_wfD(1) [OF assms] by (simp add: queue_wf_def)
  from mset_append_dict [OF this]
  show "mset (concat (dict_values (jm_queues (enqueue_item item jm) ?p))) = add_mset item (mset (queued_at jm ?p))"
    by (simp add: enqueue_item_fields queued_at_def)
qed (simp add: enqueue_item_fields)

lemma enqueue_item_queue_wf:
  assumes "jm_wf jm"
  shows "queue_wf (enqueue_item item jm) p"
proof (cases "p = cf_priority (wi_config item)")
  case False
  then show ?thesis
    using jm_wfD(1) [OF assms, of p] by (simp add: queue_wf_def enqueue_item_fields)
next
  case True
  let ?u = "queue_owner_id item" and ?q = "jm_queues jm p"
  have wf: "distinct (dict_keys ?q)" "distinct (jm_rr_user_order jm p)" "set (jm_rr_user_order jm p) = set (dict_keys ?q)"
    and items: "\<And>u q. (u, q) \<in> set ?q \<Longrightarrow> q \<noteq> [] \<and> list_all (\<lambda>i. cf_priority (wi_config i) = p \<and> queue_owner_id i = u) q"
    using jm_wfD(1) [OF assms, of p] by (auto simp: queue_wf_def list_all_iff)
  have get: "list_all (\<lambda>i. cf_priority (wi_config i) = p \<and> queue_owner_id i = ?u) (dict_get ?q ?u [])"
    using items by (auto simp: dict_get_def split: option.split dest: map_of_SomeD)
  have new: "q \<noteq> [] \<and> list_all (\<lambda>i. cf_priority (wi_config i) = p \<and> queue_owner_id i = u) q"
    if "(u, q) \<in> set (AList.update ?u (dict_get ?q ?u [] @ [item]) ?q)" for u q
  proof -
    have "(u, q) \<in> set ?q \<or> u = ?u \<and> q = dict_get ?q ?u [] @ [item]"
      using set_update_cases [OF that] by blast
    then show ?thesis using items get True by auto
  qed
  have queue: "jm_queues (enqueue_item item jm) p = AList.update ?u (dict_get ?q ?u [] @ [item]) ?q"
    using True by (simp add: enqueue_item_fields)
  have keys: "dict_keys (jm_queues (enqueue_item item jm) p) = (if ?u \<in> set (dict_keys ?q) then dict_keys ?q else dict_keys ?q @ [?u])"
    using True by (simp add: enqueue_item_fields dict_keys_update del: set_map)
  have rr: "jm_rr_user_order (enqueue_item item jm) p =
      (if ?u \<in> set (dict_keys ?q) then jm_rr_user_order jm p else jm_rr_user_order jm p @ [?u])"
    using True by (simp add: enqueue_item_fields)
  have "list_all (\<lambda>(u, q). q \<noteq> [] \<and> list_all (\<lambda>i. cf_priority (wi_config i) = p \<and> queue_owner_id i = u) q) (jm_queues (enqueue_item item jm) p)"
    unfolding queue list_all_iff using new [unfolded list_all_iff] by blast
  moreover have "distinct (if ?u \<in> set (dict_keys ?q) then xs else xs @ [?u])"
    "set (if ?u \<in> set (dict_keys ?q) then xs else xs @ [?u]) = set (if ?u \<in> set (dict_keys ?q) then dict_keys ?q else dict_keys ?q @ [?u])"
    if "distinct xs" "set xs = set (dict_keys ?q)" for xs
    using that by (simp_all del: set_map)
  ultimately show ?thesis unfolding queue_wf_def keys rr using wf by blast
qed

lemma enqueue_item_wf:
  assumes "jm_wf jm" and "wi_workflow_id item \<notin> wi_workflow_id ` set (queued_items jm)"
  shows "jm_wf (enqueue_item item jm)"
proof -
  note wf = jm_wfD [OF assms(1)] and mset = enqueue_item_mset [OF assms(1), of item]
  have part: "item_partition (enqueue_item item jm) = item_partition jm"
    by (rule item_partition_cong) (simp add: enqueue_item_fields)
  have "mset (map wi_workflow_id (queued_items (enqueue_item item jm))) = mset (wi_workflow_id item # map wi_workflow_id (queued_items jm))"
    using arg_cong [OF mset, of "image_mset wi_workflow_id"] by simp
  then have "distinct (map wi_workflow_id (queued_items (enqueue_item item jm)))"
    using assms(2) wf(2) mset_eq_imp_distinct_iff by fastforce
  moreover have "set (queued_items (enqueue_item item jm)) = insert item (set (queued_items jm))"
    using arg_cong [OF mset, of set_mset] by simp
  ultimately show ?thesis
    using enqueue_item_queue_wf [OF assms(1)] wf(3-5)
    by (auto simp: jm_wf_def list_all_iff part enqueue_item_fields)
qed

lemma find_Some_mem: "find P xs = Some x \<Longrightarrow> x \<in> set xs \<and> P x"
  by (induction xs) (auto split: if_splits)

lemma fold_enqueue:
  assumes "jm_wf jm" and "distinct (map wi_workflow_id items)"
    and "set (map wi_workflow_id items) \<inter> wi_workflow_id ` set (queued_items jm) = {}"
  shows "jm_wf (fold enqueue_item items jm)"
    and "mset (queued_items (fold enqueue_item items jm)) = mset items + mset (queued_items jm)"
proof -
  have "jm_wf (fold enqueue_item items jm) \<and> mset (queued_items (fold enqueue_item items jm)) = mset items + mset (queued_items jm)"
    using assms
  proof (induction items arbitrary: jm)
    case (Cons x items)
    have fresh: "wi_workflow_id x \<notin> wi_workflow_id ` set (queued_items jm)" using Cons.prems(3) by auto
    note mset = enqueue_item_mset [OF Cons.prems(1), of x]
    have "set (queued_items (enqueue_item x jm)) = insert x (set (queued_items jm))"
      using arg_cong [OF mset, of set_mset] by simp
    then have disj: "set (map wi_workflow_id items) \<inter> wi_workflow_id ` set (queued_items (enqueue_item x jm)) = {}"
      using Cons.prems(2,3) by auto
    have dist: "distinct (map wi_workflow_id items)" using Cons.prems(2) by simp
    from Cons.IH [OF enqueue_item_wf [OF Cons.prems(1) fresh] dist disj] mset show ?case by simp
  qed simp
  then show "jm_wf (fold enqueue_item items jm)"
    "mset (queued_items (fold enqueue_item items jm)) = mset items + mset (queued_items jm)" by simp_all
qed

lemma fold_enqueue_items:
  "map_of (jm_items (fold enqueue_item items jm)) wid =
     (case find (\<lambda>i. wi_workflow_id i = wid) (rev items) of None \<Rightarrow> map_of (jm_items jm) wid | Some i \<Rightarrow> Some i)"
proof (induction items rule: rev_induct)
  case (snoc x items)
  then show ?case by (simp add: enqueue_item_fields map_of_update)
qed simp

lemma not_empty_flag [simp]:
  "queued_items (jm\<lparr>jm_not_empty := b\<rparr>) = queued_items jm"
  "item_partition (jm\<lparr>jm_not_empty := b\<rparr>) = item_partition jm"
  "queue_wf (jm\<lparr>jm_not_empty := b\<rparr>) = queue_wf jm"
  "jm_wf (jm\<lparr>jm_not_empty := b\<rparr>) = jm_wf jm"
proof -
  show items: "queued_items (jm\<lparr>jm_not_empty := b\<rparr>) = queued_items jm"
    by (simp add: queued_items_def queued_at_def priorities_def)
  show part: "item_partition (jm\<lparr>jm_not_empty := b\<rparr>) = item_partition jm" by (rule item_partition_cong) simp
  show wf: "queue_wf (jm\<lparr>jm_not_empty := b\<rparr>) = queue_wf jm" by (simp add: fun_eq_iff queue_wf_def)
  show "jm_wf (jm\<lparr>jm_not_empty := b\<rparr>) = jm_wf jm" by (simp add: jm_wf_def items part wf)
qed

lemma priority_queue_size_eq: "priority_queue_size jm p = length (queued_at jm p)"
  by (simp add: priority_queue_size_def queued_at_def length_concat)

lemma has_work_iff: "has_work jm \<longleftrightarrow> queued_items jm \<noteq> []"
  by (auto simp: has_work_def list_ex_iff priority_queue_size_eq queued_items_def)

lemma get_pending_count: "fst (get_pending_stats jm) = length (queued_items jm)"
  by (simp add: get_pending_stats_def priority_queue_size_eq queued_items_def priorities_def)

text \<open>The item made of the graph \<open>g\<close> of a job, each field from where the job has it.\<close>

definition item_of_graph :: "rat \<Rightarrow> 'd job \<Rightarrow> string \<times> runtime_graph \<Rightarrow> 'd workflow_item \<Rightarrow> bool" where
  "item_of_graph now jb g i \<longleftrightarrow>
     wi_graph_name i = fst g \<and> wi_runtime_graph i = snd g \<and>
     map_of (jb_data_profile_graphs jb) (fst g) = Some (wi_data_profile_graph i) \<and>
     map_of (jb_dsl_graphs jb) (fst g) = Some (wi_dsl_graph i) \<and>
     (\<exists>slice. map_of (jb_workflow_slices jb) (fst g) = Some slice \<and>
        wi_public_graph_name i = sm_public_graph_name slice \<and> wi_slice_index i = sm_slice_index slice \<and>
        wi_slice_start i = sm_slice_start slice \<and> wi_slice_length i = sm_slice_length slice \<and>
        wi_total_length i = sm_total_length slice \<and> wi_template_hash i = sm_template_hash slice \<and>
        wi_varying_input_keys i = sm_varying_input_keys slice) \<and>
     wi_request_id i = jb_request_id jb \<and> wi_config i = jb_config jb \<and> wi_dispatch_token i = jb_dispatch_token jb \<and>
     wi_enqueued_at i = now \<and> wi_miss_count i = 0"

lemma made_items:
  assumes "emap (\<lambda>(i, g). make_item now jb (fresh i) g) (List.enumerate n gs) = Inr items"
  shows "map wi_workflow_id items = map fresh [n..<n + length gs]" and "list_all2 (item_of_graph now jb) gs items"
proof -
  have "map wi_workflow_id items = map fresh [n..<n + length gs] \<and> list_all2 (item_of_graph now jb) gs items"
    using assms
  proof (induction gs arbitrary: n items)
    case (Cons g gs)
    obtain i rest where items: "items = i # rest" and i: "make_item now jb (fresh n) g = Inr i"
      and rest: "emap (\<lambda>(i, g). make_item now jb (fresh i) g) (List.enumerate (Suc n) gs) = Inr rest"
      using Cons.prems by (auto simp: result_simps)
    have "item_of_graph now jb g i" "wi_workflow_id i = fresh n"
      using i by (auto simp: make_item_def item_of_graph_def result_simps)
    moreover have "[n..<n + length (g # gs)] = n # [Suc n..<Suc n + length gs]" by (simp add: upt_conv_Cons del: upt_Suc)
    ultimately show ?case using Cons.IH [OF rest] by (simp add: items del: upt_Suc)
  qed simp
  then show "map wi_workflow_id items = map fresh [n..<n + length gs]" "list_all2 (item_of_graph now jb) gs items" by simp_all
qed

lemma fold_enqueue_queue:
  "dict_get (jm_queues (fold enqueue_item items jm) p) u [] =
     dict_get (jm_queues jm p) u [] @ filter (\<lambda>i. cf_priority (wi_config i) = p \<and> queue_owner_id i = u) items"
proof (induction items arbitrary: jm)
  case (Cons x items)
  have "dict_get (jm_queues (enqueue_item x jm) p) u [] = dict_get (jm_queues jm p) u [] @
      (if cf_priority (wi_config x) = p \<and> queue_owner_id x = u then [x] else [])"
    by (auto simp: enqueue_item_fields dict_get_def map_of_update)
  then show ?case by (simp add: Cons.IH)
qed simp

text \<open>
  C33: Enqueueing a job with fresh workflow ids makes one item per runtime graph of the job, in
  order, with the graph's own profile graph, DSL graph and slice, the configuration of the job
  and a miss count of 0. Each user's queue of each priority gets its items at the end and is
  otherwise unchanged, the queue stays well-formed, the event is set, and every new item, and
  every item that could be looked up before, can be looked up by its id. It fails, with a
  KeyError, exactly when the job lacks the profile graph, DSL graph or slice of one of its graphs.
\<close>

theorem enqueue_correct:
  assumes "jm_wf jm" and "inj fresh" and "range fresh \<inter> wi_workflow_id ` set (queued_items jm) = {}"
  shows "case enqueue fresh now jb jm of
           Inr (items, jm') \<Rightarrow> list_all2 (item_of_graph now jb) (jb_runtime_graphs jb) items \<and>
             map wi_workflow_id items = map fresh [0..<length items] \<and>
             (\<forall>p u. dict_get (jm_queues jm' p) u [] = dict_get (jm_queues jm p) u [] @
                filter (\<lambda>i. cf_priority (wi_config i) = p \<and> queue_owner_id i = u) items) \<and>
             mset (queued_items jm') = mset items + mset (queued_items jm) \<and> jm_wf jm' \<and> jm_not_empty jm' \<and>
             (\<forall>i \<in> set items. get_workflow jm' (wi_workflow_id i) = Inr i) \<and>
             (\<forall>wid. wid \<notin> set (map wi_workflow_id items) \<longrightarrow> get_workflow jm' wid = get_workflow jm wid)
         | Inl e \<Rightarrow> e = KeyError \<and> (\<exists>g \<in> set (dict_keys (jb_runtime_graphs jb)).
             g \<notin> set (dict_keys (jb_data_profile_graphs jb)) \<or> g \<notin> set (dict_keys (jb_dsl_graphs jb)) \<or>
             g \<notin> set (dict_keys (jb_workflow_slices jb)))"
proof (cases "emap (\<lambda>(i, g). make_item now jb (fresh i) g) (List.enumerate 0 (jb_runtime_graphs jb))")
  case (Inl e)
  from emap_Inl [OF Inl] obtain i g where "(i, g) \<in> set (List.enumerate 0 (jb_runtime_graphs jb))" and
    e: "make_item now jb (fresh i) g = Inl e" by auto
  then have g: "g \<in> set (jb_runtime_graphs jb)" by (auto simp: in_set_enumerate_eq)
  have "e = KeyError \<and> (fst g \<notin> set (dict_keys (jb_data_profile_graphs jb)) \<or> fst g \<notin> set (dict_keys (jb_dsl_graphs jb)) \<or>
      fst g \<notin> set (dict_keys (jb_workflow_slices jb)))"
    using e by (auto simp: make_item_def result_simps map_of_eq_None_iff)
  then show ?thesis using Inl g by (auto simp: enqueue_def)
next
  case (Inr items)
  let ?jm = "fold enqueue_item items jm"
  note made = made_items [OF Inr]
  have ids: "map wi_workflow_id items = map fresh [0..<length items]"
    using made list_all2_lengthD [OF made(2)] by simp
  have dist: "distinct (map wi_workflow_id items)" unfolding ids
    using assms(2) by (simp add: distinct_map inj_on_def inj_def)
  have "set (map wi_workflow_id items) \<subseteq> range fresh" unfolding ids by auto
  then have disj: "set (map wi_workflow_id items) \<inter> wi_workflow_id ` set (queued_items jm) = {}" using assms(3) by blast
  have new: "get_workflow ?jm (wi_workflow_id i) = Inr i" if "i \<in> set items" for i
  proof -
    have "find (\<lambda>j. wi_workflow_id j = wi_workflow_id i) (rev items) = Some i"
    proof (cases "find (\<lambda>j. wi_workflow_id j = wi_workflow_id i) (rev items)")
      case None
      then show ?thesis using that by (auto simp: find_None_iff)
    next
      case (Some j)
      then have "j \<in> set items" "wi_workflow_id j = wi_workflow_id i" by (auto dest: find_Some_mem)
      then show ?thesis using Some that dist by (auto simp: distinct_map inj_on_def)
    qed
    then show ?thesis by (simp add: get_workflow_def fold_enqueue_items dict_index_def)
  qed
  have old: "get_workflow ?jm wid = get_workflow jm wid" if "wid \<notin> set (map wi_workflow_id items)" for wid
  proof -
    have "find (\<lambda>j. wi_workflow_id j = wid) (rev items) = None" using that by (auto simp: find_None_iff)
    then show ?thesis by (simp add: get_workflow_def fold_enqueue_items dict_index_def)
  qed
  have "enqueue fresh now jb jm = Inr (items, ?jm\<lparr>jm_not_empty := True\<rparr>)" using Inr by (simp add: enqueue_def)
  moreover have "\<forall>wid. wid \<notin> set (map wi_workflow_id items) \<longrightarrow> get_workflow ?jm wid = get_workflow jm wid" using old by blast
  ultimately show ?thesis
    using made(2) ids new fold_enqueue [OF assms(1) dist disj] fold_enqueue_queue [of items jm]
    by (simp add: get_workflow_def del: set_map)
qed

definition example_config :: "string \<Rightarrow> request_config" where
  "example_config user = \<lparr>cf_priority = MEDIUM, cf_user_id = user, cf_org_id = ''default'', cf_principal_id = ''p'',
     cf_optimizer_type = None, cf_hardware = None\<rparr>"

definition example_job :: "string \<Rightarrow> unit job" where
  "example_job user =
     (let slice = \<lparr>sm_public_graph_name = ''g'', sm_slice_index = 0, sm_slice_start = 0, sm_slice_length = 1,
        sm_total_length = 1, sm_template_hash = [], sm_varying_input_keys = []\<rparr>
      in \<lparr>jb_request_id = ''r'', jb_runtime_graphs = [(''g'', tiny_graph ''m'')],
          jb_data_profile_graphs = [(''g'', tiny_graph ''m'')], jb_dsl_graphs = [(''g'', ())],
          jb_workflow_slices = [(''g'', slice)], jb_config = example_config user, jb_dispatch_token = None\<rparr>)"

abbreviation example_manager :: "unit job_manager" where
  "example_manager \<equiv> new_job_manager (\<lambda>_. 5) 3 ''default''"

lemma no_queued_items [simp]: "queued_items (new_job_manager quantums limit dflt) = []"
  by (simp add: queued_items_def queued_at_def new_job_manager_def priorities_def)

theorem enqueue_correct_witness:
  "case enqueue show_nat 5 (example_job ''u'') example_manager of
     Inr (items, jm') \<Rightarrow> jm_wf jm' \<and> map wi_graph_name items = [''g''] \<and> jm_not_empty jm' | Inl e \<Rightarrow> False"
proof -
  have inj: "inj show_nat" by (simp add: inj_def show_nat_inject)
  have free: "range show_nat \<inter> wi_workflow_id ` set (queued_items example_manager) = {}" by simp
  note ok = enqueue_correct [OF new_job_manager_wf inj free, where now = 5 and jb = "example_job ''u''"]
  show ?thesis
  proof (cases "enqueue show_nat 5 (example_job ''u'') example_manager")
    case (Inl e)
    then show ?thesis using ok by (simp add: example_job_def Let_def)
  next
    case (Inr r)
    obtain items jm' where r: "r = (items, jm')" by (cases r)
    have "list_all2 (item_of_graph 5 (example_job ''u'')) [(''g'', tiny_graph ''m'')] items"
      using ok unfolding Inr r by (simp add: example_job_def Let_def)
    then have "map wi_graph_name items = [''g'']" by (auto simp: list_all2_Cons1 item_of_graph_def)
    then show ?thesis using ok unfolding Inr r by simp
  qed
qed

section \<open>The candidate pool\<close>

abbreviation offered :: "(string \<times> 'i list) list \<Rightarrow> 'i multiset" where
  "offered us \<equiv> mset (concat (map snd us))"

lemma rr_pass_ok:
  assumes "rr_pass limit us acc = (acc', us')" and "length acc < limit"
  shows "mset acc' + offered us' = mset acc + offered us" and "length acc \<le> length acc'" and "length acc' \<le> limit"
    and "length acc' = length acc \<longleftrightarrow> concat (map snd us) = []"
proof -
  have "mset acc' + offered us' = mset acc + offered us \<and> length acc \<le> length acc' \<and> length acc' \<le> limit \<and>
      (length acc' = length acc \<longleftrightarrow> concat (map snd us) = [])"
    using assms
  proof (induction limit us acc arbitrary: acc' us' rule: rr_pass.induct)
    case (2 limit u us acc)
    then show ?case by (auto split: prod.splits)
  next
    case (3 limit u i items us acc)
    show ?case
    proof (cases "length acc + 1 \<ge> limit")
      case True
      with "3.prems" show ?thesis by auto
    next
      case False
      obtain a b where ab: "rr_pass limit us (acc @ [i]) = (a, b)" by fastforce
      with "3.prems"(1) False have "acc' = a" "us' = (u, items) # b" by auto
      with "3.IH" [OF False ab] False show ?thesis by auto
    qed
  qed simp
  then show "mset acc' + offered us' = mset acc + offered us" and "length acc \<le> length acc'" and "length acc' \<le> limit"
    and "length acc' = length acc \<longleftrightarrow> concat (map snd us) = []" by blast+
qed

text \<open>With enough rounds the loop takes as many of the offered items as the limit allows.\<close>

lemma rr_loop_ok:
  assumes "length acc \<le> limit" and "limit \<le> length acc + n"
  shows "mset (rr_loop n limit us acc) \<subseteq># mset acc + offered us"
    and "length (rr_loop n limit us acc) = min limit (length acc + length (concat (map snd us)))"
proof -
  have "mset (rr_loop n limit us acc) \<subseteq># mset acc + offered us \<and>
      length (rr_loop n limit us acc) = min limit (length acc + size (offered us))"
    using assms
  proof (induction n arbitrary: us acc)
    case (Suc n)
    show ?case
    proof (cases "length acc \<ge> limit")
      case True
      with Suc.prems show ?thesis by simp
    next
      case False
      obtain acc' us' where pass: "rr_pass limit us acc = (acc', us')" by fastforce
      note ok = rr_pass_ok [OF pass]
      have len: "length acc < limit" using False by simp
      show ?thesis
      proof (cases "length acc' = length acc")
        case True
        then have none: "concat (map snd us) = []" using ok(4) [OF len] by blast
        show ?thesis using pass True False unfolding none by simp
      next
        case progress: False
        then have less: "length acc < length acc'" using ok(2) [OF len] by simp
        have "mset (rr_loop n limit us' acc') \<subseteq># mset acc' + offered us' \<and>
            length (rr_loop n limit us' acc') = min limit (length acc' + size (offered us'))"
          by (rule Suc.IH) (use ok(3) [OF len] less Suc.prems(2) in simp_all)
        moreover have "length acc' + size (offered us') = length acc + size (offered us)"
          using arg_cong [OF ok(1) [OF len], of size] by simp
        ultimately show ?thesis using ok(1) [OF len] pass progress False by (simp del: mset_concat)
      qed
    qed
  qed simp
  then show "mset (rr_loop n limit us acc) \<subseteq># mset acc + offered us"
    and "length (rr_loop n limit us acc) = min limit (length acc + length (concat (map snd us)))"
    by (simp_all only: size_mset)
qed

text \<open>On a well-formed queue the housekeeping changes nothing.\<close>

lemma prune_noop:
  assumes "queue_wf jm p"
  shows "prune_empty_user_queues p jm = jm"
proof -
  have "filter (\<lambda>(u, q). q \<noteq> []) (jm_queues jm p) = jm_queues jm p"
    using assms by (auto simp: queue_wf_def list_all_iff filter_id_conv)
  moreover have "filter (\<lambda>u. u \<in> set (dict_keys (jm_queues jm p))) (jm_rr_user_order jm p) = jm_rr_user_order jm p"
    using assms by (auto simp: queue_wf_def filter_id_conv)
  ultimately show ?thesis by (simp add: prune_empty_user_queues_def Let_def fun_upd_triv)
qed

lemma mset_map_dict_get:
  assumes "distinct us" and "distinct (dict_keys d)" and "set us = set (dict_keys d)"
  shows "mset (concat (map (\<lambda>u. filter P (dict_get d u [])) us)) = mset (filter P (concat (dict_values d)))"
proof -
  have perm: "mset us = mset (dict_keys d)" using assms by (metis set_eq_iff_mset_eq_distinct)
  have sums: "mset (concat (map f xs)) = sum_list (map (\<lambda>x. mset (f x)) xs)" for f :: "'x \<Rightarrow> 'y list" and xs
    by (induction xs) auto
  have sum_perm: "sum_list (map f xs) = sum_list (map f ys)" if "mset xs = mset ys"
    for f :: "'x \<Rightarrow> 'y multiset" and xs ys
    using that by (metis mset_map sum_mset_sum_list)
  have vals: "map (\<lambda>u. filter P (dict_get d u [])) (dict_keys d) = map (filter P) (dict_values d)"
  proof -
    have "dict_get d (fst kv) [] = snd kv" if "kv \<in> set d" for kv
      using map_of_is_SomeI [OF assms(2), of "fst kv" "snd kv"] that by (simp add: dict_get_def)
    then show ?thesis by simp
  qed
  have "mset (concat (map (\<lambda>u. filter P (dict_get d u [])) us)) =
      mset (concat (map (\<lambda>u. filter P (dict_get d u [])) (dict_keys d)))"
    unfolding sums by (rule sum_perm [OF perm])
  also have "\<dots> = mset (filter P (concat (dict_values d)))" unfolding vals by (simp add: filter_concat)
  finally show ?thesis .
qed

definition of_partition :: "'d job_manager \<Rightarrow> partition_key \<Rightarrow> priority \<Rightarrow> 'd workflow_item list" where
  "of_partition jm key p = filter (\<lambda>i. item_partition jm i = key) (queued_at jm p)"

lemma concat_filter_nonempty: "concat (map snd (filter (\<lambda>(u, items). items \<noteq> []) us)) = concat (map snd us)"
  by (induction us) auto

lemma peek_ok:
  assumes "queue_wf jm p"
  shows "\<exists>cands adv. peek_round_robin p limit key jm = ((cands, adv), jm) \<and>
    mset cands \<subseteq># mset (of_partition jm key p) \<and> length cands = min limit (length (of_partition jm key p))"
proof (cases "limit = 0")
  case True
  then show ?thesis by (intro exI [of _ "[]"] exI [of _ False]) (simp add: peek_round_robin_def)
next
  case False
  let ?get = "\<lambda>u. filter (\<lambda>i. item_partition jm i = key) (dict_get (jm_queues jm p) u [])"
  define us where "us = map (\<lambda>u. (u, ?get u)) (jm_rr_user_order jm p)"
  define ordered where "ordered = filter (\<lambda>(u, items). items \<noteq> []) us"
  have total: "offered ordered = mset (of_partition jm key p)"
  proof -
    have "offered ordered = mset (concat (map ?get (jm_rr_user_order jm p)))"
      unfolding ordered_def concat_filter_nonempty us_def by (simp add: o_def)
    also have "\<dots> = mset (of_partition jm key p)"
      unfolding of_partition_def queued_at_def
      by (rule mset_map_dict_get) (use assms in \<open>simp_all add: queue_wf_def\<close>)
    finally show ?thesis .
  qed
  then have len: "length (concat (map snd ordered)) = length (of_partition jm key p)" by (metis size_mset)
  have run: "peek_round_robin p limit key jm = (if ordered = [] then (([], False), jm)
      else ((rr_loop limit limit ordered [], length (jm_rr_user_order jm p) > 1), jm))"
    using False by (simp only: peek_round_robin_def prune_noop [OF assms] Let_def us_def ordered_def if_False)
  show ?thesis
  proof (cases "ordered = []")
    case True
    then show ?thesis using run len by (intro exI [of _ "[]"] exI [of _ False]) simp
  next
    case nonempty: False
    note loop = rr_loop_ok [of "[]" limit limit ordered]
    show ?thesis
      using run nonempty loop(2) len loop(1) unfolding total by (simp del: mset_concat)
  qed
qed


definition quantum :: "'d job_manager \<Rightarrow> priority \<Rightarrow> nat" where
  "quantum jm p = nat (max 0 (jm_quantums jm p))"

lemma pool_step_ok:
  assumes "queue_wf jm p"
  shows "\<exists>cands' advs'. pool_step key p (cands, advs, jm) = (cands @ cands', advs', jm) \<and>
    mset cands' \<subseteq># mset (of_partition jm key p) \<and> length cands' = min (quantum jm p) (length (of_partition jm key p))"
proof (cases "quantum jm p = 0")
  case True
  then show ?thesis by (intro exI [of _ "[]"] exI [of _ advs]) (simp add: pool_step_def quantum_def)
next
  case False
  from peek_ok [OF assms, of "quantum jm p" key] obtain cands' adv where
    peek: "peek_round_robin p (quantum jm p) key jm = ((cands', adv), jm)" and
    facts: "mset cands' \<subseteq># mset (of_partition jm key p)" "length cands' = min (quantum jm p) (length (of_partition jm key p))"
    by blast
  show ?thesis using False peek facts unfolding quantum_def pool_step_def by simp
qed

text \<open>
  The pool takes up to a quantum of items from every priority, all of the given partition, and
  leaves a well-formed manager as it was.
\<close>

lemma build_candidate_pool_ok:
  assumes "jm_wf jm"
  shows "\<exists>cands advs. build_candidate_pool key jm = (cands, advs, jm) \<and>
    mset cands \<subseteq># mset (filter (\<lambda>i. item_partition jm i = key) (queued_items jm)) \<and>
    length cands = sum_list (map (\<lambda>p. min (quantum jm p) (length (of_partition jm key p))) priorities)"
proof -
  obtain c1 a1 where 1: "pool_step key HIGH ([], [], jm) = ([] @ c1, a1, jm)" "mset c1 \<subseteq># mset (of_partition jm key HIGH)"
    "length c1 = min (quantum jm HIGH) (length (of_partition jm key HIGH))"
    using pool_step_ok [OF jm_wfD(1) [OF assms]] by blast
  obtain c2 a2 where 2: "pool_step key MEDIUM ([] @ c1, a1, jm) = (([] @ c1) @ c2, a2, jm)"
    "mset c2 \<subseteq># mset (of_partition jm key MEDIUM)" "length c2 = min (quantum jm MEDIUM) (length (of_partition jm key MEDIUM))"
    using pool_step_ok [OF jm_wfD(1) [OF assms]] by blast
  obtain c3 a3 where 3: "pool_step key LOW (([] @ c1) @ c2, a2, jm) = ((([] @ c1) @ c2) @ c3, a3, jm)"
    "mset c3 \<subseteq># mset (of_partition jm key LOW)" "length c3 = min (quantum jm LOW) (length (of_partition jm key LOW))"
    using pool_step_ok [OF jm_wfD(1) [OF assms]] by blast
  have "build_candidate_pool key jm = (c1 @ c2 @ c3, a3, jm)"
    using 1(1) 2(1) 3(1) by (simp add: build_candidate_pool_def priorities_def)
  moreover have "mset (c1 @ c2 @ c3) \<subseteq># mset (filter (\<lambda>i. item_partition jm i = key) (queued_items jm))"
    using 1(2) 2(2) 3(2) by (simp add: queued_items_def priorities_def of_partition_def subset_mset.add_mono)
  ultimately show ?thesis using 1(3) 2(3) 3(3) by (simp add: priorities_def)
qed

lemma set_present_partitions: "set (present_partitions jm) = item_partition jm ` set (queued_items jm)"
  by (simp add: present_partitions_def set_dedupe_into)

lemma choose_partition_ok:
  assumes "jm_wf jm" and "queued_items jm \<noteq> []"
  shows "choose_partition (present_partitions jm) jm = (hd (jm_rr_partition_order jm), jm)"
    and "hd (jm_rr_partition_order jm) \<in> set (present_partitions jm)"
proof -
  note wf = jm_wfD [OF assms(1)]
  from wf(5) assms(2) obtain key order where order: "jm_rr_partition_order jm = key # order"
    by (cases "jm_rr_partition_order jm") auto
  then have key: "key \<in> set (present_partitions jm)" using wf(5) by (auto simp: set_present_partitions)
  then show "hd (jm_rr_partition_order jm) \<in> set (present_partitions jm)" by (simp add: order)
  have same: "jm\<lparr>jm_rr_partition_order := key # order\<rparr> = jm" using order by (metis job_manager.surjective job_manager.update_convs(6) job_manager.select_convs(6))
  show "choose_partition (present_partitions jm) jm = (hd (jm_rr_partition_order jm), jm)"
    using key by (simp add: choose_partition_def order same)
qed

lemma present_nonempty: "present_partitions jm = [] \<longleftrightarrow> queued_items jm = []"
  using set_present_partitions [of jm] by auto

lemma anchor_partition_ok:
  assumes "jm_wf jm" and "queued_items jm \<noteq> []"
  shows "\<exists>key advance. anchor_partition jm = ((key, advance), jm) \<and> key \<in> set (present_partitions jm) \<and>
    (filter (is_starved jm) (queued_items jm) = [] \<longrightarrow> key = hd (jm_rr_partition_order jm) \<and> advance = Some key) \<and>
    (\<forall>i rest. filter (is_starved jm) (queued_items jm) = i # rest \<longrightarrow> key = item_partition jm i \<and> advance = None)"
proof (cases "filter (is_starved jm) (queued_items jm)")
  case Nil
  then show ?thesis using choose_partition_ok [OF assms] by (simp add: anchor_partition_def)
next
  case (Cons i rest)
  then have "i \<in> set (filter (is_starved jm) (queued_items jm))" by simp
  then have "i \<in> set (queued_items jm)" by simp
  then show ?thesis using Cons by (simp add: anchor_partition_def set_present_partitions)
qed


section \<open>The selection policies\<close>

lemma add_missing_ok:
  assumes "distinct sel" and "length sel \<le> n"
  shows "\<exists>more. add_missing n wids sel = sel @ more \<and> set more \<subseteq> set wids \<and> distinct (sel @ more) \<and>
    length (sel @ more) \<le> n \<and> (length (sel @ more) < n \<longrightarrow> set wids \<subseteq> set (sel @ more))"
  using assms
proof (induction wids arbitrary: sel)
  case (Cons w wids)
  show ?case
  proof (cases "w \<notin> set sel \<and> length sel < n")
    case True
    then have "\<exists>more. add_missing n wids (sel @ [w]) = (sel @ [w]) @ more \<and> set more \<subseteq> set wids \<and> distinct ((sel @ [w]) @ more) \<and>
        length ((sel @ [w]) @ more) \<le> n \<and> (length ((sel @ [w]) @ more) < n \<longrightarrow> set wids \<subseteq> set ((sel @ [w]) @ more))"
      using Cons.prems by (intro Cons.IH) auto
    then obtain more where m: "add_missing n wids (sel @ [w]) = (sel @ [w]) @ more" "set more \<subseteq> set wids" "distinct ((sel @ [w]) @ more)"
      "length ((sel @ [w]) @ more) \<le> n" "length ((sel @ [w]) @ more) < n \<longrightarrow> set wids \<subseteq> set ((sel @ [w]) @ more)" by blast
    have "add_missing n (w # wids) sel = add_missing n wids (sel @ [w])" using True by (simp add: add_missing_def)
    with m show ?thesis by (intro exI [of _ "w # more"]) auto
  next
    case False
    have "add_missing n (w # wids) sel = add_missing n wids sel"
      unfolding add_missing_def fold_Cons o_def if_not_P [OF False] ..
    moreover obtain more where m: "add_missing n wids sel = sel @ more" "set more \<subseteq> set wids" "distinct (sel @ more)"
      "length (sel @ more) \<le> n" "length (sel @ more) < n \<longrightarrow> set wids \<subseteq> set (sel @ more)"
      using Cons.IH [OF Cons.prems] by blast
    moreover have "length (sel @ more) < n \<longrightarrow> w \<in> set sel" using False by auto
    ultimately show ?thesis by (intro exI [of _ more]) auto
  qed
qed (simp add: add_missing_def)

definition full_batch :: "nat \<Rightarrow> 'd workflow_item list \<Rightarrow> string list \<Rightarrow> bool" where
  "full_batch n cands ids \<longleftrightarrow>
     distinct ids \<and> set ids \<subseteq> wi_workflow_id ` set cands \<and> length ids = min n (length cands)"

lemma full_batchI:
  assumes "distinct (map wi_workflow_id cands)" and "distinct ids" and "set ids \<subseteq> wi_workflow_id ` set cands"
    and "length ids \<le> n" and "length ids < n \<Longrightarrow> wi_workflow_id ` set cands \<subseteq> set ids"
  shows "full_batch n cands ids"
proof -
  have "length cands = card (wi_workflow_id ` set cands)" using distinct_card [OF assms(1)] by simp
  moreover have "card (set ids) = length ids" by (rule distinct_card [OF assms(2)])
  moreover have "card (set ids) \<le> card (wi_workflow_id ` set cands)" using assms(3) by (intro card_mono) auto
  moreover have "card (wi_workflow_id ` set cands) \<le> card (set ids)" if "length ids < n"
    using assms(5) [OF that] by (intro card_mono) auto
  ultimately show ?thesis using assms(2-4) unfolding full_batch_def by force
qed

definition starved_ids :: "'d job_manager \<Rightarrow> 'd workflow_item list \<Rightarrow> string set" where
  "starved_ids jm cands = wi_workflow_id ` {i \<in> set cands. is_starved jm i}"

lemma oldest_first_ok:
  assumes "distinct (map wi_workflow_id cands)"
  shows "distinct (oldest_first (filter (is_starved jm) cands))"
    and "set (oldest_first (filter (is_starved jm) cands)) = starved_ids jm cands"
proof -
  have "distinct (map wi_workflow_id (filter (is_starved jm) cands))"
    using assms by (simp add: distinct_map_filter)
  moreover have "mset (oldest_first (filter (is_starved jm) cands)) = mset (map wi_workflow_id (filter (is_starved jm) cands))"
    by (simp add: oldest_first_def)
  ultimately show "distinct (oldest_first (filter (is_starved jm) cands))" by (metis mset_eq_imp_distinct_iff)
  show "set (oldest_first (filter (is_starved jm) cands)) = starved_ids jm cands"
    by (auto simp: oldest_first_def starved_ids_def)
qed

lemma starvation_policy_ok:
  fixes jm :: "'d job_manager"
  assumes dist: "distinct (map wi_workflow_id cands)" and base: "full_batch n cands base"
  defines "r \<equiv> apply_starvation_policy jm cands base n"
  shows "full_batch n cands r" and "starved_ids jm cands = {} \<Longrightarrow> r = base"
    and "starved_ids jm cands \<subseteq> set r \<or> set r \<subseteq> starved_ids jm cands"
proof -
  let ?starved = "filter (is_starved jm) cands"
  have base_ok: "distinct base" "set base \<subseteq> wi_workflow_id ` set cands" "length base = min n (length cands)"
    using base by (auto simp: full_batch_def)
  note old = oldest_first_ok [OF dist, of jm]
  have empty: "starved_ids jm cands = {} \<longleftrightarrow> ?starved = []" by (auto simp: starved_ids_def filter_empty_conv)
  then show "starved_ids jm cands = {} \<Longrightarrow> r = base" using base_ok(3) by (simp add: r_def apply_starvation_policy_def)
  have sub: "starved_ids jm cands \<subseteq> wi_workflow_id ` set cands" by (auto simp: starved_ids_def)
  have "full_batch n cands r \<and> (starved_ids jm cands \<subseteq> set r \<or> set r \<subseteq> starved_ids jm cands)"
  proof (cases "?starved = []")
    case True
    then show ?thesis using base base_ok(3) empty by (simp add: r_def apply_starvation_policy_def)
  next
    case starved: False
    let ?old = "oldest_first ?starved"
    show ?thesis
    proof (cases "length ?old \<ge> n")
      case True
      then have r: "r = take n ?old" using starved by (simp add: r_def apply_starvation_policy_def Let_def)
      have "set r \<subseteq> starved_ids jm cands" unfolding r old(2) [symmetric] by (rule set_take_subset)
      moreover have "full_batch n cands r"
        by (rule full_batchI [OF dist]) (use True old calculation sub r in \<open>auto simp: distinct_take\<close>)
      ultimately show ?thesis by blast
    next
      case False
      then have len: "length ?old \<le> n" by simp
      obtain m1 where m1: "add_missing n base ?old = ?old @ m1" "set m1 \<subseteq> set base" "distinct (?old @ m1)" "length (?old @ m1) \<le> n"
        using add_missing_ok [OF old(1) len, of base] by blast
      obtain m2 where m2: "add_missing n (map wi_workflow_id cands) (?old @ m1) = (?old @ m1) @ m2" "set m2 \<subseteq> wi_workflow_id ` set cands"
        "distinct ((?old @ m1) @ m2)" "length ((?old @ m1) @ m2) \<le> n"
        "length ((?old @ m1) @ m2) < n \<longrightarrow> wi_workflow_id ` set cands \<subseteq> set ((?old @ m1) @ m2)"
        using add_missing_ok [OF m1(3,4), of "map wi_workflow_id cands"] unfolding set_map by blast
      have r: "r = (if length (?old @ m1) < n then (?old @ m1) @ m2 else ?old @ m1)"
        using False starved m1(1) m2(1) by (simp add: r_def apply_starvation_policy_def Let_def)
      have "full_batch n cands r"
      proof (cases "length (?old @ m1) < n")
        case True
        show ?thesis unfolding r if_P [OF True]
          by (rule full_batchI [OF dist m2(3)]) (use m1(2) m2 old(2) sub base_ok(2) in auto)
      next
        case False
        show ?thesis unfolding r if_not_P [OF False]
          by (rule full_batchI [OF dist m1(3)]) (use False m1 old(2) sub base_ok(2) in auto)
      qed
      moreover have "starved_ids jm cands \<subseteq> set r" using old(2) by (auto simp: r)
      ultimately show ?thesis by blast
    qed
  qed
  then show "full_batch n cands r" "starved_ids jm cands \<subseteq> set r \<or> set r \<subseteq> starved_ids jm cands" by simp_all
qed

section \<open>User fairness\<close>

lemma user_to_ids_ok:
  "distinct (dict_keys (user_to_ids cs)) \<and>
   map_of (user_to_ids cs) u = (if u \<in> queue_owner_id ` set cs
     then Some (map wi_workflow_id (filter (\<lambda>i. queue_owner_id i = u) cs)) else None)"
proof (induction cs arbitrary: u rule: rev_induct)
  case (snoc c cs)
  have step: "user_to_ids (cs @ [c]) =
      AList.update (queue_owner_id c) (dict_get (user_to_ids cs) (queue_owner_id c) [] @ [wi_workflow_id c]) (user_to_ids cs)"
    by (simp add: user_to_ids_def)
  have none: "filter (\<lambda>i. queue_owner_id i = queue_owner_id c) cs = []" if "queue_owner_id c \<notin> queue_owner_id ` set cs"
    using that by (metis (mono_tags, lifting) filter_False image_eqI)
  show ?case
    using snoc [of u] snoc [of "queue_owner_id c"] none
    by (auto simp: step map_of_update dict_get_def)
qed (simp add: user_to_ids_def)

lemma user_to_ids_mem:
  assumes "(u, ids) \<in> set (user_to_ids cs)"
  shows "ids = map wi_workflow_id (filter (\<lambda>i. queue_owner_id i = u) cs)" and "ids \<noteq> []"
proof -
  have "map_of (user_to_ids cs) u = Some ids"
    using assms user_to_ids_ok by (metis map_of_is_SomeI)
  then have "u \<in> queue_owner_id ` set cs" and ids: "ids = map wi_workflow_id (filter (\<lambda>i. queue_owner_id i = u) cs)"
    using user_to_ids_ok [of cs u] by (simp_all split: if_splits)
  then show "ids \<noteq> []" "ids = map wi_workflow_id (filter (\<lambda>i. queue_owner_id i = u) cs)"
    by (auto simp: filter_empty_conv)
qed

lemma user_to_ids_keys: "set (dict_keys (user_to_ids cs)) = queue_owner_id ` set cs"
proof -
  have "u \<in> set (dict_keys (user_to_ids cs)) \<longleftrightarrow> map_of (user_to_ids cs) u \<noteq> None" for u
    by (metis map_of_eq_None_iff set_map)
  then show ?thesis using user_to_ids_ok [of cs]
    by (intro set_eqI) (metis (no_types, lifting) option.distinct(1))
qed

lemma user_pick_in: "ids \<noteq> [] \<Longrightarrow> user_pick sel ids \<in> set ids"
  by (auto simp: user_pick_def dest: find_Some_mem split: option.split)

lemma seed_users_take:
  assumes "distinct (acc @ map (\<lambda>(u, ids). user_pick sel ids) users)" and "length acc < n"
  shows "seed_users n sel users acc = take n (acc @ map (\<lambda>(u, ids). user_pick sel ids) users)"
  using assms
proof (induction users arbitrary: acc)
  case (Cons x users)
  obtain u ids where x: "x = (u, ids)" by (cases x)
  have new: "user_pick sel ids \<notin> set acc" using Cons.prems(1) by (auto simp: x)
  show ?case
  proof (cases "length acc + 1 \<ge> n")
    case True
    then have "n = Suc (length acc)" using Cons.prems(2) by simp
    then show ?thesis using new by (simp add: x)
  next
    case False
    have "seed_users n sel users (acc @ [user_pick sel ids]) =
        take n ((acc @ [user_pick sel ids]) @ map (\<lambda>(u, ids). user_pick sel ids) users)"
      by (rule Cons.IH) (use Cons.prems(1) False in \<open>auto simp: x\<close>)
    then show ?thesis using new False by (simp add: x Let_def)
  qed
qed simp

lemma fill_until_ok:
  assumes "distinct acc" and "length acc < n"
  shows "\<exists>more. fill_until n ws acc = acc @ more \<and> set more \<subseteq> set ws \<and> distinct (acc @ more) \<and>
    length (acc @ more) \<le> n \<and> (length (acc @ more) < n \<longrightarrow> set ws \<subseteq> set (acc @ more))"
  using assms
proof (induction ws arbitrary: acc)
  case (Cons w ws)
  show ?case
  proof (cases "w \<in> set acc")
    case True
    then show ?thesis using Cons.IH [OF Cons.prems] by auto
  next
    case new: False
    show ?thesis
    proof (cases "length acc + 1 \<ge> n")
      case True
      then show ?thesis using new Cons.prems by (intro exI [of _ "[w]"]) auto
    next
      case False
      then obtain more where "fill_until n ws (acc @ [w]) = (acc @ [w]) @ more" "set more \<subseteq> set ws"
        "distinct ((acc @ [w]) @ more)" "length ((acc @ [w]) @ more) \<le> n"
        "length ((acc @ [w]) @ more) < n \<longrightarrow> set ws \<subseteq> set ((acc @ [w]) @ more)"
        using Cons.IH [of "acc @ [w]"] Cons.prems new by auto
      then show ?thesis using new False by (intro exI [of _ "w # more"]) auto
    qed
  qed
qed simp

text \<open>
  Every user has an item in the batch if there is room for all; otherwise no user has two.
\<close>

definition fair_batch :: "nat \<Rightarrow> 'd workflow_item list \<Rightarrow> string list \<Rightarrow> bool" where
  "fair_batch n cands ids \<longleftrightarrow>
     (if card (queue_owner_id ` set cands) \<le> n
      then list_all (\<lambda>i. list_ex (\<lambda>j. queue_owner_id j = queue_owner_id i \<and> wi_workflow_id j \<in> set ids) cands) cands
      else list_all (\<lambda>i. list_all (\<lambda>j. wi_workflow_id i \<in> set ids \<and> wi_workflow_id j \<in> set ids \<and>
             queue_owner_id i = queue_owner_id j \<longrightarrow> wi_workflow_id i = wi_workflow_id j) cands) cands)"

abbreviation picks :: "string list \<Rightarrow> 'd workflow_item list \<Rightarrow> string list" where
  "picks sel cands \<equiv> map (\<lambda>(u, ids). user_pick sel ids) (user_to_ids cands)"

lemma picks_ok:
  assumes "distinct (map wi_workflow_id cands)"
  shows "distinct (picks sel cands)" and "length (picks sel cands) = card (queue_owner_id ` set cands)"
    and "set (picks sel cands) \<subseteq> wi_workflow_id ` set cands"
    and "i \<in> set cands \<Longrightarrow> \<exists>j \<in> set cands. queue_owner_id j = queue_owner_id i \<and> wi_workflow_id j \<in> set (picks sel cands)"
    and "i \<in> set cands \<Longrightarrow> j \<in> set cands \<Longrightarrow> wi_workflow_id i \<in> set (picks sel cands) \<Longrightarrow>
      wi_workflow_id j \<in> set (picks sel cands) \<Longrightarrow> queue_owner_id i = queue_owner_id j \<Longrightarrow> wi_workflow_id i = wi_workflow_id j"
proof -
  have keys: "distinct (dict_keys (user_to_ids cands))" using user_to_ids_ok by blast
  have pick: "\<exists>j \<in> set cands. queue_owner_id j = u \<and> wi_workflow_id j = user_pick sel ids"
    if "(u, ids) \<in> set (user_to_ids cands)" for u ids
  proof -
    from user_pick_in [OF user_to_ids_mem(2) [OF that]] have "user_pick sel ids \<in> set ids" .
    then have "user_pick sel ids \<in> wi_workflow_id ` {i \<in> set cands. queue_owner_id i = u}"
      using user_to_ids_mem(1) [OF that] by simp
    then show ?thesis by auto
  qed
  have same: "i = j" if "i \<in> set cands" "j \<in> set cands" "wi_workflow_id i = wi_workflow_id j" for i j
    using assms that by (auto simp: distinct_map inj_on_def)
  have uniq: "ids = jds" if "(u, ids) \<in> set (user_to_ids cands)" "(u, jds) \<in> set (user_to_ids cands)" for u ids jds
    using user_to_ids_mem(1) [OF that(1)] user_to_ids_mem(1) [OF that(2)] by simp
  have inj: "inj_on (\<lambda>(u, ids). user_pick sel ids) (set (user_to_ids cands))"
  proof (rule inj_onI, clarify)
    fix u ids v jds
    assume mem: "(u, ids) \<in> set (user_to_ids cands)" "(v, jds) \<in> set (user_to_ids cands)" "user_pick sel ids = user_pick sel jds"
    from pick [OF mem(1)] pick [OF mem(2)] mem(3) same have "u = v" by metis
    with uniq mem show "u = v \<and> ids = jds" by blast
  qed
  have dist: "distinct (user_to_ids cands)" using keys by (simp add: distinct_map)
  then show "distinct (picks sel cands)" using inj by (simp add: distinct_map)
  show "length (picks sel cands) = card (queue_owner_id ` set cands)"
    using distinct_card [OF keys] user_to_ids_keys [of cands] by simp
  show "set (picks sel cands) \<subseteq> wi_workflow_id ` set cands"
  proof
    fix w assume "w \<in> set (picks sel cands)"
    then obtain u ids where "(u, ids) \<in> set (user_to_ids cands)" "w = user_pick sel ids" by auto
    with pick [OF this(1)] show "w \<in> wi_workflow_id ` set cands" by (metis image_eqI)
  qed
  show "\<exists>j \<in> set cands. queue_owner_id j = queue_owner_id i \<and> wi_workflow_id j \<in> set (picks sel cands)" if "i \<in> set cands"
  proof -
    have "queue_owner_id i \<in> set (dict_keys (user_to_ids cands))" using that user_to_ids_keys by blast
    then obtain ids where ids: "(queue_owner_id i, ids) \<in> set (user_to_ids cands)" by auto
    from pick [OF this] obtain j where "j \<in> set cands" "queue_owner_id j = queue_owner_id i" "wi_workflow_id j = user_pick sel ids" by blast
    moreover have "user_pick sel ids \<in> set (picks sel cands)" using ids by force
    ultimately show ?thesis by metis
  qed
  show "wi_workflow_id i = wi_workflow_id j" if "i \<in> set cands" "j \<in> set cands" "wi_workflow_id i \<in> set (picks sel cands)"
    "wi_workflow_id j \<in> set (picks sel cands)" "queue_owner_id i = queue_owner_id j"
  proof -
    have "\<exists>ids. (queue_owner_id k, ids) \<in> set (user_to_ids cands) \<and> wi_workflow_id k = user_pick sel ids"
      if "k \<in> set cands" "wi_workflow_id k \<in> set (picks sel cands)" for k
    proof -
      from that(2) obtain u ids where "(u, ids) \<in> set (user_to_ids cands)" "wi_workflow_id k = user_pick sel ids" by auto
      with pick [OF this(1)] same that(1) show ?thesis by metis
    qed
    from this [OF that(1,3)] this [OF that(2,4)] that(5) uniq show ?thesis by metis
  qed
qed

lemma user_fairness_ok:
  assumes dist: "distinct (map wi_workflow_id cands)" and sel: "full_batch n cands sel" and "1 \<le> n" and "cands \<noteq> []"
  shows "full_batch n cands (apply_user_fairness cands sel n)" and "fair_batch n cands (apply_user_fairness cands sel n)"
proof -
  let ?r = "apply_user_fairness cands sel n" and ?owners = "queue_owner_id ` set cands"
  note pk = picks_ok [OF dist, where sel = sel]
  have s: "distinct sel" "set sel \<subseteq> wi_workflow_id ` set cands" "length sel = min n (length cands)" "sel \<noteq> []"
    using sel assms(3,4) by (auto simp: full_batch_def min_def split: if_splits)
  have keep: "filter (\<lambda>w. w \<in> wi_workflow_id ` set cands) sel = sel" using s(2) by (auto simp: filter_id_conv)
  have users: "length (user_to_ids cands) = card ?owners" using pk(2) by simp
  from s(2,4) obtain j where j: "j \<in> set cands" "wi_workflow_id j \<in> set sel" by (cases sel) auto
  have one: "fair_batch n cands sel" if "card ?owners = 1"
  proof -
    from that obtain u where u: "?owners = {u}" by (auto simp: card_1_singleton_iff)
    then have "queue_owner_id i = u" if "i \<in> set cands" for i using that by blast
    then show ?thesis using that assms(3) j by (force simp: fair_batch_def list_all_iff list_ex_iff)
  qed
  have pos: "card ?owners > 0" using assms(4) by (simp add: card_gt_0_iff)
  have "full_batch n cands ?r \<and> fair_batch n cands ?r"
  proof (cases "n \<le> 1")
    case True
    then have n: "n = 1" using assms(3) by simp
    have r: "?r = sel" using True s(3) by (simp add: apply_user_fairness_def)
    have "length sel = 1" using s(3,4) n by (cases sel) auto
    then obtain w where w: "sel = [w]" by (auto simp: length_Suc_conv)
    have "fair_batch n cands sel" if "card ?owners \<noteq> 1"
      using that pos n by (auto simp: fair_batch_def w list_all_iff)
    with r sel one show ?thesis by metis
  next
    case n: False
    show ?thesis
    proof (cases "card ?owners \<le> 1")
      case True
      then have "?r = sel" using n keep s(3,4) users by (simp add: apply_user_fairness_def)
      moreover have "card ?owners = 1" using True pos by linarith
      ultimately show ?thesis using one sel by simp
    next
      case many: False
      have seed: "seed_users n sel (user_to_ids cands) [] = take n (picks sel cands)"
        using seed_users_take [of "[]" sel "user_to_ids cands" n] pk(1) n by simp
      have r: "?r = (if length (take n (picks sel cands)) \<ge> n then take n (picks sel cands)
          else let final = fill_until n sel (take n (picks sel cands))
            in if length final \<ge> n then take n final else take n (fill_until n (map wi_workflow_id cands) final))"
        using n many keep s(4) users seed by (simp add: apply_user_fairness_def Let_def)
      show ?thesis
      proof (cases "card ?owners \<ge> n")
        case True
        then have len: "length (take n (picks sel cands)) = n" using pk(2) by simp
        have rr: "?r = take n (picks sel cands)" unfolding r len by simp
        have sub: "set (take n (picks sel cands)) \<subseteq> set (picks sel cands)" by (rule set_take_subset)
        have "full_batch n cands ?r" unfolding rr
          by (rule full_batchI [OF dist]) (use pk(1,3) len sub in \<open>auto simp: distinct_take\<close>)
        moreover have "fair_batch n cands ?r"
        proof (cases "card ?owners = n")
          case True
          then have "take n (picks sel cands) = picks sel cands" using pk(2) by simp
          then show ?thesis using True pk(4) by (auto simp: rr fair_batch_def list_all_iff list_ex_iff)
        next
          case False
          then have "\<not> card ?owners \<le> n" using \<open>card ?owners \<ge> n\<close> by simp
          moreover have "wi_workflow_id i = wi_workflow_id j" if "i \<in> set cands" "j \<in> set cands"
            "wi_workflow_id i \<in> set (take n (picks sel cands))" "wi_workflow_id j \<in> set (take n (picks sel cands))"
            "queue_owner_id i = queue_owner_id j" for i j
            using pk(5) [OF that(1,2) subsetD [OF sub that(3)] subsetD [OF sub that(4)] that(5)] .
          ultimately show ?thesis unfolding rr fair_batch_def list_all_iff by simp
        qed
        ultimately show ?thesis by blast
      next
        case False
        then have all: "take n (picks sel cands) = picks sel cands" and less: "length (picks sel cands) < n" using pk(2) by simp_all
        obtain m1 where m1: "fill_until n sel (picks sel cands) = picks sel cands @ m1" "set m1 \<subseteq> set sel"
          "distinct (picks sel cands @ m1)" "length (picks sel cands @ m1) \<le> n"
          using fill_until_ok [OF pk(1) less, of sel] by blast
        have "\<exists>more. ?r = picks sel cands @ more \<and> full_batch n cands (picks sel cands @ more)"
        proof (cases "length (picks sel cands @ m1) \<ge> n")
          case True
          have "full_batch n cands (picks sel cands @ m1)"
            by (rule full_batchI [OF dist m1(3)]) (use True m1 pk(3) s(2) in auto)
          moreover have "?r = picks sel cands @ m1"
            using r less all m1(1,4) True by (simp add: Let_def)
          ultimately show ?thesis by blast
        next
          case lt: False
          then have lt': "length (picks sel cands @ m1) < n" by simp
          obtain m2 where m2: "fill_until n (map wi_workflow_id cands) (picks sel cands @ m1) = (picks sel cands @ m1) @ m2"
            "set m2 \<subseteq> wi_workflow_id ` set cands" "distinct ((picks sel cands @ m1) @ m2)"
            "length ((picks sel cands @ m1) @ m2) \<le> n"
            "length ((picks sel cands @ m1) @ m2) < n \<longrightarrow> wi_workflow_id ` set cands \<subseteq> set ((picks sel cands @ m1) @ m2)"
            using fill_until_ok [OF m1(3) lt', of "map wi_workflow_id cands"] unfolding set_map by blast
          have "full_batch n cands ((picks sel cands @ m1) @ m2)"
            by (rule full_batchI [OF dist m2(3)]) (use m1 m2 pk(3) s(2) in auto)
          moreover have "?r = picks sel cands @ m1 @ m2"
            using r less all m1(1) m2(1,4) lt by (simp add: Let_def)
          ultimately show ?thesis by auto
        qed
        then obtain more where more: "?r = picks sel cands @ more" "full_batch n cands (picks sel cands @ more)" by blast
        have "fair_batch n cands ?r"
          using False pk(4) unfolding more(1) by (fastforce simp: fair_batch_def list_all_iff list_ex_iff)
        with more show ?thesis by simp
      qed
    qed
  qed
  then show "full_batch n cands ?r" "fair_batch n cands ?r" by simp_all
qed

section \<open>Reserving a batch\<close>

lemma distinct_submset:
  assumes "mset xs \<subseteq># mset ys" and "distinct ys"
  shows "distinct xs"
proof -
  obtain M where "mset ys = mset xs + M" using assms(1) by (auto simp: mset_subset_eq_exists_conv)
  moreover obtain zs where "M = mset zs" by (metis ex_mset)
  ultimately have "mset ys = mset (xs @ zs)" by simp
  then have "distinct (xs @ zs)" using assms(2) mset_eq_imp_distinct_iff by blast
  then show ?thesis by simp
qed

text \<open>What the queue relies on when it asks for a batch among its candidates.\<close>

locale affinity_selector =
  fixes select :: selector
  assumes select_good: "distinct (dict_keys graphs) \<Longrightarrow> timed enq (dict_keys graphs) \<Longrightarrow>
    \<exists>ids. select graphs enq batch_size pinned = Inr ids \<and>
      good_batch (nat (max 1 batch_size)) (dict_keys graphs) (normalized_pins (dict_keys graphs) pinned) ids"

lemma make_selection_ok:
  assumes dist: "distinct (map wi_workflow_id cands)" and sub: "set ids \<subseteq> wi_workflow_id ` set cands" and "ids \<noteq> []" and "distinct ids"
  shows "\<exists>sel. make_selection cands ids = Inr sel \<and> map wi_workflow_id (bs_workflows sel) = ids \<and>
    set (bs_workflows sel) \<subseteq> set cands \<and> bs_workflows sel \<noteq> [] \<and> bs_config sel = wi_config (hd (bs_workflows sel)) \<and>
    bs_runtime_graphs sel = map (\<lambda>i. (wi_workflow_id i, wi_runtime_graph i)) (bs_workflows sel) \<and>
    bs_data_profile_graphs sel = map (\<lambda>i. (wi_workflow_id i, wi_data_profile_graph i)) (bs_workflows sel)"
proof -
  let ?d = "map (\<lambda>i. (wi_workflow_id i, i)) cands"
  have keys: "dict_keys ?d = map wi_workflow_id cands" by (simp add: o_def)
  have d: "dict_of ?d = ?d" using dist keys by (metis dict_of_distinct_id)
  define f where "f = (\<lambda>w. the (map_of ?d w))"
  have f: "map_of ?d w = Some (f w) \<and> f w \<in> set cands \<and> wi_workflow_id (f w) = w" if "w \<in> set ids" for w
  proof -
    from that sub obtain i where i: "i \<in> set cands" "wi_workflow_id i = w" by auto
    then have "map_of ?d w = Some i" using dist keys by (metis (no_types, lifting) map_of_is_SomeI image_eqI list.set_map)
    with i show ?thesis by (simp add: f_def)
  qed
  have run: "emap (dict_index (dict_of ?d)) ids = Inr (map f ids)"
    unfolding d by (rule emap_cong_Inr) (use f in \<open>simp add: dict_index_def\<close>)
  have ids: "map wi_workflow_id (map f ids) = ids" using f by (simp add: map_idI)
  have sub': "set (map f ids) \<subseteq> set cands" using f by auto
  have dict: "dict_of (map (\<lambda>i. (wi_workflow_id i, h i)) (map f ids)) = map (\<lambda>i. (wi_workflow_id i, h i)) (map f ids)"
    for h :: "'a workflow_item \<Rightarrow> runtime_graph"
    by (rule dict_of_distinct_id) (use ids assms(4) in \<open>simp add: o_def\<close>)
  obtain i rest where cons: "map f ids = i # rest" using assms(3) by (cases ids) auto
  show ?thesis
    using run ids sub' dict [of wi_runtime_graph] dict [of wi_data_profile_graph] unfolding make_selection_def cons by simp
qed

lemma good_batch_full:
  assumes "good_batch n (map wi_workflow_id cands) pins ids"
  shows "full_batch n cands ids"
  using assms by (auto simp: good_batch_def full_batch_def)

context affinity_selector
begin

lemma batch_ids_ok:
  assumes dist: "distinct (map wi_workflow_id cands)" and "cands \<noteq> []" and "1 \<le> n"
  shows "\<exists>ids. batch_ids select jm cands n = Inr ids \<and> full_batch (nat n) cands ids \<and>
    (starved_ids jm cands \<subseteq> set ids \<or> set ids \<subseteq> starved_ids jm cands) \<and>
    (starved_ids jm cands = {} \<longrightarrow> fair_batch (nat n) cands ids)"
proof -
  let ?starved = "filter (is_starved jm) cands"
  let ?g = "map (\<lambda>i. (wi_workflow_id i, wi_runtime_graph i)) cands" and ?e = "map (\<lambda>i. (wi_workflow_id i, wi_enqueued_at i)) cands"
  have keys: "dict_keys ?g = map wi_workflow_id cands" "dict_keys ?e = map wi_workflow_id cands" by (simp_all add: o_def)
  have dicts: "dict_of ?g = ?g" "dict_of ?e = ?e" using dist keys by (metis dict_of_distinct_id)+
  have width: "nat (max 1 n) = nat n" using assms(3) by simp
  obtain base where base: "select ?g ?e n (Some (oldest_first ?starved)) = Inr base" and
    "good_batch (nat n) (map wi_workflow_id cands) (normalized_pins (dict_keys ?g) (Some (oldest_first ?starved))) base"
    using select_good [of ?g ?e n "Some (oldest_first ?starved)"] dist unfolding keys timed_def width by blast
  then have full: "full_batch (nat n) cands base" using good_batch_full by blast
  note pol = starvation_policy_ok [OF dist full, of jm]
  have empty: "starved_ids jm cands = {} \<longleftrightarrow> ?starved = []" by (auto simp: starved_ids_def filter_empty_conv)
  have run: "batch_ids select jm cands n = Inr (if ?starved = []
      then apply_user_fairness cands (apply_starvation_policy jm cands base (nat n)) (nat n)
      else apply_starvation_policy jm cands base (nat n))"
    by (simp add: batch_ids_def dicts base)
  show ?thesis
  proof (cases "?starved = []")
    case True
    have "1 \<le> nat n" using assms(3) by simp
    note fair = user_fairness_ok [OF dist pol(1) this assms(2)]
    show ?thesis using run True fair empty by simp
  next
    case False
    then show ?thesis using run pol empty by simp
  qed
qed

end

text \<open>A reservation of at most \<open>n\<close> items that one dispatch may carry.\<close>

definition good_reservation :: "'d job_manager \<Rightarrow> int \<Rightarrow> 'd batch_reservation \<Rightarrow> bool" where
  "good_reservation jm n r \<longleftrightarrow>
     (let items = bs_workflows (rv_selection r)
      in items \<noteq> [] \<and> distinct (map wi_workflow_id items) \<and> list_all (\<lambda>i. i \<in> set (queued_items jm)) items \<and>
         length items \<le> nat (max 1 n) \<and>
         list_all (\<lambda>i. item_partition jm i = item_partition jm (hd items)) items \<and>
         rp_selected_workflow_ids (rv_payload r) = map wi_workflow_id items \<and>
         bs_runtime_graphs (rv_selection r) = map (\<lambda>i. (wi_workflow_id i, wi_runtime_graph i)) items \<and>
         bs_data_profile_graphs (rv_selection r) = map (\<lambda>i. (wi_workflow_id i, wi_data_profile_graph i)) items \<and>
         bs_config (rv_selection r) = wi_config (hd items) \<and>
         list_all (\<lambda>w. w \<in> wi_workflow_id ` set (queued_items jm) \<and> w \<notin> set (map wi_workflow_id items))
           (rp_miss_increment_targets (rv_payload r)))"

text \<open>How a reservation relates to the pool of candidates it was taken from.\<close>

definition reserved_from ::
  "'d job_manager \<Rightarrow> int \<Rightarrow> 'd workflow_item list \<Rightarrow> partition_key option \<Rightarrow> priority list \<Rightarrow> 'd batch_reservation \<Rightarrow> bool" where
  "reserved_from jm n cands advance advs r \<longleftrightarrow>
     (let ids = rp_selected_workflow_ids (rv_payload r)
      in full_batch (nat (max 1 n)) cands ids \<and>
         (starved_ids jm cands \<subseteq> set ids \<or> set ids \<subseteq> starved_ids jm cands) \<and>
         (starved_ids jm cands = {} \<longrightarrow> fair_batch (nat (max 1 n)) cands ids) \<and>
         rp_miss_increment_targets (rv_payload r) = filter (\<lambda>w. w \<notin> set ids) (map wi_workflow_id cands) \<and>
         rp_rr_partition_to_advance (rv_payload r) = advance \<and> rp_user_rr_priorities_to_advance (rv_payload r) = advs)"

context affinity_selector
begin

lemma reserve_run:
  assumes wf: "jm_wf jm" and free: "jm_active_reservation jm = None" and work: "queued_items jm \<noteq> []"
    and anchor: "anchor_partition jm = ((key, advance), jm)" and pool: "build_candidate_pool key jm = (cands, advs, jm)"
    and sub: "mset cands \<subseteq># mset (filter (\<lambda>i. item_partition jm i = key) (queued_items jm))"
  shows "if cands = [] then reserve_with select n jm = Inr (None, jm\<lparr>jm_not_empty := False\<rparr>)
    else \<exists>r. reserve_with select n jm = Inr (Some r, jm\<lparr>jm_active_reservation := Some r, jm_next_serial := Suc (jm_next_serial jm)\<rparr>) \<and>
      rv_serial r = jm_next_serial jm \<and> good_reservation jm n r \<and> reserved_from jm n cands advance advs r"
proof (cases "cands = []")
  case True
  then show ?thesis using free work anchor pool by (simp add: reserve_with_def present_nonempty)
next
  case False
  let ?n = "if n \<le> 0 then 1 else n"
  have n: "1 \<le> ?n" "nat ?n = nat (max 1 n)" by auto
  have "mset (map wi_workflow_id cands) \<subseteq># mset (map wi_workflow_id (filter (\<lambda>i. item_partition jm i = key) (queued_items jm)))"
    using image_mset_subseteq_mono [OF sub] by simp
  moreover have "distinct (map wi_workflow_id (filter (\<lambda>i. item_partition jm i = key) (queued_items jm)))"
    using jm_wfD(2) [OF wf] by (simp add: distinct_map_filter)
  ultimately have dist: "distinct (map wi_workflow_id cands)"
    by (metis distinct_submset)
  have mem: "i \<in> set (queued_items jm) \<and> item_partition jm i = key" if "i \<in> set cands" for i
    using set_mset_mono [OF sub] that by auto
  obtain ids where ids: "batch_ids select jm cands ?n = Inr ids" and full: "full_batch (nat ?n) cands ids" and
    pol: "starved_ids jm cands \<subseteq> set ids \<or> set ids \<subseteq> starved_ids jm cands"
      "starved_ids jm cands = {} \<longrightarrow> fair_batch (nat ?n) cands ids"
    using batch_ids_ok [OF dist False n(1)] by blast
  have idf: "distinct ids" "set ids \<subseteq> wi_workflow_id ` set cands" "length ids = min (nat ?n) (length cands)" "ids \<noteq> []"
    using full False by (auto simp: full_batch_def min_def split: if_splits)
  obtain sel where sel: "make_selection cands ids = Inr sel" "map wi_workflow_id (bs_workflows sel) = ids"
    "set (bs_workflows sel) \<subseteq> set cands" "bs_workflows sel \<noteq> []" "bs_config sel = wi_config (hd (bs_workflows sel))"
    "bs_runtime_graphs sel = map (\<lambda>i. (wi_workflow_id i, wi_runtime_graph i)) (bs_workflows sel)"
    "bs_data_profile_graphs sel = map (\<lambda>i. (wi_workflow_id i, wi_data_profile_graph i)) (bs_workflows sel)"
    using make_selection_ok [OF dist idf(2,4,1)] by blast
  define r where "r = \<lparr>rv_serial = jm_next_serial jm, rv_selection = sel,
     rv_payload = \<lparr>rp_selected_workflow_ids = ids,
       rp_miss_increment_targets = filter (\<lambda>w. w \<notin> set ids) (map wi_workflow_id cands),
       rp_rr_partition_to_advance = advance, rp_user_rr_priorities_to_advance = advs\<rparr>\<rparr>"
  have run: "reserve_with select n jm =
      Inr (Some r, jm\<lparr>jm_active_reservation := Some r, jm_next_serial := Suc (jm_next_serial jm)\<rparr>)"
    using free work anchor pool False ids sel(1) by (simp add: reserve_with_def present_nonempty Let_def r_def)
  have "length (bs_workflows sel) = length ids" using sel(2) by (metis length_map)
  moreover have "hd (bs_workflows sel) \<in> set cands" using sel(3,4) by auto
  moreover have "i \<in> set (queued_items jm) \<and> item_partition jm i = key" if "i \<in> set (bs_workflows sel)" for i
    using mem sel(3) that by blast
  moreover have "w \<in> wi_workflow_id ` set (queued_items jm)" if "w \<in> wi_workflow_id ` set cands" for w
    using mem that by blast
  ultimately have "good_reservation jm n r"
    using sel idf(1,3) n(2) mem unfolding good_reservation_def Let_def r_def
    by (auto simp: list_all_iff comp_def)
  moreover have "reserved_from jm n cands advance advs r"
    using full pol unfolding n(2) reserved_from_def Let_def r_def by simp
  ultimately show ?thesis using run False by (auto simp: r_def)
qed

end

interpretation affinity: affinity_selector "select_affinity_batch_ids default_weights"
  by unfold_locales (rule select_affinity_ok)


text \<open>
  C25: Asking a well-formed queue without an open reservation for a batch never fails, and the
  queue is as it was before but for the record of the answer: either there is no batch and the
  event is cleared, or the reservation is stored and counted. Without queued items there is no
  batch. With queued items, when every priority has a positive quantum, there is one. A
  reservation is a non-empty selection of at most the batch size (at least one) of distinct
  queued items that all belong to one dispatch partition (principal, token, optimizer and
  hardware), in order with the runtime graph and the data profile graph of each under its id, the
  configuration of the first, and queued candidates that were passed over.
\<close>

theorem reserve_batch_correct:
  assumes "jm_wf jm" and "jm_active_reservation jm = None"
  shows "(reserve_batch n jm = Inr (None, jm\<lparr>jm_not_empty := False\<rparr>) \<or>
      (\<exists>r. reserve_batch n jm =
          Inr (Some r, jm\<lparr>jm_active_reservation := Some r, jm_next_serial := Suc (jm_next_serial jm)\<rparr>) \<and>
        good_reservation jm n r)) \<and>
    (queued_items jm = [] \<longrightarrow> reserve_batch n jm = Inr (None, jm\<lparr>jm_not_empty := False\<rparr>)) \<and>
    (queued_items jm \<noteq> [] \<longrightarrow> (\<forall>p. quantum jm p > 0) \<longrightarrow> (\<exists>r jm'. reserve_batch n jm = Inr (Some r, jm')))"
proof (cases "queued_items jm = []")
  case True
  then have "reserve_batch n jm = Inr (None, jm\<lparr>jm_not_empty := False\<rparr>)"
    using assms(2) by (simp add: reserve_batch_def reserve_with_def present_nonempty)
  then show ?thesis using True by blast
next
  case work: False
  obtain key advance where anchor: "anchor_partition jm = ((key, advance), jm)" "key \<in> set (present_partitions jm)"
    using anchor_partition_ok [OF assms(1) work] by blast
  obtain cands advs where pool: "build_candidate_pool key jm = (cands, advs, jm)"
    "mset cands \<subseteq># mset (filter (\<lambda>i. item_partition jm i = key) (queued_items jm))"
    "length cands = sum_list (map (\<lambda>p. min (quantum jm p) (length (of_partition jm key p))) priorities)"
    using build_candidate_pool_ok [OF assms(1)] by blast
  have some: "cands \<noteq> []" if quantums: "\<forall>p. quantum jm p > 0"
  proof -
    obtain i where i: "i \<in> set (queued_items jm)" "item_partition jm i = key"
      using anchor(2) by (auto simp: set_present_partitions)
    then obtain p where "i \<in> set (of_partition jm key p)" by (auto simp: set_queued_items of_partition_def)
    then have "of_partition jm key p \<noteq> []" by auto
    then have "min (quantum jm p) (length (of_partition jm key p)) > 0" using quantums by simp
    moreover have "min (quantum jm p) (length (of_partition jm key p)) \<le> length cands"
      unfolding pool(3) by (rule member_le_sum_list) simp_all
    ultimately have "0 < length cands" by (rule less_le_trans)
    then show ?thesis by simp
  qed
  have run: "if cands = [] then reserve_batch n jm = Inr (None, jm\<lparr>jm_not_empty := False\<rparr>)
      else \<exists>r. reserve_batch n jm = Inr (Some r, jm\<lparr>jm_active_reservation := Some r, jm_next_serial := Suc (jm_next_serial jm)\<rparr>) \<and>
        rv_serial r = jm_next_serial jm \<and> good_reservation jm n r \<and> reserved_from jm n cands advance advs r"
    unfolding reserve_batch_def by (rule affinity.reserve_run [OF assms work anchor(1) pool(1,2)])
  show ?thesis
  proof (cases "cands = []")
    case True
    then have "\<not> (\<forall>p. quantum jm p > 0)" using some by blast
    then show ?thesis using True run work by simp
  next
    case False
    then show ?thesis using run work by fastforce
  qed
qed

section \<open>Committing a batch\<close>

lemma bump_item_fields [simp]:
  "wi_workflow_id (bump_item w i) = wi_workflow_id i" "wi_config (bump_item w i) = wi_config i"
  "wi_dispatch_token (bump_item w i) = wi_dispatch_token i" "queue_owner_id (bump_item w i) = queue_owner_id i"
  "item_partition jm (bump_item w i) = item_partition jm i"
  by (simp_all add: bump_item_def queue_owner_id_def item_partition_def)

definition miss_step :: "'d job_manager \<Rightarrow> string \<Rightarrow> 'd workflow_item \<Rightarrow> 'd workflow_item" where
  "miss_step jm w i = (if map_of (jm_items jm) w = None then i else bump_item w i)"

lemma miss_step_fields [simp]:
  "wi_workflow_id (miss_step jm w i) = wi_workflow_id i" "wi_config (miss_step jm w i) = wi_config i"
  "queue_owner_id (miss_step jm w i) = queue_owner_id i" "item_partition jm' (miss_step jm w i) = item_partition jm' i"
  by (simp_all add: miss_step_def)

lemma bump_miss_fields:
  "jm_queues (bump_miss w jm) p = map (\<lambda>(u, q). (u, map (miss_step jm w) q)) (jm_queues jm p)"
  "jm_rr_user_order (bump_miss w jm) = jm_rr_user_order jm"
  "jm_rr_partition_order (bump_miss w jm) = jm_rr_partition_order jm"
  "jm_rr_partition_members (bump_miss w jm) = jm_rr_partition_members jm"
  "jm_default_optimizer_type (bump_miss w jm) = jm_default_optimizer_type jm"
  "jm_active_reservation (bump_miss w jm) = jm_active_reservation jm"
  "jm_not_empty (bump_miss w jm) = jm_not_empty jm"
  "dict_keys (jm_items (bump_miss w jm)) = dict_keys (jm_items jm)"
proof -
  have "miss_step jm w = (if map_of (jm_items jm) w = None then (\<lambda>i. i) else bump_item w)"
    by (simp add: miss_step_def fun_eq_iff)
  then show "jm_queues (bump_miss w jm) p = map (\<lambda>(u, q). (u, map (miss_step jm w) q)) (jm_queues jm p)"
    by (auto simp: bump_miss_def case_prod_beta split: option.split)
qed (auto simp: bump_miss_def case_prod_beta split: option.split)

lemma bump_miss_items: "queued_items (bump_miss w jm) = map (miss_step jm w) (queued_items jm)"
proof -
  have "queued_at (bump_miss w jm) p = map (miss_step jm w) (queued_at jm p)" for p
    by (simp add: queued_at_def bump_miss_fields map_concat o_def case_prod_beta)
  then show ?thesis by (simp add: queued_items_def priorities_def)
qed

lemma bump_miss_wf:
  assumes "jm_wf jm"
  shows "jm_wf (bump_miss w jm)"
proof -
  note wf = jm_wfD [OF assms]
  have part: "item_partition (bump_miss w jm) = item_partition jm"
    by (rule item_partition_cong) (rule bump_miss_fields)
  have ids: "map wi_workflow_id (queued_items (bump_miss w jm)) = map wi_workflow_id (queued_items jm)"
    by (simp add: bump_miss_items)
  have parts: "item_partition jm ` set (queued_items (bump_miss w jm)) = item_partition jm ` set (queued_items jm)"
    by (simp add: bump_miss_items image_image)
  have "queue_wf (bump_miss w jm) p" for p
  proof -
    have keys: "dict_keys (jm_queues (bump_miss w jm) p) = dict_keys (jm_queues jm p)" by (simp add: bump_miss_fields case_prod_beta)
    show ?thesis
      using wf(1) [of p] unfolding queue_wf_def keys bump_miss_fields(2)
      by (fastforce simp: bump_miss_fields list_all_iff)
  qed
  then show ?thesis using wf(2-5) unfolding jm_wf_def ids part parts bump_miss_fields by (simp add: list_all_iff)
qed

text \<open>The items that stay, with the counters of those passed over raised by one.\<close>

definition missed :: "'d job_manager \<Rightarrow> string list \<Rightarrow> 'd workflow_item \<Rightarrow> 'd workflow_item" where
  "missed jm targets i =
     (if wi_workflow_id i \<in> set targets \<and> map_of (jm_items jm) (wi_workflow_id i) \<noteq> None
      then i\<lparr>wi_miss_count := wi_miss_count i + 1\<rparr> else i)"

lemma fold_bump:
  assumes "jm_wf jm" and "distinct targets"
  shows "jm_wf (fold bump_miss targets jm)"
    and "queued_items (fold bump_miss targets jm) = map (missed jm targets) (queued_items jm)"
    and "jm_default_optimizer_type (fold bump_miss targets jm) = jm_default_optimizer_type jm"
    and "jm_not_empty (fold bump_miss targets jm) = jm_not_empty jm"
proof -
  have "jm_wf (fold bump_miss targets jm) \<and> queued_items (fold bump_miss targets jm) = map (missed jm targets) (queued_items jm) \<and>
      jm_default_optimizer_type (fold bump_miss targets jm) = jm_default_optimizer_type jm \<and>
      jm_not_empty (fold bump_miss targets jm) = jm_not_empty jm"
    using assms
  proof (induction targets arbitrary: jm)
    case Nil
    then show ?case by (simp add: missed_def)
  next
    case (Cons w targets)
    have dom: "map_of (jm_items (bump_miss w jm)) v = None \<longleftrightarrow> map_of (jm_items jm) v = None" for v
      by (metis bump_miss_fields(8) map_of_eq_None_iff set_map)
    have step: "missed (bump_miss w jm) targets (miss_step jm w i) = missed jm (w # targets) i" for i
      using Cons.prems(2) by (auto simp: missed_def dom miss_step_def bump_item_def)
    show ?case
      using Cons.IH [OF bump_miss_wf [OF Cons.prems(1)]] Cons.prems(2)
      by (simp add: bump_miss_items step bump_miss_fields)
  qed
  then show "jm_wf (fold bump_miss targets jm)"
    and "queued_items (fold bump_miss targets jm) = map (missed jm targets) (queued_items jm)"
    and "jm_default_optimizer_type (fold bump_miss targets jm) = jm_default_optimizer_type jm"
    and "jm_not_empty (fold bump_miss targets jm) = jm_not_empty jm" by blast+
qed

definition nonempty_queues :: "'d job_manager \<Rightarrow> bool" where
  "nonempty_queues jm \<longleftrightarrow> (\<forall>p. list_all (\<lambda>(u, q). q \<noteq> []) (jm_queues jm p))"

lemma fold_prune:
  assumes "nonempty_queues jm"
  shows "fold (prune_nonempty before) ps jm =
    jm\<lparr>jm_rr_user_order := (\<lambda>p. if p \<in> set ps \<and> jm_queues before p \<noteq> []
      then filter (\<lambda>u. u \<in> set (dict_keys (jm_queues jm p))) (jm_rr_user_order jm p) else jm_rr_user_order jm p)\<rparr>"
  using assms
proof (induction ps arbitrary: jm)
  case (Cons q ps)
  have keep: "filter (\<lambda>(u, q). q \<noteq> []) (jm_queues jm q) = jm_queues jm q"
    using Cons.prems by (simp add: nonempty_queues_def list_all_iff filter_id_conv)
  have one: "prune_nonempty before q jm = jm\<lparr>jm_rr_user_order := (\<lambda>p. if p = q \<and> jm_queues before p \<noteq> []
      then filter (\<lambda>u. u \<in> set (dict_keys (jm_queues jm p))) (jm_rr_user_order jm p) else jm_rr_user_order jm p)\<rparr>"
    by (auto simp: prune_nonempty_def prune_empty_user_queues_def keep Let_def fun_upd_triv fun_upd_def fun_eq_iff
        intro!: job_manager.equality)
  have "nonempty_queues (prune_nonempty before q jm)" using Cons.prems by (simp add: one nonempty_queues_def)
  from Cons.IH [OF this] show ?case by (auto simp: one fun_eq_iff intro!: job_manager.equality)
qed simp

lemma remove_selected_fields:
  "jm_queues (remove_selected sel jm) p =
     filter (\<lambda>(u, q). q \<noteq> []) (map (\<lambda>(u, q). (u, filter (\<lambda>i. wi_workflow_id i \<notin> set sel) q)) (jm_queues jm p))"
  "jm_rr_user_order (remove_selected sel jm) = jm_rr_user_order jm"
  "jm_rr_partition_order (remove_selected sel jm) = jm_rr_partition_order jm"
  "jm_rr_partition_members (remove_selected sel jm) = jm_rr_partition_members jm"
  "jm_default_optimizer_type (remove_selected sel jm) = jm_default_optimizer_type jm"
  "jm_not_empty (remove_selected sel jm) = jm_not_empty jm"
  by (simp_all add: remove_selected_def)

lemma remove_selected_items:
  "queued_items (remove_selected sel jm) = filter (\<lambda>i. wi_workflow_id i \<notin> set sel) (queued_items jm)"
proof -
  have drop: "concat (map snd (filter (\<lambda>(u, q). q \<noteq> []) us)) = concat (map snd us)" for us :: "(string \<times> 'a workflow_item list) list"
    by (induction us) auto
  have "queued_at (remove_selected sel jm) p = filter (\<lambda>i. wi_workflow_id i \<notin> set sel) (queued_at jm p)" for p
    unfolding queued_at_def remove_selected_fields(1) drop by (simp add: filter_concat o_def case_prod_beta)
  then show ?thesis by (simp add: queued_items_def priorities_def)
qed

lemma removed_wf:
  fixes jm :: "'d job_manager" and sel :: "string list"
  assumes wf: "jm_wf jm"
  defines "jm' \<equiv> drop_stale_partitions (fold (prune_nonempty jm) priorities (remove_selected sel jm))"
  shows "jm_wf jm'" and "queued_items jm' = filter (\<lambda>i. wi_workflow_id i \<notin> set sel) (queued_items jm)"
    and "jm_default_optimizer_type jm' = jm_default_optimizer_type jm" and "jm_not_empty jm' = jm_not_empty jm"
proof -
  let ?r = "remove_selected sel jm"
  define jm2 where "jm2 = fold (prune_nonempty jm) priorities ?r"
  have ne: "nonempty_queues ?r" by (auto simp: nonempty_queues_def remove_selected_fields list_all_iff)
  have jm2: "jm2 = ?r\<lparr>jm_rr_user_order := (\<lambda>p. if jm_queues jm p \<noteq> []
      then filter (\<lambda>u. u \<in> set (dict_keys (jm_queues ?r p))) (jm_rr_user_order jm p) else jm_rr_user_order jm p)\<rparr>"
    unfolding jm2_def fold_prune [OF ne] by (simp add: remove_selected_fields(2) cong: if_cong)
  have items: "queued_items jm2 = filter (\<lambda>i. wi_workflow_id i \<notin> set sel) (queued_items jm)"
    unfolding remove_selected_items [symmetric] jm2 by (simp add: queued_items_def queued_at_def priorities_def)
  have opt: "jm_default_optimizer_type jm2 = jm_default_optimizer_type jm" by (simp add: jm2 remove_selected_fields)
  have part: "item_partition jm2 = item_partition jm" by (rule item_partition_cong [OF opt])
  have queue: "queue_wf jm2 p" for p
  proof -
    have old: "queue_wf jm p" by (rule jm_wfD(1) [OF wf])
    have keys: "set (dict_keys (jm_queues ?r p)) \<subseteq> set (dict_keys (jm_queues jm p))"
    proof
      fix u assume "u \<in> set (dict_keys (jm_queues ?r p))"
      then obtain q where "(u, q) \<in> set (jm_queues ?r p)" by auto
      then obtain q' where "(u, q') \<in> set (jm_queues jm p)" by (auto simp: remove_selected_fields)
      from imageI [OF this, of fst] show "u \<in> set (dict_keys (jm_queues jm p))" by simp
    qed
    have dist: "distinct (dict_keys (jm_queues ?r p))"
    proof -
      have "dict_keys (map (\<lambda>(u, q). (u, filter (\<lambda>i. wi_workflow_id i \<notin> set sel) q)) (jm_queues jm p)) = dict_keys (jm_queues jm p)"
        by (simp add: case_prod_beta)
      moreover have "distinct (dict_keys (jm_queues jm p))" using old by (simp add: queue_wf_def)
      ultimately show ?thesis unfolding remove_selected_fields(1) by (intro distinct_map_filter) (simp only:)
    qed
    have "list_all (\<lambda>(u, q). q \<noteq> [] \<and> list_all (\<lambda>i. cf_priority (wi_config i) = p \<and> queue_owner_id i = u) q) (jm_queues ?r p)"
      using old by (auto simp: remove_selected_fields queue_wf_def list_all_iff)
    moreover have "jm_rr_user_order jm p = []" if "jm_queues jm p = []" using that old by (simp add: queue_wf_def)
    ultimately show ?thesis
      using dist keys old unfolding queue_wf_def jm2 by (auto simp: remove_selected_fields)
  qed
  note wfs = jm_wfD [OF wf]
  have remaining: "set (present_partitions jm2) = item_partition jm ` set (queued_items jm2)"
    by (simp add: set_present_partitions part)
  have sub: "set (present_partitions jm2) \<subseteq> set (jm_rr_partition_order jm)"
    unfolding remaining wfs(5) items by auto
  have order: "jm_rr_partition_order jm2 = jm_rr_partition_order jm" "jm_rr_partition_members jm2 = jm_rr_partition_members jm"
    by (simp_all add: jm2 remove_selected_fields)
  have drop: "drop_stale_partitions jm2 = jm2\<lparr>
      jm_rr_partition_members := filter (\<lambda>k. k \<in> set (present_partitions jm2)) (jm_rr_partition_members jm),
      jm_rr_partition_order := filter (\<lambda>k. k \<in> set (present_partitions jm2)) (jm_rr_partition_order jm)\<rparr>"
    using wfs(4) by (auto simp: drop_stale_partitions_def Let_def order intro!: job_manager.equality filter_cong)
  have jm': "jm' = drop_stale_partitions jm2" by (simp add: jm'_def jm2_def)
  show items': "queued_items jm' = filter (\<lambda>i. wi_workflow_id i \<notin> set sel) (queued_items jm)"
    unfolding items [symmetric] jm' drop by (simp add: queued_items_def queued_at_def priorities_def)
  show opt': "jm_default_optimizer_type jm' = jm_default_optimizer_type jm" by (simp add: jm' drop opt)
  show "jm_not_empty jm' = jm_not_empty jm"
    unfolding jm' drop unfolding jm2 by (simp add: remove_selected_fields)
  have queue': "queue_wf jm' p" for p using queue [of p] by (simp add: jm' drop queue_wf_def)
  have "distinct (map wi_workflow_id (queued_items jm'))" unfolding items' using wfs(2) by (rule distinct_map_filter)
  moreover have "item_partition jm' = item_partition jm" by (rule item_partition_cong [OF opt'])
  ultimately show "jm_wf jm'"
    using queue' wfs(3,4) sub remaining items items' by (auto simp: jm_wf_def list_all_iff jm' drop)
qed


lemma set_rotate_left [simp]: "set (rotate_left xs) = set xs"
  by (cases xs) (simp_all add: rotate_left_def)

lemma distinct_rotate_left [simp]: "distinct (rotate_left xs) = distinct xs"
  by (cases xs) (auto simp: rotate_left_def)

text \<open>Rotating round-robin orders keeps the invariant and the items.\<close>

definition same_queue :: "'d job_manager \<Rightarrow> 'd job_manager \<Rightarrow> bool" where
  "same_queue jm jm' \<longleftrightarrow> jm_queues jm' = jm_queues jm \<and> jm_not_empty jm' = jm_not_empty jm \<and>
     jm_quantums jm' = jm_quantums jm \<and> (jm_wf jm \<longrightarrow> jm_wf jm')"

lemma same_queue_items: "same_queue jm jm' \<Longrightarrow> queued_items jm' = queued_items jm"
  by (simp add: same_queue_def queued_items_def queued_at_def priorities_def)

lemma same_queue_trans: "same_queue a b \<Longrightarrow> same_queue b c \<Longrightarrow> same_queue a c"
  by (simp add: same_queue_def)

lemma rotate_same_queue:
  assumes "set order = set (jm_rr_partition_order jm)" and "distinct (jm_rr_partition_order jm) \<Longrightarrow> distinct order"
    and "\<And>p. set (users p) = set (jm_rr_user_order jm p) \<and> (distinct (jm_rr_user_order jm p) \<longrightarrow> distinct (users p))"
  shows "same_queue jm (jm\<lparr>jm_rr_partition_order := order, jm_rr_user_order := users\<rparr>)"
proof -
  let ?jm = "jm\<lparr>jm_rr_partition_order := order, jm_rr_user_order := users\<rparr>"
  have items: "queued_items ?jm = queued_items jm" by (simp add: queued_items_def queued_at_def priorities_def)
  have part: "item_partition ?jm = item_partition jm" by (rule item_partition_cong) simp
  have "queue_wf ?jm p" if "queue_wf jm p" for p using that assms(3) [of p] by (simp add: queue_wf_def)
  then show ?thesis using assms(1,2) by (auto simp: same_queue_def jm_wf_def items part list_all_iff)
qed

lemma advance_partition_same: "same_queue jm (advance_partition key jm)"
proof -
  have "same_queue jm (jm\<lparr>jm_rr_partition_order := rotate_left (jm_rr_partition_order jm), jm_rr_user_order := jm_rr_user_order jm\<rparr>)"
    by (rule rotate_same_queue) simp_all
  then show ?thesis by (auto simp: advance_partition_def same_queue_def split: list.split)
qed

lemma advance_user_same: "same_queue jm (advance_user p jm)"
proof -
  have "same_queue jm (jm\<lparr>jm_rr_partition_order := jm_rr_partition_order jm,
      jm_rr_user_order := (jm_rr_user_order jm)(p := rotate_left (jm_rr_user_order jm p))\<rparr>)"
    by (rule rotate_same_queue) simp_all
  then show ?thesis by (auto simp: advance_user_def same_queue_def)
qed

lemma fold_advance_user_same: "same_queue jm (fold advance_user ps jm)"
proof (induction ps arbitrary: jm)
  case (Cons p ps)
  show ?case using same_queue_trans [OF advance_user_same Cons.IH] by simp
qed (simp add: same_queue_def)

lemma quantums_kept [simp]:
  "jm_quantums (fold bump_miss targets jm) = jm_quantums jm"
  "jm_quantums (fold (prune_nonempty before) ps jm) = jm_quantums jm"
  "jm_quantums (remove_selected sel jm) = jm_quantums jm"
  "jm_quantums (drop_stale_partitions jm) = jm_quantums jm"
proof -
  show "jm_quantums (fold bump_miss targets jm) = jm_quantums jm"
    by (induction targets arbitrary: jm) (auto simp: bump_miss_def split: option.split)
  show "jm_quantums (fold (prune_nonempty before) ps jm) = jm_quantums jm"
    by (induction ps arbitrary: jm) (auto simp: prune_nonempty_def prune_empty_user_queues_def Let_def)
qed (simp_all add: remove_selected_def drop_stale_partitions_def Let_def)

lemma flags_wf [simp]:
  "jm_wf (jm\<lparr>jm_not_empty := b, jm_active_reservation := a\<rparr>) = jm_wf jm"
  "queued_items (jm\<lparr>jm_not_empty := b, jm_active_reservation := a\<rparr>) = queued_items jm"
proof -
  let ?jm = "jm\<lparr>jm_not_empty := b, jm_active_reservation := a\<rparr>"
  show items: "queued_items ?jm = queued_items jm" by (simp add: queued_items_def queued_at_def priorities_def)
  have part: "item_partition ?jm = item_partition jm" by (rule item_partition_cong) simp
  have "queue_wf ?jm = queue_wf jm" by (simp add: fun_eq_iff queue_wf_def)
  then show "jm_wf ?jm = jm_wf jm" by (simp add: jm_wf_def items part)
qed

lemma commit_run:
  assumes wf: "jm_wf jm" and act: "is_active jm r" and dist: "distinct (rp_miss_increment_targets (rv_payload r))"
  shows "\<exists>jm'. commit_reservation r jm = Inr jm' \<and> jm_wf jm' \<and> jm_active_reservation jm' = None \<and>
    queued_items jm' = map (missed jm (rp_miss_increment_targets (rv_payload r)))
      (filter (\<lambda>i. wi_workflow_id i \<notin> set (rp_selected_workflow_ids (rv_payload r))) (queued_items jm)) \<and>
    jm_not_empty jm' = (has_work jm' \<and> jm_not_empty jm) \<and> jm_quantums jm' = jm_quantums jm"
proof -
  let ?p = "rv_payload r"
  let ?t = "rp_miss_increment_targets ?p" and ?s = "rp_selected_workflow_ids ?p"
  define jm1 where "jm1 = fold bump_miss ?t jm"
  define jm3 where "jm3 = drop_stale_partitions (fold (prune_nonempty jm1) priorities (remove_selected ?s jm1))"
  define jm4 where "jm4 = (case rp_rr_partition_to_advance ?p of None \<Rightarrow> jm3 | Some key \<Rightarrow> advance_partition key jm3)"
  define jm5 where "jm5 = fold advance_user (rp_user_rr_priorities_to_advance ?p) jm4"
  note bump = fold_bump [OF wf dist, folded jm1_def]
  note rem = removed_wf [OF bump(1), of ?s, folded jm3_def]
  have "same_queue jm3 jm4"
  proof (cases "rp_rr_partition_to_advance ?p")
    case None
    then show ?thesis by (simp add: jm4_def same_queue_def)
  next
    case (Some key)
    then show ?thesis using advance_partition_same [of jm3 key] by (simp add: jm4_def)
  qed
  then have same: "same_queue jm3 jm5" unfolding jm5_def using same_queue_trans fold_advance_user_same by blast
  let ?jm' = "jm5\<lparr>jm_not_empty := (has_work jm5 \<and> jm_not_empty jm5), jm_active_reservation := None\<rparr>"
  have run: "commit_reservation r jm = Inr ?jm'"
    by (simp only: commit_reservation_def act Let_def not_True_eq_False if_False jm5_def jm4_def jm3_def jm1_def)
  have wid: "wi_workflow_id (missed jm ?t i) = wi_workflow_id i" for i by (simp add: missed_def)
  have items: "queued_items jm5 = map (missed jm ?t) (filter (\<lambda>i. wi_workflow_id i \<notin> set ?s) (queued_items jm))"
    unfolding same_queue_items [OF same] rem(2) bump(2) by (simp add: filter_map o_def wid)
  have "jm_quantums jm5 = jm_quantums jm" using same by (simp add: same_queue_def jm3_def jm1_def)
  moreover have "jm_wf jm5" "jm_not_empty jm5 = jm_not_empty jm"
    using same rem(1,4) bump(4) by (simp_all add: same_queue_def)
  ultimately show ?thesis
    unfolding run using items by (intro exI [of _ ?jm']) (simp add: has_work_iff)
qed

text \<open>What a commit does to the round-robin order of the partitions.\<close>

definition remains :: "'d job_manager \<Rightarrow> string list \<Rightarrow> partition_key \<Rightarrow> bool" where
  "remains jm selected k \<longleftrightarrow>
     (\<exists>i\<in>set (queued_items jm). wi_workflow_id i \<notin> set selected \<and> item_partition jm i = k)"

definition advance_order :: "partition_key option \<Rightarrow> partition_key list \<Rightarrow> partition_key list" where
  "advance_order advance order =
     (if order \<noteq> [] \<and> advance = Some (hd order) then rotate_left order else order)"

lemma advance_order_turn:
  assumes "order \<noteq> []" and "distinct order"
  shows "advance_order (Some (hd order)) (filter P order) = filter P (tl order @ [hd order])"
proof -
  obtain y ys where order: "order = y # ys" using assms(1) by (cases order) auto
  have "hd (filter P ys) \<noteq> y" if "filter P ys \<noteq> []"
    using hd_in_set [OF that] assms(2) unfolding order by auto
  then have "advance_order (Some y) (filter P ys) = filter P ys" by (auto simp: advance_order_def)
  moreover have "advance_order (Some y) (y # filter P ys) = filter P ys @ [y]" by (simp add: advance_order_def rotate_left_def)
  ultimately show ?thesis unfolding order by simp
qed

lemma advance_partition_order: "jm_rr_partition_order (advance_partition key jm) = advance_order (Some key) (jm_rr_partition_order jm)"
  by (auto simp: advance_partition_def advance_order_def split: list.split)

lemma users_keep_partitions: "jm_rr_partition_order (fold advance_user ps jm) = jm_rr_partition_order jm"
  by (induction ps arbitrary: jm) (simp_all add: advance_user_def)

lemma bumps_keep_partitions: "jm_rr_partition_order (fold bump_miss ws jm) = jm_rr_partition_order jm"
  by (induction ws arbitrary: jm) (simp_all add: bump_miss_fields)

lemma prunes_keep_partitions: "jm_rr_partition_order (fold (prune_nonempty before) ps jm) = jm_rr_partition_order jm"
  by (induction ps arbitrary: jm) (auto simp: prune_nonempty_def prune_empty_user_queues_def Let_def)

lemma dropped_order: "\<exists>P. jm_rr_partition_order (drop_stale_partitions jm) = filter P (jm_rr_partition_order jm)"
  by (auto simp: drop_stale_partitions_def Let_def)

lemma removed_order:
  assumes wf: "jm_wf jm"
  shows "jm_rr_partition_order (drop_stale_partitions (fold (prune_nonempty jm) priorities (remove_selected sel jm))) =
    filter (remains jm sel) (jm_rr_partition_order jm)"
proof -
  let ?jm' = "drop_stale_partitions (fold (prune_nonempty jm) priorities (remove_selected sel jm))"
  note rem = removed_wf [OF wf, of sel]
  obtain P where P: "jm_rr_partition_order ?jm' = filter P (jm_rr_partition_order jm)"
    using dropped_order [of "fold (prune_nonempty jm) priorities (remove_selected sel jm)"]
    unfolding prunes_keep_partitions remove_selected_fields by blast
  have "item_partition ?jm' = item_partition jm" by (rule item_partition_cong) (rule rem(3))
  then have "set (filter P (jm_rr_partition_order jm)) = item_partition jm ` set (queued_items ?jm')"
    using jm_wfD(5) [OF rem(1)] P by simp
  then have "P k \<longleftrightarrow> remains jm sel k" if "k \<in> set (jm_rr_partition_order jm)" for k
  proof -
    have "k \<in> set (filter P (jm_rr_partition_order jm)) \<longleftrightarrow> k \<in> item_partition jm ` set (queued_items ?jm')"
      using \<open>set (filter P _) = _\<close> by simp
    then show ?thesis using that unfolding rem(2) remains_def by auto
  qed
  then show ?thesis unfolding P by (rule filter_cong [OF refl])
qed

lemma commit_order:
  assumes wf: "jm_wf jm" and act: "is_active jm r" and dist: "distinct (rp_miss_increment_targets (rv_payload r))"
  shows "\<exists>jm'. commit_reservation r jm = Inr jm' \<and> jm_rr_partition_order jm' =
    advance_order (rp_rr_partition_to_advance (rv_payload r))
      (filter (remains jm (rp_selected_workflow_ids (rv_payload r))) (jm_rr_partition_order jm))"
proof -
  let ?p = "rv_payload r"
  define jm1 where "jm1 = fold bump_miss (rp_miss_increment_targets ?p) jm"
  note bump = fold_bump [OF wf dist, folded jm1_def]
  have part: "item_partition jm1 = item_partition jm" by (rule item_partition_cong) (rule bump(3))
  have same: "wi_workflow_id (missed jm ts i) = wi_workflow_id i" "item_partition jm (missed jm ts i) = item_partition jm i" for ts i
    by (simp_all add: missed_def item_partition_def)
  have "remains jm1 sel k = remains jm sel k" for sel k unfolding remains_def bump(2) part by (simp add: same)
  then have rem: "remains jm1 = remains jm" by (simp add: fun_eq_iff)
  have order1: "jm_rr_partition_order jm1 = jm_rr_partition_order jm" by (simp add: jm1_def bumps_keep_partitions)
  note order = removed_order [OF bump(1), of "rp_selected_workflow_ids ?p", unfolded rem order1]
  show ?thesis
    unfolding commit_reservation_def using act order
    by (auto simp: Let_def users_keep_partitions advance_partition_order jm1_def advance_order_def split: option.split)
qed

lemma reserved_fields [simp]:
  "jm_rr_partition_order (jm\<lparr>jm_active_reservation := a, jm_next_serial := s\<rparr>) = jm_rr_partition_order jm"
  "remains (jm\<lparr>jm_active_reservation := a, jm_next_serial := s\<rparr>) = remains jm"
proof -
  have "queued_items (jm\<lparr>jm_active_reservation := a, jm_next_serial := s\<rparr>) = queued_items jm"
    by (simp add: queued_items_def queued_at_def priorities_def)
  moreover have "item_partition (jm\<lparr>jm_active_reservation := a, jm_next_serial := s\<rparr>) = item_partition jm"
    by (rule item_partition_cong) simp
  ultimately show "remains (jm\<lparr>jm_active_reservation := a, jm_next_serial := s\<rparr>) = remains jm"
    by (simp add: fun_eq_iff remains_def)
qed simp

lemma reserved_wf:
  assumes "jm_wf jm"
  shows "jm_wf (jm\<lparr>jm_active_reservation := a, jm_next_serial := s\<rparr>)"
proof -
  let ?jm = "jm\<lparr>jm_active_reservation := a, jm_next_serial := s\<rparr>"
  have items: "queued_items ?jm = queued_items jm" by (simp add: queued_items_def queued_at_def priorities_def)
  have part: "item_partition ?jm = item_partition jm" by (rule item_partition_cong) simp
  have "queue_wf ?jm = queue_wf jm" by (simp add: fun_eq_iff queue_wf_def)
  then show ?thesis using assms unfolding jm_wf_def items part by simp
qed

lemma pool_distinct:
  assumes "jm_wf jm" and "mset cands \<subseteq># mset (filter P (queued_items jm))"
  shows "distinct (map wi_workflow_id cands)"
proof -
  have "mset (map wi_workflow_id cands) \<subseteq># mset (map wi_workflow_id (filter P (queued_items jm)))"
    using image_mset_subseteq_mono [OF assms(2)] by simp
  then show ?thesis using distinct_map_filter [OF jm_wfD(2) [OF assms(1)]] distinct_submset by blast
qed

text \<open>
  C26: A starved item at the head of the queue order decides the partition of the batch; otherwise
  the partition is the one whose turn it is. From the candidates of that partition the batch
  takes as many as fit; all starved candidates are in it, or only starved ones are; and when none
  is starved, every user with a candidate gets a place if there are places for all users, and
  otherwise no user gets two. Committing the reservation always succeeds: the partitions without
  remaining items leave the round-robin order, and the partition whose turn it was goes to its
  end, unless a starved item had decided, when the order does not advance.
\<close>

theorem reserve_batch_starvation_and_fairness:
  assumes "jm_wf jm" and "jm_active_reservation jm = None" and "reserve_batch n jm = Inr (Some r, jm')"
  shows "\<exists>key advance cands advs jm''.
    (case filter (is_starved jm) (queued_items jm) of
       i # rest \<Rightarrow> key = item_partition jm i \<and> advance = None
     | [] \<Rightarrow> key = hd (jm_rr_partition_order jm) \<and> advance = Some key) \<and>
    build_candidate_pool key jm = (cands, advs, jm) \<and> reserved_from jm n cands advance advs r \<and>
    commit_reservation r jm' = Inr jm'' \<and>
    jm_rr_partition_order jm'' = filter (\<lambda>k. \<exists>i\<in>set (queued_items jm).
        wi_workflow_id i \<notin> set (rp_selected_workflow_ids (rv_payload r)) \<and> item_partition jm i = k)
      (case filter (is_starved jm) (queued_items jm) of
         _ # _ \<Rightarrow> jm_rr_partition_order jm
       | [] \<Rightarrow> tl (jm_rr_partition_order jm) @ [hd (jm_rr_partition_order jm)])"
proof -
  have work: "queued_items jm \<noteq> []"
    using assms(2,3) by (auto simp: reserve_batch_def reserve_with_def present_nonempty)
  obtain key advance where anchor: "anchor_partition jm = ((key, advance), jm)" and
    none: "filter (is_starved jm) (queued_items jm) = [] \<longrightarrow> key = hd (jm_rr_partition_order jm) \<and> advance = Some key" and
    some: "\<forall>i rest. filter (is_starved jm) (queued_items jm) = i # rest \<longrightarrow> key = item_partition jm i \<and> advance = None"
    using anchor_partition_ok [OF assms(1) work] by blast
  obtain cands advs where pool: "build_candidate_pool key jm = (cands, advs, jm)"
    "mset cands \<subseteq># mset (filter (\<lambda>i. item_partition jm i = key) (queued_items jm))"
    using build_candidate_pool_ok [OF assms(1)] by blast
  have res: "reserved_from jm n cands advance advs r" and
    jm': "jm' = jm\<lparr>jm_active_reservation := Some r, jm_next_serial := Suc (jm_next_serial jm)\<rparr>"
    using affinity.reserve_run [OF assms(1,2) work anchor pool, of n] assms(3)
    by (auto simp: reserve_batch_def split: if_splits)
  have "distinct (map wi_workflow_id cands)" by (rule pool_distinct [OF assms(1) pool(2)])
  then have dist: "distinct (rp_miss_increment_targets (rv_payload r))" using res by (simp add: reserved_from_def Let_def)
  have adv: "rp_rr_partition_to_advance (rv_payload r) = advance" using res by (simp add: reserved_from_def Let_def)
  obtain jm'' where commit: "commit_reservation r jm' = Inr jm''" and order: "jm_rr_partition_order jm'' =
      advance_order advance (filter (remains jm (rp_selected_workflow_ids (rv_payload r))) (jm_rr_partition_order jm))"
    using commit_order [OF reserved_wf [OF assms(1), where a = "Some r" and s = "Suc (jm_next_serial jm)"] _ dist]
    unfolding jm' adv reserved_fields by (auto simp: is_active_def)
  note rem = remains_def [of jm "rp_selected_workflow_ids (rv_payload r)", abs_def, symmetric]
  have ne: "jm_rr_partition_order jm \<noteq> []" using jm_wfD(5) [OF assms(1)] work by auto
  show ?thesis
  proof (cases "filter (is_starved jm) (queued_items jm)")
    case Nil
    have "advance = Some (hd (jm_rr_partition_order jm))" using none Nil by simp
    then show ?thesis unfolding Nil rem using none Nil pool(1) res commit order advance_order_turn [OF ne jm_wfD(3) [OF assms(1)]]
      by (intro exI [of _ key] exI [of _ advance] exI [of _ cands] exI [of _ advs] exI [of _ jm'']) simp
  next
    case (Cons i rest)
    have "key = item_partition jm i" "advance = None" using some Cons by simp_all
    then show ?thesis unfolding Cons rem using pool(1) res commit order
      by (intro exI [of _ key] exI [of _ advance] exI [of _ cands] exI [of _ advs] exI [of _ jm'']) (simp add: advance_order_def)
  qed
qed

text \<open>
  C27: Committing the open reservation of a well-formed queue (items may have been enqueued since
  it was made) removes exactly the selected items, raises the miss counter of the candidates
  passed over by one, changes no other item and no order within the queues, closes the
  reservation and keeps the queue well-formed; the event is only left set when work remains.
\<close>

theorem commit_reservation_correct:
  assumes "jm_wf jm" and "is_active jm r" and "distinct (rp_miss_increment_targets (rv_payload r))"
  shows "\<exists>jm'. commit_reservation r jm = Inr jm' \<and> jm_wf jm' \<and> jm_active_reservation jm' = None \<and>
    queued_items jm' = map (missed jm (rp_miss_increment_targets (rv_payload r)))
      (filter (\<lambda>i. wi_workflow_id i \<notin> set (rp_selected_workflow_ids (rv_payload r))) (queued_items jm)) \<and>
    jm_not_empty jm' = (has_work jm' \<and> jm_not_empty jm) \<and> jm_quantums jm' = jm_quantums jm"
  using assms by (rule commit_run)

text \<open>
  C30: Reservations exclude each other: while one is open, another request for a batch is an error,
  and so is committing or aborting any other reservation. Aborting the open one gives back the
  queue exactly as it was before it was made, up to the reservation counter.
\<close>

theorem reservation_protocol:
  "(jm_active_reservation jm \<noteq> None \<longrightarrow>
      reserve_batch n jm = Inl (RuntimeError ''already has an outstanding reservation'')) \<and>
   (\<not> is_active jm r \<longrightarrow> (\<exists>m. commit_reservation r jm = Inl (RuntimeError m)) \<and>
      (\<exists>m. abort_reservation r jm = Inl (RuntimeError m))) \<and>
   (jm_wf jm \<longrightarrow> reserve_batch n jm = Inr (Some r, jm') \<longrightarrow>
      abort_reservation r jm' = Inr (jm\<lparr>jm_next_serial := Suc (jm_next_serial jm)\<rparr>))"
proof (intro conjI impI)
  show "reserve_batch n jm = Inl (RuntimeError ''already has an outstanding reservation'')"
    if "jm_active_reservation jm \<noteq> None" using that by (simp add: reserve_batch_def reserve_with_def)
  show "\<exists>m. commit_reservation r jm = Inl (RuntimeError m)" "\<exists>m. abort_reservation r jm = Inl (RuntimeError m)"
    if "\<not> is_active jm r" using that by (simp_all add: commit_reservation_def abort_reservation_def)
  assume wf: "jm_wf jm" and run: "reserve_batch n jm = Inr (Some r, jm')"
  then have free: "jm_active_reservation jm = None" and work: "queued_items jm \<noteq> []"
    by (auto simp: reserve_batch_def reserve_with_def present_nonempty split: if_splits)
  obtain key advance where anchor: "anchor_partition jm = ((key, advance), jm)"
    using anchor_partition_ok [OF wf work] by blast
  obtain cands advs where pool: "build_candidate_pool key jm = (cands, advs, jm)"
    "mset cands \<subseteq># mset (filter (\<lambda>i. item_partition jm i = key) (queued_items jm))"
    using build_candidate_pool_ok [OF wf] by blast
  have "jm' = jm\<lparr>jm_active_reservation := Some r, jm_next_serial := Suc (jm_next_serial jm)\<rparr>"
    using affinity.reserve_run [OF wf free work anchor pool, of n] run
    by (auto simp: reserve_batch_def split: if_splits)
  then show "abort_reservation r jm' = Inr (jm\<lparr>jm_next_serial := Suc (jm_next_serial jm)\<rparr>)"
    using free by (simp add: abort_reservation_def is_active_def)
qed

lemma all_priority: "(\<forall>p. P p) \<longleftrightarrow> P HIGH \<and> P MEDIUM \<and> P LOW"
  by (metis priority.exhaust)

section \<open>Concrete queues for the witnesses\<close>

definition example_item :: "string \<Rightarrow> string \<Rightarrow> priority \<Rightarrow> unit workflow_item" where
  "example_item wid owner p =
     \<lparr>wi_workflow_id = wid, wi_request_id = ''r'', wi_graph_name = ''g'', wi_public_graph_name = ''g'',
      wi_slice_index = 0, wi_slice_start = 0, wi_slice_length = 1, wi_total_length = 1, wi_template_hash = [],
      wi_varying_input_keys = [], wi_runtime_graph = tiny_graph ''m'', wi_data_profile_graph = tiny_graph ''m'',
      wi_dsl_graph = (), wi_config = (example_config owner)\<lparr>cf_priority := p, cf_principal_id := owner\<rparr>,
      wi_enqueued_at = 1, wi_dispatch_token = None, wi_miss_count = 0\<rparr>"

definition example_queue :: "(priority \<Rightarrow> int) \<Rightarrow> unit job_manager" where
  "example_queue quantums = fold enqueue_item [example_item ''a'' ''u'' LOW, example_item ''b'' ''v'' HIGH]
     (new_job_manager quantums 3 ''default'')"

lemma example_queue_wf:
  "jm_wf (example_queue q)"
  "mset (queued_items (example_queue q)) = {#example_item ''a'' ''u'' LOW, example_item ''b'' ''v'' HIGH#}"
  using fold_enqueue [OF new_job_manager_wf, of "[example_item ''a'' ''u'' LOW, example_item ''b'' ''v'' HIGH]" q 3 "''default''"]
  by (simp_all add: example_queue_def example_item_def)

lemma example_queue_fields:
  "jm_active_reservation (example_queue q) = None" "jm_quantums (example_queue q) = q"
  "jm_starvation_limit (example_queue q) = 3" "queued_items (example_queue q) \<noteq> []"
proof -
  show "queued_items (example_queue q) \<noteq> []" using example_queue_wf(2) [of q] by auto
qed (simp_all add: example_queue_def enqueue_item_fields new_job_manager_def)

theorem reserve_batch_correct_witness:
  "\<exists>r jm'. reserve_batch 2 (example_queue (\<lambda>_. 5)) = Inr (Some r, jm') \<and>
     good_reservation (example_queue (\<lambda>_. 5)) 2 r \<and> queued_items jm' = queued_items (example_queue (\<lambda>_. 5))"
proof -
  let ?jm = "example_queue (\<lambda>_. 5)"
  have q: "\<forall>p. quantum (example_queue (\<lambda>_. 5)) p > 0" by (simp add: quantum_def example_queue_fields)
  note answer = reserve_batch_correct [OF example_queue_wf(1) example_queue_fields(1), of 2 "\<lambda>_. 5"]
  obtain r jm' where run: "reserve_batch 2 ?jm = Inr (Some r, jm')"
    using answer [THEN conjunct2, THEN conjunct2] q example_queue_fields(4) by blast
  then have "jm' = ?jm\<lparr>jm_active_reservation := Some r, jm_next_serial := Suc (jm_next_serial ?jm)\<rparr>" "good_reservation ?jm 2 r"
    using answer [THEN conjunct1] by auto
  moreover have "queued_items (?jm\<lparr>jm_active_reservation := a, jm_next_serial := s\<rparr>) = queued_items ?jm" for a s
    by (simp add: queued_items_def queued_at_def priorities_def)
  ultimately show ?thesis using run by metis
qed

theorem reserve_batch_starvation_and_fairness_witness:
  "\<exists>r jm'. reserve_batch 2 (example_queue (\<lambda>_. 5)) = Inr (Some r, jm') \<and>
     (\<exists>key advance cands advs jm''. build_candidate_pool key (example_queue (\<lambda>_. 5)) = (cands, advs, example_queue (\<lambda>_. 5)) \<and>
       reserved_from (example_queue (\<lambda>_. 5)) 2 cands advance advs r \<and> commit_reservation r jm' = Inr jm'')"
proof -
  obtain key advance where anchor: "anchor_partition (example_queue (\<lambda>_. 5)) = ((key, advance), example_queue (\<lambda>_. 5))"
    and key: "key \<in> set (present_partitions (example_queue (\<lambda>_. 5)))"
    using anchor_partition_ok [OF example_queue_wf(1) example_queue_fields(4)] by blast
  have "map_sum id (\<lambda>(r, jm'). r \<noteq> None) (reserve_batch 2 (example_queue (\<lambda>_. 5))) = Inr True" by code_simp
  then obtain r jm' where run: "reserve_batch 2 (example_queue (\<lambda>_. 5)) = Inr (Some r, jm')"
    by (cases "reserve_batch 2 (example_queue (\<lambda>_. 5))") auto
  show ?thesis
    using reserve_batch_starvation_and_fairness [OF example_queue_wf(1) example_queue_fields(1) run] run by blast
qed

text \<open>
  C31: A partition whose queued items all have a priority with quantum 0 blocks the whole queue
  when its turn comes and no queued item is starved yet: no batch is formed although work is queued, perhaps for other partitions,
  the turn does not pass on, no miss counter rises, and asking again changes nothing.
\<close>

theorem reserve_batch_blocked:
  assumes "jm_wf jm" and "jm_active_reservation jm = None" and "queued_items jm \<noteq> []"
    and "\<forall>i \<in> set (queued_items jm). \<not> is_starved jm i"
    and "\<forall>p. quantum jm p > 0 \<longrightarrow> of_partition jm (hd (jm_rr_partition_order jm)) p = []"
  shows "let jm' = jm\<lparr>jm_not_empty := False\<rparr>
    in reserve_batch n jm = Inr (None, jm') \<and> has_work jm' \<and> wait_returns jm' \<and> reserve_batch n jm' = Inr (None, jm')"
proof -
  have stuck: "reserve_batch n jm = Inr (None, jm\<lparr>jm_not_empty := False\<rparr>)"
    if wf: "jm_wf jm" and free: "jm_active_reservation jm = None" and work: "queued_items jm \<noteq> []"
      and calm: "\<forall>i \<in> set (queued_items jm). \<not> is_starved jm i"
      and none: "\<forall>p. quantum jm p > 0 \<longrightarrow> of_partition jm (hd (jm_rr_partition_order jm)) p = []" for jm :: "'a job_manager"
  proof -
    have "filter (is_starved jm) (queued_items jm) = []" using calm by (simp add: filter_empty_conv)
    then obtain advance where anchor: "anchor_partition jm = ((hd (jm_rr_partition_order jm), advance), jm)"
      using anchor_partition_ok [OF wf work] by auto
    obtain cands advs where pool: "build_candidate_pool (hd (jm_rr_partition_order jm)) jm = (cands, advs, jm)"
      "mset cands \<subseteq># mset (filter (\<lambda>i. item_partition jm i = hd (jm_rr_partition_order jm)) (queued_items jm))"
      "length cands = sum_list (map (\<lambda>p. min (quantum jm p) (length (of_partition jm (hd (jm_rr_partition_order jm)) p))) priorities)"
      using build_candidate_pool_ok [OF wf] by blast
    have "min (quantum jm p) (length (of_partition jm (hd (jm_rr_partition_order jm)) p)) = 0" for p
      using none by (cases "quantum jm p") auto
    then have "cands = []" using pool(3) by (simp add: priorities_def)
    then show ?thesis using affinity.reserve_run [OF wf free work anchor pool(1,2), of n] by (simp add: reserve_batch_def)
  qed
  let ?jm' = "jm\<lparr>jm_not_empty := False\<rparr>"
  have same: "is_starved ?jm' = is_starved jm" "quantum ?jm' = quantum jm" "of_partition ?jm' = of_partition jm"
    by (auto simp: fun_eq_iff is_starved_def quantum_def of_partition_def queued_at_def)
  have "reserve_batch n ?jm' = Inr (None, ?jm'\<lparr>jm_not_empty := False\<rparr>)"
    by (rule stuck) (use assms same in simp_all)
  then show ?thesis using stuck [OF assms] assms(3) by (simp add: has_work_iff wait_returns_def)
qed

theorem reserve_batch_blocked_witness:
  "let jm = example_queue (\<lambda>p. if p = LOW then 0 else 5)
   in reserve_batch 2 jm = Inr (None, jm\<lparr>jm_not_empty := False\<rparr>) \<and>
      example_item ''b'' ''v'' HIGH \<in> set (queued_items jm) \<and> quantum jm HIGH = 5"
proof -
  let ?jm = "example_queue (\<lambda>p. if p = LOW then 0 else 5)"
  have items: "set (queued_items ?jm) = {example_item ''a'' ''u'' LOW, example_item ''b'' ''v'' HIGH}"
    using arg_cong [OF example_queue_wf(2), of set_mset] by auto
  have calm: "\<forall>i \<in> set (queued_items ?jm). \<not> is_starved ?jm i"
    by (simp add: items is_starved_def example_queue_fields example_item_def)
  have "map (\<lambda>p. of_partition ?jm (hd (jm_rr_partition_order ?jm)) p = []) [HIGH, MEDIUM] = [True, True]" by code_simp
  then have "\<forall>p. quantum ?jm p > 0 \<longrightarrow> of_partition ?jm (hd (jm_rr_partition_order ?jm)) p = []"
    by (simp add: quantum_def example_queue_fields all_priority)
  from reserve_batch_blocked [OF example_queue_wf(1) example_queue_fields(1,4) calm this, where n = 2] items
  show ?thesis by (simp add: Let_def quantum_def example_queue_fields)
qed

section \<open>Draining the queue\<close>

definition ready :: "'d job_manager \<Rightarrow> bool" where
  "ready jm \<longleftrightarrow> jm_wf jm \<and> jm_active_reservation jm = None \<and> list_all (\<lambda>p. quantum jm p > 0) priorities"

definition pending_ids :: "'d job_manager \<Rightarrow> string multiset" where
  "pending_ids jm = mset (map wi_workflow_id (queued_items jm))"

definition selection_ids :: "'d batch_selection \<Rightarrow> string multiset" where
  "selection_ids sel = mset (map wi_workflow_id (bs_workflows sel))"

lemma mset_filter_split:
  assumes "distinct (map f xs)" and "distinct ws" and "set ws \<subseteq> f ` set xs"
  shows "mset (map f xs) = mset ws + mset (map f (filter (\<lambda>x. f x \<notin> set ws) xs))"
proof -
  have split: "mset (map f xs) = mset (map f (filter (\<lambda>x. f x \<in> set ws) xs)) + mset (map f (filter (\<lambda>x. f x \<notin> set ws) xs))"
    by (induction xs) auto
  have "distinct (map f (filter (\<lambda>x. f x \<in> set ws) xs))" using assms(1) by (rule distinct_map_filter)
  moreover have "set (map f (filter (\<lambda>x. f x \<in> set ws) xs)) = set ws" using assms(3) by auto
  ultimately have "mset (map f (filter (\<lambda>x. f x \<in> set ws) xs)) = mset ws" using assms(2) by (metis set_eq_iff_mset_eq_distinct)
  with split show ?thesis by simp
qed

lemma select_batch_run:
  assumes "ready jm"
  shows "if queued_items jm = [] then select_batch n jm = Inr (None, jm\<lparr>jm_not_empty := False\<rparr>)
    else \<exists>sel jm'. select_batch n jm = Inr (Some sel, jm') \<and> ready jm' \<and> selection_ids sel \<noteq> {#} \<and>
      pending_ids jm = selection_ids sel + pending_ids jm'"
proof (cases "queued_items jm = []")
  case True
  then show ?thesis
    using assms by (simp add: select_batch_def reserve_batch_def reserve_with_def present_nonempty ready_def)
next
  case work: False
  have wf: "jm_wf jm" and free: "jm_active_reservation jm = None" and q: "\<forall>p. quantum jm p > 0"
    using assms by (auto simp: ready_def list_all_iff)
  obtain key advance where anchor: "anchor_partition jm = ((key, advance), jm)" and key: "key \<in> set (present_partitions jm)"
    using anchor_partition_ok [OF wf work] by blast
  obtain cands advs where pool: "build_candidate_pool key jm = (cands, advs, jm)"
    "mset cands \<subseteq># mset (filter (\<lambda>i. item_partition jm i = key) (queued_items jm))"
    "length cands = sum_list (map (\<lambda>p. min (quantum jm p) (length (of_partition jm key p))) priorities)"
    using build_candidate_pool_ok [OF wf] by blast
  obtain i where i: "i \<in> set (queued_items jm)" "item_partition jm i = key"
    using key by (auto simp: set_present_partitions)
  then obtain p where "i \<in> set (of_partition jm key p)" by (auto simp: set_queued_items of_partition_def)
  then have "of_partition jm key p \<noteq> []" by auto
  then have "min (quantum jm p) (length (of_partition jm key p)) > 0" using q by simp
  moreover have "min (quantum jm p) (length (of_partition jm key p)) \<le> length cands"
    unfolding pool(3) by (rule member_le_sum_list) simp_all
  ultimately have "0 < length cands" by (rule less_le_trans)
  then have ne: "cands \<noteq> []" by simp
  define jm1 where "jm1 = (\<lambda>r. jm\<lparr>jm_active_reservation := Some r, jm_next_serial := Suc (jm_next_serial jm)\<rparr>)"
  obtain r where run: "reserve_batch n jm = Inr (Some r, jm1 r)" and good: "good_reservation jm n r"
    and src: "reserved_from jm n cands advance advs r"
    using affinity.reserve_run [OF wf free work anchor pool(1,2), of n] ne by (auto simp: reserve_batch_def jm1_def)
  have items: "queued_items (jm1 r) = queued_items jm" by (simp add: jm1_def queued_items_def queued_at_def priorities_def)
  have part: "item_partition (jm1 r) = item_partition jm" by (rule item_partition_cong) (simp add: jm1_def)
  have "queue_wf (jm1 r) = queue_wf jm" by (simp add: fun_eq_iff jm1_def queue_wf_def)
  then have wf1: "jm_wf (jm1 r)" using wf unfolding jm_wf_def items part by (simp add: jm1_def)
  have act: "is_active (jm1 r) r" by (simp add: is_active_def jm1_def)
  have ids: "distinct (map wi_workflow_id (queued_items jm))" by (rule jm_wfD(2) [OF wf])
  have "mset (map wi_workflow_id cands) \<subseteq># mset (map wi_workflow_id (filter (\<lambda>i. item_partition jm i = key) (queued_items jm)))"
    using image_mset_subseteq_mono [OF pool(2)] by simp
  then have "distinct (map wi_workflow_id cands)" using distinct_map_filter [OF ids] distinct_submset by blast
  then have dist: "distinct (rp_miss_increment_targets (rv_payload r))"
    using src by (simp add: reserved_from_def Let_def)
  obtain jm' where commit: "commit_reservation r (jm1 r) = Inr jm'" "jm_wf jm'" "jm_active_reservation jm' = None"
    "queued_items jm' = map (missed (jm1 r) (rp_miss_increment_targets (rv_payload r)))
      (filter (\<lambda>i. wi_workflow_id i \<notin> set (rp_selected_workflow_ids (rv_payload r))) (queued_items (jm1 r)))"
    "jm_quantums jm' = jm_quantums (jm1 r)"
    using commit_run [OF wf1 act dist] by blast
  let ?sel = "rv_selection r"
  have sel: "rp_selected_workflow_ids (rv_payload r) = map wi_workflow_id (bs_workflows ?sel)" "bs_workflows ?sel \<noteq> []"
    "distinct (map wi_workflow_id (bs_workflows ?sel))" "set (bs_workflows ?sel) \<subseteq> set (queued_items jm)"
    using good by (auto simp: good_reservation_def Let_def list_all_iff)
  have wid: "wi_workflow_id (missed (jm1 r) t i) = wi_workflow_id i" for t i by (simp add: missed_def)
  have "pending_ids jm = selection_ids ?sel + pending_ids jm'"
    using mset_filter_split [OF ids sel(3)] sel(4) unfolding pending_ids_def selection_ids_def commit(4) items sel(1)
    by (simp add: o_def wid image_mono)
  moreover have "selection_ids ?sel \<noteq> {#}" using sel(2) by (simp add: selection_ids_def)
  moreover have "ready jm'" using commit(2,3,5) q by (simp add: ready_def quantum_def jm1_def list_all_iff)
  ultimately show ?thesis using work run commit(1) by (simp add: select_batch_def)
qed

text \<open>
  A consumer that keeps asking for batches, as the scheduler does, and the contract it needs from
  the manager: from a state that is ready, work yields a non-empty batch and the rest stays.
\<close>

fun drain :: "nat \<Rightarrow> ('s \<Rightarrow> ('b option \<times> 's) result) \<Rightarrow> 's \<Rightarrow> ('b list \<times> 's) result" where
  "drain 0 pull s = Inr ([], s)"
| "drain (Suc k) pull s =
     ebind (pull s) (\<lambda>(b, s'). case b of
        None \<Rightarrow> Inr ([], s')
      | Some b \<Rightarrow> ebind (drain k pull s') (\<lambda>(bs, s''). Inr (b # bs, s'')))"

locale batch_source =
  fixes pull :: "'s \<Rightarrow> ('b option \<times> 's) result" and pending :: "'s \<Rightarrow> 'i multiset"
    and content :: "'b \<Rightarrow> 'i multiset" and good :: "'s \<Rightarrow> bool"
  assumes pull_some: "good s \<Longrightarrow> pending s \<noteq> {#} \<Longrightarrow>
      \<exists>b s'. pull s = Inr (Some b, s') \<and> good s' \<and> content b \<noteq> {#} \<and> pending s = content b + pending s'"
    and pull_none: "good s \<Longrightarrow> pending s = {#} \<Longrightarrow> \<exists>s'. pull s = Inr (None, s') \<and> good s' \<and> pending s' = {#}"
begin

lemma drain_all:
  assumes "good s" and "size (pending s) \<le> k"
  shows "\<exists>bs s'. drain k pull s = Inr (bs, s') \<and> good s' \<and> pending s' = {#} \<and> pending s = sum_list (map content bs)"
  using assms
proof (induction k arbitrary: s)
  case (Suc k)
  show ?case
  proof (cases "pending s = {#}")
    case True
    then show ?thesis using pull_none [OF Suc.prems(1)] by auto
  next
    case False
    then obtain b s1 where b: "pull s = Inr (Some b, s1)" "good s1" "content b \<noteq> {#}" "pending s = content b + pending s1"
      using pull_some [OF Suc.prems(1)] by blast
    have "0 < size (content b)" using b(3) by (simp add: nonempty_has_size)
    then have "size (pending s1) \<le> k" using Suc.prems(2) b(4) by simp
    then obtain bs s2 where "drain k pull s1 = Inr (bs, s2)" "good s2" "pending s2 = {#}" "pending s1 = sum_list (map content bs)"
      using Suc.IH [OF b(2)] by blast
    then show ?thesis using b by (intro exI [of _ "b # bs"] exI [of _ s2]) simp
  qed
qed auto

end

interpretation priority_source: batch_source "select_batch n" pending_ids selection_ids ready for n
proof
  fix jm :: "'a job_manager" assume ready: "ready jm"
  have empty: "pending_ids jm = {#} \<longleftrightarrow> queued_items jm = []" by (simp add: pending_ids_def)
  note run = select_batch_run [OF ready, of n]
  show "\<exists>b s'. select_batch n jm = Inr (Some b, s') \<and> ready s' \<and> selection_ids b \<noteq> {#} \<and> pending_ids jm = selection_ids b + pending_ids s'"
    if "pending_ids jm \<noteq> {#}" using run that empty by auto
  show "\<exists>s'. select_batch n jm = Inr (None, s') \<and> ready s' \<and> pending_ids s' = {#}" if none: "pending_ids jm = {#}"
  proof -
    have "ready (jm\<lparr>jm_not_empty := False\<rparr>)" using ready by (simp add: ready_def quantum_def list_all_iff)
    moreover have "pending_ids (jm\<lparr>jm_not_empty := False\<rparr>) = {#}" using none by (simp add: pending_ids_def)
    ultimately show ?thesis using run none empty by simp
  qed
qed

text \<open>
  C24: No queued workflow is lost, served twice or kept waiting forever: with positive quantums,
  asking for batches as often as there are queued workflows empties the queue, and the batches
  together contain exactly the workflows that were queued.
\<close>

theorem queue_drains:
  assumes "ready jm" and "length (queued_items jm) \<le> k"
  shows "\<exists>batches jm'. drain k (select_batch n) jm = Inr (batches, jm') \<and> ready jm' \<and> queued_items jm' = [] \<and>
    mset (map wi_workflow_id (queued_items jm)) = mset (map wi_workflow_id (concat (map bs_workflows batches)))"
proof -
  have sum: "sum_list (map selection_ids bs) = mset (map wi_workflow_id (concat (map bs_workflows bs)))" for bs :: "'a batch_selection list"
    by (induction bs) (simp_all add: selection_ids_def)
  have "size (pending_ids jm) \<le> k" using assms(2) by (simp add: pending_ids_def)
  from priority_source.drain_all [OF assms(1) this, of n] show ?thesis
    by (auto simp: pending_ids_def sum [unfolded o_def])
qed

theorem queue_drains_witness:
  "\<exists>batches jm'. drain 2 (select_batch 1) (example_queue (\<lambda>_. 5)) = Inr (batches, jm') \<and> queued_items jm' = [] \<and>
     mset (map wi_workflow_id (concat (map bs_workflows batches))) = {#''a'', ''b''#}"
proof -
  let ?jm = "example_queue (\<lambda>_. 5)"
  have ready: "ready ?jm" by (simp add: ready_def example_queue_wf example_queue_fields quantum_def list_all_iff)
  have "length (queued_items ?jm) = size (mset (queued_items ?jm))" by simp
  then have len: "length (queued_items ?jm) \<le> 2" unfolding example_queue_wf(2) by simp
  have "mset (map wi_workflow_id (queued_items ?jm)) = image_mset wi_workflow_id (mset (queued_items ?jm))" by simp
  also have "\<dots> = {#''a'', ''b''#}" unfolding example_queue_wf(2) by (simp add: example_item_def)
  finally show ?thesis using queue_drains [OF ready len, of 1] by auto
qed

theorem commit_reservation_correct_witness:
  "\<exists>r jm1 jm2. reserve_batch 1 (example_queue (\<lambda>_. 5)) = Inr (Some r, jm1) \<and> commit_reservation r jm1 = Inr jm2 \<and>
     jm_wf jm1 \<and> length (queued_items jm1) = 2 \<and> length (queued_items jm2) = 1"
proof -
  let ?q = "example_queue (\<lambda>_. 5)"
  have "map_sum id (\<lambda>(r, jm1). case r of None \<Rightarrow> False | Some r \<Rightarrow> jm_wf jm1 \<and> is_active jm1 r \<and>
      distinct (rp_miss_increment_targets (rv_payload r)) \<and> length (queued_items jm1) = 2 \<and>
      length (filter (\<lambda>i. wi_workflow_id i \<notin> set (rp_selected_workflow_ids (rv_payload r))) (queued_items jm1)) = 1)
    (reserve_batch 1 ?q) = Inr True" by code_simp
  then obtain r jm1 where r: "reserve_batch 1 ?q = Inr (Some r, jm1)" "jm_wf jm1" "is_active jm1 r"
    "distinct (rp_miss_increment_targets (rv_payload r))" "length (queued_items jm1) = 2"
    "length (filter (\<lambda>i. wi_workflow_id i \<notin> set (rp_selected_workflow_ids (rv_payload r))) (queued_items jm1)) = 1"
    by (cases "reserve_batch 1 ?q") (auto split: option.splits)
  obtain jm2 where "commit_reservation r jm1 = Inr jm2" "queued_items jm2 = map (missed jm1 (rp_miss_increment_targets (rv_payload r)))
      (filter (\<lambda>i. wi_workflow_id i \<notin> set (rp_selected_workflow_ids (rv_payload r))) (queued_items jm1))"
    using commit_reservation_correct [OF r(2,3,4)] by blast
  then show ?thesis using r(1,2,5,6) by (metis length_map)
qed


theorem reservation_protocol_witness:
  "\<exists>r jm1. reserve_batch 1 (example_queue (\<lambda>_. 5)) = Inr (Some r, jm1) \<and>
     reserve_batch 1 jm1 = Inl (RuntimeError ''already has an outstanding reservation'') \<and>
     (\<exists>jm2. abort_reservation r jm1 = Inr jm2 \<and> jm_queues jm2 = jm_queues (example_queue (\<lambda>_. 5)))"
proof -
  let ?q = "example_queue (\<lambda>_. 5)"
  have "map_sum id (\<lambda>(r, jm1). r \<noteq> None \<and> jm_active_reservation jm1 \<noteq> None) (reserve_batch 1 ?q) = Inr True" by code_simp
  then obtain r jm1 where r: "reserve_batch 1 ?q = Inr (Some r, jm1)" "jm_active_reservation jm1 \<noteq> None"
    by (cases "reserve_batch 1 ?q") auto
  have "abort_reservation r jm1 = Inr (?q\<lparr>jm_next_serial := Suc (jm_next_serial ?q)\<rparr>)"
    using reservation_protocol [where jm = ?q and n = 1 and r = r and jm' = jm1] example_queue_wf(1) r(1) by blast
  moreover have "reserve_batch 1 jm1 = Inl (RuntimeError ''already has an outstanding reservation'')"
    using reservation_protocol [where jm = jm1 and n = 1 and r = r and jm' = jm1] r(2) by blast
  ultimately show ?thesis using r(1) by simp
qed

end
