(* ===== verification/Channels.thy ===== *)
theory Channels
  imports Prelude
begin

text \<open>
  The queues and the event loop of the runtime (\<open>runtime/utils/queue.py\<close>, \<open>loop.py\<close>): the two
  channel implementations with their close signal, the life cycle of a loop and the events it
  handles, and the waiter protocol of the thread-safe channel as an interleaving of steps.
\<close>

section \<open>Channels\<close>

datatype 'a message = Msg 'a | CloseSignal

record 'a channel =
  ch_queue :: "'a message list"
  ch_closed :: bool

definition new_channel :: "'a channel" where
  "new_channel = \<lparr>ch_queue = [], ch_closed = False\<rparr>"

definition unwrap_message :: "'a message \<Rightarrow> 'a channel \<Rightarrow> 'a result \<times> 'a channel" where
  "unwrap_message m ch =
     (case m of CloseSignal \<Rightarrow> (Inl CancelledError, ch\<lparr>ch_closed := True\<rparr>) | Msg x \<Rightarrow> (Inr x, ch))"

definition get_nowait :: "'a channel \<Rightarrow> 'a result \<times> 'a channel" where
  "get_nowait ch =
     (case ch_queue ch of
        [] \<Rightarrow> (Inl QueueEmpty, ch)
      | m # ms \<Rightarrow> unwrap_message m (ch\<lparr>ch_queue := ms\<rparr>))"

text \<open>A blocking \<open>get\<close> that has to wait for another message is \<open>None\<close>.\<close>

definition aio_get :: "'a channel \<Rightarrow> ('a result \<times> 'a channel) option" where
  "aio_get ch =
     (case ch_queue ch of
        [] \<Rightarrow> None
      | m # ms \<Rightarrow> Some (unwrap_message m (ch\<lparr>ch_queue := ms\<rparr>)))"

definition ts_get :: "'a channel \<Rightarrow> ('a result \<times> 'a channel) option" where
  "ts_get ch =
     (case get_nowait ch of
        (Inl QueueEmpty, ch') \<Rightarrow> if ch_closed ch' then Some (Inl CancelledError, ch') else None
      | r \<Rightarrow> Some r)"

text \<open>The loop of \<open>get_all\<close>: the rest of the queue up to a close signal, which is consumed.\<close>

fun take_messages :: "'a message list \<Rightarrow> 'a list \<times> 'a message list \<times> bool" where
  "take_messages [] = ([], [], False)"
| "take_messages (CloseSignal # ms) = ([], ms, True)"
| "take_messages (Msg x # ms) = (case take_messages ms of (xs, rest, seen) \<Rightarrow> (x # xs, rest, seen))"

definition get_all ::
  "('a channel \<Rightarrow> ('a result \<times> 'a channel) option) \<Rightarrow> 'a channel \<Rightarrow> ('a list result \<times> 'a channel) option" where
  "get_all get ch =
     (case get ch of
        None \<Rightarrow> None
      | Some (Inl e, ch') \<Rightarrow> Some (Inl e, ch')
      | Some (Inr x, ch') \<Rightarrow>
          (case take_messages (ch_queue ch') of (xs, rest, seen) \<Rightarrow>
             Some (Inr (x # xs), ch'\<lparr>ch_queue := rest, ch_closed := ch_closed ch' \<or> seen\<rparr>)))"

definition put_nowait :: "'a \<Rightarrow> 'a channel \<Rightarrow> 'a channel result" where
  "put_nowait x ch = (if ch_closed ch then Inl CancelledError else Inr (ch\<lparr>ch_queue := ch_queue ch @ [Msg x]\<rparr>))"

definition channel_empty :: "'a channel \<Rightarrow> bool" where
  "channel_empty ch \<longleftrightarrow> ch_queue ch = []"

definition close_channel :: "'a channel \<Rightarrow> 'a channel" where
  "close_channel ch = (if ch_closed ch then ch else ch\<lparr>ch_closed := True, ch_queue := ch_queue ch @ [CloseSignal]\<rparr>)"

section \<open>The event loop\<close>

record 'e event_loop =
  el_channel :: "'e channel"
  el_started :: bool
  el_stopped :: bool
  el_task :: bool

definition new_loop :: "'e event_loop" where
  "new_loop = \<lparr>el_channel = new_channel, el_started = False, el_stopped = False, el_task = False\<rparr>"

definition is_running :: "'e event_loop \<Rightarrow> bool" where
  "is_running el \<longleftrightarrow> el_started el \<and> \<not> el_stopped el"

definition check_running :: "'e event_loop \<Rightarrow> unit result" where
  "check_running el =
     (if \<not> el_started el then Inl (ValueError ''Event loop has not been started.'')
      else if el_stopped el then Inl (ValueError ''Event loop has been stopped.'') else Inr ())"

definition start_loop :: "'e event_loop \<Rightarrow> 'e event_loop result" where
  "start_loop el =
     (if el_started el then Inr el
      else if el_task el then Inl AssertionError
      else Inr (el\<lparr>el_task := True, el_started := True\<rparr>))"

definition add_event :: "'e \<Rightarrow> 'e event_loop \<Rightarrow> 'e event_loop result" where
  "add_event e el =
     ebind (check_running el) (\<lambda>_. ebind (put_nowait e (el_channel el)) (\<lambda>ch. Inr (el\<lparr>el_channel := ch\<rparr>)))"

text \<open>
  \<open>_loop_func\<close>: handle one message after the other until \<open>get\<close> raises or the handler does. The
  outcome is the exception that ended the loop, or \<open>None\<close> when the loop waits for a message. The
  loop takes one message per round, so the length of the queue bounds the rounds.
\<close>

fun loop_func ::
  "nat \<Rightarrow> ('q \<Rightarrow> ('e result \<times> 'q) option) \<Rightarrow> ('e \<Rightarrow> 's \<Rightarrow> 's result) \<Rightarrow> 'q \<Rightarrow> 's
     \<Rightarrow> py_error option \<times> 'q \<times> 's" where
  "loop_func 0 get handler ch s = (Some Diverges, ch, s)"
| "loop_func (Suc n) get handler ch s =
     (case get ch of
        None \<Rightarrow> (None, ch, s)
      | Some (Inl e, ch') \<Rightarrow> (Some e, ch', s)
      | Some (Inr x, ch') \<Rightarrow>
          (case handler x s of
             Inl e \<Rightarrow> (Some e, ch', s)
           | Inr s' \<Rightarrow> loop_func n get handler ch' s'))"

definition run_loop ::
  "('e channel \<Rightarrow> ('e result \<times> 'e channel) option) \<Rightarrow> ('e \<Rightarrow> 's \<Rightarrow> 's result) \<Rightarrow> 'e channel \<Rightarrow> 's
     \<Rightarrow> py_error option \<times> 'e channel \<times> 's" where
  "run_loop get handler ch s = loop_func (Suc (length (ch_queue ch))) get handler ch s"

text \<open>
  The decorator around \<open>loop\<close> (\<open>log_on_exception_async\<close>): what it lets through of an exception. An
  object without a logger, as the event loop is, swallows every exception.
\<close>

definition log_on_exception :: "bool \<Rightarrow> (py_error \<Rightarrow> bool) \<Rightarrow> py_error \<Rightarrow> py_error option" where
  "log_on_exception has_logger ignored e = (if \<not> has_logger then None else if ignored e then None else Some e)"

definition loop_exception :: "py_error \<Rightarrow> py_error option" where
  "loop_exception e = log_on_exception False (\<lambda>e. e = CancelledError) e"

text \<open>
  \<open>join\<close> awaits the task, which runs \<open>loop\<close>: \<open>None\<close> when the loop waits for a message, otherwise the
  loop and the handler's state after it.
\<close>

definition join_loop ::
  "('e channel \<Rightarrow> ('e result \<times> 'e channel) option) \<Rightarrow> ('e \<Rightarrow> 's \<Rightarrow> 's result) \<Rightarrow> 'e event_loop \<Rightarrow> 's
     \<Rightarrow> ('e event_loop \<times> 's) result option" where
  "join_loop get handler el s =
     (if el_stopped el then Some (Inr (el, s))
      else if \<not> el_task el then Some (Inl AssertionError)
      else case run_loop get handler (el_channel el) s of
        (None, _, _) \<Rightarrow> None
      | (Some e, ch, s') \<Rightarrow>
          (case loop_exception e of
             Some e' \<Rightarrow> Some (Inl e')
           | None \<Rightarrow> Some (Inr (el\<lparr>el_channel := ch, el_task := False, el_stopped := True\<rparr>, s'))))"

definition stop_loop ::
  "('e channel \<Rightarrow> ('e result \<times> 'e channel) option) \<Rightarrow> ('e \<Rightarrow> 's \<Rightarrow> 's result) \<Rightarrow> 'e event_loop \<Rightarrow> 's
     \<Rightarrow> ('e event_loop \<times> 's) result option" where
  "stop_loop get handler el s = join_loop get handler (el\<lparr>el_channel := close_channel (el_channel el)\<rparr>) s"

section \<open>First in, first out\<close>

text \<open>The events of a list up to the first one whose handler raises.\<close>

fun handle_events :: "('e \<Rightarrow> 's \<Rightarrow> 's result) \<Rightarrow> 'e list \<Rightarrow> 's \<Rightarrow> py_error option \<times> 'e list \<times> 's" where
  "handle_events handler [] s = (None, [], s)"
| "handle_events handler (x # xs) s =
     (case handler x s of Inl e \<Rightarrow> (Some e, xs, s) | Inr s' \<Rightarrow> handle_events handler xs s')"

lemma handle_events_efold: "efold handler xs s = Inr t \<Longrightarrow> handle_events handler xs s = (None, [], t)"
  by (induction xs arbitrary: s) (auto simp: result_simps)

lemma handle_events_fails:
  "efold handler xs s = Inr t \<Longrightarrow> handler x t = Inl e \<Longrightarrow> handle_events handler (xs @ x # ys) s = (Some e, ys, t)"
  by (induction xs arbitrary: s) (auto simp: result_simps)

text \<open>
  What a consumer relies on: messages come out in the order they went in, a closed channel takes
  no more of them, and after the last one \<open>get\<close> raises instead of waiting.
\<close>

locale fifo_channel =
  fixes get :: "'q \<Rightarrow> ('a result \<times> 'q) option" and put :: "'a \<Rightarrow> 'q \<Rightarrow> 'q result" and close :: "'q \<Rightarrow> 'q"
    and contents :: "'q \<Rightarrow> 'a list" and opened :: "'q \<Rightarrow> bool" and ending :: "'q \<Rightarrow> bool"
  assumes put_open: "opened q \<Longrightarrow> \<exists>q'. put x q = Inr q' \<and> opened q' \<and> contents q' = contents q @ [x]"
    and put_ending: "ending q \<Longrightarrow> put x q = Inl CancelledError"
    and close_open: "opened q \<Longrightarrow> ending (close q) \<and> contents (close q) = contents q"
    and get_first: "opened q \<or> ending q \<Longrightarrow> contents q = x # xs \<Longrightarrow>
      \<exists>q'. get q = Some (Inr x, q') \<and> contents q' = xs \<and> opened q' = opened q \<and> ending q' = ending q"
    and get_waits: "opened q \<Longrightarrow> contents q = [] \<Longrightarrow> get q = None"
    and get_ends: "ending q \<Longrightarrow> contents q = [] \<Longrightarrow> \<exists>q'. get q = Some (Inl CancelledError, q')"
begin

lemma put_all: "opened q \<Longrightarrow> \<exists>q'. efold put xs q = Inr q' \<and> opened q' \<and> contents q' = contents q @ xs"
proof (induction xs arbitrary: q)
  case (Cons x xs)
  obtain q1 where q1: "put x q = Inr q1" "opened q1" "contents q1 = contents q @ [x]" using put_open [OF Cons.prems] by blast
  from Cons.IH [OF q1(2)] q1 show ?case by auto
qed simp

text \<open>
  The loop handles the contents in order. It ends with the first exception of the handler, or with
  the close signal when all are handled, or waits.
\<close>

lemma loop_handles:
  assumes "opened q \<or> ending q" and "\<not> (opened q \<and> ending q)" and "length (contents q) < n"
    and "handle_events handler (contents q) s = (ended, rest, t)"
  shows "\<exists>q'. loop_func n get handler q s =
      (case ended of Some e \<Rightarrow> Some e | None \<Rightarrow> if ending q then Some CancelledError else None, q', t) \<and>
    (ended \<noteq> None \<longrightarrow> contents q' = rest \<and> opened q' = opened q \<and> ending q' = ending q)"
  using assms
proof (induction n arbitrary: q s)
  case (Suc n)
  show ?case
  proof (cases "contents q")
    case Nil
    then have r: "ended = None" "t = s" using Suc.prems(4) by auto
    show ?thesis
    proof (cases "ending q")
      case True
      then show ?thesis using get_ends [OF True Nil] r by auto
    next
      case False
      then show ?thesis using get_waits [OF _ Nil] Suc.prems(1) r by auto
    qed
  next
    case (Cons x xs)
    obtain q1 where q1: "get q = Some (Inr x, q1)" "contents q1 = xs" "opened q1 = opened q" "ending q1 = ending q"
      using get_first [OF Suc.prems(1) Cons] by blast
    show ?thesis
    proof (cases "handler x s")
      case (Inl e)
      then show ?thesis using q1 Cons Suc.prems(4) by auto
    next
      case (Inr s1)
      then have "handle_events handler (contents q1) s1 = (ended, rest, t)" using Suc.prems(4) Cons q1(2) by simp
      moreover have "opened q1 \<or> ending q1" "\<not> (opened q1 \<and> ending q1)" "length (contents q1) < n"
        using Suc.prems(1-3) q1 Cons by auto
      ultimately have "\<exists>q'. loop_func n get handler q1 s1 =
          (case ended of Some e \<Rightarrow> Some e | None \<Rightarrow> if ending q then Some CancelledError else None, q', t) \<and>
        (ended \<noteq> None \<longrightarrow> contents q' = rest \<and> opened q' = opened q \<and> ending q' = ending q)"
        using Suc.IH [of q1 s1] unfolding q1(3,4) by blast
      moreover have "loop_func (Suc n) get handler q s = loop_func n get handler q1 s1" using q1(1) Inr by simp
      ultimately show ?thesis by simp
    qed
  qed
qed simp

end

definition contents :: "'a channel \<Rightarrow> 'a list" where
  "contents ch = fst (take_messages (ch_queue ch))"

definition opened :: "'a channel \<Rightarrow> bool" where
  "opened ch \<longleftrightarrow> \<not> ch_closed ch \<and> list_all (\<lambda>m. m \<noteq> CloseSignal) (ch_queue ch)"

text \<open>Closed, and the signal is still the last message of the queue.\<close>

definition ending :: "'a channel \<Rightarrow> bool" where
  "ending ch \<longleftrightarrow> ch_closed ch \<and> ch_queue ch = map Msg (contents ch) @ [CloseSignal]"

lemma take_messages_app:
  "list_all (\<lambda>m. m \<noteq> CloseSignal) ms \<Longrightarrow> fst (take_messages (ms @ ns)) = fst (take_messages ms) @ fst (take_messages ns)"
  by (induction ms rule: take_messages.induct) (auto split: prod.splits)

lemma take_messages_all:
  "list_all (\<lambda>m. m \<noteq> CloseSignal) ms \<Longrightarrow> ms = map Msg (fst (take_messages ms))"
  by (induction ms rule: take_messages.induct) (auto split: prod.splits)

lemma take_messages_Msg [simp]: "fst (take_messages (map Msg xs @ ms)) = xs @ fst (take_messages ms)"
  by (induction xs) (auto split: prod.splits)

lemma opened_queue: "opened ch \<Longrightarrow> ch_queue ch = map Msg (contents ch)"
  using take_messages_all by (auto simp: opened_def contents_def)

lemma put_opened: "opened ch \<Longrightarrow> put_nowait x ch = Inr (ch\<lparr>ch_queue := ch_queue ch @ [Msg x]\<rparr>) \<and>
    opened (ch\<lparr>ch_queue := ch_queue ch @ [Msg x]\<rparr>) \<and> contents (ch\<lparr>ch_queue := ch_queue ch @ [Msg x]\<rparr>) = contents ch @ [x]"
  by (auto simp: opened_def put_nowait_def contents_def take_messages_app)

lemma close_opened: "opened ch \<Longrightarrow> ending (close_channel ch) \<and> contents (close_channel ch) = contents ch"
  using opened_queue [of ch] by (auto simp: opened_def close_channel_def contents_def ending_def take_messages_app)

lemma ending_iff: "ending ch \<longleftrightarrow> ch_closed ch \<and> (\<exists>xs. ch_queue ch = map Msg xs @ [CloseSignal])"
proof
  assume "ch_closed ch \<and> (\<exists>xs. ch_queue ch = map Msg xs @ [CloseSignal])"
  then obtain xs where xs: "ch_closed ch" "ch_queue ch = map Msg xs @ [CloseSignal]" by blast
  then have "contents ch = xs" by (simp add: contents_def)
  with xs show "ending ch" by (simp add: ending_def)
qed (auto simp: ending_def)

lemma opened_iff: "opened ch \<longleftrightarrow> \<not> ch_closed ch \<and> (\<exists>xs. ch_queue ch = map Msg xs)"
proof
  show "\<not> ch_closed ch \<and> (\<exists>xs. ch_queue ch = map Msg xs)" if "opened ch"
    using opened_queue [OF that] that by (auto simp: opened_def)
qed (auto simp: opened_def list_all_iff)

text \<open>The next message of a channel with contents, and what is left.\<close>

lemma first_message:
  assumes "opened ch \<or> ending ch" and "contents ch = x # xs"
  obtains ms where "ch_queue ch = Msg x # ms" and "contents (ch\<lparr>ch_queue := ms\<rparr>) = xs"
    and "opened (ch\<lparr>ch_queue := ms\<rparr>) = opened ch" and "ending (ch\<lparr>ch_queue := ms\<rparr>) = ending ch"
proof -
  from assms obtain ms where q: "ch_queue ch = Msg x # ms" and ms: "ms = map Msg xs \<or> ms = map Msg xs @ [CloseSignal]"
    using opened_queue [of ch] by (cases "opened ch") (auto simp: ending_def)
  have "contents (ch\<lparr>ch_queue := ms\<rparr>) = xs"
    using ms by (auto simp: contents_def take_messages_Msg [of xs "[]", simplified])
  moreover have "opened (ch\<lparr>ch_queue := ms\<rparr>) = opened ch" by (simp add: opened_def q)
  moreover have "ending (ch\<lparr>ch_queue := ms\<rparr>) = ending ch"
  proof -
    have "(\<exists>ys. Msg x # ms = map Msg ys @ [CloseSignal]) \<longleftrightarrow> (\<exists>ys. ms = map Msg ys @ [CloseSignal])"
    proof
      assume "\<exists>ys. Msg x # ms = map Msg ys @ [CloseSignal]"
      then obtain ys where ys: "Msg x # ms = map Msg ys @ [CloseSignal]" by blast
      then show "\<exists>ys. ms = map Msg ys @ [CloseSignal]" by (cases ys) auto
    next
      assume "\<exists>ys. ms = map Msg ys @ [CloseSignal]"
      then obtain ys where "ms = map Msg ys @ [CloseSignal]" by blast
      then have "Msg x # ms = map Msg (x # ys) @ [CloseSignal]" by simp
      then show "\<exists>ys. Msg x # ms = map Msg ys @ [CloseSignal]" by blast
    qed
    then show ?thesis by (simp add: ending_iff q)
  qed
  ultimately show thesis using q that by blast
qed

lemma aio_get_first:
  "ch_queue ch = Msg x # ms \<Longrightarrow> aio_get ch = Some (Inr x, ch\<lparr>ch_queue := ms\<rparr>)"
  "ch_queue ch = [CloseSignal] \<Longrightarrow> aio_get ch = Some (Inl CancelledError, ch\<lparr>ch_queue := [], ch_closed := True\<rparr>)"
  by (simp_all add: aio_get_def unwrap_message_def)

lemma ts_get_first:
  "ch_queue ch = Msg x # ms \<Longrightarrow> ts_get ch = Some (Inr x, ch\<lparr>ch_queue := ms\<rparr>)"
  "ch_queue ch = [CloseSignal] \<Longrightarrow> ts_get ch = Some (Inl CancelledError, ch\<lparr>ch_queue := [], ch_closed := True\<rparr>)"
  by (simp_all add: ts_get_def get_nowait_def unwrap_message_def)

interpretation aio: fifo_channel aio_get put_nowait close_channel contents opened ending
proof
  show "\<exists>q'. aio_get q = Some (Inr x, q') \<and> contents q' = xs \<and> opened q' = opened q \<and> ending q' = ending q"
    if first: "opened q \<or> ending q" "contents q = x # xs" for q :: "'a channel" and x xs
  proof -
    obtain ms where ms: "ch_queue q = Msg x # ms" "contents (q\<lparr>ch_queue := ms\<rparr>) = xs"
      "opened (q\<lparr>ch_queue := ms\<rparr>) = opened q" "ending (q\<lparr>ch_queue := ms\<rparr>) = ending q"
      by (rule first_message [OF first])
    show ?thesis using aio_get_first(1) [OF ms(1)] ms(2-4) by (intro exI [of _ "q\<lparr>ch_queue := ms\<rparr>"]) simp
  qed
  show "\<exists>q'. aio_get q = Some (Inl CancelledError, q')" if "ending q" "contents q = []" for q :: "'a channel"
    using that aio_get_first(2) [of q] by (auto simp: ending_def)
  show "aio_get q = None" if "opened q" "contents q = []" for q :: "'a channel"
    using opened_queue [OF that(1)] that(2) by (simp add: aio_get_def)
  show "\<exists>q'. put_nowait x q = Inr q' \<and> opened q' \<and> contents q' = contents q @ [x]" if "opened q" for q :: "'a channel" and x
    using put_opened [OF that] by blast
  show "put_nowait x q = Inl CancelledError" if "ending q" for q :: "'a channel" and x
    using that by (simp add: ending_def put_nowait_def)
  show "ending (close_channel q) \<and> contents (close_channel q) = contents q" if "opened q" for q :: "'a channel"
    using close_opened [OF that] .
qed

interpretation ts: fifo_channel ts_get put_nowait close_channel contents opened ending
proof
  show "\<exists>q'. ts_get q = Some (Inr x, q') \<and> contents q' = xs \<and> opened q' = opened q \<and> ending q' = ending q"
    if first: "opened q \<or> ending q" "contents q = x # xs" for q :: "'a channel" and x xs
  proof -
    obtain ms where ms: "ch_queue q = Msg x # ms" "contents (q\<lparr>ch_queue := ms\<rparr>) = xs"
      "opened (q\<lparr>ch_queue := ms\<rparr>) = opened q" "ending (q\<lparr>ch_queue := ms\<rparr>) = ending q"
      by (rule first_message [OF first])
    show ?thesis using ts_get_first(1) [OF ms(1)] ms(2-4) by (intro exI [of _ "q\<lparr>ch_queue := ms\<rparr>"]) simp
  qed
  show "\<exists>q'. ts_get q = Some (Inl CancelledError, q')" if "ending q" "contents q = []" for q :: "'a channel"
    using that ts_get_first(2) [of q] by (auto simp: ending_def)
  show "ts_get q = None" if "opened q" "contents q = []" for q :: "'a channel"
    using opened_queue [OF that(1)] that by (simp add: ts_get_def get_nowait_def opened_def)
  show "\<exists>q'. put_nowait x q = Inr q' \<and> opened q' \<and> contents q' = contents q @ [x]" if "opened q" for q :: "'a channel" and x
    using put_opened [OF that] by blast
  show "put_nowait x q = Inl CancelledError" if "ending q" for q :: "'a channel" and x
    using that by (simp add: ending_def put_nowait_def)
  show "ending (close_channel q) \<and> contents (close_channel q) = contents q" if "opened q" for q :: "'a channel"
    using close_opened [OF that] .
qed


section \<open>Running a loop\<close>

lemma opened_not_ending: "\<not> (opened ch \<and> ending ch)"
  by (simp add: opened_def ending_def)

lemma contents_length: "length (contents ch) \<le> length (ch_queue ch)"
proof -
  have "length (fst (take_messages ms)) \<le> length ms" for ms :: "'a message list"
    by (induction ms rule: take_messages.induct) (auto split: prod.splits)
  then show ?thesis by (simp add: contents_def)
qed

definition live_loop :: "'e event_loop \<Rightarrow> bool" where
  "live_loop el \<longleftrightarrow> el_started el \<and> \<not> el_stopped el \<and> el_task el \<and> opened (el_channel el)"

lemma add_events:
  assumes "live_loop el"
  shows "\<exists>el'. efold add_event es el = Inr el' \<and> live_loop el' \<and>
    contents (el_channel el') = contents (el_channel el) @ es"
  using assms
proof (induction es arbitrary: el)
  case (Cons e es)
  have put: "put_nowait e (el_channel el) = Inr ((el_channel el)\<lparr>ch_queue := ch_queue (el_channel el) @ [Msg e]\<rparr>)"
    "opened ((el_channel el)\<lparr>ch_queue := ch_queue (el_channel el) @ [Msg e]\<rparr>)"
    "contents ((el_channel el)\<lparr>ch_queue := ch_queue (el_channel el) @ [Msg e]\<rparr>) = contents (el_channel el) @ [e]"
    using put_opened [of "el_channel el" e] Cons.prems by (auto simp: live_loop_def)
  let ?el = "el\<lparr>el_channel := (el_channel el)\<lparr>ch_queue := ch_queue (el_channel el) @ [Msg e]\<rparr>\<rparr>"
  have "add_event e el = Inr ?el" using Cons.prems put(1) by (simp add: add_event_def check_running_def live_loop_def)
  moreover have "live_loop ?el" using Cons.prems put(2) by (simp add: live_loop_def)
  ultimately show ?case using Cons.IH [of ?el] put(3) by simp
qed simp


lemma run_loop_ends:
  assumes "ending ch" and "handle_events handler (contents ch) s = (ended, rest, t)"
  shows "\<exists>ch'. run_loop ts_get handler ch s = (Some (case ended of Some e \<Rightarrow> e | None \<Rightarrow> CancelledError), ch', t) \<and>
      (ended \<noteq> None \<longrightarrow> contents ch' = rest)"
    and "\<exists>ch'. run_loop aio_get handler ch s = (Some (case ended of Some e \<Rightarrow> e | None \<Rightarrow> CancelledError), ch', t) \<and>
      (ended \<noteq> None \<longrightarrow> contents ch' = rest)"
proof -
  have len: "length (contents ch) < Suc (length (ch_queue ch))" using contents_length [of ch] by simp
  note not_open = opened_not_ending [of ch]
  show "\<exists>ch'. run_loop ts_get handler ch s = (Some (case ended of Some e \<Rightarrow> e | None \<Rightarrow> CancelledError), ch', t) \<and>
      (ended \<noteq> None \<longrightarrow> contents ch' = rest)"
    using ts.loop_handles [OF disjI2 [OF assms(1)] not_open len assms(2)] assms(1) unfolding run_loop_def
    by (cases ended) auto
  show "\<exists>ch'. run_loop aio_get handler ch s = (Some (case ended of Some e \<Rightarrow> e | None \<Rightarrow> CancelledError), ch', t) \<and>
      (ended \<noteq> None \<longrightarrow> contents ch' = rest)"
    using aio.loop_handles [OF disjI2 [OF assms(1)] not_open len assms(2)] assms(1) unfolding run_loop_def
    by (cases ended) auto
qed

lemma stop_live_loop:
  assumes live: "live_loop el" and ended: "handle_events handler (contents (el_channel el)) s = (ended, rest, t)"
    and get: "get = ts_get \<or> get = aio_get"
  shows "\<exists>el'. stop_loop get handler el s = Some (Inr (el', t)) \<and> el_started el' \<and> el_stopped el' \<and> \<not> el_task el' \<and>
    (ended \<noteq> None \<longrightarrow> contents (el_channel el') = rest)"
proof -
  let ?ch = "close_channel (el_channel el)"
  have ch: "ending ?ch" "contents ?ch = contents (el_channel el)" using close_opened live by (auto simp: live_loop_def)
  from run_loop_ends [OF ch(1), of handler s ended rest t] ended ch(2) get
  obtain ch' where run: "run_loop get handler ?ch s = (Some (case ended of Some e \<Rightarrow> e | None \<Rightarrow> CancelledError), ch', t)"
    and rest: "ended \<noteq> None \<longrightarrow> contents ch' = rest" by auto
  show ?thesis
    using live run rest by (simp add: stop_loop_def join_loop_def live_loop_def loop_exception_def log_on_exception_def)
qed

text \<open>
  Events added to a running loop are handled exactly once, in the order in which they were
  added, before a stop of the loop returns; afterwards the loop takes no further event. This
  holds for both kinds of channel, when the handler raises for none of the events.
\<close>

theorem event_loop_in_order:
  assumes "live_loop el" and "contents (el_channel el) = []" and "efold handler es s = Inr t"
    and "get = ts_get \<or> get = aio_get"
  shows "\<exists>el1 el2. efold add_event es el = Inr el1 \<and> stop_loop get handler el1 s = Some (Inr (el2, t)) \<and>
    \<not> is_running el2 \<and> add_event e el2 = Inl (ValueError ''Event loop has been stopped.'')"
proof -
  obtain el1 where el1: "efold add_event es el = Inr el1" "live_loop el1" "contents (el_channel el1) = es"
    using add_events [OF assms(1), of es] assms(2) by auto
  obtain el2 where "stop_loop get handler el1 s = Some (Inr (el2, t))" "el_started el2" "el_stopped el2"
    using stop_live_loop [OF el1(2), of handler s None "[]" t get] handle_events_efold [OF assms(3)] el1(3) assms(4) by auto
  with el1(1) show ?thesis by (auto simp: is_running_def add_event_def check_running_def)
qed

theorem event_loop_in_order_witness:
  "\<exists>el0 el1 el2. start_loop (new_loop :: nat event_loop) = Inr el0 \<and> efold add_event [1, 2, 3] el0 = Inr el1 \<and>
     stop_loop ts_get (\<lambda>x s. Inr (s @ [x])) el1 [] = Some (Inr (el2, [1, 2, 3]))"
proof -
  let ?el = "(new_loop :: nat event_loop)\<lparr>el_task := True, el_started := True\<rparr>"
  have start: "start_loop (new_loop :: nat event_loop) = Inr ?el" by (simp add: start_loop_def new_loop_def)
  have run: "efold (\<lambda>x s. Inr (s @ [x])) [1, 2, 3] [] = Inr [1, 2, 3 :: nat]" by simp
  have live: "live_loop ?el" "contents (el_channel ?el) = []"
    by (simp_all add: live_loop_def new_loop_def opened_def new_channel_def contents_def)
  from event_loop_in_order [OF live run disjI1 [OF refl]] start show ?thesis by blast
qed

text \<open>
  An exception of the handler ends the loop without a trace: the events behind it are never
  handled and stay in the channel, and yet joining the loop returns normally, because the
  decorator swallows every exception of an object that has no logger.
\<close>

theorem event_loop_dies_silently:
  assumes "live_loop el" and "contents (el_channel el) = xs @ x # ys" and "efold handler xs s = Inr t"
    and "handler x t = Inl e" and "get = ts_get \<or> get = aio_get"
  shows "\<exists>el'. stop_loop get handler el s = Some (Inr (el', t)) \<and> el_stopped el' \<and> contents (el_channel el') = ys"
proof -
  have "handle_events handler (contents (el_channel el)) s = (Some e, ys, t)"
    unfolding assms(2) by (rule handle_events_fails [OF assms(3,4)])
  from stop_live_loop [OF assms(1) this assms(5)] show ?thesis by auto
qed

theorem event_loop_dies_silently_witness:
  "\<exists>el'. stop_loop ts_get (\<lambda>x s. if x = 2 then Inl (RuntimeError ''boom'') else Inr (s @ [x]))
       \<lparr>el_channel = \<lparr>ch_queue = [Msg (1 :: nat), Msg 2, Msg 3], ch_closed = False\<rparr>, el_started = True, el_stopped = False,
        el_task = True\<rparr> [] = Some (Inr (el', [1])) \<and> contents (el_channel el') = [3]"
proof -
  let ?el = "\<lparr>el_channel = \<lparr>ch_queue = [Msg (1 :: nat), Msg 2, Msg 3], ch_closed = False\<rparr>, el_started = True,
    el_stopped = False, el_task = True\<rparr>"
  have "live_loop ?el" "contents (el_channel ?el) = [1] @ 2 # [3]"
    by (simp_all add: live_loop_def opened_def contents_def)
  from event_loop_dies_silently [OF this, of "\<lambda>x s. if x = 2 then Inl (RuntimeError ''boom'') else Inr (s @ [x])" "[]" "[1]"
      "RuntimeError ''boom''" ts_get] show ?thesis by auto
qed

text \<open>
  Taking everything from a closed asyncio channel also takes the close signal, and from then
  on \<open>get\<close> waits for a message that can never come, as \<open>put\<close> refuses it. The thread-safe
  channel raises instead.
\<close>

theorem get_all_loses_close_signal:
  assumes "ending ch" and "contents ch = x # xs"
  shows "\<exists>ch'. get_all aio_get ch = Some (Inr (x # xs), ch') \<and> aio_get ch' = None \<and>
      put_nowait y ch' = Inl CancelledError \<and> close_channel ch' = ch' \<and> ts_get ch' = Some (Inl CancelledError, ch')"
proof -
  have tm: "take_messages (map Msg xs @ [CloseSignal]) = (xs, [], True)" for xs :: "'a list"
    by (induction xs) auto
  have q: "ch_queue ch = Msg x # (map Msg xs @ [CloseSignal])" "ch_closed ch" using assms by (auto simp: ending_def)
  let ?ch = "ch\<lparr>ch_queue := [], ch_closed := True\<rparr>"
  have "get_all aio_get ch = Some (Inr (x # xs), ?ch)" using aio_get_first(1) [OF q(1)] tm [of xs] by (simp add: get_all_def)
  moreover have "aio_get ?ch = None" "put_nowait y ?ch = Inl CancelledError" "close_channel ?ch = ?ch"
    "ts_get ?ch = Some (Inl CancelledError, ?ch)"
    by (simp_all add: aio_get_def put_nowait_def close_channel_def ts_get_def get_nowait_def)
  ultimately show ?thesis by blast
qed

theorem get_all_loses_close_signal_witness:
  "\<exists>ch'. get_all aio_get (close_channel \<lparr>ch_queue = [Msg (7 :: nat)], ch_closed = False\<rparr>) = Some (Inr [7], ch') \<and>
     aio_get ch' = None"
proof -
  have "ending (close_channel \<lparr>ch_queue = [Msg (7 :: nat)], ch_closed = False\<rparr>)"
    "contents (close_channel \<lparr>ch_queue = [Msg (7 :: nat)], ch_closed = False\<rparr>) = 7 # []"
    by (simp_all add: ending_def close_channel_def contents_def)
  from get_all_loses_close_signal [OF this, of 0] show ?thesis by blast
qed

section \<open>Waiters of the thread-safe channel\<close>

text \<open>
  \<open>TSQueue.get\<close> without a delay runs in any number of consumers against producers in other
  threads. A consumer is at one of these points: not in \<open>get\<close>; before its first try; after finding
  the queue empty once; registered, before its second try; after finding it empty again; asleep on
  its waiter. A producer checks the flag, appends and wakes in three steps; closing checks the
  flag, sets it, appends the signal and wakes.
\<close>

datatype consumer_point = Idle | FirstTry | FirstEmpty | SecondTry | SecondEmpty | Asleep

record 'a waiter_state =
  ts_queue :: "'a message list"
  ts_closed :: bool
  ts_waiters :: "nat list"
  ts_resolved :: "nat list"
  ts_point :: "nat \<Rightarrow> consumer_point"
  ts_putting :: nat
  ts_closers :: nat
  ts_closing :: nat
  ts_pending_wakes :: nat

definition initial_waiters :: "'a waiter_state" where
  "initial_waiters = \<lparr>ts_queue = [], ts_closed = False, ts_waiters = [], ts_resolved = [], ts_point = (\<lambda>_. Idle),
     ts_putting = 0, ts_closers = 0, ts_closing = 0, ts_pending_wakes = 0\<rparr>"

inductive ts_step :: "'a waiter_state \<Rightarrow> 'a waiter_state \<Rightarrow> bool" where
  call_get: "ts_point s c = Idle \<Longrightarrow> ts_step s (s\<lparr>ts_point := (ts_point s)(c := FirstTry)\<rparr>)"
| first_take: "ts_point s c = FirstTry \<Longrightarrow> ts_queue s = m # ms \<Longrightarrow>
    ts_step s (s\<lparr>ts_queue := ms, ts_closed := (ts_closed s \<or> m = CloseSignal), ts_point := (ts_point s)(c := Idle)\<rparr>)"
| first_empty: "ts_point s c = FirstTry \<Longrightarrow> ts_queue s = [] \<Longrightarrow> ts_step s (s\<lparr>ts_point := (ts_point s)(c := FirstEmpty)\<rparr>)"
| first_cancelled: "ts_point s c = FirstEmpty \<Longrightarrow> ts_closed s \<Longrightarrow> ts_step s (s\<lparr>ts_point := (ts_point s)(c := Idle)\<rparr>)"
| register: "ts_point s c = FirstEmpty \<Longrightarrow> \<not> ts_closed s \<Longrightarrow>
    ts_step s (s\<lparr>ts_waiters := c # ts_waiters s, ts_resolved := removeAll c (ts_resolved s), ts_point := (ts_point s)(c := SecondTry)\<rparr>)"
| second_take: "ts_point s c = SecondTry \<Longrightarrow> ts_queue s = m # ms \<Longrightarrow>
    ts_step s (s\<lparr>ts_queue := ms, ts_closed := (ts_closed s \<or> m = CloseSignal), ts_waiters := removeAll c (ts_waiters s),
      ts_point := (ts_point s)(c := Idle)\<rparr>)"
| second_empty: "ts_point s c = SecondTry \<Longrightarrow> ts_queue s = [] \<Longrightarrow> ts_step s (s\<lparr>ts_point := (ts_point s)(c := SecondEmpty)\<rparr>)"
| second_cancelled: "ts_point s c = SecondEmpty \<Longrightarrow> ts_closed s \<Longrightarrow>
    ts_step s (s\<lparr>ts_waiters := removeAll c (ts_waiters s), ts_point := (ts_point s)(c := Idle)\<rparr>)"
| sleep: "ts_point s c = SecondEmpty \<Longrightarrow> \<not> ts_closed s \<Longrightarrow> ts_step s (s\<lparr>ts_point := (ts_point s)(c := Asleep)\<rparr>)"
| wake_up: "ts_point s c = Asleep \<Longrightarrow> c \<in> set (ts_resolved s) \<Longrightarrow>
    ts_step s (s\<lparr>ts_waiters := removeAll c (ts_waiters s), ts_point := (ts_point s)(c := FirstTry)\<rparr>)"
| check_put: "\<not> ts_closed s \<Longrightarrow> ts_step s (s\<lparr>ts_putting := Suc (ts_putting s)\<rparr>)"
| put_message: "ts_putting s = Suc k \<Longrightarrow>
    ts_step s (s\<lparr>ts_queue := ts_queue s @ [Msg x], ts_putting := k, ts_pending_wakes := Suc (ts_pending_wakes s)\<rparr>)"
| check_close: "\<not> ts_closed s \<Longrightarrow> ts_step s (s\<lparr>ts_closers := Suc (ts_closers s)\<rparr>)"
| set_closed: "ts_closers s = Suc k \<Longrightarrow> ts_step s (s\<lparr>ts_closed := True, ts_closers := k, ts_closing := Suc (ts_closing s)\<rparr>)"
| put_signal: "ts_closing s = Suc k \<Longrightarrow>
    ts_step s (s\<lparr>ts_queue := ts_queue s @ [CloseSignal], ts_closing := k, ts_pending_wakes := Suc (ts_pending_wakes s)\<rparr>)"
| wake_waiters: "ts_pending_wakes s = Suc k \<Longrightarrow>
    ts_step s (s\<lparr>ts_resolved := ts_waiters s @ ts_resolved s, ts_waiters := [], ts_pending_wakes := k\<rparr>)"

inductive_cases ts_stepE: "ts_step s t"

text \<open>
  A registered consumer is in the waiter set until it is resolved. One that found the queue empty
  after registering has a wake-up ahead of it whenever there is something for it to find.
\<close>

definition waiter_inv :: "'a waiter_state \<Rightarrow> bool" where
  "waiter_inv s \<longleftrightarrow>
     (\<forall>c. ts_point s c \<in> {SecondTry, SecondEmpty, Asleep} \<longrightarrow> c \<in> set (ts_waiters s) \<or> c \<in> set (ts_resolved s)) \<and>
     (\<forall>c. ts_point s c \<in> {SecondEmpty, Asleep} \<longrightarrow> c \<notin> set (ts_resolved s) \<longrightarrow> ts_queue s \<noteq> [] \<longrightarrow> 0 < ts_pending_wakes s) \<and>
     (\<forall>c. ts_point s c = Asleep \<longrightarrow> c \<notin> set (ts_resolved s) \<longrightarrow> ts_closed s \<longrightarrow> 0 < ts_pending_wakes s \<or> 0 < ts_closing s) \<and>
     (CloseSignal \<in> set (ts_queue s) \<or> 0 < ts_closing s \<longrightarrow> ts_closed s)"

lemma waiter_inv_step:
  assumes "ts_step s t" and "waiter_inv s"
  shows "waiter_inv t"
  using assms by cases (auto simp: waiter_inv_def split: if_splits)

lemma waiter_inv_reachable: "ts_step\<^sup>*\<^sup>* initial_waiters s \<Longrightarrow> waiter_inv s"
proof (induction rule: rtranclp_induct)
  case base
  then show ?case by (simp add: waiter_inv_def initial_waiters_def)
next
  case (step s t)
  then show ?case using waiter_inv_step by blast
qed

text \<open>
  C35: No wake-up is lost. In every state that any interleaving of consumers, producers and a
  closing thread can reach, a consumer that sleeps on an unresolved waiter while the queue has a
  message or is closed will be woken: the thread that put the message or closed the queue has
  still to wake the waiters, and this consumer is among them.
\<close>

theorem no_lost_wakeup:
  assumes "ts_step\<^sup>*\<^sup>* initial_waiters s" and "ts_point s c = Asleep" and "c \<notin> set (ts_resolved s)"
    and "ts_queue s \<noteq> [] \<or> ts_closed s"
  shows "(0 < ts_pending_wakes s \<or> 0 < ts_closing s) \<and> c \<in> set (ts_waiters s)"
  using waiter_inv_reachable [OF assms(1)] assms(2-) unfolding waiter_inv_def by auto

text \<open>A consumer that registers and falls asleep just before a message is put.\<close>

definition asleep_state :: "nat waiter_state" where
  "asleep_state = \<lparr>ts_queue = [Msg 5], ts_closed = False, ts_waiters = [0], ts_resolved = [],
     ts_point = (\<lambda>_. Idle)(0 := FirstTry, 0 := FirstEmpty, 0 := SecondTry, 0 := SecondEmpty, 0 := Asleep),
     ts_putting = 0, ts_closers = 0, ts_closing = 0, ts_pending_wakes = 1\<rparr>"

lemma asleep_reachable: "ts_step\<^sup>*\<^sup>* initial_waiters asleep_state"
proof -
  define stage :: "consumer_point \<Rightarrow> nat list \<Rightarrow> nat waiter_state" where
    "stage p ws = initial_waiters\<lparr>ts_waiters := ws, ts_point := (\<lambda>_. Idle)(0 := p)\<rparr>" for p ws
  note stage = stage_def initial_waiters_def
  have "ts_step initial_waiters (stage FirstTry [])"
    using call_get [of initial_waiters 0] by (simp add: stage)
  moreover have "ts_step (stage FirstTry []) (stage FirstEmpty [])"
    using first_empty [of "stage FirstTry []" 0] by (simp add: stage)
  moreover have "ts_step (stage FirstEmpty []) (stage SecondTry [0])"
    using register [of "stage FirstEmpty []" 0] by (simp add: stage)
  moreover have "ts_step (stage SecondTry [0]) (stage SecondEmpty [0])"
    using second_empty [of "stage SecondTry [0]" 0] by (simp add: stage)
  moreover have "ts_step (stage SecondEmpty [0]) (stage Asleep [0])"
    using sleep [of "stage SecondEmpty [0]" 0] by (simp add: stage)
  moreover have "ts_step (stage Asleep [0]) ((stage Asleep [0])\<lparr>ts_putting := 1\<rparr>)"
    using check_put [of "stage Asleep [0]"] by (simp add: stage)
  moreover have "ts_step ((stage Asleep [0])\<lparr>ts_putting := 1\<rparr>) asleep_state"
    using put_message [of "(stage Asleep [0])\<lparr>ts_putting := 1\<rparr>" 0 5] by (simp add: stage asleep_state_def)
  ultimately show ?thesis by (meson converse_rtranclp_into_rtranclp rtranclp.rtrancl_refl)
qed

theorem no_lost_wakeup_witness:
  "(0 < ts_pending_wakes asleep_state \<or> 0 < ts_closing asleep_state) \<and> 0 \<in> set (ts_waiters asleep_state)"
  by (rule no_lost_wakeup [OF asleep_reachable]) (simp_all add: asleep_state_def)

end
