(* ===== verification/HaloDP.thy ===== *)
theory HaloDP
  imports TopoSort PyStrings "HOL-Library.Product_Lexorder"
begin

text \<open>
  The dynamic program of the Halo scheduler (\<open>runtime/optimizer/schedule/halo_dp.py\<close>, with the
  data of \<open>models.py\<close>). The solver's parameters are one record, costs are reals, and sets of nodes
  are the integers the code uses as bit masks. The caches that only repeat a pure computation
  (lower bounds, query plans, window signatures, costs) are left out, the memo table of the search
  itself is explicit state; progress logging and its counters are left out.
\<close>

section \<open>Graphs, workers and query plans\<close>

type_synonym cost = real

record db_query =
  q_name :: string
  q_sql :: string
  q_parameters :: "(string, pyval) dict"
  q_post_llm :: bool
  q_result_mappings :: "(string, string) dict"
  q_required_inputs :: "string list"
  q_param_types :: "(string, string) dict"

record plan_choice =
  pc_plan_id :: string
  pc_description :: string
  pc_cost :: "cost option"
  pc_raw_cost :: "cost option"
  pc_explain_json :: pyval
  pc_footprints :: "(string, int) dict"

record node =
  nd_id :: string
  nd_type :: string
  nd_engine :: "string option"
  nd_model :: "string option"
  nd_system_prompt :: "string option"
  nd_inputs :: "string list"
  nd_outputs :: "string list"
  nd_queries :: "db_query list"
  nd_raw :: "(string, pyval) dict"

record edge =
  ed_source :: string
  ed_target :: string
  ed_mapping :: "(string, string) dict"

record graph_spec =
  gp_name :: string
  gp_description :: string
  gp_nodes :: "(string, node) dict"
  gp_edges :: "edge list"

record worker =
  wk_id :: string
  wk_kind :: string
  wk_device :: string
  wk_capacity :: cost

record query_signature =
  qs_node :: string
  qs_query :: string
  qs_plan :: string
  qs_footprints :: "(string \<times> int) list"

record worker_state =
  ws_idx :: nat
  ws_model :: int
  ws_node :: int

section \<open>The solver's parameters\<close>

text \<open>
  The keyword arguments of \<open>DPSolver\<close>; an option is an argument that may be \<open>None\<close>. The cost
  functions may raise, where the caller's do.
\<close>

record solver_args =
  sa_graph :: graph_spec
  sa_dependencies :: "(string, string list) dict"
  sa_workers :: "(string, worker) dict"
  sa_worker_ids :: "string list"
  sa_plan_choices :: "(string \<times> string, plan_choice list) dict"
  sa_window_size :: int
  sa_exec_cost :: "node \<Rightarrow> worker \<Rightarrow> cost result"
  sa_cache_multiplier :: "query_signature list \<Rightarrow> plan_choice \<Rightarrow> cost"
  sa_model_init_cost :: "(node \<Rightarrow> string option \<Rightarrow> cost result) option"
  sa_llm_cache_bonus :: "(node \<Rightarrow> string option \<Rightarrow> string list \<Rightarrow> cost) option"
  sa_node_ids :: "string list option"
  sa_epoch_penalty :: "(nat \<Rightarrow> cost) option"
  sa_cpu_load_cost_weight :: "cost option"
  sa_cpu_load_early_weight :: "cost option"
  sa_cpu_cost_mode :: "string option"
  sa_gpu_cost_max_weight :: "cost option"
  sa_gpu_cost_sum_weight :: "cost option"
  sa_disable_epoch_batch_cost :: bool
  sa_disable_cpu_load_cost :: bool
  sa_node_worker_options :: "(string, string list) dict"
  sa_gpu_worker_ids :: "string list option"
  sa_cpu_worker_ids :: "string list option"
  sa_http_latency :: "(string, cost) dict"
  sa_batch_shape_pruning :: bool
  sa_gpu_batch_slack :: int
  sa_lower_bound_pruning :: bool
  sa_worker_symmetry :: bool
  sa_lower_bound_cost_factor :: cost
  sa_gpu_depth_cost_weight :: "cost option"

record dp =
  dp_nodes :: "(string, node) dict"
  dp_dependencies :: "(string, string list) dict"
  dp_workers :: "(string, worker) dict"
  dp_worker_ids :: "string list"
  dp_gpu_worker_ids :: "string list"
  dp_cpu_worker_ids :: "string list"
  dp_node_ids :: "string list"
  dp_node_worker_options :: "(string, string list) dict"
  dp_plan_choices :: "(string \<times> string, plan_choice list) dict"
  dp_window_size :: int
  dp_exec_cost :: "node \<Rightarrow> worker \<Rightarrow> cost result"
  dp_cache_multiplier :: "query_signature list \<Rightarrow> plan_choice \<Rightarrow> cost"
  dp_model_init_cost :: "node \<Rightarrow> string option \<Rightarrow> cost result"
  dp_llm_cache_bonus :: "node \<Rightarrow> string option \<Rightarrow> string list \<Rightarrow> cost"
  dp_epoch_penalty :: "nat \<Rightarrow> cost"
  dp_http_latency :: "(string, cost) dict"
  dp_cpu_load_cost_weight :: cost
  dp_cpu_load_early_weight :: cost
  dp_disable_epoch_batch_cost :: bool
  dp_disable_cpu_load_cost :: bool
  dp_cpu_cost_mode :: string
  dp_gpu_cost_max_weight :: cost
  dp_gpu_cost_sum_weight :: cost
  dp_gpu_batch_slack :: nat
  dp_lower_bound_pruning :: bool
  dp_worker_symmetry :: bool
  dp_lower_bound_cost_factor :: cost
  dp_gpu_depth_cost_weight :: cost
  dp_batch_shape_pruning :: bool

definition option_default :: "'a option \<Rightarrow> 'a \<Rightarrow> 'a" where
  "option_default x d = (case x of None \<Rightarrow> d | Some v \<Rightarrow> v)"

definition resolve_cpu_cost_mode :: "string option \<Rightarrow> string result" where
  "resolve_cpu_cost_mode mode =
     (let raw = str_lower (str_strip (case mode of None \<Rightarrow> ''default'' | Some m \<Rightarrow> if m = [] then ''default'' else m))
      in if raw \<in> {''default'', ''naive''} then Inr raw else Inl (ValueError ''Unsupported cpu_cost_mode''))"

definition resolve_gpu_weights :: "cost option \<Rightarrow> cost option \<Rightarrow> cost \<times> cost" where
  "resolve_gpu_weights mx sm =
     (let (m, s) = if mx = None \<and> sm = None then (9/10, 1/10) else (option_default mx 0, option_default sm 0);
          total = m + s;
          (m, s) = if total \<le> 0 then (9/10, 1/10) else (m / total, s / total)
      in (max 0 m, max 0 s))"

text \<open>
  \<open>__init__\<close>. A node id without a node, or a worker id without a worker, raises where the code
  first looks it up.
\<close>

definition split_workers :: "solver_args \<Rightarrow> (string list \<times> string list) result" where
  "split_workers a =
     (case (sa_gpu_worker_ids a, sa_cpu_worker_ids a) of
        (Some g, Some c) \<Rightarrow> Inr (g, c)
      | _ \<Rightarrow> ebind (emap (\<lambda>w. ebind (dict_index (sa_workers a) w) (\<lambda>k. Inr (w, wk_kind k = ''gpu''))) (sa_worker_ids a))
          (\<lambda>ks. Inr (map fst (filter snd ks), map fst (filter (\<lambda>k. \<not> snd k) ks))))"

definition make_solver :: "solver_args \<Rightarrow> dp result" where
  "make_solver a =
     (let node_ids = option_default (sa_node_ids a) (sort (dict_keys (gp_nodes (sa_graph a))));
          (mx, sm) = resolve_gpu_weights (sa_gpu_cost_max_weight a) (sa_gpu_cost_sum_weight a)
      in ebind (resolve_cpu_cost_mode (sa_cpu_cost_mode a)) (\<lambda>mode.
         ebind (emap (dict_index (gp_nodes (sa_graph a))) node_ids) (\<lambda>_.
         ebind (split_workers a) (\<lambda>(gpus, cpus).
         ebind (emap (dict_index (sa_workers a)) (concat (map (\<lambda>n. dict_get (sa_node_worker_options a) n (sa_worker_ids a))
             (filter (\<lambda>n. map_option nd_engine (map_of (gp_nodes (sa_graph a)) n) = Some (Some ''vllm'')) node_ids)))) (\<lambda>_.
         Inr \<lparr>dp_nodes = gp_nodes (sa_graph a), dp_dependencies = sa_dependencies a, dp_workers = sa_workers a,
           dp_worker_ids = sa_worker_ids a, dp_gpu_worker_ids = gpus,
           dp_cpu_worker_ids = (if cpus = [] then sa_worker_ids a else cpus), dp_node_ids = node_ids,
           dp_node_worker_options =
             map (\<lambda>n. (n, dict_get (sa_node_worker_options a) n (sa_worker_ids a))) node_ids,
           dp_plan_choices = sa_plan_choices a, dp_window_size = sa_window_size a, dp_exec_cost = sa_exec_cost a,
           dp_cache_multiplier = sa_cache_multiplier a,
           dp_model_init_cost = option_default (sa_model_init_cost a) (\<lambda>_ _. Inr 0),
           dp_llm_cache_bonus = option_default (sa_llm_cache_bonus a) (\<lambda>_ _ _. 1),
           dp_epoch_penalty = option_default (sa_epoch_penalty a) (\<lambda>_. 1), dp_http_latency = sa_http_latency a,
           dp_cpu_load_cost_weight = max 0 (option_default (sa_cpu_load_cost_weight a) 1),
           dp_cpu_load_early_weight = max 0 (option_default (sa_cpu_load_early_weight a) 2),
           dp_disable_epoch_batch_cost = sa_disable_epoch_batch_cost a,
           dp_disable_cpu_load_cost = sa_disable_cpu_load_cost a, dp_cpu_cost_mode = mode,
           dp_gpu_cost_max_weight = mx, dp_gpu_cost_sum_weight = sm, dp_gpu_batch_slack = nat (sa_gpu_batch_slack a),
           dp_lower_bound_pruning = sa_lower_bound_pruning a, dp_worker_symmetry = sa_worker_symmetry a,
           dp_lower_bound_cost_factor = max 0 (sa_lower_bound_cost_factor a),
           dp_gpu_depth_cost_weight = max 0 (option_default (sa_gpu_depth_cost_weight a) 1),
           dp_batch_shape_pruning = sa_batch_shape_pruning a\<rparr>)))))"

section \<open>Node masks\<close>

text \<open>
  Every node a mask speaks of is one of the solver's node ids, so the look-ups below never miss:
  what they give for another id is irrelevant.
\<close>

definition node_index :: "dp \<Rightarrow> (string, nat) dict" where
  "node_index d = dict_of (zip (dp_node_ids d) [0..<length (dp_node_ids d)])"

definition bit_of :: "dp \<Rightarrow> string \<Rightarrow> nat" where
  "bit_of d n = dict_get (node_index d) n 0"

definition all_mask :: "dp \<Rightarrow> int" where
  "all_mask d = 2 ^ length (dp_node_ids d) - 1"

definition is_done :: "dp \<Rightarrow> int \<Rightarrow> string \<Rightarrow> bool" where
  "is_done d done n = bit done (bit_of d n)"

definition add_nodes :: "dp \<Rightarrow> string list \<Rightarrow> int \<Rightarrow> int" where
  "add_nodes d ns m = foldl (\<lambda>m n. set_bit (bit_of d n) m) m ns"

definition is_gpu_node :: "dp \<Rightarrow> string \<Rightarrow> bool" where
  "is_gpu_node d n = (case map_of (dp_nodes d) n of None \<Rightarrow> False | Some nd \<Rightarrow> nd_engine nd = Some ''vllm'')"

definition deps_of :: "dp \<Rightarrow> string \<Rightarrow> string list" where
  "deps_of d n = dict_get (dp_dependencies d) n []"

definition parents_mask :: "dp \<Rightarrow> bool \<Rightarrow> string \<Rightarrow> int" where
  "parents_mask d gpu_only n =
     add_nodes d (filter (\<lambda>p. p \<in> set (dp_node_ids d) \<and> (gpu_only \<longrightarrow> is_gpu_node d p)) (deps_of d n)) 0"

definition blocked :: "int \<Rightarrow> int \<Rightarrow> bool" where
  "blocked pmask batch_mask \<longleftrightarrow> and pmask (not batch_mask) \<noteq> 0"

definition gpu_node_ids :: "dp \<Rightarrow> string list" where
  "gpu_node_ids d = filter (is_gpu_node d) (dp_node_ids d)"

definition db_node_ids :: "dp \<Rightarrow> string list" where
  "db_node_ids d = filter (\<lambda>n. \<not> is_gpu_node d n) (dp_node_ids d)"

definition db_topo_order :: "dp \<Rightarrow> string list" where
  "db_topo_order d =
     filter (\<lambda>n. \<not> is_gpu_node d n)
       (case topological_order (dp_dependencies d) (Some (dp_node_ids d)) of Inr ns \<Rightarrow> ns | Inl _ \<Rightarrow> dp_node_ids d)"

section \<open>GPU batches\<close>

definition pending_gpu :: "dp \<Rightarrow> int \<Rightarrow> string list" where
  "pending_gpu d done = filter (\<lambda>n. \<not> is_done d done n \<and> is_gpu_node d n) (dp_node_ids d)"

definition gpu_indegree :: "dp \<Rightarrow> string list \<Rightarrow> string \<Rightarrow> int" where
  "gpu_indegree d pend n = int (length (filter (\<lambda>p. p \<in> set pend) (deps_of d n)))"

definition gpu_children :: "dp \<Rightarrow> string list \<Rightarrow> string \<Rightarrow> string list" where
  "gpu_children d pend n = filter (\<lambda>c. n \<in> set (deps_of d c)) pend"

text \<open>The queue of the sort; the fuel bounds how many nodes it can ever hold.\<close>

fun queue_loop :: "nat \<Rightarrow> ('a \<Rightarrow> 'a list) \<Rightarrow> 'a list \<Rightarrow> ('a \<Rightarrow> int) \<Rightarrow> 'a list \<Rightarrow> 'a list result" where
  "queue_loop fuel children [] indeg topo = Inr topo"
| "queue_loop 0 children (x # queue) indeg topo = Inl Diverges"
| "queue_loop (Suc fuel) children (x # queue) indeg topo =
     (let (indeg', queue') = relax (\<lambda>c q. q @ [c]) (children x) (indeg, queue)
      in queue_loop fuel children queue' indeg' (topo @ [x]))"

definition gpu_topo :: "dp \<Rightarrow> string list \<Rightarrow> string list result" where
  "gpu_topo d pend =
     ebind (queue_loop (length pend) (gpu_children d pend) (filter (\<lambda>n. gpu_indegree d pend n = 0) pend)
              (gpu_indegree d pend) [])
       (\<lambda>topo. Inr (if length topo \<noteq> length (dedupe_into [] pend) then pend else topo))"

text \<open>
  The search of \<open>_enumerate_gpu_batches\<close>: skip the node, or take it when its parents are done or
  selected. When they are not, the code searches the same branch again, so a batch may be listed
  more than once.
\<close>

fun batch_dfs :: "dp \<Rightarrow> nat \<Rightarrow> nat \<Rightarrow> int \<Rightarrow> string list \<Rightarrow> string list \<Rightarrow> int \<Rightarrow> string list list" where
  "batch_dfs d min_r max_r done [] selected m =
     (if min_r \<le> length selected \<and> length selected \<le> max_r then [selected] else [])"
| "batch_dfs d min_r max_r done (n # topo) selected m =
     batch_dfs d min_r max_r done topo selected m @
     (if max_r \<le> length selected then []
      else if blocked (parents_mask d True n) (or done m) then batch_dfs d min_r max_r done topo selected m
      else batch_dfs d min_r max_r done topo (selected @ [n]) (set_bit (bit_of d n) m))"

definition enumerate_gpu_batches :: "dp \<Rightarrow> bool \<Rightarrow> int \<Rightarrow> string list list result" where
  "enumerate_gpu_batches d pruning done =
     (let max_gpu = max 1 (length (dp_gpu_worker_ids d));
          pend = pending_gpu d done
      in if pend = [] then Inr [[]]
         else ebind (gpu_topo d pend) (\<lambda>topo.
           let target = min max_gpu (length pend);
               min_r = (if pruning then max 1 (target - dp_gpu_batch_slack d) else 1);
               results = [] # batch_dfs d min_r target done topo [] 0
           in if results = [[]] then Inl (RuntimeError ''DP GPU batch enumeration produced no executable GPU batch'')
              else Inr results))"

text \<open>The depth of every node of the batch within the batch, by the same kind of queue.\<close>

definition relax_depths ::
  "nat \<Rightarrow> string list \<Rightarrow> (string, nat) dict \<times> (string \<Rightarrow> int) \<times> string list
     \<Rightarrow> (string, nat) dict \<times> (string \<Rightarrow> int) \<times> string list" where
  "relax_depths base cs st =
     foldl (\<lambda>(depths, indeg, queue) c.
       (AList.update c (max (dict_get depths c 0) (base + 1)) depths, indeg(c := indeg c - 1),
        if indeg c - 1 = 0 then queue @ [c] else queue)) st cs"

fun depth_loop ::
  "nat \<Rightarrow> (string \<Rightarrow> string list) \<Rightarrow> (string, nat) dict \<Rightarrow> (string \<Rightarrow> int) \<Rightarrow> string list \<Rightarrow> (string, nat) dict result" where
  "depth_loop fuel children depths indeg [] = Inr depths"
| "depth_loop 0 children depths indeg (x # queue) = Inl Diverges"
| "depth_loop (Suc fuel) children depths indeg (x # queue) =
     (let (depths', indeg', queue') = relax_depths (dict_get depths x 0) (children x) (depths, indeg, queue)
      in depth_loop fuel children depths' indeg' queue')"

definition batch_children :: "dp \<Rightarrow> string list \<Rightarrow> string \<Rightarrow> string list" where
  "batch_children d sel p = concat (map (\<lambda>n. map (\<lambda>_. n) (filter (\<lambda>q. q = p) (deps_of d n))) sel)"

definition batch_gpu_depths :: "dp \<Rightarrow> string list \<Rightarrow> (string, nat) dict result" where
  "batch_gpu_depths d sel =
     (let queue = filter (\<lambda>n. gpu_indegree d sel n = 0) sel
      in ebind (depth_loop (length sel) (batch_children d sel) (map (\<lambda>n. (n, 0)) queue) (gpu_indegree d sel) queue)
           (\<lambda>depths. Inr (foldl (\<lambda>ds n. if n \<in> set (dict_keys ds) then ds else ds @ [(n, 0)]) depths sel)))"

definition batch_gpu_depth_penalty :: "dp \<Rightarrow> string list \<Rightarrow> (string, nat) dict \<Rightarrow> cost" where
  "batch_gpu_depth_penalty d gpus depths =
     (if dp_gpu_depth_cost_weight d \<le> 0 \<or> gpus = [] then 0
      else dp_gpu_depth_cost_weight d * real (sum_list (map (\<lambda>n. dict_get depths n 0) gpus)))"

section \<open>CPU nodes\<close>

text \<open>One pass over the CPU nodes in topological order; the flag says whether it took any.\<close>

definition cpu_take ::
  "dp \<Rightarrow> string \<Rightarrow> (string list \<times> string list \<times> int) \<times> bool \<Rightarrow> (string list \<times> string list \<times> int) \<times> bool" where
  "cpu_take d n st =
     (case st of ((selected, pend, m), progressed) \<Rightarrow>
        if n \<notin> set pend \<or> blocked (parents_mask d False n) m then ((selected, pend, m), progressed)
        else ((selected @ [n], removeAll n pend, set_bit (bit_of d n) m), True))"

definition cpu_pass ::
  "dp \<Rightarrow> string list \<times> string list \<times> int \<Rightarrow> (string list \<times> string list \<times> int) \<times> bool" where
  "cpu_pass d st = foldl (\<lambda>s n. cpu_take d n s) (st, False) (db_topo_order d)"

lemma cpu_takes_pending:
  "foldl (\<lambda>s n. cpu_take d n s) ((sel, pend, m), b) ns = ((sel', pend', m'), b') \<Longrightarrow>
     length pend' \<le> length pend \<and> (b' \<longrightarrow> b \<or> length pend' < length pend)"
proof (induction ns arbitrary: sel pend m b)
  case (Cons n ns)
  show ?case
  proof (cases "n \<notin> set pend \<or> blocked (parents_mask d False n) m")
    case True
    then show ?thesis using Cons.IH [of sel pend m b] Cons.prems by (simp add: cpu_take_def)
  next
    case False
    then have "length (removeAll n pend) < length pend" by (simp add: length_removeAll_less)
    with False show ?thesis using Cons.IH [of "sel @ [n]" "removeAll n pend" "set_bit (bit_of d n) m" True] Cons.prems
      by (fastforce simp: cpu_take_def)
  qed
qed simp

function cpu_fill :: "dp \<Rightarrow> string list \<times> string list \<times> int \<Rightarrow> string list" where
  "cpu_fill d st = (case cpu_pass d st of (st', progressed) \<Rightarrow> if progressed then cpu_fill d st' else fst st')"
  by pat_completeness auto

termination
proof (relation "measure (\<lambda>(d, st). length (fst (snd st)))")
  fix d st st' progressed
  assume pass: "(st', progressed) = cpu_pass d st" and prog: progressed
  obtain sel pend m sel' pend' m' where st: "st = (sel, pend, m)" "st' = (sel', pend', m')" by (cases st, cases st')
  have "foldl (\<lambda>s n. cpu_take d n s) ((sel, pend, m), False) (db_topo_order d) = ((sel', pend', m'), progressed)"
    using pass unfolding st cpu_pass_def by simp
  from cpu_takes_pending [OF this] prog show "((d, st'), d, st) \<in> measure (\<lambda>(d, st). length (fst (snd st)))"
    by (simp add: st)
qed simp

declare cpu_fill.simps [simp del]

definition auto_cpu_batch :: "dp \<Rightarrow> int \<Rightarrow> string list \<Rightarrow> string list" where
  "auto_cpu_batch d done gpus =
     (let pend = filter (\<lambda>n. \<not> is_done d done n) (db_node_ids d)
      in if pend = [] then [] else cpu_fill d ([], pend, add_nodes d gpus done))"

text \<open>\<open>dict.get\<close> with an unhashable key raises.\<close>

definition cpu_order_key :: "dp \<Rightarrow> (string, nat) dict \<Rightarrow> string \<Rightarrow> (bool \<times> nat) result" where
  "cpu_order_key d depths n =
     ebind (case map_of (dp_nodes d) n of None \<Rightarrow> Inr None
            | Some nd \<Rightarrow> (case map_of (nd_raw nd) ''parent'' of
                 Some (PStr p) \<Rightarrow> Inr (map_of depths p)
               | Some (PList _) \<Rightarrow> Inl (TypeError ''unhashable type'')
               | Some (PDict _) \<Rightarrow> Inl (TypeError ''unhashable type'')
               | _ \<Rightarrow> Inr None))
       (\<lambda>depth. Inr (depth = None, option_default depth 0))"

definition order_cpu_nodes :: "dp \<Rightarrow> string list \<Rightarrow> (string, nat) dict \<Rightarrow> string list result" where
  "order_cpu_nodes d cpus depths =
     (if cpus = [] \<or> depths = [] then Inr cpus
      else ebind (emap (cpu_order_key d depths) cpus) (\<lambda>ks. Inr (map snd (sort_key fst (zip ks cpus)))))"

definition cpu_assignments :: "dp \<Rightarrow> string list \<Rightarrow> (string \<times> string) list" where
  "cpu_assignments d cpus =
     (let workers = (if dp_cpu_worker_ids d = [] then dp_worker_ids d else dp_cpu_worker_ids d)
      in if workers = [] then []
         else map (\<lambda>(i, n). (workers ! (i mod length workers), n)) (zip [0..<length cpus] cpus))"

lemma deps_of_no_key: "n \<notin> set (dict_keys (dp_dependencies d)) \<Longrightarrow> deps_of d n = []"
  by (simp add: deps_of_def dict_get_def map_of_eq_None_iff [THEN iffD2])

text \<open>Everything a GPU node waits for on the CPU side: a depth-first walk up the dependencies.\<close>

function cpu_needed_loop :: "dp \<Rightarrow> string list \<Rightarrow> string list \<Rightarrow> string list \<Rightarrow> string list" where
  "cpu_needed_loop d [] visited needed = needed"
| "cpu_needed_loop d (n # stack) visited needed =
     (if n \<in> set visited then cpu_needed_loop d stack visited needed
      else cpu_needed_loop d (rev (filter (\<lambda>p. p \<notin> set (n # visited)) (deps_of d n)) @ stack) (n # visited)
             (foldl (\<lambda>s p. if p \<in> set (db_node_ids d) then set_add p s else s) needed (deps_of d n)))"
  by pat_completeness auto

termination
proof (relation "measures [\<lambda>(d, stack, visited, needed). length (filter (\<lambda>k. k \<notin> set visited) (dict_keys (dp_dependencies d))),
    \<lambda>(d, stack, visited, needed). length stack]")
  fix d :: dp and n :: string and stack visited needed :: "string list"
  assume fresh: "n \<notin> set visited"
  let ?left = "\<lambda>v. length (filter (\<lambda>k. k \<notin> set v) (dict_keys (dp_dependencies d)))"
  have left: "filter (\<lambda>k. k \<notin> set (n # visited)) ks = filter (\<lambda>k. k \<noteq> n) (filter (\<lambda>k. k \<notin> set visited) ks)" for ks
    by (simp add: conj_commute)
  show "((d, rev (filter (\<lambda>p. p \<notin> set (n # visited)) (deps_of d n)) @ stack, n # visited,
      foldl (\<lambda>s p. if p \<in> set (db_node_ids d) then set_add p s else s) needed (deps_of d n)),
     d, n # stack, visited, needed) \<in> measures [\<lambda>(d, stack, visited, needed).
       length (filter (\<lambda>k. k \<notin> set visited) (dict_keys (dp_dependencies d))), \<lambda>(d, stack, visited, needed). length stack]"
  proof (cases "n \<in> set (dict_keys (dp_dependencies d))")
    case True
    have "?left (n # visited) < ?left visited"
      unfolding left by (rule length_filter_less [of n]) (use True fresh in auto)
    then show ?thesis by simp
  next
    case False
    have "?left (n # visited) \<le> ?left visited" unfolding left by (rule length_filter_le)
    then show ?thesis using deps_of_no_key [OF False] by auto
  qed
qed auto

definition cpu_needed_for_gpu :: "dp \<Rightarrow> string list \<Rightarrow> string list" where
  "cpu_needed_for_gpu d gpus = (if gpus = [] then [] else cpu_needed_loop d (rev gpus) [] [])"

definition naive_cpu_cost :: "dp \<Rightarrow> string list \<Rightarrow> cost" where
  "naive_cpu_cost d gpus = real (sum_list (map (\<lambda>n. length (cpu_needed_for_gpu d [n])) gpus))"

section \<open>Assignments of GPU nodes to workers\<close>

fun gpu_assign_dfs :: "dp \<Rightarrow> string list \<Rightarrow> string list \<Rightarrow> (string \<times> string) list list" where
  "gpu_assign_dfs d [] used = [[]]"
| "gpu_assign_dfs d (n # ns) used =
     concat (map (\<lambda>w. if w \<notin> set (dict_get (dp_node_worker_options d) n (dp_gpu_worker_ids d)) \<or> w \<in> set used then []
                      else map ((#) (w, n)) (gpu_assign_dfs d ns (w # used))) (dp_gpu_worker_ids d))"

definition gpu_assignments :: "dp \<Rightarrow> string list \<Rightarrow> (string \<times> string) list list" where
  "gpu_assignments d gpus = gpu_assign_dfs d gpus []"

definition nth_result :: "'a list \<Rightarrow> nat \<Rightarrow> 'a result" where
  "nth_result xs i = (if i < length xs then Inr (xs ! i) else Inl IndexError)"

definition worker_index :: "dp \<Rightarrow> (string, nat) dict" where
  "worker_index d = dict_of (zip (dp_worker_ids d) [0..<length (dp_worker_ids d)])"

text \<open>Workers of one kind and capacity in the same state are interchangeable.\<close>

type_synonym worker_signature = "string \<times> cost \<times> int \<times> int"

definition worker_signature :: "dp \<Rightarrow> nat \<Rightarrow> worker_state \<Rightarrow> worker_signature result" where
  "worker_signature d i st =
     ebind (nth_result (dp_worker_ids d) i) (\<lambda>wid. ebind (dict_index (dp_workers d) wid) (\<lambda>w.
       Inr (wk_kind w, wk_capacity w, ws_model st, ws_node st)))"

definition assignment_signature ::
  "dp \<Rightarrow> worker_state list \<Rightarrow> (string \<times> string) list \<Rightarrow> (worker_signature \<times> string list) list result" where
  "assignment_signature d states assign =
     ebind (efold (\<lambda>(w, n) buckets.
         ebind (dict_index (worker_index d) w) (\<lambda>i. ebind (nth_result states i) (\<lambda>st.
         ebind (worker_signature d i st) (\<lambda>sig.
           Inr (AList.update sig (dict_get buckets sig [] @ [n]) buckets))))) assign [])
       (\<lambda>buckets. Inr (sort_key fst (map (\<lambda>(sig, ns). (sig, sort ns)) buckets)))"

definition dedup_worker_assignments ::
  "dp \<Rightarrow> worker_state list \<Rightarrow> (string \<times> string) list list \<Rightarrow> (string \<times> string) list list result" where
  "dedup_worker_assignments d states assigns =
     ebind (efold (\<lambda>a (seen, uniq). ebind (assignment_signature d states a) (\<lambda>key.
         Inr (if key \<in> set seen then (seen, uniq) else (key # seen, uniq @ [a])))) assigns ([], []))
       (\<lambda>(seen, uniq). Inr uniq)"

section \<open>Query plans and their window\<close>

definition fallback_choice :: plan_choice where
  "fallback_choice = \<lparr>pc_plan_id = ''default'', pc_description = ''fallback'', pc_cost = Some 1, pc_raw_cost = None,
     pc_explain_json = PNone, pc_footprints = []\<rparr>"

definition choices_of :: "dp \<Rightarrow> string \<Rightarrow> string \<Rightarrow> plan_choice list" where
  "choices_of d n q = (let cs = dict_get (dp_plan_choices d) (n, q) [] in if cs = [] then [fallback_choice] else cs)"

definition choice_base_cost :: "plan_choice \<Rightarrow> cost" where
  "choice_base_cost c =
     (case pc_raw_cost c of Some r \<Rightarrow> max 0 r | None \<Rightarrow> (case pc_cost c of Some r \<Rightarrow> r | None \<Rightarrow> 1))"

text \<open>
  The window of the last signatures. The code keeps small integers for them, one per signature; a
  padding entry is \<open>None\<close>.
\<close>

type_synonym window = "query_signature option list"

definition choice_signature :: "string \<Rightarrow> string \<Rightarrow> plan_choice \<Rightarrow> query_signature" where
  "choice_signature n q c =
     \<lparr>qs_node = n, qs_query = q, qs_plan = pc_plan_id c, qs_footprints = sort (pc_footprints c)\<rparr>"

definition append_window :: "dp \<Rightarrow> window \<Rightarrow> string \<Rightarrow> string \<Rightarrow> plan_choice \<Rightarrow> window" where
  "append_window d win n q c =
     (if dp_window_size d \<le> 0 then win
      else let k = nat (dp_window_size d); sig = Some (choice_signature n q c) in
        if win = [] then (if k = 1 then [sig] else replicate (k - 1) None @ [sig])
        else let w = win @ [sig] in if k < length w then drop (length w - k) w else w)"

definition window_signatures :: "window \<Rightarrow> query_signature list" where
  "window_signatures win = map the (filter (\<lambda>s. s \<noteq> None) win)"

definition query_cost :: "dp \<Rightarrow> window \<Rightarrow> plan_choice \<Rightarrow> cost" where
  "query_cost d win c = choice_base_cost c * dp_cache_multiplier d (window_signatures win) c"

type_synonym plan_option = "cost \<times> window \<times> (string \<times> plan_choice) list"

definition extend_plan :: "dp \<Rightarrow> string \<Rightarrow> string \<Rightarrow> plan_option \<Rightarrow> plan_choice \<Rightarrow> plan_option" where
  "extend_plan d n q opt c =
     (case opt of (base, win, seq) \<Rightarrow> (base + query_cost d win c, append_window d win n q c, seq @ [(q, c)]))"

definition query_plan_options :: "dp \<Rightarrow> node \<Rightarrow> window \<Rightarrow> plan_option list" where
  "query_plan_options d nd win =
     foldl (\<lambda>opts q. concat (map (\<lambda>opt. map (extend_plan d (nd_id nd) (q_name q) opt) (choices_of d (nd_id nd) (q_name q)))
         opts)) [(0, win, [])] (nd_queries nd)"

section \<open>CPU load\<close>

text \<open>
  \<open>float\<close> of a string: a decimal literal with an optional exponent, surrounded by white space.
  Infinities, NaN and digit separators are read as no number.
\<close>

definition read_digits :: "string \<Rightarrow> nat option" where
  "read_digits s = (if s \<noteq> [] \<and> list_all (\<lambda>c. c \<in> set ''0123456789'') s then Some (read_nat s) else None)"

definition read_sign :: "string \<Rightarrow> int \<times> string" where
  "read_sign s = (case s of CHR ''-'' # t \<Rightarrow> (-1, t) | CHR ''+'' # t \<Rightarrow> (1, t) | t \<Rightarrow> (1, t))"

definition read_decimal :: "string \<Rightarrow> cost option" where
  "read_decimal s =
     (case str_partition CHR ''.'' s of (i, f) \<Rightarrow>
        map_option (\<lambda>n. real n / 10 ^ length f) (read_digits (i @ f)))"

definition read_exponent :: "string \<Rightarrow> int option" where
  "read_exponent s = (case read_sign s of (sg, t) \<Rightarrow> map_option (\<lambda>n. sg * int n) (read_digits t))"

definition py_float :: "string \<Rightarrow> cost option" where
  "py_float s =
     (case read_sign (str_lower (str_strip s)) of (sg, t) \<Rightarrow>
        (case str_partition CHR ''e'' t of (m, x) \<Rightarrow>
           (case (read_decimal m, if CHR ''e'' \<in> set t then read_exponent x else Some 0) of
              (Some v, Some k) \<Rightarrow> Some (of_int sg * v * (if 0 \<le> k then 10 ^ nat k else 1 / 10 ^ nat (- k)))
            | _ \<Rightarrow> None)))"

definition number_value :: "pyval \<Rightarrow> cost option" where
  "number_value v =
     (case v of PInt i \<Rightarrow> Some (of_int i) | PFloat r \<Rightarrow> Some (of_rat r) | PBool b \<Rightarrow> Some (if b then 1 else 0)
      | PStr s \<Rightarrow> py_float s | _ \<Rightarrow> None)"

definition sleep_keys :: "(string \<times> cost) list" where
  "sleep_keys = [(''sleep_s'', 1), (''sleep_ms'', 1/1000), (''latency_s'', 1), (''latency_ms'', 1/1000),
     (''timeout_s'', 1), (''timeout_ms'', 1/1000)]"

fun scan_sleep :: "(string, pyval) dict \<Rightarrow> (string \<times> cost) list \<Rightarrow> cost" where
  "scan_sleep raw [] = 0"
| "scan_sleep raw ((k, scale) # ks) =
     (case Option.bind (map_of raw k) number_value of None \<Rightarrow> scan_sleep raw ks | Some x \<Rightarrow> max 0 (x * scale))"

definition http_sleep_cost :: "dp \<Rightarrow> node \<Rightarrow> cost" where
  "http_sleep_cost d nd =
     (case map_of (dp_http_latency d) (nd_id nd) of Some x \<Rightarrow> max 0 x | None \<Rightarrow> scan_sleep (nd_raw nd) sleep_keys)"

text \<open>The first cheapest option wins.\<close>

definition cheapest :: "plan_option list \<Rightarrow> plan_option option" where
  "cheapest opts = foldl (\<lambda>best opt. case best of None \<Rightarrow> Some opt
      | Some b \<Rightarrow> if fst opt < fst b then Some opt else best) None opts"

definition add_plans ::
  "(string \<times> string, plan_choice) dict \<Rightarrow> ((string \<times> string) \<times> plan_choice) list \<Rightarrow> (string \<times> string, plan_choice) dict" where
  "add_plans ps new = foldl (\<lambda>ps (k, c). AList.update k c ps) ps new"

definition cpu_load_step ::
  "dp \<Rightarrow> string \<Rightarrow> cost \<times> (string \<times> string, plan_choice) dict \<times> window
     \<Rightarrow> (cost \<times> (string \<times> string, plan_choice) dict \<times> window) result" where
  "cpu_load_step d n st =
     (case st of (load, plans, win) \<Rightarrow>
        ebind (dict_index (dp_nodes d) n) (\<lambda>nd. Inr
          (if nd_engine nd = Some ''http'' then (load + http_sleep_cost d nd, plans, win)
           else if nd_queries nd = [] then (load, plans, win)
           else case cheapest (query_plan_options d nd win) of
             None \<Rightarrow> (load, plans, win)
           | Some (c, win', seq) \<Rightarrow> (load + c, add_plans plans (map (\<lambda>(q, ch). ((nd_id nd, q), ch)) seq), win'))))"

definition apply_cpu_load ::
  "dp \<Rightarrow> string list \<Rightarrow> window \<Rightarrow> (cost \<times> (string \<times> string, plan_choice) dict) result" where
  "apply_cpu_load d cpus win =
     ebind (efold (cpu_load_step d) cpus (0, [], win)) (\<lambda>(load, plans, _). Inr (load, plans))"

section \<open>Running one node, and one assignment\<close>

definition model_names :: "dp \<Rightarrow> string list" where
  "model_names d = sort (dedupe_into [] (concat (map (\<lambda>(_, nd).
     case nd_model nd of None \<Rightarrow> [] | Some m \<Rightarrow> if m = [] then [] else [m]) (dp_nodes d))))"

definition model_to_id :: "dp \<Rightarrow> string option \<Rightarrow> int \<Rightarrow> int" where
  "model_to_id d model fallback =
     (case model of None \<Rightarrow> fallback
      | Some m \<Rightarrow> dict_get (zip (model_names d) (map int [0..<length (model_names d)])) m fallback)"

definition from_id :: "string list \<Rightarrow> int \<Rightarrow> string option" where
  "from_id names i = (if i = -1 then None else if 0 \<le> i \<and> nat i < length names then Some (names ! nat i) else None)"

text \<open>
  \<open>_execute_node\<close>: the cost on the GPU, the cost of the queries, the worker's next state, the chosen
  plans and the window after it, for every choice of plans.
\<close>

type_synonym node_outcome = "cost \<times> cost \<times> worker_state \<times> ((string \<times> string) \<times> plan_choice) list \<times> window"

definition execute_node :: "dp \<Rightarrow> string \<Rightarrow> worker_state \<Rightarrow> window \<Rightarrow> node_outcome list result" where
  "execute_node d n st win =
     ebind (dict_index (dp_nodes d) n) (\<lambda>nd.
     ebind (nth_result (dp_worker_ids d) (ws_idx st)) (\<lambda>wid.
     ebind (dict_index (dp_workers d) wid) (\<lambda>w.
     ebind (dp_exec_cost d nd w) (\<lambda>exec.
     ebind (dp_model_init_cost d nd (from_id (model_names d) (ws_model st))) (\<lambda>init.
       let bonus = dp_llm_cache_bonus d nd (from_id (dp_node_ids d) (ws_node st)) (deps_of d n);
           bonus = (if bonus \<le> 0 then 1 else bonus);
           st' = st\<lparr>ws_node := int (bit_of d (nd_id nd))\<rparr>
       in if \<not> is_gpu_node d n then Inr [(0, 0, st', [], win)]
          else let st'' = st'\<lparr>ws_model := model_to_id d (nd_model nd) (ws_model st)\<rparr>
            in if nd_queries nd = [] then Inr [(exec * bonus + init, 0, st'', [], win)]
               else Inr (map (\<lambda>(c, win', seq). (exec * bonus + init, c, st'', map (\<lambda>(q, ch). ((nd_id nd, q), ch)) seq, win'))
                      (query_plan_options d nd win)))))))"

type_synonym outcome = "cost \<times> cost \<times> cost \<times> worker_state list \<times> (string \<times> string, plan_choice) dict"

definition gpu_cost_max :: "cost list \<Rightarrow> cost" where
  "gpu_cost_max cs = (case cs of [] \<Rightarrow> 0 | c # cs \<Rightarrow> foldl max c cs)"

fun outcome_dfs ::
  "dp \<Rightarrow> string list \<Rightarrow> (string \<times> string) list \<Rightarrow> worker_state list \<Rightarrow> cost list
     \<Rightarrow> (string \<times> string, plan_choice) dict \<Rightarrow> cost \<Rightarrow> window \<Rightarrow> outcome list result" where
  "outcome_dfs d cpus [] states costs plans load win =
     ebind (apply_cpu_load d cpus win) (\<lambda>(extra, cpu_plans).
     ebind (emap (\<lambda>w. ebind (dict_index (worker_index d) w) (nth_result costs)) (dp_gpu_worker_ids d)) (\<lambda>gcs.
       Inr [(gpu_cost_max gcs, sum_list gcs, load + extra, states, add_plans plans cpu_plans)]))"
| "outcome_dfs d cpus ((w, n) # assign) states costs plans load win =
     ebind (dict_index (worker_index d) w) (\<lambda>i.
     ebind (nth_result states i) (\<lambda>st.
     ebind (execute_node d n st win) (\<lambda>opts.
     ebind (emap (\<lambda>(c, q, st', ps, win').
         outcome_dfs d cpus assign (states[i := st']) (costs[i := costs ! i + c]) (add_plans plans ps) (load + q) win') opts)
       (\<lambda>rs. Inr (concat rs)))))"

definition assignment_outcomes ::
  "dp \<Rightarrow> (string \<times> string) list \<Rightarrow> string list \<Rightarrow> worker_state list \<Rightarrow> outcome list result" where
  "assignment_outcomes d assign cpus states =
     outcome_dfs d cpus assign states (map (\<lambda>_. 0) (dp_worker_ids d)) [] 0 []"

section \<open>The lower bound\<close>

definition min_option :: "cost option \<Rightarrow> cost option \<Rightarrow> cost option" where
  "min_option x y = (case (x, y) of (Some a, Some b) \<Rightarrow> Some (min a b) | (None, y) \<Rightarrow> y | (x, None) \<Rightarrow> x)"

text \<open>The least cost over the allowed workers; a worker whose cost raises counts as infinitely dear.\<close>

definition min_exec_cost :: "dp \<Rightarrow> node \<Rightarrow> string \<Rightarrow> cost" where
  "min_exec_cost d nd n =
     option_default (foldl min_option None (map (\<lambda>wid. case map_of (dp_workers d) wid of None \<Rightarrow> None
        | Some w \<Rightarrow> (case dp_exec_cost d nd w of Inl _ \<Rightarrow> None | Inr c \<Rightarrow> Some c))
        (dict_get (dp_node_worker_options d) n (dp_worker_ids d)))) 0"

definition min_plan_cost :: "dp \<Rightarrow> node \<Rightarrow> cost" where
  "min_plan_cost d nd =
     sum_list (map (\<lambda>q. option_default (foldl min_option None
       (map (Some \<circ> choice_base_cost) (choices_of d (nd_id nd) (q_name q)))) 0) (nd_queries nd))"

definition node_min_cost :: "dp \<Rightarrow> string \<Rightarrow> cost" where
  "node_min_cost d n =
     (case map_of (dp_nodes d) n of None \<Rightarrow> 0
      | Some nd \<Rightarrow> if \<not> is_gpu_node d n then 0
          else min_exec_cost d nd n +
            (if dp_disable_cpu_load_cost d \<or> dp_cpu_cost_mode d = ''naive'' then 0
             else min_plan_cost d nd * dp_cpu_load_cost_weight d))"

definition lower_bound_remaining :: "dp \<Rightarrow> int \<Rightarrow> nat \<Rightarrow> cost" where
  "lower_bound_remaining d done ep =
     (if \<not> dp_lower_bound_pruning d then 0
      else let gpus = filter (\<lambda>n. \<not> is_done d done n) (gpu_node_ids d);
               cpus = filter (\<lambda>n. \<not> is_done d done n) (db_node_ids d)
        in if gpus = [] \<and> cpus = [] then 0
           else let capacity = max 1 (length (dp_gpu_worker_ids d));
                    min_gpu = (if gpus = [] then 0 else nat \<lceil>real (length gpus) / real capacity\<rceil>);
                    min_epochs = max min_gpu (if cpus = [] then 0 else 1);
                    gpu_sum = sum_list (map (node_min_cost d) gpus);
                    load = (if 0 < gpu_sum then gpu_sum / real capacity else 0);
                    penalty = (if dp_disable_epoch_batch_cost d then 0
                               else sum_list (map (\<lambda>i. dp_epoch_penalty d (ep + i)) [0..<min_epochs]))
             in penalty + dp_lower_bound_cost_factor d * load)"

section \<open>The search\<close>

type_synonym schedule = "(nat \<times> string \<times> string) list"
type_synonym solution = "cost \<times> schedule \<times> (string \<times> string, plan_choice) dict"
type_synonym memo = "int \<times> worker_state list \<times> nat \<Rightarrow> solution option"

text \<open>What one epoch does with a batch: its nodes in order, their depths, the CPU nodes.\<close>

definition prepare_batch :: "dp \<Rightarrow> int \<Rightarrow> string list \<Rightarrow> (string list \<times> (string, nat) dict \<times> string list) result" where
  "prepare_batch d done batch =
     ebind (batch_gpu_depths d batch) (\<lambda>depths.
       let gpus = (if depths = [] then batch else sort_key (\<lambda>n. dict_get depths n 0) batch)
       in ebind (order_cpu_nodes d (auto_cpu_batch d done gpus) depths) (\<lambda>cpus. Inr (gpus, depths, cpus)))"

definition batch_feasible :: "dp \<Rightarrow> string list \<Rightarrow> int \<Rightarrow> bool" where
  "batch_feasible d ns done =
     list_all (\<lambda>n. \<not> blocked (parents_mask d False n) (add_nodes d ns done)) ns"

definition epoch_cost ::
  "dp \<Rightarrow> nat \<Rightarrow> string list \<Rightarrow> (string, nat) dict \<Rightarrow> cost \<Rightarrow> cost \<Rightarrow> cost \<Rightarrow> cost" where
  "epoch_cost d ep gpus depths gmax gsum load =
     (let penalty = (if dp_disable_epoch_batch_cost d then 0 else dp_epoch_penalty d ep);
          depth = (if dp_disable_epoch_batch_cost d then 0 else batch_gpu_depth_penalty d gpus depths);
          weight = (if dp_disable_cpu_load_cost d then 0
                    else if 0 < dp_cpu_load_early_weight d
                      then dp_cpu_load_cost_weight d * (1 + dp_cpu_load_early_weight d / (1 + real ep))
                      else dp_cpu_load_cost_weight d);
          load = (if dp_cpu_cost_mode d = ''naive'' then naive_cpu_cost d gpus else load)
      in penalty + (dp_gpu_cost_max_weight d * gmax + dp_gpu_cost_sum_weight d * gsum) + weight * load + depth)"

type_synonym search = "int \<Rightarrow> worker_state list \<Rightarrow> nat \<Rightarrow> memo \<Rightarrow> (solution \<times> memo) result"

definition combine :: "cost \<Rightarrow> (string \<times> string) list \<Rightarrow> (string \<times> string, plan_choice) dict \<Rightarrow> solution \<Rightarrow> solution" where
  "combine c assign plans sub =
     (case sub of (sub_cost, sched, sub_plans) \<Rightarrow>
        (c + sub_cost, map (\<lambda>(w, n). (0, w, n)) assign @ map (\<lambda>(e, w, n). (e + 1, w, n)) sched,
         add_plans sub_plans plans))"

definition try_outcome ::
  "dp \<Rightarrow> search \<Rightarrow> nat \<Rightarrow> int \<Rightarrow> (string \<times> string) list \<Rightarrow> (cost \<Rightarrow> cost \<Rightarrow> cost \<Rightarrow> cost) \<Rightarrow> outcome
     \<Rightarrow> solution option \<times> memo \<Rightarrow> (solution option \<times> memo) result" where
  "try_outcome d search ep new_done assign cost_of out st =
     (case (out, st) of ((gmax, gsum, load, next_states, plans), (best, memo)) \<Rightarrow>
        let c = cost_of gmax gsum load in
        if dp_lower_bound_pruning d \<and>
             (case best of None \<Rightarrow> False | Some b \<Rightarrow> fst b \<le> c + lower_bound_remaining d new_done (ep + 1))
        then Inr (best, memo)
        else ebind (search new_done next_states (ep + 1) memo) (\<lambda>(sub, memo').
          let sol = combine c assign plans sub in
          Inr (if (case best of None \<Rightarrow> True | Some b \<Rightarrow> fst sol < fst b) then Some sol else best, memo')))"

definition try_assignment ::
  "dp \<Rightarrow> search \<Rightarrow> worker_state list \<Rightarrow> nat \<Rightarrow> int \<Rightarrow> string list \<Rightarrow> (cost \<Rightarrow> cost \<Rightarrow> cost \<Rightarrow> cost) \<Rightarrow> (string \<times> string) list
     \<Rightarrow> solution option \<times> memo \<Rightarrow> (solution option \<times> memo) result" where
  "try_assignment d search states ep new_done cpus cost_of assign st =
     (let cpu_assign = cpu_assignments d cpus in
      if assign = [] \<and> cpu_assign = [] then Inr st
      else ebind (assignment_outcomes d assign cpus states) (\<lambda>outs.
        efold (try_outcome d search ep new_done (assign @ cpu_assign) cost_of) outs st))"

definition try_batch ::
  "dp \<Rightarrow> search \<Rightarrow> int \<Rightarrow> worker_state list \<Rightarrow> nat \<Rightarrow> string list
     \<Rightarrow> solution option \<times> memo \<Rightarrow> (solution option \<times> memo) result" where
  "try_batch d search done states ep batch st =
     ebind (prepare_batch d done batch) (\<lambda>(gpus, depths, cpus).
       if gpus = [] \<and> cpus = [] \<or> \<not> batch_feasible d (gpus @ cpus) done then Inr st
       else ebind (if dp_worker_symmetry d then dedup_worker_assignments d states (gpu_assignments d gpus)
                   else Inr (gpu_assignments d gpus)) (\<lambda>assigns.
         efold (try_assignment d search states ep (add_nodes d (gpus @ cpus) done) cpus
             (epoch_cost d ep gpus depths)) assigns st))"

text \<open>
  \<open>_solve\<close>. A state without a solution is searched again without the pruning by batch shape, unless
  it already was; there the exception ends the whole search. Every epoch takes at least one node, and
  each state is entered at most twice, so the fuel that \<open>solve\<close> starts with is never used up.
\<close>

primrec dp_search :: "nat \<Rightarrow> dp \<Rightarrow> bool \<Rightarrow> bool \<Rightarrow> search" where
  "dp_search 0 d pruning allow_relax = (\<lambda>done states ep memo. Inl Diverges)"
| "dp_search (Suc fuel) d pruning allow_relax = (\<lambda>done states ep memo.
     if done = all_mask d then Inr ((0, [], []), memo)
     else case memo (done, states, ep) of
       Some sol \<Rightarrow> Inr (sol, memo)
     | None \<Rightarrow>
         ebind (enumerate_gpu_batches d pruning done) (\<lambda>batches.
         ebind (efold (try_batch d (dp_search fuel d pruning allow_relax) done states ep) batches (None, memo))
           (\<lambda>(best, memo').
              case best of
                Some sol \<Rightarrow> Inr (sol, memo'((done, states, ep) := Some sol))
              | None \<Rightarrow>
                  if allow_relax \<and> pruning then dp_search fuel d False False done states ep memo'
                  else Inl (RuntimeError ''DP failed to find a valid schedule; check DAG dependencies.''))))"

definition initial_states :: "dp \<Rightarrow> worker_state list" where
  "initial_states d = map (\<lambda>w. \<lparr>ws_idx = dict_get (worker_index d) w 0, ws_model = -1, ws_node = -1\<rparr>) (dp_worker_ids d)"

definition solve :: "dp \<Rightarrow> worker_state list option \<Rightarrow> solution result" where
  "solve d states =
     ebind (dp_search (2 * length (dp_node_ids d) + 2) d (dp_batch_shape_pruning d) True 0
              (option_default states (initial_states d)) 0 (\<lambda>_. None))
       (\<lambda>(sol, _). Inr sol)"

end
