(* ===== verification/HaloSearch.thy ===== *)
theory HaloSearch
  imports HaloDP
begin

text \<open>
  The search of the Halo scheduler: what its masks and loops compute, that it ends, that what it
  returns is a plan of the relation \<open>dp_plan\<close>, built from the steps of the code, that every such plan is
  a valid schedule, and that without pruning none is cheaper.
\<close>

section \<open>What the masks say\<close>

lemma bit_add_nodes: "bit (add_nodes d ns m) i \<longleftrightarrow> bit m i \<or> i \<in> bit_of d ` set ns"
  unfolding add_nodes_def by (induction ns arbitrary: m) (auto simp: bit_set_bit_iff)

lemma is_done_add_nodes: "is_done d (add_nodes d ns m) n \<longleftrightarrow> is_done d m n \<or> bit_of d n \<in> bit_of d ` set ns"
  by (simp add: is_done_def bit_add_nodes)

lemma add_nodes_set: "set ns = set ms \<Longrightarrow> add_nodes d ns m = add_nodes d ms m"
  by (rule bit_eqI) (simp add: bit_add_nodes)

lemma blocked_iff: "blocked p b \<longleftrightarrow> (\<exists>i. bit p i \<and> \<not> bit b i)"
  unfolding blocked_def by (subst bit_eq_iff) (auto simp: bit_and_iff bit_not_iff)

lemma parents_mask_bit:
  "bit (parents_mask d g n) i \<longleftrightarrow>
     i \<in> bit_of d ` {p \<in> set (deps_of d n). p \<in> set (dp_node_ids d) \<and> (g \<longrightarrow> is_gpu_node d p)}"
  by (simp add: parents_mask_def bit_add_nodes)

lemma blocked_parents:
  "blocked (parents_mask d g n) b \<longleftrightarrow>
     (\<exists>p \<in> set (deps_of d n). p \<in> set (dp_node_ids d) \<and> (g \<longrightarrow> is_gpu_node d p) \<and> \<not> is_done d b p)"
  by (auto simp: blocked_iff parents_mask_bit is_done_def)

lemma node_index_of:
  assumes "distinct (dp_node_ids d)" and "i < length (dp_node_ids d)"
  shows "bit_of d (dp_node_ids d ! i) = i"
proof -
  have "map_of (zip (dp_node_ids d) [0..<length (dp_node_ids d)]) (dp_node_ids d ! i) = Some i"
    using assms by (simp add: map_of_zip_nth)
  then show ?thesis using assms(1) by (simp add: bit_of_def node_index_def dict_of_distinct_id dict_get_def)
qed

lemma bit_of_less:
  assumes "distinct (dp_node_ids d)" and "n \<in> set (dp_node_ids d)"
  shows "bit_of d n < length (dp_node_ids d)"
  using assms node_index_of by (metis in_set_conv_nth)

lemma bit_of_eq:
  assumes "distinct (dp_node_ids d)" and "n \<in> set (dp_node_ids d)" and "m \<in> set (dp_node_ids d)"
  shows "bit_of d n = bit_of d m \<longleftrightarrow> n = m"
  using assms node_index_of by (metis in_set_conv_nth)

lemma is_done_add:
  assumes "distinct (dp_node_ids d)" and "n \<in> set (dp_node_ids d)" and "set ns \<subseteq> set (dp_node_ids d)"
  shows "is_done d (add_nodes d ns m) n \<longleftrightarrow> is_done d m n \<or> n \<in> set ns"
  using assms bit_of_eq by (auto simp: is_done_add_nodes)

lemma bit_all_mask: "bit (all_mask d) i \<longleftrightarrow> i < length (dp_node_ids d)"
  by (simp add: all_mask_def flip: mask_eq_exp_minus_1) (simp add: bit_mask_iff)

lemma all_done: "distinct (dp_node_ids d) \<Longrightarrow> n \<in> set (dp_node_ids d) \<Longrightarrow> is_done d (all_mask d) n"
  by (simp add: is_done_def bit_all_mask bit_of_less)

text \<open>The masks of the search only have the bits of node ids.\<close>

definition node_mask :: "dp \<Rightarrow> int \<Rightarrow> bool" where
  "node_mask d m \<longleftrightarrow> (\<forall>i. bit m i \<longrightarrow> i < length (dp_node_ids d))"

lemma node_mask_zero: "node_mask d 0"
  by (simp add: node_mask_def)

lemma node_mask_add:
  "distinct (dp_node_ids d) \<Longrightarrow> set ns \<subseteq> set (dp_node_ids d) \<Longrightarrow> node_mask d m \<Longrightarrow> node_mask d (add_nodes d ns m)"
  using bit_of_less by (auto simp: node_mask_def bit_add_nodes)

lemma node_mask_all:
  assumes "distinct (dp_node_ids d)" and "node_mask d m" and "\<And>n. n \<in> set (dp_node_ids d) \<Longrightarrow> is_done d m n"
  shows "m = all_mask d"
proof (rule bit_eqI)
  fix i
  show "bit m i \<longleftrightarrow> bit (all_mask d) i"
    using assms node_index_of [OF assms(1), of i] unfolding bit_all_mask node_mask_def is_done_def by (metis nth_mem)
qed

section \<open>Batches hold pending nodes\<close>

definition batch_ok :: "dp \<Rightarrow> int \<Rightarrow> string list \<Rightarrow> bool" where
  "batch_ok d done ns \<longleftrightarrow> set ns \<subseteq> {n \<in> set (dp_node_ids d). \<not> is_done d done n} \<and> (distinct (dp_node_ids d) \<longrightarrow> distinct ns)"

lemma relax_children:
  assumes "relax (\<lambda>c q. q @ [c]) cs (indeg, queue) = (indeg', queue')"
    and "distinct (topo @ queue)" and "set (topo @ queue) \<subseteq> N" and "\<forall>n \<in> set (topo @ queue). indeg n \<le> 0" and "set cs \<subseteq> N"
  shows "distinct (topo @ queue') \<and> set (topo @ queue') \<subseteq> N \<and> (\<forall>n \<in> set (topo @ queue'). indeg' n \<le> 0)"
  using assms
proof (induction cs arbitrary: indeg queue)
  case (Cons c cs)
  let ?indeg = "indeg(c := indeg c - 1)"
  let ?queue = "if indeg c - 1 = 0 then queue @ [c] else queue"
  have rel: "relax (\<lambda>c q. q @ [c]) cs (?indeg, ?queue) = (indeg', queue')" using Cons.prems(1) by (simp add: Let_def)
  have fresh: "c \<notin> set (topo @ queue)" if "indeg c - 1 = 0" using Cons.prems(4) that by force
  have low: "\<forall>n \<in> set (topo @ ?queue). ?indeg n \<le> 0" 
  proof
    fix n assume n: "n \<in> set (topo @ ?queue)"
    show "?indeg n \<le> 0"
    proof (cases "n = c")
      case True
      then show ?thesis using n Cons.prems(4) by (cases "indeg c - 1 = 0") force+
    next
      case False
      then show ?thesis using n Cons.prems(4) by (auto split: if_splits)
    qed
  qed
  show ?case
    by (rule Cons.IH [OF rel _ _ low]) (use Cons.prems(2-) fresh in auto)
qed simp

text \<open>No node enters the queue twice, so the fuel suffices and the result is a list of distinct nodes.\<close>

lemma queue_loop_ok:
  assumes "finite N" and "\<And>n. set (children n) \<subseteq> N"
    and "distinct (topo @ queue)" and "set (topo @ queue) \<subseteq> N" and "\<forall>n \<in> set (topo @ queue). indeg n \<le> 0"
    and "card N \<le> fuel + length topo"
  shows "\<exists>t. queue_loop fuel children queue indeg topo = Inr t \<and> distinct t \<and> set t \<subseteq> N"
  using assms(2-)
proof (induction fuel children queue indeg topo rule: queue_loop.induct)
  case (2 children x queue indeg topo)
  have "length (topo @ x # queue) \<le> card N"
    using 2 distinct_card [of "topo @ x # queue"] card_mono [OF assms(1), of "set (topo @ x # queue)"] by simp
  with 2 show ?case by simp
next
  case (3 fuel children x queue indeg topo)
  obtain indeg' queue' where rel: "relax (\<lambda>c q. q @ [c]) (children x) (indeg, queue) = (indeg', queue')" by fastforce
  have "distinct ((topo @ [x]) @ queue') \<and> set ((topo @ [x]) @ queue') \<subseteq> N \<and> (\<forall>n \<in> set ((topo @ [x]) @ queue'). indeg' n \<le> 0)"
    by (rule relax_children [OF rel]) (use "3.prems" in auto)
  with 3 rel show ?case by auto
qed auto

lemma gpu_topo_ok:
  assumes "distinct pend"
  shows "\<exists>t. gpu_topo d pend = Inr t \<and> distinct t \<and> set t \<subseteq> set pend"
proof -
  let ?queue = "filter (\<lambda>n. gpu_indegree d pend n = 0) pend"
  have "\<exists>t. queue_loop (length pend) (gpu_children d pend) ?queue (gpu_indegree d pend) [] = Inr t \<and> distinct t \<and> set t \<subseteq> set pend"
    by (rule queue_loop_ok) (use assms in \<open>auto simp: gpu_children_def distinct_card\<close>)
  with assms show ?thesis by (auto simp: gpu_topo_def)
qed

lemma batch_dfs_sub:
  "b \<in> set (batch_dfs d mn mx done topo sel m) \<Longrightarrow> distinct (sel @ topo) \<Longrightarrow> distinct b \<and> set b \<subseteq> set (sel @ topo)"
proof (induction d mn mx "done" topo sel m rule: batch_dfs.induct)
  case (1 d mn mx "done" sel m)
  then show ?case by (auto split: if_splits)
next
  case (2 d mn mx "done" n topo sel m)
  let ?skip = "batch_dfs d mn mx done topo sel m"
  let ?take = "batch_dfs d mn mx done topo (sel @ [n]) (set_bit (bit_of d n) m)"
  consider "b \<in> set ?skip" | "\<not> mx \<le> length sel" "\<not> blocked (parents_mask d True n) (or done m)" "b \<in> set ?take"
    using "2.prems"(1) by (auto split: if_splits)
  then show ?case
  proof cases
    case 1
    then show ?thesis using "2.IH"(1) [OF 1] "2.prems"(2) by auto
  next
    case 2
    then show ?thesis using "2.IH"(3) [OF 2] "2.prems"(2) by auto
  qed
qed

lemma set_pending_gpu: "set (pending_gpu d done) = {n \<in> set (dp_node_ids d). \<not> is_done d done n \<and> is_gpu_node d n}"
  by (auto simp: pending_gpu_def)

definition gpu_batch :: "dp \<Rightarrow> int \<Rightarrow> string list \<Rightarrow> bool" where
  "gpu_batch d done b \<longleftrightarrow> distinct b \<and> set b \<subseteq> set (pending_gpu d done)"

lemma enumerate_not_diverging:
  assumes "distinct (dp_node_ids d)"
  shows "enumerate_gpu_batches d pruning done \<noteq> Inl Diverges"
  using gpu_topo_ok [of "pending_gpu d done" d] assms
  by (auto simp: enumerate_gpu_batches_def Let_def pending_gpu_def result_simps split: if_splits)

lemma enumerate_gpu_batch:
  assumes "distinct (dp_node_ids d)" and "enumerate_gpu_batches d pruning done = Inr bs" and "b \<in> set bs"
  shows "gpu_batch d done b"
proof -
  have pend: "distinct (pending_gpu d done)" using assms(1) by (simp add: pending_gpu_def)
  obtain t where t: "gpu_topo d (pending_gpu d done) = Inr t" "distinct t" "set t \<subseteq> set (pending_gpu d done)"
    using gpu_topo_ok [OF pend] by blast
  from assms(2,3) t(1) consider "b = []" | mn mx where "b \<in> set (batch_dfs d mn mx done t [] 0)"
    by (auto simp: enumerate_gpu_batches_def Let_def split: if_splits)
  then show ?thesis
  proof cases
    case 1
    then show ?thesis by (simp add: gpu_batch_def)
  next
    case 2
    from batch_dfs_sub [OF 2] t(2,3) show ?thesis by (auto simp: gpu_batch_def)
  qed
qed

lemma relax_depths_children:
  assumes "relax_depths base cs (depths, indeg, queue) = (depths', indeg', queue')"
    and "distinct (topo @ queue)" and "set (topo @ queue) \<subseteq> N" and "\<forall>n \<in> set (topo @ queue). indeg n \<le> 0" and "set cs \<subseteq> N"
  shows "distinct (topo @ queue') \<and> set (topo @ queue') \<subseteq> N \<and> (\<forall>n \<in> set (topo @ queue'). indeg' n \<le> 0)"
proof -
  have "relax (\<lambda>c q. q @ [c]) cs (indeg, queue) = (indeg', queue')"
    using assms(1) by (induction cs arbitrary: depths indeg queue) (auto simp: relax_depths_def Let_def)
  from relax_children [OF this assms(2-)] show ?thesis .
qed

lemma depth_loop_ok:
  assumes "finite N" and "\<And>n. set (children n) \<subseteq> N"
    and "distinct (topo @ queue)" and "set (topo @ queue) \<subseteq> N" and "\<forall>n \<in> set (topo @ queue). indeg n \<le> 0"
    and "card N \<le> fuel + length topo"
  shows "\<exists>ds. depth_loop fuel children depths indeg queue = Inr ds"
  using assms(2-)
proof (induction fuel children depths indeg queue arbitrary: topo rule: depth_loop.induct)
  case (2 children depths indeg x queue)
  have "length (topo @ x # queue) \<le> card N"
    using 2 distinct_card [of "topo @ x # queue"] card_mono [OF assms(1), of "set (topo @ x # queue)"] by simp
  with 2 show ?case by simp
next
  case (3 fuel children depths indeg x queue)
  obtain depths' indeg' queue' where
    rel: "relax_depths (dict_get depths x 0) (children x) (depths, indeg, queue) = (depths', indeg', queue')"
    by (cases "relax_depths (dict_get depths x 0) (children x) (depths, indeg, queue)") auto
  have "distinct ((topo @ [x]) @ queue') \<and> set ((topo @ [x]) @ queue') \<subseteq> N \<and> (\<forall>n \<in> set ((topo @ [x]) @ queue'). indeg' n \<le> 0)"
    by (rule relax_depths_children [OF rel]) (use "3.prems" in auto)
  with "3.IH" [OF rel [symmetric] refl refl, of "topo @ [x]"] "3.prems" rel show ?case by simp
qed auto

lemma batch_gpu_depths_total:
  assumes "distinct b"
  shows "\<exists>ds. batch_gpu_depths d b = Inr ds"
proof -
  let ?queue = "filter (\<lambda>n. gpu_indegree d b n = 0) b"
  have "\<exists>ds. depth_loop (length b) (batch_children d b) (map (\<lambda>n. (n, 0)) ?queue) (gpu_indegree d b) ?queue = Inr ds"
    by (rule depth_loop_ok [where N = "set b" and topo = "[]"]) (use assms in \<open>auto simp: batch_children_def distinct_card\<close>)
  then show ?thesis by (auto simp: batch_gpu_depths_def)
qed

section \<open>What an epoch takes\<close>

lemma cpu_takes_sub:
  assumes "foldl (\<lambda>s n. cpu_take d n s) ((sel, pend, m), b) ns = ((sel', pend', m'), b')"
    and "distinct (sel @ pend)"
  shows "distinct (sel' @ pend') \<and> set (sel' @ pend') = set (sel @ pend)"
  using assms
proof (induction ns arbitrary: sel pend m b)
  case (Cons n ns)
  show ?case
  proof (cases "n \<notin> set pend \<or> blocked (parents_mask d False n) m")
    case True
    then show ?thesis using Cons.IH [of sel pend m b] Cons.prems by (simp add: cpu_take_def)
  next
    case False
    have "distinct ((sel @ [n]) @ removeAll n pend) \<and> set ((sel @ [n]) @ removeAll n pend) = set (sel @ pend)"
      using Cons.prems(2) False by (auto simp: distinct_removeAll)
    with False show ?thesis using Cons.IH [of "sel @ [n]" "removeAll n pend" "set_bit (bit_of d n) m" True] Cons.prems(1)
      by (simp add: cpu_take_def)
  qed
qed simp

lemma cpu_fill_sub: "distinct (fst st @ fst (snd st)) \<Longrightarrow>
    distinct (cpu_fill d st) \<and> set (cpu_fill d st) \<subseteq> set (fst st @ fst (snd st))"
proof (induction d st rule: cpu_fill.induct)
  case (1 d st)
  obtain st' progressed where pass: "cpu_pass d st = (st', progressed)" by fastforce
  obtain sel pend m sel' pend' m' where st: "st = (sel, pend, m)" "st' = (sel', pend', m')" by (cases st, cases st')
  have "distinct (sel' @ pend') \<and> set (sel' @ pend') = set (sel @ pend)"
    using pass "1.prems" unfolding st cpu_pass_def by (intro cpu_takes_sub) auto
  moreover have "cpu_fill d st = (if progressed then cpu_fill d st' else fst st')"
    by (subst cpu_fill.simps) (simp add: pass)
  ultimately show ?case using "1.IH" [OF pass [symmetric]] st by (auto split: if_splits)
qed

definition cpu_batch :: "dp \<Rightarrow> int \<Rightarrow> string list \<Rightarrow> bool" where
  "cpu_batch d done ns \<longleftrightarrow> distinct ns \<and> set ns \<subseteq> {n \<in> set (dp_node_ids d). \<not> is_done d done n \<and> \<not> is_gpu_node d n}"

lemma auto_cpu_batch_sub:
  assumes "distinct (dp_node_ids d)"
  shows "cpu_batch d done (auto_cpu_batch d done gpus)"
proof -
  let ?pend = "filter (\<lambda>n. \<not> is_done d done n) (db_node_ids d)"
  have "distinct ?pend" using assms by (simp add: db_node_ids_def)
  then show ?thesis
    using cpu_fill_sub [of "([], ?pend, add_nodes d gpus done)" d] by (auto simp: cpu_batch_def auto_cpu_batch_def Let_def db_node_ids_def)
qed

lemma mset_zip_sort:
  assumes "length ks = length xs"
  shows "mset (map snd (sort_key fst (zip ks xs))) = mset xs"
proof -
  have "mset (map snd (sort_key fst (zip ks xs))) = image_mset snd (mset (zip ks xs))" by simp
  also have "\<dots> = mset (map snd (zip ks xs))" by (simp only: mset_map)
  also have "\<dots> = mset xs" using assms by simp
  finally show ?thesis .
qed

lemma order_cpu_nodes_mset: "order_cpu_nodes d cpus depths = Inr ns \<Longrightarrow> mset ns = mset cpus"
  using mset_zip_sort by (fastforce simp: order_cpu_nodes_def result_simps dest: emap_length split: if_splits)

lemma mset_perm: "mset xs = mset ys \<Longrightarrow> set xs = set ys \<and> (distinct xs \<longleftrightarrow> distinct ys)"
  using mset_eq_setD mset_eq_imp_distinct_iff by blast

lemma prepare_batch_ok:
  assumes "distinct (dp_node_ids d)" and "gpu_batch d done b" and "prepare_batch d done b = Inr (gpus, depths, cpus)"
  shows "gpu_batch d done gpus" and "cpu_batch d done cpus" and "set gpus = set b"
    and "set cpus = set (auto_cpu_batch d done gpus)"
proof -
  from assms(3) have g: "mset gpus = mset b" by (auto simp: prepare_batch_def Let_def result_simps)
  from assms(3) obtain ds where "order_cpu_nodes d (auto_cpu_batch d done gpus) ds = Inr cpus"
    by (auto simp: prepare_batch_def Let_def result_simps)
  then have c: "mset cpus = mset (auto_cpu_batch d done gpus)" by (rule order_cpu_nodes_mset)
  show "gpu_batch d done gpus" using assms(2) mset_perm [OF g] by (simp add: gpu_batch_def)
  show "cpu_batch d done cpus" using auto_cpu_batch_sub [OF assms(1), of "done" gpus] mset_perm [OF c] by (simp add: cpu_batch_def)
  show "set gpus = set b" using mset_perm [OF g] by simp
  show "set cpus = set (auto_cpu_batch d done gpus)" using mset_perm [OF c] by simp
qed

lemma cpu_order_key_raises: "cpu_order_key d depths n \<noteq> Inl Diverges"
  by (auto simp: cpu_order_key_def result_simps split: option.splits pyval.splits)

lemma order_cpu_nodes_raises: "order_cpu_nodes d cpus depths \<noteq> Inl Diverges"
  using emap_Inl [of "cpu_order_key d depths" cpus Diverges] cpu_order_key_raises
  by (auto simp: order_cpu_nodes_def result_simps)

lemma prepare_batch_raises: "distinct b \<Longrightarrow> prepare_batch d done b \<noteq> Inl Diverges"
  using batch_gpu_depths_total [of b d] by (auto simp: prepare_batch_def Let_def result_simps order_cpu_nodes_raises)

section \<open>The search ends\<close>

definition todo :: "dp \<Rightarrow> int \<Rightarrow> nat" where
  "todo d done = length (filter (\<lambda>n. \<not> is_done d done n) (dp_node_ids d))"

lemma epoch_nodes:
  assumes "gpu_batch d done gpus" and "cpu_batch d done cpus"
  shows "distinct (gpus @ cpus)" and "set (gpus @ cpus) \<subseteq> set (dp_node_ids d)"
    and "\<And>n. n \<in> set (gpus @ cpus) \<Longrightarrow> \<not> is_done d done n"
  using assms by (auto simp: gpu_batch_def cpu_batch_def set_pending_gpu)

lemma todo_decreases:
  assumes "set ns \<subseteq> set (dp_node_ids d)" and "\<And>n. n \<in> set ns \<Longrightarrow> \<not> is_done d done n" and "ns \<noteq> []"
  shows "todo d (add_nodes d ns done) < todo d done"
proof -
  obtain n where n: "n \<in> set ns" using assms(3) by (cases ns) auto
  have "filter (\<lambda>n. \<not> is_done d (add_nodes d ns done) n) (dp_node_ids d) =
      filter (\<lambda>n. bit_of d n \<notin> bit_of d ` set ns) (filter (\<lambda>n. \<not> is_done d done n) (dp_node_ids d))"
    by (simp add: is_done_add_nodes conj_commute)
  then show ?thesis
    unfolding todo_def using n assms(1,2) by (simp only:) (rule length_filter_less [of n], auto)
qed

text \<open>The cost functions of the caller may raise, but they return.\<close>

definition costs_return :: "dp \<Rightarrow> bool" where
  "costs_return d \<longleftrightarrow> (\<forall>nd w. dp_exec_cost d nd w \<noteq> Inl Diverges) \<and> (\<forall>nd m. dp_model_init_cost d nd m \<noteq> Inl Diverges)"

lemma dict_index_raises: "dict_index m k \<noteq> Inl Diverges"
  by (auto simp: dict_index_def split: option.splits)

lemma nth_result_raises [simp]: "nth_result xs i \<noteq> Inl Diverges"
  by (auto simp: nth_result_def)

lemma execute_node_raises: "costs_return d \<Longrightarrow> execute_node d n st win \<noteq> Inl Diverges"
  using dict_index_raises nth_result_raises
  by (auto simp: execute_node_def costs_return_def result_simps Let_def split: if_splits)

lemma apply_cpu_load_raises: "apply_cpu_load d cpus win \<noteq> Inl Diverges"
proof -
  have "efold (cpu_load_step d) cpus st \<noteq> Inl Diverges" for st
    by (rule efold_raises) (auto simp: cpu_load_step_def result_simps dict_index_raises split: prod.splits)
  then show ?thesis by (auto simp: apply_cpu_load_def result_simps)
qed

lemma outcome_dfs_raises:
  "costs_return d \<Longrightarrow> outcome_dfs d cpus assign states costs plans load win \<noteq> Inl Diverges"
proof (induction d cpus assign states costs plans load win rule: outcome_dfs.induct)
  case (1 d cpus states costs plans load win)
  have "emap (\<lambda>w. ebind (dict_index (worker_index d) w) (nth_result costs)) (dp_gpu_worker_ids d) \<noteq> Inl Diverges"
    using dict_index_raises nth_result_raises by (fastforce simp: result_simps dest: emap_Inl)
  then show ?case using apply_cpu_load_raises by (auto simp: result_simps)
next
  case (2 d cpus w n assign states costs plans load win)
  show ?case
  proof
    assume "outcome_dfs d cpus ((w, n) # assign) states costs plans load win = Inl Diverges"
    then obtain i st opts where i: "dict_index (worker_index d) w = Inr i" and st: "nth_result states i = Inr st"
      and opts: "execute_node d n st win = Inr opts"
      and rec: "emap (\<lambda>(c, q, st', ps, win'). outcome_dfs d cpus assign (states[i := st']) (costs[i := costs ! i + c])
          (add_plans plans ps) (load + q) win') opts = Inl Diverges"
      by (auto simp: result_simps nth_result_raises execute_node_raises [OF "2.prems"])
    from emap_Inl [OF rec] obtain c q st' ps win' where "(c, q, st', ps, win') \<in> set opts"
      "outcome_dfs d cpus assign (states[i := st']) (costs[i := costs ! i + c]) (add_plans plans ps) (load + q) win' = Inl Diverges"
      by auto
    with "2.IH" [OF "2.prems"] show False by blast
  qed
qed

lemma try_outcome_raises:
  assumes "\<And>st memo. search new_done st (ep + 1) memo \<noteq> Inl Diverges"
  shows "try_outcome d search ep new_done assign cost_of out st \<noteq> Inl Diverges"
  using assms by (auto simp: try_outcome_def Let_def result_simps split: prod.splits)

lemma try_assignment_raises:
  assumes "costs_return d" and "\<And>st memo. search new_done st (ep + 1) memo \<noteq> Inl Diverges"
  shows "try_assignment d search states ep new_done cpus cost_of assign st \<noteq> Inl Diverges"
proof -
  have "efold (try_outcome d search ep new_done a cost_of) outs st \<noteq> Inl Diverges" for a outs
    by (rule efold_raises, rule try_outcome_raises, rule assms(2))
  then show ?thesis
    using outcome_dfs_raises [OF assms(1)] by (auto simp: try_assignment_def assignment_outcomes_def Let_def result_simps)
qed

lemma assignment_signature_raises: "assignment_signature d states assign \<noteq> Inl Diverges"
proof -
  have "efold (\<lambda>(w, n) buckets. ebind (dict_index (worker_index d) w) (\<lambda>i. ebind (nth_result states i) (\<lambda>st.
      ebind (worker_signature d i st) (\<lambda>sig. Inr (AList.update sig (dict_get buckets sig [] @ [n]) buckets))))) assign bs
      \<noteq> Inl Diverges" for bs
    by (rule efold_raises) (auto simp: worker_signature_def result_simps)
  then show ?thesis by (auto simp: assignment_signature_def result_simps)
qed

lemma dedup_raises: "dedup_worker_assignments d states assigns \<noteq> Inl Diverges"
proof -
  have "efold (\<lambda>a (seen, uniq). ebind (assignment_signature d states a) (\<lambda>key.
      Inr (if key \<in> set seen then (seen, uniq) else (key # seen, uniq @ [a])))) assigns st \<noteq> Inl Diverges" for st
    by (rule efold_raises) (auto simp: result_simps assignment_signature_raises split: prod.splits)
  then show ?thesis by (auto simp: dedup_worker_assignments_def result_simps)
qed

lemma try_batch_raises:
  assumes "distinct (dp_node_ids d)" and "costs_return d" and "gpu_batch d done b"
    and "\<And>done' st memo. todo d done' < todo d done \<Longrightarrow> search done' st (ep + 1) memo \<noteq> Inl Diverges"
  shows "try_batch d search done states ep b st \<noteq> Inl Diverges"
proof
  assume "try_batch d search done states ep b st = Inl Diverges"
  moreover have "prepare_batch d done b \<noteq> Inl Diverges" using assms(3) by (simp add: prepare_batch_raises gpu_batch_def)
  ultimately obtain gpus depths cpus assigns where p: "prepare_batch d done b = Inr (gpus, depths, cpus)"
    and ne: "gpus \<noteq> [] \<or> cpus \<noteq> []"
    and fold: "efold (try_assignment d search states ep (add_nodes d (gpus @ cpus) done) cpus (epoch_cost d ep gpus depths))
        assigns st = Inl Diverges"
    by (auto simp: try_batch_def result_simps dedup_raises split: if_splits)
  note ok = prepare_batch_ok(1,2) [OF assms(1,3) p]
  have "todo d (add_nodes d (gpus @ cpus) done) < todo d done"
    by (rule todo_decreases) (use epoch_nodes [OF ok] ne in auto)
  then have "efold (try_assignment d search states ep (add_nodes d (gpus @ cpus) done) cpus (epoch_cost d ep gpus depths))
        assigns st \<noteq> Inl Diverges"
    by (intro efold_raises try_assignment_raises assms(2,4))
  with fold show False by simp
qed

lemma dp_search_returns:
  assumes "distinct (dp_node_ids d)" and "costs_return d"
    and "2 * todo d done + (if allow_relax \<and> pruning then 2 else 1) \<le> fuel"
  shows "dp_search fuel d pruning allow_relax done states ep memo \<noteq> Inl Diverges"
  using assms(3)
proof (induction fuel arbitrary: pruning allow_relax "done" states ep memo)
  case 0
  then show ?case by (simp split: if_splits)
next
  case (Suc fuel)
  let ?search = "dp_search fuel d pruning allow_relax"
  have sub: "?search done' st (ep + 1) memo \<noteq> Inl Diverges" if "todo d done' < todo d done" for done' st memo
    by (rule Suc.IH) (use that Suc.prems in \<open>simp split: if_splits\<close>)
  have "efold (try_batch d ?search done states ep) bs st \<noteq> Inl Diverges"
    if "enumerate_gpu_batches d pruning done = Inr bs" for bs st
    by (rule efold_raises, rule try_batch_raises [OF assms(1,2) enumerate_gpu_batch [OF assms(1) that]]) (use sub in auto)
  moreover have "dp_search fuel d False False done states ep memo' \<noteq> Inl Diverges" if "allow_relax \<and> pruning" for memo'
    by (rule Suc.IH) (use that Suc.prems in simp)
  ultimately show ?case
    using enumerate_not_diverging [OF assms(1)] by (auto simp: result_simps split: option.splits if_splits)
qed

lemma todo_le: "todo d done \<le> length (dp_node_ids d)"
  by (simp add: todo_def)

lemma solve_returns:
  assumes "distinct (dp_node_ids d)" and "costs_return d"
  shows "solve d states \<noteq> Inl Diverges"
proof -
  have "2 * todo d 0 + (if True \<and> dp_batch_shape_pruning d then 2 else 1) \<le> 2 * length (dp_node_ids d) + 2"
    using todo_le [of d 0] by simp
  from dp_search_returns [OF assms this, of "option_default states (initial_states d)" 0 "\<lambda>_. None"]
  show ?thesis unfolding solve_def by (auto simp: ebind_Inl_iff simp del: dp_search.simps split: prod.splits)
qed

section \<open>The plans the search chooses from\<close>

text \<open>
  The plans that the steps of the search can build: one epoch takes a batch, its assignment and an
  outcome of it; a plan is a sequence of epochs until every node is done. \<open>flags\<close> are the settings of the batch
  shape pruning under which batches may be enumerated.
\<close>

definition epoch_choice ::
  "dp \<Rightarrow> bool \<Rightarrow> int \<Rightarrow> worker_state list \<Rightarrow> nat
     \<Rightarrow> cost \<times> (string \<times> string) list \<times> (string \<times> string, plan_choice) dict \<times> worker_state list \<times> int \<Rightarrow> bool" where
  "epoch_choice d pruning done states ep ch \<longleftrightarrow>
     (\<exists>batches b gpus depths cpus a outs gmax gsum load next_states plans.
        enumerate_gpu_batches d pruning done = Inr batches \<and> b \<in> set batches \<and>
        prepare_batch d done b = Inr (gpus, depths, cpus) \<and> (gpus \<noteq> [] \<or> cpus \<noteq> []) \<and>
        batch_feasible d (gpus @ cpus) done \<and>
        a \<in> set (gpu_assignments d gpus) \<and> (a \<noteq> [] \<or> cpu_assignments d cpus \<noteq> []) \<and>
        assignment_outcomes d a cpus states = Inr outs \<and> (gmax, gsum, load, next_states, plans) \<in> set outs \<and>
        ch = (epoch_cost d ep gpus depths gmax gsum load, a @ cpu_assignments d cpus, plans, next_states,
          add_nodes d (gpus @ cpus) done))"

inductive dp_plan :: "dp \<Rightarrow> bool set \<Rightarrow> int \<Rightarrow> worker_state list \<Rightarrow> nat \<Rightarrow> solution \<Rightarrow> bool" for d flags where
  plan_done: "dp_plan d flags (all_mask d) states ep (0, [], [])"
| plan_epoch: "done \<noteq> all_mask d \<Longrightarrow> pruning \<in> flags \<Longrightarrow>
    epoch_choice d pruning done states ep (c, assign, plans, next_states, new_done) \<Longrightarrow>
    dp_plan d flags new_done next_states (ep + 1) sub \<Longrightarrow>
    dp_plan d flags done states ep (combine c assign plans sub)"

inductive_cases dp_planE: "dp_plan d flags done states ep sol"

lemma dedup_sub: "dedup_worker_assignments d states assigns = Inr us \<Longrightarrow> set us \<subseteq> set assigns"
proof -
  assume us: "dedup_worker_assignments d states assigns = Inr us"
  then obtain st where st: "efold (\<lambda>a (seen, uniq). ebind (assignment_signature d states a) (\<lambda>key.
      Inr (if key \<in> set seen then (seen, uniq) else (key # seen, uniq @ [a])))) assigns ([], []) = Inr st" "us = snd st"
    by (auto simp: dedup_worker_assignments_def result_simps)
  have "set (snd st) \<subseteq> set assigns"
  proof (rule efold_invariant [OF st(1), where P = "\<lambda>s. set (snd s) \<subseteq> set assigns"])
    fix a u v
    assume "a \<in> set assigns" and "set (snd u) \<subseteq> set assigns" and "(case u of (seen, uniq) \<Rightarrow>
      ebind (assignment_signature d states a) (\<lambda>key. Inr (if key \<in> set seen then (seen, uniq) else (key # seen, uniq @ [a])))) = Inr v"
    then show "set (snd v) \<subseteq> set assigns" by (cases u) (auto simp: ebind_Inr_iff split: if_splits)
  qed simp
  with st(2) show ?thesis by simp
qed

section \<open>The search finds a plan\<close>

definition memo_ok :: "(int \<Rightarrow> worker_state list \<Rightarrow> nat \<Rightarrow> solution \<Rightarrow> bool) \<Rightarrow> memo \<Rightarrow> bool" where
  "memo_ok P memo \<longleftrightarrow> (\<forall>done states ep sol. memo (done, states, ep) = Some sol \<longrightarrow> P done states ep sol)"

lemma memo_ok_empty [simp]: "memo_ok P (\<lambda>_. None)"
  by (simp add: memo_ok_def)

lemma memo_ok_update: "memo_ok P memo \<Longrightarrow> P done states ep sol \<Longrightarrow> memo_ok P (memo((done, states, ep) := Some sol))"
  by (auto simp: memo_ok_def)

text \<open>
  One loop over outcomes, assignments and batches keeps the best solution among the choices of the
  epoch, when the search below does what it should.
\<close>

definition best_ok :: "(solution \<Rightarrow> bool) \<Rightarrow> (int \<Rightarrow> worker_state list \<Rightarrow> nat \<Rightarrow> solution \<Rightarrow> bool) \<Rightarrow> solution option \<times> memo \<Rightarrow> bool" where
  "best_ok Q P st \<longleftrightarrow> (\<forall>sol. fst st = Some sol \<longrightarrow> Q sol) \<and> memo_ok P (snd st)"

lemma try_outcome_best:
  assumes "try_outcome d search ep new_done assign cost_of (gmax, gsum, load, next_states, plans) st = Inr st'"
    and "best_ok Q P st"
    and "\<And>memo sub memo'. memo_ok P memo \<Longrightarrow> search new_done next_states (ep + 1) memo = Inr (sub, memo') \<Longrightarrow>
      P new_done next_states (ep + 1) sub \<and> memo_ok P memo'"
    and "\<And>sub. P new_done next_states (ep + 1) sub \<Longrightarrow> Q (combine (cost_of gmax gsum load) assign plans sub)"
  shows "best_ok Q P st'"
  using assms by (cases st) (fastforce simp: try_outcome_def best_ok_def Let_def result_simps split: if_splits)

lemma try_batch_best:
  assumes "try_batch d search done states ep b st = Inr st'" and "best_ok Q P st"
    and "enumerate_gpu_batches d pruning done = Inr bs" and "b \<in> set bs"
    and search: "\<And>done' states' memo sub memo'. memo_ok P memo \<Longrightarrow> search done' states' (ep + 1) memo = Inr (sub, memo') \<Longrightarrow>
      P done' states' (ep + 1) sub \<and> memo_ok P memo'"
    and choice: "\<And>c assign plans next_states new_done sub.
      epoch_choice d pruning done states ep (c, assign, plans, next_states, new_done) \<Longrightarrow>
      P new_done next_states (ep + 1) sub \<Longrightarrow> Q (combine c assign plans sub)"
  shows "best_ok Q P st'"
proof -
  from assms(1) obtain gpus depths cpus where p: "prepare_batch d done b = Inr (gpus, depths, cpus)"
    by (auto simp: try_batch_def result_simps)
  let ?new = "add_nodes d (gpus @ cpus) done"
  show ?thesis
  proof (cases "gpus = [] \<and> cpus = [] \<or> \<not> batch_feasible d (gpus @ cpus) done")
    case True
    then show ?thesis using assms(1,2) p by (simp add: try_batch_def)
  next
    case False
    obtain assigns where sub: "set assigns \<subseteq> set (gpu_assignments d gpus)"
      and fold: "efold (try_assignment d search states ep ?new cpus (epoch_cost d ep gpus depths)) assigns st = Inr st'"
      using assms(1) p False dedup_sub by (fastforce simp: try_batch_def result_simps split: if_splits)
    show ?thesis
    proof (rule efold_invariant [OF fold, where P = "best_ok Q P"])
      fix a u v
      assume a: "a \<in> set assigns" and u: "best_ok Q P u"
        and step: "try_assignment d search states ep ?new cpus (epoch_cost d ep gpus depths) a u = Inr v"
      show "best_ok Q P v"
      proof (cases "a = [] \<and> cpu_assignments d cpus = []")
        case True
        then show ?thesis using step u by (simp add: try_assignment_def Let_def)
      next
        case nonempty: False
        obtain outs where outs: "assignment_outcomes d a cpus states = Inr outs"
          and ofold: "efold (try_outcome d search ep ?new (a @ cpu_assignments d cpus) (epoch_cost d ep gpus depths)) outs u = Inr v"
          using step nonempty by (auto simp: try_assignment_def Let_def result_simps split: if_splits)
        show ?thesis
        proof (rule efold_invariant [OF ofold, where P = "best_ok Q P"])
          fix out u v
          assume out: "out \<in> set outs" and u: "best_ok Q P u"
            and step: "try_outcome d search ep ?new (a @ cpu_assignments d cpus) (epoch_cost d ep gpus depths) out u = Inr v"
          obtain gmax gsum load next_states plans where o: "out = (gmax, gsum, load, next_states, plans)" by (cases out)
          have ch: "epoch_choice d pruning done states ep
              (epoch_cost d ep gpus depths gmax gsum load, a @ cpu_assignments d cpus, plans, next_states, ?new)"
            unfolding epoch_choice_def using assms(3,4) p False a sub nonempty outs out o by blast
          show "best_ok Q P v"
            by (rule try_outcome_best [OF step [unfolded o] u search choice [OF ch]])
        qed (rule u)
      qed
    qed (rule assms(2))
  qed
qed

lemma dp_search_plan:
  assumes "dp_search fuel d pruning allow_relax done states ep memo = Inr (sol, memo')"
    and "memo_ok (dp_plan d flags) memo" and "pruning \<in> flags" and "False \<in> flags"
  shows "dp_plan d flags done states ep sol \<and> memo_ok (dp_plan d flags) memo'"
  using assms
proof (induction fuel arbitrary: pruning allow_relax "done" states ep memo sol memo')
  case (Suc fuel)
  show ?case
  proof (cases "done = all_mask d \<or> memo (done, states, ep) \<noteq> None")
    case True
    then show ?thesis using Suc.prems by (auto simp: memo_ok_def intro: plan_done split: if_splits)
  next
    case False
    then have "memo (done, states, ep) = None" by (cases "memo (done, states, ep)") auto
    with False obtain bs best memo1 where bs: "enumerate_gpu_batches d pruning done = Inr bs"
      and fold: "efold (try_batch d (dp_search fuel d pruning allow_relax) done states ep) bs (None, memo) = Inr (best, memo1)"
      and final: "(case best of Some sol \<Rightarrow> Inr (sol, memo1((done, states, ep) := Some sol))
        | None \<Rightarrow> if allow_relax \<and> pruning then dp_search fuel d False False done states ep memo1
                  else Inl (RuntimeError ''DP failed to find a valid schedule; check DAG dependencies.'')) = Inr (sol, memo')"
      using Suc.prems(1) by (auto simp: result_simps)
    have best: "best_ok (dp_plan d flags done states ep) (dp_plan d flags) (best, memo1)"
    proof (rule efold_invariant [OF fold, where P = "best_ok (dp_plan d flags done states ep) (dp_plan d flags)"])
      show "best_ok (dp_plan d flags done states ep) (dp_plan d flags) (None, memo)"
        using Suc.prems(2) by (simp add: best_ok_def)
    next
      fix b u v
      assume b: "b \<in> set bs" and u: "best_ok (dp_plan d flags done states ep) (dp_plan d flags) u"
        and step: "try_batch d (dp_search fuel d pruning allow_relax) done states ep b u = Inr v"
      show "best_ok (dp_plan d flags done states ep) (dp_plan d flags) v"
        by (rule try_batch_best [OF step u bs b Suc.IH]) (use False Suc.prems(3,4) in \<open>auto intro: plan_epoch\<close>)
    qed
    show ?thesis
    proof (cases best)
      case None
      then show ?thesis using final best Suc.IH Suc.prems(4) by (auto simp: best_ok_def split: if_splits)
    next
      case (Some s)
      then show ?thesis using final best by (auto simp: best_ok_def intro: memo_ok_update)
    qed
  qed
qed simp

section \<open>Every plan is a valid schedule\<close>

lemma gpu_assign_dfs_ok:
  "a \<in> set (gpu_assign_dfs d ns used) \<Longrightarrow>
     map snd a = ns \<and> distinct (map fst a) \<and> fst ` set a \<inter> set used = {} \<and>
     (\<forall>(w, n) \<in> set a. w \<in> set (dp_gpu_worker_ids d) \<and> w \<in> set (dict_get (dp_node_worker_options d) n (dp_gpu_worker_ids d)))"
proof (induction d ns used arbitrary: a rule: gpu_assign_dfs.induct)
  case (2 d n ns used)
  from "2.prems" obtain w a' where w: "w \<in> set (dp_gpu_worker_ids d)"
    "w \<in> set (dict_get (dp_node_worker_options d) n (dp_gpu_worker_ids d))" "w \<notin> set used"
    and a: "a = (w, n) # a'" "a' \<in> set (gpu_assign_dfs d ns (w # used))"
    by (auto split: if_splits)
  show ?case using "2.IH" [OF w(1) _ a(2)] w a(1) by auto
qed auto

lemma cpu_assignments_ok:
  assumes "dp_cpu_worker_ids d \<noteq> []"
  shows "map snd (cpu_assignments d cpus) = cpus"
    and "(w, n) \<in> set (cpu_assignments d cpus) \<Longrightarrow> w \<in> set (dp_cpu_worker_ids d)"
proof -
  have eq: "cpu_assignments d cpus = map (\<lambda>(i, n). (dp_cpu_worker_ids d ! (i mod length (dp_cpu_worker_ids d)), n))
      (zip [0..<length cpus] cpus)"
    using assms by (simp add: cpu_assignments_def Let_def)
  have "map snd (cpu_assignments d cpus) = map snd (zip [0..<length cpus] cpus)"
    unfolding eq by (simp add: case_prod_beta' comp_def)
  then show "map snd (cpu_assignments d cpus) = cpus" by simp
  show "(w, n) \<in> set (cpu_assignments d cpus) \<Longrightarrow> w \<in> set (dp_cpu_worker_ids d)"
    unfolding eq using assms by auto
qed

text \<open>
  A schedule for the nodes that are still to do: each of them once, on a worker it may run on, no
  GPU worker with two nodes in one epoch, and no node before its parents.
\<close>

definition may_run :: "dp \<Rightarrow> string \<Rightarrow> string \<Rightarrow> bool" where
  "may_run d n w \<longleftrightarrow>
     (if is_gpu_node d n
      then w \<in> set (dp_gpu_worker_ids d) \<and> w \<in> set (dict_get (dp_node_worker_options d) n (dp_gpu_worker_ids d))
      else w \<in> set (dp_cpu_worker_ids d))"

definition valid_schedule :: "dp \<Rightarrow> int \<Rightarrow> schedule \<Rightarrow> bool" where
  "valid_schedule d done sched \<longleftrightarrow>
     distinct (map (\<lambda>(e, w, n). n) sched) \<and>
     (\<lambda>(e, w, n). n) ` set sched = {n \<in> set (dp_node_ids d). \<not> is_done d done n} \<and>
     (\<forall>(e, w, n) \<in> set sched. may_run d n w) \<and>
     (\<forall>e w n m. (e, w, n) \<in> set sched \<and> (e, w, m) \<in> set sched \<and> is_gpu_node d n \<and> is_gpu_node d m \<longrightarrow> n = m) \<and>
     (\<forall>(e, w, n) \<in> set sched. \<forall>p \<in> set (deps_of d n). p \<in> set (dp_node_ids d) \<longrightarrow>
        is_done d done p \<or> (\<exists>e' w'. (e', w', p) \<in> set sched \<and> e' \<le> e))"

definition dp_wf :: "dp \<Rightarrow> bool" where
  "dp_wf d \<longleftrightarrow> distinct (dp_node_ids d) \<and> dp_cpu_worker_ids d \<noteq> []"

lemma epoch_choice_nodes:
  assumes "dp_wf d" and "epoch_choice d pruning done states ep (c, assign, plans, next_states, new_done)"
  shows "distinct (map snd assign)" and "map snd assign \<noteq> []" and "set (map snd assign) \<subseteq> set (dp_node_ids d)"
    and "\<And>n. n \<in> set (map snd assign) \<Longrightarrow> \<not> is_done d done n"
    and "new_done = add_nodes d (map snd assign) done"
    and "\<And>w n. (w, n) \<in> set assign \<Longrightarrow> may_run d n w"
    and "\<And>w n m. (w, n) \<in> set assign \<Longrightarrow> (w, m) \<in> set assign \<Longrightarrow> is_gpu_node d n \<Longrightarrow> is_gpu_node d m \<Longrightarrow> n = m"
    and "\<And>n p. n \<in> set (map snd assign) \<Longrightarrow> p \<in> set (deps_of d n) \<Longrightarrow> p \<in> set (dp_node_ids d) \<Longrightarrow> is_done d new_done p"
proof -
  have wf: "distinct (dp_node_ids d)" "dp_cpu_worker_ids d \<noteq> []" using assms(1) by (auto simp: dp_wf_def)
  from assms(2) obtain batches b gpus depths cpus a where bs: "enumerate_gpu_batches d pruning done = Inr batches" "b \<in> set batches"
    and p: "prepare_batch d done b = Inr (gpus, depths, cpus)" and feas: "batch_feasible d (gpus @ cpus) done"
    and ne: "gpus \<noteq> [] \<or> cpus \<noteq> []" and a: "a \<in> set (gpu_assignments d gpus)"
    and assign: "assign = a @ cpu_assignments d cpus" and new: "new_done = add_nodes d (gpus @ cpus) done"
    unfolding epoch_choice_def by blast
  note ok = prepare_batch_ok(1,2) [OF wf(1) enumerate_gpu_batch [OF wf(1) bs] p]
  note nodes = epoch_nodes [OF ok]
  note ga = gpu_assign_dfs_ok [OF a [unfolded gpu_assignments_def]]
  note ca = cpu_assignments_ok [OF wf(2), where cpus = cpus]
  have snds: "map snd assign = gpus @ cpus" using ga ca(1) by (simp add: assign)
  show "distinct (map snd assign)" "map snd assign \<noteq> []" "set (map snd assign) \<subseteq> set (dp_node_ids d)"
    "new_done = add_nodes d (map snd assign) done"
    unfolding snds using nodes ne new by auto
  show "\<not> is_done d done n" if "n \<in> set (map snd assign)" for n using that nodes(3) unfolding snds by blast
  have gpu: "is_gpu_node d n" if "n \<in> set gpus" for n using that ok(1) by (auto simp: gpu_batch_def set_pending_gpu)
  have cpu: "\<not> is_gpu_node d n" if "n \<in> set cpus" for n using that ok(2) by (auto simp: cpu_batch_def)
  have sa: "map snd a = gpus" using ga by blast
  have in_a: "n \<in> set gpus" if "(w, n) \<in> set a" for w n using that unfolding sa [symmetric] by force
  have in_c: "n \<in> set cpus" if "(w, n) \<in> set (cpu_assignments d cpus)" for w n
  proof -
    have "n \<in> set (map snd (cpu_assignments d cpus))" using that by force
    then show ?thesis unfolding ca(1) .
  qed
  show "may_run d n w" if "(w, n) \<in> set assign" for w n
  proof (cases "(w, n) \<in> set a")
    case True
    then show ?thesis using ga gpu [OF in_a [OF True]] by (auto simp: may_run_def)
  next
    case False
    then have "(w, n) \<in> set (cpu_assignments d cpus)" using that by (simp add: assign)
    then show ?thesis using ca(2) cpu in_c by (auto simp: may_run_def)
  qed
  show "n = m" if n: "(w, n) \<in> set assign" and m: "(w, m) \<in> set assign" and g: "is_gpu_node d n" "is_gpu_node d m" for w n m
  proof -
    have "(w, n) \<in> set a" "(w, m) \<in> set a" using n m g cpu in_c by (auto simp: assign)
    then show ?thesis using ga by (metis eq_key_imp_eq_value)
  qed
  show "is_done d new_done p" if "n \<in> set (map snd assign)" "p \<in> set (deps_of d n)" "p \<in> set (dp_node_ids d)" for n p
    using that feas unfolding snds new batch_feasible_def list_all_iff blocked_parents by blast
qed

lemma dp_plan_valid:
  assumes "dp_wf d" and "dp_plan d flags done states ep sol"
  shows "valid_schedule d done (fst (snd sol))"
  using assms(2)
proof (induction rule: dp_plan.induct)
  case (plan_done states ep)
  have "is_done d (all_mask d) n" if "n \<in> set (dp_node_ids d)" for n using that assms(1) all_done by (simp add: dp_wf_def)
  then show ?case by (auto simp: valid_schedule_def)
next
  case (plan_epoch "done" pruning states ep c assign plans next_states new_done sub)
  obtain sc sched sp where sub: "sub = (sc, sched, sp)" by (cases sub)
  note ch = epoch_choice_nodes [OF assms(1) plan_epoch.hyps(3)]
  have wf: "distinct (dp_node_ids d)" using assms(1) by (simp add: dp_wf_def)
  have new: "is_done d new_done n \<longleftrightarrow> is_done d done n \<or> n \<in> set (map snd assign)" if "n \<in> set (dp_node_ids d)" for n
    unfolding ch(5) by (rule is_done_add [OF wf that ch(3)])
  from plan_epoch.IH have IH: "valid_schedule d new_done sched" by (simp add: sub)
  then have dist: "distinct (map (\<lambda>(e, w, n). n) sched)"
    and nodes: "(\<lambda>(e, w, n). n) ` set sched = {n \<in> set (dp_node_ids d). \<not> is_done d new_done n}"
    and may: "\<And>e w n. (e, w, n) \<in> set sched \<Longrightarrow> may_run d n w"
    and one: "\<And>e w n m. (e, w, n) \<in> set sched \<Longrightarrow> (e, w, m) \<in> set sched \<Longrightarrow> is_gpu_node d n \<Longrightarrow> is_gpu_node d m \<Longrightarrow> n = m"
    and deps: "\<And>e w n p. (e, w, n) \<in> set sched \<Longrightarrow> p \<in> set (deps_of d n) \<Longrightarrow> p \<in> set (dp_node_ids d) \<Longrightarrow>
      is_done d new_done p \<or> (\<exists>e' w'. (e', w', p) \<in> set sched \<and> e' \<le> e)"
    unfolding valid_schedule_def by blast+
  let ?now = "map (\<lambda>(w, n). (0 :: nat, w, n)) assign" and ?later = "map (\<lambda>(e, w, n). (e + 1, w, n)) sched"
  have later: "map (\<lambda>(e, w, n). n) ?later = map (\<lambda>(e, w, n). n) sched" and now: "map (\<lambda>(e, w, n). n) ?now = map snd assign"
    by auto
  have split: "set (map snd assign) \<union> {n \<in> set (dp_node_ids d). \<not> is_done d new_done n} =
      {n \<in> set (dp_node_ids d). \<not> is_done d done n}"
    using new ch(3,4) by blast
  have disj: "set (map snd assign) \<inter> {n \<in> set (dp_node_ids d). \<not> is_done d new_done n} = {}"
    using new by blast
  have "valid_schedule d done (?now @ ?later)"
    unfolding valid_schedule_def
  proof (intro conjI)
    have sn: "set (map (\<lambda>(e, w, n). n) sched) = {n \<in> set (dp_node_ids d). \<not> is_done d new_done n}" using nodes by simp
    show "distinct (map (\<lambda>(e, w, n). n) (?now @ ?later))"
      unfolding map_append later now distinct_append sn using ch(1) dist disj by blast
    have "set (map (\<lambda>(e, w, n). n) (?now @ ?later)) = {n \<in> set (dp_node_ids d). \<not> is_done d done n}"
      unfolding map_append later now set_append sn by (rule split)
    then show "(\<lambda>(e, w, n). n) ` set (?now @ ?later) = {n \<in> set (dp_node_ids d). \<not> is_done d done n}"
      by (simp only: list.set_map)
    show "\<forall>(e, w, n) \<in> set (?now @ ?later). may_run d n w" using ch(6) may by auto
    show "\<forall>e w n m. (e, w, n) \<in> set (?now @ ?later) \<and> (e, w, m) \<in> set (?now @ ?later) \<and> is_gpu_node d n \<and> is_gpu_node d m \<longrightarrow> n = m"
      using ch(7) one by auto
    have ordered: "\<exists>e' w'. (e', w', p) \<in> set (?now @ ?later) \<and> e' \<le> e"
      if en: "(e, w, n) \<in> set (?now @ ?later)" and p: "p \<in> set (deps_of d n)" "p \<in> set (dp_node_ids d)" "\<not> is_done d done p"
      for e w n p
    proof -
      have here: "\<exists>w'. (0, w', p) \<in> set ?now" if "is_done d new_done p"
      proof -
        have "p \<in> set (map snd assign)" using that new [OF p(2)] p(3) by blast
        then show ?thesis by force
      qed
      from en consider "e = 0" "(w, n) \<in> set assign" | e1 where "e = e1 + 1" "(e1, w, n) \<in> set sched" by auto
      then show "\<exists>e' w'. (e', w', p) \<in> set (?now @ ?later) \<and> e' \<le> e"
      proof cases
        case 1
        have "n \<in> set (map snd assign)" using 1(2) by force
        then show ?thesis using here ch(8) p by (metis UnCI le0 set_append)
      next
        case 2
        show ?thesis
        proof (cases "is_done d new_done p")
          case True
          then show ?thesis using here by (metis UnCI le0 set_append)
        next
          case False
          then obtain e' w' where "(e', w', p) \<in> set sched" "e' \<le> e1" using deps [OF 2(2) p(1,2)] by blast
          then have "(e' + 1, w', p) \<in> set ?later" "e' + 1 \<le> e" using 2(1) by force+
          then show ?thesis by (metis UnCI set_append)
        qed
      qed
    qed
    show "\<forall>(e, w, n) \<in> set (?now @ ?later). \<forall>p \<in> set (deps_of d n). p \<in> set (dp_node_ids d) \<longrightarrow>
        is_done d done p \<or> (\<exists>e' w'. (e', w', p) \<in> set (?now @ ?later) \<and> e' \<le> e)"
      using ordered by blast
  qed
  then show ?case by (simp add: combine_def sub)
qed

section \<open>Without pruning the plan is the cheapest\<close>

lemma efold_covers:
  assumes "efold f xs s = Inr t" and "I s"
    and step: "\<And>x u v. x \<in> set xs \<Longrightarrow> I u \<Longrightarrow> f x u = Inr v \<Longrightarrow> I v \<and> C x v"
    and keep: "\<And>x y u v. x \<in> set xs \<Longrightarrow> I u \<Longrightarrow> f x u = Inr v \<Longrightarrow> C y u \<Longrightarrow> C y v"
  shows "I t \<and> (\<forall>x \<in> set xs. C x t) \<and> (\<forall>y. C y s \<longrightarrow> C y t)"
  using assms
proof (induction xs arbitrary: s)
  case (Cons x xs)
  from Cons.prems(1) obtain u where u: "f x s = Inr u" "efold f xs u = Inr t" by (auto simp: result_simps)
  have Iu: "I u \<and> C x u" using Cons.prems(3) [OF _ Cons.prems(2) u(1)] by simp
  have "I t \<and> (\<forall>x \<in> set xs. C x t) \<and> (\<forall>y. C y u \<longrightarrow> C y t)"
  proof (rule Cons.IH [OF u(2)])
    show "I u" using Iu by simp
    show "I v \<and> C y v" if "y \<in> set xs" "I w" "f y w = Inr v" for y w v
      by (rule Cons.prems(3) [OF _ that(2,3)]) (simp add: that(1))
    show "C z v" if "y \<in> set xs" "I w" "f y w = Inr v" "C z w" for y z w v
      by (rule Cons.prems(4) [OF _ that(2-4)]) (simp add: that(1))
  qed
  then show ?case using Iu Cons.prems(4) [OF _ Cons.prems(2) u(1)] by auto
qed simp

definition cheapest_plan :: "dp \<Rightarrow> int \<Rightarrow> worker_state list \<Rightarrow> nat \<Rightarrow> solution \<Rightarrow> bool" where
  "cheapest_plan d done states ep sol \<longleftrightarrow> (\<forall>sol'. dp_plan d {False} done states ep sol' \<longrightarrow> fst sol \<le> fst sol')"

definition at_most :: "cost \<Rightarrow> solution option \<times> memo \<Rightarrow> bool" where
  "at_most v st \<longleftrightarrow> (\<exists>b. fst st = Some b \<and> fst b \<le> v)"

abbreviation cheap_memo :: "dp \<Rightarrow> solution option \<times> memo \<Rightarrow> bool" where
  "cheap_memo d st \<equiv> memo_ok (cheapest_plan d) (snd st)"

definition cheap_search :: "dp \<Rightarrow> nat \<Rightarrow> search \<Rightarrow> bool" where
  "cheap_search d ep search \<longleftrightarrow> (\<forall>done states memo sub memo'. memo_ok (cheapest_plan d) memo \<longrightarrow>
     search done states ep memo = Inr (sub, memo') \<longrightarrow> cheapest_plan d done states ep sub \<and> memo_ok (cheapest_plan d) memo')"

lemma cheap_searchD:
  "cheap_search d ep search \<Longrightarrow> memo_ok (cheapest_plan d) memo \<Longrightarrow> search done states ep memo = Inr (sub, memo') \<Longrightarrow>
     cheapest_plan d done states ep sub \<and> memo_ok (cheapest_plan d) memo'"
  unfolding cheap_search_def by blast

lemma try_outcome_cheap:
  assumes "\<not> dp_lower_bound_pruning d" and "cheap_search d (ep + 1) search" and "cheap_memo d st"
    and "try_outcome d search ep new_done assign cost_of (gmax, gsum, load, next_states, plans) st = Inr st'"
  shows "cheap_memo d st'" and "at_most v st \<Longrightarrow> at_most v st'"
    and "dp_plan d {False} new_done next_states (ep + 1) sub \<Longrightarrow> at_most (cost_of gmax gsum load + fst sub) st'"
proof -
  obtain best memo where st: "st = (best, memo)" by (cases st)
  obtain s memo' where s: "search new_done next_states (ep + 1) memo = Inr (s, memo')"
    and st': "st' = (if (case best of None \<Rightarrow> True | Some b \<Rightarrow> fst (combine (cost_of gmax gsum load) assign plans s) < fst b)
      then Some (combine (cost_of gmax gsum load) assign plans s) else best, memo')"
    using assms(1,4) by (auto simp: try_outcome_def st Let_def result_simps)
  have cost: "fst (combine c assign plans s) = c + fst s" for c by (cases s) (simp add: combine_def)
  have ok: "cheapest_plan d new_done next_states (ep + 1) s" "memo_ok (cheapest_plan d) memo'"
    using cheap_searchD [OF assms(2) _ s] assms(3) by (auto simp: st)
  show "cheap_memo d st'" by (simp add: st' ok(2))
  show "at_most v st'" if "at_most v st" 
  proof -
    from that obtain b where "best = Some b" "fst b \<le> v" by (auto simp: at_most_def st)
    then show ?thesis using cost [of "cost_of gmax gsum load"] unfolding at_most_def st'
      by (simp del: split_paired_Ex)
  qed
  show "at_most (cost_of gmax gsum load + fst sub) st'" if "dp_plan d {False} new_done next_states (ep + 1) sub"
  proof -
    have "fst s \<le> fst sub" using ok(1) that unfolding cheapest_plan_def by blast
    then show ?thesis using cost unfolding at_most_def st'
      by (auto simp del: split_paired_Ex split: option.splits)
  qed
qed

definition out_covered ::
  "dp \<Rightarrow> int \<Rightarrow> nat \<Rightarrow> (cost \<Rightarrow> cost \<Rightarrow> cost \<Rightarrow> cost) \<Rightarrow> outcome \<Rightarrow> solution option \<times> memo \<Rightarrow> bool" where
  "out_covered d new_done ep cost_of out st \<longleftrightarrow>
     (\<forall>gmax gsum load next_states plans sub. out = (gmax, gsum, load, next_states, plans) \<longrightarrow>
        dp_plan d {False} new_done next_states (ep + 1) sub \<longrightarrow> at_most (cost_of gmax gsum load + fst sub) st)"

lemma out_covered_mono:
  "(\<And>v. at_most v st \<Longrightarrow> at_most v st') \<Longrightarrow> out_covered d new_done ep cost_of out st \<Longrightarrow>
     out_covered d new_done ep cost_of out st'"
  unfolding out_covered_def by blast

lemma try_outcome_covers:
  assumes "\<not> dp_lower_bound_pruning d" and "cheap_search d (ep + 1) search" and "cheap_memo d st"
    and "try_outcome d search ep new_done assign cost_of out st = Inr st'"
  shows "cheap_memo d st'" and "at_most v st \<Longrightarrow> at_most v st'" and "out_covered d new_done ep cost_of out st'"
proof -
  obtain gmax gsum load next_states plans where out: "out = (gmax, gsum, load, next_states, plans)" by (cases out)
  note cheap = try_outcome_cheap [OF assms(1-3) assms(4) [unfolded out]]
  show "cheap_memo d st'" by (rule cheap(1))
  show "at_most v st \<Longrightarrow> at_most v st'" by (rule cheap(2))
  show "out_covered d new_done ep cost_of out st'" unfolding out_covered_def out using cheap(3) by blast
qed

lemma try_assignment_cheap:
  assumes "\<not> dp_lower_bound_pruning d" and "cheap_search d (ep + 1) search" and "cheap_memo d st"
    and "try_assignment d search states ep new_done cpus cost_of a st = Inr st'"
  shows "cheap_memo d st'" and "at_most v st \<Longrightarrow> at_most v st'"
    and "a \<noteq> [] \<or> cpu_assignments d cpus \<noteq> [] \<Longrightarrow> assignment_outcomes d a cpus states = Inr outs \<Longrightarrow>
      (gmax, gsum, load, next_states, plans) \<in> set outs \<Longrightarrow> dp_plan d {False} new_done next_states (ep + 1) sub \<Longrightarrow>
      at_most (cost_of gmax gsum load + fst sub) st'"
proof -
  let ?C = "out_covered d new_done ep cost_of"
  have all: "cheap_memo d st' \<and> (\<forall>out \<in> set outs. ?C out st')"
    if fold: "efold (try_outcome d search ep new_done (a @ cpu_assignments d cpus) cost_of) outs st = Inr st'" for outs
  proof -
    have "cheap_memo d st' \<and> (\<forall>out \<in> set outs. ?C out st') \<and> (\<forall>out. ?C out st \<longrightarrow> ?C out st')"
    proof (rule efold_covers [OF fold, where I = "cheap_memo d" and C = ?C])
      show "cheap_memo d st" by (rule assms(3))
      show "cheap_memo d v \<and> ?C out v"
        if "cheap_memo d u" "try_outcome d search ep new_done (a @ cpu_assignments d cpus) cost_of out u = Inr v" for out u v
        using try_outcome_covers(1,3) [OF assms(1,2) that] by blast
      show "?C y v" if "cheap_memo d u" "?C y u"
        "try_outcome d search ep new_done (a @ cpu_assignments d cpus) cost_of out u = Inr v" for out y u v
        by (rule out_covered_mono [OF try_outcome_covers(2) [OF assms(1,2) that(1,3)] that(2)])
    qed
    then show ?thesis by blast
  qed
  have keep: "at_most v st'"
    if "efold (try_outcome d search ep new_done (a @ cpu_assignments d cpus) cost_of) outs st = Inr st'" "at_most v st" for outs
  proof -
    have "cheap_memo d st' \<and> at_most v st'"
    proof (rule efold_invariant [OF that(1), where P = "\<lambda>s. cheap_memo d s \<and> at_most v s"])
      show "cheap_memo d v' \<and> at_most v v'" if "cheap_memo d u \<and> at_most v u"
        "try_outcome d search ep new_done (a @ cpu_assignments d cpus) cost_of out u = Inr v'" for out u v'
        using try_outcome_covers(1,2) [OF assms(1,2) _ that(2)] that(1) by blast
    qed (use assms(3) that(2) in blast)
    then show ?thesis by simp
  qed
  consider "a = []" "cpu_assignments d cpus = []" "st' = st" | outs' where "a \<noteq> [] \<or> cpu_assignments d cpus \<noteq> []"
    "assignment_outcomes d a cpus states = Inr outs'"
    "efold (try_outcome d search ep new_done (a @ cpu_assignments d cpus) cost_of) outs' st = Inr st'"
    using assms(4) by (auto simp: try_assignment_def Let_def result_simps split: if_splits)
  note cases = this
  show "cheap_memo d st'" by (rule cases) (use assms(3) all in auto)
  show "at_most v st \<Longrightarrow> at_most v st'" by (rule cases) (use keep in auto)
  show "at_most (cost_of gmax gsum load + fst sub) st'"
    if ne: "a \<noteq> [] \<or> cpu_assignments d cpus \<noteq> []" and outs: "assignment_outcomes d a cpus states = Inr outs"
      and out: "(gmax, gsum, load, next_states, plans) \<in> set outs"
      and plan: "dp_plan d {False} new_done next_states (ep + 1) sub"
  proof (rule cases)
    assume "a = []" and "cpu_assignments d cpus = []"
    then show ?thesis using ne by simp
  next
    fix outs'
    assume "assignment_outcomes d a cpus states = Inr outs'"
      and fold: "efold (try_outcome d search ep new_done (a @ cpu_assignments d cpus) cost_of) outs' st = Inr st'"
    then have "outs' = outs" using outs by simp
    then have "?C (gmax, gsum, load, next_states, plans) st'" using all [OF fold] out by blast
    then show ?thesis using plan unfolding out_covered_def by blast
  qed
qed

text \<open>Everything that one batch offers is at least as dear as the best solution after it.\<close>

definition batch_covered :: "dp \<Rightarrow> int \<Rightarrow> worker_state list \<Rightarrow> nat \<Rightarrow> string list \<Rightarrow> solution option \<times> memo \<Rightarrow> bool" where
  "batch_covered d done states ep b st \<longleftrightarrow>
     (\<forall>gpus depths cpus a outs gmax gsum load next_states plans sub.
        prepare_batch d done b = Inr (gpus, depths, cpus) \<longrightarrow> (gpus \<noteq> [] \<or> cpus \<noteq> []) \<longrightarrow>
        batch_feasible d (gpus @ cpus) done \<longrightarrow> a \<in> set (gpu_assignments d gpus) \<longrightarrow>
        (a \<noteq> [] \<or> cpu_assignments d cpus \<noteq> []) \<longrightarrow> assignment_outcomes d a cpus states = Inr outs \<longrightarrow>
        (gmax, gsum, load, next_states, plans) \<in> set outs \<longrightarrow>
        dp_plan d {False} (add_nodes d (gpus @ cpus) done) next_states (ep + 1) sub \<longrightarrow>
        at_most (epoch_cost d ep gpus depths gmax gsum load + fst sub) st)"

lemma batch_covered_mono:
  "(\<And>v. at_most v st \<Longrightarrow> at_most v st') \<Longrightarrow> batch_covered d done states ep b st \<Longrightarrow> batch_covered d done states ep b st'"
  unfolding batch_covered_def by blast

definition assign_covered ::
  "dp \<Rightarrow> int \<Rightarrow> worker_state list \<Rightarrow> nat \<Rightarrow> string list \<Rightarrow> (cost \<Rightarrow> cost \<Rightarrow> cost \<Rightarrow> cost) \<Rightarrow> (string \<times> string) list
     \<Rightarrow> solution option \<times> memo \<Rightarrow> bool" where
  "assign_covered d new_done states ep cpus cost_of a st \<longleftrightarrow>
     (\<forall>outs gmax gsum load next_states plans sub. (a \<noteq> [] \<or> cpu_assignments d cpus \<noteq> []) \<longrightarrow>
        assignment_outcomes d a cpus states = Inr outs \<longrightarrow> (gmax, gsum, load, next_states, plans) \<in> set outs \<longrightarrow>
        dp_plan d {False} new_done next_states (ep + 1) sub \<longrightarrow> at_most (cost_of gmax gsum load + fst sub) st)"

lemma assign_covered_mono:
  "(\<And>v. at_most v st \<Longrightarrow> at_most v st') \<Longrightarrow> assign_covered d new_done states ep cpus cost_of a st \<Longrightarrow>
     assign_covered d new_done states ep cpus cost_of a st'"
  unfolding assign_covered_def by blast

lemma try_batch_cheap:
  assumes flags: "\<not> dp_lower_bound_pruning d" "\<not> dp_worker_symmetry d" and search: "cheap_search d (ep + 1) search"
    and st: "cheap_memo d st" and step: "try_batch d search done states ep b st = Inr st'"
  shows "cheap_memo d st'" and "at_most v st \<Longrightarrow> at_most v st'" and "batch_covered d done states ep b st'"
proof -
  obtain gpus depths cpus where p: "prepare_batch d done b = Inr (gpus, depths, cpus)"
    using step by (auto simp: try_batch_def result_simps)
  let ?new = "add_nodes d (gpus @ cpus) done"
  let ?attempt = "try_assignment d search states ep ?new cpus (epoch_cost d ep gpus depths)"
  let ?C = "assign_covered d ?new states ep cpus (epoch_cost d ep gpus depths)"
  have eq: "try_batch d search done states ep b st =
      (if gpus = [] \<and> cpus = [] \<or> \<not> batch_feasible d (gpus @ cpus) done then Inr st
       else efold ?attempt (gpu_assignments d gpus) st)"
    by (simp add: try_batch_def p flags(2))
  consider "gpus = [] \<and> cpus = [] \<or> \<not> batch_feasible d (gpus @ cpus) done" "st' = st"
    | "efold ?attempt (gpu_assignments d gpus) st = Inr st'"
    using step unfolding eq by (cases "gpus = [] \<and> cpus = [] \<or> \<not> batch_feasible d (gpus @ cpus) done") simp_all
  then have "cheap_memo d st' \<and> (\<forall>v. at_most v st \<longrightarrow> at_most v st') \<and> batch_covered d done states ep b st'"
  proof cases
    case 1
    have "batch_covered d done states ep b st"
      unfolding batch_covered_def p
    proof (intro allI impI)
      fix gpus' depths' cpus' v
      assume "Inr (gpus, depths, cpus) = (Inr (gpus', depths', cpus') :: (string list \<times> (string, nat) dict \<times> string list) result)"
        and "gpus' \<noteq> [] \<or> cpus' \<noteq> []" and "batch_feasible d (gpus' @ cpus') done"
      then show "at_most v st" using 1(1) by simp
    qed
    then show ?thesis using 1(2) st by blast
  next
    case fold: 2
    have covered: "cheap_memo d st' \<and> (\<forall>a \<in> set (gpu_assignments d gpus). ?C a st') \<and> (\<forall>a. ?C a st \<longrightarrow> ?C a st')"
    proof (rule efold_covers [OF fold, where I = "cheap_memo d" and C = ?C])
      show "cheap_memo d st" by (rule st)
      show "cheap_memo d v \<and> ?C a v" if "cheap_memo d u" "?attempt a u = Inr v" for a u v
        using try_assignment_cheap(1,3) [OF flags(1) search that] unfolding assign_covered_def by blast
      show "?C y v" if "cheap_memo d u" "?attempt a u = Inr v" "?C y u" for a y u v
        by (rule assign_covered_mono [OF try_assignment_cheap(2) [OF flags(1) search that(1,2)] that(3)])
    qed
    have mono: "at_most v st'" if "at_most v st" for v
    proof -
      have "cheap_memo d st' \<and> at_most v st'"
      proof (rule efold_invariant [OF fold, where P = "\<lambda>s. cheap_memo d s \<and> at_most v s"])
        show "cheap_memo d w \<and> at_most v w" if "cheap_memo d u \<and> at_most v u" "?attempt a u = Inr w" for a u w
          using try_assignment_cheap(1,2) [OF flags(1) search _ that(2)] that(1) by blast
      qed (use st that in blast)
      then show ?thesis by simp
    qed
    have "batch_covered d done states ep b st'"
      unfolding batch_covered_def p
    proof (intro allI impI)
      fix gpus' depths' cpus' a outs gmax gsum load next_states plans sub
      assume eq: "Inr (gpus, depths, cpus) = (Inr (gpus', depths', cpus') :: (string list \<times> (string, nat) dict \<times> string list) result)"
        and a: "a \<in> set (gpu_assignments d gpus')" and h: "a \<noteq> [] \<or> cpu_assignments d cpus' \<noteq> []"
        "assignment_outcomes d a cpus' states = Inr outs" "(gmax, gsum, load, next_states, plans) \<in> set outs"
        "dp_plan d {False} (add_nodes d (gpus' @ cpus') done) next_states (ep + 1) sub"
      have same: "gpus' = gpus" "depths' = depths" "cpus' = cpus" using eq by simp_all
      have "?C a st'" using covered a unfolding same by blast
      then show "at_most (epoch_cost d ep gpus' depths' gmax gsum load + fst sub) st'"
        using h unfolding assign_covered_def same by blast
    qed
    then show ?thesis using covered mono by blast
  qed
  then show "cheap_memo d st'" and "at_most v st \<Longrightarrow> at_most v st'" and "batch_covered d done states ep b st'" by blast+
qed

lemma dp_search_cheapest:
  assumes flags: "\<not> dp_lower_bound_pruning d" "\<not> dp_worker_symmetry d"
    and "dp_search fuel d False allow_relax done states ep memo = Inr (sol, memo')"
    and "memo_ok (cheapest_plan d) memo"
  shows "cheapest_plan d done states ep sol \<and> memo_ok (cheapest_plan d) memo'"
  using assms(3-)
proof (induction fuel arbitrary: "done" states ep memo sol memo')
  case (Suc fuel)
  have search: "cheap_search d e (dp_search fuel d False allow_relax)" for e
    unfolding cheap_search_def using Suc.IH by blast
  show ?case
  proof (cases "done = all_mask d \<or> memo (done, states, ep) \<noteq> None")
    case True
    have "cheapest_plan d (all_mask d) states ep (0, [], [])"
      unfolding cheapest_plan_def by (auto elim: dp_planE)
    then show ?thesis using True Suc.prems by (auto simp: memo_ok_def split: if_splits)
  next
    case False
    then have "memo (done, states, ep) = None" by (cases "memo (done, states, ep)") auto
    with False obtain bs best memo1 where bs: "enumerate_gpu_batches d False done = Inr bs"
      and fold: "efold (try_batch d (dp_search fuel d False allow_relax) done states ep) bs (None, memo) = Inr (best, memo1)"
      and final: "(case best of Some sol \<Rightarrow> Inr (sol, memo1((done, states, ep) := Some sol))
        | None \<Rightarrow> if allow_relax \<and> False then dp_search fuel d False False done states ep memo1
            else Inl (RuntimeError ''DP failed to find a valid schedule; check DAG dependencies.'')) = Inr (sol, memo')"
      using Suc.prems(1) by (auto simp: result_simps)
    let ?attempt = "try_batch d (dp_search fuel d False allow_relax) done states ep"
    have covered: "cheap_memo d (best, memo1) \<and> (\<forall>b \<in> set bs. batch_covered d done states ep b (best, memo1)) \<and>
        (\<forall>b. batch_covered d done states ep b (None, memo) \<longrightarrow> batch_covered d done states ep b (best, memo1))"
    proof (rule efold_covers [OF fold, where I = "cheap_memo d" and C = "batch_covered d done states ep"])
      show "cheap_memo d (None, memo)" using Suc.prems(2) by simp
      show "cheap_memo d v \<and> batch_covered d done states ep b v" if "cheap_memo d u" "?attempt b u = Inr v" for b u v
        using try_batch_cheap(1,3) [OF flags search that] by blast
      show "batch_covered d done states ep c v"
        if "cheap_memo d u" "?attempt b u = Inr v" "batch_covered d done states ep c u" for b c u v
        by (rule batch_covered_mono [OF try_batch_cheap(2) [OF flags search that(1,2)] that(3)])
    qed
    obtain s where s: "best = Some s" "sol = s" "memo' = memo1((done, states, ep) := Some s)"
      using final by (cases best) auto
    have cheapest: "cheapest_plan d done states ep s"
      unfolding cheapest_plan_def
    proof (intro allI impI)
      fix sol'
      assume "dp_plan d {False} done states ep sol'"
      then show "fst s \<le> fst sol'"
      proof (cases rule: dp_plan.cases)
        case (plan_epoch pruning c assign plans next_states new_done sub)
        have flag: "pruning = False" using plan_epoch(3) by simp
        obtain b gpus depths cpus a outs gmax gsum load where b: "b \<in> set bs"
          and ch: "prepare_batch d done b = Inr (gpus, depths, cpus)" "gpus \<noteq> [] \<or> cpus \<noteq> []"
            "batch_feasible d (gpus @ cpus) done" "a \<in> set (gpu_assignments d gpus)"
            "a \<noteq> [] \<or> cpu_assignments d cpus \<noteq> []" "assignment_outcomes d a cpus states = Inr outs"
            "(gmax, gsum, load, next_states, plans) \<in> set outs"
          and c: "c = epoch_cost d ep gpus depths gmax gsum load" and new: "new_done = add_nodes d (gpus @ cpus) done"
          using plan_epoch(4) bs unfolding epoch_choice_def flag by auto
        have "batch_covered d done states ep b (best, memo1)" using covered b by blast
        then have "at_most (c + fst sub) (best, memo1)"
          using ch plan_epoch(5) unfolding batch_covered_def c new by blast
        then show ?thesis using plan_epoch(1) s(1) by (cases sub) (auto simp: at_most_def combine_def)
      qed (use False in blast)
    qed
    have "memo_ok (cheapest_plan d) (memo1((done, states, ep) := Some s))"
      by (rule memo_ok_update) (use covered cheapest in simp_all)
    with cheapest show ?thesis unfolding s(2,3) by blast
  qed
qed simp

end
