(* ===== verification/HaloSchedule.thy ===== *)
theory HaloSchedule
  imports HaloSearch
begin

text \<open>
  What the Halo solver promises to its caller: a schedule for every well-formed problem, valid,
  and always after finitely many steps.
\<close>

section \<open>Every acyclic graph is scheduled\<close>

text \<open>
  What the caller has to provide: node ids and worker ids name something, every GPU node has a GPU
  worker, costs are defined, and the dependencies within the graph have no cycle.
\<close>

definition dep_edges :: "dp \<Rightarrow> (string \<times> string) list" where
  "dep_edges d = [(p, n). n \<leftarrow> dp_node_ids d, p \<leftarrow> deps_of d n, p \<in> set (dp_node_ids d)]"

definition hashable_parent :: "node \<Rightarrow> bool" where
  "hashable_parent nd \<longleftrightarrow> (case map_of (nd_raw nd) ''parent'' of Some (PList _) \<Rightarrow> False | Some (PDict _) \<Rightarrow> False | _ \<Rightarrow> True)"

definition dp_ready :: "dp \<Rightarrow> bool" where
  "dp_ready d \<longleftrightarrow> dp_wf d \<and> acyclic (set (dep_edges d)) \<and>
     (\<forall>n \<in> set (dp_node_ids d). distinct (deps_of d n) \<and> (\<exists>nd. map_of (dp_nodes d) n = Some nd \<and> hashable_parent nd)) \<and>
     (\<forall>n \<in> set (dp_node_ids d). is_gpu_node d n \<longrightarrow>
        (\<exists>w \<in> set (dp_gpu_worker_ids d). w \<in> set (dict_get (dp_node_worker_options d) n (dp_gpu_worker_ids d)))) \<and>
     distinct (dp_worker_ids d) \<and> set (dp_gpu_worker_ids d) \<subseteq> set (dp_worker_ids d) \<and>
     (\<forall>w \<in> set (dp_worker_ids d). map_of (dp_workers d) w \<noteq> None) \<and>
     (\<forall>n \<in> set (dp_node_ids d). \<forall>nd. map_of (dp_nodes d) n = Some nd \<longrightarrow>
        (\<forall>w. \<exists>c. dp_exec_cost d nd w = Inr c) \<and> (\<forall>m. \<exists>c. dp_model_init_cost d nd m = Inr c))"

lemma dp_readyD:
  assumes "dp_ready d"
  shows "dp_wf d" and "distinct (dp_node_ids d)" and "acyclic (set (dep_edges d))"
    and "n \<in> set (dp_node_ids d) \<Longrightarrow> distinct (deps_of d n)"
    and "n \<in> set (dp_node_ids d) \<Longrightarrow> \<exists>nd. map_of (dp_nodes d) n = Some nd \<and> hashable_parent nd"
    and "n \<in> set (dp_node_ids d) \<Longrightarrow> is_gpu_node d n \<Longrightarrow>
      \<exists>w \<in> set (dp_gpu_worker_ids d). w \<in> set (dict_get (dp_node_worker_options d) n (dp_gpu_worker_ids d))"
    and "distinct (dp_worker_ids d)" and "w \<in> set (dp_gpu_worker_ids d) \<Longrightarrow> w \<in> set (dp_worker_ids d)"
    and "w \<in> set (dp_worker_ids d) \<Longrightarrow> \<exists>k. map_of (dp_workers d) w = Some k"
    and "n \<in> set (dp_node_ids d) \<Longrightarrow> map_of (dp_nodes d) n = Some nd \<Longrightarrow> \<exists>c. dp_exec_cost d nd k = Inr c"
    and "n \<in> set (dp_node_ids d) \<Longrightarrow> map_of (dp_nodes d) n = Some nd \<Longrightarrow> \<exists>c. dp_model_init_cost d nd m = Inr c"
  using assms unfolding dp_ready_def dp_wf_def by blast+

definition states_ok :: "dp \<Rightarrow> worker_state list \<Rightarrow> bool" where
  "states_ok d states \<longleftrightarrow> length states = length (dp_worker_ids d) \<and> (\<forall>st \<in> set states. ws_idx st < length (dp_worker_ids d))"

lemma worker_index_ok:
  assumes "distinct (dp_worker_ids d)" and "w \<in> set (dp_worker_ids d)"
  shows "\<exists>i < length (dp_worker_ids d). map_of (worker_index d) w = Some i"
proof -
  from assms(2) obtain i where "i < length (dp_worker_ids d)" "dp_worker_ids d ! i = w" by (meson in_set_conv_nth)
  then show ?thesis
    using assms(1) map_of_zip_nth [of "dp_worker_ids d" "[0..<length (dp_worker_ids d)]" i]
    by (auto simp: worker_index_def dict_of_distinct_id)
qed

lemma choices_nonempty: "choices_of d n q \<noteq> []"
  by (simp add: choices_of_def Let_def)

lemma query_plan_options_nonempty: "query_plan_options d nd win \<noteq> []"
proof -
  have "foldl (\<lambda>opts q. concat (map (\<lambda>opt. map (extend_plan d n (q_name q) opt) (choices_of d n (q_name q))) opts)) opts qs \<noteq> []"
    if "opts \<noteq> []" for n qs opts
    using that
  proof (induction qs arbitrary: opts)
    case (Cons q qs)
    have "concat (map (\<lambda>opt. map (extend_plan d n (q_name q) opt) (choices_of d n (q_name q))) opts) \<noteq> []"
      using Cons.prems choices_nonempty by (cases opts) simp_all
    from Cons.IH [OF this] show ?case by simp
  qed simp
  then show ?thesis unfolding query_plan_options_def by blast
qed

lemma execute_node_ok:
  assumes "dp_ready d" and "n \<in> set (dp_node_ids d)" and "ws_idx st < length (dp_worker_ids d)"
  shows "\<exists>opts. execute_node d n st win = Inr opts \<and> opts \<noteq> [] \<and>
    (\<forall>(c, q, st', ps, win') \<in> set opts. ws_idx st' = ws_idx st)"
proof -
  obtain nd where nd: "map_of (dp_nodes d) n = Some nd" using dp_readyD(5) [OF assms(1,2)] by blast
  obtain w where w: "map_of (dp_workers d) (dp_worker_ids d ! ws_idx st) = Some w"
    using dp_readyD(9) [OF assms(1)] assms(3) nth_mem by blast
  obtain exec init where cost: "dp_exec_cost d nd w = Inr exec"
    "dp_model_init_cost d nd (from_id (model_names d) (ws_model st)) = Inr init"
    using dp_readyD(10,11) [OF assms(1,2) nd] by metis
  show ?thesis
    using nd w cost assms(3) query_plan_options_nonempty [of d nd win]
    by (auto simp: execute_node_def dict_index_def nth_result_def Let_def)
qed

lemma apply_cpu_load_ok:
  assumes "dp_ready d" and "set cpus \<subseteq> set (dp_node_ids d)"
  shows "\<exists>r. apply_cpu_load d cpus win = Inr r"
proof -
  have "\<exists>t. efold (cpu_load_step d) cpus (0, [], win) = Inr t"
  proof (rule efold_ok)
    fix n s assume "n \<in> set cpus"
    then obtain nd where "map_of (dp_nodes d) n = Some nd" using dp_readyD(5) [OF assms(1)] assms(2) by blast
    then show "\<exists>t. cpu_load_step d n s = Inr t" by (cases s) (simp add: cpu_load_step_def dict_index_def del: split_paired_Ex)
  qed
  then show ?thesis by (auto simp: apply_cpu_load_def)
qed

lemma outcome_dfs_ok:
  assumes "dp_ready d" and "set cpus \<subseteq> set (dp_node_ids d)"
    and "\<And>w n. (w, n) \<in> set assign \<Longrightarrow> w \<in> set (dp_gpu_worker_ids d) \<and> n \<in> set (dp_node_ids d)"
    and "states_ok d states" and "length costs = length (dp_worker_ids d)"
  shows "\<exists>outs. outcome_dfs d cpus assign states costs plans load win = Inr outs \<and> outs \<noteq> [] \<and>
    (\<forall>(gmax, gsum, l, next_states, ps) \<in> set outs. states_ok d next_states)"
  using assms(3-)
proof (induction assign arbitrary: states costs plans load win)
  case Nil
  obtain extra cp where cpu: "apply_cpu_load d cpus win = Inr (extra, cp)" using apply_cpu_load_ok [OF assms(1,2)] by fastforce
  have "\<exists>c. ebind (dict_index (worker_index d) w) (nth_result costs) = Inr c \<and> True" if "w \<in> set (dp_gpu_worker_ids d)" for w
    using worker_index_ok [OF dp_readyD(7) [OF assms(1)] dp_readyD(8) [OF assms(1) that]] Nil.prems(3) by (auto simp: dict_index_def nth_result_def)
  from emap_ok [OF this] obtain gcs where
    "emap (\<lambda>w. ebind (dict_index (worker_index d) w) (nth_result costs)) (dp_gpu_worker_ids d) = Inr gcs" by fastforce
  with cpu Nil.prems(2) show ?case by simp
next
  case (Cons a assign)
  obtain w n where a: "a = (w, n)" by fastforce
  have wn: "w \<in> set (dp_worker_ids d)" "n \<in> set (dp_node_ids d)" using Cons.prems(1) [of w n] dp_readyD(8) [OF assms(1)] by (auto simp: a)
  obtain i where i: "map_of (worker_index d) w = Some i" "i < length (dp_worker_ids d)"
    using worker_index_ok [OF dp_readyD(7) [OF assms(1)] wn(1)] by blast
  have len: "length states = length (dp_worker_ids d)" using Cons.prems(2) by (simp add: states_ok_def)
  have idx: "ws_idx (states ! i) < length (dp_worker_ids d)" using Cons.prems(2) i(2) by (simp add: states_ok_def)
  obtain opts where opts: "execute_node d n (states ! i) win = Inr opts" "opts \<noteq> []"
    and keep: "\<And>c q st' ps win'. (c, q, st', ps, win') \<in> set opts \<Longrightarrow> ws_idx st' = ws_idx (states ! i)"
    using execute_node_ok [OF assms(1) wn(2) idx] by fast
  let ?f = "\<lambda>(c, q, st', ps, win'). outcome_dfs d cpus assign (states[i := st']) (costs[i := costs ! i + c])
    (add_plans plans ps) (load + q) win'"
  let ?P = "\<lambda>outs. outs \<noteq> [] \<and> (\<forall>(gmax, gsum, l, next_states, ps) \<in> set outs. states_ok d next_states)"
  have step: "\<exists>outs. ?f opt = Inr outs \<and> ?P outs" if "opt \<in> set opts" for opt
  proof -
    obtain c q st' ps win' where o: "opt = (c, q, st', ps, win')" by (cases opt)
    have "set (states[i := st']) \<subseteq> insert st' (set states)" by (rule set_update_subset_insert)
    moreover have "ws_idx st' < length (dp_worker_ids d)" using keep that idx unfolding o by metis
    ultimately have "states_ok d (states[i := st'])" using Cons.prems(2) unfolding states_ok_def by auto
    from Cons.IH [OF Cons.prems(1) this] Cons.prems(3) show ?thesis unfolding o by simp
  qed
  have "\<exists>rs. emap ?f opts = Inr rs \<and> list_all ?P rs \<and> length rs = length opts" by (rule emap_ok, rule step)
  then obtain rs where rs: "emap ?f opts = Inr rs" "list_all ?P rs" "length rs = length opts" by blast
  have "concat rs \<noteq> []" using rs(2,3) opts(2) by (cases rs) auto
  moreover have "\<forall>(gmax, gsum, l, next_states, ps) \<in> set (concat rs). states_ok d next_states"
    using rs(2) unfolding list_all_iff by fastforce
  ultimately show ?case using i len opts(1) rs(1) unfolding a by (auto simp: dict_index_def nth_result_def)
qed

text \<open>The batch search lists every closed selection it may take.\<close>

lemma batch_dfs_empty: "mn \<le> length sel \<Longrightarrow> length sel \<le> mx \<Longrightarrow> sel \<in> set (batch_dfs d mn mx done topo sel m)"
  by (induction topo) auto

lemma batch_dfs_single:
  assumes "n \<in> set topo" and "mn \<le> Suc (length sel)" and "Suc (length sel) \<le> mx" and "\<not> blocked (parents_mask d True n) (or done m)"
  shows "sel @ [n] \<in> set (batch_dfs d mn mx done topo sel m)"
  using assms(1)
proof (induction topo)
  case (Cons k topo)
  show ?case
  proof (cases "n = k")
    case True
    have "sel @ [k] \<in> set (batch_dfs d mn mx done topo (sel @ [k]) (set_bit (bit_of d k) m))"
      by (rule batch_dfs_empty) (use assms(2,3) in auto)
    then show ?thesis using True assms(3,4) by simp
  next
    case False
    then show ?thesis using Cons by simp
  qed
qed simp

text \<open>In dependency order, the first nodes form a batch of any size.\<close>

lemma batch_dfs_prefix:
  assumes "\<And>xs n ys. topo = xs @ n # ys \<Longrightarrow> \<not> blocked (parents_mask d True n) (or done (add_nodes d xs m))"
    and "mn \<le> length sel + k" and "length sel + k \<le> mx" and "k \<le> length topo"
  shows "sel @ take k topo \<in> set (batch_dfs d mn mx done topo sel m)"
  using assms
proof (induction topo arbitrary: sel m k)
  case Nil
  then show ?case by simp
next
  case (Cons n topo)
  show ?case
  proof (cases k)
    case 0
    then show ?thesis using batch_dfs_empty [of mn sel mx d "done" "n # topo" m] Cons.prems(2,3) by simp
  next
    case (Suc j)
    have open_n: "\<not> blocked (parents_mask d True n) (or done m)"
      using Cons.prems(1) [of "[]" n topo] by (simp add: add_nodes_def)
    have "(sel @ [n]) @ take j topo \<in> set (batch_dfs d mn mx done topo (sel @ [n]) (set_bit (bit_of d n) m))"
    proof (rule Cons.IH)
      show "\<not> blocked (parents_mask d True p) (or done (add_nodes d xs (set_bit (bit_of d n) m)))" if "topo = xs @ p # ys" for xs p ys
        using Cons.prems(1) [of "n # xs" p ys] that by (simp add: add_nodes_def)
    qed (use Cons.prems(2-) Suc in auto)
    then show ?thesis using open_n Cons.prems(3) Suc by simp
  qed
qed

text \<open>The order of the pending GPU nodes is a dependency order.\<close>

definition pend_edges :: "dp \<Rightarrow> string list \<Rightarrow> (string \<times> string) list" where
  "pend_edges d pend = [(p, n). n \<leftarrow> pend, p \<leftarrow> deps_of d n, p \<in> set pend]"

lemma concat_if: "concat (map (\<lambda>p. if P p then [f p] else []) ps) = map f (filter P ps)"
  by (induction ps) auto

lemma filter_single: "distinct ps \<Longrightarrow> filter (\<lambda>p. p = x) ps = (if x \<in> set ps then [x] else [])"
  by (induction ps) (auto simp: filter_empty_conv)

lemma succs_pend_edges:
  assumes "\<And>n. n \<in> set pend \<Longrightarrow> distinct (deps_of d n)" and "x \<in> set pend"
  shows "succs (pend_edges d pend) x = gpu_children d pend x"
proof -
  have one: "map snd (filter (\<lambda>e. fst e = x) (map (\<lambda>p. (p, n)) (filter (\<lambda>p. p \<in> set pend) (deps_of d n)))) =
      (if x \<in> set (deps_of d n) then [n] else [])" if "n \<in> set pend" for n
  proof -
    have "filter (\<lambda>e. fst e = x) (map (\<lambda>p. (p, n)) (filter (\<lambda>p. p \<in> set pend) (deps_of d n))) =
        map (\<lambda>p. (p, n)) (filter (\<lambda>p. p = x) (deps_of d n))"
      using assms(2) by (simp add: filter_map o_def) (metis (mono_tags, lifting))
    then show ?thesis using filter_single [OF assms(1) [OF that], of x] by simp
  qed
  have "map snd (filter (\<lambda>e. fst e = x) (concat (map (\<lambda>n. map (\<lambda>p. (p, n)) (filter (\<lambda>p. p \<in> set pend) (deps_of d n))) ns))) =
      filter (\<lambda>c. x \<in> set (deps_of d c)) ns" if "set ns \<subseteq> set pend" for ns
    using that by (induction ns) (simp_all add: one)
  then show ?thesis by (simp add: succs_def pend_edges_def gpu_children_def concat_if)
qed

lemma pend_indegree: "n \<in> set pend \<Longrightarrow> distinct pend \<Longrightarrow>
    gpu_indegree d pend n = int (length (filter (\<lambda>e. snd e = n) (pend_edges d pend)))"
proof -
  have "length (filter (\<lambda>e. snd e = n) (concat (map (\<lambda>n. map (\<lambda>p. (p, n)) (filter (\<lambda>p. p \<in> set pend) (deps_of d n))) ns))) =
      (if n \<in> set ns then length (filter (\<lambda>p. p \<in> set pend) (deps_of d n)) else 0)" if "distinct ns" for ns
    using that by (induction ns) (auto simp: filter_map o_def filter_empty_conv)
  then show "n \<in> set pend \<Longrightarrow> distinct pend \<Longrightarrow> ?thesis" by (simp add: gpu_indegree_def pend_edges_def concat_if)
qed

lemma queue_loop_kahn:
  assumes E: "set E \<subseteq> N \<times> N" and "finite N" and "\<And>x. x \<in> N \<Longrightarrow> children x = succs E x"
    and "kahn_inv N E D P indeg" and "card N \<le> fuel + length D"
  shows "\<exists>order indeg'. queue_loop fuel children P indeg D = Inr order \<and> kahn_inv N E order [] indeg'"
  using assms(3-)
proof (induction fuel children P indeg D rule: queue_loop.induct)
  case (2 children x queue indeg topo)
  with kahn_inv_length [OF "2.prems"(2) assms(2)] show ?case by simp
next
  case (3 fuel children x queue indeg topo)
  obtain indeg' queue' where rel: "relax (\<lambda>c q. q @ [c]) (succs E x) (indeg, queue) = (indeg', queue')" by fastforce
  have x: "x \<in> N" using "3.prems"(2) by (simp add: kahn_inv_def)
  have "kahn_inv N E (topo @ [x]) queue' indeg'"
    using layer_ready.kahn_step [OF E _ rel, of topo "[]"] "3.prems"(2) by simp
  moreover have "relax (\<lambda>c q. q @ [c]) (children x) (indeg, queue) = (indeg', queue')" using rel "3.prems"(1) [OF x] by simp
  ultimately show ?case using "3.IH" [of "(indeg', queue')" indeg' queue'] "3.prems" by simp
qed auto

lemma gpu_topo_order:
  assumes "distinct pend" and "\<And>n. n \<in> set pend \<Longrightarrow> distinct (deps_of d n)" and "acyclic (set (pend_edges d pend))"
  shows "\<exists>t. gpu_topo d pend = Inr t \<and> set t = set pend \<and> length t = length pend \<and> in_dep_order (pend_edges d pend) t"
proof -
  let ?E = "pend_edges d pend" and ?q = "filter (\<lambda>n. gpu_indegree d pend n = 0) pend"
  have E: "set ?E \<subseteq> set pend \<times> set pend" by (auto simp: pend_edges_def)
  have "kahn_inv (set pend) ?E [] ?q (gpu_indegree d pend)"
    by (rule kahn_init [OF assms(1) E refl]) (simp add: pend_indegree assms(1))
  moreover have "card (set pend) \<le> length pend + length ([] :: string list)" by (simp add: card_length)
  ultimately obtain t indeg' where t: "queue_loop (length pend) (gpu_children d pend) ?q (gpu_indegree d pend) [] = Inr t"
    "kahn_inv (set pend) ?E t [] indeg'"
    using queue_loop_kahn [OF E finite_set succs_pend_edges [symmetric]] assms(2) by blast
  have len: "length t = card (set pend)" using in_dep_order_acyclic_iff [OF E t(2) finite_set] assms(3) by simp
  then have "set t = set pend" "in_dep_order ?E t" using kahn_finish_respects [OF t(2)] by auto
  moreover have "length t = length pend" using len assms(1) by (simp add: distinct_card)
  ultimately show ?thesis using t(1) assms(1) dedupe_into_id [of pend "[]"] by (simp add: gpu_topo_def)
qed

section \<open>What the automatic batch of CPU nodes leaves\<close>

lemma blocked_mono: "blocked p b' \<Longrightarrow> (\<And>i. bit b i \<Longrightarrow> bit b' i) \<Longrightarrow> blocked p b"
  by (auto simp: blocked_iff)

lemma add_nodes_snoc: "add_nodes d (ns @ [n]) m = set_bit (bit_of d n) (add_nodes d ns m)"
  by (simp add: add_nodes_def)

lemma add_nodes_append: "add_nodes d (ns @ ms) m = add_nodes d ms (add_nodes d ns m)"
  by (simp add: add_nodes_def)

definition cpu_closed :: "dp \<Rightarrow> int \<Rightarrow> string list \<Rightarrow> bool" where
  "cpu_closed d m ns \<longleftrightarrow> (\<forall>n \<in> set ns. \<not> blocked (parents_mask d False n) (add_nodes d ns m))"

lemma cpu_closed_snoc:
  assumes "cpu_closed d m ns" and "\<not> blocked (parents_mask d False n) (add_nodes d ns m)"
  shows "cpu_closed d m (ns @ [n])"
  unfolding cpu_closed_def
proof
  fix k assume "k \<in> set (ns @ [n])"
  then have "\<not> blocked (parents_mask d False k) (add_nodes d ns m)" using assms by (auto simp: cpu_closed_def)
  then show "\<not> blocked (parents_mask d False k) (add_nodes d (ns @ [n]) m)"
    by (rule contrapos_nn) (erule blocked_mono, auto simp: bit_add_nodes)
qed

lemma cpu_takes_closed:
  assumes "foldl (\<lambda>s n. cpu_take d n s) ((sel, pend, add_nodes d sel m), b) ns = ((sel', pend', m'), b')"
    and "cpu_closed d m sel"
  shows "m' = add_nodes d sel' m \<and> cpu_closed d m sel' \<and> set pend \<subseteq> set sel' \<union> set pend' \<and> set sel \<subseteq> set sel'"
  using assms
proof (induction ns arbitrary: sel pend b)
  case (Cons n ns)
  show ?case
  proof (cases "n \<notin> set pend \<or> blocked (parents_mask d False n) (add_nodes d sel m)")
    case True
    then show ?thesis using Cons by (simp add: cpu_take_def)
  next
    case False
    then have "m' = add_nodes d sel' m \<and> cpu_closed d m sel' \<and> set (removeAll n pend) \<subseteq> set sel' \<union> set pend' \<and> set (sel @ [n]) \<subseteq> set sel'"
      using Cons.prems by (intro Cons.IH) (auto simp: cpu_take_def add_nodes_snoc intro: cpu_closed_snoc)
    then show ?thesis by auto
  qed
qed auto

lemma cpu_takes_none:
  "foldl (\<lambda>s n. cpu_take d n s) ((sel, pend, m), b) ns = (st', False) \<Longrightarrow>
     st' = (sel, pend, m) \<and> \<not> b \<and> (\<forall>n \<in> set ns. n \<in> set pend \<longrightarrow> blocked (parents_mask d False n) m)"
proof (induction ns arbitrary: sel pend m b)
  case (Cons n ns)
  show ?case
  proof (cases "n \<notin> set pend \<or> blocked (parents_mask d False n) m")
    case True
    then show ?thesis using Cons.IH [of sel pend m b] Cons.prems by (auto simp: cpu_take_def)
  next
    case False
    then have "foldl (\<lambda>s n. cpu_take d n s) ((sel @ [n], removeAll n pend, set_bit (bit_of d n) m), True) ns = (st', False)"
      using Cons.prems by (simp add: cpu_take_def)
    from Cons.IH [OF this] show ?thesis by simp
  qed
qed simp

lemma cpu_fill_closed:
  "st = (sel, pend, add_nodes d sel m) \<Longrightarrow> cpu_closed d m sel \<Longrightarrow>
     cpu_closed d m (cpu_fill d st) \<and> set sel \<subseteq> set (cpu_fill d st) \<and>
     (\<forall>n \<in> set (db_topo_order d). n \<in> set pend \<longrightarrow> n \<notin> set (cpu_fill d st) \<longrightarrow>
        blocked (parents_mask d False n) (add_nodes d (cpu_fill d st) m))"
proof (induction d st arbitrary: sel pend rule: cpu_fill.induct)
  case (1 d st)
  obtain sel' pend' m' b' where pass: "cpu_pass d st = ((sel', pend', m'), b')" by (metis prod.exhaust)
  have fold: "foldl (\<lambda>s n. cpu_take d n s) ((sel, pend, add_nodes d sel m), False) (db_topo_order d) = ((sel', pend', m'), b')"
    using pass "1.prems"(1) by (simp add: cpu_pass_def)
  from cpu_takes_closed [OF fold "1.prems"(2)]
  have step: "m' = add_nodes d sel' m" "cpu_closed d m sel'" "set pend \<subseteq> set sel' \<union> set pend'" "set sel \<subseteq> set sel'" by auto
  have eq: "cpu_fill d st = (if b' then cpu_fill d (sel', pend', m') else sel')"
    by (subst cpu_fill.simps) (simp add: pass)
  show ?case
  proof (cases b')
    case True
    from "1.IH" [OF pass [symmetric] True _ step(2), of pend'] step(1)
    have IH: "cpu_closed d m (cpu_fill d (sel', pend', m')) \<and> set sel' \<subseteq> set (cpu_fill d (sel', pend', m')) \<and>
        (\<forall>n \<in> set (db_topo_order d). n \<in> set pend' \<longrightarrow> n \<notin> set (cpu_fill d (sel', pend', m')) \<longrightarrow>
           blocked (parents_mask d False n) (add_nodes d (cpu_fill d (sel', pend', m')) m))" by simp
    then show ?thesis unfolding eq using True step(3,4) by auto
  next
    case False
    have "foldl (\<lambda>s n. cpu_take d n s) ((sel, pend, add_nodes d sel m), False) (db_topo_order d) = ((sel', pend', m'), False)"
      using fold False by simp
    from cpu_takes_none [OF this] show ?thesis unfolding eq using False "1.prems"(2) by auto
  qed
qed

lemma set_db_topo_order: "distinct (dp_node_ids d) \<Longrightarrow> set (db_topo_order d) = set (db_node_ids d)"
proof -
  assume dist: "distinct (dp_node_ids d)"
  have "set t = set (dp_node_ids d)" if t: "topological_order (dp_dependencies d) (Some (dp_node_ids d)) = Inr t" for t
  proof -
    have run: "kahn_run (dp_dependencies d) (dp_node_ids d) = Inr t"
      using t dist by (simp add: topological_order_def kahn_node_set_Some dedupe_into_id)
    obtain order indeg where k: "kahn_inv (set (dp_node_ids d)) (kahn_edges (dp_dependencies d) (dp_node_ids d)) order [] indeg"
      "kahn_run (dp_dependencies d) (dp_node_ids d) = (if length order \<noteq> length (dp_node_ids d)
        then Inl (ValueError ''Cycle detected or missing nodes when building topo order'') else Inr order)"
      using kahn_run_cases [OF dist] by blast
    have "order = t" "length order = length (dp_node_ids d)" using k(2) run by (auto split: if_splits)
    then show ?thesis using kahn_finish_respects [OF k(1) finite_set] dist by (simp add: distinct_card)
  qed
  then show ?thesis by (auto simp: db_topo_order_def db_node_ids_def split: sum.splits)
qed

lemma auto_cpu_batch_closed:
  assumes "distinct (dp_node_ids d)" and "n \<in> set (auto_cpu_batch d done gpus)"
  shows "\<not> blocked (parents_mask d False n) (add_nodes d (auto_cpu_batch d done gpus) (add_nodes d gpus done))"
proof -
  let ?pend = "filter (\<lambda>n. \<not> is_done d done n) (db_node_ids d)"
  have eq: "auto_cpu_batch d done gpus = cpu_fill d ([], ?pend, add_nodes d gpus done)"
    using assms(2) by (auto simp: auto_cpu_batch_def Let_def split: if_splits)
  have "cpu_closed d (add_nodes d gpus done) (auto_cpu_batch d done gpus)"
    unfolding eq using cpu_fill_closed [of "([], ?pend, add_nodes d gpus done)" "[]" ?pend d "add_nodes d gpus done"]
    by (simp add: cpu_closed_def add_nodes_def)
  then show ?thesis using assms(2) by (simp add: cpu_closed_def)
qed

lemma auto_cpu_batch_takes:
  assumes "distinct (dp_node_ids d)" and "n \<in> set (dp_node_ids d)" and "\<not> is_gpu_node d n" and "\<not> is_done d done n"
    and "\<And>p. p \<in> set (deps_of d n) \<Longrightarrow> p \<in> set (dp_node_ids d) \<Longrightarrow> is_done d done p"
  shows "n \<in> set (auto_cpu_batch d done gpus)"
proof (rule ccontr)
  let ?pend = "filter (\<lambda>n. \<not> is_done d done n) (db_node_ids d)"
  let ?m = "add_nodes d gpus done"
  assume out: "n \<notin> set (auto_cpu_batch d done gpus)"
  have pend: "n \<in> set ?pend" using assms(2-4) by (simp add: db_node_ids_def)
  have "?pend \<noteq> []" by (rule notI) (use pend in \<open>simp only: list.set(1) empty_iff\<close>)
  then have eq: "auto_cpu_batch d done gpus = cpu_fill d ([], ?pend, ?m)" by (simp only: auto_cpu_batch_def Let_def if_False)
  have "n \<in> set (db_topo_order d)" using set_db_topo_order [OF assms(1)] assms(2,3) by (simp add: db_node_ids_def)
  then have "blocked (parents_mask d False n) (add_nodes d (cpu_fill d ([], ?pend, ?m)) ?m)"
    using cpu_fill_closed [of "([], ?pend, ?m)" "[]" ?pend d ?m] pend out unfolding eq
    by (simp add: cpu_closed_def add_nodes_def)
  then show False using assms(5) by (auto simp: blocked_parents is_done_add_nodes)
qed

text \<open>A pending node whose parents are all done.\<close>

lemma first_pending:
  assumes "acyclic (set (dep_edges d))" and "k \<in> set (dp_node_ids d)" and "\<not> is_done d done k"
  obtains n where "n \<in> set (dp_node_ids d)" and "\<not> is_done d done n"
    and "\<And>p. p \<in> set (deps_of d n) \<Longrightarrow> p \<in> set (dp_node_ids d) \<Longrightarrow> is_done d done p"
proof -
  have "wf (set (dep_edges d))" using finite_acyclic_wf [OF finite_set assms(1)] .
  moreover have "k \<in> {n \<in> set (dp_node_ids d). \<not> is_done d done n}" using assms(2,3) by simp
  ultimately obtain n where n: "n \<in> {n \<in> set (dp_node_ids d). \<not> is_done d done n}"
    and min: "\<And>p. (p, n) \<in> set (dep_edges d) \<Longrightarrow> p \<notin> {n \<in> set (dp_node_ids d). \<not> is_done d done n}"
    unfolding wf_eq_minimal by meson
  have "is_done d done p" if "p \<in> set (deps_of d n)" "p \<in> set (dp_node_ids d)" for p
  proof -
    have "(p, n) \<in> set (dep_edges d)" using n that by (auto simp: dep_edges_def)
    from min [OF this] that(2) show ?thesis by simp
  qed
  then show thesis by (intro that [of n]) (use n in auto)
qed

section \<open>The search does not fail\<close>

lemma pend_edges_acyclic:
  "acyclic (set (dep_edges d)) \<Longrightarrow> set pend \<subseteq> set (dp_node_ids d) \<Longrightarrow> acyclic (set (pend_edges d pend))"
  by (erule acyclic_subset) (auto simp: pend_edges_def dep_edges_def)

lemma enumerate_ok:
  assumes "dp_ready d"
  shows "\<exists>bs. enumerate_gpu_batches d pruning done = Inr bs \<and> [] \<in> set bs \<and>
    (\<not> pruning \<longrightarrow> (\<forall>n \<in> set (pending_gpu d done).
       (\<forall>p \<in> set (deps_of d n). p \<in> set (dp_node_ids d) \<longrightarrow> is_done d done p) \<longrightarrow> [n] \<in> set bs))"
proof -
  let ?pend = "pending_gpu d done"
  have pend: "distinct ?pend" "set ?pend \<subseteq> set (dp_node_ids d)"
    using dp_readyD(2) [OF assms] by (auto simp: pending_gpu_def)
  have deps: "distinct (deps_of d n)" if "n \<in> set ?pend" for n
    using dp_readyD(4) [OF assms, of n] pend(2) that by blast
  from gpu_topo_order [OF pend(1) deps pend_edges_acyclic [OF dp_readyD(3) [OF assms] pend(2)]]
  obtain t where t: "gpu_topo d ?pend = Inr t" "set t = set ?pend" "length t = length ?pend" "in_dep_order (pend_edges d ?pend) t"
    by blast
  show ?thesis
  proof (cases "?pend = []")
    case True
    then show ?thesis by (simp add: enumerate_gpu_batches_def Let_def)
  next
    case False
    let ?target = "min (max 1 (length (dp_gpu_worker_ids d))) (length ?pend)"
    let ?mn = "if pruning then max 1 (?target - dp_gpu_batch_slack d) else 1"
    have target: "1 \<le> ?target" using False by (cases ?pend) auto
    have mn: "?mn \<le> ?target" using target by auto
    have "[] @ take ?target t \<in> set (batch_dfs d ?mn ?target done t [] 0)"
    proof (rule batch_dfs_prefix)
      fix xs n ys assume split: "t = xs @ n # ys"
      have n: "n \<in> set ?pend" using t(2) split by auto
      show "\<not> blocked (parents_mask d True n) (or done (add_nodes d xs 0))"
        unfolding blocked_parents
      proof
        assume "\<exists>p\<in>set (deps_of d n). p \<in> set (dp_node_ids d) \<and> (True \<longrightarrow> is_gpu_node d p) \<and>
          \<not> is_done d (or done (add_nodes d xs 0)) p"
        then obtain p where p: "p \<in> set (deps_of d n)" "p \<in> set (dp_node_ids d)" "is_gpu_node d p"
          "\<not> is_done d done p" "bit_of d p \<notin> bit_of d ` set xs"
          by (auto simp: is_done_def bit_or_iff bit_add_nodes)
        have "(p, n) \<in> set (pend_edges d ?pend)" using p(1-4) n by (auto simp: pend_edges_def set_pending_gpu)
        then have "p \<in> set xs" using t(4) split unfolding in_dep_order_def by blast
        with p(5) show False by blast
      qed
    qed (use mn t(3) in auto)
    moreover have "take ?target t \<noteq> []" using target t(3) by (cases t) auto
    ultimately have some: "batch_dfs d ?mn ?target done t [] 0 \<noteq> []" by (cases "batch_dfs d ?mn ?target done t [] 0") auto
    then have enum: "enumerate_gpu_batches d pruning done = Inr ([] # batch_dfs d ?mn ?target done t [] 0)"
      by (simp only: enumerate_gpu_batches_def Let_def t(1) ebind.simps False if_False list.inject simp_thms)
    have "[n] \<in> set (batch_dfs d ?mn ?target done t [] 0)"
      if np: "\<not> pruning" and n: "n \<in> set ?pend"
        and pd: "\<forall>p \<in> set (deps_of d n). p \<in> set (dp_node_ids d) \<longrightarrow> is_done d done p" for n
    proof -
      have "[] @ [n] \<in> set (batch_dfs d ?mn ?target done t [] 0)"
      proof (rule batch_dfs_single)
        show "\<not> blocked (parents_mask d True n) (or done 0)" using pd by (auto simp: blocked_parents)
      qed (use n t(2) np target in auto)
      then show ?thesis by simp
    qed
    with enum show ?thesis by simp
  qed
qed

lemma cpu_order_key_ok:
  assumes "map_of (dp_nodes d) n = Some nd" and "hashable_parent nd"
  shows "\<exists>k. cpu_order_key d depths n = Inr k"
proof (cases "map_of (nd_raw nd) ''parent''")
  case None
  then show ?thesis using assms(1) by (simp add: cpu_order_key_def del: split_paired_Ex)
next
  case (Some v)
  then show ?thesis using assms by (cases v) (simp_all add: cpu_order_key_def hashable_parent_def del: split_paired_Ex)
qed

lemma prepare_batch_total:
  assumes "dp_ready d" and "gpu_batch d done b"
  shows "\<exists>gpus depths cpus. prepare_batch d done b = Inr (gpus, depths, cpus)"
proof -
  obtain depths where depths: "batch_gpu_depths d b = Inr depths" using batch_gpu_depths_total [of b d] assms(2) by (auto simp: gpu_batch_def)
  let ?gpus = "if depths = [] then b else sort_key (\<lambda>n. dict_get depths n 0) b"
  have key: "\<exists>k. cpu_order_key d depths n = Inr k" if "n \<in> set (auto_cpu_batch d done ?gpus)" for n
  proof -
    have "n \<in> set (dp_node_ids d)"
      using auto_cpu_batch_sub [OF dp_readyD(2) [OF assms(1)]] that unfolding cpu_batch_def by blast
    from dp_readyD(5) [OF assms(1) this] cpu_order_key_ok show ?thesis by blast
  qed
  have "\<exists>ks. emap (cpu_order_key d depths) (auto_cpu_batch d done ?gpus) = Inr ks" by (rule emap_total, rule key)
  moreover have "\<exists>cpus. order_cpu_nodes d cs depths = Inr cpus" if "\<exists>ks. emap (cpu_order_key d depths) cs = Inr ks" for cs
    using that by (auto simp: order_cpu_nodes_def)
  ultimately have "\<exists>cpus. order_cpu_nodes d (auto_cpu_batch d done ?gpus) depths = Inr cpus" by blast
  then show ?thesis using depths by (auto simp: prepare_batch_def Let_def)
qed

text \<open>Some assignment exists for every list of at most one node, and the symmetry filter keeps one.\<close>

lemma assignment_signature_ok:
  assumes "dp_ready d" and "states_ok d states" and "fst ` set a \<subseteq> set (dp_gpu_worker_ids d)"
  shows "\<exists>sig. assignment_signature d states a = Inr sig"
proof -
  let ?f = "\<lambda>(w, n) buckets. ebind (dict_index (worker_index d) w) (\<lambda>i. ebind (nth_result states i) (\<lambda>st.
      ebind (worker_signature d i st) (\<lambda>sig. Inr (AList.update sig (dict_get buckets sig [] @ [n]) buckets))))"
  have "\<exists>bs. efold ?f a [] = Inr bs"
  proof (rule efold_ok)
    fix x buckets assume x: "x \<in> set a"
    obtain w n where wn: "x = (w, n)" by fastforce
    have "w \<in> set (dp_worker_ids d)" using x assms(3) dp_readyD(8) [OF assms(1)] unfolding wn by force
    from worker_index_ok [OF dp_readyD(7) [OF assms(1)] this]
    obtain i where i: "i < length (dp_worker_ids d)" "map_of (worker_index d) w = Some i" by blast
    obtain k where "map_of (dp_workers d) (dp_worker_ids d ! i) = Some k" using dp_readyD(9) [OF assms(1)] i(1) nth_mem by blast
    then show "\<exists>t. ?f x buckets = Inr t"
      using i assms(2) unfolding wn
      by (simp add: dict_index_def nth_result_def worker_signature_def states_ok_def del: split_paired_Ex)
  qed
  then show ?thesis by (auto simp: assignment_signature_def)
qed

lemma dedup_ok:
  assumes "\<And>a. a \<in> set assigns \<Longrightarrow> \<exists>sig. assignment_signature d states a = Inr sig" and "assigns \<noteq> []"
  shows "\<exists>us. dedup_worker_assignments d states assigns = Inr us \<and> us \<noteq> []"
proof -
  let ?f = "\<lambda>a (seen, uniq). ebind (assignment_signature d states a) (\<lambda>key.
      Inr (if key \<in> set seen then (seen, uniq) else (key # seen, uniq @ [a])))"
  have step: "\<exists>v. ?f a u = Inr v \<and> (snd u \<noteq> [] \<longrightarrow> snd v \<noteq> [])" if "a \<in> set assigns" for a u
    using assms(1) [OF that] by (cases u) auto
  obtain a as where as: "assigns = a # as" using assms(2) by (cases assigns) auto
  obtain sig where sig: "assignment_signature d states a = Inr sig" using assms(1) as by auto
  have "\<exists>t. efold ?f as ([sig], [a]) = Inr t \<and> snd t \<noteq> []"
  proof (rule efold_total)
    show "\<exists>v. ?f x u = Inr v \<and> snd v \<noteq> []" if "x \<in> set as" "snd u \<noteq> []" for x u
      using step [of x u] that as by (meson list.set_intros(2))
  qed simp
  then show ?thesis using sig by (auto simp: dedup_worker_assignments_def as)
qed

lemma gpu_assign_single:
  "w \<in> set (dp_gpu_worker_ids d) \<Longrightarrow> w \<in> set (dict_get (dp_node_worker_options d) n (dp_gpu_worker_ids d)) \<Longrightarrow>
     [(w, n)] \<in> set (gpu_assignments d [n])"
  by (force simp: gpu_assignments_def)

text \<open>The loops succeed when the search below does, keep a solution once they have one, and find one when there is an outcome.\<close>

definition search_ok :: "dp \<Rightarrow> int \<Rightarrow> nat \<Rightarrow> search \<Rightarrow> bool" where
  "search_ok d new_done ep search \<longleftrightarrow> (\<forall>states memo. states_ok d states \<longrightarrow> (\<exists>r. search new_done states ep memo = Inr r))"

definition found :: "solution option \<times> memo \<Rightarrow> bool" where
  "found st \<longleftrightarrow> fst st \<noteq> None"

lemma try_outcome_found:
  assumes "search_ok d new_done (ep + 1) search" and "states_ok d next_states"
  shows "\<exists>st'. try_outcome d search ep new_done assign cost_of (gmax, gsum, load, next_states, plans) st = Inr st' \<and> found st'"
proof -
  obtain best memo where st: "st = (best, memo)" by fastforce
  obtain sub memo' where s: "search new_done next_states (ep + 1) memo = Inr (sub, memo')"
    using assms unfolding search_ok_def by fast
  show ?thesis
  proof (cases best)
    case None
    then show ?thesis using s by (simp add: try_outcome_def st found_def Let_def del: split_paired_Ex)
  next
    case (Some b)
    then show ?thesis using s
      by (cases "dp_lower_bound_pruning d \<and> fst b \<le> cost_of gmax gsum load + lower_bound_remaining d new_done (ep + 1)")
        (simp_all add: try_outcome_def st found_def Let_def del: split_paired_Ex)
  qed
qed

lemma efold_found:
  assumes "\<And>x u. x \<in> set xs \<Longrightarrow> \<exists>v. f x u = Inr v \<and> (found u \<longrightarrow> found v)"
  shows "\<exists>t. efold f xs s = Inr t \<and> (found s \<longrightarrow> found t)"
  using assms
proof (induction xs arbitrary: s)
  case (Cons x xs)
  obtain v where v: "f x s = Inr v" "found s \<longrightarrow> found v" using Cons.prems [of x s] by auto
  obtain t where "efold f xs v = Inr t" "found v \<longrightarrow> found t" using Cons.IH [of v] Cons.prems by (meson list.set_intros(2))
  with v show ?case by auto
qed simp

lemma efold_finds:
  assumes "\<And>x u. x \<in> set xs \<Longrightarrow> \<exists>v. f x u = Inr v \<and> (found u \<longrightarrow> found v)"
    and "y \<in> set xs" and "\<And>u. \<exists>v. f y u = Inr v \<and> found v"
  shows "\<exists>t. efold f xs s = Inr t \<and> found t"
proof -
  obtain us vs where xs: "xs = us @ y # vs" using assms(2) by (meson split_list)
  obtain u where u: "efold f us s = Inr u" using efold_found [of us f s] assms(1) unfolding xs by auto
  obtain v where v: "f y u = Inr v" "found v" using assms(3) by blast
  obtain t where "efold f vs v = Inr t" "found t" using efold_found [of vs f v] assms(1) v(2) unfolding xs by auto
  then show ?thesis using u v by (auto simp: xs efold_append)
qed

lemma try_assignment_found:
  assumes "dp_ready d" and "search_ok d new_done (ep + 1) search" and "states_ok d states"
    and "set cpus \<subseteq> set (dp_node_ids d)"
    and "\<And>w n. (w, n) \<in> set a \<Longrightarrow> w \<in> set (dp_gpu_worker_ids d) \<and> n \<in> set (dp_node_ids d)"
  shows "\<exists>st'. try_assignment d search states ep new_done cpus cost_of a st = Inr st' \<and> (found st \<longrightarrow> found st') \<and>
    (a \<noteq> [] \<or> cpu_assignments d cpus \<noteq> [] \<longrightarrow> found st')"
proof (cases "a = [] \<and> cpu_assignments d cpus = []")
  case True
  then show ?thesis by (simp add: try_assignment_def Let_def)
next
  case False
  obtain outs where outs: "assignment_outcomes d a cpus states = Inr outs" "outs \<noteq> []"
    and ok: "\<And>gmax gsum l next_states ps. (gmax, gsum, l, next_states, ps) \<in> set outs \<Longrightarrow> states_ok d next_states"
    using outcome_dfs_ok [OF assms(1,4,5,3), where costs = "map (\<lambda>_. 0) (dp_worker_ids d)" and plans = "[]" and load = 0 and win = "[]"]
    unfolding assignment_outcomes_def by fastforce
  let ?attempt = "try_outcome d search ep new_done (a @ cpu_assignments d cpus) cost_of"
  have step: "\<exists>v. ?attempt out u = Inr v \<and> found v" if "out \<in> set outs" for out u
  proof -
    obtain gmax gsum l next_states ps where o: "out = (gmax, gsum, l, next_states, ps)" by (cases out)
    show ?thesis unfolding o by (rule try_outcome_found [OF assms(2) ok]) (use that o in blast)
  qed
  have "\<exists>t. efold ?attempt outs st = Inr t \<and> found t"
  proof (rule efold_finds)
    show "hd outs \<in> set outs" using outs(2) by simp
  qed (use step outs(2) in \<open>blast intro: hd_in_set\<close>)+
  moreover have "try_assignment d search states ep new_done cpus cost_of a st = efold ?attempt outs st"
    using False outs(1) unfolding try_assignment_def Let_def by (simp only: if_False ebind.simps)
  ultimately show ?thesis by metis
qed

lemma try_batch_found:
  assumes ready: "dp_ready d" and b: "gpu_batch d done b" and states: "states_ok d states"
    and search: "\<And>ns. ns \<noteq> [] \<Longrightarrow> set ns \<subseteq> set (dp_node_ids d) \<Longrightarrow> (\<And>n. n \<in> set ns \<Longrightarrow> \<not> is_done d done n) \<Longrightarrow>
      search_ok d (add_nodes d ns done) (ep + 1) search"
  shows "\<exists>st'. try_batch d search done states ep b st = Inr st' \<and> (found st \<longrightarrow> found st') \<and>
    (\<forall>gpus depths cpus. prepare_batch d done b = Inr (gpus, depths, cpus) \<longrightarrow> gpus \<noteq> [] \<or> cpus \<noteq> [] \<longrightarrow>
       batch_feasible d (gpus @ cpus) done \<longrightarrow> gpu_assignments d gpus \<noteq> [] \<longrightarrow> found st')"
proof -
  note wf = dp_readyD(2) [OF ready]
  obtain gpus depths cpus where p: "prepare_batch d done b = Inr (gpus, depths, cpus)"
    using prepare_batch_total [OF ready b] by blast
  note ok = prepare_batch_ok(1,2) [OF wf b p]
  note nodes = epoch_nodes [OF ok]
  let ?new = "add_nodes d (gpus @ cpus) done"
  let ?attempt = "try_assignment d search states ep ?new cpus (epoch_cost d ep gpus depths)"
  let ?skip = "gpus = [] \<and> cpus = [] \<or> \<not> batch_feasible d (gpus @ cpus) done"
  show ?thesis
  proof (cases ?skip)
    case True
    then have "try_batch d search done states ep b st = Inr st" by (simp add: try_batch_def p)
    then show ?thesis using True p by auto
  next
    case False
    have sok: "search_ok d ?new (ep + 1) search" by (rule search) (use False nodes in auto)
    have gs: "w \<in> set (dp_gpu_worker_ids d) \<and> n \<in> set (dp_node_ids d)"
      if "a \<in> set (gpu_assignments d gpus)" "(w, n) \<in> set a" for a w n
    proof -
      note a = gpu_assign_dfs_ok [OF that(1) [unfolded gpu_assignments_def]]
      have "n \<in> set (map snd a)" using that(2) by force
      then show ?thesis using a that(2) nodes(2) by auto
    qed
    have sig: "\<exists>sig. assignment_signature d states a = Inr sig" if "a \<in> set (gpu_assignments d gpus)" for a
      by (rule assignment_signature_ok [OF ready states]) (use gs [OF that] in auto)
    obtain assigns where as: "(if dp_worker_symmetry d then dedup_worker_assignments d states (gpu_assignments d gpus)
        else Inr (gpu_assignments d gpus)) = Inr assigns" and sub: "set assigns \<subseteq> set (gpu_assignments d gpus)"
      and ne: "gpu_assignments d gpus \<noteq> [] \<Longrightarrow> assigns \<noteq> []"
    proof (cases "dp_worker_symmetry d \<and> gpu_assignments d gpus \<noteq> []")
      case True
      then obtain us where us: "dedup_worker_assignments d states (gpu_assignments d gpus) = Inr us" "us \<noteq> []"
        using dedup_ok [of "gpu_assignments d gpus" d states] sig by blast
      show ?thesis by (rule that [of us]) (use True us dedup_sub [OF us(1)] in auto)
    next
      case False
      show ?thesis by (rule that [of "gpu_assignments d gpus"]) (use False in \<open>auto simp: dedup_worker_assignments_def\<close>)
    qed
    have eq: "try_batch d search done states ep b st = efold ?attempt assigns st"
      by (simp only: try_batch_def p ebind.simps case_prod_conv False if_False as)
    have cpus: "set cpus \<subseteq> set (dp_node_ids d)" using nodes(2) by simp
    have step: "\<exists>v. ?attempt a u = Inr v \<and> (found u \<longrightarrow> found v) \<and> (a \<noteq> [] \<or> cpu_assignments d cpus \<noteq> [] \<longrightarrow> found v)"
      if "a \<in> set assigns" for a u
      by (rule try_assignment_found [OF ready sok states cpus]) (use gs sub that in blast)
    have some: "a \<noteq> [] \<or> cpu_assignments d cpus \<noteq> []" if "a \<in> set assigns" for a
    proof -
      have "a \<in> set (gpu_assignments d gpus)" using that sub by blast
      then have "map snd a = gpus" using gpu_assign_dfs_ok unfolding gpu_assignments_def by blast
      moreover have "map snd (cpu_assignments d cpus) = cpus"
        using cpu_assignments_ok(1) dp_readyD(1) [OF ready] unfolding dp_wf_def by blast
      ultimately show ?thesis using False by auto
    qed
    obtain t where t: "efold ?attempt assigns st = Inr t" "found st \<longrightarrow> found t" using efold_found [of assigns ?attempt st] step by blast
    have "found t" if "gpu_assignments d gpus \<noteq> []"
    proof -
      have hd: "hd assigns \<in> set assigns" using ne [OF that] by simp
      have "\<exists>t. efold ?attempt assigns st = Inr t \<and> found t"
        by (rule efold_finds [OF _ hd]) (use step some hd in blast)+
      then show ?thesis using t(1) by simp
    qed
    then show ?thesis using t eq p by auto
  qed
qed

lemma distinct_one: "distinct xs \<Longrightarrow> set xs = {n} \<Longrightarrow> xs = [n]"
  by (cases xs; cases "tl xs") auto

lemma good_batch:
  assumes ready: "dp_ready d" and "k \<in> set (dp_node_ids d)" and "\<not> is_done d done k"
  shows "\<exists>bs b gpus depths cpus. enumerate_gpu_batches d False done = Inr bs \<and> b \<in> set bs \<and>
    prepare_batch d done b = Inr (gpus, depths, cpus) \<and> (gpus \<noteq> [] \<or> cpus \<noteq> []) \<and>
    batch_feasible d (gpus @ cpus) done \<and> gpu_assignments d gpus \<noteq> []"
proof -
  note wf = dp_readyD(2) [OF ready]
  obtain n where n: "n \<in> set (dp_node_ids d)" "\<not> is_done d done n"
    and parents: "\<And>p. p \<in> set (deps_of d n) \<Longrightarrow> p \<in> set (dp_node_ids d) \<Longrightarrow> is_done d done p"
    using first_pending [OF dp_readyD(3) [OF ready] assms(2,3)] by blast
  obtain bs where bs: "enumerate_gpu_batches d False done = Inr bs" "[] \<in> set bs"
    and single: "\<And>n. n \<in> set (pending_gpu d done) \<Longrightarrow>
      (\<And>p. p \<in> set (deps_of d n) \<Longrightarrow> p \<in> set (dp_node_ids d) \<Longrightarrow> is_done d done p) \<Longrightarrow> [n] \<in> set bs"
    using enumerate_ok [OF ready, of False "done"] by blast
  let ?b = "if is_gpu_node d n then [n] else []"
  have b: "?b \<in> set bs" using bs(2) single [of n] n parents by (auto simp: set_pending_gpu)
  have gb: "gpu_batch d done ?b" by (rule enumerate_gpu_batch [OF wf bs(1) b])
  obtain gpus depths cpus where p: "prepare_batch d done ?b = Inr (gpus, depths, cpus)"
    using prepare_batch_total [OF ready gb] by blast
  note ok = prepare_batch_ok [OF wf gb p]
  have gpus: "gpus = ?b"
  proof -
    have "distinct gpus" "set gpus = set ?b" using ok(1,3) by (auto simp: gpu_batch_def)
    then show ?thesis using distinct_one [of gpus n] by (cases "is_gpu_node d n") simp_all
  qed
  have done_parent: "\<not> blocked (parents_mask d False n) (add_nodes d ns done)" for ns
    using parents by (auto simp: blocked_parents is_done_add_nodes)
  have "batch_feasible d (gpus @ cpus) done"
    unfolding batch_feasible_def list_all_iff
  proof
    fix m assume m: "m \<in> set (gpus @ cpus)"
    show "\<not> blocked (parents_mask d False m) (add_nodes d (gpus @ cpus) done)"
    proof (cases "m \<in> set cpus")
      case True
      have "add_nodes d (auto_cpu_batch d done gpus) (add_nodes d gpus done) = add_nodes d (gpus @ cpus) done"
        unfolding add_nodes_append [symmetric] by (rule add_nodes_set) (simp add: ok(4))
      then show ?thesis using auto_cpu_batch_closed [OF wf, of m "done" gpus] True ok(4) by simp
    next
      case False
      then have "m = n" using m gpus by (auto split: if_splits)
      then show ?thesis using done_parent by simp
    qed
  qed
  moreover have "gpus \<noteq> [] \<or> cpus \<noteq> []"
  proof (cases "is_gpu_node d n")
    case True
    then show ?thesis using gpus by simp
  next
    case False
    have "n \<in> set (auto_cpu_batch d done gpus)" by (rule auto_cpu_batch_takes [OF wf n(1) False n(2) parents])
    then show ?thesis using ok(4) by auto
  qed
  moreover have "gpu_assignments d gpus \<noteq> []"
  proof (cases "is_gpu_node d n")
    case True
    obtain w where "w \<in> set (dp_gpu_worker_ids d)" "w \<in> set (dict_get (dp_node_worker_options d) n (dp_gpu_worker_ids d))"
      using dp_readyD(6) [OF ready n(1) True] by blast
    then show ?thesis using gpu_assign_single True gpus by fastforce
  next
    case False
    then show ?thesis using gpus by (simp add: gpu_assignments_def)
  qed
  ultimately show ?thesis using bs(1) b p by blast
qed

lemma dp_search_succeeds:
  assumes ready: "dp_ready d" and "pruning \<longrightarrow> allow_relax" and "states_ok d states" and "node_mask d done"
    and "2 * todo d done + (if pruning then 2 else 1) \<le> fuel"
  shows "\<exists>r. dp_search fuel d pruning allow_relax done states ep memo = Inr r"
  using assms(2-)
proof (induction fuel arbitrary: pruning allow_relax "done" states ep memo)
  case 0
  then show ?case by (simp split: if_splits)
next
  case (Suc fuel)
  note wf = dp_readyD(2) [OF ready]
  show ?case
  proof (cases "done = all_mask d \<or> memo (done, states, ep) \<noteq> None")
    case True
    then show ?thesis by (auto simp del: split_paired_Ex)
  next
    case False
    let ?search = "dp_search fuel d pruning allow_relax"
    let ?attempt = "try_batch d ?search done states ep"
    have search: "search_ok d (add_nodes d ns done) (ep + 1) ?search"
      if ns: "ns \<noteq> []" "set ns \<subseteq> set (dp_node_ids d)" "\<And>n. n \<in> set ns \<Longrightarrow> \<not> is_done d done n" for ns
      unfolding search_ok_def
    proof (intro allI impI)
      fix states memo assume st: "states_ok d states"
      have "todo d (add_nodes d ns done) < todo d done" by (rule todo_decreases [OF ns(2,3,1)])
      then show "\<exists>r. ?search (add_nodes d ns done) states (ep + 1) memo = Inr r"
        using Suc.prems(4) node_mask_add [OF wf ns(2) Suc.prems(3)] st Suc.prems(1) by (intro Suc.IH) (auto split: if_splits)
    qed
    obtain bs where bs: "enumerate_gpu_batches d pruning done = Inr bs" using enumerate_ok [OF ready] by blast
    note tb = try_batch_found [OF ready enumerate_gpu_batch [OF wf bs] Suc.prems(2) search]
    obtain best memo1 where fold: "efold ?attempt bs (None, memo) = Inr (best, memo1)"
      using efold_ok [of bs ?attempt "(None, memo)"] tb by fast
    have relax: "\<exists>r. dp_search fuel d False False done states ep memo1 = Inr r" if pruning
      by (rule Suc.IH) (use that Suc.prems in auto)
    have found: "best \<noteq> None" if np: "\<not> pruning"
    proof -
      obtain n where "n \<in> set (dp_node_ids d)" "\<not> is_done d done n"
        using node_mask_all [OF wf Suc.prems(3)] False by blast
      from good_batch [OF ready this] obtain b gpus depths cpus where g: "b \<in> set bs"
        "prepare_batch d done b = Inr (gpus, depths, cpus)" "gpus \<noteq> [] \<or> cpus \<noteq> []"
        "batch_feasible d (gpus @ cpus) done" "gpu_assignments d gpus \<noteq> []"
        using bs np by auto
      have "\<exists>t. efold ?attempt bs (None, memo) = Inr t \<and> found t"
        by (rule efold_finds [OF _ g(1)]) (use tb g in blast)+
      then show ?thesis using fold by (auto simp: found_def)
    qed
    have "memo (done, states, ep) = None" using False by (cases "memo (done, states, ep)") auto
    then show ?thesis
      using False bs fold relax found Suc.prems(1) by (cases best) (auto simp del: split_paired_Ex)
  qed
qed

lemma initial_states_ok: "dp_ready d \<Longrightarrow> states_ok d (initial_states d)"
  using worker_index_ok [OF dp_readyD(7)] by (fastforce simp: states_ok_def initial_states_def dict_get_def)

lemma solve_succeeds:
  assumes "dp_ready d" and "states = None \<or> (\<exists>sts. states = Some sts \<and> states_ok d sts)"
  shows "\<exists>sol. solve d states = Inr sol"
proof -
  have st: "states_ok d (option_default states (initial_states d))"
    using assms initial_states_ok by (auto simp: option_default_def)
  have fuel: "2 * todo d 0 + (if dp_batch_shape_pruning d then 2 else 1) \<le> 2 * length (dp_node_ids d) + 2"
    using todo_le [of d 0] by simp
  obtain r where "dp_search (2 * length (dp_node_ids d) + 2) d (dp_batch_shape_pruning d) True 0
      (option_default states (initial_states d)) 0 (\<lambda>_. None) = Inr r"
    using dp_search_succeeds [OF assms(1) _ st node_mask_zero fuel, of True] by blast
  then show ?thesis unfolding solve_def by (cases r) (simp del: dp_search.simps split_paired_Ex)
qed

section \<open>An example\<close>

text \<open>Two prompts around a query: a model call, the query that reads its output, a second model call.\<close>

definition example_node :: "string \<Rightarrow> string \<Rightarrow> string option \<Rightarrow> string list \<Rightarrow> node" where
  "example_node n engine model parents =
     \<lparr>nd_id = n, nd_type = ''step'', nd_engine = Some engine, nd_model = model, nd_system_prompt = None, nd_inputs = parents,
      nd_outputs = [], nd_queries = [], nd_raw = (case parents of [] \<Rightarrow> [] | p # _ \<Rightarrow> [(''parent'', PStr p)])\<rparr>"

definition example_args :: solver_args where
  "example_args =
     \<lparr>sa_graph = \<lparr>gp_name = ''g'', gp_description = '''',
        gp_nodes = [(''a'', example_node ''a'' ''vllm'' (Some ''m'') []), (''q'', example_node ''q'' ''db'' None [''a'']),
                    (''b'', example_node ''b'' ''vllm'' (Some ''m'') [''q''])], gp_edges = []\<rparr>,
      sa_dependencies = [(''a'', []), (''q'', [''a'']), (''b'', [''q''])],
      sa_workers = [(''g0'', \<lparr>wk_id = ''g0'', wk_kind = ''gpu'', wk_device = ''cuda:0'', wk_capacity = 1\<rparr>),
                    (''c0'', \<lparr>wk_id = ''c0'', wk_kind = ''cpu'', wk_device = ''cpu'', wk_capacity = 1\<rparr>)],
      sa_worker_ids = [''g0'', ''c0''], sa_plan_choices = [], sa_window_size = 1, sa_exec_cost = \<lambda>_ _. Inr 2,
      sa_cache_multiplier = \<lambda>_ _. 1, sa_model_init_cost = Some (\<lambda>_ m. Inr (if m = None then 3 else 0)),
      sa_llm_cache_bonus = None, sa_node_ids = None, sa_epoch_penalty = None, sa_cpu_load_cost_weight = None,
      sa_cpu_load_early_weight = None, sa_cpu_cost_mode = None, sa_gpu_cost_max_weight = None,
      sa_gpu_cost_sum_weight = None, sa_disable_epoch_batch_cost = False, sa_disable_cpu_load_cost = False,
      sa_node_worker_options = [(''a'', [''g0'']), (''q'', [''c0'']), (''b'', [''g0''])], sa_gpu_worker_ids = None,
      sa_cpu_worker_ids = None, sa_http_latency = [], sa_batch_shape_pruning = False, sa_gpu_batch_slack = 1,
      sa_lower_bound_pruning = False, sa_worker_symmetry = False, sa_lower_bound_cost_factor = 1/5,
      sa_gpu_depth_cost_weight = None\<rparr>"

definition example_dp :: dp where
  "example_dp = (case make_solver example_args of Inr d \<Rightarrow> d | Inl _ \<Rightarrow> undefined)"

lemma example_solved:
  "case solve example_dp None of Inl _ \<Rightarrow> False
   | Inr (c, s, p) \<Rightarrow> (c, s) = (9, [(0, ''g0'', ''a''), (0, ''c0'', ''q''), (1, ''g0'', ''b'')])"
  by code_simp

lemma example_solution:
  obtains plans where "solve example_dp None = Inr (9, [(0, ''g0'', ''a''), (0, ''c0'', ''q''), (1, ''g0'', ''b'')], plans)"
  using example_solved by (auto split: sum.splits)

lemma example_parts:
  "dp_node_ids example_dp = [''a'', ''b'', ''q'']" "dp_cpu_worker_ids example_dp = [''c0'']"
  "dp_gpu_worker_ids example_dp = [''g0'']" "dp_worker_ids example_dp = [''g0'', ''c0'']"
  "dep_edges example_dp = [(''q'', ''b''), (''a'', ''q'')]"
  "list_all (\<lambda>n. distinct (deps_of example_dp n) \<and> (case map_of (dp_nodes example_dp) n of None \<Rightarrow> False | Some nd \<Rightarrow> hashable_parent nd))
     (dp_node_ids example_dp)"
  "list_all (\<lambda>n. is_gpu_node example_dp n \<longrightarrow> ''g0'' \<in> set (dict_get (dp_node_worker_options example_dp) n (dp_gpu_worker_ids example_dp)))
     (dp_node_ids example_dp)"
  "list_all (\<lambda>w. map_of (dp_workers example_dp) w \<noteq> None) (dp_worker_ids example_dp)"
  by code_simp+

lemma example_made: "make_solver example_args = Inr example_dp"
proof -
  have "case make_solver example_args of Inl _ \<Rightarrow> False | Inr _ \<Rightarrow> True" by code_simp
  then show ?thesis by (auto simp: example_dp_def split: sum.splits)
qed

lemma make_solver_fields:
  assumes "make_solver a = Inr d"
  shows "dp_exec_cost d = sa_exec_cost a" and "dp_model_init_cost d = option_default (sa_model_init_cost a) (\<lambda>_ _. Inr 0)"
    and "dp_lower_bound_pruning d = sa_lower_bound_pruning a" and "dp_worker_symmetry d = sa_worker_symmetry a"
    and "dp_batch_shape_pruning d = sa_batch_shape_pruning a"
  using assms by (auto simp: make_solver_def Let_def ebind_Inr_iff split: prod.splits)

lemma example_costs:
  "dp_exec_cost example_dp nd w = Inr 2" "dp_model_init_cost example_dp nd m = Inr (if m = None then 3 else 0)"
  "dp_lower_bound_pruning example_dp = False" "dp_worker_symmetry example_dp = False" "dp_batch_shape_pruning example_dp = False"
  using make_solver_fields [OF example_made] by (simp_all add: example_args_def option_default_def)

lemma example_ready: "dp_ready example_dp"
proof -
  have "acyclic {(''q'', ''b''), (''a'', ''q'' :: string)}"
  proof -
    have "in_dep_order [(''q'', ''b''), (''a'', ''q'' :: string)] ([] @ [''a''] @ [''q''] @ [''b''])"
      unfolding append_assoc [symmetric] in_dep_order_snoc by simp
    from in_dep_order_acyclic [OF this] show ?thesis by simp
  qed
  then show ?thesis
    using example_parts example_costs(1,2) unfolding dp_ready_def dp_wf_def
    by (auto simp: list_all_iff split: option.splits)
qed

lemma example_plans:
  "dp_wf example_dp" "costs_return example_dp"
  using example_ready example_costs by (auto simp: dp_ready_def costs_return_def)

section \<open>What the solver promises\<close>

lemma solve_valid:
  assumes "dp_wf d" and "solve d states = Inr (c, sched, plans)"
  shows "valid_schedule d 0 sched"
proof -
  obtain memo where "dp_search (2 * length (dp_node_ids d) + 2) d (dp_batch_shape_pruning d) True 0
      (option_default states (initial_states d)) 0 (\<lambda>_. None) = Inr ((c, sched, plans), memo)"
    using assms(2) unfolding solve_def ebind_Inr_iff by auto
  from dp_search_plan [OF this memo_ok_empty, of UNIV] have "dp_plan d UNIV 0 (option_default states (initial_states d)) 0 (c, sched, plans)"
    by simp
  from dp_plan_valid [OF assms(1) this] show ?thesis by simp
qed

text \<open>
  C1: Whatever schedule the solver returns is valid: every node of the graph runs exactly once, GPU
  nodes on a GPU worker that is allowed for them and CPU nodes on a CPU worker, no worker has two
  GPU nodes in one epoch, and no node runs in an epoch before one of its parents. This holds with
  every pruning and with the memo table.
\<close>

theorem solve_schedule_valid:
  assumes "dp_wf d" and "solve d states = Inr (c, sched, plans)"
  shows "distinct (map (\<lambda>(e, w, n). n) sched) \<and> (\<lambda>(e, w, n). n) ` set sched = set (dp_node_ids d) \<and>
    (\<forall>e w n. (e, w, n) \<in> set sched \<longrightarrow> may_run d n w \<and>
       (\<forall>m. (e, w, m) \<in> set sched \<and> is_gpu_node d n \<and> is_gpu_node d m \<longrightarrow> n = m) \<and>
       (\<forall>p \<in> set (deps_of d n). p \<in> set (dp_node_ids d) \<longrightarrow> (\<exists>e' w'. (e', w', p) \<in> set sched \<and> e' \<le> e)))"
proof -
  have valid: "valid_schedule d 0 sched" by (rule solve_valid [OF assms])
  note v = valid [unfolded valid_schedule_def]
  have none: "\<not> is_done d 0 n" for n by (simp add: is_done_def)
  have nodes: "(\<lambda>(e, w, n). n) ` set sched = set (dp_node_ids d)" using v by (simp add: none)
  show ?thesis
  proof (intro conjI allI impI ballI)
    show "distinct (map (\<lambda>(e, w, n). n) sched)" using v by blast
    show "(\<lambda>(e, w, n). n) ` set sched = set (dp_node_ids d)" by (rule nodes)
  next
    fix e w n assume en: "(e, w, n) \<in> set sched"
    show "may_run d n w" using v en by blast
    show "n = m" if "(e, w, m) \<in> set sched \<and> is_gpu_node d n \<and> is_gpu_node d m" for m using v en that by blast
    show "\<exists>e' w'. (e', w', p) \<in> set sched \<and> e' \<le> e" if "p \<in> set (deps_of d n)" "p \<in> set (dp_node_ids d)" for p
      using v en that none [of p] by blast
  qed
qed

theorem solve_schedule_valid_witness:
  "\<exists>plans. solve example_dp None = Inr (9, [(0, ''g0'', ''a''), (0, ''c0'', ''q''), (1, ''g0'', ''b'')], plans) \<and>
     may_run example_dp ''q'' ''c0'' \<and>
     (\<lambda>(e, w, n). n) ` set [(0 :: nat, ''g0'', ''a''), (0, ''c0'', ''q''), (1, ''g0'', ''b'')] = set (dp_node_ids example_dp)"
proof -
  obtain plans where s: "solve example_dp None = Inr (9, [(0, ''g0'', ''a''), (0, ''c0'', ''q''), (1, ''g0'', ''b'')], plans)"
    by (rule example_solution)
  note v = solve_schedule_valid [OF example_plans(1) s]
  have "(0, ''c0'', ''q'') \<in> set [(0 :: nat, ''g0'', ''a''), (0, ''c0'', ''q''), (1, ''g0'', ''b'')]" by simp
  with s v show ?thesis by blast
qed

text \<open>
  C2: The solver never fails on a well-formed problem: when the dependencies within the graph have no
  cycle, every GPU node has an allowed GPU worker and the cost functions are defined, every search
  ends with a schedule; the pruning of batch shapes costs at most a second search of the same state,
  and no batch that leads nowhere can end the search with an exception.
\<close>

theorem solve_never_fails:
  assumes "dp_ready d"
  shows "\<exists>c sched plans. solve d None = Inr (c, sched, plans)"
  using solve_succeeds [OF assms, of None] by (simp add: split_paired_Ex)

theorem solve_never_fails_witness: "\<exists>c sched plans. solve example_dp None = Inr (c, sched, plans)"
  by (rule solve_never_fails [OF example_ready])

text \<open>
  C5: The search ends on every input, cyclic graphs and unreachable nodes included: the fuel of twice
  the number of nodes is never used up, since every epoch takes a node that is not done and each
  state is searched at most twice.
\<close>

theorem solve_terminates:
  assumes "distinct (dp_node_ids d)" and "costs_return d"
  shows "solve d states \<noteq> Inl Diverges"
  by (rule solve_returns [OF assms])

theorem solve_terminates_witness: "solve example_dp None \<noteq> Inl Diverges"
  by (rule solve_terminates) (use example_plans in \<open>auto simp: dp_wf_def\<close>)

lemma example_solution_initial:
  obtains plans where
    "solve example_dp (Some (initial_states example_dp)) = Inr (9, [(0, ''g0'', ''a''), (0, ''c0'', ''q''), (1, ''g0'', ''b'')], plans)"
  using example_solution by (auto simp: solve_def option_default_def)

end
