(* ===== verification/HaloPlans.thy ===== *)
theory HaloPlans
  imports HaloSchedule
begin

text \<open>
  What the Halo solver searches for, written without its loops: a plan takes nodes epoch by epoch,
  any closed set of GPU nodes that fits the workers, any injective assignment, any query plans, and
  its cost is written out. The solver returns such a plan, and without pruning none is cheaper.
\<close>

section \<open>Query plans and what they cost\<close>

text \<open>A query of a node with the plan that was picked for it.\<close>

type_synonym pick = "string \<times> string \<times> plan_choice"

definition node_of :: "dp \<Rightarrow> string \<Rightarrow> node" where
  "node_of d n = the (map_of (dp_nodes d) n)"

definition offered :: "dp \<Rightarrow> string \<Rightarrow> string \<Rightarrow> plan_choice list" where
  "offered d n q =
     (case map_of (dp_plan_choices d) (n, q) of None \<Rightarrow> [fallback_choice] | Some [] \<Rightarrow> [fallback_choice] | Some cs \<Rightarrow> cs)"

text \<open>Every way to pick one offered plan for each query, the first query varying slowest.\<close>

primrec query_picks :: "dp \<Rightarrow> string \<Rightarrow> db_query list \<Rightarrow> pick list list" where
  "query_picks d n [] = [[]]"
| "query_picks d n (q # qs) = [(n, q_name q, c) # ps. c \<leftarrow> offered d n (q_name q), ps \<leftarrow> query_picks d n qs]"

definition node_picks :: "dp \<Rightarrow> string \<Rightarrow> pick list list" where
  "node_picks d n = query_picks d (nd_id (node_of d n)) (nd_queries (node_of d n))"

text \<open>A pick costs its base cost times the factor of the cache, which sees the last picks of the epoch.\<close>

fun pick_signature :: "pick \<Rightarrow> query_signature" where
  "pick_signature (n, q, c) = \<lparr>qs_node = n, qs_query = q, qs_plan = pc_plan_id c, qs_footprints = sort (pc_footprints c)\<rparr>"

definition recent :: "dp \<Rightarrow> 'a list \<Rightarrow> 'a list" where
  "recent d h = drop (length h - nat (dp_window_size d)) h"

fun pick_cost :: "dp \<Rightarrow> pick list \<Rightarrow> pick \<Rightarrow> cost" where
  "pick_cost d before (n, q, c) =
     (case (pc_raw_cost c, pc_cost c) of (Some r, _) \<Rightarrow> max 0 r | (None, Some r) \<Rightarrow> r | (None, None) \<Rightarrow> 1) *
     dp_cache_multiplier d (map pick_signature (recent d before)) c"

primrec picks_cost :: "dp \<Rightarrow> pick list \<Rightarrow> pick list \<Rightarrow> cost" where
  "picks_cost d before [] = 0"
| "picks_cost d before (p # ps) = pick_cost d before p + picks_cost d (before @ [p]) ps"

text \<open>
  CPU nodes run one after the other; each takes the first of its cheapest picks, an HTTP node costs
  its delay.
\<close>

definition first_least :: "('a \<Rightarrow> cost) \<Rightarrow> 'a list \<Rightarrow> 'a" where
  "first_least f xs = hd (filter (\<lambda>x. \<forall>y \<in> set xs. f x \<le> f y) xs)"

primrec cpu_load :: "dp \<Rightarrow> pick list \<Rightarrow> string list \<Rightarrow> cost \<times> pick list" where
  "cpu_load d before [] = (0, [])"
| "cpu_load d before (n # ns) =
     (if nd_engine (node_of d n) = Some ''http''
      then let (c, ps) = cpu_load d before ns in (http_sleep_cost d (node_of d n) + c, ps)
      else let best = first_least (picks_cost d before) (node_picks d n); (c, ps) = cpu_load d (before @ best) ns
        in (picks_cost d before best + c, best @ ps))"

section \<open>Running the GPU nodes of an epoch\<close>

definition gpu_run_cost :: "dp \<Rightarrow> string \<Rightarrow> worker_state \<Rightarrow> cost" where
  "gpu_run_cost d n st =
     (let bonus = dp_llm_cache_bonus d (node_of d n) (from_id (dp_node_ids d) (ws_node st)) (deps_of d n)
      in projr (dp_exec_cost d (node_of d n) (the (map_of (dp_workers d) (dp_worker_ids d ! ws_idx st)))) *
           (if bonus \<le> 0 then 1 else bonus) +
         projr (dp_model_init_cost d (node_of d n) (from_id (model_names d) (ws_model st))))"

definition after_run :: "dp \<Rightarrow> string \<Rightarrow> worker_state \<Rightarrow> worker_state" where
  "after_run d n st =
     st\<lparr>ws_node := int (bit_of d (nd_id (node_of d n))), ws_model := model_to_id d (nd_model (node_of d n)) (ws_model st)\<rparr>"

text \<open>\<open>a\<close> is the assignment of the epoch, pairs of a worker and its node; a worker without one is idle.\<close>

definition worker_cost :: "dp \<Rightarrow> worker_state list \<Rightarrow> (string \<times> string) list \<Rightarrow> string \<Rightarrow> cost" where
  "worker_cost d states a w =
     (case map_of a w of None \<Rightarrow> 0 | Some n \<Rightarrow> gpu_run_cost d n (the (map_of (zip (dp_worker_ids d) states) w)))"

definition states_after :: "dp \<Rightarrow> worker_state list \<Rightarrow> (string \<times> string) list \<Rightarrow> worker_state list" where
  "states_after d states a =
     map (\<lambda>(w, st). case map_of a w of None \<Rightarrow> st | Some n \<Rightarrow> after_run d n st) (zip (dp_worker_ids d) states)"

text \<open>
  The cost of an epoch: the penalty for opening it, the weighted maximum and sum of what the GPU
  workers take, the weighted CPU load, heavier in early epochs, and the depths of the nodes.
\<close>

definition early_weight :: "dp \<Rightarrow> nat \<Rightarrow> cost" where
  "early_weight d ep =
     (if dp_disable_cpu_load_cost d then 0 else dp_cpu_load_cost_weight d * (1 + max 0 (dp_cpu_load_early_weight d) / real (ep + 1)))"

definition plan_epoch_cost ::
  "dp \<Rightarrow> nat \<Rightarrow> string list \<Rightarrow> (string, nat) dict \<Rightarrow> (string \<Rightarrow> cost) \<Rightarrow> cost \<Rightarrow> cost" where
  "plan_epoch_cost d ep gpus depths wcost load =
     (if dp_disable_epoch_batch_cost d then 0
      else dp_epoch_penalty d ep + max 0 (dp_gpu_depth_cost_weight d) * (\<Sum>n\<leftarrow>gpus. real (dict_get depths n 0))) +
     dp_gpu_cost_max_weight d * (if dp_gpu_worker_ids d = [] then 0 else Max (wcost ` set (dp_gpu_worker_ids d))) +
     dp_gpu_cost_sum_weight d * (\<Sum>w\<leftarrow>dp_gpu_worker_ids d. wcost w) +
     early_weight d ep *
       (if dp_cpu_cost_mode d = ''naive'' then \<Sum>n\<leftarrow>gpus. real (length (cpu_needed_for_gpu d [n])) else load)"

section \<open>Plans\<close>

text \<open>The CPU nodes that can run once \<open>D\<close> and the GPU nodes \<open>B\<close> have: the least such set.\<close>

inductive_set runnable :: "dp \<Rightarrow> string set \<Rightarrow> string set \<Rightarrow> string set" for d D B where
  "n \<in> set (dp_node_ids d) \<Longrightarrow> \<not> is_gpu_node d n \<Longrightarrow> n \<notin> D \<Longrightarrow>
     \<forall>p \<in> set (deps_of d n). p \<in> set (dp_node_ids d) \<longrightarrow> p \<in> D \<or> p \<in> B \<or> p \<in> runnable d D B \<Longrightarrow> n \<in> runnable d D B"

text \<open>The order in which the solver lists the nodes of a batch, and their depths, are its own.\<close>

definition mask_of :: "dp \<Rightarrow> string set \<Rightarrow> int" where
  "mask_of d D = add_nodes d (filter (\<lambda>n. n \<in> D) (dp_node_ids d)) 0"

definition listed_batch ::
  "dp \<Rightarrow> string set \<Rightarrow> string set \<Rightarrow> (string list \<times> (string, nat) dict \<times> string list) result" where
  "listed_batch d D B =
     ebind (gpu_topo d (filter (\<lambda>n. n \<notin> D \<and> is_gpu_node d n) (dp_node_ids d)))
       (\<lambda>t. prepare_batch d (mask_of d D) (filter (\<lambda>n. n \<in> B) t))"

definition gpu_selection :: "dp \<Rightarrow> string set \<Rightarrow> string set \<Rightarrow> bool" where
  "gpu_selection d D B \<longleftrightarrow>
     B \<subseteq> {n \<in> set (dp_node_ids d). is_gpu_node d n \<and> n \<notin> D} \<and> card B \<le> max 1 (length (dp_gpu_worker_ids d)) \<and>
     (\<forall>n \<in> B. \<forall>p \<in> set (deps_of d n). p \<in> set (dp_node_ids d) \<longrightarrow> is_gpu_node d p \<longrightarrow> p \<in> D \<or> p \<in> B)"

definition gpu_assignment :: "dp \<Rightarrow> string list \<Rightarrow> (string \<times> string) list \<Rightarrow> bool" where
  "gpu_assignment d gpus a \<longleftrightarrow> map snd a = gpus \<and> distinct (map fst a) \<and>
     (\<forall>(w, n) \<in> set a. w \<in> set (dp_gpu_worker_ids d) \<and> w \<in> set (dict_get (dp_node_worker_options d) n (dp_gpu_worker_ids d)))"

definition round_robin :: "string list \<Rightarrow> string list \<Rightarrow> (string \<times> string) list" where
  "round_robin workers ns = map (\<lambda>i. (workers ! (i mod length workers), ns ! i)) [0..<length ns]"

type_synonym halo_result = "cost \<times> schedule \<times> (string \<times> string \<rightharpoonup> plan_choice)"

definition picked_plans :: "pick list \<Rightarrow> string \<times> string \<rightharpoonup> plan_choice" where
  "picked_plans ps = map_of (rev (map (\<lambda>(n, q, c). ((n, q), c)) ps))"

inductive halo_plan :: "dp \<Rightarrow> string set \<Rightarrow> worker_state list \<Rightarrow> nat \<Rightarrow> halo_result \<Rightarrow> bool" for d where
  plan_over: "set (dp_node_ids d) \<subseteq> D \<Longrightarrow> halo_plan d D states ep (0, [], Map.empty)"
| plan_step: "\<not> set (dp_node_ids d) \<subseteq> D \<Longrightarrow> gpu_selection d D B \<Longrightarrow> listed_batch d D B = Inr (gpus, depths, cpus) \<Longrightarrow>
    set gpus = B \<Longrightarrow> set cpus = runnable d D B \<Longrightarrow> gpus @ cpus \<noteq> [] \<Longrightarrow>
    \<forall>n \<in> B. \<forall>p \<in> set (deps_of d n). p \<in> set (dp_node_ids d) \<longrightarrow> p \<in> D \<or> p \<in> B \<or> p \<in> runnable d D B \<Longrightarrow>
    gpu_assignment d gpus a \<Longrightarrow> list_all2 (\<lambda>n ps. ps \<in> set (node_picks d n)) gpus pss \<Longrightarrow>
    cpu_load d (concat pss) cpus = (cpu_cost, cpu_picks) \<Longrightarrow>
    halo_plan d (D \<union> B \<union> set cpus) (states_after d states a) (ep + 1) (c, sched, plans) \<Longrightarrow>
    halo_plan d D states ep
      (plan_epoch_cost d ep gpus depths (worker_cost d states a) (picks_cost d [] (concat pss) + cpu_cost) + c,
       map (\<lambda>(w, n). (0, w, n)) (a @ round_robin (dp_cpu_worker_ids d) cpus) @ map (\<lambda>(e, w, n). (e + 1, w, n)) sched,
       plans ++ picked_plans (concat pss @ cpu_picks))"

section \<open>The code's query plans are the picks\<close>

lemma choices_offered: "choices_of d n q = offered d n q"
  by (auto simp: choices_of_def offered_def dict_get_def Let_def split: option.splits list.splits)

definition run_picks :: "dp \<Rightarrow> plan_option \<Rightarrow> pick list \<Rightarrow> plan_option" where
  "run_picks d opt ps = foldl (\<lambda>opt (n, q, c). extend_plan d n q opt c) opt ps"

lemma run_picks_simps [simp]:
  "run_picks d opt [] = opt" "run_picks d opt ((n, q, c) # ps) = run_picks d (extend_plan d n q opt c) ps"
  by (simp_all add: run_picks_def)

lemma plan_options_fold:
  "foldl (\<lambda>opts q. concat (map (\<lambda>opt. map (extend_plan d n (q_name q) opt) (choices_of d n (q_name q))) opts)) opts qs =
     concat (map (\<lambda>opt. map (run_picks d opt) (query_picks d n qs)) opts)"
proof (induction qs arbitrary: opts)
  case Nil
  then show ?case by (induction opts) auto
next
  case (Cons q qs)
  have one: "map (run_picks d opt) (query_picks d n (q # qs)) =
      concat (map (\<lambda>c. map (run_picks d (extend_plan d n (q_name q) opt c)) (query_picks d n qs)) (choices_of d n (q_name q)))" for opt
    by (simp add: map_concat comp_def choices_offered)
  have "concat (map (\<lambda>opt. map (run_picks d opt) (query_picks d n qs))
        (concat (map (\<lambda>opt. map (extend_plan d n (q_name q) opt) (choices_of d n (q_name q))) opts))) =
      concat (map (\<lambda>opt. map (run_picks d opt) (query_picks d n (q # qs))) opts)"
    unfolding one by (induction opts) (simp_all add: comp_def)
  then show ?case using Cons.IH by simp
qed

text \<open>The window of the code holds the last picks, behind padding.\<close>

definition win_of :: "dp \<Rightarrow> pick list \<Rightarrow> window" where
  "win_of d h = (if dp_window_size d \<le> 0 \<or> h = [] then []
     else replicate (nat (dp_window_size d) - length h) None @ map (Some \<circ> pick_signature) (recent d h))"

lemma window_signatures_pad: "window_signatures (replicate j None @ map (Some \<circ> f) xs) = map f xs"
  by (simp add: window_signatures_def filter_map comp_def)

lemma window_signatures_win: "window_signatures (win_of d h) = map pick_signature (recent d h)"
  by (auto simp: win_of_def window_signatures_pad) (auto simp: window_signatures_def recent_def)

lemma append_win: "append_window d (win_of d h) n q c = win_of d (h @ [(n, q, c)])"
proof (cases "dp_window_size d \<le> 0")
  case True
  then show ?thesis by (simp add: append_window_def win_of_def)
next
  case False
  let ?k = "nat (dp_window_size d)" and ?sig = "Some (choice_signature n q c)"
  have k: "0 < ?k" using False by simp
  have sig: "Some (pick_signature (n, q, c)) = ?sig" by (simp add: choice_signature_def)
  show ?thesis
  proof (cases "h = []")
    case True
    have "recent d [(n, q, c)] = [(n, q, c)]" using k by (simp add: recent_def)
    then show ?thesis using False True k sig by (auto simp: append_window_def win_of_def Let_def)
  next
    case h: False
    have len: "length (win_of d h) = ?k" using False h by (auto simp: win_of_def recent_def)
    then have ne: "win_of d h \<noteq> []" using k by auto
    have "append_window d (win_of d h) n q c = drop 1 (win_of d h) @ [?sig]"
      using False ne len k by (simp add: append_window_def Let_def)
    moreover have "drop 1 (win_of d h) @ [?sig] = win_of d (h @ [(n, q, c)])"
    proof (cases "length h < ?k")
      case True
      have "drop 1 (replicate (?k - length h) None @ xs) = replicate (?k - Suc (length h)) None @ xs" for xs :: window
        using Suc_diff_Suc [OF True] by (metis append_Cons drop0 drop_Suc_Cons One_nat_def replicate_Suc)
      moreover have "recent d h = h" "recent d (h @ [(n, q, c)]) = h @ [(n, q, c)]" using True by (simp_all add: recent_def)
      ultimately show ?thesis using False h sig unfolding win_of_def by simp
    next
      case long: False
      have "Suc (length h) - ?k = Suc (length h - ?k)" using long by simp
      then have "recent d (h @ [(n, q, c)]) = drop 1 (recent d h) @ [(n, q, c)]"
        using long k by (simp add: recent_def)
      then show ?thesis using False h sig long by (simp add: win_of_def drop_map)
    qed
    ultimately show ?thesis by simp
  qed
qed

lemma pick_cost_query: "query_cost d (win_of d h) c = pick_cost d h (n, q, c)"
  by (simp add: query_cost_def choice_base_cost_def window_signatures_win split: option.splits)

lemma run_picks_eq:
  "run_picks d (base, win_of d h, seq) ps =
     (base + picks_cost d h ps, win_of d (h @ ps), seq @ map snd ps)"
proof (induction ps arbitrary: base h seq)
  case (Cons p ps)
  obtain n q c where p: "p = (n, q, c)" by (cases p)
  show ?case using Cons.IH [of "base + pick_cost d h p" "h @ [p]"]
    by (simp add: p extend_plan_def append_win pick_cost_query [of d h c n q] add.assoc del: pick_cost.simps)
qed simp

lemma plan_options:
  assumes "map_of (dp_nodes d) n = Some nd"
  shows "query_plan_options d nd (win_of d h) =
    map (\<lambda>ps. (picks_cost d h ps, win_of d (h @ ps), map snd ps)) (node_picks d n)"
  unfolding query_plan_options_def plan_options_fold using assms
  by (simp add: run_picks_eq node_picks_def node_of_def)

lemma first_least_ok:
  assumes "xs \<noteq> []"
  shows "first_least f xs \<in> set xs" and "\<And>y. y \<in> set xs \<Longrightarrow> f (first_least f xs) \<le> f y"
    and "filter (\<lambda>x. \<forall>y \<in> set xs. f x \<le> f y) xs \<noteq> []"
proof -
  have "Min (f ` set xs) \<in> f ` set xs" by (rule Min_in) (use assms in auto)
  then obtain m where "m \<in> set xs" "f m = Min (f ` set xs)" by auto
  then have "m \<in> set (filter (\<lambda>x. \<forall>y \<in> set xs. f x \<le> f y) xs)" by auto
  then show ne: "filter (\<lambda>x. \<forall>y \<in> set xs. f x \<le> f y) xs \<noteq> []" by (metis empty_iff empty_set)
  have "first_least f xs \<in> set (filter (\<lambda>x. \<forall>y \<in> set xs. f x \<le> f y) xs)"
    unfolding first_least_def by (rule hd_in_set [OF ne])
  then show "first_least f xs \<in> set xs" "\<And>y. y \<in> set xs \<Longrightarrow> f (first_least f xs) \<le> f y" by auto
qed

lemma first_least_snoc:
  assumes "xs \<noteq> []"
  shows "first_least f (xs @ [x]) = (if f x < f (first_least f xs) then x else first_least f xs)"
proof (cases "f x < f (first_least f xs)")
  case True
  have "filter (\<lambda>y. \<forall>z \<in> set (xs @ [x]). f y \<le> f z) xs = []"
    using first_least_ok(2) [OF assms, of _ f] True by (fastforce simp: filter_empty_conv)
  moreover have "\<forall>z \<in> set (xs @ [x]). f x \<le> f z" using first_least_ok(2) [OF assms, of _ f] True by fastforce
  ultimately show ?thesis using True by (simp add: first_least_def)
next
  case False
  have eq: "filter (\<lambda>y. \<forall>z \<in> set (xs @ [x]). f y \<le> f z) xs = filter (\<lambda>y. \<forall>z \<in> set xs. f y \<le> f z) xs"
  proof (rule filter_cong [OF refl])
    fix y assume "y \<in> set xs"
    have "f y \<le> f x" if "\<forall>z \<in> set xs. f y \<le> f z"
      using that first_least_ok(1) [OF assms, of f] False by fastforce
    then show "(\<forall>z \<in> set (xs @ [x]). f y \<le> f z) = (\<forall>z \<in> set xs. f y \<le> f z)" by auto
  qed
  show ?thesis using False first_least_ok(3) [OF assms, of f] unfolding first_least_def filter_append eq by simp
qed

lemma cheapest_first_least:
  assumes "xs \<noteq> []"
  shows "cheapest (map (\<lambda>x. (f x, g x)) xs) = Some (f (first_least f xs), g (first_least f xs))"
  using assms
proof (induction xs rule: rev_induct)
  case (snoc x xs)
  show ?case
  proof (cases "xs = []")
    case True
    then show ?thesis by (simp add: cheapest_def first_least_def)
  next
    case False
    have fold: "foldl (\<lambda>best opt. case best of None \<Rightarrow> Some opt | Some b \<Rightarrow> if fst opt < fst b then Some opt else best) None
        (map (\<lambda>x. (f x, g x)) xs) = Some (f (first_least f xs), g (first_least f xs))"
      using snoc.IH [OF False] unfolding cheapest_def .
    show ?thesis unfolding cheapest_def map_append foldl_append fold first_least_snoc [OF False] by simp
  qed
qed simp

lemma query_picks_nonempty: "query_picks d n qs \<noteq> []"
proof (induction qs)
  case (Cons q qs)
  have "offered d n (q_name q) \<noteq> []" using choices_nonempty [of d n "q_name q"] by (simp add: choices_offered)
  with Cons show ?case by (cases "offered d n (q_name q)") auto
qed simp

section \<open>The code's CPU load\<close>

abbreviation keyed :: "pick list \<Rightarrow> ((string \<times> string) \<times> plan_choice) list" where
  "keyed ps \<equiv> map (\<lambda>(n, q, c). ((n, q), c)) ps"

lemma add_plans_append: "add_plans ps (xs @ ys) = add_plans (add_plans ps xs) ys"
  by (simp add: add_plans_def)

lemma add_plans_nil [simp]: "add_plans ps [] = ps"
  by (simp add: add_plans_def)

lemma map_of_add_plans: "map_of (add_plans ps new) = map_of ps ++ map_of (rev new)"
  by (rule ext) (simp add: add_plans_def map_of_foldl_update map_add_def)

lemma query_picks_nodes: "ps \<in> set (query_picks d n qs) \<Longrightarrow> map (\<lambda>(q, c). ((n, q), c)) (map snd ps) = keyed ps"
proof (induction qs arbitrary: ps)
  case (Cons q qs)
  then obtain c ps' where "ps = (n, q_name q, c) # ps'" "ps' \<in> set (query_picks d n qs)" by auto
  with Cons.IH show ?case by simp
qed simp

lemma node_picks_keyed:
  "ps \<in> set (node_picks d n) \<Longrightarrow> map_of (dp_nodes d) n = Some nd \<Longrightarrow>
     map (\<lambda>(q, c). ((nd_id nd, q), c)) (map snd ps) = keyed ps"
  unfolding node_picks_def node_of_def by (drule query_picks_nodes) simp

lemma picks_cost_append: "picks_cost d h (xs @ ys) = picks_cost d h xs + picks_cost d (h @ xs) ys"
  by (induction xs arbitrary: h) simp_all

lemma cpu_load_step_eq:
  assumes "map_of (dp_nodes d) n = Some nd"
  shows "cpu_load_step d n (load, plans, win_of d h) =
    (if nd_engine nd = Some ''http'' then Inr (load + http_sleep_cost d nd, plans, win_of d h)
     else let best = first_least (picks_cost d h) (node_picks d n)
       in Inr (load + picks_cost d h best, add_plans plans (keyed best), win_of d (h @ best)))"
proof (cases "nd_engine nd = Some ''http''")
  case True
  then show ?thesis using assms by (simp add: cpu_load_step_def dict_index_def)
next
  case engine: False
  have nd: "node_of d n = nd" using assms by (simp add: node_of_def)
  show ?thesis
  proof (cases "nd_queries nd = []")
    case True
    then show ?thesis using assms engine
      by (simp add: cpu_load_step_def dict_index_def node_picks_def nd first_least_def)
  next
    case False
    let ?best = "first_least (picks_cost d h) (node_picks d n)"
    have ne: "node_picks d n \<noteq> []" by (simp add: node_picks_def query_picks_nonempty)
    have best: "cheapest (query_plan_options d nd (win_of d h)) =
        Some (picks_cost d h ?best, win_of d (h @ ?best), map snd ?best)"
      unfolding plan_options [OF assms] by (rule cheapest_first_least [OF ne])
    have "map (\<lambda>(q, ch). ((nd_id nd, q), ch)) (map snd ?best) = keyed ?best"
      by (rule node_picks_keyed [OF first_least_ok(1) [OF ne] assms])
    then show ?thesis using assms engine False by (simp add: cpu_load_step_def dict_index_def best Let_def del: map_map)
  qed
qed

lemma cpu_load_fold:
  assumes "\<forall>n \<in> set ns. map_of (dp_nodes d) n \<noteq> None"
  shows "\<exists>win. efold (cpu_load_step d) ns (load, plans, win_of d h) =
    Inr (load + fst (cpu_load d h ns), add_plans plans (keyed (snd (cpu_load d h ns))), win)"
  using assms
proof (induction ns arbitrary: load plans h)
  case (Cons n ns)
  obtain nd where nd: "map_of (dp_nodes d) n = Some nd" using Cons.prems by auto
  have node: "node_of d n = nd" using nd by (simp add: node_of_def)
  have rest: "\<forall>n \<in> set ns. map_of (dp_nodes d) n \<noteq> None" using Cons.prems by simp
  show ?case
  proof (cases "nd_engine nd = Some ''http''")
    case True
    then show ?thesis using Cons.IH [OF rest, of "load + http_sleep_cost d nd" plans h]
      by (simp add: cpu_load_step_eq [OF nd] node case_prod_unfold Let_def add.assoc)
  next
    case False
    let ?best = "first_least (picks_cost d h) (node_picks d n)"
    show ?thesis using Cons.IH [OF rest, of "load + picks_cost d h ?best" "add_plans plans (keyed ?best)" "h @ ?best"] False
      by (simp add: cpu_load_step_eq [OF nd] node case_prod_unfold Let_def add.assoc add_plans_append)
  qed
qed simp

lemma apply_cpu_load_eq:
  assumes "\<forall>n \<in> set ns. map_of (dp_nodes d) n \<noteq> None"
  shows "apply_cpu_load d ns (win_of d h) = Inr (fst (cpu_load d h ns), add_plans [] (keyed (snd (cpu_load d h ns))))"
  using cpu_load_fold [OF assms, of 0 "[]" h] by (auto simp: apply_cpu_load_def)

section \<open>The outcomes of an assignment\<close>

lemma execute_node_eq:
  assumes "dp_ready d" and "n \<in> set (dp_node_ids d)" and "is_gpu_node d n" and "ws_idx st < length (dp_worker_ids d)"
  shows "execute_node d n st (win_of d h) = Inr (map (\<lambda>ps.
    (gpu_run_cost d n st, picks_cost d h ps, after_run d n st, keyed ps, win_of d (h @ ps))) (node_picks d n))"
proof -
  obtain nd where nd: "map_of (dp_nodes d) n = Some nd" using dp_readyD(5) [OF assms(1,2)] by blast
  have node: "node_of d n = nd" using nd by (simp add: node_of_def)
  obtain w where w: "map_of (dp_workers d) (dp_worker_ids d ! ws_idx st) = Some w"
    using dp_readyD(9) [OF assms(1)] assms(4) nth_mem by blast
  obtain exec init where cost: "dp_exec_cost d nd w = Inr exec"
    "dp_model_init_cost d nd (from_id (model_names d) (ws_model st)) = Inr init"
    using dp_readyD(10,11) [OF assms(1,2) nd] by metis
  have keyed: "map (\<lambda>(k, win', seq). (c, k, s, map (\<lambda>(q, ch). ((nd_id nd, q), ch)) seq, win')) (query_plan_options d nd (win_of d h)) =
      map (\<lambda>ps. (c, picks_cost d h ps, s, keyed ps, win_of d (h @ ps))) (node_picks d n)" for c :: cost and s :: worker_state
    unfolding plan_options [OF nd] map_map [of _ "\<lambda>ps. (picks_cost d h ps, win_of d (h @ ps), map snd ps)"]
    using node_picks_keyed [OF _ nd] by (intro map_cong refl) (simp del: map_map)
  have "nd_queries nd = [] \<Longrightarrow> node_picks d n = [[]]" by (simp add: node_picks_def node)
  then show ?thesis
    using nd w cost assms(3,4)
    by (cases "nd_queries nd = []") (simp_all add: execute_node_def dict_index_def nth_result_def Let_def gpu_run_cost_def
      after_run_def node keyed del: map_map)
qed

lemma map_of_zip_update:
  assumes "distinct ks" and "length vs = length ks" and "i < length ks"
  shows "map_of (zip ks (vs[i := x])) = (map_of (zip ks vs))(ks ! i \<mapsto> x)"
proof
  fix k
  show "map_of (zip ks (vs[i := x])) k = ((map_of (zip ks vs))(ks ! i \<mapsto> x)) k"
  proof (cases "k \<in> set ks")
    case True
    then obtain j where j: "j < length ks" "ks ! j = k" by (meson in_set_conv_nth)
    have "ks ! i = k \<longleftrightarrow> i = j" using assms(1,3) j nth_eq_iff_index_eq by blast
    then show ?thesis using map_of_zip_nth [of ks "vs[i := x]" j] map_of_zip_nth [of ks vs j] assms j by auto
  next
    case False
    then have "map_of (zip ks us) k = None" for us :: "'b list" by (auto simp: map_of_eq_None_iff dest: set_zip_leftD)
    then show ?thesis using False assms(3) by auto
  qed
qed

lemma states_after_update:
  assumes "distinct (dp_worker_ids d)" and "length states = length (dp_worker_ids d)" and "i < length (dp_worker_ids d)"
    and "dp_worker_ids d ! i \<notin> fst ` set a"
  shows "states_after d (states[i := after_run d n (states ! i)]) a = states_after d states ((dp_worker_ids d ! i, n) # a)"
proof (rule nth_equalityI)
  fix j assume "j < length (states_after d (states[i := after_run d n (states ! i)]) a)"
  then have j: "j < length (dp_worker_ids d)" using assms(2) by (simp add: states_after_def)
  have none: "map_of a (dp_worker_ids d ! i) = None" using assms(4) by (simp add: map_of_eq_None_iff)
  show "states_after d (states[i := after_run d n (states ! i)]) a ! j = states_after d states ((dp_worker_ids d ! i, n) # a) ! j"
    using j assms(1-3) none nth_eq_iff_index_eq [OF assms(1) j assms(3)] by (cases "i = j") (auto simp: states_after_def)
qed (simp add: states_after_def assms(2))

lemma worker_cost_update:
  assumes "distinct (dp_worker_ids d)" and "length states = length (dp_worker_ids d)" and "i < length (dp_worker_ids d)"
    and "dp_worker_ids d ! i \<notin> fst ` set a" and "w \<in> set (dp_worker_ids d)"
  shows "worker_cost d states ((dp_worker_ids d ! i, n) # a) w =
    (if w = dp_worker_ids d ! i then gpu_run_cost d n (states ! i) else 0) + worker_cost d (states[i := x]) a w"
proof -
  have none: "map_of a (dp_worker_ids d ! i) = None" using assms(4) by (simp add: map_of_eq_None_iff)
  show ?thesis
    using map_of_zip_nth [OF assms(2) [symmetric] assms(1)] assms(2,3) none
    by (cases "w = dp_worker_ids d ! i") (simp_all add: worker_cost_def map_of_zip_update [OF assms(1-3)] split: option.split)
qed

definition outcome_of ::
  "dp \<Rightarrow> worker_state list \<Rightarrow> (string \<Rightarrow> cost) \<Rightarrow> (string \<times> string, plan_choice) dict \<Rightarrow> cost \<Rightarrow> pick list
     \<Rightarrow> (string \<times> string) list \<Rightarrow> pick list \<Rightarrow> string list \<Rightarrow> outcome" where
  "outcome_of d states spent plans load h a ps cpus =
     (let gcs = map (\<lambda>w. spent w + worker_cost d states a w) (dp_gpu_worker_ids d)
      in (gpu_cost_max gcs, sum_list gcs, load + picks_cost d h ps + fst (cpu_load d (h @ ps) cpus), states_after d states a,
          add_plans (add_plans plans (keyed ps)) (add_plans [] (keyed (snd (cpu_load d (h @ ps) cpus))))))"

definition outcomes_are :: "outcome list \<Rightarrow> (pick list list \<Rightarrow> bool) \<Rightarrow> (pick list \<Rightarrow> outcome) \<Rightarrow> bool" where
  "outcomes_are outs P f \<longleftrightarrow> (\<forall>out. out \<in> set outs \<longleftrightarrow> (\<exists>pss. P pss \<and> out = f (concat pss)))"

abbreviation picks_for :: "dp \<Rightarrow> string list \<Rightarrow> pick list list \<Rightarrow> bool" where
  "picks_for d ns \<equiv> list_all2 (\<lambda>n ps. ps \<in> set (node_picks d n)) ns"

abbreviation spent_of :: "dp \<Rightarrow> cost list \<Rightarrow> string \<Rightarrow> cost" where
  "spent_of d costs w \<equiv> costs ! the (map_of (worker_index d) w)"

lemma worker_index_nth:
  assumes "dp_ready d" and "w \<in> set (dp_gpu_worker_ids d)"
  obtains i where "i < length (dp_worker_ids d)" and "map_of (worker_index d) w = Some i" and "dp_worker_ids d ! i = w"
proof -
  have dist: "distinct (dp_worker_ids d)" by (rule dp_readyD(7) [OF assms(1)])
  from dp_readyD(8) [OF assms] obtain i where i: "i < length (dp_worker_ids d)" "dp_worker_ids d ! i = w" by (meson in_set_conv_nth)
  then have "map_of (worker_index d) w = Some i"
    using map_of_zip_nth [of "dp_worker_ids d" "[0..<length (dp_worker_ids d)]" i] dist
    by (simp add: worker_index_def dict_of_distinct_id)
  with i that show thesis by blast
qed

lemma outcome_dfs_nil:
  assumes "dp_ready d" and "set cpus \<subseteq> set (dp_node_ids d)" and "length costs = length (dp_worker_ids d)" and "states_ok d states"
  shows "outcome_dfs d cpus [] states costs plans load (win_of d h) =
    Inr [outcome_of d states (spent_of d costs) plans load h [] [] cpus]"
proof -
  have nodes: "\<forall>n \<in> set cpus. map_of (dp_nodes d) n \<noteq> None" using dp_readyD(5) [OF assms(1)] assms(2) by fastforce
  have gcs: "emap (\<lambda>w. ebind (dict_index (worker_index d) w) (nth_result costs)) (dp_gpu_worker_ids d) =
      Inr (map (spent_of d costs) (dp_gpu_worker_ids d))"
  proof (rule emap_cong_Inr)
    fix w assume "w \<in> set (dp_gpu_worker_ids d)"
    then show "ebind (dict_index (worker_index d) w) (nth_result costs) = Inr (spent_of d costs w)"
      by (rule worker_index_nth [OF assms(1)]) (simp add: dict_index_def nth_result_def assms(3))
  qed
  have same: "states_after d states [] = states"
    using assms(4) by (intro nth_equalityI) (simp_all add: states_after_def states_ok_def)
  show ?thesis by (simp add: apply_cpu_load_eq [OF nodes] gcs outcome_of_def worker_cost_def same Let_def)
qed

lemma outcome_of_step:
  assumes "dp_ready d" and "w \<in> set (dp_gpu_worker_ids d)" and "w \<notin> fst ` set a"
    and "i < length (dp_worker_ids d)" and "map_of (worker_index d) w = Some i" and "dp_worker_ids d ! i = w"
    and "length states = length (dp_worker_ids d)" and "length costs = length (dp_worker_ids d)"
  shows "outcome_of d (states[i := after_run d n (states ! i)])
      (spent_of d (costs[i := costs ! i + gpu_run_cost d n (states ! i)])) (add_plans plans (keyed ps)) (load + picks_cost d h ps) (h @ ps) a qs cpus =
    outcome_of d states (spent_of d costs) plans load h ((w, n) # a) (ps @ qs) cpus"
proof -
  have dist: "distinct (dp_worker_ids d)" by (rule dp_readyD(7) [OF assms(1)])
  have cost: "spent_of d (costs[i := costs ! i + gpu_run_cost d n (states ! i)]) v +
        worker_cost d (states[i := after_run d n (states ! i)]) a v =
      spent_of d costs v + worker_cost d states ((w, n) # a) v" if v: "v \<in> set (dp_gpu_worker_ids d)" for v
  proof -
    obtain j where j: "j < length (dp_worker_ids d)" "map_of (worker_index d) v = Some j" "dp_worker_ids d ! j = v"
      by (rule worker_index_nth [OF assms(1) v])
    have "i = j \<longleftrightarrow> v = w" using nth_eq_iff_index_eq [OF dist assms(4) j(1)] assms(6) j(3) by auto
    then show ?thesis
      using worker_cost_update [OF dist assms(7,4), of a v n "after_run d n (states ! i)"] assms(3,4,6,8) dp_readyD(8) [OF assms(1) v] j(2)
      by auto
  qed
  then have "map (\<lambda>v. spent_of d (costs[i := costs ! i + gpu_run_cost d n (states ! i)]) v +
        worker_cost d (states[i := after_run d n (states ! i)]) a v) (dp_gpu_worker_ids d) =
      map (\<lambda>v. spent_of d costs v + worker_cost d states ((w, n) # a) v) (dp_gpu_worker_ids d)"
    by (intro map_cong refl)
  moreover have "states_after d (states[i := after_run d n (states ! i)]) a = states_after d states ((w, n) # a)"
    using states_after_update [OF dist assms(7,4), of a n] assms(3,6) by simp
  ultimately show ?thesis
    unfolding outcome_of_def Let_def by (simp add: picks_cost_append add_plans_append add.assoc del: map_eq_conv)
qed

lemma emap_map: "emap f (map g xs) = emap (\<lambda>x. f (g x)) xs"
  by (induction xs) simp_all

lemma picks_for_Cons:
  "(\<exists>pss. picks_for d (n # ns) pss \<and> P pss) \<longleftrightarrow> (\<exists>ps \<in> set (node_picks d n). \<exists>pss. picks_for d ns pss \<and> P (ps # pss))"
  by (auto simp: list_all2_Cons1)

lemma outcome_dfs_eq:
  assumes "dp_ready d" and "set cpus \<subseteq> set (dp_node_ids d)"
    and "\<forall>(w, n) \<in> set a. w \<in> set (dp_gpu_worker_ids d) \<and> n \<in> set (dp_node_ids d) \<and> is_gpu_node d n"
    and "distinct (map fst a)" and "states_ok d states" and "length costs = length (dp_worker_ids d)"
  shows "\<exists>outs. outcome_dfs d cpus a states costs plans load (win_of d h) = Inr outs \<and>
    outcomes_are outs (picks_for d (map snd a)) (\<lambda>ps. outcome_of d states (spent_of d costs) plans load h a ps cpus)"
  using assms(3-)
proof (induction a arbitrary: states costs plans load h)
  case Nil
  then have "outcome_dfs d cpus [] states costs plans load (win_of d h) =
      Inr [outcome_of d states (spent_of d costs) plans load h [] [] cpus]" by (intro outcome_dfs_nil assms(1,2))
  then show ?case by (simp add: outcomes_are_def del: outcome_dfs.simps split_paired_All)
next
  case (Cons wn a)
  obtain w n where wn: "wn = (w, n)" by fastforce
  have w: "w \<in> set (dp_gpu_worker_ids d)" and n: "n \<in> set (dp_node_ids d)" "is_gpu_node d n" and fresh: "w \<notin> fst ` set a"
    using Cons.prems(1,2) by (auto simp: wn)
  obtain i where i: "i < length (dp_worker_ids d)" "map_of (worker_index d) w = Some i" "dp_worker_ids d ! i = w"
    by (rule worker_index_nth [OF assms(1) w])
  have len: "length states = length (dp_worker_ids d)" and idx: "ws_idx (states ! i) < length (dp_worker_ids d)"
    using Cons.prems(3) i(1) by (auto simp: states_ok_def)
  let ?sts = "states[i := after_run d n (states ! i)]" and ?costs = "costs[i := costs ! i + gpu_run_cost d n (states ! i)]"
  let ?rec = "\<lambda>ps. outcome_dfs d cpus a ?sts ?costs (add_plans plans (keyed ps)) (load + picks_cost d h ps) (win_of d (h @ ps))"
  let ?out = "\<lambda>ps. outcome_of d states (spent_of d costs) plans load h (wn # a) ps cpus"
  have "ws_idx (after_run d n (states ! i)) = ws_idx (states ! i)" by (simp add: after_run_def)
  then have ok: "states_ok d ?sts" using Cons.prems(3) idx set_update_subset_insert [of states i "after_run d n (states ! i)"]
    by (auto simp: states_ok_def)
  have rec: "\<exists>outs. ?rec ps = Inr outs \<and> outcomes_are outs (picks_for d (map snd a)) (\<lambda>qs. ?out (ps @ qs))" for ps
    using Cons.IH [OF _ _ ok, of ?costs "add_plans plans (keyed ps)" "load + picks_cost d h ps" "h @ ps"] Cons.prems(1,2,4)
    unfolding wn outcome_of_step [OF assms(1) w fresh i len Cons.prems(4)] by simp
  obtain f where f: "\<And>ps. ?rec ps = Inr (f ps)"
    and outs: "\<And>ps. outcomes_are (f ps) (picks_for d (map snd a)) (\<lambda>qs. ?out (ps @ qs))"
    using rec by metis
  have run: "outcome_dfs d cpus (wn # a) states costs plans load (win_of d h) = Inr (concat (map f (node_picks d n)))"
    using i(1,2) len unfolding wn
    by (simp add: dict_index_def nth_result_def execute_node_eq [OF assms(1) n idx] emap_map f)
  have "outcomes_are (concat (map f (node_picks d n))) (picks_for d (map snd (wn # a))) ?out"
    unfolding outcomes_are_def
  proof
    fix out
    have "out \<in> set (concat (map f (node_picks d n))) \<longleftrightarrow>
        (\<exists>ps \<in> set (node_picks d n). \<exists>pss. picks_for d (map snd a) pss \<and> out = ?out (ps @ concat pss))"
      using outs unfolding outcomes_are_def by (simp del: split_paired_All)
    also have "\<dots> \<longleftrightarrow> (\<exists>pss. picks_for d (map snd (wn # a)) pss \<and> out = ?out (concat pss))"
      unfolding wn by (simp add: picks_for_Cons)
    finally show "out \<in> set (concat (map f (node_picks d n))) \<longleftrightarrow>
        (\<exists>pss. picks_for d (map snd (wn # a)) pss \<and> out = ?out (concat pss))" .
  qed
  with run show ?case by blast
qed

lemma gpu_cost_max_Max: "gpu_cost_max cs = (if cs = [] then 0 else Max (set cs))"
proof (cases cs)
  case (Cons c cs')
  have "foldl max c cs' = Max (set (c # cs'))" for c :: cost and cs'
  proof (induction cs' arbitrary: c)
    case (Cons x xs)
    have "max c x = x \<and> c \<le> x \<or> max c x = c \<and> x \<le> c" by linarith
    then have "Max (insert c (insert x (set xs))) = Max (insert (max c x) (set xs))"
      by (cases "xs = []") (auto simp: max.assoc)
    then show ?case using Cons.IH [of "max c x"] by simp
  qed simp
  then show ?thesis by (simp add: Cons gpu_cost_max_def)
qed (simp add: gpu_cost_max_def)

text \<open>The outcomes of an assignment of the epoch: one for every choice of query plans.\<close>

lemma assignment_outcomes_eq:
  assumes "dp_ready d" and "set cpus \<subseteq> set (dp_node_ids d)" and "gpu_assignment d gpus a"
    and "set gpus \<subseteq> {n \<in> set (dp_node_ids d). is_gpu_node d n}" and "states_ok d states"
  shows "\<exists>outs. assignment_outcomes d a cpus states = Inr outs \<and>
    outcomes_are outs (picks_for d gpus) (\<lambda>ps. outcome_of d states (\<lambda>_. 0) [] 0 [] a ps cpus)"
proof -
  have nodes: "\<forall>(w, n) \<in> set a. w \<in> set (dp_gpu_worker_ids d) \<and> n \<in> set (dp_node_ids d) \<and> is_gpu_node d n"
  proof safe
    fix w n assume wn: "(w, n) \<in> set a"
    have "n \<in> set gpus" using wn assms(3) by (force simp: gpu_assignment_def)
    then show "n \<in> set (dp_node_ids d)" "is_gpu_node d n" using assms(4) by auto
    show "w \<in> set (dp_gpu_worker_ids d)" using wn assms(3) by (auto simp: gpu_assignment_def)
  qed
  have zero: "map (\<lambda>w. spent_of d (map (\<lambda>_. 0) (dp_worker_ids d)) w + c w) (dp_gpu_worker_ids d) = map (\<lambda>w. 0 + c w) (dp_gpu_worker_ids d)" for c
  proof (rule map_cong [OF refl])
    fix w assume "w \<in> set (dp_gpu_worker_ids d)"
    then show "spent_of d (map (\<lambda>_. 0) (dp_worker_ids d)) w + c w = 0 + c w" by (rule worker_index_nth [OF assms(1)]) simp
  qed
  have "distinct (map fst a)" "map snd a = gpus" using assms(3) by (auto simp: gpu_assignment_def)
  with outcome_dfs_eq [OF assms(1,2) nodes _ assms(5), of "map (\<lambda>_. 0) (dp_worker_ids d)" "[]" 0 "[]"] show ?thesis
    unfolding assignment_outcomes_def outcome_of_def zero by (simp add: win_of_def)
qed

lemma epoch_cost_eq:
  "epoch_cost d ep gpus depths (gpu_cost_max (map (\<lambda>w. 0 + f w) (dp_gpu_worker_ids d)))
     (sum_list (map (\<lambda>w. 0 + f w) (dp_gpu_worker_ids d))) load = plan_epoch_cost d ep gpus depths f load"
proof -
  have real_sum: "real (sum_list (map f ns)) = (\<Sum>n\<leftarrow>ns. real (f n))" for f :: "string \<Rightarrow> nat" and ns
    by (induction ns) simp_all
  have "batch_gpu_depth_penalty d gpus depths = max 0 (dp_gpu_depth_cost_weight d) * (\<Sum>n\<leftarrow>gpus. real (dict_get depths n 0))"
    by (auto simp: batch_gpu_depth_penalty_def max_def real_sum)
  moreover have "naive_cpu_cost d gpus = (\<Sum>n\<leftarrow>gpus. real (length (cpu_needed_for_gpu d [n])))"
    by (simp add: naive_cpu_cost_def real_sum)
  moreover have "early_weight d ep = (if dp_disable_cpu_load_cost d then 0
      else if 0 < dp_cpu_load_early_weight d
        then dp_cpu_load_cost_weight d * (1 + dp_cpu_load_early_weight d / (1 + real ep)) else dp_cpu_load_cost_weight d)"
    by (simp add: early_weight_def max_def add.commute)
  moreover have "gpu_cost_max (map (\<lambda>w. 0 + f w) (dp_gpu_worker_ids d)) =
      (if dp_gpu_worker_ids d = [] then 0 else Max (f ` set (dp_gpu_worker_ids d)))"
    by (simp add: gpu_cost_max_Max)
  ultimately show ?thesis unfolding epoch_cost_def plan_epoch_cost_def Let_def by simp
qed

lemma cpu_assignments_round_robin:
  "dp_cpu_worker_ids d \<noteq> [] \<Longrightarrow> cpu_assignments d cpus = round_robin (dp_cpu_worker_ids d) cpus"
  by (rule nth_equalityI) (simp_all add: cpu_assignments_def round_robin_def Let_def)

lemma gpu_assign_dfs_complete:
  assumes "map snd a = ns" and "distinct (map fst a)" and "fst ` set a \<inter> set used = {}"
    and "\<forall>(w, n) \<in> set a. w \<in> set (dp_gpu_worker_ids d) \<and> w \<in> set (dict_get (dp_node_worker_options d) n (dp_gpu_worker_ids d))"
  shows "a \<in> set (gpu_assign_dfs d ns used)"
  using assms
proof (induction ns arbitrary: a used)
  case (Cons n ns)
  obtain w a' where a: "a = (w, n) # a'" "map snd a' = ns" using Cons.prems(1) by (cases a) auto
  have "a' \<in> set (gpu_assign_dfs d ns (w # used))" by (rule Cons.IH) (use Cons.prems a in auto)
  then show ?case using Cons.prems a(1) by auto
qed simp

lemma gpu_assignments_iff: "a \<in> set (gpu_assignments d gpus) \<longleftrightarrow> gpu_assignment d gpus a"
  using gpu_assign_dfs_ok [of a d gpus "[]"] gpu_assign_dfs_complete [of a gpus "[]" d]
  by (auto simp: gpu_assignments_def gpu_assignment_def)

section \<open>Masks are sets, batches are selections\<close>

lemma is_done_mask_of: "distinct (dp_node_ids d) \<Longrightarrow> n \<in> set (dp_node_ids d) \<Longrightarrow> is_done d (mask_of d D) n \<longleftrightarrow> n \<in> D"
  unfolding mask_of_def is_done_add_nodes using bit_of_eq [of d n] by (auto simp: is_done_def)

lemma add_nodes_mask_of: "set ns \<subseteq> set (dp_node_ids d) \<Longrightarrow> add_nodes d ns (mask_of d D) = mask_of d (D \<union> set ns)"
  by (rule bit_eqI) (auto simp: mask_of_def bit_add_nodes)

lemma mask_of_empty: "mask_of d {} = 0"
  by (simp add: mask_of_def add_nodes_def)

lemma mask_of_all:
  assumes "distinct (dp_node_ids d)"
  shows "mask_of d D = all_mask d \<longleftrightarrow> set (dp_node_ids d) \<subseteq> D"
proof
  assume eq: "mask_of d D = all_mask d"
  show "set (dp_node_ids d) \<subseteq> D"
  proof
    fix n assume n: "n \<in> set (dp_node_ids d)"
    have "is_done d (mask_of d D) n" unfolding eq by (rule all_done [OF assms n])
    then show "n \<in> D" using is_done_mask_of [OF assms n] by blast
  qed
next
  assume all: "set (dp_node_ids d) \<subseteq> D"
  have "node_mask d (mask_of d D)"
    unfolding mask_of_def by (rule node_mask_add [OF assms _ node_mask_zero]) auto
  then show "mask_of d D = all_mask d"
    using node_mask_all [OF assms] is_done_mask_of [OF assms, of _ D] all by blast
qed

lemma pending_mask_of:
  "distinct (dp_node_ids d) \<Longrightarrow> pending_gpu d (mask_of d D) = filter (\<lambda>n. n \<notin> D \<and> is_gpu_node d n) (dp_node_ids d)"
  by (auto simp: pending_gpu_def is_done_mask_of intro: filter_cong)

text \<open>The batches that the search lists are the selections, in dependency order.\<close>

lemma batch_dfs_sound:
  "b \<in> set (batch_dfs d mn mx done topo sel m) \<Longrightarrow> distinct topo \<Longrightarrow>
     \<exists>S \<subseteq> set topo. b = sel @ filter (\<lambda>n. n \<in> S) topo \<and> length b \<le> mx \<and>
       (\<forall>n \<in> S. \<not> blocked (parents_mask d True n) (or done (add_nodes d (filter (\<lambda>n. n \<in> S) topo) m)))"
proof (induction d mn mx "done" topo sel m rule: batch_dfs.induct)
  case (1 d mn mx "done" sel m)
  then show ?case by (auto split: if_splits)
next
  case (2 d mn mx "done" n topo sel m)
  let ?skip = "batch_dfs d mn mx done topo sel m"
  let ?take = "batch_dfs d mn mx done topo (sel @ [n]) (set_bit (bit_of d n) m)"
  consider "b \<in> set ?skip" | "\<not> mx \<le> length sel" "\<not> blocked (parents_mask d True n) (or done m)" "b \<in> set ?take"
    using "2.prems"(1) by (auto split: if_splits)
  then show ?case
  proof cases
    case 1
    have n: "n \<notin> set topo" and dist: "distinct topo" using "2.prems"(2) by simp_all
    obtain S where S: "S \<subseteq> set topo" "b = sel @ filter (\<lambda>n. n \<in> S) topo" "length b \<le> mx"
      "\<forall>n \<in> S. \<not> blocked (parents_mask d True n) (or done (add_nodes d (filter (\<lambda>n. n \<in> S) topo) m))"
      using "2.IH"(1) [OF 1 dist] by blast
    have "n \<notin> S" using S(1) n by blast
    then show ?thesis using S by (intro exI [of _ S]) auto
  next
    case 2
    have n: "n \<notin> set topo" and dist: "distinct topo" using "2.prems"(2) by simp_all
    obtain S where S: "S \<subseteq> set topo" "b = (sel @ [n]) @ filter (\<lambda>n. n \<in> S) topo" "length b \<le> mx"
      "\<forall>k \<in> S. \<not> blocked (parents_mask d True k) (or done (add_nodes d (filter (\<lambda>n. n \<in> S) topo) (set_bit (bit_of d n) m)))"
      using "2.IH"(3) [OF 2 dist] by blast
    have flt: "filter (\<lambda>k. k \<in> insert n S) (n # topo) = n # filter (\<lambda>k. k \<in> S) topo"
      using n by (auto intro!: filter_cong)
    have add: "add_nodes d (n # xs) m = add_nodes d xs (set_bit (bit_of d n) m)" for xs by (simp add: add_nodes_def)
    have "\<not> blocked (parents_mask d True k) (or done (add_nodes d (filter (\<lambda>k. k \<in> insert n S) (n # topo)) m))" if "k \<in> insert n S" for k
    proof (cases "k = n")
      case True
      show ?thesis unfolding True
        by (rule contrapos_nn [OF 2(2)]) (erule blocked_mono, auto simp: bit_or_iff bit_add_nodes)
    next
      case False
      then show ?thesis using S(4) that unfolding flt add by blast
    qed
    moreover have "b = sel @ filter (\<lambda>k. k \<in> insert n S) (n # topo)" unfolding flt using S(2) by simp
    moreover have "insert n S \<subseteq> set (n # topo)" using S(1) by auto
    ultimately show ?thesis using S(3) by blast
  qed
qed

lemma batch_dfs_complete:
  assumes "\<And>xs n ys. topo = xs @ n # ys \<Longrightarrow> n \<in> B \<Longrightarrow>
      \<not> blocked (parents_mask d True n) (or done (add_nodes d (filter (\<lambda>n. n \<in> B) xs) m))"
    and "mn \<le> length sel + length (filter (\<lambda>n. n \<in> B) topo)" and "length sel + length (filter (\<lambda>n. n \<in> B) topo) \<le> mx"
  shows "sel @ filter (\<lambda>n. n \<in> B) topo \<in> set (batch_dfs d mn mx done topo sel m)"
  using assms
proof (induction topo arbitrary: sel m)
  case (Cons n topo)
  show ?case
  proof (cases "n \<in> B")
    case False
    have "sel @ filter (\<lambda>n. n \<in> B) topo \<in> set (batch_dfs d mn mx done topo sel m)"
    proof (rule Cons.IH)
      show "\<not> blocked (parents_mask d True p) (or done (add_nodes d (filter (\<lambda>n. n \<in> B) xs) m))" if "topo = xs @ p # ys" "p \<in> B" for xs p ys
        using Cons.prems(1) [of "n # xs" p ys] that False by simp
    qed (use Cons.prems False in auto)
    then show ?thesis using False by simp
  next
    case True
    have open_n: "\<not> blocked (parents_mask d True n) (or done m)"
      using Cons.prems(1) [of "[]" n topo] True by (simp add: add_nodes_def)
    have "(sel @ [n]) @ filter (\<lambda>n. n \<in> B) topo \<in> set (batch_dfs d mn mx done topo (sel @ [n]) (set_bit (bit_of d n) m))"
    proof (rule Cons.IH)
      show "\<not> blocked (parents_mask d True p) (or done (add_nodes d (filter (\<lambda>n. n \<in> B) xs) (set_bit (bit_of d n) m)))"
        if "topo = xs @ p # ys" "p \<in> B" for xs p ys
        using Cons.prems(1) [of "n # xs" p ys] that True by (simp add: add_nodes_def)
    qed (use Cons.prems True in auto)
    then show ?thesis using open_n Cons.prems(3) True by simp
  qed
qed simp

lemma pending_topo:
  assumes "dp_ready d"
  obtains t where "gpu_topo d (pending_gpu d done) = Inr t" and "set t = set (pending_gpu d done)" and "distinct t"
    and "in_dep_order (pend_edges d (pending_gpu d done)) t"
proof -
  let ?pend = "pending_gpu d done"
  have pend: "distinct ?pend" "set ?pend \<subseteq> set (dp_node_ids d)"
    using dp_readyD(2) [OF assms] by (auto simp: pending_gpu_def)
  have deps: "distinct (deps_of d n)" if "n \<in> set ?pend" for n
    using dp_readyD(4) [OF assms, of n] pend(2) that by blast
  from gpu_topo_order [OF pend(1) deps pend_edges_acyclic [OF dp_readyD(3) [OF assms] pend(2)]]
  obtain t where t: "gpu_topo d ?pend = Inr t" "set t = set ?pend" "length t = length ?pend" "in_dep_order (pend_edges d ?pend) t" by blast
  have "distinct t" using t(2,3) pend(1) by (metis card_distinct distinct_card)
  with t that show thesis by blast
qed

lemma enumerated_batch:
  assumes "dp_ready d" and "enumerate_gpu_batches d pruning (mask_of d D) = Inr bs" and "b \<in> set bs"
    and "gpu_topo d (pending_gpu d (mask_of d D)) = Inr t"
  shows "gpu_selection d D (set b)" and "b = filter (\<lambda>n. n \<in> set b) t"
proof -
  have ids: "distinct (dp_node_ids d)" by (rule dp_readyD(2) [OF assms(1)])
  let ?pend = "pending_gpu d (mask_of d D)"
  obtain t' where "gpu_topo d ?pend = Inr t'" "set t' = set ?pend" "distinct t'" by (rule pending_topo [OF assms(1)])
  then have t: "set t = set ?pend" "distinct t" using assms(4) by simp_all
  have pend: "set ?pend = {n \<in> set (dp_node_ids d). is_gpu_node d n \<and> n \<notin> D}"
    using pending_mask_of [OF ids, of D] by auto
  have cases: "b = [] \<or> (\<exists>mn. b \<in> set (batch_dfs d mn (min (max 1 (length (dp_gpu_worker_ids d))) (length ?pend)) (mask_of d D) t [] 0))"
    using assms(2,3) by (auto simp: enumerate_gpu_batches_def Let_def assms(4) split: if_splits)
  have "gpu_selection d D (set b) \<and> b = filter (\<lambda>n. n \<in> set b) t"
  proof (cases "b = []")
    case True
    then show ?thesis by (simp add: gpu_selection_def)
  next
    case False
    then obtain mn where "b \<in> set (batch_dfs d mn (min (max 1 (length (dp_gpu_worker_ids d))) (length ?pend)) (mask_of d D) t [] 0)"
      using cases by blast
    from batch_dfs_sound [OF this t(2)] obtain S where S: "S \<subseteq> set t" "b = filter (\<lambda>n. n \<in> S) t"
      "length b \<le> max 1 (length (dp_gpu_worker_ids d))"
      "\<forall>n \<in> S. \<not> blocked (parents_mask d True n) (or (mask_of d D) (add_nodes d b 0))" by auto
    have sb: "set b = S" using S(1,2) by auto
    have "p \<in> D \<or> p \<in> S" if "n \<in> S" "p \<in> set (deps_of d n)" "p \<in> set (dp_node_ids d)" "is_gpu_node d p" for n p
    proof -
      have "is_done d (or (mask_of d D) (add_nodes d b 0)) p" using S(4) that unfolding blocked_parents by blast
      then have "is_done d (mask_of d D) p \<or> bit_of d p \<in> bit_of d ` S" 
        by (auto simp: is_done_def bit_or_iff bit_add_nodes sb)
      then show ?thesis using is_done_mask_of [OF ids that(3)] bit_of_eq [OF ids that(3)] S(1) t(1) pend by blast
    qed
    moreover have "card S \<le> max 1 (length (dp_gpu_worker_ids d))" using S(3) sb card_length [of b] by simp
    ultimately show ?thesis using S(1,2) t(1) pend unfolding gpu_selection_def sb by blast
  qed
  then show "gpu_selection d D (set b)" and "b = filter (\<lambda>n. n \<in> set b) t" by blast+
qed

lemma selection_enumerated:
  assumes "dp_ready d" and "gpu_selection d D B" and "gpu_topo d (pending_gpu d (mask_of d D)) = Inr t"
  shows "\<exists>bs. enumerate_gpu_batches d False (mask_of d D) = Inr bs \<and> filter (\<lambda>n. n \<in> B) t \<in> set bs"
    and "set (filter (\<lambda>n. n \<in> B) t) = B"
proof -
  have ids: "distinct (dp_node_ids d)" by (rule dp_readyD(2) [OF assms(1)])
  let ?pend = "pending_gpu d (mask_of d D)" and ?b = "filter (\<lambda>n. n \<in> B) t"
  obtain t' where "gpu_topo d ?pend = Inr t'" "set t' = set ?pend" "distinct t'" "in_dep_order (pend_edges d ?pend) t'"
    by (rule pending_topo [OF assms(1)])
  then have t: "set t = set ?pend" "distinct t" "in_dep_order (pend_edges d ?pend) t" using assms(3) by simp_all
  have pend: "set ?pend = {n \<in> set (dp_node_ids d). is_gpu_node d n \<and> n \<notin> D}"
    using pending_mask_of [OF ids, of D] by auto
  have sel: "B \<subseteq> set ?pend" "card B \<le> max 1 (length (dp_gpu_worker_ids d))"
    "\<And>n p. n \<in> B \<Longrightarrow> p \<in> set (deps_of d n) \<Longrightarrow> p \<in> set (dp_node_ids d) \<Longrightarrow> is_gpu_node d p \<Longrightarrow> p \<in> D \<or> p \<in> B"
    using assms(2) unfolding gpu_selection_def pend by blast+
  show b: "set ?b = B" using sel(1) t(1) by auto
  obtain bs where bs: "enumerate_gpu_batches d False (mask_of d D) = Inr bs" "[] \<in> set bs" using enumerate_ok [OF assms(1)] by blast
  show "\<exists>bs. enumerate_gpu_batches d False (mask_of d D) = Inr bs \<and> ?b \<in> set bs"
  proof (cases "B = {}")
    case True
    then have "?b = []" by simp
    then show ?thesis using bs by simp
  next
    case False
    then have ne: "?pend \<noteq> []" using sel(1) by auto
    let ?target = "min (max 1 (length (dp_gpu_worker_ids d))) (length ?pend)"
    have "length ?b = card B" using b t(2) by (metis distinct_card distinct_filter)
    moreover have "card B \<le> length ?pend" using card_mono [OF finite_set sel(1)] card_length [of ?pend] by linarith
    moreover have "1 \<le> card B" using False b by (metis List.finite_set One_nat_def Suc_leI card_gt_0_iff)
    ultimately have len: "1 \<le> length ?b" "length ?b \<le> ?target" using sel(2) by simp_all
    have "[] @ ?b \<in> set (batch_dfs d 1 ?target (mask_of d D) t [] 0)"
    proof (rule batch_dfs_complete)
      fix xs n ys assume split: "t = xs @ n # ys" and n: "n \<in> B"
      show "\<not> blocked (parents_mask d True n) (or (mask_of d D) (add_nodes d (filter (\<lambda>n. n \<in> B) xs) 0))"
        unfolding blocked_parents
      proof
        assume "\<exists>p\<in>set (deps_of d n). p \<in> set (dp_node_ids d) \<and> (True \<longrightarrow> is_gpu_node d p) \<and>
          \<not> is_done d (or (mask_of d D) (add_nodes d (filter (\<lambda>n. n \<in> B) xs) 0)) p"
        then obtain p where p: "p \<in> set (deps_of d n)" "p \<in> set (dp_node_ids d)" "is_gpu_node d p"
          "\<not> is_done d (mask_of d D) p" "p \<notin> set (filter (\<lambda>n. n \<in> B) xs)"
          by (auto simp: is_done_def bit_or_iff bit_add_nodes)
        have pB: "p \<in> B" "p \<notin> D" using sel(3) [OF n p(1-3)] p(4) is_done_mask_of [OF ids p(2)] by blast+
        have "(p, n) \<in> set (pend_edges d ?pend)" using p(1) n pB sel(1) by (auto simp: pend_edges_def)
        then have "p \<in> set xs" using t(3) split unfolding in_dep_order_def by blast
        with pB(1) p(5) show False by simp
      qed
    qed (use len in auto)
    then have "?b \<in> set (batch_dfs d 1 ?target (mask_of d D) t [] 0)" by simp
    moreover from bs(1) ne have "bs = [] # batch_dfs d 1 ?target (mask_of d D) t [] 0"
      by (simp add: enumerate_gpu_batches_def Let_def assms(3) split: if_splits)
    ultimately show ?thesis using bs(1) by simp
  qed
qed

section \<open>The CPU nodes of an epoch are all that can run\<close>

lemma auto_cpu_batch_maximal:
  assumes "distinct (dp_node_ids d)" and "n \<in> set (dp_node_ids d)" and "\<not> is_gpu_node d n" and "\<not> is_done d done n"
    and "\<not> blocked (parents_mask d False n) (add_nodes d (auto_cpu_batch d done gpus) (add_nodes d gpus done))"
  shows "n \<in> set (auto_cpu_batch d done gpus)"
proof (rule ccontr)
  let ?pend = "filter (\<lambda>n. \<not> is_done d done n) (db_node_ids d)"
  let ?m = "add_nodes d gpus done"
  assume out: "n \<notin> set (auto_cpu_batch d done gpus)"
  have pend: "n \<in> set ?pend" using assms(2-4) by (simp add: db_node_ids_def)
  have "?pend \<noteq> []" by (rule notI) (use pend in \<open>simp only: list.set(1) empty_iff\<close>)
  then have eq: "auto_cpu_batch d done gpus = cpu_fill d ([], ?pend, ?m)" by (simp only: auto_cpu_batch_def Let_def if_False)
  have "n \<in> set (db_topo_order d)" using set_db_topo_order [OF assms(1)] assms(2,3) by (simp add: db_node_ids_def)
  then have "blocked (parents_mask d False n) (add_nodes d (cpu_fill d ([], ?pend, ?m)) ?m)"
    using cpu_fill_closed [of "([], ?pend, ?m)" "[]" ?pend d ?m] pend out unfolding eq
    by (simp add: cpu_closed_def add_nodes_def)
  then show False using assms(5) unfolding eq by blast
qed

lemma auto_cpu_batch_runnable:
  assumes "dp_ready d" and "set gpus \<subseteq> set (dp_node_ids d)"
  shows "set (auto_cpu_batch d (mask_of d D) gpus) = runnable d D (set gpus)"
proof -
  have ids: "distinct (dp_node_ids d)" by (rule dp_readyD(2) [OF assms(1)])
  let ?S = "auto_cpu_batch d (mask_of d D) gpus"
  have sub: "n \<in> set (dp_node_ids d)" "\<not> is_gpu_node d n" "n \<notin> D" if "n \<in> set ?S" for n
    using auto_cpu_batch_sub [OF ids, of "mask_of d D" gpus] that is_done_mask_of [OF ids] unfolding cpu_batch_def by blast+
  have mask: "add_nodes d ?S (add_nodes d gpus (mask_of d D)) = mask_of d (D \<union> set gpus \<union> set ?S)"
    using add_nodes_mask_of [OF assms(2), of D] add_nodes_mask_of [of ?S d "D \<union> set gpus"] sub(1) by auto
  have open_iff: "\<not> blocked (parents_mask d False n) (add_nodes d ?S (add_nodes d gpus (mask_of d D))) \<longleftrightarrow>
      (\<forall>p \<in> set (deps_of d n). p \<in> set (dp_node_ids d) \<longrightarrow> p \<in> D \<or> p \<in> set gpus \<or> p \<in> set ?S)" for n
    unfolding mask blocked_parents using is_done_mask_of [OF ids] by blast
  show ?thesis
  proof
    show "runnable d D (set gpus) \<subseteq> set ?S"
    proof
      fix n assume "n \<in> runnable d D (set gpus)"
      then show "n \<in> set ?S"
      proof (induction rule: runnable.induct)
        case (1 n)
        have "\<not> is_done d (mask_of d D) n" using is_done_mask_of [OF ids 1(1)] 1(3) by blast
        then show ?case
          by (rule auto_cpu_batch_maximal [OF ids 1(1,2)]) (use 1(4) open_iff in blast)
      qed
    qed
    show "set ?S \<subseteq> runnable d D (set gpus)"
    proof
      fix n assume nS: "n \<in> set ?S"
      have "wf (set (dep_edges d))" using finite_acyclic_wf [OF finite_set dp_readyD(3) [OF assms(1)]] .
      then show "n \<in> runnable d D (set gpus)" using nS
      proof (induction n rule: wf_induct_rule)
        case (less n)
        note nS = less.prems
        have "p \<in> D \<or> p \<in> set gpus \<or> p \<in> runnable d D (set gpus)"
          if p: "p \<in> set (deps_of d n)" "p \<in> set (dp_node_ids d)" for p
        proof -
          have "(p, n) \<in> set (dep_edges d)" using p sub(1) [OF nS] by (auto simp: dep_edges_def)
          moreover have "p \<in> D \<or> p \<in> set gpus \<or> p \<in> set ?S"
            using auto_cpu_batch_closed [OF ids nS] p unfolding open_iff by blast
          ultimately show ?thesis using less.IH by blast
        qed
        then show ?case using sub [OF nS] by (intro runnable.intros) blast+
      qed
    qed
  qed
qed

lemma listed_batch_sets:
  assumes "dp_ready d" and "gpu_selection d D B" and "listed_batch d D B = Inr (gpus, depths, cpus)"
  shows "set gpus = B" and "set cpus = runnable d D B" and "B \<subseteq> set (dp_node_ids d)"
    and "set cpus \<subseteq> set (dp_node_ids d)" and "\<And>n. n \<in> B \<Longrightarrow> is_gpu_node d n"
proof -
  have ids: "distinct (dp_node_ids d)" by (rule dp_readyD(2) [OF assms(1)])
  obtain t where t: "gpu_topo d (pending_gpu d (mask_of d D)) = Inr t" "distinct t"
    by (rule pending_topo [OF assms(1)])
  have prep: "prepare_batch d (mask_of d D) (filter (\<lambda>n. n \<in> B) t) = Inr (gpus, depths, cpus)"
    using assms(3) unfolding listed_batch_def pending_mask_of [OF ids, symmetric] t(1) by simp
  have b: "set (filter (\<lambda>n. n \<in> B) t) = B" by (rule selection_enumerated(2) [OF assms(1,2) t(1)])
  show B: "B \<subseteq> set (dp_node_ids d)" and "\<And>n. n \<in> B \<Longrightarrow> is_gpu_node d n" using assms(2) by (auto simp: gpu_selection_def)
  have "gpu_batch d (mask_of d D) (filter (\<lambda>n. n \<in> B) t)"
    unfolding gpu_batch_def b pending_mask_of [OF ids] using t(2) assms(2) by (auto simp: gpu_selection_def)
  note ok = prepare_batch_ok [OF ids this prep]
  show g: "set gpus = B" using ok(3) b by simp
  show c: "set cpus = runnable d D B" using ok(4) auto_cpu_batch_runnable [OF assms(1), of gpus D] B g by simp
  show "set cpus \<subseteq> set (dp_node_ids d)" unfolding c by (auto elim: runnable.cases)
qed

lemma states_after_ok: "states_ok d states \<Longrightarrow> states_ok d (states_after d states a)"
  by (auto simp: states_ok_def states_after_def after_run_def split: option.splits dest: set_zip_rightD)

section \<open>Epochs of the code and epochs of a plan\<close>

text \<open>The conditions under which a plan may open with an epoch, as in \<open>plan_step\<close>.\<close>

definition plan_epoch_ok ::
  "dp \<Rightarrow> string set \<Rightarrow> string set \<Rightarrow> string list \<Rightarrow> (string, nat) dict \<Rightarrow> string list \<Rightarrow> (string \<times> string) list \<Rightarrow> pick list list \<Rightarrow> bool" where
  "plan_epoch_ok d D B gpus depths cpus a pss \<longleftrightarrow>
     gpu_selection d D B \<and> listed_batch d D B = Inr (gpus, depths, cpus) \<and> set gpus = B \<and> set cpus = runnable d D B \<and>
     gpus @ cpus \<noteq> [] \<and>
     (\<forall>n \<in> B. \<forall>p \<in> set (deps_of d n). p \<in> set (dp_node_ids d) \<longrightarrow> p \<in> D \<or> p \<in> B \<or> p \<in> runnable d D B) \<and>
     gpu_assignment d gpus a \<and> picks_for d gpus pss"

definition epoch_of ::
  "dp \<Rightarrow> string set \<Rightarrow> worker_state list \<Rightarrow> nat \<Rightarrow> string list \<Rightarrow> (string, nat) dict \<Rightarrow> string list \<Rightarrow> (string \<times> string) list \<Rightarrow> pick list
     \<Rightarrow> cost \<times> (string \<times> string) list \<times> (string \<times> string, plan_choice) dict \<times> worker_state list \<times> int" where
  "epoch_of d D states ep gpus depths cpus a ps =
     (plan_epoch_cost d ep gpus depths (worker_cost d states a) (picks_cost d [] ps + fst (cpu_load d ps cpus)),
      a @ round_robin (dp_cpu_worker_ids d) cpus, add_plans (add_plans [] (keyed ps)) (add_plans [] (keyed (snd (cpu_load d ps cpus)))),
      states_after d states a, mask_of d (D \<union> set gpus \<union> set cpus))"

lemma batch_feasible_iff:
  assumes "dp_ready d" and "gpu_selection d D B" and "listed_batch d D B = Inr (gpus, depths, cpus)"
  shows "batch_feasible d (gpus @ cpus) (mask_of d D) \<longleftrightarrow>
    (\<forall>n \<in> B. \<forall>p \<in> set (deps_of d n). p \<in> set (dp_node_ids d) \<longrightarrow> p \<in> D \<or> p \<in> B \<or> p \<in> runnable d D B)"
proof -
  have ids: "distinct (dp_node_ids d)" by (rule dp_readyD(2) [OF assms(1)])
  note sets = listed_batch_sets [OF assms]
  have "add_nodes d (gpus @ cpus) (mask_of d D) = mask_of d (D \<union> (B \<union> runnable d D B))"
    using add_nodes_mask_of [of "gpus @ cpus" d D] sets(1-4) by auto
  then have "batch_feasible d (gpus @ cpus) (mask_of d D) \<longleftrightarrow>
      (\<forall>n \<in> B \<union> runnable d D B. \<forall>p \<in> set (deps_of d n). p \<in> set (dp_node_ids d) \<longrightarrow> p \<in> D \<or> p \<in> B \<or> p \<in> runnable d D B)"
    using sets(1,2) is_done_mask_of [OF ids] unfolding batch_feasible_def list_all_iff blocked_parents by auto
  then show ?thesis by (auto elim: runnable.cases)
qed

lemma outcome_epoch:
  assumes "dp_ready d" and "gpu_selection d D B" and "listed_batch d D B = Inr (gpus, depths, cpus)" and "gpu_assignment d gpus a"
    and "states_ok d states"
  shows "\<exists>outs. assignment_outcomes d a cpus states = Inr outs \<and>
    outcomes_are outs (picks_for d gpus) (\<lambda>ps. outcome_of d states (\<lambda>_. 0) [] 0 [] a ps cpus)"
  by (rule assignment_outcomes_eq [OF assms(1) _ assms(4) _ assms(5)]) (use listed_batch_sets [OF assms(1-3)] in auto)

lemma epoch_of_outcome:
  assumes "dp_wf d" and "set gpus \<subseteq> set (dp_node_ids d)" and "set cpus \<subseteq> set (dp_node_ids d)"
    and "outcome_of d states (\<lambda>_. 0) [] 0 [] a ps cpus = (gmax, gsum, load, next_states, plans)"
  shows "(epoch_cost d ep gpus depths gmax gsum load, a @ cpu_assignments d cpus, plans, next_states,
      add_nodes d (gpus @ cpus) (mask_of d D)) = epoch_of d D states ep gpus depths cpus a ps"
proof -
  have "dp_cpu_worker_ids d \<noteq> []" using assms(1) by (simp add: dp_wf_def)
  moreover have "add_nodes d (gpus @ cpus) (mask_of d D) = mask_of d (D \<union> set gpus \<union> set cpus)"
    using add_nodes_mask_of [of "gpus @ cpus" d D] assms(2,3) by (simp add: Un_assoc)
  ultimately show ?thesis
    using assms(4) epoch_cost_eq [of d ep gpus depths "worker_cost d states a"]
    by (auto simp: outcome_of_def epoch_of_def Let_def cpu_assignments_round_robin)
qed

lemma epoch_choice_plan:
  assumes "dp_ready d" and "states_ok d states" and "epoch_choice d pruning (mask_of d D) states ep ch"
  shows "\<exists>gpus depths cpus a pss. plan_epoch_ok d D (set gpus) gpus depths cpus a pss \<and>
    ch = epoch_of d D states ep gpus depths cpus a (concat pss)"
proof -
  have ids: "distinct (dp_node_ids d)" and wf: "dp_wf d" using dp_readyD(1,2) [OF assms(1)] by blast+
  obtain batches b gpus depths cpus a outs gmax gsum load next_states plans where
    bs: "enumerate_gpu_batches d pruning (mask_of d D) = Inr batches" "b \<in> set batches"
    and prep: "prepare_batch d (mask_of d D) b = Inr (gpus, depths, cpus)" and ne: "gpus \<noteq> [] \<or> cpus \<noteq> []"
    and feas: "batch_feasible d (gpus @ cpus) (mask_of d D)" and a: "a \<in> set (gpu_assignments d gpus)"
    and outs: "assignment_outcomes d a cpus states = Inr outs" and out: "(gmax, gsum, load, next_states, plans) \<in> set outs"
    and ch: "ch = (epoch_cost d ep gpus depths gmax gsum load, a @ cpu_assignments d cpus, plans, next_states,
        add_nodes d (gpus @ cpus) (mask_of d D))"
    using assms(3) unfolding epoch_choice_def by blast
  obtain t where t: "gpu_topo d (pending_gpu d (mask_of d D)) = Inr t" by (rule pending_topo [OF assms(1)])
  note b = enumerated_batch [OF assms(1) bs t]
  have listed: "listed_batch d D (set b) = Inr (gpus, depths, cpus)"
    unfolding listed_batch_def pending_mask_of [OF ids, symmetric] t using prep b(2) by simp
  note sets = listed_batch_sets [OF assms(1) b(1) listed]
  have asg: "gpu_assignment d gpus a" using a by (simp add: gpu_assignments_iff)
  obtain outs' where "assignment_outcomes d a cpus states = Inr outs'"
    and are: "outcomes_are outs' (picks_for d gpus) (\<lambda>ps. outcome_of d states (\<lambda>_. 0) [] 0 [] a ps cpus)"
    using outcome_epoch [OF assms(1) b(1) listed asg assms(2)] by blast
  then have "outs' = outs" using outs by simp
  then obtain pss where pss: "picks_for d gpus pss"
    and o: "outcome_of d states (\<lambda>_. 0) [] 0 [] a (concat pss) cpus = (gmax, gsum, load, next_states, plans)"
    using are out unfolding outcomes_are_def by metis
  have "plan_epoch_ok d D (set gpus) gpus depths cpus a pss"
    unfolding plan_epoch_ok_def sets(1) using b(1) listed sets(1,2) ne asg pss feas batch_feasible_iff [OF assms(1) b(1) listed] by simp
  moreover have "ch = epoch_of d D states ep gpus depths cpus a (concat pss)"
    unfolding ch by (rule epoch_of_outcome [OF wf _ sets(4) o]) (use sets(1,3) in blast)
  ultimately show ?thesis by blast
qed

lemma plan_epoch_choice:
  assumes "dp_ready d" and "states_ok d states" and "plan_epoch_ok d D B gpus depths cpus a pss"
  shows "epoch_choice d False (mask_of d D) states ep (epoch_of d D states ep gpus depths cpus a (concat pss))"
proof -
  have ids: "distinct (dp_node_ids d)" and wf: "dp_wf d" using dp_readyD(1,2) [OF assms(1)] by blast+
  have sel: "gpu_selection d D B" and listed: "listed_batch d D B = Inr (gpus, depths, cpus)" and ne: "gpus @ cpus \<noteq> []"
    and feas: "\<forall>n \<in> B. \<forall>p \<in> set (deps_of d n). p \<in> set (dp_node_ids d) \<longrightarrow> p \<in> D \<or> p \<in> B \<or> p \<in> runnable d D B"
    and asg: "gpu_assignment d gpus a" and pss: "picks_for d gpus pss"
    using assms(3) unfolding plan_epoch_ok_def by blast+
  note sets = listed_batch_sets [OF assms(1) sel listed]
  obtain t where t: "gpu_topo d (pending_gpu d (mask_of d D)) = Inr t" by (rule pending_topo [OF assms(1)])
  obtain bs where bs: "enumerate_gpu_batches d False (mask_of d D) = Inr bs" "filter (\<lambda>n. n \<in> B) t \<in> set bs"
    using selection_enumerated(1) [OF assms(1) sel t] by blast
  have prep: "prepare_batch d (mask_of d D) (filter (\<lambda>n. n \<in> B) t) = Inr (gpus, depths, cpus)"
    using listed unfolding listed_batch_def pending_mask_of [OF ids, symmetric] t by simp
  obtain outs where outs: "assignment_outcomes d a cpus states = Inr outs"
    and are: "outcomes_are outs (picks_for d gpus) (\<lambda>ps. outcome_of d states (\<lambda>_. 0) [] 0 [] a ps cpus)"
    using outcome_epoch [OF assms(1) sel listed asg assms(2)] by blast
  obtain gmax gsum load next_states plans where
    o: "outcome_of d states (\<lambda>_. 0) [] 0 [] a (concat pss) cpus = (gmax, gsum, load, next_states, plans)"
    by (metis prod.exhaust)
  have out: "(gmax, gsum, load, next_states, plans) \<in> set outs" using are pss o unfolding outcomes_are_def by metis
  have eq: "(epoch_cost d ep gpus depths gmax gsum load, a @ cpu_assignments d cpus, plans, next_states,
      add_nodes d (gpus @ cpus) (mask_of d D)) = epoch_of d D states ep gpus depths cpus a (concat pss)"
    by (rule epoch_of_outcome [OF wf _ sets(4) o]) (use sets(1,3) in blast)
  have "dp_cpu_worker_ids d \<noteq> []" using wf by (simp add: dp_wf_def)
  moreover have "a = [] \<Longrightarrow> cpus \<noteq> []" using ne asg by (auto simp: gpu_assignment_def)
  ultimately have "a \<noteq> [] \<or> cpu_assignments d cpus \<noteq> []" by (auto simp: cpu_assignments_round_robin round_robin_def)
  moreover have "gpus \<noteq> [] \<or> cpus \<noteq> []" using ne by simp
  moreover have "batch_feasible d (gpus @ cpus) (mask_of d D)" using feas batch_feasible_iff [OF assms(1) sel listed] by blast
  moreover have "a \<in> set (gpu_assignments d gpus)" using asg by (simp add: gpu_assignments_iff)
  ultimately show ?thesis unfolding epoch_choice_def eq [symmetric] using bs prep outs out by blast
qed

lemma map_of_picks:
  "map_of (add_plans sub (add_plans (add_plans [] (keyed ps)) (add_plans [] (keyed cs)))) = map_of sub ++ picked_plans (ps @ cs)"
proof -
  have dist: "distinct (map fst (add_plans xs ys))" if "distinct (map fst xs)" for xs ys
    using distinct_keys_foldl_update [OF that] by (simp add: add_plans_def)
  have rev: "map_of (rev xs) = map_of xs" if "distinct (map fst xs)" for xs :: "((string \<times> string) \<times> plan_choice) list"
    using that map_of_inject_set [of "rev xs" xs] by (simp add: rev_map [symmetric])
  show ?thesis
    by (simp add: map_of_add_plans rev dist picked_plans_def map_add_assoc)
qed

lemma dp_plan_halo:
  assumes "dp_ready d" and "dp_plan d flags done states ep sol" and "done = mask_of d D" and "states_ok d states"
  shows "halo_plan d D states ep (fst sol, fst (snd sol), map_of (snd (snd sol)))"
  using assms(2-)
proof (induction arbitrary: D rule: dp_plan.induct)
  case (plan_done states ep)
  then have "set (dp_node_ids d) \<subseteq> D" using mask_of_all [OF dp_readyD(2) [OF assms(1)], of D] by simp
  then show ?case using plan_over by simp
next
  case (plan_epoch "done" pruning states ep c assign plans next_states new_done sub)
  have ids: "distinct (dp_node_ids d)" by (rule dp_readyD(2) [OF assms(1)])
  obtain gpus depths cpus a pss where ok: "plan_epoch_ok d D (set gpus) gpus depths cpus a pss"
    and eq: "(c, assign, plans, next_states, new_done) = epoch_of d D states ep gpus depths cpus a (concat pss)"
    using epoch_choice_plan [OF assms(1) plan_epoch.prems(2) plan_epoch.hyps(3) [unfolded plan_epoch.prems(1)]] by blast
  obtain sc sched sp where sub: "sub = (sc, sched, sp)" by (cases sub)
  obtain cc cp where load: "cpu_load d (concat pss) cpus = (cc, cp)" by fastforce
  have open_d: "\<not> set (dp_node_ids d) \<subseteq> D" using plan_epoch.hyps(1) plan_epoch.prems(1) mask_of_all [OF ids, of D] by blast
  have rest: "halo_plan d (D \<union> set gpus \<union> set cpus) (states_after d states a) (ep + 1) (sc, sched, map_of sp)"
    using plan_epoch.IH [of "D \<union> set gpus \<union> set cpus"] eq states_after_ok [OF plan_epoch.prems(2), of a]
    by (simp add: sub epoch_of_def)
  note parts = ok [unfolded plan_epoch_ok_def]
  have "halo_plan d D states ep
      (plan_epoch_cost d ep gpus depths (worker_cost d states a) (picks_cost d [] (concat pss) + cc) + sc,
       map (\<lambda>(w, n). (0, w, n)) (a @ round_robin (dp_cpu_worker_ids d) cpus) @ map (\<lambda>(e, w, n). (e + 1, w, n)) sched,
       map_of sp ++ picked_plans (concat pss @ cp))"
    by (rule plan_step [OF open_d _ _ refl _ _ _ _ _ load rest]) (use parts in blast)+
  then show ?case using eq by (simp add: sub combine_def epoch_of_def load map_of_picks)
qed

lemma halo_plan_dp:
  assumes "dp_ready d" and "halo_plan d D states ep r" and "states_ok d states"
  shows "\<exists>sol. dp_plan d {False} (mask_of d D) states ep sol \<and> fst sol = fst r"
  using assms(2,3)
proof (induction rule: halo_plan.induct)
  case (plan_over D states ep)
  then have "mask_of d D = all_mask d" using mask_of_all [OF dp_readyD(2) [OF assms(1)], of D] by simp
  then show ?case using plan_done by fastforce
next
  case (plan_step D B gpus depths cpus a pss cc cp states ep c sched plans)
  have ids: "distinct (dp_node_ids d)" by (rule dp_readyD(2) [OF assms(1)])
  have ok: "plan_epoch_ok d D B gpus depths cpus a pss"
    unfolding plan_epoch_ok_def using plan_step.hyps by blast
  obtain sub where sub: "dp_plan d {False} (mask_of d (D \<union> B \<union> set cpus)) (states_after d states a) (ep + 1) sub" "fst sub = c"
    using plan_step.IH [OF states_after_ok [OF plan_step.prems]] by auto
  obtain c' assign plans' next_states new_done where
    eq: "epoch_of d D states ep gpus depths cpus a (concat pss) = (c', assign, plans', next_states, new_done)"
    by (metis prod.exhaust)
  have cost: "c' = plan_epoch_cost d ep gpus depths (worker_cost d states a) (picks_cost d [] (concat pss) + cc)"
    and nxt: "next_states = states_after d states a" "new_done = mask_of d (D \<union> B \<union> set cpus)"
    using eq plan_step.hyps(4,10) by (auto simp: epoch_of_def)
  have "mask_of d D \<noteq> all_mask d" using plan_step.hyps(1) mask_of_all [OF ids, of D] by blast
  then have "dp_plan d {False} (mask_of d D) states ep (combine c' assign plans' sub)"
    using plan_epoch_choice [OF assms(1) plan_step.prems ok, of ep] sub(1) unfolding eq nxt
    by (intro dp_plan.plan_epoch [where pruning = False]) auto
  moreover have "fst (combine c' assign plans' sub) = c' + c" using sub(2) by (cases sub) (simp add: combine_def)
  ultimately show ?case unfolding cost fst_conv by blast
qed

section \<open>What the solver returns\<close>

text \<open>
  C3: The solver is exact. With lower bounds, worker symmetry and batch shapes switched off, no plan
  is cheaper than what it returns, for a plan of the specification \<open>halo_plan\<close>, which does not use the
  loops of the code: each epoch takes any set of pending GPU nodes that is closed under their pending
  GPU parents and not larger than the number of GPU workers, assigns it by any injective map to
  allowed workers, and picks any of the offered plans for each of its queries; the CPU nodes are all
  that can then run, each with the first of its cheapest picks. The order in which the solver lists
  the nodes of a batch, and the depths it counts for them, are part of the specification.
\<close>

theorem solve_optimal:
  assumes "dp_ready d" and "states_ok d states"
    and "\<not> dp_lower_bound_pruning d" and "\<not> dp_worker_symmetry d" and "\<not> dp_batch_shape_pruning d"
    and "solve d (Some states) = Inr (c, sched, plans)" and "halo_plan d {} states 0 (c', sched', plans')"
  shows "c \<le> c'"
proof -
  obtain memo where "dp_search (2 * length (dp_node_ids d) + 2) d False True 0 states 0 (\<lambda>_. None) = Inr ((c, sched, plans), memo)"
    using assms(5,6) unfolding solve_def ebind_Inr_iff by (auto simp: option_default_def simp del: dp_search.simps)
  from dp_search_cheapest [OF assms(3,4) this memo_ok_empty] halo_plan_dp [OF assms(1,7,2)] show ?thesis
    unfolding cheapest_plan_def mask_of_empty by fastforce
qed

lemma solve_halo_plan:
  assumes "dp_ready d" and "states_ok d states" and "solve d (Some states) = Inr (c, sched, plans)"
  shows "halo_plan d {} states 0 (c, sched, map_of plans)"
proof -
  obtain memo where "dp_search (2 * length (dp_node_ids d) + 2) d (dp_batch_shape_pruning d) True 0 states 0 (\<lambda>_. None) =
      Inr ((c, sched, plans), memo)"
    using assms(3) unfolding solve_def ebind_Inr_iff by (auto simp: option_default_def simp del: dp_search.simps)
  from dp_search_plan [OF this memo_ok_empty UNIV_I UNIV_I] have "dp_plan d UNIV 0 states 0 (c, sched, plans)" by simp
  from dp_plan_halo [OF assms(1) this mask_of_empty [symmetric] assms(2)] show ?thesis by simp
qed

text \<open>
  C4: The solver refines its specification, with every setting of the pruning: what it returns is a
  plan of \<open>halo_plan\<close>. So its cost is the sum over the epochs of the opening penalty, the weighted
  maximum and sum of the times of the GPU workers, the weighted CPU load with the costs of the picked
  query plans, and the depth of the batch; its schedule lists the epochs one behind the other with
  their assignments; and its query plans are those picked, a later epoch giving way to an earlier one.
\<close>

theorem solve_refines_plan:
  assumes "dp_ready d" and "states_ok d states" and "solve d (Some states) = Inr (c, sched, plans)"
  shows "halo_plan d {} states 0 (c, sched, map_of plans)"
  by (rule solve_halo_plan [OF assms])

theorem solve_optimal_witness:
  "\<exists>sched plans. halo_plan example_dp {} (initial_states example_dp) 0 (9, sched, plans) \<and> (9 :: real) \<le> 9"
proof -
  obtain plans where s: "solve example_dp (Some (initial_states example_dp)) =
      Inr (9, [(0, ''g0'', ''a''), (0, ''c0'', ''q''), (1, ''g0'', ''b'')], plans)" by (rule example_solution_initial)
  note plan = solve_halo_plan [OF example_ready initial_states_ok [OF example_ready] s]
  have "(9 :: real) \<le> 9"
    by (rule solve_optimal [OF example_ready initial_states_ok [OF example_ready] _ _ _ s plan]) (simp_all add: example_costs)
  with plan show ?thesis by blast
qed

theorem solve_refines_plan_witness:
  "\<exists>plans. halo_plan example_dp {} (initial_states example_dp) 0
     (9, [(0, ''g0'', ''a''), (0, ''c0'', ''q''), (1, ''g0'', ''b'')], plans)"
proof -
  obtain plans where s: "solve example_dp (Some (initial_states example_dp)) =
      Inr (9, [(0, ''g0'', ''a''), (0, ''c0'', ''q''), (1, ''g0'', ''b'')], plans)" by (rule example_solution_initial)
  from solve_refines_plan [OF example_ready initial_states_ok [OF example_ready] s] show ?thesis by blast
qed

end
