(* ===== verification/HaloCosts.thy ===== *)
theory HaloCosts
  imports HaloDP RuntimeGraphs
begin

text \<open>
  The cost model of the Halo optimizer (\<open>runtime/optimizer/halo.py\<close>, \<open>multimodal_cost.py\<close>): model
  sizes read off model names, the execution cost of a node, cache and switching discounts, and the
  automatic tuning of the solver's weights from the shape of the problem. Floats are reals.
\<close>

section \<open>The optimizer's parameters\<close>

text \<open>
  The attributes of \<open>HaloOptimizer\<close> that its methods read or write; the four costs per billion
  parameters and per input that the tuning overwrites are state.
\<close>

record halo =
  hl_epoch_penalty_weight :: cost
  hl_default_model_size_b :: cost
  hl_model_init_sec_per_b :: cost
  hl_llm_base_sec_per_b :: cost
  hl_llm_input_sec :: cost
  hl_db_input_sec :: cost
  hl_embed_base_sec_per_b :: cost
  hl_embed_input_sec :: cost
  hl_vlm_base_sec_per_b :: cost
  hl_vlm_input_sec :: cost
  hl_diff_base_sec_per_b :: cost
  hl_diff_prompt_input_sec :: cost
  hl_input_query_count_default :: int
  hl_input_query_count :: int

definition new_halo :: halo where
  "new_halo =
     \<lparr>hl_epoch_penalty_weight = 1, hl_default_model_size_b = 20, hl_model_init_sec_per_b = 3/4,
      hl_llm_base_sec_per_b = 1/4, hl_llm_input_sec = 15/100, hl_db_input_sec = 5/100,
      hl_embed_base_sec_per_b = 10/100, hl_embed_input_sec = 8/100, hl_vlm_base_sec_per_b = 30/100,
      hl_vlm_input_sec = 25/100, hl_diff_base_sec_per_b = 20/100, hl_diff_prompt_input_sec = 5/100,
      hl_input_query_count_default = 1, hl_input_query_count = 1\<rparr>"

text \<open>
  The pydantic models that validate payloads belong to a library: what they return is a parameter.
  \<open>ev_vision_marker\<close> is \<open>VisionMarker.model_validate\<close> followed by reading \<open>image_embedding\<close>,
  \<open>ev_diffusion_config\<close> is \<open>DiffusionInferenceConfig.model_validate\<close>, and \<open>ev_profile_row\<close> is
  \<open>DataProfileResultRow.model_validate\<close>. \<open>ev_disable_profile\<close> is the environment's flag.
\<close>

record diffusion_config =
  df_num_inference_steps :: cost
  df_height :: cost
  df_width :: cost

definition default_diffusion_config :: diffusion_config where
  "default_diffusion_config = \<lparr>df_num_inference_steps = 30, df_height = 768, df_width = 768\<rparr>"

record cost_estimate =
  ce_plan_id :: string
  ce_description :: "string option"
  ce_raw_cost :: cost
  ce_estimated_rows :: "int option"
  ce_footprints :: "(string, int) dict"
  ce_explain_json :: pyval

record profile_row =
  pr_node_id :: string
  pr_raw_node_id :: string
  pr_query_name :: string
  pr_table :: string
  pr_cost_estimates :: "cost_estimate list"

record halo_env =
  ev_vision_marker :: "spec \<Rightarrow> spec option result"
  ev_diffusion_config :: "spec \<Rightarrow> diffusion_config result"
  ev_profile_row :: "spec \<Rightarrow> profile_row option"
  ev_disable_profile :: bool

section \<open>The size of a model\<close>

definition model_size_table :: "(string, cost) dict" where
  "model_size_table =
     [(''stabilityai/stable-diffusion-xl-base-1.0'', 35/10), (''stabilityai/stable-diffusion-3.5-medium'', 25/10),
      (''stabilityai/stable-diffusion-3.5-large'', 81/10), (''meta-llama/Llama-3.2-3B-Instruct'', 3),
      (''Tongyi-MAI/Z-Image-Turbo'', 6), (''BAAI/bge-small-en-v1.5'', 33/1000)]"

definition model_size_lookup :: "(string, cost) dict" where
  "model_size_lookup = dict_of (map (\<lambda>(k, v). (str_lower k, v)) model_size_table)"

text \<open>
  The suffix pattern \<open>.+-(\d+(?:\.\d+)?)(?:[\s_-]?)(billion|bn|b|m).*\<close>, ignoring case. After the
  dash nothing can be matched in two ways: a number that ends early is followed by a digit or a dot,
  which is neither a separator nor a unit. \<open>.+\<close> is greedy, so the last dash of a line that fits
  wins; it does not cross a newline, so the first line with a match does.
\<close>

definition digit :: "char \<Rightarrow> bool" where
  "digit c \<longleftrightarrow> c \<in> set ''0123456789''"

definition take_number :: "string \<Rightarrow> (string \<times> string) option" where
  "take_number s =
     (let i = takeWhile digit s; rest = dropWhile digit s
      in if i = [] then None
         else case rest of
           CHR ''.'' # t \<Rightarrow> (if takeWhile digit t = [] then Some (i, rest)
              else Some (i @ ''.'' @ takeWhile digit t, dropWhile digit t))
         | _ \<Rightarrow> Some (i, rest))"

definition size_units :: "string list" where
  "size_units = [''billion'', ''bn'', ''b'', ''m'']"

definition size_suffix :: "string \<Rightarrow> (string \<times> string) option" where
  "size_suffix s =
     (case take_number s of None \<Rightarrow> None
      | Some (num, rest) \<Rightarrow>
          let rest' = (case rest of c # t \<Rightarrow> if c \<in> set (whitespace @ ''_-'') then t else rest | [] \<Rightarrow> [])
          in map_option (Pair num) (find (\<lambda>u. starts_with u (str_lower rest')) size_units))"

fun find_size_suffix :: "bool \<Rightarrow> (string \<times> string) option \<Rightarrow> string \<Rightarrow> (string \<times> string) option" where
  "find_size_suffix in_line best [] = best"
| "find_size_suffix in_line best (c # s) =
     (if c = CHR 0x0A then (if best \<noteq> None then best else find_size_suffix False None s)
      else find_size_suffix True
        (if in_line \<and> c = CHR ''-'' then (case size_suffix s of None \<Rightarrow> best | Some m \<Rightarrow> Some m) else best) s)"

definition model_size_b :: "node \<Rightarrow> cost result" where
  "model_size_b nd =
     (case nd_model nd of
        None \<Rightarrow> Inl (ValueError ''Halo model size resolution requires a non-empty model name'')
      | Some m \<Rightarrow>
          let normalized = str_strip m in
          if normalized = [] then Inl (ValueError ''Halo model size resolution requires a non-empty model name'')
          else case map_of model_size_lookup (str_lower normalized) of
            Some known \<Rightarrow> Inr known
          | None \<Rightarrow>
              (case find_size_suffix False None normalized of
                 None \<Rightarrow> Inl (ValueError ''Halo model size is unknown'')
               | Some (num, u) \<Rightarrow>
                   (case py_float num of
                      None \<Rightarrow> Inl (ValueError ''Halo model size is unknown'')
                    | Some raw_size \<Rightarrow> Inr (if u = ''m'' then raw_size / 1000 else raw_size))))"

section \<open>The cost of a node\<close>

datatype node_cost_type = TEXT_INFERENCE | VISION_EMBEDDING | VISION_INFERENCE | IMAGE_GENERATION

record coefficients =
  alpha_text :: cost
  beta_text :: cost
  alpha_embed :: cost
  beta_embed :: cost
  alpha_vlm :: cost
  beta_vlm :: cost
  alpha_diff :: cost
  beta_diff :: cost

definition classify_multimodal_node :: "halo_env \<Rightarrow> node \<Rightarrow> node_cost_type result" where
  "classify_multimodal_node E nd =
     (let node_type = str_lower (str_strip (nd_type nd)) in
      if node_type = ''diffusion'' then Inr IMAGE_GENERATION
      else if node_type = ''embedding'' then Inr VISION_EMBEDDING
      else ebind (ev_vision_marker E (nd_raw nd)) (\<lambda>marker.
        Inr (if node_type = ''inference'' \<and> marker \<noteq> None then VISION_INFERENCE else TEXT_INFERENCE)))"

definition parse_diffusion_inference_config :: "halo_env \<Rightarrow> node \<Rightarrow> diffusion_config result" where
  "parse_diffusion_inference_config E nd =
     (case map_of (nd_raw nd) ''_inference_spec'' of
        Some (PDict payload) \<Rightarrow> ev_diffusion_config E payload
      | _ \<Rightarrow> Inr default_diffusion_config)"

definition compute_gpu_exec_cost :: "halo_env \<Rightarrow> node \<Rightarrow> cost \<Rightarrow> int \<Rightarrow> coefficients \<Rightarrow> cost result" where
  "compute_gpu_exec_cost E nd size_b input_query_count co =
     ebind (classify_multimodal_node E nd) (\<lambda>node_type.
       let query_count = of_int (max 1 input_query_count);
           model_size = max 0 size_b
       in case node_type of
            TEXT_INFERENCE \<Rightarrow> Inr (alpha_text co * model_size + beta_text co * query_count)
          | VISION_EMBEDDING \<Rightarrow> Inr (alpha_embed co * model_size + beta_embed co * query_count)
          | VISION_INFERENCE \<Rightarrow> Inr (alpha_vlm co * model_size + beta_vlm co * query_count)
          | IMAGE_GENERATION \<Rightarrow>
              ebind (parse_diffusion_inference_config E nd) (\<lambda>config.
                let step_scale = df_num_inference_steps config / 30;
                    pixel_scale = (df_height config * df_width config) / (768 * 768);
                    base = alpha_diff co * model_size + beta_diff co * query_count
                in Inr (base * step_scale * pixel_scale)))"

definition http_exec_cost :: "node \<Rightarrow> cost" where
  "http_exec_cost nd = scan_sleep (nd_raw nd) sleep_keys"

definition exec_cost :: "halo_env \<Rightarrow> halo \<Rightarrow> node \<Rightarrow> worker \<Rightarrow> cost result" where
  "exec_cost E h nd w =
     (if nd_engine nd = Some ''vllm'' then
        ebind (model_size_b nd) (\<lambda>size_b.
          compute_gpu_exec_cost E nd size_b (hl_input_query_count h)
            \<lparr>alpha_text = hl_llm_base_sec_per_b h, beta_text = hl_llm_input_sec h,
             alpha_embed = hl_embed_base_sec_per_b h, beta_embed = hl_embed_input_sec h,
             alpha_vlm = hl_vlm_base_sec_per_b h, beta_vlm = hl_vlm_input_sec h,
             alpha_diff = hl_diff_base_sec_per_b h, beta_diff = hl_diff_prompt_input_sec h\<rparr>)
      else if nd_engine nd = Some ''http'' then Inr (http_exec_cost nd)
      else Inr (hl_db_input_sec h * of_int (hl_input_query_count h)))"

definition footprint_overlap_with :: "(string, int) dict \<Rightarrow> (string, int) dict \<Rightarrow> int" where
  "footprint_overlap_with base sig =
     sum_list (map (\<lambda>(name, weight). case map_of base name of None \<Rightarrow> 0 | Some b \<Rightarrow> min weight b) sig)"

definition cache_multiplier :: "query_signature list \<Rightarrow> plan_choice \<Rightarrow> cost" where
  "cache_multiplier window choice =
     (let base_fp = pc_footprints choice in
      if base_fp = [] \<or> window = [] then 1
      else let overlap = sum_list (map (\<lambda>sig. footprint_overlap_with base_fp (dict_of (qs_footprints sig))) window)
        in if overlap \<le> 0 then 1 else max (1/2) (1 - of_int overlap / 100))"

definition model_init_cost :: "halo \<Rightarrow> node \<Rightarrow> string option \<Rightarrow> cost result" where
  "model_init_cost h nd last_model =
     (if nd_engine nd \<noteq> Some ''vllm'' then Inr 0
      else if last_model = Some (option_default (nd_model nd) []) then Inr 0
      else ebind (model_size_b nd) (\<lambda>size_b. Inr (hl_model_init_sec_per_b h * size_b)))"

definition llm_cache_bonus :: "node \<Rightarrow> string option \<Rightarrow> string list \<Rightarrow> cost" where
  "llm_cache_bonus nd last_node parents =
     (if parents = [] \<or> last_node = None \<or> last_node = Some [] then 1
      else if the last_node \<in> set parents then 9/10 else 1)"

definition halo_epoch_penalty :: "halo \<Rightarrow> nat \<Rightarrow> cost" where
  "halo_epoch_penalty h ep = hl_epoch_penalty_weight h * (1 + 1/10 * real (max 0 ep))"

section \<open>Automatic tuning\<close>

definition clamp :: "cost \<Rightarrow> cost \<Rightarrow> cost \<Rightarrow> cost" where
  "clamp v low high = max low (min high v)"

definition footprint_overlap :: "(string, int) dict \<Rightarrow> (string, int) dict \<Rightarrow> cost" where
  "footprint_overlap left right =
     (if left = [] \<or> right = [] then 0
      else let union = dedupe_into [] (dict_keys left @ dict_keys right);
               overlap = sum_list (map (\<lambda>k. min (dict_get left k 0) (dict_get right k 0)) union);
               total = sum_list (map (\<lambda>k. max (dict_get left k 0) (dict_get right k 0)) union)
        in if total \<le> 0 then 0 else max 0 (min 1 (of_int overlap / of_int total)))"

text \<open>All pairs of plans of one query.\<close>

fun pairs :: "'a list \<Rightarrow> ('a \<times> 'a) list" where
  "pairs [] = []"
| "pairs (x # xs) = map (Pair x) xs @ pairs xs"

definition max_overlap :: "plan_choice list \<Rightarrow> cost" where
  "max_overlap choices =
     foldl (\<lambda>best (x, y). let overlap = footprint_overlap (pc_footprints x) (pc_footprints y) in
       if best < overlap then overlap else best) 0 (pairs choices)"

definition data_profile_reuse_signal :: "(string \<times> string, plan_choice list) dict \<Rightarrow> cost" where
  "data_profile_reuse_signal plan_choices =
     (let scores = filter (\<lambda>s. 0 < s) (map max_overlap (dict_values plan_choices))
      in if scores = [] then 0 else sum_list scores / real (length scores))"

record tuning_context =
  tc_input_query_count :: int
  tc_total_nodes :: nat
  tc_gpu_nodes :: nat
  tc_db_nodes :: nat
  tc_gpu_workers :: nat
  tc_cpu_workers :: nat
  tc_unique_models :: nat
  tc_switch_pressure :: cost
  tc_dominant_model_size_b :: cost
  tc_db_query_count :: nat
  tc_plan_variants_min :: nat
  tc_plan_variants_avg :: cost
  tc_plan_variants_max :: nat
  tc_reuse_signal :: cost

definition average :: "cost list \<Rightarrow> cost \<Rightarrow> cost" where
  "average xs dflt = (if xs = [] then dflt else sum_list xs / real (length xs))"

definition build_tuning_context ::
  "halo \<Rightarrow> graph_spec \<Rightarrow> (string, worker) dict \<Rightarrow> (string \<times> string, plan_choice list) dict \<Rightarrow> tuning_context result" where
  "build_tuning_context h halo_graph workers plan_choices =
     (let nodes = dict_values (gp_nodes halo_graph);
          gpu_nodes = filter (\<lambda>nd. nd_engine nd = Some ''vllm'') nodes;
          db_nodes = filter (\<lambda>nd. nd_engine nd \<noteq> Some ''vllm'') nodes;
          gpu_workers = length (filter (\<lambda>w. wk_kind w = ''gpu'') (dict_values workers));
          cpu_workers = max 1 (length (filter (\<lambda>w. wk_kind w \<noteq> ''gpu'') (dict_values workers)));
          names = dedupe_into [] (concat (map (\<lambda>nd. case nd_model nd of None \<Rightarrow> []
            | Some m \<Rightarrow> if m = [] then [] else [str_strip m]) gpu_nodes));
          pressure = real (length names) / real (max 1 (min (length gpu_nodes) gpu_workers));
          plan_sizes = map length (dict_values plan_choices)
      in ebind (emap model_size_b gpu_nodes) (\<lambda>sizes.
         Inr \<lparr>tc_input_query_count = max 1 (hl_input_query_count h), tc_total_nodes = length nodes,
           tc_gpu_nodes = length gpu_nodes, tc_db_nodes = length db_nodes, tc_gpu_workers = max 1 gpu_workers,
           tc_cpu_workers = max 1 cpu_workers, tc_unique_models = length names, tc_switch_pressure = pressure,
           tc_dominant_model_size_b = average sizes (hl_default_model_size_b h),
           tc_db_query_count = length plan_choices,
           tc_plan_variants_min = (if plan_sizes = [] then 0 else Min (set plan_sizes)),
           tc_plan_variants_avg = average (map real plan_sizes) 0,
           tc_plan_variants_max = (if plan_sizes = [] then 0 else Max (set plan_sizes)),
           tc_reuse_signal = data_profile_reuse_signal plan_choices\<rparr>))"

record cost_model_params =
  cm_model_init_sec_per_b :: cost
  cm_llm_base_sec_per_b :: cost
  cm_llm_input_sec :: cost
  cm_db_input_sec :: cost

definition resolve_cost_model_params :: "tuning_context \<Rightarrow> cost_model_params" where
  "resolve_cost_model_params c =
     (let gpu_scale = sqrt (3 / max 1 (real (tc_gpu_workers c)));
          model_scale = clamp (tc_dominant_model_size_b c / 20) (6/10) 2;
          query_scale = clamp (log 2 (of_int (tc_input_query_count c) + 1)) 0 6;
          query_extra = max 0 (query_scale - 1);
          db_ratio = real (tc_db_nodes c) / max 1 (real (tc_total_nodes c));
          switch_extra = max 0 (tc_switch_pressure c - 1)
      in \<lparr>cm_model_init_sec_per_b = clamp (25/10 * model_scale * (1 + 35/100 * switch_extra) * gpu_scale) (15/10) 5,
          cm_llm_base_sec_per_b = clamp (25/100 * model_scale * gpu_scale) (10/100) (80/100),
          cm_llm_input_sec = clamp (15/100 * (1 + 8/100 * query_extra)) (10/100) (35/100),
          cm_db_input_sec = clamp (5/100 * (1 + 12/10 * db_ratio + 5/100 * query_extra)) (3/100) (30/100)\<rparr>)"

record dp_tuning =
  tn_window_size :: int
  tn_cpu_load_cost_weight :: cost
  tn_cpu_load_early_weight :: cost
  tn_cpu_cost_mode :: string
  tn_switch_penalty_weight :: cost
  tn_gpu_cost_max_weight :: cost
  tn_gpu_cost_sum_weight :: cost
  tn_disable_epoch_batch_cost :: bool
  tn_disable_cpu_load_cost :: bool
  tn_enable_batch_shape_pruning :: bool
  tn_gpu_batch_slack :: int
  tn_enable_lower_bound_pruning :: bool
  tn_enable_worker_symmetry :: bool
  tn_lower_bound_cost_factor :: cost
  tn_gpu_depth_cost_weight :: cost

definition resolve_dp_tuning :: "tuning_context \<Rightarrow> dp_tuning" where
  "resolve_dp_tuning c =
     (let db_ratio = real (tc_db_nodes c) / max 1 (real (tc_total_nodes c));
          reuse_strong = (25/100 \<le> tc_reuse_signal c \<and> 13/10 < tc_plan_variants_avg c)
      in \<lparr>tn_window_size = (if reuse_strong then 2 else 1),
          tn_cpu_load_cost_weight = clamp (35/100 + 90/100 * db_ratio) (25/100) (125/100),
          tn_cpu_load_early_weight = clamp (8/10 + 16/10 * db_ratio) (5/10) (25/10),
          tn_cpu_cost_mode = ''default'',
          tn_switch_penalty_weight = clamp (8/100 + 20/100 * max 0 (tc_switch_pressure c - 1)) (5/100) (30/100),
          tn_gpu_cost_max_weight = (if tc_gpu_workers c \<le> 1 then 1 else 93/100),
          tn_gpu_cost_sum_weight = (if tc_gpu_workers c \<le> 1 then 0 else 7/100),
          tn_disable_epoch_batch_cost = False, tn_disable_cpu_load_cost = False,
          tn_enable_batch_shape_pruning = True, tn_gpu_batch_slack = (if 32 < tc_total_nodes c then 0 else 1),
          tn_enable_lower_bound_pruning = True, tn_enable_worker_symmetry = True,
          tn_lower_bound_cost_factor = (if 32 < tc_total_nodes c then 25/100 else 20/100),
          tn_gpu_depth_cost_weight = clamp (5/10 + max 0 (db_ratio - 3/10)) (5/10) (16/10)\<rparr>)"

definition apply_cost_model_params :: "cost_model_params \<Rightarrow> halo \<Rightarrow> halo" where
  "apply_cost_model_params p h =
     h\<lparr>hl_model_init_sec_per_b := cm_model_init_sec_per_b p, hl_llm_base_sec_per_b := cm_llm_base_sec_per_b p,
       hl_llm_input_sec := cm_llm_input_sec p, hl_db_input_sec := cm_db_input_sec p\<rparr>"

definition resolve_and_apply_tuning ::
  "halo \<Rightarrow> graph_spec \<Rightarrow> (string, worker) dict \<Rightarrow> (string \<times> string, plan_choice list) dict \<Rightarrow> (dp_tuning \<times> halo) result" where
  "resolve_and_apply_tuning h halo_graph workers plan_choices =
     ebind (build_tuning_context h halo_graph workers plan_choices) (\<lambda>context.
       Inr (resolve_dp_tuning context, apply_cost_model_params (resolve_cost_model_params context) h))"

section \<open>Reading the data profile\<close>

text \<open>\<open>int(v)\<close> where the code expects a weight: a float is truncated, a string read in decimal.\<close>

definition read_int :: "string \<Rightarrow> int option" where
  "read_int s =
     (case read_sign (str_strip s) of (sg, t) \<Rightarrow>
        let parts = str_split CHR ''_'' t
        in if [] \<in> set parts then None else map_option (\<lambda>n. sg * int n) (read_digits (concat parts)))"

definition py_int :: "pyval \<Rightarrow> int option" where
  "py_int v =
     (case v of PInt i \<Rightarrow> Some i | PBool b \<Rightarrow> Some (if b then 1 else 0)
      | PFloat r \<Rightarrow> Some (if 0 \<le> r then \<lfloor>r\<rfloor> else \<lceil>r\<rceil>) | PStr s \<Rightarrow> read_int s | _ \<Rightarrow> None)"

definition coerce_data_profile_footprints :: "pyval \<Rightarrow> (string, int) dict" where
  "coerce_data_profile_footprints v =
     (case v of PDict d \<Rightarrow> concat (map (\<lambda>(k, raw). case py_int raw of None \<Rightarrow> []
          | Some w \<Rightarrow> if w \<le> 0 then [] else [(k, w)]) d)
      | _ \<Rightarrow> [])"

definition data_profile_key_for_node_query :: "string \<Rightarrow> string \<Rightarrow> string" where
  "data_profile_key_for_node_query node_id query_name = ''data_profile::'' @ node_id @ ''::'' @ query_name"

definition retrieval_is_data_profile_eligible :: "spec \<Rightarrow> bool" where
  "retrieval_is_data_profile_eligible data_spec =
     (let spec_type = map_of data_spec ''type'' in
      if spec_type = Some (PStr ''sql'') \<or> spec_type = Some (PStr ''s3'') then True
      else if spec_type = Some (PStr ''lumid'')
        then map_of data_spec ''mode'' \<in> {Some (PStr ''sql''), Some (PStr ''s3'')}
      else False)"

text \<open>\<open>float("inf")\<close> is what a plan without a cost scores: it sorts after every number.\<close>

definition plan_choice_score :: "plan_choice \<Rightarrow> (bool \<times> cost) \<times> string" where
  "plan_choice_score c = ((pc_raw_cost c = None, option_default (pc_raw_cost c) 0), pc_plan_id c)"

definition add_choice :: "string \<Rightarrow> nat \<times> cost_estimate \<Rightarrow> (string, plan_choice) dict \<Rightarrow> (string, plan_choice) dict" where
  "add_choice node_id ie by_plan_id =
     (case ie of (idx, est) \<Rightarrow>
        let plan_id = (if ce_plan_id est = [] then node_id @ ''-data-profile-'' @ show_nat idx else ce_plan_id est);
            description = (case ce_description est of None \<Rightarrow> ''data profile'' | Some [] \<Rightarrow> ''data profile'' | Some s \<Rightarrow> s);
            choice = \<lparr>pc_plan_id = plan_id, pc_description = description, pc_cost = None,
              pc_raw_cost = Some (ce_raw_cost est), pc_explain_json = ce_explain_json est,
              pc_footprints = coerce_data_profile_footprints (PDict (map (\<lambda>(k, w). (k, PInt w)) (ce_footprints est)))\<rparr>
        in case map_of by_plan_id plan_id of
             None \<Rightarrow> AList.update plan_id choice by_plan_id
           | Some existing \<Rightarrow>
               if plan_choice_score choice < plan_choice_score existing then AList.update plan_id choice by_plan_id
               else by_plan_id)"

definition build_data_profile_choices :: "string \<Rightarrow> cost_estimate list \<Rightarrow> plan_choice list" where
  "build_data_profile_choices node_id estimates =
     sort_key plan_choice_score (dict_values (fold (add_choice node_id) (enumerate 0 estimates) []))"

datatype raw_row = ParsedRow profile_row | RawRow spec

definition parse_data_profile_results ::
  "halo_env \<Rightarrow> (string, raw_row list) dict option \<Rightarrow> (string, profile_row list) dict result" where
  "parse_data_profile_results E results =
     (case results of None \<Rightarrow> Inr []
      | Some rs \<Rightarrow> ebind (emap (\<lambda>(key, rows). ebind (emap (\<lambda>row. case row of
            ParsedRow r \<Rightarrow> Inr r
          | RawRow sp \<Rightarrow> (case ev_profile_row E sp of None \<Rightarrow> Inl (RuntimeError ''Invalid data profile result row'')
              | Some r \<Rightarrow> Inr r)) rows) (\<lambda>rows. Inr (key, rows))) rs)
          (\<lambda>parsed. Inr (filter (\<lambda>(key, rows). rows \<noteq> []) parsed)))"

end
