(* ===== verification/HaloOptimizer.thy ===== *)
theory HaloOptimizer
  imports HaloSchedule HaloCosts
begin

text \<open>
  The optimizers a server can choose (\<open>runtime/optimizer/halo.py\<close>, \<open>topological_sort.py\<close>): from a
  runtime graph and the selected workers to an assignment of every node to a worker.
\<close>

section \<open>From the runtime graph to the solver's problem\<close>

type_synonym worker_profiles = "(string, (string, pyval) dict) dict"
type_synonym assignment = "(string, string list) dict"

definition is_gpu_backend :: "string \<Rightarrow> bool" where
  "is_gpu_backend backend \<longleftrightarrow> str_lower (str_strip backend) \<in> {''vllm'', ''transformers'', ''diffusers'', ''omni''}"

definition map_engine :: "string \<Rightarrow> string \<Rightarrow> string result" where
  "map_engine backend task_type =
     (let b = str_lower (str_strip backend) in
      if is_gpu_backend b then Inr ''vllm''
      else if b = ''http'' then Inr ''http''
      else if b = ''data_retrieval'' then Inr ''db''
      else if b = ''data_profiling'' then Inl (ValueError ''Halo optimizer does not support data_profiling nodes'')
      else Inl (ValueError ''Halo optimizer only supports backends''))"

fun collect_input_lengths :: "pyval \<Rightarrow> nat list" where
  "collect_input_lengths (PDict d) =
     (case (map_of d ''type'', map_of d ''items'') of (Some (PStr t), Some (PList xs)) \<Rightarrow>
          if t = ''list'' then [length xs] else [] | _ \<Rightarrow> []) @
     concat (map (\<lambda>(k, v). collect_input_lengths v) d)"
| "collect_input_lengths (PList xs) = concat (map collect_input_lengths xs)"
| "collect_input_lengths _ = []"

definition resolve_input_query_count :: "halo \<Rightarrow> runtime_graph \<Rightarrow> int" where
  "resolve_input_query_count h g =
     (let lengths = concat (map (\<lambda>op. collect_input_lengths (PDict (op_data_spec op))) (dict_values (rg_nodes g)));
          inferred = foldl max 0 (map int lengths)
      in max 1 (if 0 < inferred then inferred else hl_input_query_count_default h))"

definition assert_no_http_nodes :: "runtime_graph \<Rightarrow> unit result" where
  "assert_no_http_nodes g =
     ebind (emap (dict_index (rg_nodes g)) (rg_node_order g)) (\<lambda>ops.
       if filter (\<lambda>op. str_lower (str_strip (op_backend op)) = ''http'') ops = [] then Inr ()
       else Inl (ValueError ''Halo optimizer does not support HTTP nodes by design''))"

definition validate_node :: "runtime_op \<Rightarrow> unit result" where
  "validate_node op =
     (case map_engine (op_backend op) (op_task_type op) of
        Inl e \<Rightarrow> Inl (ValueError ''Halo optimizer encountered unsupported runtime node'')
      | Inr engine \<Rightarrow>
          if engine \<noteq> ''db'' then Inr ()
          else if str_lower (str_strip (op_backend op)) \<noteq> ''data_retrieval'' \<or>
            str_lower (str_strip (op_task_type op)) \<noteq> ''data_retrieval''
          then Inl (ValueError ''Halo optimizer only supports data_retrieval nodes on CPU'')
          else Inr ())"

definition validate_supported_runtime_nodes :: "runtime_graph \<Rightarrow> unit result" where
  "validate_supported_runtime_nodes g =
     ebind (emap (\<lambda>n. ebind (dict_index (rg_nodes g) n) validate_node) (rg_node_order g)) (\<lambda>_. Inr ())"

definition build_node_raw :: "runtime_op \<Rightarrow> string list \<Rightarrow> spec" where
  "build_node_raw op deps =
     (let raw = (if op_inference_spec op = [] then op_data_spec op
                 else AList.update ''_inference_spec'' (PDict (op_inference_spec op)) (op_data_spec op))
      in case deps of [] \<Rightarrow> raw
         | p # _ \<Rightarrow> if ''parent'' \<in> set (dict_keys raw) then raw else AList.update ''parent'' (PStr p) raw)"

definition sql_template :: "runtime_op \<Rightarrow> string" where
  "sql_template op = (case map_of (op_data_spec op) ''template'' of Some (PStr s) \<Rightarrow> s | _ \<Rightarrow> [])"

definition query_name_of :: "string \<Rightarrow> string" where
  "query_name_of node_id = node_id @ ''_query''"

text \<open>The body of the loop over \<open>node_order\<close>.\<close>

definition halo_node :: "string \<Rightarrow> runtime_op \<Rightarrow> node result" where
  "halo_node node_id op =
     ebind (map_engine (op_backend op) (op_task_type op)) (\<lambda>engine.
       Inr \<lparr>nd_id = node_id, nd_type = op_task_type op, nd_engine = Some engine, nd_model = Some (op_model op),
            nd_system_prompt = None, nd_inputs = op_dependencies op, nd_outputs = [],
            nd_queries = (if engine = ''db''
              then [\<lparr>q_name = query_name_of node_id, q_sql = sql_template op, q_parameters = [], q_post_llm = False,
                     q_result_mappings = [], q_required_inputs = [], q_param_types = []\<rparr>] else []),
            nd_raw = build_node_raw op (op_dependencies op)\<rparr>)"

definition build_halo_graph :: "runtime_graph \<Rightarrow> (graph_spec \<times> (string, string list) dict) result" where
  "build_halo_graph g =
     ebind (emap (\<lambda>n. ebind (dict_index (rg_nodes g) n) (\<lambda>op. ebind (halo_node n op) (\<lambda>nd. Inr (n, op_dependencies op, nd))))
              (rg_node_order g)) (\<lambda>rows.
       Inr (\<lparr>gp_name = ''lumilake_runtime'', gp_description = ''Runtime graph for Halo DP optimizer'',
              gp_nodes = dict_of (map (\<lambda>(n, deps, nd). (n, nd)) rows),
              gp_edges = concat (map (\<lambda>(n, deps, nd). map (\<lambda>p. \<lparr>ed_source = p, ed_target = n, ed_mapping = []\<rparr>) deps) rows)\<rparr>,
            dict_of (map (\<lambda>(n, deps, nd). (n, deps)) rows)))"

definition has_gpu :: "worker_profiles \<Rightarrow> string \<Rightarrow> bool" where
  "has_gpu profiles w = (case map_of (dict_get profiles w []) ''has_gpu'' of None \<Rightarrow> False | Some v \<Rightarrow> py_truthy v)"

definition build_workers :: "string list \<Rightarrow> worker_profiles \<Rightarrow> runtime_graph \<Rightarrow> (string, worker) dict result" where
  "build_workers worker_names profiles g =
     (let requires_gpu = list_ex (\<lambda>op. is_gpu_backend (op_backend op)) (dict_values (rg_nodes g));
          workers = dict_of (map (\<lambda>w. (w, \<lparr>wk_id = w, wk_kind = (if has_gpu profiles w then ''gpu'' else ''cpu''),
            wk_device = (if has_gpu profiles w then ''cuda:0'' else ''cpu''), wk_capacity = 1\<rparr>)) worker_names)
      in if requires_gpu \<and> \<not> list_ex (\<lambda>w. wk_kind w = ''gpu'') (dict_values workers)
         then Inl (ValueError ''Halo DP requires at least one GPU worker because the graph contains GPU nodes.'')
         else Inr workers)"

definition gpu_workers_of :: "(string, worker) dict \<Rightarrow> string list" where
  "gpu_workers_of workers = map fst (filter (\<lambda>(w, k). wk_kind k = ''gpu'') workers)"

definition cpu_workers_of :: "(string, worker) dict \<Rightarrow> string list" where
  "cpu_workers_of workers = map fst (filter (\<lambda>(w, k). wk_kind k \<noteq> ''gpu'') workers)"

definition node_worker_options_of :: "(string, worker) dict \<Rightarrow> node \<Rightarrow> string list result" where
  "node_worker_options_of workers nd =
     ebind (if nd_engine nd = Some ''vllm'' then Inr (gpu_workers_of workers)
            else if nd_engine nd = Some ''db'' \<and> nd_type nd = ''data_retrieval'' then Inr (cpu_workers_of workers)
            else Inl (ValueError ''Unsupported node for Halo worker assignment'')) (\<lambda>eligible.
       if eligible = [] then Inl (ValueError ''No compatible workers for node'') else Inr (sort eligible))"

definition build_node_worker_options :: "graph_spec \<Rightarrow> (string, worker) dict \<Rightarrow> (string, string list) dict result" where
  "build_node_worker_options halo_graph workers =
     emap (\<lambda>(n, nd). ebind (node_worker_options_of workers nd) (\<lambda>ws. Inr (n, ws))) (gp_nodes halo_graph)"

section \<open>Query plans of the data profile\<close>

definition is_data_profile_candidate :: "runtime_op \<Rightarrow> bool result" where
  "is_data_profile_candidate op =
     ebind (map_engine (op_backend op) (op_task_type op)) (\<lambda>engine.
       Inr (engine = ''db'' \<and> retrieval_is_data_profile_eligible (op_data_spec op)))"

definition extract_data_profile_choices_for_op ::
  "string \<Rightarrow> runtime_op \<Rightarrow> (string, profile_row list) dict \<Rightarrow> plan_choice list" where
  "extract_data_profile_choices_for_op node_id op results =
     (if \<not> retrieval_is_data_profile_eligible (op_data_spec op) then []
      else let rows = dict_get results (data_profile_key_for_node_query node_id (query_name_of node_id)) [];
               estimates = concat (map pr_cost_estimates rows)
        in if estimates = [] then [] else build_data_profile_choices node_id estimates)"

definition build_data_profile_plan_choices ::
  "runtime_graph \<Rightarrow> (string, profile_row list) dict \<Rightarrow> (string \<times> string, plan_choice list) dict result" where
  "build_data_profile_plan_choices g results =
     efold (\<lambda>n plans.
        ebind (dict_index (rg_nodes g) n) (\<lambda>op.
        ebind (is_data_profile_candidate op) (\<lambda>candidate.
          let choices = extract_data_profile_choices_for_op n op results
          in Inr (if \<not> candidate \<or> choices = [] then plans else AList.update (n, query_name_of n) choices plans))))
       (rg_node_order g) []"

section \<open>The schedule as an assignment\<close>

definition group_schedule_by_worker :: "schedule \<Rightarrow> string list \<Rightarrow> string list \<Rightarrow> assignment" where
  "group_schedule_by_worker sched worker_ids node_order =
     (let index = dict_of (zip node_order [0..<length node_order]);
          items = sort_key (\<lambda>(e, w, n). (e, dict_get index n (10 ^ 9), w)) sched
      in foldl (\<lambda>grouped (e, w, n). AList.update w (dict_get grouped w [] @ [n]) grouped)
           (dict_of (map (\<lambda>w. (w, [])) worker_ids)) items)"

definition validate_schedule :: "assignment \<Rightarrow> runtime_graph \<Rightarrow> string list \<Rightarrow> unit result" where
  "validate_schedule schedule g worker_ids =
     (if set (dict_keys schedule) \<noteq> set worker_ids then Inl (ValueError ''Halo schedule worker mismatch'')
      else let flattened = concat (map (\<lambda>w. dict_get schedule w []) worker_ids)
        in if length flattened \<noteq> length (dedupe_into [] flattened) then Inl (ValueError ''Halo schedule has duplicate nodes'')
           else if set flattened \<noteq> set (dict_keys (rg_nodes g)) then Inl (ValueError ''Halo schedule mismatch'')
           else Inr ())"

definition halo_solver_args ::
  "halo_env \<Rightarrow> halo \<Rightarrow> dp_tuning \<Rightarrow> graph_spec \<Rightarrow> (string, string list) dict \<Rightarrow> (string, worker) dict \<Rightarrow> string list
     \<Rightarrow> (string \<times> string, plan_choice list) dict \<Rightarrow> (string, string list) dict \<Rightarrow> solver_args" where
  "halo_solver_args E h t halo_graph dependencies workers node_ids plan_choices options =
     (let gpus = gpu_workers_of workers; cpus = cpu_workers_of workers in
      \<lparr>sa_graph = halo_graph, sa_dependencies = dependencies, sa_workers = workers, sa_worker_ids = dict_keys workers,
       sa_plan_choices = plan_choices, sa_window_size = tn_window_size t, sa_exec_cost = exec_cost E h,
       sa_cache_multiplier = cache_multiplier, sa_model_init_cost = Some (model_init_cost h),
       sa_llm_cache_bonus = Some llm_cache_bonus, sa_node_ids = Some node_ids,
       sa_epoch_penalty = Some (halo_epoch_penalty h), sa_cpu_load_cost_weight = Some (tn_cpu_load_cost_weight t),
       sa_cpu_load_early_weight = Some (tn_cpu_load_early_weight t), sa_cpu_cost_mode = Some (tn_cpu_cost_mode t),
       sa_gpu_cost_max_weight = Some (tn_gpu_cost_max_weight t), sa_gpu_cost_sum_weight = Some (tn_gpu_cost_sum_weight t),
       sa_disable_epoch_batch_cost = tn_disable_epoch_batch_cost t,
       sa_disable_cpu_load_cost = tn_disable_cpu_load_cost t, sa_node_worker_options = options,
       sa_gpu_worker_ids = Some gpus, sa_cpu_worker_ids = Some (if cpus = [] then dict_keys workers else cpus),
       sa_http_latency = [], sa_batch_shape_pruning = tn_enable_batch_shape_pruning t,
       sa_gpu_batch_slack = tn_gpu_batch_slack t, sa_lower_bound_pruning = tn_enable_lower_bound_pruning t,
       sa_worker_symmetry = tn_enable_worker_symmetry t, sa_lower_bound_cost_factor = tn_lower_bound_cost_factor t,
       sa_gpu_depth_cost_weight = Some (tn_gpu_depth_cost_weight t)\<rparr>)"

text \<open>
  The part of \<open>generate_schedule\<close> inside \<open>try\<close>. The tuning changes the optimizer's attributes even
  when a later step raises.
\<close>

definition schedule_with ::
  "halo_env \<Rightarrow> runtime_graph \<Rightarrow> string list \<Rightarrow> graph_spec \<Rightarrow> (string, string list) dict \<Rightarrow> (string, worker) dict
     \<Rightarrow> (string, string list) dict \<Rightarrow> (string \<times> string, plan_choice list) dict \<Rightarrow> dp_tuning \<times> halo \<Rightarrow> assignment result" where
  "schedule_with E g worker_ids halo_graph dependencies workers options plan_choices th =
     (case th of (t, h) \<Rightarrow>
        ebind (make_solver (halo_solver_args E h t halo_graph dependencies workers (rg_node_order g) plan_choices options)) (\<lambda>d.
        ebind (solve d (Some (map (\<lambda>i. \<lparr>ws_idx = i, ws_model = -1, ws_node = -1\<rparr>) [0..<length worker_ids]))) (\<lambda>(c, raw, plans).
          let assignment = group_schedule_by_worker raw worker_ids (rg_node_order g)
          in ebind (validate_schedule assignment g worker_ids) (\<lambda>_. Inr assignment))))"

definition prepare_problem ::
  "halo \<Rightarrow> runtime_graph \<Rightarrow> string list \<Rightarrow> worker_profiles \<Rightarrow> (string, profile_row list) dict
     \<Rightarrow> (graph_spec \<times> (string, string list) dict \<times> (string, worker) dict \<times> (string, string list) dict
         \<times> (string \<times> string, plan_choice list) dict \<times> dp_tuning \<times> halo) result" where
  "prepare_problem h g workers_input profiles results =
     ebind (build_halo_graph g) (\<lambda>(halo_graph, dependencies).
     ebind (build_workers workers_input profiles g) (\<lambda>workers.
     ebind (build_node_worker_options halo_graph workers) (\<lambda>options.
     ebind (build_data_profile_plan_choices g results) (\<lambda>plan_choices.
     ebind (resolve_and_apply_tuning h halo_graph workers plan_choices) (\<lambda>th.
       Inr (halo_graph, dependencies, workers, options, plan_choices, th))))))"

definition failed_schedule :: "py_error \<Rightarrow> py_error" where
  "failed_schedule e = (if e = Diverges then e else RuntimeError ''Halo optimizer failed to generate schedule'')"

definition generate_schedule ::
  "halo_env \<Rightarrow> halo \<Rightarrow> runtime_graph \<Rightarrow> string list \<Rightarrow> worker_profiles \<Rightarrow> (string, raw_row list) dict option
     \<Rightarrow> assignment result \<times> halo" where
  "generate_schedule E h g worker_names profiles results =
     (let workers_input = filter (\<lambda>w. w \<noteq> []) (map str_strip worker_names) in
      if workers_input = [] then (Inl (ValueError ''HaloOptimizer requires at least one worker''), h)
      else if rg_nodes g = [] then (Inr (dict_of (map (\<lambda>w. (w, [])) workers_input)), h)
      else case ebind (assert_no_http_nodes g) (\<lambda>_. validate_supported_runtime_nodes g) of
        Inl e \<Rightarrow> (Inl e, h)
      | Inr _ \<Rightarrow>
          let h1 = h\<lparr>hl_input_query_count := resolve_input_query_count h g\<rparr> in
          case (if ev_disable_profile E then Inr [] else parse_data_profile_results E results) of
            Inl e \<Rightarrow> (Inl e, h1)
          | Inr rows \<Rightarrow>
              (case prepare_problem h1 g workers_input profiles rows of
                 Inl e \<Rightarrow> (Inl (failed_schedule e), h1)
               | Inr (halo_graph, dependencies, workers, options, plan_choices, t, h2) \<Rightarrow>
                   (case schedule_with E g (dict_keys workers) halo_graph dependencies workers options plan_choices (t, h2) of
                      Inl e \<Rightarrow> (Inl (failed_schedule e), h2)
                    | Inr assignment \<Rightarrow> (Inr assignment, h2))))"

section \<open>The baseline optimizer\<close>

definition gpu_backends :: "string list" where
  "gpu_backends = [''vllm'', ''transformers'', ''diffusers'', ''omni'']"

definition profile_has_gpu :: "worker_profiles \<Rightarrow> string \<Rightarrow> bool result" where
  "profile_has_gpu profiles w =
     (case map_of profiles w of None \<Rightarrow> Inr False
      | Some p \<Rightarrow> ebind (dict_index p ''has_gpu'') (\<lambda>v. Inr (py_truthy v)))"

definition baseline_step ::
  "runtime_graph \<Rightarrow> string list \<Rightarrow> string list \<Rightarrow> string \<Rightarrow> assignment \<Rightarrow> assignment result" where
  "baseline_step g gpu cpu n assignment =
     ebind (dict_index (rg_nodes g) n) (\<lambda>op.
       ebind (nth_result (if op_backend op \<in> set gpu_backends then gpu else cpu) 0) (\<lambda>w.
         ebind (dict_index assignment w) (\<lambda>ns. Inr (AList.update w (ns @ [n]) assignment))))"

definition baseline_schedule :: "runtime_graph \<Rightarrow> string list \<Rightarrow> worker_profiles \<Rightarrow> assignment result" where
  "baseline_schedule g worker_names profiles =
     ebind (emap (\<lambda>w. ebind (profile_has_gpu profiles w) (\<lambda>b. Inr (w, b))) worker_names) (\<lambda>kinds.
       let gpu = map fst (filter snd kinds); cpu = map fst (filter (\<lambda>k. \<not> snd k) kinds);
           gpu = (if gpu = [] then worker_names else gpu); cpu = (if cpu = [] then worker_names else cpu)
       in ebind (rg_topological_order g) (\<lambda>order.
          efold (baseline_step g gpu cpu) order (dict_of (map (\<lambda>w. (w, [])) worker_names))))"

section \<open>What the problem handed to the solver looks like\<close>

lemma halo_node_fields:
  assumes "halo_node n op = Inr nd"
  shows "map_engine (op_backend op) (op_task_type op) = Inr (the (nd_engine nd))" and "nd_engine nd \<noteq> None"
    and "nd_id nd = n" and "nd_type nd = op_task_type op" and "nd_model nd = Some (op_model op)"
    and "nd_raw nd = build_node_raw op (op_dependencies op)"
  using assms by (auto simp: halo_node_def ebind_Inr_iff)

lemma build_halo_graph_nodes:
  assumes "build_halo_graph g = Inr (hg, deps)" and "distinct (rg_node_order g)"
  shows "dict_keys (gp_nodes hg) = rg_node_order g" and "dict_keys deps = rg_node_order g"
    and "n \<in> set (rg_node_order g) \<Longrightarrow> \<exists>op nd. map_of (rg_nodes g) n = Some op \<and> map_of (gp_nodes hg) n = Some nd \<and>
      halo_node n op = Inr nd \<and> map_of deps n = Some (op_dependencies op)"
proof -
  let ?f = "\<lambda>n. ebind (dict_index (rg_nodes g) n) (\<lambda>op. ebind (halo_node n op) (\<lambda>nd. Inr (n, op_dependencies op, nd)))"
  obtain rows where rows: "emap ?f (rg_node_order g) = Inr rows"
    and hg: "gp_nodes hg = dict_of (map (\<lambda>(n, deps, nd). (n, nd)) rows)"
    and deps: "deps = dict_of (map (\<lambda>(n, deps, nd). (n, deps)) rows)"
    using assms(1) by (auto simp: build_halo_graph_def ebind_Inr_iff)
  have "\<forall>x y. ?f x = Inr y \<longrightarrow> fst y = x" by (auto simp: ebind_Inr_iff)
  from emap_keys [OF rows this] have ids: "map fst rows = rg_node_order g" by simp
  have keys: "map fst (map (\<lambda>(n, deps, nd). (n, v n deps nd)) rows) = rg_node_order g" for v :: "string \<Rightarrow> string list \<Rightarrow> node \<Rightarrow> 'a"
    using ids by (simp add: comp_def case_prod_beta)
  have nodes: "gp_nodes hg = map (\<lambda>(n, deps, nd). (n, nd)) rows"
    unfolding hg by (rule dict_of_distinct_id) (use keys [of "\<lambda>n deps nd. nd"] assms(2) in simp)
  have dps: "deps = map (\<lambda>(n, deps, nd). (n, deps)) rows"
    unfolding deps by (rule dict_of_distinct_id) (use keys [of "\<lambda>n deps nd. deps"] assms(2) in simp)
  show k: "dict_keys (gp_nodes hg) = rg_node_order g" unfolding nodes by (rule keys)
  show k': "dict_keys deps = rg_node_order g" unfolding dps by (rule keys)
  assume n: "n \<in> set (rg_node_order g)"
  from emap_mem [OF rows n] obtain op dp nd where row: "(n, dp, nd) \<in> set rows"
    and op: "map_of (rg_nodes g) n = Some op" "halo_node n op = Inr nd" "dp = op_dependencies op"
    by (auto simp: ebind_Inr_iff dict_index_Inr_iff)
  have "map_of (gp_nodes hg) n = Some nd"
    by (rule map_of_is_SomeI) (use k assms(2) row in \<open>force simp: nodes\<close>)+
  moreover have "map_of deps n = Some dp"
    by (rule map_of_is_SomeI) (use k' assms(2) row in \<open>force simp: dps\<close>)+
  ultimately show "\<exists>op nd. map_of (rg_nodes g) n = Some op \<and> map_of (gp_nodes hg) n = Some nd \<and>
      halo_node n op = Inr nd \<and> map_of deps n = Some (op_dependencies op)"
    using op by blast
qed

definition the_worker :: "worker_profiles \<Rightarrow> string \<Rightarrow> worker" where
  "the_worker profiles w = \<lparr>wk_id = w, wk_kind = (if has_gpu profiles w then ''gpu'' else ''cpu''),
     wk_device = (if has_gpu profiles w then ''cuda:0'' else ''cpu''), wk_capacity = 1\<rparr>"

lemma map_of_dict_of_image: "map_of (dict_of (map (\<lambda>w. (w, f w)) ws)) w = (if w \<in> set ws then Some (f w) else None)"
proof -
  have "map_of (map (\<lambda>w. (w, f w)) vs) w = (if w \<in> set vs then Some (f w) else None)" for vs by (induction vs) auto
  then show ?thesis by (simp add: map_of_dict_of rev_map)
qed

lemma workers_table:
  assumes "build_workers ws profiles g = Inr workers"
  shows "distinct (dict_keys workers)" and "set (dict_keys workers) = set ws"
    and "map_of workers w = (if w \<in> set ws then Some (the_worker profiles w) else None)"
    and "set (gpu_workers_of workers) = {w \<in> set ws. has_gpu profiles w}"
    and "set (cpu_workers_of workers) = {w \<in> set ws. \<not> has_gpu profiles w}"
proof -
  have workers: "workers = dict_of (map (\<lambda>w. (w, the_worker profiles w)) ws)"
    using assms by (auto simp: build_workers_def the_worker_def Let_def split: if_splits)
  show d: "distinct (dict_keys workers)" unfolding workers by (rule dict_of_distinct_keys)
  show "set (dict_keys workers) = set ws"
    using set_dict_keys_dict_of [of "map (\<lambda>w. (w, the_worker profiles w)) ws"] by (simp add: workers image_image)
  show m: "map_of workers w = (if w \<in> set ws then Some (the_worker profiles w) else None)" for w
    unfolding workers by (rule map_of_dict_of_image)
  have mem: "(w, k) \<in> set workers \<longleftrightarrow> w \<in> set ws \<and> k = the_worker profiles w" for w k
  proof -
    have "(w, k) \<in> set workers \<longleftrightarrow> map_of workers w = Some k" using d by (simp add: map_of_eq_Some_iff)
    then show ?thesis using m [of w] by auto
  qed
  show "set (gpu_workers_of workers) = {w \<in> set ws. has_gpu profiles w}"
    by (force simp: gpu_workers_of_def mem the_worker_def split: if_splits)
  show "set (cpu_workers_of workers) = {w \<in> set ws. \<not> has_gpu profiles w}"
    by (force simp: cpu_workers_of_def mem the_worker_def split: if_splits)
qed

lemma worker_options_table:
  assumes "build_node_worker_options hg workers = Inr options" and "distinct (dict_keys (gp_nodes hg))"
  shows "map_of (gp_nodes hg) n = Some nd \<Longrightarrow> \<exists>ws. map_of options n = Some ws \<and> node_worker_options_of workers nd = Inr ws"
proof -
  assume n: "map_of (gp_nodes hg) n = Some nd"
  let ?f = "\<lambda>(n, nd). ebind (node_worker_options_of workers nd) (\<lambda>ws. Inr (n, ws))"
  have ok: "emap ?f (gp_nodes hg) = Inr options" using assms(1) by (simp add: build_node_worker_options_def)
  have "\<forall>x y. ?f x = Inr y \<longrightarrow> fst y = fst x" by (auto simp: ebind_Inr_iff)
  from emap_keys [OF ok this] have keys: "dict_keys options = dict_keys (gp_nodes hg)" .
  from n have "(n, nd) \<in> set (gp_nodes hg)" by (rule map_of_SomeD)
  from emap_mem [OF ok this] obtain ws where ws: "(n, ws) \<in> set options" "node_worker_options_of workers nd = Inr ws"
    by (auto simp: ebind_Inr_iff)
  have "map_of options n = Some ws" by (rule map_of_is_SomeI) (use keys assms(2) ws in auto)
  then show ?thesis using ws(2) by blast
qed

lemma sort_nonempty: "sort xs = [] \<longleftrightarrow> xs = []"
  by (metis set_sort set_empty)

lemma node_worker_options_set:
  assumes "node_worker_options_of workers nd = Inr ws"
  shows "ws \<noteq> []" and "nd_engine nd = Some ''vllm'' \<Longrightarrow> set ws = set (gpu_workers_of workers)"
    and "nd_engine nd \<noteq> Some ''vllm'' \<Longrightarrow> set ws = set (cpu_workers_of workers)"
  using assms by (auto simp: node_worker_options_of_def ebind_Inr_iff sort_nonempty split: if_splits)


section \<open>Grouping by worker\<close>

definition node_of :: "nat \<times> string \<times> string \<Rightarrow> string" where
  "node_of x = snd (snd x)"

lemma node_of_simps [simp]: "node_of (e, w, n) = n"
  by (simp add: node_of_def)

definition add_items :: "assignment \<Rightarrow> schedule \<Rightarrow> assignment" where
  "add_items grouped items = foldl (\<lambda>g (e, w, n). AList.update w (dict_get g w [] @ [n]) g) grouped items"

lemma add_items_simps:
  "add_items g [] = g" "add_items g ((e, w, n) # items) = add_items (AList.update w (dict_get g w [] @ [n]) g) items"
  by (simp_all add: add_items_def)

lemma dict_get_add_items:
  "dict_get (add_items g items) w [] = dict_get g w [] @ map node_of (filter (\<lambda>x. fst (snd x) = w) items)"
proof (induction items arbitrary: g)
  case (Cons x items)
  obtain e v n where "x = (e, v, n)" by (cases x)
  then show ?case by (simp add: add_items_simps Cons.IH dict_simps)
qed (simp add: add_items_simps)

lemma keys_add_items:
  "set (dict_keys (add_items g items)) = set (dict_keys g) \<union> (\<lambda>x. fst (snd x)) ` set items"
proof (induction items arbitrary: g)
  case (Cons x items)
  obtain e v n where x: "x = (e, v, n)" by (cases x)
  show ?case unfolding x add_items_simps Cons.IH by (auto simp: dict_keys_update)
qed (simp add: add_items_simps)

lemma distinct_add_items: "distinct (dict_keys g) \<Longrightarrow> distinct (dict_keys (add_items g items))"
proof (induction items arbitrary: g)
  case (Cons x items)
  obtain e v n where x: "x = (e, v, n)" by (cases x)
  show ?case unfolding x add_items_simps by (rule Cons.IH) (rule distinct_keys_update [OF Cons.prems])
qed (simp add: add_items_simps)

definition item_key :: "string list \<Rightarrow> nat \<times> string \<times> string \<Rightarrow> nat \<times> nat \<times> string" where
  "item_key node_order x = (case x of (e, w, n) \<Rightarrow> (e, dict_get (dict_of (zip node_order [0..<length node_order])) n (10 ^ 9), w))"

definition sorted_items :: "schedule \<Rightarrow> string list \<Rightarrow> schedule" where
  "sorted_items sched node_order = sort_key (item_key node_order) sched"

lemma set_sorted_items [simp]: "set (sorted_items sched node_order) = set sched"
  by (simp add: sorted_items_def)

lemma group_schedule:
  fixes node_order :: "string list"
  assumes "(\<lambda>x. fst (snd x)) ` set sched \<subseteq> set worker_ids"
  defines "a \<equiv> group_schedule_by_worker sched worker_ids node_order"
  shows "dict_get a w [] = map node_of (filter (\<lambda>x. fst (snd x) = w) (sorted_items sched node_order))"
    and "set (dict_keys a) = set worker_ids" and "distinct (dict_keys a)"
proof -
  have a: "a = add_items (dict_of (map (\<lambda>w. (w, [])) worker_ids)) (sorted_items sched node_order)"
    by (simp add: a_def group_schedule_by_worker_def sorted_items_def item_key_def [abs_def] add_items_def Let_def)
  have empty: "dict_get (dict_of (map (\<lambda>w. (w, [] :: string list)) worker_ids)) w [] = []"
    by (simp add: dict_get_def map_of_dict_of_image split: option.splits)
  have keys: "set (dict_keys (dict_of (map (\<lambda>w. (w, [] :: string list)) worker_ids))) = set worker_ids"
    unfolding set_dict_keys_dict_of by (simp add: image_image)
  have ws: "(\<lambda>x. fst (snd x)) ` set (sorted_items sched node_order) \<subseteq> set worker_ids" using assms(1) by simp
  show "dict_get a w [] = map node_of (filter (\<lambda>x. fst (snd x) = w) (sorted_items sched node_order))"
    unfolding a dict_get_add_items empty by simp
  show "set (dict_keys a) = set worker_ids"
    unfolding a keys_add_items using keys ws by (simp only: Un_absorb2)
  show "distinct (dict_keys a)" unfolding a by (rule distinct_add_items) (rule dict_of_distinct_keys)
qed

text \<open>The flattened assignment is a permutation of the scheduled nodes.\<close>

lemma mset_filter_partition:
  "distinct ws \<Longrightarrow> (\<And>x. x \<in> set items \<Longrightarrow> f x \<in> set ws) \<Longrightarrow>
     mset (concat (map (\<lambda>w. filter (\<lambda>x. f x = w) items) ws)) = mset items"
proof (induction items)
  case (Cons x items)
  then have IH: "mset (concat (map (\<lambda>w. filter (\<lambda>x. f x = w) items) ws)) = mset items" by auto
  have "mset (concat (map (\<lambda>w. filter (\<lambda>y. f y = w) (x # items)) vs)) =
      (if f x \<in> set vs then {#x#} else {#}) + mset (concat (map (\<lambda>w. filter (\<lambda>y. f y = w) items) vs))" if "distinct vs" for vs
    using that by (induction vs) auto
  from this [OF Cons.prems(1)] show ?case using Cons.prems(2) IH by simp
qed simp

lemma flattened_nodes:
  assumes "(\<lambda>x. fst (snd x)) ` set sched \<subseteq> set worker_ids" and "distinct worker_ids"
  shows "mset (concat (map (\<lambda>w. dict_get (group_schedule_by_worker sched worker_ids node_order) w []) worker_ids)) =
    mset (map node_of sched)"
proof -
  have "concat (map (\<lambda>w. dict_get (group_schedule_by_worker sched worker_ids node_order) w []) worker_ids) =
      map node_of (concat (map (\<lambda>w. filter (\<lambda>x. fst (snd x) = w) (sorted_items sched node_order)) worker_ids))"
    by (simp add: group_schedule(1) [OF assms(1)] map_concat comp_def)
  moreover have "mset (concat (map (\<lambda>w. filter (\<lambda>x. fst (snd x) = w) (sorted_items sched node_order)) worker_ids)) = mset sched"
    by (subst mset_filter_partition) (use assms in \<open>auto simp: sorted_items_def\<close>)
  ultimately show ?thesis by simp
qed

lemma dedupe_length: "length (dedupe_into [] xs) = length xs \<longleftrightarrow> distinct xs"
proof -
  have len: "length (dedupe_into [] xs) = card (set xs)"
    using distinct_card [OF distinct_dedupe_into, of "[]" xs] by (simp add: set_dedupe_into)
  show ?thesis unfolding len by (metis card_distinct distinct_card)
qed

lemma validate_schedule_ok_iff:
  "validate_schedule s g ws = Inr () \<longleftrightarrow> set (dict_keys s) = set ws \<and>
     distinct (concat (map (\<lambda>w. dict_get s w []) ws)) \<and> set (concat (map (\<lambda>w. dict_get s w []) ws)) = set (dict_keys (rg_nodes g))"
  by (simp add: validate_schedule_def Let_def dedupe_length [symmetric])

section \<open>The solver built for a graph\<close>

lemma make_solver_parts:
  assumes "make_solver a = Inr d"
  shows "dp_nodes d = gp_nodes (sa_graph a)" and "dp_dependencies d = sa_dependencies a" and "dp_workers d = sa_workers a"
    and "dp_worker_ids d = sa_worker_ids a"
    and "sa_node_ids a = Some ids \<Longrightarrow> dp_node_ids d = ids"
    and "sa_gpu_worker_ids a = Some gs \<Longrightarrow> sa_cpu_worker_ids a = Some cs \<Longrightarrow>
      dp_gpu_worker_ids d = gs \<and> dp_cpu_worker_ids d = (if cs = [] then sa_worker_ids a else cs)"
    and "dp_node_worker_options d = map (\<lambda>n. (n, dict_get (sa_node_worker_options a) n (sa_worker_ids a))) (dp_node_ids d)"
  using assms by (auto simp: make_solver_def split_workers_def option_default_def Let_def ebind_Inr_iff split: prod.splits)

lemma prepare_problem_parts:
  assumes "prepare_problem h g ws profiles rows = Inr (hg, deps, workers, options, plans, t, h2)"
  shows "build_halo_graph g = Inr (hg, deps)" and "build_workers ws profiles g = Inr workers"
    and "build_node_worker_options hg workers = Inr options" and "build_data_profile_plan_choices g rows = Inr plans"
    and "resolve_and_apply_tuning h hg workers plans = Inr (t, h2)"
  using assms by (auto simp: prepare_problem_def ebind_Inr_iff)

text \<open>The facts about one solver that the proofs below share.\<close>

definition halo_solver :: "runtime_graph \<Rightarrow> string list \<Rightarrow> worker_profiles \<Rightarrow> dp \<Rightarrow> bool" where
  "halo_solver g ws profiles d \<longleftrightarrow>
     dp_node_ids d = rg_node_order g \<and> dp_cpu_worker_ids d \<noteq> [] \<and> distinct (dp_worker_ids d) \<and> set (dp_worker_ids d) = set ws \<and>
     (\<forall>w \<in> set ws. map_of (dp_workers d) w \<noteq> None) \<and>
     set (dp_gpu_worker_ids d) = {w \<in> set ws. has_gpu profiles w} \<and> set (dp_cpu_worker_ids d) \<subseteq> set ws \<and>
     (\<forall>n \<in> set (rg_node_order g). \<exists>op nd. map_of (rg_nodes g) n = Some op \<and> map_of (dp_nodes d) n = Some nd \<and>
        halo_node n op = Inr nd \<and> deps_of d n = op_dependencies op \<and>
        (is_gpu_node d n \<longleftrightarrow> is_gpu_backend (op_backend op)) \<and>
        (is_gpu_node d n \<longrightarrow> set (dict_get (dp_node_worker_options d) n (dp_gpu_worker_ids d)) = set (dp_gpu_worker_ids d) \<and>
           dp_gpu_worker_ids d \<noteq> []) \<and>
        (\<not> is_gpu_node d n \<longrightarrow> set (dp_cpu_worker_ids d) = {w \<in> set ws. \<not> has_gpu profiles w}))"


lemma map_engine_cases:
  assumes "map_engine b t = Inr e"
  shows "e = ''vllm'' \<longleftrightarrow> is_gpu_backend b" and "e \<in> {''vllm'', ''http'', ''db''}"
    and "e = ''http'' \<longleftrightarrow> str_lower (str_strip b) = ''http''"
  using assms by (auto simp: map_engine_def is_gpu_backend_def normalized_idem Let_def split: if_splits)

lemma halo_solver_made:
  assumes wf: "rg_wf g" and ws: "ws \<noteq> []"
    and p: "prepare_problem h g ws profiles rows = Inr (hg, deps, workers, options, plans, t, h2)"
    and d: "make_solver (halo_solver_args E h2 t hg deps workers (rg_node_order g) plans options) = Inr d"
  shows "halo_solver g ws profiles d"
proof -
  note pp = prepare_problem_parts [OF p]
  note m = make_solver_parts [OF d]
  note wt = workers_table [OF pp(2)]
  have order: "distinct (rg_node_order g)" using wf by (simp add: rg_wf_def)
  note hgn = build_halo_graph_nodes [OF pp(1) order]
  have ids: "dp_node_ids d = rg_node_order g" by (rule m(5)) (simp add: halo_solver_args_def Let_def)
  have keys: "dict_keys workers \<noteq> []" using wt(2) ws by auto
  have gc: "dp_gpu_worker_ids d = gpu_workers_of workers \<and>
      dp_cpu_worker_ids d = (if cpu_workers_of workers = [] then dict_keys workers else cpu_workers_of workers)"
    using m(6) [of "gpu_workers_of workers" "if cpu_workers_of workers = [] then dict_keys workers else cpu_workers_of workers"] keys
    by (simp add: halo_solver_args_def Let_def)
  have wids: "dp_worker_ids d = dict_keys workers" using m(4) by (simp add: halo_solver_args_def Let_def)
  have nodes: "dp_nodes d = gp_nodes hg" "dp_dependencies d = deps" "dp_workers d = workers"
    using m(1-3) by (simp_all add: halo_solver_args_def Let_def)
  have opts: "dp_node_worker_options d = map (\<lambda>n. (n, dict_get options n (dict_keys workers))) (rg_node_order g)"
    using m(7) ids by (simp add: halo_solver_args_def Let_def)
  have opt: "dict_get (dp_node_worker_options d) n x = dict_get options n (dict_keys workers)" if "n \<in> set (rg_node_order g)" for n x
  proof -
    have "map_of (map (\<lambda>n. (n, f n)) ns) n = Some (f n)" if "n \<in> set ns" for ns and f :: "string \<Rightarrow> string list"
      using that by (induction ns) auto
    from this [OF that] show ?thesis by (simp add: opts dict_get_def)
  qed
  have cpus: "set (dp_cpu_worker_ids d) \<subseteq> set ws" "dp_cpu_worker_ids d \<noteq> []" using gc wt(2,5) keys by auto
  have node: "\<exists>op nd. map_of (rg_nodes g) n = Some op \<and> map_of (dp_nodes d) n = Some nd \<and>
        halo_node n op = Inr nd \<and> deps_of d n = op_dependencies op \<and>
        (is_gpu_node d n \<longleftrightarrow> is_gpu_backend (op_backend op)) \<and>
        (is_gpu_node d n \<longrightarrow> set (dict_get (dp_node_worker_options d) n (dp_gpu_worker_ids d)) = set (dp_gpu_worker_ids d) \<and>
           dp_gpu_worker_ids d \<noteq> []) \<and>
        (\<not> is_gpu_node d n \<longrightarrow> set (dp_cpu_worker_ids d) = {w \<in> set ws. \<not> has_gpu profiles w})"
    if n: "n \<in> set (rg_node_order g)" for n
  proof -
    obtain op nd where on: "map_of (rg_nodes g) n = Some op" "map_of (gp_nodes hg) n = Some nd"
      "halo_node n op = Inr nd" "map_of deps n = Some (op_dependencies op)" using hgn(3) [OF n] by blast
    have "distinct (dict_keys (gp_nodes hg))" using hgn(1) order by simp
    from worker_options_table [OF pp(3) this on(2)] obtain os where os: "map_of options n = Some os"
      "node_worker_options_of workers nd = Inr os" by blast
    note no = node_worker_options_set [OF os(2)]
    note hf = halo_node_fields [OF on(3)]
    have gpu: "is_gpu_node d n \<longleftrightarrow> nd_engine nd = Some ''vllm''" by (simp add: is_gpu_node_def nodes on(2))
    have "is_gpu_node d n \<longleftrightarrow> is_gpu_backend (op_backend op)"
      unfolding gpu using map_engine_cases(1) [OF hf(1)] hf(2) by auto
    moreover have "deps_of d n = op_dependencies op" by (simp add: deps_of_def nodes dict_get_def on(4))
    moreover have "set (dict_get (dp_node_worker_options d) n (dp_gpu_worker_ids d)) = set (dp_gpu_worker_ids d) \<and>
        dp_gpu_worker_ids d \<noteq> []" if "is_gpu_node d n"
      using that no(1,2) opt [OF n] os(1) gc unfolding gpu by (auto simp: dict_get_def)
    moreover have "set (dp_cpu_worker_ids d) = {w \<in> set ws. \<not> has_gpu profiles w}" if "\<not> is_gpu_node d n"
    proof -
      have "set os = set (cpu_workers_of workers)" using no(3) that unfolding gpu by blast
      then have "cpu_workers_of workers \<noteq> []" using no(1) by auto
      then show ?thesis using gc wt(5) by simp
    qed
    ultimately show ?thesis using on by (auto simp: nodes)
  qed
  have workers: "\<forall>w \<in> set ws. map_of (dp_workers d) w \<noteq> None" using wt(3) by (simp add: nodes)
  show ?thesis
    unfolding halo_solver_def using ids cpus wids wt(1,2,4) workers gc node by simp
qed


lemma halo_solver_wf: "rg_wf g \<Longrightarrow> halo_solver g ws profiles d \<Longrightarrow> dp_wf d"
  by (simp add: halo_solver_def dp_wf_def rg_wf_def)

lemma halo_solverD:
  assumes "halo_solver g ws profiles d"
  shows "dp_node_ids d = rg_node_order g" and "dp_cpu_worker_ids d \<noteq> []" and "distinct (dp_worker_ids d)"
    and "set (dp_worker_ids d) = set ws" and "w \<in> set ws \<Longrightarrow> map_of (dp_workers d) w \<noteq> None"
    and "set (dp_gpu_worker_ids d) = {w \<in> set ws. has_gpu profiles w}" and "set (dp_cpu_worker_ids d) \<subseteq> set ws"
  using assms unfolding halo_solver_def by auto

lemma halo_solver_node:
  assumes "halo_solver g ws profiles d" and "n \<in> set (rg_node_order g)"
  obtains op nd where "map_of (rg_nodes g) n = Some op" "map_of (dp_nodes d) n = Some nd" "halo_node n op = Inr nd"
    "deps_of d n = op_dependencies op" "is_gpu_node d n \<longleftrightarrow> is_gpu_backend (op_backend op)"
    "is_gpu_node d n \<Longrightarrow> set (dict_get (dp_node_worker_options d) n (dp_gpu_worker_ids d)) = set (dp_gpu_worker_ids d)"
    "is_gpu_node d n \<Longrightarrow> dp_gpu_worker_ids d \<noteq> []"
    "\<not> is_gpu_node d n \<Longrightarrow> set (dp_cpu_worker_ids d) = {w \<in> set ws. \<not> has_gpu profiles w}"
  using assms unfolding halo_solver_def by blast

lemma halo_schedule_facts:
  assumes wf: "rg_wf g" and hs: "halo_solver g ws profiles d" and s: "solve d st = Inr (c, sched, plans)"
  shows "mset (map node_of sched) = mset (rg_node_order g)"
    and "(e, w, n) \<in> set sched \<Longrightarrow> w \<in> set ws"
    and "(e, w, n) \<in> set sched \<Longrightarrow> map_of (rg_nodes g) n = Some op \<Longrightarrow> is_gpu_backend (op_backend op) \<longleftrightarrow> has_gpu profiles w"
    and "(e, w, n) \<in> set sched \<Longrightarrow> p \<in> set (deps_of d n) \<Longrightarrow> p \<in> set (rg_node_order g) \<Longrightarrow>
      \<exists>e' w'. (e', w', p) \<in> set sched \<and> e' \<le> e"
proof -
  note h = halo_solverD [OF hs]
  note v = solve_valid [OF halo_solver_wf [OF wf hs] s, unfolded valid_schedule_def]
  have none: "\<not> is_done d 0 n" for n by (simp add: is_done_def)
  have node_of: "node_of = (\<lambda>(e, w, n). n)" by (auto simp: node_of_def)
  have nodes: "distinct (map node_of sched)" "set (map node_of sched) = set (rg_node_order g)"
    using v by (simp_all add: node_of none h(1))
  have order: "distinct (rg_node_order g)" using wf by (simp add: rg_wf_def)
  show "mset (map node_of sched) = mset (rg_node_order g)" using nodes order by (simp only: set_eq_iff_mset_eq_distinct)
  have may: "may_run d n w" if "(e, w, n) \<in> set sched" for e w n using v that by blast
  show "w \<in> set ws" if "(e, w, n) \<in> set sched"
    using may [OF that] h(6,7) by (auto simp: may_run_def split: if_splits)
  show "is_gpu_backend (op_backend op) \<longleftrightarrow> has_gpu profiles w"
    if "(e, w, n) \<in> set sched" "map_of (rg_nodes g) n = Some op"
  proof -
    have "n \<in> set (rg_node_order g)" using that(1) nodes(2) by force
    from halo_solver_node [OF hs this] that(2) have eq: "is_gpu_node d n \<longleftrightarrow> is_gpu_backend (op_backend op)"
      and cpu: "\<not> is_gpu_node d n \<Longrightarrow> set (dp_cpu_worker_ids d) = {w \<in> set ws. \<not> has_gpu profiles w}"
      by (metis option.inject)+
    show ?thesis using may [OF that(1)] cpu h(6) unfolding eq [symmetric] by (auto simp: may_run_def split: if_splits)
  qed
  show "\<exists>e' w'. (e', w', p) \<in> set sched \<and> e' \<le> e"
    if "(e, w, n) \<in> set sched" "p \<in> set (deps_of d n)" "p \<in> set (rg_node_order g)"
    using v that none [of p] unfolding h(1) by blast
qed

text \<open>A run of \<open>generate_schedule\<close> that returns went through these steps.\<close>

lemma generate_schedule_run:
  assumes "fst (generate_schedule E h g names profiles results) = Inr a" and "rg_nodes g \<noteq> []"
  obtains d rows sched c plans h1 hg deps workers options choices t h2 st where
    "filter (\<lambda>w. w \<noteq> []) (map str_strip names) \<noteq> []"
    "prepare_problem h1 g (filter (\<lambda>w. w \<noteq> []) (map str_strip names)) profiles rows = Inr (hg, deps, workers, options, choices, t, h2)"
    "make_solver (halo_solver_args E h2 t hg deps workers (rg_node_order g) choices options) = Inr d"
    "solve d st = Inr (c, sched, plans)" "a = group_schedule_by_worker sched (dict_keys workers) (rg_node_order g)"
    "validate_schedule a g (dict_keys workers) = Inr ()"
proof -
  show ?thesis
    using assms that
    by (auto simp: generate_schedule_def schedule_with_def Let_def ebind_Inr_iff split: if_splits sum.splits)
qed

definition named_workers :: "string list \<Rightarrow> string list" where
  "named_workers names = filter (\<lambda>w. w \<noteq> []) (map str_strip names)"

lemma mset_concat_map: "mset xs = mset ys \<Longrightarrow> mset (concat (map f xs)) = mset (concat (map f ys))"
proof -
  assume "mset xs = mset ys"
  then have "\<Sum>\<^sub># (image_mset (mset \<circ> f) (mset xs)) = \<Sum>\<^sub># (image_mset (mset \<circ> f) (mset ys))" by simp
  then show ?thesis by (simp add: mset_concat sum_mset_sum_list [symmetric] del: sum_mset_sum_list)
qed

lemma concat_dict_values:
  assumes "distinct (dict_keys a)"
  shows "concat (dict_values a) = concat (map (\<lambda>w. dict_get a w []) (dict_keys a))"
proof -
  have "map (\<lambda>w. dict_get a w []) (dict_keys a) = dict_values a"
    using assms by (auto simp: dict_get_def)
  then show ?thesis by (simp only:)
qed

lemma halo_assignment:
  assumes wf: "rg_wf g" and hs: "halo_solver g ws profiles d" and s: "solve d st = Inr (c, sched, plans)"
    and keys: "distinct ids" "set ids = set ws"
  defines "a \<equiv> group_schedule_by_worker sched ids (rg_node_order g)"
  shows "distinct (dict_keys a)" and "set (dict_keys a) = set ws"
    and "mset (concat (dict_values a)) = mset (rg_node_order g)"
    and "mset (concat (map (\<lambda>w. dict_get a w []) ids)) = mset (rg_node_order g)"
    and "n \<in> set (dict_get a w []) \<Longrightarrow> \<exists>e. (e, w, n) \<in> set sched"
proof -
  note f = halo_schedule_facts [OF wf hs s]
  have w: "(\<lambda>x. fst (snd x)) ` set sched \<subseteq> set ids" using f(2) keys(2) by fastforce
  note gs = group_schedule [OF w, of "rg_node_order g", folded a_def]
  show d: "distinct (dict_keys a)" by (rule gs(3))
  show k: "set (dict_keys a) = set ws" using gs(2) keys(2) by simp
  show m: "mset (concat (map (\<lambda>w. dict_get a w []) ids)) = mset (rg_node_order g)"
    using flattened_nodes [OF w keys(1), of "rg_node_order g", folded a_def] f(1) by simp
  have "mset (dict_keys a) = mset ids" using d k keys by (metis set_eq_iff_mset_eq_distinct)
  from mset_concat_map [OF this, of "\<lambda>w. dict_get a w []"] m
  show "mset (concat (dict_values a)) = mset (rg_node_order g)" unfolding concat_dict_values [OF d] by simp
  show "\<exists>e. (e, w, n) \<in> set sched" if "n \<in> set (dict_get a w [])"
    using that unfolding gs(1) by (auto simp: node_of_def)
qed


text \<open>Sorting by epoch and then by the graph's own order puts every parent first.\<close>

lemma index_of_nth:
  assumes "distinct no" and "i < length no"
  shows "dict_get (dict_of (zip no [0..<length no])) (no ! i) x = i"
  using assms map_of_zip_nth [of no "[0..<length no]" i] by (simp add: dict_of_distinct_id dict_get_def)

lemma index_dep_order:
  assumes "distinct no" and "in_dep_order E no" and "(p, n) \<in> set E" and "n \<in> set no"
  shows "dict_get (dict_of (zip no [0..<length no])) p x < dict_get (dict_of (zip no [0..<length no])) n y"
proof -
  obtain as bs where no: "no = as @ n # bs" using assms(4) by (meson split_list)
  then have "p \<in> set as" using assms(2,3) by (auto simp: in_dep_order_def)
  then obtain i where i: "i < length as" "as ! i = p" by (auto simp: in_set_conv_nth)
  have "dict_get (dict_of (zip no [0..<length no])) p x = i"
    using index_of_nth [OF assms(1), of i x] i by (simp add: no nth_append)
  moreover have "dict_get (dict_of (zip no [0..<length no])) n y = length as"
    using index_of_nth [OF assms(1), of "length as" y] by (simp add: no)
  ultimately show ?thesis using i(1) by simp
qed

lemma sorted_before:
  assumes "sorted (map f (xs @ x # ys))" and "y \<in> set (xs @ x # ys)" and "f y < f x"
  shows "y \<in> set xs"
  using assms by (auto simp: sorted_append)

lemma filter_of_worker:
  assumes "distinct (map f items)"
  shows "map f (filter P items) = filter (\<lambda>n. n \<in> set (map f (filter P items))) (map f items)"
proof -
  have "f x \<in> f ` {y \<in> set items. P y} \<longleftrightarrow> P x" if "x \<in> set items" for x
    using that assms by (auto simp: distinct_map inj_on_def)
  then have "filter ((\<lambda>n. n \<in> f ` {y \<in> set items. P y}) \<circ> f) items = filter P items" by (auto intro!: filter_cong)
  then show ?thesis by (simp add: filter_map)
qed

lemma sorted_items_dep_order:
  assumes wf: "rg_wf g" and hs: "halo_solver g ws profiles d" and s: "solve d st = Inr (c, sched, plans)"
    and no: "in_dep_order (rg_dep_edges g) (rg_node_order g)"
  shows "in_dep_order (rg_dep_edges g) (map node_of (sorted_items sched (rg_node_order g)))"
  unfolding in_dep_order_def
proof (intro allI impI)
  fix xs n ys p
  assume split: "map node_of (sorted_items sched (rg_node_order g)) = xs @ n # ys" and edge: "(p, n) \<in> set (rg_dep_edges g)"
  let ?key = "item_key (rg_node_order g)"
  have d: "distinct (rg_node_order g)" and ids: "set (dict_keys (rg_nodes g)) = set (rg_node_order g)"
    and dk: "distinct (dict_keys (rg_nodes g))" using wf by (simp_all add: rg_wf_def)
  note f = halo_schedule_facts [OF wf hs s]
  obtain X Y e w where items: "sorted_items sched (rg_node_order g) = X @ (e, w, n) # Y" and X: "map node_of X = xs"
    using split by (auto simp: map_eq_append_conv node_of_def)
  have en: "(e, w, n) \<in> set sched" using items set_sorted_items [of sched "rg_node_order g"] by auto
  obtain op where op: "(n, op) \<in> set (rg_nodes g)" "p \<in> set (op_dependencies op)" and p: "p \<in> set (rg_node_order g)"
    using edge ids by (auto simp: rg_dep_edges_def set_rg_deps)
  have n: "n \<in> set (rg_node_order g)" using op(1) ids by force
  have "deps_of d n = op_dependencies op"
    using halo_solver_node [OF hs n] map_of_is_SomeI [OF dk op(1)] by (metis option.inject)
  then obtain e' w' where p': "(e', w', p) \<in> set sched" "e' \<le> e" using f(4) [OF en _ p] op(2) by auto
  have "?key (e', w', p) < ?key (e, w, n)"
    using p'(2) index_dep_order [OF d no edge n, of "10 ^ 9" "10 ^ 9"] by (auto simp: item_key_def less_prod_def)
  moreover have "sorted (map ?key (X @ (e, w, n) # Y))" using items sorted_sort_key [of ?key sched] by (simp add: sorted_items_def)
  moreover have "(e', w', p) \<in> set (X @ (e, w, n) # Y)" using p'(1) items set_sorted_items [of sched "rg_node_order g"] by simp
  ultimately have "(e', w', p) \<in> set X" by (metis sorted_before)
  then show "p \<in> set xs" unfolding X [symmetric] by force
qed

lemma halo_schedule_ok:
  assumes wf: "rg_wf g" and nonempty: "rg_nodes g \<noteq> []"
    and run: "fst (generate_schedule E h g names profiles results) = Inr a"
  shows "distinct (dict_keys a) \<and> set (dict_keys a) = set (named_workers names)"
    and "mset (concat (dict_values a)) = mset (rg_node_order g)"
    and "n \<in> set (dict_get a w []) \<Longrightarrow> map_of (rg_nodes g) n = Some op \<Longrightarrow> is_gpu_backend (op_backend op) \<longleftrightarrow> has_gpu profiles w"
    and "in_dep_order (rg_dep_edges g) (rg_node_order g) \<Longrightarrow>
      \<exists>order. mset order = mset (rg_node_order g) \<and> in_dep_order (rg_dep_edges g) order \<and>
        (\<forall>w. dict_get a w [] = filter (\<lambda>n. n \<in> set (dict_get a w [])) order)"
proof -
  let ?ws = "named_workers names"
  obtain d rows sched c plans h1 hg deps workers options choices t h2 st where ws: "?ws \<noteq> []"
    and p: "prepare_problem h1 g ?ws profiles rows = Inr (hg, deps, workers, options, choices, t, h2)"
    and d: "make_solver (halo_solver_args E h2 t hg deps workers (rg_node_order g) choices options) = Inr d"
    and s: "solve d st = Inr (c, sched, plans)" and a: "a = group_schedule_by_worker sched (dict_keys workers) (rg_node_order g)"
    using generate_schedule_run [OF run nonempty] unfolding named_workers_def by metis
  note hs = halo_solver_made [OF wf ws p d]
  note f = halo_schedule_facts [OF wf hs s]
  note wt = workers_table(1,2) [OF prepare_problem_parts(2) [OF p]]
  note ha = halo_assignment [OF wf hs s wt, folded a]
  show "distinct (dict_keys a) \<and> set (dict_keys a) = set ?ws" using ha(1,2) by simp
  show "mset (concat (dict_values a)) = mset (rg_node_order g)" by (rule ha(3))
  show "is_gpu_backend (op_backend op) \<longleftrightarrow> has_gpu profiles w"
    if "n \<in> set (dict_get a w [])" "map_of (rg_nodes g) n = Some op"
    using ha(5) [OF that(1)] f(3) [OF _ that(2)] by blast
  let ?items = "sorted_items sched (rg_node_order g)"
  assume no: "in_dep_order (rg_dep_edges g) (rg_node_order g)"
  have perm: "mset (map node_of ?items) = mset (rg_node_order g)" using f(1) by (simp add: sorted_items_def)
  have "distinct (map node_of ?items)" using perm wf by (metis mset_eq_imp_distinct_iff rg_wf_def)
  moreover have "dict_get a w [] = map node_of (filter (\<lambda>x. fst (snd x) = w) ?items)" for w
    unfolding a by (rule group_schedule(1)) (use f(2) wt(2) in fastforce)
  ultimately have "dict_get a w [] = filter (\<lambda>n. n \<in> set (dict_get a w [])) (map node_of ?items)" for w
    using filter_of_worker by metis
  with perm sorted_items_dep_order [OF wf hs s no]
  show "\<exists>order. mset order = mset (rg_node_order g) \<and> in_dep_order (rg_dep_edges g) order \<and>
        (\<forall>w. dict_get a w [] = filter (\<lambda>n. n \<in> set (dict_get a w [])) order)" by blast
qed

section \<open>When a schedule exists\<close>

text \<open>
  A graph the optimizer can schedule: an acyclic graph whose ops it knows, whose models' sizes it can
  read, whose payloads the validation accepts, and workers of the kinds the ops need.
\<close>

fun returns :: "'a result \<Rightarrow> bool" where
  "returns (Inr x) \<longleftrightarrow> True"
| "returns (Inl e) \<longleftrightarrow> False"

lemma returns_iff: "returns x \<longleftrightarrow> (\<exists>y. x = Inr y)"
  by (cases x) auto

definition schedulable_node :: "halo_env \<Rightarrow> node \<Rightarrow> bool" where
  "schedulable_node E nd \<longleftrightarrow>
     (if nd_engine nd = Some ''vllm'' then returns (model_size_b nd) \<and>
        (case classify_multimodal_node E nd of Inl e \<Rightarrow> False
         | Inr t \<Rightarrow> t = IMAGE_GENERATION \<longrightarrow> returns (parse_diffusion_inference_config E nd))
      else nd_engine nd = Some ''db'' \<and> nd_type nd = ''data_retrieval'')"

definition schedulable :: "halo_env \<Rightarrow> runtime_graph \<Rightarrow> string list \<Rightarrow> worker_profiles \<Rightarrow> bool" where
  "schedulable E g ws profiles \<longleftrightarrow>
     rg_wf g \<and> acyclic (set (rg_dep_edges g)) \<and> ws \<noteq> [] \<and>
     list_all (\<lambda>(n, op). distinct (op_dependencies op) \<and>
       (case halo_node n op of Inl e \<Rightarrow> False | Inr nd \<Rightarrow> hashable_parent nd \<and> schedulable_node E nd) \<and>
       (is_gpu_backend (op_backend op) \<longrightarrow> list_ex (has_gpu profiles) ws) \<and>
       (\<not> is_gpu_backend (op_backend op) \<longrightarrow> list_ex (\<lambda>w. \<not> has_gpu profiles w) ws)) (rg_nodes g)"

lemma schedulable_op:
  assumes "schedulable E g ws profiles" and "n \<in> set (rg_node_order g)"
  obtains op nd where "map_of (rg_nodes g) n = Some op" "halo_node n op = Inr nd" "hashable_parent nd" "schedulable_node E nd"
    "distinct (op_dependencies op)" "is_gpu_backend (op_backend op) \<longrightarrow> (\<exists>w \<in> set ws. has_gpu profiles w)"
    "\<not> is_gpu_backend (op_backend op) \<longrightarrow> (\<exists>w \<in> set ws. \<not> has_gpu profiles w)"
proof -
  have "n \<in> set (dict_keys (rg_nodes g))" using assms by (auto simp: schedulable_def rg_wf_def)
  then obtain op where op: "map_of (rg_nodes g) n = Some op" by (cases "map_of (rg_nodes g) n") (auto simp: map_of_eq_None_iff)
  then have "(n, op) \<in> set (rg_nodes g)" by (rule map_of_SomeD)
  then have "distinct (op_dependencies op) \<and>
       (case halo_node n op of Inl e \<Rightarrow> False | Inr nd \<Rightarrow> hashable_parent nd \<and> schedulable_node E nd) \<and>
       (is_gpu_backend (op_backend op) \<longrightarrow> list_ex (has_gpu profiles) ws) \<and>
       (\<not> is_gpu_backend (op_backend op) \<longrightarrow> list_ex (\<lambda>w. \<not> has_gpu profiles w) ws)"
    using assms(1) by (auto simp: schedulable_def list_all_iff)
  then show ?thesis using that op by (auto simp: list_ex_iff split: sum.splits)
qed

lemma exec_cost_returns:
  assumes "schedulable_node E nd"
  shows "\<exists>c. exec_cost E h nd w = Inr c" and "\<exists>c. model_init_cost h nd m = Inr c"
proof -
  have "returns (exec_cost E h nd w) \<and> returns (model_init_cost h nd m)"
  proof (cases "nd_engine nd = Some ''vllm''")
    case True
    obtain y where y: "model_size_b nd = Inr y" using assms True by (auto simp: schedulable_node_def returns_iff)
    obtain t where t: "classify_multimodal_node E nd = Inr t"
      and diff: "t = IMAGE_GENERATION \<longrightarrow> returns (parse_diffusion_inference_config E nd)"
      using assms True by (auto simp: schedulable_node_def split: sum.splits)
    obtain k where k: "t = IMAGE_GENERATION \<longrightarrow> parse_diffusion_inference_config E nd = Inr k" using diff by (auto simp: returns_iff)
    show ?thesis
      using k by (cases t) (simp_all add: exec_cost_def model_init_cost_def compute_gpu_exec_cost_def True y t Let_def)
  next
    case False
    then show ?thesis using assms by (simp add: schedulable_node_def exec_cost_def model_init_cost_def)
  qed
  then show "\<exists>c. exec_cost E h nd w = Inr c" and "\<exists>c. model_init_cost h nd m = Inr c" by (simp_all add: returns_iff)
qed

lemma map_engine_schedulable:
  assumes "halo_node n op = Inr nd" and "schedulable_node E nd"
  shows "validate_node op = Inr ()" and "str_lower (str_strip (op_backend op)) \<noteq> ''http''"
proof -
  note hf = halo_node_fields [OF assms(1)]
  obtain e where e: "nd_engine nd = Some e" "map_engine (op_backend op) (op_task_type op) = Inr e" using hf(1,2) by auto
  have e2: "e = ''vllm'' \<or> e = ''db'' \<and> op_task_type op = ''data_retrieval''"
    using assms(2) e(1) hf(4) by (auto simp: schedulable_node_def split: if_splits)
  have db: "str_lower (str_strip (op_backend op)) = ''data_retrieval''" if "e = ''db''"
    using e(2) that by (auto simp: map_engine_def Let_def split: if_splits)
  have lower: "str_lower (str_strip ''data_retrieval'') = ''data_retrieval''" by code_simp
  show "validate_node op = Inr ()" using e2 db lower by (auto simp: validate_node_def e(2))
  show "str_lower (str_strip (op_backend op)) \<noteq> ''http''" using map_engine_cases(3) [OF e(2)] e2 by auto
qed

lemma checks_pass:
  assumes "schedulable E g ws profiles"
  shows "assert_no_http_nodes g = Inr ()" and "validate_supported_runtime_nodes g = Inr ()"
proof -
  have "\<exists>op. dict_index (rg_nodes g) n = Inr op \<and> str_lower (str_strip (op_backend op)) \<noteq> ''http''"
    if "n \<in> set (rg_node_order g)" for n
    using schedulable_op [OF assms that] map_engine_schedulable(2) by (metis dict_index_Inr_iff)
  then have "\<exists>ops. emap (dict_index (rg_nodes g)) (rg_node_order g) = Inr ops \<and>
      list_all (\<lambda>op. str_lower (str_strip (op_backend op)) \<noteq> ''http'') ops \<and> length ops = length (rg_node_order g)"
    by (rule emap_ok)
  then show "assert_no_http_nodes g = Inr ()" by (auto simp: assert_no_http_nodes_def list_all_iff filter_empty_conv)
  have "\<exists>u. ebind (dict_index (rg_nodes g) n) validate_node = Inr u" if "n \<in> set (rg_node_order g)" for n
    using schedulable_op [OF assms that] map_engine_schedulable(1) by (metis ebind.simps(2) dict_index_Inr_iff)
  then have "\<exists>us. emap (\<lambda>n. ebind (dict_index (rg_nodes g) n) validate_node) (rg_node_order g) = Inr us" by (rule emap_total)
  then show "validate_supported_runtime_nodes g = Inr ()" by (auto simp: validate_supported_runtime_nodes_def)
qed

lemma graph_builds:
  assumes "schedulable E g ws profiles"
  shows "\<exists>hg deps. build_halo_graph g = Inr (hg, deps)"
proof -
  have "\<exists>r. ebind (dict_index (rg_nodes g) n) (\<lambda>op. ebind (halo_node n op) (\<lambda>nd. Inr (n, op_dependencies op, nd))) = Inr r"
    if n: "n \<in> set (rg_node_order g)" for n
  proof -
    obtain op nd where "map_of (rg_nodes g) n = Some op" "halo_node n op = Inr nd" by (rule schedulable_op [OF assms n])
    then show ?thesis by (simp add: dict_index_def)
  qed
  then have "\<exists>rows. emap (\<lambda>n. ebind (dict_index (rg_nodes g) n) (\<lambda>op. ebind (halo_node n op) (\<lambda>nd. Inr (n, op_dependencies op, nd))))
      (rg_node_order g) = Inr rows" by (rule emap_total)
  then show ?thesis by (auto simp: build_halo_graph_def)
qed

lemma workers_build:
  assumes "schedulable E g ws profiles"
  shows "\<exists>workers. build_workers ws profiles g = Inr workers"
proof -
  have "\<exists>w \<in> set ws. has_gpu profiles w" if "(n, op) \<in> set (rg_nodes g)" "is_gpu_backend (op_backend op)" for n op
    using assms that by (auto simp: schedulable_def list_all_iff list_ex_iff)
  moreover have "(w, the_worker profiles w) \<in> set (dict_of (map (\<lambda>w. (w, the_worker profiles w)) ws))" if "w \<in> set ws" for w
    using map_of_dict_of_image [of "the_worker profiles" ws w] that by (auto intro: map_of_SomeD)
  ultimately show ?thesis
    by (fastforce simp: build_workers_def the_worker_def list_ex_iff Let_def)
qed

lemma problem_builds:
  assumes sch: "schedulable E g ws profiles"
  shows "\<exists>hg deps workers options choices t h2. prepare_problem h g ws profiles rows = Inr (hg, deps, workers, options, choices, t, h2)"
proof -
  have order: "distinct (rg_node_order g)" using sch by (simp add: schedulable_def rg_wf_def)
  obtain hg deps where hg: "build_halo_graph g = Inr (hg, deps)" using graph_builds [OF sch] by blast
  obtain workers where w: "build_workers ws profiles g = Inr workers" using workers_build [OF sch] by blast
  note hgn = build_halo_graph_nodes [OF hg order]
  note wt = workers_table [OF w]
  have node: "\<exists>op. schedulable_node E nd \<and> halo_node n op = Inr nd \<and>
      (is_gpu_backend (op_backend op) \<longrightarrow> (\<exists>w \<in> set ws. has_gpu profiles w)) \<and>
      (\<not> is_gpu_backend (op_backend op) \<longrightarrow> (\<exists>w \<in> set ws. \<not> has_gpu profiles w))" if "(n, nd) \<in> set (gp_nodes hg)" for n nd
  proof -
    have "n \<in> set (dict_keys (gp_nodes hg))" using that by force
    then have n: "n \<in> set (rg_node_order g)" using hgn(1) by simp
    have "map_of (gp_nodes hg) n = Some nd" using that order hgn(1) by simp
    then show ?thesis using hgn(3) [OF n] schedulable_op [OF sch n] by (metis option.inject sum.inject(2))
  qed
  have "\<exists>r. (\<lambda>(n, nd). ebind (node_worker_options_of workers nd) (\<lambda>ws. Inr (n, ws))) x = Inr r" if x: "x \<in> set (gp_nodes hg)" for x
  proof -
    obtain n nd where nn: "x = (n, nd)" by (cases x)
    obtain op where op: "schedulable_node E nd" "halo_node n op = Inr nd"
      "is_gpu_backend (op_backend op) \<longrightarrow> (\<exists>w \<in> set ws. has_gpu profiles w)"
      "\<not> is_gpu_backend (op_backend op) \<longrightarrow> (\<exists>w \<in> set ws. \<not> has_gpu profiles w)"
      using node [of n nd] x unfolding nn by blast
    note hf = halo_node_fields [OF op(2)]
    have eng: "nd_engine nd = Some ''vllm'' \<longleftrightarrow> is_gpu_backend (op_backend op)"
      using map_engine_cases(1) [OF hf(1)] hf(2) by auto
    have "\<exists>os. node_worker_options_of workers nd = Inr os"
    proof (cases "nd_engine nd = Some ''vllm''")
      case True
      then have "gpu_workers_of workers \<noteq> []" using op(3) eng wt(4) by fastforce
      then show ?thesis using True by (simp add: node_worker_options_of_def)
    next
      case False
      then have "cpu_workers_of workers \<noteq> []" using op(4) eng wt(5) by fastforce
      then show ?thesis using False op(1) by (simp add: node_worker_options_of_def schedulable_node_def)
    qed
    then show ?thesis by (auto simp: nn)
  qed
  then have "\<exists>rs. emap (\<lambda>(n, nd). ebind (node_worker_options_of workers nd) (\<lambda>ws. Inr (n, ws))) (gp_nodes hg) = Inr rs"
    by (rule emap_total)
  then obtain options where o: "build_node_worker_options hg workers = Inr options" by (auto simp: build_node_worker_options_def)
  have "\<exists>v. ebind (dict_index (rg_nodes g) n) (\<lambda>op. ebind (is_data_profile_candidate op) (\<lambda>candidate.
      let choices = extract_data_profile_choices_for_op n op rows
      in Inr (if \<not> candidate \<or> choices = [] then u else AList.update (n, query_name_of n) choices u))) = Inr v"
    if n: "n \<in> set (rg_node_order g)" for n u
  proof -
    obtain op nd where "map_of (rg_nodes g) n = Some op" "halo_node n op = Inr nd" by (rule schedulable_op [OF sch n])
    then show ?thesis
      using halo_node_fields(1) by (auto simp: is_data_profile_candidate_def dict_index_def Let_def ebind_Inr_iff)
  qed
  then have "\<exists>choices. build_data_profile_plan_choices g rows = Inr choices"
    unfolding build_data_profile_plan_choices_def by (rule efold_ok)
  then obtain choices where c: "build_data_profile_plan_choices g rows = Inr choices" by blast
  have "\<exists>s. model_size_b nd = Inr s" if "nd \<in> set (filter (\<lambda>nd. nd_engine nd = Some ''vllm'') (dict_values (gp_nodes hg)))" for nd
    using that node by (fastforce simp: schedulable_node_def returns_iff)
  then have "\<exists>ss. emap model_size_b (filter (\<lambda>nd. nd_engine nd = Some ''vllm'') (dict_values (gp_nodes hg))) = Inr ss" by (rule emap_total)
  then have "\<exists>th. resolve_and_apply_tuning h hg workers choices = Inr th"
    by (auto simp: resolve_and_apply_tuning_def build_tuning_context_def Let_def)
  then show ?thesis using hg w o c by (auto simp: prepare_problem_def simp del: split_paired_Ex)
qed

lemma make_solver_ok:
  assumes "sa_node_ids a = Some ids" and "sa_gpu_worker_ids a = Some gs" and "sa_cpu_worker_ids a = Some cs"
    and "sa_cpu_cost_mode a = Some ''default''" and "\<And>n. n \<in> set ids \<Longrightarrow> map_of (gp_nodes (sa_graph a)) n \<noteq> None"
    and "\<And>n w. n \<in> set ids \<Longrightarrow> map_option nd_engine (map_of (gp_nodes (sa_graph a)) n) = Some (Some ''vllm'') \<Longrightarrow>
      w \<in> set (dict_get (sa_node_worker_options a) n (sa_worker_ids a)) \<Longrightarrow> map_of (sa_workers a) w \<noteq> None"
  shows "\<exists>d. make_solver a = Inr d"
proof -
  have mode: "resolve_cpu_cost_mode (Some ''default'') = Inr ''default''" by code_simp
  have "\<exists>y. dict_index (gp_nodes (sa_graph a)) n = Inr y" if "n \<in> set ids" for n
    using assms(5) [OF that] by (auto simp: dict_index_def)
  then have "\<exists>ys. emap (dict_index (gp_nodes (sa_graph a))) ids = Inr ys" by (rule emap_total)
  moreover have "\<exists>y. dict_index (sa_workers a) w = Inr y"
    if "w \<in> set (concat (map (\<lambda>n. dict_get (sa_node_worker_options a) n (sa_worker_ids a))
        (filter (\<lambda>n. map_option nd_engine (map_of (gp_nodes (sa_graph a)) n) = Some (Some ''vllm'')) ids)))" for w
    using that assms(6) by (fastforce simp: dict_index_def)
  then have "\<exists>ys. emap (dict_index (sa_workers a)) (concat (map (\<lambda>n. dict_get (sa_node_worker_options a) n (sa_worker_ids a))
        (filter (\<lambda>n. map_option nd_engine (map_of (gp_nodes (sa_graph a)) n) = Some (Some ''vllm'')) ids))) = Inr ys"
    by (rule emap_total)
  ultimately show ?thesis
    using assms(1-4) mode
    by (auto simp: make_solver_def split_workers_def option_default_def Let_def split: prod.splits)
qed


lemma solver_builds:
  assumes sch: "schedulable E g ws profiles"
    and p: "prepare_problem h g ws profiles rows = Inr (hg, deps, workers, options, choices, t, h2)"
  shows "\<exists>d. make_solver (halo_solver_args E h2 t hg deps workers (rg_node_order g) choices options) = Inr d"
proof -
  note pp = prepare_problem_parts [OF p]
  have order: "distinct (rg_node_order g)" using sch by (simp add: schedulable_def rg_wf_def)
  note hgn = build_halo_graph_nodes [OF pp(1) order]
  note wt = workers_table [OF pp(2)]
  have mode: "tn_cpu_cost_mode t = ''default''"
    using pp(5) by (auto simp: resolve_and_apply_tuning_def resolve_dp_tuning_def ebind_Inr_iff Let_def)
  show ?thesis
  proof (rule make_solver_ok)
    show "map_of (gp_nodes (sa_graph (halo_solver_args E h2 t hg deps workers (rg_node_order g) choices options))) n \<noteq> None"
      if "n \<in> set (rg_node_order g)" for n
      using hgn(3) [OF that] by (auto simp: halo_solver_args_def Let_def)
  next
    fix n w assume n: "n \<in> set (rg_node_order g)"
      and w: "w \<in> set (dict_get (sa_node_worker_options (halo_solver_args E h2 t hg deps workers (rg_node_order g) choices options)) n
        (sa_worker_ids (halo_solver_args E h2 t hg deps workers (rg_node_order g) choices options)))"
    obtain nd where nd: "map_of (gp_nodes hg) n = Some nd" using hgn(3) [OF n] by blast
    have "distinct (dict_keys (gp_nodes hg))" using hgn(1) order by simp
    from worker_options_table [OF pp(3) this nd] obtain os where os: "map_of options n = Some os"
      "node_worker_options_of workers nd = Inr os" by blast
    have "set os \<subseteq> set ws" using node_worker_options_set(2,3) [OF os(2)] wt(4,5) by blast
    then have "w \<in> set ws" using w os(1) by (auto simp: halo_solver_args_def dict_get_def Let_def)
    then show "map_of (sa_workers (halo_solver_args E h2 t hg deps workers (rg_node_order g) choices options)) w \<noteq> None"
      using wt(3) by (simp add: halo_solver_args_def Let_def)
  qed (simp_all add: halo_solver_args_def mode Let_def)
qed

lemma halo_dep_edges:
  assumes wf: "rg_wf g" and hs: "halo_solver g ws profiles d"
  shows "set (dep_edges d) \<subseteq> set (rg_dep_edges g)"
proof
  fix e assume e: "e \<in> set (dep_edges d)"
  obtain p n where pn: "e = (p, n)" by (cases e)
  note h = halo_solverD [OF hs]
  have n: "n \<in> set (rg_node_order g)" "p \<in> set (deps_of d n)" "p \<in> set (rg_node_order g)"
    using e unfolding pn dep_edges_def h(1) by auto
  obtain op where op: "map_of (rg_nodes g) n = Some op" "deps_of d n = op_dependencies op" by (rule halo_solver_node [OF hs n(1)])
  have "(n, op) \<in> set (rg_nodes g)" by (rule map_of_SomeD [OF op(1)])
  then show "e \<in> set (rg_dep_edges g)"
    using n op(2) wf unfolding pn rg_dep_edges_def by (auto simp: set_rg_deps rg_wf_def)
qed

lemma halo_dp_ready:
  assumes sch: "schedulable E g ws profiles" and hs: "halo_solver g ws profiles d"
    and cost: "dp_exec_cost d = exec_cost E h2" "dp_model_init_cost d = model_init_cost h2"
  shows "dp_ready d"
proof -
  note h = halo_solverD [OF hs]
  have wf: "rg_wf g" and acyc: "acyclic (set (rg_dep_edges g))" using sch by (simp_all add: schedulable_def)
  have node: "distinct (deps_of d n) \<and> (\<exists>nd. map_of (dp_nodes d) n = Some nd \<and> hashable_parent nd \<and> schedulable_node E nd) \<and>
      (is_gpu_node d n \<longrightarrow> (\<exists>w \<in> set (dp_gpu_worker_ids d). w \<in> set (dict_get (dp_node_worker_options d) n (dp_gpu_worker_ids d))))"
    if n: "n \<in> set (rg_node_order g)" for n
  proof -
    obtain op nd where a: "map_of (rg_nodes g) n = Some op" "map_of (dp_nodes d) n = Some nd" "halo_node n op = Inr nd"
      "deps_of d n = op_dependencies op"
      "is_gpu_node d n \<Longrightarrow> set (dict_get (dp_node_worker_options d) n (dp_gpu_worker_ids d)) = set (dp_gpu_worker_ids d)"
      "is_gpu_node d n \<Longrightarrow> dp_gpu_worker_ids d \<noteq> []" using halo_solver_node [OF hs n] by metis
    obtain op' nd' where b: "map_of (rg_nodes g) n = Some op'" "halo_node n op' = Inr nd'" "hashable_parent nd'"
      "schedulable_node E nd'" "distinct (op_dependencies op')" by (rule schedulable_op [OF sch n])
    have "op' = op" "nd' = nd" using a(1,3) b(1,2) by auto
    then show ?thesis using a b by (cases "dp_gpu_worker_ids d") auto
  qed
  have gpus: "set (dp_gpu_worker_ids d) \<subseteq> set (dp_worker_ids d)" using h(4,6) by auto
  have workers: "\<forall>w \<in> set (dp_worker_ids d). map_of (dp_workers d) w \<noteq> None" using h(4,5) by blast
  have acyc': "acyclic (set (dep_edges d))" by (rule acyclic_subset [OF acyc halo_dep_edges [OF wf hs]])
  have costs: "(\<exists>c. dp_exec_cost d nd w = Inr c) \<and> (\<exists>c. dp_model_init_cost d nd m = Inr c)"
    if "n \<in> set (rg_node_order g)" "map_of (dp_nodes d) n = Some nd" for n nd w m
    using node [OF that(1)] that(2) exec_cost_returns unfolding cost by auto
  show ?thesis
    unfolding dp_ready_def h(1)
    using halo_solver_wf [OF wf hs] acyc' gpus workers h(3) node costs by blast
qed

lemma initial_states_fit: "states_ok d (map (\<lambda>i. \<lparr>ws_idx = i, ws_model = -1, ws_node = -1\<rparr>) [0..<length (dp_worker_ids d)])"
  by (auto simp: states_ok_def)

lemma schedule_found:
  assumes sch: "schedulable E g ws profiles"
    and p: "prepare_problem h g ws profiles rows = Inr (hg, deps, workers, options, choices, t, h2)"
  shows "\<exists>a. schedule_with E g (dict_keys workers) hg deps workers options choices (t, h2) = Inr a"
proof -
  have wf: "rg_wf g" and ws: "ws \<noteq> []" using sch by (simp_all add: schedulable_def)
  obtain d where d: "make_solver (halo_solver_args E h2 t hg deps workers (rg_node_order g) choices options) = Inr d"
    using solver_builds [OF sch p] by blast
  note hs = halo_solver_made [OF wf ws p d]
  note wt = workers_table(1,2) [OF prepare_problem_parts(2) [OF p]]
  have cost: "dp_exec_cost d = exec_cost E h2" "dp_model_init_cost d = model_init_cost h2"
    using make_solver_fields(1,2) [OF d] by (simp_all add: halo_solver_args_def option_default_def Let_def)
  have ids: "dp_worker_ids d = dict_keys workers" using make_solver_parts(4) [OF d] by (simp add: halo_solver_args_def Let_def)
  have "\<exists>sol. solve d (Some (map (\<lambda>i. \<lparr>ws_idx = i, ws_model = -1, ws_node = -1\<rparr>) [0..<length (dict_keys workers)])) = Inr sol"
    by (rule solve_succeeds [OF halo_dp_ready [OF sch hs cost]]) (use initial_states_fit [of d] in \<open>simp add: ids\<close>)
  then obtain c sched plans where s:
    "solve d (Some (map (\<lambda>i. \<lparr>ws_idx = i, ws_model = -1, ws_node = -1\<rparr>) [0..<length (dict_keys workers)])) = Inr (c, sched, plans)"
    by (metis prod.exhaust)
  let ?a = "group_schedule_by_worker sched (dict_keys workers) (rg_node_order g)"
  note ha = halo_assignment [OF wf hs s wt]
  have order: "distinct (rg_node_order g)" "set (rg_node_order g) = set (dict_keys (rg_nodes g))" using wf by (simp_all add: rg_wf_def)
  have "validate_schedule ?a g (dict_keys workers) = Inr ()"
    unfolding validate_schedule_ok_iff using ha(2,4) wt(2) order by (metis mset_eq_imp_distinct_iff mset_eq_setD)
  then show ?thesis using d s by (simp add: schedule_with_def Let_def)
qed

lemma generate_schedule_found:
  assumes "schedulable E g (named_workers names) profiles"
    and "ev_disable_profile E \<or> (\<exists>rows. parse_data_profile_results E results = Inr rows)"
  shows "\<exists>a. fst (generate_schedule E h g names profiles results) = Inr a"
proof -
  have ws: "filter (\<lambda>w. w \<noteq> []) (map str_strip names) \<noteq> []" using assms(1) by (simp add: schedulable_def named_workers_def)
  obtain rows where rows: "(if ev_disable_profile E then Inr [] else parse_data_profile_results E results) = Inr rows"
    using assms(2) by (cases "ev_disable_profile E") auto
  let ?h = "h\<lparr>hl_input_query_count := resolve_input_query_count h g\<rparr>"
  obtain hg deps workers options choices t h2 where
    p: "prepare_problem ?h g (named_workers names) profiles rows = Inr (hg, deps, workers, options, choices, t, h2)"
    using problem_builds [OF assms(1)] by blast
  obtain a where a: "schedule_with E g (dict_keys workers) hg deps workers options choices (t, h2) = Inr a"
    using schedule_found [OF assms(1) p] by blast
  show ?thesis
    using ws rows p a checks_pass [OF assms(1)]
    by (cases "rg_nodes g = []") (simp_all add: generate_schedule_def named_workers_def [symmetric] Let_def)
qed

section \<open>The baseline\<close>

definition baseline_target :: "runtime_graph \<Rightarrow> string list \<Rightarrow> string list \<Rightarrow> string \<Rightarrow> string" where
  "baseline_target g gpu cpu n =
     hd (if op_backend (the (map_of (rg_nodes g) n)) \<in> set gpu_backends then gpu else cpu)"

lemma baseline_step_ok:
  assumes "baseline_step g gpu cpu n a = Inr b"
  shows "dict_keys b = dict_keys a" and "dict_get b w [] = dict_get a w [] @ filter (\<lambda>n. baseline_target g gpu cpu n = w) [n]"
    and "baseline_target g gpu cpu n \<in> set (dict_keys a)"
proof -
  let ?t = "baseline_target g gpu cpu n"
  obtain ns where ns: "map_of a ?t = Some ns" and b: "b = AList.update ?t (ns @ [n]) a"
    using assms by (auto simp: baseline_step_def baseline_target_def nth_result_def hd_conv_nth ebind_Inr_iff dict_index_Inr_iff split: if_splits)
  have mem: "?t \<in> set (dict_keys a)" using map_of_SomeD [OF ns] by force
  show "?t \<in> set (dict_keys a)" by (rule mem)
  show "dict_keys b = dict_keys a" unfolding b dict_keys_update using mem by (simp only: if_True)
  show "dict_get b w [] = dict_get a w [] @ filter (\<lambda>n. baseline_target g gpu cpu n = w) [n]"
    using ns by (auto simp: b dict_get_update) (auto simp: dict_get_def)
qed

lemma baseline_steps_ok:
  assumes "efold (baseline_step g gpu cpu) ns a = Inr b"
  shows "dict_keys b = dict_keys a \<and> (\<forall>w. dict_get b w [] = dict_get a w [] @ filter (\<lambda>n. baseline_target g gpu cpu n = w) ns) \<and>
    (\<forall>n \<in> set ns. baseline_target g gpu cpu n \<in> set (dict_keys a))"
  using assms
proof (induction ns arbitrary: a)
  case (Cons n ns)
  obtain a' where s: "baseline_step g gpu cpu n a = Inr a'" "efold (baseline_step g gpu cpu) ns a' = Inr b"
    using Cons.prems by (auto simp: ebind_Inr_iff)
  note step = baseline_step_ok [OF s(1)]
  from Cons.IH [OF s(2)] step show ?case by auto
qed simp

lemma baseline_schedule_ok:
  assumes wf: "rg_wf g" and run: "baseline_schedule g names profiles = Inr a"
  shows "\<exists>order. rg_topological_order g = Inr order \<and> set (dict_keys a) = set names \<and>
    mset (concat (dict_values a)) = mset (rg_node_order g) \<and>
    (\<forall>w. dict_get a w [] = filter (\<lambda>n. n \<in> set (dict_get a w [])) order) \<and>
    (\<forall>w n op. n \<in> set (dict_get a w []) \<and> map_of (rg_nodes g) n = Some op \<and>
       (\<exists>v \<in> set names. profile_has_gpu profiles v = Inr (op_backend op \<in> set gpu_backends)) \<longrightarrow>
       profile_has_gpu profiles w = Inr (op_backend op \<in> set gpu_backends))"
proof -
  obtain kinds where kinds: "emap (\<lambda>w. ebind (profile_has_gpu profiles w) (\<lambda>b. Inr (w, b))) names = Inr kinds"
    using run by (auto simp: baseline_schedule_def ebind_Inr_iff)
  define gpu where "gpu = (if map fst (filter snd kinds) = [] then names else map fst (filter snd kinds))"
  define cpu where "cpu = (if map fst (filter (\<lambda>k. \<not> snd k) kinds) = [] then names else map fst (filter (\<lambda>k. \<not> snd k) kinds))"
  let ?a0 = "dict_of (map (\<lambda>w. (w, [] :: string list)) names)"
  obtain order where o: "rg_topological_order g = Inr order" and fold: "efold (baseline_step g gpu cpu) order ?a0 = Inr a"
    using run kinds unfolding baseline_schedule_def gpu_def cpu_def
    by (auto simp: ebind_Inr_iff Let_def)
  note st = baseline_steps_ok [OF fold]
  have keys0: "set (dict_keys ?a0) = set names" unfolding set_dict_keys_dict_of by (simp add: image_image)
  have keys: "set (dict_keys a) = set names" "distinct (dict_keys a)"
    using st keys0 dict_of_distinct_keys by (simp, metis)
  have empty: "dict_get ?a0 w [] = []" for w by (simp add: dict_get_def map_of_dict_of_image split: option.splits)
  have lists: "dict_get a w [] = filter (\<lambda>n. baseline_target g gpu cpu n = w) order" for w using st empty by simp
  have top: "distinct order \<and> set order = set (rg_node_order g)"
    using rg_topological_order_ok [OF wf] unfolding o by simp
  have "mset (concat (dict_values a)) = mset (concat (map (\<lambda>w. filter (\<lambda>n. baseline_target g gpu cpu n = w) order) (dict_keys a)))"
    unfolding concat_dict_values [OF keys(2)] lists ..
  also have "\<dots> = mset order" by (rule mset_filter_partition [OF keys(2)]) (use st in simp)
  also have "\<dots> = mset (rg_node_order g)" using top wf by (simp add: set_eq_iff_mset_eq_distinct [symmetric] rg_wf_def)
  finally have perm: "mset (concat (dict_values a)) = mset (rg_node_order g)" .
  have sub: "dict_get a w [] = filter (\<lambda>n. n \<in> set (dict_get a w [])) order" for w
    unfolding lists by (rule filter_cong) auto
  have kind: "profile_has_gpu profiles w = Inr b" if "(w, b) \<in> set kinds" for w b
    using emap_mem_rev [OF kinds that] by (auto simp: ebind_Inr_iff)
  have kind': "(v, b) \<in> set kinds" if "v \<in> set names" "profile_has_gpu profiles v = Inr b" for v b
    using emap_mem [OF kinds that(1)] that(2) by auto
  have same: "profile_has_gpu profiles w = Inr (op_backend op \<in> set gpu_backends)"
    if n: "n \<in> set (dict_get a w [])" "map_of (rg_nodes g) n = Some op"
      and v: "v \<in> set names" "profile_has_gpu profiles v = Inr (op_backend op \<in> set gpu_backends)" for w n op v
  proof (cases "op_backend op \<in> set gpu_backends")
    case True
    have ne: "map fst (filter snd kinds) \<noteq> []" using kind' [OF v] True by (force simp: filter_empty_conv)
    then have "gpu \<noteq> []" "set gpu \<subseteq> {w. (w, True) \<in> set kinds}" by (auto simp: gpu_def Let_def)
    moreover have "w = hd gpu" using n True by (auto simp: lists baseline_target_def)
    ultimately have "(w, True) \<in> set kinds" using hd_in_set by blast
    then show ?thesis using kind True by simp
  next
    case False
    have ne: "map fst (filter (\<lambda>k. \<not> snd k) kinds) \<noteq> []" using kind' [OF v] False by (force simp: filter_empty_conv)
    then have "cpu \<noteq> []" "set cpu \<subseteq> {w. (w, False) \<in> set kinds}" by (auto simp: cpu_def Let_def)
    moreover have "w = hd cpu" using n False by (auto simp: lists baseline_target_def)
    ultimately have "(w, False) \<in> set kinds" using hd_in_set by blast
    then show ?thesis using kind False by simp
  qed
  show ?thesis using o keys(1) perm sub same by blast
qed

section \<open>An example\<close>

text \<open>A prompt, a query over its answer, a second prompt, on one GPU and one CPU worker.\<close>

definition example_op :: "string \<Rightarrow> string \<Rightarrow> string \<Rightarrow> string \<Rightarrow> string list \<Rightarrow> runtime_op" where
  "example_op n task backend model deps =
     \<lparr>op_node_id = n, op_task_type = task, op_backend = backend, op_model = model, op_data_spec = [], op_model_spec = [],
      op_inference_spec = [], op_dependencies = deps, op_output_spec = None, op_condition = None\<rparr>"

definition example_graph :: runtime_graph where
  "example_graph =
     \<lparr>rg_nodes = [(''a'', example_op ''a'' ''inference'' ''vllm'' ''Qwen-7B'' []),
                  (''q'', example_op ''q'' ''data_retrieval'' ''data_retrieval'' '''' [''a'']),
                  (''b'', example_op ''b'' ''inference'' ''vllm'' ''Qwen-7B'' [''q''])],
      rg_node_order = [''a'', ''q'', ''b''], rg_output_node_map = [], rg_output_paths = [], rg_dsl_to_runtime = []\<rparr>"

definition example_env :: halo_env where
  "example_env = \<lparr>ev_vision_marker = \<lambda>_. Inr None, ev_diffusion_config = \<lambda>_. Inr default_diffusion_config,
     ev_profile_row = \<lambda>_. None, ev_disable_profile = True\<rparr>"

definition example_profiles :: worker_profiles where
  "example_profiles = [(''g0'', [(''has_gpu'', PBool True)]), (''c0'', [(''has_gpu'', PBool False)])]"

lemma example_workers: "named_workers [''g0'', '' c0 ''] = [''g0'', ''c0'']"
  by code_simp

lemma example_nodes:
  "list_all (\<lambda>(n, op). distinct (op_dependencies op) \<and>
       (case halo_node n op of Inl e \<Rightarrow> False | Inr nd \<Rightarrow> hashable_parent nd \<and> schedulable_node example_env nd) \<and>
       (is_gpu_backend (op_backend op) \<longrightarrow> list_ex (has_gpu example_profiles) [''g0'', ''c0'']) \<and>
       (\<not> is_gpu_backend (op_backend op) \<longrightarrow> list_ex (\<lambda>w. \<not> has_gpu example_profiles w) [''g0'', ''c0'']))
     (rg_nodes example_graph)"
  by code_simp

lemma example_graph_wf: "rg_wf example_graph" "rg_nodes example_graph \<noteq> []"
  "rg_dep_edges example_graph = [(''a'', ''q''), (''q'', ''b'')]"
  by code_simp+

lemma example_graph_order: "in_dep_order (rg_dep_edges example_graph) (rg_node_order example_graph)"
proof -
  have "in_dep_order [(''a'', ''q''), (''q'', ''b'' :: string)] ([] @ [''a''] @ [''q''] @ [''b''])"
    unfolding append_assoc [symmetric] in_dep_order_snoc by simp
  then show ?thesis unfolding example_graph_wf(3) by (simp add: example_graph_def)
qed

lemma example_schedulable: "schedulable example_env example_graph (named_workers [''g0'', '' c0 '']) example_profiles"
proof -
  have order: "rg_node_order example_graph = [''a'', ''q'', ''b'']" by (simp add: example_graph_def)
  have "acyclic (set (rg_dep_edges example_graph))"
    by (rule in_dep_order_acyclic [OF example_graph_order]) (simp_all add: example_graph_wf(3) order)
  then show ?thesis unfolding schedulable_def example_workers using example_graph_wf(1) example_nodes by simp
qed

lemma example_run: "\<exists>a. fst (generate_schedule example_env new_halo example_graph [''g0'', '' c0 ''] example_profiles None) = Inr a"
  by (rule generate_schedule_found [OF example_schedulable]) (simp add: example_env_def)

section \<open>What the optimizers promise\<close>

text \<open>
  C6: Whatever assignment the Halo optimizer returns for a well-formed graph is complete and fits the
  hardware: its keys are the selected workers, every node of the graph is on exactly one of them,
  nodes with a GPU backend are on workers with a GPU and all other nodes on workers without one.
\<close>

theorem generate_schedule_valid:
  assumes "rg_wf g" and "rg_nodes g \<noteq> []" and "fst (generate_schedule E h g names profiles results) = Inr a"
  shows "distinct (dict_keys a) \<and> set (dict_keys a) = set (filter (\<lambda>w. w \<noteq> []) (map str_strip names)) \<and>
    mset (concat (dict_values a)) = mset (rg_node_order g) \<and>
    (\<forall>w n op. n \<in> set (dict_get a w []) \<and> map_of (rg_nodes g) n = Some op \<longrightarrow>
       (is_gpu_backend (op_backend op) \<longleftrightarrow> has_gpu profiles w))"
  using halo_schedule_ok(1-3) [OF assms] by (auto simp: named_workers_def)

theorem generate_schedule_valid_witness:
  "\<exists>a. fst (generate_schedule example_env new_halo example_graph [''g0'', '' c0 ''] example_profiles None) = Inr a \<and>
     set (dict_keys a) = {''g0'', ''c0''} \<and> mset (concat (dict_values a)) = mset [''a'', ''q'', ''b''] \<and>
     ''q'' \<notin> set (dict_get a ''g0'' [])"
proof -
  obtain a where run: "fst (generate_schedule example_env new_halo example_graph [''g0'', '' c0 ''] example_profiles None) = Inr a"
    using example_run by blast
  note v = generate_schedule_valid [OF example_graph_wf(1,2) run]
  have q: "map_of (rg_nodes example_graph) ''q'' = Some (example_op ''q'' ''data_retrieval'' ''data_retrieval'' '''' [''a''])"
    by (simp add: example_graph_def)
  have "\<not> is_gpu_backend ''data_retrieval''" "has_gpu example_profiles ''g0''" by code_simp+
  then have "''q'' \<notin> set (dict_get a ''g0'' [])" using v q by (fastforce simp: example_op_def)
  with run v example_workers show ?thesis by (auto simp: named_workers_def example_graph_def)
qed

text \<open>
  C7: The assignment can be executed: when the graph's own order lists parents before children, there
  is one global order of all nodes in which no node precedes a parent and of which every worker's
  list is a part. So workers that run their lists front to back, waiting for parents on other
  workers, never block each other in a cycle.
\<close>

theorem generate_schedule_executable:
  assumes "rg_wf g" and "rg_nodes g \<noteq> []" and "fst (generate_schedule E h g names profiles results) = Inr a"
    and "in_dep_order (rg_dep_edges g) (rg_node_order g)"
  shows "\<exists>order. mset order = mset (rg_node_order g) \<and> in_dep_order (rg_dep_edges g) order \<and>
    (\<forall>w. dict_get a w [] = filter (\<lambda>n. n \<in> set (dict_get a w [])) order)"
  by (rule halo_schedule_ok(4) [OF assms])

theorem generate_schedule_executable_witness:
  "\<exists>a order. fst (generate_schedule example_env new_halo example_graph [''g0'', '' c0 ''] example_profiles None) = Inr a \<and>
     mset order = mset [''a'', ''q'', ''b''] \<and> dict_get a ''g0'' [] = filter (\<lambda>n. n \<in> set (dict_get a ''g0'' [])) order"
proof -
  obtain a where run: "fst (generate_schedule example_env new_halo example_graph [''g0'', '' c0 ''] example_profiles None) = Inr a"
    using example_run by blast
  from run generate_schedule_executable [OF example_graph_wf(1,2) run example_graph_order]
  show ?thesis by (simp add: example_graph_def) blast
qed

text \<open>
  C8: The Halo optimizer does not fail on a graph it supports: an acyclic graph of inference,
  embedding, diffusion and retrieval nodes whose model sizes can be read and whose payloads are
  accepted gets a schedule as soon as there is a GPU worker for the GPU nodes and a CPU worker for
  the others. No tuning, pruning or validation step on the way can raise.
\<close>

theorem generate_schedule_succeeds:
  assumes "schedulable E g (named_workers names) profiles"
    and "ev_disable_profile E \<or> (\<exists>rows. parse_data_profile_results E results = Inr rows)"
  shows "\<exists>a. fst (generate_schedule E h g names profiles results) = Inr a"
  by (rule generate_schedule_found [OF assms])

theorem generate_schedule_succeeds_witness:
  "\<exists>a. fst (generate_schedule example_env new_halo example_graph [''g0'', '' c0 ''] example_profiles None) = Inr a"
  by (rule generate_schedule_succeeds [OF example_schedulable]) (simp add: example_env_def)

text \<open>
  The baseline optimizer assigns every node exactly once, lists each worker's nodes in the graph's
  topological order, and puts a node on a worker of its kind whenever there is one.
\<close>

theorem baseline_schedule_correct:
  assumes "rg_wf g" and "baseline_schedule g names profiles = Inr a"
  shows "\<exists>order. rg_topological_order g = Inr order \<and> set (dict_keys a) = set names \<and>
    mset (concat (dict_values a)) = mset (rg_node_order g) \<and>
    (\<forall>w. dict_get a w [] = filter (\<lambda>n. n \<in> set (dict_get a w [])) order) \<and>
    (\<forall>w n op. n \<in> set (dict_get a w []) \<and> map_of (rg_nodes g) n = Some op \<and>
       (\<exists>v \<in> set names. profile_has_gpu profiles v = Inr (op_backend op \<in> set gpu_backends)) \<longrightarrow>
       profile_has_gpu profiles w = Inr (op_backend op \<in> set gpu_backends))"
  by (rule baseline_schedule_ok [OF assms])

theorem baseline_schedule_correct_witness:
  "\<exists>order. rg_topological_order example_graph = Inr order \<and>
     dict_get [(''c0'', [''q'']), (''g0'', [''a'', ''b''])] ''g0'' [] = filter (\<lambda>n. n \<in> set [''a'', ''b'']) order"
proof -
  have run: "baseline_schedule example_graph [''c0'', ''g0''] example_profiles = Inr [(''c0'', [''q'']), (''g0'', [''a'', ''b''])]"
    by code_simp
  have g0: "dict_get [(''c0'', [''q'']), (''g0'', [''a'', ''b''])] ''g0'' [] = [''a'', ''b'']" by code_simp
  obtain order where "rg_topological_order example_graph = Inr order"
    "\<forall>w. dict_get [(''c0'', [''q'']), (''g0'', [''a'', ''b''])] w [] =
       filter (\<lambda>n. n \<in> set (dict_get [(''c0'', [''q'']), (''g0'', [''a'', ''b''])] w [])) order"
    using baseline_schedule_correct [OF example_graph_wf(1) run] by blast
  then show ?thesis using g0 by metis
qed

end
