(* ===== verification/JobStorage.thy ===== *)
theory JobStorage
  imports PyStrings "HOL-Library.Product_Lexorder"
begin

text \<open>
  The job archive (\<open>utils/job_storage.py\<close>): the in-memory backend, the backend on the blob service and
  the backend that keeps the indexes in SQLite. The blob service and the pydantic validation are
  parameters; the SQLite tables are modelled, since they are the standard library's. Times are
  microseconds since the epoch; the in-process lock makes every operation below atomic, except
  where two critical sections are split on purpose.
\<close>

section \<open>Jobs, summaries and their order\<close>

datatype job_status = Pending | Running | Completed | Failed | Cancelled

definition status_name :: "job_status \<Rightarrow> string" where
  "status_name s = (case s of Pending \<Rightarrow> ''pending'' | Running \<Rightarrow> ''running'' | Completed \<Rightarrow> ''completed''
     | Failed \<Rightarrow> ''failed'' | Cancelled \<Rightarrow> ''cancelled'')"

record job_summary =
  sm_job_id :: string
  sm_org_id :: string
  sm_user_id :: string
  sm_status :: job_status
  sm_submitted_at :: int
  sm_started_at :: "int option"
  sm_finished_at :: "int option"
  sm_optimization_seconds :: "rat option"
  sm_selection_seconds :: "rat option"
  sm_clustering_seconds :: "rat option"
  sm_error :: "string option"

text \<open>
  What the storage asks of its surroundings: \<open>JobSummary.model_validate\<close>, \<open>model_dump(mode="json")\<close>,
  and the blob service. A payload that does not validate gives \<open>None\<close>; a blob that is not there gives
  \<open>None\<close>, and an upload may raise, for instance when the blob is too large.
\<close>

record 'b storage_env =
  se_validate :: "pyval \<Rightarrow> job_summary option"
  se_dump :: "job_summary \<Rightarrow> pyval"
  se_get :: "'b \<Rightarrow> string \<Rightarrow> (pyval \<times> string) option"
  se_put :: "'b \<Rightarrow> string \<Rightarrow> pyval \<times> string \<Rightarrow> 'b result"

definition codec_ok :: "'b storage_env \<Rightarrow> bool" where
  "codec_ok E \<longleftrightarrow> (\<forall>s. se_validate E (se_dump E s) = Some s \<and> (\<exists>d. se_dump E s = PDict d))"

definition blobs_ok :: "'b storage_env \<Rightarrow> bool" where
  "blobs_ok E \<longleftrightarrow> (\<forall>b k v b'. se_put E b k v = Inr b' \<longrightarrow> (\<forall>k'. se_get E b' k' = (if k' = k then Some v else se_get E b k')))"

text \<open>A job record as \<open>asdict\<close> gives it; \<open>record.job_id\<close> is its id.\<close>

type_synonym job_record = "(string, pyval) dict"

definition summary_fields :: "string list" where
  "summary_fields = [''job_id'', ''org_id'', ''user_id'', ''status'', ''submitted_at'']"

definition optional_fields :: "string list" where
  "optional_fields = [''started_at'', ''finished_at'', ''optimization_seconds'', ''selection_seconds'', ''clustering_seconds'', ''error'']"

definition summary_from_payload :: "'b storage_env \<Rightarrow> job_record \<Rightarrow> job_summary result" where
  "summary_from_payload E data =
     ebind (emap (\<lambda>k. ebind (dict_index data k) (\<lambda>v. Inr (k, v))) summary_fields) (\<lambda>required.
       case se_validate E (PDict (required @ map (\<lambda>k. (k, dict_get data k PNone)) optional_fields)) of
         None \<Rightarrow> Inl (ValueError ''validation error for JobSummary'')
       | Some s \<Rightarrow> Inr s)"

definition sort_summaries :: "job_summary list \<Rightarrow> job_summary list" where
  "sort_summaries ss = rev (sort_key (\<lambda>s. (sm_submitted_at s, sm_job_id s)) (rev ss))"

record summary_query =
  qy_org_id :: string
  qy_user_id :: "string option"
  qy_job_ids :: "string list option"
  qy_statuses :: "job_status list option"

definition matches :: "summary_query \<Rightarrow> job_summary \<Rightarrow> bool" where
  "matches q s \<longleftrightarrow>
     sm_org_id s = qy_org_id q \<and>
     (case qy_user_id q of None \<Rightarrow> True | Some u \<Rightarrow> sm_user_id s = u) \<and>
     (case qy_job_ids q of None \<Rightarrow> True | Some js \<Rightarrow> sm_job_id s \<in> set js) \<and>
     (case qy_statuses q of None \<Rightarrow> True | Some [] \<Rightarrow> True | Some sts \<Rightarrow> sm_status s \<in> set sts)"

definition filter_summaries :: "summary_query \<Rightarrow> job_summary list \<Rightarrow> job_summary list" where
  "filter_summaries q ss = filter (matches q) ss"

text \<open>\<open>xs[start:end]\<close>: a negative bound counts from the end.\<close>

definition slice_bound :: "int \<Rightarrow> int \<Rightarrow> nat" where
  "slice_bound n i = nat (if i < 0 then max 0 (n + i) else min n i)"

definition py_slice :: "'a list \<Rightarrow> int \<Rightarrow> int \<Rightarrow> 'a list" where
  "py_slice xs start stop =
     (let n = int (length xs); i = slice_bound n start; j = slice_bound n stop in take (j - i) (drop i xs))"

definition page_of :: "job_summary list \<Rightarrow> int \<Rightarrow> int \<Rightarrow> job_summary list" where
  "page_of ss page page_size = py_slice ss ((page - 1) * page_size) ((page - 1) * page_size + page_size)"

section \<open>The in-memory backend\<close>

record memory_storage =
  mm_storage :: "(string, job_record) dict"
  mm_inputs :: "(string, pyval) dict"
  mm_progress :: "(string, pyval) dict"
  mm_result :: "(string, pyval) dict"
  mm_output_index :: "(string, string) dict"
  mm_artifacts :: "(string, (string, string \<times> string) dict) dict"
  mm_summaries :: "(string, job_summary) dict"

definition empty_memory :: memory_storage where
  "empty_memory = \<lparr>mm_storage = [], mm_inputs = [], mm_progress = [], mm_result = [], mm_output_index = [],
     mm_artifacts = [], mm_summaries = []\<rparr>"

definition stored_separately :: "string list" where
  "stored_separately = [''inputs'', ''progress'', ''result'']"

definition record_data :: "job_record \<Rightarrow> job_record" where
  "record_data data = filter (\<lambda>(k, v). k \<notin> set stored_separately) data"

text \<open>The record is stored before its summary is built, so an exception there leaves it behind.\<close>

definition memory_put_record :: "string \<Rightarrow> job_record \<Rightarrow> memory_storage \<Rightarrow> memory_storage" where
  "memory_put_record job_id data m =
     (let m1 = m\<lparr>mm_storage := AList.update job_id (record_data data) (mm_storage m),
                 mm_inputs := AList.update job_id (dict_get data ''inputs'' (PDict [])) (mm_inputs m),
                 mm_progress := AList.update job_id (dict_get data ''progress'' (PDict [])) (mm_progress m)\<rparr>
      in if dict_get data ''result'' PNone = PNone then m1
         else m1\<lparr>mm_result := AList.update job_id (dict_get data ''result'' PNone) (mm_result m)\<rparr>)"

definition memory_save :: "'b storage_env \<Rightarrow> string \<Rightarrow> job_record \<Rightarrow> memory_storage \<Rightarrow> unit result \<times> memory_storage" where
  "memory_save E job_id data m =
     (let m1 = memory_put_record job_id data m in
      case summary_from_payload E data of
        Inl e \<Rightarrow> (Inl e, m1)
      | Inr s \<Rightarrow> (Inr (), m1\<lparr>mm_summaries := AList.update job_id s (mm_summaries m1)\<rparr>))"

definition memory_load :: "string \<Rightarrow> memory_storage \<Rightarrow> job_record option" where
  "memory_load job_id m =
     (case map_of (mm_storage m) job_id of
        None \<Rightarrow> None
      | Some rec \<Rightarrow>
          let d = AList.update ''progress'' (dict_get (mm_progress m) job_id (PDict []))
                (AList.update ''inputs'' (dict_get (mm_inputs m) job_id (PDict [])) rec)
          in Some (case map_of (mm_result m) job_id of None \<Rightarrow> d | Some r \<Rightarrow> AList.update ''result'' r d))"

definition completed_record :: "job_record option \<Rightarrow> bool" where
  "completed_record rec \<longleftrightarrow> (case rec of None \<Rightarrow> False | Some d \<Rightarrow> map_of d ''status'' = Some (PStr ''completed''))"

definition memory_reserve :: "string \<Rightarrow> string \<Rightarrow> memory_storage \<Rightarrow> memory_storage result" where
  "memory_reserve loc job_id m =
     (let existing = dict_get (mm_output_index m) loc [] in
      if existing \<noteq> [] \<and> existing \<noteq> job_id then
        (if completed_record (map_of (mm_storage m) existing)
         then Inr (m\<lparr>mm_output_index := AList.update loc job_id (mm_output_index m)\<rparr>)
         else Inl (ValueError ''output location already reserved''))
      else Inr (m\<lparr>mm_output_index := AList.update loc job_id (mm_output_index m)\<rparr>))"

definition memory_release :: "string \<Rightarrow> string \<Rightarrow> memory_storage \<Rightarrow> memory_storage" where
  "memory_release loc job_id m =
     (if map_of (mm_output_index m) loc = Some job_id
      then m\<lparr>mm_output_index := AList.delete loc (mm_output_index m)\<rparr> else m)"

definition memory_save_artifact ::
  "string \<Rightarrow> string \<Rightarrow> string \<times> string \<Rightarrow> memory_storage \<Rightarrow> string \<times> memory_storage" where
  "memory_save_artifact job_id filename body m =
     (''memory://'' @ job_id @ ''/artifacts/'' @ filename,
      m\<lparr>mm_artifacts := AList.update job_id (AList.update filename body (dict_get (mm_artifacts m) job_id [])) (mm_artifacts m)\<rparr>)"

definition memory_get_artifact :: "string \<Rightarrow> string \<Rightarrow> memory_storage \<Rightarrow> (string \<times> string) result" where
  "memory_get_artifact job_id filename m = dict_index (dict_get (mm_artifacts m) job_id []) filename"

definition memory_list :: "summary_query \<Rightarrow> int \<Rightarrow> int \<Rightarrow> memory_storage \<Rightarrow> job_summary list \<times> nat" where
  "memory_list q page page_size m =
     (let items = sort_summaries (filter_summaries q (dict_values (mm_summaries m)))
      in (page_of items page page_size, length items))"

definition memory_iter :: "job_status list option \<Rightarrow> memory_storage \<Rightarrow> job_summary list" where
  "memory_iter statuses m =
     filter (\<lambda>s. case statuses of None \<Rightarrow> True | Some sts \<Rightarrow> sm_status s \<in> set sts) (dict_values (mm_summaries m))"

section \<open>The backend on the blob service\<close>

text \<open>JSON has no tuples.\<close>

fun json_value :: "pyval \<Rightarrow> pyval" where
  "json_value (PTuple xs) = PList (map json_value xs)"
| "json_value (PList xs) = PList (map json_value xs)"
| "json_value (PDict d) = PDict (map (\<lambda>(k, v). (k, json_value v)) d)"
| "json_value v = v"

definition object_name :: "string \<Rightarrow> string \<Rightarrow> string" where
  "object_name prefix name = (if prefix = [] then name else prefix @ ''/'' @ name)"

definition job_object_name :: "string \<Rightarrow> string \<Rightarrow> string \<Rightarrow> string" where
  "job_object_name prefix job_id filename = object_name prefix (job_id @ ''/'' @ filename)"

definition output_index_name :: "string \<Rightarrow> string" where
  "output_index_name prefix = object_name prefix ''output_index.json''"

definition jobs_index_name :: "string \<Rightarrow> string" where
  "jobs_index_name prefix = object_name prefix ''jobs_index.json''"

definition put_json :: "'b storage_env \<Rightarrow> string \<Rightarrow> pyval \<Rightarrow> ('b, unit) op" where
  "put_json E key v b =
     (case se_put E b key (json_value v, ''application/json'') of Inl e \<Rightarrow> (Inl e, b) | Inr b' \<Rightarrow> (Inr (), b'))"

definition get_json_optional :: "'b storage_env \<Rightarrow> string \<Rightarrow> 'b \<Rightarrow> pyval option" where
  "get_json_optional E key b = map_option fst (se_get E b key)"

text \<open>\<open>... or {}\<close>, and the use of the value as a dict, which raises for any other value.\<close>

definition or_empty :: "pyval option \<Rightarrow> pyval" where
  "or_empty v = (case v of None \<Rightarrow> PDict [] | Some v \<Rightarrow> if py_truthy v then v else PDict [])"

fun as_dict :: "pyval \<Rightarrow> (string, pyval) dict result" where
  "as_dict (PDict d) = Inr d"
| "as_dict v = Inl (TypeError ''not a dict'')"

definition save_record_blobs :: "'b storage_env \<Rightarrow> string \<Rightarrow> string \<Rightarrow> job_record \<Rightarrow> ('b, job_summary) op" where
  "save_record_blobs E prefix job_id data =
     then_op (put_json E (job_object_name prefix job_id ''record.json'') (PDict (record_data data))) (\<lambda>_.
     then_op (put_json E (job_object_name prefix job_id ''inputs.json'') (dict_get data ''inputs'' (PDict []))) (\<lambda>_.
     then_op (put_json E (job_object_name prefix job_id ''progress.json'') (dict_get data ''progress'' (PDict []))) (\<lambda>_.
     then_op (when_op (dict_get data ''result'' PNone \<noteq> PNone)
       (put_json E (job_object_name prefix job_id ''result.json'') (dict_get data ''result'' PNone))) (\<lambda>_.
     pure_op (summary_from_payload E data)))))"

definition blob_save :: "'b storage_env \<Rightarrow> string \<Rightarrow> string \<Rightarrow> job_record \<Rightarrow> ('b, unit) op" where
  "blob_save E prefix job_id data =
     then_op (save_record_blobs E prefix job_id data) (\<lambda>s.
     then_op (\<lambda>b. (as_dict (or_empty (get_json_optional E (jobs_index_name prefix) b)), b)) (\<lambda>index.
     put_json E (jobs_index_name prefix) (PDict (AList.update job_id (se_dump E s) index))))"

definition blob_load :: "'b storage_env \<Rightarrow> string \<Rightarrow> string \<Rightarrow> 'b \<Rightarrow> job_record option result" where
  "blob_load E prefix job_id b =
     (case get_json_optional E (job_object_name prefix job_id ''record.json'') b of
        None \<Rightarrow> Inr None
      | Some v \<Rightarrow> ebind (as_dict v) (\<lambda>rec.
          let d = AList.update ''progress'' (or_empty (get_json_optional E (job_object_name prefix job_id ''progress.json'') b))
                (AList.update ''inputs'' (or_empty (get_json_optional E (job_object_name prefix job_id ''inputs.json'') b)) rec)
          in Inr (Some (case get_json_optional E (job_object_name prefix job_id ''result.json'') b of
               None \<Rightarrow> d | Some PNone \<Rightarrow> d | Some r \<Rightarrow> AList.update ''result'' r d))))"

definition blob_reserve :: "'b storage_env \<Rightarrow> string \<Rightarrow> string \<Rightarrow> string \<Rightarrow> ('b, unit) op" where
  "blob_reserve E prefix loc job_id =
     then_op (\<lambda>b. (as_dict (or_empty (get_json_optional E (output_index_name prefix) b)), b)) (\<lambda>index.
     then_op (case map_of index loc of
          Some (PStr existing) \<Rightarrow>
            if existing \<noteq> [] \<and> existing \<noteq> job_id then
              then_op (\<lambda>b. (blob_load E prefix existing b, b)) (\<lambda>rec.
                pure_op (if completed_record rec then Inr () else Inl (ValueError ''output location already reserved'')))
            else pure_op (Inr ())
        | _ \<Rightarrow> pure_op (Inr ())) (\<lambda>_.
     put_json E (output_index_name prefix) (PDict (AList.update loc (PStr job_id) index))))"

definition blob_release :: "'b storage_env \<Rightarrow> string \<Rightarrow> string \<Rightarrow> string \<Rightarrow> ('b, unit) op" where
  "blob_release E prefix loc job_id b =
     (case get_json_optional E (output_index_name prefix) b of
        None \<Rightarrow> (Inr (), b)
      | Some v \<Rightarrow> (case as_dict v of
          Inl e \<Rightarrow> (Inl e, b)
        | Inr index \<Rightarrow>
            if map_of index loc \<noteq> Some (PStr job_id) then (Inr (), b)
            else put_json E (output_index_name prefix) (PDict (AList.delete loc index)) b))"

definition artifact_name :: "string \<Rightarrow> string \<Rightarrow> string \<Rightarrow> string" where
  "artifact_name prefix job_id filename = job_object_name prefix job_id (''artifacts/'' @ filename)"

definition blob_save_artifact :: "'b storage_env \<Rightarrow> string \<Rightarrow> string \<Rightarrow> string \<Rightarrow> pyval \<times> string \<Rightarrow> ('b, string) op" where
  "blob_save_artifact E prefix job_id filename body b =
     (case se_put E b (artifact_name prefix job_id filename) body of
        Inl e \<Rightarrow> (Inl e, b) | Inr b' \<Rightarrow> (Inr (artifact_name prefix job_id filename), b'))"

definition blob_get_artifact :: "'b storage_env \<Rightarrow> string \<Rightarrow> string \<Rightarrow> string \<Rightarrow> 'b \<Rightarrow> (pyval \<times> string) result" where
  "blob_get_artifact E prefix job_id filename b =
     (case se_get E b (artifact_name prefix job_id filename) of None \<Rightarrow> Inl KeyError | Some v \<Rightarrow> Inr v)"

text \<open>Entries that are no dict or do not validate are skipped.\<close>

definition index_summaries :: "'b storage_env \<Rightarrow> (string, pyval) dict \<Rightarrow> job_summary list" where
  "index_summaries E index =
     concat (map (\<lambda>v. case v of PDict _ \<Rightarrow> (case se_validate E v of None \<Rightarrow> [] | Some s \<Rightarrow> [s]) | _ \<Rightarrow> []) (dict_values index))"

definition blob_list ::
  "'b storage_env \<Rightarrow> string \<Rightarrow> summary_query \<Rightarrow> int \<Rightarrow> int \<Rightarrow> 'b \<Rightarrow> (job_summary list \<times> nat) result" where
  "blob_list E prefix q page page_size b =
     ebind (as_dict (or_empty (get_json_optional E (jobs_index_name prefix) b))) (\<lambda>index.
       let items = sort_summaries (filter_summaries q (index_summaries E index))
       in Inr (page_of items page page_size, length items))"

definition blob_iter :: "'b storage_env \<Rightarrow> string \<Rightarrow> job_status list option \<Rightarrow> 'b \<Rightarrow> job_summary list result" where
  "blob_iter E prefix statuses b =
     ebind (as_dict (or_empty (get_json_optional E (jobs_index_name prefix) b))) (\<lambda>index.
       Inr (filter (\<lambda>s. case statuses of None \<Rightarrow> True | Some sts \<Rightarrow> sm_status s \<in> set sts) (index_summaries E index)))"

section \<open>The backend with SQLite indexes\<close>

text \<open>
  The rows of a table in the order of their row ids, with the primary key in front: an \<open>UPSERT\<close>
  keeps a row's place, \<open>INSERT OR REPLACE\<close> deletes the row and appends the new one.
\<close>

record 'b sqlite_storage =
  sq_blobs :: 'b
  sq_summaries :: "(string, job_summary) dict"
  sq_locations :: "(string, string) dict"
  sq_last_prune :: "int option"

definition insert_or_replace :: "string \<Rightarrow> 'v \<Rightarrow> (string, 'v) dict \<Rightarrow> (string, 'v) dict" where
  "insert_or_replace k v rows = AList.delete k rows @ [(k, v)]"

definition terminal_status :: "job_status \<Rightarrow> bool" where
  "terminal_status s \<longleftrightarrow> s \<in> {Completed, Failed, Cancelled}"

text \<open>The clocks are inputs: monotonic seconds, and the time of day in microseconds.\<close>

definition maybe_prune :: "int \<Rightarrow> int \<Rightarrow> int \<Rightarrow> 'b sqlite_storage \<Rightarrow> 'b sqlite_storage" where
  "maybe_prune days monotonic now s =
     (if days \<le> 0 then s
      else if (case sq_last_prune s of None \<Rightarrow> False | Some t \<Rightarrow> monotonic - t < 3600) then s
      else let cutoff = now - days * 86400000000
        in s\<lparr>sq_last_prune := Some monotonic,
             sq_summaries := filter (\<lambda>(k, r). \<not> (sm_submitted_at r < cutoff \<and> terminal_status (sm_status r))) (sq_summaries s)\<rparr>)"

definition sqlite_save ::
  "'b storage_env \<Rightarrow> string \<Rightarrow> int \<Rightarrow> int \<Rightarrow> int \<Rightarrow> string \<Rightarrow> job_record \<Rightarrow> ('b sqlite_storage, unit) op" where
  "sqlite_save E prefix days monotonic now job_id data s =
     (case save_record_blobs E prefix job_id data (sq_blobs s) of
        (Inl e, b) \<Rightarrow> (Inl e, s\<lparr>sq_blobs := b\<rparr>)
      | (Inr r, b) \<Rightarrow> (Inr (), maybe_prune days monotonic now
          (s\<lparr>sq_blobs := b, sq_summaries := AList.update (sm_job_id r) r (sq_summaries s)\<rparr>)))"

text \<open>
  \<open>WHERE\<close> is the filter above, except that an empty set of job ids matches nothing, which is what the
  filter does with it too. A negative \<open>LIMIT\<close> is no limit, a negative \<open>OFFSET\<close> is 0.
\<close>

definition sql_page :: "'a list \<Rightarrow> int \<Rightarrow> int \<Rightarrow> 'a list" where
  "sql_page rows limit offset = (let xs = drop (nat offset) rows in if limit < 0 then xs else take (nat limit) xs)"

definition sqlite_list :: "summary_query \<Rightarrow> int \<Rightarrow> int \<Rightarrow> 'b sqlite_storage \<Rightarrow> job_summary list \<times> nat" where
  "sqlite_list q page page_size s =
     (let rows = filter (matches q) (dict_values (sq_summaries s))
      in (sql_page (sort_summaries rows) page_size (max (page - 1) 0 * page_size), length rows))"

definition sqlite_iter :: "job_status list option \<Rightarrow> 'b sqlite_storage \<Rightarrow> job_summary list" where
  "sqlite_iter statuses s =
     filter (\<lambda>r. case statuses of None \<Rightarrow> True | Some [] \<Rightarrow> True | Some sts \<Rightarrow> sm_status r \<in> set sts)
       (dict_values (sq_summaries s))"

text \<open>
  Reserving a location: one critical section reads the owner, the owner's record is loaded outside
  of it, a second critical section writes the new owner.
\<close>

definition sqlite_reserve_read :: "string \<Rightarrow> 'b sqlite_storage \<Rightarrow> string option" where
  "sqlite_reserve_read loc s = map_of (sq_locations s) loc"

definition sqlite_reserve_check ::
  "'b storage_env \<Rightarrow> string \<Rightarrow> string \<Rightarrow> string option \<Rightarrow> 'b sqlite_storage \<Rightarrow> unit result" where
  "sqlite_reserve_check E prefix job_id existing s =
     (case existing of
        None \<Rightarrow> Inr ()
      | Some owner \<Rightarrow>
          if owner = [] \<or> owner = job_id then Inr ()
          else ebind (blob_load E prefix owner (sq_blobs s)) (\<lambda>rec.
            if completed_record rec then Inr () else Inl (ValueError ''output location already reserved'')))"

definition sqlite_reserve_write :: "string \<Rightarrow> string \<Rightarrow> 'b sqlite_storage \<Rightarrow> 'b sqlite_storage" where
  "sqlite_reserve_write loc job_id s = s\<lparr>sq_locations := AList.update loc job_id (sq_locations s)\<rparr>"

definition sqlite_reserve :: "'b storage_env \<Rightarrow> string \<Rightarrow> string \<Rightarrow> string \<Rightarrow> 'b sqlite_storage \<Rightarrow> 'b sqlite_storage result" where
  "sqlite_reserve E prefix loc job_id s =
     ebind (sqlite_reserve_check E prefix job_id (sqlite_reserve_read loc s) s) (\<lambda>_. Inr (sqlite_reserve_write loc job_id s))"

definition sqlite_release :: "string \<Rightarrow> string \<Rightarrow> 'b sqlite_storage \<Rightarrow> 'b sqlite_storage" where
  "sqlite_release loc job_id s =
     (if map_of (sq_locations s) loc = Some job_id then s\<lparr>sq_locations := AList.delete loc (sq_locations s)\<rparr> else s)"

definition backfill_if_empty :: "'b storage_env \<Rightarrow> string \<Rightarrow> 'b sqlite_storage \<Rightarrow> 'b sqlite_storage result" where
  "backfill_if_empty E prefix s =
     (if sq_summaries s \<noteq> [] then Inr s
      else ebind (as_dict (or_empty (get_json_optional E (jobs_index_name prefix) (sq_blobs s)))) (\<lambda>index.
           ebind (as_dict (or_empty (get_json_optional E (output_index_name prefix) (sq_blobs s)))) (\<lambda>outputs.
             Inr (s\<lparr>sq_summaries := fold (\<lambda>r. insert_or_replace (sm_job_id r) r) (index_summaries E index) [],
                    sq_locations := fold (\<lambda>(loc, owner) rows. case owner of PStr j \<Rightarrow> insert_or_replace loc j rows | _ \<Rightarrow> rows)
                      outputs (sq_locations s)\<rparr>))))"

section \<open>Listing by pages\<close>

text \<open>What a listing shows: every summary that matches, once, the newest first.\<close>

definition summary_key :: "job_summary \<Rightarrow> int \<times> string" where
  "summary_key s = (sm_submitted_at s, sm_job_id s)"

definition is_listing :: "(string \<rightharpoonup> job_summary) \<Rightarrow> summary_query \<Rightarrow> job_summary list \<Rightarrow> bool" where
  "is_listing V q items \<longleftrightarrow>
     sorted_wrt (\<lambda>a b. summary_key b < summary_key a) items \<and> set items = {s \<in> ran V. matches q s}"

definition keyed :: "(string, job_summary) dict \<Rightarrow> bool" where
  "keyed ss \<longleftrightarrow> distinct (dict_keys ss) \<and> (\<forall>(k, s) \<in> set ss. sm_job_id s = k)"

lemma keyed_Nil [simp]: "keyed []"
  by (simp add: keyed_def)

lemma update_mem: "x \<in> set (AList.update k v ss) \<Longrightarrow> x = (k, v) \<or> x \<in> set ss"
  by (induction ss) (auto split: if_splits)

lemma keyed_update: "keyed ss \<Longrightarrow> sm_job_id s = k \<Longrightarrow> keyed (AList.update k s ss)"
  unfolding keyed_def using update_mem [of _ k s ss] by (fastforce simp: distinct_update)

lemma keyed_filter: "keyed ss \<Longrightarrow> keyed (filter P ss)"
  by (auto simp: keyed_def distinct_map_filter)

lemma length_sort_summaries [simp]: "length (sort_summaries ss) = length ss"
  by (simp add: sort_summaries_def)

lemma keyed_listing:
  assumes "keyed ss"
  shows "is_listing (map_of ss) q (sort_summaries (filter (matches q) (dict_values ss)))"
proof -
  let ?items = "sort_summaries (filter (matches q) (dict_values ss))"
  have key: "map sm_job_id (dict_values ss) = dict_keys ss" using assms by (auto simp: keyed_def)
  then have "distinct (map sm_job_id (dict_values ss))" using assms by (simp only: keyed_def)
  then have "inj_on summary_key (set (dict_values ss))" and d: "distinct (dict_values ss)"
    by (auto simp: distinct_map inj_on_def summary_key_def)
  then have "distinct (map summary_key (filter (matches q) (dict_values ss)))"
    by (auto simp: distinct_map intro: inj_on_subset)
  then have dk: "distinct (map summary_key (sort_key summary_key (rev (filter (matches q) (dict_values ss)))))"
    by (simp add: distinct_map)
  have items: "?items = rev (sort_key summary_key (rev (filter (matches q) (dict_values ss))))"
    by (simp add: sort_summaries_def summary_key_def [abs_def])
  have "sorted_wrt (<) (map summary_key (rev ?items))"
    unfolding items rev_rev_ident using dk by (simp add: strict_sorted_iff)
  then have "sorted_wrt (\<lambda>a b. summary_key b < summary_key a) ?items" by (simp add: sorted_wrt_map sorted_wrt_rev)
  moreover have "set ?items = {s \<in> ran (map_of ss). matches q s}"
    using ran_distinct [of ss] assms unfolding items by (auto simp: keyed_def)
  ultimately show ?thesis by (simp add: is_listing_def)
qed

lemma listing_distinct: "is_listing V q items \<Longrightarrow> distinct items"
proof -
  have "distinct xs" if "sorted_wrt (\<lambda>a b. summary_key b < summary_key a) xs" for xs
    using that by (induction xs) auto
  then show "is_listing V q items \<Longrightarrow> distinct items" by (simp add: is_listing_def)
qed

text \<open>There is one listing only, so two stores that hold the same summaries show the same pages.\<close>

lemma listing_unique:
  assumes "is_listing V q xs" and "is_listing V q ys"
  shows "xs = ys"
proof -
  have s: "sorted_wrt (<) (map summary_key (rev zs))" if "is_listing V q zs" for zs
    using that by (simp add: is_listing_def sorted_wrt_map sorted_wrt_rev)
  have inj: "inj_on summary_key (set zs)" if "is_listing V q zs" for zs
    using s [OF that] by (simp add: strict_sorted_iff distinct_map)
  have eq: "set xs = set ys" using assms by (simp add: is_listing_def)
  have "rev xs = rev ys"
    using s [OF assms(1)] s [OF assms(2)] inj [OF assms(1)] eq
    by (intro map_sorted_distinct_set_unique [of summary_key]) (simp_all add: strict_sorted_iff)
  then show ?thesis by simp
qed

definition page_items :: "'a list \<Rightarrow> int \<Rightarrow> int \<Rightarrow> 'a list" where
  "page_items items page page_size = take (nat page_size) (drop (nat (page - 1) * nat page_size) items)"

lemma page_of_items: "1 \<le> page \<Longrightarrow> 0 \<le> page_size \<Longrightarrow> page_of items page page_size = page_items items page page_size"
proof -
  assume p: "1 \<le> page" "0 \<le> page_size"
  define k where "k = nat (page - 1)" define n where "n = nat page_size"
  have pn: "page = int k + 1" "page_size = int n" using p by (simp_all add: k_def n_def)
  have "py_slice items (int k * int n) (int k * int n + int n) = take n (drop (k * n) items)"
  proof -
    have "slice_bound (int (length items)) (int k * int n) = min (length items) (k * n)"
      "slice_bound (int (length items)) (int k * int n + int n) = min (length items) (k * n + n)"
      by (simp_all add: slice_bound_def flip: of_nat_mult of_nat_add of_nat_min)
    then show ?thesis by (cases "k * n \<le> length items") (auto simp: py_slice_def Let_def min_def)
  qed
  then show ?thesis unfolding page_of_def page_items_def pn by simp
qed

lemma sql_page_items: "1 \<le> page \<Longrightarrow> 0 \<le> page_size \<Longrightarrow> sql_page items page_size ((page - 1) * page_size) = page_items items page page_size"
  by (simp add: sql_page_def page_items_def nat_mult_distrib)

lemma concat_pages: "concat (map (\<lambda>p. page_items items (int p) (int n)) [1..<Suc k]) = take (k * n) items"
proof (induction k)
  case (Suc k)
  have "concat (map (\<lambda>p. page_items items (int p) (int n)) [1..<Suc (Suc k)]) =
      concat (map (\<lambda>p. page_items items (int p) (int n)) [1..<Suc k]) @ page_items items (int (Suc k)) (int n)" by simp
  also have "\<dots> = take (k * n) items @ take n (drop (k * n) items)" unfolding Suc.IH by (simp add: page_items_def)
  also have "\<dots> = take (k * n + n) items" by (rule take_add [symmetric])
  finally show ?case by (simp only: mult_Suc add.commute)
qed simp

text \<open>The contract of a store that lists its summaries, and what a client that walks the pages sees.\<close>

locale summary_store =
  fixes inv :: "'s \<Rightarrow> bool"
    and view :: "'s \<Rightarrow> string \<rightharpoonup> job_summary"
    and listing :: "summary_query \<Rightarrow> int \<Rightarrow> int \<Rightarrow> 's \<Rightarrow> job_summary list \<times> nat"
  assumes listing: "inv s \<Longrightarrow> \<exists>items. is_listing (view s) q items \<and>
    (\<forall>page page_size. 1 \<le> page \<longrightarrow> 0 \<le> page_size \<longrightarrow> listing q page page_size s = (page_items items page page_size, length items))"
begin

lemma pages_complete:
  assumes "inv s" and "snd (listing q 1 (int n) s) \<le> k * n"
  shows "is_listing (view s) q (concat (map (\<lambda>p. fst (listing q (int p) (int n) s)) [1..<Suc k]))"
proof -
  obtain items where items: "is_listing (view s) q items"
    "\<And>page page_size. 1 \<le> page \<Longrightarrow> 0 \<le> page_size \<Longrightarrow> listing q page page_size s = (page_items items page page_size, length items)"
    using listing [OF assms(1)] by blast
  have "map (\<lambda>p. fst (listing q (int p) (int n) s)) [1..<Suc k] = map (\<lambda>p. page_items items (int p) (int n)) [1..<Suc k]"
    using items(2) by (intro map_cong) auto
  then have "concat (map (\<lambda>p. fst (listing q (int p) (int n) s)) [1..<Suc k]) = take (k * n) items"
    by (simp only: concat_pages)
  then show ?thesis using items assms(2) by simp
qed

lemma page_length:
  assumes "inv s" and "1 \<le> page" and "0 \<le> page_size"
  shows "length (fst (listing q page page_size s)) \<le> nat page_size"
proof -
  obtain items where "listing q page page_size s = (page_items items page page_size, length items)"
    using listing [OF assms(1)] assms(2,3) by blast
  then show ?thesis by (simp add: page_items_def)
qed

end

interpretation memory: summary_store "\<lambda>m. keyed (mm_summaries m)" "\<lambda>m. map_of (mm_summaries m)" memory_list
proof
  fix m :: memory_storage and q assume "keyed (mm_summaries m)"
  from keyed_listing [OF this, of q]
  show "\<exists>items. is_listing (map_of (mm_summaries m)) q items \<and>
      (\<forall>page page_size. 1 \<le> page \<longrightarrow> 0 \<le> page_size \<longrightarrow> memory_list q page page_size m = (page_items items page page_size, length items))"
    by (intro exI conjI) (auto simp: memory_list_def filter_summaries_def Let_def page_of_items)
qed

interpretation sqlite: summary_store "\<lambda>s. keyed (sq_summaries s)" "\<lambda>s. map_of (sq_summaries s)" sqlite_list
proof
  fix s :: "'a sqlite_storage" and q assume "keyed (sq_summaries s)"
  from keyed_listing [OF this, of q]
  show "\<exists>items. is_listing (map_of (sq_summaries s)) q items \<and>
      (\<forall>page page_size. 1 \<le> page \<longrightarrow> 0 \<le> page_size \<longrightarrow> sqlite_list q page page_size s = (page_items items page page_size, length items))"
    by (intro exI conjI) (auto simp: sqlite_list_def Let_def sql_page_items)
qed

section \<open>The backends hold the same summaries\<close>

fun run_ops :: "('s, unit) op list \<Rightarrow> ('s, unit) op" where
  "run_ops [] s = (Inr (), s)"
| "run_ops (m # ms) s = then_op m (\<lambda>_. run_ops ms) s"

lemma then_op_Inr: "fst (then_op m f s) = Inr y \<longleftrightarrow> (\<exists>x t. m s = (Inr x, t) \<and> fst (f x t) = Inr y)"
  by (auto simp: then_op_def split: prod.splits sum.splits)

lemma then_op_run: "m s = (Inr x, t) \<Longrightarrow> then_op m f s = f x t"
  by (simp add: then_op_def)

text \<open>What a sequence of saves leaves in the index: the last summary of every job, in the order of first saves.\<close>

definition saved_summaries ::
  "'b storage_env \<Rightarrow> (string \<times> job_record) list \<Rightarrow> (string, job_summary) dict \<Rightarrow> (string, job_summary) dict" where
  "saved_summaries E recs ss =
     foldl (\<lambda>ss (j, d). case summary_from_payload E d of Inl e \<Rightarrow> ss | Inr s \<Rightarrow> AList.update j s ss) ss recs"

lemma saved_summaries_simps:
  "saved_summaries E [] ss = ss"
  "summary_from_payload E d = Inr s \<Longrightarrow> saved_summaries E ((j, d) # recs) ss = saved_summaries E recs (AList.update j s ss)"
  by (simp_all add: saved_summaries_def)

text \<open>The record's id is the id its payload has.\<close>

definition ids_match :: "'b storage_env \<Rightarrow> (string \<times> job_record) list \<Rightarrow> bool" where
  "ids_match E recs \<longleftrightarrow> list_all (\<lambda>(j, d). case summary_from_payload E d of Inl e \<Rightarrow> True | Inr s \<Rightarrow> sm_job_id s = j) recs"

lemma ids_match_Cons:
  "ids_match E ((j, d) # recs) \<longleftrightarrow> (case summary_from_payload E d of Inl e \<Rightarrow> True | Inr s \<Rightarrow> sm_job_id s = j) \<and> ids_match E recs"
  by (simp add: ids_match_def)

lemma memory_saves:
  "fst (run_ops (map (\<lambda>(j, d). memory_save E j d) recs) m) = Inr () \<Longrightarrow>
     mm_summaries (snd (run_ops (map (\<lambda>(j, d). memory_save E j d) recs) m)) = saved_summaries E recs (mm_summaries m)"
proof (induction recs arbitrary: m)
  case (Cons r recs)
  obtain j d where r: "r = (j, d)" by (cases r)
  obtain s where s: "summary_from_payload E d = Inr s"
    using Cons.prems by (cases "summary_from_payload E d") (auto simp: r then_op_def memory_save_def Let_def)
  let ?m = "(memory_put_record j d m)\<lparr>mm_summaries := AList.update j s (mm_summaries (memory_put_record j d m))\<rparr>"
  have save: "memory_save E j d m = (Inr (), ?m)" by (simp add: memory_save_def s Let_def)
  have keep: "mm_summaries (memory_put_record j d m) = mm_summaries m" by (simp add: memory_put_record_def Let_def)
  have "run_ops (map (\<lambda>(j, d). memory_save E j d) (r # recs)) m = run_ops (map (\<lambda>(j, d). memory_save E j d) recs) ?m"
    by (simp add: r then_op_run [where m = "memory_save E j d", OF save])
  then show ?case using Cons.IH [of ?m] Cons.prems by (simp add: r saved_summaries_simps(2) [OF s] keep)
qed (simp add: saved_summaries_simps)

lemma save_record_blobs_summary:
  assumes "save_record_blobs E prefix j d b = (Inr s, b')"
  shows "summary_from_payload E d = Inr s"
  using assms by (auto simp: save_record_blobs_def then_op_def pure_op_def split: prod.splits sum.splits)

lemma sqlite_saves:
  assumes "days \<le> 0" and "ids_match E recs"
    and "fst (run_ops (map (\<lambda>(j, d). sqlite_save E prefix days monotonic now j d) recs) q) = Inr ()"
  shows "sq_summaries (snd (run_ops (map (\<lambda>(j, d). sqlite_save E prefix days monotonic now j d) recs) q)) =
    saved_summaries E recs (sq_summaries q)"
  using assms(2,3)
proof (induction recs arbitrary: q)
  case (Cons r recs)
  obtain j d where r: "r = (j, d)" by (cases r)
  let ?save = "sqlite_save E prefix days monotonic now"
  obtain t where t: "?save j d q = (Inr (), t)" and rest: "fst (run_ops (map (\<lambda>(j, d). ?save j d) recs) t) = Inr ()"
    using Cons.prems(2) by (auto simp: r then_op_Inr)
  obtain s b where b: "save_record_blobs E prefix j d (sq_blobs q) = (Inr s, b)"
    using t by (auto simp: sqlite_save_def split: prod.splits sum.splits)
  note s = save_record_blobs_summary [OF b]
  have j: "sm_job_id s = j" and ids: "ids_match E recs" using Cons.prems(1) s by (simp_all add: r ids_match_Cons)
  have "sq_summaries t = AList.update j s (sq_summaries q)"
    using t assms(1) by (auto simp: sqlite_save_def b maybe_prune_def j)
  moreover have "run_ops (map (\<lambda>(j, d). ?save j d) (r # recs)) q = run_ops (map (\<lambda>(j, d). ?save j d) recs) t"
    by (simp add: r then_op_run [where m = "?save j d", OF t])
  ultimately show ?case using Cons.IH [OF ids rest] by (simp add: r saved_summaries_simps(2) [OF s])
qed (simp add: saved_summaries_simps)

text \<open>Names of per-job objects are never the name of an index.\<close>

lemma object_name_inject [simp]: "object_name prefix a = object_name prefix b \<longleftrightarrow> a = b"
  by (simp add: object_name_def)

lemma job_object_not_index:
  assumes "f \<in> {''record.json'', ''inputs.json'', ''progress.json'', ''result.json''}"
  shows "job_object_name prefix j f \<noteq> jobs_index_name prefix"
proof
  assume "job_object_name prefix j f = jobs_index_name prefix"
  then have "j @ ''/'' @ f = ''jobs_index.json''" by (simp add: job_object_name_def jobs_index_name_def)
  then have "CHR ''/'' \<in> set ''jobs_index.json''" by (metis in_set_conv_decomp append_Cons append_Nil)
  then show False by simp
qed

lemma put_json_run:
  assumes "blobs_ok E" and "put_json E key v b = (Inr (), b')"
  shows "get_json_optional E key' b' = (if key' = key then Some (json_value v) else get_json_optional E key' b)"
  using assms by (auto simp: put_json_def blobs_ok_def get_json_optional_def split: sum.splits)

lemma save_record_blobs_index:
  assumes "blobs_ok E" and "save_record_blobs E prefix j d b = (Inr s, b')"
  shows "get_json_optional E (jobs_index_name prefix) b' = get_json_optional E (jobs_index_name prefix) b"
proof -
  have put: "get_json_optional E (jobs_index_name prefix) c' = get_json_optional E (jobs_index_name prefix) c"
    if "put_json E (job_object_name prefix j f) v c = (Inr (), c')" "f \<in> {''record.json'', ''inputs.json'', ''progress.json'', ''result.json''}"
    for f v c c'
    using put_json_run [OF assms(1) that(1)] job_object_not_index [OF that(2)] by metis
  show ?thesis
    using assms(2)
    by (auto simp: save_record_blobs_def then_op_def pure_op_def when_op_def split: prod.splits sum.splits if_splits dest!: put)
qed

text \<open>The dumps of validated summaries are JSON already.\<close>

definition dumps_json :: "'b storage_env \<Rightarrow> bool" where
  "dumps_json E \<longleftrightarrow> (\<forall>s. json_value (se_dump E s) = se_dump E s)"

definition dumped :: "'b storage_env \<Rightarrow> (string, job_summary) dict \<Rightarrow> (string, pyval) dict" where
  "dumped E ss = map (\<lambda>(k, s). (k, se_dump E s)) ss"

lemma dumped_update: "dumped E (AList.update k s ss) = AList.update k (se_dump E s) (dumped E ss)"
  by (induction ss) (auto simp: dumped_def)

lemma or_empty_dict [simp]: "or_empty (Some (PDict d)) = PDict d"
  by (cases d) (simp_all add: or_empty_def)

definition index_holds :: "'b storage_env \<Rightarrow> string \<Rightarrow> 'b \<Rightarrow> (string, job_summary) dict \<Rightarrow> bool" where
  "index_holds E prefix b ss \<longleftrightarrow> or_empty (get_json_optional E (jobs_index_name prefix) b) = PDict (dumped E ss)"

lemma blob_save_index:
  assumes "blobs_ok E" and "dumps_json E" and "blob_save E prefix j d b = (Inr (), b')" and "index_holds E prefix b ss"
  shows "\<exists>s. summary_from_payload E d = Inr s \<and> index_holds E prefix b' (AList.update j s ss)"
proof -
  obtain s c where c: "save_record_blobs E prefix j d b = (Inr s, c)"
    and put: "put_json E (jobs_index_name prefix) (PDict (AList.update j (se_dump E s) (dumped E ss))) c = (Inr (), b')"
    using assms(3,4) save_record_blobs_index [OF assms(1)]
    by (fastforce simp: blob_save_def then_op_def index_holds_def split: prod.splits sum.splits)
  have json: "json_value (PDict (dumped E ss)) = PDict (dumped E ss)" for ss
    using assms(2) by (auto simp: dumped_def dumps_json_def)
  have "index_holds E prefix b' (AList.update j s ss)"
    using put_json_run [OF assms(1) put, of "jobs_index_name prefix"]
    by (simp add: index_holds_def dumped_update [symmetric] json del: json_value.simps)
  then show ?thesis using save_record_blobs_summary [OF c] by blast
qed

lemma blob_saves:
  assumes "blobs_ok E" and "dumps_json E" and "index_holds E prefix b ss"
    and "fst (run_ops (map (\<lambda>(j, d). blob_save E prefix j d) recs) b) = Inr ()"
  shows "index_holds E prefix (snd (run_ops (map (\<lambda>(j, d). blob_save E prefix j d) recs) b)) (saved_summaries E recs ss)"
  using assms(3,4)
proof (induction recs arbitrary: b ss)
  case (Cons r recs)
  obtain j d where r: "r = (j, d)" by (cases r)
  obtain t where t: "blob_save E prefix j d b = (Inr (), t)"
    and rest: "fst (run_ops (map (\<lambda>(j, d). blob_save E prefix j d) recs) t) = Inr ()"
    using Cons.prems(2) by (auto simp: r then_op_Inr)
  obtain s where s: "summary_from_payload E d = Inr s" "index_holds E prefix t (AList.update j s ss)"
    using blob_save_index [OF assms(1,2) t Cons.prems(1)] by blast
  have "run_ops (map (\<lambda>(j, d). blob_save E prefix j d) (r # recs)) b = run_ops (map (\<lambda>(j, d). blob_save E prefix j d) recs) t"
    by (simp add: r then_op_run [where m = "blob_save E prefix j d", OF t])
  then show ?case using Cons.IH [OF s(2) rest] by (simp add: r saved_summaries_simps(2) [OF s(1)])
qed (simp add: saved_summaries_simps)

lemma saved_keyed: "ids_match E recs \<Longrightarrow> keyed ss \<Longrightarrow> keyed (saved_summaries E recs ss)"
proof (induction recs arbitrary: ss)
  case (Cons r recs)
  obtain j d where r: "r = (j, d)" by (cases r)
  note ids = Cons.prems(1) [unfolded r ids_match_Cons]
  have "keyed (case summary_from_payload E d of Inl e \<Rightarrow> ss | Inr s \<Rightarrow> AList.update j s ss)"
    using ids Cons.prems(2) by (auto intro!: keyed_update split: sum.splits)
  from Cons.IH [OF _ this] ids show ?case by (simp add: r saved_summaries_def)
qed (simp add: saved_summaries_simps)

lemma index_summaries_dumped: "codec_ok E \<Longrightarrow> index_summaries E (dumped E ss) = dict_values ss"
proof (induction ss)
  case (Cons x ss)
  obtain k s where x: "x = (k, s)" by (cases x)
  obtain d where "se_dump E s = PDict d" using Cons.prems by (auto simp: codec_ok_def)
  moreover have "se_validate E (se_dump E s) = Some s" using Cons.prems by (simp add: codec_ok_def)
  ultimately have "index_summaries E (dumped E (x # ss)) = s # index_summaries E (dumped E ss)"
    by (simp add: index_summaries_def dumped_def x)
  then show ?case using Cons by (simp add: x)
qed (simp add: index_summaries_def dumped_def)

lemma blob_list_index:
  assumes "codec_ok E" and "index_holds E prefix b ss"
  shows "blob_list E prefix q page page_size b =
    Inr (page_of (sort_summaries (filter (matches q) (dict_values ss))) page page_size, length (filter (matches q) (dict_values ss)))"
  using assms by (simp add: blob_list_def index_holds_def index_summaries_dumped filter_summaries_def Let_def)

section \<open>Loading what was saved\<close>

lemma map_of_record_data: "map_of (record_data d) k = (if k \<in> set stored_separately then None else map_of d k)"
  unfolding record_data_def by (induction d) auto

text \<open>
  The in-memory record after a save: every field that was saved, except that a result of \<open>None\<close> leaves
  the result of an earlier save in place.
\<close>

lemma memory_load_saved:
  assumes "fst (memory_save E j d m) = Inr ()" and "distinct (dict_keys d)"
    and "set [''inputs'', ''progress'', ''result''] \<subseteq> set (dict_keys d)"
  shows "\<exists>d'. memory_load j (snd (memory_save E j d m)) = Some d' \<and>
    (\<forall>k. k \<noteq> ''result'' \<longrightarrow> map_of d' k = map_of d k) \<and>
    map_of d' ''result'' = (if map_of d ''result'' = Some PNone then map_of (mm_result m) j else map_of d ''result'')"
proof -
  let ?m = "memory_put_record j d m"
  have "\<exists>v. map_of d k = Some v" if "k \<in> set (dict_keys d)" for k using that by (auto simp: weak_map_of_SomeI)
  then obtain i p r where ip: "map_of d ''inputs'' = Some i" "map_of d ''progress'' = Some p" "map_of d ''result'' = Some r"
    using assms(3) by fastforce
  obtain s where "summary_from_payload E d = Inr s"
    using assms(1) by (cases "summary_from_payload E d") (auto simp: memory_save_def Let_def)
  then have "snd (memory_save E j d m) = ?m\<lparr>mm_summaries := AList.update j s (mm_summaries ?m)\<rparr>"
    by (simp add: memory_save_def Let_def)
  then have "memory_load j (snd (memory_save E j d m)) = memory_load j ?m" by (simp add: memory_load_def Let_def split: option.split)
  moreover have "mm_storage ?m = AList.update j (record_data d) (mm_storage m)"
    "mm_inputs ?m = AList.update j i (mm_inputs m)" "mm_progress ?m = AList.update j p (mm_progress m)"
    "mm_result ?m = (if r = PNone then mm_result m else AList.update j r (mm_result m))"
    by (simp_all add: memory_put_record_def Let_def dict_get_def ip)
  ultimately show ?thesis
    using ip by (auto simp: memory_load_def Let_def map_of_update dict_get_def map_of_record_data stored_separately_def split: option.splits)
qed

lemma job_object_name_inject:
  assumes "f \<in> {''record.json'', ''inputs.json'', ''progress.json'', ''result.json''}"
    and "g \<in> {''record.json'', ''inputs.json'', ''progress.json'', ''result.json''}"
  shows "job_object_name prefix j f = job_object_name prefix i g \<longleftrightarrow> j = i \<and> f = g"
proof
  assume "job_object_name prefix j f = job_object_name prefix i g"
  then have eq: "j @ ''/'' @ f = i @ ''/'' @ g" by (simp add: job_object_name_def)
  have noslash: "CHR ''/'' \<notin> set f" "CHR ''/'' \<notin> set g" using assms by auto
  have tail: "takeWhile (\<lambda>c. c \<noteq> CHR ''/'') (rev (k @ ''/'' @ h)) = rev h" if "CHR ''/'' \<notin> set h" for k h
    using takeWhile_stop [of "rev h" "\<lambda>c. c \<noteq> CHR ''/''" "CHR ''/''" "rev k"] that by auto
  have "rev f = rev g" using tail [OF noslash(1), of j] tail [OF noslash(2), of i] eq by metis
  then show "j = i \<and> f = g" using eq by simp
qed simp

section \<open>Retention\<close>

lemma maybe_prune_rows:
  assumes "(k, r) \<in> set (sq_summaries s)" and "(k, r) \<notin> set (sq_summaries (maybe_prune days monotonic now s))"
  shows "terminal_status (sm_status r) \<and> sm_submitted_at r < now - days * 86400000000 \<and> 0 < days"
  using assms by (auto simp: maybe_prune_def Let_def split: if_splits)

section \<open>Output locations\<close>

text \<open>
  The contract of the output index: a location belongs to one job, and only a job that has completed
  can lose it to another.
\<close>

locale output_index =
  fixes owner :: "'s \<Rightarrow> string \<Rightarrow> string option"
    and finished :: "'s \<Rightarrow> string \<Rightarrow> bool"
    and reserve :: "string \<Rightarrow> string \<Rightarrow> 's \<Rightarrow> 's result"
    and release :: "string \<Rightarrow> string \<Rightarrow> 's \<Rightarrow> 's"
  assumes reserve_ok: "j \<noteq> [] \<Longrightarrow> reserve l j s = Inr s' \<Longrightarrow>
      (case owner s l of None \<Rightarrow> True | Some i \<Rightarrow> i = j \<or> finished s i) \<and>
      owner s' = (owner s)(l := Some j) \<and> finished s' = finished s"
    and reserve_free: "(case owner s l of None \<Rightarrow> True | Some i \<Rightarrow> i = j) \<Longrightarrow> \<exists>s'. reserve l j s = Inr s'"
    and release: "j \<noteq> [] \<Longrightarrow> owner (release l j s) = (if owner s l = Some j then (owner s)(l := None) else owner s) \<and>
      finished (release l j s) = finished s"
begin

lemma reserve_exclusive:
  assumes "j \<noteq> []" and "owner s l = Some i" and "i \<noteq> j" and "\<not> finished s i"
  shows "\<exists>e. reserve l j s = Inl e"
  using reserve_ok [OF assms(1), of l s] assms(2-) by (cases "reserve l j s") auto

fun reserve_all :: "(string \<times> string) list \<Rightarrow> 's \<Rightarrow> 's result" where
  "reserve_all [] s = Inr s"
| "reserve_all ((l, j) # ops) s = ebind (reserve l j s) (reserve_all ops)"

lemma reserve_all_keeps:
  assumes "\<forall>(l, j) \<in> set ops. j \<noteq> []" and "reserve_all ops s = Inr s'" and "owner s l = Some i" and "\<not> finished s i"
  shows "owner s' l = Some i \<and> (\<forall>j. (l, j) \<in> set ops \<longrightarrow> j = i)"
  using assms
proof (induction ops arbitrary: s)
  case (Cons op ops)
  obtain k j where op: "op = (k, j)" by (cases op)
  obtain t where t: "reserve k j s = Inr t" "reserve_all ops t = Inr s'" using Cons.prems(2) by (auto simp: op ebind_Inr_iff)
  have j: "j \<noteq> []" using Cons.prems(1) by (simp add: op)
  note r = reserve_ok [OF j t(1)]
  have kj: "k = l \<Longrightarrow> j = i" using r Cons.prems(3,4) by auto
  have "owner t l = Some i" "\<not> finished t i" using r kj Cons.prems(3,4) by auto
  from Cons.IH [OF _ t(2) this] Cons.prems(1) kj show ?case by (auto simp: op)
qed simp

end

definition proper_owner :: "string option \<Rightarrow> string option" where
  "proper_owner x = (case x of Some [] \<Rightarrow> None | _ \<Rightarrow> x)"

lemma proper_owner_simps: "proper_owner None = None" "proper_owner (Some j) = (if j = [] then None else Some j)"
  by (simp_all add: proper_owner_def split: list.splits)

definition memory_owner :: "memory_storage \<Rightarrow> string \<Rightarrow> string option" where
  "memory_owner m l = proper_owner (map_of (mm_output_index m) l)"

definition memory_finished :: "memory_storage \<Rightarrow> string \<Rightarrow> bool" where
  "memory_finished m i = completed_record (map_of (mm_storage m) i)"

definition sqlite_owner :: "'b sqlite_storage \<Rightarrow> string \<Rightarrow> string option" where
  "sqlite_owner s l = proper_owner (map_of (sq_locations s) l)"

definition sqlite_finished :: "'b storage_env \<Rightarrow> string \<Rightarrow> 'b sqlite_storage \<Rightarrow> string \<Rightarrow> bool" where
  "sqlite_finished E prefix s i = (case blob_load E prefix i (sq_blobs s) of Inl e \<Rightarrow> False | Inr rec \<Rightarrow> completed_record rec)"

lemmas memory_index_defs = memory_owner_def [abs_def] memory_finished_def [abs_def] memory_reserve_def memory_release_def

lemmas sqlite_index_defs = sqlite_owner_def [abs_def] sqlite_finished_def [abs_def] sqlite_reserve_def
  sqlite_reserve_read_def sqlite_reserve_check_def sqlite_reserve_write_def sqlite_release_def

interpretation memory_locations: output_index memory_owner memory_finished memory_reserve memory_release
proof
  fix j l :: string and s s' :: memory_storage
  assume j: "j \<noteq> []" and r: "memory_reserve l j s = Inr s'"
  show "(case memory_owner s l of None \<Rightarrow> True | Some i \<Rightarrow> i = j \<or> memory_finished s i) \<and>
      memory_owner s' = (memory_owner s)(l := Some j) \<and> memory_finished s' = memory_finished s"
    using j r by (cases "map_of (mm_output_index s) l")
      (auto simp: memory_index_defs proper_owner_simps map_of_update dict_get_def Let_def fun_eq_iff split: if_splits)
next
  fix j l :: string and s :: memory_storage
  assume "case memory_owner s l of None \<Rightarrow> True | Some i \<Rightarrow> i = j"
  then show "\<exists>s'. memory_reserve l j s = Inr s'"
    by (cases "map_of (mm_output_index s) l")
      (auto simp: memory_index_defs proper_owner_simps dict_get_def Let_def split: if_splits)
next
  fix j l :: string and s :: memory_storage
  assume "j \<noteq> []"
  then show "memory_owner (memory_release l j s) = (if memory_owner s l = Some j then (memory_owner s)(l := None) else memory_owner s) \<and>
      memory_finished (memory_release l j s) = memory_finished s"
    by (cases "map_of (mm_output_index s) l")
      (auto simp: memory_index_defs proper_owner_simps map_of_delete fun_eq_iff delete_conv' split: if_splits)
qed

interpretation sqlite_locations: output_index sqlite_owner "sqlite_finished E prefix" "sqlite_reserve E prefix" sqlite_release for E prefix
proof
  fix j l :: string and s s' :: "'a sqlite_storage"
  assume j: "j \<noteq> []" and r: "sqlite_reserve E prefix l j s = Inr s'"
  show "(case sqlite_owner s l of None \<Rightarrow> True | Some i \<Rightarrow> i = j \<or> sqlite_finished E prefix s i) \<and>
      sqlite_owner s' = (sqlite_owner s)(l := Some j) \<and> sqlite_finished E prefix s' = sqlite_finished E prefix s"
    using j r by (cases "map_of (sq_locations s) l")
      (auto simp: sqlite_index_defs proper_owner_simps map_of_update ebind_Inr_iff fun_eq_iff split: if_splits)
next
  fix j l :: string and s :: "'a sqlite_storage"
  assume "case sqlite_owner s l of None \<Rightarrow> True | Some i \<Rightarrow> i = j"
  then show "\<exists>s'. sqlite_reserve E prefix l j s = Inr s'"
    by (cases "map_of (sq_locations s) l") (auto simp: sqlite_index_defs proper_owner_simps split: if_splits)
next
  fix j l :: string and s :: "'a sqlite_storage"
  assume "j \<noteq> []"
  then show "sqlite_owner (sqlite_release l j s) = (if sqlite_owner s l = Some j then (sqlite_owner s)(l := None) else sqlite_owner s) \<and>
      sqlite_finished E prefix (sqlite_release l j s) = sqlite_finished E prefix s"
    by (cases "map_of (sq_locations s) l")
      (auto simp: sqlite_index_defs proper_owner_simps fun_eq_iff delete_conv' split: if_splits)
qed

section \<open>An example\<close>

text \<open>A blob service that is a map, and a codec that keeps every field.\<close>

definition status_of :: "string \<Rightarrow> job_status option" where
  "status_of n = find (\<lambda>s. status_name s = n) [Pending, Running, Completed, Failed, Cancelled]"

definition int_value :: "int option \<Rightarrow> pyval" where
  "int_value x = (case x of None \<Rightarrow> PNone | Some i \<Rightarrow> PInt i)"

definition rat_value :: "rat option \<Rightarrow> pyval" where
  "rat_value x = (case x of None \<Rightarrow> PNone | Some i \<Rightarrow> PFloat i)"

definition read_opt :: "(pyval \<Rightarrow> 'a option) \<Rightarrow> pyval \<Rightarrow> 'a option option" where
  "read_opt f v = (case v of PNone \<Rightarrow> Some None | _ \<Rightarrow> map_option Some (f v))"

definition int_of_value :: "pyval \<Rightarrow> int option" where
  "int_of_value v = (case v of PInt i \<Rightarrow> Some i | _ \<Rightarrow> None)"

definition rat_of_value :: "pyval \<Rightarrow> rat option" where
  "rat_of_value v = (case v of PFloat i \<Rightarrow> Some i | _ \<Rightarrow> None)"

definition str_of_value :: "pyval \<Rightarrow> string option" where
  "str_of_value v = (case v of PStr i \<Rightarrow> Some i | _ \<Rightarrow> None)"

definition str_value :: "string option \<Rightarrow> pyval" where
  "str_value x = (case x of None \<Rightarrow> PNone | Some i \<Rightarrow> PStr i)"

definition example_dump :: "job_summary \<Rightarrow> pyval" where
  "example_dump s = PDict
     [(''job_id'', PStr (sm_job_id s)), (''org_id'', PStr (sm_org_id s)), (''user_id'', PStr (sm_user_id s)),
      (''status'', PStr (status_name (sm_status s))), (''submitted_at'', PInt (sm_submitted_at s)),
      (''started_at'', int_value (sm_started_at s)), (''finished_at'', int_value (sm_finished_at s)),
      (''optimization_seconds'', rat_value (sm_optimization_seconds s)),
      (''selection_seconds'', rat_value (sm_selection_seconds s)),
      (''clustering_seconds'', rat_value (sm_clustering_seconds s)),
      (''error'', str_value (sm_error s))]"

definition read_field :: "(pyval \<Rightarrow> 'a option) \<Rightarrow> (string, pyval) dict \<Rightarrow> string \<Rightarrow> 'a option" where
  "read_field f d k = Option.bind (map_of d k) f"

definition example_validate :: "pyval \<Rightarrow> job_summary option" where
  "example_validate v = (case v of PDict d \<Rightarrow>
     Option.bind (read_field str_of_value d ''job_id'') (\<lambda>job_id.
     Option.bind (read_field str_of_value d ''org_id'') (\<lambda>org_id.
     Option.bind (read_field str_of_value d ''user_id'') (\<lambda>user_id.
     Option.bind (read_field str_of_value d ''status'') (\<lambda>status.
     Option.bind (status_of status) (\<lambda>st.
     Option.bind (read_field int_of_value d ''submitted_at'') (\<lambda>submitted.
     Option.bind (read_field (read_opt int_of_value) d ''started_at'') (\<lambda>started.
     Option.bind (read_field (read_opt int_of_value) d ''finished_at'') (\<lambda>finished.
     Option.bind (read_field (read_opt rat_of_value) d ''optimization_seconds'') (\<lambda>opt.
     Option.bind (read_field (read_opt rat_of_value) d ''selection_seconds'') (\<lambda>sel.
     Option.bind (read_field (read_opt rat_of_value) d ''clustering_seconds'') (\<lambda>clu.
     Option.bind (read_field (read_opt str_of_value) d ''error'') (\<lambda>err.
       Some \<lparr>sm_job_id = job_id, sm_org_id = org_id, sm_user_id = user_id, sm_status = st, sm_submitted_at = submitted,
         sm_started_at = started, sm_finished_at = finished, sm_optimization_seconds = opt, sm_selection_seconds = sel,
         sm_clustering_seconds = clu, sm_error = err\<rparr>))))))))))))
   | _ \<Rightarrow> None)"

definition example_storage :: "(string \<rightharpoonup> pyval \<times> string) storage_env" where
  "example_storage = \<lparr>se_validate = example_validate, se_dump = example_dump, se_get = \<lambda>b k. b k, se_put = \<lambda>b k v. Inr (b(k \<mapsto> v))\<rparr>"

lemma example_codec: "codec_ok example_storage" "dumps_json example_storage" "blobs_ok example_storage"
proof -
  have st: "status_of (status_name s) = Some s" for s by (cases s) (simp_all add: status_of_def status_name_def)
  have i: "read_opt int_of_value (int_value x) = Some x" for x by (cases x) (simp_all add: read_opt_def int_of_value_def int_value_def)
  have r: "read_opt rat_of_value (rat_value x) = Some x" for x by (cases x) (simp_all add: read_opt_def rat_of_value_def rat_value_def)
  have e: "read_opt str_of_value (str_value x) = Some x" for x by (cases x) (simp_all add: read_opt_def str_of_value_def str_value_def)
  have "example_validate (example_dump s) = Some s" for s
    by (simp add: example_dump_def example_validate_def read_field_def st i r e str_of_value_def int_of_value_def)
  then show "codec_ok example_storage" by (simp add: codec_ok_def example_storage_def example_dump_def)
  have ji: "json_value (int_value x) = int_value x" for x by (cases x) (simp_all add: int_value_def)
  have jr: "json_value (rat_value x) = rat_value x" for x by (cases x) (simp_all add: rat_value_def)
  have js: "json_value (str_value x) = str_value x" for x by (cases x) (simp_all add: str_value_def)
  show "dumps_json example_storage"
    by (simp add: dumps_json_def example_storage_def example_dump_def ji jr js)
  show "blobs_ok example_storage" by (simp add: blobs_ok_def example_storage_def)
qed

definition example_job :: "string \<Rightarrow> string \<Rightarrow> int \<Rightarrow> job_record" where
  "example_job j status t =
     [(''job_id'', PStr j), (''status'', PStr status), (''submitted_at'', PInt t), (''inputs'', PDict []),
      (''org_id'', PStr ''o''), (''user_id'', PStr ''u''), (''progress'', PDict []), (''result'', PNone)]"

definition example_recs :: "(string \<times> job_record) list" where
  "example_recs = [(''a'', example_job ''a'' ''pending'' 5), (''b'', example_job ''b'' ''running'' 7), (''a'', example_job ''a'' ''completed'' 5)]"

definition empty_sqlite :: "(string \<rightharpoonup> pyval \<times> string) sqlite_storage" where
  "empty_sqlite = \<lparr>sq_blobs = Map.empty, sq_summaries = [], sq_locations = [], sq_last_prune = None\<rparr>"

section \<open>What the archive promises\<close>

text \<open>
  C36: The three backends agree: after the same successful saves into empty archives, in-memory, blob and
  SQLite archives (without retention) show the same page of the same listing for every filter, every page
  from 1 on and every page size, with the same total, and this listing is the one the saved summaries
  determine. Records are saved under their own job id, and the JSON and summary codecs and the blob store
  give back what they were given.
\<close>

theorem archive_backends_agree:
  assumes "codec_ok E" and "dumps_json E" and "blobs_ok E" and "ids_match E recs" and "1 \<le> page" and "0 \<le> page_size"
    and "fst (run_ops (map (\<lambda>(j, d). memory_save E j d) recs) empty_memory) = Inr ()"
    and "get_json_optional E (jobs_index_name prefix) b = None"
    and "fst (run_ops (map (\<lambda>(j, d). blob_save E prefix j d) recs) b) = Inr ()"
    and "sq_summaries s = []" and "days \<le> 0"
    and "fst (run_ops (map (\<lambda>(j, d). sqlite_save E prefix days monotonic now j d) recs) s) = Inr ()"
  shows "memory_list q page page_size (snd (run_ops (map (\<lambda>(j, d). memory_save E j d) recs) empty_memory)) =
      sqlite_list q page page_size (snd (run_ops (map (\<lambda>(j, d). sqlite_save E prefix days monotonic now j d) recs) s)) \<and>
    blob_list E prefix q page page_size (snd (run_ops (map (\<lambda>(j, d). blob_save E prefix j d) recs) b)) =
      Inr (sqlite_list q page page_size (snd (run_ops (map (\<lambda>(j, d). sqlite_save E prefix days monotonic now j d) recs) s))) \<and>
    (\<exists>items. is_listing (map_of (saved_summaries E recs [])) q items \<and>
      sqlite_list q page page_size (snd (run_ops (map (\<lambda>(j, d). sqlite_save E prefix days monotonic now j d) recs) s)) =
        (page_items items page page_size, length items))"
proof -
  let ?ss = "saved_summaries E recs []"
  have m: "mm_summaries (snd (run_ops (map (\<lambda>(j, d). memory_save E j d) recs) empty_memory)) = ?ss"
    using memory_saves [OF assms(7)] by (simp add: empty_memory_def)
  have q: "sq_summaries (snd (run_ops (map (\<lambda>(j, d). sqlite_save E prefix days monotonic now j d) recs) s)) = ?ss"
    using sqlite_saves [OF assms(11,4,12)] assms(10) by simp
  have "index_holds E prefix b []" using assms(8) by (simp add: index_holds_def or_empty_def dumped_def)
  from blob_list_index [OF assms(1) blob_saves [OF assms(3,2) this assms(9)]]
  have b: "blob_list E prefix q page page_size (snd (run_ops (map (\<lambda>(j, d). blob_save E prefix j d) recs) b)) =
    Inr (page_of (sort_summaries (filter (matches q) (dict_values ?ss))) page page_size, length (filter (matches q) (dict_values ?ss)))" .
  have k: "keyed ?ss" by (rule saved_keyed [OF assms(4)]) simp
  show ?thesis
    using keyed_listing [OF k, of q] assms(5,6)
    by (intro conjI exI) (auto simp: m q b memory_list_def sqlite_list_def filter_summaries_def page_of_items sql_page_items Let_def)
qed

theorem archive_backends_agree_witness:
  "memory_list \<lparr>qy_org_id = ''o'', qy_user_id = None, qy_job_ids = None, qy_statuses = None\<rparr> 1 1
     (snd (run_ops (map (\<lambda>(j, d). memory_save example_storage j d) example_recs) empty_memory)) =
   sqlite_list \<lparr>qy_org_id = ''o'', qy_user_id = None, qy_job_ids = None, qy_statuses = None\<rparr> 1 1
     (snd (run_ops (map (\<lambda>(j, d). sqlite_save example_storage ''jobs'' 0 0 0 j d) example_recs) empty_sqlite))"
proof -
  have run: "fst (run_ops (map (\<lambda>(j, d). memory_save example_storage j d) example_recs) empty_memory) = Inr ()"
    "fst (run_ops (map (\<lambda>(j, d). blob_save example_storage ''jobs'' j d) example_recs) Map.empty) = Inr ()"
    "fst (run_ops (map (\<lambda>(j, d). sqlite_save example_storage ''jobs'' 0 0 0 j d) example_recs) empty_sqlite) = Inr ()"
    and ids: "ids_match example_storage example_recs"
    by code_simp+
  have none: "get_json_optional example_storage (jobs_index_name ''jobs'') Map.empty = None" "sq_summaries empty_sqlite = []"
    by (simp_all add: get_json_optional_def example_storage_def empty_sqlite_def)
  show ?thesis
    using archive_backends_agree [OF example_codec ids _ _ run(1) none(1) run(2) none(2) _ run(3), of 1 1
        "\<lparr>qy_org_id = ''o'', qy_user_id = None, qy_job_ids = None, qy_statuses = None\<rparr>"] by simp
qed

lemma then_op_Inr_pair: "then_op m f s = (Inr y, u) \<longleftrightarrow> (\<exists>x t. m s = (Inr x, t) \<and> f x t = (Inr y, u))"
  by (auto simp: then_op_def split: prod.splits sum.splits)

lemma map_of_json: "map_of (map (\<lambda>(k, v). (k, json_value v)) d) k = map_option json_value (map_of d k)"
  by (induction d) auto

lemma blob_objects_saved:
  assumes ok: "blobs_ok E" and "blob_save E prefix j d b = (Inr (), b')"
    and "map_of d ''inputs'' = Some i" and "map_of d ''progress'' = Some p" and "map_of d ''result'' = Some r"
  shows "get_json_optional E (job_object_name prefix j ''record.json'') b' = Some (json_value (PDict (record_data d)))"
    and "get_json_optional E (job_object_name prefix j ''inputs.json'') b' = Some (json_value i)"
    and "get_json_optional E (job_object_name prefix j ''progress.json'') b' = Some (json_value p)"
    and "get_json_optional E (job_object_name prefix j ''result.json'') b' =
      (if r = PNone then get_json_optional E (job_object_name prefix j ''result.json'') b else Some (json_value r))"
proof -
  note names = job_object_name_inject job_object_not_index
  obtain b1 b2 b3 b4 v where puts:
    "put_json E (job_object_name prefix j ''record.json'') (PDict (record_data d)) b = (Inr (), b1)"
    "put_json E (job_object_name prefix j ''inputs.json'') i b1 = (Inr (), b2)"
    "put_json E (job_object_name prefix j ''progress.json'') p b2 = (Inr (), b3)"
    and res: "when_op (r \<noteq> PNone) (put_json E (job_object_name prefix j ''result.json'') r) b3 = (Inr (), b4)"
    and idx: "put_json E (jobs_index_name prefix) v b4 = (Inr (), b')"
    using assms(2-5) by (auto simp: blob_save_def save_record_blobs_def then_op_Inr_pair dict_get_def pure_op_def)
  have g1: "get_json_optional E k b3 = (if k = job_object_name prefix j ''progress.json'' then Some (json_value p)
      else if k = job_object_name prefix j ''inputs.json'' then Some (json_value i)
      else if k = job_object_name prefix j ''record.json'' then Some (json_value (PDict (record_data d)))
      else get_json_optional E k b)" for k
    by (simp only: put_json_run [OF ok puts(1)] put_json_run [OF ok puts(2)] put_json_run [OF ok puts(3)])
  have g2: "get_json_optional E k b4 = (if r \<noteq> PNone \<and> k = job_object_name prefix j ''result.json'' then Some (json_value r)
      else get_json_optional E k b3)" for k
    using res put_json_run [OF ok, of "job_object_name prefix j ''result.json''" r b3 b4 k]
    by (cases "r = PNone") (simp_all add: when_op_def pure_op_def)
  have g: "get_json_optional E (job_object_name prefix j f) b' = get_json_optional E (job_object_name prefix j f) b4"
    if "f \<in> {''record.json'', ''inputs.json'', ''progress.json'', ''result.json''}" for f
    using put_json_run [OF ok idx, of "job_object_name prefix j f"] job_object_not_index [OF that, of prefix j] by simp
  show "get_json_optional E (job_object_name prefix j ''record.json'') b' = Some (json_value (PDict (record_data d)))"
    by (subst g, simp) (simp add: g2 g1 names del: json_value.simps)
  show "get_json_optional E (job_object_name prefix j ''inputs.json'') b' = Some (json_value i)"
    by (subst g, simp) (simp add: g2 g1 names del: json_value.simps)
  show "get_json_optional E (job_object_name prefix j ''progress.json'') b' = Some (json_value p)"
    by (subst g, simp) (simp add: g2 g1 names del: json_value.simps)
  show "get_json_optional E (job_object_name prefix j ''result.json'') b' =
      (if r = PNone then get_json_optional E (job_object_name prefix j ''result.json'') b else Some (json_value r))"
    by (subst g, simp) (simp add: g2 g1 names del: json_value.simps)
qed

lemma blob_load_saved:
  assumes ok: "blobs_ok E" and s: "blob_save E prefix j d b = (Inr (), b')"
    and ip: "map_of d ''inputs'' = Some (PDict i)" "map_of d ''progress'' = Some (PDict p)" "map_of d ''result'' = Some r"
    and fresh: "get_json_optional E (job_object_name prefix j ''result.json'') b = None"
  shows "\<exists>d'. blob_load E prefix j b' = Inr (Some d') \<and>
    (\<forall>k. k \<noteq> ''result'' \<longrightarrow> map_of d' k = map_option json_value (map_of d k)) \<and>
    map_of d' ''result'' = (if r = PNone then None else Some (json_value r))"
proof -
  note o = blob_objects_saved [OF ok s ip]
  have jr: "json_value r = PNone \<longleftrightarrow> r = PNone" by (cases r) simp_all
  define dd where "dd = AList.update ''progress'' (json_value (PDict p)) (AList.update ''inputs'' (json_value (PDict i))
    (map (\<lambda>(k, v). (k, json_value v)) (record_data d)))"
  have res: "get_json_optional E (job_object_name prefix j ''result.json'') b' = (if r = PNone then None else Some (json_value r))"
    using o(4) fresh by simp
  have load: "blob_load E prefix j b' = Inr (Some (if r = PNone then dd else AList.update ''result'' (json_value r) dd))"
    using jr by (auto simp: blob_load_def o(1-3) res Let_def dd_def split: pyval.splits)
  have m: "map_of dd k = (if k = ''result'' then None else map_option json_value (map_of d k))" for k
    using ip unfolding dd_def by (auto simp: map_of_update map_of_json map_of_record_data stored_separately_def)
  have "map_of (if r = PNone then dd else AList.update ''result'' (json_value r) dd) k =
      (if k = ''result'' then if r = PNone then None else Some (json_value r) else map_option json_value (map_of d k))" for k
    by (simp add: m map_of_update)
  with load show ?thesis by (intro exI conjI) auto
qed

text \<open>
  C38: What is saved can be loaded: the record of a job that has no stored result yet comes back from the
  in-memory archive with every field it was saved with, and from the blob archive with the JSON form of
  every field; a result that is \<open>None\<close> is left out of the loaded record.
\<close>

theorem save_then_load:
  assumes "blobs_ok E" and "map_of d ''inputs'' = Some (PDict i)" and "map_of d ''progress'' = Some (PDict p)"
    and "map_of d ''result'' = Some r" and "distinct (dict_keys d)"
    and "fst (memory_save E j d m) = Inr ()" and "map_of (mm_result m) j = None"
    and "blob_save E prefix j d b = (Inr (), b')"
    and "get_json_optional E (job_object_name prefix j ''result.json'') b = None"
  shows "\<exists>d1 d2. memory_load j (snd (memory_save E j d m)) = Some d1 \<and> blob_load E prefix j b' = Inr (Some d2) \<and>
    (\<forall>k. map_of d1 k = (if k = ''result'' \<and> r = PNone then None else map_of d k)) \<and>
    (\<forall>k. map_of d2 k = map_option json_value (map_of d1 k))"
proof -
  have "set [''inputs'', ''progress'', ''result''] \<subseteq> set (dict_keys d)" using assms(2-4) by (force dest: map_of_SomeD)
  from memory_load_saved [OF assms(6,5) this] obtain d1 where d1: "memory_load j (snd (memory_save E j d m)) = Some d1"
    "\<forall>k. k \<noteq> ''result'' \<longrightarrow> map_of d1 k = map_of d k"
    "map_of d1 ''result'' = (if map_of d ''result'' = Some PNone then map_of (mm_result m) j else map_of d ''result'')" by blast
  from blob_load_saved [OF assms(1,8,2-4,9)] obtain d2 where d2: "blob_load E prefix j b' = Inr (Some d2)"
    "\<forall>k. k \<noteq> ''result'' \<longrightarrow> map_of d2 k = map_option json_value (map_of d k)"
    "map_of d2 ''result'' = (if r = PNone then None else Some (json_value r))" by blast
  have "map_of d1 k = (if k = ''result'' \<and> r = PNone then None else map_of d k)" for k
    using d1(2,3) assms(4,7) by (cases "k = ''result''") auto
  moreover have "map_of d2 k = map_option json_value (map_of d1 k)" for k
    using d1(2,3) d2(2,3) assms(4,7) by (cases "k = ''result''") auto
  ultimately show ?thesis using d1(1) d2(1) by blast
qed

theorem save_then_load_witness:
  "\<exists>d1. memory_load ''a'' (snd (memory_save example_storage ''a'' (example_job ''a'' ''pending'' 5) empty_memory)) = Some d1 \<and>
     map_of d1 ''status'' = Some (PStr ''pending'') \<and> map_of d1 ''result'' = None"
proof -
  let ?d = "example_job ''a'' ''pending'' 5"
  have run: "fst (memory_save example_storage ''a'' ?d empty_memory) = Inr ()" by code_simp
  have "fst (blob_save example_storage ''jobs'' ''a'' ?d Map.empty) = Inr ()" by code_simp
  then obtain b' where b': "blob_save example_storage ''jobs'' ''a'' ?d Map.empty = (Inr (), b')" by (metis prod.collapse)
  have d: "map_of ?d ''inputs'' = Some (PDict [])" "map_of ?d ''progress'' = Some (PDict [])" "map_of ?d ''result'' = Some PNone"
    "distinct (dict_keys ?d)" "map_of ?d ''status'' = Some (PStr ''pending'')"
    by (simp_all add: example_job_def)
  have e: "map_of (mm_result empty_memory) ''a'' = None" by (simp add: empty_memory_def)
  have g: "get_json_optional example_storage (job_object_name ''jobs'' ''a'' ''result.json'') Map.empty = None"
    by (simp add: get_json_optional_def example_storage_def)
  from save_then_load [OF example_codec(3) d(1-4) run e b' g] show ?thesis using d(5) by auto
qed

text \<open>
  C37: Walking the pages of the SQLite archive shows everything: when the pages together are as long as
  the reported total, their concatenation is the whole listing, so every matching job appears, once,
  newest first. Pruning never loses a job that is pending or running.
\<close>

theorem pages_show_everything:
  assumes "keyed (sq_summaries s)" and "snd (sqlite_list q 1 (int n) (maybe_prune days monotonic now s)) \<le> k * n"
  shows "is_listing (map_of (sq_summaries (maybe_prune days monotonic now s))) q
      (concat (map (\<lambda>p. fst (sqlite_list q (int p) (int n) (maybe_prune days monotonic now s))) [1..<Suc k])) \<and>
    (\<forall>j r. map_of (sq_summaries s) j = Some r \<and> \<not> terminal_status (sm_status r) \<longrightarrow>
       map_of (sq_summaries (maybe_prune days monotonic now s)) j = Some r)"
proof
  have k: "keyed (sq_summaries (maybe_prune days monotonic now s))"
    using assms(1) keyed_filter by (simp add: maybe_prune_def Let_def)
  show "is_listing (map_of (sq_summaries (maybe_prune days monotonic now s))) q
      (concat (map (\<lambda>p. fst (sqlite_list q (int p) (int n) (maybe_prune days monotonic now s))) [1..<Suc k]))"
    by (rule sqlite.pages_complete [OF k assms(2)])
  show "\<forall>j r. map_of (sq_summaries s) j = Some r \<and> \<not> terminal_status (sm_status r) \<longrightarrow>
       map_of (sq_summaries (maybe_prune days monotonic now s)) j = Some r"
  proof (intro allI impI)
    fix j r assume r: "map_of (sq_summaries s) j = Some r \<and> \<not> terminal_status (sm_status r)"
    then have "(j, r) \<in> set (sq_summaries (maybe_prune days monotonic now s))"
      using maybe_prune_rows [of j r s] map_of_SomeD by metis
    then show "map_of (sq_summaries (maybe_prune days monotonic now s)) j = Some r"
      using k by (simp add: keyed_def)
  qed
qed

definition example_row :: "string \<Rightarrow> job_status \<Rightarrow> int \<Rightarrow> job_summary" where
  "example_row j st t = \<lparr>sm_job_id = j, sm_org_id = ''o'', sm_user_id = ''u'', sm_status = st, sm_submitted_at = t,
     sm_started_at = None, sm_finished_at = None, sm_optimization_seconds = None, sm_selection_seconds = None,
     sm_clustering_seconds = None, sm_error = None\<rparr>"

definition example_rows :: "(string \<rightharpoonup> pyval \<times> string) sqlite_storage" where
  "example_rows = empty_sqlite\<lparr>sq_summaries := [(''a'', example_row ''a'' Completed 5), (''b'', example_row ''b'' Running 7)]\<rparr>"

theorem pages_show_everything_witness:
  "is_listing (map_of (sq_summaries (maybe_prune 1 0 86400000010 example_rows)))
     \<lparr>qy_org_id = ''o'', qy_user_id = None, qy_job_ids = None, qy_statuses = None\<rparr>
     (concat (map (\<lambda>p. fst (sqlite_list \<lparr>qy_org_id = ''o'', qy_user_id = None, qy_job_ids = None, qy_statuses = None\<rparr> (int p) (int 1)
        (maybe_prune 1 0 86400000010 example_rows))) [1..<Suc 1]))"
proof -
  have "keyed (sq_summaries example_rows)" by (simp add: keyed_def example_rows_def example_row_def)
  moreover have "snd (sqlite_list \<lparr>qy_org_id = ''o'', qy_user_id = None, qy_job_ids = None, qy_statuses = None\<rparr> 1 (int 1)
      (maybe_prune 1 0 86400000010 example_rows)) \<le> 1 * 1" by code_simp
  ultimately show ?thesis using pages_show_everything by blast
qed

text \<open>
  A location is not taken away from a job that still needs it: in the in-memory archive, and in the
  SQLite archive as long as reservations do not overlap in time, any sequence of successful
  reservations leaves a location with the unfinished job that owns it.
\<close>

theorem output_location_kept:
  assumes "\<forall>(l, j) \<in> set ops. j \<noteq> []"
  shows "(memory_locations.reserve_all ops m = Inr m' \<and> memory_owner m l = Some i \<and> \<not> memory_finished m i \<longrightarrow>
      memory_owner m' l = Some i \<and> (\<forall>j. (l, j) \<in> set ops \<longrightarrow> j = i)) \<and>
    (sqlite_locations.reserve_all E prefix ops s = Inr s' \<and> sqlite_owner s l = Some i \<and> \<not> sqlite_finished E prefix s i \<longrightarrow>
      sqlite_owner s' l = Some i \<and> (\<forall>j. (l, j) \<in> set ops \<longrightarrow> j = i))"
  using memory_locations.reserve_all_keeps [OF assms] sqlite_locations.reserve_all_keeps [OF assms] by blast

theorem output_location_kept_witness:
  "memory_locations.reserve_all [(''x'', ''b'')] (empty_memory\<lparr>mm_output_index := [(''l'', ''a'')]\<rparr>) =
     Inr (empty_memory\<lparr>mm_output_index := [(''l'', ''a''), (''x'', ''b'')]\<rparr>) \<and>
   memory_owner (empty_memory\<lparr>mm_output_index := [(''l'', ''a''), (''x'', ''b'')]\<rparr>) ''l'' = Some ''a''"
proof -
  have run: "memory_locations.reserve_all [(''x'', ''b'')] (empty_memory\<lparr>mm_output_index := [(''l'', ''a'')]\<rparr>) =
      Inr (empty_memory\<lparr>mm_output_index := [(''l'', ''a''), (''x'', ''b'')]\<rparr>)"
    by (simp add: memory_reserve_def dict_get_def)
  have "memory_owner (empty_memory\<lparr>mm_output_index := [(''l'', ''a'')]\<rparr>) ''l'' = Some ''a''"
    "\<not> memory_finished (empty_memory\<lparr>mm_output_index := [(''l'', ''a'')]\<rparr>) ''a''"
    by (simp_all add: memory_owner_def memory_finished_def proper_owner_def completed_record_def empty_memory_def)
  with run have "memory_owner (empty_memory\<lparr>mm_output_index := [(''l'', ''a''), (''x'', ''b'')]\<rparr>) ''l'' = Some ''a''"
    by (intro output_location_kept [where ops = "[(''x'', ''b'')]" and l = "''l''" and i = "''a''",
        THEN conjunct1, THEN mp, THEN conjunct1]) auto
  with run show ?thesis by blast
qed

text \<open>
  The SQLite archive's reservation is not atomic: it checks the owner in one critical section and
  writes in another. When two jobs check a free location before either writes, both reservations
  succeed and the second silently takes the location from the first, which has not completed; the
  atomic reservations of the other backends refuse the second.
\<close>

theorem sqlite_reserve_race:
  fixes s :: "'b sqlite_storage"
  assumes "map_of (sq_locations s) l = None" and "i \<noteq> []" and "j \<noteq> []" and "i \<noteq> j" and "\<not> sqlite_finished E prefix s i"
  shows "sqlite_reserve_check E prefix i (sqlite_reserve_read l s) s = Inr () \<and>
    sqlite_reserve_check E prefix j (sqlite_reserve_read l s) (sqlite_reserve_write l i s) = Inr () \<and>
    sqlite_owner (sqlite_reserve_write l j (sqlite_reserve_write l i s)) l = Some j \<and>
    (\<exists>e. ebind (sqlite_reserve E prefix l i s) (sqlite_reserve E prefix l j) = Inl e)"
proof (intro conjI)
  show "sqlite_reserve_check E prefix i (sqlite_reserve_read l s) s = Inr ()"
    "sqlite_reserve_check E prefix j (sqlite_reserve_read l s) (sqlite_reserve_write l i s) = Inr ()"
    using assms(1) by (simp_all add: sqlite_reserve_read_def sqlite_reserve_check_def)
  show "sqlite_owner (sqlite_reserve_write l j (sqlite_reserve_write l i s)) l = Some j"
    using assms(3) by (simp add: sqlite_owner_def sqlite_reserve_write_def map_of_update proper_owner_simps)
  obtain t where t: "sqlite_reserve E prefix l i s = Inr t"
    using sqlite_locations.reserve_free [where s = s and l = l and j = i and E = E and prefix = prefix] assms(1) by (auto simp: sqlite_owner_def proper_owner_simps)
  from sqlite_locations.reserve_ok [OF assms(2) t]
  have "sqlite_owner t l = Some i" "\<not> sqlite_finished E prefix t i" using assms(5) by simp_all
  from sqlite_locations.reserve_exclusive [OF assms(3) this(1) assms(4) this(2)]
  show "\<exists>e. ebind (sqlite_reserve E prefix l i s) (sqlite_reserve E prefix l j) = Inl e" by (simp add: t)
qed

theorem sqlite_reserve_race_witness:
  "sqlite_owner (sqlite_reserve_write ''l'' ''b'' (sqlite_reserve_write ''l'' ''a'' empty_sqlite)) ''l'' = Some ''b'' \<and>
   (\<exists>e. ebind (sqlite_reserve example_storage ''jobs'' ''l'' ''a'' empty_sqlite) (sqlite_reserve example_storage ''jobs'' ''l'' ''b'') = Inl e)"
proof -
  have "\<not> sqlite_finished example_storage ''jobs'' empty_sqlite ''a''"
    by (simp add: sqlite_finished_def blob_load_def get_json_optional_def example_storage_def empty_sqlite_def completed_record_def)
  then show ?thesis
    using sqlite_reserve_race [of empty_sqlite "''l''" "''a''" "''b''" example_storage "''jobs''"] by (simp add: empty_sqlite_def)
qed

end
