(* ===== verification/Sharding.thy ===== *)
theory Sharding
  imports RuntimeGraphs PyStrings "HOL-Library.Product_Lexorder"
begin

text \<open>
  Data-parallel sharding of a batch (\<open>runtime/runtime_manager/flowmesh.py\<close>): a node that the schedule
  gives to several workers is split into one shard per worker, its static lists are cut into
  contiguous pieces, references are redirected, and a merge node joins the shards where something
  that is not sharded reads them. Specifications are trees, so that the code's in-place rewriting
  of deep copies is a function. Error messages carry no node names here.
\<close>

section \<open>Nodes\<close>

definition node_name :: "spec \<Rightarrow> string result" where
  "node_name node =
     (case map_of node ''name'' of
        Some (PStr s) \<Rightarrow> if s = [] then Inl (ValueError ''FlowMesh node is missing a valid name'') else Inr s
      | _ \<Rightarrow> Inl (ValueError ''FlowMesh node is missing a valid name''))"

text \<open>The strings of a list; nothing for any other value.\<close>

definition str_items :: "pyval option \<Rightarrow> string list" where
  "str_items v = (case v of Some (PList xs) \<Rightarrow> concat (map (\<lambda>x. case x of PStr s \<Rightarrow> [s] | _ \<Rightarrow> []) xs) | _ \<Rightarrow> [])"

definition node_deps :: "spec \<Rightarrow> string list" where
  "node_deps node = str_items (map_of node ''dependsOn'')"

type_synonym node_map = "(string, spec) dict"

definition index_node :: "spec \<Rightarrow> node_map \<Rightarrow> node_map result" where
  "index_node node nm =
     ebind (node_name node) (\<lambda>n.
       if n \<in> set (dict_keys nm) then Inl (ValueError ''Duplicate FlowMesh node name'') else Inr (nm @ [(n, node)]))"

definition index_nodes :: "spec list \<Rightarrow> node_map result" where
  "index_nodes nodes = efold index_node nodes []"

section \<open>Worker candidates\<close>

type_synonym assignment = "(string, string list) dict"

text \<open>One pass over the nodes of a worker; the two callers differ in their messages.\<close>

fun collect_worker :: "string \<times> string \<Rightarrow> string list \<Rightarrow> string \<Rightarrow> string list \<Rightarrow> string list \<Rightarrow>
    (string, string list) dict \<Rightarrow> (string, string list) dict result" where
  "collect_worker errs names w seen [] c = Inr c"
| "collect_worker errs names w seen (n # ns) c =
     (if n \<in> set seen then Inl (ValueError (fst errs))
      else if n \<notin> set names then Inl (ValueError (snd errs))
      else collect_worker errs names w (n # seen) ns (AList.update n (set_add w (dict_get c n [])) c))"

definition collect_workers :: "string \<times> string \<Rightarrow> string \<Rightarrow> assignment \<Rightarrow> string list \<Rightarrow> (string, string list) dict result" where
  "collect_workers errs uncovered assigned names =
     ebind (efold (\<lambda>(w, ns) c. collect_worker errs names w [] ns c) assigned []) (\<lambda>c.
       if set (dict_keys c) \<noteq> set names then Inl (ValueError uncovered) else Inr c)"

definition collect_node_worker_candidates :: "assignment \<Rightarrow> string list \<Rightarrow> (string, string list) dict result" where
  "collect_node_worker_candidates =
     collect_workers (''Worker assignment contains duplicate node IDs'', ''Worker assignment references unknown node'')
       ''Worker assignment must cover all runtime nodes''"

section \<open>Dependency order with a heap\<close>

text \<open>
  Both Kahn sorts of the module keep a heap of keyed nodes. The keys of different nodes differ, so
  that the heap is the list sorted by key.
\<close>

fun heap_loop :: "nat \<Rightarrow> ('a \<Rightarrow> 'k::linorder) \<Rightarrow> ('a \<Rightarrow> 'a list) \<Rightarrow> 'a list \<Rightarrow> ('a \<Rightarrow> int) \<Rightarrow> 'a list \<Rightarrow> 'a list result" where
  "heap_loop fuel key children [] indeg order = Inr order"
| "heap_loop 0 key children (x # heap) indeg order = Inl Diverges"
| "heap_loop (Suc fuel) key children (x # heap) indeg order =
     (let (indeg', heap') = relax (insort_key key) (children x) (indeg, heap)
      in heap_loop fuel key children heap' indeg' (order @ [x]))"

definition dep_edges :: "string list \<Rightarrow> (string \<Rightarrow> string list) \<Rightarrow> (string \<times> string) list" where
  "dep_edges names deps = [(d, n). n \<leftarrow> names, d \<leftarrow> deps n, d \<in> set names]"

definition heap_order :: "string \<times> string \<Rightarrow> (string \<Rightarrow> 'k::linorder) \<Rightarrow> string list \<Rightarrow> (string \<Rightarrow> string list) \<Rightarrow> string list result" where
  "heap_order errs key names deps =
     (if list_ex (\<lambda>n. n \<in> set (deps n)) names then Inl (ValueError (fst errs))
      else let (indeg, children) = kahn_tables (dep_edges names deps);
               heap = foldl (\<lambda>h n. insort_key key n h) [] (filter (\<lambda>n. indeg n = 0) names)
           in ebind (heap_loop (length names) key children heap indeg []) (\<lambda>ordered.
                if length ordered \<noteq> length names then Inl (ValueError (snd errs)) else Inr ordered))"

definition node_deps_of :: "node_map \<Rightarrow> string \<Rightarrow> string list" where
  "node_deps_of nm n = (case map_of nm n of None \<Rightarrow> [] | Some node \<Rightarrow> node_deps node)"

definition shard_rewrite_order :: "node_map \<Rightarrow> string list result" where
  "shard_rewrite_order nm =
     heap_order (''Invalid shard rewrite dependency graph: self dependency'', ''Invalid shard rewrite dependency graph: cycle detected'')
       (\<lambda>n. (order_index (dict_keys nm) n, n)) (dict_keys nm) (node_deps_of nm)"

definition build_flat_schedule_hint ::
  "assignment \<Rightarrow> string list \<Rightarrow> (string, string list) dict \<Rightarrow> (string list \<times> (string, string list) dict) result" where
  "build_flat_schedule_hint assigned names deps =
     ebind (collect_workers (''Invalid schedule hint: duplicate node found within worker assignment'',
              ''Invalid schedule hint: worker assignment references unknown node'')
            ''Invalid internal schedule: worker assignment does not cover graph nodes'' assigned names) (\<lambda>workers.
     ebind (heap_order (''Invalid schedule hint dependency graph: self dependency'',
              ''Invalid schedule hint dependency graph: cycle detected in flowmesh nodes'')
            (\<lambda>n. (order_index (dict_keys workers) n, order_index names n, n)) names (\<lambda>n. dict_get deps n [])) (\<lambda>ordered.
     Inr (ordered, dict_of (map (\<lambda>n. (n, dict_get workers n [])) names))))"

section \<open>Static lists\<close>

fun static_list_lengths :: "pyval \<Rightarrow> nat list" where
  "static_list_lengths (PDict d) =
     (case (map_of d ''type'', map_of d ''items'') of
        (Some (PStr t), Some (PList xs)) \<Rightarrow> if t = ''list'' then [length xs] else []
      | _ \<Rightarrow> []) @ concat (map (\<lambda>(k, v). static_list_lengths v) d)"
| "static_list_lengths (PList xs) = concat (map static_list_lengths xs)"
| "static_list_lengths v = []"

definition static_partition_total :: "spec \<Rightarrow> nat option result" where
  "static_partition_total data =
     (let lengths = static_list_lengths (PDict data) in
      if lengths = [] then Inr None
      else let tot = Max (set lengths) in
        if list_ex (\<lambda>l. l \<noteq> 1 \<and> l \<noteq> tot) lengths
        then Inl (ValueError ''Unsupported shard boundary: inconsistent static list lengths'')
        else Inr (Some (max 1 tot)))"

definition node_spec :: "spec \<Rightarrow> spec option" where
  "node_spec node = (case map_of node ''spec'' of Some (PDict s) \<Rightarrow> Some s | _ \<Rightarrow> None)"

definition spec_data :: "spec \<Rightarrow> spec option" where
  "spec_data s = (case map_of s ''data'' of Some (PDict d) \<Rightarrow> Some d | _ \<Rightarrow> None)"

text \<open>The total of a node that is there and has a data section, otherwise none.\<close>

definition node_static_total :: "node_map \<Rightarrow> string \<Rightarrow> nat option result" where
  "node_static_total nm n =
     (case Option.bind (Option.bind (map_of nm n) node_spec) spec_data of
        None \<Rightarrow> Inr None | Some data \<Rightarrow> static_partition_total data)"

text \<open>
  The walk over the ancestors keeps a stack, whose top is the head here. A step either makes one
  more node of the map visited or shortens the stack.
\<close>

function ancestor_totals :: "node_map \<Rightarrow> string list \<Rightarrow> string list \<Rightarrow> nat list result" where
  "ancestor_totals nm visited [] = Inr []"
| "ancestor_totals nm visited (n # stack) =
     (if n \<in> set visited then ancestor_totals nm visited stack
      else if n \<notin> set (dict_keys nm) then ancestor_totals nm (n # visited) stack
      else ebind (node_static_total nm n) (\<lambda>t.
           ebind (ancestor_totals nm (n # visited)
                    (rev (filter (\<lambda>d. d \<notin> set (n # visited)) (node_deps_of nm n)) @ stack)) (\<lambda>ts.
             Inr ((case t of None \<Rightarrow> [] | Some t \<Rightarrow> [t]) @ ts))))"
  by pat_completeness auto
termination
proof (relation "measures [\<lambda>(nm, visited, stack). card (set (dict_keys nm) - set visited), \<lambda>(nm, visited, stack). length stack]", goal_cases)
  case (3 nm visited n stack)
  have "card (set (dict_keys nm) - set (n # visited)) \<le> card (set (dict_keys nm) - set visited)"
    by (rule card_mono) auto
  then show ?case by auto
next
  case (4 nm visited n stack t)
  have "card (set (dict_keys nm) - set (n # visited)) < card (set (dict_keys nm) - set visited)"
    by (rule psubset_card_mono) (use 4 in auto)
  then show ?case by simp
qed auto

definition aligned_max :: "string \<Rightarrow> nat list \<Rightarrow> nat result" where
  "aligned_max msg totals =
     (let tot = Max (set totals) in
      if list_ex (\<lambda>t. t \<noteq> 1 \<and> t \<noteq> tot) totals then Inl (ValueError msg) else Inr tot)"

definition unsharded_dependency_total :: "node_map \<Rightarrow> string list \<Rightarrow> nat option result" where
  "unsharded_dependency_total nm deps =
     ebind (emap (node_static_total nm) deps) (\<lambda>ts.
       let direct = concat (map (\<lambda>t. case t of None \<Rightarrow> [] | Some t \<Rightarrow> [t]) ts) in
       if direct \<noteq> [] then ebind (aligned_max ''dependency static partition sizes do not align'' direct) (\<lambda>t. Inr (Some t))
       else ebind (ancestor_totals nm [] (rev deps)) (\<lambda>ancestors.
         if ancestors = [] then Inr None
         else ebind (aligned_max ''ancestor static partition sizes do not align'' ancestors) (\<lambda>t. Inr (Some t))))"

section \<open>Partitions\<close>

fun partition_loop :: "nat \<Rightarrow> nat \<Rightarrow> nat \<Rightarrow> nat list \<Rightarrow> (nat \<times> nat) list" where
  "partition_loop base remainder start [] = []"
| "partition_loop base remainder start (idx # idxs) =
     (let size = base + (if idx < remainder then 1 else 0)
      in (start, start + size) # partition_loop base remainder (start + size) idxs)"

definition build_index_partitions :: "nat \<Rightarrow> nat \<Rightarrow> (nat \<times> nat) list" where
  "build_index_partitions tot shard_count =
     (let safe_total = max 1 tot; safe_count = max 1 shard_count
      in partition_loop (safe_total div safe_count) (safe_total mod safe_count) 0 [0..<safe_count])"

record shard_state =
  ss_shards :: "(string, string list) dict"
  ss_partitions :: "(string, (nat \<times> nat) list) dict"
  ss_candidates :: "(string, string list) dict"

text \<open>The partition sizes of the dependencies that are sharded already.\<close>

definition dep_partition_totals :: "nat \<Rightarrow> shard_state \<Rightarrow> string list \<Rightarrow> nat list result" where
  "dep_partition_totals cnt s deps =
     emap (\<lambda>d. let ps = dict_get (ss_partitions s) d [] in
         if length ps \<noteq> cnt then Inl (ValueError ''dependency shard cnt mismatch'')
         else Inr (sum_list (map (\<lambda>(i, j). j - i) ps)))
       (filter (\<lambda>d. d \<in> set (dict_keys (ss_partitions s))) deps)"

definition infer_shard_input_size :: "node_map \<Rightarrow> nat option \<Rightarrow> nat \<Rightarrow> string list \<Rightarrow> shard_state \<Rightarrow> nat result" where
  "infer_shard_input_size nm local_total cnt deps s =
     (case local_total of
        Some t \<Rightarrow> Inr t
      | None \<Rightarrow>
          ebind (dep_partition_totals cnt s deps) (\<lambda>totals.
            if totals \<noteq> [] then
              (if list_ex (\<lambda>t. t \<noteq> hd totals) totals
               then Inl (ValueError ''dependency partition sizes do not align'') else Inr (max 1 (hd totals)))
            else ebind (ancestor_totals nm [] (rev deps)) (\<lambda>ancestors.
              if ancestors = [] then Inl (ValueError ''cannot infer static partition size'')
              else ebind (aligned_max ''ancestor static partition sizes do not align'' ancestors) (\<lambda>t. Inr (max 1 t)))))"

section \<open>Planning the shards of a node\<close>

definition classify_shard_boundary_error :: "string \<Rightarrow> string" where
  "classify_shard_boundary_error msg =
     (let m = str_lower msg in
      if list_ex (\<lambda>t. contains_str t m) [''cardinality'', ''mismatch'', ''inconsistent static list lengths'', ''do not align'']
      then ''cardinality mismatch''
      else if contains_str ''unresolved sharded deps'' m then ''unresolved sharded deps''
      else ''non-partitionable boundary'')"

definition shard_name :: "string \<Rightarrow> nat \<Rightarrow> string" where
  "shard_name n idx = n @ ''__shard_'' @ show_nat idx"

text \<open>
  A failure reason is an error whose message is its category: the classification maps each of the
  three categories to itself.
\<close>

definition boundary_check :: "node_map \<Rightarrow> nat option \<Rightarrow> string list \<Rightarrow> nat list \<Rightarrow> unit result" where
  "boundary_check nm local_total deps dep_counts =
     (if local_total \<noteq> None then Inr ()
      else if deps = [] then Inl (ValueError ''non-partitionable boundary'')
      else if dep_counts \<noteq> [] then Inr ()
      else ebind (unsharded_dependency_total nm deps) (\<lambda>t.
        case t of None \<Rightarrow> Inl (ValueError ''unresolved sharded deps'')
        | Some t \<Rightarrow> if t \<le> 1 then Inl (ValueError ''unresolved sharded deps'') else Inr ()))"

definition active_count :: "nat \<Rightarrow> nat list \<Rightarrow> nat result" where
  "active_count workers dep_counts =
     (if dep_counts = [] then Inr workers
      else if list_ex (\<lambda>c. c \<noteq> hd dep_counts) dep_counts then Inl (ValueError ''cardinality mismatch'')
      else Inr (min workers (hd dep_counts)))"

definition add_shards :: "string \<Rightarrow> string list \<Rightarrow> nat \<Rightarrow> nat \<Rightarrow> shard_state \<Rightarrow> shard_state" where
  "add_shards n workers tot cnt s =
     s\<lparr>ss_candidates := AList.update n (take cnt workers) (ss_candidates s),
       ss_partitions := AList.update n (build_index_partitions tot cnt) (ss_partitions s),
       ss_shards := AList.update n (map (shard_name n) [0..<cnt]) (ss_shards s)\<rparr>"

definition plan_shards :: "node_map \<Rightarrow> string \<Rightarrow> string list \<Rightarrow> shard_state \<Rightarrow> shard_state result" where
  "plan_shards nm n workers s =
     (case Option.bind (Option.bind (map_of nm n) node_spec) spec_data of
        None \<Rightarrow> Inl (ValueError ''non-partitionable boundary'')
      | Some data \<Rightarrow>
          let deps = node_deps_of nm n;
              dep_counts = map (\<lambda>d. length (dict_get (ss_shards s) d [])) (filter (\<lambda>d. d \<in> set (dict_keys (ss_shards s))) deps)
          in ebind (static_partition_total data) (\<lambda>local_total.
             ebind (boundary_check nm local_total deps dep_counts) (\<lambda>_.
             ebind (active_count (length workers) dep_counts) (\<lambda>cnt.
               if cnt = 0 then Inl (ValueError ''non-partitionable boundary'')
               else ebind (infer_shard_input_size nm local_total cnt deps s) (\<lambda>tot.
                 let cnt = min cnt (max 1 tot) in
                 if length (take cnt workers) \<noteq> cnt then Inl (ValueError ''non-partitionable boundary'')
                 else Inr (add_shards n workers tot cnt s))))))"

definition shard_one :: "node_map \<Rightarrow> (string, string list) dict \<Rightarrow> string \<Rightarrow> shard_state \<Rightarrow> shard_state result" where
  "shard_one nm explicit n s =
     (case map_of explicit n of
        None \<Rightarrow> Inr s
      | Some workers \<Rightarrow>
          (case plan_shards nm n workers s of
             Inl (ValueError msg) \<Rightarrow>
               Inl (ValueError (''Explicit shard-intent rewrite failed: '' @ classify_shard_boundary_error msg))
           | r \<Rightarrow> r))"

section \<open>Rewriting the nodes\<close>

declare emap_cong [fundef_cong]

text \<open>A static list of the full length is cut; a list of one element is shared by every shard.\<close>

definition slice_items :: "nat \<Rightarrow> nat \<Rightarrow> nat \<Rightarrow> (string, pyval) dict \<Rightarrow> pyval list option result" where
  "slice_items start stop tot d =
     (case (map_of d ''type'', map_of d ''items'') of
        (Some (PStr t), Some (PList xs)) \<Rightarrow>
          if t \<noteq> ''list'' then Inr None
          else if length xs = tot then Inr (Some (take (stop - start) (drop start xs)))
          else if length xs \<noteq> 1 then Inl (ValueError ''static list length cannot be partitioned'')
          else Inr None
      | _ \<Rightarrow> Inr None)"

definition is_str :: "pyval option \<Rightarrow> bool" where
  "is_str v \<longleftrightarrow> (case v of Some (PStr s) \<Rightarrow> True | _ \<Rightarrow> False)"

fun slice_static_lists :: "nat \<Rightarrow> nat \<Rightarrow> nat \<Rightarrow> pyval \<Rightarrow> pyval result" where
  "slice_static_lists start stop tot (PDict d) =
     ebind (slice_items start stop tot d) (\<lambda>cut.
     ebind (emap (\<lambda>(k, v).
         if k = ''items'' \<and> is_str (map_of d ''type'')
         then Inr (k, case cut of None \<Rightarrow> v | Some xs \<Rightarrow> PList xs)
         else ebind (slice_static_lists start stop tot v) (\<lambda>v'. Inr (k, v'))) d) (\<lambda>d'.
     Inr (PDict d')))"
| "slice_static_lists start stop tot (PList xs) =
     ebind (emap (slice_static_lists start stop tot) xs) (\<lambda>ys. Inr (PList ys))"
| "slice_static_lists start stop tot v = Inr v"

definition shard_ref :: "(string, string list) dict \<Rightarrow> nat \<Rightarrow> string \<Rightarrow> pyval \<Rightarrow> pyval option result" where
  "shard_ref shards idx k v =
     (case v of
        PStr r \<Rightarrow>
          if k \<noteq> ''node'' then Inr None
          else (case map_of shards r of
              None \<Rightarrow> Inr None
            | Some names \<Rightarrow>
                if length names \<le> idx then Inl (ValueError ''shard index mismatch for dependency'')
                else Inr (Some (PStr (names ! idx))))
      | _ \<Rightarrow> Inr None)"

fun rewrite_shard_refs :: "(string, string list) dict \<Rightarrow> nat \<Rightarrow> pyval \<Rightarrow> pyval result" where
  "rewrite_shard_refs shards idx (PDict d) =
     ebind (emap (\<lambda>(k, v). ebind (shard_ref shards idx k v) (\<lambda>r.
        case r of Some v' \<Rightarrow> Inr (k, v')
        | None \<Rightarrow> ebind (rewrite_shard_refs shards idx v) (\<lambda>v'. Inr (k, v')))) d) (\<lambda>d'. Inr (PDict d'))"
| "rewrite_shard_refs shards idx (PList xs) =
     ebind (emap (rewrite_shard_refs shards idx) xs) (\<lambda>ys. Inr (PList ys))"
| "rewrite_shard_refs shards idx v = Inr v"

definition is_unindexed_items_path :: "string \<Rightarrow> bool" where
  "is_unindexed_items_path path \<longleftrightarrow> starts_with ''items'' (str_strip path) \<and> \<not> starts_with ''items['' (str_strip path)"

definition unindexed_items_suffix :: "string \<Rightarrow> string result" where
  "unindexed_items_suffix path =
     (if starts_with ''items'' (str_strip path) then Inr (drop 5 (str_strip path))
      else Inl (ValueError ''Invalid shard boundary rewrite path''))"

text \<open>
  A reference to a whole column of a node that is not sharded becomes the list of the items of
  this shard. \<open>None\<close> leaves the dict as it is.
\<close>

definition inline_items :: "nat \<Rightarrow> nat \<Rightarrow> string \<Rightarrow> nat option \<Rightarrow> string \<Rightarrow> pyval" where
  "inline_items start stop dep dep_total suffix =
     PDict [(''type'', PStr ''list''),
            (''items'', PList (map (\<lambda>i. PDict [(''node'', PStr dep),
               (''path'', PStr (''items['' @ show_nat (if dep_total = Some 1 then 0 else i) @ '']'' @ suffix))]) [start..<stop]))]"

definition inline_reference ::
  "node_map \<Rightarrow> (string, string list) dict \<Rightarrow> nat \<Rightarrow> nat \<Rightarrow> nat \<Rightarrow> (string, pyval) dict \<Rightarrow> pyval option result" where
  "inline_reference nm shards start stop tot d =
     (case map_of d ''node'' of
        Some (PStr dep) \<Rightarrow>
          if dep \<in> set (dict_keys shards) \<or> dep \<notin> set (dict_keys nm) then Inr None
          else (case dict_get d ''path'' PNone of
              PNone \<Rightarrow> ebind (node_static_total nm dep) (\<lambda>t.
                if t \<noteq> Some 1 then Inl (ValueError ''missing path for shard boundary rewrite'') else Inr None)
            | PStr path \<Rightarrow>
                if \<not> is_unindexed_items_path path then Inr None
                else ebind (node_static_total nm dep) (\<lambda>t.
                  if t \<noteq> None \<and> t \<noteq> Some 1 \<and> t \<noteq> Some tot
                  then Inl (ValueError ''static cardinality does not match shard source cardinality'')
                  else ebind (unindexed_items_suffix path) (\<lambda>suffix. Inr (Some (inline_items start stop dep t suffix))))
            | _ \<Rightarrow> Inr None)
      | _ \<Rightarrow> Inr None)"

text \<open>
  The walk goes on into the dict that the rewriting leaves; the new list holds indexed paths only,
  which the walk keeps, so that it is not entered here.
\<close>

fun inline_slices :: "node_map \<Rightarrow> (string, string list) dict \<Rightarrow> nat \<Rightarrow> nat \<Rightarrow> nat \<Rightarrow> pyval \<Rightarrow> pyval result" where
  "inline_slices nm shards start stop tot (PDict d) =
     ebind (inline_reference nm shards start stop tot d) (\<lambda>r.
       case r of
         None \<Rightarrow> ebind (emap (\<lambda>(k, v). ebind (inline_slices nm shards start stop tot v) (\<lambda>v'. Inr (k, v'))) d)
                   (\<lambda>d'. Inr (PDict d'))
       | Some items \<Rightarrow>
           ebind (emap (\<lambda>(k, v). if k \<in> {''node'', ''path'', ''data''} then Inr (k, v)
                    else ebind (inline_slices nm shards start stop tot v) (\<lambda>v'. Inr (k, v'))) d)
             (\<lambda>d'. Inr (PDict (AList.update ''data'' items (filter (\<lambda>(k, v). k \<noteq> ''node'' \<and> k \<noteq> ''path'') d')))))"
| "inline_slices nm shards start stop tot (PList xs) =
     ebind (emap (inline_slices nm shards start stop tot) xs) (\<lambda>ys. Inr (PList ys))"
| "inline_slices nm shards start stop tot v = Inr v"

definition rewrite_shard_dependencies :: "(string, string list) dict \<Rightarrow> nat \<Rightarrow> pyval \<Rightarrow> string list result" where
  "rewrite_shard_dependencies shards idx deps =
     (case deps of
        PNone \<Rightarrow> Inr []
      | PList _ \<Rightarrow>
          ebind (emap (\<lambda>d. case map_of shards d of
              None \<Rightarrow> Inr d
            | Some names \<Rightarrow> if length names \<le> idx then Inl (ValueError ''shard index out of range'') else Inr (names ! idx))
            (str_items (Some deps))) (\<lambda>ds. Inr (dedupe_into [] ds))
      | _ \<Rightarrow> Inl (ValueError ''Invalid shard boundary: dependsOn must be a list''))"

definition rewrite_shard ::
  "node_map \<Rightarrow> (string, string list) dict \<Rightarrow> (nat \<times> nat) list \<Rightarrow> spec \<Rightarrow> nat \<Rightarrow> string \<Rightarrow> spec result" where
  "rewrite_shard nm shards parts node idx name =
     (case node_spec node of
        None \<Rightarrow> Inl (ValueError ''invalid spec type for rewrite'')
      | Some spec \<Rightarrow>
          (case spec_data spec of
             None \<Rightarrow> Inl (ValueError ''spec.data is missing or invalid'')
           | Some data \<Rightarrow>
               let (start, stop) = parts ! idx; tot = snd (last parts) in
               ebind (slice_static_lists start stop tot (PDict data)) (\<lambda>data'.
               ebind (rewrite_shard_refs shards idx (PDict (AList.update ''data'' data' spec))) (\<lambda>spec1.
               ebind (inline_slices nm shards start stop tot spec1) (\<lambda>spec2.
               ebind (rewrite_shard_dependencies shards idx (dict_get node ''dependsOn'' PNone)) (\<lambda>deps.
                 Inr (AList.update ''dependsOn'' (pstrs deps) (AList.update ''spec'' spec2 (AList.update ''name'' (PStr name) node)))))))))"

definition build_merge_node :: "string \<Rightarrow> spec \<Rightarrow> string list \<Rightarrow> (nat \<times> nat) list \<Rightarrow> spec result" where
  "build_merge_node n node names parts =
     (if length names \<noteq> length parts then Inl (ValueError ''Internal shard merge mismatch'')
      else if node_spec node = None then Inl (ValueError ''Unsupported shard boundary: node spec is not a mapping'')
      else Inr [(''name'', PStr n), (''dependsOn'', pstrs names),
        (''spec'', PDict [(''taskType'', PStr ''echo''),
           (''data'', PDict [(''type'', PStr ''list''),
              (''items'', PList (map (\<lambda>(name, _). PDict [(''node'', PStr name), (''path'', PStr ''items.output'')])
                 (filter (\<lambda>(_, (i, j)). i < j) (zip names parts))))])])])"

definition merge_required_nodes :: "node_map \<Rightarrow> (string, string list) dict \<Rightarrow> string list \<Rightarrow> string list" where
  "merge_required_nodes nm shards outputs =
     (let sharded = dict_keys shards in
      foldl (\<lambda>req n. if n \<in> set sharded then req
               else foldl (\<lambda>req d. if d \<in> set sharded then set_add d req else req) req (node_deps_of nm n))
        (filter (\<lambda>n. n \<in> set sharded) (dedupe_into [] outputs)) (dict_keys nm))"

text \<open>The rewritten nodes and the raw node behind each of them.\<close>

definition rewrite_node ::
  "node_map \<Rightarrow> shard_state \<Rightarrow> string list \<Rightarrow> string \<Rightarrow> (spec list \<times> (string \<times> string) list) result" where
  "rewrite_node nm s merge n =
     ebind (dict_index nm n) (\<lambda>node.
       case map_of (ss_shards s) n of
         None \<Rightarrow> Inr ([node], [(n, n)])
       | Some names \<Rightarrow>
           let parts = dict_get (ss_partitions s) n [] in
           if length parts \<noteq> length names then Inl (ValueError ''Internal shard rewrite mismatch'')
           else ebind (emap (\<lambda>(idx, name). rewrite_shard nm (ss_shards s) parts node idx name) (zip [0..<length names] names)) (\<lambda>shard_nodes.
             let raw = map (\<lambda>name. (name, n)) names in
             if n \<in> set merge
             then ebind (build_merge_node n node names parts) (\<lambda>m. Inr (shard_nodes @ [m], raw @ [(n, n)]))
             else Inr (shard_nodes, raw)))"

section \<open>Rewriting the assignment\<close>

definition pin_unsharded ::
  "string list \<Rightarrow> (string, string list) dict \<Rightarrow> (string, string list) dict \<Rightarrow> (string, string list) dict \<Rightarrow> (string, string list) dict" where
  "pin_unsharded explicit shards baseline cands =
     map (\<lambda>(n, workers).
       if n \<in> set explicit \<or> n \<in> set (dict_keys shards) then (n, workers)
       else (case dict_get baseline n [] of w # _ \<Rightarrow> (n, [w])
             | [] \<Rightarrow> (n, case workers of w # _ \<Rightarrow> [w] | [] \<Rightarrow> workers))) cands"

fun prune_nodes :: "(string, string list) dict \<Rightarrow> string \<Rightarrow> string list \<Rightarrow> string list \<Rightarrow> string list" where
  "prune_nodes cands w seen [] = []"
| "prune_nodes cands w seen (n # ns) =
     (if (case map_of cands n of None \<Rightarrow> False | Some ws \<Rightarrow> w \<notin> set ws) then prune_nodes cands w seen ns
      else if n \<in> set seen then prune_nodes cands w seen ns
      else n # prune_nodes cands w (n # seen) ns)"

definition prune_assignment :: "assignment \<Rightarrow> (string, string list) dict \<Rightarrow> assignment" where
  "prune_assignment assigned cands = map (\<lambda>(w, ns). (w, prune_nodes cands w [] ns)) assigned"

text \<open>The index of the shard that a worker has of a node.\<close>

definition shard_indexes :: "(string, string list) dict \<Rightarrow> (string, string list) dict \<Rightarrow> (string, (string, nat) dict) dict result" where
  "shard_indexes shards cands =
     emap (\<lambda>(n, workers).
       if workers = [] then Inl (ValueError ''missing worker candidates for node'')
       else if length workers \<noteq> length (dict_get shards n []) then Inl (ValueError ''shard worker count mismatch'')
       else Inr (n, dict_of (zip workers [0..<length workers])))
     (filter (\<lambda>(n, _). n \<in> set (dict_keys shards)) cands)"

definition merge_hosts ::
  "assignment \<Rightarrow> (string, string list) dict \<Rightarrow> (string, string list) dict \<Rightarrow> (string, (string, nat) dict) dict \<Rightarrow>
   string list \<Rightarrow> (string, string) dict result" where
  "merge_hosts assigned shards cands indexes merge =
     emap (\<lambda>n. case filter (\<lambda>w. w \<notin> set (dict_keys (dict_get indexes n []))) (dict_keys assigned) of
         w # _ \<Rightarrow> Inr (n, w)
       | [] \<Rightarrow> (if n \<in> set (dict_keys indexes)
                then ebind (dict_index cands n) (\<lambda>ws. Inr (n, hd ws))
                else Inl (ValueError ''missing primary worker for merge node'')))
     (filter (\<lambda>n. n \<in> set (dict_keys shards)) merge)"

fun assign_shards ::
  "(string, string list) dict \<Rightarrow> (string, (string, nat) dict) dict \<Rightarrow> (string, string) dict \<Rightarrow> string list \<Rightarrow>
   string \<Rightarrow> string list \<Rightarrow> string list \<Rightarrow> string list" where
  "assign_shards shards indexes hosts merge w seen [] = []"
| "assign_shards shards indexes hosts merge w seen (n # ns) =
     (let hosted = (n \<in> set merge \<and> map_of hosts n = Some w);
          mapped = (case map_of shards n of
              None \<Rightarrow> Some n
            | Some names \<Rightarrow>
                (case map_of (dict_get indexes n []) w of
                   None \<Rightarrow> if hosted then Some n else None
                 | Some idx \<Rightarrow> Some (names ! idx)))
      in case mapped of
           None \<Rightarrow> assign_shards shards indexes hosts merge w seen ns
         | Some m \<Rightarrow>
             if m \<in> set seen then assign_shards shards indexes hosts merge w seen ns
             else if hosted \<and> n \<notin> set (m # seen)
             then m # n # assign_shards shards indexes hosts merge w (n # m # seen) ns
             else m # assign_shards shards indexes hosts merge w (m # seen) ns)"

definition add_merge_host :: "string \<times> string \<Rightarrow> assignment \<Rightarrow> assignment" where
  "add_merge_host x assigned =
     (case x of (n, w) \<Rightarrow> let out = dict_get assigned w [] in
        AList.update w (if n \<in> set out then out else out @ [n]) assigned)"

definition rewrite_assignment ::
  "assignment \<Rightarrow> (string, string list) dict \<Rightarrow> (string, string list) dict \<Rightarrow> string list \<Rightarrow> assignment result" where
  "rewrite_assignment assigned shards cands merge =
     ebind (shard_indexes shards cands) (\<lambda>indexes.
     ebind (merge_hosts assigned shards cands indexes merge) (\<lambda>hosts.
       Inr (foldl (\<lambda>a x. add_merge_host x a)
         (map (\<lambda>(w, ns). (w, assign_shards shards indexes hosts merge w [] ns)) assigned) hosts)))"

section \<open>The whole rewriting\<close>

record shard_result =
  sr_nodes :: "spec list"
  sr_assignment :: assignment
  sr_to_raw :: "(string, string) dict"

definition explicit_intent :: "(string, string list) dict \<Rightarrow> (string, string list) dict" where
  "explicit_intent cands = filter (\<lambda>(n, workers). 1 < length workers) cands"

definition rewritten_names :: "spec list \<Rightarrow> string list" where
  "rewritten_names nodes = map (\<lambda>node. case map_of node ''name'' of Some (PStr s) \<Rightarrow> s | _ \<Rightarrow> ''None'') nodes"

definition rewrite_with_shards :: "node_map \<Rightarrow> (string, string list) dict \<Rightarrow> assignment \<Rightarrow> string list \<Rightarrow> shard_result result" where
  "rewrite_with_shards nm cands assigned outputs =
     (let explicit = explicit_intent cands in
      ebind (shard_rewrite_order nm) (\<lambda>order.
      ebind (efold (shard_one nm explicit) order \<lparr>ss_shards = [], ss_partitions = [], ss_candidates = cands\<rparr>) (\<lambda>s.
        let effective = pin_unsharded (dict_keys explicit) (ss_shards s) cands (ss_candidates s);
            pruned = prune_assignment assigned effective;
            merge = merge_required_nodes nm (ss_shards s) outputs
        in ebind (emap (rewrite_node nm s merge) (dict_keys nm)) (\<lambda>parts.
           ebind (rewrite_assignment pruned (ss_shards s) effective merge) (\<lambda>rewritten.
             let nodes = concat (map fst parts) in
             if \<not> set (rewritten_names nodes) \<subseteq> set (concat (dict_values rewritten))
             then Inl (ValueError ''Rewritten schedule does not cover all flowmesh nodes'')
             else Inr \<lparr>sr_nodes = nodes, sr_assignment = rewritten, sr_to_raw = dict_of (concat (map snd parts))\<rparr>)))))"

definition rewrite_nodes_for_shard_intent :: "spec list \<Rightarrow> assignment \<Rightarrow> string list \<Rightarrow> shard_result result" where
  "rewrite_nodes_for_shard_intent nodes assigned outputs =
     ebind (index_nodes nodes) (\<lambda>nm.
     ebind (collect_node_worker_candidates assigned (dict_keys nm)) (\<lambda>cands.
       if explicit_intent cands = []
       then Inr \<lparr>sr_nodes = map snd nm, sr_assignment = assigned, sr_to_raw = map (\<lambda>n. (n, n)) (dict_keys nm)\<rparr>
       else rewrite_with_shards nm cands assigned outputs))"

section \<open>The order is a topological order\<close>

interpretation keyed_ready: ready_queue "insort_key key" for key :: "'a \<Rightarrow> 'k::linorder"
  by unfold_locales simp

lemma heap_loop_total:
  assumes "set E \<subseteq> N \<times> N" and "finite N" and "kahn_inv N E D P indeg" and "card N \<le> fuel + length D"
  shows "\<exists>order indeg'. heap_loop fuel key (succs E) P indeg D = Inr order \<and> kahn_inv N E order [] indeg'"
  using assms(3,4)
proof (induction fuel key "succs E" P indeg D rule: heap_loop.induct)
  case (1 fuel key indeg order)
  then show ?case by auto
next
  case (2 key x heap indeg order)
  with kahn_inv_length [OF "2.prems"(1) assms(2)] show ?case by simp
next
  case (3 fuel key x heap indeg order)
  obtain indeg' heap' where rel: "relax (insort_key key) (succs E x) (indeg, heap) = (indeg', heap')"
    by fastforce
  have "kahn_inv N E (order @ [x]) heap' indeg'"
    using keyed_ready.kahn_step [OF assms(1) _ rel, of order "[]"] "3.prems"(1) by simp
  with "3.hyps" [OF rel [symmetric]] "3.prems"(2) rel show ?case by simp
qed

lemma mset_heapify: "mset (foldl (\<lambda>h n. insort_key key n h) h ns) = mset h + mset ns"
  by (induction ns arbitrary: h) auto

lemma dep_edges_subset: "set (dep_edges names deps) \<subseteq> set names \<times> set names"
  by (auto simp: dep_edges_def)

lemma heap_order_ok:
  assumes "distinct names"
  shows "case heap_order errs key names deps of
      Inr order \<Rightarrow> distinct order \<and> set order = set names \<and> in_dep_order (dep_edges names deps) order
    | Inl e \<Rightarrow> \<not> acyclic (set (dep_edges names deps)) \<and> e \<in> {ValueError (fst errs), ValueError (snd errs)}"
proof (cases "list_ex (\<lambda>n. n \<in> set (deps n)) names")
  case True
  then obtain n where "n \<in> set names" "n \<in> set (deps n)" by (auto simp: list_ex_iff)
  then have "(n, n) \<in> set (dep_edges names deps)" by (auto simp: dep_edges_def)
  then have "\<not> acyclic (set (dep_edges names deps))" by (meson acyclic_def r_into_trancl)
  with True show ?thesis by (simp add: heap_order_def)
next
  case False
  let ?E = "dep_edges names deps"
  let ?indeg = "\<lambda>n. int (length (filter (\<lambda>e. snd e = n) ?E))"
  let ?heap = "foldl (\<lambda>h n. insort_key key n h) [] (filter (\<lambda>n. ?indeg n = 0) names)"
  have "kahn_inv (set names) ?E [] ?heap ?indeg"
    by (rule kahn_init [OF assms dep_edges_subset]) (simp_all add: mset_heapify)
  then obtain order indeg' where loop: "heap_loop (length names) key (succs ?E) ?heap ?indeg [] = Inr order"
    and inv: "kahn_inv (set names) ?E order [] indeg'"
    using heap_loop_total [OF dep_edges_subset finite_set, where fuel = "length names" and key = key] distinct_card [OF assms]
    by (metis add.right_neutral le_refl list.size(3))
  have run: "heap_order errs key names deps = (if length order \<noteq> length names then Inl (ValueError (snd errs)) else Inr order)"
    using False loop by (simp add: heap_order_def kahn_tables_eq)
  show ?thesis
  proof (cases "length order = length names")
    case True
    with kahn_finish_respects [OF inv] distinct_card [OF assms] show ?thesis by (simp add: run)
  next
    case short: False
    with kahn_inv_length [OF inv] distinct_card [OF assms] have "length order < card (set names)" by simp
    with kahn_finish_cycle [OF inv _ dep_edges_subset] short show ?thesis by (simp add: run)
  qed
qed

lemma heap_order_Inr:
  assumes "distinct names" and "heap_order errs key names deps = Inr order"
  shows "distinct order" and "set order = set names" and "in_dep_order (dep_edges names deps) order"
  using heap_order_ok [OF assms(1), where errs = errs and key = key and deps = deps] assms(2) by simp_all

lemma heap_order_acyclic:
  assumes "distinct names" and "acyclic (set (dep_edges names deps))"
  shows "\<exists>order. heap_order errs key names deps = Inr order"
  using heap_order_ok [OF assms(1), where errs = errs and key = key and deps = deps] assms(2) by (auto split: sum.splits)

section \<open>Partitions and slices\<close>

text \<open>Pieces that follow each other from one index to another.\<close>

fun tiles :: "nat \<Rightarrow> nat \<Rightarrow> (nat \<times> nat) list \<Rightarrow> bool" where
  "tiles i k [] \<longleftrightarrow> i = k"
| "tiles i k ((a, b) # ps) \<longleftrightarrow> a = i \<and> a \<le> b \<and> tiles b k ps"

lemma tiles_le: "tiles i k ps \<Longrightarrow> i \<le> k"
  by (induction i k ps rule: tiles.induct) auto

lemma tiles_concat:
  "tiles i k ps \<Longrightarrow> k \<le> length xs \<Longrightarrow> concat (map (\<lambda>(a, b). take (b - a) (drop a xs)) ps) = take (k - i) (drop i xs)"
proof (induction i k ps rule: tiles.induct)
  case (2 i k a b ps)
  then have "b \<le> k" using tiles_le by auto
  with 2 show ?case
    using take_add [of "b - i" "k - b" "drop i xs"] by auto
qed auto

lemma partition_loop_tiles:
  "tiles start (start + sum_list (map (\<lambda>i. base + (if i < r then 1 else 0)) idxs)) (partition_loop base r start idxs)"
  by (induction base r start idxs rule: partition_loop.induct) (auto simp: Let_def add.assoc)

lemma partition_loop_length [simp]: "length (partition_loop base r start idxs) = length idxs"
  by (induction base r start idxs rule: partition_loop.induct) (auto simp: Let_def)

lemma partition_loop_sizes:
  "p \<in> set (partition_loop base r start idxs) \<Longrightarrow> snd p - fst p \<in> {base, Suc base} \<and> fst p \<le> snd p"
  by (induction base r start idxs rule: partition_loop.induct) (auto simp: Let_def)

lemma sum_remainder: "r \<le> c \<Longrightarrow> sum_list (map (\<lambda>i. base + (if i < r then 1 else 0)) [0..<c]) = base * c + (r :: nat)"
proof (induction c arbitrary: r)
  case (Suc c)
  show ?case
  proof (cases "r = Suc c")
    case True
    have "sum_list (map (\<lambda>i. base + (if i < r then 1 else 0)) [0..<Suc c]) = sum_list (map (\<lambda>i. Suc base) [0..<Suc c])"
      by (rule arg_cong [where f = sum_list], rule map_cong) (auto simp: True)
    then show ?thesis by (simp add: True sum_list_triv)
  next
    case False
    with Suc.prems have "r \<le> c" by simp
    from Suc.IH [OF this] this show ?thesis by simp
  qed
qed simp

lemma build_index_partitions_facts:
  shows "length (build_index_partitions t c) = max 1 c"
    and "tiles 0 (max 1 t) (build_index_partitions t c)"
    and "p \<in> set (build_index_partitions t c) \<Longrightarrow> snd p - fst p \<in> {max 1 t div max 1 c, Suc (max 1 t div max 1 c)}"
proof -
  show "length (build_index_partitions t c) = max 1 c" by (simp add: build_index_partitions_def Let_def)
  show "p \<in> set (build_index_partitions t c) \<Longrightarrow> snd p - fst p \<in> {max 1 t div max 1 c, Suc (max 1 t div max 1 c)}"
    using partition_loop_sizes by (auto simp: build_index_partitions_def Let_def)
  have "max 1 t mod max 1 c \<le> max 1 c" by (simp add: less_imp_le)
  from sum_remainder [OF this, of "max 1 t div max 1 c"]
  have "sum_list (map (\<lambda>i. max 1 t div max 1 c + (if i < max 1 t mod max 1 c then 1 else 0)) [0..<max 1 c]) = max 1 t"
    by (simp only: div_mult_mod_eq)
  then show "tiles 0 (max 1 t) (build_index_partitions t c)"
    using partition_loop_tiles [of 0 "max 1 t div max 1 c" "max 1 t mod max 1 c" "[0..<max 1 c]"]
    by (simp add: build_index_partitions_def Let_def)
qed

lemma tiles_last: "tiles i k ps \<Longrightarrow> ps \<noteq> [] \<Longrightarrow> snd (last ps) = k"
  by (induction i k ps rule: tiles.induct) auto

text \<open>
  The static list at a place of a specification: a path of dict keys and list positions that does not
  lead into the items of a typed dict.
\<close>

type_synonym place = "(string + nat) list"

fun static_at :: "place \<Rightarrow> pyval \<Rightarrow> pyval list option" where
  "static_at [] (PDict d) =
     (case (map_of d ''type'', map_of d ''items'') of
        (Some (PStr t), Some (PList xs)) \<Rightarrow> if t = ''list'' then Some xs else None | _ \<Rightarrow> None)"
| "static_at (Inl k # path) (PDict d) =
     (if k = ''items'' \<and> is_str (map_of d ''type'') then None
      else case map_of d k of None \<Rightarrow> None | Some v \<Rightarrow> static_at path v)"
| "static_at (Inr i # path) (PList xs) = (if i < length xs then static_at path (xs ! i) else None)"
| "static_at path v = None"

lemma emap_dict:
  assumes "emap (\<lambda>(k, v). ebind (f k v) (\<lambda>v'. Inr (k, v'))) d = Inr d'"
  shows "dict_keys d' = dict_keys d" and "map_of d k = Some v \<Longrightarrow> \<exists>v'. f k v = Inr v' \<and> map_of d' k = Some v'"
    and "map_of d k = None \<Longrightarrow> map_of d' k = None"
  using assms
proof (induction d arbitrary: d')
  case (Cons x d)
  { case 1
    then show ?case using Cons.IH(1) by (cases x) (auto simp: ebind_Inr_iff)
  next
    case 2
    then show ?case using Cons.IH(2) by (cases x) (auto simp: ebind_Inr_iff split: if_splits)
  next
    case 3
    then show ?case using Cons.IH(3) by (cases x) (auto simp: ebind_Inr_iff split: if_splits)
  }
qed auto

definition cut_list :: "nat \<Rightarrow> nat \<Rightarrow> nat \<Rightarrow> 'a list \<Rightarrow> 'a list" where
  "cut_list start stop tot xs = (if length xs = tot then take (stop - start) (drop start xs) else xs)"

lemma slice_static_at:
  assumes "slice_static_lists start stop tot v = Inr v'" and "static_at path v = Some xs"
  shows "static_at path v' = Some (cut_list start stop tot xs) \<and> (length xs = tot \<or> length xs = 1)"
  using assms
proof (induction path v arbitrary: v' rule: static_at.induct)
  case (1 d)
  let ?f = "\<lambda>(cut :: pyval list option) k v. if k = ''items'' \<and> is_str (map_of d ''type'')
     then Inr (case cut of None \<Rightarrow> v | Some xs \<Rightarrow> PList xs) else slice_static_lists start stop tot v"
  have alt: "(\<lambda>(k, v). if k = ''items'' \<and> is_str (map_of d ''type'')
         then Inr (k, case cut of None \<Rightarrow> v | Some xs \<Rightarrow> PList xs)
         else ebind (slice_static_lists start stop tot v) (\<lambda>v'. Inr (k, v'))) =
      (\<lambda>(k, v). ebind (?f cut k v) (\<lambda>v'. Inr (k, v')))" for cut
    by (auto simp: fun_eq_iff)
  from "1.prems"(2) have d: "map_of d ''type'' = Some (PStr ''list'')" "map_of d ''items'' = Some (PList xs)"
    by (auto split: option.splits pyval.splits if_splits)
  from "1.prems"(1) obtain cut d' where cut: "slice_items start stop tot d = Inr cut" and v': "v' = PDict d'"
    and rows: "emap (\<lambda>(k, v). ebind (?f cut k v) (\<lambda>v'. Inr (k, v'))) d = Inr d'"
    by (auto simp: ebind_Inr_iff alt)
  from emap_dict(2) [OF rows d(1)] have t: "map_of d' ''type'' = Some (PStr ''list'')" by auto
  from emap_dict(2) [OF rows d(2)] have i: "map_of d' ''items'' = Some (case cut of None \<Rightarrow> PList xs | Some xs \<Rightarrow> PList xs)"
    by (auto simp: is_str_def d)
  show ?case using cut d by (auto simp: v' t i slice_items_def cut_list_def split: if_splits)
next
  case (2 k path d)
  let ?f = "\<lambda>(cut :: pyval list option) k v. if k = ''items'' \<and> is_str (map_of d ''type'')
     then Inr (case cut of None \<Rightarrow> v | Some xs \<Rightarrow> PList xs) else slice_static_lists start stop tot v"
  have alt: "(\<lambda>(k, v). if k = ''items'' \<and> is_str (map_of d ''type'')
         then Inr (k, case cut of None \<Rightarrow> v | Some xs \<Rightarrow> PList xs)
         else ebind (slice_static_lists start stop tot v) (\<lambda>v'. Inr (k, v'))) =
      (\<lambda>(k, v). ebind (?f cut k v) (\<lambda>v'. Inr (k, v')))" for cut
    by (auto simp: fun_eq_iff)
  from "2.prems"(2) obtain v where k: "\<not> (k = ''items'' \<and> is_str (map_of d ''type''))" and v: "map_of d k = Some v"
    and at: "static_at path v = Some xs" by (auto split: if_splits option.splits)
  from "2.prems"(1) obtain cut d' where v': "v' = PDict d'"
    and rows: "emap (\<lambda>(k, v). ebind (?f cut k v) (\<lambda>v'. Inr (k, v'))) d = Inr d'"
    by (auto simp: ebind_Inr_iff alt)
  from emap_dict(2) [OF rows v] k obtain w where w: "slice_static_lists start stop tot v = Inr w" "map_of d' k = Some w"
    by auto
  have same: "is_str (map_of d' ''type'') = is_str (map_of d ''type'')"
  proof (cases "map_of d ''type''")
    case None
    then show ?thesis using emap_dict(3) [OF rows] by simp
  next
    case (Some t)
    then show ?thesis using emap_dict(2) [OF rows Some] by (cases t) (auto simp: is_str_def ebind_Inr_iff)
  qed
  from "2.IH" [OF k v w(1) at] show ?case using k by (simp add: v' same w(2))
next
  case (3 i path vs)
  from "3.prems"(2) have i: "i < length vs" and at: "static_at path (vs ! i) = Some xs" by (auto split: if_splits)
  from "3.prems"(1) obtain ws where v': "v' = PList ws" and rows: "list_all2 (\<lambda>x y. slice_static_lists start stop tot x = Inr y) vs ws"
    by (auto simp: ebind_Inr_iff emap_list_all2)
  from rows i have "slice_static_lists start stop tot (vs ! i) = Inr (ws ! i)" "length ws = length vs"
    by (auto simp: list_all2_conv_all_nth)
  with "3.IH" [OF i _ at] i show ?case by (simp add: v')
qed auto

text \<open>Every static list is cut along the partitions, or shared because it has one item.\<close>

lemma slices_cover:
  assumes "emap (\<lambda>(start, stop). slice_static_lists start stop tot v) (build_index_partitions tot k) = Inr vs"
    and "static_at path v = Some xs" and "1 \<le> tot"
  shows "list_all2 (\<lambda>(i, j) w. static_at path w = Some (cut_list i j tot xs)) (build_index_partitions tot k) vs"
    and "length xs = tot \<Longrightarrow> concat (map (\<lambda>w. the (static_at path w)) vs) = xs"
    and "length xs = tot \<or> length xs = 1"
proof -
  have all: "list_all2 (\<lambda>(i, j) w. static_at path w = Some (cut_list i j tot xs) \<and> (length xs = tot \<or> length xs = 1)) (build_index_partitions tot k) vs"
    using assms(1) unfolding emap_list_all2 by (rule list_all2_mono) (use slice_static_at [OF _ assms(2)] in auto)
  then show cover: "list_all2 (\<lambda>(i, j) w. static_at path w = Some (cut_list i j tot xs)) (build_index_partitions tot k) vs"
    by (rule list_all2_mono) auto
  show "length xs = tot \<or> length xs = 1"
  proof -
    have "build_index_partitions tot k \<noteq> []" using build_index_partitions_facts(1) [of tot k] by auto
    with all show ?thesis by (cases "build_index_partitions tot k"; cases vs) auto
  qed
  show "concat (map (\<lambda>w. the (static_at path w)) vs) = xs" if "length xs = tot"
  proof -
    have "map (\<lambda>w. the (static_at path w)) vs = map (\<lambda>(i, j). cut_list i j tot xs) (build_index_partitions tot k)"
      using cover by (induction rule: list_all2_induct) auto
    also have "concat \<dots> = take (max 1 tot - 0) (drop 0 xs)"
      using tiles_concat [OF build_index_partitions_facts(2), of tot xs k] that assms(3)
      by (simp add: cut_list_def max_def)
    finally show ?thesis using that assms(3) by (simp add: max_def)
  qed
qed

section \<open>What the rewriting makes of a node\<close>

lemma shard_name_inject: "shard_name n i = shard_name m j \<longleftrightarrow> n = m \<and> i = j"
proof
  assume eq: "shard_name n i = shard_name m j"
  have tail: "takeWhile (\<lambda>c. c \<noteq> CHR ''_'') (rev (shard_name k l)) = rev (show_nat l)" for k l
    using takeWhile_stop [of "rev (show_nat l)" "\<lambda>c. c \<noteq> CHR ''_''" "CHR ''_''" "''drahs__'' @ rev k"] show_nat_no_underscore [of l]
    by (auto simp: shard_name_def)
  have "rev (show_nat i) = rev (show_nat j)" using eq tail by metis
  then have "i = j" by (simp add: show_nat_inject)
  with eq show "n = m \<and> i = j" by (simp add: shard_name_def)
qed simp

definition out_names :: "shard_state \<Rightarrow> string list \<Rightarrow> string \<Rightarrow> string list" where
  "out_names s merge n =
     (case map_of (ss_shards s) n of None \<Rightarrow> [n] | Some names \<Rightarrow> names @ (if n \<in> set merge then [n] else []))"

lemma rewritten_names_append [simp]: "rewritten_names (xs @ ys) = rewritten_names xs @ rewritten_names ys"
  by (simp add: rewritten_names_def)

lemma str_items_pstrs [simp]: "str_items (Some (pstrs xs)) = xs"
  by (induction xs) (auto simp: str_items_def)

lemma rewrite_shard_run:
  assumes "rewrite_shard nm shards parts node idx name = Inr node'"
  obtains spec data start stop data' spec1 spec2 deps where
    "node_spec node = Some spec" "spec_data spec = Some data" "parts ! idx = (start, stop)"
    "slice_static_lists start stop (snd (last parts)) (PDict data) = Inr data'"
    "rewrite_shard_refs shards idx (PDict (AList.update ''data'' data' spec)) = Inr spec1"
    "inline_slices nm shards start stop (snd (last parts)) spec1 = Inr spec2"
    "rewrite_shard_dependencies shards idx (dict_get node ''dependsOn'' PNone) = Inr deps"
    "node' = AList.update ''dependsOn'' (pstrs deps) (AList.update ''spec'' spec2 (AList.update ''name'' (PStr name) node))"
proof -
  obtain start stop where p: "parts ! idx = (start, stop)" by fastforce
  from assms obtain spec where spec: "node_spec node = Some spec"
    by (cases "node_spec node") (simp_all add: rewrite_shard_def)
  from assms spec obtain data where data: "spec_data spec = Some data"
    by (cases "spec_data spec") (simp_all add: rewrite_shard_def)
  note run = assms [unfolded rewrite_shard_def spec data option.case p Let_def prod.case ebind_Inr_iff]
  from run show thesis using that [OF spec data p] by blast
qed

lemma rewrite_shard_fields:
  assumes "rewrite_shard nm shards parts node idx name = Inr node'"
  shows "map_of node' ''name'' = Some (PStr name)"
    and "rewrite_shard_dependencies shards idx (dict_get node ''dependsOn'' PNone) = Inr (node_deps node')"
proof -
  from assms show "map_of node' ''name'' = Some (PStr name)"
    by (rule rewrite_shard_run) (simp add: map_of_update)
  from assms show "rewrite_shard_dependencies shards idx (dict_get node ''dependsOn'' PNone) = Inr (node_deps node')"
    by (rule rewrite_shard_run) (simp add: map_of_update node_deps_def)
qed

definition shard_dep :: "(string, string list) dict \<Rightarrow> nat \<Rightarrow> string \<Rightarrow> string" where
  "shard_dep shards idx d = (case map_of shards d of None \<Rightarrow> d | Some names \<Rightarrow> names ! idx)"

lemma rewrite_deps_mem:
  assumes "rewrite_shard_dependencies shards idx deps = Inr ds"
  shows "set ds = shard_dep shards idx ` set (str_items (Some deps)) \<and>
    (\<forall>d \<in> set (str_items (Some deps)). \<forall>names. map_of shards d = Some names \<longrightarrow> idx < length names)"
proof (cases deps)
  case (PList xs)
  let ?f = "\<lambda>d. case map_of shards d of None \<Rightarrow> Inr d
       | Some names \<Rightarrow> if length names \<le> idx then Inl (ValueError ''shard index out of range'') else Inr (names ! idx)"
  have f: "?f d = Inr y \<longleftrightarrow> y = shard_dep shards idx d \<and> (\<forall>names. map_of shards d = Some names \<longrightarrow> idx < length names)" for d y
    by (cases "map_of shards d") (auto simp: shard_dep_def)
  from assms PList obtain ys where ys: "emap ?f (str_items (Some deps)) = Inr ys" and ds: "ds = dedupe_into [] ys"
    by (auto simp only: rewrite_shard_dependencies_def pyval.case ebind_Inr_iff Inr_inject)
  from ys have all: "list_all2 (\<lambda>d y. ?f d = Inr y) (str_items (Some deps)) ys" by (simp only: emap_list_all2)
  then have "ys = map (shard_dep shards idx) (str_items (Some deps))"
    by (induction rule: list_all2_induct) (simp_all add: f)
  moreover from all have "\<forall>d \<in> set (str_items (Some deps)). \<forall>names. map_of shards d = Some names \<longrightarrow> idx < length names"
    by (induction rule: list_all2_induct) (simp_all add: f)
  ultimately show ?thesis by (simp add: ds set_dedupe_into)
qed (use assms in \<open>auto simp: rewrite_shard_dependencies_def str_items_def\<close>)

lemma rewrite_shard_deps:
  assumes "rewrite_shard nm shards parts node idx name = Inr node'"
  shows "set (node_deps node') = shard_dep shards idx ` set (node_deps node)"
    and "d \<in> set (node_deps node) \<Longrightarrow> map_of shards d = Some names \<Longrightarrow> idx < length names"
proof -
  have deps: "str_items (Some (dict_get node ''dependsOn'' PNone)) = node_deps node"
    by (cases "map_of node ''dependsOn''") (simp_all add: node_deps_def dict_get_def str_items_def)
  note mem = rewrite_deps_mem [OF rewrite_shard_fields(2) [OF assms], unfolded deps]
  show "set (node_deps node') = shard_dep shards idx ` set (node_deps node)" using mem by blast
  show "d \<in> set (node_deps node) \<Longrightarrow> map_of shards d = Some names \<Longrightarrow> idx < length names" using mem by blast
qed

section \<open>The plan\<close>

text \<open>Every planned node has between one and all of its workers, no more than items, each with a shard.\<close>

definition planned :: "(string, string list) dict \<Rightarrow> shard_state \<Rightarrow> string \<Rightarrow> bool" where
  "planned cands s n \<longleftrightarrow>
     (\<exists>ws k t. map_of cands n = Some ws \<and> 1 \<le> k \<and> k \<le> length ws \<and> k \<le> t \<and>
        map_of (ss_shards s) n = Some (map (shard_name n) [0..<k]) \<and>
        map_of (ss_partitions s) n = Some (build_index_partitions t k) \<and>
        map_of (ss_candidates s) n = Some (take k ws))"

definition plan_ok :: "(string, string list) dict \<Rightarrow> string set \<Rightarrow> shard_state \<Rightarrow> bool" where
  "plan_ok cands D s \<longleftrightarrow>
     distinct (dict_keys (ss_shards s)) \<and> set (dict_keys (ss_shards s)) = D \<and> (\<forall>n \<in> D. planned cands s n) \<and>
     dict_keys (ss_candidates s) = dict_keys cands \<and> (\<forall>n. n \<notin> D \<longrightarrow> map_of (ss_candidates s) n = map_of cands n)"

lemma infer_positive: "infer_shard_input_size nm l c deps s = Inr t \<Longrightarrow> l \<noteq> Some 0 \<Longrightarrow> 1 \<le> t"
  by (auto simp: infer_shard_input_size_def ebind_Inr_iff Let_def split: option.splits if_splits)

lemma static_total_positive: "static_partition_total data = Inr l \<Longrightarrow> l \<noteq> Some 0"
  by (auto simp: static_partition_total_def Let_def split: if_splits)

lemma plan_shards_run:
  assumes "plan_shards nm n ws s = Inr s'"
  obtains data local_total k t where
    "Option.bind (Option.bind (map_of nm n) node_spec) spec_data = Some data"
    "static_partition_total data = Inr local_total" "local_total \<noteq> None \<longrightarrow> local_total = Some t"
    "1 \<le> k" "k \<le> length ws" "k \<le> t" "s' = add_shards n ws t k s"
proof -
  from assms obtain data where data: "Option.bind (Option.bind (map_of nm n) node_spec) spec_data = Some data"
    by (auto simp: plan_shards_def split: option.splits)
  let ?deps = "node_deps_of nm n"
  let ?counts = "map (\<lambda>d. length (dict_get (ss_shards s) d [])) (filter (\<lambda>d. d \<in> set (dict_keys (ss_shards s))) ?deps)"
  note run = assms [unfolded plan_shards_def data option.case Let_def ebind_Inr_iff]
  from run obtain l c where l: "static_partition_total data = Inr l" and c: "active_count (length ws) ?counts = Inr c"
    and rest: "(if c = 0 then Inl (ValueError ''non-partitionable boundary'')
       else ebind (infer_shard_input_size nm l c ?deps s) (\<lambda>t.
         if length (take (min c (max 1 t)) ws) \<noteq> min c (max 1 t) then Inl (ValueError ''non-partitionable boundary'')
         else Inr (add_shards n ws t (min c (max 1 t)) s))) = Inr s'"
    by blast
  from rest have c0: "c \<noteq> 0" by (auto split: if_splits)
  with rest obtain t where t: "infer_shard_input_size nm l c ?deps s = Inr t"
    and k: "length (take (min c (max 1 t)) ws) = min c (max 1 t)" and s': "s' = add_shards n ws t (min c (max 1 t)) s"
    by (auto simp: ebind_Inr_iff split: if_splits)
  have pos: "1 \<le> t" using infer_positive [OF t static_total_positive [OF l]] .
  have lt: "l \<noteq> None \<longrightarrow> l = Some t" using t by (cases l) (auto simp: infer_shard_input_size_def)
  show thesis
    by (rule that [OF data l lt _ _ _ s']) (use c0 pos k in \<open>auto simp: min_def max_def split: if_splits\<close>)
qed

lemma shard_one_plan:
  assumes "shard_one nm (explicit_intent cands) n s = Inr s'" and "plan_ok cands D s" and "n \<notin> D" and "distinct (dict_keys cands)"
  shows "plan_ok cands (if n \<in> set (dict_keys (explicit_intent cands)) then insert n D else D) s'"
proof (cases "map_of (explicit_intent cands) n")
  case None
  then have "n \<notin> set (dict_keys (explicit_intent cands))" by (simp add: map_of_eq_None_iff)
  with None assms show ?thesis by (auto simp: shard_one_def)
next
  case (Some ws)
  then have "(n, ws) \<in> set (explicit_intent cands)" by (rule map_of_SomeD)
  then have mem: "(n, ws) \<in> set cands" and key: "n \<in> set (dict_keys (explicit_intent cands))"
    by (force simp: explicit_intent_def)+
  from mem assms(4) have ws: "map_of cands n = Some ws" by simp
  from assms(1) Some have "plan_shards nm n ws s = Inr s'"
    by (auto simp: shard_one_def split: sum.splits py_error.splits)
  then obtain k t where k: "1 \<le> k" "k \<le> length ws" "k \<le> t" and s': "s' = add_shards n ws t k s"
    by (rule plan_shards_run)
  have new: "planned cands s' n" using ws k by (auto simp: planned_def s' add_shards_def map_of_update)
  have old: "planned cands s' m" if "m \<in> D" for m
  proof -
    from assms(2) that have "planned cands s m" by (simp only: plan_ok_def)
    moreover from assms(3) that have "m \<noteq> n" by blast
    ultimately show ?thesis by (simp add: planned_def s' add_shards_def map_of_update)
  qed
  from assms(2) have ok: "distinct (dict_keys (ss_shards s))" "set (dict_keys (ss_shards s)) = D"
    "dict_keys (ss_candidates s) = dict_keys cands" "\<And>m. m \<notin> D \<Longrightarrow> map_of (ss_candidates s) m = map_of cands m"
    unfolding plan_ok_def by blast+
  from mem have "n \<in> set (dict_keys cands)" by force
  then have keys: "n \<in> set (dict_keys (ss_candidates s))" by (simp only: ok(3))
  have "dict_keys (ss_candidates s') = dict_keys cands"
    using AList.update_keys [of n "take k ws" "ss_candidates s"] keys ok(3) by (simp add: s' add_shards_def)
  moreover have "distinct (dict_keys (ss_shards s')) \<and> set (dict_keys (ss_shards s')) = insert n D"
    using ok(1,2) assms(3) by (auto simp: s' add_shards_def dict_keys_update)
  moreover have "map_of (ss_candidates s') m = map_of cands m" if "m \<notin> insert n D" for m
    using ok(4) that by (simp add: s' add_shards_def map_of_update)
  ultimately show ?thesis using key new old by (simp add: plan_ok_def)
qed

lemma shard_all_plan:
  assumes "efold (shard_one nm (explicit_intent cands)) order s = Inr s'" and "plan_ok cands D s"
    and "distinct order" and "set order \<inter> D = {}" and "distinct (dict_keys cands)"
  shows "plan_ok cands (D \<union> (set order \<inter> set (dict_keys (explicit_intent cands)))) s'"
  using assms
proof (induction order arbitrary: s D)
  case (Cons n order)
  from Cons.prems(1) obtain u where u: "shard_one nm (explicit_intent cands) n s = Inr u"
    and rest: "efold (shard_one nm (explicit_intent cands)) order u = Inr s'" by (auto simp: ebind_Inr_iff)
  let ?D = "if n \<in> set (dict_keys (explicit_intent cands)) then insert n D else D"
  have "plan_ok cands ?D u" by (rule shard_one_plan [OF u Cons.prems(2)]) (use Cons.prems in auto)
  from Cons.IH [OF rest this] Cons.prems
  have "plan_ok cands (?D \<union> (set order \<inter> set (dict_keys (explicit_intent cands)))) s'" by auto
  moreover have "?D \<union> (set order \<inter> set (dict_keys (explicit_intent cands))) =
      D \<union> (set (n # order) \<inter> set (dict_keys (explicit_intent cands)))" by auto
  ultimately show ?case by simp
qed simp

lemma plan_init: "plan_ok cands {} \<lparr>ss_shards = [], ss_partitions = [], ss_candidates = cands\<rparr>"
  by (simp add: plan_ok_def)

section \<open>Where a rewritten node comes from\<close>

definition node_origin :: "node_map \<Rightarrow> shard_state \<Rightarrow> string list \<Rightarrow> string \<Rightarrow> string \<Rightarrow> string list \<Rightarrow> bool" where
  "node_origin nm s merge n m ds \<longleftrightarrow>
     (case map_of (ss_shards s) n of
        None \<Rightarrow> m = n \<and> ds = node_deps_of nm n
      | Some names \<Rightarrow>
          (\<exists>i < length names. m = names ! i \<and> set ds = shard_dep (ss_shards s) i ` set (node_deps_of nm n) \<and>
             (\<forall>d \<in> set (node_deps_of nm n). \<forall>ns. map_of (ss_shards s) d = Some ns \<longrightarrow> i < length ns)) \<or>
          n \<in> set merge \<and> m = n \<and> ds = names)"

lemma rewrite_shards_run:
  assumes "emap (\<lambda>(idx, name). rewrite_shard nm shards parts node idx name) (zip [0..<length names] names) = Inr ns"
  shows "rewritten_names ns = names"
    and "node' \<in> set ns \<Longrightarrow> \<exists>i < length names. rewrite_shard nm shards parts node i (names ! i) = Inr node'"
proof -
  from assms have all: "list_all2 (\<lambda>(idx, name) node'. rewrite_shard nm shards parts node idx name = Inr node') (zip [0..<length names] names) ns"
    unfolding emap_list_all2 by (rule list_all2_mono) auto
  then have "map snd (zip [0..<length names] names) = rewritten_names ns"
    by (induction rule: list_all2_induct) (auto simp: rewritten_names_def dest: rewrite_shard_fields(1))
  then show "rewritten_names ns = names" by simp
  show "node' \<in> set ns \<Longrightarrow> \<exists>i < length names. rewrite_shard nm shards parts node i (names ! i) = Inr node'"
    using emap_mem_rev [OF assms, of node'] by (force simp: in_set_zip)
qed

lemma rewrite_node_run:
  assumes "rewrite_node nm s merge n = Inr (ns, raw)"
    and "\<And>node. map_of nm n = Some node \<Longrightarrow> map_of node ''name'' = Some (PStr n)"
  shows "rewritten_names ns = out_names s merge n" and "raw = map (\<lambda>m. (m, n)) (out_names s merge n)"
    and "node' \<in> set ns \<Longrightarrow> \<exists>m \<in> set (out_names s merge n). map_of node' ''name'' = Some (PStr m) \<and> node_origin nm s merge n m (node_deps node')"
proof -
  from assms(1) obtain node where node: "map_of nm n = Some node" by (auto simp: rewrite_node_def ebind_Inr_iff dict_index_Inr_iff)
  note name = assms(2) [OF node]
  have deps: "node_deps_of nm n = node_deps node" by (simp add: node_deps_of_def node)
  note run = assms(1) [unfolded rewrite_node_def dict_index_def node option.case ebind.simps]
  have "rewritten_names ns = out_names s merge n \<and> raw = map (\<lambda>m. (m, n)) (out_names s merge n) \<and>
    (\<forall>node' \<in> set ns. \<exists>m \<in> set (out_names s merge n). map_of node' ''name'' = Some (PStr m) \<and> node_origin nm s merge n m (node_deps node'))"
  proof (cases "map_of (ss_shards s) n")
    case None
    with run have "ns = [node]" "raw = [(n, n)]" by simp_all
    with None name show ?thesis by (simp add: out_names_def rewritten_names_def node_origin_def deps)
  next
    case (Some names)
    let ?parts = "dict_get (ss_partitions s) n []"
    note run = run [unfolded Some option.case Let_def]
    from run have len: "length ?parts = length names" by (simp split: if_splits)
    from run len obtain shards where shards: "emap (\<lambda>(idx, name). rewrite_shard nm (ss_shards s) ?parts node idx name) (zip [0..<length names] names) = Inr shards"
      and rest: "(if n \<in> set merge then ebind (build_merge_node n node names ?parts) (\<lambda>m. Inr (shards @ [m], map (\<lambda>name. (name, n)) names @ [(n, n)]))
          else Inr (shards, map (\<lambda>name. (name, n)) names)) = Inr (ns, raw)"
      by (auto simp: ebind_Inr_iff)
    note facts = rewrite_shards_run [OF shards]
    have origin: "\<exists>m \<in> set names. map_of node' ''name'' = Some (PStr m) \<and> node_origin nm s merge n m (node_deps node')"
      if mem: "node' \<in> set shards" for node'
    proof -
      from facts(2) [OF mem] obtain i where i: "i < length names" and r: "rewrite_shard nm (ss_shards s) ?parts node i (names ! i) = Inr node'"
        by blast
      from rewrite_shard_fields(1) [OF r] rewrite_shard_deps [OF r] i Some show ?thesis
        by (intro bexI [of _ "names ! i"]) (auto simp: node_origin_def deps)
    qed
    show ?thesis
    proof (cases "n \<in> set merge")
      case False
      with rest facts(1) origin Some show ?thesis by (simp add: out_names_def)
    next
      case True
      with rest obtain m where m: "build_merge_node n node names ?parts = Inr m" and ns: "ns = shards @ [m]"
        and raw: "raw = map (\<lambda>name. (name, n)) names @ [(n, n)]" by (auto simp: ebind_Inr_iff)
      have mf: "map_of m ''name'' = Some (PStr n)" "node_deps m = names"
        using m by (auto simp: build_merge_node_def node_deps_def split: if_splits)
      have "node_origin nm s merge n n (node_deps m)" using True by (simp add: node_origin_def Some mf)
      with mf facts(1) origin True Some show ?thesis
        by (simp add: out_names_def ns raw rewritten_names_def)
    qed
  qed
  then show "rewritten_names ns = out_names s merge n" and "raw = map (\<lambda>m. (m, n)) (out_names s merge n)"
    and "node' \<in> set ns \<Longrightarrow> \<exists>m \<in> set (out_names s merge n). map_of node' ''name'' = Some (PStr m) \<and> node_origin nm s merge n m (node_deps node')"
    by blast+
qed

section \<open>Which workers have a node\<close>

definition workers_of :: "assignment \<Rightarrow> string \<Rightarrow> string list" where
  "workers_of assigned n = map fst (filter (\<lambda>(w, ns). n \<in> set ns) assigned)"

lemma set_workers_of: "distinct (dict_keys assigned) \<Longrightarrow> w \<in> set (workers_of assigned n) \<longleftrightarrow> n \<in> set (dict_get assigned w [])"
  by (induction assigned) (auto simp: workers_of_def dict_get_def split: option.splits dest: map_of_SomeD)

lemma distinct_workers_of: "distinct (dict_keys assigned) \<Longrightarrow> distinct (workers_of assigned n)"
  by (induction assigned) (auto simp: workers_of_def)

lemma distinct_singleton: "distinct xs \<Longrightarrow> set xs = {x} \<Longrightarrow> xs = [x]"
  by (metis distinct.simps(2) empty_iff empty_set insert_iff list.set_intros(1) list.simps(15) neq_Nil_conv set_empty singleton_insert_inj_eq)

lemma workers_of_single:
  assumes "distinct (dict_keys assigned)" and "\<And>w'. n \<in> set (dict_get assigned w' []) \<longleftrightarrow> w' = w"
  shows "workers_of assigned n = [w]"
  by (rule distinct_singleton [OF distinct_workers_of [OF assms(1)]]) (use set_workers_of [OF assms(1)] assms(2) in auto)

abbreviation add_worker :: "string \<Rightarrow> string \<Rightarrow> (string, string list) dict \<Rightarrow> (string, string list) dict" where
  "add_worker w n c \<equiv> AList.update n (set_add w (dict_get c n [])) c"

lemma collect_worker_Inr:
  "collect_worker errs names w seen ns c = Inr c' \<longleftrightarrow>
     distinct ns \<and> set ns \<inter> set seen = {} \<and> set ns \<subseteq> set names \<and> c' = fold (add_worker w) ns c"
  by (induction errs names w seen ns c rule: collect_worker.induct) auto

lemma get_fold_add_worker:
  "distinct ns \<Longrightarrow> dict_get (fold (add_worker w) ns c) n [] = (if n \<in> set ns then set_add w (dict_get c n []) else dict_get c n [])"
  by (induction ns arbitrary: c) (auto simp: dict_get_update)

lemma keys_fold_add_worker: "fst ` set (fold (add_worker w) ns c) = fst ` set c \<union> set ns"
  by (induction ns arbitrary: c) (auto simp: image_keys_update)

lemma distinct_fold_add_worker: "distinct (dict_keys c) \<Longrightarrow> distinct (dict_keys (fold (add_worker w) ns c))"
  by (induction ns arbitrary: c) auto

lemma collect_workers_run:
  assumes "distinct (dict_keys assigned)" and "\<forall>(w, ns) \<in> set assigned. distinct ns \<and> set ns \<subseteq> set names"
    and "\<forall>w \<in> set (dict_keys assigned). \<forall>n. w \<notin> set (dict_get c n [])" and "distinct (dict_keys c)"
  shows "\<exists>c'. efold (\<lambda>(w, ns) c. collect_worker errs names w [] ns c) assigned c = Inr c' \<and> distinct (dict_keys c') \<and>
    set (dict_keys c') = set (dict_keys c) \<union> (\<Union>(w, ns) \<in> set assigned. set ns) \<and>
    (\<forall>n. dict_get c' n [] = dict_get c n [] @ workers_of assigned n)"
  using assms
proof (induction assigned arbitrary: c)
  case (Cons x assigned)
  obtain w ns where x: "x = (w, ns)" by fastforce
  let ?c = "fold (add_worker w) ns c"
  have d: "distinct ns" "set ns \<subseteq> set names" using Cons.prems(2) x by auto
  have step: "collect_worker errs names w [] ns c = Inr ?c" using d by (simp add: collect_worker_Inr)
  have get: "dict_get ?c n [] = dict_get c n [] @ (if n \<in> set ns then [w] else [])" for n
  proof -
    have "w \<notin> set (dict_get c n [])" using Cons.prems(3) x by simp
    then show ?thesis by (simp only: get_fold_add_worker [OF d(1)]) (simp add: set_add_def)
  qed
  have "\<forall>w' \<in> set (dict_keys assigned). \<forall>n. w' \<notin> set (dict_get ?c n [])"
    using Cons.prems(1,3) x by (auto simp: get)
  from Cons.IH [OF _ _ this distinct_fold_add_worker [OF Cons.prems(4)]] Cons.prems(1,2)
  obtain c' where c': "efold (\<lambda>(w, ns) c. collect_worker errs names w [] ns c) assigned ?c = Inr c'" "distinct (dict_keys c')"
    "set (dict_keys c') = set (dict_keys ?c) \<union> (\<Union>(w, ns) \<in> set assigned. set ns)"
    "\<forall>n. dict_get c' n [] = dict_get ?c n [] @ workers_of assigned n" by auto
  show ?case
    by (rule exI [of _ c']) (use c' in \<open>auto simp: x step get keys_fold_add_worker workers_of_def\<close>)
qed (simp add: workers_of_def)

lemma collect_workers_valid:
  assumes "collect_workers errs unc assigned names = Inr c"
  shows "\<forall>(w, ns) \<in> set assigned. distinct ns \<and> set ns \<subseteq> set names"
proof -
  have "\<forall>x \<in> set as. distinct (snd x) \<and> set (snd x) \<subseteq> set names"
    if "efold (\<lambda>(w, ns) c. collect_worker errs names w [] ns c) as c = Inr c'" for as and c c' :: "(string, string list) dict"
    using that
  proof (induction as arbitrary: c)
    case (Cons x as)
    obtain w ns where x: "x = (w, ns)" by fastforce
    from Cons.prems x obtain u where "collect_worker errs names w [] ns c = Inr u"
      and rest: "efold (\<lambda>(w, ns) c. collect_worker errs names w [] ns c) as u = Inr c'" by (auto simp: ebind_Inr_iff)
    then have "distinct ns \<and> set ns \<subseteq> set names" by (simp add: collect_worker_Inr)
    with Cons.IH [OF rest] x show ?case by simp
  qed simp
  with assms show ?thesis by (fastforce simp: collect_workers_def ebind_Inr_iff)
qed

lemma collect_workers_ok:
  assumes "distinct (dict_keys assigned)"
  shows "(\<exists>c. collect_workers errs unc assigned names = Inr c) \<longleftrightarrow>
      (\<forall>(w, ns) \<in> set assigned. distinct ns \<and> set ns \<subseteq> set names) \<and> (\<forall>n \<in> set names. workers_of assigned n \<noteq> [])"
    and "collect_workers errs unc assigned names = Inr c \<Longrightarrow> distinct (dict_keys c) \<and> set (dict_keys c) = set names \<and>
      (\<forall>n. dict_get c n [] = workers_of assigned n)"
proof -
  have run: "\<exists>c'. efold (\<lambda>(w, ns) c. collect_worker errs names w [] ns c) assigned [] = Inr c' \<and> distinct (dict_keys c') \<and>
    set (dict_keys c') = (\<Union>(w, ns) \<in> set assigned. set ns) \<and> (\<forall>n. dict_get c' n [] = workers_of assigned n)"
    if "\<forall>(w, ns) \<in> set assigned. distinct ns \<and> set ns \<subseteq> set names"
    for errs using collect_workers_run [OF assms that, of "[]" errs] by (simp add: dict_get_def)
  have cover: "n \<in> (\<Union>(w, ns) \<in> set assigned. set ns) \<longleftrightarrow> workers_of assigned n \<noteq> []" for n
    by (auto simp: workers_of_def filter_empty_conv)
  show "(\<exists>c. collect_workers errs unc assigned names = Inr c) \<longleftrightarrow>
      (\<forall>(w, ns) \<in> set assigned. distinct ns \<and> set ns \<subseteq> set names) \<and> (\<forall>n \<in> set names. workers_of assigned n \<noteq> [])" (is "?l \<longleftrightarrow> ?v \<and> ?w")
  proof
    assume ?l
    then obtain c where c: "collect_workers errs unc assigned names = Inr c" by blast
    from collect_workers_valid [OF c] have v: ?v .
    from run [OF v, of errs] obtain c' where
      "efold (\<lambda>(w, ns) c. collect_worker errs names w [] ns c) assigned [] = Inr c'"
      and keys: "set (dict_keys c') = (\<Union>(w, ns) \<in> set assigned. set ns)" by blast
    with c have "set (dict_keys c') = set names" by (simp add: collect_workers_def split: if_splits)
    with keys have names: "set names = (\<Union>(w, ns) \<in> set assigned. set ns)" by simp
    have ?w
    proof
      fix n
      assume "n \<in> set names"
      then have "n \<in> (\<Union>(w, ns) \<in> set assigned. set ns)" by (simp only: names)
      then show "workers_of assigned n \<noteq> []" by (rule cover [THEN iffD1])
    qed
    with v show "?v \<and> ?w" by (rule conjI)
  next
    assume vw: "?v \<and> ?w"
    then obtain c' where c': "efold (\<lambda>(w, ns) c. collect_worker errs names w [] ns c) assigned [] = Inr c'"
      "set (dict_keys c') = (\<Union>(w, ns) \<in> set assigned. set ns)" using run [of errs] by blast
    moreover have "(\<Union>(w, ns) \<in> set assigned. set ns) = set names"
    proof
      show "(\<Union>(w, ns) \<in> set assigned. set ns) \<subseteq> set names" using vw by blast
      show "set names \<subseteq> (\<Union>(w, ns) \<in> set assigned. set ns)" using vw by (auto simp only: cover)
    qed
    ultimately show ?l by (simp add: collect_workers_def)
  qed
  show "collect_workers errs unc assigned names = Inr c \<Longrightarrow> distinct (dict_keys c) \<and> set (dict_keys c) = set names \<and>
      (\<forall>n. dict_get c n [] = workers_of assigned n)"
  proof -
    assume c: "collect_workers errs unc assigned names = Inr c"
    from run [OF collect_workers_valid [OF c], of errs] obtain c' where
      run: "efold (\<lambda>(w, ns) c. collect_worker errs names w [] ns c) assigned [] = Inr c'"
      and c': "distinct (dict_keys c')" "\<forall>n. dict_get c' n [] = workers_of assigned n" by blast
    from c run have "c = c' \<and> set (dict_keys c') = set names" by (simp add: collect_workers_def split: if_splits)
    with c' show ?thesis by blast
  qed
qed

section \<open>The rewritten assignment\<close>

text \<open>
  What the rewriting starts from: indexed nodes whose dependencies are nodes of the batch, no node
  that is called like a shard, an assignment that covers the nodes, and the plan.
\<close>

definition no_shard_names :: "node_map \<Rightarrow> bool" where
  "no_shard_names nm \<longleftrightarrow> (\<forall>n \<in> set (dict_keys nm). \<forall>m \<in> set (dict_keys nm). \<forall>i. n \<noteq> shard_name m i)"

definition closed_deps :: "node_map \<Rightarrow> bool" where
  "closed_deps nm \<longleftrightarrow> (\<forall>n \<in> set (dict_keys nm). set (node_deps_of nm n) \<subseteq> set (dict_keys nm))"

definition shard_setting :: "node_map \<Rightarrow> assignment \<Rightarrow> (string, string list) dict \<Rightarrow> shard_state \<Rightarrow> bool" where
  "shard_setting nm assigned cands s \<longleftrightarrow>
     distinct (dict_keys nm) \<and> (\<forall>n node. map_of nm n = Some node \<longrightarrow> map_of node ''name'' = Some (PStr n)) \<and>
     closed_deps nm \<and> no_shard_names nm \<and> distinct (dict_keys assigned) \<and>
     (\<forall>(w, ns) \<in> set assigned. distinct ns \<and> set ns \<subseteq> set (dict_keys nm)) \<and>
     (\<forall>n \<in> set (dict_keys nm). workers_of assigned n \<noteq> []) \<and>
     distinct (dict_keys cands) \<and> set (dict_keys cands) = set (dict_keys nm) \<and>
     (\<forall>n. dict_get cands n [] = workers_of assigned n) \<and>
     plan_ok cands (set (dict_keys (explicit_intent cands))) s"

definition final_workers :: "assignment \<Rightarrow> shard_state \<Rightarrow> string \<Rightarrow> string list" where
  "final_workers assigned s n =
     (case map_of (ss_shards s) n of
        None \<Rightarrow> [hd (workers_of assigned n)] | Some names \<Rightarrow> take (length names) (workers_of assigned n))"

lemma setting_shards:
  assumes "shard_setting nm assigned cands s" and "map_of (ss_shards s) n = Some names"
  shows "n \<in> set (dict_keys nm)" and "names = map (shard_name n) [0..<length names]" and "1 \<le> length names"
    and "length names \<le> length (workers_of assigned n)" and "final_workers assigned s n = take (length names) (workers_of assigned n)"
    and "\<exists>t. length names \<le> t \<and> map_of (ss_partitions s) n = Some (build_index_partitions t (length names))"
    and "map_of (ss_candidates s) n = Some (take (length names) (workers_of assigned n))"
proof -
  from assms(1) have ok: "plan_ok cands (set (dict_keys (explicit_intent cands))) s" by (simp only: shard_setting_def)
  from assms(2) have "n \<in> set (dict_keys (ss_shards s))" using map_of_SomeD by force
  with ok have "planned cands s n" unfolding plan_ok_def by blast
  then obtain ws k t where p: "map_of cands n = Some ws" "1 \<le> k" "k \<le> length ws" "k \<le> t"
    "map_of (ss_shards s) n = Some (map (shard_name n) [0..<k])" "map_of (ss_partitions s) n = Some (build_index_partitions t k)"
    "map_of (ss_candidates s) n = Some (take k ws)"
    unfolding planned_def by blast
  have k: "k = length names" using p(5) assms(2) by simp
  have ws: "ws = workers_of assigned n"
  proof -
    have "dict_get cands n [] = ws" using p(1) by (simp add: dict_get_def)
    with assms(1) show ?thesis by (simp add: shard_setting_def)
  qed
  have "n \<in> set (dict_keys cands)" using p(1) map_of_SomeD by force
  with assms(1) show "n \<in> set (dict_keys nm)" by (simp add: shard_setting_def)
  show "names = map (shard_name n) [0..<length names]" using p(5) assms(2) k by simp
  show "1 \<le> length names" "length names \<le> length (workers_of assigned n)" using p(2,3) by (simp_all add: k ws)
  show "final_workers assigned s n = take (length names) (workers_of assigned n)" by (simp add: final_workers_def assms(2))
  show "\<exists>t. length names \<le> t \<and> map_of (ss_partitions s) n = Some (build_index_partitions t (length names))"
    using p(4,6) k by blast
  show "map_of (ss_candidates s) n = Some (take (length names) (workers_of assigned n))" using p(7) by (simp add: k ws)
qed

lemma setting_basic:
  assumes "shard_setting nm assigned cands s"
  shows "distinct (dict_keys nm)" and "distinct (dict_keys assigned)" and "no_shard_names nm" and "closed_deps nm"
    and "n \<in> set (dict_keys nm) \<Longrightarrow> workers_of assigned n \<noteq> []"
    and "n \<in> set (dict_get assigned w []) \<Longrightarrow> n \<in> set (dict_keys nm)"
    and "map_of (ss_shards s) n = None \<Longrightarrow> n \<notin> set (dict_keys (explicit_intent cands)) \<and> n \<notin> set (dict_keys (ss_shards s)) \<and> map_of (ss_candidates s) n = map_of cands n"
    and "n \<in> set (dict_keys nm) \<Longrightarrow> map_of cands n = Some (workers_of assigned n)"
proof -
  show "distinct (dict_keys nm)" "distinct (dict_keys assigned)" "no_shard_names nm" "closed_deps nm"
    using assms by (simp_all only: shard_setting_def)
  show "n \<in> set (dict_keys nm) \<Longrightarrow> workers_of assigned n \<noteq> []" using assms unfolding shard_setting_def by blast
  show "n \<in> set (dict_get assigned w []) \<Longrightarrow> n \<in> set (dict_keys nm)"
  proof -
    assume n: "n \<in> set (dict_get assigned w [])"
    then obtain ns where "(w, ns) \<in> set assigned" "n \<in> set ns"
      by (cases "map_of assigned w") (auto simp: dict_get_def dest: map_of_SomeD)
    with assms show ?thesis unfolding shard_setting_def by blast
  qed
  from assms have ok: "plan_ok cands (set (dict_keys (explicit_intent cands))) s" by (simp only: shard_setting_def)
  show "map_of (ss_shards s) n = None \<Longrightarrow> n \<notin> set (dict_keys (explicit_intent cands)) \<and> n \<notin> set (dict_keys (ss_shards s)) \<and> map_of (ss_candidates s) n = map_of cands n"
  proof -
    assume "map_of (ss_shards s) n = None"
    then have k: "n \<notin> set (dict_keys (ss_shards s))" by (simp add: map_of_eq_None_iff)
    with ok have "n \<notin> set (dict_keys (explicit_intent cands))" unfolding plan_ok_def by blast
    with ok k show ?thesis unfolding plan_ok_def by blast
  qed
  show "n \<in> set (dict_keys nm) \<Longrightarrow> map_of cands n = Some (workers_of assigned n)"
  proof -
    assume "n \<in> set (dict_keys nm)"
    with assms have "n \<in> set (dict_keys cands)" by (simp only: shard_setting_def)
    then obtain ws where ws: "map_of cands n = Some ws" by (metis map_of_eq_None_iff not_Some_eq set_map)
    then have "dict_get cands n [] = ws" by (simp add: dict_get_def)
    with assms ws show ?thesis by (simp add: shard_setting_def)
  qed
qed

abbreviation effective_workers :: "(string, string list) dict \<Rightarrow> shard_state \<Rightarrow> (string, string list) dict" where
  "effective_workers cands s \<equiv> pin_unsharded (dict_keys (explicit_intent cands)) (ss_shards s) cands (ss_candidates s)"

lemma map_of_map_rows: "(\<And>k v. fst (f (k, v)) = k) \<Longrightarrow> map_of (map f d) k = map_option (\<lambda>v. snd (f (k, v))) (map_of d k)"
proof (induction d)
  case (Cons x d)
  obtain a b where x: "x = (a, b)" by fastforce
  from Cons.prems have "f (a, b) = (a, snd (f (a, b)))" by (metis prod.collapse)
  then have "map_of (f x # map f d) k = (if k = a then Some (snd (f (a, b))) else map_of (map f d) k)"
    by (metis (no_types) fun_upd_apply map_of.simps(2) fst_conv snd_conv x)
  with Cons show ?case by (simp add: x)
qed simp

lemma effective_final:
  assumes set: "shard_setting nm assigned cands s" and n: "n \<in> set (dict_keys nm)"
  shows "map_of (effective_workers cands s) n = Some (final_workers assigned s n)"
proof -
  let ?f = "\<lambda>(n, workers). if n \<in> set (dict_keys (explicit_intent cands)) \<or> n \<in> set (dict_keys (ss_shards s)) then (n, workers)
       else (case dict_get cands n [] of w # _ \<Rightarrow> (n, [w]) | [] \<Rightarrow> (n, case workers of w # _ \<Rightarrow> [w] | [] \<Rightarrow> workers))"
  have rows: "map_of (effective_workers cands s) n = map_option (\<lambda>v. snd (?f (n, v))) (map_of (ss_candidates s) n)"
    unfolding pin_unsharded_def by (rule map_of_map_rows) (auto split: list.splits)
  show ?thesis
  proof (cases "map_of (ss_shards s) n")
    case None
    note un = setting_basic(7) [OF set None]
    obtain w ws where ws: "workers_of assigned n = w # ws" using setting_basic(5) [OF set n] by (cases "workers_of assigned n") auto
    have "dict_get cands n [] = w # ws" using set ws by (simp add: shard_setting_def)
    with un setting_basic(8) [OF set n] show ?thesis unfolding rows by (simp add: ws final_workers_def None)
  next
    case (Some names)
    have "n \<in> set (dict_keys (ss_shards s))" using Some map_of_SomeD by force
    then show ?thesis unfolding rows using setting_shards(5,7) [OF set Some] by simp
  qed
qed

lemma final_subset:
  assumes "shard_setting nm assigned cands s" and "n \<in> set (dict_keys nm)"
  shows "set (final_workers assigned s n) \<subseteq> set (workers_of assigned n)" and "distinct (final_workers assigned s n)"
    and "final_workers assigned s n \<noteq> []"
proof -
  note d = distinct_workers_of [OF setting_basic(2) [OF assms(1)], of n]
  note ne = setting_basic(5) [OF assms]
  show "set (final_workers assigned s n) \<subseteq> set (workers_of assigned n)"
    using ne by (auto simp: final_workers_def split: option.splits dest: in_set_takeD)
  show "distinct (final_workers assigned s n)" using d by (auto simp: final_workers_def split: option.splits)
  show "final_workers assigned s n \<noteq> []"
  proof (cases "map_of (ss_shards s) n")
    case (Some names)
    from setting_shards(3) [OF assms(1) Some] ne show ?thesis by (auto simp: final_workers_def Some)
  qed (simp add: final_workers_def)
qed

lemma prune_nodes_set:
  "set (prune_nodes cands w seen ns) = {n \<in> set ns. n \<notin> set seen \<and> (case map_of cands n of None \<Rightarrow> True | Some ws \<Rightarrow> w \<in> set ws)}"
proof (induction ns arbitrary: seen)
  case (Cons n ns)
  have neg: "(case map_of cands n of None \<Rightarrow> False | Some ws \<Rightarrow> w \<notin> set ws) \<longleftrightarrow>
      \<not> (case map_of cands n of None \<Rightarrow> True | Some ws \<Rightarrow> w \<in> set ws)" by (simp split: option.split)
  show ?case unfolding prune_nodes.simps neg by (auto simp: Cons.IH)
qed simp

lemma pruned_nodes:
  assumes set: "shard_setting nm assigned cands s"
  shows "n \<in> set (dict_get (prune_assignment assigned (effective_workers cands s)) w []) \<longleftrightarrow>
    n \<in> set (dict_keys nm) \<and> w \<in> set (final_workers assigned s n)"
proof -
  have get: "dict_get (prune_assignment assigned (effective_workers cands s)) w [] =
      prune_nodes (effective_workers cands s) w [] (dict_get assigned w [])"
    by (induction assigned) (auto simp: prune_assignment_def dict_get_def)
  have "n \<in> set (dict_get assigned w []) \<longleftrightarrow> w \<in> set (workers_of assigned n)"
    using set_workers_of [OF setting_basic(2) [OF set]] by blast
  then show ?thesis
    unfolding get prune_nodes_set using effective_final [OF set, of n] final_subset(1) [OF set, of n] setting_basic(6) [OF set, of n w]
    by auto
qed

lemma zip_index:
  assumes "distinct ws"
  shows "map_of (dict_of (zip ws [0..<length ws])) w = Some i \<longleftrightarrow> i < length ws \<and> ws ! i = w"
    and "dict_keys (dict_of (zip ws [0..<length ws])) = ws"
proof -
  have keys: "map fst (zip ws [0..<length ws]) = ws" by simp
  with assms have id: "dict_of (zip ws [0..<length ws]) = zip ws [0..<length ws]" by (metis dict_of_distinct_id)
  show "dict_keys (dict_of (zip ws [0..<length ws])) = ws" by (simp add: id)
  have "distinct (map fst (zip ws [0..<length ws]))" using assms keys by simp
  then show "map_of (dict_of (zip ws [0..<length ws])) w = Some i \<longleftrightarrow> i < length ws \<and> ws ! i = w"
    by (auto simp: id map_of_eq_Some_iff in_set_zip)
qed

lemma map_of_filter_keys: "map_of (filter (\<lambda>(k, v). P k) d) k = (if P k then map_of d k else None)"
  by (induction d) auto

lemma sharded_final_length:
  assumes "shard_setting nm assigned cands s" and "map_of (ss_shards s) n = Some names"
  shows "length (final_workers assigned s n) = length names"
  using setting_shards(4,5) [OF assms] by simp

lemma shard_indexes_run:
  assumes set: "shard_setting nm assigned cands s"
  shows "\<exists>idx. shard_indexes (ss_shards s) (effective_workers cands s) = Inr idx \<and>
    (\<forall>n. map_of idx n = (case map_of (ss_shards s) n of None \<Rightarrow> None
       | Some names \<Rightarrow> Some (dict_of (zip (final_workers assigned s n) [0..<length names]))))"
proof -
  let ?eff = "effective_workers cands s"
  let ?rows = "filter (\<lambda>(n, _). n \<in> set (dict_keys (ss_shards s))) ?eff"
  let ?g = "\<lambda>n workers. if workers = [] then Inl (ValueError ''missing worker candidates for node'')
       else if length workers \<noteq> length (dict_get (ss_shards s) n []) then Inl (ValueError ''shard worker count mismatch'')
       else Inr (dict_of (zip workers [0..<length workers]))"
  have alt: "shard_indexes (ss_shards s) ?eff = emap (\<lambda>(n, ws). ebind (?g n ws) (\<lambda>v. Inr (n, v))) ?rows"
    unfolding shard_indexes_def by (rule emap_cong [OF refl]) auto
  have keys: "dict_keys ?eff = dict_keys (ss_candidates s)"
    by (auto simp: pin_unsharded_def split: list.splits)
  have dist: "distinct (dict_keys ?eff)"
    using set unfolding keys shard_setting_def plan_ok_def by simp
  have row: "\<exists>names. map_of (ss_shards s) n = Some names \<and> ws = final_workers assigned s n \<and> ?g n ws = Inr (dict_of (zip ws [0..<length ws]))"
    if mem: "(n, ws) \<in> set ?rows" for n ws
  proof -
    from mem have n: "n \<in> set (dict_keys (ss_shards s))" and e: "(n, ws) \<in> set ?eff" by auto
    from n obtain names where names: "map_of (ss_shards s) n = Some names" by (metis map_of_eq_None_iff not_Some_eq set_map)
    from e dist have "map_of ?eff n = Some ws" by simp
    with effective_final [OF set setting_shards(1) [OF set names]] have ws: "ws = final_workers assigned s n" by simp
    have "dict_get (ss_shards s) n [] = names" using names by (simp add: dict_get_def)
    moreover have "ws \<noteq> []" using final_subset(3) [OF set setting_shards(1) [OF set names]] ws by simp
    ultimately show ?thesis using names ws sharded_final_length [OF set names] by simp
  qed
  have "\<exists>idx. emap (\<lambda>(n, ws). ebind (?g n ws) (\<lambda>v. Inr (n, v))) ?rows = Inr idx"
    by (rule emap_total) (use row in fastforce)
  then obtain idx where idx: "emap (\<lambda>(n, ws). ebind (?g n ws) (\<lambda>v. Inr (n, v))) ?rows = Inr idx" by blast
  have rows: "map_of ?rows n = (if n \<in> set (dict_keys (ss_shards s)) then map_of ?eff n else None)" for n
    by (rule map_of_filter_keys)
  have "map_of idx n = (case map_of (ss_shards s) n of None \<Rightarrow> None
       | Some names \<Rightarrow> Some (dict_of (zip (final_workers assigned s n) [0..<length names])))" for n
  proof (cases "map_of (ss_shards s) n")
    case None
    then have "n \<notin> set (dict_keys (ss_shards s))" by (simp add: map_of_eq_None_iff)
    then have "map_of ?rows n = None" using rows by simp
    with emap_dict(3) [OF idx] None show ?thesis by simp
  next
    case (Some names)
    then have "n \<in> set (dict_keys (ss_shards s))" using map_of_SomeD by force
    then have r: "map_of ?rows n = Some (final_workers assigned s n)"
      using rows effective_final [OF set setting_shards(1) [OF set Some]] by simp
    from row [OF map_of_SomeD [OF r]] have "?g n (final_workers assigned s n) = Inr (dict_of (zip (final_workers assigned s n) [0..<length (final_workers assigned s n)]))"
      by blast
    with emap_dict(2) [OF idx r] Some sharded_final_length [OF set Some] show ?thesis by auto
  qed
  with idx alt show ?thesis by auto
qed

definition shard_index :: "assignment \<Rightarrow> shard_state \<Rightarrow> (string, (string, nat) dict) dict \<Rightarrow> bool" where
  "shard_index assigned s idx \<longleftrightarrow> (\<forall>n. map_of idx n = (case map_of (ss_shards s) n of None \<Rightarrow> None
       | Some names \<Rightarrow> Some (dict_of (zip (final_workers assigned s n) [0..<length names]))))"

lemma shard_index_of:
  assumes set: "shard_setting nm assigned cands s" and idx: "shard_index assigned s idx" and sh: "map_of (ss_shards s) n = Some names"
  shows "map_of (dict_get idx n []) w = Some i \<longleftrightarrow> i < length names \<and> final_workers assigned s n ! i = w"
    and "dict_keys (dict_get idx n []) = final_workers assigned s n"
proof -
  have get: "dict_get idx n [] = dict_of (zip (final_workers assigned s n) [0..<length (final_workers assigned s n)])"
    using idx sh sharded_final_length [OF set sh] by (simp add: shard_index_def dict_get_def)
  note d = final_subset(2) [OF set setting_shards(1) [OF set sh]]
  show "map_of (dict_get idx n []) w = Some i \<longleftrightarrow> i < length names \<and> final_workers assigned s n ! i = w"
    unfolding get using zip_index(1) [OF d, of w i] by (simp only: sharded_final_length [OF set sh])
  show "dict_keys (dict_get idx n []) = final_workers assigned s n"
    unfolding get by (rule zip_index(2) [OF d])
qed

text \<open>A merge node is put on the first worker without a shard, otherwise with the first shard.\<close>

definition merge_host :: "assignment \<Rightarrow> shard_state \<Rightarrow> string \<Rightarrow> string" where
  "merge_host assigned s n =
     hd (filter (\<lambda>w. w \<notin> set (final_workers assigned s n)) (dict_keys assigned) @ final_workers assigned s n)"

lemma merge_hosts_run:
  assumes set: "shard_setting nm assigned cands s" and idx: "shard_index assigned s idx"
    and keys: "dict_keys assigned' = dict_keys assigned" and merge: "set merge \<subseteq> set (dict_keys (ss_shards s))"
  shows "merge_hosts assigned' (ss_shards s) (effective_workers cands s) idx merge = Inr (map (\<lambda>n. (n, merge_host assigned s n)) merge)"
proof -
  have id: "filter (\<lambda>n. n \<in> set (dict_keys (ss_shards s))) merge = merge" using merge by (auto simp: filter_id_conv)
  show ?thesis
    unfolding merge_hosts_def id
  proof (rule emap_cong_Inr, goal_cases)
    case (1 n)
    with merge obtain names where sh: "map_of (ss_shards s) n = Some names"
      by (metis map_of_eq_None_iff not_Some_eq set_map subsetD)
    note n = setting_shards(1) [OF set sh]
    have "n \<in> set (dict_keys idx)"
    proof -
      have "map_of idx n \<noteq> None" using idx sh by (simp add: shard_index_def)
      then show ?thesis by (simp add: map_of_eq_None_iff)
    qed
    moreover have "dict_index (effective_workers cands s) n = Inr (final_workers assigned s n)"
      using effective_final [OF set n] by (simp add: dict_index_def)
    ultimately show ?case
      unfolding keys shard_index_of(2) [OF set idx sh]
      by (cases "filter (\<lambda>w. w \<notin> set (final_workers assigned s n)) (dict_keys assigned)") (simp_all add: merge_host_def)
  qed
qed

lemma merge_host_worker:
  assumes set: "shard_setting nm assigned cands s" and n: "n \<in> set (dict_keys nm)"
  shows "merge_host assigned s n \<in> set (dict_keys assigned)"
proof -
  have "merge_host assigned s n \<in> set (filter (\<lambda>w. w \<notin> set (final_workers assigned s n)) (dict_keys assigned) @ final_workers assigned s n)"
    unfolding merge_host_def using final_subset(3) [OF set n] by (intro hd_in_set) simp
  moreover have "set (final_workers assigned s n) \<subseteq> set (dict_keys assigned)"
    using final_subset(1) [OF set n] by (force simp: workers_of_def)
  ultimately show ?thesis by auto
qed

text \<open>What a worker gets for a node of its list.\<close>

definition mapped_name ::
  "(string, string list) dict \<Rightarrow> (string, (string, nat) dict) dict \<Rightarrow> (string, string) dict \<Rightarrow> string list \<Rightarrow> string \<Rightarrow> string \<Rightarrow> string option" where
  "mapped_name shards indexes hosts merge w n =
     (case map_of shards n of
        None \<Rightarrow> Some n
      | Some names \<Rightarrow>
          (case map_of (dict_get indexes n []) w of
             None \<Rightarrow> if n \<in> set merge \<and> map_of hosts n = Some w then Some n else None
           | Some idx \<Rightarrow> Some (names ! idx)))"

lemma assign_shards_Cons:
  "assign_shards shards indexes hosts merge w seen (n # ns) =
     (case mapped_name shards indexes hosts merge w n of
        None \<Rightarrow> assign_shards shards indexes hosts merge w seen ns
      | Some m \<Rightarrow>
          if m \<in> set seen then assign_shards shards indexes hosts merge w seen ns
          else if (n \<in> set merge \<and> map_of hosts n = Some w) \<and> n \<notin> set (m # seen)
          then m # n # assign_shards shards indexes hosts merge w (n # m # seen) ns
          else m # assign_shards shards indexes hosts merge w (m # seen) ns)"
  by (simp add: mapped_name_def Let_def)

lemma assign_shards_sound:
  assumes "m \<in> set (assign_shards shards indexes hosts merge w seen ns)"
  shows "m \<notin> set seen \<and> (\<exists>n \<in> set ns. mapped_name shards indexes hosts merge w n = Some m \<or> n \<in> set merge \<and> map_of hosts n = Some w \<and> m = n)"
  using assms
proof (induction ns arbitrary: seen)
  case (Cons n ns)
  show ?case
  proof (cases "mapped_name shards indexes hosts merge w n")
    case None
    with Cons show ?thesis by (auto simp: assign_shards_Cons simp del: assign_shards.simps)
  next
    case (Some k)
    with Cons.prems Cons.IH [of seen] Cons.IH [of "k # seen"] Cons.IH [of "n # k # seen"] show ?thesis
      by (auto simp: assign_shards_Cons simp del: assign_shards.simps split: if_splits)
  qed
qed simp

lemma assign_shards_complete:
  assumes "n \<in> set ns" and "mapped_name shards indexes hosts merge w n = Some m"
  shows "m \<in> set (assign_shards shards indexes hosts merge w seen ns) \<union> set seen"
  using assms
proof (induction ns arbitrary: seen)
  case (Cons k ns)
  show ?case
  proof (cases "n = k")
    case True
    with Cons.prems(2) show ?thesis by (auto simp: assign_shards_Cons simp del: assign_shards.simps)
  next
    case False
    with Cons.prems have "n \<in> set ns" by simp
    from Cons.IH [OF this Cons.prems(2)] have IH: "m \<in> set (assign_shards shards indexes hosts merge w seen ns) \<union> set seen" for seen .
    show ?thesis
      using IH [of seen] IH [of "the (mapped_name shards indexes hosts merge w k) # seen"]
        IH [of "k # the (mapped_name shards indexes hosts merge w k) # seen"]
      by (cases "mapped_name shards indexes hosts merge w k") (auto simp: assign_shards_Cons simp del: assign_shards.simps)
  qed
qed simp

lemma assign_shards_distinct: "distinct (assign_shards shards indexes hosts merge w seen ns)"
proof (induction ns arbitrary: seen)
  case (Cons n ns)
  have fresh: "m \<in> set seen \<Longrightarrow> m \<notin> set (assign_shards shards indexes hosts merge w seen ns)" for m seen
    using assign_shards_sound by blast
  show ?case
    using Cons.IH fresh
    by (cases "mapped_name shards indexes hosts merge w n") (auto simp add: assign_shards_Cons simp del: assign_shards.simps)
qed simp

lemma get_add_merge_host:
  "dict_get (add_merge_host (n, u) a) w [] =
     (if w = u then (if n \<in> set (dict_get a u []) then dict_get a u [] else dict_get a u [] @ [n]) else dict_get a w [])"
  by (simp add: add_merge_host_def Let_def dict_get_update)

lemma add_merge_hosts_keys:
  "snd ` set hs \<subseteq> set (dict_keys a) \<Longrightarrow> dict_keys (foldl (\<lambda>a x. add_merge_host x a) a hs) = dict_keys a"
proof (induction hs arbitrary: a)
  case (Cons h hs)
  obtain n u where h: "h = (n, u)" by fastforce
  have keys: "dict_keys (add_merge_host h a) = dict_keys a"
    using Cons.prems by (simp add: h add_merge_host_def Let_def AList.update_keys image_iff)
  have "snd ` set hs \<subseteq> set (dict_keys (add_merge_host h a))" unfolding keys using Cons.prems by simp
  from Cons.IH [OF this] show ?case by (simp only: foldl_Cons keys)
qed simp

lemma add_merge_hosts_mem:
  "m \<in> set (dict_get (foldl (\<lambda>a x. add_merge_host x a) a hs) w []) \<longleftrightarrow> m \<in> set (dict_get a w []) \<or> (m, w) \<in> set hs"
proof (induction hs arbitrary: a)
  case (Cons h hs)
  obtain n u where h: "h = (n, u)" by fastforce
  show ?case by (simp add: Cons.IH h get_add_merge_host) auto
qed simp

lemma add_merge_hosts_distinct:
  "(\<And>w. distinct (dict_get a w [])) \<Longrightarrow> distinct (dict_get (foldl (\<lambda>a x. add_merge_host x a) a hs) w [])"
proof (induction hs arbitrary: a)
  case (Cons h hs)
  obtain n u where h: "h = (n, u)" by fastforce
  have "distinct (dict_get (add_merge_host h a) w [])" for w using Cons.prems by (simp add: h get_add_merge_host)
  from Cons.IH [OF this] show ?case by simp
qed simp

definition node_on :: "assignment \<Rightarrow> shard_state \<Rightarrow> string list \<Rightarrow> string \<Rightarrow> string \<Rightarrow> string \<Rightarrow> bool" where
  "node_on assigned s merge w m n \<longleftrightarrow>
     (case map_of (ss_shards s) n of
        None \<Rightarrow> m = n \<and> w = hd (workers_of assigned n)
      | Some names \<Rightarrow> (\<exists>i < length names. m = names ! i \<and> w = workers_of assigned n ! i) \<or> n \<in> set merge \<and> m = n \<and> w = merge_host assigned s n)"

lemma shard_is_not_raw:
  assumes set: "shard_setting nm assigned cands s" and sh: "map_of (ss_shards s) n = Some names" and i: "i < length names"
    and m: "m \<in> set (dict_keys nm)"
  shows "names ! i \<noteq> m"
proof -
  have "names ! i = shard_name n i"
    using setting_shards(2) [OF set sh] i by (metis add_0 nth_map_upt minus_nat.diff_0)
  with setting_basic(3) [OF set] m setting_shards(1) [OF set sh] show ?thesis unfolding no_shard_names_def by metis
qed

lemma mapped_iff:
  assumes set: "shard_setting nm assigned cands s" and idx: "shard_index assigned s idx" and merge: "distinct merge"
    and n: "n \<in> set (dict_keys nm)"
  defines "hosts \<equiv> map (\<lambda>n. (n, merge_host assigned s n)) merge"
  shows "mapped_name (ss_shards s) idx hosts merge w n = Some m \<Longrightarrow> w \<in> set (final_workers assigned s n) \<Longrightarrow> node_on assigned s merge w m n"
    and "node_on assigned s merge w m n \<Longrightarrow> m \<noteq> n \<or> map_of (ss_shards s) n = None \<Longrightarrow>
      mapped_name (ss_shards s) idx hosts merge w n = Some m \<and> w \<in> set (final_workers assigned s n)"
proof -
  have host: "map_of hosts n = Some w \<longleftrightarrow> n \<in> set merge \<and> w = merge_host assigned s n" for w
    unfolding hosts_def by (auto simp: map_of_map_keys [unfolded o_def] map_of_eq_None_iff split: if_splits)
      (induction merge; auto split: if_splits)+
  show "mapped_name (ss_shards s) idx hosts merge w n = Some m \<Longrightarrow> w \<in> set (final_workers assigned s n) \<Longrightarrow> node_on assigned s merge w m n"
  proof (cases "map_of (ss_shards s) n")
    case None
    assume "mapped_name (ss_shards s) idx hosts merge w n = Some m" and "w \<in> set (final_workers assigned s n)"
    with None show ?thesis by (simp add: mapped_name_def node_on_def final_workers_def)
  next
    case (Some names)
    assume run: "mapped_name (ss_shards s) idx hosts merge w n = Some m" and w: "w \<in> set (final_workers assigned s n)"
    note ix = shard_index_of(1) [OF set idx Some, of w]
    show ?thesis
    proof (cases "map_of (dict_get idx n []) w")
      case None
      from w sharded_final_length [OF set Some] obtain i where "i < length names" "final_workers assigned s n ! i = w"
        by (metis in_set_conv_nth)
      with ix None show ?thesis by simp
    next
      case (Some i)
      with ix have i: "i < length names" "final_workers assigned s n ! i = w" by blast+
      have "workers_of assigned n ! i = w"
        using i setting_shards(5) [OF set \<open>map_of (ss_shards s) n = Some names\<close>] by simp
      with i run Some \<open>map_of (ss_shards s) n = Some names\<close> show ?thesis by (auto simp: mapped_name_def node_on_def)
    qed
  qed
  show "node_on assigned s merge w m n \<Longrightarrow> m \<noteq> n \<or> map_of (ss_shards s) n = None \<Longrightarrow>
      mapped_name (ss_shards s) idx hosts merge w n = Some m \<and> w \<in> set (final_workers assigned s n)"
  proof (cases "map_of (ss_shards s) n")
    case None
    assume "node_on assigned s merge w m n"
    with None show ?thesis by (simp add: mapped_name_def node_on_def final_workers_def)
  next
    case (Some names)
    assume on: "node_on assigned s merge w m n" and ne: "m \<noteq> n \<or> map_of (ss_shards s) n = None"
    from on ne Some obtain i where i: "i < length names" "m = names ! i" "w = workers_of assigned n ! i"
      by (auto simp: node_on_def)
    then have f: "final_workers assigned s n ! i = w" using setting_shards(5) [OF set Some] by simp
    with i shard_index_of(1) [OF set idx Some, of w i] have "map_of (dict_get idx n []) w = Some i" by blast
    moreover have "w \<in> set (final_workers assigned s n)"
      using f i(1) sharded_final_length [OF set Some] by (metis nth_mem)
    ultimately show ?thesis using i(2) Some by (simp add: mapped_name_def)
  qed
qed

lemma dict_get_map_rows: "f w [] = [] \<Longrightarrow> dict_get (map (\<lambda>(w, ns). (w, f w ns)) d) w [] = f w (dict_get d w [])"
  by (induction d) (auto simp: dict_get_def)

lemma rewrite_assignment_run:
  assumes set: "shard_setting nm assigned cands s" and merge: "distinct merge" "set merge \<subseteq> set (dict_keys (ss_shards s))"
  shows "\<exists>a'. rewrite_assignment (prune_assignment assigned (effective_workers cands s)) (ss_shards s) (effective_workers cands s) merge = Inr a' \<and>
    dict_keys a' = dict_keys assigned \<and> (\<forall>w. distinct (dict_get a' w [])) \<and>
    (\<forall>w m. m \<in> set (dict_get a' w []) \<longleftrightarrow> (\<exists>n \<in> set (dict_keys nm). node_on assigned s merge w m n))"
proof -
  let ?pruned = "prune_assignment assigned (effective_workers cands s)"
  let ?hosts = "map (\<lambda>n. (n, merge_host assigned s n)) merge"
  have keys: "dict_keys ?pruned = dict_keys assigned" by (auto simp: prune_assignment_def)
  from shard_indexes_run [OF set] obtain idx where idx: "shard_indexes (ss_shards s) (effective_workers cands s) = Inr idx"
    and ix: "shard_index assigned s idx" unfolding shard_index_def by blast
  let ?before = "map (\<lambda>(w, ns). (w, assign_shards (ss_shards s) idx ?hosts merge w [] ns)) ?pruned"
  let ?after = "foldl (\<lambda>a x. add_merge_host x a) ?before ?hosts"
  have run: "rewrite_assignment ?pruned (ss_shards s) (effective_workers cands s) merge = Inr ?after"
    using merge_hosts_run [OF set ix keys merge(2)] by (simp add: rewrite_assignment_def idx)
  have get0: "dict_get ?before w [] = assign_shards (ss_shards s) idx ?hosts merge w [] (dict_get ?pruned w [])" for w
    by (rule dict_get_map_rows) simp
  have "dict_keys ?before = dict_keys ?pruned" by auto
  then have keys0: "dict_keys ?before = dict_keys assigned" by (simp only: keys)
  have raw: "n \<in> set (dict_keys nm)" if "n \<in> set merge" for n
  proof -
    from that merge(2) obtain names where "map_of (ss_shards s) n = Some names"
      by (metis map_of_eq_None_iff not_Some_eq set_map subsetD)
    from setting_shards(1) [OF set this] show ?thesis .
  qed
  have "snd ` set ?hosts \<subseteq> set (dict_keys ?before)"
    unfolding keys0 using raw merge_host_worker [OF set] by auto
  from add_merge_hosts_keys [OF this] have "dict_keys ?after = dict_keys assigned" by (simp only: keys0)
  moreover have "distinct (dict_get ?after w [])" for w
    by (rule add_merge_hosts_distinct) (simp only: get0 assign_shards_distinct)
  moreover have "m \<in> set (dict_get ?after w []) \<longleftrightarrow> (\<exists>n \<in> set (dict_keys nm). node_on assigned s merge w m n)" for w m
  proof
    assume "m \<in> set (dict_get ?after w [])"
    then consider (first) "m \<in> set (assign_shards (ss_shards s) idx ?hosts merge w [] (dict_get ?pruned w []))" | (host) "(m, w) \<in> set ?hosts"
      by (auto simp: add_merge_hosts_mem get0)
    then show "\<exists>n \<in> set (dict_keys nm). node_on assigned s merge w m n"
    proof cases
      case first
      from assign_shards_sound [OF this] obtain n where n: "n \<in> set (dict_get ?pruned w [])"
        and or: "mapped_name (ss_shards s) idx ?hosts merge w n = Some m \<or> n \<in> set merge \<and> map_of ?hosts n = Some w \<and> m = n" by blast
      from n have nn: "n \<in> set (dict_keys nm)" and w: "w \<in> set (final_workers assigned s n)" using pruned_nodes [OF set] by auto
      from or show ?thesis
      proof
        assume "mapped_name (ss_shards s) idx ?hosts merge w n = Some m"
        from mapped_iff(1) [OF set ix merge(1) nn this w] nn show ?thesis by blast
      next
        assume h: "n \<in> set merge \<and> map_of ?hosts n = Some w \<and> m = n"
        then have "w = merge_host assigned s n" by (auto dest: map_of_SomeD)
        moreover from h merge(2) have "map_of (ss_shards s) n \<noteq> None" by (auto simp: map_of_eq_None_iff)
        ultimately have "node_on assigned s merge w m n" using h by (auto simp: node_on_def)
        with nn show ?thesis by blast
      qed
    next
      case host
      then have h: "m \<in> set merge" "w = merge_host assigned s m" by auto
      from h(1) merge(2) have "map_of (ss_shards s) m \<noteq> None" by (auto simp: map_of_eq_None_iff)
      with h have "node_on assigned s merge w m m" by (auto simp: node_on_def)
      with raw [OF h(1)] show ?thesis by blast
    qed
  next
    assume "\<exists>n \<in> set (dict_keys nm). node_on assigned s merge w m n"
    then obtain n where n: "n \<in> set (dict_keys nm)" and on: "node_on assigned s merge w m n" by blast
    show "m \<in> set (dict_get ?after w [])"
    proof (cases "m \<noteq> n \<or> map_of (ss_shards s) n = None")
      case True
      from mapped_iff(2) [OF set ix merge(1) n on this]
      have mp: "mapped_name (ss_shards s) idx ?hosts merge w n = Some m" and w: "w \<in> set (final_workers assigned s n)" by auto
      from n w have "n \<in> set (dict_get ?pruned w [])" using pruned_nodes [OF set] by blast
      from assign_shards_complete [OF this mp, of "[]"] show ?thesis by (simp add: add_merge_hosts_mem get0)
    next
      case False
      then obtain names where sh: "map_of (ss_shards s) n = Some names" and mn: "m = n" by auto
      with on shard_is_not_raw [OF set sh _ n] have "n \<in> set merge" "w = merge_host assigned s n" by (auto simp: node_on_def)
      then have "(m, w) \<in> set ?hosts" using mn by auto
      then show ?thesis by (simp only: add_merge_hosts_mem) simp
    qed
  qed
  ultimately show ?thesis using run by blast
qed

section \<open>The rewritten graph\<close>

lemma index_nodes_run:
  assumes "efold index_node nodes nm0 = Inr nm" and "distinct (dict_keys nm0)"
    and "\<forall>(n, node) \<in> set nm0. map_of node ''name'' = Some (PStr n)"
  shows "map snd nm = map snd nm0 @ nodes \<and> distinct (dict_keys nm) \<and> (\<forall>(n, node) \<in> set nm. map_of node ''name'' = Some (PStr n))"
  using assms
proof (induction nodes arbitrary: nm0)
  case (Cons node nodes)
  from Cons.prems(1) obtain nm1 where step: "index_node node nm0 = Inr nm1" and rest: "efold index_node nodes nm1 = Inr nm"
    by (auto simp: ebind_Inr_iff)
  from step obtain n where n: "node_name node = Inr n" "n \<notin> set (dict_keys nm0)" and nm1: "nm1 = nm0 @ [(n, node)]"
    by (auto simp: index_node_def ebind_Inr_iff split: if_splits)
  have "map_of node ''name'' = Some (PStr n)" using n(1) by (auto simp: node_name_def split: option.splits pyval.splits if_splits)
  with Cons.IH [OF rest] Cons.prems(2,3) n(2) show ?case by (auto simp: nm1)
qed simp

lemma index_nodes_facts:
  assumes "index_nodes nodes = Inr nm"
  shows "map snd nm = nodes" and "distinct (dict_keys nm)" and "map_of nm n = Some node \<Longrightarrow> map_of node ''name'' = Some (PStr n)"
    and "rewritten_names nodes = dict_keys nm"
proof -
  from assms index_nodes_run [of nodes "[]" nm]
  have f: "map snd nm = nodes" "distinct (dict_keys nm)" "\<forall>(n, node) \<in> set nm. map_of node ''name'' = Some (PStr n)"
    by (simp_all add: index_nodes_def)
  then show "map snd nm = nodes" "distinct (dict_keys nm)" by blast+
  show "map_of nm n = Some node \<Longrightarrow> map_of node ''name'' = Some (PStr n)" using f(3) by (auto dest: map_of_SomeD)
  have "rewritten_names (map snd nm) = dict_keys nm" using f(3) by (auto simp: rewritten_names_def)
  then show "rewritten_names nodes = dict_keys nm" by (simp only: f(1))
qed

lemma merge_required_facts:
  shows "set (merge_required_nodes nm shards outputs) \<subseteq> set (dict_keys shards)"
    and "distinct (merge_required_nodes nm shards outputs)"
    and "n \<in> set outputs \<Longrightarrow> n \<in> set (dict_keys shards) \<Longrightarrow> n \<in> set (merge_required_nodes nm shards outputs)"
    and "n \<in> set (dict_keys nm) \<Longrightarrow> n \<notin> set (dict_keys shards) \<Longrightarrow> d \<in> set (node_deps_of nm n) \<Longrightarrow> d \<in> set (dict_keys shards) \<Longrightarrow>
      d \<in> set (merge_required_nodes nm shards outputs)"
proof -
  let ?sh = "set (dict_keys shards)"
  let ?in = "\<lambda>req ds. foldl (\<lambda>req d. if d \<in> ?sh then set_add d req else req) req ds"
  let ?out = "\<lambda>req ns. foldl (\<lambda>req n. if n \<in> ?sh then req else ?in req (node_deps_of nm n)) req ns"
  have inner: "set (?in req ds) = set req \<union> (set ds \<inter> ?sh) \<and> (distinct req \<longrightarrow> distinct (?in req ds))" for req ds
    by (induction ds arbitrary: req) auto
  have outer: "set (?out req ns) = set req \<union> {d. \<exists>n \<in> set ns. n \<notin> ?sh \<and> d \<in> set (node_deps_of nm n) \<and> d \<in> ?sh} \<and>
      (distinct req \<longrightarrow> distinct (?out req ns))" for req ns
  proof (induction ns arbitrary: req)
    case (Cons n ns)
    show ?case using Cons.IH inner by (cases "n \<in> ?sh") (auto simp del: set_map)
  qed simp
  have eq: "merge_required_nodes nm shards outputs = ?out (filter (\<lambda>n. n \<in> ?sh) (dedupe_into [] outputs)) (dict_keys nm)"
    by (simp only: merge_required_nodes_def Let_def)
  have s: "set (merge_required_nodes nm shards outputs) = (set outputs \<inter> ?sh) \<union>
      {d. \<exists>n \<in> set (dict_keys nm). n \<notin> ?sh \<and> d \<in> set (node_deps_of nm n) \<and> d \<in> ?sh}"
    unfolding eq outer [THEN conjunct1] by (auto simp: set_dedupe_into)
  show "set (merge_required_nodes nm shards outputs) \<subseteq> ?sh" unfolding s by blast
  show "distinct (merge_required_nodes nm shards outputs)"
    unfolding eq by (rule outer [THEN conjunct2, rule_format]) (simp add: distinct_dedupe_into)
  show "n \<in> set outputs \<Longrightarrow> n \<in> ?sh \<Longrightarrow> n \<in> set (merge_required_nodes nm shards outputs)" unfolding s by blast
  show "n \<in> set (dict_keys nm) \<Longrightarrow> n \<notin> ?sh \<Longrightarrow> d \<in> set (node_deps_of nm n) \<Longrightarrow> d \<in> ?sh \<Longrightarrow>
      d \<in> set (merge_required_nodes nm shards outputs)" unfolding s by blast
qed

lemma out_names_cases:
  assumes set: "shard_setting nm assigned cands s" and m: "m \<in> set (out_names s merge n)" and n: "n \<in> set (dict_keys nm)"
  shows "m = n \<and> (map_of (ss_shards s) n = None \<or> n \<in> set merge) \<or>
    (\<exists>names i. map_of (ss_shards s) n = Some names \<and> i < length names \<and> m = names ! i \<and> m = shard_name n i \<and> m \<notin> set (dict_keys nm))"
proof (cases "map_of (ss_shards s) n")
  case None
  with m show ?thesis by (simp add: out_names_def)
next
  case (Some names)
  have nth: "names ! i = shard_name n i" if "i < length names" for i
    using setting_shards(2) [OF set Some] that by (metis add_0 nth_map_upt minus_nat.diff_0)
  from m Some consider "m \<in> set names" | "m = n" "n \<in> set merge" by (auto simp: out_names_def split: if_splits)
  then show ?thesis
  proof cases
    case 1
    then obtain i where i: "i < length names" "m = names ! i" by (auto simp: in_set_conv_nth)
    with shard_is_not_raw [OF set Some i(1), of m] nth [OF i(1)] Some show ?thesis by blast
  qed (simp add: Some)
qed

lemma out_names_unique:
  assumes set: "shard_setting nm assigned cands s" and "m \<in> set (out_names s merge n)" "m \<in> set (out_names s merge n')"
    and "n \<in> set (dict_keys nm)" "n' \<in> set (dict_keys nm)"
  shows "n = n'"
  using out_names_cases [OF set assms(2,4)] out_names_cases [OF set assms(3,5)] assms(4,5) shard_name_inject by metis

lemma distinct_out_names:
  assumes set: "shard_setting nm assigned cands s"
  shows "distinct (concat (map (out_names s merge) (dict_keys nm)))"
proof -
  have one: "distinct (out_names s merge n)" if n: "n \<in> set (dict_keys nm)" for n
  proof (cases "map_of (ss_shards s) n")
    case (Some names)
    have "distinct (map (shard_name n) [0..<length names])" by (simp add: distinct_map inj_on_def shard_name_inject)
    then have "distinct names" using setting_shards(2) [OF set Some] by simp
    moreover have "n \<notin> set names" using shard_is_not_raw [OF set Some _ n] by (auto simp: in_set_conv_nth)
    ultimately show ?thesis by (simp add: out_names_def Some)
  qed (simp add: out_names_def)
  have "distinct (concat (map (out_names s merge) ns))" if "distinct ns" "set ns \<subseteq> set (dict_keys nm)" for ns
    using that
  proof (induction ns)
    case (Cons n ns)
    have "m \<notin> set (out_names s merge k)" if "m \<in> set (out_names s merge n)" "k \<in> set ns" for m k
    proof
      assume "m \<in> set (out_names s merge k)"
      moreover have "n \<in> set (dict_keys nm)" "k \<in> set (dict_keys nm)" using Cons.prems(2) that(2) by auto
      ultimately have "n = k" using out_names_unique [OF set that(1)] by blast
      with Cons.prems(1) that(2) show False by simp
    qed
    then have "set (out_names s merge n) \<inter> set (concat (map (out_names s merge) ns)) = {}" by auto
    moreover from Cons have "distinct (concat (map (out_names s merge) ns))" by simp
    moreover from Cons.prems have "distinct (out_names s merge n)" using one by simp
    ultimately show ?case by (simp only: list.map concat.simps distinct_append)
  qed simp
  from this [OF setting_basic(1) [OF set]] show ?thesis by simp
qed

definition hint_deps :: "spec list \<Rightarrow> (string, string list) dict" where
  "hint_deps nodes = dict_of (zip (rewritten_names nodes) (map node_deps nodes))"

lemma hint_deps_node:
  assumes "distinct (rewritten_names nodes)"
  shows "d \<in> set (dict_get (hint_deps nodes) m []) \<longleftrightarrow> (\<exists>i < length nodes. rewritten_names nodes ! i = m \<and> d \<in> set (node_deps (nodes ! i)))"
proof -
  have len: "length (rewritten_names nodes) = length nodes" by (simp add: rewritten_names_def)
  then have id: "hint_deps nodes = zip (rewritten_names nodes) (map node_deps nodes)"
    unfolding hint_deps_def by (intro dict_of_distinct_id) (simp add: assms)
  have row: "map_of (hint_deps nodes) m = Some ds \<longleftrightarrow> (\<exists>i < length nodes. rewritten_names nodes ! i = m \<and> ds = node_deps (nodes ! i))" for ds
    unfolding id using len assms by (subst map_of_eq_Some_iff) (auto simp: in_set_zip)
  have get: "dict_get (hint_deps nodes) m [] = node_deps (nodes ! i)" if "i < length nodes" "rewritten_names nodes ! i = m" for i
  proof -
    have "map_of (hint_deps nodes) m = Some (node_deps (nodes ! i))" using row that by blast
    then show ?thesis by (simp add: dict_get_def)
  qed
  show ?thesis
  proof
    assume d: "d \<in> set (dict_get (hint_deps nodes) m [])"
    then obtain ds where "map_of (hint_deps nodes) m = Some ds" by (cases "map_of (hint_deps nodes) m") (auto simp: dict_get_def)
    then obtain i where "i < length nodes" "rewritten_names nodes ! i = m" using row by blast
    with d get show "\<exists>i < length nodes. rewritten_names nodes ! i = m \<and> d \<in> set (node_deps (nodes ! i))" by auto
  qed (use get in auto)
qed

text \<open>What a run of the rewriting consists of.\<close>

definition raw_edges :: "node_map \<Rightarrow> (string \<times> string) list" where
  "raw_edges nm = dep_edges (dict_keys nm) (node_deps_of nm)"

lemma rewrite_run:
  assumes nm: "index_nodes nodes = Inr nm" and closed: "closed_deps nm" and fresh: "no_shard_names nm"
    and workers: "distinct (dict_keys assigned)" and run: "rewrite_nodes_for_shard_intent nodes assigned outputs = Inr r"
    and cands: "collect_node_worker_candidates assigned (dict_keys nm) = Inr cands" and ex: "explicit_intent cands \<noteq> []"
  obtains s order parts where
    "shard_setting nm assigned cands s" and "distinct order" and "set order = set (dict_keys nm)" and "in_dep_order (raw_edges nm) order"
    and "emap (rewrite_node nm s (merge_required_nodes nm (ss_shards s) outputs)) (dict_keys nm) = Inr parts"
    and "sr_nodes r = concat (map fst parts)"
    and "rewrite_assignment (prune_assignment assigned (effective_workers cands s)) (ss_shards s) (effective_workers cands s)
           (merge_required_nodes nm (ss_shards s) outputs) = Inr (sr_assignment r)"
proof -
  from run nm cands ex have run: "rewrite_with_shards nm cands assigned outputs = Inr r"
    by (simp add: rewrite_nodes_for_shard_intent_def)
  from run obtain order where order: "shard_rewrite_order nm = Inr order"
    by (auto simp: rewrite_with_shards_def Let_def ebind_Inr_iff)
  from run order obtain s where s: "efold (shard_one nm (explicit_intent cands)) order \<lparr>ss_shards = [], ss_partitions = [], ss_candidates = cands\<rparr> = Inr s"
    by (auto simp: rewrite_with_shards_def Let_def ebind_Inr_iff)
  note rest = run [unfolded rewrite_with_shards_def Let_def order s ebind.simps]
  from rest obtain parts where parts: "emap (rewrite_node nm s (merge_required_nodes nm (ss_shards s) outputs)) (dict_keys nm) = Inr parts"
    by (auto simp: ebind_Inr_iff)
  from rest parts obtain a where a: "rewrite_assignment (prune_assignment assigned (effective_workers cands s)) (ss_shards s) (effective_workers cands s)
           (merge_required_nodes nm (ss_shards s) outputs) = Inr a" by (auto simp: ebind_Inr_iff)
  from rest parts a have r: "sr_nodes r = concat (map fst parts)" "sr_assignment r = a"
    by (auto split: if_splits)
  note dist = index_nodes_facts(2) [OF nm]
  note ord = heap_order_Inr [OF dist order [unfolded shard_rewrite_order_def]]
  note coll = cands [unfolded collect_node_worker_candidates_def]
  note ok = collect_workers_ok [OF workers]
  have valid: "\<forall>(w, ns) \<in> set assigned. distinct ns \<and> set ns \<subseteq> set (dict_keys nm)" "\<forall>n \<in> set (dict_keys nm). workers_of assigned n \<noteq> []"
    using ok(1) coll by blast+
  have c: "distinct (dict_keys cands)" "set (dict_keys cands) = set (dict_keys nm)" "\<forall>n. dict_get cands n [] = workers_of assigned n"
    using ok(2) [OF coll] by blast+
  have sub: "set order \<inter> set (dict_keys (explicit_intent cands)) = set (dict_keys (explicit_intent cands))"
  proof -
    have "set (dict_keys (explicit_intent cands)) \<subseteq> set (dict_keys cands)" by (auto simp: explicit_intent_def)
    then show ?thesis using ord(2) c(2) by blast
  qed
  have "plan_ok cands ({} \<union> (set order \<inter> set (dict_keys (explicit_intent cands)))) s"
    by (rule shard_all_plan [OF s plan_init ord(1) _ c(1)]) simp
  then have "plan_ok cands (set (dict_keys (explicit_intent cands))) s" by (simp only: sub Un_empty_left)
  then have set: "shard_setting nm assigned cands s"
    unfolding shard_setting_def
    using dist index_nodes_facts(3) [OF nm] closed fresh workers valid c by blast
  show thesis
    by (rule that [OF set ord(1,2) _ parts r(1)]) (use ord(3) a r(2) in \<open>simp_all add: raw_edges_def\<close>)
qed

lemma rewritten_graph:
  assumes set: "shard_setting nm assigned cands s" and merge: "merge = merge_required_nodes nm (ss_shards s) outputs"
    and parts: "emap (rewrite_node nm s merge) (dict_keys nm) = Inr parts"
  defines "nodes' \<equiv> concat (map fst parts)"
  shows "rewritten_names nodes' = concat (map (out_names s merge) (dict_keys nm))"
    and "node' \<in> set nodes' \<Longrightarrow> \<exists>n \<in> set (dict_keys nm). \<exists>m \<in> set (out_names s merge n).
           map_of node' ''name'' = Some (PStr m) \<and> node_origin nm s merge n m (node_deps node')"
proof -
  have named: "map_of nm n = Some node \<Longrightarrow> map_of node ''name'' = Some (PStr n)" for n node
    using set unfolding shard_setting_def by blast
  have "list_all2 (\<lambda>n p. rewrite_node nm s merge n = Inr p) (dict_keys nm) parts"
    using parts by (simp only: emap_list_all2)
  then have "list_all2 (\<lambda>n p. rewritten_names (fst p) = out_names s merge n) (dict_keys nm) parts"
    by (rule list_all2_mono) (metis named prod.collapse rewrite_node_run(1))
  then show "rewritten_names nodes' = concat (map (out_names s merge) (dict_keys nm))"
    unfolding nodes'_def by (induction rule: list_all2_induct) (simp_all add: rewritten_names_def)
  assume "node' \<in> set nodes'"
  then obtain p where p: "p \<in> set parts" "node' \<in> set (fst p)" by (auto simp: nodes'_def)
  from emap_mem_rev [OF parts p(1)] obtain n where n: "n \<in> set (dict_keys nm)" "rewrite_node nm s merge n = Inr (fst p, snd p)" by auto
  from rewrite_node_run(3) [OF n(2) named p(2)] n(1)
  show "\<exists>n \<in> set (dict_keys nm). \<exists>m \<in> set (out_names s merge n). map_of node' ''name'' = Some (PStr m) \<and> node_origin nm s merge n m (node_deps node')"
    by blast
qed

text \<open>A dependency of a rewritten node is a rewritten node, of an earlier raw node or a shard of the same one.\<close>

lemma origin_deps:
  assumes set: "shard_setting nm assigned cands s" and merge: "merge = merge_required_nodes nm (ss_shards s) outputs"
    and n: "n \<in> set (dict_keys nm)" and or: "node_origin nm s merge n m ds" and d: "d \<in> set ds"
  shows "\<exists>k \<in> set (dict_keys nm). d \<in> set (out_names s merge k) \<and> ((k, n) \<in> set (raw_edges nm) \<or> k = n \<and> m = n \<and> n \<in> set merge \<and> d \<notin> set (dict_keys nm))"
proof -
  have edge: "(k, n) \<in> set (raw_edges nm) \<and> k \<in> set (dict_keys nm)" if "k \<in> set (node_deps_of nm n)" for k
  proof -
    from setting_basic(4) [OF set] n that have "k \<in> set (dict_keys nm)" unfolding closed_deps_def by blast
    with that n show ?thesis by (auto simp: raw_edges_def dep_edges_def)
  qed
  show ?thesis
  proof (cases "map_of (ss_shards s) n")
    case None
    with or d have dn: "d \<in> set (node_deps_of nm n)" by (simp add: node_origin_def)
    have "d \<in> set (out_names s merge d)"
    proof (cases "map_of (ss_shards s) d")
      case (Some names)
      then have "d \<in> set (dict_keys (ss_shards s))" using map_of_SomeD by force
      moreover from None have "n \<notin> set (dict_keys (ss_shards s))" by (simp add: map_of_eq_None_iff)
      ultimately have "d \<in> set merge" unfolding merge using merge_required_facts(4) [OF n] dn by blast
      with Some show ?thesis by (simp add: out_names_def)
    qed (simp add: out_names_def)
    with edge [OF dn] show ?thesis by blast
  next
    case (Some names)
    with or consider (shard) i where "i < length names" "set ds = shard_dep (ss_shards s) i ` set (node_deps_of nm n)"
        "\<forall>d \<in> set (node_deps_of nm n). \<forall>ns. map_of (ss_shards s) d = Some ns \<longrightarrow> i < length ns"
      | (merged) "n \<in> set merge" "m = n" "ds = names"
      by (auto simp: node_origin_def)
    then show ?thesis
    proof cases
      case shard
      with d obtain k where k: "k \<in> set (node_deps_of nm n)" and dk: "d = shard_dep (ss_shards s) i k" by blast
      have "d \<in> set (out_names s merge k)"
        using shard(3) k by (cases "map_of (ss_shards s) k") (auto simp: dk shard_dep_def out_names_def)
      with edge [OF k] show ?thesis by blast
    next
      case merged
      with d Some have "d \<in> set (out_names s merge n)" by (simp add: out_names_def)
      moreover from d merged(3) obtain i where "i < length names" "d = names ! i" by (auto simp: in_set_conv_nth)
      with shard_is_not_raw [OF set Some, of i d] have "d \<notin> set (dict_keys nm)" by blast
      ultimately show ?thesis using n merged by blast
    qed
  qed
qed

lemma acyclic_rank:
  assumes "\<And>d m. (d, m) \<in> E \<Longrightarrow> f d < (f m :: nat)"
  shows "acyclic E"
proof -
  have "E \<subseteq> measure f" using assms by auto
  then show ?thesis by (meson acyclic_subset wf_acyclic wf_measure)
qed

lemma rewritten_acyclic:
  assumes set: "shard_setting nm assigned cands s" and merge: "merge = merge_required_nodes nm (ss_shards s) outputs"
    and parts: "emap (rewrite_node nm s merge) (dict_keys nm) = Inr parts" and nodes': "nodes' = concat (map fst parts)"
    and order: "distinct order" "set order = set (dict_keys nm)" "in_dep_order (raw_edges nm) order"
  shows "acyclic (set (dep_edges (rewritten_names nodes') (\<lambda>n. dict_get (hint_deps nodes') n [])))"
proof -
  note names = rewritten_graph(1) [OF set merge parts, folded nodes']
  note origin = rewritten_graph(2) [OF set merge parts, folded nodes']
  have dist: "distinct (rewritten_names nodes')" unfolding names by (rule distinct_out_names [OF set])
  define raw where "raw m = (SOME n. n \<in> set (dict_keys nm) \<and> m \<in> set (out_names s merge n))" for m
  have raw: "raw m = n" if "n \<in> set (dict_keys nm)" "m \<in> set (out_names s merge n)" for m n
    unfolding raw_def by (rule some_equality) (use that out_names_unique [OF set, of m merge] in blast)+
  show ?thesis
  proof (rule acyclic_rank [where f = "\<lambda>m. 2 * place order (raw m) + (if m \<in> set (dict_keys nm) \<and> m \<in> set merge then 1 else 0)"])
    fix d m
    assume "(d, m) \<in> set (dep_edges (rewritten_names nodes') (\<lambda>n. dict_get (hint_deps nodes') n []))"
    then have "d \<in> set (dict_get (hint_deps nodes') m [])" by (auto simp: dep_edges_def)
    then obtain i where i: "i < length nodes'" "rewritten_names nodes' ! i = m" "d \<in> set (node_deps (nodes' ! i))"
      using hint_deps_node [OF dist] by blast
    from origin [OF nth_mem [OF i(1)]] obtain n m' where n: "n \<in> set (dict_keys nm)" and m': "m' \<in> set (out_names s merge n)"
      "map_of (nodes' ! i) ''name'' = Some (PStr m')" and or: "node_origin nm s merge n m' (node_deps (nodes' ! i))" by blast
    have "m' = m" using i(1,2) m'(2) by (simp add: rewritten_names_def)
    with m' or have m: "m \<in> set (out_names s merge n)" and or: "node_origin nm s merge n m (node_deps (nodes' ! i))" by simp_all
    from origin_deps [OF set merge n or i(3)] obtain k where k: "k \<in> set (dict_keys nm)" "d \<in> set (out_names s merge k)"
      and c: "(k, n) \<in> set (raw_edges nm) \<or> k = n \<and> m = n \<and> n \<in> set merge \<and> d \<notin> set (dict_keys nm)" by blast
    from c show "2 * place order (raw d) + (if d \<in> set (dict_keys nm) \<and> d \<in> set merge then 1 else 0) <
        2 * place order (raw m) + (if m \<in> set (dict_keys nm) \<and> m \<in> set merge then 1 else 0)"
    proof
      assume e: "(k, n) \<in> set (raw_edges nm)"
      have "place order k < place order n"
        by (rule in_dep_order_place(2) [OF order(3,1) e]) (use n order(2) in blast)
      then show ?thesis by (simp add: raw [OF k] raw [OF n m])
    next
      assume "k = n \<and> m = n \<and> n \<in> set merge \<and> d \<notin> set (dict_keys nm)"
      then show ?thesis using n k raw [OF k] raw [OF n m] by simp
    qed
  qed
qed

definition one_worker_each :: "assignment \<Rightarrow> string list \<Rightarrow> bool" where
  "one_worker_each assigned names \<longleftrightarrow> (\<forall>n \<in> set names. \<exists>w. workers_of assigned n = [w])"

lemma node_on_single:
  assumes set: "shard_setting nm assigned cands s" and merge: "set merge \<subseteq> set (dict_keys (ss_shards s))"
    and n: "n \<in> set (dict_keys nm)" and m: "m \<in> set (out_names s merge n)"
  shows "\<exists>w. node_on assigned s merge w m n" and "node_on assigned s merge w m n' \<Longrightarrow> n' \<in> set (dict_keys nm) \<Longrightarrow> m \<in> set (out_names s merge n')"
    and "node_on assigned s merge w m n \<Longrightarrow> node_on assigned s merge w' m n \<Longrightarrow> w = w'"
proof -
  show "\<exists>w. node_on assigned s merge w m n"
    using out_names_cases [OF set m n] m by (cases "map_of (ss_shards s) n") (auto simp: node_on_def)
  show "node_on assigned s merge w m n' \<Longrightarrow> n' \<in> set (dict_keys nm) \<Longrightarrow> m \<in> set (out_names s merge n')"
    by (cases "map_of (ss_shards s) n'") (auto simp: node_on_def out_names_def)
  show "node_on assigned s merge w m n \<Longrightarrow> node_on assigned s merge w' m n \<Longrightarrow> w = w'"
  proof (cases "map_of (ss_shards s) n")
    case None
    assume "node_on assigned s merge w m n" "node_on assigned s merge w' m n"
    with None show ?thesis by (simp add: node_on_def)
  next
    case (Some names)
    have nth: "names ! i = shard_name n i" if "i < length names" for i
      using setting_shards(2) [OF set Some] that by (metis add_0 nth_map_upt minus_nat.diff_0)
    have ne: "names ! i \<noteq> n" if "i < length names" for i using shard_is_not_raw [OF set Some that n] .
    have on: "m = n \<and> u = merge_host assigned s n \<or> m \<noteq> n \<and> (\<exists>i. m = shard_name n i \<and> u = workers_of assigned n ! i)"
      if "node_on assigned s merge u m n" for u
      using that ne nth unfolding node_on_def Some option.case by metis
    assume "node_on assigned s merge w m n" "node_on assigned s merge w' m n"
    from on [OF this(1)] on [OF this(2)] show ?thesis using shard_name_inject by metis
  qed
qed

lemma schedule_hint_ok:
  assumes "distinct names" and "distinct (dict_keys a)" and "\<forall>w. distinct (dict_get a w []) \<and> set (dict_get a w []) \<subseteq> set names"
    and "\<forall>n \<in> set names. workers_of a n \<noteq> []" and "acyclic (set (dep_edges names (\<lambda>n. dict_get deps n [])))"
  shows "\<exists>order selected. build_flat_schedule_hint a names deps = Inr (order, selected) \<and> distinct order \<and> set order = set names \<and>
    in_dep_order (dep_edges names (\<lambda>n. dict_get deps n [])) order \<and> selected = map (\<lambda>n. (n, workers_of a n)) names"
proof -
  have valid: "\<forall>(w, ns) \<in> set a. distinct ns \<and> set ns \<subseteq> set names"
  proof (intro ballI, clarify)
    fix w ns
    assume "(w, ns) \<in> set a"
    then have "dict_get a w [] = ns" using assms(2) by (simp add: dict_get_def)
    then show "distinct ns \<and> set ns \<subseteq> set names" using assms(3) by metis
  qed
  let ?errs = "(''Invalid schedule hint: duplicate node found within worker assignment'',
              ''Invalid schedule hint: worker assignment references unknown node'')"
  let ?unc = "''Invalid internal schedule: worker assignment does not cover graph nodes''"
  from valid assms(4) collect_workers_ok(1) [OF assms(2), of ?errs ?unc names] obtain c where
    c: "collect_workers ?errs ?unc a names = Inr c" by blast
  from collect_workers_ok(2) [OF assms(2) c] have get: "\<And>n. dict_get c n [] = workers_of a n" by blast
  let ?key = "\<lambda>n. (order_index (dict_keys c) n, order_index names n, n)"
  let ?cycle = "(''Invalid schedule hint dependency graph: self dependency'', ''Invalid schedule hint dependency graph: cycle detected in flowmesh nodes'')"
  from heap_order_acyclic [OF assms(1,5), where errs = ?cycle and key = ?key] obtain order
    where o: "heap_order ?cycle ?key names (\<lambda>n. dict_get deps n []) = Inr order" by blast
  have "dict_of (map (\<lambda>n. (n, workers_of a n)) names) = map (\<lambda>n. (n, workers_of a n)) names"
    by (rule dict_of_distinct_id) (simp add: o_def assms(1))
  with c o get have "build_flat_schedule_hint a names deps = Inr (order, map (\<lambda>n. (n, workers_of a n)) names)"
    by (simp add: build_flat_schedule_hint_def)
  with heap_order_Inr [OF assms(1) o] show ?thesis by blast
qed

lemma unsharded_rewrite:
  assumes nm: "index_nodes nodes = Inr nm" and closed: "closed_deps nm" and workers: "distinct (dict_keys assigned)"
    and cands: "collect_node_worker_candidates assigned (dict_keys nm) = Inr cands" and ex: "explicit_intent cands = []"
  shows "\<forall>node \<in> set nodes. set (node_deps node) \<subseteq> set (dict_keys nm)" and "one_worker_each assigned (dict_keys nm)"
    and "set (dep_edges (dict_keys nm) (\<lambda>n. dict_get (hint_deps nodes) n [])) = set (raw_edges nm)"
    and "\<forall>w. distinct (dict_get assigned w []) \<and> set (dict_get assigned w []) \<subseteq> set (dict_keys nm)"
proof -
  note ok = collect_workers_ok [OF workers]
  note coll = cands [unfolded collect_node_worker_candidates_def]
  note facts = index_nodes_facts [OF nm]
  have deps: "node_deps node = node_deps_of nm n" if "(n, node) \<in> set nm" for n node
    using that facts(2) by (simp add: node_deps_of_def)
  show "\<forall>node \<in> set nodes. set (node_deps node) \<subseteq> set (dict_keys nm)"
  proof
    fix node
    assume "node \<in> set nodes"
    then obtain n where n: "(n, node) \<in> set nm" using facts(1) by force
    then have "n \<in> set (dict_keys nm)" by force
    with closed deps [OF n] show "set (node_deps node) \<subseteq> set (dict_keys nm)" unfolding closed_deps_def by metis
  qed
  show "\<forall>w. distinct (dict_get assigned w []) \<and> set (dict_get assigned w []) \<subseteq> set (dict_keys nm)"
  proof
    fix w
    have "\<forall>(w, ns) \<in> set assigned. distinct ns \<and> set ns \<subseteq> set (dict_keys nm)" using ok(1) coll by blast
    then show "distinct (dict_get assigned w []) \<and> set (dict_get assigned w []) \<subseteq> set (dict_keys nm)"
      by (cases "map_of assigned w") (auto simp: dict_get_def dest!: map_of_SomeD)
  qed
  show "one_worker_each assigned (dict_keys nm)"
    unfolding one_worker_each_def
  proof
    fix n
    assume n: "n \<in> set (dict_keys nm)"
    then have ne: "workers_of assigned n \<noteq> []" using ok(1) coll by blast
    from n ok(2) [OF coll] have "n \<in> set (dict_keys cands)" and get: "dict_get cands n [] = workers_of assigned n" by blast+
    then have "(n, workers_of assigned n) \<in> set cands"
      by (cases "map_of cands n") (auto simp: dict_get_def map_of_eq_None_iff dest: map_of_SomeD)
    with ex have "\<not> 1 < length (workers_of assigned n)" by (auto simp: explicit_intent_def filter_empty_conv)
    with ne show "\<exists>w. workers_of assigned n = [w]" by (cases "workers_of assigned n") auto
  qed
  have names: "rewritten_names nodes = dict_keys nm" by (rule facts(4))
  have hint: "hint_deps nodes = map (\<lambda>(n, node). (n, node_deps node)) nm"
  proof -
    have "zip (dict_keys nm) (map node_deps (map snd nm)) = map (\<lambda>(n, node). (n, node_deps node)) nm"
      by (induction nm) auto
    then have "hint_deps nodes = dict_of (map (\<lambda>(n, node). (n, node_deps node)) nm)" by (simp only: hint_deps_def names facts(1))
    also have "\<dots> = map (\<lambda>(n, node). (n, node_deps node)) nm"
      by (rule dict_of_distinct_id) (use facts(2) in \<open>simp add: o_def split_def\<close>)
    finally show ?thesis .
  qed
  have "dict_get (hint_deps nodes) n [] = node_deps_of nm n" for n
    unfolding hint by (induction nm) (auto simp: dict_get_def node_deps_of_def)
  then show "set (dep_edges (dict_keys nm) (\<lambda>n. dict_get (hint_deps nodes) n [])) = set (raw_edges nm)"
    by (simp add: raw_edges_def)
qed

lemma sharded_rewrite:
  assumes nm: "index_nodes nodes = Inr nm" and closed: "closed_deps nm" and fresh: "no_shard_names nm"
    and workers: "distinct (dict_keys assigned)" and run: "rewrite_nodes_for_shard_intent nodes assigned outputs = Inr r"
    and cands: "collect_node_worker_candidates assigned (dict_keys nm) = Inr cands" and ex: "explicit_intent cands \<noteq> []"
  shows "distinct (rewritten_names (sr_nodes r)) \<and> dict_keys (sr_assignment r) = dict_keys assigned \<and>
    (\<forall>node \<in> set (sr_nodes r). set (node_deps node) \<subseteq> set (rewritten_names (sr_nodes r))) \<and>
    set outputs \<inter> set (dict_keys nm) \<subseteq> set (rewritten_names (sr_nodes r)) \<and>
    acyclic (set (dep_edges (rewritten_names (sr_nodes r)) (\<lambda>n. dict_get (hint_deps (sr_nodes r)) n []))) \<and>
    (\<forall>w. distinct (dict_get (sr_assignment r) w []) \<and> set (dict_get (sr_assignment r) w []) \<subseteq> set (rewritten_names (sr_nodes r))) \<and>
    one_worker_each (sr_assignment r) (rewritten_names (sr_nodes r))"
proof -
  from assms obtain s order parts where set: "shard_setting nm assigned cands s" and order: "distinct order" "set order = set (dict_keys nm)"
      "in_dep_order (raw_edges nm) order"
    and parts: "emap (rewrite_node nm s (merge_required_nodes nm (ss_shards s) outputs)) (dict_keys nm) = Inr parts"
    and r: "sr_nodes r = concat (map fst parts)"
    and a: "rewrite_assignment (prune_assignment assigned (effective_workers cands s)) (ss_shards s) (effective_workers cands s)
           (merge_required_nodes nm (ss_shards s) outputs) = Inr (sr_assignment r)"
    by (rule rewrite_run)
  let ?merge = "merge_required_nodes nm (ss_shards s) outputs"
  note names = rewritten_graph(1) [OF set refl parts, folded r]
  note origin = rewritten_graph(2) [OF set refl parts, folded r]
  note msub = merge_required_facts(1) [of nm "ss_shards s" outputs]
  have dist: "distinct (rewritten_names (sr_nodes r))" unfolding names by (rule distinct_out_names [OF set])
  have mem: "m \<in> set (rewritten_names (sr_nodes r)) \<longleftrightarrow> (\<exists>n \<in> set (dict_keys nm). m \<in> set (out_names s ?merge n))" for m
    unfolding names by auto
  have deps: "set (node_deps node) \<subseteq> set (rewritten_names (sr_nodes r))" if node: "node \<in> set (sr_nodes r)" for node
  proof
    fix d
    assume d: "d \<in> set (node_deps node)"
    from origin [OF node] obtain n m where n: "n \<in> set (dict_keys nm)" and or: "node_origin nm s ?merge n m (node_deps node)" by blast
    from origin_deps [OF set refl n or d] show "d \<in> set (rewritten_names (sr_nodes r))" unfolding mem by blast
  qed
  have outs: "n \<in> set (rewritten_names (sr_nodes r))" if "n \<in> set outputs" "n \<in> set (dict_keys nm)" for n
  proof (cases "map_of (ss_shards s) n")
    case None
    then have "n \<in> set (out_names s ?merge n)" by (simp add: out_names_def)
    with that(2) show ?thesis unfolding mem by blast
  next
    case (Some ns)
    then have "n \<in> set (dict_keys (ss_shards s))" using map_of_SomeD by force
    with that(1) have "n \<in> set ?merge" by (rule merge_required_facts(3))
    with Some have "n \<in> set (out_names s ?merge n)" by (simp add: out_names_def)
    with that(2) show ?thesis unfolding mem by blast
  qed
  from rewrite_assignment_run [OF set merge_required_facts(2) msub] a
  have keys: "dict_keys (sr_assignment r) = dict_keys assigned" and ad: "\<And>w. distinct (dict_get (sr_assignment r) w [])"
    and am: "\<And>w m. m \<in> set (dict_get (sr_assignment r) w []) \<longleftrightarrow> (\<exists>n \<in> set (dict_keys nm). node_on assigned s ?merge w m n)" by auto
  have named: "m \<in> set (out_names s ?merge n)" if "node_on assigned s ?merge w m n" "n \<in> set (dict_keys nm)" for w m n
    using that by (cases "map_of (ss_shards s) n") (auto simp: node_on_def out_names_def)
  have one: "one_worker_each (sr_assignment r) (rewritten_names (sr_nodes r))"
    unfolding one_worker_each_def
  proof
    fix m
    assume "m \<in> set (rewritten_names (sr_nodes r))"
    then obtain n where n: "n \<in> set (dict_keys nm)" "m \<in> set (out_names s ?merge n)" unfolding mem by blast
    from node_on_single(1) [OF set msub n] obtain w where w: "node_on assigned s ?merge w m n" by blast
    have "m \<in> set (dict_get (sr_assignment r) w' []) \<longleftrightarrow> w' = w" for w'
    proof
      assume "m \<in> set (dict_get (sr_assignment r) w' [])"
      then obtain n' where n': "n' \<in> set (dict_keys nm)" "node_on assigned s ?merge w' m n'" unfolding am by blast
      from out_names_unique [OF set n(2) named [OF n'(2,1)] n(1) n'(1)] n'(2) have "node_on assigned s ?merge w' m n" by simp
      from node_on_single(3) [OF set msub n this w] show "w' = w" .
    qed (use w n(1) am in blast)
    then show "\<exists>w. workers_of (sr_assignment r) m = [w]"
      using workers_of_single [of "sr_assignment r" m w] setting_basic(2) [OF set] keys by auto
  qed
  have sub: "set (dict_get (sr_assignment r) w []) \<subseteq> set (rewritten_names (sr_nodes r))" for w
  proof
    fix m
    assume "m \<in> set (dict_get (sr_assignment r) w [])"
    then obtain n where "n \<in> set (dict_keys nm)" "node_on assigned s ?merge w m n" unfolding am by blast
    with named show "m \<in> set (rewritten_names (sr_nodes r))" unfolding mem by blast
  qed
  show ?thesis
    using dist keys deps outs rewritten_acyclic [OF set refl parts r order] ad sub one by blast
qed

section \<open>Sharding keeps the batch executable\<close>

lemma shard_rewrite_sound:
  assumes "index_nodes nodes = Inr nm" and "closed_deps nm" and "no_shard_names nm" and "distinct (dict_keys assigned)"
    and "rewrite_nodes_for_shard_intent nodes assigned outputs = Inr r"
  shows "distinct (rewritten_names (sr_nodes r)) \<and>
    (\<forall>node \<in> set (sr_nodes r). set (node_deps node) \<subseteq> set (rewritten_names (sr_nodes r))) \<and>
    set outputs \<inter> set (dict_keys nm) \<subseteq> set (rewritten_names (sr_nodes r)) \<and>
    one_worker_each (sr_assignment r) (rewritten_names (sr_nodes r)) \<and>
    (acyclic (set (raw_edges nm)) \<longrightarrow>
      (\<exists>order. build_flat_schedule_hint (sr_assignment r) (rewritten_names (sr_nodes r)) (hint_deps (sr_nodes r)) =
           Inr (order, map (\<lambda>n. (n, workers_of (sr_assignment r) n)) (rewritten_names (sr_nodes r))) \<and>
         distinct order \<and> set order = set (rewritten_names (sr_nodes r)) \<and>
         in_dep_order (dep_edges (rewritten_names (sr_nodes r)) (\<lambda>n. dict_get (hint_deps (sr_nodes r)) n [])) order))"
proof -
  let ?names = "rewritten_names (sr_nodes r)"
  let ?edges = "dep_edges ?names (\<lambda>n. dict_get (hint_deps (sr_nodes r)) n [])"
  from assms(1,5) obtain cands where cands: "collect_node_worker_candidates assigned (dict_keys nm) = Inr cands"
    by (auto simp: rewrite_nodes_for_shard_intent_def ebind_Inr_iff)
  have all: "distinct ?names \<and> dict_keys (sr_assignment r) = dict_keys assigned \<and>
      (\<forall>node \<in> set (sr_nodes r). set (node_deps node) \<subseteq> set ?names) \<and> set outputs \<inter> set (dict_keys nm) \<subseteq> set ?names \<and>
      (acyclic (set (raw_edges nm)) \<longrightarrow> acyclic (set ?edges)) \<and>
      (\<forall>w. distinct (dict_get (sr_assignment r) w []) \<and> set (dict_get (sr_assignment r) w []) \<subseteq> set ?names) \<and>
      one_worker_each (sr_assignment r) ?names"
  proof (cases "explicit_intent cands = []")
    case True
    with assms(1,5) cands have r: "sr_nodes r = nodes" "sr_assignment r = assigned"
      by (auto simp: rewrite_nodes_for_shard_intent_def index_nodes_facts(1))
    from unsharded_rewrite [OF assms(1,2,4) cands True] index_nodes_facts [OF assms(1)] show ?thesis
      by (simp add: r)
  next
    case False
    from sharded_rewrite [OF assms(1-5) cands False] show ?thesis by blast
  qed
  moreover have "\<forall>n \<in> set ?names. workers_of (sr_assignment r) n \<noteq> []" using all by (auto simp: one_worker_each_def)
  ultimately show ?thesis
    using schedule_hint_ok [of ?names "sr_assignment r" "hint_deps (sr_nodes r)"] assms(4) by (metis (no_types, lifting))
qed

text \<open>
  C10: Sharding keeps a batch executable. When the rewriting returns, the rewritten nodes have distinct
  names, every dependency of a rewritten node is a rewritten node, every output node is still
  there under its own name, and every node is given to exactly one worker. If the raw dependencies
  are acyclic, the schedule hint that is sent along exists: it lists every rewritten node once, each
  after the nodes it depends on, with that one worker. The nodes must depend on nodes of the batch
  only, which the export of a runtime graph ensures, and none may be called like a shard.
\<close>

theorem shard_rewrite_correct:
  assumes "index_nodes nodes = Inr nm" and "closed_deps nm" and "no_shard_names nm" and "distinct (dict_keys assigned)"
    and "rewrite_nodes_for_shard_intent nodes assigned outputs = Inr r"
  shows "distinct (rewritten_names (sr_nodes r)) \<and>
    (\<forall>node \<in> set (sr_nodes r). set (node_deps node) \<subseteq> set (rewritten_names (sr_nodes r))) \<and>
    set outputs \<inter> set (dict_keys nm) \<subseteq> set (rewritten_names (sr_nodes r)) \<and>
    one_worker_each (sr_assignment r) (rewritten_names (sr_nodes r)) \<and>
    (acyclic (set (raw_edges nm)) \<longrightarrow>
      (\<exists>order. build_flat_schedule_hint (sr_assignment r) (rewritten_names (sr_nodes r)) (hint_deps (sr_nodes r)) =
           Inr (order, map (\<lambda>n. (n, workers_of (sr_assignment r) n)) (rewritten_names (sr_nodes r))) \<and>
         distinct order \<and> set order = set (rewritten_names (sr_nodes r)) \<and>
         in_dep_order (dep_edges (rewritten_names (sr_nodes r)) (\<lambda>n. dict_get (hint_deps (sr_nodes r)) n [])) order))"
  using assms by (rule shard_rewrite_sound)

definition list_node :: "string \<Rightarrow> string list \<Rightarrow> int list \<Rightarrow> (string \<times> pyval) list \<Rightarrow> spec" where
  "list_node name deps items extra =
     [(''name'', PStr name), (''dependsOn'', pstrs deps),
      (''spec'', PDict [(''taskType'', PStr ''inference''), (''data'', PDict ([(''type'', PStr ''list''), (''items'', PList (map PInt items))] @ extra))])]"

definition shard_example :: "spec list" where
  "shard_example = [list_node ''a'' [] [1, 2, 3, 4] [],
     list_node ''b'' [''a''] [5, 6, 7, 8] [(''x'', PDict [(''node'', PStr ''a''), (''path'', PStr ''items.output'')])]]"

definition shard_example_map :: node_map where
  "shard_example_map = [(''a'', shard_example ! 0), (''b'', shard_example ! 1)]"

lemma shard_example_index:
  "index_nodes shard_example = Inr shard_example_map" "closed_deps shard_example_map" "no_shard_names shard_example_map"
proof -
  show "index_nodes shard_example = Inr shard_example_map" by code_simp
  show "closed_deps shard_example_map"
    by (simp add: closed_deps_def shard_example_map_def node_deps_of_def node_deps_def shard_example_def list_node_def str_items_def)
  have "length (shard_name m i) > 1" for m i by (simp add: shard_name_def)
  then have "[c] \<noteq> shard_name m i" for c m i by (metis One_nat_def length_Cons list.size(3) less_irrefl)
  then show "no_shard_names shard_example_map" by (simp add: no_shard_names_def shard_example_map_def)
qed

theorem shard_rewrite_correct_witness:
  "\<exists>r. rewrite_nodes_for_shard_intent shard_example [(''u'', [''a'', ''b'']), (''v'', [''a''])] [''b''] = Inr r \<and>
     one_worker_each (sr_assignment r) (rewritten_names (sr_nodes r)) \<and> ''b'' \<in> set (rewritten_names (sr_nodes r))"
proof -
  have "case rewrite_nodes_for_shard_intent shard_example [(''u'', [''a'', ''b'']), (''v'', [''a''])] [''b''] of Inl _ \<Rightarrow> False | Inr r \<Rightarrow> True"
    by code_simp
  then obtain r where r: "rewrite_nodes_for_shard_intent shard_example [(''u'', [''a'', ''b'']), (''v'', [''a''])] [''b''] = Inr r"
    by (cases "rewrite_nodes_for_shard_intent shard_example [(''u'', [''a'', ''b'']), (''v'', [''a''])] [''b'']") auto
  have "distinct (dict_keys [(''u'', [''a'', ''b'']), (''v'', [''a''])])" by simp
  from shard_rewrite_correct [OF shard_example_index this r] r show ?thesis by (auto simp: shard_example_map_def)
qed

text \<open>
  C19: The shards of a node share out its data without loss. The partitions of a total are contiguous,
  follow each other from zero to the total and differ in size by at most one; when every shard of a
  specification can be cut, each static list of the full length, at any depth inside dicts and lists, is
  the concatenation of the shards' lists in order, and each other static list has one item, which every
  shard keeps.
\<close>

theorem shard_slices_cover:
  assumes "1 \<le> tot" and "emap (\<lambda>(start, stop). slice_static_lists start stop tot data) (build_index_partitions tot shards) = Inr slices"
    and "static_at path data = Some xs"
  shows "tiles 0 tot (build_index_partitions tot shards) \<and>
    (\<forall>p \<in> set (build_index_partitions tot shards). \<forall>q \<in> set (build_index_partitions tot shards).
       snd p - fst p \<le> Suc (snd q - fst q)) \<and>
    (if length xs = tot then concat (map (\<lambda>d. the (static_at path d)) slices) = xs
     else length xs = 1 \<and> (\<forall>d \<in> set slices. static_at path d = Some xs))"
proof -
  note cover = slices_cover [OF assms(2,3,1)]
  have "snd p - fst p \<le> Suc (snd q - fst q)" if "p \<in> set (build_index_partitions tot shards)" "q \<in> set (build_index_partitions tot shards)" for p q
    using build_index_partitions_facts(3) [OF that(1)] build_index_partitions_facts(3) [OF that(2)] by auto
  moreover have "tiles 0 tot (build_index_partitions tot shards)"
    using build_index_partitions_facts(2) [of tot shards] assms(1) by (simp add: max_def)
  moreover have "\<forall>d \<in> set slices. static_at path d = Some xs" if "length xs \<noteq> tot"
    using cover(1) that by (auto simp: cut_list_def list_all2_conv_all_nth in_set_conv_nth split_def)
  ultimately show ?thesis using cover(2,3) by auto
qed

theorem shard_slices_cover_witness:
  "concat (map (\<lambda>d. the (static_at [Inl ''columns'', Inr 0, Inl ''data''] d))
     [PDict [(''columns'', PList [PDict [(''data'', PDict [(''type'', PStr ''list''), (''items'', PList [PInt 1, PInt 2])])]])],
      PDict [(''columns'', PList [PDict [(''data'', PDict [(''type'', PStr ''list''), (''items'', PList [PInt 3])])]])]]) =
   [PInt 1, PInt 2, PInt 3]"
proof -
  have "emap (\<lambda>(start, stop). slice_static_lists start stop 3
        (PDict [(''columns'', PList [PDict [(''data'', PDict [(''type'', PStr ''list''), (''items'', PList [PInt 1, PInt 2, PInt 3])])]])]))
      (build_index_partitions 3 2) =
    Inr [PDict [(''columns'', PList [PDict [(''data'', PDict [(''type'', PStr ''list''), (''items'', PList [PInt 1, PInt 2])])]])],
      PDict [(''columns'', PList [PDict [(''data'', PDict [(''type'', PStr ''list''), (''items'', PList [PInt 3])])]])]]" by code_simp
  from shard_slices_cover [OF _ this, of "[Inl ''columns'', Inr 0, Inl ''data'']" "[PInt 1, PInt 2, PInt 3]"] show ?thesis by simp
qed

text \<open>
  A node with its own static lists that reads a node with more shards loses data. Here \<open>a\<close> has
  four shards and \<open>b\<close> two workers and four items of its own: \<open>b\<close> gets two shards of two items, which
  read the first and the second shard of \<open>a\<close>, one item each; nothing reads the other two shards
  of \<open>a\<close>, and no error is raised.
\<close>

theorem shard_alignment_gap:
  "\<exists>r. rewrite_nodes_for_shard_intent shard_example
        [(''u'', [''a'', ''b'']), (''v'', [''a'', ''b'']), (''w'', [''a'']), (''x'', [''a''])] [''b''] = Inr r \<and>
     zip (rewritten_names (sr_nodes r)) (map node_deps (sr_nodes r)) =
       [(''a__shard_0'', []), (''a__shard_1'', []), (''a__shard_2'', []), (''a__shard_3'', []),
        (''b__shard_0'', [''a__shard_0'']), (''b__shard_1'', [''a__shard_1'']), (''b'', [''b__shard_0'', ''b__shard_1''])] \<and>
     static_at [Inl ''data''] (PDict (the (node_spec (sr_nodes r ! 0)))) = Some [PInt 1] \<and>
     static_at [Inl ''data''] (PDict (the (node_spec (sr_nodes r ! 4)))) = Some [PInt 5, PInt 6]"
proof -
  let ?run = "rewrite_nodes_for_shard_intent shard_example
        [(''u'', [''a'', ''b'']), (''v'', [''a'', ''b'']), (''w'', [''a'']), (''x'', [''a''])] [''b'']"
  have "case ?run of Inl _ \<Rightarrow> False | Inr r \<Rightarrow>
     zip (rewritten_names (sr_nodes r)) (map node_deps (sr_nodes r)) =
       [(''a__shard_0'', []), (''a__shard_1'', []), (''a__shard_2'', []), (''a__shard_3'', []),
        (''b__shard_0'', [''a__shard_0'']), (''b__shard_1'', [''a__shard_1'']), (''b'', [''b__shard_0'', ''b__shard_1''])] \<and>
     static_at [Inl ''data''] (PDict (the (node_spec (sr_nodes r ! 0)))) = Some [PInt 1] \<and>
     static_at [Inl ''data''] (PDict (the (node_spec (sr_nodes r ! 4)))) = Some [PInt 5, PInt 6]" by code_simp
  then show ?thesis by (cases ?run) auto
qed

end
