(* ===== verification/FlowTasks.thy ===== *)
theory FlowTasks
  imports Sharding JobQueue
begin

text \<open>
  Submitting a batch to FlowMesh and following it (\<open>runtime/runtime_manager/flowmesh.py\<close>): the task
  specification with its schedule hint, the tasks of the nodes, polling to the end, progress and
  the outputs. FlowMesh, the job storage and the JSON text are parameters; clocks are inputs; the
  asyncio lock makes every update of the task tables atomic.
\<close>

section \<open>Surroundings\<close>

text \<open>The defaults of the environment (\<open>envs\<close>).\<close>

record flow_env =
  fe_cpu :: int
  fe_memory :: string
  fe_gpu :: int
  fe_gpu_memory :: string
  fe_http_output :: bool
  fe_archive_prefix :: string
  fe_poll_timeout :: rat

definition resolve_cpu :: "flow_env \<Rightarrow> hardware_requirements option \<Rightarrow> int" where
  "resolve_cpu env hw = (case Option.bind hw hw_cpu of Some c \<Rightarrow> c | None \<Rightarrow> fe_cpu env)"

definition resolve_memory :: "flow_env \<Rightarrow> hardware_requirements option \<Rightarrow> string" where
  "resolve_memory env hw = (case Option.bind hw hw_memory of Some m \<Rightarrow> m | None \<Rightarrow> fe_memory env)"

definition resolve_gpu_count :: "flow_env \<Rightarrow> hardware_requirements option \<Rightarrow> int" where
  "resolve_gpu_count env hw = (case Option.bind hw hw_gpu of Some g \<Rightarrow> g | None \<Rightarrow> fe_gpu env)"

definition resolve_gpu_memory :: "flow_env \<Rightarrow> hardware_requirements option \<Rightarrow> string" where
  "resolve_gpu_memory env hw = (case Option.bind hw hw_gpu_memory of Some m \<Rightarrow> m | None \<Rightarrow> fe_gpu_memory env)"

definition runtime_output_destination :: "flow_env \<Rightarrow> pyval" where
  "runtime_output_destination env =
     (if fe_http_output env then PDict [(''type'', PStr ''http''), (''timeoutSec'', PInt 3600)]
      else PDict [(''type'', PStr ''local'')])"

section \<open>The task specification\<close>

definition runtime_op_requires_gpu :: "runtime_op \<Rightarrow> bool" where
  "runtime_op_requires_gpu op \<longleftrightarrow>
     str_lower (str_strip (op_backend op)) \<in> {''vllm'', ''transformers'', ''diffusers''} \<or>
     str_lower (str_strip (op_task_type op)) \<in> {''inference'', ''embedding'', ''diffusion''}"

text \<open>\<open>d.setdefault(k, {})\<close>, when the value is a dict.\<close>

definition dict_at :: "string \<Rightarrow> spec \<Rightarrow> spec option" where
  "dict_at k d = (case map_of d k of None \<Rightarrow> Some [] | Some (PDict v) \<Rightarrow> Some v | _ \<Rightarrow> None)"

text \<open>
  The hints are set when the three nested values are dicts. Where one of them is not, the ones
  above it were there already, so that the node stays as it is.
\<close>

definition set_hardware :: "flow_env \<Rightarrow> hardware_requirements option \<Rightarrow> spec \<Rightarrow> spec" where
  "set_hardware env hw node =
     (case dict_at ''spec'' node of
        None \<Rightarrow> node
      | Some s \<Rightarrow>
          (case dict_at ''resources'' s of
             None \<Rightarrow> node
           | Some r \<Rightarrow>
               (case dict_at ''hardware'' r of
                  None \<Rightarrow> node
                | Some h \<Rightarrow>
                    let h' = AList.update ''gpu'' (PDict [(''type'', PStr ''any''), (''count'', PInt (resolve_gpu_count env hw)),
                               (''memory'', PStr (resolve_gpu_memory env hw))])
                         (AList.update ''memory'' (PStr (resolve_memory env hw)) (AList.update ''cpu'' (PInt (resolve_cpu env hw)) h))
                    in AList.update ''spec'' (PDict (AList.update ''resources'' (PDict (AList.update ''hardware'' (PDict h') r)) s)) node)))"

definition apply_resource_hint :: "flow_env \<Rightarrow> runtime_graph \<Rightarrow> hardware_requirements option \<Rightarrow> spec \<Rightarrow> spec result" where
  "apply_resource_hint env g hw node =
     (case map_of node ''name'' of
        Some (PStr n) \<Rightarrow>
          (case map_of (rg_nodes g) n of
             None \<Rightarrow> Inr node
           | Some op \<Rightarrow>
               if \<not> runtime_op_requires_gpu op then Inr node
               else if resolve_gpu_count env hw \<le> 0 then Inl (ValueError ''runtime node requires a GPU worker'')
               else Inr (set_hardware env hw node))
      | _ \<Rightarrow> Inr node)"

definition apply_per_node_resource_hints ::
  "flow_env \<Rightarrow> runtime_graph \<Rightarrow> hardware_requirements option \<Rightarrow> spec list \<Rightarrow> spec list result" where
  "apply_per_node_resource_hints env g hw nodes = emap (apply_resource_hint env g hw) nodes"

definition output_node_indices :: "runtime_graph \<Rightarrow> (nat \<times> string) list" where
  "output_node_indices g =
     filter (\<lambda>(i, n). n \<in> set (dict_keys (rg_output_node_map g))) (zip [0..<length (rg_node_order g)] (rg_node_order g))"

definition task_metadata :: "string \<Rightarrow> (string list \<times> (string, string list) dict) option \<Rightarrow> pyval" where
  "task_metadata request_id hint =
     PDict [(''name'', PStr (''lumilake-'' @ request_id)), (''owner'', PStr ''lumilake''),
       (''annotations'', PDict ((''description'', PStr (''Lumilake logical plan execution for request '' @ request_id)) #
          (case hint of None \<Rightarrow> []
           | Some (order, selected) \<Rightarrow>
               [(''schedule_hint'', PDict ((''node_execution_order'', pstrs order) #
                  (if selected = [] then []
                   else [(''selected_worker'', PDict [(''selected'', PDict (map (\<lambda>(n, ws). (n, pstrs ws)) selected))])])))])))]"

definition task_document ::
  "flow_env \<Rightarrow> string \<Rightarrow> hardware_requirements option \<Rightarrow> spec list \<Rightarrow> (string list \<times> (string, string list) dict) option \<Rightarrow> spec" where
  "task_document env request_id hw nodes hint =
     [(''apiVersion'', PStr ''mloc/v1''), (''kind'', PStr ''InferenceTask''), (''metadata'', task_metadata request_id hint),
      (''spec'', PDict
        [(''taskType'', PStr ''inference''),
         (''resources'', PDict [(''replicas'', PInt 1),
            (''hardware'', PDict [(''cpu'', PInt (resolve_cpu env hw)), (''memory'', PStr (resolve_memory env hw))])]),
         (''graph'', PDict [(''nodes'', PList (map PDict nodes))]),
         (''output'', PDict [(''destination'', runtime_output_destination env),
            (''artifacts'', PList [PStr ''results.json'', PStr ''logs''])])])]"

record task_spec =
  tk_document :: spec
  tk_nodes :: "spec list"
  tk_hint :: "(string list \<times> (string, string list) dict) option"
  tk_outputs :: "(nat \<times> string) list"
  tk_to_raw :: "(string, string) dict"

text \<open>\<open>tk_nodes\<close> and \<open>tk_hint\<close> repeat two parts of the document.\<close>

definition build_task_spec ::
  "flow_env \<Rightarrow> string \<Rightarrow> hardware_requirements option \<Rightarrow> runtime_graph \<Rightarrow> assignment option \<Rightarrow> task_spec result" where
  "build_task_spec env request_id hw g schedule =
     ebind (to_flowmesh_nodes g) (\<lambda>exported.
     ebind (apply_per_node_resource_hints env g hw exported) (\<lambda>nodes.
     ebind (emap node_name nodes) (\<lambda>names.
       case schedule of
         None \<Rightarrow> Inr \<lparr>tk_document = task_document env request_id hw nodes None, tk_nodes = nodes, tk_hint = None,
                      tk_outputs = output_node_indices g, tk_to_raw = dict_of (map (\<lambda>n. (n, n)) names)\<rparr>
       | Some assigned \<Rightarrow>
           ebind (rewrite_nodes_for_shard_intent nodes assigned (map snd (output_node_indices g))) (\<lambda>r.
           ebind (emap node_name (sr_nodes r)) (\<lambda>node_names.
           ebind (build_flat_schedule_hint (sr_assignment r) node_names (hint_deps (sr_nodes r))) (\<lambda>hint.
             Inr \<lparr>tk_document = task_document env request_id hw (sr_nodes r) (Some hint), tk_nodes = sr_nodes r, tk_hint = Some hint,
                  tk_outputs = output_node_indices g, tk_to_raw = sr_to_raw r\<rparr>))))))"

section \<open>The tasks of the nodes\<close>

text \<open>\<open>describe\<close> is the \<open>graph_node_name\<close> of a task, when it is a string.\<close>

definition map_task ::
  "(string \<Rightarrow> string option result) \<Rightarrow> string list \<Rightarrow> string \<Rightarrow> (string, string) dict \<times> (string, string) dict \<Rightarrow>
   ((string, string) dict \<times> (string, string) dict) result" where
  "map_task describe names task s =
     (case describe task of
        Inl e \<Rightarrow> Inl (RuntimeError ''Failed to fetch FlowMesh task description'')
      | Inr None \<Rightarrow> Inl (RuntimeError ''FlowMesh task description missing valid graph_node_name'')
      | Inr (Some n) \<Rightarrow>
          if n \<notin> set names then Inl (RuntimeError ''FlowMesh task description missing valid graph_node_name'')
          else (case map_of (snd s) n of
              Some t \<Rightarrow>
                if t \<noteq> task then Inl (RuntimeError ''Duplicate FlowMesh graph_node_name in task descriptions'')
                else Inr (AList.update task n (fst s), AList.update n task (snd s))
            | None \<Rightarrow> Inr (AList.update task n (fst s), AList.update n task (snd s))))"

definition resolve_task_node_maps ::
  "(string \<Rightarrow> string option result) \<Rightarrow> string list \<Rightarrow> string list \<Rightarrow> ((string, string) dict \<times> (string, string) dict) result" where
  "resolve_task_node_maps describe tasks names =
     ebind (efold (map_task describe names) tasks ([], [])) (\<lambda>(task_to_node, node_to_task).
       if list_ex (\<lambda>t. t \<notin> set (dict_keys task_to_node)) tasks \<or> list_ex (\<lambda>n. n \<notin> set (dict_keys node_to_task)) names
       then Inl (RuntimeError ''Task/node map is incomplete'') else Inr (task_to_node, node_to_task))"

section \<open>Status\<close>

definition terminal_statuses :: "string list" where
  "terminal_statuses = [''DONE'', ''FAILED'']"

text \<open>
  One pass over the tasks that are not terminal. A fetch that raises ends the pass; the statuses
  fetched before it are kept.
\<close>

fun update_task_status :: "(string \<Rightarrow> string result) \<Rightarrow> (string, string) dict \<Rightarrow> bool result \<times> (string, string) dict" where
  "update_task_status fetch [] = (Inr True, [])"
| "update_task_status fetch ((t, status) # ts) =
     (if status \<in> set terminal_statuses
      then (case update_task_status fetch ts of (r, ts') \<Rightarrow> (r, (t, status) # ts'))
      else case fetch t of
          Inl e \<Rightarrow> (Inl e, (t, status) # ts)
        | Inr latest \<Rightarrow>
            (case update_task_status fetch ts of (r, ts') \<Rightarrow>
               (ebind r (\<lambda>completed. Inr (completed \<and> latest \<in> set terminal_statuses)), (t, latest) # ts')))"

record task_details =
  td_succeeded :: nat
  td_failed :: nat
  td_pending :: nat
  td_dispatched :: nat

definition formulate_details :: "(string, string) dict \<Rightarrow> task_details" where
  "formulate_details ts =
     \<lparr>td_succeeded = length (filter (\<lambda>s. s = ''DONE'') (dict_values ts)), td_failed = length (filter (\<lambda>s. s = ''FAILED'') (dict_values ts)),
      td_pending = length (filter (\<lambda>s. s = ''PENDING'') (dict_values ts)), td_dispatched = length (filter (\<lambda>s. s = ''DISPATCHED'') (dict_values ts))\<rparr>"

definition details_total :: "task_details \<Rightarrow> nat" where
  "details_total d = td_succeeded d + td_failed d + td_pending d + td_dispatched d"

datatype batch_status = BatchPending | BatchRunning | BatchCompleted | BatchFailed

record batch_metadata =
  bm_total_nodes :: int
  bm_output_nodes :: int
  bm_start_time :: "rat option"
  bm_end_time :: "rat option"
  bm_raw_nodes :: int
  bm_flowmesh_nodes :: int

definition no_metadata :: batch_metadata where
  "no_metadata = \<lparr>bm_total_nodes = 0, bm_output_nodes = 0, bm_start_time = None, bm_end_time = None, bm_raw_nodes = 0, bm_flowmesh_nodes = 0\<rparr>"

type_synonym batch_key = "string \<times> string"

record flow_manager =
  fm_schema_cache :: "(string, pyval) dict"
  fm_profile_status :: "(batch_key, (string, string) dict) dict"
  fm_execution_status :: "(batch_key, (string, string) dict) dict"
  fm_output_tasks :: "(batch_key, string list) dict"
  fm_task_node_map :: "(batch_key, (string, string) dict) dict"
  fm_batch_status :: "(batch_key, batch_status) dict"
  fm_batch_metadata :: "(batch_key, batch_metadata) dict"
  fm_workflow_id :: "(batch_key, string) dict"
  fm_cancelled :: "string list"
  fm_dispatch_tokens :: "(string, string option) dict"
  fm_submitted :: "spec list"

definition new_manager :: flow_manager where
  "new_manager = \<lparr>fm_schema_cache = [], fm_profile_status = [], fm_execution_status = [], fm_output_tasks = [], fm_task_node_map = [],
     fm_batch_status = [], fm_batch_metadata = [], fm_workflow_id = [], fm_cancelled = [], fm_dispatch_tokens = [],
     fm_submitted = []\<rparr>"

definition set_dispatch_token :: "string \<Rightarrow> string option \<Rightarrow> flow_manager \<Rightarrow> flow_manager" where
  "set_dispatch_token rid token m = m\<lparr>fm_dispatch_tokens := AList.update rid token (fm_dispatch_tokens m)\<rparr>"

definition get_dispatch_token :: "string \<Rightarrow> flow_manager \<Rightarrow> string option" where
  "get_dispatch_token rid m = dict_get (fm_dispatch_tokens m) rid None"

definition clear_dispatch_token :: "string \<Rightarrow> flow_manager \<Rightarrow> flow_manager" where
  "clear_dispatch_token rid m = m\<lparr>fm_dispatch_tokens := AList.delete rid (fm_dispatch_tokens m)\<rparr>"

definition mark_batch_pending :: "batch_key \<Rightarrow> int \<Rightarrow> int \<Rightarrow> flow_manager \<Rightarrow> flow_manager" where
  "mark_batch_pending key all_nodes outputs m =
     m\<lparr>fm_batch_status := AList.update key BatchPending (fm_batch_status m),
       fm_batch_metadata := AList.update key \<lparr>bm_total_nodes = all_nodes, bm_output_nodes = outputs, bm_start_time = None,
         bm_end_time = None, bm_raw_nodes = all_nodes, bm_flowmesh_nodes = all_nodes\<rparr> (fm_batch_metadata m)\<rparr>"

definition started :: "rat \<Rightarrow> batch_metadata \<Rightarrow> batch_metadata" where
  "started now d = d\<lparr>bm_start_time := Some (case bm_start_time d of None \<Rightarrow> now | Some t \<Rightarrow> t)\<rparr>"

definition ended :: "rat \<Rightarrow> batch_metadata \<Rightarrow> batch_metadata" where
  "ended now d = d\<lparr>bm_end_time := Some (case bm_end_time d of None \<Rightarrow> now | Some t \<Rightarrow> t)\<rparr>"

definition mark_batch_running :: "rat \<Rightarrow> batch_key \<Rightarrow> flow_manager \<Rightarrow> flow_manager" where
  "mark_batch_running now key m =
     m\<lparr>fm_batch_status := AList.update key BatchRunning (fm_batch_status m),
       fm_batch_metadata := AList.update key ((started now (dict_get (fm_batch_metadata m) key no_metadata))\<lparr>bm_end_time := None\<rparr>) (fm_batch_metadata m)\<rparr>"

definition mark_batch_completed :: "rat \<Rightarrow> batch_key \<Rightarrow> flow_manager \<Rightarrow> flow_manager" where
  "mark_batch_completed now key m =
     m\<lparr>fm_batch_status := AList.update key BatchCompleted (fm_batch_status m),
       fm_batch_metadata := AList.update key (ended now (started now (dict_get (fm_batch_metadata m) key no_metadata))) (fm_batch_metadata m)\<rparr>"

definition mark_batch_failed :: "rat \<Rightarrow> batch_key \<Rightarrow> flow_manager \<Rightarrow> flow_manager" where
  "mark_batch_failed now key m =
     m\<lparr>fm_batch_status := AList.update key BatchFailed (fm_batch_status m),
       fm_batch_metadata := AList.update key (ended now (started now (dict_get (fm_batch_metadata m) key no_metadata))) (fm_batch_metadata m)\<rparr>"

definition get_task_node_map :: "batch_key \<Rightarrow> flow_manager \<Rightarrow> (string, string) dict" where
  "get_task_node_map key m = dict_get (fm_task_node_map m) key []"

definition release_executions :: "string list \<Rightarrow> flow_manager \<Rightarrow> flow_manager" where
  "release_executions ids m = m\<lparr>fm_workflow_id := filter (\<lambda>(key, _). fst key \<notin> set ids) (fm_workflow_id m)\<rparr>"

text \<open>The workflows to cancel; an API error for one of them does not keep the others from being cancelled.\<close>

definition cancel_request :: "string \<Rightarrow> flow_manager \<Rightarrow> string list \<times> flow_manager" where
  "cancel_request rid m =
     (map snd (filter (\<lambda>(key, _). fst key = rid) (fm_workflow_id m)), m\<lparr>fm_cancelled := set_add rid (fm_cancelled m)\<rparr>)"

section \<open>Progress\<close>

text \<open>\<open>round(x, 1)\<close>: to one decimal, half to even.\<close>

definition round_half_even :: "rat \<Rightarrow> int" where
  "round_half_even x =
     (let n = floor x; d = x - of_int n in
      if d < 1 / 2 then n else if 1 / 2 < d then n + 1 else if even n then n else n + 1)"

definition round1 :: "rat \<Rightarrow> rat" where
  "round1 x = of_int (round_half_even (10 * x)) / 10"

record batch_info =
  bi_batch_id :: string
  bi_status :: batch_status
  bi_details :: "task_details option"
  bi_total :: int
  bi_elapsed :: "rat option"

record batch_progress =
  bp_completed :: nat
  bp_running :: nat
  bp_pending :: nat
  bp_failed :: nat
  bp_batches :: "batch_info list"
  bp_total_nodes :: int
  bp_completed_nodes :: int
  bp_percentage :: rat
  bp_raw_nodes :: int
  bp_flowmesh_nodes :: int
  bp_eta :: "rat option"

definition status_of_batch :: "flow_manager \<Rightarrow> batch_key \<Rightarrow> batch_status" where
  "status_of_batch m key = dict_get (fm_batch_status m) key BatchPending"

definition batch_elapsed :: "rat \<Rightarrow> flow_manager \<Rightarrow> batch_key \<Rightarrow> rat option" where
  "batch_elapsed now m key =
     (let d = dict_get (fm_batch_metadata m) key no_metadata in
      case bm_start_time d of
        None \<Rightarrow> None
      | Some t \<Rightarrow>
          let e = (case bm_end_time d of
              Some u \<Rightarrow> if status_of_batch m key \<in> {BatchCompleted, BatchFailed} then u - t else now - t
            | None \<Rightarrow> now - t)
          in Some (if e < 0 then 0 else e))"

definition batch_nodes :: "flow_manager \<Rightarrow> batch_key \<Rightarrow> int" where
  "batch_nodes m key =
     (case map_of (fm_execution_status m) key of
        Some ts \<Rightarrow> int (details_total (formulate_details ts))
      | None \<Rightarrow> max 0 (bm_flowmesh_nodes (dict_get (fm_batch_metadata m) key no_metadata)))"

definition batch_done_nodes :: "flow_manager \<Rightarrow> batch_key \<Rightarrow> int" where
  "batch_done_nodes m key =
     (case map_of (fm_execution_status m) key of
        Some ts \<Rightarrow> int (td_succeeded (formulate_details ts) + td_failed (formulate_details ts))
      | None \<Rightarrow> 0)"

definition count_status :: "flow_manager \<Rightarrow> batch_key list \<Rightarrow> batch_status \<Rightarrow> nat" where
  "count_status m keys st = length (filter (\<lambda>k. status_of_batch m k = st) keys)"

definition build_batch_progress :: "rat \<Rightarrow> flow_manager \<Rightarrow> batch_key list \<Rightarrow> batch_progress" where
  "build_batch_progress now m keys =
     (let meta = (\<lambda>k. dict_get (fm_batch_metadata m) k no_metadata);
          completed = count_status m keys BatchCompleted;
          running = count_status m keys BatchRunning;
          pending = count_status m keys BatchPending;
          all_nodes = sum_list (map (batch_nodes m) keys);
          done_nodes = sum_list (map (batch_done_nodes m) keys);
          spent = sum_list (map (\<lambda>k. case batch_elapsed now m k of None \<Rightarrow> 0 | Some e \<Rightarrow> e) (filter (\<lambda>k. status_of_batch m k = BatchCompleted) keys))
      in \<lparr>bp_completed = completed, bp_running = running, bp_pending = pending, bp_failed = count_status m keys BatchFailed,
          bp_batches = map (\<lambda>k. \<lparr>bi_batch_id = snd k, bi_status = status_of_batch m k,
             bi_details = map_option formulate_details (map_of (fm_execution_status m) k), bi_total = batch_nodes m k,
             bi_elapsed = map_option round1 (batch_elapsed now m k)\<rparr>) keys,
          bp_total_nodes = all_nodes, bp_completed_nodes = done_nodes,
          bp_percentage = (if 0 < all_nodes then round1 (of_int done_nodes / of_int all_nodes * 100) else 0),
          bp_raw_nodes = sum_list (map (\<lambda>k. max 0 (bm_raw_nodes (meta k))) keys),
          bp_flowmesh_nodes = sum_list (map (\<lambda>k. max 0 (bm_flowmesh_nodes (meta k))) keys),
          bp_eta = (if 0 < completed \<and> (0 < running \<or> 0 < pending)
            then Some (round1 (spent / of_nat completed * of_nat (running + pending))) else None)\<rparr>)"

record request_status =
  rs_probing :: "bool \<times> task_details option"
  rs_execution :: "(bool \<times> task_details) option"
  rs_outputs :: "(bool \<times> task_details) option"
  rs_progress :: batch_progress

definition request_keys :: "string \<Rightarrow> (batch_key, 'v) dict \<Rightarrow> batch_key list" where
  "request_keys rid d = filter (\<lambda>k. fst k = rid) (dict_keys d)"

text \<open>The tables of several batches in one dict; later batches overwrite.\<close>

definition merged_tables :: "(batch_key, (string, string) dict) dict \<Rightarrow> batch_key list \<Rightarrow> (string, string) dict result" where
  "merged_tables d keys =
     ebind (emap (dict_index d) keys) (\<lambda>ts. Inr (foldl (\<lambda>acc t. foldl (\<lambda>acc (k, v). AList.update k v acc) acc t) [] ts))"

definition output_task_status :: "flow_manager \<Rightarrow> batch_key list \<Rightarrow> (string, string) dict result" where
  "output_task_status m keys =
     ebind (emap (\<lambda>key. ebind (dict_index (fm_output_tasks m) key) (\<lambda>ts.
              ebind (dict_index (fm_execution_status m) key) (\<lambda>st.
                emap (\<lambda>t. ebind (dict_index st t) (\<lambda>s. Inr (t, s))) ts))) keys)
       (\<lambda>rows. Inr (dict_of (concat rows)))"

text \<open>\<open>None\<close> is the answer for an unknown request.\<close>

definition get_request_status ::
  "(string \<Rightarrow> string result) \<Rightarrow> rat \<Rightarrow> string \<Rightarrow> flow_manager \<Rightarrow> request_status option result" where
  "get_request_status fetch now rid m =
     (let profile = request_keys rid (fm_profile_status m);
          execution = request_keys rid (fm_output_tasks m);
          keys = sort_key snd (dedupe_into [] (profile @ execution @ request_keys rid (fm_batch_status m)))
      in if keys = [] then Inr None
         else
           ebind (if profile = [] then Inr (True, None)
                  else ebind (merged_tables (fm_profile_status m) profile) (\<lambda>ts.
                    case update_task_status fetch ts of (r, ts') \<Rightarrow> ebind r (\<lambda>b. Inr (b, Some (formulate_details ts'))))) (\<lambda>probing.
           ebind (if execution = [] then Inr None
                  else ebind (merged_tables (fm_execution_status m) execution) (\<lambda>ts.
                    case update_task_status fetch ts of (r, ts') \<Rightarrow> ebind r (\<lambda>b. Inr (Some (b, formulate_details ts'))))) (\<lambda>exec.
           ebind (if execution = [] then Inr None
                  else ebind (output_task_status m execution) (\<lambda>ts.
                    Inr (Some (list_all (\<lambda>s. s \<in> set terminal_statuses) (dict_values ts), formulate_details ts)))) (\<lambda>outputs.
             Inr (Some \<lparr>rs_probing = probing, rs_execution = exec, rs_outputs = outputs, rs_progress = build_batch_progress now m keys\<rparr>)))))"

section \<open>Polling\<close>

text \<open>
  One round of the loop sees the time elapsed, whether the request is cancelled, the statuses
  FlowMesh reports and the results it has. The sequence of rounds is an input.
\<close>

record poll =
  po_elapsed :: rat
  po_cancelled :: bool
  po_fetch :: "string \<Rightarrow> string result"
  po_result :: "string \<Rightarrow> pyval result"

record poll_state =
  ps_status :: "(string, string) dict"
  ps_downloaded :: "string list"

text \<open>Responses of tasks that are newly done are fetched and archived, in the order of the tasks.\<close>

fun download_new :: "(string \<Rightarrow> pyval result) \<Rightarrow> (string, string) dict \<Rightarrow> string list \<Rightarrow> poll_state \<Rightarrow> unit result \<times> poll_state" where
  "download_new results nodes [] s = (Inr (), s)"
| "download_new results nodes (t # ts) s =
     (case map_of (ps_status s) t of
        None \<Rightarrow> (Inl KeyError, s)
      | Some st \<Rightarrow>
          if st \<noteq> ''DONE'' \<or> t \<in> set (ps_downloaded s) then download_new results nodes ts s
          else if t \<notin> set (dict_keys nodes) then (Inl (RuntimeError ''Missing task->node mapping''), s)
          else case results t of
              Inl e \<Rightarrow> (Inl e, s)
            | Inr _ \<Rightarrow> download_new results nodes ts (s\<lparr>ps_downloaded := ps_downloaded s @ [t]\<rparr>))"

datatype round_end = GoOn | Stop | Fail py_error

definition poll_round :: "(string, string) dict \<Rightarrow> string list \<Rightarrow> poll \<Rightarrow> poll_state \<Rightarrow> round_end \<times> poll_state" where
  "poll_round nodes tasks p s =
     (if po_cancelled p then (Fail (RuntimeError ''RequestCancelledError''), s)
      else case update_task_status (po_fetch p) (ps_status s) of
          (Inl e, st) \<Rightarrow> (Fail e, s\<lparr>ps_status := st\<rparr>)
        | (Inr _, st) \<Rightarrow>
            (case download_new (po_result p) nodes tasks (s\<lparr>ps_status := st\<rparr>) of
               (Inl e, s') \<Rightarrow> (Fail e, s')
             | (Inr _, s') \<Rightarrow>
                 (if list_all (\<lambda>t. dict_get (ps_status s') t [] \<in> set terminal_statuses) tasks then Stop
                  else if ''FAILED'' \<in> set (dict_values (ps_status s')) then Fail (RuntimeError ''Task failed; aborting workflow'')
                  else GoOn, s')))"

text \<open>Every task of the batch counts as an output task. No further round: the loop is still going.\<close>

fun poll_loop :: "rat \<Rightarrow> (string, string) dict \<Rightarrow> string list \<Rightarrow> poll list \<Rightarrow> poll_state \<Rightarrow> unit result \<times> poll_state" where
  "poll_loop timeout nodes tasks [] s = (Inl Diverges, s)"
| "poll_loop timeout nodes tasks (p # ps) s =
     (if timeout \<le> po_elapsed p then (Inl (RuntimeError ''Timeout waiting for output nodes''), s)
      else case poll_round nodes tasks p s of
          (Fail e, s') \<Rightarrow> (Inl e, s')
        | (Stop, s') \<Rightarrow>
            (if list_ex (\<lambda>t. dict_get (ps_status s') t [] = ''FAILED'') tasks
             then Inl (RuntimeError ''Output task failed'') else Inr (), s')
        | (GoOn, s') \<Rightarrow> poll_loop timeout nodes tasks ps s')"

section \<open>Outputs\<close>

text \<open>JSON text, and archiving a file of a task under a name, which gives a uri or an error text.\<close>

record output_env =
  oe_loads :: "string \<Rightarrow> pyval option"
  oe_dumps :: "pyval \<Rightarrow> string"
  oe_archive :: "string \<Rightarrow> string \<Rightarrow> string \<Rightarrow> string + string"

fun walk_output_path :: "output_env \<Rightarrow> pyval \<Rightarrow> string list \<Rightarrow> pyval result" where
  "walk_output_path E v [] = Inr v"
| "walk_output_path E v (part # parts) =
     (case (case v of PStr s \<Rightarrow> oe_loads E s | _ \<Rightarrow> Some v) of
        None \<Rightarrow> Inl (RuntimeError ''output node cannot descend into non-JSON string'')
      | Some (PDict d) \<Rightarrow>
          (case map_of d part of
             None \<Rightarrow> Inl (RuntimeError ''output node item missing field'')
           | Some w \<Rightarrow> walk_output_path E w parts)
      | Some _ \<Rightarrow> Inl (RuntimeError ''output node item missing field''))"

definition coerce_output_value :: "output_env \<Rightarrow> pyval \<Rightarrow> string" where
  "coerce_output_value E v = (case v of PStr s \<Rightarrow> s | _ \<Rightarrow> oe_dumps E v)"

definition as_dicts :: "pyval list \<Rightarrow> spec list result" where
  "as_dicts vs = emap (\<lambda>v. case v of PDict d \<Rightarrow> Inr d | _ \<Rightarrow> Inl (TypeError ''not a dict'')) vs"

definition resolve_output_items :: "spec \<Rightarrow> spec list result" where
  "resolve_output_items results =
     (case map_of results ''items'' of
        Some (PList (v # vs)) \<Rightarrow> as_dicts (v # vs)
      | _ \<Rightarrow>
          (case map_of results ''embedding_file'' of
             Some (PDict f) \<Rightarrow>
               if py_truthy (dict_get f ''path'' PNone) then Inr [results] else Inl (RuntimeError ''output produced no items'')
           | _ \<Rightarrow> Inl (RuntimeError ''output produced no items'')))"

definition embedding_row_count :: "runtime_graph \<Rightarrow> string \<Rightarrow> nat option" where
  "embedding_row_count g n =
     (case map_of (rg_nodes g) n of
        None \<Rightarrow> None
      | Some op \<Rightarrow>
          if op_task_type op \<noteq> ''embedding'' then None
          else (case map_of (op_data_spec op) ''items'' of Some (PList xs) \<Rightarrow> Some (length xs) | _ \<Rightarrow> None))"

definition embedding_rows :: "spec \<Rightarrow> spec list result" where
  "embedding_rows item =
     (case map_of item ''usage'' of
        Some (PDict usage) \<Rightarrow>
          (case map_of usage ''num_requests'' of
             Some (PInt n) \<Rightarrow>
               if n < 1 then Inl (RuntimeError ''embedding output has invalid usage.num_requests'')
               else Inr (map (\<lambda>row. AList.update ''row'' (PInt (int row)) item) [0..<nat n])
           | _ \<Rightarrow> Inl (RuntimeError ''embedding output has invalid usage.num_requests''))
      | _ \<Rightarrow> Inl (RuntimeError ''embedding output item missing usage''))"

definition expand_embedding_rows :: "nat option \<Rightarrow> spec list \<Rightarrow> spec list result" where
  "expand_embedding_rows expected items =
     ebind (emap embedding_rows items) (\<lambda>rows.
       if expected \<noteq> None \<and> expected \<noteq> Some (length (concat rows)) then Inl (RuntimeError ''embedding output row count mismatch'')
       else Inr (concat rows))"

text \<open>The last component of a path; \<open>str\<close> of a name or path that is no string cannot occur here.\<close>

definition path_name :: "string \<Rightarrow> string" where
  "path_name p =
     (let parts = filter (\<lambda>x. x \<noteq> [] \<and> x \<noteq> ''.'') (str_split (CHR ''/'') p) in if parts = [] then [] else last parts)"

text \<open>What was archived for a path so far, and what failed.\<close>

type_synonym archive_memo = "(string, string) dict \<times> (string, string) dict"

definition archive_item ::
  "output_env \<Rightarrow> string \<Rightarrow> string \<Rightarrow> string \<Rightarrow> string list \<Rightarrow> spec \<Rightarrow> archive_memo \<Rightarrow> (spec \<times> archive_memo) result" where
  "archive_item E op_id task ref_key kept item memo =
     (case map_of item ref_key of
        Some (PDict ref) \<Rightarrow>
          (case dict_get ref ''path'' PNone of
             PStr path \<Rightarrow>
               if path = [] then Inl (RuntimeError ''item missing path'')
               else
                 let entry = (\<lambda>uri. (''output'', PStr uri) # map (\<lambda>f. (f, dict_get item f PNone)) kept);
                     failed = (\<lambda>e. [(''output'', PStr []), (''error'', PStr e)]) in
                 (case (map_of (snd memo) path, map_of (fst memo) path) of
                    (Some e, _) \<Rightarrow> Inr (failed e, memo)
                  | (None, Some uri) \<Rightarrow> Inr (entry uri, memo)
                  | (None, None) \<Rightarrow>
                      let raw = (case dict_get ref ''filename'' PNone of PStr f \<Rightarrow> if f = [] then path_name path else f | _ \<Rightarrow> path_name path) in
                      (case oe_archive E task path (op_id @ ''-'' @ path_name raw) of
                         Inl e \<Rightarrow> Inr (failed e, (fst memo, AList.update path e (snd memo)))
                       | Inr uri \<Rightarrow> Inr (entry uri, (AList.update path uri (fst memo), snd memo))))
           | _ \<Rightarrow> Inl (RuntimeError ''item missing path''))
      | _ \<Rightarrow> Inl (RuntimeError ''item missing reference''))"

fun archive_loop ::
  "output_env \<Rightarrow> string \<Rightarrow> string \<Rightarrow> string \<Rightarrow> string list \<Rightarrow> spec list \<Rightarrow> archive_memo \<Rightarrow> spec list result" where
  "archive_loop E op_id task ref_key kept [] memo = Inr []"
| "archive_loop E op_id task ref_key kept (it # its) memo =
     ebind (archive_item E op_id task ref_key kept it memo) (\<lambda>(entry, memo').
     ebind (archive_loop E op_id task ref_key kept its memo') (\<lambda>rest. Inr (entry # rest)))"

definition archive_artifact_items ::
  "flow_env \<Rightarrow> output_env \<Rightarrow> string \<Rightarrow> string \<Rightarrow> string \<Rightarrow> string list \<Rightarrow> spec list \<Rightarrow> spec list result" where
  "archive_artifact_items env E op_id task ref_key kept items =
     (if fe_archive_prefix env = [] then Inl (RuntimeError ''S3_ARCHIVE_PREFIX is required'')
      else archive_loop E op_id task ref_key kept items ([], []))"

definition has_dict :: "string \<Rightarrow> spec \<Rightarrow> bool" where
  "has_dict k item \<longleftrightarrow> (case map_of item k of Some (PDict _) \<Rightarrow> True | _ \<Rightarrow> False)"

definition output_path_parts :: "string option \<Rightarrow> string list result" where
  "output_path_parts path =
     (case path of
        None \<Rightarrow> Inr [''output'']
      | Some p \<Rightarrow>
          if \<not> starts_with ''items.'' p \<or> p = ''items.'' then Inl (RuntimeError ''OutputOp has malformed path'')
          else let parts = filter (\<lambda>x. x \<noteq> []) (str_split (CHR ''.'') (drop 6 p)) in
            if parts = [] then Inl (RuntimeError ''OutputOp has malformed path'') else Inr parts)"

definition aggregate_output_node ::
  "flow_env \<Rightarrow> output_env \<Rightarrow> string \<Rightarrow> string \<Rightarrow> spec list \<Rightarrow> string option \<Rightarrow> nat option \<Rightarrow> string list result" where
  "aggregate_output_node env E op_id task items path expected =
     ebind (if list_ex (has_dict ''image'') items
            then ebind (archive_artifact_items env E op_id task ''image'' [] items) (\<lambda>its. Inr (its, [''output'']))
            else if list_ex (has_dict ''embedding_file'') items
            then ebind (expand_embedding_rows expected items) (\<lambda>rows.
                 ebind (archive_artifact_items env E op_id task ''embedding_file'' [''model'', ''row''] rows) (\<lambda>its. Inr (its, [])))
            else ebind (output_path_parts path) (\<lambda>parts. Inr (items, parts)))
       (\<lambda>(its, parts). emap (\<lambda>it. ebind (walk_output_path E (PDict it) parts) (\<lambda>v. Inr (coerce_output_value E v))) its)"

text \<open>The chat history of an output: the prompt of each item with the answer appended.\<close>

definition item_prompt :: "spec \<Rightarrow> pyval list option" where
  "item_prompt item =
     (case map_of item ''metadata'' of
        Some (PDict md) \<Rightarrow> (case map_of md ''prompt'' of Some (PList p) \<Rightarrow> Some p | _ \<Rightarrow> None)
      | _ \<Rightarrow> None)"

definition output_prompts :: "spec list \<Rightarrow> string list \<Rightarrow> pyval list list" where
  "output_prompts items outputs =
     concat (map (\<lambda>(item, answer). case item_prompt item of
         None \<Rightarrow> []
       | Some p \<Rightarrow> [p @ [PDict [(''role'', PStr ''assistant''), (''content'', PStr answer)]]]) (zip items outputs))"

section \<open>Processing a batch\<close>

text \<open>FlowMesh's answers during one call, and whether the request is cancelled before the submission.\<close>

record flow_world =
  fw_cancelled :: bool
  fw_submit :: "spec \<Rightarrow> (string \<times> string list) result"
  fw_describe :: "string \<Rightarrow> string option result"
  fw_polls :: "poll list"
  fw_results :: "string \<Rightarrow> spec result"

text \<open>A document is sent to FlowMesh: the record of what was sent grows, whatever FlowMesh answers.\<close>

definition send_document :: "spec \<Rightarrow> flow_manager \<Rightarrow> flow_manager" where
  "send_document doc m = m\<lparr>fm_submitted := fm_submitted m @ [doc]\<rparr>"

definition set_workflow_id :: "batch_key \<Rightarrow> string \<Rightarrow> flow_manager \<Rightarrow> flow_manager" where
  "set_workflow_id key wid m = m\<lparr>fm_workflow_id := AList.update key wid (fm_workflow_id m)\<rparr>"

text \<open>The tables of the tasks are filled before the raw nodes are looked up.\<close>

definition register_tasks ::
  "batch_key \<Rightarrow> string list \<Rightarrow> (string, string) dict \<Rightarrow> (string, string) dict \<Rightarrow> int \<Rightarrow> int \<Rightarrow> (flow_manager, (string, string) dict) op" where
  "register_tasks key tasks task_nodes to_raw raw_count fm_count m =
     (let m1 = m\<lparr>fm_output_tasks := AList.update key (dedupe_into [] tasks) (fm_output_tasks m),
                 fm_execution_status := AList.update key (dict_of (map (\<lambda>t. (t, ''PENDING'')) tasks)) (fm_execution_status m)\<rparr>
      in case emap (\<lambda>(t, n). case map_of to_raw n of
             None \<Rightarrow> Inl (ValueError ''Missing raw-node mapping for FlowMesh node'') | Some r \<Rightarrow> Inr (t, r)) task_nodes of
           Inl e \<Rightarrow> (Inl e, m1)
         | Inr raw \<Rightarrow>
             (Inr raw, m1\<lparr>fm_task_node_map := AList.update key raw (fm_task_node_map m1),
                fm_batch_metadata := AList.update key ((dict_get (fm_batch_metadata m1) key no_metadata)
                  \<lparr>bm_raw_nodes := raw_count, bm_flowmesh_nodes := fm_count\<rparr>) (fm_batch_metadata m1)\<rparr>))"

definition poll_batch :: "rat \<Rightarrow> batch_key \<Rightarrow> (string, string) dict \<Rightarrow> string list \<Rightarrow> poll list \<Rightarrow> (flow_manager, unit) op" where
  "poll_batch timeout key nodes tasks polls m =
     (case poll_loop timeout nodes tasks polls \<lparr>ps_status = dict_get (fm_execution_status m) key [], ps_downloaded = []\<rparr> of
        (r, s) \<Rightarrow> (r, m\<lparr>fm_execution_status := AList.update key (ps_status s) (fm_execution_status m)\<rparr>))"

definition collect_output ::
  "flow_env \<Rightarrow> output_env \<Rightarrow> (string \<Rightarrow> spec result) \<Rightarrow> runtime_graph \<Rightarrow> (string, string) dict \<Rightarrow> string \<Rightarrow>
   (string \<times> string list \<times> pyval list list) result" where
  "collect_output env E results g node_tasks op_id =
     (case dict_get node_tasks op_id [] of
        [] \<Rightarrow> Inl (RuntimeError ''Failed to resolve output node task mapping'')
      | t # ts \<Rightarrow>
          ebind (results (t # ts)) (\<lambda>r.
          ebind (resolve_output_items r) (\<lambda>items.
          ebind (aggregate_output_node env E op_id (t # ts) items (map_of (rg_output_paths g) op_id) (embedding_row_count g op_id)) (\<lambda>outs.
            Inr (op_id, outs, output_prompts items outs)))))"

record batch_result =
  br_flat_outputs :: "(string, string list) dict"
  br_histories :: "(string, pyval list list) dict"
  br_task_node_map :: "(string, string) dict"

definition collect_outputs ::
  "flow_env \<Rightarrow> output_env \<Rightarrow> (string \<Rightarrow> spec result) \<Rightarrow> runtime_graph \<Rightarrow> (string, string) dict \<Rightarrow> string list \<Rightarrow>
   (string, string) dict \<Rightarrow> batch_result result" where
  "collect_outputs env E results g node_tasks op_ids raw =
     ebind (emap (collect_output env E results g node_tasks) op_ids) (\<lambda>rows.
       Inr \<lparr>br_flat_outputs = dict_of (map (\<lambda>(n, outs, _). (n, outs)) rows),
            br_histories = dict_of (map (\<lambda>(n, _, ps). (n, ps)) (filter (\<lambda>(n, _, ps). ps \<noteq> []) rows)),
            br_task_node_map = raw\<rparr>)"

definition submitted_names :: "spec list \<Rightarrow> string list" where
  "submitted_names nodes =
     concat (map (\<lambda>node. case map_of node ''name'' of Some (PStr s) \<Rightarrow> if s = [] then [] else [s] | _ \<Rightarrow> []) nodes)"

definition process_request ::
  "flow_env \<Rightarrow> output_env \<Rightarrow> flow_world \<Rightarrow> batch_key \<Rightarrow> hardware_requirements option \<Rightarrow> runtime_graph \<Rightarrow> assignment option \<Rightarrow>
   (string, pyval) dict \<Rightarrow> (flow_manager, batch_result) op" where
  "process_request env E w key hw g schedule profile m =
     (if fst key \<in> set (fm_cancelled m) then (Inl (RuntimeError ''RequestCancelledError''), m)
      else
        let m1 = m\<lparr>fm_schema_cache := foldl (\<lambda>d (k, v). AList.update k v d) (fm_schema_cache m) profile\<rparr> in
        case build_task_spec env (fst key) hw g schedule of
          Inl e \<Rightarrow> (Inl e, m1)
        | Inr spec \<Rightarrow>
            if fw_cancelled w then (Inl (RuntimeError ''RequestCancelledError''), m1)
            else let m2 = send_document (tk_document spec) m1 in
              case fw_submit w (tk_document spec) of
                Inl e \<Rightarrow> (Inl e, m2)
              | Inr (wid, tasks) \<Rightarrow>
                  (case resolve_task_node_maps (fw_describe w) tasks (submitted_names (tk_nodes spec)) of
                     Inl e \<Rightarrow> (Inl e, m2)
                   | Inr (task_nodes, node_tasks) \<Rightarrow>
                       then_op (register_tasks key tasks task_nodes (tk_to_raw spec)
                           (int (length (rg_node_order g))) (int (length (tk_nodes spec)))) (\<lambda>raw.
                       then_op (poll_batch (fe_poll_timeout env) key task_nodes tasks (fw_polls w)) (\<lambda>_.
                       pure_op (collect_outputs env E (fw_results w) g node_tasks (map snd (tk_outputs spec)) raw)))
                       (set_workflow_id key wid m2)))"

section \<open>The specification of a well-formed graph\<close>

definition export_deps :: "runtime_graph \<Rightarrow> runtime_op \<Rightarrow> string list" where
  "export_deps g op =
     (case flowmesh_deps op of Inl e \<Rightarrow> [] | Inr ds \<Rightarrow> filter (\<lambda>d. d \<in> set (dict_keys (rg_nodes g))) ds)"

text \<open>The edges that are exported: dependencies and condition nodes inside the graph.\<close>

definition export_edges :: "runtime_graph \<Rightarrow> (string \<times> string) list" where
  "export_edges g = [(d, n). (n, op) \<leftarrow> rg_nodes g, d \<leftarrow> export_deps g op]"

lemma filter_depends_on_name: "map_of (filter_depends_on valid node) ''name'' = map_of node ''name''"
  by (auto simp: filter_depends_on_def Let_def map_of_update delete_conv' split: option.splits pyval.splits)

lemma filter_depends_on_deps:
  assumes "map_of node ''dependsOn'' = (if deps = [] then None else Some (pstrs deps))"
  shows "node_deps (filter_depends_on valid node) = filter (\<lambda>d. d \<in> set valid) deps"
proof (cases "deps = []")
  case True
  with assms show ?thesis by (simp add: filter_depends_on_def node_deps_def str_items_def)
next
  case False
  with assms have d: "map_of node ''dependsOn'' = Some (pstrs deps)" by simp
  show ?thesis
  proof (cases "filter (\<lambda>d. d \<in> set valid) deps = []")
    case True
    have "node_deps (filter_depends_on valid node) = []"
      unfolding filter_depends_on_def d option.case pyval.case Let_def filter_pstrs True
      by (simp add: node_deps_def str_items_def delete_conv')
    then show ?thesis by (simp only: True)
  next
    case False
    then have "filter_depends_on valid node = AList.update ''dependsOn'' (pstrs (filter (\<lambda>d. d \<in> set valid) deps)) node"
      unfolding filter_depends_on_def d option.case pyval.case Let_def filter_pstrs by simp
    then show ?thesis by (simp only: node_deps_def map_of_update fun_upd_same str_items_pstrs)
  qed
qed

lemma set_hardware_keeps: "k \<noteq> ''spec'' \<Longrightarrow> map_of (set_hardware env hw node) k = map_of node k"
  by (simp add: set_hardware_def Let_def map_of_update split: option.splits)

definition exported_as :: "runtime_graph \<Rightarrow> string \<Rightarrow> spec \<Rightarrow> bool" where
  "exported_as g n node \<longleftrightarrow> map_of node ''name'' = Some (PStr n) \<and>
     (\<exists>op. map_of (rg_nodes g) n = Some op \<and> node_deps node = export_deps g op)"

lemma exported_nodes:
  assumes "rg_wf g" and "to_flowmesh_nodes g = Inr exported" and "apply_per_node_resource_hints env g hw exported = Inr nodes"
  shows "list_all2 (exported_as g) (rg_node_order g) nodes"
proof -
  have "list_all2 (exported_as g) (rg_node_order g) exported"
    using assms(2) unfolding to_flowmesh_nodes_def emap_list_all2
  proof (rule list_all2_mono)
    fix n node
    assume run: "ebind (dict_index (rg_nodes g) n) (\<lambda>op. ebind (to_flowmesh_node op)
      (\<lambda>node. Inr (filter_depends_on (dict_keys (rg_nodes g)) node))) = Inr node"
    from run obtain op where op: "map_of (rg_nodes g) n = Some op"
      by (simp only: ebind_Inr_iff dict_index_Inr_iff) blast
    from run op obtain raw where raw: "to_flowmesh_node op = Inr raw" and node: "node = filter_depends_on (dict_keys (rg_nodes g)) raw"
      by (cases "to_flowmesh_node op") (simp_all add: dict_index_def)
    from raw obtain deps where deps: "flowmesh_deps op = Inr deps"
      by (cases "flowmesh_deps op") (simp_all add: to_flowmesh_node_def)
    from assms(1) map_of_SomeD [OF op] have id: "op_node_id op = n" by (auto simp: rg_wf_def list_all_iff)
    note f = depends_on_to_flowmesh_node [OF raw deps]
    show "exported_as g n node"
      using op deps f(2) id filter_depends_on_deps [OF f(1)]
      by (simp add: exported_as_def node filter_depends_on_name export_deps_def)
  qed
  moreover have "list_all2 (\<lambda>node node'. apply_resource_hint env g hw node = Inr node') exported nodes"
    using assms(3) by (simp only: apply_per_node_resource_hints_def emap_list_all2)
  ultimately show ?thesis
  proof (rule list_all2_trans [rotated])
    fix n node node'
    assume e: "exported_as g n node" and h: "apply_resource_hint env g hw node = Inr node'"
    from e h have "node' = node \<or> node' = set_hardware env hw node"
      by (auto simp: exported_as_def apply_resource_hint_def split: if_splits)
    with e show "exported_as g n node'" by (auto simp: exported_as_def node_deps_def set_hardware_keeps)
  qed
qed

lemma rewritten_names_exported: "list_all2 (exported_as g) names nodes \<Longrightarrow> rewritten_names nodes = names"
  by (induction rule: list_all2_induct) (auto simp: rewritten_names_def exported_as_def)

lemma index_exported:
  assumes "list_all2 (exported_as g) names nodes" and "distinct names" and "[] \<notin> set names"
  shows "index_nodes nodes = Inr (zip names nodes)"
proof -
  have "efold index_node nodes nm = Inr (nm @ zip names nodes)" if "set (dict_keys nm) \<inter> set names = {}" for nm
    using assms that
  proof (induction arbitrary: nm rule: list_all2_induct)
    case (Cons n ns node nodes)
    then have "index_node node nm = Inr (nm @ [(n, node)])"
      by (auto simp: index_node_def node_name_def exported_as_def)
    moreover have "set (dict_keys (nm @ [(n, node)])) \<inter> set ns = {}" using Cons.prems by auto
    ultimately show ?case using Cons.IH [of "nm @ [(n, node)]"] Cons.prems by simp
  qed simp
  from this [of "[]"] show ?thesis by (simp add: index_nodes_def)
qed

definition plain_names :: "runtime_graph \<Rightarrow> bool" where
  "plain_names g \<longleftrightarrow> [] \<notin> set (rg_node_order g) \<and>
     (\<forall>n \<in> set (rg_node_order g). \<forall>m \<in> set (rg_node_order g). \<forall>i. n \<noteq> shard_name m i)"

lemma exported_map:
  assumes wf: "rg_wf g" and nodes: "list_all2 (exported_as g) (rg_node_order g) nodes" and plain: "plain_names g"
  defines "nm \<equiv> zip (rg_node_order g) nodes"
  shows "index_nodes nodes = Inr nm" and "dict_keys nm = rg_node_order g" and "closed_deps nm" and "no_shard_names nm"
    and "set (raw_edges nm) = set (export_edges g)"
proof -
  from wf have dist: "distinct (rg_node_order g)" and keys: "set (rg_node_order g) = set (dict_keys (rg_nodes g))"
    and rows: "distinct (dict_keys (rg_nodes g))" by (auto simp: rg_wf_def)
  show "index_nodes nodes = Inr nm"
    unfolding nm_def by (rule index_exported [OF nodes dist]) (use plain in \<open>simp add: plain_names_def\<close>)
  have len: "length (rg_node_order g) = length nodes" by (rule list_all2_lengthD [OF nodes])
  then show names: "dict_keys nm = rg_node_order g" by (simp add: nm_def)
  have deps: "\<exists>op. map_of (rg_nodes g) n = Some op \<and> node_deps_of nm n = export_deps g op" if n: "n \<in> set (rg_node_order g)" for n
  proof -
    from n obtain i where i: "i < length nodes" "rg_node_order g ! i = n" using len by (metis in_set_conv_nth)
    with len have "(n, nodes ! i) \<in> set nm" by (auto simp: nm_def in_set_zip)
    then have "map_of nm n = Some (nodes ! i)" using dist names by simp
    moreover from list_all2_nthD2 [OF nodes i(1)] i(2) have "exported_as g n (nodes ! i)" by simp
    ultimately show ?thesis by (auto simp: exported_as_def node_deps_of_def)
  qed
  have inside: "set (export_deps g op) \<subseteq> set (rg_node_order g)" for op
    by (cases "flowmesh_deps op") (auto simp: export_deps_def keys)
  show "closed_deps nm"
    unfolding closed_deps_def names using deps inside by metis
  show "no_shard_names nm" using plain by (simp add: no_shard_names_def names plain_names_def)
  show "set (raw_edges nm) = set (export_edges g)"
  proof (rule set_eqI, clarify)
    fix d n
    have "(d, n) \<in> set (raw_edges nm) \<longleftrightarrow> n \<in> set (rg_node_order g) \<and> d \<in> set (node_deps_of nm n) \<and> d \<in> set (rg_node_order g)"
      by (simp add: raw_edges_def dep_edges_def names)
    also have "\<dots> \<longleftrightarrow> (\<exists>op. (n, op) \<in> set (rg_nodes g) \<and> d \<in> set (export_deps g op))"
    proof
      assume "n \<in> set (rg_node_order g) \<and> d \<in> set (node_deps_of nm n) \<and> d \<in> set (rg_node_order g)"
      with deps [of n] show "\<exists>op. (n, op) \<in> set (rg_nodes g) \<and> d \<in> set (export_deps g op)" by (auto dest: map_of_SomeD)
    next
      assume "\<exists>op. (n, op) \<in> set (rg_nodes g) \<and> d \<in> set (export_deps g op)"
      then obtain op where op: "(n, op) \<in> set (rg_nodes g)" "d \<in> set (export_deps g op)" by blast
      then have "map_of (rg_nodes g) n = Some op" using rows by simp
      moreover have n: "n \<in> set (rg_node_order g)" using op(1) keys by force
      ultimately show "n \<in> set (rg_node_order g) \<and> d \<in> set (node_deps_of nm n) \<and> d \<in> set (rg_node_order g)"
        using deps [OF n] op(2) inside by auto
    qed
    also have "\<dots> \<longleftrightarrow> (d, n) \<in> set (export_edges g)" by (auto simp: export_edges_def)
    finally show "(d, n) \<in> set (raw_edges nm) \<longleftrightarrow> (d, n) \<in> set (export_edges g)" .
  qed
qed

lemma node_names_exist: "emap node_name nodes = Inr names \<Longrightarrow> rewritten_names nodes = names \<and> submitted_names nodes = names \<and> [] \<notin> set names"
proof (induction nodes arbitrary: names)
  case (Cons node nodes)
  from Cons.prems obtain n ns where n: "node_name node = Inr n" and ns: "emap node_name nodes = Inr ns" "names = n # ns"
    by (auto simp: ebind_Inr_iff)
  from n have "map_of node ''name'' = Some (PStr n) \<and> n \<noteq> []"
    by (auto simp: node_name_def split: option.splits pyval.splits if_splits)
  with Cons.IH [OF ns(1)] ns(2) show ?case by (auto simp add: rewritten_names_def submitted_names_def)
qed (simp add: rewritten_names_def submitted_names_def)

lemma build_task_spec_run:
  assumes wf: "rg_wf g" and fresh: "\<forall>n \<in> set (rg_node_order g). \<forall>m \<in> set (rg_node_order g). \<forall>i. n \<noteq> shard_name m i"
    and run: "build_task_spec env rid hw g (Some assigned) = Inr spec"
  obtains nodes nm r hint where
    "index_nodes nodes = Inr nm" "dict_keys nm = rg_node_order g" "closed_deps nm" "no_shard_names nm" "set (raw_edges nm) = set (export_edges g)"
    "rewrite_nodes_for_shard_intent nodes assigned (map snd (output_node_indices g)) = Inr r"
    "build_flat_schedule_hint (sr_assignment r) (rewritten_names (sr_nodes r)) (hint_deps (sr_nodes r)) = Inr hint"
    "tk_nodes spec = sr_nodes r" "tk_hint spec = Some hint" "submitted_names (tk_nodes spec) = rewritten_names (sr_nodes r)"
    "tk_outputs spec = output_node_indices g" "tk_document spec = task_document env rid hw (sr_nodes r) (Some hint)"
proof -
  from run obtain exported nodes names where e: "to_flowmesh_nodes g = Inr exported"
    and h: "apply_per_node_resource_hints env g hw exported = Inr nodes" and n: "emap node_name nodes = Inr names"
    by (auto simp: build_task_spec_def ebind_Inr_iff)
  note rest = run [unfolded build_task_spec_def e h n ebind.simps option.case]
  from rest obtain r where r: "rewrite_nodes_for_shard_intent nodes assigned (map snd (output_node_indices g)) = Inr r"
    by (auto simp: ebind_Inr_iff)
  from rest r obtain nn where nn: "emap node_name (sr_nodes r) = Inr nn" by (auto simp: ebind_Inr_iff)
  from rest r nn obtain hint where hint: "build_flat_schedule_hint (sr_assignment r) nn (hint_deps (sr_nodes r)) = Inr hint"
    by (auto simp: ebind_Inr_iff)
  from rest have spec: "tk_nodes spec = sr_nodes r" "tk_hint spec = Some hint" "tk_outputs spec = output_node_indices g"
      "tk_document spec = task_document env rid hw (sr_nodes r) (Some hint)"
    unfolding r nn hint ebind.simps by auto
  note ex = exported_nodes [OF wf e h]
  have "plain_names g"
    using node_names_exist [OF n] rewritten_names_exported [OF ex] fresh by (simp add: plain_names_def)
  note m = exported_map [OF wf ex this]
  note nn' = node_names_exist [OF nn]
  show thesis
    by (rule that [OF m r _ spec(1,2) _ spec(3,4)]) (use hint nn' spec(1) in auto)
qed

lemma output_indices_names: "n \<in> set (map snd (output_node_indices g)) \<longleftrightarrow> n \<in> set (rg_node_order g) \<and> n \<in> set (dict_keys (rg_output_node_map g))"
proof -
  have "map snd (output_node_indices g) = filter (\<lambda>n. n \<in> set (dict_keys (rg_output_node_map g))) (rg_node_order g)"
  proof -
    have "map snd (filter (\<lambda>(i, n). P n) (zip ks ns)) = filter P ns" if "length ks = length ns" for P and ks :: "nat list" and ns :: "string list"
      using that by (induction ks ns rule: list_induct2) auto
    then show ?thesis unfolding output_node_indices_def by simp
  qed
  then show ?thesis by (simp only: set_filter mem_Collect_eq)
qed

lemma build_task_spec_sound:
  assumes wf: "rg_wf g" and fresh: "\<forall>n \<in> set (rg_node_order g). \<forall>m \<in> set (rg_node_order g). \<forall>i. n \<noteq> shard_name m i"
    and acyclic: "acyclic (set (export_edges g))" and workers: "distinct (dict_keys assigned)"
    and run: "build_task_spec env rid hw g (Some assigned) = Inr spec"
  shows "\<exists>order selected. tk_hint spec = Some (order, selected) \<and>
    tk_document spec = task_document env rid hw (tk_nodes spec) (Some (order, selected)) \<and>
    distinct (submitted_names (tk_nodes spec)) \<and> distinct order \<and> set order = set (submitted_names (tk_nodes spec)) \<and>
    in_dep_order (dep_edges order (\<lambda>n. dict_get (hint_deps (tk_nodes spec)) n [])) order \<and>
    (\<forall>node \<in> set (tk_nodes spec). set (node_deps node) \<subseteq> set order) \<and>
    set (dict_keys (rg_output_node_map g)) \<subseteq> set order \<and>
    dict_keys selected = submitted_names (tk_nodes spec) \<and> (\<forall>(n, ws) \<in> set selected. length ws = 1)"
proof -
  from build_task_spec_run [OF wf fresh run] obtain nodes nm r hint where
    nm: "index_nodes nodes = Inr nm" and keys: "dict_keys nm = rg_node_order g" and c: "closed_deps nm" "no_shard_names nm"
    and edges: "set (raw_edges nm) = set (export_edges g)"
    and r: "rewrite_nodes_for_shard_intent nodes assigned (map snd (output_node_indices g)) = Inr r"
    and hint: "build_flat_schedule_hint (sr_assignment r) (rewritten_names (sr_nodes r)) (hint_deps (sr_nodes r)) = Inr hint"
    and spec: "tk_nodes spec = sr_nodes r" "tk_hint spec = Some hint" "submitted_names (tk_nodes spec) = rewritten_names (sr_nodes r)"
    "tk_document spec = task_document env rid hw (sr_nodes r) (Some hint)" .
  from shard_rewrite_sound [OF nm c workers r] acyclic edges hint obtain order where
    h: "hint = (order, map (\<lambda>n. (n, workers_of (sr_assignment r) n)) (rewritten_names (sr_nodes r)))"
    and dist: "distinct (rewritten_names (sr_nodes r))" and one: "one_worker_each (sr_assignment r) (rewritten_names (sr_nodes r))"
    and o: "distinct order" "set order = set (rewritten_names (sr_nodes r))"
      "in_dep_order (dep_edges (rewritten_names (sr_nodes r)) (\<lambda>n. dict_get (hint_deps (sr_nodes r)) n [])) order"
    and closed: "\<forall>node \<in> set (sr_nodes r). set (node_deps node) \<subseteq> set (rewritten_names (sr_nodes r))"
    and outs: "set (map snd (output_node_indices g)) \<inter> set (dict_keys nm) \<subseteq> set (rewritten_names (sr_nodes r))" by auto
  have "set (dep_edges (rewritten_names (sr_nodes r)) f) = set (dep_edges order f)" for f using o(2) by (auto simp: dep_edges_def)
  with o(3) have o3: "in_dep_order (dep_edges order (\<lambda>n. dict_get (hint_deps (sr_nodes r)) n [])) order"
    by (auto intro: in_dep_order_set_cong)
  have "set (dict_keys (rg_output_node_map g)) \<subseteq> set (rg_node_order g)" using wf by (auto simp: rg_wf_def)
  then have "set (dict_keys (rg_output_node_map g)) \<subseteq> set order"
    using outs output_indices_names [of _ g] unfolding keys o(2) by blast
  moreover have "\<forall>(n, ws) \<in> set (map (\<lambda>n. (n, workers_of (sr_assignment r) n)) (rewritten_names (sr_nodes r))). length ws = 1"
    using one by (auto simp: one_worker_each_def)
  ultimately show ?thesis
    using spec h dist o(1,2) o3 closed by (intro exI [of _ order] exI [of _ "map (\<lambda>n. (n, workers_of (sr_assignment r) n)) (rewritten_names (sr_nodes r))"])
      (simp add: o_def)
qed

text \<open>
  A schedule that gives every node to one worker needs no sharding and is accepted.
\<close>

lemma build_task_spec_accepts:
  assumes wf: "rg_wf g" and plain: "plain_names g" and acyclic: "acyclic (set (export_edges g))"
    and conds: "\<forall>(n, op) \<in> set (rg_nodes g). \<exists>ds. flowmesh_deps op = Inr ds"
    and gpu: "0 < resolve_gpu_count env hw \<or> (\<forall>(n, op) \<in> set (rg_nodes g). \<not> runtime_op_requires_gpu op)"
    and workers: "distinct (dict_keys assigned)" and lists: "\<forall>(w, ns) \<in> set assigned. distinct ns \<and> set ns \<subseteq> set (rg_node_order g)"
    and one: "one_worker_each assigned (rg_node_order g)"
  shows "\<exists>spec order. build_task_spec env rid hw g (Some assigned) = Inr spec \<and> submitted_names (tk_nodes spec) = rg_node_order g \<and>
    tk_to_raw spec = map (\<lambda>n. (n, n)) (rg_node_order g) \<and>
    tk_hint spec = Some (order, map (\<lambda>n. (n, workers_of assigned n)) (rg_node_order g)) \<and> distinct order \<and> set order = set (rg_node_order g) \<and>
    in_dep_order (export_edges g) order"
proof -
  have order: "distinct (rg_node_order g)" "set (rg_node_order g) = set (dict_keys (rg_nodes g))" using wf by (auto simp: rg_wf_def)
  have node: "\<exists>op. map_of (rg_nodes g) n = Some op \<and> (n, op) \<in> set (rg_nodes g)" if "n \<in> set (rg_node_order g)" for n
    using that order(2) by (metis map_of_SomeD map_of_eq_None_iff not_None_eq set_map)
  have "\<exists>exported. to_flowmesh_nodes g = Inr exported"
    unfolding to_flowmesh_nodes_def
  proof (rule emap_total)
    fix n
    assume "n \<in> set (rg_node_order g)"
    with node obtain op where op: "map_of (rg_nodes g) n = Some op" "(n, op) \<in> set (rg_nodes g)" by blast
    with conds obtain ds where "flowmesh_deps op = Inr ds" by blast
    with op show "\<exists>y. ebind (dict_index (rg_nodes g) n) (\<lambda>op. ebind (to_flowmesh_node op)
       (\<lambda>node. Inr (filter_depends_on (dict_keys (rg_nodes g)) node))) = Inr y"
      by (simp add: dict_index_def to_flowmesh_node_def Let_def)
  qed
  then obtain exported where e: "to_flowmesh_nodes g = Inr exported" by blast
  have "\<exists>nodes. apply_per_node_resource_hints env g hw exported = Inr nodes"
    unfolding apply_per_node_resource_hints_def
  proof (rule emap_total)
    fix node
    show "\<exists>y. apply_resource_hint env g hw node = Inr y"
      using gpu by (fastforce simp: apply_resource_hint_def split: option.splits pyval.splits dest: map_of_SomeD)
  qed
  then obtain nodes where h: "apply_per_node_resource_hints env g hw exported = Inr nodes" by blast
  note ex = exported_nodes [OF wf e h]
  note m = exported_map [OF wf ex plain]
  let ?nm = "zip (rg_node_order g) nodes"
  have names: "rewritten_names nodes = rg_node_order g" by (rule rewritten_names_exported [OF ex])
  have "emap node_name nodes = Inr (rg_node_order g)"
    using ex plain unfolding plain_names_def emap_list_all2 list_all2_conv_all_nth exported_as_def node_name_def
    by (auto simp: in_set_conv_nth list_all2_conv_all_nth)
  note nn = this
  have "collect_node_worker_candidates assigned (dict_keys ?nm) \<in> range Inr"
    unfolding collect_node_worker_candidates_def m(2)
    using collect_workers_ok(1) [OF workers] lists one by (fastforce simp: one_worker_each_def)
  then obtain cands where cands: "collect_node_worker_candidates assigned (dict_keys ?nm) = Inr cands" by blast
  have "explicit_intent cands = []"
  proof -
    note ok = collect_workers_ok(2) [OF workers cands [unfolded collect_node_worker_candidates_def]]
    have "length ws \<le> 1" if c: "(n, ws) \<in> set cands" for n ws
    proof -
      from c ok have "dict_get cands n [] = ws" by (simp add: dict_get_def)
      with ok have ws: "ws = workers_of assigned n" by simp
      from c have "n \<in> set (dict_keys cands)" by force
      with ok one m(2) show ?thesis unfolding ws one_worker_each_def by auto
    qed
    then have "\<not> 1 < length ws" if "(n, ws) \<in> set cands" for n ws using that by (metis not_less)
    then show ?thesis by (auto simp: explicit_intent_def filter_empty_conv)
  qed
  with m(1) cands have r: "rewrite_nodes_for_shard_intent nodes assigned outs =
      Inr \<lparr>sr_nodes = nodes, sr_assignment = assigned, sr_to_raw = map (\<lambda>n. (n, n)) (rg_node_order g)\<rparr>" for outs
    using list_all2_lengthD [OF ex] by (simp add: rewrite_nodes_for_shard_intent_def m(2))
  note sound = shard_rewrite_sound [OF m(1,3,4) workers r [of "[]"], unfolded shard_result.simps names m(5), THEN conjunct2, THEN conjunct2, THEN conjunct2, THEN conjunct2, rule_format, OF acyclic]
  then obtain ord where
    ord: "build_flat_schedule_hint assigned (rg_node_order g) (hint_deps nodes) = Inr (ord, map (\<lambda>n. (n, workers_of assigned n)) (rg_node_order g))"
      "distinct ord" "set ord = set (rg_node_order g)"
      "in_dep_order (dep_edges (rg_node_order g) (\<lambda>n. dict_get (hint_deps nodes) n [])) ord" by blast
  have "set (dep_edges (rg_node_order g) (\<lambda>n. dict_get (hint_deps nodes) n [])) = set (export_edges g)"
    using unsharded_rewrite(3) [OF m(1,3) workers cands \<open>explicit_intent cands = []\<close>] by (simp only: m(2,5))
  with ord(4) have "in_dep_order (export_edges g) ord" by (auto intro: in_dep_order_set_cong)
  with ord nn show ?thesis
    unfolding build_task_spec_def e h nn ebind.simps r option.case shard_result.simps
    by (simp add: node_names_exist [OF nn])
qed

section \<open>The tasks and the nodes\<close>

definition inverse_tables :: "(string \<Rightarrow> string option result) \<Rightarrow> (string, string) dict \<times> (string, string) dict \<Rightarrow> bool" where
  "inverse_tables describe s \<longleftrightarrow>
     (\<forall>t n. map_of (fst s) t = Some n \<longleftrightarrow> map_of (snd s) n = Some t) \<and>
     (\<forall>t n. map_of (fst s) t = Some n \<longrightarrow> describe t = Inr (Some n))"

lemma map_task_inverse:
  assumes "map_task describe names t s = Inr s'" and "inverse_tables describe s"
  shows "inverse_tables describe s' \<and> (\<exists>n \<in> set names. describe t = Inr (Some n) \<and> map_of (fst s') t = Some n) \<and>
    dom (map_of (fst s')) = insert t (dom (map_of (fst s)))"
proof -
  from assms(1) obtain n where n: "describe t = Inr (Some n)" "n \<in> set names"
    by (auto simp: map_task_def split: sum.splits option.splits if_splits)
  show ?thesis
  proof (cases "map_of (snd s) n")
    case (Some u)
    with assms(1) n have u: "u = t" and s': "s' = (AList.update t n (fst s), AList.update n t (snd s))"
      by (auto simp: map_task_def split: if_splits)
    from Some u assms(2) have t: "map_of (fst s) t = Some n" by (simp add: inverse_tables_def)
    have "map_of (fst s') = map_of (fst s)" "map_of (snd s') = map_of (snd s)"
      using t Some u by (auto simp: s' map_of_update)
    with assms(2) n t show ?thesis by (auto simp: inverse_tables_def)
  next
    case None
    with assms(1) n have s': "s' = (AList.update t n (fst s), AList.update n t (snd s))" by (simp add: map_task_def)
    have fresh: "map_of (fst s) t = None"
    proof (cases "map_of (fst s) t")
      case (Some n')
      with assms(2) n have "n' = n" by (auto simp: inverse_tables_def)
      with Some assms(2) None show ?thesis by (auto simp: inverse_tables_def)
    qed simp
    show ?thesis using assms(2) n fresh None by (auto simp: inverse_tables_def s' map_of_update)
  qed
qed

lemma map_tasks_inverse:
  assumes "efold (map_task describe names) tasks s = Inr s'" and "inverse_tables describe s"
  shows "inverse_tables describe s' \<and> dom (map_of (fst s')) = dom (map_of (fst s)) \<union> set tasks \<and>
    (\<forall>t \<in> set tasks. \<exists>n \<in> set names. describe t = Inr (Some n))"
  using assms
proof (induction tasks arbitrary: s)
  case (Cons t tasks)
  from Cons.prems(1) obtain u where u: "map_task describe names t s = Inr u" "efold (map_task describe names) tasks u = Inr s'"
    by (auto simp: ebind_Inr_iff)
  from map_task_inverse [OF u(1) Cons.prems(2)] Cons.IH [OF u(2)] show ?case by auto
qed simp

text \<open>
  When the tasks of a submission are matched to its nodes, the two tables are inverse to each other:
  they cover exactly the tasks and all the nodes, every task belongs to the node that FlowMesh named
  for it, and no two tasks share a node.
\<close>

theorem resolve_task_node_maps_correct:
  assumes "resolve_task_node_maps describe tasks names = Inr (task_to_node, node_to_task)"
  shows "(\<forall>t n. map_of task_to_node t = Some n \<longleftrightarrow> map_of node_to_task n = Some t) \<and>
    dom (map_of task_to_node) = set tasks \<and> dom (map_of node_to_task) = set names \<and>
    (\<forall>t \<in> set tasks. \<exists>n. describe t = Inr (Some n) \<and> map_of task_to_node t = Some n)"
proof -
  from assms have run: "efold (map_task describe names) tasks ([], []) = Inr (task_to_node, node_to_task)"
    and all: "\<forall>n \<in> set names. n \<in> set (dict_keys node_to_task)"
    by (auto simp: resolve_task_node_maps_def ebind_Inr_iff list_ex_iff split: if_splits prod.splits)
  have "inverse_tables describe ([], [])" by (simp add: inverse_tables_def)
  from map_tasks_inverse [OF run this] have inv: "\<forall>t n. map_of task_to_node t = Some n \<longleftrightarrow> map_of node_to_task n = Some t"
    and desc: "\<forall>t n. map_of task_to_node t = Some n \<longrightarrow> describe t = Inr (Some n)"
    and dom: "dom (map_of task_to_node) = set tasks" and named: "\<forall>t \<in> set tasks. \<exists>n \<in> set names. describe t = Inr (Some n)"
    by (auto simp: inverse_tables_def)
  have "dom (map_of node_to_task) = set names"
  proof
    show "set names \<subseteq> dom (map_of node_to_task)" using all by (auto simp: dom_map_of_conv_image_fst)
    show "dom (map_of node_to_task) \<subseteq> set names"
    proof
      fix n
      assume "n \<in> dom (map_of node_to_task)"
      then obtain t where t: "map_of task_to_node t = Some n" using inv by blast
      with dom have "t \<in> set tasks" by blast
      with named obtain n' where "n' \<in> set names" "describe t = Inr (Some n')" by blast
      with desc t show "n \<in> set names" by simp
    qed
  qed
  moreover have "\<exists>n. describe t = Inr (Some n) \<and> map_of task_to_node t = Some n" if "t \<in> set tasks" for t
    using that dom desc by blast
  ultimately show ?thesis using inv dom by blast
qed

theorem resolve_task_node_maps_correct_witness:
  "map_of [(''n'', ''t'')] ''n'' = Some ''t'' \<and> dom (map_of [(''t'', ''n'')]) = {''t''}"
  using resolve_task_node_maps_correct [of "\<lambda>t. Inr (Some ''n'')" "[''t'']" "[''n'']" "[(''t'', ''n'')]" "[(''n'', ''t'')]"]
  by (simp add: resolve_task_node_maps_def map_task_def)

section \<open>Polling to the end\<close>

lemma update_task_status_facts:
  shows "dict_keys (snd (update_task_status fetch ts)) = dict_keys ts"
    and "distinct (dict_keys ts) \<Longrightarrow> map_of ts t = Some st \<Longrightarrow> st \<in> set terminal_statuses \<Longrightarrow>
      map_of (snd (update_task_status fetch ts)) t = Some st"
    and "fst (update_task_status fetch ts) = Inl e \<Longrightarrow> \<exists>t \<in> set (dict_keys ts). fetch t = Inl e"
proof (induction fetch ts rule: update_task_status.induct)
  case (2 fetch u status ts)
  obtain r ts' where u: "update_task_status fetch ts = (r, ts')" by (cases "update_task_status fetch ts") auto
  { case 1
    show ?case using "2.IH"(1,4) u by (cases "status \<in> set terminal_statuses"; cases "fetch u") auto
  next
    case 2
    then show ?case using "2.IH"(2,5) u by (cases "status \<in> set terminal_statuses"; cases "fetch u") (auto split: if_splits)
  next
    case 3
    then show ?case using "2.IH"(3,6) u by (cases "status \<in> set terminal_statuses"; cases "fetch u") (auto simp: ebind_Inl_iff)
  }
qed auto

lemma download_new_facts:
  shows "ps_status (snd (download_new results nodes ts s)) = ps_status s"
    and "set (ps_downloaded s) \<subseteq> set (ps_downloaded (snd (download_new results nodes ts s)))"
    and "fst (download_new results nodes ts s) = Inr () \<Longrightarrow> t \<in> set ts \<Longrightarrow> map_of (ps_status s) t = Some ''DONE'' \<Longrightarrow>
      t \<in> set (ps_downloaded (snd (download_new results nodes ts s)))"
    and "fst (download_new results nodes ts s) = Inl e \<Longrightarrow> e = KeyError \<or> e = RuntimeError ''Missing task->node mapping'' \<or> (\<exists>t. results t = Inl e)"
proof (induction ts arbitrary: s)
  case (Cons u ts)
  { case 1
    show ?case using Cons.IH(1) by (auto split: option.splits sum.splits)
  next
    case 2
    show ?case using Cons.IH(2) [of s] Cons.IH(2) [of "s\<lparr>ps_downloaded := ps_downloaded s @ [u]\<rparr>"]
      by (auto split: option.splits sum.splits)
  next
    case 3
    let ?s = "s\<lparr>ps_downloaded := ps_downloaded s @ [u]\<rparr>"
    from 3 show ?case
      using Cons.IH(3) [of s] Cons.IH(3) [of ?s] Cons.IH(2) [of s] Cons.IH(2) [of ?s]
      by (auto split: option.splits sum.splits if_splits)
  next
    case 4
    then show ?case using Cons.IH(4) by (auto split: option.splits sum.splits if_splits)
  }
qed auto

definition poll_inv :: "poll_state \<Rightarrow> bool" where
  "poll_inv s \<longleftrightarrow> distinct (dict_keys (ps_status s)) \<and> distinct (ps_downloaded s) \<and>
     (\<forall>t \<in> set (ps_downloaded s). map_of (ps_status s) t = Some ''DONE'')"

lemma download_new_distinct:
  "distinct (ps_downloaded s) \<Longrightarrow> \<forall>t \<in> set (ps_downloaded s). map_of (ps_status s) t = Some ''DONE'' \<Longrightarrow>
   distinct (ps_downloaded (snd (download_new results nodes ts s))) \<and>
   (\<forall>t \<in> set (ps_downloaded (snd (download_new results nodes ts s))). map_of (ps_status s) t = Some ''DONE'')"
proof (induction ts arbitrary: s)
  case (Cons u ts)
  show ?case
    using Cons.IH [OF Cons.prems] Cons.IH [of "s\<lparr>ps_downloaded := ps_downloaded s @ [u]\<rparr>"] Cons.prems
    by (auto split: option.splits sum.splits if_splits)
qed simp

lemma poll_round_inv:
  assumes "poll_inv s" and "poll_round nodes tasks p s = (e, s')"
  shows "poll_inv s' \<and> dict_keys (ps_status s') = dict_keys (ps_status s) \<and> set (ps_downloaded s) \<subseteq> set (ps_downloaded s') \<and>
    (\<forall>t st. map_of (ps_status s) t = Some st \<longrightarrow> st \<in> set terminal_statuses \<longrightarrow> map_of (ps_status s') t = Some st)"
proof (cases "po_cancelled p")
  case False
  obtain r st where u: "update_task_status (po_fetch p) (ps_status s) = (r, st)" by fastforce
  obtain r' s2 where d: "download_new (po_result p) nodes tasks (s\<lparr>ps_status := st\<rparr>) = (r', s2)" by fastforce
  from assms(1) have inv: "distinct (dict_keys (ps_status s))" by (auto simp: poll_inv_def)
  note facts = update_task_status_facts [where fetch = "po_fetch p" and ts = "ps_status s", unfolded u snd_conv fst_conv]
  have keep: "\<forall>t st'. map_of (ps_status s) t = Some st' \<longrightarrow> st' \<in> set terminal_statuses \<longrightarrow> map_of st t = Some st'"
    using facts(2) inv by auto
  then have i1: "poll_inv (s\<lparr>ps_status := st\<rparr>)"
    using assms(1) facts(1) by (auto simp: poll_inv_def terminal_statuses_def)
  have i2: "poll_inv s2"
    using i1 download_new_distinct [of "s\<lparr>ps_status := st\<rparr>" "po_result p" nodes tasks]
      download_new_facts(1) [where results = "po_result p" and nodes = nodes and ts = tasks and s = "s\<lparr>ps_status := st\<rparr>"]
    unfolding d by (auto simp: poll_inv_def)
  have "ps_status s2 = st" "set (ps_downloaded s) \<subseteq> set (ps_downloaded s2)"
    using download_new_facts(1) [where results = "po_result p" and nodes = nodes and ts = tasks and s = "s\<lparr>ps_status := st\<rparr>"]
      download_new_facts(2) [where results = "po_result p" and nodes = nodes and ts = tasks and s = "s\<lparr>ps_status := st\<rparr>"] unfolding d by auto
  with False assms(2) i1 i2 keep facts(1) show ?thesis
    unfolding poll_round_def u prod.case by (cases r) (auto simp: d split: sum.splits if_splits)
qed (use assms in \<open>simp add: poll_round_def\<close>)

lemma poll_round_stop:
  assumes inv: "poll_inv s" and run: "poll_round nodes tasks p s = (Stop, s')"
  shows "\<forall>t \<in> set tasks. dict_get (ps_status s') t [] \<in> set terminal_statuses \<and>
    (dict_get (ps_status s') t [] = ''DONE'' \<longrightarrow> t \<in> set (ps_downloaded s'))"
proof -
  obtain r st where u: "update_task_status (po_fetch p) (ps_status s) = (r, st)" by fastforce
  obtain r' s2 where d: "download_new (po_result p) nodes tasks (s\<lparr>ps_status := st\<rparr>) = (r', s2)" by fastforce
  from run u d have ok: "s' = s2" "r' = Inr ()" "\<forall>t \<in> set tasks. dict_get (ps_status s2) t [] \<in> set terminal_statuses"
    by (auto simp: poll_round_def list_all_iff split: if_splits sum.splits)
  have "ps_status s2 = st" using download_new_facts(1) [where results = "po_result p" and nodes = nodes and ts = tasks and s = "s\<lparr>ps_status := st\<rparr>"] d by simp
  moreover have "t \<in> set (ps_downloaded s2)" if "t \<in> set tasks" "map_of st t = Some ''DONE''" for t
    using download_new_facts(3) [where results = "po_result p" and nodes = nodes and ts = tasks and s = "s\<lparr>ps_status := st\<rparr>" and t = t] d ok(2) that by simp
  ultimately show ?thesis using ok(1,3) by (auto simp: dict_get_def split: option.splits)
qed

lemma poll_loop_inv:
  assumes "poll_inv s" and "poll_loop timeout nodes tasks ps s = (r, s')"
  shows "poll_inv s' \<and> dict_keys (ps_status s') = dict_keys (ps_status s) \<and>
    (\<forall>t st. map_of (ps_status s) t = Some st \<longrightarrow> st \<in> set terminal_statuses \<longrightarrow> map_of (ps_status s') t = Some st) \<and>
    (r = Inr () \<longrightarrow> (\<forall>t \<in> set tasks. map_of (ps_status s') t = Some ''DONE'' \<and> t \<in> set (ps_downloaded s')))"
  using assms
proof (induction ps arbitrary: s)
  case (Cons p ps)
  show ?case
  proof (cases "timeout \<le> po_elapsed p")
    case False
    obtain e s1 where round: "poll_round nodes tasks p s = (e, s1)" by fastforce
    note i = poll_round_inv [OF Cons.prems(1) round]
    show ?thesis
    proof (cases e)
      case GoOn
      with Cons.prems(2) False round have "poll_loop timeout nodes tasks ps s1 = (r, s')" by simp
      from Cons.IH [OF conjunct1 [OF i] this] i show ?thesis by simp
    next
      case Stop
      note stop = poll_round_stop [OF Cons.prems(1) round [unfolded Stop]]
      have "dict_get (ps_status s1) t [] = ''DONE'' \<Longrightarrow> map_of (ps_status s1) t = Some ''DONE''" for t
        by (auto simp: dict_get_def split: option.splits)
      moreover from Cons.prems(2) False round Stop have s1: "s' = s1"
        and r: "r = Inr () \<longrightarrow> (\<forall>t \<in> set tasks. dict_get (ps_status s1) t [] \<noteq> ''FAILED'')"
        by (auto simp: list_ex_iff split: if_splits)
      ultimately have "r = Inr () \<longrightarrow> (\<forall>t \<in> set tasks. map_of (ps_status s1) t = Some ''DONE'' \<and> t \<in> set (ps_downloaded s1))"
        using stop unfolding terminal_statuses_def by (metis empty_iff insert_iff list.set)
      with i show ?thesis unfolding s1 by blast
    next
      case (Fail e')
      with Cons.prems(2) False round i show ?thesis by auto
    qed
  qed (use Cons.prems in auto)
qed auto

lemma poll_loop_returns:
  assumes "\<exists>p \<in> set ps. timeout \<le> po_elapsed p"
    and "\<forall>p \<in> set ps. \<forall>t. po_fetch p t \<noteq> Inl Diverges \<and> po_result p t \<noteq> Inl Diverges"
  shows "fst (poll_loop timeout nodes tasks ps s) \<noteq> Inl Diverges"
  using assms
proof (induction ps arbitrary: s)
  case (Cons p ps)
  obtain e s1 where round: "poll_round nodes tasks p s = (e, s1)" by fastforce
  have "e \<noteq> Fail Diverges"
  proof
    assume e: "e = Fail Diverges"
    obtain r st where u: "update_task_status (po_fetch p) (ps_status s) = (r, st)" by fastforce
    obtain r' s2 where d: "download_new (po_result p) nodes tasks (s\<lparr>ps_status := st\<rparr>) = (r', s2)" by fastforce
    from e round u d have "r = Inl Diverges \<or> r' = Inl Diverges"
      by (auto simp: poll_round_def split: if_splits sum.splits)
    then show False
      using update_task_status_facts(3) [where fetch = "po_fetch p" and ts = "ps_status s" and e = Diverges] Cons.prems(2)
        download_new_facts(4) [where results = "po_result p" and nodes = nodes and ts = tasks and s = "s\<lparr>ps_status := st\<rparr>" and e = Diverges] u d by auto
  qed
  with Cons round show ?case by (auto split: round_end.splits)
qed simp



text \<open>
  C18: Polling: the tasks followed stay the same, a task that is DONE or FAILED keeps its status, no
  response is downloaded twice and only those of tasks that are DONE; when the loop ends without an error,
  every task is DONE and its response downloaded. Once a round sees the timeout, the loop has
  ended, whatever FlowMesh answers.
\<close>

theorem poll_loop_correct:
  assumes "distinct (dict_keys (ps_status s))" and "ps_downloaded s = []"
    and "\<exists>p \<in> set ps. timeout \<le> po_elapsed p"
    and "\<forall>p \<in> set ps. \<forall>t. po_fetch p t \<noteq> Inl Diverges \<and> po_result p t \<noteq> Inl Diverges"
  shows "\<exists>r s'. poll_loop timeout nodes tasks ps s = (r, s') \<and> r \<noteq> Inl Diverges \<and>
    dict_keys (ps_status s') = dict_keys (ps_status s) \<and>
    (\<forall>t st. map_of (ps_status s) t = Some st \<longrightarrow> st \<in> set terminal_statuses \<longrightarrow> map_of (ps_status s') t = Some st) \<and>
    distinct (ps_downloaded s') \<and> (\<forall>t \<in> set (ps_downloaded s'). map_of (ps_status s') t = Some ''DONE'') \<and>
    (r = Inr () \<longrightarrow> (\<forall>t \<in> set tasks. map_of (ps_status s') t = Some ''DONE'' \<and> t \<in> set (ps_downloaded s')))"
proof -
  obtain r s' where run: "poll_loop timeout nodes tasks ps s = (r, s')" by fastforce
  have "poll_inv s" using assms(1,2) by (simp add: poll_inv_def)
  from poll_loop_inv [OF this run] have "poll_inv s'"
    and rest: "dict_keys (ps_status s') = dict_keys (ps_status s)"
      "\<forall>t st. map_of (ps_status s) t = Some st \<longrightarrow> st \<in> set terminal_statuses \<longrightarrow> map_of (ps_status s') t = Some st"
      "r = Inr () \<longrightarrow> (\<forall>t \<in> set tasks. map_of (ps_status s') t = Some ''DONE'' \<and> t \<in> set (ps_downloaded s'))" by blast+
  moreover have "r \<noteq> Inl Diverges" using poll_loop_returns [OF assms(3,4)] run by (metis fst_conv)
  ultimately show ?thesis using run unfolding poll_inv_def by blast
qed

theorem poll_loop_correct_witness:
  "\<exists>r s'. poll_loop 3 [(''t'', ''n'')] [''t'']
     [\<lparr>po_elapsed = 0, po_cancelled = False, po_fetch = \<lambda>_. Inr ''DISPATCHED'', po_result = \<lambda>_. Inl KeyError\<rparr>,
      \<lparr>po_elapsed = 1, po_cancelled = False, po_fetch = \<lambda>_. Inr ''DONE'', po_result = \<lambda>_. Inr PNone\<rparr>,
      \<lparr>po_elapsed = 3, po_cancelled = False, po_fetch = \<lambda>_. Inr ''DONE'', po_result = \<lambda>_. Inr PNone\<rparr>]
     \<lparr>ps_status = [(''t'', ''PENDING'')], ps_downloaded = []\<rparr> = (r, s') \<and> r = Inr () \<and> map_of (ps_status s') ''t'' = Some ''DONE''"
  using poll_loop_correct [of "\<lparr>ps_status = [(''t'', ''PENDING'')], ps_downloaded = []\<rparr>"
      "[\<lparr>po_elapsed = 0, po_cancelled = False, po_fetch = \<lambda>_. Inr ''DISPATCHED'', po_result = \<lambda>_. Inl KeyError\<rparr>,
      \<lparr>po_elapsed = 1, po_cancelled = False, po_fetch = \<lambda>_. Inr ''DONE'', po_result = \<lambda>_. Inr PNone\<rparr>,
      \<lparr>po_elapsed = 3, po_cancelled = False, po_fetch = \<lambda>_. Inr ''DONE'', po_result = \<lambda>_. Inr PNone\<rparr>]" 3 "[(''t'', ''n'')]" "[''t'']"]
  by (simp add: terminal_statuses_def poll_round_def dict_get_def)

section \<open>A batch from end to end\<close>


lemma register_tasks_Inr:
  assumes "register_tasks key tasks task_nodes to_raw rc fc m = (Inr raw, m')"
  shows "list_all2 (\<lambda>(t, n) (t', r). t' = t \<and> map_of to_raw n = Some r) task_nodes raw"
    and "fm_output_tasks m' = AList.update key (dedupe_into [] tasks) (fm_output_tasks m)"
    and "fm_execution_status m' = AList.update key (dict_of (map (\<lambda>t. (t, ''PENDING'')) tasks)) (fm_execution_status m)"
    and "fm_task_node_map m' = AList.update key raw (fm_task_node_map m)" and "fm_workflow_id m' = fm_workflow_id m"
    and "fm_submitted m' = fm_submitted m"
proof -
  from assms obtain e where
    e: "emap (\<lambda>(t, n). case map_of to_raw n of None \<Rightarrow> Inl (ValueError ''Missing raw-node mapping for FlowMesh node'') | Some r \<Rightarrow> Inr (t, r)) task_nodes = Inr raw"
    and m': "fm_output_tasks m' = AList.update key (dedupe_into [] tasks) (fm_output_tasks m)"
    "fm_execution_status m' = AList.update key (dict_of (map (\<lambda>t. (t, ''PENDING'')) tasks)) (fm_execution_status m)"
    "fm_task_node_map m' = AList.update key raw (fm_task_node_map m)" "fm_workflow_id m' = fm_workflow_id m"
    "fm_submitted m' = fm_submitted m"
    by (auto simp: register_tasks_def Let_def split: sum.splits)
  show "list_all2 (\<lambda>(t, n) (t', r). t' = t \<and> map_of to_raw n = Some r) task_nodes raw"
    using e unfolding emap_list_all2 by (rule list_all2_mono) (auto split: option.splits)
  from m' show "fm_output_tasks m' = AList.update key (dedupe_into [] tasks) (fm_output_tasks m)"
    and "fm_execution_status m' = AList.update key (dict_of (map (\<lambda>t. (t, ''PENDING'')) tasks)) (fm_execution_status m)"
    and "fm_task_node_map m' = AList.update key raw (fm_task_node_map m)" and "fm_workflow_id m' = fm_workflow_id m"
    and "fm_submitted m' = fm_submitted m" by simp_all
qed

lemma poll_batch_Inr:
  assumes "poll_batch timeout key nodes tasks polls m = (Inr (), m')"
    and "map_of (fm_execution_status m) key = Some st" and "distinct (dict_keys st)"
  shows "\<exists>st'. m' = m\<lparr>fm_execution_status := AList.update key st' (fm_execution_status m)\<rparr> \<and> dict_keys st' = dict_keys st \<and>
    (\<forall>t \<in> set tasks. map_of st' t = Some ''DONE'')"
proof -
  let ?s = "\<lparr>ps_status = st, ps_downloaded = []\<rparr>"
  obtain r s' where run: "poll_loop timeout nodes tasks polls ?s = (r, s')" by fastforce
  have "poll_inv ?s" using assms(3) by (simp add: poll_inv_def)
  from poll_loop_inv [OF this run] assms(1,2) run show ?thesis
    by (auto simp: poll_batch_def dict_get_def)
qed

lemma collect_output_name: "collect_output env E results g node_tasks n = Inr row \<Longrightarrow> fst row = n"
  by (auto simp: collect_output_def ebind_Inr_iff split: list.splits)

lemma collect_outputs_Inr:
  assumes "collect_outputs env E results g node_tasks ids raw = Inr res" and "distinct ids"
  shows "dict_keys (br_flat_outputs res) = ids \<and> br_task_node_map res = raw \<and> set (dict_keys (br_histories res)) \<subseteq> set ids"
proof -
  from assms(1) obtain rows where rows: "emap (collect_output env E results g node_tasks) ids = Inr rows"
    and res: "res = \<lparr>br_flat_outputs = dict_of (map (\<lambda>(n, outs, _). (n, outs)) rows),
            br_histories = dict_of (map (\<lambda>(n, _, ps). (n, ps)) (filter (\<lambda>(n, _, ps). ps \<noteq> []) rows)), br_task_node_map = raw\<rparr>"
    by (auto simp: collect_outputs_def ebind_Inr_iff)
  have keys: "map fst rows = ids"
    using emap_keys [OF rows, where k = "\<lambda>n. n"] collect_output_name by auto
  have "map fst (map (\<lambda>(n, outs, _). (n, outs)) rows) = map fst rows" by (induction rows) auto
  then have "dict_of (map (\<lambda>(n, outs, _). (n, outs)) rows) = map (\<lambda>(n, outs, _). (n, outs)) rows"
    using keys assms(2) by (simp only: dict_of_distinct_id)
  moreover have "fst ` set (map (\<lambda>(n, _, ps). (n, ps)) (filter (\<lambda>(n, _, ps). ps \<noteq> []) rows)) \<subseteq> set (map fst rows)" by force
  ultimately show ?thesis
    using keys \<open>map fst (map _ rows) = map fst rows\<close> unfolding res batch_result.simps set_dict_keys_dict_of by simp
qed

lemma output_indices_order:
  "map snd (output_node_indices g) = filter (\<lambda>n. n \<in> set (dict_keys (rg_output_node_map g))) (rg_node_order g)"
proof -
  have "map snd (filter (\<lambda>(i, n). P n) (zip ks ns)) = filter P ns" if "length ks = length ns" for P and ks :: "nat list" and ns :: "string list"
    using that by (induction ks ns rule: list_induct2) auto
  then show ?thesis unfolding output_node_indices_def by simp
qed

lemma build_task_spec_outputs: "build_task_spec env rid hw g schedule = Inr spec \<Longrightarrow> tk_outputs spec = output_node_indices g"
  by (auto simp: build_task_spec_def ebind_Inr_iff split: option.splits)

lemma process_request_run:
  assumes "process_request env E w key hw g schedule profile m = (Inr res, m')"
  obtains spec wid tasks task_nodes node_tasks raw m2 where
    "build_task_spec env (fst key) hw g schedule = Inr spec" "fw_submit w (tk_document spec) = Inr (wid, tasks)"
    "resolve_task_node_maps (fw_describe w) tasks (submitted_names (tk_nodes spec)) = Inr (task_nodes, node_tasks)"
    "register_tasks key tasks task_nodes (tk_to_raw spec) (int (length (rg_node_order g))) (int (length (tk_nodes spec)))
       (set_workflow_id key wid (send_document (tk_document spec)
          (m\<lparr>fm_schema_cache := foldl (\<lambda>d (k, v). AList.update k v d) (fm_schema_cache m) profile\<rparr>))) = (Inr raw, m2)"
    "poll_batch (fe_poll_timeout env) key task_nodes tasks (fw_polls w) m2 = (Inr (), m')"
    "collect_outputs env E (fw_results w) g node_tasks (map snd (tk_outputs spec)) raw = Inr res"
  using assms unfolding process_request_def Let_def
  by (auto simp: then_op_def pure_op_def split: if_splits sum.splits prod.splits)


lemma resolved_maps:
  assumes "resolve_task_node_maps describe tasks names = Inr (task_to_node, node_to_task)"
  shows "set (dict_keys task_to_node) = set tasks" and "set (dict_values task_to_node) \<subseteq> set names"
proof -
  have "efold (map_task describe names) tasks ([], []) = Inr (task_to_node, node_to_task)"
    using assms by (auto simp: resolve_task_node_maps_def ebind_Inr_iff split: if_splits prod.splits)
  note run = this
  have "set (dict_keys (fst s')) = set (dict_keys (fst s)) \<union> set ts \<and>
      (set (dict_values (fst s)) \<subseteq> set names \<longrightarrow> set (dict_values (fst s')) \<subseteq> set names)"
    if "efold (map_task describe names) ts s = Inr s'" for ts s s'
    using that
  proof (induction ts arbitrary: s)
    case (Cons t ts)
    from Cons.prems obtain u where u: "map_task describe names t s = Inr u" "efold (map_task describe names) ts u = Inr s'"
      by (auto simp: ebind_Inr_iff)
    from u(1) obtain n where n: "n \<in> set names" "fst u = AList.update t n (fst s)"
      by (auto simp: map_task_def split: sum.splits option.splits if_splits)
    have "set (dict_values (AList.update t n d)) \<subseteq> insert n (set (dict_values d))" for d :: "(string, string) dict"
      by (induction d) auto
    from subset_trans [OF this [of "fst s"]] n have "set (dict_values (fst s)) \<subseteq> set names \<longrightarrow> set (dict_values (fst u)) \<subseteq> set names"
      by simp
    moreover have "set (dict_keys (fst u)) = insert t (set (dict_keys (fst s)))" by (simp only: n(2) set_map image_keys_update)
    ultimately show ?case using Cons.IH [OF u(2)] by simp
  qed simp
  from this [OF run] show "set (dict_keys task_to_node) = set tasks" and "set (dict_values task_to_node) \<subseteq> set names" by simp_all
qed

lemma raw_tables:
  assumes "list_all2 (\<lambda>(t, n) (t', r). t' = t \<and> map_of to_raw n = Some r) task_nodes raw"
  shows "dict_keys raw = dict_keys task_nodes"
    and "(t, v) \<in> set raw \<Longrightarrow> \<exists>n \<in> set (dict_values task_nodes). map_of to_raw n = Some v"
  using assms by (induction rule: list_all2_induct) auto

lemma raw_table_nth:
  assumes "list_all2 (\<lambda>(t, n) (t', r). t' = t \<and> map_of to_raw n = Some r) task_nodes raw" and "map_of task_nodes t = Some n"
  shows "\<exists>r. map_of to_raw n = Some r \<and> map_of raw t = Some r"
  using assms by (induction rule: list_all2_induct) (auto split: if_splits)


definition flow_op :: "string \<Rightarrow> string list \<Rightarrow> runtime_op" where
  "flow_op n deps = \<lparr>op_node_id = n, op_task_type = ''data_retrieval'', op_backend = ''cpu'', op_model = [], op_data_spec = [],
     op_model_spec = [], op_inference_spec = [], op_dependencies = deps, op_output_spec = None, op_condition = None\<rparr>"

definition flow_example :: runtime_graph where
  "flow_example = \<lparr>rg_nodes = [(''a'', flow_op ''a'' []), (''b'', flow_op ''b'' [''a''])], rg_node_order = [''a'', ''b''],
     rg_output_node_map = [(''b'', ''out'')], rg_output_paths = [], rg_dsl_to_runtime = []\<rparr>"

definition flow_env_example :: flow_env where
  "flow_env_example = \<lparr>fe_cpu = 1, fe_memory = ''1Gi'', fe_gpu = 0, fe_gpu_memory = ''0Gi'', fe_http_output = False,
     fe_archive_prefix = ''s3'', fe_poll_timeout = 3\<rparr>"

definition flow_world_example :: flow_world where
  "flow_world_example = \<lparr>fw_cancelled = False, fw_submit = \<lambda>_. Inr (''wf'', [''t1'', ''t2'']),
     fw_describe = \<lambda>t. Inr (Some (if t = ''t1'' then ''a'' else ''b'')),
     fw_polls = [\<lparr>po_elapsed = 0, po_cancelled = False, po_fetch = \<lambda>_. Inr ''DONE'', po_result = \<lambda>_. Inr PNone\<rparr>],
     fw_results = \<lambda>_. Inr [(''items'', PList [PDict [(''output'', PStr ''ok'')]])]\<rparr>"

lemma flow_example_wf: "rg_wf flow_example"
  by code_simp

lemma flow_example_graph:
  "\<forall>n \<in> set (rg_node_order flow_example). \<forall>m \<in> set (rg_node_order flow_example). \<forall>i. n \<noteq> shard_name m i"
  "acyclic (set (export_edges flow_example))"
proof -
  show "\<forall>n \<in> set (rg_node_order flow_example). \<forall>m \<in> set (rg_node_order flow_example). \<forall>i. n \<noteq> shard_name m i"
    by (simp add: flow_example_def shard_name_def)
  have "export_edges flow_example = [(''a'', ''b'')]" by code_simp
  then have "set (export_edges flow_example) = {(''a'', ''b'')}" by simp
  moreover have "acyclic {(''a'', ''b'')}" by (rule acyclicI) (auto dest: tranclD tranclD2 elim: tranclE)
  ultimately show "acyclic (set (export_edges flow_example))" by simp
qed


text \<open>
  C11: A specification that is built for a well-formed acyclic graph under a schedule is one FlowMesh can run:
  the hint that is in the document orders exactly the nodes submitted, each after the nodes it depends on and each on one
  worker, no dependency leads out of the submission, and every output node is a node of it. No node of
  the graph may be named like a shard of another.
\<close>

theorem build_task_spec_correct:
  assumes "rg_wf g" and "\<forall>n \<in> set (rg_node_order g). \<forall>m \<in> set (rg_node_order g). \<forall>i. n \<noteq> shard_name m i"
    and "acyclic (set (export_edges g))" and "distinct (dict_keys assigned)"
    and "build_task_spec env rid hw g (Some assigned) = Inr spec"
  shows "\<exists>order selected. tk_hint spec = Some (order, selected) \<and>
    tk_document spec = task_document env rid hw (tk_nodes spec) (Some (order, selected)) \<and>
    distinct (submitted_names (tk_nodes spec)) \<and> distinct order \<and> set order = set (submitted_names (tk_nodes spec)) \<and>
    in_dep_order (dep_edges order (\<lambda>n. dict_get (hint_deps (tk_nodes spec)) n [])) order \<and>
    (\<forall>node \<in> set (tk_nodes spec). set (node_deps node) \<subseteq> set order) \<and>
    set (dict_keys (rg_output_node_map g)) \<subseteq> set order \<and>
    dict_keys selected = submitted_names (tk_nodes spec) \<and> (\<forall>(n, ws) \<in> set selected. length ws = 1)"
  using assms by (rule build_task_spec_sound)

theorem build_task_spec_correct_witness:
  "\<exists>spec order selected. build_task_spec flow_env_example ''r'' None flow_example (Some [(''u'', [''a'', ''b''])]) = Inr spec \<and>
     tk_hint spec = Some (order, selected) \<and> ''b'' \<in> set order"
proof -
  have "map_sum id tk_hint (build_task_spec flow_env_example ''r'' None flow_example (Some [(''u'', [''a'', ''b''])])) =
      Inr (Some ([''a'', ''b''], [(''a'', [''u'']), (''b'', [''u''])]))" by code_simp
  then obtain spec where spec: "build_task_spec flow_env_example ''r'' None flow_example (Some [(''u'', [''a'', ''b''])]) = Inr spec"
    by (cases "build_task_spec flow_env_example ''r'' None flow_example (Some [(''u'', [''a'', ''b''])])") auto
  have "distinct (dict_keys [(''u'', [''a'', ''b''])])" by simp
  from build_task_spec_correct [OF flow_example_wf flow_example_graph this spec] spec show ?thesis
    by (auto simp: flow_example_def)
qed

section \<open>Progress in bounds\<close>

lemma round_half_even_bounds: "of_int a \<le> x \<Longrightarrow> x \<le> of_int b \<Longrightarrow> a \<le> round_half_even x \<and> round_half_even x \<le> b"
proof -
  assume a: "of_int a \<le> x" and b: "x \<le> of_int b"
  from a have 1: "a \<le> floor x" by linarith
  show ?thesis
  proof (cases "x = of_int b")
    case False
    with b have "floor x < b" by linarith
    with 1 show ?thesis by (auto simp: round_half_even_def Let_def)
  qed (use 1 in \<open>simp add: round_half_even_def\<close>)
qed

lemma round_half_even_nonneg: "0 \<le> x \<Longrightarrow> 0 \<le> round_half_even x"
  using round_half_even_bounds [of 0 x "ceiling x"] by simp

lemma round1_nonneg: "0 \<le> x \<Longrightarrow> 0 \<le> round1 x"
  using round_half_even_nonneg [of "10 * x"] by (simp add: round1_def)

lemma round1_percent:
  assumes "0 \<le> x" and "x \<le> 100"
  shows "0 \<le> round1 x \<and> round1 x \<le> 100"
  using round_half_even_bounds [of 0 "10 * x" 1000] assms by (simp add: round1_def)

lemma batch_elapsed_nonneg: "batch_elapsed now m k = Some e \<Longrightarrow> 0 \<le> e"
  by (auto simp: batch_elapsed_def Let_def split: option.splits if_splits)

lemma batch_done_bounds: "0 \<le> batch_done_nodes m k \<and> batch_done_nodes m k \<le> batch_nodes m k"
  by (cases "map_of (fm_execution_status m) k") (simp_all add: batch_done_nodes_def batch_nodes_def details_total_def)

lemma count_status_sum:
  "count_status m keys BatchCompleted + count_status m keys BatchRunning + count_status m keys BatchPending + count_status m keys BatchFailed = length keys"
proof (induction keys)
  case (Cons k keys)
  then show ?case by (cases "status_of_batch m k") (simp_all add: count_status_def)
qed (simp add: count_status_def)

text \<open>
  Progress: the four counts of batches add up to the batches asked for, no more nodes are done
  than there are, the percentage stays between 0 and 100 after rounding, and neither the elapsed
  times nor the estimate is negative.
\<close>

theorem build_batch_progress_bounds:
  "let p = build_batch_progress now m keys in
     bp_completed p + bp_running p + bp_pending p + bp_failed p = length keys \<and> length (bp_batches p) = length keys \<and>
     0 \<le> bp_completed_nodes p \<and> bp_completed_nodes p \<le> bp_total_nodes p \<and> 0 \<le> bp_percentage p \<and> bp_percentage p \<le> 100 \<and>
     list_all (\<lambda>b. case bi_elapsed b of None \<Rightarrow> True | Some e \<Rightarrow> 0 \<le> e) (bp_batches p) \<and>
     (case bp_eta p of None \<Rightarrow> True | Some e \<Rightarrow> 0 \<le> e)"
proof -
  let ?p = "build_batch_progress now m keys"
  have "0 \<le> x" if "x \<in> set (map (batch_done_nodes m) keys)" for x
    using that by (auto simp: batch_done_bounds)
  then have bounds: "0 \<le> sum_list (map (batch_done_nodes m) keys)" "sum_list (map (batch_done_nodes m) keys) \<le> sum_list (map (batch_nodes m) keys)"
    using batch_done_bounds by (blast intro: sum_list_nonneg sum_list_mono)+
  have nodes: "0 \<le> bp_completed_nodes ?p \<and> bp_completed_nodes ?p \<le> bp_total_nodes ?p"
    unfolding build_batch_progress_def Let_def using bounds by simp
  let ?q = "(of_int (bp_completed_nodes ?p) :: rat) / of_int (bp_total_nodes ?p) * 100"
  have percent: "0 \<le> bp_percentage ?p \<and> bp_percentage ?p \<le> 100"
  proof (cases "0 < bp_total_nodes ?p")
    case True
    then have "bp_percentage ?p = round1 ?q" by (simp add: build_batch_progress_def Let_def)
    moreover have "0 \<le> ?q" "?q \<le> 100" using nodes True by (simp_all add: field_simps)
    ultimately show ?thesis using round1_percent by simp
  qed (simp add: build_batch_progress_def Let_def)
  have spent: "0 \<le> sum_list (map (\<lambda>k. case batch_elapsed now m k of None \<Rightarrow> 0 | Some e \<Rightarrow> e) ks)" for ks
    by (rule sum_list_nonneg) (auto dest: batch_elapsed_nonneg split: option.splits)
  have eta: "case bp_eta ?p of None \<Rightarrow> True | Some e \<Rightarrow> 0 \<le> e"
    using spent by (simp add: build_batch_progress_def Let_def round1_nonneg split: option.splits)
  have elapsed: "list_all (\<lambda>b. case bi_elapsed b of None \<Rightarrow> True | Some e \<Rightarrow> 0 \<le> e) (bp_batches ?p)"
    by (auto simp: build_batch_progress_def Let_def list_all_iff intro: round1_nonneg dest: batch_elapsed_nonneg split: option.splits)
  have "bp_completed ?p + bp_running ?p + bp_pending ?p + bp_failed ?p = length keys" "length (bp_batches ?p) = length keys"
    using count_status_sum [of m keys] by (simp_all add: build_batch_progress_def Let_def)
  with nodes percent eta elapsed show ?thesis unfolding Let_def by blast
qed

end
