(* ===== verification/Dsl.thy ===== *)
theory Dsl
  imports RuntimeGraphs PyStrings
begin

text \<open>
  The DSL graphs a workflow is compiled to (\<open>graphs/graph.py\<close>, \<open>ops/*.py\<close>, the generation
  parameters of \<open>common.py\<close>). Ops are objects: a graph has a store from references to ops, and
  its dict maps op ids to references. An op read from JSON has its key there as reference.
  A field of another JSON type than its annotation is a \<open>TypeError\<close> here; Python would carry
  it along.
\<close>

section \<open>Generation parameters\<close>

definition config_fields :: "string list" where
  "config_fields =
     [''model'', ''frequency_penalty'', ''logit_bias'', ''logprobs'', ''max_tokens'', ''n'', ''presence_penalty'', ''seed'', ''stop'',
      ''stream'', ''stream_options'', ''temperature'', ''top_p'', ''ignore_eos'', ''chat_template_kwargs'', ''min_tokens'',
      ''repetition_penalty'', ''top_k'', ''min_p'', ''extra_sampling_params'', ''max_model_len'', ''gpu_memory_utilization'',
      ''tensor_parallel_size'', ''dtype'', ''extra_engine_kwargs'']"

definition non_openai_fields :: "string list" where
  "non_openai_fields =
     [''ignore_eos'', ''chat_template_kwargs'', ''repetition_penalty'', ''top_k'', ''min_p'', ''min_tokens'', ''extra_sampling_params'',
      ''max_model_len'', ''gpu_memory_utilization'', ''tensor_parallel_size'', ''dtype'', ''extra_engine_kwargs'']"

definition non_sampler_fields :: "string list" where
  "non_sampler_fields =
     [''model'', ''stream'', ''stream_options'', ''extra_sampling_params'', ''max_model_len'', ''gpu_memory_utilization'',
      ''tensor_parallel_size'', ''dtype'', ''extra_engine_kwargs'']"

definition engine_overlay_fields :: "string list" where
  "engine_overlay_fields = [''max_model_len'', ''gpu_memory_utilization'', ''tensor_parallel_size'', ''dtype'']"

text \<open>\<open>GenerationConfig(**kwargs)\<close>: all the fields, in their order. \<open>to_dict\<close> gives this dict.\<close>

definition make_config :: "spec \<Rightarrow> spec result" where
  "make_config kwargs =
     (if list_ex (\<lambda>k. k \<notin> set config_fields) (dict_keys kwargs) then Inl (TypeError ''unexpected keyword argument'')
      else if ''model'' \<notin> set (dict_keys kwargs) then Inl (TypeError ''missing argument model'')
      else Inr (map (\<lambda>f. (f, dict_get kwargs f PNone)) config_fields))"

definition openai_kwargs :: "spec \<Rightarrow> spec" where
  "openai_kwargs config = filter (\<lambda>(f, _). f \<notin> set non_openai_fields) config"

text \<open>The extra parameters over the typed fields that are set; a key of both is an error.\<close>

definition with_extras :: "spec \<Rightarrow> pyval \<Rightarrow> string \<Rightarrow> spec result" where
  "with_extras typed extras msg =
     (if \<not> py_truthy extras then Inr typed
      else case extras of
          PDict e \<Rightarrow>
            if list_ex (\<lambda>k. k \<in> set (dict_keys typed)) (dict_keys e) then Inl (ValueError msg)
            else Inr (foldl (\<lambda>d (k, v). AList.update k v d) typed e)
        | _ \<Rightarrow> Inl (TypeError ''extra parameters are not a dict''))"

definition inference_spec :: "spec \<Rightarrow> spec result" where
  "inference_spec config =
     with_extras (filter (\<lambda>(f, v). f \<notin> set non_sampler_fields \<and> v \<noteq> PNone) config)
       (dict_get config ''extra_sampling_params'' PNone) ''extra_sampling_params conflict with typed fields''"

definition engine_overlay :: "spec \<Rightarrow> spec result" where
  "engine_overlay config =
     with_extras (filter (\<lambda>(f, v). v \<noteq> PNone) (map (\<lambda>f. (f, dict_get config f PNone)) engine_overlay_fields))
       (dict_get config ''extra_engine_kwargs'' PNone) ''extra_engine_kwargs conflict with typed fields''"

section \<open>Ops\<close>

type_synonym ref = string

record chat_fields =
  ch_config :: spec
  ch_return_history :: pyval
  ch_cacheable :: pyval
  ch_structural_outputs :: pyval
  ch_aggregate_table :: pyval
  ch_rowwise_template :: pyval
  ch_rowwise_columns :: pyval
  ch_system_messages :: pyval
  ch_condition :: pyval

datatype op_body =
    DataOp pyval
  | DataRetrievalOp pyval
  | MessageOp "string list" "(nat + string) list"
  | InputOp string
  | OutputOp string "string option"
  | FormatOp string "nat list" "(string, nat) dict"
  | LambdaOp string string
  | LLMChatOp chat_fields
  | LLMVisionOp chat_fields string string
  | EmbeddingOp spec pyval
  | ImageGenerationOp spec pyval

record dsl_op =
  d_id :: string
  d_inputs :: "ref list"
  d_max_iter :: "int option"
  d_body :: op_body

fun op_class :: "op_body \<Rightarrow> string" where
  "op_class (DataOp _) = ''DataOp''"
| "op_class (DataRetrievalOp _) = ''DataRetrievalOp''"
| "op_class (MessageOp _ _) = ''MessageOp''"
| "op_class (InputOp _) = ''InputOp''"
| "op_class (OutputOp _ _) = ''OutputOp''"
| "op_class (FormatOp _ _ _) = ''FormatOp''"
| "op_class (LambdaOp _ _) = ''LambdaOp''"
| "op_class (LLMChatOp _) = ''LLMChatOp''"
| "op_class (LLMVisionOp _ _ _) = ''LLMVisionOp''"
| "op_class (EmbeddingOp _ _) = ''EmbeddingOp''"
| "op_class (ImageGenerationOp _ _) = ''ImageGenerationOp''"

text \<open>\<open>isinstance\<close>: a vision op is a chat op, and every model op is an \<open>LLMOp\<close>.\<close>

fun chat_of :: "op_body \<Rightarrow> chat_fields option" where
  "chat_of (LLMChatOp c) = Some c"
| "chat_of (LLMVisionOp c _ _) = Some c"
| "chat_of _ = None"

fun is_llm :: "op_body \<Rightarrow> bool" where
  "is_llm (LLMChatOp _) = True"
| "is_llm (LLMVisionOp _ _ _) = True"
| "is_llm (EmbeddingOp _ _) = True"
| "is_llm (ImageGenerationOp _ _) = True"
| "is_llm _ = False"

text \<open>\<open>inputs.index(op)\<close>, appending an op that is not there yet.\<close>

definition intern :: "ref \<Rightarrow> ref list \<Rightarrow> nat \<times> ref list" where
  "intern r inputs =
     (if r \<in> set inputs then (length (takeWhile (\<lambda>x. x \<noteq> r) inputs), inputs) else (length inputs, inputs @ [r]))"

fun intern_all :: "ref list \<Rightarrow> ref list \<Rightarrow> nat list \<times> ref list" where
  "intern_all [] inputs = ([], inputs)"
| "intern_all (r # rs) inputs =
     (let (i, inputs') = intern r inputs; (is, inputs'') = intern_all rs inputs' in (i # is, inputs''))"

text \<open>The constructor of a message op: literal text stays where it is, ops become indices.\<close>

fun message_refs :: "(ref + string) list \<Rightarrow> ref list \<Rightarrow> (nat + string) list \<times> ref list" where
  "message_refs [] inputs = ([], inputs)"
| "message_refs (Inr s # ms) inputs = (let (rs, inputs') = message_refs ms inputs in (Inr s # rs, inputs'))"
| "message_refs (Inl r # ms) inputs =
     (let (i, inputs') = intern r inputs; (rs, inputs'') = message_refs ms inputs' in (Inl i # rs, inputs''))"

definition make_message_op :: "(string \<times> (ref + string)) list \<Rightarrow> ref list \<times> op_body" where
  "make_message_op msgs = (let (refs, inputs) = message_refs (map snd msgs) [] in (inputs, MessageOp (map fst msgs) refs))"

definition make_format_op :: "string \<Rightarrow> ref list \<Rightarrow> (string \<times> ref) list \<Rightarrow> ref list \<times> op_body" where
  "make_format_op t args kwargs =
     (let (is, inputs) = intern_all args []; (js, inputs') = intern_all (map snd kwargs) inputs
      in (inputs', FormatOp t is (dict_of (zip (map fst kwargs) js))))"

section \<open>JSON fields\<close>

definition as_str :: "pyval \<Rightarrow> string result" where
  "as_str v = (case v of PStr s \<Rightarrow> Inr s | _ \<Rightarrow> Inl (TypeError ''not a string''))"

definition as_dict :: "pyval \<Rightarrow> spec result" where
  "as_dict v = (case v of PDict d \<Rightarrow> Inr d | _ \<Rightarrow> Inl (TypeError ''not a dict''))"

definition as_list :: "pyval \<Rightarrow> pyval list result" where
  "as_list v = (case v of PList xs \<Rightarrow> Inr xs | _ \<Rightarrow> Inl (TypeError ''not a list''))"

definition opt_int :: "pyval \<Rightarrow> int option result" where
  "opt_int v = (case v of PNone \<Rightarrow> Inr None | PInt i \<Rightarrow> Inr (Some i) | _ \<Rightarrow> Inl (TypeError ''not an integer''))"

definition opt_str :: "pyval \<Rightarrow> string option result" where
  "opt_str v = (case v of PNone \<Rightarrow> Inr None | PStr s \<Rightarrow> Inr (Some s) | _ \<Rightarrow> Inl (TypeError ''not a string''))"

definition str_field :: "spec \<Rightarrow> string \<Rightarrow> string result" where
  "str_field d k = ebind (dict_index d k) as_str"

definition str_list_field :: "spec \<Rightarrow> string \<Rightarrow> string list result" where
  "str_list_field d k = ebind (dict_index d k) (\<lambda>v. ebind (as_list v) (emap as_str))"

text \<open>\<open>other_ops[op_id]\<close>.\<close>

definition other_op :: "(ref, dsl_op) dict \<Rightarrow> string \<Rightarrow> ref result" where
  "other_op heap r = (if r \<in> set (dict_keys heap) then Inr r else Inl KeyError)"

section \<open>Reading an op\<close>

text \<open>
  \<open>materialize\<close> compiles the source of a lambda op and gives the name of the function, or the
  error it raises; \<open>data.get(k)\<close> is \<open>dict_get d k PNone\<close>.
\<close>

definition chat_from_json :: "spec \<Rightarrow> chat_fields result" where
  "chat_from_json d =
     ebind (dict_index d ''config'') (\<lambda>c. ebind (as_dict c) (\<lambda>kw. ebind (make_config kw) (\<lambda>config.
     ebind (dict_index d ''return_history'') (\<lambda>h.
     ebind (dict_index d ''cacheable'') (\<lambda>cache.
       Inr \<lparr>ch_config = config, ch_return_history = h, ch_cacheable = cache,
         ch_structural_outputs = dict_get d ''structural_outputs'' PNone, ch_aggregate_table = dict_get d ''aggregate_table'' PNone,
         ch_rowwise_template = dict_get d ''rowwise_template'' PNone, ch_rowwise_columns = dict_get d ''rowwise_columns'' PNone,
         ch_system_messages = dict_get d ''system_messages'' PNone, ch_condition = dict_get d ''condition'' PNone\<rparr>)))))"

definition content_from_json :: "spec \<Rightarrow> (ref, dsl_op) dict \<Rightarrow> (ref \<times> spec \<times> pyval) result" where
  "content_from_json d heap =
     ebind (dict_index d ''config'') (\<lambda>c. ebind (as_dict c) (\<lambda>kw. ebind (make_config kw) (\<lambda>config.
     ebind (str_field d ''content'') (\<lambda>cid. ebind (other_op heap cid) (\<lambda>r.
     ebind (dict_index d ''cacheable'') (\<lambda>cache. Inr (r, config, cache)))))))"

definition message_from_json :: "(ref, dsl_op) dict \<Rightarrow> pyval \<Rightarrow> (string \<times> (ref + string)) result" where
  "message_from_json heap m =
     ebind (as_dict m) (\<lambda>d. ebind (str_field d ''role'') (\<lambda>role. ebind (str_field d ''content'') (\<lambda>content.
       Inr (role, if content \<in> set (dict_keys heap) then Inl content else Inr content))))"

definition data_op_from_json :: "spec \<Rightarrow> (ref list \<times> op_body) result" where
  "data_op_from_json d = ebind (dict_index d ''data'') (\<lambda>v. Inr ([], DataOp v))"

definition retrieval_op_from_json :: "spec \<Rightarrow> (ref, dsl_op) dict \<Rightarrow> (ref list \<times> op_body) result" where
  "retrieval_op_from_json d heap =
     ebind (if ''_inputs'' \<in> set (dict_keys d) then str_list_field d ''_inputs'' else Inr []) (\<lambda>ids.
     ebind (emap (other_op heap) ids) (\<lambda>inputs.
     ebind (dict_index d ''data_spec'') (\<lambda>sp. Inr (inputs, DataRetrievalOp sp))))"

definition message_op_from_json :: "spec \<Rightarrow> (ref, dsl_op) dict \<Rightarrow> (ref list \<times> op_body) result" where
  "message_op_from_json d heap =
     ebind (dict_index d ''messages'') (\<lambda>v. ebind (as_list v) (\<lambda>ms. ebind (emap (message_from_json heap) ms) (\<lambda>msgs. Inr (make_message_op msgs))))"

definition input_op_from_json :: "spec \<Rightarrow> (ref list \<times> op_body) result" where
  "input_op_from_json d = ebind (str_field d ''name'') (\<lambda>n. Inr ([], InputOp n))"

definition output_op_from_json :: "spec \<Rightarrow> (ref, dsl_op) dict \<Rightarrow> (ref list \<times> op_body) result" where
  "output_op_from_json d heap =
     ebind (str_list_field d ''_inputs'') (\<lambda>ids.
       if length ids \<noteq> 1 then Inl (ValueError ''OutputOp must have exactly one input'')
       else ebind (str_field d ''name'') (\<lambda>n. ebind (other_op heap (hd ids)) (\<lambda>r.
         ebind (opt_str (dict_get d ''path'' PNone)) (\<lambda>path. Inr ([r], OutputOp n path)))))"

definition format_op_from_json :: "spec \<Rightarrow> (ref, dsl_op) dict \<Rightarrow> (ref list \<times> op_body) result" where
  "format_op_from_json d heap =
     ebind (str_list_field d ''format_args'') (\<lambda>as. ebind (emap (other_op heap) as) (\<lambda>args.
     ebind (dict_index d ''format_kwargs'') (\<lambda>v. ebind (as_dict v) (\<lambda>kv.
     ebind (emap (\<lambda>(k, v). ebind (as_str v) (\<lambda>s. ebind (other_op heap s) (\<lambda>r. Inr (k, r)))) kv) (\<lambda>kwargs.
     ebind (str_field d ''template'') (\<lambda>t.
       if list_ex (\<lambda>(k, r). k \<in> {''self'', ''template''}) kwargs then Inl (TypeError ''multiple values for an argument'')
       else Inr (make_format_op t args kwargs)))))))"

definition lambda_op_from_json :: "(string \<Rightarrow> string result) \<Rightarrow> spec \<Rightarrow> (ref, dsl_op) dict \<Rightarrow> (ref list \<times> op_body) result" where
  "lambda_op_from_json materialize d heap =
     (if \<not> py_truthy (dict_get d ''fn_name'' PNone) \<or> \<not> py_truthy (dict_get d ''_code'' PNone)
      then Inl (ValueError ''LambdaOp serialization missing function code or name'')
      else ebind (str_field d ''_code'') (\<lambda>code. ebind (materialize code) (\<lambda>name.
        ebind (str_list_field d ''_inputs'') (\<lambda>ids. ebind (emap (other_op heap) ids) (\<lambda>inputs.
          Inr (inputs, LambdaOp name code))))))"

definition chat_op_from_json :: "spec \<Rightarrow> (ref, dsl_op) dict \<Rightarrow> (ref list \<times> op_body) result" where
  "chat_op_from_json d heap =
     ebind (str_field d ''messages'') (\<lambda>mid. ebind (other_op heap mid) (\<lambda>r. ebind (chat_from_json d) (\<lambda>c. Inr ([r], LLMChatOp c))))"

definition vision_op_from_json :: "spec \<Rightarrow> (ref, dsl_op) dict \<Rightarrow> (ref list \<times> op_body) result" where
  "vision_op_from_json d heap =
     ebind (str_field d ''messages'') (\<lambda>mid. ebind (other_op heap mid) (\<lambda>r. ebind (chat_from_json d) (\<lambda>c.
     ebind (as_str (dict_get d ''image_source'' (PStr []))) (\<lambda>src.
     ebind (as_str (dict_get d ''image_path'' (PStr ''images''))) (\<lambda>path.
       if src = [] then Inl (ValueError ''LLMVisionOp requires image_source'')
       else Inr (r # (if src \<in> set (dict_keys heap) then [src] else []),
         LLMVisionOp (c\<lparr>ch_structural_outputs := PNone, ch_aggregate_table := PNone, ch_condition := PNone\<rparr>) src path))))))"

definition embedding_op_from_json :: "spec \<Rightarrow> (ref, dsl_op) dict \<Rightarrow> (ref list \<times> op_body) result" where
  "embedding_op_from_json d heap = ebind (content_from_json d heap) (\<lambda>(r, config, cache). Inr ([r], EmbeddingOp config cache))"

definition image_op_from_json :: "spec \<Rightarrow> (ref, dsl_op) dict \<Rightarrow> (ref list \<times> op_body) result" where
  "image_op_from_json d heap = ebind (content_from_json d heap) (\<lambda>(r, config, cache). Inr ([r], ImageGenerationOp config cache))"

text \<open>The registry of op classes.\<close>

definition body_from_json :: "(string \<Rightarrow> string result) \<Rightarrow> string \<Rightarrow> spec \<Rightarrow> (ref, dsl_op) dict \<Rightarrow> (ref list \<times> op_body) result" where
  "body_from_json materialize cls d heap =
     (if cls = ''DataOp'' then data_op_from_json d
      else if cls = ''DataRetrievalOp'' then retrieval_op_from_json d heap
      else if cls = ''MessageOp'' then message_op_from_json d heap
      else if cls = ''InputOp'' then input_op_from_json d
      else if cls = ''OutputOp'' then output_op_from_json d heap
      else if cls = ''FormatOp'' then format_op_from_json d heap
      else if cls = ''LambdaOp'' then lambda_op_from_json materialize d heap
      else if cls = ''LLMChatOp'' then chat_op_from_json d heap
      else if cls = ''LLMVisionOp'' then vision_op_from_json d heap
      else if cls = ''EmbeddingOp'' then embedding_op_from_json d heap
      else if cls = ''ImageGenerationOp'' then image_op_from_json d heap
      else Inl KeyError)"

lemmas body_from_json_defs =
  body_from_json_def data_op_from_json_def retrieval_op_from_json_def message_op_from_json_def input_op_from_json_def
  output_op_from_json_def format_op_from_json_def lambda_op_from_json_def chat_op_from_json_def vision_op_from_json_def
  embedding_op_from_json_def image_op_from_json_def

definition op_from_json :: "(string \<Rightarrow> string result) \<Rightarrow> pyval \<Rightarrow> (ref, dsl_op) dict \<Rightarrow> dsl_op result" where
  "op_from_json materialize v heap =
     ebind (as_dict v) (\<lambda>d. ebind (str_field d ''_op'') (\<lambda>cls.
     ebind (body_from_json materialize cls d heap) (\<lambda>(inputs, body).
     ebind (str_field d ''_id'') (\<lambda>i. ebind (dict_index d ''_max_iter'') (\<lambda>mi. ebind (opt_int mi) (\<lambda>max_iter.
       Inr \<lparr>d_id = i, d_inputs = inputs, d_max_iter = max_iter, d_body = body\<rparr>))))))"

section \<open>Graphs\<close>

text \<open>The store of the ops, the dict from ids, and the named inputs and outputs.\<close>

record dsl_graph =
  dg_heap :: "(ref, dsl_op) dict"
  dg_ids :: "(string, ref) dict"
  dg_inputs :: "(string, ref) dict"
  dg_outputs :: "(string, ref) dict"

definition deref :: "dsl_graph \<Rightarrow> ref \<Rightarrow> dsl_op option" where
  "deref g r = map_of (dg_heap g) r"

definition graph_op :: "dsl_graph \<Rightarrow> string \<Rightarrow> dsl_op option" where
  "graph_op g i = Option.bind (map_of (dg_ids g) i) (deref g)"

text \<open>\<open>iter_ops\<close>: the ops in topological order.\<close>

definition iter_ops :: "dsl_graph \<Rightarrow> dsl_op list" where
  "iter_ops g = concat (map (\<lambda>(i, r). case deref g r of None \<Rightarrow> [] | Some op \<Rightarrow> [op]) (dg_ids g))"

definition dsl_node_count :: "dsl_graph \<Rightarrow> nat" where
  "dsl_node_count g = length (dg_ids g)"

fun name_tables :: "(ref \<times> dsl_op) list \<Rightarrow> (string, ref) dict \<times> (string, ref) dict \<Rightarrow> ((string, ref) dict \<times> (string, ref) dict) result" where
  "name_tables [] s = Inr s"
| "name_tables ((r, op) # ops) (ins, outs) =
     (case d_body op of
        InputOp n \<Rightarrow>
          if n \<in> set (dict_keys ins) then Inl (ValueError ''Duplicate input name'') else name_tables ops (AList.update n r ins, outs)
      | OutputOp n p \<Rightarrow>
          if n \<in> set (dict_keys outs) then Inl (ValueError ''Duplicate output name'') else name_tables ops (ins, AList.update n r outs)
      | _ \<Rightarrow> name_tables ops (ins, outs))"

text \<open>\<open>dependencies()\<close>: from an op to the ops that read it. An op that reads nothing and is not read is in no entry.\<close>

definition dsl_dependencies :: "(ref \<times> dsl_op) list \<Rightarrow> (ref, ref list) dict" where
  "dsl_dependencies ops =
     foldl (\<lambda>deps (r, op). foldl (\<lambda>deps d. AList.update d (set_add r (dict_get deps d [])) deps) deps (d_inputs op)) [] ops"

text \<open>The constructor of a graph from its ops by key.\<close>

definition graph_of :: "(ref, dsl_op) dict \<Rightarrow> dsl_graph result" where
  "graph_of ops =
     ebind (name_tables ops ([], [])) (\<lambda>(ins, outs).
     ebind (topological_sort (dsl_dependencies ops) (None :: (ref \<Rightarrow> nat) option)) (\<lambda>order.
     ebind (emap (\<lambda>r. ebind (dict_index ops r) (\<lambda>op. Inr (d_id op, r))) order) (\<lambda>rows.
       Inr \<lparr>dg_heap = ops, dg_ids = dict_of rows, dg_inputs = ins, dg_outputs = outs\<rparr>)))"

definition graph_from_json :: "(string \<Rightarrow> string result) \<Rightarrow> spec \<Rightarrow> dsl_graph result" where
  "graph_from_json materialize json =
     ebind (efold (\<lambda>(k, v) heap. ebind (op_from_json materialize v heap) (\<lambda>op. Inr (AList.update k op heap))) json []) graph_of"

record compiled_graph =
  cg_graph :: dsl_graph
  cg_inputs :: "(string, string list) dict"

text \<open>\<open>compile(**inputs)\<close>; the checks of the values come after those of the names.\<close>

definition compile_graph :: "dsl_graph \<Rightarrow> spec \<Rightarrow> compiled_graph result" where
  "compile_graph g inputs =
     (if ''self'' \<in> set (dict_keys inputs) then Inl (TypeError ''multiple values for argument self'')
      else if length inputs \<noteq> length (dg_inputs g) then Inl (ValueError ''Expected another number of inputs'')
      else if list_ex (\<lambda>n. n \<notin> set (dict_keys inputs)) (dict_keys (dg_inputs g)) then Inl (ValueError ''Missing input'')
      else ebind (emap (\<lambda>(n, v). case v of
             PList vs \<Rightarrow> ebind (emap (\<lambda>v. case v of PStr s \<Rightarrow> Inr s | _ \<Rightarrow> Inl (ValueError ''Input contains a non-string value'')) vs) (\<lambda>ss. Inr (n, ss))
           | _ \<Rightarrow> Inl (ValueError ''Input is not a list'')) inputs)
         (\<lambda>ins. Inr \<lparr>cg_graph = g, cg_inputs = ins\<rparr>))"

text \<open>\<open>parse_query\<close> of the server: every graph of a request.\<close>

definition parse_query :: "(string \<Rightarrow> string result) \<Rightarrow> (string, spec \<times> spec) dict \<Rightarrow> (string, compiled_graph) dict result" where
  "parse_query materialize query =
     emap (\<lambda>(n, gj, ins). ebind (graph_from_json materialize gj) (\<lambda>g. ebind (compile_graph g ins) (\<lambda>c. Inr (n, c)))) query"

section \<open>Writing an op\<close>

definition input_ref :: "dsl_op \<Rightarrow> nat \<Rightarrow> ref result" where
  "input_ref op i = (if i < length (d_inputs op) then Inr (d_inputs op ! i) else Inl IndexError)"

definition ref_id :: "(ref, dsl_op) dict \<Rightarrow> ref \<Rightarrow> string result" where
  "ref_id heap r = ebind (dict_index heap r) (\<lambda>op. Inr (d_id op))"

definition input_id :: "(ref, dsl_op) dict \<Rightarrow> dsl_op \<Rightarrow> nat \<Rightarrow> string result" where
  "input_id heap op i = ebind (input_ref op i) (ref_id heap)"

definition chat_to_json :: "chat_fields \<Rightarrow> string \<Rightarrow> spec" where
  "chat_to_json c mid =
     [(''messages'', PStr mid), (''config'', PDict (ch_config c)), (''return_history'', ch_return_history c), (''cacheable'', ch_cacheable c)] @
     filter (\<lambda>(k, v). v \<noteq> PNone)
       [(''structural_outputs'', ch_structural_outputs c), (''aggregate_table'', ch_aggregate_table c),
        (''rowwise_template'', ch_rowwise_template c), (''rowwise_columns'', ch_rowwise_columns c),
        (''system_messages'', ch_system_messages c), (''condition'', ch_condition c)]"

definition message_op_to_json :: "(ref, dsl_op) dict \<Rightarrow> dsl_op \<Rightarrow> string list \<Rightarrow> (nat + string) list \<Rightarrow> spec result" where
  "message_op_to_json heap op roles refs =
     ebind (emap (\<lambda>(role, m). ebind (case m of Inr s \<Rightarrow> Inr s | Inl i \<Rightarrow> input_id heap op i) (\<lambda>c.
         Inr (PDict [(''role'', PStr role), (''content'', PStr c)]))) (zip roles refs))
       (\<lambda>ms. Inr [(''messages'', PList ms)])"

definition output_op_to_json :: "string \<Rightarrow> string option \<Rightarrow> spec" where
  "output_op_to_json n path = (''name'', PStr n) # (case path of None \<Rightarrow> [] | Some p \<Rightarrow> [(''path'', PStr p)])"

definition format_op_to_json :: "(ref, dsl_op) dict \<Rightarrow> dsl_op \<Rightarrow> string \<Rightarrow> nat list \<Rightarrow> (string, nat) dict \<Rightarrow> spec result" where
  "format_op_to_json heap op t args kwargs =
     ebind (emap (input_id heap op) args) (\<lambda>as.
     ebind (emap (\<lambda>(k, i). ebind (input_id heap op i) (\<lambda>s. Inr (k, PStr s))) kwargs) (\<lambda>ks.
       Inr [(''template'', PStr t), (''format_args'', pstrs as), (''format_kwargs'', PDict ks)]))"

definition lambda_op_to_json :: "(ref, dsl_op) dict \<Rightarrow> dsl_op \<Rightarrow> string \<Rightarrow> string \<Rightarrow> spec result" where
  "lambda_op_to_json heap op n code =
     ebind (emap (ref_id heap) (d_inputs op)) (\<lambda>ids.
       Inr [(''fn_name'', PStr n), (''_code'', PStr code), (''_inputs'', pstrs ids)])"

definition content_op_to_json :: "(ref, dsl_op) dict \<Rightarrow> dsl_op \<Rightarrow> spec \<Rightarrow> pyval \<Rightarrow> spec result" where
  "content_op_to_json heap op config cache =
     ebind (input_id heap op 0) (\<lambda>cid. Inr [(''content'', PStr cid), (''config'', PDict config), (''cacheable'', cache)])"

definition vision_op_to_json :: "(ref, dsl_op) dict \<Rightarrow> dsl_op \<Rightarrow> chat_fields \<Rightarrow> string \<Rightarrow> string \<Rightarrow> spec result" where
  "vision_op_to_json heap op c src path =
     ebind (input_id heap op 0) (\<lambda>mid. Inr (chat_to_json c mid @ [(''image_source'', PStr src), (''image_path'', PStr path)]))"

fun body_to_json :: "(ref, dsl_op) dict \<Rightarrow> dsl_op \<Rightarrow> op_body \<Rightarrow> spec result" where
  "body_to_json heap op (DataOp v) = Inr [(''data'', v)]"
| "body_to_json heap op (DataRetrievalOp v) = Inr [(''data_spec'', v)]"
| "body_to_json heap op (MessageOp roles refs) = message_op_to_json heap op roles refs"
| "body_to_json heap op (InputOp n) = Inr [(''name'', PStr n)]"
| "body_to_json heap op (OutputOp n path) = Inr (output_op_to_json n path)"
| "body_to_json heap op (FormatOp t args kwargs) = format_op_to_json heap op t args kwargs"
| "body_to_json heap op (LambdaOp n code) = lambda_op_to_json heap op n code"
| "body_to_json heap op (LLMChatOp c) = ebind (input_id heap op 0) (\<lambda>mid. Inr (chat_to_json c mid))"
| "body_to_json heap op (LLMVisionOp c src path) = vision_op_to_json heap op c src path"
| "body_to_json heap op (EmbeddingOp config cache) = content_op_to_json heap op config cache"
| "body_to_json heap op (ImageGenerationOp config cache) = content_op_to_json heap op config cache"

lemmas body_to_json_defs =
  message_op_to_json_def output_op_to_json_def format_op_to_json_def lambda_op_to_json_def content_op_to_json_def vision_op_to_json_def

definition op_to_json :: "(ref, dsl_op) dict \<Rightarrow> dsl_op \<Rightarrow> spec result" where
  "op_to_json heap op =
     ebind (body_to_json heap op (d_body op)) (\<lambda>d.
     ebind (emap (ref_id heap) (d_inputs op)) (\<lambda>ids.
       Inr (AList.update ''_inputs'' (pstrs ids) (AList.update ''_max_iter'' (case d_max_iter op of None \<Rightarrow> PNone | Some i \<Rightarrow> PInt i)
         (AList.update ''_op'' (PStr (op_class (d_body op))) (AList.update ''_id'' (PStr (d_id op)) d))))))"

definition graph_to_json :: "dsl_graph \<Rightarrow> spec result" where
  "graph_to_json g =
     emap (\<lambda>(i, r). ebind (dict_index (dg_heap g) r) (\<lambda>op. ebind (op_to_json (dg_heap g) op) (\<lambda>d. Inr (i, PDict d)))) (dg_ids g)"

section \<open>Traversal and copies\<close>

text \<open>
  The recursive traversal with the ops still to visit as a list: an op is entered in front of
  its inputs, and an input is skipped when its id is in the dict by then.
\<close>

function (sequential) visit_ops :: "(ref, dsl_op) dict \<Rightarrow> ref list \<Rightarrow> (string, ref) dict \<Rightarrow> (string, ref) dict" where
  "visit_ops heap [] seen = seen"
| "visit_ops heap (r # rs) seen =
     (case map_of heap r of
        None \<Rightarrow> visit_ops heap rs seen
      | Some op \<Rightarrow>
          if d_id op \<in> set (dict_keys seen) then visit_ops heap rs seen
          else visit_ops heap (d_inputs op @ rs) (seen @ [(d_id op, r)]))"
  by pat_completeness auto
termination
proof (relation "measures [\<lambda>(heap, rs, seen). card (d_id ` set (dict_values heap) - set (dict_keys seen)), \<lambda>(heap, rs, seen). length rs]")
  fix heap :: "(ref, dsl_op) dict" and r rs op and seen :: "(string, ref) dict"
  assume "map_of heap r = Some op" and new: "d_id op \<notin> set (dict_keys seen)"
  then have "d_id op \<in> d_id ` set (dict_values heap)" by (force dest: map_of_SomeD)
  with new have "d_id ` set (dict_values heap) - set (dict_keys (seen @ [(d_id op, r)])) \<subset> d_id ` set (dict_values heap) - set (dict_keys seen)"
    by auto
  then have "card (d_id ` set (dict_values heap) - set (dict_keys (seen @ [(d_id op, r)]))) < card (d_id ` set (dict_values heap) - set (dict_keys seen))"
    by (rule psubset_card_mono [rotated]) simp
  then show "((heap, d_inputs op @ rs, seen @ [(d_id op, r)]), heap, r # rs, seen)
      \<in> measures [\<lambda>(heap, rs, seen). card (d_id ` set (dict_values heap) - set (dict_keys seen)), \<lambda>(heap, rs, seen). length rs]"
    by simp
qed auto

definition traverse_graph :: "(ref, dsl_op) dict \<Rightarrow> ref \<Rightarrow> (string, ref) dict \<Rightarrow> (string, ref) dict result" where
  "traverse_graph heap r seen =
     ebind (dict_index heap r) (\<lambda>op.
       if d_id op \<in> set (dict_keys seen) then Inl AssertionError else Inr (visit_ops heap [r] seen))"

text \<open>\<open>from_ops\<close> builds a graph of what the output ops reach.\<close>

definition graph_from_ops :: "(ref, dsl_op) dict \<Rightarrow> ref list \<Rightarrow> dsl_graph result" where
  "graph_from_ops heap outputs =
     ebind (efold (traverse_graph heap) outputs []) (\<lambda>seen.
     ebind (emap (\<lambda>(i, r). ebind (dict_index heap r) (\<lambda>op. Inr (r, op))) seen) graph_of)"

text \<open>
  A copy has objects of its own: the references are those of a new store. \<open>fresh\<close> gives the
  ids of the new ops when they are wanted.
\<close>

definition copy_op :: "(ref \<Rightarrow> string) option \<Rightarrow> ref \<Rightarrow> dsl_op \<Rightarrow> dsl_op" where
  "copy_op fresh r op = (case fresh of None \<Rightarrow> op | Some f \<Rightarrow> op\<lparr>d_id := f r\<rparr>)"

definition copy_graph :: "(ref \<Rightarrow> string) option \<Rightarrow> dsl_graph \<Rightarrow> dsl_graph result" where
  "copy_graph fresh g =
     ebind (emap (\<lambda>(i, r). ebind (dict_index (dg_heap g) r) (\<lambda>op. Inr (r, copy_op fresh r op))) (dg_ids g)) (\<lambda>heap.
       if list_ex (\<lambda>(r, op). list_ex (\<lambda>d. d \<notin> set (dict_keys heap)) (d_inputs op)) heap then Inl KeyError
       else graph_from_ops heap (map fst (filter (\<lambda>(r, op). case d_body op of OutputOp _ _ \<Rightarrow> True | _ \<Rightarrow> False) heap)))"

definition set_looping :: "bool \<Rightarrow> int option \<Rightarrow> dsl_op \<Rightarrow> dsl_op" where
  "set_looping looping max_iter op =
     op\<lparr>d_max_iter := (if looping then Some (case max_iter of None \<Rightarrow> -1 | Some n \<Rightarrow> n) else None)\<rparr>"

section \<open>Well-typed ops\<close>

lemma intern_facts:
  assumes "intern r ins = (i, ins')"
  shows "i < length ins'" "ins' ! i = r" "\<exists>zs. ins' = ins @ zs" "set ins' = insert r (set ins)"
proof -
  have "length (takeWhile (\<lambda>x. x \<noteq> r) ins) < length ins \<and> ins ! length (takeWhile (\<lambda>x. x \<noteq> r) ins) = r" if "r \<in> set ins"
    using that by (induction ins) auto
  with assms show "i < length ins'" "ins' ! i = r" "\<exists>zs. ins' = ins @ zs" "set ins' = insert r (set ins)"
    by (auto simp: intern_def split: if_splits)
qed

lemma intern_all_facts:
  assumes "intern_all rs ins = (is, ins')"
  shows "length is = length rs" "map ((!) ins') is = rs" "\<forall>i \<in> set is. i < length ins'" "\<exists>zs. ins' = ins @ zs" "set ins' = set ins \<union> set rs"
proof -
  have "length is = length rs \<and> map ((!) ins') is = rs \<and> (\<forall>i \<in> set is. i < length ins') \<and> (\<exists>zs. ins' = ins @ zs) \<and> set ins' = set ins \<union> set rs"
    using assms
  proof (induction rs arbitrary: ins "is")
    case (Cons r rs)
    obtain i ins1 where i: "intern r ins = (i, ins1)" by fastforce
    obtain is1 where r: "intern_all rs ins1 = (is1, ins')" "is = i # is1" using Cons.prems i by (auto split: prod.splits)
    note f = intern_facts [OF i]
    from Cons.IH [OF r(1)] obtain zs where zs: "ins' = ins1 @ zs" by blast
    have "i < length ins'" "ins' ! i = r" using f(1,2) by (simp_all add: zs nth_append)
    with Cons.IH [OF r(1)] f(3,4) zs r(2) show ?case by auto
  qed simp
  then show "length is = length rs" "map ((!) ins') is = rs" "\<forall>i \<in> set is. i < length ins'" "\<exists>zs. ins' = ins @ zs" "set ins' = set ins \<union> set rs"
    by blast+
qed

fun same_message :: "ref list \<Rightarrow> ref + string \<Rightarrow> nat + string \<Rightarrow> bool" where
  "same_message ins (Inl r) (Inl i) \<longleftrightarrow> i < length ins \<and> ins ! i = r"
| "same_message ins (Inr s) (Inr t) \<longleftrightarrow> s = t"
| "same_message ins _ _ \<longleftrightarrow> False"

lemma same_message_more: "same_message ins m r \<Longrightarrow> same_message (ins @ zs) m r"
  by (cases m; cases r) (auto simp: nth_append)

lemma message_refs_facts:
  assumes "message_refs ms ins = (rs, ins')"
  shows "list_all2 (same_message ins') ms rs" "\<exists>zs. ins' = ins @ zs" "set ins' = set ins \<union> {r. Inl r \<in> set ms}"
proof -
  have "list_all2 (same_message ins') ms rs \<and> (\<exists>zs. ins' = ins @ zs) \<and> set ins' = set ins \<union> {r. Inl r \<in> set ms}"
    using assms
  proof (induction ms ins arbitrary: rs rule: message_refs.induct)
    case (2 s ms ins)
    then show ?case by (auto split: prod.splits)
  next
    case (3 r ms ins)
    obtain i ins1 where i: "intern r ins = (i, ins1)" by fastforce
    obtain rs1 where r: "message_refs ms ins1 = (rs1, ins')" "rs = Inl i # rs1" using "3.prems" i by (auto split: prod.splits)
    note f = intern_facts [OF i]
    from "3.IH" [OF i [symmetric] refl r(1)] obtain zs where zs: "ins' = ins1 @ zs" "list_all2 (same_message ins') ms rs1"
      "set ins' = set ins1 \<union> {r. Inl r \<in> set ms}" by blast
    have "i < length ins'" "ins' ! i = r" using f(1,2) by (simp_all add: zs(1) nth_append)
    with zs f(3,4) r(2) show ?case by auto
  qed simp
  then show "list_all2 (same_message ins') ms rs" "\<exists>zs. ins' = ins @ zs" "set ins' = set ins \<union> {r. Inl r \<in> set ms}" by blast+
qed

definition config_typed :: "spec \<Rightarrow> bool" where
  "config_typed config \<longleftrightarrow> dict_keys config = config_fields"

text \<open>
  What the constructors guarantee: the inputs of an op fit its class, and the indices of message
  and format ops point at inputs.
\<close>

fun body_typed :: "ref list \<Rightarrow> op_body \<Rightarrow> bool" where
  "body_typed ins (DataOp _) \<longleftrightarrow> ins = []"
| "body_typed ins (DataRetrievalOp _) \<longleftrightarrow> True"
| "body_typed ins (MessageOp roles refs) \<longleftrightarrow>
     length roles = length refs \<and> list_all (\<lambda>m. case m of Inl i \<Rightarrow> i < length ins | Inr _ \<Rightarrow> True) refs"
| "body_typed ins (InputOp _) \<longleftrightarrow> ins = []"
| "body_typed ins (OutputOp _ _) \<longleftrightarrow> length ins = 1"
| "body_typed ins (FormatOp _ args kwargs) \<longleftrightarrow>
     list_all (\<lambda>i. i < length ins) args \<and> list_all (\<lambda>i. i < length ins) (dict_values kwargs) \<and> distinct (dict_keys kwargs)"
| "body_typed ins (LambdaOp _ code) \<longleftrightarrow> code \<noteq> []"
| "body_typed ins (LLMChatOp c) \<longleftrightarrow> length ins = 1 \<and> config_typed (ch_config c)"
| "body_typed ins (LLMVisionOp c src _) \<longleftrightarrow>
     src \<noteq> [] \<and> ins \<noteq> [] \<and> tl ins \<in> {[], [src]} \<and> config_typed (ch_config c) \<and>
     ch_structural_outputs c = PNone \<and> ch_aggregate_table c = PNone \<and> ch_condition c = PNone"
| "body_typed ins (EmbeddingOp config _) \<longleftrightarrow> length ins = 1 \<and> config_typed config"
| "body_typed ins (ImageGenerationOp config _) \<longleftrightarrow> length ins = 1 \<and> config_typed config"

definition op_typed :: "ref set \<Rightarrow> dsl_op \<Rightarrow> bool" where
  "op_typed refs op \<longleftrightarrow> set (d_inputs op) \<subseteq> refs \<and> body_typed (d_inputs op) (d_body op)"

lemma make_config_typed: "make_config kw = Inr config \<Longrightarrow> config_typed config"
  by (auto simp: make_config_def config_typed_def comp_def split: if_splits)

lemma chat_from_json_typed: "chat_from_json d = Inr c \<Longrightarrow> config_typed (ch_config c)"
  by (auto simp: chat_from_json_def ebind_Inr_iff make_config_typed)

lemma content_from_json_typed: "content_from_json d heap = Inr (r, config, cache) \<Longrightarrow> config_typed config \<and> r \<in> set (dict_keys heap)"
  by (auto simp: content_from_json_def ebind_Inr_iff make_config_typed other_op_def split: if_splits)

lemma other_ops_known: "emap (other_op heap) ids = Inr rs \<Longrightarrow> rs = ids \<and> set ids \<subseteq> set (dict_keys heap)"
  by (induction ids arbitrary: rs) (auto simp: ebind_Inr_iff other_op_def split: if_splits)

lemma set_dict_values_dict_of: "set (dict_values (dict_of ps)) \<subseteq> set (dict_values ps)"
proof (induction ps rule: rev_induct)
  case (snoc p ps)
  have upd: "set (dict_values (AList.update k v d)) \<subseteq> insert v (set (dict_values d))" for k :: 'c and v :: 'd and d :: "('c, 'd) dict"
    by (induction d) auto
  obtain k v where p: "p = (k, v)" by (cases p)
  have "insert v (set (dict_values (dict_of ps))) \<subseteq> insert v (set (dict_values ps))" by (rule insert_mono [OF snoc])
  with upd [of k v "dict_of ps"] have "set (dict_values (AList.update k v (dict_of ps))) \<subseteq> insert v (set (dict_values ps))" by (rule subset_trans)
  then show ?case by (simp add: p dict_of_snoc)
qed (simp add: dict_of_def)

lemma message_body_typed:
  assumes "emap (message_from_json heap) ms = Inr msgs" and "message_refs (map snd msgs) [] = (refs, ins)"
  shows "set ins \<subseteq> set (dict_keys heap) \<and> body_typed ins (MessageOp (map fst msgs) refs)"
proof -
  note f = message_refs_facts [OF assms(2)]
  have msg: "message_from_json heap m = Inr (role, Inl r) \<Longrightarrow> r \<in> set (dict_keys heap)" for m role r
  proof -
    assume "message_from_json heap m = Inr (role, Inl r)"
    then obtain d content where "(if content \<in> set (dict_keys heap) then Inl content else Inr content) = (Inl r :: ref + string)"
      by (simp only: message_from_json_def ebind_Inr_iff) blast
    then show ?thesis by (cases "content \<in> set (dict_keys heap)") simp_all
  qed
  have "r \<in> set (dict_keys heap)" if r: "Inl r \<in> snd ` set msgs" for r
  proof -
    from r obtain role where "(role, Inl r) \<in> set msgs" by force
    from emap_mem_rev [OF assms(1) this] msg show ?thesis by blast
  qed
  with f(3) have "set ins \<subseteq> set (dict_keys heap)" by auto
  moreover have "list_all (\<lambda>m. case m of Inl i \<Rightarrow> i < length ins | Inr _ \<Rightarrow> True) refs"
  proof -
    have "case r of Inl i \<Rightarrow> i < length ins | Inr _ \<Rightarrow> True" if "same_message ins m r" for m r
      using that by (cases m; cases r) auto
    with f(1) show ?thesis by (auto simp: list_all_length list_all2_conv_all_nth)
  qed
  ultimately show ?thesis using list_all2_lengthD [OF f(1)] by simp
qed

lemma format_body_typed:
  assumes "intern_all args [] = (is, mid)" and "intern_all (map snd kwargs) mid = (js, ins)"
    and "set args \<union> set (map snd kwargs) \<subseteq> K"
  shows "set ins \<subseteq> K \<and> body_typed ins (FormatOp t is (dict_of (zip (map fst kwargs) js)))"
proof -
  note a = intern_all_facts [OF assms(1)] and b = intern_all_facts [OF assms(2)]
  from b(4) obtain zs where "ins = mid @ zs" by blast
  with a(3) have "list_all (\<lambda>i. i < length ins) is" by (auto simp: list_all_iff)
  moreover have "list_all (\<lambda>i. i < length ins) (dict_values (dict_of (zip (map fst kwargs) js)))"
    using b(3) set_dict_values_dict_of [of "zip (map fst kwargs) js"] by (auto simp: list_all_iff dest!: subsetD dest: set_zip_rightD)
  moreover have "set ins \<subseteq> K" using a(5) b(5) assms(3) by auto
  ultimately show ?thesis using dict_of_distinct_keys [of "zip (map fst kwargs) js"] by simp
qed


lemma body_from_json_typed:
  assumes "body_from_json materialize cls d heap = Inr (ins, body)"
  shows "set ins \<subseteq> set (dict_keys heap) \<and> body_typed ins body"
proof -
  consider "cls = ''DataOp''" | "cls = ''DataRetrievalOp''" | "cls = ''MessageOp''" | "cls = ''InputOp''" | "cls = ''OutputOp''"
    | "cls = ''FormatOp''" | "cls = ''LambdaOp''" | "cls = ''LLMChatOp''" | "cls = ''LLMVisionOp''" | "cls = ''EmbeddingOp''" | "cls = ''ImageGenerationOp''"
    using assms by (auto simp: body_from_json_defs split: if_splits)
  then show ?thesis
  proof cases
    case 2
    with assms show ?thesis
      by (auto simp: body_from_json_defs ebind_Inr_iff split: if_splits dest!: other_ops_known)
  next
    case 3
    with assms obtain ms msgs where "emap (message_from_json heap) ms = Inr msgs" "make_message_op msgs = (ins, body)"
      by (auto simp: body_from_json_defs ebind_Inr_iff)
    with message_body_typed show ?thesis by (auto simp: make_message_op_def split: prod.splits)
  next
    case 6
    with assms obtain as args kv kwargs t where
      a: "emap (other_op heap) as = Inr args" and kw: "emap (\<lambda>(k, v). ebind (as_str v) (\<lambda>s. ebind (other_op heap s) (\<lambda>r. Inr (k, r)))) kv = Inr kwargs"
      and b: "make_format_op t args kwargs = (ins, body)"
      by (auto simp: body_from_json_defs ebind_Inr_iff split: if_splits)
    have "r \<in> set (dict_keys heap)" if r: "(k, r) \<in> set kwargs" for k r
    proof -
      obtain p where "ebind (as_str (snd p)) (\<lambda>s. ebind (other_op heap s) (\<lambda>r. Inr (fst p, r))) = Inr (k, r)"
        using emap_mem_rev [OF kw r] by (auto simp: case_prod_beta)
      then show ?thesis by (auto simp only: ebind_Inr_iff other_op_def split: if_splits)
    qed
    then have "set args \<union> set (map snd kwargs) \<subseteq> set (dict_keys heap)" using other_ops_known [OF a] by auto
    from format_body_typed [OF _ _ this] b show ?thesis by (auto simp: make_format_op_def split: prod.splits)
  next
    case 7
    with assms show ?thesis by (auto simp: body_from_json_defs ebind_Inr_iff str_field_def as_str_def dict_get_def dict_index_def
      split: if_splits option.splits pyval.splits dest!: other_ops_known)
  next
    case 9
    with assms show ?thesis
      by (auto simp: body_from_json_defs ebind_Inr_iff other_op_def simp del: set_map split: if_splits dest!: chat_from_json_typed)
  next
    case 10
    with assms show ?thesis by (auto simp: body_from_json_defs ebind_Inr_iff dest!: content_from_json_typed split: prod.splits)
  next
    case 11
    with assms show ?thesis by (auto simp: body_from_json_defs ebind_Inr_iff dest!: content_from_json_typed split: prod.splits)
  qed (use assms in \<open>auto simp: body_from_json_defs ebind_Inr_iff other_op_def simp del: set_map split: if_splits dest!: chat_from_json_typed\<close>)
qed


lemma op_from_json_typed: "op_from_json materialize v heap = Inr op \<Longrightarrow> op_typed (set (dict_keys heap)) op"
  by (auto simp: op_from_json_def ebind_Inr_iff op_typed_def simp del: set_map dest!: body_from_json_typed)

lemma op_typed_mono: "op_typed K op \<Longrightarrow> K \<subseteq> L \<Longrightarrow> op_typed L op"
  by (auto simp: op_typed_def)

definition heap_typed :: "(ref, dsl_op) dict \<Rightarrow> bool" where
  "heap_typed heap \<longleftrightarrow> distinct (dict_keys heap) \<and> (\<forall>r op. map_of heap r = Some op \<longrightarrow> op_typed (set (dict_keys heap)) op)"

lemma heap_typed_update:
  assumes "heap_typed heap" and "op_typed (set (dict_keys heap)) op"
  shows "heap_typed (AList.update r op heap)"
proof -
  have keys: "set (dict_keys (AList.update r op heap)) = insert r (set (dict_keys heap))" by (auto simp: dict_keys_update)
  have "op_typed (insert r (set (dict_keys heap))) op'" if "map_of (AList.update r op heap) q = Some op'" for q op'
  proof (rule op_typed_mono [OF _ subset_insertI])
    show "op_typed (set (dict_keys heap)) op'"
      using that assms by (cases "q = r") (auto simp: heap_typed_def map_of_update simp del: set_map)
  qed
  moreover have "distinct (dict_keys (AList.update r op heap))" using assms(1) by (simp add: heap_typed_def)
  ultimately show ?thesis unfolding heap_typed_def keys by blast
qed

lemma name_tables_facts:
  assumes "name_tables ops (ins, outs) = Inr (ins', outs')"
  shows "map_of ins' n = Some r \<longleftrightarrow> map_of ins n = Some r \<or> (\<exists>op. (r, op) \<in> set ops \<and> d_body op = InputOp n)" (is ?I)
    and "map_of outs' n = Some r \<longleftrightarrow> map_of outs n = Some r \<or> (\<exists>op p. (r, op) \<in> set ops \<and> d_body op = OutputOp n p)" (is ?O)
proof -
  have "?I \<and> ?O" using assms
  proof (induction ops arbitrary: ins outs)
    case (Cons p ops)
    obtain q op where p: "p = (q, op)" by (cases p)
    show ?case
    proof (cases "d_body op")
      case (InputOp m)
      with Cons.prems have new: "map_of ins m = None" and run: "name_tables ops (AList.update m q ins, outs) = Inr (ins', outs')"
        by (auto split: if_splits simp: p map_of_eq_None_iff)
      from Cons.IH [OF run] InputOp new show ?thesis by (auto simp: p map_of_update split: if_splits)
    next
      case (OutputOp m path)
      with Cons.prems have new: "map_of outs m = None" and run: "name_tables ops (ins, AList.update m q outs) = Inr (ins', outs')"
        by (auto split: if_splits simp: p map_of_eq_None_iff)
      from Cons.IH [OF run] OutputOp new show ?thesis by (auto simp: p map_of_update split: if_splits)
    qed (use Cons.IH [of ins outs] Cons.prems in \<open>auto simp: p\<close>)
  qed simp
  then show ?I ?O by blast+
qed

lemma dsl_dependencies_facts:
  shows "distinct (dict_keys (dsl_dependencies ops))"
    and "set (layer_edges (dsl_dependencies ops)) = {(d, r). \<exists>op. (r, op) \<in> set ops \<and> d \<in> set (d_inputs op)}"
proof -
  let ?add = "\<lambda>r deps d. AList.update d (set_add r (dict_get deps d [])) deps"
  have edges: "set (layer_edges d) = {(a, b). b \<in> set (dict_get d a [])}" if "distinct (dict_keys d)" for d :: "(ref, ref list) dict"
    using that by (force simp: layer_edges_def dict_get_def split: option.splits dest: map_of_SomeD)
  have inner: "distinct (dict_keys deps) \<Longrightarrow> distinct (dict_keys (foldl (?add r) deps ds)) \<and>
      (\<forall>a b. b \<in> set (dict_get (foldl (?add r) deps ds) a []) \<longleftrightarrow> b \<in> set (dict_get deps a []) \<or> b = r \<and> a \<in> set ds)" for r ds deps
    by (induction ds arbitrary: deps) (auto simp: dict_get_update)
  have outer: "distinct (dict_keys deps) \<Longrightarrow> distinct (dict_keys (foldl (\<lambda>deps (r, op). foldl (?add r) deps (d_inputs op)) deps ops)) \<and>
      (\<forall>a b. b \<in> set (dict_get (foldl (\<lambda>deps (r, op). foldl (?add r) deps (d_inputs op)) deps ops) a []) \<longleftrightarrow>
        b \<in> set (dict_get deps a []) \<or> (\<exists>op. (b, op) \<in> set ops \<and> a \<in> set (d_inputs op)))" for deps
  proof (induction ops arbitrary: deps)
    case (Cons p ops)
    obtain r op where p: "p = (r, op)" by (cases p)
    from Cons.IH [of "foldl (?add r) deps (d_inputs op)"] inner [OF Cons.prems, of r "d_inputs op"] show ?case unfolding p by auto
  qed simp
  from outer [of "[]"] show d: "distinct (dict_keys (dsl_dependencies ops))" by (simp add: dsl_dependencies_def)
  have none: "dict_get ([] :: (ref, ref list) dict) a [] = []" for a by (simp add: dict_get_def)
  from outer [of "[]"] have "b \<in> set (dict_get (dsl_dependencies ops) a []) \<longleftrightarrow> (\<exists>op. (b, op) \<in> set ops \<and> a \<in> set (d_inputs op))" for a b
    by (simp add: dsl_dependencies_def none)
  with edges [OF d] show "set (layer_edges (dsl_dependencies ops)) = {(d, r). \<exists>op. (r, op) \<in> set ops \<and> d \<in> set (d_inputs op)}"
    by simp
qed

section \<open>Well-typed graphs\<close>

definition op_edges :: "(ref, dsl_op) dict \<Rightarrow> (ref \<times> ref) set" where
  "op_edges heap = {(d, r). \<exists>op. map_of heap r = Some op \<and> d \<in> set (d_inputs op)}"

text \<open>
  A graph is typed when its store is, its tables name exactly its input and output ops, and its
  rows are the ops that read or are read, in an order of the acyclic dependencies.
\<close>

definition graph_typed :: "dsl_graph \<Rightarrow> bool" where
  "graph_typed g \<longleftrightarrow>
     heap_typed (dg_heap g) \<and>
     (\<forall>n r. map_of (dg_inputs g) n = Some r \<longleftrightarrow> (\<exists>op. deref g r = Some op \<and> d_body op = InputOp n)) \<and>
     (\<forall>n r. map_of (dg_outputs g) n = Some r \<longleftrightarrow> (\<exists>op p. deref g r = Some op \<and> d_body op = OutputOp n p)) \<and>
     acyclic (op_edges (dg_heap g)) \<and>
     (\<exists>order. distinct order \<and> set order = Field (op_edges (dg_heap g)) \<and>
        (\<forall>d r. (d, r) \<in> op_edges (dg_heap g) \<longrightarrow> (\<exists>as bs cs. order = as @ d # bs @ r # cs)) \<and>
        dg_ids g = dict_of (map (\<lambda>r. (d_id (the (deref g r)), r)) order))"

lemma op_from_json_heap_typed:
  assumes "efold (\<lambda>(k, v) heap. ebind (op_from_json materialize v heap) (\<lambda>op. Inr (AList.update k op heap))) json heap = Inr heap'"
    and "heap_typed heap"
  shows "heap_typed heap'"
  using assms
proof (induction json arbitrary: heap)
  case (Cons p json)
  then show ?case by (cases p) (auto simp: ebind_Inr_iff dest: heap_typed_update [OF _ op_from_json_typed])
qed simp

lemma in_dep_order_split:
  assumes "in_dep_order E xs" and "distinct xs" and "(d, r) \<in> set E" and "r \<in> set xs"
  shows "\<exists>as bs cs. xs = as @ d # bs @ r # cs"
proof -
  obtain ys cs where xs: "xs = ys @ r # cs" using assms(4) by (auto dest: split_list)
  with assms have "d \<in> set ys" by (auto simp: in_dep_order_def)
  then obtain as bs where "ys = as @ d # bs" by (auto dest: split_list)
  with xs show ?thesis by auto
qed

lemma dict_values_update: "set (dict_values (AList.update k v d)) \<subseteq> insert v (set (dict_values d))"
  by (induction d) auto

lemma dsl_dependencies_nonempty: "[] \<notin> set (dict_values (dsl_dependencies ops))"
proof -
  let ?add = "\<lambda>r deps d. AList.update d (set_add r (dict_get deps d [])) deps"
  have inner: "[] \<notin> set (dict_values deps) \<Longrightarrow> [] \<notin> set (dict_values (foldl (?add r) deps ds))" for r ds and deps :: "(ref, ref list) dict"
  proof (induction ds arbitrary: deps)
    case (Cons d ds)
    have "[] \<notin> set (dict_values (?add r deps d))"
    proof -
      have "set_add r (dict_get deps d []) \<noteq> []" by (auto simp: set_add_def)
      with dict_values_update [of d "set_add r (dict_get deps d [])" deps] Cons.prems show ?thesis by (metis insertE subsetD)
    qed
    with Cons.IH show ?case by simp
  qed simp
  have "[] \<notin> set (dict_values deps) \<Longrightarrow> [] \<notin> set (dict_values (foldl (\<lambda>deps (r, op). foldl (?add r) deps (d_inputs op)) deps ops))"
    for deps :: "(ref, ref list) dict"
  proof (induction ops arbitrary: deps)
    case (Cons p ops)
    obtain r op where p: "p = (r, op)" by (cases p)
    from Cons.IH [OF inner [OF Cons.prems]] show ?case unfolding p by simp
  qed simp
  then show ?thesis by (simp add: dsl_dependencies_def)
qed

lemma layer_nodes_Field:
  assumes "[] \<notin> set (dict_values graph)"
  shows "set (layer_nodes graph) = Field (set (layer_edges graph))"
proof (intro set_eqI iffI)
  fix n assume "n \<in> set (layer_nodes graph)"
  then consider nbrs where "(n, nbrs) \<in> set graph" | m nbrs where "(m, nbrs) \<in> set graph" "n \<in> set nbrs"
    by (auto simp: set_layer_nodes)
  then show "n \<in> Field (set (layer_edges graph))"
  proof cases
    case 1
    with assms have "nbrs \<noteq> []" by force
    then obtain m where "m \<in> set nbrs" by (cases nbrs) auto
    with 1 have "(n, m) \<in> set (layer_edges graph)" by (auto simp: layer_edges_def)
    then show ?thesis by (auto simp: Field_def)
  next
    case 2
    then have "(m, n) \<in> set (layer_edges graph)" by (auto simp: layer_edges_def)
    then show ?thesis by (auto simp: Field_def)
  qed
qed (use layer_edges_subset [of graph] in \<open>auto simp: Field_def\<close>)

lemma graph_of_typed:
  assumes "graph_of ops = Inr g" and "heap_typed ops"
  shows "graph_typed g"
proof -
  from assms(1) obtain ins outs order rows where
    t: "name_tables ops ([], []) = Inr (ins, outs)" and o: "topological_sort (dsl_dependencies ops) (None :: (ref \<Rightarrow> nat) option) = Inr order"
    and rows: "emap (\<lambda>r. ebind (dict_index ops r) (\<lambda>op. Inr (d_id op, r))) order = Inr rows"
    and g: "g = \<lparr>dg_heap = ops, dg_ids = dict_of rows, dg_inputs = ins, dg_outputs = outs\<rparr>"
    by (auto simp: graph_of_def ebind_Inr_iff)
  have distinct: "distinct (dict_keys ops)" using assms(2) by (simp add: heap_typed_def)
  have mem: "(r, op) \<in> set ops \<longleftrightarrow> map_of ops r = Some op" for r op using distinct by simp
  have edges: "set (layer_edges (dsl_dependencies ops)) = op_edges ops"
    by (simp add: dsl_dependencies_facts(2) op_edges_def mem)
  from topological_sort_ok [OF dsl_dependencies_facts(1), where key = "None :: (ref \<Rightarrow> nat) option", of ops] o
  have ord: "distinct order" "set order = set (layer_nodes (dsl_dependencies ops))"
    "in_dep_order (layer_edges (dsl_dependencies ops)) order" "acyclic (op_edges ops)" by (simp_all add: edges)
  have "rows = map (\<lambda>r. (d_id (the (map_of ops r)), r)) order"
    using rows by (induction order arbitrary: rows) (auto simp: ebind_Inr_iff dict_index_def split: option.splits)
  moreover have "set order = Field (op_edges ops)"
    using layer_nodes_Field [OF dsl_dependencies_nonempty, of ops] by (simp only: ord(2) edges)
  moreover have "\<exists>as bs cs. order = as @ d # bs @ r # cs" if "(d, r) \<in> op_edges ops" for d r
  proof -
    from that calculation(2) have "r \<in> set order" by (auto simp: Field_def)
    with in_dep_order_split [OF ord(3,1)] that show ?thesis by (simp only: edges)
  qed
  ultimately show ?thesis
    using assms(2) ord(1,4) name_tables_facts [OF t] unfolding graph_typed_def by (auto simp: g deref_def mem)
qed

lemma ref_id_ok: "r \<in> set (dict_keys heap) \<Longrightarrow> \<exists>i. ref_id heap r = Inr i"
  by (cases "map_of heap r") (auto simp: ref_id_def dict_index_def map_of_eq_None_iff)

lemma ref_ids_ok:
  assumes "set rs \<subseteq> set (dict_keys heap)"
  shows "\<exists>ids. emap (ref_id heap) rs = Inr ids"
proof (rule emap_total)
  fix r assume "r \<in> set rs"
  with assms show "\<exists>i. ref_id heap r = Inr i" by (blast intro: ref_id_ok)
qed

lemma input_id_ok:
  assumes "op_typed (set (dict_keys heap)) op" and "i < length (d_inputs op)"
  shows "\<exists>s. input_id heap op i = Inr s"
proof -
  have "d_inputs op ! i \<in> set (dict_keys heap)" using assms by (auto simp: op_typed_def simp del: set_map)
  from ref_id_ok [OF this] assms(2) show ?thesis by (simp add: input_id_def input_ref_def)
qed

text \<open>Writing a typed op raises nothing.\<close>

lemma body_to_json_ok:
  assumes t: "op_typed (set (dict_keys heap)) op" and b: "body_typed (d_inputs op) body"
  shows "\<exists>d. body_to_json heap op body = Inr d"
proof -
  note get = input_id_ok [OF t]
  show ?thesis
  proof (cases body)
    case (MessageOp roles refs)
    have "\<exists>ms. emap (\<lambda>(role, m). ebind (case m of Inr s \<Rightarrow> Inr s | Inl i \<Rightarrow> input_id heap op i) (\<lambda>c.
         Inr (PDict [(''role'', PStr role), (''content'', PStr c)]))) (zip roles refs) = Inr ms"
    proof (rule emap_total)
      fix x assume x: "x \<in> set (zip roles refs)"
      obtain role m where m: "x = (role, m)" by (cases x)
      show "\<exists>y. (\<lambda>(role, m). ebind (case m of Inr s \<Rightarrow> Inr s | Inl i \<Rightarrow> input_id heap op i) (\<lambda>c.
         Inr (PDict [(''role'', PStr role), (''content'', PStr c)]))) x = Inr y"
      proof (cases m)
        case (Inl i)
        with x m have "Inl i \<in> set refs" by (auto dest: set_zip_rightD)
        with b MessageOp have "i < length (d_inputs op)" by (fastforce simp: list_all_iff)
        with get Inl m show ?thesis by fastforce
      qed (simp add: m)
    qed
    with MessageOp show ?thesis by (auto simp: message_op_to_json_def)
  next
    case (FormatOp t args kwargs)
    have "\<exists>as. emap (input_id heap op) args = Inr as"
      by (rule emap_total) (use b FormatOp get in \<open>auto simp: list_all_iff\<close>)
    moreover have "\<exists>ks. emap (\<lambda>(k, i). ebind (input_id heap op i) (\<lambda>s. Inr (k, PStr s))) kwargs = Inr ks"
    proof (rule emap_total)
      fix x assume "x \<in> set kwargs"
      with b FormatOp have "snd x < length (d_inputs op)" by (auto simp: list_all_iff)
      with get obtain s where "input_id heap op (snd x) = Inr s" by blast
      then show "\<exists>y. (\<lambda>(k, i). ebind (input_id heap op i) (\<lambda>s. Inr (k, PStr s))) x = Inr y" by (simp add: case_prod_beta)
    qed
    ultimately show ?thesis using FormatOp by (auto simp: format_op_to_json_def)
  next
    case (LambdaOp n code)
    from t have "set (d_inputs op) \<subseteq> set (dict_keys heap)" by (simp add: op_typed_def)
    from ref_ids_ok [OF this] LambdaOp show ?thesis by (auto simp: lambda_op_to_json_def)
  next
    case (LLMVisionOp c src path)
    with b get [of 0] show ?thesis by (auto simp: vision_op_to_json_def)
  qed (use b get [of 0] in \<open>auto simp: content_op_to_json_def\<close>)
qed

lemma op_to_json_ok:
  assumes "op_typed (set (dict_keys heap)) op"
  shows "\<exists>d. op_to_json heap op = Inr d"
proof -
  obtain d where "body_to_json heap op (d_body op) = Inr d"
    using body_to_json_ok [OF assms] assms by (auto simp: op_typed_def)
  moreover obtain ids where "emap (ref_id heap) (d_inputs op) = Inr ids"
    using ref_ids_ok [of "d_inputs op" heap] assms unfolding op_typed_def by blast
  ultimately show ?thesis by (simp add: op_to_json_def)
qed

lemma op_edges_keys:
  assumes "heap_typed heap"
  shows "Field (op_edges heap) \<subseteq> set (dict_keys heap)"
proof
  fix r assume "r \<in> Field (op_edges heap)"
  then consider s op where "map_of heap s = Some op" "r \<in> set (d_inputs op)" | op where "map_of heap r = Some op"
    by (auto simp: Field_def op_edges_def)
  then show "r \<in> set (dict_keys heap)"
  proof cases
    case 1
    with assms have "op_typed (set (dict_keys heap)) op" unfolding heap_typed_def by blast
    with 1 show ?thesis unfolding op_typed_def by blast
  qed (force dest: map_of_SomeD)
qed

lemma graph_to_json_ok:
  assumes "graph_typed g"
  shows "\<exists>json. graph_to_json g = Inr json \<and> dict_keys json = dict_keys (dg_ids g)"
proof -
  from assms obtain order where h: "heap_typed (dg_heap g)" and o: "set order = Field (op_edges (dg_heap g))"
    and ids: "dg_ids g = dict_of (map (\<lambda>r. (d_id (the (deref g r)), r)) order)" by (auto simp: graph_typed_def)
  have "\<exists>json. graph_to_json g = Inr json" unfolding graph_to_json_def
  proof (rule emap_total)
    fix x assume "x \<in> set (dg_ids g)"
    then have "snd x \<in> set (dict_values (dg_ids g))" by simp
    then have "snd x \<in> set order" using set_dict_values_dict_of [of "map (\<lambda>r. (d_id (the (deref g r)), r)) order"] by (auto simp: ids comp_def)
    with o op_edges_keys [OF h] have "snd x \<in> set (dict_keys (dg_heap g))" by blast
    then obtain op where op: "map_of (dg_heap g) (snd x) = Some op" by (cases "map_of (dg_heap g) (snd x)") (auto simp: map_of_eq_None_iff)
    with h have "op_typed (set (dict_keys (dg_heap g))) op" unfolding heap_typed_def by blast
    then obtain d where "op_to_json (dg_heap g) op = Inr d" using op_to_json_ok by blast
    with op show "\<exists>y. (\<lambda>(i, r). ebind (dict_index (dg_heap g) r) (\<lambda>op. ebind (op_to_json (dg_heap g) op) (\<lambda>d. Inr (i, PDict d)))) x = Inr y"
      by (simp add: case_prod_beta dict_index_def)
  qed
  then obtain json where json: "graph_to_json g = Inr json" by blast
  have "map fst json = map fst (dg_ids g)"
    by (rule emap_keys [OF json [unfolded graph_to_json_def]]) (auto simp: ebind_Inr_iff)
  with json show ?thesis by blast
qed

text \<open>
  C28: a graph that is read is well typed, whatever the JSON: every op has the inputs its class
  needs, and its indices point into them; the input and output tables name the input and output
  ops; the references are acyclic and the rows are the connected ops, each behind what it reads.
  Writing it again raises nothing and gives an entry for every row.
\<close>

theorem graph_from_json_typed:
  assumes "graph_from_json materialize json = Inr g"
  shows "graph_typed g \<and> (\<exists>json'. graph_to_json g = Inr json' \<and> dict_keys json' = dict_keys (dg_ids g))"
proof -
  from assms obtain heap where
    read: "efold (\<lambda>(k, v) heap. ebind (op_from_json materialize v heap) (\<lambda>op. Inr (AList.update k op heap))) json [] = Inr heap"
    and g: "graph_of heap = Inr g" by (auto simp: graph_from_json_def ebind_Inr_iff)
  have "heap_typed heap" by (rule op_from_json_heap_typed [OF read]) (simp add: heap_typed_def)
  with g have "graph_typed g" by (rule graph_of_typed)
  with graph_to_json_ok show ?thesis by blast
qed

definition sample_json :: spec where
  "sample_json =
     [(''q'', PDict [(''_op'', PStr ''InputOp''), (''_id'', PStr ''q''), (''_max_iter'', PNone), (''name'', PStr ''question'')]),
      (''m'', PDict [(''_op'', PStr ''MessageOp''), (''_id'', PStr ''m''), (''_max_iter'', PNone),
         (''messages'', PList [PDict [(''role'', PStr ''system''), (''content'', PStr ''Be brief'')], PDict [(''role'', PStr ''user''), (''content'', PStr ''q'')]])]),
      (''l'', PDict [(''_op'', PStr ''LLMChatOp''), (''_id'', PStr ''l''), (''_max_iter'', PNone), (''messages'', PStr ''m''),
         (''config'', PDict [(''model'', PStr ''llama'')]), (''return_history'', PBool False), (''cacheable'', PBool True)]),
      (''o'', PDict [(''_op'', PStr ''OutputOp''), (''_id'', PStr ''o''), (''_max_iter'', PInt 3), (''_inputs'', pstrs [''l'']), (''name'', PStr ''answer'')])]"

lemma sample_read:
  "(case graph_from_json Inr sample_json of
      Inr g \<Rightarrow> dict_keys (dg_ids g) = [''q'', ''m'', ''l'', ''o''] \<and> dict_keys (dg_inputs g) = [''question''] \<and> dg_outputs g = [(''answer'', ''o'')]
    | Inl e \<Rightarrow> False)"
  by code_simp

theorem graph_from_json_typed_witness:
  "\<exists>g json. graph_from_json Inr sample_json = Inr g \<and> graph_typed g \<and> graph_to_json g = Inr json \<and> dict_keys json = [''q'', ''m'', ''l'', ''o'']"
proof -
  obtain g where g: "graph_from_json Inr sample_json = Inr g" and keys: "dict_keys (dg_ids g) = [''q'', ''m'', ''l'', ''o'']"
    using sample_read by (cases "graph_from_json Inr sample_json") simp_all
  from graph_from_json_typed [OF g] g keys show ?thesis by auto
qed

end
