(* ===== verification/Slices.thy ===== *)
theory Slices
  imports Dsl JobQueue "HOL-Library.Product_Lexorder"
begin

text \<open>
  Slicing: a submitted workflow is cut into slices of its input rows (\<open>_input_shape\<close>,
  \<open>_chunk_inputs\<close> and the loop of \<open>submit_job\<close> in \<open>routes/jobs.py\<close>), and the slices of one
  workflow that a batch selects are merged again into one graph (\<open>_group_workflows_by_parent_workflow\<close>
  to \<open>_merge_group_compiled_graph\<close> in \<open>runtime/server.py\<close>). A literal list of a graph is a value
  of its op: two ops do not share one.
\<close>

section \<open>Cutting the inputs\<close>

type_synonym inputs = "(string, string list) dict"

definition max_input_length :: "inputs \<Rightarrow> nat" where
  "max_input_length inputs = fold max (map length (dict_values inputs)) 0"

definition check_input_lengths :: "inputs \<Rightarrow> unit result" where
  "check_input_lengths inputs =
     (if list_ex (\<lambda>vals. length vals \<notin> {1, max_input_length inputs}) (dict_values inputs)
      then Inl (ValueError ''workflow inputs list lengths must match or be a single value'') else Inr ())"

definition input_shape :: "inputs \<Rightarrow> (nat \<times> string list) result" where
  "input_shape inputs =
     ebind (check_input_lengths inputs) (\<lambda>_.
       Inr (max_input_length inputs, sort (dict_keys (filter (\<lambda>(k, vals). length vals > 1) inputs))))"

text \<open>\<open>range(0, n, step)\<close>.\<close>

definition range_step :: "nat \<Rightarrow> nat \<Rightarrow> nat list" where
  "range_step n step = map (\<lambda>k. k * step) [0..<(n + step - 1) div step]"

definition input_chunk :: "nat \<Rightarrow> nat \<Rightarrow> inputs \<Rightarrow> inputs" where
  "input_chunk batch start inputs =
     map (\<lambda>(k, vals). (k, if length vals = 1 then vals else take batch (drop start vals))) inputs"

definition chunk_inputs :: "inputs \<Rightarrow> nat \<Rightarrow> inputs list result" where
  "chunk_inputs inputs batch =
     ebind (check_input_lengths inputs) (\<lambda>_.
       if max_input_length inputs \<le> batch then Inr [inputs]
       else Inr (map (\<lambda>start. input_chunk batch start inputs) (range_step (max_input_length inputs) batch)))"

section \<open>Submitting a workflow\<close>

text \<open>
  What the parsers and the hash are to this code: \<open>sp_parse\<close> gives the graphs of a payload in
  another format for a graph name, the values of its inputs and the scope of its ids.
\<close>

type_synonym graph_spec = "spec \<times> spec"

record slice_env =
  sp_parse :: "string \<Rightarrow> pyval \<Rightarrow> inputs \<Rightarrow> string \<Rightarrow> string \<Rightarrow> (string, graph_spec) dict result"
  sp_hash :: "pyval \<Rightarrow> string \<Rightarrow> string"

record submit_entry =
  se_workflow :: pyval
  se_name :: string
  se_inputs :: inputs
  se_batch_size :: "int option"

definition unprocessable :: "'a result \<Rightarrow> 'a result" where
  "unprocessable r = (case r of Inl (ValueError msg) \<Rightarrow> Inl (HttpError 422 msg) | _ \<Rightarrow> r)"

definition inputs_spec :: "inputs \<Rightarrow> spec" where
  "inputs_spec inputs = map (\<lambda>(k, vals). (k, pstrs vals)) inputs"

definition merge_parsed :: "(string, graph_spec) dict \<Rightarrow> (string, graph_spec) dict \<Rightarrow> (string, graph_spec) dict result" where
  "merge_parsed graph_specs parsed =
     (if list_ex (\<lambda>k. k \<in> set (dict_keys graph_specs)) (dict_keys parsed) then Inl (HttpError 422 ''duplicate graph names after parsing'')
      else Inr (foldl (\<lambda>d (k, v). AList.update k v d) graph_specs parsed))"

definition dispatch_workflow ::
  "slice_env \<Rightarrow> string \<Rightarrow> pyval \<Rightarrow> inputs \<Rightarrow> string \<Rightarrow> string \<Rightarrow> (string, graph_spec) dict \<Rightarrow> (string, graph_spec) dict result" where
  "dispatch_workflow E format payload batch_inputs graph_name scope graph_specs =
     (if format = ''n8n'' then
        ebind (unprocessable (sp_parse E format payload batch_inputs graph_name scope)) (merge_parsed graph_specs)
      else case payload of
          PDict d \<Rightarrow>
            if format = ''yaml'' then
              ebind (unprocessable (sp_parse E format payload batch_inputs graph_name scope)) (merge_parsed graph_specs)
            else ebind (as_dict (dict_get d ''graph'' payload)) (\<lambda>g.
              Inr (AList.update graph_name (g, inputs_spec batch_inputs) graph_specs))
        | _ \<Rightarrow> Inl (HttpError 422 ''workflow payload must be an object''))"

type_synonym slice_tables = "(string, slice_meta) dict \<times> (string, graph_spec) dict"

definition slice_name :: "string \<Rightarrow> nat \<Rightarrow> nat \<Rightarrow> string" where
  "slice_name name batches idx = (if batches = 1 then name else name @ ''__slice_'' @ show_nat (idx + 1))"

text \<open>The loop over the batches of one entry; \<open>start\<close> is the running slice start.\<close>

fun add_slices ::
  "slice_env \<Rightarrow> string \<Rightarrow> submit_entry \<Rightarrow> nat \<times> string list \<Rightarrow> nat \<Rightarrow> nat \<Rightarrow> nat \<Rightarrow> inputs list \<Rightarrow> slice_tables \<Rightarrow> slice_tables result" where
  "add_slices E format entry shape batches idx start [] tables = Inr tables"
| "add_slices E format entry shape batches idx start (batch_inputs # rest) (slices, graph_specs) =
     (let graph_name = slice_name (se_name entry) batches idx
      in if graph_name \<in> set (dict_keys graph_specs) then Inl (HttpError 422 ''duplicate internal graph name'')
         else ebind (input_shape batch_inputs) (\<lambda>(slice_length, _).
           let meta = \<lparr>sm_public_graph_name = se_name entry, sm_slice_index = idx, sm_slice_start = start,
             sm_slice_length = slice_length, sm_total_length = fst shape,
             sm_template_hash = sp_hash E (se_workflow entry) format, sm_varying_input_keys = snd shape\<rparr>
           in ebind (dispatch_workflow E format (se_workflow entry) batch_inputs graph_name (se_name entry) graph_specs) (\<lambda>specs.
             add_slices E format entry shape batches (idx + 1) (start + slice_length) rest
               (AList.update graph_name meta slices, specs))))"

definition submit_entry_slices :: "slice_env \<Rightarrow> string \<Rightarrow> submit_entry \<Rightarrow> slice_tables \<Rightarrow> slice_tables result" where
  "submit_entry_slices E format entry tables =
     ebind (unprocessable (input_shape (se_inputs entry))) (\<lambda>shape.
       case se_batch_size entry of
         Some b \<Rightarrow>
           if b \<le> 0 then Inl (HttpError 422 ''input_batch_size must be a positive integer'')
           else ebind (unprocessable (chunk_inputs (se_inputs entry) (nat b))) (\<lambda>batches.
             add_slices E format entry shape (length batches) 0 0 batches tables)
       | None \<Rightarrow> ebind (unprocessable (chunk_inputs (se_inputs entry) 1)) (\<lambda>batches.
             add_slices E format entry shape (length batches) 0 0 batches tables))"

text \<open>The loop over the entries of a job; the names of the entries must differ.\<close>

fun submit_entries :: "slice_env \<Rightarrow> string \<Rightarrow> submit_entry list \<Rightarrow> string list \<Rightarrow> slice_tables \<Rightarrow> slice_tables result" where
  "submit_entries E format [] seen tables = Inr tables"
| "submit_entries E format (entry # rest) seen tables =
     (if se_name entry \<in> set seen then Inl (HttpError 422 ''duplicate workflow name'')
      else ebind (submit_entry_slices E format entry tables) (submit_entries E format rest (se_name entry # seen)))"

section \<open>Groups of slices\<close>

type_synonym item = "compiled_graph workflow_item"

definition parent_id :: "'d workflow_item \<Rightarrow> string" where
  "parent_id w = ''request::'' @ wi_request_id w @ ''::'' @ wi_public_graph_name w @ ''::'' @ wi_template_hash w"

definition slice_key :: "'d workflow_item \<Rightarrow> string \<times> string \<times> nat \<times> string" where
  "slice_key w = (wi_request_id w, wi_public_graph_name w, wi_slice_index w, wi_workflow_id w)"

definition in_slice_order :: "'d workflow_item list \<Rightarrow> 'd workflow_item list" where
  "in_slice_order ws = sort_key slice_key ws"

definition group_workflows :: "'d workflow_item list \<Rightarrow> (string, 'd workflow_item list) dict" where
  "group_workflows ws =
     map (\<lambda>(k, items). (k, in_slice_order items))
       (foldl (\<lambda>grouped w. AList.update (parent_id w) (dict_get grouped (parent_id w) [] @ [w]) grouped) [] ws)"

section \<open>Literal lists\<close>

text \<open>A parameter or column with a label whose data is a list literal.\<close>

definition bound_list :: "pyval \<Rightarrow> (string \<times> pyval list) option" where
  "bound_list param =
     (case param of
        PDict p \<Rightarrow>
          (case (map_of p ''label'', map_of p ''data'') of
             (Some (PStr label), Some (PDict d)) \<Rightarrow>
               if map_of d ''type'' = Some (PStr ''list'')
               then (case map_of d ''items'' of Some (PList items) \<Rightarrow> Some (label, items) | _ \<Rightarrow> None)
               else None
           | _ \<Rightarrow> None)
      | _ \<Rightarrow> None)"

definition bound_lists :: "pyval \<Rightarrow> (string \<times> pyval list) list" where
  "bound_lists v = (case v of PList params \<Rightarrow> List.map_filter bound_list params | _ \<Rightarrow> [])"

text \<open>The specification of a retrieval op is a dict; anything else has no parameters here.\<close>

definition retrieval_params :: "pyval \<Rightarrow> pyval" where
  "retrieval_params v = (case v of PDict d \<Rightarrow> dict_get d ''params'' PNone | _ \<Rightarrow> PNone)"

definition op_list_specs :: "dsl_op \<Rightarrow> (string \<times> pyval list) list" where
  "op_list_specs op =
     (case d_body op of
        DataRetrievalOp v \<Rightarrow> bound_lists (retrieval_params v)
      | body \<Rightarrow> (case chat_of body of Some c \<Rightarrow> bound_lists (ch_rowwise_columns c) | None \<Rightarrow> []))"

definition list_specs :: "dsl_graph \<Rightarrow> (string \<times> pyval list) list" where
  "list_specs g = concat (map op_list_specs (iter_ops g))"

text \<open>\<open>data["items"] = new\<close> for the labels that \<open>f\<close> gives new items.\<close>

definition set_list :: "(string \<Rightarrow> pyval list option) \<Rightarrow> pyval \<Rightarrow> pyval" where
  "set_list f param =
     (case (bound_list param, param) of
        (Some (label, _), PDict p) \<Rightarrow>
          (case (f label, map_of p ''data'') of
             (Some items, Some (PDict d)) \<Rightarrow> PDict (AList.update ''data'' (PDict (AList.update ''items'' (PList items) d)) p)
           | _ \<Rightarrow> param)
      | _ \<Rightarrow> param)"

definition set_lists :: "(string \<Rightarrow> pyval list option) \<Rightarrow> pyval \<Rightarrow> pyval" where
  "set_lists f v = (case v of PList params \<Rightarrow> PList (map (set_list f) params) | _ \<Rightarrow> v)"

definition set_retrieval_params :: "(string \<Rightarrow> pyval list option) \<Rightarrow> pyval \<Rightarrow> pyval" where
  "set_retrieval_params f v =
     (case v of
        PDict d \<Rightarrow> (case map_of d ''params'' of Some ps \<Rightarrow> PDict (AList.update ''params'' (set_lists f ps) d) | None \<Rightarrow> v)
      | _ \<Rightarrow> v)"

definition set_columns :: "(string \<Rightarrow> pyval list option) \<Rightarrow> chat_fields \<Rightarrow> chat_fields" where
  "set_columns f c = c\<lparr>ch_rowwise_columns := set_lists f (ch_rowwise_columns c)\<rparr>"

definition rewrite_op :: "(string \<Rightarrow> pyval list option) \<Rightarrow> dsl_op \<Rightarrow> dsl_op" where
  "rewrite_op f op =
     op\<lparr>d_body := (case d_body op of
          DataRetrievalOp v \<Rightarrow> DataRetrievalOp (set_retrieval_params f v)
        | LLMChatOp c \<Rightarrow> LLMChatOp (set_columns f c)
        | LLMVisionOp c src path \<Rightarrow> LLMVisionOp (set_columns f c) src path
        | body \<Rightarrow> body)\<rparr>"

definition rewrite_graph :: "(string \<Rightarrow> pyval list option) \<Rightarrow> dsl_graph \<Rightarrow> dsl_graph" where
  "rewrite_graph f g =
     g\<lparr>dg_heap := map (\<lambda>(r, op). (r, if r \<in> set (dict_values (dg_ids g)) then rewrite_op f op else op)) (dg_heap g)\<rparr>"

section \<open>Merging a group\<close>

definition slice_inputs :: "item \<Rightarrow> inputs" where
  "slice_inputs w = cg_inputs (wi_dsl_graph w)"

definition checked_length :: "string \<Rightarrow> item \<Rightarrow> nat \<Rightarrow> nat result" where
  "checked_length key w acc =
     (case map_of (slice_inputs w) key of
        None \<Rightarrow> Inl (ValueError ''Missing varying input key'')
      | Some vals \<Rightarrow>
          if length vals \<noteq> wi_slice_length w then Inl (ValueError ''Workflow input length mismatch for varying key'')
          else Inr (acc + length vals))"

definition validate_key :: "item list \<Rightarrow> inputs \<Rightarrow> string \<Rightarrow> unit result" where
  "validate_key ws merged key =
     ebind (efold (checked_length key) ws 0) (\<lambda>expected.
       if expected > wi_total_length (hd ws) then Inl (ValueError ''Merged varying input length exceeds total_length'')
       else case map_of merged key of
           None \<Rightarrow> Inl (ValueError ''Merged inputs missing varying key'')
         | Some vals \<Rightarrow>
             if length vals \<noteq> expected then Inl (ValueError ''Merged varying input length mismatch'') else Inr ())"

definition validate_merged_varying_inputs :: "item list \<Rightarrow> inputs \<Rightarrow> string list \<Rightarrow> unit result" where
  "validate_merged_varying_inputs ws merged varying =
     (if varying = [] then Inr ()
      else if list_ex (\<lambda>k. k \<notin> set (dict_keys (slice_inputs (hd ws)))) varying
        then Inl (ValueError ''Varying input keys missing from compiled graph inputs'')
      else if list_ex (\<lambda>w. wi_total_length w \<noteq> wi_total_length (hd ws)) ws
        then Inl (ValueError ''Inconsistent total_length across slices in merge group'')
      else efold (\<lambda>key _. validate_key ws merged key) (sort varying) ())"

definition infer_alias :: "inputs \<Rightarrow> string list \<Rightarrow> string \<times> pyval list \<Rightarrow> (string, string) dict \<Rightarrow> (string, string) dict result" where
  "infer_alias first varying sp aliases =
     (if fst sp \<in> set varying then Inr aliases
      else let matched = map fst (filter (\<lambda>(k, vals). snd sp = map PStr vals) first)
        in if length matched > 1 then Inl (ValueError ''Ambiguous varying input alias while coalescing'')
           else Inr (case matched of [k] \<Rightarrow> AList.update (fst sp) k aliases | _ \<Rightarrow> aliases))"

definition rewrite_target :: "string list \<Rightarrow> (string, string) dict \<Rightarrow> string \<Rightarrow> string option" where
  "rewrite_target varying aliases label = (if label \<in> set varying then Some label else map_of aliases label)"

definition rewrite_hits :: "string list \<Rightarrow> (string \<Rightarrow> string option) \<Rightarrow> (string \<times> pyval list) list \<Rightarrow> (string, nat) dict" where
  "rewrite_hits varying target specs = map (\<lambda>k. (k, length (filter (\<lambda>sp. target (fst sp) = Some k) specs))) varying"

definition check_rewritten :: "(string \<Rightarrow> string option) \<Rightarrow> inputs \<Rightarrow> string \<times> pyval list \<Rightarrow> unit result" where
  "check_rewritten target merged sp =
     (case target (fst sp) of
        None \<Rightarrow> Inr ()
      | Some k \<Rightarrow> ebind (dict_index merged k) (\<lambda>vals.
          if length (snd sp) \<noteq> length vals then Inl (ValueError ''Rewritten field length mismatch'') else Inr ()))"

definition rewrite_varying_input_literals :: "dsl_graph \<Rightarrow> inputs \<Rightarrow> inputs \<Rightarrow> string list \<Rightarrow> (dsl_graph \<times> (string, nat) dict) result" where
  "rewrite_varying_input_literals g merged first varying =
     ebind (efold (infer_alias first varying) (list_specs g) []) (\<lambda>aliases.
       let target = rewrite_target varying aliases;
           hits = rewrite_hits varying target (list_specs g);
           g' = rewrite_graph (\<lambda>label. Option.bind (target label) (\<lambda>k. map_option (map PStr) (map_of merged k))) g
       in if list_ex (\<lambda>(label, _). case target label of None \<Rightarrow> False | Some k \<Rightarrow> map_of merged k = None) (list_specs g) then Inl KeyError
          else if list_ex (\<lambda>(k, n). n = 0 \<and> \<not> (k \<in> set (dict_keys (dg_inputs g)) \<and> k \<in> set (dict_keys merged))) hits
            then Inl (ValueError ''No rewrite target found for varying key'')
          else ebind (efold (\<lambda>sp _. check_rewritten target merged sp) (list_specs g') ()) (\<lambda>_. Inr (g', hits)))"

definition merged_values :: "item list \<Rightarrow> string list \<Rightarrow> string \<Rightarrow> (string \<times> string list) result" where
  "merged_values ordered varying key =
     (if key \<in> set varying then
        ebind (emap (\<lambda>w. case map_of (slice_inputs w) key of
            None \<Rightarrow> Inl (ValueError ''Missing input key in workflow slice'') | Some vals \<Rightarrow> Inr vals) ordered) (\<lambda>vs. Inr (key, concat vs))
      else case map_of (slice_inputs (hd ordered)) key of
          None \<Rightarrow> Inl (ValueError ''Missing non-varying input key in workflow slice'')
        | Some vals \<Rightarrow> Inr (key, vals))"

text \<open>The merged graph, with the rewrite hits and whether rewriting was skipped.\<close>

type_synonym merged_graph = "compiled_graph \<times> (string, nat) dict \<times> bool"

definition merge_group_compiled_graph :: "item list \<Rightarrow> merged_graph result" where
  "merge_group_compiled_graph ws =
     (if ws = [] then Inl (ValueError ''Cannot merge an empty workflow group'')
      else
        let ordered = in_slice_order ws; first = hd ordered; graph = cg_graph (wi_dsl_graph first);
            varying = wi_varying_input_keys first; input_keys = dict_keys (slice_inputs first)
        in if length ordered = 1 then Inr (\<lparr>cg_graph = graph, cg_inputs = slice_inputs first\<rparr>, [], True)
           else if list_ex (\<lambda>w. set (wi_varying_input_keys w) \<noteq> set varying) ordered
             then Inl (ValueError ''Inconsistent varying_input_keys in merge group'')
           else ebind (emap (merged_values ordered varying) input_keys) (\<lambda>merged.
             ebind (validate_merged_varying_inputs ordered merged varying) (\<lambda>_.
             ebind (emap (\<lambda>k. ebind (dict_index (slice_inputs first) k) (\<lambda>vals. Inr (k, vals))) (sort varying)) (\<lambda>first_inputs.
             ebind (rewrite_varying_input_literals graph merged first_inputs varying) (\<lambda>(g, hits).
               Inr (\<lparr>cg_graph = g, cg_inputs = merged\<rparr>, hits, False))))))"

section \<open>The slices of a workflow\<close>

lemma max_input_length_eq: "max_input_length inputs = Max (insert 0 (length ` set (dict_values inputs)))"
  using Max.set_eq_fold [of 0 "map length (dict_values inputs)"] by (simp add: max_input_length_def image_image comp_def)

lemma max_input_lengthI:
  assumes "\<forall>vals \<in> set (dict_values inputs). length vals \<le> n" and "n = 0 \<or> (\<exists>vals \<in> set (dict_values inputs). length vals = n)"
  shows "max_input_length inputs = n"
  unfolding max_input_length_eq by (rule Max_eqI) (use assms in auto)

lemma length_le_max: "vals \<in> set (dict_values inputs) \<Longrightarrow> length vals \<le> max_input_length inputs"
  unfolding max_input_length_eq by (rule Max_ge) auto

lemma max_input_length_attained: "max_input_length inputs = 0 \<or> (\<exists>vals \<in> set (dict_values inputs). length vals = max_input_length inputs)"
proof -
  have "max_input_length inputs \<in> insert 0 (length ` set (dict_values inputs))" unfolding max_input_length_eq by (rule Max_in) auto
  then consider "max_input_length inputs = 0" | vals where "vals \<in> set (dict_values inputs)" "max_input_length inputs = length vals"
    by (metis imageE insertE)
  then show ?thesis by cases auto
qed

lemma check_input_lengths_Inr:
  "check_input_lengths inputs = Inr u \<longleftrightarrow> (\<forall>vals \<in> set (dict_values inputs). length vals \<in> {1, max_input_length inputs})"
  by (auto simp: check_input_lengths_def list_ex_iff)

lemma concat_takes: "concat (map (\<lambda>k. take b (drop (k * b) xs)) [0..<n]) = take (n * b) xs"
proof (induction n)
  case (Suc n)
  then show ?case by (simp add: take_add add.commute [of b])
qed simp

lemma ceil_div_times:
  fixes n b :: nat
  assumes "0 < b"
  shows "n \<le> (n + b - 1) div b * b"
proof -
  have "n + b - 1 < ((n + b - 1) div b + 1) * b" using assms by (metis add.commute dividend_less_div_times mult.commute mult_Suc_right plus_1_eq_Suc)
  with assms show ?thesis by (simp add: algebra_simps)
qed

lemma ceil_div_less:
  fixes n b k :: nat
  assumes "0 < b" and "k < (n + b - 1) div b"
  shows "k * b < n"
proof -
  have "(k + 1) * b \<le> (n + b - 1) div b * b" using assms(2) by (intro mult_right_mono) auto
  also have "\<dots> \<le> n + b - 1" by simp
  finally show ?thesis using assms(1) by (simp add: algebra_simps)
qed

definition chunk_starts :: "nat \<Rightarrow> nat \<Rightarrow> nat list" where
  "chunk_starts n b = (if n \<le> b then [0] else range_step n b)"

text \<open>Both branches of the cut at once: without a cut the one chunk is everything from the start.\<close>

lemma chunk_inputs_Inr:
  assumes "chunk_inputs inputs b = Inr chunks"
  shows "chunks = map (\<lambda>start. input_chunk b start inputs) (chunk_starts (max_input_length inputs) b)"
    and "\<forall>vals \<in> set (dict_values inputs). length vals \<in> {1, max_input_length inputs}"
proof -
  from assms have ok: "check_input_lengths inputs = Inr ()" and
    c: "chunks = (if max_input_length inputs \<le> b then [inputs] else map (\<lambda>start. input_chunk b start inputs) (range_step (max_input_length inputs) b))"
    by (auto simp: chunk_inputs_def ebind_Inr_iff split: if_splits)
  have "input_chunk b 0 inputs = inputs" if "max_input_length inputs \<le> b"
    unfolding input_chunk_def by (rule map_idI) (use that length_le_max [of _ inputs] in \<open>force split: prod.splits\<close>)
  with c show "chunks = map (\<lambda>start. input_chunk b start inputs) (chunk_starts (max_input_length inputs) b)"
    by (auto simp: chunk_starts_def)
  from ok show "\<forall>vals \<in> set (dict_values inputs). length vals \<in> {1, max_input_length inputs}" by (simp add: check_input_lengths_Inr)
qed

lemma chunk_starts_less: "0 < b \<Longrightarrow> 0 < n \<Longrightarrow> start \<in> set (chunk_starts n b) \<Longrightarrow> start < n"
  by (auto simp: chunk_starts_def range_step_def ceil_div_less split: if_splits)

lemma concat_chunks: "0 < b \<Longrightarrow> length vals = n \<Longrightarrow> concat (map (\<lambda>start. take b (drop start vals)) (chunk_starts n b)) = vals"
  using ceil_div_times [of b n] by (simp add: chunk_starts_def range_step_def comp_def concat_takes)

lemma chunk_values: "dict_values (input_chunk b start inputs) = map (\<lambda>vals. if length vals = 1 then vals else take b (drop start vals)) (dict_values inputs)"
  by (simp add: input_chunk_def case_prod_beta)

lemma chunk_valueE:
  assumes "c \<in> set (dict_values (input_chunk b start inputs))"
  obtains v where "v \<in> set (dict_values inputs)" "c = (if length v = 1 then v else take b (drop start v))"
  using assms unfolding chunk_values set_map by blast

lemma max_input_chunk:
  assumes ok: "\<forall>vals \<in> set (dict_values inputs). length vals \<in> {1, max_input_length inputs}"
    and "0 < b" and "start < max_input_length inputs \<or> max_input_length inputs = 0 \<and> start = 0"
  shows "max_input_length (input_chunk b start inputs) = min b (max_input_length inputs - start)"
proof (cases "max_input_length inputs \<le> 1")
  case True
  then have start: "start = 0" using assms(3) by auto
  have "input_chunk b 0 inputs = inputs"
    unfolding input_chunk_def by (rule map_idI) (use True \<open>0 < b\<close> length_le_max [of _ inputs] in \<open>force split: prod.splits\<close>)
  with start True \<open>0 < b\<close> show ?thesis by simp
next
  case False
  let ?n = "max_input_length inputs"
  show ?thesis
  proof (rule max_input_lengthI)
    show "\<forall>vals \<in> set (dict_values (input_chunk b start inputs)). length vals \<le> min b (?n - start)"
    proof
      fix c assume "c \<in> set (dict_values (input_chunk b start inputs))"
      then obtain v where v: "v \<in> set (dict_values inputs)" "c = (if length v = 1 then v else take b (drop start v))" by (rule chunk_valueE)
      show "length c \<le> min b (?n - start)"
      proof (cases "length v = 1")
        case True
        with v \<open>0 < b\<close> assms(3) False show ?thesis by auto
      next
        case no: False
        with ok v(1) have "length v = ?n" by blast
        with v(2) no show ?thesis by simp
      qed
    qed
    from max_input_length_attained [of inputs] False obtain v where "v \<in> set (dict_values inputs)" "length v = ?n" by auto
    with False have "take b (drop start v) \<in> set (dict_values (input_chunk b start inputs))" unfolding chunk_values by force
    with \<open>length v = ?n\<close> show "min b (?n - start) = 0 \<or> (\<exists>c \<in> set (dict_values (input_chunk b start inputs)). length c = min b (?n - start))"
      by (metis length_drop length_take min.commute)
  qed
qed

lemma check_input_chunk:
  assumes ok: "\<forall>vals \<in> set (dict_values inputs). length vals \<in> {1, max_input_length inputs}"
    and "0 < b" and "start < max_input_length inputs \<or> max_input_length inputs = 0 \<and> start = 0"
  shows "check_input_lengths (input_chunk b start inputs) = Inr ()"
  unfolding check_input_lengths_Inr max_input_chunk [OF assms]
proof
  fix c assume "c \<in> set (dict_values (input_chunk b start inputs))"
  then obtain v where v: "v \<in> set (dict_values inputs)" "c = (if length v = 1 then v else take b (drop start v))" by (rule chunk_valueE)
  show "length c \<in> {1, min b (max_input_length inputs - start)}"
  proof (cases "length v = 1")
    case False
    with ok v(1) have "length v = max_input_length inputs" by blast
    with v(2) False show ?thesis by (simp add: min.commute)
  qed (use v in simp)
qed

lemma sum_chunk_lengths:
  assumes "0 < b"
  shows "sum_list (map (\<lambda>start. min b (n - start)) (chunk_starts n b)) = n"
proof -
  have "length (concat (map (\<lambda>start. take b (drop start (replicate n ()))) (chunk_starts n b))) = n"
    using concat_chunks [OF assms, of "replicate n ()" n] by simp
  then show ?thesis by (simp add: length_concat comp_def min.commute)
qed


lemma slice_name_inject: "n \<noteq> 1 \<or> i < n \<and> j < n \<Longrightarrow> slice_name name n i = slice_name name n j \<longleftrightarrow> i = j"
  by (auto simp: slice_name_def show_nat_inject)

definition meta_of :: "slice_env \<Rightarrow> string \<Rightarrow> submit_entry \<Rightarrow> nat \<times> string list \<Rightarrow> nat \<Rightarrow> nat \<Rightarrow> nat \<Rightarrow> slice_meta" where
  "meta_of E format entry shape i start len =
     \<lparr>sm_public_graph_name = se_name entry, sm_slice_index = i, sm_slice_start = start, sm_slice_length = len,
      sm_total_length = fst shape, sm_template_hash = sp_hash E (se_workflow entry) format, sm_varying_input_keys = snd shape\<rparr>"

text \<open>The slice table after the loop: one entry for each batch, with the starts added up; nothing else changes.\<close>

lemma add_slices_map:
  assumes "add_slices E format entry shape n idx start batches (slices, specs) = Inr (slices', specs')"
    and "list_all (\<lambda>c. check_input_lengths c = Inr ()) batches" and "idx + length batches \<le> n"
  shows "(\<forall>i < length batches. map_of slices' (slice_name (se_name entry) n (idx + i)) =
           Some (meta_of E format entry shape (idx + i) (start + sum_list (map max_input_length (take i batches))) (max_input_length (batches ! i)))) \<and>
         (\<forall>k. (\<forall>i < length batches. k \<noteq> slice_name (se_name entry) n (idx + i)) \<longrightarrow> map_of slices' k = map_of slices k)"
  using assms
proof (induction batches arbitrary: idx start slices specs)
  case (Cons c rest)
  let ?name = "slice_name (se_name entry) n"
  let ?meta = "meta_of E format entry shape idx start (max_input_length c)"
  from Cons.prems(1,2) obtain specs1 where
    run: "add_slices E format entry shape n (idx + 1) (start + max_input_length c) rest (AList.update (?name idx) ?meta slices, specs1) = Inr (slices', specs')"
    by (auto simp: Let_def ebind_Inr_iff input_shape_def meta_of_def split: if_splits)
  have len: "Suc idx + length rest \<le> n" using Cons.prems(3) by simp
  have ih: "(\<forall>i < length rest. map_of slices' (?name (Suc idx + i)) =
           Some (meta_of E format entry shape (Suc idx + i) (start + max_input_length c + sum_list (map max_input_length (take i rest))) (max_input_length (rest ! i)))) \<and>
         (\<forall>k. (\<forall>i < length rest. k \<noteq> ?name (Suc idx + i)) \<longrightarrow> map_of slices' k = map_of (AList.update (?name idx) ?meta slices) k)"
    using Cons.IH [OF run] Cons.prems(2) len by simp
  have fresh: "\<forall>i < length rest. ?name idx \<noteq> ?name (Suc idx + i)"
    using Cons.prems(3) by (auto simp: slice_name_inject)
  show ?case
  proof (intro conjI allI impI)
    fix i assume i: "i < length (c # rest)"
    show "map_of slices' (?name (idx + i)) =
        Some (meta_of E format entry shape (idx + i) (start + sum_list (map max_input_length (take i (c # rest)))) (max_input_length ((c # rest) ! i)))"
    proof (cases i)
      case 0
      with ih fresh show ?thesis by (simp add: map_of_update)
    next
      case (Suc j)
      with ih i show ?thesis by (simp add: add.assoc)
    qed
  next
    fix k assume k: "\<forall>i < length (c # rest). k \<noteq> ?name (idx + i)"
    then have "k \<noteq> ?name idx" by force
    moreover have "\<forall>i < length rest. k \<noteq> ?name (Suc idx + i)"
    proof (intro allI impI)
      fix i assume "i < length rest"
      with k show "k \<noteq> ?name (Suc idx + i)" by (metis Suc_mono add_Suc_shift length_Cons)
    qed
    ultimately show "map_of slices' k = map_of slices k" using ih by (simp add: map_of_update)
  qed
qed simp

lemma submit_entry_slices_Inr:
  assumes "submit_entry_slices E format entry tables = Inr tables'"
  obtains total varying b batches where
    "input_shape (se_inputs entry) = Inr (total, varying)" and "0 < b" and "b = (case se_batch_size entry of None \<Rightarrow> 1 | Some b \<Rightarrow> nat b)"
    and "chunk_inputs (se_inputs entry) b = Inr batches"
    and "add_slices E format entry (total, varying) (length batches) 0 0 batches tables = Inr tables'"
proof -
  have un: "unprocessable r = Inr x \<longleftrightarrow> r = Inr x" for r :: "'a result" and x
    by (auto simp: unprocessable_def split: sum.splits py_error.splits)
  from assms obtain total varying where shape: "input_shape (se_inputs entry) = Inr (total, varying)"
    by (auto simp: submit_entry_slices_def ebind_Inr_iff un)
  show ?thesis
  proof (cases "se_batch_size entry")
    case None
    with assms shape show ?thesis by (auto simp: submit_entry_slices_def ebind_Inr_iff un intro!: that)
  next
    case (Some b)
    with assms shape obtain batches where "0 < b" "chunk_inputs (se_inputs entry) (nat b) = Inr batches"
      "add_slices E format entry (total, varying) (length batches) 0 0 batches tables = Inr tables'"
      by (auto simp: submit_entry_slices_def ebind_Inr_iff un split: if_splits)
    with shape Some show ?thesis by (intro that) auto
  qed
qed


text \<open>
  The graphs that one slice brings in: what the parser makes of its inputs, or, for a workflow in the
  native format, the graph of the payload with the inputs of the slice.
\<close>

definition slice_graphs :: "slice_env \<Rightarrow> string \<Rightarrow> submit_entry \<Rightarrow> string \<Rightarrow> inputs \<Rightarrow> (string, graph_spec) dict result" where
  "slice_graphs E format entry name ins =
     (if format = ''n8n'' \<or> format = ''yaml'' then sp_parse E format (se_workflow entry) ins name (se_name entry)
      else case se_workflow entry of
          PDict d \<Rightarrow> (case map_of d ''graph'' of
              None \<Rightarrow> Inr [(name, (d, map (\<lambda>(k, vals). (k, pstrs vals)) ins))]
            | Some (PDict g) \<Rightarrow> Inr [(name, (g, map (\<lambda>(k, vals). (k, pstrs vals)) ins))]
            | Some _ \<Rightarrow> Inl (TypeError ''not a dict''))
        | _ \<Rightarrow> Inl (HttpError 422 ''workflow payload must be an object''))"

lemma merge_parsed_Inr:
  assumes "merge_parsed specs parsed = Inr specs'"
  shows "map_of specs' = map_of specs ++ map_of (rev parsed)" and "fst ` set parsed \<inter> fst ` set specs = {}"
proof -
  from assms have fresh: "\<not> list_ex (\<lambda>k. k \<in> set (dict_keys specs)) (dict_keys parsed)"
    and specs': "specs' = foldl (\<lambda>d (k, v). AList.update k v d) specs parsed" by (auto simp: merge_parsed_def split: if_splits)
  show "map_of specs' = map_of specs ++ map_of (rev parsed)"
    unfolding specs' by (rule ext) (simp add: map_of_foldl_update map_add_def)
  show "fst ` set parsed \<inter> fst ` set specs = {}" using fresh by (auto simp: list_ex_iff)
qed

lemma dispatch_slice_graphs:
  assumes "dispatch_workflow E format (se_workflow entry) ins name (se_name entry) specs = Inr specs'" and "name \<notin> fst ` set specs"
  shows "\<exists>added. slice_graphs E format entry name ins = Inr added \<and> map_of specs' = map_of specs ++ map_of (rev added) \<and>
    fst ` set added \<inter> fst ` set specs = {}"
proof -
  have un: "unprocessable r = Inr x \<longleftrightarrow> r = Inr x" for r :: "'a result" and x
    by (auto simp: unprocessable_def split: sum.splits py_error.splits)
  show ?thesis
  proof (cases "format = ''n8n'' \<or> format = ''yaml''")
    case True
    with assms(1) obtain parsed where "sp_parse E format (se_workflow entry) ins name (se_name entry) = Inr parsed"
      "merge_parsed specs parsed = Inr specs'"
      by (auto simp: dispatch_workflow_def ebind_Inr_iff un split: if_splits pyval.splits)
    with merge_parsed_Inr True show ?thesis by (auto simp: slice_graphs_def)
  next
    case False
    with assms(1) obtain d g where "se_workflow entry = PDict d" "as_dict (dict_get d ''graph'' (PDict d)) = Inr g"
      "specs' = AList.update name (g, inputs_spec ins) specs"
      by (auto simp: dispatch_workflow_def ebind_Inr_iff split: pyval.splits)
    with False assms(2) show ?thesis
      by (auto simp: slice_graphs_def as_dict_def dict_get_def inputs_spec_def map_of_update split: option.splits pyval.splits)
  qed
qed

lemma keys_of_map: "map_of specs' = map_of specs ++ map_of (rev added) \<Longrightarrow> fst ` set specs' = fst ` set specs \<union> fst ` set added"
  by (drule arg_cong [where f = dom]) (auto simp: dom_map_of_conv_image_fst)

text \<open>The graph table after the loop: every slice has brought in its graphs, all of them new.\<close>

lemma add_slices_graphs:
  assumes "add_slices E format entry shape n idx start batches (slices, specs) = Inr (slices', specs')"
  shows "\<exists>added. length added = length batches \<and>
    (\<forall>i < length batches. slice_graphs E format entry (slice_name (se_name entry) n (idx + i)) (batches ! i) = Inr (added ! i) \<and>
       fst ` set (added ! i) \<inter> fst ` set (concat (take i added)) = {}) \<and>
    fst ` set (concat added) \<inter> fst ` set specs = {} \<and> map_of specs' = map_of specs ++ map_of (rev (concat added))"
  using assms
proof (induction batches arbitrary: idx start slices specs)
  case (Cons c rest)
  let ?name = "slice_name (se_name entry) n"
  from Cons.prems obtain specs1 start1 slices1 where fresh: "?name idx \<notin> fst ` set specs"
    and first: "dispatch_workflow E format (se_workflow entry) c (?name idx) (se_name entry) specs = Inr specs1"
    and run: "add_slices E format entry shape n (idx + 1) start1 rest (slices1, specs1) = Inr (slices', specs')"
    by (auto simp: Let_def ebind_Inr_iff split: if_splits)
  obtain a where a: "slice_graphs E format entry (?name idx) c = Inr a" "map_of specs1 = map_of specs ++ map_of (rev a)"
    "fst ` set a \<inter> fst ` set specs = {}" using dispatch_slice_graphs [OF first fresh] by blast
  obtain added where len: "length added = length rest"
    and each: "\<forall>i < length rest. slice_graphs E format entry (?name (Suc idx + i)) (rest ! i) = Inr (added ! i) \<and>
       fst ` set (added ! i) \<inter> fst ` set (concat (take i added)) = {}"
    and new: "fst ` set (concat added) \<inter> fst ` set specs1 = {}" "map_of specs' = map_of specs1 ++ map_of (rev (concat added))"
    using Cons.IH [OF run] by auto
  note keys = keys_of_map [OF a(2)]
  have each': "slice_graphs E format entry (?name (idx + i)) ((c # rest) ! i) = Inr ((a # added) ! i) \<and>
       fst ` set ((a # added) ! i) \<inter> fst ` set (concat (take i (a # added))) = {}" if i: "i < length (c # rest)" for i
  proof (cases i)
    case 0
    with a(1) show ?thesis by simp
  next
    case (Suc k)
    then have "fst ` set (added ! k) \<subseteq> fst ` set (concat added)" using i len by (auto intro!: imageI bexI [of _ "added ! k"])
    then have sub: "fst ` set (added ! k) \<inter> fst ` set a = {}" using new(1) keys by blast
    have k: "k < length rest" using i Suc by simp
    have "fst ` set (concat (take i (a # added))) = fst ` set a \<union> fst ` set (concat (take k added))"
      unfolding Suc by (simp add: image_Un del: set_concat)
    then have "fst ` set ((a # added) ! i) \<inter> fst ` set (concat (take i (a # added))) = {}"
      using sub each k unfolding Suc nth_Cons_Suc by blast
    then show ?thesis using each k Suc by simp
  qed
  moreover have "fst ` set (concat (a # added)) = fst ` set a \<union> fst ` set (concat added)" by (simp add: image_Un del: set_concat)
  moreover have "(A \<union> B) \<inter> S = {}" if "A \<inter> S = {}" "B \<inter> (S \<union> A) = {}" for A B S :: "string set" using that by blast
  ultimately have "fst ` set (concat (a # added)) \<inter> fst ` set specs = {}" using a(3) new(1) by (simp only: keys)
  moreover have "map_of specs' = map_of specs ++ map_of (rev (concat (a # added)))"
    unfolding new(2) a(2) by (simp add: map_add_assoc)
  ultimately show ?case using len each' by (intro exI [of _ "a # added"]) (simp del: set_concat concat.simps)
qed simp

text \<open>
  C17: Submitting a workflow cuts its inputs into slices that tile them: the slices are numbered,
  each starts where the one before ends, none is longer than the batch size, and the lengths add
  up to the total; an input that varies is the concatenation of its parts, each as long as its
  slice, and an input with one value goes to every slice whole. The graph table gains, for every
  slice, the graphs that come of the workflow with exactly these inputs under the name of the slice,
  none of them under a name that was taken; every other entry of both tables is as before.
\<close>

theorem submit_entry_slices_tile:
  assumes "submit_entry_slices E format entry (slices, specs) = Inr (slices', specs')"
    and "distinct (dict_keys (se_inputs entry))"
  shows "\<exists>chunks total varying.
    input_shape (se_inputs entry) = Inr (total, varying) \<and>
    (\<forall>i < length chunks. \<exists>m. map_of slices' (slice_name (se_name entry) (length chunks) i) = Some m \<and>
       sm_public_graph_name m = se_name entry \<and> sm_slice_index m = i \<and> sm_total_length m = total \<and> sm_varying_input_keys m = varying \<and>
       sm_slice_start m = sum_list (map max_input_length (take i chunks)) \<and> sm_slice_length m = max_input_length (chunks ! i) \<and>
       sm_slice_length m \<le> (case se_batch_size entry of None \<Rightarrow> 1 | Some b \<Rightarrow> nat b)) \<and>
    sum_list (map max_input_length chunks) = total \<and>
    (\<forall>c \<in> set chunks. dict_keys c = dict_keys (se_inputs entry)) \<and>
    (\<forall>k vals. map_of (se_inputs entry) k = Some vals \<longrightarrow>
       (if k \<in> set varying then concat (map (\<lambda>c. dict_get c k []) chunks) = vals \<and> (\<forall>c \<in> set chunks. length (dict_get c k []) = max_input_length c)
        else \<forall>c \<in> set chunks. map_of c k = Some vals)) \<and>
    (\<forall>k. (\<forall>i < length chunks. k \<noteq> slice_name (se_name entry) (length chunks) i) \<longrightarrow> map_of slices' k = map_of slices k) \<and>
    (\<exists>added. length added = length chunks \<and>
       (\<forall>i < length chunks. slice_graphs E format entry (slice_name (se_name entry) (length chunks) i) (chunks ! i) = Inr (added ! i) \<and>
          fst ` set (added ! i) \<inter> fst ` set (concat (take i added)) = {}) \<and>
       fst ` set (concat added) \<inter> fst ` set specs = {} \<and> map_of specs' = map_of specs ++ map_of (rev (concat added)))"
proof -
  let ?ins = "se_inputs entry" and ?n = "max_input_length (se_inputs entry)"
  obtain total varying b chunks where shape: "input_shape ?ins = Inr (total, varying)" and b: "0 < b" "b = (case se_batch_size entry of None \<Rightarrow> 1 | Some b \<Rightarrow> nat b)"
    and ch: "chunk_inputs ?ins b = Inr chunks" and run: "add_slices E format entry (total, varying) (length chunks) 0 0 chunks (slices, specs) = Inr (slices', specs')"
    using submit_entry_slices_Inr [OF assms(1)] by blast
  note c = chunk_inputs_Inr [OF ch]
  have total: "total = ?n" and varying: "varying = sort (dict_keys (filter (\<lambda>(k, vals). length vals > 1) ?ins))"
    using shape by (auto simp: input_shape_def ebind_Inr_iff)
  have start: "s < ?n \<or> ?n = 0 \<and> s = 0" if "s \<in> set (chunk_starts ?n b)" for s
    using chunk_starts_less [OF b(1) _ that] that by (cases "?n = 0") (auto simp: chunk_starts_def)
  have len: "max_input_length (input_chunk b s ?ins) = min b (?n - s)" if "s \<in> set (chunk_starts ?n b)" for s
    by (rule max_input_chunk [OF c(2) b(1) start [OF that]])
  have ok: "list_all (\<lambda>c. check_input_lengths c = Inr ()) chunks"
    unfolding c(1) list_all_iff using check_input_chunk [OF c(2) b(1) start] by auto
  note tab = add_slices_map [OF run ok]
  have lens: "map max_input_length chunks = map (\<lambda>s. min b (?n - s)) (chunk_starts ?n b)"
    unfolding c(1) map_map comp_def by (rule map_cong [OF refl len])
  have sum: "sum_list (map max_input_length chunks) = total" unfolding lens total by (rule sum_chunk_lengths [OF b(1)])
  have short: "max_input_length (chunks ! i) \<le> b" if "i < length chunks" for i
    using that lens by (metis c(1) len length_map min.cobounded1 nth_map nth_mem)
  have keys: "\<forall>c \<in> set chunks. dict_keys c = dict_keys ?ins" unfolding c(1) by (auto simp: input_chunk_def comp_def case_prod_beta)
  have at: "map_of (input_chunk b s ?ins) k = Some (if length vals = 1 then vals else take b (drop s vals))"
    if "map_of ?ins k = Some vals" for s k vals
    using that by (simp add: input_chunk_def map_of_map)
  have vary: "k \<in> set varying \<longleftrightarrow> length vals > 1" if k: "map_of ?ins k = Some vals" for k vals
  proof -
    have "k \<in> set varying \<longleftrightarrow> (\<exists>v. (k, v) \<in> set ?ins \<and> 1 < length v)" unfolding varying by force
    then show ?thesis using k map_of_eq_Some_iff [OF assms(2)] by (metis option.inject)
  qed
  have inputs: "if k \<in> set varying then concat (map (\<lambda>c. dict_get c k []) chunks) = vals \<and> (\<forall>c \<in> set chunks. length (dict_get c k []) = max_input_length c)
        else \<forall>c \<in> set chunks. map_of c k = Some vals" if k: "map_of ?ins k = Some vals" for k vals
  proof (cases "length vals > 1")
    case True
    then have n: "length vals = ?n" using c(2) map_of_SomeD [OF k] by force
    have get: "dict_get (input_chunk b s ?ins) k [] = take b (drop s vals)" for s using at [OF k] True by (simp add: dict_get_def)
    have "concat (map (\<lambda>c. dict_get c k []) chunks) = vals"
      unfolding c(1) map_map comp_def get by (rule concat_chunks [OF b(1) n])
    moreover have "\<forall>c \<in> set chunks. length (dict_get c k []) = max_input_length c"
      unfolding c(1) using len get n by (auto simp: min.commute)
    ultimately show ?thesis using vary [OF k] True by simp
  next
    case False
    have "length vals = 1 \<or> take b (drop s vals) = vals" for s using False by (cases vals) auto
    then have "\<forall>c \<in> set chunks. map_of c k = Some vals" unfolding c(1) using at [OF k] by auto
    with vary [OF k] False show ?thesis by simp
  qed
  have metas: "\<forall>i < length chunks. \<exists>m. map_of slices' (slice_name (se_name entry) (length chunks) i) = Some m \<and>
       sm_public_graph_name m = se_name entry \<and> sm_slice_index m = i \<and> sm_total_length m = total \<and> sm_varying_input_keys m = varying \<and>
       sm_slice_start m = sum_list (map max_input_length (take i chunks)) \<and> sm_slice_length m = max_input_length (chunks ! i) \<and>
       sm_slice_length m \<le> (case se_batch_size entry of None \<Rightarrow> 1 | Some b \<Rightarrow> nat b)"
  proof (intro allI impI)
    fix i assume i: "i < length chunks"
    let ?m = "meta_of E format entry (total, varying) i (sum_list (map max_input_length (take i chunks))) (max_input_length (chunks ! i))"
    from tab i have "map_of slices' (slice_name (se_name entry) (length chunks) i) = Some ?m" by simp
    with short [OF i] b(2) show "\<exists>m. map_of slices' (slice_name (se_name entry) (length chunks) i) = Some m \<and>
       sm_public_graph_name m = se_name entry \<and> sm_slice_index m = i \<and> sm_total_length m = total \<and> sm_varying_input_keys m = varying \<and>
       sm_slice_start m = sum_list (map max_input_length (take i chunks)) \<and> sm_slice_length m = max_input_length (chunks ! i) \<and>
       sm_slice_length m \<le> (case se_batch_size entry of None \<Rightarrow> 1 | Some b \<Rightarrow> nat b)"
      by (intro exI [of _ ?m]) (simp add: meta_of_def)
  qed
  have others: "\<forall>k. (\<forall>i < length chunks. k \<noteq> slice_name (se_name entry) (length chunks) i) \<longrightarrow> map_of slices' k = map_of slices k"
    using tab by simp
  have all_inputs: "\<forall>k vals. map_of ?ins k = Some vals \<longrightarrow>
       (if k \<in> set varying then concat (map (\<lambda>c. dict_get c k []) chunks) = vals \<and> (\<forall>c \<in> set chunks. length (dict_get c k []) = max_input_length c)
        else \<forall>c \<in> set chunks. map_of c k = Some vals)"
    using inputs by blast
  show ?thesis
    by (intro exI [of _ chunks] exI [of _ total] exI [of _ varying] conjI)
       (rule shape metas sum keys all_inputs others add_slices_graphs [OF run, unfolded add_0])+
qed

definition slice_env_example :: slice_env where
  "slice_env_example = \<lparr>sp_parse = (\<lambda>_ _ _ _ _. Inl (ValueError ''no parser'')), sp_hash = (\<lambda>_ _. ''hash'')\<rparr>"

definition entry_example :: submit_entry where
  "entry_example = \<lparr>se_workflow = PDict [], se_name = ''w'', se_inputs = [(''x'', [''a'', ''b'', ''c'']), (''lang'', [''en''])], se_batch_size = Some 2\<rparr>"

lemma entry_example_slices:
  "(case submit_entry_slices slice_env_example ''native'' entry_example ([], []) of
      Inr (slices, specs) \<Rightarrow> map (\<lambda>(n, m). (n, sm_slice_start m, sm_slice_length m)) slices = [(''w__slice_1'', 0, 2), (''w__slice_2'', 2, 1)]
    | Inl e \<Rightarrow> False)"
  by code_simp

theorem submit_entry_slices_tile_witness:
  "\<exists>slices specs chunks total varying. submit_entry_slices slice_env_example ''native'' entry_example ([], []) = Inr (slices, specs) \<and>
     length slices = 2 \<and> input_shape (se_inputs entry_example) = Inr (total, varying) \<and> sum_list (map max_input_length chunks) = total \<and>
     (\<forall>i < length chunks. \<exists>new. slice_graphs slice_env_example ''native'' entry_example (slice_name ''w'' (length chunks) i) (chunks ! i) = Inr new)"
proof -
  obtain slices specs where run: "submit_entry_slices slice_env_example ''native'' entry_example ([], []) = Inr (slices, specs)"
    and two: "map (\<lambda>(n, m). (n, sm_slice_start m, sm_slice_length m)) slices = [(''w__slice_1'', 0, 2), (''w__slice_2'', 2, 1)]"
    using entry_example_slices by (auto split: sum.splits prod.splits)
  from two have "length slices = 2" by (auto dest: arg_cong [of _ _ length])
  moreover have "distinct (dict_keys (se_inputs entry_example))" by (simp add: entry_example_def)
  moreover have "se_name entry_example = ''w''" by (simp add: entry_example_def)
  ultimately show ?thesis using submit_entry_slices_tile [OF run] run by metis
qed

section \<open>The merged graph\<close>

definition replaced :: "(string \<Rightarrow> pyval list option) \<Rightarrow> string \<times> pyval list \<Rightarrow> string \<times> pyval list" where
  "replaced f sp = (fst sp, case f (fst sp) of None \<Rightarrow> snd sp | Some items \<Rightarrow> items)"

lemma bound_list_Some:
  "bound_list param = Some (label, items) \<longleftrightarrow>
   (\<exists>p d. param = PDict p \<and> map_of p ''label'' = Some (PStr label) \<and> map_of p ''data'' = Some (PDict d) \<and>
      map_of d ''type'' = Some (PStr ''list'') \<and> map_of d ''items'' = Some (PList items))"
proof (cases param)
  case (PDict p)
  then show ?thesis
    by (cases "map_of p ''label''"; cases "map_of p ''data''"; cases "the (map_of p ''label'')"; cases "the (map_of p ''data'')")
      (auto simp: bound_list_def split: option.splits pyval.splits)
qed (auto simp: bound_list_def)

lemma bound_set_list: "bound_list (set_list f param) = map_option (replaced f) (bound_list param)"
proof (cases "bound_list param")
  case None
  then have "set_list f param = param" by (simp add: set_list_def)
  with None show ?thesis by simp
next
  case (Some sp)
  obtain label items where sp: "sp = (label, items)" by (cases sp)
  from Some [unfolded sp bound_list_Some] obtain p d where p: "param = PDict p" "map_of p ''label'' = Some (PStr label)" "map_of p ''data'' = Some (PDict d)"
    "map_of d ''type'' = Some (PStr ''list'')" "map_of d ''items'' = Some (PList items)" by blast
  show ?thesis
  proof (cases "f label")
    case None
    with Some sp p show ?thesis by (simp add: set_list_def replaced_def)
  next
    case new: (Some items')
    have "set_list f param = PDict (AList.update ''data'' (PDict (AList.update ''items'' (PList items') d)) p)"
      using Some sp p new by (simp add: set_list_def)
    moreover have "bound_list (PDict (AList.update ''data'' (PDict (AList.update ''items'' (PList items') d)) p)) = Some (label, items')"
      unfolding bound_list_Some using p by (auto simp: map_of_update)
    ultimately show ?thesis using Some sp new by (simp add: replaced_def)
  qed
qed

lemma bound_set_lists: "bound_lists (set_lists f v) = map (replaced f) (bound_lists v)"
proof (cases v)
  case (PList params)
  have "List.map_filter bound_list (map (set_list f) params) = map (replaced f) (List.map_filter bound_list params)"
    by (induction params) (auto simp: List.map_filter_simps bound_set_list split: option.splits)
  with PList show ?thesis by (simp add: bound_lists_def set_lists_def)
qed (simp_all add: bound_lists_def set_lists_def)

lemma bound_set_retrieval: "bound_lists (retrieval_params (set_retrieval_params f v)) = map (replaced f) (bound_lists (retrieval_params v))"
proof (cases v)
  case (PDict d)
  show ?thesis
  proof (cases "map_of d ''params''")
    case None
    with PDict show ?thesis by (simp add: set_retrieval_params_def retrieval_params_def dict_get_def bound_lists_def)
  next
    case (Some ps)
    with PDict show ?thesis by (simp add: set_retrieval_params_def retrieval_params_def dict_get_def map_of_update bound_set_lists)
  qed
qed (simp_all add: set_retrieval_params_def retrieval_params_def bound_lists_def)

lemma specs_rewrite_op: "op_list_specs (rewrite_op f op) = map (replaced f) (op_list_specs op)"
  by (cases "d_body op") (simp_all add: op_list_specs_def rewrite_op_def set_columns_def bound_set_lists bound_set_retrieval)

lemma specs_rewrite_graph: "list_specs (rewrite_graph f g) = map (replaced f) (list_specs g)"
proof -
  have look: "map_of (map (\<lambda>(r, op). (r, if r \<in> R then rewrite_op f op else op)) heap) r =
      map_option (\<lambda>op. if r \<in> R then rewrite_op f op else op) (map_of heap r)" for R heap r
    by (induction heap) auto
  have "map op_list_specs (iter_ops (rewrite_graph f g)) = map (\<lambda>op. map (replaced f) (op_list_specs op)) (iter_ops g)"
  proof -
    have "iter_ops (rewrite_graph f g) = concat (map (\<lambda>(i, r). case deref g r of None \<Rightarrow> [] | Some op \<Rightarrow> [rewrite_op f op]) (dg_ids g))"
      unfolding iter_ops_def
      by (rule arg_cong [where f = concat], subst rewrite_graph_def, simp)
        (force simp: deref_def rewrite_graph_def look split: option.splits)
    also have "\<dots> = map (rewrite_op f) (iter_ops g)"
      unfolding iter_ops_def map_concat map_map
      by (rule arg_cong [where f = concat], rule map_cong) (auto split: option.splits)
    finally show ?thesis by (simp add: specs_rewrite_op)
  qed
  then show ?thesis by (simp add: list_specs_def map_concat comp_def)
qed


lemma infer_aliases:
  assumes "\<forall>sp \<in> set specs. fst sp \<notin> set varying \<longrightarrow>
      map fst (filter (\<lambda>(k, vals). snd sp = map PStr vals) first) = (case alias (fst sp) of None \<Rightarrow> [] | Some k \<Rightarrow> [k])"
  shows "\<exists>aliases'. efold (infer_alias first varying) specs aliases = Inr aliases' \<and>
     (\<forall>l. map_of aliases' l = (if (\<exists>sp \<in> set specs. fst sp = l \<and> l \<notin> set varying) \<and> alias l \<noteq> None then alias l else map_of aliases l))"
  using assms
proof (induction specs arbitrary: aliases)
  case (Cons sp specs)
  let ?next = "if fst sp \<in> set varying then aliases else case alias (fst sp) of None \<Rightarrow> aliases | Some k \<Rightarrow> AList.update (fst sp) k aliases"
  have step: "infer_alias first varying sp aliases = Inr ?next"
    using Cons.prems by (auto simp: infer_alias_def Let_def split: option.splits)
  obtain aliases' where run: "efold (infer_alias first varying) specs ?next = Inr aliases'"
    and al: "\<forall>l. map_of aliases' l = (if (\<exists>sp \<in> set specs. fst sp = l \<and> l \<notin> set varying) \<and> alias l \<noteq> None then alias l else map_of ?next l)"
    using Cons.IH [of ?next] Cons.prems by auto
  have "map_of ?next l = (if fst sp = l \<and> l \<notin> set varying \<and> alias l \<noteq> None then alias l else map_of aliases l)" for l
    by (auto simp: map_of_update split: option.splits)
  with al have "\<forall>l. map_of aliases' l =
      (if (\<exists>sp \<in> set (sp # specs). fst sp = l \<and> l \<notin> set varying) \<and> alias l \<noteq> None then alias l else map_of aliases l)" by auto
  with step run show ?case by auto
qed simp

lemma checked_lengths:
  assumes "\<forall>w \<in> set ws. \<exists>vals. map_of (slice_inputs w) key = Some vals \<and> length vals = wi_slice_length w"
  shows "efold (checked_length key) ws acc = Inr (acc + sum_list (map wi_slice_length ws))"
  using assms by (induction ws arbitrary: acc) (auto simp: checked_length_def)

lemma length_concat_slices:
  assumes "\<forall>w \<in> set ws. \<exists>vals. map_of (slice_inputs w) key = Some vals \<and> length vals = wi_slice_length w"
  shows "length (concat (map (\<lambda>w. dict_get (slice_inputs w) key []) ws)) = sum_list (map wi_slice_length ws)"
  using assms by (induction ws) (auto simp: dict_get_def)

text \<open>
  The slices of one workflow: the same varying inputs and total length, and every varying input
  has as many values as its slice.
\<close>

definition good_group :: "string list \<Rightarrow> nat \<Rightarrow> item list \<Rightarrow> bool" where
  "good_group varying n ws \<longleftrightarrow>
     sum_list (map wi_slice_length ws) \<le> n \<and>
     list_all (\<lambda>w. wi_varying_input_keys w = varying \<and> wi_total_length w = n \<and> distinct (dict_keys (slice_inputs w)) \<and>
       list_all (\<lambda>k. \<exists>vals. map_of (slice_inputs w) k = Some vals \<and> length vals = wi_slice_length w) varying) ws"

definition group_inputs :: "item list \<Rightarrow> inputs" where
  "group_inputs ws =
     map (\<lambda>(k, vals). (k, if k \<in> set (wi_varying_input_keys (hd ws)) then concat (map (\<lambda>w. dict_get (slice_inputs w) k []) ws) else vals))
       (slice_inputs (hd ws))"

lemma good_group_value:
  assumes "good_group varying n ws" and "w \<in> set ws" and "k \<in> set varying"
  shows "map_of (slice_inputs w) k = Some (dict_get (slice_inputs w) k [])" "length (dict_get (slice_inputs w) k []) = wi_slice_length w"
proof -
  from assms obtain vals where "map_of (slice_inputs w) k = Some vals" "length vals = wi_slice_length w"
    unfolding good_group_def list_all_iff by blast
  then show "map_of (slice_inputs w) k = Some (dict_get (slice_inputs w) k [])" "length (dict_get (slice_inputs w) k []) = wi_slice_length w"
    by (simp_all add: dict_get_def)
qed

lemma validate_good_group:
  assumes "good_group varying n ws" and "ws \<noteq> []"
    and "\<forall>k \<in> set varying. \<exists>vals. map_of merged k = Some vals \<and> length vals = sum_list (map wi_slice_length ws)"
  shows "validate_merged_varying_inputs ws merged varying = Inr ()"
proof -
  have key: "validate_key ws merged k = Inr ()" if k: "k \<in> set varying" for k
  proof -
    from assms(1) k have "\<forall>w \<in> set ws. \<exists>vals. map_of (slice_inputs w) k = Some vals \<and> length vals = wi_slice_length w"
      by (auto simp: good_group_def list_all_iff)
    from checked_lengths [OF this, of 0] assms k show ?thesis
      by (auto simp: validate_key_def good_group_def list_all_iff)
  qed
  have "efold (\<lambda>key _. validate_key ws merged key) ks () = Inr ()" if "set ks \<subseteq> set varying" for ks
    using that by (induction ks) (auto simp: key)
  moreover have "k \<in> set (dict_keys (slice_inputs (hd ws)))" if "k \<in> set varying" for k
  proof -
    from assms(2) have "hd ws \<in> set ws" by simp
    from map_of_SomeD [OF good_group_value(1) [OF assms(1) this that]] show ?thesis by force
  qed
  ultimately show ?thesis using assms(1,2) by (auto simp: validate_merged_varying_inputs_def good_group_def list_all_iff list_ex_iff)
qed

lemma merged_values_group:
  assumes "good_group varying n ws" and "ws \<noteq> []"
  shows "emap (merged_values ws varying) (dict_keys (slice_inputs (hd ws))) = Inr (group_inputs ws)"
proof -
  have hd: "wi_varying_input_keys (hd ws) = varying" "distinct (dict_keys (slice_inputs (hd ws)))" using assms by (auto simp: good_group_def list_all_iff)
  have "merged_values ws varying k = Inr (k, if k \<in> set varying then concat (map (\<lambda>w. dict_get (slice_inputs w) k []) ws) else vals)"
    if kv: "(k, vals) \<in> set (slice_inputs (hd ws))" for k vals
  proof (cases "k \<in> set varying")
    case True
    have "emap (\<lambda>w. case map_of (slice_inputs w) k of
            None \<Rightarrow> Inl (ValueError ''Missing input key in workflow slice'') | Some vals \<Rightarrow> Inr vals) ws = Inr (map (\<lambda>w. dict_get (slice_inputs w) k []) ws)"
      by (rule emap_cong_Inr) (simp add: good_group_value(1) [OF assms(1) _ True])
    with True show ?thesis by (simp add: merged_values_def)
  next
    case False
    with kv hd(2) show ?thesis by (simp add: merged_values_def)
  qed
  then have "emap (\<lambda>(k, vals). merged_values ws varying k) (slice_inputs (hd ws)) =
      Inr (map (\<lambda>(k, vals). (k, if k \<in> set varying then concat (map (\<lambda>w. dict_get (slice_inputs w) k []) ws) else vals)) (slice_inputs (hd ws)))"
    by (intro emap_cong_Inr) auto
  moreover have "emap f (map fst xs) = emap (\<lambda>(k, vals). f k) xs" for f :: "string \<Rightarrow> (string \<times> string list) result" and xs :: inputs
    by (induction xs) auto
  ultimately show ?thesis by (simp add: group_inputs_def hd(1))
qed


lemma sort_slices:
  shows "set (in_slice_order ws) = set ws" "length (in_slice_order ws) = length ws" "in_slice_order ws = [] \<longleftrightarrow> ws = []"
  by (simp_all add: in_slice_order_def flip: length_0_conv)

text \<open>What is said of the literals of a group before they are rewritten: see the theorem below.\<close>

definition aliases_agree :: "string list \<Rightarrow> inputs \<Rightarrow> (string \<Rightarrow> string option) \<Rightarrow> (string \<times> pyval list) list \<Rightarrow> bool" where
  "aliases_agree varying first alias specs \<longleftrightarrow>
     list_all (\<lambda>(label, items). label \<notin> set varying \<longrightarrow>
       (case alias label of None \<Rightarrow> True | Some k \<Rightarrow> k \<in> set varying) \<and>
       list_all (\<lambda>k. items = map PStr (dict_get first k []) \<longleftrightarrow> alias label = Some k) varying) specs"

definition target_of :: "string list \<Rightarrow> (string \<Rightarrow> string option) \<Rightarrow> string \<Rightarrow> string option" where
  "target_of varying alias label = (if label \<in> set varying then Some label else alias label)"

lemma filter_one: "distinct xs \<Longrightarrow> k \<in> set xs \<Longrightarrow> filter (\<lambda>x. k = x) xs = [k]"
  by (induction xs) (auto simp: filter_empty_conv)

lemma rewrite_ok:
  assumes agree: "aliases_agree varying first alias (list_specs g)"
    and first: "first_inputs = map (\<lambda>k. (k, dict_get first k [])) (sort varying)" and varying: "distinct varying"
    and merged: "\<forall>k \<in> set varying. map_of merged k = Some (vals k)"
    and used: "\<forall>k \<in> set varying. k \<in> set (dict_keys (dg_inputs g)) \<or> (\<exists>sp \<in> set (list_specs g). target_of varying alias (fst sp) = Some k)"
  shows "\<exists>g'. rewrite_varying_input_literals g merged first_inputs varying = Inr (g', rewrite_hits varying (target_of varying alias) (list_specs g)) \<and>
     dg_ids g' = dg_ids g \<and> dg_inputs g' = dg_inputs g \<and> dg_outputs g' = dg_outputs g \<and>
     list_specs g' = map (\<lambda>(label, items). (label, case target_of varying alias label of None \<Rightarrow> items | Some k \<Rightarrow> map PStr (vals k))) (list_specs g)"
proof -
  let ?specs = "list_specs g" and ?t = "target_of varying alias"
  have one: "\<forall>sp \<in> set ?specs. fst sp \<notin> set varying \<longrightarrow>
      map fst (filter (\<lambda>(k, vals). snd sp = map PStr vals) first_inputs) = (case alias (fst sp) of None \<Rightarrow> [] | Some k \<Rightarrow> [k])"
  proof (intro ballI impI)
    fix sp assume sp: "sp \<in> set ?specs" "fst sp \<notin> set varying"
    obtain label items where lab: "sp = (label, items)" by (cases sp)
    from agree sp have eq: "\<forall>k \<in> set varying. items = map PStr (dict_get first k []) \<longleftrightarrow> alias label = Some k"
      and known: "case alias label of None \<Rightarrow> True | Some k \<Rightarrow> k \<in> set varying" by (auto simp: aliases_agree_def list_all_iff lab)
    have "map fst (filter (\<lambda>(k, vals). items = map PStr vals) first_inputs) = filter (\<lambda>k. items = map PStr (dict_get first k [])) (sort varying)"
      unfolding first by (simp add: filter_map comp_def)
    also have "\<dots> = filter (\<lambda>k. alias label = Some k) (sort varying)" by (rule filter_cong) (use eq in auto)
    also have "\<dots> = (case alias label of None \<Rightarrow> [] | Some k \<Rightarrow> [k])"
    proof (cases "alias label")
      case (Some k)
      with known have "k \<in> set (sort varying)" by simp
      moreover have "distinct (sort varying)" using varying by simp
      ultimately have "filter (\<lambda>x. k = x) (sort varying) = [k]"
        by (rule filter_one [rotated])
      with Some show ?thesis by simp
    qed simp
    finally show "map fst (filter (\<lambda>(k, vals). snd sp = map PStr vals) first_inputs) = (case alias (fst sp) of None \<Rightarrow> [] | Some k \<Rightarrow> [k])"
      by (simp add: lab)
  qed
  obtain al where run: "efold (infer_alias first_inputs varying) ?specs [] = Inr al"
    and al: "\<forall>l. map_of al l = (if (\<exists>sp \<in> set ?specs. fst sp = l \<and> l \<notin> set varying) \<and> alias l \<noteq> None then alias l else None)"
    using infer_aliases [OF one, of "[]"] by auto
  have t: "rewrite_target varying al (fst sp) = ?t (fst sp)" if "sp \<in> set ?specs" for sp
    using al that by (auto simp: rewrite_target_def target_of_def)
  have known: "k \<in> set varying" if "?t (fst sp) = Some k" "sp \<in> set ?specs" for sp k
    using that agree by (auto simp: target_of_def aliases_agree_def list_all_iff split: if_splits)
  have hits: "rewrite_hits varying (rewrite_target varying al) ?specs = rewrite_hits varying ?t ?specs"
    unfolding rewrite_hits_def using t by (metis (no_types, lifting) filter_cong)
  let ?f = "\<lambda>label. Option.bind (rewrite_target varying al label) (\<lambda>k. map_option (map PStr) (map_of merged k))"
  have specs': "list_specs (rewrite_graph ?f g) = map (\<lambda>(label, items). (label, case ?t label of None \<Rightarrow> items | Some k \<Rightarrow> map PStr (vals k))) ?specs"
    unfolding specs_rewrite_graph
  proof (rule map_cong [OF refl])
    fix sp assume sp: "sp \<in> set ?specs"
    show "replaced ?f sp = (case sp of (label, items) \<Rightarrow> (label, case ?t label of None \<Rightarrow> items | Some k \<Rightarrow> map PStr (vals k)))"
    proof (cases "?t (fst sp)")
      case (Some k)
      with known [OF Some sp] merged t [OF sp] show ?thesis by (simp add: replaced_def case_prod_beta)
    qed (use t [OF sp] in \<open>simp add: replaced_def case_prod_beta\<close>)
  qed
  have nokey: "\<not> list_ex (\<lambda>(label, _). case rewrite_target varying al label of None \<Rightarrow> False | Some k \<Rightarrow> map_of merged k = None) ?specs"
    unfolding list_ex_iff
  proof
    assume "\<exists>sp \<in> set ?specs. case sp of (label, _) \<Rightarrow> (case rewrite_target varying al label of None \<Rightarrow> False | Some k \<Rightarrow> map_of merged k = None)"
    then obtain sp where sp: "sp \<in> set ?specs" and "case rewrite_target varying al (fst sp) of None \<Rightarrow> False | Some k \<Rightarrow> map_of merged k = None"
      by (auto simp: case_prod_beta)
    then obtain k where "?t (fst sp) = Some k" "map_of merged k = None" using t [OF sp] by (auto split: option.splits)
    with known [OF _ sp] merged show False by fastforce
  qed
  have nohit: "\<not> list_ex (\<lambda>(k, n). n = 0 \<and> \<not> (k \<in> set (dict_keys (dg_inputs g)) \<and> k \<in> set (dict_keys merged))) (rewrite_hits varying ?t ?specs)"
  proof -
    have "k \<in> set (dict_keys merged)" if "k \<in> set varying" for k using merged that by (force dest: map_of_SomeD)
    moreover have "k \<in> set varying \<and> n = length (filter (\<lambda>sp. ?t (fst sp) = Some k) ?specs)" if "(k, n) \<in> set (rewrite_hits varying ?t ?specs)" for k n
      using that by (auto simp: rewrite_hits_def)
    ultimately show ?thesis using used unfolding list_ex_iff by (fastforce simp: filter_empty_conv simp del: set_map)
  qed
  have "efold (\<lambda>sp _. check_rewritten (rewrite_target varying al) merged sp) (map (\<lambda>(label, items). (label, case ?t label of None \<Rightarrow> items | Some k \<Rightarrow> map PStr (vals k))) specs) () = Inr ()"
    if "set specs \<subseteq> set ?specs" for specs
    using that
  proof (induction specs)
    case (Cons sp specs)
    obtain label items where lab: "sp = (label, items)" by (cases sp)
    from Cons.prems lab have sp: "(label, items) \<in> set ?specs" by simp
    have "check_rewritten (rewrite_target varying al) merged (label, case ?t label of None \<Rightarrow> items | Some k \<Rightarrow> map PStr (vals k)) = Inr ()"
      using t [OF sp] known [OF _ sp] merged by (auto simp: check_rewritten_def dict_index_def split: option.splits)
    with Cons lab show ?case by simp
  qed simp
  from this [of ?specs] have check: "efold (\<lambda>sp _. check_rewritten (rewrite_target varying al) merged sp) (list_specs (rewrite_graph ?f g)) () = Inr ()"
    by (simp add: specs')
  have "rewrite_varying_input_literals g merged first_inputs varying = Inr (rewrite_graph ?f g, rewrite_hits varying ?t ?specs)"
    unfolding rewrite_varying_input_literals_def run ebind.simps Let_def hits using nokey nohit check by simp
  with specs' show ?thesis by (auto simp: rewrite_graph_def)
qed


text \<open>
  C16: Merging the slices of a workflow, two or more that agree on the varying keys and the total, gives
  one graph for all of them. Every varying input is the concatenation of its values in slice order, the
  other inputs are those of the first slice, and the validation accepts the group. A literal list that is
  labelled by a varying input, or that is the first slice's copy of one (\<open>alias\<close>), now holds all the
  values; every other literal is as it was. Two hypotheses are about the graph: a literal equals the first
  slice's values of an input only where it is a copy of it, and every varying key is the name of an input
  op or is rewritten in some literal, since for any other key the code raises.
\<close>

theorem merge_group_compiled_graph_correct:
  assumes "2 \<le> length ws" and "good_group varying n (in_slice_order ws)" and "distinct varying"
    and "aliases_agree varying (slice_inputs (hd (in_slice_order ws))) alias (list_specs (cg_graph (wi_dsl_graph (hd (in_slice_order ws)))))"
    and "\<forall>k \<in> set varying. k \<in> set (dict_keys (dg_inputs (cg_graph (wi_dsl_graph (hd (in_slice_order ws)))))) \<or>
      (\<exists>sp \<in> set (list_specs (cg_graph (wi_dsl_graph (hd (in_slice_order ws))))). target_of varying alias (fst sp) = Some k)"
  shows "\<exists>c hits. merge_group_compiled_graph ws = Inr (c, hits, False) \<and>
    cg_inputs c = group_inputs (in_slice_order ws) \<and>
    dg_ids (cg_graph c) = dg_ids (cg_graph (wi_dsl_graph (hd (in_slice_order ws)))) \<and>
    list_specs (cg_graph c) =
      map (\<lambda>(label, items). (label, case target_of varying alias label of None \<Rightarrow> items
          | Some k \<Rightarrow> map PStr (concat (map (\<lambda>w. dict_get (slice_inputs w) k []) (in_slice_order ws)))))
        (list_specs (cg_graph (wi_dsl_graph (hd (in_slice_order ws)))))"
proof -
  let ?os = "in_slice_order ws"
  let ?first = "hd ?os" and ?g = "cg_graph (wi_dsl_graph (hd ?os))"
  let ?vals = "\<lambda>k. concat (map (\<lambda>w. dict_get (slice_inputs w) k []) ?os)"
  have os: "?os \<noteq> []" "?first \<in> set ?os" "length ?os \<noteq> 1" using assms(1) sort_slices(2,3) [of ws] by (auto simp: hd_in_set)
  have vk: "wi_varying_input_keys ?first = varying" and dist: "distinct (dict_keys (slice_inputs ?first))"
    using assms(2) os(2) by (auto simp: good_group_def list_all_iff)
  have same: "\<not> list_ex (\<lambda>w. set (wi_varying_input_keys w) \<noteq> set varying) ?os"
    using assms(2) by (auto simp: good_group_def list_all_iff list_ex_iff)
  have at_first: "map_of (slice_inputs ?first) k = Some (dict_get (slice_inputs ?first) k [])" if "k \<in> set varying" for k
    by (rule good_group_value(1) [OF assms(2) os(2) that])
  have merged: "map_of (group_inputs ?os) k = Some (?vals k)" if "k \<in> set varying" for k
  proof -
    have "map_of (map (\<lambda>(x, vals). (x, f x vals)) d) k = map_option (f k) (map_of d k)" for f :: "string \<Rightarrow> string list \<Rightarrow> string list" and d
      by (induction d) auto
    from this [of "\<lambda>k vals. if k \<in> set varying then ?vals k else vals"] at_first [OF that] that show ?thesis by (simp add: group_inputs_def vk)
  qed
  have len: "length (?vals k) = sum_list (map wi_slice_length ?os)" if "k \<in> set varying" for k
    by (rule length_concat_slices) (use good_group_value [OF assms(2) _ that] in blast)
  have valid: "validate_merged_varying_inputs ?os (group_inputs ?os) varying = Inr ()"
    by (rule validate_good_group [OF assms(2) os(1)]) (use merged len in blast)
  have first: "emap (\<lambda>k. ebind (dict_index (slice_inputs ?first) k) (\<lambda>vals. Inr (k, vals))) (sort varying) =
      Inr (map (\<lambda>k. (k, dict_get (slice_inputs ?first) k [])) (sort varying))"
    by (rule emap_cong_Inr) (use at_first in \<open>simp add: dict_index_def\<close>)
  obtain g' where rw: "rewrite_varying_input_literals ?g (group_inputs ?os) (map (\<lambda>k. (k, dict_get (slice_inputs ?first) k [])) (sort varying)) varying =
      Inr (g', rewrite_hits varying (target_of varying alias) (list_specs ?g))" and ids: "dg_ids g' = dg_ids ?g"
    and specs: "list_specs g' = map (\<lambda>(label, items). (label, case target_of varying alias label of None \<Rightarrow> items | Some k \<Rightarrow> map PStr (?vals k))) (list_specs ?g)"
    using rewrite_ok [OF assms(4) refl assms(3) _ assms(5), of "group_inputs ?os" ?vals] merged by blast
  have "ws \<noteq> []" using assms(1) by auto
  then have "merge_group_compiled_graph ws = Inr (\<lparr>cg_graph = g', cg_inputs = group_inputs ?os\<rparr>, rewrite_hits varying (target_of varying alias) (list_specs ?g), False)"
    unfolding merge_group_compiled_graph_def Let_def using os(3) same merged_values_group [OF assms(2) os(1)] valid first rw
    by (simp add: vk)
  with ids specs show ?thesis by simp
qed

text \<open>Two slices of a workflow whose retrieval op has one parameter for each input.\<close>

definition list_param :: "string \<Rightarrow> string list \<Rightarrow> pyval" where
  "list_param label items = PDict [(''label'', PStr label), (''data'', PDict [(''type'', PStr ''list''), (''items'', pstrs items)])]"

definition retrieval_graph :: "string list \<Rightarrow> string list \<Rightarrow> dsl_graph" where
  "retrieval_graph xs langs =
     \<lparr>dg_heap = [(''r'', \<lparr>d_id = ''r'', d_inputs = [], d_max_iter = None,
        d_body = DataRetrievalOp (PDict [(''params'', PList [list_param ''x'' xs, list_param ''lang'' langs])])\<rparr>)],
      dg_ids = [(''r'', ''r'')], dg_inputs = [], dg_outputs = []\<rparr>"

definition slice_item :: "nat \<Rightarrow> string \<Rightarrow> string \<Rightarrow> item" where
  "slice_item i x lang =
     \<lparr>wi_workflow_id = ''w'' @ show_nat i, wi_request_id = ''req'', wi_graph_name = ''g'', wi_public_graph_name = ''g'',
      wi_slice_index = i, wi_slice_start = i, wi_slice_length = 1, wi_total_length = 2, wi_template_hash = ''h'',
      wi_varying_input_keys = [''x''], wi_runtime_graph = tiny_graph ''m'', wi_data_profile_graph = tiny_graph ''m'',
      wi_dsl_graph = \<lparr>cg_graph = retrieval_graph [x] [lang], cg_inputs = [(''x'', [x]), (''lang'', [lang])]\<rparr>,
      wi_config = example_config ''u'', wi_enqueued_at = 1, wi_dispatch_token = None, wi_miss_count = 0\<rparr>"

definition pair_of_slices :: "string \<Rightarrow> item list" where
  "pair_of_slices lang = [slice_item 1 ''fr'' lang, slice_item 0 ''en'' lang]"

lemma pair_in_order: "in_slice_order (pair_of_slices lang) = [slice_item 0 ''en'' lang, slice_item 1 ''fr'' lang]"
  by (simp add: in_slice_order_def pair_of_slices_def slice_key_def slice_item_def)

lemma pair_specs: "list_specs (retrieval_graph xs langs) = [(''x'', map PStr xs), (''lang'', map PStr langs)]"
  by (simp add: list_specs_def iter_ops_def retrieval_graph_def deref_def op_list_specs_def retrieval_params_def dict_get_def
    bound_lists_def list_param_def bound_list_def List.map_filter_simps)

theorem merge_group_compiled_graph_correct_witness:
  "\<exists>c hits. merge_group_compiled_graph (pair_of_slices ''de'') = Inr (c, hits, False) \<and>
     cg_inputs c = [(''x'', [''en'', ''fr'']), (''lang'', [''de''])] \<and>
     list_specs (cg_graph c) = [(''x'', [PStr ''en'', PStr ''fr'']), (''lang'', [PStr ''de''])]"
proof -
  have good: "good_group [''x''] 2 (in_slice_order (pair_of_slices ''de''))"
    by (simp add: pair_in_order good_group_def slice_inputs_def slice_item_def)
  have agree: "aliases_agree [''x''] (slice_inputs (hd (in_slice_order (pair_of_slices ''de'')))) (\<lambda>_. None)
      (list_specs (cg_graph (wi_dsl_graph (hd (in_slice_order (pair_of_slices ''de''))))))"
    by (simp add: pair_in_order slice_item_def pair_specs aliases_agree_def slice_inputs_def dict_get_def)
  have used: "\<forall>k \<in> set [''x'']. k \<in> set (dict_keys (dg_inputs (cg_graph (wi_dsl_graph (hd (in_slice_order (pair_of_slices ''de''))))))) \<or>
      (\<exists>sp \<in> set (list_specs (cg_graph (wi_dsl_graph (hd (in_slice_order (pair_of_slices ''de'')))))). target_of [''x''] (\<lambda>_. None) (fst sp) = Some k)"
    by (simp add: pair_in_order slice_item_def pair_specs target_of_def)
  have two: "2 \<le> length (pair_of_slices ''de'')" by (simp add: pair_of_slices_def)
  from merge_group_compiled_graph_correct [OF two good _ agree used] show ?thesis
    by (auto simp: pair_in_order group_inputs_def slice_item_def slice_inputs_def dict_get_def pair_specs target_of_def)
qed

text \<open>
  a constant list that happens to equal the first slice's values of a varying input is taken
  for a copy of it: with the slices \<open>en\<close> and \<open>fr\<close> of \<open>x\<close>, the constant parameter \<open>lang = [en]\<close>
  becomes \<open>[en, fr]\<close> in the merged graph, although the merged inputs keep it.
\<close>

theorem constant_taken_for_alias:
  "case merge_group_compiled_graph (pair_of_slices ''en'') of
     Inr (c, _) \<Rightarrow> cg_inputs c = [(''x'', [''en'', ''fr'']), (''lang'', [''en''])] \<and>
       list_specs (cg_graph c) = [(''x'', [PStr ''en'', PStr ''fr'']), (''lang'', [PStr ''en'', PStr ''fr''])]
   | Inl e \<Rightarrow> False"
  by code_simp

end
