(* ===== verification/Results.thy ===== *)
theory Results
  imports JobQueue PyStrings
begin

text \<open>
  The way back of the outputs (\<open>runtime/server.py\<close>): the values of the merged graph are cut into
  the slices again (the demux step of \<open>_process_batch\<close>), and every slice is put into the
  buffers of its request until all of them are there (\<open>_handle_batch_results\<close>). A list element
  that is \<open>None\<close> is an index nothing was written to.
\<close>

section \<open>Cutting the outputs of a batch\<close>

type_synonym named_values = "(string, pyval list) dict"

text \<open>The items of a group by their prefix, the longest id first.\<close>

definition group_prefixes :: "'d workflow_item list \<Rightarrow> (string \<times> 'd workflow_item) list" where
  "group_prefixes ws = map (\<lambda>w. (wi_workflow_id w @ ''__'', w)) (sort_key (\<lambda>w. - int (length (wi_workflow_id w))) ws)"

definition match_workflow :: "(string, 'd workflow_item list) dict \<Rightarrow> string \<Rightarrow> string \<Rightarrow> 'd workflow_item option" where
  "match_workflow grouped group_key node =
     map_option snd (find (\<lambda>(prefix, _). starts_with prefix node) (group_prefixes (dict_get grouped group_key [])))"

text \<open>One runtime node: its values go to a workflow directly, or to its group.\<close>

type_synonym demux_state = "(string, named_values) dict \<times> (string, named_values) dict"

definition demux_node ::
  "(string, string \<times> string) dict \<Rightarrow> (string, 'd workflow_item list) dict \<Rightarrow> string \<times> pyval \<Rightarrow> demux_state \<Rightarrow> demux_state result" where
  "demux_node mapping grouped node_value s =
     (case (node_value, s) of ((node, v), (direct, by_group)) \<Rightarrow>
       case map_of mapping node of
         None \<Rightarrow> Inl (ValueError ''Missing output mapping for runtime node'')
       | Some (group_key, name) \<Rightarrow>
           (case v of
              PList outs \<Rightarrow>
                (case match_workflow grouped group_key node of
                   Some w \<Rightarrow>
                     if length outs \<noteq> wi_slice_length w then Inl (ValueError ''Output length mismatch for workflow slice'')
                     else Inr (AList.update (wi_workflow_id w) (AList.update name outs (dict_get direct (wi_workflow_id w) [])) direct, by_group)
                 | None \<Rightarrow>
                     let grp = dict_get by_group group_key []
                     in Inr (direct, AList.update group_key (AList.update name (dict_get grp name [] @ outs) grp) by_group))
            | _ \<Rightarrow> Inl (ValueError ''Expected list output for node'')))"

fun give_slices :: "string \<Rightarrow> pyval list \<Rightarrow> nat \<Rightarrow> 'd workflow_item list \<Rightarrow> (string, named_values) dict \<Rightarrow> (string, named_values) dict result" where
  "give_slices name vals offset [] remapped = Inr remapped"
| "give_slices name vals offset (w # ws) remapped =
     (let mine = dict_get remapped (wi_workflow_id w) []
      in if name \<in> set (dict_keys mine) then Inl (ValueError ''Duplicate output assignment for workflow'')
         else give_slices name vals (offset + wi_slice_length w) ws
           (AList.update (wi_workflow_id w) (AList.update name (take (wi_slice_length w) (drop offset vals)) mine) remapped))"

definition demux_group ::
  "(string, named_values) dict \<Rightarrow> string \<times> 'd workflow_item list \<Rightarrow> (string, named_values) dict \<Rightarrow> (string, named_values) dict result" where
  "demux_group by_group grp remapped =
     (let ordered = sort_key wi_slice_index (snd grp); n = sum_list (map wi_slice_length ordered)
      in efold (\<lambda>(name, vals) remapped.
           if length vals \<noteq> n then Inl (ValueError ''Output length mismatch for merged workflow'')
           else give_slices name vals 0 ordered remapped) (dict_get by_group (fst grp) []) remapped)"

definition demux_outputs ::
  "(string, string \<times> string) dict \<Rightarrow> (string, 'd workflow_item list) dict \<Rightarrow> (string, pyval) dict \<Rightarrow> (string, named_values) dict result" where
  "demux_outputs mapping grouped flat =
     ebind (efold (demux_node mapping grouped) flat ([], [])) (\<lambda>(direct, by_group).
       efold (demux_group by_group) grouped direct)"

section \<open>The state of a request\<close>

text \<open>The entries of \<open>error_info\<close>.\<close>

datatype slice_error =
    InvalidTotal string nat string
  | RangeOutOfBounds string nat string
  | PayloadLength string nat string string nat nat
  | OverlappingSlice string nat string string "nat list"
  | MissingOutputIndices string string "nat list"
  | MissingHistoryIndices string string "nat list"
  | RequestCancelled string "string option" string nat string
  | BatchError py_error "string option" string nat string
  | MissingOutput string "string option" string nat
  | TaskNodes "string option" "string option" "(string, string) dict"

record node_counts =
  nc_raw :: int
  nc_optimized :: int

text \<open>\<open>RequestState\<close>, without the handler, the configuration and the plan cache.\<close>

record request_state =
  rs_pending :: "string list"
  rs_outputs :: "(string, (string, string list) dict) dict"
  rs_histories :: "(string, named_values) dict"
  rs_output_buffers :: "(string, named_values) dict"
  rs_history_buffers :: "(string, named_values) dict"
  rs_workflow_lengths :: "(string, nat) dict"
  rs_errors :: "slice_error list option"
  rs_task_node_map :: "(string, (string, string) dict) dict"
  rs_pending_raw :: int
  rs_processing_raw :: int
  rs_processing_optimized :: int
  rs_processed_raw :: int
  rs_processed_optimized :: int
  rs_optimization_seconds :: rat
  rs_selection_seconds :: rat
  rs_clustering_seconds :: rat
  rs_batch_node_counts :: "(string, node_counts) dict"
  rs_total_inputs :: nat
  rs_completed_inputs :: nat
  rs_successful :: "string list"
  rs_ready :: bool

definition append_error :: "slice_error \<Rightarrow> request_state \<Rightarrow> request_state" where
  "append_error e st = st\<lparr>rs_errors := Some ((case rs_errors st of None \<Rightarrow> [] | Some es \<Rightarrow> es) @ [e])\<rparr>"

definition mark_successful_input_completion :: "'d workflow_item \<Rightarrow> request_state \<Rightarrow> request_state" where
  "mark_successful_input_completion w st =
     (if wi_workflow_id w \<in> set (rs_successful st) then st
      else st\<lparr>rs_successful := rs_successful st @ [wi_workflow_id w],
              rs_completed_inputs := rs_completed_inputs st + wi_slice_length w\<rparr>)"

definition discard_pending :: "'d workflow_item \<Rightarrow> request_state \<Rightarrow> request_state" where
  "discard_pending w st = st\<lparr>rs_pending := filter (\<lambda>i. i \<noteq> wi_workflow_id w) (rs_pending st)\<rparr>"

definition buffers_of :: "bool \<Rightarrow> request_state \<Rightarrow> (string, named_values) dict" where
  "buffers_of is_history st = (if is_history then rs_history_buffers st else rs_output_buffers st)"

definition set_buffers :: "bool \<Rightarrow> (string, named_values) dict \<Rightarrow> request_state \<Rightarrow> request_state" where
  "set_buffers is_history b st = (if is_history then st\<lparr>rs_history_buffers := b\<rparr> else st\<lparr>rs_output_buffers := b\<rparr>)"

definition put_buffer :: "bool \<Rightarrow> string \<Rightarrow> string \<Rightarrow> pyval list \<Rightarrow> request_state \<Rightarrow> request_state" where
  "put_buffer is_history public name vals st =
     set_buffers is_history (AList.update public (AList.update name vals (dict_get (buffers_of is_history st) public [])) (buffers_of is_history st)) st"

section \<open>Merging a slice into its request\<close>

text \<open>One output of the slice; the result says whether all was well so far.\<close>

definition merge_slice_value :: "bool \<Rightarrow> 'd workflow_item \<Rightarrow> string \<times> pyval list \<Rightarrow> bool \<Rightarrow> (request_state, bool) op" where
  "merge_slice_value is_history w named ok st =
     (let public = wi_public_graph_name w; total = wi_total_length w; start = wi_slice_start w;
          name = fst named; vals = snd named
      in if length vals \<noteq> wi_slice_length w
         then (Inr False, append_error (PayloadLength public (wi_slice_index w) (wi_workflow_id w) name (wi_slice_length w) (length vals)) st)
         else
           let target = dict_get (dict_get (buffers_of is_history st) public []) name (replicate total PNone);
               st1 = put_buffer is_history public name target st
           in if length target \<noteq> total then (Inl (RuntimeError ''Inconsistent buffer size''), st1)
              else
                let overlap = filter (\<lambda>i. target ! i \<noteq> PNone) [start..<start + wi_slice_length w];
                    st2 = (if overlap = [] then st1
                      else append_error (OverlappingSlice public (wi_slice_index w) (wi_workflow_id w) name overlap) st1);
                    target' = take start target @ vals @ drop (start + wi_slice_length w) target
                in (Inr (ok \<and> overlap = []), put_buffer is_history public name target' st2))"

fun merge_slice_values :: "bool \<Rightarrow> 'd workflow_item \<Rightarrow> named_values \<Rightarrow> bool \<Rightarrow> (request_state, bool) op" where
  "merge_slice_values is_history w [] ok = pure_op (Inr ok)"
| "merge_slice_values is_history w (named # payload) ok =
     then_op (merge_slice_value is_history w named ok) (merge_slice_values is_history w payload)"

definition merge_slice_payload :: "bool \<Rightarrow> 'd workflow_item \<Rightarrow> named_values \<Rightarrow> (request_state, bool) op" where
  "merge_slice_payload is_history w payload st =
     (let public = wi_public_graph_name w
      in if wi_total_length w = 0 then (Inr False, append_error (InvalidTotal public (wi_slice_index w) (wi_workflow_id w)) st)
         else if wi_total_length w < wi_slice_start w + wi_slice_length w
           then (Inr False, append_error (RangeOutOfBounds public (wi_slice_index w) (wi_workflow_id w)) st)
         else merge_slice_values is_history w payload True
           (set_buffers is_history (if public \<in> set (dict_keys (buffers_of is_history st)) then buffers_of is_history st
              else AList.update public [] (buffers_of is_history st)) st))"

section \<open>Completing a request\<close>

definition missing_indices :: "pyval list \<Rightarrow> nat list" where
  "missing_indices vals = filter (\<lambda>i. vals ! i = PNone) [0..<length vals]"

definition check_missing :: "(string \<Rightarrow> string \<Rightarrow> nat list \<Rightarrow> slice_error) \<Rightarrow> (string, named_values) dict \<Rightarrow> request_state \<Rightarrow> request_state" where
  "check_missing err buffers st =
     fold (\<lambda>(public, outs). fold (\<lambda>(name, vals) st.
         if missing_indices vals = [] then st else append_error (err public name (missing_indices vals)) st) outs) buffers st"

definition map_buffers :: "(pyval \<Rightarrow> 'a) \<Rightarrow> (string, named_values) dict \<Rightarrow> (string, (string, 'a list) dict) dict" where
  "map_buffers f buffers =
     map (\<lambda>(public, outs). (public, map (\<lambda>(name, vals). (name, map f vals)) outs)) (filter (\<lambda>(public, outs). outs \<noteq> []) buffers)"

text \<open>\<open>render\<close> is how \<open>str\<close> prints a value that is not a string.\<close>

definition output_text :: "(pyval \<Rightarrow> string) \<Rightarrow> pyval \<Rightarrow> string" where
  "output_text render v = (case v of PNone \<Rightarrow> [] | PStr s \<Rightarrow> s | _ \<Rightarrow> render v)"

definition history_value :: "pyval \<Rightarrow> pyval" where
  "history_value v = (if v = PNone then PList [] else v)"

definition finalize_state :: "(pyval \<Rightarrow> string) \<Rightarrow> request_state \<Rightarrow> request_state" where
  "finalize_state render st =
     (let st1 = check_missing MissingOutputIndices (rs_output_buffers st) st;
          st2 = check_missing MissingHistoryIndices (rs_history_buffers st) st1
      in st2\<lparr>rs_outputs := map_buffers (output_text render) (rs_output_buffers st),
             rs_histories := map_buffers history_value (rs_history_buffers st)\<rparr>)"

section \<open>The results of a batch\<close>

record batch_results =
  be_outputs :: "(string, named_values) dict"
  be_histories :: "(string, named_values) dict"
  be_error :: "py_error option"
  be_batch_id :: "string option"
  be_task_node_map :: "(string, string) dict"
  be_cancelled :: "string list"
  be_execution_id :: "string option"

definition merge_outputs :: "batch_results \<Rightarrow> 'd workflow_item \<Rightarrow> (request_state, unit) op" where
  "merge_outputs B w =
     (case map_of (be_outputs B) (wi_workflow_id w) of
        Some payload \<Rightarrow>
          then_op (merge_slice_payload False w payload) (\<lambda>ok st. (Inr (), if ok then mark_successful_input_completion w st else st))
      | None \<Rightarrow> (\<lambda>st. (Inr (), if be_error B = None
          then append_error (MissingOutput (wi_workflow_id w) (be_execution_id B) (wi_public_graph_name w) (wi_slice_index w)) st else st)))"

definition merge_histories :: "batch_results \<Rightarrow> 'd workflow_item \<Rightarrow> (request_state, unit) op" where
  "merge_histories B w =
     (case map_of (be_histories B) (wi_workflow_id w) of
        Some payload \<Rightarrow> then_op (merge_slice_payload True w payload) (\<lambda>_. pure_op (Inr ()))
      | None \<Rightarrow> pure_op (Inr ()))"

definition workflow_results :: "batch_results \<Rightarrow> 'd workflow_item \<Rightarrow> (request_state, unit) op" where
  "workflow_results B w st =
     (if wi_request_id w \<in> set (be_cancelled B)
      then (Inr (), discard_pending w (append_error
        (RequestCancelled (wi_request_id w) (be_execution_id B) (wi_public_graph_name w) (wi_slice_index w) (wi_workflow_id w)) st))
      else then_op (merge_outputs B w) (\<lambda>_. then_op (merge_histories B w) (\<lambda>_ st. (Inr (), discard_pending w st)))
        (case be_error B of None \<Rightarrow> st
         | Some e \<Rightarrow> append_error (BatchError e (be_execution_id B) (wi_public_graph_name w) (wi_slice_index w) (wi_workflow_id w)) st))"

type_synonym requests = "(string, request_state) dict"

text \<open>The loop over the workflows; the affected requests in the order in which they are met.\<close>

fun batch_workflows :: "batch_results \<Rightarrow> 'd workflow_item list \<Rightarrow> string list \<Rightarrow> (requests, string list) op" where
  "batch_workflows B [] affected rs = (Inr affected, rs)"
| "batch_workflows B (w # ws) affected rs =
     (case map_of rs (wi_request_id w) of
        None \<Rightarrow> batch_workflows B ws affected rs
      | Some st \<Rightarrow>
          (case workflow_results B w st of
             (Inl e, st') \<Rightarrow> (Inl e, AList.update (wi_request_id w) st' rs)
           | (Inr _, st') \<Rightarrow> batch_workflows B ws (set_add (wi_request_id w) affected) (AList.update (wi_request_id w) st' rs)))"

record response =
  rp_request :: string
  rp_outputs :: "(string, (string, string list) dict) dict"
  rp_errors :: "slice_error list option"
  rp_histories :: "(string, named_values) dict"

text \<open>The requests that are complete are answered; their state stays.\<close>

fun respond :: "(pyval \<Rightarrow> string) \<Rightarrow> string list \<Rightarrow> requests \<Rightarrow> response list \<times> requests" where
  "respond render [] rs = ([], rs)"
| "respond render (r # ids) rs =
     (case map_of rs r of
        None \<Rightarrow> respond render ids rs
      | Some st \<Rightarrow>
          if rs_pending st \<noteq> [] \<or> \<not> rs_ready st then respond render ids rs
          else
            let st' = finalize_state render st;
                (answers, rs') = respond render ids (AList.update r st' rs)
            in (\<lparr>rp_request = r, rp_outputs = rs_outputs st', rp_errors = rs_errors st', rp_histories = rs_histories st'\<rparr> # answers, rs'))"

definition note_task_nodes :: "batch_results \<Rightarrow> string list \<Rightarrow> requests \<Rightarrow> requests" where
  "note_task_nodes B affected rs =
     (if be_error B \<noteq> None \<and> be_task_node_map B \<noteq> []
      then fold (\<lambda>r rs. case map_of rs r of None \<Rightarrow> rs
        | Some st \<Rightarrow> AList.update r (append_error (TaskNodes (be_batch_id B) (be_execution_id B) (be_task_node_map B)) st) rs) affected rs
      else rs)"

definition handle_batch_results ::
  "(pyval \<Rightarrow> string) \<Rightarrow> batch_results \<Rightarrow> 'd workflow_item list \<Rightarrow> (requests, response list) op" where
  "handle_batch_results render B ws =
     then_op (batch_workflows B ws []) (\<lambda>affected rs.
       (case respond render affected (note_task_nodes B affected rs) of (answers, rs') \<Rightarrow> (Inr answers, rs')))"

section \<open>Demultiplexing is the inverse of merging\<close>

definition look2 :: "(string, (string, 'v) dict) dict \<Rightarrow> string \<Rightarrow> string \<Rightarrow> 'v option" where
  "look2 d k n = map_of (dict_get d k []) n"

lemma look2_Nil [simp]: "look2 [] k n = None"
  by (simp add: look2_def dict_get_def)

lemma look2_update [simp]:
  "look2 (AList.update k (AList.update n v (dict_get d k [])) d) k' n' = (if k' = k \<and> n' = n then Some v else look2 d k' n')"
  by (auto simp: look2_def dict_get_update map_of_update)

lemma look2_dict_get: "look2 d k n = Some v \<Longrightarrow> dict_get (dict_get d k []) n x = v" "look2 d k n = None \<Longrightarrow> dict_get (dict_get d k []) n x = x"
  by (simp_all add: look2_def dict_get_def)

text \<open>The rows of the runtime: every node has a list, and no two nodes have one group and name.\<close>

definition node_rows :: "(string, string \<times> string) dict \<Rightarrow> (string, 'd workflow_item list) dict \<Rightarrow> (string, pyval) dict \<Rightarrow> bool" where
  "node_rows mapping grouped flat \<longleftrightarrow>
     list_all (\<lambda>(node, v). \<exists>gk name vals. map_of mapping node = Some (gk, name) \<and> v = PList vals \<and> match_workflow grouped gk node = None) flat \<and>
     distinct (map (\<lambda>(node, v). map_of mapping node) flat)"

lemma demux_nodes:
  assumes "node_rows mapping grouped flat" and "\<forall>(node, v) \<in> set flat. \<forall>gk name. map_of mapping node = Some (gk, name) \<longrightarrow> look2 bg gk name = None"
    and "\<forall>gk. distinct (dict_keys (dict_get bg gk []))"
  shows "\<exists>bg'. efold (demux_node mapping grouped) flat (direct, bg) = Inr (direct, bg') \<and> (\<forall>gk. distinct (dict_keys (dict_get bg' gk []))) \<and>
    (\<forall>gk name. look2 bg' gk name =
       (case map_of (map (\<lambda>(node, v). (map_of mapping node, v)) flat) (Some (gk, name)) of Some (PList vals) \<Rightarrow> Some vals | _ \<Rightarrow> look2 bg gk name))"
  using assms
proof (induction flat arbitrary: bg)
  case (Cons row flat)
  obtain node v where row: "row = (node, v)" by (cases row)
  from Cons.prems(1) obtain gk name vals where m: "map_of mapping node = Some (gk, name)" "v = PList vals" "match_workflow grouped gk node = None"
    and rest: "node_rows mapping grouped flat" and new: "Some (gk, name) \<notin> (\<lambda>(node, v). map_of mapping node) ` set flat"
    by (auto simp: node_rows_def row)
  from Cons.prems(2) m(1) have free: "look2 bg gk name = None" by (auto simp: row)
  let ?bg = "AList.update gk (AList.update name vals (dict_get bg gk [])) bg"
  have step: "demux_node mapping grouped row (direct, bg) = Inr (direct, ?bg)"
    using m look2_dict_get(2) [OF free, of "[]"] by (simp add: demux_node_def row Let_def)
  have later: "\<forall>(node, v) \<in> set flat. \<forall>gk name. map_of mapping node = Some (gk, name) \<longrightarrow> look2 ?bg gk name = None"
    using Cons.prems(2) new by (fastforce simp: image_iff)
  have dist: "\<forall>gk'. distinct (dict_keys (dict_get ?bg gk' []))"
    using Cons.prems(3) by (simp add: dict_get_update)
  from Cons.IH [OF rest later dist] obtain bg' where run: "efold (demux_node mapping grouped) flat (direct, ?bg) = Inr (direct, bg')"
    "\<forall>gk. distinct (dict_keys (dict_get bg' gk []))"
    and look: "\<forall>gk name. look2 bg' gk name =
       (case map_of (map (\<lambda>(node, v). (map_of mapping node, v)) flat) (Some (gk, name)) of Some (PList vals) \<Rightarrow> Some vals | _ \<Rightarrow> look2 ?bg gk name)" by blast
  have gone: "map_of (map (\<lambda>(node, v). (map_of mapping node, v)) flat) (Some (gk, name)) = None"
    using new by (auto simp: map_of_eq_None_iff image_iff case_prod_beta)
  have "look2 bg' gk' name' =
       (case map_of (map (\<lambda>(node, v). (map_of mapping node, v)) (row # flat)) (Some (gk', name')) of Some (PList vals) \<Rightarrow> Some vals | _ \<Rightarrow> look2 bg gk' name')" for gk' name'
  proof (cases "gk' = gk \<and> name' = name")
    case True
    with look gone m show ?thesis by (simp add: row)
  next
    case False
    then have eq: "look2 ?bg gk' name' = look2 bg gk' name'" by auto
    from look have "look2 bg' gk' name' = (case map_of (map (\<lambda>(node, v). (map_of mapping node, v)) flat) (Some (gk', name')) of Some (PList vals) \<Rightarrow> Some vals | _ \<Rightarrow> look2 ?bg gk' name')"
      by blast
    with False m(1) show ?thesis unfolding eq by (auto simp: row)
  qed
  with step run show ?case by auto
qed simp

lemma give_slices_ok:
  assumes "distinct (map wi_workflow_id ws)" and "\<forall>w \<in> set ws. length (v w) = wi_slice_length w \<and> look2 remapped (wi_workflow_id w) name = None"
  shows "\<exists>remapped'. give_slices name (pre @ concat (map v ws)) (length pre) ws remapped = Inr remapped' \<and>
    (\<forall>w \<in> set ws. look2 remapped' (wi_workflow_id w) name = Some (v w)) \<and>
    (\<forall>i n. n \<noteq> name \<or> i \<notin> wi_workflow_id ` set ws \<longrightarrow> look2 remapped' i n = look2 remapped i n)"
  using assms
proof (induction ws arbitrary: pre remapped)
  case (Cons w ws)
  let ?mine = "dict_get remapped (wi_workflow_id w) []"
  from Cons.prems(2) have free: "name \<notin> set (dict_keys ?mine)" by (simp add: look2_def map_of_eq_None_iff)
  let ?next = "AList.update (wi_workflow_id w) (AList.update name (v w) ?mine) remapped"
  have len: "length (pre @ v w) = length pre + wi_slice_length w" using Cons.prems(2) by simp
  have "give_slices name (pre @ concat (map v (w # ws))) (length pre) (w # ws) remapped =
      give_slices name ((pre @ v w) @ concat (map v ws)) (length (pre @ v w)) ws ?next"
    using free Cons.prems(2) len by (simp add: Let_def)
  moreover have "\<forall>w' \<in> set ws. length (v w') = wi_slice_length w' \<and> look2 ?next (wi_workflow_id w') name = None"
  proof
    fix w' assume w': "w' \<in> set ws"
    with Cons.prems(1) have "wi_workflow_id w' \<noteq> wi_workflow_id w" by (auto simp: image_iff)
    with w' Cons.prems(2) show "length (v w') = wi_slice_length w' \<and> look2 ?next (wi_workflow_id w') name = None" by simp
  qed
  ultimately obtain remapped' where run: "give_slices name (pre @ concat (map v (w # ws))) (length pre) (w # ws) remapped = Inr remapped'"
    and done1: "\<forall>w \<in> set ws. look2 remapped' (wi_workflow_id w) name = Some (v w)"
    and same: "\<forall>i n. n \<noteq> name \<or> i \<notin> wi_workflow_id ` set ws \<longrightarrow> look2 remapped' i n = look2 ?next i n"
    using Cons.IH [of ?next "pre @ v w"] Cons.prems(1) by auto
  from same Cons.prems(1) have "look2 remapped' (wi_workflow_id w) name = Some (v w)" by simp
  with run done1 same show ?case by auto
qed simp


lemma demux_group_ok:
  assumes "distinct (map wi_workflow_id ws)" and "distinct (dict_keys (dict_get bg gk []))"
    and vals: "\<forall>name vals. look2 bg gk name = Some vals \<longrightarrow> vals = concat (map (v name) (sort_key wi_slice_index ws)) \<and> (\<forall>w \<in> set ws. length (v name w) = wi_slice_length w)"
    and free: "\<forall>w \<in> set ws. \<forall>name. look2 remapped (wi_workflow_id w) name = None"
  shows "\<exists>remapped'. demux_group bg (gk, ws) remapped = Inr remapped' \<and>
    (\<forall>w \<in> set ws. \<forall>name. look2 remapped' (wi_workflow_id w) name = (if look2 bg gk name = None then None else Some (v name w))) \<and>
    (\<forall>i n. i \<notin> wi_workflow_id ` set ws \<longrightarrow> look2 remapped' i n = look2 remapped i n)"
proof -
  let ?os = "sort_key wi_slice_index ws" and ?n = "sum_list (map wi_slice_length (sort_key wi_slice_index ws))"
  let ?step = "\<lambda>(name, vals) remapped. if length vals \<noteq> ?n then Inl (ValueError ''Output length mismatch for merged workflow'') else give_slices name vals 0 ?os remapped"
  have os: "set ?os = set ws" "distinct (map wi_workflow_id ?os)"
    using assms(1) by (simp_all add: distinct_map inj_on_def) (metis distinct_sort)?
  have rows: "\<exists>remapped'. efold ?step rows remapped = Inr remapped' \<and>
      (\<forall>w \<in> set ws. \<forall>name. look2 remapped' (wi_workflow_id w) name = (if name \<in> fst ` set rows then Some (v name w) else look2 remapped (wi_workflow_id w) name)) \<and>
      (\<forall>i n. i \<notin> wi_workflow_id ` set ws \<longrightarrow> look2 remapped' i n = look2 remapped i n)"
    if "distinct (map fst rows)" "\<forall>(name, vals) \<in> set rows. look2 bg gk name = Some vals"
      "\<forall>w \<in> set ws. \<forall>name \<in> fst ` set rows. look2 remapped (wi_workflow_id w) name = None" for rows remapped
    using that
  proof (induction rows arbitrary: remapped)
    case (Cons row rows)
    obtain name vals where row: "row = (name, vals)" by (cases row)
    with Cons.prems(2) assms(3) have v: "vals = concat (map (v name) ?os)" "\<forall>w \<in> set ws. length (v name w) = wi_slice_length w" by auto
    have "\<forall>w \<in> set ?os. length (v name w) = wi_slice_length w \<and> look2 remapped (wi_workflow_id w) name = None"
      using v(2) Cons.prems(3) os(1) by (simp add: row)
    from give_slices_ok [OF os(2) this, of "[]"] obtain r1 where give: "give_slices name vals 0 ?os remapped = Inr r1"
      and r1: "\<forall>w \<in> set ws. look2 r1 (wi_workflow_id w) name = Some (v name w)"
      and same: "\<forall>i n. n \<noteq> name \<or> i \<notin> wi_workflow_id ` set ws \<longrightarrow> look2 r1 i n = look2 remapped i n"
      by (auto simp: os(1) v(1))
    have "length vals = ?n"
      unfolding v(1) length_concat map_map comp_def using v(2) os(1) by (metis (mono_tags, lifting) map_eq_conv)
    with give have step: "?step row remapped = Inr r1" by (simp add: row)
    have "\<forall>w \<in> set ws. \<forall>n \<in> fst ` set rows. look2 r1 (wi_workflow_id w) n = None"
    proof (intro ballI)
      fix w n assume w: "w \<in> set ws" and n: "n \<in> fst ` set rows"
      with Cons.prems(1) have "n \<noteq> name" by (auto simp: row)
      with same have "look2 r1 (wi_workflow_id w) n = look2 remapped (wi_workflow_id w) n" by blast
      also have "\<dots> = None" using Cons.prems(3) w n by auto
      finally show "look2 r1 (wi_workflow_id w) n = None" .
    qed
    from Cons.IH [OF _ _ this] Cons.prems(1,2) obtain r2 where run: "efold ?step rows r1 = Inr r2"
      and r2: "\<forall>w \<in> set ws. \<forall>name. look2 r2 (wi_workflow_id w) name = (if name \<in> fst ` set rows then Some (v name w) else look2 r1 (wi_workflow_id w) name)"
      "\<forall>i n. i \<notin> wi_workflow_id ` set ws \<longrightarrow> look2 r2 i n = look2 r1 i n" by auto
    have "efold ?step (row # rows) remapped = Inr r2" using step run by simp
    moreover have "\<forall>w \<in> set ws. \<forall>n. look2 r2 (wi_workflow_id w) n = (if n \<in> fst ` set (row # rows) then Some (v n w) else look2 remapped (wi_workflow_id w) n)"
      using r2(1) r1 same by (auto simp: row)
    moreover have "\<forall>i n. i \<notin> wi_workflow_id ` set ws \<longrightarrow> look2 r2 i n = look2 remapped i n"
      using r2(2) same by simp
    ultimately show ?case by blast
  qed simp
  have look: "look2 bg gk name = Some vals" if "(name, vals) \<in> set (dict_get bg gk [])" for name vals
    using that assms(2) by (simp add: look2_def)
  have none: "look2 bg gk name = None \<longleftrightarrow> name \<notin> fst ` set (dict_get bg gk [])" for name
    by (simp add: look2_def map_of_eq_None_iff)
  obtain remapped' where run: "efold ?step (dict_get bg gk []) remapped = Inr remapped'"
    and got: "\<forall>w \<in> set ws. \<forall>name. look2 remapped' (wi_workflow_id w) name = (if name \<in> fst ` set (dict_get bg gk []) then Some (v name w) else look2 remapped (wi_workflow_id w) name)"
    and same: "\<forall>i n. i \<notin> wi_workflow_id ` set ws \<longrightarrow> look2 remapped' i n = look2 remapped i n"
  proof -
    have "\<forall>(name, vals) \<in> set (dict_get bg gk []). look2 bg gk name = Some vals" using look by auto
    moreover have "\<forall>w \<in> set ws. \<forall>name \<in> fst ` set (dict_get bg gk []). look2 remapped (wi_workflow_id w) name = None" using free by simp
    ultimately show ?thesis using rows [OF assms(2), of remapped] that by blast
  qed
  have "demux_group bg (gk, ws) remapped = Inr remapped'" using run by (simp add: demux_group_def Let_def)
  moreover have "\<forall>w \<in> set ws. \<forall>name. look2 remapped' (wi_workflow_id w) name = (if look2 bg gk name = None then None else Some (v name w))"
    using got free none by simp
  ultimately show ?thesis using same by blast
qed


lemma demux_groups_ok:
  assumes "distinct (concat (map (map wi_workflow_id) (dict_values groups)))" and "\<forall>gk. distinct (dict_keys (dict_get bg gk []))"
    and vals: "\<forall>(gk, ws) \<in> set groups. \<forall>name vals. look2 bg gk name = Some vals \<longrightarrow>
      vals = concat (map (v name) (sort_key wi_slice_index ws)) \<and> (\<forall>w \<in> set ws. length (v name w) = wi_slice_length w)"
    and free: "\<forall>(gk, ws) \<in> set groups. \<forall>w \<in> set ws. \<forall>name. look2 remapped (wi_workflow_id w) name = None"
  shows "\<exists>remapped'. efold (demux_group bg) groups remapped = Inr remapped' \<and>
    (\<forall>(gk, ws) \<in> set groups. \<forall>w \<in> set ws. \<forall>name. look2 remapped' (wi_workflow_id w) name = (if look2 bg gk name = None then None else Some (v name w))) \<and>
    (\<forall>i n. (\<forall>(gk, ws) \<in> set groups. i \<notin> wi_workflow_id ` set ws) \<longrightarrow> look2 remapped' i n = look2 remapped i n)"
  using assms(1) vals free
proof (induction groups arbitrary: remapped)
  case (Cons g groups)
  obtain gk ws where g: "g = (gk, ws)" by (cases g)
  have apart: "i \<notin> wi_workflow_id ` set ws'" if w: "(gk', ws') \<in> set groups" "i \<in> wi_workflow_id ` set ws" for gk' ws' i
  proof
    assume "i \<in> wi_workflow_id ` set ws'"
    with w(1) have "i \<in> set (concat (map (map wi_workflow_id) (dict_values groups)))" by force
    with w(2) Cons.prems(1) show False by (auto simp: g)
  qed
  have "distinct (map wi_workflow_id ws)" using Cons.prems(1) by (simp add: g)
  from demux_group_ok [OF this, of bg gk v remapped] assms(2) Cons.prems(2,3)
  obtain r1 where step: "demux_group bg (gk, ws) remapped = Inr r1"
    and r1: "\<forall>w \<in> set ws. \<forall>name. look2 r1 (wi_workflow_id w) name = (if look2 bg gk name = None then None else Some (v name w))"
    and same: "\<forall>i n. i \<notin> wi_workflow_id ` set ws \<longrightarrow> look2 r1 i n = look2 remapped i n" by (auto simp: g)
  have free1: "\<forall>(gk, ws) \<in> set groups. \<forall>w \<in> set ws. \<forall>name. look2 r1 (wi_workflow_id w) name = None"
  proof clarify
    fix gk' ws' w name assume w: "(gk', ws') \<in> set groups" "w \<in> set ws'"
    then have "wi_workflow_id w \<notin> wi_workflow_id ` set ws" using apart by blast
    with same Cons.prems(3) w show "look2 r1 (wi_workflow_id w) name = None" by auto
  qed
  obtain r2 where run: "efold (demux_group bg) groups r1 = Inr r2"
    and r2: "\<forall>(gk, ws) \<in> set groups. \<forall>w \<in> set ws. \<forall>name. look2 r2 (wi_workflow_id w) name = (if look2 bg gk name = None then None else Some (v name w))"
    and same2: "\<forall>i n. (\<forall>(gk, ws) \<in> set groups. i \<notin> wi_workflow_id ` set ws) \<longrightarrow> look2 r2 i n = look2 r1 i n"
    using Cons.IH [OF _ _ free1] Cons.prems(1,2) by auto
  have "\<forall>w \<in> set ws. \<forall>name. look2 r2 (wi_workflow_id w) name = look2 r1 (wi_workflow_id w) name"
  proof (intro ballI allI)
    fix w name assume "w \<in> set ws"
    then have "\<forall>(gk, ws') \<in> set groups. wi_workflow_id w \<notin> wi_workflow_id ` set ws'" using apart by blast
    with same2 show "look2 r2 (wi_workflow_id w) name = look2 r1 (wi_workflow_id w) name" by blast
  qed
  with r1 r2 have "\<forall>(gk, ws) \<in> set (g # groups). \<forall>w \<in> set ws. \<forall>name. look2 r2 (wi_workflow_id w) name = (if look2 bg gk name = None then None else Some (v name w))"
    by (auto simp: g)
  moreover have "\<forall>i n. (\<forall>(gk, ws) \<in> set (g # groups). i \<notin> wi_workflow_id ` set ws) \<longrightarrow> look2 r2 i n = look2 remapped i n"
    using same same2 by (auto simp: g)
  moreover have "efold (demux_group bg) (g # groups) remapped = Inr r2" using step run by (simp add: g)
  ultimately show ?case by blast
qed simp

lemma demux_outputs_ok:
  assumes "distinct (dict_keys grouped)" and ids: "distinct (concat (map (map wi_workflow_id) (dict_values grouped)))" and "node_rows mapping grouped flat"
    and vals: "\<forall>(node, v) \<in> set flat. \<forall>gk name. map_of mapping node = Some (gk, name) \<longrightarrow>
      v = PList (concat (map (val name) (sort_key wi_slice_index (dict_get grouped gk [])))) \<and> (\<forall>w \<in> set (dict_get grouped gk []). length (val name w) = wi_slice_length w)"
  shows "\<exists>remapped. demux_outputs mapping grouped flat = Inr remapped \<and>
    (\<forall>(gk, ws) \<in> set grouped. \<forall>w \<in> set ws. \<forall>name. look2 remapped (wi_workflow_id w) name =
       (if \<exists>(node, v) \<in> set flat. map_of mapping node = Some (gk, name) then Some (val name w) else None))"
proof -
  obtain bg where nodes: "efold (demux_node mapping grouped) flat ([], []) = Inr ([], bg)" and dist: "\<forall>gk. distinct (dict_keys (dict_get bg gk []))"
    and look: "\<forall>gk name. look2 bg gk name =
       (case map_of (map (\<lambda>(node, v). (map_of mapping node, v)) flat) (Some (gk, name)) of Some (PList vals) \<Rightarrow> Some vals | _ \<Rightarrow> None)"
  proof -
    have "\<forall>(node, v) \<in> set flat. \<forall>gk name. map_of mapping node = Some (gk, name) \<longrightarrow> look2 ([] :: (string, named_values) dict) gk name = None" by simp
    moreover have "\<forall>gk. distinct (dict_keys (dict_get ([] :: (string, named_values) dict) gk []))" by (simp add: dict_get_def)
    ultimately show ?thesis using demux_nodes [OF assms(3), of "[]" "[]"] that unfolding look2_Nil by blast
  qed
  have row: "\<exists>node vals. (node, PList vals) \<in> set flat \<and> map_of mapping node = Some (gk, name)" if "look2 bg gk name \<noteq> None" for gk name
  proof (cases "map_of (map (\<lambda>(node, v). (map_of mapping node, v)) flat) (Some (gk, name))")
    case None
    with look that show ?thesis by simp
  next
    case (Some v)
    from map_of_SomeD [OF Some] obtain node where "(node, v) \<in> set flat" "map_of mapping node = Some (gk, name)" by auto
    moreover from this assms(3) obtain vals where "v = PList vals" by (fastforce simp: node_rows_def list_all_iff)
    ultimately show ?thesis by blast
  qed
  have hit: "look2 bg gk name = Some vals" if "(node, PList vals) \<in> set flat" "map_of mapping node = Some (gk, name)" for node vals gk name
  proof -
    have "distinct (map fst (map (\<lambda>(node, v). (map_of mapping node, v)) flat))" 
    proof -
      have "map fst (map (\<lambda>(node, v). (map_of mapping node, v)) flat) = map (\<lambda>(node, v). map_of mapping node) flat" by auto
      with assms(3) show ?thesis by (simp only: node_rows_def)
    qed
    moreover have "(Some (gk, name), PList vals) \<in> set (map (\<lambda>(node, v). (map_of mapping node, v)) flat)" using that by force
    ultimately have "map_of (map (\<lambda>(node, v). (map_of mapping node, v)) flat) (Some (gk, name)) = Some (PList vals)" by (rule map_of_is_SomeI)
    with look show ?thesis by simp
  qed
  have good: "\<forall>(gk, ws) \<in> set grouped. \<forall>name vals. look2 bg gk name = Some vals \<longrightarrow>
      vals = concat (map (val name) (sort_key wi_slice_index ws)) \<and> (\<forall>w \<in> set ws. length (val name w) = wi_slice_length w)"
  proof clarify
    fix gk ws name vals' assume g: "(gk, ws) \<in> set grouped" and l: "look2 bg gk name = Some vals'"
    from row [of gk name] l obtain node vs where n: "(node, PList vs) \<in> set flat" "map_of mapping node = Some (gk, name)" by auto
    from hit [OF n] l have "vs = vals'" by simp
    moreover from g assms(1) have "dict_get grouped gk [] = ws" by (simp add: dict_get_def)
    ultimately show "vals' = concat (map (val name) (sort_key wi_slice_index ws)) \<and> (\<forall>w \<in> set ws. length (val name w) = wi_slice_length w)"
      using vals n by fastforce
  qed
  obtain remapped where run: "efold (demux_group bg) grouped [] = Inr remapped"
    and got: "\<forall>(gk, ws) \<in> set grouped. \<forall>w \<in> set ws. \<forall>name. look2 remapped (wi_workflow_id w) name = (if look2 bg gk name = None then None else Some (val name w))"
    using demux_groups_ok [OF ids dist good, of "[]"] by auto
  have "look2 bg gk name = None \<longleftrightarrow> \<not> (\<exists>(node, v) \<in> set flat. map_of mapping node = Some (gk, name))" for gk name
  proof -
    have "\<exists>vals. v = PList vals" if "(node, v) \<in> set flat" for node v
      using that assms(3) by (fastforce simp: node_rows_def list_all_iff)
    with row [of gk name] hit [of _ _ gk name] show ?thesis by (cases "look2 bg gk name") fastforce+
  qed
  with got have "\<forall>(gk, ws) \<in> set grouped. \<forall>w \<in> set ws. \<forall>name. look2 remapped (wi_workflow_id w) name =
       (if \<exists>(node, v) \<in> set flat. map_of mapping node = Some (gk, name) then Some (val name w) else None)" by fastforce
  with nodes run show ?thesis by (auto simp: demux_outputs_def)
qed

section \<open>Filling the buffers\<close>

definition covers :: "'d workflow_item \<Rightarrow> string \<Rightarrow> nat \<Rightarrow> bool" where
  "covers w public i \<longleftrightarrow> wi_public_graph_name w = public \<and> wi_slice_start w \<le> i \<and> i < wi_slice_start w + wi_slice_length w"

text \<open>The values of a workflow's outputs, as far as the slices \<open>got\<close> have brought them.\<close>

definition filled :: "(string \<Rightarrow> string \<Rightarrow> pyval list) \<Rightarrow> 'd workflow_item set \<Rightarrow> string \<Rightarrow> string \<Rightarrow> pyval list" where
  "filled val got public name =
     map (\<lambda>i. if \<exists>w \<in> got. covers w public i then val public name ! i else PNone) [0..<length (val public name)]"

definition holds ::
  "(string \<Rightarrow> string \<Rightarrow> pyval list) \<Rightarrow> (string \<Rightarrow> string list) \<Rightarrow> 'd workflow_item set \<Rightarrow> (string, named_values) dict \<Rightarrow> bool" where
  "holds val outs got buffers \<longleftrightarrow>
     distinct (dict_keys buffers) \<and> (\<forall>p. distinct (dict_keys (dict_get buffers p []))) \<and>
     (\<forall>p n. look2 buffers p n =
        (if n \<in> set (outs p) \<and> (\<exists>w \<in> got. wi_public_graph_name w = p) then Some (filled val got p n) else None))"

definition slice_values :: "(string \<Rightarrow> string \<Rightarrow> pyval list) \<Rightarrow> 'd workflow_item \<Rightarrow> string \<Rightarrow> pyval list" where
  "slice_values val w n = take (wi_slice_length w) (drop (wi_slice_start w) (val (wi_public_graph_name w) n))"

definition slice_payload :: "(string \<Rightarrow> string \<Rightarrow> pyval list) \<Rightarrow> (string \<Rightarrow> string list) \<Rightarrow> 'd workflow_item \<Rightarrow> named_values \<Rightarrow> bool" where
  "slice_payload val outs w payload \<longleftrightarrow>
     distinct (dict_keys payload) \<and>
     (\<forall>n. map_of payload n = (if n \<in> set (outs (wi_public_graph_name w)) then Some (slice_values val w n) else None))"

definition good_slice :: "(string \<Rightarrow> string \<Rightarrow> pyval list) \<Rightarrow> (string \<Rightarrow> string list) \<Rightarrow> 'd workflow_item \<Rightarrow> bool" where
  "good_slice val outs w \<longleftrightarrow>
     0 < wi_total_length w \<and> wi_slice_start w + wi_slice_length w \<le> wi_total_length w \<and>
     list_all (\<lambda>n. length (val (wi_public_graph_name w) n) = wi_total_length w) (outs (wi_public_graph_name w))"

definition apart :: "'d workflow_item \<Rightarrow> 'd workflow_item set \<Rightarrow> bool" where
  "apart w got \<longleftrightarrow> (\<forall>i. covers w (wi_public_graph_name w) i \<longrightarrow> \<not> (\<exists>u \<in> got. covers u (wi_public_graph_name w) i))"

lemma length_filled [simp]: "length (filled val got p n) = length (val p n)"
  by (simp add: filled_def)

lemma filled_nothing: "\<not> (\<exists>w \<in> got. wi_public_graph_name w = p) \<Longrightarrow> filled val got p n = replicate (length (val p n)) PNone"
  by (rule nth_equalityI) (auto simp: filled_def covers_def)

lemma filled_insert:
  assumes "length (val (wi_public_graph_name w) n) = wi_total_length w" and "wi_slice_start w + wi_slice_length w \<le> wi_total_length w"
  shows "take (wi_slice_start w) (filled val got (wi_public_graph_name w) n) @
      slice_values val w n @
      drop (wi_slice_start w + wi_slice_length w) (filled val got (wi_public_graph_name w) n) =
    filled val (insert w got) (wi_public_graph_name w) n"
  by (rule nth_equalityI) (use assms in \<open>auto simp: nth_append filled_def covers_def slice_values_def\<close>)

lemma filled_other: "wi_public_graph_name w \<noteq> p \<Longrightarrow> filled val (insert w got) p n = filled val got p n"
  by (simp add: filled_def covers_def)

lemma no_overlap:
  assumes "apart w got" and "length (val (wi_public_graph_name w) n) = wi_total_length w" and "wi_slice_start w + wi_slice_length w \<le> wi_total_length w"
  shows "filter (\<lambda>i. filled val got (wi_public_graph_name w) n ! i \<noteq> PNone) [wi_slice_start w..<wi_slice_start w + wi_slice_length w] = []"
  using assms by (auto simp: filter_empty_conv filled_def apart_def covers_def)

lemma buffers_put [simp]:
  "buffers_of h (put_buffer h p n v st) = AList.update p (AList.update n v (dict_get (buffers_of h st) p [])) (buffers_of h st)"
  by (simp add: put_buffer_def buffers_of_def set_buffers_def)

lemma set_buffers_put: "put_buffer h p n v (set_buffers h b st) =
    set_buffers h (AList.update p (AList.update n v (dict_get b p [])) b) st"
  by (simp add: put_buffer_def buffers_of_def set_buffers_def)

lemma buffers_set [simp]: "buffers_of h (set_buffers h b st) = b" "set_buffers h b (set_buffers h c st) = set_buffers h b st"
  by (simp_all add: buffers_of_def set_buffers_def)

text \<open>One output of a slice, in a buffer that holds what other slices have brought.\<close>

lemma merge_slice_value_ok:
  assumes good: "good_slice val outs w" and n: "n \<in> set (outs (wi_public_graph_name w))" and "apart w got"
    and target: "dict_get (dict_get b (wi_public_graph_name w) []) n (replicate (wi_total_length w) PNone) = filled val got (wi_public_graph_name w) n"
  shows "\<exists>b'. merge_slice_value h w (n, slice_values val w n) ok (set_buffers h b st) =
      (Inr ok, set_buffers h b' st) \<and>
    (\<forall>p n'. look2 b' p n' = (if p = wi_public_graph_name w \<and> n' = n then Some (filled val (insert w got) p n) else look2 b p n')) \<and>
    (distinct (dict_keys b) \<longrightarrow> distinct (dict_keys b')) \<and>
    ((\<forall>p. distinct (dict_keys (dict_get b p []))) \<longrightarrow> (\<forall>p. distinct (dict_keys (dict_get b' p []))))"
proof -
  let ?p = "wi_public_graph_name w" and ?v = "slice_values val w n"
  from good n have len: "length (val ?p n) = wi_total_length w" and fits: "wi_slice_start w + wi_slice_length w \<le> wi_total_length w"
    by (auto simp: good_slice_def list_all_iff)
  let ?b1 = "AList.update ?p (AList.update n (filled val got ?p n) (dict_get b ?p [])) b"
  let ?b2 = "AList.update ?p (AList.update n (filled val (insert w got) ?p n) (dict_get ?b1 ?p [])) ?b1"
  have "length ?v = wi_slice_length w" using len fits by (simp add: slice_values_def)
  then have "merge_slice_value h w (n, ?v) ok (set_buffers h b st) = (Inr ok, set_buffers h ?b2 st)"
    using no_overlap [of w got val n, OF assms(3) len fits] filled_insert [of val w n got, OF len fits]
    by (simp add: merge_slice_value_def target len Let_def set_buffers_put)
  moreover have "look2 ?b2 p n' = (if p = ?p \<and> n' = n then Some (filled val (insert w got) p n) else look2 b p n')" for p n'
    unfolding look2_update by auto
  ultimately show ?thesis by (intro exI [of _ ?b2]) (auto simp: dict_get_update)
qed

lemma merge_slice_values_ok:
  assumes good: "good_slice val outs w" and "apart w got" and "distinct ns" and "set ns \<subseteq> set (outs (wi_public_graph_name w))"
    and "\<forall>n \<in> set ns. dict_get (dict_get b (wi_public_graph_name w) []) n (replicate (wi_total_length w) PNone) = filled val got (wi_public_graph_name w) n"
  shows "\<exists>b'. merge_slice_values h w (map (\<lambda>n. (n, slice_values val w n)) ns) ok (set_buffers h b st) =
      (Inr ok, set_buffers h b' st) \<and>
    (\<forall>p n. look2 b' p n = (if p = wi_public_graph_name w \<and> n \<in> set ns then Some (filled val (insert w got) p n) else look2 b p n)) \<and>
    (distinct (dict_keys b) \<longrightarrow> distinct (dict_keys b')) \<and>
    ((\<forall>p. distinct (dict_keys (dict_get b p []))) \<longrightarrow> (\<forall>p. distinct (dict_keys (dict_get b' p []))))"
  using assms(3-)
proof (induction ns arbitrary: b)
  case (Cons n ns)
  let ?p = "wi_public_graph_name w" and ?row = "\<lambda>n. (n, slice_values val w n)"
  have n: "n \<in> set (outs ?p)" and t: "dict_get (dict_get b ?p []) n (replicate (wi_total_length w) PNone) = filled val got ?p n"
    using Cons.prems by auto
  obtain b1 where step: "merge_slice_value h w (?row n) ok (set_buffers h b st) = (Inr ok, set_buffers h b1 st)"
    and b1: "\<forall>p n'. look2 b1 p n' = (if p = ?p \<and> n' = n then Some (filled val (insert w got) p n) else look2 b p n')"
    "distinct (dict_keys b) \<longrightarrow> distinct (dict_keys b1)" "(\<forall>p. distinct (dict_keys (dict_get b p []))) \<longrightarrow> (\<forall>p. distinct (dict_keys (dict_get b1 p [])))"
    using merge_slice_value_ok [OF good n assms(2) t, of h ok st] by blast
  have "dict_get (dict_get b1 ?p []) m (replicate (wi_total_length w) PNone) = filled val got ?p m" if "m \<in> set ns" for m
  proof -
    from that Cons.prems(1) have "m \<noteq> n" by auto
    with b1(1) have "look2 b1 ?p m = look2 b ?p m" by simp
    then have "dict_get (dict_get b1 ?p []) m x = dict_get (dict_get b ?p []) m x" for x :: "pyval list" by (simp add: look2_def dict_get_def)
    with Cons.prems(3) that show ?thesis by simp
  qed
  then obtain b2 where run: "merge_slice_values h w (map ?row ns) ok (set_buffers h b1 st) = (Inr ok, set_buffers h b2 st)"
    and b2: "\<forall>p n. look2 b2 p n = (if p = ?p \<and> n \<in> set ns then Some (filled val (insert w got) p n) else look2 b1 p n)"
    "distinct (dict_keys b1) \<longrightarrow> distinct (dict_keys b2)" "(\<forall>p. distinct (dict_keys (dict_get b1 p []))) \<longrightarrow> (\<forall>p. distinct (dict_keys (dict_get b2 p [])))"
    using Cons.IH [of b1] Cons.prems(1,2) by auto
  have "merge_slice_values h w (map ?row (n # ns)) ok (set_buffers h b st) = (Inr ok, set_buffers h b2 st)"
    using step run by (simp add: then_op_def)
  with b1 b2 show ?case by (intro exI [of _ b2]) auto
next
  case Nil
  show ?case by (rule exI [of _ b]) (simp add: pure_op_def)
qed

lemma merge_slice_payload_ok:
  assumes good: "good_slice val outs w" and "apart w got" and holds: "holds val outs got (buffers_of h st)" and payload: "slice_payload val outs w payload"
  shows "\<exists>b'. merge_slice_payload h w payload st = (Inr True, set_buffers h b' st) \<and> holds val outs (insert w got) b'"
proof -
  let ?p = "wi_public_graph_name w" and ?b = "buffers_of h st"
  let ?base = "if ?p \<in> set (dict_keys ?b) then ?b else AList.update ?p [] ?b"
  have get0: "dict_get ?base p [] = dict_get ?b p []" for p
  proof (cases "?p \<in> set (dict_keys ?b)")
    case False
    then have "map_of ?b ?p = None" by (simp add: map_of_eq_None_iff)
    with False show ?thesis by (simp add: dict_get_def map_of_update)
  qed simp
  then have look0: "look2 ?base p n = look2 ?b p n" for p n by (simp only: look2_def)
  have target: "dict_get (dict_get ?base ?p []) n (replicate (wi_total_length w) PNone) = filled val got ?p n" if n: "n \<in> set (outs ?p)" for n
  proof -
    have len: "length (val ?p n) = wi_total_length w" using good n by (auto simp: good_slice_def list_all_iff)
    have "look2 ?b ?p n = (if \<exists>w \<in> got. wi_public_graph_name w = ?p then Some (filled val got ?p n) else None)"
      using holds n by (simp add: holds_def)
    then show ?thesis unfolding get0 using filled_nothing [of got ?p val n] len by (auto simp: look2_def dict_get_def)
  qed
  have dist: "distinct (dict_keys payload)" and ns: "set (dict_keys payload) = set (outs ?p)"
  proof -
    show "distinct (dict_keys payload)" using payload by (simp add: slice_payload_def)
    have "n \<in> set (dict_keys payload) \<longleftrightarrow> n \<in> set (outs ?p)" for n
    proof -
      have "n \<in> set (dict_keys payload) \<longleftrightarrow> map_of payload n \<noteq> None" by (simp add: map_of_eq_None_iff)
      also have "\<dots> \<longleftrightarrow> n \<in> set (outs ?p)" using payload by (simp add: slice_payload_def)
      finally show ?thesis .
    qed
    then show "set (dict_keys payload) = set (outs ?p)" by blast
  qed
  have rows: "map (\<lambda>n. (n, slice_values val w n)) (dict_keys payload) = payload"
    unfolding map_map comp_def
  proof (rule map_idI)
    fix row assume row: "row \<in> set payload"
    with dist have "map_of payload (fst row) = Some (snd row)" by simp
    moreover from row ns have "fst row \<in> set (outs ?p)" by auto
    ultimately show "(fst row, slice_values val w (fst row)) = row" using payload by (auto simp: slice_payload_def prod_eq_iff)
  qed
  obtain b' where run: "merge_slice_values h w payload True (set_buffers h ?base st) = (Inr True, set_buffers h b' st)"
    and b': "\<forall>p n. look2 b' p n = (if p = ?p \<and> n \<in> set (outs ?p) then Some (filled val (insert w got) p n) else look2 ?base p n)"
    "distinct (dict_keys ?base) \<longrightarrow> distinct (dict_keys b')"
    "(\<forall>p. distinct (dict_keys (dict_get ?base p []))) \<longrightarrow> (\<forall>p. distinct (dict_keys (dict_get b' p [])))"
    using merge_slice_values_ok [OF good assms(2) dist equalityD1 [OF ns], of ?base h True st] target unfolding rows ns by blast
  have "merge_slice_payload h w payload st = (Inr True, set_buffers h b' st)"
    unfolding merge_slice_payload_def Let_def using good run by (simp add: good_slice_def)
  moreover have "holds val outs (insert w got) b'"
    unfolding holds_def
  proof (intro conjI allI)
    show "distinct (dict_keys b')" using b'(2) holds by (auto simp: holds_def)
    show "distinct (dict_keys (dict_get b' p []))" for p using b'(3) holds unfolding get0 by (auto simp: holds_def)
    show "look2 b' p n = (if n \<in> set (outs p) \<and> (\<exists>u \<in> insert w got. wi_public_graph_name u = p) then Some (filled val (insert w got) p n) else None)" for p n
    proof (cases "p = ?p")
      case True
      with b'(1) look0 holds show ?thesis by (auto simp: holds_def)
    next
      case False
      with b'(1) look0 have "look2 b' p n = look2 ?b p n" by simp
      with holds False filled_other [of w p val got n] show ?thesis by (auto simp: holds_def)
    qed
  qed
  ultimately show ?thesis by blast
qed

section \<open>Completing requests\<close>

type_synonym request_values = "(string \<Rightarrow> string \<Rightarrow> pyval list) \<times> (string \<Rightarrow> string list)"

text \<open>
  A request in the middle of its run: it waits for exactly the items that are not back yet, its
  buffers hold what the others brought, and nothing went wrong. The first component of \<open>OV\<close> and
  \<open>HV\<close> gives the values of a public name and an output, the second the outputs of a public name.
\<close>

definition of_request :: "string \<Rightarrow> 'd workflow_item set \<Rightarrow> 'd workflow_item set" where
  "of_request r ws = {w \<in> ws. wi_request_id w = r}"

definition tracked ::
  "(string \<Rightarrow> request_values) \<Rightarrow> (string \<Rightarrow> request_values) \<Rightarrow> 'd workflow_item set \<Rightarrow> 'd workflow_item set \<Rightarrow> string \<Rightarrow> request_state \<Rightarrow> bool" where
  "tracked OV HV items got r st \<longleftrightarrow>
     rs_errors st = None \<and> rs_ready st \<and> set (rs_pending st) = wi_workflow_id ` of_request r (items - got) \<and>
     holds (fst (OV r)) (snd (OV r)) (of_request r got) (rs_output_buffers st) \<and>
     holds (fst (HV r)) (snd (HV r)) (of_request r got) (rs_history_buffers st) \<and>
     set (rs_successful st) = wi_workflow_id ` of_request r got \<and>
     rs_completed_inputs st = (\<Sum>w \<in> of_request r got. wi_slice_length w)"

definition good_results :: "(string \<Rightarrow> request_values) \<Rightarrow> (string \<Rightarrow> request_values) \<Rightarrow> batch_results \<Rightarrow> 'd workflow_item \<Rightarrow> bool" where
  "good_results OV HV B w \<longleftrightarrow>
     be_error B = None \<and> wi_request_id w \<notin> set (be_cancelled B) \<and>
     (\<exists>payload. map_of (be_outputs B) (wi_workflow_id w) = Some payload \<and>
        slice_payload (fst (OV (wi_request_id w))) (snd (OV (wi_request_id w))) w payload) \<and>
     (case map_of (be_histories B) (wi_workflow_id w) of
        None \<Rightarrow> snd (HV (wi_request_id w)) (wi_public_graph_name w) = []
      | Some payload \<Rightarrow> slice_payload (fst (HV (wi_request_id w))) (snd (HV (wi_request_id w))) w payload)"

definition sound_items :: "(string \<Rightarrow> request_values) \<Rightarrow> (string \<Rightarrow> request_values) \<Rightarrow> 'd workflow_item set \<Rightarrow> bool" where
  "sound_items OV HV items \<longleftrightarrow>
     finite items \<and> inj_on wi_workflow_id items \<and>
     (\<forall>w \<in> items. good_slice (fst (OV (wi_request_id w))) (snd (OV (wi_request_id w))) w \<and>
        good_slice (fst (HV (wi_request_id w))) (snd (HV (wi_request_id w))) w \<and>
        (\<forall>got \<subseteq> items - {w}. apart w (of_request (wi_request_id w) got)))"

lemma holds_skip:
  assumes "holds val outs got b" and "outs (wi_public_graph_name w) = []"
  shows "holds val outs (insert w got) b"
proof -
  have "(if n \<in> set (outs p) \<and> (\<exists>u \<in> insert w got. wi_public_graph_name u = p) then Some (filled val (insert w got) p n) else None) =
      (if n \<in> set (outs p) \<and> (\<exists>u \<in> got. wi_public_graph_name u = p) then Some (filled val got p n) else None)" for p n
    using assms(2) filled_other [of w p val got n] by (cases "p = wi_public_graph_name w") auto
  with assms(1) show ?thesis by (simp add: holds_def)
qed

lemma merge_outputs_ok:
  assumes "good_results OV HV B w" and "good_slice (fst (OV (wi_request_id w))) (snd (OV (wi_request_id w))) w"
    and "apart w got" and "holds (fst (OV (wi_request_id w))) (snd (OV (wi_request_id w))) got (rs_output_buffers st)"
  shows "\<exists>b. merge_outputs B w st = (Inr (), mark_successful_input_completion w (st\<lparr>rs_output_buffers := b\<rparr>)) \<and>
    holds (fst (OV (wi_request_id w))) (snd (OV (wi_request_id w))) (insert w got) b"
proof -
  from assms(1) obtain payload where "map_of (be_outputs B) (wi_workflow_id w) = Some payload"
    and p: "slice_payload (fst (OV (wi_request_id w))) (snd (OV (wi_request_id w))) w payload" by (auto simp: good_results_def)
  with merge_slice_payload_ok [OF assms(2,3) _ p, of False st] assms(4) show ?thesis
    by (auto simp: merge_outputs_def then_op_def buffers_of_def set_buffers_def)
qed

lemma merge_histories_ok:
  assumes "good_results OV HV B w" and "good_slice (fst (HV (wi_request_id w))) (snd (HV (wi_request_id w))) w"
    and "apart w got" and "holds (fst (HV (wi_request_id w))) (snd (HV (wi_request_id w))) got (rs_history_buffers st)"
  shows "\<exists>b. merge_histories B w st = (Inr (), st\<lparr>rs_history_buffers := b\<rparr>) \<and>
    holds (fst (HV (wi_request_id w))) (snd (HV (wi_request_id w))) (insert w got) b"
proof (cases "map_of (be_histories B) (wi_workflow_id w)")
  case None
  with assms(1) have "snd (HV (wi_request_id w)) (wi_public_graph_name w) = []" by (simp add: good_results_def)
  from holds_skip [OF assms(4) this] None show ?thesis
    by (intro exI [of _ "rs_history_buffers st"]) (simp add: merge_histories_def pure_op_def)
next
  case (Some payload)
  with assms(1) have "slice_payload (fst (HV (wi_request_id w))) (snd (HV (wi_request_id w))) w payload" by (simp add: good_results_def)
  from merge_slice_payload_ok [OF assms(2,3) _ this, of True st] assms(4) Some show ?thesis
    by (auto simp: merge_histories_def then_op_def pure_op_def buffers_of_def set_buffers_def)
qed

lemma workflow_results_ok:
  assumes items: "sound_items OV HV items" and w: "w \<in> items" "w \<notin> got" "got \<subseteq> items" and B: "good_results OV HV B w"
    and tr: "tracked OV HV items got (wi_request_id w) st"
  shows "\<exists>st'. workflow_results B w st = (Inr (), st') \<and> tracked OV HV items (insert w got) (wi_request_id w) st'"
proof -
  let ?r = "wi_request_id w"
  have good: "good_slice (fst (OV ?r)) (snd (OV ?r)) w" "good_slice (fst (HV ?r)) (snd (HV ?r)) w" and apart: "apart w (of_request ?r got)"
    using items w by (auto simp: sound_items_def)
  have ins: "of_request ?r (insert w got) = insert w (of_request ?r got)" by (auto simp: of_request_def)
  have ids: "wi_workflow_id w \<notin> wi_workflow_id ` of_request ?r got"
    using items w by (auto simp: sound_items_def of_request_def dest: inj_onD)
  obtain b where out: "merge_outputs B w st = (Inr (), mark_successful_input_completion w (st\<lparr>rs_output_buffers := b\<rparr>))"
    and b: "holds (fst (OV ?r)) (snd (OV ?r)) (insert w (of_request ?r got)) b"
  proof -
    have "holds (fst (OV ?r)) (snd (OV ?r)) (of_request ?r got) (rs_output_buffers st)" using tr by (simp add: tracked_def)
    from merge_outputs_ok [OF B good(1) apart this] that show ?thesis by blast
  qed
  let ?st = "mark_successful_input_completion w (st\<lparr>rs_output_buffers := b\<rparr>)"
  have "holds (fst (HV ?r)) (snd (HV ?r)) (of_request ?r got) (rs_history_buffers ?st)"
    using tr by (simp add: tracked_def mark_successful_input_completion_def)
  from merge_histories_ok [OF B good(2) apart this] obtain c where hist: "merge_histories B w ?st = (Inr (), ?st\<lparr>rs_history_buffers := c\<rparr>)"
    and c: "holds (fst (HV ?r)) (snd (HV ?r)) (insert w (of_request ?r got)) c" by blast
  have run: "workflow_results B w st = (Inr (), discard_pending w (?st\<lparr>rs_history_buffers := c\<rparr>))"
    using B out hist by (simp add: workflow_results_def good_results_def then_op_def)
  have "set (rs_pending (discard_pending w (?st\<lparr>rs_history_buffers := c\<rparr>))) = wi_workflow_id ` of_request ?r (items - insert w got)"
  proof -
    have "set (rs_pending st) = wi_workflow_id ` of_request ?r (items - got)" using tr by (simp add: tracked_def)
    moreover have "of_request ?r (items - got) = insert w (of_request ?r (items - insert w got))" using w by (auto simp: of_request_def)
    moreover have "wi_workflow_id w \<notin> wi_workflow_id ` of_request ?r (items - insert w got)"
      using items w(1) by (auto simp: sound_items_def of_request_def dest: inj_onD)
    moreover have "set (rs_pending (discard_pending w (?st\<lparr>rs_history_buffers := c\<rparr>))) = set (rs_pending st) - {wi_workflow_id w}"
      by (auto simp: discard_pending_def mark_successful_input_completion_def)
    ultimately show ?thesis by simp
  qed
  moreover have "wi_workflow_id w \<notin> set (rs_successful st)" using tr ids by (simp add: tracked_def)
  moreover have "finite (of_request ?r got)" and "w \<notin> of_request ?r got"
    using items w by (auto simp: sound_items_def of_request_def intro: finite_subset)
  ultimately have "tracked OV HV items (insert w got) ?r (discard_pending w (?st\<lparr>rs_history_buffers := c\<rparr>))"
    using tr b c unfolding tracked_def ins by (simp add: discard_pending_def mark_successful_input_completion_def)
  with run show ?thesis by blast
qed

lemma tracked_other: "wi_request_id w \<noteq> r \<Longrightarrow> tracked OV HV items (insert w got) r st \<longleftrightarrow> tracked OV HV items got r st"
proof -
  assume r: "wi_request_id w \<noteq> r"
  then have "of_request r (insert w got) = of_request r got" "of_request r (items - insert w got) = of_request r (items - got)"
    by (auto simp: of_request_def)
  then show ?thesis by (simp add: tracked_def)
qed

definition all_tracked ::
  "(string \<Rightarrow> request_values) \<Rightarrow> (string \<Rightarrow> request_values) \<Rightarrow> 'd workflow_item set \<Rightarrow> 'd workflow_item set \<Rightarrow> requests \<Rightarrow> bool" where
  "all_tracked OV HV items got rs \<longleftrightarrow> (\<forall>r st. map_of rs r = Some st \<longrightarrow> tracked OV HV items got r st)"

lemma batch_workflows_ok:
  assumes items: "sound_items OV HV items" and "distinct ws" and "set ws \<subseteq> items" and "got \<subseteq> items" and "set ws \<inter> got = {}"
    and "\<forall>w \<in> set ws. good_results OV HV B w" and "all_tracked OV HV items got rs"
  shows "\<exists>aff rs'. batch_workflows B ws affected rs = (Inr aff, rs') \<and> all_tracked OV HV items (got \<union> set ws) rs' \<and>
    dom (map_of rs') = dom (map_of rs) \<and> set aff = set affected \<union> (wi_request_id ` set ws \<inter> dom (map_of rs)) \<and> (distinct affected \<longrightarrow> distinct aff)"
  using assms(2-)
proof (induction ws arbitrary: affected rs got)
  case (Cons w ws)
  let ?r = "wi_request_id w"
  show ?case
  proof (cases "map_of rs ?r")
    case None
    have "all_tracked OV HV items (insert w got) rs"
      unfolding all_tracked_def
    proof (intro allI impI)
      fix r st assume st: "map_of rs r = Some st"
      with None have "?r \<noteq> r" by auto
      with st Cons.prems(6) show "tracked OV HV items (insert w got) r st" by (simp add: all_tracked_def tracked_other)
    qed
    with Cons.IH [of "insert w got" rs affected] Cons.prems None show ?thesis by (auto simp: domIff)
  next
    case (Some st)
    with Cons.prems obtain st' where run: "workflow_results B w st = (Inr (), st')" and tr: "tracked OV HV items (insert w got) ?r st'"
      using workflow_results_ok [OF items, of w got B st] by (auto simp: all_tracked_def)
    let ?rs = "AList.update ?r st' rs"
    have "all_tracked OV HV items (insert w got) ?rs"
      unfolding all_tracked_def
    proof (intro allI impI)
      fix r s assume s: "map_of ?rs r = Some s"
      show "tracked OV HV items (insert w got) r s"
      proof (cases "?r = r")
        case True
        with s tr show ?thesis by (simp add: map_of_update)
      next
        case False
        with s Cons.prems(6) show ?thesis by (simp add: all_tracked_def tracked_other map_of_update)
      qed
    qed
    moreover have "dom (map_of ?rs) = dom (map_of rs)" using Some by (auto simp: map_of_update split: if_splits)
    ultimately show ?thesis using Cons.IH [of "insert w got" ?rs "set_add ?r affected"] Cons.prems(1-5) Some run by (auto simp: insert_absorb)
  qed
qed simp

text \<open>All the values are there, and the items of the request tile them.\<close>

definition solid :: "request_values \<Rightarrow> 'd workflow_item set \<Rightarrow> bool" where
  "solid V ws \<longleftrightarrow>
     (\<forall>p n. n \<in> set (snd V p) \<and> (\<exists>w \<in> ws. wi_public_graph_name w = p) \<longrightarrow>
        PNone \<notin> set (fst V p n) \<and> (\<forall>i < length (fst V p n). \<exists>w \<in> ws. covers w p i))"

definition result_text :: "(pyval \<Rightarrow> 'a) \<Rightarrow> request_values \<Rightarrow> 'd workflow_item set \<Rightarrow> string \<Rightarrow> string \<Rightarrow> 'a list option" where
  "result_text f V ws p n = (if n \<in> set (snd V p) \<and> (\<exists>w \<in> ws. wi_public_graph_name w = p) then Some (map f (fst V p n)) else None)"

lemma filled_solid:
  assumes "solid V ws" and "ws \<subseteq> got" and "n \<in> set (snd V p)" and "\<exists>w \<in> ws. wi_public_graph_name w = p"
  shows "filled (fst V) got p n = fst V p n"
proof (rule nth_equalityI)
  fix i assume i: "i < length (filled (fst V) got p n)"
  from assms(1,3,4) have "\<forall>i < length (fst V p n). \<exists>w \<in> ws. covers w p i" unfolding solid_def by blast
  with i assms(2) have "\<exists>w \<in> got. covers w p i" by force
  with i show "filled (fst V) got p n ! i = fst V p n ! i" by (simp add: filled_def)
qed simp

lemma map_of_map_buffers:
  assumes "distinct (dict_keys b)"
  shows "map_of (map_buffers f b) p = (case map_of b p of Some (row # rows) \<Rightarrow> Some (map (\<lambda>(n, vals). (n, map f vals)) (row # rows)) | _ \<Rightarrow> None)"
  using assms
proof (induction b)
  case (Cons row b)
  obtain q m where row: "row = (q, m)" by (cases row)
  have none: "map_of b q = None" using Cons.prems by (simp add: row map_of_eq_None_iff)
  show ?case
  proof (cases m)
    case Nil
    with Cons none show ?thesis by (cases "p = q") (simp_all add: row map_buffers_def)
  next
    case (Cons a list)
    with Cons.IH Cons.prems show ?thesis by (cases "p = q") (simp_all add: row map_buffers_def)
  qed
qed (simp add: map_buffers_def)

lemma look2_map_buffers:
  assumes "distinct (dict_keys b)"
  shows "look2 (map_buffers f b) p n = map_option (map f) (look2 b p n)"
proof -
  have "map_of (map (\<lambda>(n, vals). (n, map f vals)) m) n = map_option (map f) (map_of m n)" for m :: named_values
    by (induction m) auto
  then show ?thesis
    by (cases "map_of b p"; cases "the (map_of b p)") (auto simp: look2_def dict_get_def map_of_map_buffers [OF assms])
qed

lemma look2_finalized:
  assumes "holds (fst V) (snd V) got b" and "solid V ws" and "ws \<subseteq> got" and "\<forall>w \<in> got. \<exists>u \<in> ws. wi_public_graph_name u = wi_public_graph_name w"
  shows "look2 (map_buffers f b) p n = result_text f V ws p n"
proof -
  have "look2 b p n = (if n \<in> set (snd V p) \<and> (\<exists>w \<in> got. wi_public_graph_name w = p) then Some (filled (fst V) got p n) else None)"
    and dist: "distinct (dict_keys b)" using assms(1) by (auto simp: holds_def)
  moreover have "(\<exists>w \<in> got. wi_public_graph_name w = p) \<longleftrightarrow> (\<exists>w \<in> ws. wi_public_graph_name w = p)"
    using assms(3,4) by (blast intro: sym)
  ultimately show ?thesis using filled_solid [OF assms(2,3), of n p] by (simp add: look2_map_buffers [OF dist] result_text_def)
qed

lemma check_missing_nothing:
  assumes "holds (fst V) (snd V) got b" and "solid V ws" and "ws \<subseteq> got" and "\<forall>w \<in> got. \<exists>u \<in> ws. wi_public_graph_name u = wi_public_graph_name w"
  shows "check_missing err b st = st"
proof -
  have none: "missing_indices vals = []" if pm: "(p, m) \<in> set b" and nv: "(n, vals) \<in> set m" for p m n vals
  proof -
    from assms(1) have d: "distinct (dict_keys b)" "\<forall>p. distinct (dict_keys (dict_get b p []))" by (auto simp: holds_def)
    with pm have m: "dict_get b p [] = m" by (simp add: dict_get_def)
    with d(2) have "distinct (dict_keys m)" by metis
    with nv m have "look2 b p n = Some vals" by (simp add: look2_def)
    with assms(1) have n: "n \<in> set (snd V p)" "\<exists>w \<in> got. wi_public_graph_name w = p" "vals = filled (fst V) got p n"
      by (auto simp: holds_def split: if_splits)
    from n(2) assms(4) have ws: "\<exists>w \<in> ws. wi_public_graph_name w = p" by force
    from filled_solid [OF assms(2,3) n(1) ws] n(3) have "vals = fst V p n" by simp
    moreover have "PNone \<notin> set (fst V p n)" using assms(2) n(1) ws unfolding solid_def by blast
    ultimately show ?thesis by (auto simp: missing_indices_def filter_empty_conv in_set_conv_nth)
  qed
  have inner: "fold (\<lambda>(name, vals) st. if missing_indices vals = [] then st else append_error (err p name (missing_indices vals)) st) m st = st"
    if "\<forall>(n, vals) \<in> set m. missing_indices vals = []" for p m st
    using that by (induction m) auto
  have "fold (\<lambda>(public, outs). fold (\<lambda>(name, vals) st.
         if missing_indices vals = [] then st else append_error (err public name (missing_indices vals)) st) outs) b' st = st" if "set b' \<subseteq> set b" for b' st
    using that
  proof (induction b')
    case (Cons row b')
    obtain p m where row: "row = (p, m)" by (cases row)
    from Cons.prems row none have "\<forall>(n, vals) \<in> set m. missing_indices vals = []" by fastforce
    from inner [OF this] Cons row show ?case by simp
  qed simp
  then show ?thesis by (simp add: check_missing_def)
qed

definition all_solid :: "(string \<Rightarrow> request_values) \<Rightarrow> (string \<Rightarrow> request_values) \<Rightarrow> 'd workflow_item set \<Rightarrow> bool" where
  "all_solid OV HV items \<longleftrightarrow> (\<forall>r. solid (OV r) (of_request r items) \<and> solid (HV r) (of_request r items))"

lemma finalize_state_ok:
  assumes tr: "tracked OV HV items got r st" and "all_solid OV HV items" and "got \<subseteq> items" and "of_request r items \<subseteq> got"
  shows "tracked OV HV items got r (finalize_state render st)" and "rs_pending (finalize_state render st) = rs_pending st"
    and "rs_errors (finalize_state render st) = None"
    and "look2 (rs_outputs (finalize_state render st)) p n = result_text (output_text render) (OV r) (of_request r items) p n"
    and "look2 (rs_histories (finalize_state render st)) p n = result_text history_value (HV r) (of_request r items) p n"
proof -
  have eq: "of_request r got = of_request r items" using assms(3,4) by (auto simp: of_request_def)
  from tr have h: "holds (fst (OV r)) (snd (OV r)) (of_request r items) (rs_output_buffers st)" "holds (fst (HV r)) (snd (HV r)) (of_request r items) (rs_history_buffers st)"
    by (simp_all add: tracked_def eq)
  from assms(2) have s: "solid (OV r) (of_request r items)" "solid (HV r) (of_request r items)" by (auto simp: all_solid_def)
  have self: "\<forall>w \<in> of_request r items. \<exists>u \<in> of_request r items. wi_public_graph_name u = wi_public_graph_name w" by blast
  have fin: "finalize_state render st = st\<lparr>rs_outputs := map_buffers (output_text render) (rs_output_buffers st),
      rs_histories := map_buffers history_value (rs_history_buffers st)\<rparr>"
    using check_missing_nothing [OF h(1) s(1) order_refl self] check_missing_nothing [OF h(2) s(2) order_refl self] by (simp add: finalize_state_def Let_def)
  show "tracked OV HV items got r (finalize_state render st)" using tr by (simp add: fin tracked_def)
  show "rs_pending (finalize_state render st) = rs_pending st" by (simp add: fin)
  show "rs_errors (finalize_state render st) = None" using tr by (simp add: fin tracked_def)
  show "look2 (rs_outputs (finalize_state render st)) p n = result_text (output_text render) (OV r) (of_request r items) p n"
    using look2_finalized [OF h(1) s(1) order_refl self] by (simp add: fin)
  show "look2 (rs_histories (finalize_state render st)) p n = result_text history_value (HV r) (of_request r items) p n"
    using look2_finalized [OF h(2) s(2) order_refl self] by (simp add: fin)
qed

definition good_response :: "(pyval \<Rightarrow> string) \<Rightarrow> (string \<Rightarrow> request_values) \<Rightarrow> (string \<Rightarrow> request_values) \<Rightarrow> 'd workflow_item set \<Rightarrow> response \<Rightarrow> bool" where
  "good_response render OV HV items a \<longleftrightarrow>
     rp_errors a = None \<and>
     (\<forall>p n. look2 (rp_outputs a) p n = result_text (output_text render) (OV (rp_request a)) (of_request (rp_request a) items) p n) \<and>
     (\<forall>p n. look2 (rp_histories a) p n = result_text history_value (HV (rp_request a)) (of_request (rp_request a) items) p n)"

lemma pending_empty:
  assumes "tracked OV HV items got r st" and "got \<subseteq> items"
  shows "rs_pending st = [] \<longleftrightarrow> of_request r items \<subseteq> got"
proof -
  have "rs_pending st = [] \<longleftrightarrow> of_request r (items - got) = {}" using assms(1) by (auto simp: tracked_def simp flip: set_empty)
  then show ?thesis by (auto simp: of_request_def)
qed

lemma respond_ok:
  assumes "all_solid OV HV items" and "got \<subseteq> items" and "all_tracked OV HV items got rs"
  shows "\<exists>answers rs'. respond render ids rs = (answers, rs') \<and> all_tracked OV HV items got rs' \<and> dom (map_of rs') = dom (map_of rs) \<and>
    map rp_request answers = filter (\<lambda>r. r \<in> dom (map_of rs) \<and> of_request r items \<subseteq> got) ids \<and>
    list_all (good_response render OV HV items) answers"
  using assms(3)
proof (induction ids arbitrary: rs)
  case (Cons r ids)
  show ?case
  proof (cases "map_of rs r")
    case None
    with Cons.IH [OF Cons.prems] show ?thesis by (auto simp: domIff)
  next
    case (Some st)
    with Cons.prems have tr: "tracked OV HV items got r st" by (simp add: all_tracked_def)
    then have ready: "rs_ready st" by (simp add: tracked_def)
    show ?thesis
    proof (cases "of_request r items \<subseteq> got")
      case False
      with pending_empty [OF tr assms(2)] have "rs_pending st \<noteq> []" by simp
      with Cons.IH [OF Cons.prems] Some False show ?thesis by auto
    next
      case True
      note fin = finalize_state_ok [OF tr assms(1,2) True, of render]
      from pending_empty [OF tr assms(2)] True have empty: "rs_pending st = []" by simp
      let ?st = "finalize_state render st" and ?rs = "AList.update r (finalize_state render st) rs"
      have "all_tracked OV HV items got ?rs" using Cons.prems fin(1) by (auto simp: all_tracked_def map_of_update)
      from Cons.IH [OF this] obtain answers rs' where run: "respond render ids ?rs = (answers, rs')" "all_tracked OV HV items got rs'"
        and d: "dom (map_of rs') = dom (map_of ?rs)" and who: "map rp_request answers = filter (\<lambda>r. r \<in> dom (map_of ?rs) \<and> of_request r items \<subseteq> got) ids"
        and good: "list_all (good_response render OV HV items) answers" by blast
      have same: "dom (map_of ?rs) = dom (map_of rs)" using Some by (auto simp: map_of_update split: if_splits)
      let ?a = "\<lparr>rp_request = r, rp_outputs = rs_outputs ?st, rp_errors = rs_errors ?st, rp_histories = rs_histories ?st\<rparr>"
      have "good_response render OV HV items ?a" using fin(3-5) by (simp add: good_response_def)
      moreover have "respond render (r # ids) rs = (?a # answers, rs')" using Some empty ready run(1) by (simp add: Let_def)
      ultimately show ?thesis using run(2) d who good same True Some by auto
    qed
  qed
qed simp

section \<open>From the runtime to the answers\<close>

lemma give_slices_distinct:
  "give_slices name vals offset ws remapped = Inr remapped' \<Longrightarrow> \<forall>i. distinct (dict_keys (dict_get remapped i [])) \<Longrightarrow>
   \<forall>i. distinct (dict_keys (dict_get remapped' i []))"
  by (induction name vals offset ws remapped rule: give_slices.induct) (auto simp: Let_def dict_get_update split: if_splits)

lemma demux_group_distinct:
  assumes "demux_group bg grp remapped = Inr remapped'" and "\<forall>i. distinct (dict_keys (dict_get remapped i []))"
  shows "\<forall>i. distinct (dict_keys (dict_get remapped' i []))"
  using assms(1)[unfolded demux_group_def Let_def] assms(2)
  by (rule efold_invariant) (auto dest: give_slices_distinct split: if_splits prod.splits)

lemma demux_nodes_direct:
  assumes "node_rows mapping grouped flat" and "efold (demux_node mapping grouped) flat ([], []) = Inr (direct, bg)"
  shows "direct = []"
proof -
  have "\<exists>bg'. efold (demux_node mapping grouped) flat ([] :: (string, named_values) dict, []) = Inr ([], bg')"
    using demux_nodes [OF assms(1), of "[]" "[]"] by (auto simp: dict_get_def)
  with assms(2) show ?thesis by auto
qed

lemma demux_outputs_distinct:
  assumes "node_rows mapping grouped flat" and "demux_outputs mapping grouped flat = Inr remapped"
  shows "\<forall>i. distinct (dict_keys (dict_get remapped i []))"
proof -
  from assms(2) obtain direct bg where nodes: "efold (demux_node mapping grouped) flat ([], []) = Inr (direct, bg)"
    and run: "efold (demux_group bg) grouped direct = Inr remapped" by (auto simp: demux_outputs_def ebind_Inr_iff)
  from demux_nodes_direct [OF assms(1) nodes] have "\<forall>i. distinct (dict_keys (dict_get direct i []))" by (simp add: dict_get_def)
  with run show ?thesis by (rule efold_invariant) (rule demux_group_distinct)
qed

text \<open>
  What the runtime gives for a batch: every node has the values of its group's slices one after
  the other, in slice order, and the nodes of a group are the outputs of its workflow.
\<close>

definition runtime_values ::
  "(string \<Rightarrow> request_values) \<Rightarrow> (string, string \<times> string) dict \<Rightarrow> (string, 'd workflow_item list) dict \<Rightarrow> (string, pyval) dict \<Rightarrow> bool" where
  "runtime_values V mapping grouped flat \<longleftrightarrow>
     node_rows mapping grouped flat \<and>
     (\<forall>(node, v) \<in> set flat. \<forall>gk name. map_of mapping node = Some (gk, name) \<longrightarrow>
        v = PList (concat (map (\<lambda>w. slice_values (fst (V (wi_request_id w))) w name) (sort_key wi_slice_index (dict_get grouped gk []))))) \<and>
     (\<forall>(gk, ws) \<in> set grouped. \<forall>w \<in> set ws. \<forall>name.
        name \<in> set (snd (V (wi_request_id w)) (wi_public_graph_name w)) \<longleftrightarrow> (\<exists>(node, v) \<in> set flat. map_of mapping node = Some (gk, name)))"

definition good_groups :: "(string \<Rightarrow> request_values) \<Rightarrow> (string, 'd workflow_item list) dict \<Rightarrow> bool" where
  "good_groups V grouped \<longleftrightarrow>
     distinct (dict_keys grouped) \<and> distinct (concat (map (map wi_workflow_id) (dict_values grouped))) \<and>
     (\<forall>(gk, ws) \<in> set grouped. \<forall>w \<in> set ws. good_slice (fst (V (wi_request_id w))) (snd (V (wi_request_id w))) w)"

lemma demux_payload:
  assumes grouped: "good_groups V grouped" and run: "runtime_values V mapping grouped flat"
  shows "\<exists>remapped. demux_outputs mapping grouped flat = Inr remapped \<and>
    (\<forall>(gk, ws) \<in> set grouped. \<forall>w \<in> set ws. slice_payload (fst (V (wi_request_id w))) (snd (V (wi_request_id w))) w (dict_get remapped (wi_workflow_id w) []))"
proof -
  let ?val = "\<lambda>name w. slice_values (fst (V (wi_request_id w))) w name"
  have rows: "node_rows mapping grouped flat" using run by (simp add: runtime_values_def)
  have get: "(gk, dict_get grouped gk []) \<in> set grouped" if "dict_get grouped gk [] \<noteq> []" for gk
    using that by (auto simp: dict_get_def split: option.splits dest: map_of_SomeD)
  have vals: "\<forall>(node, v) \<in> set flat. \<forall>gk name. map_of mapping node = Some (gk, name) \<longrightarrow>
      v = PList (concat (map (?val name) (sort_key wi_slice_index (dict_get grouped gk [])))) \<and> (\<forall>w \<in> set (dict_get grouped gk []). length (?val name w) = wi_slice_length w)"
  proof clarify
    fix node v gk name assume n: "(node, v) \<in> set flat" "map_of mapping node = Some (gk, name)"
    have "length (?val name w) = wi_slice_length w" if w: "w \<in> set (dict_get grouped gk [])" for w
    proof -
      from w have "dict_get grouped gk [] \<noteq> []" by auto
      then have g: "(gk, dict_get grouped gk []) \<in> set grouped" by (rule get)
      with w n run have "name \<in> set (snd (V (wi_request_id w)) (wi_public_graph_name w))" unfolding runtime_values_def by blast
      moreover have "good_slice (fst (V (wi_request_id w))) (snd (V (wi_request_id w))) w" using g w grouped by (auto simp: good_groups_def)
      ultimately show ?thesis by (auto simp: good_slice_def slice_values_def list_all_iff)
    qed
    moreover have "v = PList (concat (map (?val name) (sort_key wi_slice_index (dict_get grouped gk []))))"
      using n run unfolding runtime_values_def by blast
    ultimately show "v = PList (concat (map (?val name) (sort_key wi_slice_index (dict_get grouped gk [])))) \<and>
        (\<forall>w \<in> set (dict_get grouped gk []). length (?val name w) = wi_slice_length w)" by blast
  qed
  obtain remapped where demux: "demux_outputs mapping grouped flat = Inr remapped"
    and look: "\<forall>(gk, ws) \<in> set grouped. \<forall>w \<in> set ws. \<forall>name. look2 remapped (wi_workflow_id w) name =
       (if \<exists>(node, v) \<in> set flat. map_of mapping node = Some (gk, name) then Some (?val name w) else None)"
    using demux_outputs_ok [OF _ _ rows vals] grouped by (auto simp: good_groups_def)
  have "slice_payload (fst (V (wi_request_id w))) (snd (V (wi_request_id w))) w (dict_get remapped (wi_workflow_id w) [])"
    if g: "(gk, ws) \<in> set grouped" "w \<in> set ws" for gk ws w
    unfolding slice_payload_def
  proof (intro conjI allI)
    show "distinct (dict_keys (dict_get remapped (wi_workflow_id w) []))" using demux_outputs_distinct [OF rows demux] by blast
    fix n
    have "n \<in> set (snd (V (wi_request_id w)) (wi_public_graph_name w)) \<longleftrightarrow> (\<exists>(node, v) \<in> set flat. map_of mapping node = Some (gk, n))"
      using run g unfolding runtime_values_def by blast
    moreover have "look2 remapped (wi_workflow_id w) n = (if \<exists>(node, v) \<in> set flat. map_of mapping node = Some (gk, n) then Some (?val n w) else None)"
      using look g by blast
    ultimately show "map_of (dict_get remapped (wi_workflow_id w) []) n =
        (if n \<in> set (snd (V (wi_request_id w)) (wi_public_graph_name w)) then Some (slice_values (fst (V (wi_request_id w))) w n) else None)"
      by (simp add: look2_def)
  qed
  with demux show ?thesis by blast
qed

text \<open>A batch whose outputs and histories were cut from what the runtime gave.\<close>

definition delivered :: "(string \<Rightarrow> request_values) \<Rightarrow> (string \<Rightarrow> request_values) \<Rightarrow> batch_results \<Rightarrow> 'd workflow_item list \<Rightarrow> bool" where
  "delivered OV HV B ws \<longleftrightarrow>
     be_error B = None \<and> (\<forall>w \<in> set ws. wi_request_id w \<notin> set (be_cancelled B)) \<and>
     (\<exists>mapping grouped flat histories.
        set ws = set (concat (dict_values grouped)) \<and> good_groups OV grouped \<and> good_groups HV grouped \<and>
        runtime_values OV mapping grouped flat \<and> runtime_values HV mapping grouped histories \<and>
        (\<forall>w \<in> set ws. snd (OV (wi_request_id w)) (wi_public_graph_name w) \<noteq> []) \<and>
        demux_outputs mapping grouped flat = Inr (be_outputs B) \<and> demux_outputs mapping grouped histories = Inr (be_histories B))"

lemma delivered_good:
  assumes "delivered OV HV B ws" and w: "w \<in> set ws"
  shows "good_results OV HV B w"
proof -
  let ?r = "wi_request_id w"
  from assms(1) obtain mapping grouped flat histories where ws: "set ws = set (concat (dict_values grouped))"
    and g: "good_groups OV grouped" "good_groups HV grouped" and run: "runtime_values OV mapping grouped flat" "runtime_values HV mapping grouped histories"
    and some: "\<forall>w \<in> set ws. snd (OV (wi_request_id w)) (wi_public_graph_name w) \<noteq> []"
    and demux: "demux_outputs mapping grouped flat = Inr (be_outputs B)" "demux_outputs mapping grouped histories = Inr (be_histories B)"
    by (auto simp: delivered_def)
  from w ws obtain gk us where us: "(gk, us) \<in> set grouped" "w \<in> set us" by force
  have p: "slice_payload (fst (OV ?r)) (snd (OV ?r)) w (dict_get (be_outputs B) (wi_workflow_id w) [])"
    using demux_payload [OF g(1) run(1)] demux(1) us by fastforce
  have h: "slice_payload (fst (HV ?r)) (snd (HV ?r)) w (dict_get (be_histories B) (wi_workflow_id w) [])"
    using demux_payload [OF g(2) run(2)] demux(2) us by fastforce
  have "map_of (be_outputs B) (wi_workflow_id w) \<noteq> None"
  proof
    assume none: "map_of (be_outputs B) (wi_workflow_id w) = None"
    from some w obtain n where "n \<in> set (snd (OV ?r) (wi_public_graph_name w))" by (meson last_in_set)
    with p none show False by (auto simp: slice_payload_def dict_get_def dest!: spec [of _ n])
  qed
  then obtain payload where "map_of (be_outputs B) (wi_workflow_id w) = Some payload" by blast
  moreover have "snd (HV ?r) (wi_public_graph_name w) = []" if "map_of (be_histories B) (wi_workflow_id w) = None"
  proof (rule ccontr)
    assume "snd (HV ?r) (wi_public_graph_name w) \<noteq> []"
    then obtain n where "n \<in> set (snd (HV ?r) (wi_public_graph_name w))" by (meson last_in_set)
    with h that show False by (auto simp: slice_payload_def dict_get_def dest!: spec [of _ n])
  qed
  ultimately show ?thesis
    using p h assms by (auto simp: good_results_def delivered_def dict_get_def split: option.splits)
qed


section \<open>A run of batches\<close>

text \<open>Batch after batch comes back; the answers are collected.\<close>

fun run_batches :: "(pyval \<Rightarrow> string) \<Rightarrow> (batch_results \<times> 'd workflow_item list) list \<Rightarrow> (requests, response list) op" where
  "run_batches render [] = pure_op (Inr [])"
| "run_batches render ((B, ws) # batches) =
     then_op (handle_batch_results render B ws) (\<lambda>answers. then_op (run_batches render batches) (\<lambda>more. pure_op (Inr (answers @ more))))"

definition answers_to :: "string \<Rightarrow> response list \<Rightarrow> nat" where
  "answers_to r answers = length (filter (\<lambda>a. rp_request a = r) answers)"

lemma answers_to_append: "answers_to r (xs @ ys) = answers_to r xs + answers_to r ys"
  by (simp add: answers_to_def)

lemma answers_to_requests: "answers_to r answers = length (filter (\<lambda>q. q = r) (map rp_request answers))"
  by (simp add: answers_to_def filter_map comp_def)

lemma handle_batch_ok:
  assumes items: "sound_items OV HV items" and solid: "all_solid OV HV items" and ws: "distinct ws" "set ws \<subseteq> items" and got: "got \<subseteq> items" "set ws \<inter> got = {}"
    and B: "delivered OV HV B ws" and rs: "all_tracked OV HV items got rs"
  shows "\<exists>answers rs'. handle_batch_results render B ws rs = (Inr answers, rs') \<and> all_tracked OV HV items (got \<union> set ws) rs' \<and>
    dom (map_of rs') = dom (map_of rs) \<and> list_all (good_response render OV HV items) answers \<and>
    (\<forall>r \<in> dom (map_of rs). answers_to r answers = (if of_request r items \<subseteq> got \<union> set ws \<and> \<not> of_request r items \<subseteq> got then 1 else 0))"
proof -
  have good: "\<forall>w \<in> set ws. good_results OV HV B w" using delivered_good [OF B] by blast
  obtain aff rs1 where run: "batch_workflows B ws [] rs = (Inr aff, rs1)" and t1: "all_tracked OV HV items (got \<union> set ws) rs1"
    and d1: "dom (map_of rs1) = dom (map_of rs)" and aff: "set aff = wi_request_id ` set ws \<inter> dom (map_of rs)" "distinct aff"
    using batch_workflows_ok [OF items ws got good rs, of "[]"] by auto
  have unnoted: "note_task_nodes B aff rs1 = rs1" using B by (simp add: note_task_nodes_def delivered_def)
  obtain answers rs2 where resp: "respond render aff rs1 = (answers, rs2)" "all_tracked OV HV items (got \<union> set ws) rs2" "dom (map_of rs2) = dom (map_of rs1)"
    and who: "map rp_request answers = filter (\<lambda>r. r \<in> dom (map_of rs1) \<and> of_request r items \<subseteq> got \<union> set ws) aff"
    and ok: "list_all (good_response render OV HV items) answers"
    using respond_ok [OF solid _ t1, of render aff] ws(2) got(1) by auto
  have "answers_to r answers = (if of_request r items \<subseteq> got \<union> set ws \<and> \<not> of_request r items \<subseteq> got then 1 else 0)" if r: "r \<in> dom (map_of rs)" for r
  proof -
    have one: "length (filter (\<lambda>q. q = r) xs) = (if r \<in> set xs then 1 else 0)" if "distinct xs" for xs
      using that by (induction xs) (auto simp: filter_empty_conv)
    have "answers_to r answers = (if r \<in> set aff \<and> of_request r items \<subseteq> got \<union> set ws then 1 else 0)"
      unfolding answers_to_requests who using one [of "filter (\<lambda>r. r \<in> dom (map_of rs1) \<and> of_request r items \<subseteq> got \<union> set ws) aff"] aff(2) r d1 by auto
    moreover have "r \<in> set aff \<longleftrightarrow> \<not> of_request r items \<inter> set ws = {}" using aff(1) r ws(2) by (auto simp: of_request_def)
    moreover have "of_request r items \<subseteq> got \<union> set ws \<Longrightarrow> of_request r items \<inter> set ws = {} \<longleftrightarrow> of_request r items \<subseteq> got" using got(2) by blast
    ultimately show ?thesis by auto
  qed
  moreover have "handle_batch_results render B ws rs = (Inr answers, rs2)"
    unfolding handle_batch_results_def then_op_def run prod.case sum.case unnoted resp(1) by (rule refl)
  ultimately show ?thesis using resp d1 ok by auto
qed

lemma run_batches_ok:
  assumes items: "sound_items OV HV items" and solid: "all_solid OV HV items"
    and "distinct (concat (map snd batches))" and "set (concat (map snd batches)) \<subseteq> items" and "got \<subseteq> items" and "set (concat (map snd batches)) \<inter> got = {}"
    and "\<forall>(B, ws) \<in> set batches. delivered OV HV B ws" and "all_tracked OV HV items got rs"
  shows "\<exists>answers rs'. run_batches render batches rs = (Inr answers, rs') \<and> all_tracked OV HV items (got \<union> set (concat (map snd batches))) rs' \<and>
    dom (map_of rs') = dom (map_of rs) \<and> list_all (good_response render OV HV items) answers \<and>
    (\<forall>r \<in> dom (map_of rs). answers_to r answers =
       (if of_request r items \<subseteq> got \<union> set (concat (map snd batches)) \<and> \<not> of_request r items \<subseteq> got then 1 else 0))"
  using assms(3-)
proof (induction batches arbitrary: got rs)
  case Nil
  then show ?case by (auto simp: pure_op_def answers_to_def)
next
  case (Cons b batches)
  obtain B ws where b: "b = (B, ws)" by (cases b)
  let ?rest = "set (concat (map snd batches))"
  have first: "distinct ws" "set ws \<subseteq> items" "set ws \<inter> got = {}" "delivered OV HV B ws" using Cons.prems by (auto simp: b)
  from handle_batch_ok [OF items solid first(1,2) Cons.prems(3) first(3,4) Cons.prems(6), of render]
  obtain as1 rs1 where one: "handle_batch_results render B ws rs = (Inr as1, rs1)" "all_tracked OV HV items (got \<union> set ws) rs1"
    "dom (map_of rs1) = dom (map_of rs)" "list_all (good_response render OV HV items) as1"
    "\<forall>r \<in> dom (map_of rs). answers_to r as1 = (if of_request r items \<subseteq> got \<union> set ws \<and> \<not> of_request r items \<subseteq> got then 1 else 0)" by blast
  have "distinct (concat (map snd batches))" "?rest \<subseteq> items" "got \<union> set ws \<subseteq> items" "?rest \<inter> (got \<union> set ws) = {}" "\<forall>(B, ws) \<in> set batches. delivered OV HV B ws"
    using Cons.prems first by (auto simp: b)
  from Cons.IH [OF this one(2)] obtain as2 rs2 where two: "run_batches render batches rs1 = (Inr as2, rs2)"
    "all_tracked OV HV items (got \<union> set ws \<union> ?rest) rs2" "dom (map_of rs2) = dom (map_of rs1)" "list_all (good_response render OV HV items) as2"
    "\<forall>r \<in> dom (map_of rs1). answers_to r as2 = (if of_request r items \<subseteq> got \<union> set ws \<union> ?rest \<and> \<not> of_request r items \<subseteq> got \<union> set ws then 1 else 0)" by blast
  have "run_batches render (b # batches) rs = (Inr (as1 @ as2), rs2)" using one(1) two(1) by (simp add: b then_op_def pure_op_def)
  moreover have "got \<union> set (concat (map snd (b # batches))) = got \<union> set ws \<union> ?rest" by (auto simp: b)
  moreover have "answers_to r (as1 @ as2) = (if of_request r items \<subseteq> got \<union> set ws \<union> ?rest \<and> \<not> of_request r items \<subseteq> got then 1 else 0)" if "r \<in> dom (map_of rs)" for r
    using one(3,5) two(5) that by (auto simp: answers_to_append)
  ultimately show ?case using one two by auto
qed

definition fresh_request :: "'d workflow_item set \<Rightarrow> string \<Rightarrow> request_state \<Rightarrow> bool" where
  "fresh_request items r st \<longleftrightarrow>
     rs_errors st = None \<and> rs_ready st \<and> set (rs_pending st) = wi_workflow_id ` of_request r items \<and>
     rs_output_buffers st = [] \<and> rs_history_buffers st = [] \<and> rs_successful st = [] \<and> rs_completed_inputs st = 0"

text \<open>
  C15: the slices of the requests come back in any batches, in any order and together with those
  of other requests, each in exactly one batch. Every batch gives the runtime's values of the
  merged groups, and the server cuts them into the slices again. Then nothing raises, every
  request is answered exactly once, without errors, and the answer holds every output and history
  of every workflow whole and in order; afterwards no request waits for a workflow, and the
  completed inputs are those of its slices.
\<close>

theorem batches_complete_requests:
  assumes "sound_items OV HV items" and "all_solid OV HV items"
    and "distinct (concat (map snd batches))" and "set (concat (map snd batches)) = items"
    and "\<forall>(B, ws) \<in> set batches. delivered OV HV B ws"
    and "\<forall>r st. map_of rs r = Some st \<longrightarrow> fresh_request items r st"
  shows "\<exists>answers rs'. run_batches render batches rs = (Inr answers, rs') \<and>
    list_all (good_response render OV HV items) answers \<and>
    (\<forall>r \<in> dom (map_of rs). of_request r items \<noteq> {} \<longrightarrow> answers_to r answers = 1) \<and>
    (\<forall>r st. map_of rs' r = Some st \<longrightarrow> rs_pending st = [] \<and> rs_completed_inputs st = (\<Sum>w \<in> of_request r items. wi_slice_length w))"
proof -
  have "holds val outs (of_request r {}) []" for val outs r by (simp add: holds_def of_request_def dict_get_def)
  then have start: "all_tracked OV HV items {} rs"
    using assms(6) by (auto simp: all_tracked_def tracked_def fresh_request_def of_request_def)
  from run_batches_ok [OF assms(1,2,3) _ _ _ assms(5) start, of render] assms(4)
  obtain answers rs' where run: "run_batches render batches rs = (Inr answers, rs')" and t: "all_tracked OV HV items items rs'"
    and good: "list_all (good_response render OV HV items) answers"
    and one: "\<forall>r \<in> dom (map_of rs). answers_to r answers = (if of_request r items \<subseteq> items \<and> \<not> of_request r items \<subseteq> {} then 1 else 0)"
    by auto
  have sub: "of_request r items \<subseteq> items" for r by (auto simp: of_request_def)
  have "rs_pending st = [] \<and> rs_completed_inputs st = (\<Sum>w \<in> of_request r items. wi_slice_length w)" if st: "map_of rs' r = Some st" for r st
  proof -
    from t st have tr: "tracked OV HV items items r st" by (simp add: all_tracked_def)
    with pending_empty [OF tr order_refl] sub show ?thesis by (simp add: tracked_def)
  qed
  with run good one sub show ?thesis by auto
qed

text \<open>Two slices of one request that come back in two batches, the second one first.\<close>

definition back_item :: "string \<Rightarrow> nat \<Rightarrow> unit workflow_item" where
  "back_item wid i = (example_item wid ''u'' LOW)\<lparr>wi_slice_index := i, wi_slice_start := i, wi_slice_length := 1, wi_total_length := 2\<rparr>"

definition back_results :: "string \<Rightarrow> string \<Rightarrow> batch_results" where
  "back_results wid s =
     \<lparr>be_outputs = [(wid, [(''answer'', [PStr s])])], be_histories = [], be_error = None, be_batch_id = None, be_task_node_map = [],
      be_cancelled = [], be_execution_id = None\<rparr>"

definition back_values :: "string \<Rightarrow> request_values" where
  "back_values r = (\<lambda>p n. if n = ''answer'' then [PStr ''yes'', PStr ''no''] else [], \<lambda>p. [''answer''])"

definition no_values :: "string \<Rightarrow> request_values" where
  "no_values r = (\<lambda>p n. [], \<lambda>p. [])"

definition new_state :: request_state where
  "new_state =
     \<lparr>rs_pending = [''a'', ''b''], rs_outputs = [], rs_histories = [], rs_output_buffers = [], rs_history_buffers = [], rs_workflow_lengths = [(''g'', 2)],
      rs_errors = None, rs_task_node_map = [], rs_pending_raw = 0, rs_processing_raw = 0, rs_processing_optimized = 0, rs_processed_raw = 0,
      rs_processed_optimized = 0, rs_optimization_seconds = 0, rs_selection_seconds = 0, rs_clustering_seconds = 0, rs_batch_node_counts = [],
      rs_total_inputs = 2, rs_completed_inputs = 0, rs_successful = [], rs_ready = True\<rparr>"

lemma back_item_simps [simp]:
  "wi_workflow_id (back_item wid i) = wid" "wi_request_id (back_item wid i) = ''r''" "wi_public_graph_name (back_item wid i) = ''g''"
  "wi_slice_index (back_item wid i) = i" "wi_slice_start (back_item wid i) = i" "wi_slice_length (back_item wid i) = 1" "wi_total_length (back_item wid i) = 2"
  by (simp_all add: back_item_def example_item_def)

lemma back_delivered:
  assumes "i < 2"
  shows "delivered back_values no_values (back_results [c] ([''yes'', ''no''] ! i)) [back_item [c] i]"
proof -
  let ?grouped = "[(''k'', [back_item [c] i])]" and ?flat = "[(''n'', PList [PStr ([''yes'', ''no''] ! i)])]" and ?m = "[(''n'', (''k'', ''answer''))]"
  have slice: "slice_values (fst (back_values r)) (back_item [c] i) ''answer'' = [PStr ([''yes'', ''no''] ! i)]" for r
    using assms by (cases i) (auto simp: slice_values_def back_values_def)
  have nomatch: "match_workflow ?grouped ''k'' ''n'' = None"
    by (simp add: match_workflow_def dict_get_def group_prefixes_def starts_with_def)
  have "good_groups back_values ?grouped" "good_groups no_values ?grouped"
    using assms by (auto simp: good_groups_def good_slice_def back_values_def no_values_def)
  moreover have "runtime_values back_values ?m ?grouped ?flat"
    using slice nomatch by (auto simp: runtime_values_def node_rows_def back_values_def dict_get_def)
  moreover have "runtime_values no_values ?m ?grouped []" by (auto simp: runtime_values_def node_rows_def no_values_def)
  moreover have "demux_outputs ?m ?grouped ?flat = Inr (be_outputs (back_results [c] ([''yes'', ''no''] ! i)))"
    using nomatch by (simp add: demux_outputs_def demux_node_def demux_group_def back_results_def dict_get_def Let_def)
  moreover have "demux_outputs ?m ?grouped [] = Inr (be_histories (back_results [c] ([''yes'', ''no''] ! i)))"
    by (simp add: demux_outputs_def demux_group_def back_results_def dict_get_def Let_def)
  moreover have "set [back_item [c] i] = set (concat (dict_values ?grouped))" by simp
  moreover have "\<forall>w \<in> set [back_item [c] i]. snd (back_values (wi_request_id w)) (wi_public_graph_name w) \<noteq> []" by (simp add: back_values_def)
  moreover have "be_error (back_results [c] ([''yes'', ''no''] ! i)) = None" "be_cancelled (back_results [c] ([''yes'', ''no''] ! i)) = []"
    by (simp_all add: back_results_def)
  ultimately show ?thesis unfolding delivered_def by (intro conjI exI [of _ ?m] exI [of _ ?grouped] exI [of _ ?flat] exI [of _ "[]"]) simp_all
qed

theorem batches_complete_requests_witness:
  "\<exists>answers rs'. run_batches (\<lambda>_. []) [(back_results ''b'' ''no'', [back_item ''b'' 1]), (back_results ''a'' ''yes'', [back_item ''a'' 0])] [(''r'', new_state)] =
      (Inr answers, rs') \<and> answers_to ''r'' answers = 1 \<and>
    (\<forall>a \<in> set answers. rp_request a = ''r'' \<longrightarrow> rp_errors a = None \<and> look2 (rp_outputs a) ''g'' ''answer'' = Some [''yes'', ''no''])"
proof -
  let ?items = "{back_item ''a'' 0, back_item ''b'' 1}"
  let ?batches = "[(back_results ''b'' ''no'', [back_item ''b'' 1]), (back_results ''a'' ''yes'', [back_item ''a'' 0])]"
  have ne: "back_item ''a'' 0 \<noteq> back_item ''b'' 1" by (metis back_item_simps(4) zero_neq_one)
  have good: "good_slice (fst (back_values r)) (snd (back_values r)) (back_item wid i)" "good_slice (fst (no_values r)) (snd (no_values r)) (back_item wid i)"
    if "i < 2" for r wid i
    using that by (auto simp: good_slice_def back_values_def no_values_def)
  have cov: "covers (back_item wid i) p j \<longleftrightarrow> p = ''g'' \<and> j = i" for wid i p j by (auto simp: covers_def)
  have mine: "of_request r ?items = (if r = ''r'' then ?items else {})" for r by (auto simp: of_request_def)
  have "apart w (of_request (wi_request_id w) got)" if "w \<in> ?items" "got \<subseteq> ?items - {w}" for w got
    using that by (auto simp: apart_def of_request_def cov subset_insert_iff split: if_splits)
  then have "sound_items back_values no_values ?items"
    using good ne unfolding sound_items_def by (auto simp: inj_on_def)
  moreover have "all_solid back_values no_values ?items"
  proof -
    have "\<exists>w \<in> ?items. covers w ''g'' j" if "j < 2" for j using that by (cases "j = 0") (auto simp: cov)
    then show ?thesis unfolding all_solid_def solid_def mine by (auto simp: back_values_def no_values_def)
  qed
  moreover have "distinct (concat (map snd ?batches))" using ne by simp
  moreover have "set (concat (map snd ?batches)) = ?items" by auto
  moreover have "\<forall>(B, ws) \<in> set ?batches. delivered back_values no_values B ws"
    using back_delivered [of 0 "CHR ''a''"] back_delivered [of 1 "CHR ''b''"] by simp
  moreover have "\<forall>r st. map_of [(''r'', new_state)] r = Some st \<longrightarrow> fresh_request ?items r st"
    unfolding fresh_request_def mine by (auto simp: new_state_def)
  ultimately obtain answers rs' where run: "run_batches (\<lambda>_. []) ?batches [(''r'', new_state)] = (Inr answers, rs')"
    and ok: "list_all (good_response (\<lambda>_. []) back_values no_values ?items) answers"
    and one: "\<forall>r \<in> dom (map_of [(''r'', new_state)]). of_request r ?items \<noteq> {} \<longrightarrow> answers_to r answers = 1"
    using batches_complete_requests [of back_values no_values ?items ?batches "[(''r'', new_state)]" "\<lambda>_. []"] by blast
  have "answers_to ''r'' answers = 1" using one by (auto simp: of_request_def)
  moreover have "rp_errors a = None \<and> look2 (rp_outputs a) ''g'' ''answer'' = Some [''yes'', ''no'']" if "a \<in> set answers" "rp_request a = ''r''" for a
  proof -
    have "result_text (output_text (\<lambda>_. [])) (back_values ''r'') (of_request ''r'' ?items) ''g'' ''answer'' = Some [''yes'', ''no'']"
      unfolding mine by (simp add: result_text_def back_values_def output_text_def)
    with ok that show ?thesis unfolding list_all_iff good_response_def by metis
  qed
  ultimately show ?thesis using run by blast
qed

end
