(* ===== verification/Workers.thy ===== *)
theory Workers
  imports FlowTasks
begin

text \<open>
  How the runtime server finds workers and dispatches batches (\<open>runtime/server.py\<close>): worker
  profiles against hardware requirements, the choice of a worker group, the schedule check, the
  workers of a preview, and the scheduler loop with its lock and its running batches as a step
  relation over the state of the job manager.
\<close>

section \<open>Worker profiles\<close>

text \<open>
  A worker profile is the JSON FlowMesh sends. \<open>gpu.devices\<close> is read with subscripts, and a key
  or type error on the way means that there are none.
\<close>

definition worker_has_gpu :: "spec \<Rightarrow> bool" where
  "worker_has_gpu profile =
     (case map_of profile ''gpu'' of
        Some (PDict gpu) \<Rightarrow> (case map_of gpu ''devices'' of Some (PList devices) \<Rightarrow> devices \<noteq> [] | _ \<Rightarrow> False)
      | _ \<Rightarrow> False)"

definition normalize_worker_profile :: "spec \<Rightarrow> spec" where
  "normalize_worker_profile profile =
     [(''has_gpu'', PBool (case map_of profile ''has_gpu'' of Some (PBool b) \<Rightarrow> b | _ \<Rightarrow> worker_has_gpu profile))]"

definition ends_with :: "string \<Rightarrow> string \<Rightarrow> bool" where
  "ends_with suf s = starts_with (rev suf) (rev s)"

definition is_digits :: "string \<Rightarrow> bool" where
  "is_digits s \<longleftrightarrow> s \<noteq> [] \<and> list_all (\<lambda>c. 48 \<le> (of_char c :: nat) \<and> of_char c \<le> (57 :: nat)) s"

definition memory_units :: "(string, int) dict" where
  "memory_units = [(''Ki'', 1024), (''Mi'', 1024 ^ 2), (''Gi'', 1024 ^ 3), (''Ti'', 1024 ^ 4)]"

text \<open>The number in front of the first unit that fits; nothing on malformed input.\<close>

definition parse_memory_to_bytes :: "string \<Rightarrow> int option" where
  "parse_memory_to_bytes v =
     map_option (\<lambda>(u, m). int (read_nat (take (length v - length u) v)) * m)
       (find (\<lambda>(u, _). ends_with u v \<and> is_digits (take (length v - length u) v)) memory_units)"

text \<open>\<open>(profile.get(k) or {})\<close>, whose \<open>get\<close> then fails on anything but a dict.\<close>

definition profile_section :: "string \<Rightarrow> spec \<Rightarrow> spec result" where
  "profile_section k profile =
     (case map_of profile k of
        None \<Rightarrow> Inr []
      | Some v \<Rightarrow> if \<not> py_truthy v then Inr []
          else (case v of PDict d \<Rightarrow> Inr d | _ \<Rightarrow> Inl (TypeError ''object has no attribute get'')))"

text \<open>\<open>isinstance(v, int) and v < n\<close>; a bool is an int.\<close>

definition known_below :: "pyval option \<Rightarrow> int \<Rightarrow> bool" where
  "known_below v n = (case v of Some (PInt i) \<Rightarrow> i < n | Some (PBool b) \<Rightarrow> of_bool b < n | _ \<Rightarrow> False)"

definition cpu_fits :: "spec \<Rightarrow> hardware_requirements \<Rightarrow> bool result" where
  "cpu_fits profile hw =
     (case hw_cpu hw of
        None \<Rightarrow> Inr True
      | Some n \<Rightarrow> ebind (profile_section ''cpu'' profile) (\<lambda>d. Inr (\<not> known_below (map_of d ''logical_cores'') n)))"

definition memory_fits :: "spec \<Rightarrow> hardware_requirements \<Rightarrow> bool result" where
  "memory_fits profile hw =
     (case hw_memory hw of
        None \<Rightarrow> Inr True
      | Some m \<Rightarrow> ebind (profile_section ''memory'' profile)
          (\<lambda>d. Inr (case parse_memory_to_bytes m of None \<Rightarrow> True | Some n \<Rightarrow> \<not> known_below (map_of d ''total_bytes'') n)))"

definition devices_of :: "spec \<Rightarrow> pyval list" where
  "devices_of gpu = (case map_of gpu ''devices'' of Some (PList ds) \<Rightarrow> ds | _ \<Rightarrow> [])"

definition devices_fit :: "pyval list \<Rightarrow> hardware_requirements \<Rightarrow> bool" where
  "devices_fit devices hw \<longleftrightarrow>
     (case hw_gpu hw of None \<Rightarrow> True | Some n \<Rightarrow> \<not> int (length devices) < n) \<and>
     (case hw_gpu_memory hw of
        None \<Rightarrow> True
      | Some m \<Rightarrow> (case parse_memory_to_bytes m of
            None \<Rightarrow> True
          | Some n \<Rightarrow> list_all (\<lambda>d. case d of PDict f \<Rightarrow> \<not> known_below (map_of f ''memory_total_bytes'') n | _ \<Rightarrow> True) devices))"

definition worker_meets_hardware :: "spec \<Rightarrow> hardware_requirements option \<Rightarrow> bool \<Rightarrow> bool result" where
  "worker_meets_hardware profile hardware gpu_worker =
     (case hardware of
        None \<Rightarrow> Inr True
      | Some hw \<Rightarrow> ebind (cpu_fits profile hw) (\<lambda>cpu.
          if \<not> cpu then Inr False
          else ebind (memory_fits profile hw) (\<lambda>memory.
            if \<not> memory then Inr False
            else if \<not> gpu_worker then Inr True
            else ebind (profile_section ''gpu'' profile) (\<lambda>gpu. Inr (devices_fit (devices_of gpu) hw)))))"

section \<open>Choosing a worker group\<close>

text \<open>
  One look at the workers: who is there and what their profiles are. A profile that cannot be
  fetched is a \<open>Inl\<close>.
\<close>

record worker_poll =
  wp_workers :: "string list"
  wp_profile :: "string \<Rightarrow> spec result"

text \<open>The GPU workers and the CPU workers that fit, in order.\<close>

fun classify_workers ::
  "(string \<Rightarrow> spec result) \<Rightarrow> hardware_requirements option \<Rightarrow> string list \<Rightarrow> (string list \<times> string list) result" where
  "classify_workers profile hw [] = Inr ([], [])"
| "classify_workers profile hw (w # ws) =
     (case profile w of
        Inl e \<Rightarrow> classify_workers profile hw ws
      | Inr p \<Rightarrow> ebind (worker_meets_hardware p hw (worker_has_gpu p)) (\<lambda>fits.
          ebind (classify_workers profile hw ws) (\<lambda>(gpus, cpus).
            Inr (if \<not> fits then (gpus, cpus) else if worker_has_gpu p then (w # gpus, cpus) else (gpus, w # cpus)))))"

definition pick_group :: "nat \<Rightarrow> nat \<Rightarrow> string list \<times> string list \<Rightarrow> string list option" where
  "pick_group cpu gpu g =
     (case g of (gpus, cpus) \<Rightarrow>
        if cpu \<le> length cpus \<and> gpu \<le> length gpus then Some (take gpu gpus @ take cpu cpus) else None)"

definition available_group ::
  "nat \<Rightarrow> nat \<Rightarrow> hardware_requirements option \<Rightarrow> string list \<Rightarrow> worker_poll \<Rightarrow> string list option result" where
  "available_group cpu gpu hw busy poll =
     (if cpu = 0 \<and> gpu = 0 then Inl (ValueError ''CPU and GPU worker group sizes cannot both be zero'')
      else ebind (classify_workers (wp_profile poll) hw (filter (\<lambda>w. w \<notin> set busy) (wp_workers poll)))
        (\<lambda>g. Inr (pick_group cpu gpu g)))"

text \<open>The workers of a preview: no worker is busy, and a profile that cannot be fetched is an error.\<close>

fun preview_profiles ::
  "(string \<Rightarrow> spec result) \<Rightarrow> hardware_requirements option \<Rightarrow> string list \<Rightarrow> (string \<times> spec) list result" where
  "preview_profiles profile hw [] = Inr []"
| "preview_profiles profile hw (w # ws) =
     ebind (profile w) (\<lambda>p. ebind (worker_meets_hardware p hw (worker_has_gpu p)) (\<lambda>fits.
       ebind (preview_profiles profile hw ws) (\<lambda>rest.
         Inr (if fits then (w, normalize_worker_profile p) # rest else rest))))"

definition normalized_gpu :: "spec \<Rightarrow> bool" where
  "normalized_gpu profile = (map_of profile ''has_gpu'' = Some (PBool True))"

definition first_worker :: "bool \<Rightarrow> string \<Rightarrow> string list \<Rightarrow> string list result" where
  "first_worker needed message ws =
     (if \<not> needed then Inr [] else case ws of [] \<Rightarrow> Inl (RuntimeError message) | w # _ \<Rightarrow> Inr [w])"

definition select_preview_workers ::
  "runtime_graph \<Rightarrow> hardware_requirements option \<Rightarrow> worker_poll \<Rightarrow> (string list \<times> (string, spec) dict) result" where
  "select_preview_workers g hw poll =
     (if wp_workers poll = [] then Inl (RuntimeError ''No workers available for schedule preview'')
      else let ops = dict_values (rg_nodes g) in
        ebind (preview_profiles (wp_profile poll) hw (wp_workers poll)) (\<lambda>rows.
        ebind (first_worker (list_ex runtime_op_requires_gpu ops) ''No GPU worker meets the requested hardware for schedule preview''
                 (map fst (filter (\<lambda>(w, p). normalized_gpu p) rows))) (\<lambda>gpus.
        ebind (first_worker (list_ex (\<lambda>op. op_task_type op = ''data_retrieval'') ops)
                 ''No CPU worker meets the requested hardware for schedule preview''
                 (map fst (filter (\<lambda>(w, p). \<not> normalized_gpu p) rows))) (\<lambda>cpus.
        ebind (if gpus @ cpus \<noteq> [] then Inr (gpus @ cpus)
               else case dict_of rows of
                   [] \<Rightarrow> Inl (RuntimeError ''No worker meets the requested hardware for schedule preview'')
                 | (w, _) # _ \<Rightarrow> Inr [w]) (\<lambda>selected.
        ebind (emap (\<lambda>w. ebind (dict_index (dict_of rows) w) (\<lambda>p. Inr (w, p))) selected) (\<lambda>profiles.
          Inr (selected, dict_of profiles)))))))"

section \<open>The schedule check\<close>

definition schedule_node_names :: "(string, string list) dict \<Rightarrow> string list result" where
  "schedule_node_names schedule =
     ebind (emap (\<lambda>(w, nodes).
         if str_strip w = [] then Inl (ValueError ''Invalid worker id in schedule mapping'')
         else emap (\<lambda>n. if str_strip n = [] then Inl (ValueError ''Invalid node id in schedule'') else Inr n) nodes) schedule)
       (\<lambda>names. Inr (concat names))"

definition check_schedule :: "(string, string list) dict \<Rightarrow> string list \<Rightarrow> string list \<Rightarrow> unit result" where
  "check_schedule schedule selected nodes =
     (if set (dict_keys schedule) \<noteq> set selected then Inl (ValueError ''Schedule workers must match selected worker group'')
      else ebind (schedule_node_names schedule) (\<lambda>names.
        if set names \<noteq> set nodes then Inl (ValueError ''Schedule must match runtime graph nodes'')
        else if list_all (\<lambda>(w, ns). distinct ns) schedule then Inr ()
        else Inl (ValueError ''Schedule worker_assignment has duplicate node IDs'')))"

section \<open>What the choice and the check guarantee\<close>

text \<open>A worker that can be used for a job: its profile is known, it fits, and it is of the given kind.\<close>

definition usable :: "(string \<Rightarrow> spec result) \<Rightarrow> hardware_requirements option \<Rightarrow> bool \<Rightarrow> string \<Rightarrow> bool" where
  "usable profile hw gpu w \<longleftrightarrow>
     (case profile w of Inl _ \<Rightarrow> False
      | Inr p \<Rightarrow> worker_has_gpu p = gpu \<and> worker_meets_hardware p hw (worker_has_gpu p) = Inr True)"

lemma classify_workers_Inr:
  "classify_workers profile hw ws = Inr (gpus, cpus) \<Longrightarrow>
     gpus = filter (usable profile hw True) ws \<and> cpus = filter (usable profile hw False) ws"
proof (induction ws arbitrary: gpus cpus)
  case (Cons w ws)
  show ?case
  proof (cases "profile w")
    case (Inl e)
    then show ?thesis using Cons by (simp add: usable_def)
  next
    case (Inr p)
    with Cons.prems obtain fits g c where run: "worker_meets_hardware p hw (worker_has_gpu p) = Inr fits"
      "classify_workers profile hw ws = Inr (g, c)"
      "(if \<not> fits then (g, c) else if worker_has_gpu p then (w # g, c) else (g, w # c)) = (gpus, cpus)"
      by (auto simp: ebind_Inr_iff)
    from Cons.IH [OF run(2)] run(1,3) Inr show ?thesis by (auto simp: usable_def split: if_splits)
  qed
qed simp

lemma length_filter_both:
  "(\<And>x. x \<in> set xs \<Longrightarrow> \<not> (P x \<and> Q x)) \<Longrightarrow> set (filter P xs) \<inter> set (filter Q xs) = {}"
  by auto

lemma usable_one: "\<not> (usable profile hw True w \<and> usable profile hw False w)"
  by (auto simp: usable_def split: sum.splits)

lemma available_group_Inr:
  assumes "available_group cpu gpu hw busy poll = Inr r"
  defines "free \<equiv> \<lambda>k. filter (\<lambda>w. usable (wp_profile poll) hw k w \<and> w \<notin> set busy) (wp_workers poll)"
  shows "cpu \<noteq> 0 \<or> gpu \<noteq> 0"
    and "r = (if cpu \<le> length (free False) \<and> gpu \<le> length (free True)
              then Some (take gpu (free True) @ take cpu (free False)) else None)"
proof -
  show pos: "cpu \<noteq> 0 \<or> gpu \<noteq> 0" using assms(1) unfolding available_group_def by (metis Inl_Inr_False)
  obtain gpus cpus where "classify_workers (wp_profile poll) hw (filter (\<lambda>w. w \<notin> set busy) (wp_workers poll)) = Inr (gpus, cpus)"
    and r: "r = pick_group cpu gpu (gpus, cpus)"
    using assms(1) pos by (auto simp: available_group_def ebind_Inr_iff)
  from classify_workers_Inr [OF this(1)] have "gpus = free True" "cpus = free False"
    by (auto simp: free_def intro: filter_cong)
  with r show "r = (if cpu \<le> length (free False) \<and> gpu \<le> length (free True)
      then Some (take gpu (free True) @ take cpu (free False)) else None)"
    by (simp add: pick_group_def)
qed

lemma available_group_free:
  assumes run: "available_group cpu gpu hw busy poll = Inr (Some ws)" and dist: "distinct (wp_workers poll)"
  shows "distinct ws" and "set ws \<inter> set busy = {}" and "ws \<noteq> []" and "length ws = cpu + gpu"
    and "list_all (usable (wp_profile poll) hw True) (take gpu ws)"
    and "list_all (usable (wp_profile poll) hw False) (drop gpu ws)"
    and "set ws \<subseteq> set (wp_workers poll)"
proof -
  define free where "free k = filter (\<lambda>w. usable (wp_profile poll) hw k w \<and> w \<notin> set busy) (wp_workers poll)" for k
  note r = available_group_Inr [OF run, folded free_def]
  from r(2) have enough: "cpu \<le> length (free False)" "gpu \<le> length (free True)"
    and ws: "ws = take gpu (free True) @ take cpu (free False)" by (auto split: if_splits)
  have free: "distinct (free k)" "set (free k) \<inter> set busy = {}" "list_all (usable (wp_profile poll) hw k) (free k)"
    "set (free k) \<subseteq> set (wp_workers poll)" for k
    using dist by (auto simp: free_def list_all_iff)
  have apart: "set (free True) \<inter> set (free False) = {}" using usable_one by (fastforce simp: free_def)
  show "length ws = cpu + gpu" using enough by (simp add: ws)
  then show "ws \<noteq> []" using r(1) by auto
  show "distinct ws" using free(1) [of True] free(1) [of False] apart
    by (auto simp: ws dest: in_set_takeD)
  show "set ws \<inter> set busy = {}" using free(2) [of True] free(2) [of False] by (auto simp: ws dest: in_set_takeD)
  show "set ws \<subseteq> set (wp_workers poll)" using free(4) [of True] free(4) [of False] by (auto simp: ws dest: in_set_takeD)
  show "list_all (usable (wp_profile poll) hw True) (take gpu ws)"
    using free(3) [of True] enough by (auto simp: ws list_all_iff dest: in_set_takeD)
  show "list_all (usable (wp_profile poll) hw False) (drop gpu ws)"
    using free(3) [of False] enough by (auto simp: ws list_all_iff dest: in_set_takeD)
qed

lemma nodes_checked:
  "emap (\<lambda>n. if str_strip n = [] then Inl (ValueError m) else Inr n) ns =
     (if list_all (\<lambda>n. str_strip n \<noteq> []) ns then Inr ns else Inl (ValueError m))"
  by (induction ns) auto

lemma schedule_node_names_ok:
  assumes "list_all (\<lambda>(w, ns). str_strip w \<noteq> [] \<and> list_all (\<lambda>n. str_strip n \<noteq> []) ns) schedule"
  shows "schedule_node_names schedule = Inr (concat (dict_values schedule))"
proof -
  have "emap (\<lambda>(w, nodes).
         if str_strip w = [] then Inl (ValueError ''Invalid worker id in schedule mapping'')
         else emap (\<lambda>n. if str_strip n = [] then Inl (ValueError ''Invalid node id in schedule'') else Inr n) nodes) schedule
     = Inr (map snd schedule)"
    by (rule emap_cong_Inr) (use assms in \<open>auto simp: nodes_checked list_all_iff\<close>)
  then show ?thesis by (simp add: schedule_node_names_def)
qed

lemma schedule_node_names_Inr:
  "schedule_node_names schedule = Inr names \<Longrightarrow>
     names = concat (dict_values schedule) \<and> list_all (\<lambda>(w, ns). str_strip w \<noteq> [] \<and> list_all (\<lambda>n. str_strip n \<noteq> []) ns) schedule"
proof -
  assume run: "schedule_node_names schedule = Inr names"
  let ?f = "\<lambda>(w, nodes). if str_strip w = [] then Inl (ValueError ''Invalid worker id in schedule mapping'')
         else emap (\<lambda>n. if str_strip n = [] then Inl (ValueError ''Invalid node id in schedule'') else Inr n) nodes"
  obtain parts where parts: "emap ?f schedule = Inr parts" using run by (auto simp: schedule_node_names_def ebind_Inr_iff)
  have "list_all (\<lambda>(w, ns). str_strip w \<noteq> [] \<and> list_all (\<lambda>n. str_strip n \<noteq> []) ns) schedule"
    unfolding list_all_iff
  proof
    fix x assume "x \<in> set schedule"
    from emap_mem [OF parts this] obtain y where "?f x = Inr y" by blast
    then show "case x of (w, ns) \<Rightarrow> str_strip w \<noteq> [] \<and> (\<forall>n \<in> set ns. str_strip n \<noteq> [])"
      by (cases x) (auto simp: nodes_checked list_all_iff split: if_splits)
  qed
  with run show ?thesis by (simp add: schedule_node_names_ok)
qed

text \<open>
  C22: The schedule check accepts exactly the assignments that name the selected workers and no
  others, use each runtime node at least once and no foreign one, name nothing blank and never
  list a node twice for one worker. (A node that two workers list is accepted.)
\<close>

theorem check_schedule_correct:
  "check_schedule schedule selected nodes = Inr () \<longleftrightarrow>
     set (dict_keys schedule) = set selected \<and> set (concat (dict_values schedule)) = set nodes \<and>
     list_all (\<lambda>(w, ns). str_strip w \<noteq> [] \<and> list_all (\<lambda>n. str_strip n \<noteq> []) ns \<and> distinct ns) schedule"
  (is "?run \<longleftrightarrow> ?ok")
proof
  assume ?run
  then obtain names where keys: "set (dict_keys schedule) = set selected" and names: "schedule_node_names schedule = Inr names"
    and rest: "set names = set nodes" "list_all (\<lambda>(w, ns). distinct ns) schedule"
    by (auto simp: check_schedule_def ebind_Inr_iff split: if_splits)
  from schedule_node_names_Inr [OF names] keys rest show ?ok by (auto simp: list_all_iff)
next
  assume ok: ?ok
  then have "schedule_node_names schedule = Inr (concat (dict_values schedule))"
    by (intro schedule_node_names_ok) (auto simp: list_all_iff)
  moreover have "list_all (\<lambda>(w, ns). distinct ns) schedule" using ok by (auto simp: list_all_iff)
  ultimately show ?run using ok by (simp add: check_schedule_def)
qed

section \<open>The scheduler loop\<close>

text \<open>
  The configuration, whose constructor refuses two empty groups. The unused host and port are left
  out; the accumulation window is a rational.
\<close>

record server_config =
  sc_batch_size :: int
  sc_accumulation :: rat
  sc_cpu_group :: nat
  sc_gpu_group :: nat

definition make_server_config :: "int \<Rightarrow> rat \<Rightarrow> int \<Rightarrow> int \<Rightarrow> server_config result" where
  "make_server_config batch_size accumulation cpu_group gpu_group =
     (if nat cpu_group = 0 \<and> nat gpu_group = 0
      then Inl (ValueError ''At least one of cpu_worker_group_size or gpu_worker_group_size must be > 0'')
      else Inr \<lparr>sc_batch_size = batch_size, sc_accumulation = accumulation,
                sc_cpu_group = nat cpu_group, sc_gpu_group = nat gpu_group\<rparr>)"

text \<open>How long the loop still waits for more workflows before it asks for a batch.\<close>

definition accumulation_delay :: "server_config \<Rightarrow> rat \<Rightarrow> 'd job_manager \<Rightarrow> rat" where
  "accumulation_delay cfg now jm =
     (if sc_accumulation cfg \<le> 0 then 0
      else case get_pending_stats jm of
          (pending, Some oldest) \<Rightarrow> if pending = 0 then 0 else max 0 (sc_accumulation cfg - (now - oldest))
        | (pending, None) \<Rightarrow> 0)"

definition batch_requires_gpu :: "'d batch_selection \<Rightarrow> bool" where
  "batch_requires_gpu b \<longleftrightarrow>
     list_ex (\<lambda>g. list_ex runtime_op_requires_gpu (dict_values (rg_nodes g))) (dict_values (bs_runtime_graphs b))"

definition batch_group :: "server_config \<Rightarrow> 'd batch_selection \<Rightarrow> string list \<Rightarrow> worker_poll \<Rightarrow> string list option result" where
  "batch_group cfg b busy poll =
     available_group (sc_cpu_group cfg) (if batch_requires_gpu b then sc_gpu_group cfg else 0)
       (cf_hardware (bs_config b)) busy poll"

text \<open>
  Where the loop is between two of its awaits: before a reservation, polling workers for it, with
  a group chosen from a snapshot of the busy workers, and with the group marked busy.
\<close>

datatype 'd scheduler_phase =
    Idle
  | Waiting "'d batch_reservation"
  | Chosen "'d batch_reservation" "string list"
  | Holding "'d batch_reservation" "string list"

text \<open>
  The server's state. \<open>sv_running\<close> are the tasks of the batches that run; \<open>sv_accepted\<close> and
  \<open>sv_finished\<close> record the workflow ids that were queued and finished, which the code does not keep.
\<close>

record 'd server =
  sv_jm :: "'d job_manager"
  sv_busy :: "string list"
  sv_phase :: "'d scheduler_phase"
  sv_running :: "(string list \<times> 'd batch_selection) list"
  sv_accepted :: "string list"
  sv_finished :: "string list"

definition batch_workflow_ids :: "'d batch_selection \<Rightarrow> string list" where
  "batch_workflow_ids b = map wi_workflow_id (bs_workflows b)"

definition new_server :: "'d job_manager \<Rightarrow> 'd server" where
  "new_server jm = \<lparr>sv_jm = jm, sv_busy = [], sv_phase = Idle, sv_running = [], sv_accepted = [], sv_finished = []\<rparr>"

text \<open>\<open>abort_reservation\<close> in the \<open>finally\<close> of the loop: its own failure is only logged.\<close>

definition abort_quietly :: "'d batch_reservation \<Rightarrow> 'd job_manager \<Rightarrow> 'd job_manager" where
  "abort_quietly r jm = (case abort_reservation r jm of Inl e \<Rightarrow> jm | Inr jm' \<Rightarrow> jm')"

definition commit_batch :: "'d batch_reservation \<Rightarrow> string list \<Rightarrow> 'd server \<Rightarrow> 'd server" where
  "commit_batch r ws s =
     (case commit_reservation r (sv_jm s) of
        Inl e \<Rightarrow> s\<lparr>sv_jm := abort_quietly r (sv_jm s), sv_phase := Idle\<rparr>
      | Inr jm \<Rightarrow> s\<lparr>sv_jm := jm, sv_phase := Idle, sv_running := sv_running s @ [(ws, rv_selection r)]\<rparr>)"

definition release_batch :: "string list \<Rightarrow> 'd batch_selection \<Rightarrow> 'd server \<Rightarrow> 'd server" where
  "release_batch ws b s =
     s\<lparr>sv_busy := filter (\<lambda>w. w \<notin> set ws) (sv_busy s),
       sv_jm := finalize_workflows (batch_workflow_ids b) (sv_jm s),
       sv_finished := sv_finished s @ batch_workflow_ids b\<rparr>"

text \<open>
  The steps: a request is queued, the loop moves from one await to the next, a batch ends. Any of
  them may come between two steps of the loop. \<open>unique_id\<close> gives ids nobody has.
\<close>

inductive server_step :: "server_config \<Rightarrow> 'd server \<Rightarrow> 'd server \<Rightarrow> bool" for cfg :: server_config where
  queue_job:
    "enqueue fresh now jb (sv_jm s) = Inr (items, jm) \<Longrightarrow> distinct (map wi_workflow_id items) \<Longrightarrow>
     set (map wi_workflow_id items) \<inter> set (sv_accepted s) = {} \<Longrightarrow>
     server_step cfg s (s\<lparr>sv_jm := jm, sv_accepted := sv_accepted s @ map wi_workflow_id items\<rparr>)"
| reserve:
    "sv_phase s = Idle \<Longrightarrow> reserve_batch (sc_batch_size cfg) (sv_jm s) = Inr (Some r, jm) \<Longrightarrow>
     server_step cfg s (s\<lparr>sv_jm := jm, sv_phase := Waiting r\<rparr>)"
| reserve_nothing:
    "sv_phase s = Idle \<Longrightarrow> reserve_batch (sc_batch_size cfg) (sv_jm s) = Inr (None, jm) \<Longrightarrow>
     server_step cfg s (s\<lparr>sv_jm := jm\<rparr>)"
| choose_group:
    "sv_phase s = Waiting r \<Longrightarrow> distinct (wp_workers poll) \<Longrightarrow>
     batch_group cfg (rv_selection r) (sv_busy s) poll = Inr (Some ws) \<Longrightarrow>
     server_step cfg s (s\<lparr>sv_phase := Chosen r ws\<rparr>)"
| group_taken:
    "sv_phase s = Chosen r ws \<Longrightarrow> set ws \<inter> set (sv_busy s) \<noteq> {} \<Longrightarrow>
     server_step cfg s (s\<lparr>sv_phase := Waiting r\<rparr>)"
| take_group:
    "sv_phase s = Chosen r ws \<Longrightarrow> set ws \<inter> set (sv_busy s) = {} \<Longrightarrow>
     server_step cfg s (s\<lparr>sv_busy := sv_busy s @ ws, sv_phase := Holding r ws\<rparr>)"
| give_up:
    "sv_phase s = Waiting r \<Longrightarrow>
     server_step cfg s (s\<lparr>sv_jm := abort_quietly r (sv_jm s), sv_phase := Idle\<rparr>)"
| dispatch:
    "sv_phase s = Holding r ws \<Longrightarrow> server_step cfg s (commit_batch r ws s)"
| finish:
    "sv_running s = before @ (ws, b) # after \<Longrightarrow>
     server_step cfg s (release_batch ws b (s\<lparr>sv_running := before @ after\<rparr>))"

inductive_cases server_stepE
  [consumes 1, case_names queue_job reserve reserve_nothing choose_group group_taken take_group give_up dispatch finish]:
  "server_step cfg s t"

inductive server_reachable :: "server_config \<Rightarrow> 'd server \<Rightarrow> 'd server \<Rightarrow> bool" for cfg :: server_config and s0 :: "'d server" where
  start: "server_reachable cfg s0 s0"
| step: "server_reachable cfg s0 s \<Longrightarrow> server_step cfg s t \<Longrightarrow> server_reachable cfg s0 t"

section \<open>The invariant of the server\<close>

definition held_workers :: "'d server \<Rightarrow> string list" where
  "held_workers s = (case sv_phase s of Holding r ws \<Rightarrow> ws | _ \<Rightarrow> [])"

definition running_workers :: "'d server \<Rightarrow> string list" where
  "running_workers s = concat (map fst (sv_running s))"

definition running_ids :: "'d server \<Rightarrow> string list" where
  "running_ids s = concat (map (batch_workflow_ids \<circ> snd) (sv_running s))"

definition phase_reservation :: "'d server \<Rightarrow> 'd batch_reservation option" where
  "phase_reservation s = (case sv_phase s of Idle \<Rightarrow> None | Waiting r \<Rightarrow> Some r | Chosen r ws \<Rightarrow> Some r | Holding r ws \<Rightarrow> Some r)"

text \<open>A reservation whose workflows are still queued, so that committing it removes exactly them.\<close>

definition sound_reservation :: "'d job_manager \<Rightarrow> 'd batch_reservation \<Rightarrow> bool" where
  "sound_reservation jm r \<longleftrightarrow>
     distinct (rp_miss_increment_targets (rv_payload r)) \<and> rp_selected_workflow_ids (rv_payload r) = batch_workflow_ids (rv_selection r) \<and>
     distinct (batch_workflow_ids (rv_selection r)) \<and> batch_workflow_ids (rv_selection r) \<noteq> [] \<and>
     set (batch_workflow_ids (rv_selection r)) \<subseteq> wi_workflow_id ` set (queued_items jm)"

definition server_inv :: "'d server \<Rightarrow> bool" where
  "server_inv s \<longleftrightarrow>
     jm_wf (sv_jm s) \<and> jm_active_reservation (sv_jm s) = phase_reservation s \<and>
     (case phase_reservation s of None \<Rightarrow> True | Some r \<Rightarrow> sound_reservation (sv_jm s) r) \<and>
     (case sv_phase s of Chosen r ws \<Rightarrow> distinct ws \<and> set ws \<inter> set (sv_busy s) = {} | _ \<Rightarrow> True) \<and>
     mset (sv_busy s) = mset (running_workers s) + mset (held_workers s) \<and> distinct (sv_busy s) \<and>
     mset (sv_accepted s) = pending_ids (sv_jm s) + mset (running_ids s) + mset (sv_finished s) \<and> distinct (sv_accepted s)"

lemma reserve_batch_sound:
  assumes wf: "jm_wf jm" and free: "jm_active_reservation jm = None" and run: "reserve_batch n jm = Inr (res, jm')"
  shows "jm_wf jm'" and "queued_items jm' = queued_items jm" and "jm_active_reservation jm' = res"
    and "\<And>r. res = Some r \<Longrightarrow> sound_reservation jm' r"
proof -
  have "jm_wf jm' \<and> queued_items jm' = queued_items jm \<and> jm_active_reservation jm' = res \<and> (\<forall>r. res = Some r \<longrightarrow> sound_reservation jm' r)"
  proof (cases "queued_items jm = []")
    case True
    then show ?thesis using run wf free by (auto simp: reserve_batch_def reserve_with_def present_nonempty)
  next
    case work: False
    obtain key advance where anchor: "anchor_partition jm = ((key, advance), jm)"
      using anchor_partition_ok [OF wf work] by blast
    obtain cands advs where pool: "build_candidate_pool key jm = (cands, advs, jm)"
      "mset cands \<subseteq># mset (filter (\<lambda>i. item_partition jm i = key) (queued_items jm))"
      using build_candidate_pool_ok [OF wf] by blast
    note rr = affinity.reserve_run [OF wf free work anchor pool, of n, folded reserve_batch_def]
    show ?thesis
    proof (cases "cands = []")
      case True
      then show ?thesis using rr run wf free by auto
    next
      case False
      then obtain r where r: "reserve_batch n jm = Inr (Some r, jm\<lparr>jm_active_reservation := Some r, jm_next_serial := Suc (jm_next_serial jm)\<rparr>)"
        "good_reservation jm n r" "reserved_from jm n cands advance advs r"
        using rr by auto
      have jm': "res = Some r" "jm' = jm\<lparr>jm_active_reservation := Some r, jm_next_serial := Suc (jm_next_serial jm)\<rparr>"
        using run r(1) by auto
      have items: "queued_items jm' = queued_items jm" by (simp add: jm' queued_items_def queued_at_def priorities_def)
      have part: "item_partition jm' = item_partition jm" by (rule item_partition_cong) (simp add: jm')
      have "queue_wf jm' = queue_wf jm" by (simp add: fun_eq_iff jm' queue_wf_def)
      then have wf1: "jm_wf jm'" using wf unfolding jm_wf_def items part by (simp add: jm')
      have ids: "distinct (map wi_workflow_id (queued_items jm))" by (rule jm_wfD(2) [OF wf])
      have "mset (map wi_workflow_id cands) \<subseteq># mset (map wi_workflow_id (filter (\<lambda>i. item_partition jm i = key) (queued_items jm)))"
        using image_mset_subseteq_mono [OF pool(2)] by simp
      then have "distinct (map wi_workflow_id cands)" using distinct_map_filter [OF ids] distinct_submset by blast
      then have "distinct (rp_miss_increment_targets (rv_payload r))" using r(3) by (simp add: reserved_from_def Let_def)
      then have "sound_reservation jm' r"
        using r(2) by (auto simp: sound_reservation_def good_reservation_def Let_def items batch_workflow_ids_def list_all_iff)
      then show ?thesis using wf1 items jm' by simp
    qed
  qed
  then show "jm_wf jm'" "queued_items jm' = queued_items jm" "jm_active_reservation jm' = res"
    "\<And>r. res = Some r \<Longrightarrow> sound_reservation jm' r" by blast+
qed

lemma enqueue_sound:
  assumes wf: "jm_wf jm" and run: "enqueue fresh now jb jm = Inr (items, jm')" and dist: "distinct (map wi_workflow_id items)"
    and new: "set (map wi_workflow_id items) \<inter> wi_workflow_id ` set (queued_items jm) = {}"
  shows "jm_wf jm'" and "mset (queued_items jm') = mset items + mset (queued_items jm)"
    and "jm_active_reservation jm' = jm_active_reservation jm"
proof -
  have jm': "jm' = (fold enqueue_item items jm)\<lparr>jm_not_empty := True\<rparr>" using run by (auto simp: enqueue_def ebind_Inr_iff)
  note fold = fold_enqueue [OF wf dist new]
  show "jm_wf jm'" "mset (queued_items jm') = mset items + mset (queued_items jm)" using fold by (simp_all add: jm')
  have "jm_active_reservation (fold enqueue_item items jm) = jm_active_reservation jm"
    by (induction items arbitrary: jm) (simp_all add: enqueue_item_fields)
  then show "jm_active_reservation jm' = jm_active_reservation jm" by (simp add: jm')
qed

lemma sound_reservation_more:
  "sound_reservation jm r \<Longrightarrow> set (queued_items jm) \<subseteq> set (queued_items jm') \<Longrightarrow> sound_reservation jm' r"
  unfolding sound_reservation_def by (meson image_mono subset_trans)

lemma commit_sound:
  assumes wf: "jm_wf jm" and act: "jm_active_reservation jm = Some r" and sound: "sound_reservation jm r"
  obtains jm' where "commit_reservation r jm = Inr jm'" "jm_wf jm'" "jm_active_reservation jm' = None"
    "pending_ids jm = mset (batch_workflow_ids (rv_selection r)) + pending_ids jm'"
proof -
  have a: "is_active jm r" using act by (simp add: is_active_def)
  obtain jm' where run: "commit_reservation r jm = Inr jm'" "jm_wf jm'" "jm_active_reservation jm' = None"
    and items: "queued_items jm' = map (missed jm (rp_miss_increment_targets (rv_payload r)))
      (filter (\<lambda>i. wi_workflow_id i \<notin> set (rp_selected_workflow_ids (rv_payload r))) (queued_items jm))"
    using commit_run [OF wf a] sound by (auto simp: sound_reservation_def)
  let ?ids = "batch_workflow_ids (rv_selection r)"
  have wid: "wi_workflow_id (missed jm t i) = wi_workflow_id i" for t i by (simp add: missed_def)
  have "pending_ids jm = mset ?ids + mset (map wi_workflow_id (filter (\<lambda>i. wi_workflow_id i \<notin> set ?ids) (queued_items jm)))"
    unfolding pending_ids_def by (rule mset_filter_split [OF jm_wfD(2) [OF wf]]) (use sound in \<open>auto simp: sound_reservation_def\<close>)
  then have "pending_ids jm = mset ?ids + pending_ids jm'"
    using sound by (simp add: pending_ids_def items sound_reservation_def o_def wid)
  with run show ?thesis by (rule that)
qed

lemma server_invD:
  assumes "server_inv s"
  shows "jm_wf (sv_jm s)" and "jm_active_reservation (sv_jm s) = phase_reservation s"
    and "phase_reservation s = Some r \<Longrightarrow> sound_reservation (sv_jm s) r"
    and "sv_phase s = Chosen r ws \<Longrightarrow> distinct ws \<and> set ws \<inter> set (sv_busy s) = {}"
    and "mset (sv_busy s) = mset (running_workers s) + mset (held_workers s)" and "distinct (sv_busy s)"
    and "mset (sv_accepted s) = pending_ids (sv_jm s) + mset (running_ids s) + mset (sv_finished s)"
    and "distinct (sv_accepted s)"
  using assms by (auto simp: server_inv_def)

lemma phase_simps [simp]:
  "phase_reservation (s\<lparr>sv_phase := Idle\<rparr>) = None" "phase_reservation (s\<lparr>sv_phase := Waiting r\<rparr>) = Some r"
  "phase_reservation (s\<lparr>sv_phase := Chosen r ws\<rparr>) = Some r" "phase_reservation (s\<lparr>sv_phase := Holding r ws\<rparr>) = Some r"
  "phase_reservation (s\<lparr>sv_jm := jm\<rparr>) = phase_reservation s" "phase_reservation (s\<lparr>sv_busy := b\<rparr>) = phase_reservation s"
  "phase_reservation (s\<lparr>sv_running := rs\<rparr>) = phase_reservation s" "phase_reservation (s\<lparr>sv_accepted := a\<rparr>) = phase_reservation s"
  "phase_reservation (s\<lparr>sv_finished := f\<rparr>) = phase_reservation s"
  "held_workers (s\<lparr>sv_phase := Idle\<rparr>) = []" "held_workers (s\<lparr>sv_phase := Waiting r\<rparr>) = []"
  "held_workers (s\<lparr>sv_phase := Chosen r ws\<rparr>) = []" "held_workers (s\<lparr>sv_phase := Holding r ws\<rparr>) = ws"
  "held_workers (s\<lparr>sv_jm := jm\<rparr>) = held_workers s" "held_workers (s\<lparr>sv_busy := b\<rparr>) = held_workers s"
  "held_workers (s\<lparr>sv_running := rs\<rparr>) = held_workers s" "held_workers (s\<lparr>sv_accepted := a\<rparr>) = held_workers s"
  "held_workers (s\<lparr>sv_finished := f\<rparr>) = held_workers s"
  "running_workers (s\<lparr>sv_phase := p\<rparr>) = running_workers s" "running_ids (s\<lparr>sv_phase := p\<rparr>) = running_ids s"
  "running_workers (s\<lparr>sv_jm := jm\<rparr>) = running_workers s" "running_ids (s\<lparr>sv_jm := jm\<rparr>) = running_ids s"
  "running_workers (s\<lparr>sv_busy := b\<rparr>) = running_workers s" "running_ids (s\<lparr>sv_busy := b\<rparr>) = running_ids s"
  "running_workers (s\<lparr>sv_accepted := a\<rparr>) = running_workers s" "running_ids (s\<lparr>sv_accepted := a\<rparr>) = running_ids s"
  "running_workers (s\<lparr>sv_finished := f\<rparr>) = running_workers s" "running_ids (s\<lparr>sv_finished := f\<rparr>) = running_ids s"
  by (simp_all add: phase_reservation_def held_workers_def running_workers_def running_ids_def)

lemma flags_kept:
  "queued_items (jm\<lparr>jm_active_reservation := x\<rparr>) = queued_items jm" "jm_wf (jm\<lparr>jm_active_reservation := x\<rparr>) = jm_wf jm"
  "queued_items (finalize_workflows ids jm) = queued_items jm" "jm_wf (finalize_workflows ids jm) = jm_wf jm"
  "jm_active_reservation (finalize_workflows ids jm) = jm_active_reservation jm"
proof -
  show items: "queued_items (jm\<lparr>jm_active_reservation := x\<rparr>) = queued_items jm" "queued_items (finalize_workflows ids jm) = queued_items jm"
    by (simp_all add: queued_items_def queued_at_def priorities_def finalize_workflows_def)
  have part: "item_partition (jm\<lparr>jm_active_reservation := x\<rparr>) = item_partition jm" "item_partition (finalize_workflows ids jm) = item_partition jm"
    by (rule item_partition_cong, simp add: finalize_workflows_def)+
  have wf: "queue_wf (jm\<lparr>jm_active_reservation := x\<rparr>) = queue_wf jm" "queue_wf (finalize_workflows ids jm) = queue_wf jm"
    by (simp_all add: fun_eq_iff queue_wf_def finalize_workflows_def)
  show "jm_wf (jm\<lparr>jm_active_reservation := x\<rparr>) = jm_wf jm" by (simp add: jm_wf_def items part wf)
  show "jm_wf (finalize_workflows ids jm) = jm_wf jm" unfolding jm_wf_def items part wf by (simp add: finalize_workflows_def)
  show "jm_active_reservation (finalize_workflows ids jm) = jm_active_reservation jm" by (simp add: finalize_workflows_def)
qed

lemma abort_quietly_active:
  "jm_active_reservation jm = Some r \<Longrightarrow> abort_quietly r jm = jm\<lparr>jm_active_reservation := None\<rparr>"
  by (simp add: abort_quietly_def abort_reservation_def is_active_def)

lemma mset_filter_out: "mset xs = mset ys + mset zs \<Longrightarrow> distinct xs \<Longrightarrow> mset (filter (\<lambda>x. x \<notin> set zs) xs) = mset ys"
proof -
  assume eq: "mset xs = mset ys + mset zs" and dist: "distinct xs"
  have "distinct (ys @ zs)" by (metis eq dist mset_append mset_eq_imp_distinct_iff)
  moreover have "mset (filter (\<lambda>x. x \<notin> set zs) xs) = mset (filter (\<lambda>x. x \<notin> set zs) (ys @ zs))"
    unfolding mset_filter by (simp add: eq)
  moreover have "filter (\<lambda>x. x \<notin> set zs) (ys @ zs) = ys" if "distinct (ys @ zs)"
    using that by (auto simp: filter_id_conv)
  ultimately show ?thesis by presburger
qed

lemma release_inv:
  assumes inv: "server_inv s" and run: "sv_running s = before @ (ws, b) # after"
  shows "server_inv (release_batch ws b (s\<lparr>sv_running := before @ after\<rparr>))"
proof -
  note d = server_invD [OF inv]
  let ?s = "s\<lparr>sv_running := before @ after\<rparr>"
  have busy: "mset (sv_busy s) = mset (running_workers ?s @ held_workers s) + mset ws"
    using d(5) by (simp add: running_workers_def run)
  have busy': "mset (filter (\<lambda>w. w \<notin> set ws) (sv_busy s)) = mset (running_workers ?s) + mset (held_workers s)"
    using mset_filter_out [OF busy d(6)] by simp
  have ids: "mset (sv_accepted s) = pending_ids (sv_jm s) + mset (running_ids ?s) + mset (sv_finished s @ batch_workflow_ids b)"
    using d(7) by (simp add: running_ids_def run)
  have sound: "sound_reservation (finalize_workflows x (sv_jm s)) r = sound_reservation (sv_jm s) r" for x r
    by (simp add: sound_reservation_def flags_kept)
  have chosen: "sv_phase s = Chosen r ws' \<Longrightarrow> distinct ws' \<and> set ws' \<inter> set (filter (\<lambda>w. w \<notin> set ws) (sv_busy s)) = {}" for r ws'
    using d(4) by auto
  show ?thesis
    unfolding server_inv_def release_batch_def
    using d(1-3,6,8) busy' ids chosen
    by (simp add: flags_kept sound pending_ids_def del: mset_filter mset_append split: scheduler_phase.split option.split)
qed

lemma server_inv_step:
  assumes inv: "server_inv s" and step: "server_step cfg s t"
  shows "server_inv t"
  using step
proof (cases rule: server_stepE)
  note d = server_invD [OF inv]
  case (queue_job fresh now jb items jm)
  have "wi_workflow_id ` set (queued_items (sv_jm s)) = set_mset (pending_ids (sv_jm s))" by (simp add: pending_ids_def)
  also have "\<dots> \<subseteq> set_mset (mset (sv_accepted s))" unfolding d(7) by auto
  finally have "set (map wi_workflow_id items) \<inter> wi_workflow_id ` set (queued_items (sv_jm s)) = {}"
    using queue_job(4) by auto
  note q = enqueue_sound [OF d(1) queue_job(2,3) this]
  have sub: "set (queued_items (sv_jm s)) \<subseteq> set (queued_items jm)"
    using arg_cong [OF q(2), of set_mset] by auto
  have pend: "pending_ids jm = mset (map wi_workflow_id items) + pending_ids (sv_jm s)"
    unfolding pending_ids_def mset_map q(2) by simp
  have sound: "phase_reservation s = Some r \<Longrightarrow> sound_reservation jm r" for r
    by (rule sound_reservation_more [OF d(3) sub])
  show ?thesis
    unfolding queue_job(1) server_inv_def
    using q(1,3) d(2,4-8) pend sound queue_job(3,4) by (auto split: scheduler_phase.splits option.splits)
next
  note d = server_invD [OF inv]
  case (reserve r jm)
  have "phase_reservation s = None" "held_workers s = []" using reserve(2) by (simp_all add: phase_reservation_def held_workers_def)
  then have free: "jm_active_reservation (sv_jm s) = None" using d(2) by simp
  note q = reserve_batch_sound [OF d(1) free reserve(3)]
  show ?thesis
    unfolding reserve(1) server_inv_def using q d(5-8) \<open>held_workers s = []\<close> by (simp add: pending_ids_def)
next
  note d = server_invD [OF inv]
  case (reserve_nothing jm)
  have p: "phase_reservation s = None" "held_workers s = []" using reserve_nothing(2) by (simp_all add: phase_reservation_def held_workers_def)
  then have free: "jm_active_reservation (sv_jm s) = None" using d(2) by simp
  note q = reserve_batch_sound [OF d(1) free reserve_nothing(3)]
  show ?thesis
    unfolding reserve_nothing(1) server_inv_def using q d(5-8) p reserve_nothing(2) by (simp add: pending_ids_def)
next
  note d = server_invD [OF inv]
  case (choose_group r poll ws)
  have p: "phase_reservation s = Some r" "held_workers s = []" using choose_group(2) by (simp_all add: phase_reservation_def held_workers_def)
  note free = available_group_free [OF choose_group(4) [unfolded batch_group_def] choose_group(3)]
  show ?thesis
    unfolding choose_group(1) server_inv_def using d p free by simp
next
  note d = server_invD [OF inv]
  case (group_taken r ws)
  then show ?thesis using d(4) by blast
next
  note d = server_invD [OF inv]
  case (take_group r ws)
  have p: "phase_reservation s = Some r" "held_workers s = []" using take_group(2) by (simp_all add: phase_reservation_def held_workers_def)
  show ?thesis
    unfolding take_group(1) server_inv_def using d(1-3,5-8) d(4) [OF take_group(2)] p by auto
next
  note d = server_invD [OF inv]
  case (give_up r)
  have p: "phase_reservation s = Some r" "held_workers s = []" using give_up(2) by (simp_all add: phase_reservation_def held_workers_def)
  then have act: "jm_active_reservation (sv_jm s) = Some r" using d(2) by simp
  show ?thesis
    unfolding give_up(1) abort_quietly_active [OF act] server_inv_def using d(1,5-8) p(2) by (simp add: flags_kept pending_ids_def)
next
  note d = server_invD [OF inv]
  case (dispatch r ws)
  have p: "phase_reservation s = Some r" "held_workers s = ws" using dispatch(2) by (simp_all add: phase_reservation_def held_workers_def)
  then have act: "jm_active_reservation (sv_jm s) = Some r" using d(2) by simp
  obtain jm where jm: "commit_reservation r (sv_jm s) = Inr jm" "jm_wf jm" "jm_active_reservation jm = None"
    "pending_ids (sv_jm s) = mset (batch_workflow_ids (rv_selection r)) + pending_ids jm"
    using commit_sound [OF d(1) act d(3) [OF p(1)]] by blast
  have t: "t = s\<lparr>sv_jm := jm, sv_phase := Idle, sv_running := sv_running s @ [(ws, rv_selection r)]\<rparr>"
    using dispatch(1) by (simp add: commit_batch_def jm(1))
  show ?thesis
    unfolding t server_inv_def using jm(2-4) d(5-8) p(2)
    by (simp add: running_workers_def running_ids_def)
next
  case (finish before ws b after)
  then show ?thesis using release_inv [OF inv] by simp
qed

section \<open>A batch that finds no workers\<close>

text \<open>The queue does not look at its reservation counter, so an aborted reservation is made again.\<close>

lemma serial_irrelevant [simp]:
  "queued_items (jm\<lparr>jm_next_serial := k\<rparr>) = queued_items jm"
  "item_partition (jm\<lparr>jm_next_serial := k\<rparr>) = item_partition jm"
  "is_starved (jm\<lparr>jm_next_serial := k\<rparr>) = is_starved jm"
  "queue_wf (jm\<lparr>jm_next_serial := k\<rparr>) = queue_wf jm"
  "present_partitions (jm\<lparr>jm_next_serial := k\<rparr>) = present_partitions jm"
  "apply_starvation_policy (jm\<lparr>jm_next_serial := k\<rparr>) = apply_starvation_policy jm"
  "batch_ids select (jm\<lparr>jm_next_serial := k\<rparr>) cands n = batch_ids select jm cands n"
proof -
  show items: "queued_items (jm\<lparr>jm_next_serial := k\<rparr>) = queued_items jm"
    by (simp add: queued_items_def queued_at_def priorities_def)
  show part: "item_partition (jm\<lparr>jm_next_serial := k\<rparr>) = item_partition jm" by (rule item_partition_cong) simp
  show starved: "is_starved (jm\<lparr>jm_next_serial := k\<rparr>) = is_starved jm" by (simp add: fun_eq_iff is_starved_def)
  show "queue_wf (jm\<lparr>jm_next_serial := k\<rparr>) = queue_wf jm" by (simp add: fun_eq_iff queue_wf_def)
  show "present_partitions (jm\<lparr>jm_next_serial := k\<rparr>) = present_partitions jm" by (simp add: present_partitions_def items part)
  show policy: "apply_starvation_policy (jm\<lparr>jm_next_serial := k\<rparr>) = apply_starvation_policy jm"
    by (simp add: fun_eq_iff apply_starvation_policy_def starved)
  show "batch_ids select (jm\<lparr>jm_next_serial := k\<rparr>) cands n = batch_ids select jm cands n"
    by (simp add: batch_ids_def starved policy)
qed

lemma serial_wf [simp]: "jm_wf (jm\<lparr>jm_next_serial := k\<rparr>) = jm_wf jm"
  by (simp add: jm_wf_def)

lemma anchor_serial:
  "anchor_partition (jm\<lparr>jm_next_serial := k\<rparr>) = (case anchor_partition jm of (x, jm') \<Rightarrow> (x, jm'\<lparr>jm_next_serial := k\<rparr>))"
  by (simp add: anchor_partition_def choose_partition_def split: list.split prod.split option.split)

lemma prune_serial:
  "prune_empty_user_queues p (jm\<lparr>jm_next_serial := k\<rparr>) = (prune_empty_user_queues p jm)\<lparr>jm_next_serial := k\<rparr>"
  by (simp add: prune_empty_user_queues_def Let_def)

lemma peek_serial:
  "peek_round_robin p limit key (jm\<lparr>jm_next_serial := k\<rparr>) =
     (case peek_round_robin p limit key jm of (x, jm') \<Rightarrow> (x, jm'\<lparr>jm_next_serial := k\<rparr>))"
  unfolding peek_round_robin_def prune_serial by (simp add: Let_def)

lemma pool_step_serial:
  "pool_step key p (c, a, jm\<lparr>jm_next_serial := k\<rparr>) =
     (case pool_step key p (c, a, jm) of (c', a', jm') \<Rightarrow> (c', a', jm'\<lparr>jm_next_serial := k\<rparr>))"
  by (simp add: pool_step_def Let_def peek_serial split: prod.split)

lemma pool_serial:
  "build_candidate_pool key (jm\<lparr>jm_next_serial := k\<rparr>) =
     (case build_candidate_pool key jm of (c, a, jm') \<Rightarrow> (c, a, jm'\<lparr>jm_next_serial := k\<rparr>))"
  by (simp add: build_candidate_pool_def priorities_def pool_step_serial split: prod.split)

lemma reserve_parts:
  assumes wf: "jm_wf jm" and run: "reserve_batch n jm = Inr (Some r, jm')"
  obtains key advance cands advs selected where
    "jm_active_reservation jm = None" "present_partitions jm \<noteq> []" "anchor_partition jm = ((key, advance), jm)"
    "build_candidate_pool key jm = (cands, advs, jm)" "cands \<noteq> []"
    "batch_ids (select_affinity_batch_ids default_weights) jm cands (if n \<le> 0 then 1 else n) = Inr selected"
    "make_selection cands selected = Inr (rv_selection r)" "jm' = jm\<lparr>jm_active_reservation := Some r, jm_next_serial := Suc (jm_next_serial jm)\<rparr>"
proof -
  have free: "jm_active_reservation jm = None" and present: "present_partitions jm \<noteq> []"
    using run by (auto simp: reserve_batch_def reserve_with_def Let_def split: if_splits)
  have work: "queued_items jm \<noteq> []" using present by (auto simp: present_partitions_def)
  obtain key advance where anchor: "anchor_partition jm = ((key, advance), jm)"
    using anchor_partition_ok [OF wf work] by blast
  obtain cands advs where pool: "build_candidate_pool key jm = (cands, advs, jm)"
    using build_candidate_pool_ok [OF wf] by blast
  show ?thesis
    using run free present anchor pool
    by (intro that [of key advance cands advs "rp_selected_workflow_ids (rv_payload r)"])
      (auto simp: reserve_batch_def reserve_with_def Let_def ebind_Inr_iff split: if_splits)
qed

lemma reserve_again:
  assumes wf: "jm_wf jm" and run: "reserve_batch n jm = Inr (Some r, jm')"
  shows "\<exists>r2 jm2. reserve_batch n (abort_quietly r jm') = Inr (Some r2, jm2) \<and> rv_selection r2 = rv_selection r \<and>
    jm_wf (abort_quietly r jm') \<and> queued_items (abort_quietly r jm') = queued_items jm"
proof (rule reserve_parts [OF wf run])
  fix key advance cands advs selected
  let ?n = "if n \<le> 0 then 1 else n"
  let ?k = "Suc (jm_next_serial jm)"
  assume p: "jm_active_reservation jm = None" "present_partitions jm \<noteq> []" "anchor_partition jm = ((key, advance), jm)"
    "build_candidate_pool key jm = (cands, advs, jm)" "cands \<noteq> []"
    "batch_ids (select_affinity_batch_ids default_weights) jm cands ?n = Inr selected"
    "make_selection cands selected = Inr (rv_selection r)" "jm' = jm\<lparr>jm_active_reservation := Some r, jm_next_serial := ?k\<rparr>"
  have "jm_active_reservation jm' = Some r" by (simp add: p(8))
  from abort_quietly_active [OF this] have abort: "abort_quietly r jm' = jm\<lparr>jm_next_serial := ?k\<rparr>"
    using p(1) by (simp add: p(8))
  have anchor: "anchor_partition (jm\<lparr>jm_next_serial := ?k\<rparr>) = ((key, advance), jm\<lparr>jm_next_serial := ?k\<rparr>)"
    by (simp add: anchor_serial p(3))
  have pool: "build_candidate_pool key (jm\<lparr>jm_next_serial := ?k\<rparr>) = (cands, advs, jm\<lparr>jm_next_serial := ?k\<rparr>)"
    by (simp add: pool_serial p(4))
  have "\<exists>r2 jm2. reserve_batch n (jm\<lparr>jm_next_serial := ?k\<rparr>) = Inr (Some r2, jm2) \<and> rv_selection r2 = rv_selection r"
    unfolding reserve_batch_def reserve_with_def Let_def anchor prod.case pool
    using p(1,2,5,6,7) by simp
  then show ?thesis using wf by (simp add: abort)
qed

text \<open>
  C23: On a server without a CPU group, which the configuration allows, a batch without a GPU op can
  never be dispatched: no look at the workers, whatever they are, gives it a group, since asking
  for one is an error. The reservation is given up and the next one is for the same batch, so
  every workflow of the queue is stuck behind it.
\<close>

theorem gpu_only_server_stuck:
  assumes "make_server_config n window 0 gpus = Inr cfg" and "jm_wf jm"
    and "reserve_batch (sc_batch_size cfg) jm = Inr (Some r, jm')" and "\<not> batch_requires_gpu (rv_selection r)"
  shows "(\<exists>m. \<forall>busy poll. batch_group cfg (rv_selection r) busy poll = Inl (ValueError m)) \<and>
    (\<exists>r2 jm2. reserve_batch (sc_batch_size cfg) (abort_quietly r jm') = Inr (Some r2, jm2) \<and>
       rv_selection r2 = rv_selection r \<and> queued_items (abort_quietly r jm') = queued_items jm)"
proof -
  have "sc_cpu_group cfg = 0" using assms(1) by (auto simp: make_server_config_def split: if_splits)
  then have "batch_group cfg (rv_selection r) busy poll = Inl (ValueError ''CPU and GPU worker group sizes cannot both be zero'')"
    for busy poll using assms(4) by (simp add: batch_group_def available_group_def)
  with reserve_again [OF assms(2,3)] show ?thesis by blast
qed

definition cpu_item :: "string \<Rightarrow> string \<Rightarrow> unit workflow_item" where
  "cpu_item wid owner = (example_item wid owner MEDIUM)\<lparr>wi_runtime_graph := (tiny_graph ''m'')\<lparr>rg_nodes := map (\<lambda>(n, op). (n, op\<lparr>op_backend := ''data_retrieval'', op_task_type := ''data_retrieval''\<rparr>)) (rg_nodes (tiny_graph ''m''))\<rparr>\<rparr>"

definition cpu_queue :: "unit job_manager" where
  "cpu_queue = fold enqueue_item [cpu_item ''a'' ''u'', cpu_item ''b'' ''v''] (new_job_manager (\<lambda>_. 5) 3 ''default'')"

lemma cpu_queue_wf: "jm_wf cpu_queue"
  using fold_enqueue(1) [OF new_job_manager_wf, of "[cpu_item ''a'' ''u'', cpu_item ''b'' ''v'']" "\<lambda>_. 5" 3 "''default''"]
  by (simp add: cpu_queue_def cpu_item_def example_item_def)

theorem gpu_only_server_stuck_witness:
  "\<exists>cfg r jm. make_server_config 1 0 0 1 = Inr cfg \<and> reserve_batch 1 cpu_queue = Inr (Some r, jm) \<and>
     (\<exists>m. batch_group cfg (rv_selection r) [] \<lparr>wp_workers = [''w''], wp_profile = (\<lambda>_. Inr [])\<rparr> = Inl (ValueError m)) \<and>
     (\<exists>r2 jm2. reserve_batch 1 (abort_quietly r jm) = Inr (Some r2, jm2) \<and> rv_selection r2 = rv_selection r)"
proof -
  let ?q = cpu_queue
  let ?cfg = "\<lparr>sc_batch_size = 1, sc_accumulation = 0, sc_cpu_group = 0, sc_gpu_group = 1\<rparr>"
  have cfg: "make_server_config 1 0 0 1 = Inr ?cfg" by (simp add: make_server_config_def)
  have "map_sum id (\<lambda>(r, jm). case r of None \<Rightarrow> False | Some r \<Rightarrow> \<not> batch_requires_gpu (rv_selection r)) (reserve_batch 1 ?q) = Inr True"
    by code_simp
  then obtain r jm where r: "reserve_batch 1 ?q = Inr (Some r, jm)" "\<not> batch_requires_gpu (rv_selection r)"
    by (cases "reserve_batch 1 ?q") (auto split: option.splits)
  have "reserve_batch (sc_batch_size ?cfg) ?q = Inr (Some r, jm)" using r(1) by simp
  from gpu_only_server_stuck [OF cfg cpu_queue_wf this r(2)] r(1) cfg show ?thesis
    by (metis server_config.select_convs(1))
qed

section \<open>Safety and progress of the server\<close>

lemma reachable_trans: "server_reachable cfg b c \<Longrightarrow> server_reachable cfg a b \<Longrightarrow> server_reachable cfg a c"
  by (induction rule: server_reachable.induct) (auto intro: server_reachable.intros)

lemma reachable_step: "server_step cfg s t \<Longrightarrow> server_reachable cfg s t"
  by (rule server_reachable.step [OF server_reachable.start])

lemma reachable_inv: "server_reachable cfg s t \<Longrightarrow> server_inv s \<Longrightarrow> server_inv t"
  by (induction rule: server_reachable.induct) (auto intro: server_inv_step)

lemma no_items [simp]: "queued_items (new_job_manager quantums limit dflt) = []"
  by (simp add: new_job_manager_def queued_items_def queued_at_def priorities_def)

lemma new_server_inv: "server_inv (new_server (new_job_manager quantums limit dflt))"
  by (simp add: server_inv_def new_server_def new_job_manager_wf phase_reservation_def running_workers_def running_ids_def
      held_workers_def pending_ids_def) (simp add: new_job_manager_def)

lemma dispatch_safe_inv:
  assumes "server_inv s"
  shows "distinct (running_workers s @ held_workers s) \<and> set (sv_busy s) = set (running_workers s @ held_workers s) \<and>
    distinct (map wi_workflow_id (queued_items (sv_jm s)) @ running_ids s @ sv_finished s) \<and>
    set (sv_accepted s) = set (map wi_workflow_id (queued_items (sv_jm s)) @ running_ids s @ sv_finished s) \<and>
    (\<forall>r ws. sv_phase s = Chosen r ws \<longrightarrow> set ws \<inter> set (sv_busy s) = {}) \<and>
    (\<forall>r ws. sv_phase s = Holding r ws \<longrightarrow> (\<exists>jm. commit_reservation r (sv_jm s) = Inr jm))"
proof (intro conjI allI impI)
  note d = server_invD [OF assms]
  have busy: "mset (sv_busy s) = mset (running_workers s @ held_workers s)" using d(5) by simp
  show "distinct (running_workers s @ held_workers s)" using mset_eq_imp_distinct_iff [OF busy] d(6) by blast
  show "set (sv_busy s) = set (running_workers s @ held_workers s)" using mset_eq_setD [OF busy] .
  have ids: "mset (sv_accepted s) = mset (map wi_workflow_id (queued_items (sv_jm s)) @ running_ids s @ sv_finished s)"
    using d(7) by (simp add: pending_ids_def)
  show "distinct (map wi_workflow_id (queued_items (sv_jm s)) @ running_ids s @ sv_finished s)"
    using mset_eq_imp_distinct_iff [OF ids] d(8) by blast
  show "set (sv_accepted s) = set (map wi_workflow_id (queued_items (sv_jm s)) @ running_ids s @ sv_finished s)"
    using mset_eq_setD [OF ids] .
  show "set ws \<inter> set (sv_busy s) = {}" if "sv_phase s = Chosen r ws" for r ws using d(4) [OF that] by blast
  show "\<exists>jm. commit_reservation r (sv_jm s) = Inr jm" if h: "sv_phase s = Holding r ws" for r ws
  proof -
    have p: "phase_reservation s = Some r" using h by (simp add: phase_reservation_def)
    then have act: "jm_active_reservation (sv_jm s) = Some r" using d(2) by simp
    show ?thesis by (rule commit_sound [OF d(1) act d(3) [OF p]]) blast
  qed
qed

text \<open>
  C13: However requests arrive and batches end between the steps of the scheduler loop, no worker
  works for two batches at once, and a worker is busy exactly when a batch runs on it or has just
  been given it: none leaks. Every accepted workflow is in exactly one place: queued, in one
  running batch, or finished. A group chosen from a snapshot is still free when the lock is taken,
  and committing the reservation of a held group never fails.
\<close>

theorem dispatch_safe:
  assumes "server_reachable cfg (new_server (new_job_manager quantums limit dflt)) s"
  shows "distinct (running_workers s @ held_workers s) \<and> set (sv_busy s) = set (running_workers s @ held_workers s) \<and>
    distinct (map wi_workflow_id (queued_items (sv_jm s)) @ running_ids s @ sv_finished s) \<and>
    set (sv_accepted s) = set (map wi_workflow_id (queued_items (sv_jm s)) @ running_ids s @ sv_finished s) \<and>
    (\<forall>r ws. sv_phase s = Chosen r ws \<longrightarrow> set ws \<inter> set (sv_busy s) = {}) \<and>
    (\<forall>r ws. sv_phase s = Holding r ws \<longrightarrow> (\<exists>jm. commit_reservation r (sv_jm s) = Inr jm))"
  by (rule dispatch_safe_inv [OF reachable_inv [OF assms new_server_inv]])

text \<open>What a workflow asks for can be had, once no worker is busy, with and without GPU workers.\<close>

definition servable :: "server_config \<Rightarrow> worker_poll \<Rightarrow> hardware_requirements option \<Rightarrow> bool" where
  "servable cfg poll hw \<longleftrightarrow>
     list_all (\<lambda>gpu. case available_group (sc_cpu_group cfg) gpu hw [] poll of Inr (Some ws) \<Rightarrow> True | _ \<Rightarrow> False)
       [0, sc_gpu_group cfg]"

definition can_serve :: "server_config \<Rightarrow> worker_poll \<Rightarrow> 'd server \<Rightarrow> bool" where
  "can_serve cfg poll s \<longleftrightarrow>
     server_inv s \<and> list_all (\<lambda>p. quantum (sv_jm s) p > 0) priorities \<and> distinct (wp_workers poll) \<and>
     (\<forall>i \<in> set (queued_items (sv_jm s)). servable cfg poll (cf_hardware (wi_config i)))"

lemma servable_group:
  assumes "servable cfg poll (cf_hardware (bs_config b))"
  shows "\<exists>ws. batch_group cfg b [] poll = Inr (Some ws)"
  using assms by (auto simp: servable_def batch_group_def split: sum.splits option.splits)

lemma can_serve_step:
  assumes can: "can_serve cfg poll s" and step: "server_step cfg s t"
    and items: "\<And>i. i \<in> set (queued_items (sv_jm t)) \<Longrightarrow> \<exists>j \<in> set (queued_items (sv_jm s)). wi_config j = wi_config i"
    and quant: "jm_quantums (sv_jm t) = jm_quantums (sv_jm s)"
  shows "can_serve cfg poll t"
proof -
  have "servable cfg poll (cf_hardware (wi_config i))" if "i \<in> set (queued_items (sv_jm t))" for i
    using items [OF that] can by (metis can_serve_def)
  then show ?thesis using can server_inv_step [OF _ step] by (auto simp: can_serve_def quantum_def quant)
qed

lemma finalize_quantums: "jm_quantums (finalize_workflows ids jm) = jm_quantums jm"
  by (simp add: finalize_workflows_def)

lemma finish_step:
  assumes can: "can_serve cfg poll s" and run: "sv_running s = before @ (ws, b) # after"
  defines "t \<equiv> release_batch ws b (s\<lparr>sv_running := before @ after\<rparr>)"
  shows "server_step cfg s t" and "can_serve cfg poll t"
proof -
  show step: "server_step cfg s t" unfolding t_def by (rule server_step.finish [OF run])
  show "can_serve cfg poll t"
    by (rule can_serve_step [OF can step]) (auto simp: t_def release_batch_def flags_kept finalize_quantums)
qed

lemma dispatch_step:
  assumes can: "can_serve cfg poll s" and holding: "sv_phase s = Holding r ws"
  shows "\<exists>jm. let t = s\<lparr>sv_jm := jm, sv_phase := Idle, sv_running := sv_running s @ [(ws, rv_selection r)]\<rparr>
    in server_step cfg s t \<and> can_serve cfg poll t \<and> pending_ids (sv_jm s) = mset (batch_workflow_ids (rv_selection r)) + pending_ids jm"
proof -
  have inv: "server_inv s" using can by (simp add: can_serve_def)
  note d = server_invD [OF inv]
  have p: "phase_reservation s = Some r" using holding by (simp add: phase_reservation_def)
  then have act: "jm_active_reservation (sv_jm s) = Some r" using d(2) by simp
  obtain jm where jm: "commit_reservation r (sv_jm s) = Inr jm"
    "pending_ids (sv_jm s) = mset (batch_workflow_ids (rv_selection r)) + pending_ids jm"
    using commit_sound [OF d(1) act d(3) [OF p]] by blast
  have "is_active (sv_jm s) r" using act by (simp add: is_active_def)
  from commit_run [OF d(1) this] d(3) [OF p] jm(1)
  have items: "queued_items jm = map (missed (sv_jm s) (rp_miss_increment_targets (rv_payload r)))
      (filter (\<lambda>i. wi_workflow_id i \<notin> set (rp_selected_workflow_ids (rv_payload r))) (queued_items (sv_jm s)))"
    and quant: "jm_quantums jm = jm_quantums (sv_jm s)" by (auto simp: sound_reservation_def)
  let ?t = "s\<lparr>sv_jm := jm, sv_phase := Idle, sv_running := sv_running s @ [(ws, rv_selection r)]\<rparr>"
  have step: "server_step cfg s ?t" using server_step.dispatch [OF holding, of cfg] by (simp add: commit_batch_def jm(1))
  moreover have "can_serve cfg poll ?t"
    by (rule can_serve_step [OF can step]) (use quant in \<open>auto simp: items missed_def\<close>)
  ultimately show ?thesis using jm(2) unfolding Let_def by (intro exI [of _ jm]) simp
qed

lemma settle:
  assumes can: "can_serve cfg poll s"
  shows "\<exists>t. server_reachable cfg s t \<and> can_serve cfg poll t \<and> sv_phase t = Idle \<and> sv_accepted t = sv_accepted s"
proof -
  have inv: "server_inv s" using can by (simp add: can_serve_def)
  note d = server_invD [OF inv]
  have held: "\<exists>t. server_reachable cfg u t \<and> can_serve cfg poll t \<and> sv_phase t = Idle \<and> sv_accepted t = sv_accepted u"
    if u: "can_serve cfg poll u" "sv_phase u = Holding r ws" for u :: "'a server" and r ws
  proof -
    obtain jm where jm: "server_step cfg u (u\<lparr>sv_jm := jm, sv_phase := Idle, sv_running := sv_running u @ [(ws, rv_selection r)]\<rparr>)"
      "can_serve cfg poll (u\<lparr>sv_jm := jm, sv_phase := Idle, sv_running := sv_running u @ [(ws, rv_selection r)]\<rparr>)"
      using dispatch_step [OF u] by (auto simp: Let_def)
    show ?thesis by (rule exI, rule conjI, rule reachable_step [OF jm(1)]) (use jm(2) in simp)
  qed
  show ?thesis
  proof (cases "sv_phase s")
    case Idle
    then show ?thesis using can server_reachable.start by blast
  next
    case (Waiting r)
    have "phase_reservation s = Some r" using Waiting by (simp add: phase_reservation_def)
    then have "jm_active_reservation (sv_jm s) = Some r" using d(2) by simp
    then have jm: "abort_quietly r (sv_jm s) = (sv_jm s)\<lparr>jm_active_reservation := None\<rparr>" by (rule abort_quietly_active)
    let ?t = "s\<lparr>sv_jm := abort_quietly r (sv_jm s), sv_phase := Idle\<rparr>"
    have step: "server_step cfg s ?t" by (rule server_step.give_up [OF Waiting])
    moreover have "can_serve cfg poll ?t" by (rule can_serve_step [OF can step]) (auto simp: jm flags_kept)
    ultimately show ?thesis by (intro exI [of _ ?t]) (simp add: reachable_step)
  next
    case (Chosen r ws)
    let ?t = "s\<lparr>sv_busy := sv_busy s @ ws, sv_phase := Holding r ws\<rparr>"
    have step: "server_step cfg s ?t" using d(4) [OF Chosen] by (intro server_step.take_group [OF Chosen]) blast
    have "can_serve cfg poll ?t" by (rule can_serve_step [OF can step]) auto
    from held [OF this] obtain t where "server_reachable cfg ?t t" "can_serve cfg poll t" "sv_phase t = Idle" "sv_accepted t = sv_accepted s"
      by fastforce
    then show ?thesis using reachable_trans reachable_step [OF step] by blast
  next
    case (Holding r ws)
    then show ?thesis using held can by blast
  qed
qed

lemma reserve_config:
  assumes wf: "jm_wf jm" and run: "reserve_batch n jm = Inr (Some r, jm')"
  shows "\<exists>i \<in> set (queued_items jm). bs_config (rv_selection r) = wi_config i"
proof (rule reserve_parts [OF wf run])
  fix key advance cands advs selected
  assume p: "jm_active_reservation jm = None" "present_partitions jm \<noteq> []" "anchor_partition jm = ((key, advance), jm)"
    "build_candidate_pool key jm = (cands, advs, jm)"
  have work: "queued_items jm \<noteq> []" using p(2) by (auto simp: present_partitions_def)
  obtain c a where pool: "build_candidate_pool key jm = (c, a, jm)"
    "mset c \<subseteq># mset (filter (\<lambda>i. item_partition jm i = key) (queued_items jm))"
    using build_candidate_pool_ok [OF wf] by blast
  have "good_reservation jm n r"
    using affinity.reserve_run [OF wf p(1) work p(3) pool, of n] run by (auto simp: reserve_batch_def split: if_splits)
  then show ?thesis by (cases "bs_workflows (rv_selection r)") (auto simp: good_reservation_def Let_def)
qed

lemma reserve_succeeds:
  assumes "ready jm" and "queued_items jm \<noteq> []"
  shows "\<exists>r jm'. reserve_batch n jm = Inr (Some r, jm')"
  using select_batch_run [OF assms(1), of n] assms(2)
  by (auto simp: select_batch_def ebind_Inr_iff split: option.splits)

definition work_left :: "'d server \<Rightarrow> nat" where
  "work_left s = 2 * size (pending_ids (sv_jm s)) + length (sv_running s)"

lemma serve_next:
  assumes can: "can_serve cfg poll s" and idle: "sv_phase s = Idle" and none: "sv_running s = []" and work: "queued_items (sv_jm s) \<noteq> []"
  shows "\<exists>t. server_reachable cfg s t \<and> can_serve cfg poll t \<and> sv_phase t = Idle \<and> sv_accepted t = sv_accepted s \<and> work_left t < work_left s"
proof -
  have inv: "server_inv s" and quant: "list_all (\<lambda>p. quantum (sv_jm s) p > 0) priorities" and dist: "distinct (wp_workers poll)"
    using can by (auto simp: can_serve_def)
  note d = server_invD [OF inv]
  have p: "phase_reservation s = None" "held_workers s = []" using idle by (simp_all add: phase_reservation_def held_workers_def)
  have busy: "sv_busy s = []" using d(5) none p(2) by (simp add: running_workers_def)
  have "ready (sv_jm s)" using d(1,2) quant p(1) by (simp add: ready_def)
  from reserve_succeeds [OF this work] obtain r jm1 where res: "reserve_batch (sc_batch_size cfg) (sv_jm s) = Inr (Some r, jm1)" by blast
  have jm1: "jm1 = (sv_jm s)\<lparr>jm_active_reservation := Some r, jm_next_serial := Suc (jm_next_serial (sv_jm s))\<rparr>"
    by (rule reserve_parts [OF d(1) res])
  have items1: "queued_items jm1 = queued_items (sv_jm s)" by (simp add: jm1 flags_kept)
  let ?s1 = "s\<lparr>sv_jm := jm1, sv_phase := Waiting r\<rparr>"
  have step1: "server_step cfg s ?s1" by (rule server_step.reserve [OF idle res])
  have can1: "can_serve cfg poll ?s1" by (rule can_serve_step [OF can step1]) (auto simp: items1, simp add: jm1)
  obtain i where i: "i \<in> set (queued_items (sv_jm s))" "bs_config (rv_selection r) = wi_config i"
    using reserve_config [OF d(1) res] by blast
  then have "servable cfg poll (cf_hardware (bs_config (rv_selection r)))" using can by (simp add: can_serve_def)
  from servable_group [OF this] obtain ws where ws: "batch_group cfg (rv_selection r) (sv_busy ?s1) poll = Inr (Some ws)"
    by (auto simp: busy)
  let ?s2 = "?s1\<lparr>sv_phase := Chosen r ws\<rparr>"
  have step2: "server_step cfg ?s1 ?s2" by (rule server_step.choose_group [OF _ dist ws]) simp
  have can2: "can_serve cfg poll ?s2" by (rule can_serve_step [OF can1 step2]) auto
  let ?s3 = "?s2\<lparr>sv_busy := sv_busy ?s2 @ ws, sv_phase := Holding r ws\<rparr>"
  have step3: "server_step cfg ?s2 ?s3" by (rule server_step.take_group) (simp_all add: busy)
  have can3: "can_serve cfg poll ?s3" by (rule can_serve_step [OF can2 step3]) auto
  obtain jm where step4: "server_step cfg ?s3 (?s3\<lparr>sv_jm := jm, sv_phase := Idle, sv_running := sv_running ?s3 @ [(ws, rv_selection r)]\<rparr>)"
    and can4: "can_serve cfg poll (?s3\<lparr>sv_jm := jm, sv_phase := Idle, sv_running := sv_running ?s3 @ [(ws, rv_selection r)]\<rparr>)"
    and pend: "pending_ids (sv_jm ?s3) = mset (batch_workflow_ids (rv_selection r)) + pending_ids jm"
    using dispatch_step [OF can3, of r ws] by (auto simp: Let_def)
  let ?s4 = "?s3\<lparr>sv_jm := jm, sv_phase := Idle, sv_running := sv_running ?s3 @ [(ws, rv_selection r)]\<rparr>"
  have "server_reachable cfg s ?s4"
    by (rule server_reachable.step [OF server_reachable.step [OF server_reachable.step [OF reachable_step [OF step1] step2] step3] step4])
  moreover have "work_left ?s4 < work_left s"
  proof -
    have "sound_reservation jm1 r" using reserve_batch_sound(4) [OF d(1) _ res] d(2) p(1) by simp
    then have "1 \<le> length (batch_workflow_ids (rv_selection r))"
      by (cases "batch_workflow_ids (rv_selection r)") (simp_all add: sound_reservation_def)
    moreover have "pending_ids (sv_jm s) = mset (batch_workflow_ids (rv_selection r)) + pending_ids jm"
      using pend by (simp add: pending_ids_def items1)
    ultimately show ?thesis using none by (simp add: work_left_def)
  qed
  ultimately show ?thesis using can4 by (intro exI [of _ ?s4]) simp
qed

lemma serve_all:
  "can_serve cfg poll s \<Longrightarrow> sv_phase s = Idle \<Longrightarrow>
     \<exists>t. server_reachable cfg s t \<and> server_inv t \<and> sv_phase t = Idle \<and> sv_accepted t = sv_accepted s \<and>
       sv_running t = [] \<and> queued_items (sv_jm t) = []"
proof (induction "work_left s" arbitrary: s rule: less_induct)
  case less
  have inv: "server_inv s" using less.prems(1) by (simp add: can_serve_def)
  consider (all_served) "sv_running s = []" "queued_items (sv_jm s) = []"
    | (more) t where "server_reachable cfg s t" "can_serve cfg poll t" "sv_phase t = Idle" "sv_accepted t = sv_accepted s" "work_left t < work_left s"
  proof (cases "sv_running s")
    case Nil
    then show ?thesis using that serve_next [OF less.prems Nil] by blast
  next
    case (Cons x after)
    obtain ws b where x: "x = (ws, b)" by (cases x)
    have run: "sv_running s = [] @ (ws, b) # after" using Cons x by simp
    let ?t = "release_batch ws b (s\<lparr>sv_running := [] @ after\<rparr>)"
    have "sv_phase ?t = Idle" "sv_accepted ?t = sv_accepted s" "work_left ?t < work_left s"
      using less.prems(2) run by (simp_all add: release_batch_def work_left_def pending_ids_def flags_kept)
    then show ?thesis using that(2) [OF reachable_step [OF finish_step(1) [OF less.prems(1) run]] finish_step(2) [OF less.prems(1) run]] by blast
  qed
  then show ?case
  proof cases
    case all_served
    then show ?thesis using server_reachable.start inv less.prems(2) by blast
  next
    case (more t)
    from less.hyps [OF more(5) more(2,3)] obtain u where u: "server_reachable cfg t u" "server_inv u" "sv_phase u = Idle"
      "sv_accepted u = sv_accepted t" "sv_running u = []" "queued_items (sv_jm u) = []" by blast
    show ?thesis using reachable_trans [OF u(1) more(1)] u(2-6) more(4) by auto
  qed
qed

lemma serves_everything:
  assumes "can_serve cfg poll s"
  shows "\<exists>t. server_reachable cfg s t \<and> sv_phase t = Idle \<and> sv_running t = [] \<and> sv_busy t = [] \<and> queued_items (sv_jm t) = [] \<and>
    sv_accepted t = sv_accepted s \<and> set (sv_finished t) = set (sv_accepted s)"
proof -
  obtain u where u: "server_reachable cfg s u" "can_serve cfg poll u" "sv_phase u = Idle" "sv_accepted u = sv_accepted s"
    using settle [OF assms] by blast
  obtain t where t: "server_reachable cfg u t" "server_inv t" "sv_phase t = Idle" "sv_accepted t = sv_accepted u"
    "sv_running t = []" "queued_items (sv_jm t) = []" using serve_all [OF u(2,3)] by blast
  note d = server_invD [OF t(2)]
  have "sv_busy t = []" using d(5) t(3,5) by (simp add: running_workers_def held_workers_def)
  moreover have "mset (sv_accepted t) = mset (sv_finished t)" using d(7) t(5,6) by (simp add: pending_ids_def running_ids_def)
  then have "set (sv_finished t) = set (sv_accepted s)" using mset_eq_setD t(4) u(4) by metis
  ultimately show ?thesis using reachable_trans [OF t(1) u(1)] t(3-6) u(4) by auto
qed

text \<open>
  C14: No workflow can get stuck for good while its workers exist: from every state the server can
  reach, if the quantums are positive and the workers FlowMesh lists, once idle, would do for what
  each queued workflow asks for, there is a way to go on after which every accepted workflow has
  finished, no worker is busy and the loop waits for new work.
\<close>

theorem server_can_finish:
  assumes "server_reachable cfg (new_server (new_job_manager quantums limit dflt)) s"
    and "list_all (\<lambda>p. quantum (sv_jm s) p > 0) priorities" and "distinct (wp_workers poll)"
    and "\<forall>i \<in> set (queued_items (sv_jm s)). servable cfg poll (cf_hardware (wi_config i))"
  shows "\<exists>t. server_reachable cfg s t \<and> sv_phase t = Idle \<and> sv_running t = [] \<and> sv_busy t = [] \<and> queued_items (sv_jm t) = [] \<and>
    sv_accepted t = sv_accepted s \<and> set (sv_finished t) = set (sv_accepted s)"
  by (rule serves_everything) (use reachable_inv [OF assms(1) new_server_inv] assms(2-4) in \<open>simp add: can_serve_def\<close>)

definition server_example_poll :: worker_poll where
  "server_example_poll = \<lparr>wp_workers = [''c'', ''g''],
     wp_profile = (\<lambda>w. Inr (if w = ''g'' then [(''gpu'', PDict [(''devices'', PList [PDict []])])] else []))\<rparr>"

definition server_example_config :: server_config where
  "server_example_config = \<lparr>sc_batch_size = 2, sc_accumulation = 0, sc_cpu_group = 1, sc_gpu_group = 1\<rparr>"

text \<open>One job has been queued; then its batch has been reserved and holds its workers.\<close>

lemma server_example_queued:
  obtains items jm where "enqueue show_nat 5 (example_job ''u'') (new_job_manager (\<lambda>_. 5) 3 ''default'') = Inr (items, jm)"
    "length items = 1" "list_all (\<lambda>p. quantum jm p > 0) priorities" "map (cf_hardware \<circ> wi_config) (queued_items jm) = [None]"
    "server_reachable server_example_config (new_server (new_job_manager (\<lambda>_. 5) 3 ''default''))
       ((new_server (new_job_manager (\<lambda>_. 5) 3 ''default''))\<lparr>sv_jm := jm, sv_accepted := map wi_workflow_id items\<rparr>)"
    "\<exists>r jm2. reserve_batch 2 jm = Inr (Some r, jm2) \<and>
       batch_group server_example_config (rv_selection r) [] server_example_poll = Inr (Some [''g'', ''c''])"
proof -
  let ?jm0 = "new_job_manager (\<lambda>_. 5) 3 ''default'' :: unit job_manager"
  have "map_sum id (\<lambda>(items, jm). length items = 1 \<and> list_all (\<lambda>p. quantum jm p > 0) priorities \<and>
      map (cf_hardware \<circ> wi_config) (queued_items jm) = [None] \<and>
      (case reserve_batch 2 jm of Inr (Some r, jm2) \<Rightarrow>
         batch_group server_example_config (rv_selection r) [] server_example_poll = Inr (Some [''g'', ''c'']) | _ \<Rightarrow> False))
    (enqueue show_nat 5 (example_job ''u'') ?jm0) = Inr True" by code_simp
  then obtain items jm where run: "enqueue show_nat 5 (example_job ''u'') ?jm0 = Inr (items, jm)" "length items = 1"
    "list_all (\<lambda>p. quantum jm p > 0) priorities" "map (cf_hardware \<circ> wi_config) (queued_items jm) = [None]"
    and res: "case reserve_batch 2 jm of Inr (Some r, jm2) \<Rightarrow>
         batch_group server_example_config (rv_selection r) [] server_example_poll = Inr (Some [''g'', ''c'']) | _ \<Rightarrow> False"
    by (cases "enqueue show_nat 5 (example_job ''u'') ?jm0") auto
  have group: "\<exists>r jm2. reserve_batch 2 jm = Inr (Some r, jm2) \<and>
       batch_group server_example_config (rv_selection r) [] server_example_poll = Inr (Some [''g'', ''c''])"
    using res by (auto split: sum.splits option.splits)
  have "distinct (map wi_workflow_id items)" using run(2) by (cases items) auto
  from reachable_step [OF server_step.queue_job [where s = "new_server ?jm0", OF _ this]] run(1)
  have "server_reachable server_example_config (new_server ?jm0)
      ((new_server ?jm0)\<lparr>sv_jm := jm, sv_accepted := map wi_workflow_id items\<rparr>)" by (simp add: new_server_def)
  from that [OF run this group] show ?thesis .
qed

theorem dispatch_safe_witness:
  "\<exists>s r. server_reachable server_example_config (new_server (new_job_manager (\<lambda>_. 5) 3 ''default'')) s \<and>
     sv_phase s = Holding r [''g'', ''c''] \<and> set (sv_busy s) = {''g'', ''c''} \<and> length (sv_accepted s) = 1 \<and>
     (\<exists>jm. commit_reservation r (sv_jm s) = Inr (jm :: unit job_manager))"
proof (rule server_example_queued)
  let ?s0 = "new_server (new_job_manager (\<lambda>_. 5) 3 ''default'') :: unit server"
  fix items jm
  let ?s1 = "?s0\<lparr>sv_jm := jm, sv_accepted := map wi_workflow_id items\<rparr>"
  assume q: "length items = 1" "server_reachable server_example_config ?s0 ?s1" and
    "\<exists>r jm2. reserve_batch 2 jm = Inr (Some r, jm2) \<and>
       batch_group server_example_config (rv_selection r) [] server_example_poll = Inr (Some [''g'', ''c''])"
  then obtain r jm2 where r: "reserve_batch 2 jm = Inr (Some r, jm2)"
    "batch_group server_example_config (rv_selection r) [] server_example_poll = Inr (Some [''g'', ''c''])" by blast
  let ?s2 = "?s1\<lparr>sv_jm := jm2, sv_phase := Waiting r\<rparr>"
  let ?s3 = "?s2\<lparr>sv_phase := Chosen r [''g'', ''c'']\<rparr>"
  let ?s4 = "?s3\<lparr>sv_busy := sv_busy ?s3 @ [''g'', ''c''], sv_phase := Holding r [''g'', ''c'']\<rparr>"
  have step1: "server_step server_example_config ?s1 ?s2"
    by (rule server_step.reserve) (simp_all add: new_server_def server_example_config_def r(1))
  have step2: "server_step server_example_config ?s2 ?s3"
    by (rule server_step.choose_group [where poll = server_example_poll]) (use r(2) in \<open>simp_all add: new_server_def server_example_poll_def\<close>)
  have step3: "server_step server_example_config ?s3 ?s4"
    by (rule server_step.take_group) (simp_all add: new_server_def)
  have reach: "server_reachable server_example_config ?s0 ?s4"
    by (rule server_reachable.step [OF server_reachable.step [OF server_reachable.step [OF q(2) step1] step2] step3])
  from dispatch_safe [OF reach] reach q(1) show ?thesis
    by (intro exI [of _ ?s4] exI [of _ r]) (simp add: new_server_def)
qed

theorem server_can_finish_witness:
  "\<exists>s t. server_reachable server_example_config (new_server (new_job_manager (\<lambda>_. 5) 3 ''default'')) (s :: unit server) \<and>
     length (queued_items (sv_jm s)) = 1 \<and> server_reachable server_example_config s t \<and>
     queued_items (sv_jm t) = [] \<and> set (sv_finished t) = set (sv_accepted s) \<and> length (sv_accepted s) = 1"
proof (rule server_example_queued)
  let ?s0 = "new_server (new_job_manager (\<lambda>_. 5) 3 ''default'') :: unit server"
  fix items jm
  let ?s1 = "?s0\<lparr>sv_jm := jm, sv_accepted := map wi_workflow_id items\<rparr>"
  assume q: "length items = 1" "list_all (\<lambda>p. quantum jm p > 0) priorities" "map (cf_hardware \<circ> wi_config) (queued_items jm) = [None]"
    "server_reachable server_example_config ?s0 ?s1"
  have serve: "servable server_example_config server_example_poll None" by code_simp
  have "\<forall>i \<in> set (queued_items (sv_jm ?s1)). servable server_example_config server_example_poll (cf_hardware (wi_config i))"
    using q(3) serve by auto
  moreover have "distinct (wp_workers server_example_poll)" by (simp add: server_example_poll_def)
  moreover have "length (queued_items jm) = 1" using arg_cong [OF q(3), of length] by simp
  ultimately show ?thesis
    using server_can_finish [OF q(4), of server_example_poll] q by fastforce
qed

end
