(* ===== verification/Accounting.thy ===== *)
theory Accounting
  imports Results Workers
begin

text \<open>
  What the runtime server keeps per request while batches run (\<open>runtime/server.py\<close>): the node
  counters that the start, the optimisation and the end of a batch move, the shares of the
  scheduling time, and which shared executions a cancelled request stops.
\<close>

section \<open>Node counters\<close>

definition graph_nodes :: "runtime_graph \<Rightarrow> int" where
  "graph_nodes g = int (node_count g)"

text \<open>The raw nodes of a batch by request.\<close>

definition count_raw :: "'d workflow_item \<Rightarrow> (string, int) dict \<Rightarrow> (string, int) dict" where
  "count_raw w d = AList.update (wi_request_id w) (dict_get d (wi_request_id w) 0 + graph_nodes (wi_runtime_graph w)) d"

definition request_raw_nodes :: "'d workflow_item list \<Rightarrow> (string, int) dict" where
  "request_raw_nodes ws = fold count_raw ws []"

definition active_workflows :: "string list \<Rightarrow> 'd workflow_item list \<Rightarrow> 'd workflow_item list" where
  "active_workflows cancelled ws = filter (\<lambda>w. wi_request_id w \<notin> set cancelled) ws"

definition batch_dispatch_token :: "'d workflow_item list \<Rightarrow> string option" where
  "batch_dispatch_token ws = Option.bind (find (\<lambda>w. wi_dispatch_token w \<noteq> None) ws) wi_dispatch_token"

text \<open>A loop over the requests of a batch that changes the state of those the server knows.\<close>

fun each_request :: "('x \<Rightarrow> (request_state, unit) op) \<Rightarrow> (string \<times> 'x) list \<Rightarrow> (requests, unit) op" where
  "each_request f [] rs = (Inr (), rs)"
| "each_request f ((r, x) # rows) rs =
     (case map_of rs r of
        None \<Rightarrow> each_request f rows rs
      | Some st \<Rightarrow>
          (case f x st of
             (Inl e, st') \<Rightarrow> (Inl e, AList.update r st' rs)
           | (Inr _, st') \<Rightarrow> each_request f rows (AList.update r st' rs)))"

definition begin_request :: "string \<Rightarrow> int \<Rightarrow> (request_state, unit) op" where
  "begin_request bid raw st =
     (if rs_pending_raw st < raw then (Inl (RuntimeError ''Pending runtime nodes underflow''), st)
      else (Inr (), st\<lparr>rs_pending_raw := rs_pending_raw st - raw, rs_processing_raw := rs_processing_raw st + raw,
              rs_batch_node_counts := AList.update bid \<lparr>nc_raw = raw, nc_optimized = 0\<rparr> (rs_batch_node_counts st)\<rparr>))"

definition begin_batch :: "string \<Rightarrow> (string, int) dict \<Rightarrow> (requests, unit) op" where
  "begin_batch bid rows = each_request (begin_request bid) rows"

text \<open>
  The optimised nodes of the merged graph are shared out by raw nodes, rounded down, and the rest
  goes one by one to the first requests.
\<close>

definition apportion :: "int \<Rightarrow> (string, int) dict \<Rightarrow> (string, int) dict" where
  "apportion total_nodes raw =
     (let total_raw = sum_list (dict_values raw);
          share = (\<lambda>r. if total_raw \<le> 0 then 0 else total_nodes * dict_get raw r 0 div total_raw);
          order = sort (dict_keys raw);
          remainder = nat (total_nodes - sum_list (map share order))
      in map (\<lambda>(i, r). (r, share r + (if i < remainder then 1 else 0))) (List.enumerate 0 order))"

definition record_optimized :: "string \<Rightarrow> int \<Rightarrow> (request_state, unit) op" where
  "record_optimized bid n st =
     (case map_of (rs_batch_node_counts st) bid of
        None \<Rightarrow> (Inl (RuntimeError ''Missing batch node counts''), st)
      | Some c \<Rightarrow>
          if nc_optimized c \<noteq> 0 then (Inl (RuntimeError ''Batch optimized nodes already recorded''), st)
          else (Inr (), st\<lparr>rs_processing_optimized := rs_processing_optimized st + n,
                  rs_batch_node_counts := AList.update bid (c\<lparr>nc_optimized := n\<rparr>) (rs_batch_node_counts st)\<rparr>))"

definition optimize_batch :: "string \<Rightarrow> int \<Rightarrow> (string, int) dict \<Rightarrow> (requests, unit) op" where
  "optimize_batch bid total_nodes rows = each_request (record_optimized bid) (apportion total_nodes rows)"

definition move_raw :: "int \<Rightarrow> (request_state, unit) op" where
  "move_raw raw st =
     (if raw = 0 then (Inr (), st)
      else if rs_processing_raw st < raw then (Inl (RuntimeError ''Processing runtime raw underflow''), st)
      else (Inr (), st\<lparr>rs_processing_raw := rs_processing_raw st - raw, rs_processed_raw := rs_processed_raw st + raw\<rparr>))"

definition move_optimized :: "int \<Rightarrow> (request_state, unit) op" where
  "move_optimized n st =
     (if n = 0 then (Inr (), st)
      else if rs_processing_optimized st < n then (Inl (RuntimeError ''Processing runtime optimized underflow''), st)
      else (Inr (), st\<lparr>rs_processing_optimized := rs_processing_optimized st - n,
              rs_processed_optimized := rs_processed_optimized st + n\<rparr>))"

definition end_request :: "string \<Rightarrow> (request_state, unit) op" where
  "end_request bid st =
     (case map_of (rs_batch_node_counts st) bid of
        None \<Rightarrow> (Inr (), st)
      | Some c \<Rightarrow> then_op (move_raw (nc_raw c)) (\<lambda>_. move_optimized (nc_optimized c))
          (st\<lparr>rs_batch_node_counts := AList.delete bid (rs_batch_node_counts st)\<rparr>))"

definition end_batch :: "string \<Rightarrow> (string, int) dict \<Rightarrow> (requests, unit) op" where
  "end_batch bid rows = each_request (\<lambda>_. end_request bid) rows"

text \<open>The end of a batch: an error of the counters would keep its workers busy for ever.\<close>

definition close_batch ::
  "string \<Rightarrow> (string, int) dict \<Rightarrow> string list \<Rightarrow> 'd batch_selection \<Rightarrow> (requests \<times> 'd server, unit) op" where
  "close_batch bid rows workers b st =
     (case st of (rs, s) \<Rightarrow>
        (case end_batch bid rows rs of
           (Inl e, rs') \<Rightarrow> (Inl e, (rs', s))
         | (Inr _, rs') \<Rightarrow> (Inr (), (rs', release_batch workers b s))))"

text \<open>A new request starts with the nodes of all its graphs pending (\<open>handle_request\<close>).\<close>

definition workflow_lengths :: "(string, slice_meta) dict \<Rightarrow> (string, nat) dict" where
  "workflow_lengths slices =
     foldl (\<lambda>d (_, m). AList.update (sm_public_graph_name m) (max (dict_get d (sm_public_graph_name m) 0) (sm_total_length m)) d) [] slices"

definition new_request_state :: "(string, runtime_graph) dict \<Rightarrow> (string, slice_meta) dict \<Rightarrow> request_state result" where
  "new_request_state query slices =
     (if \<not> list_all (\<lambda>g. g \<in> set (dict_keys query)) (dict_keys slices)
      then Inl (RuntimeError ''Missing runtime graph for workflow slice'')
      else Inr \<lparr>rs_pending = [], rs_outputs = [], rs_histories = [], rs_output_buffers = [], rs_history_buffers = [],
        rs_workflow_lengths = workflow_lengths slices, rs_errors = None, rs_task_node_map = [],
        rs_pending_raw = sum_list (map graph_nodes (dict_values query)), rs_processing_raw = 0, rs_processing_optimized = 0,
        rs_processed_raw = 0, rs_processed_optimized = 0, rs_optimization_seconds = 0, rs_selection_seconds = 0,
        rs_clustering_seconds = 0, rs_batch_node_counts = [],
        rs_total_inputs = sum_list (dict_values (workflow_lengths slices)), rs_completed_inputs = 0, rs_successful = [],
        rs_ready = False\<rparr>)"

section \<open>Batches of several requests at once\<close>

lemma each_request_ok:
  assumes "distinct (map fst rows)"
    and "\<And>r x st. (r, x) \<in> set rows \<Longrightarrow> map_of rs r = Some st \<Longrightarrow> \<exists>st'. f x st = (Inr (), st')"
  shows "\<exists>rs'. each_request f rows rs = (Inr (), rs') \<and>
    (\<forall>r. map_of rs' r = (case map_of rs r of None \<Rightarrow> None
       | Some st \<Rightarrow> Some (case map_of rows r of None \<Rightarrow> st | Some x \<Rightarrow> snd (f x st))))"
  using assms
proof (induction rows arbitrary: rs)
  case Nil
  show ?case by (simp split: option.split)
next
  case (Cons row rows)
  obtain q x where row: "row = (q, x)" by (cases row)
  have new: "q \<notin> fst ` set rows" using Cons.prems(1) row by simp
  then have none: "map_of rows q = None" by (simp add: map_of_eq_None_iff)
  show ?case
  proof (cases "map_of rs q")
    case None
    from Cons.IH [of rs] Cons.prems obtain rs' where run: "each_request f rows rs = (Inr (), rs')"
      and rs': "\<And>r. map_of rs' r = (case map_of rs r of None \<Rightarrow> None
       | Some st \<Rightarrow> Some (case map_of rows r of None \<Rightarrow> st | Some x \<Rightarrow> snd (f x st)))" by force
    have "map_of rs' r = (case map_of rs r of None \<Rightarrow> None
       | Some st \<Rightarrow> Some (case map_of (row # rows) r of None \<Rightarrow> st | Some x \<Rightarrow> snd (f x st)))" for r
      using rs' [of r] None row by (auto split: option.split)
    then show ?thesis using run None row by simp
  next
    case (Some st)
    obtain st' where st': "f x st = (Inr (), st')" using Cons.prems(2) [of q x st] row Some by auto
    have prem: "\<exists>u'. f y u = (Inr (), u')" if "(r, y) \<in> set rows" "map_of (AList.update q st' rs) r = Some u" for r y u
    proof -
      have "r \<noteq> q" using that(1) new by force
      then show ?thesis using Cons.prems(2) [of r y u] that by (simp add: map_of_update)
    qed
    from Cons.IH [of "AList.update q st' rs"] Cons.prems(1) prem row
    obtain rs' where run: "each_request f rows (AList.update q st' rs) = (Inr (), rs')"
      and rs': "\<And>r. map_of rs' r = (case map_of (AList.update q st' rs) r of None \<Rightarrow> None
       | Some st \<Rightarrow> Some (case map_of rows r of None \<Rightarrow> st | Some x \<Rightarrow> snd (f x st)))" by auto
    have "map_of rs' r = (case map_of rs r of None \<Rightarrow> None
       | Some st \<Rightarrow> Some (case map_of (row # rows) r of None \<Rightarrow> st | Some x \<Rightarrow> snd (f x st)))" for r
      using rs' [of r] Some row st' none by (cases "r = q") (auto simp: map_of_update split: option.split)
    then show ?thesis using run Some row st' by simp
  qed
qed

definition nodes_of :: "string \<Rightarrow> 'd workflow_item list \<Rightarrow> int" where
  "nodes_of r ws = sum_list (map (graph_nodes \<circ> wi_runtime_graph) (filter (\<lambda>w. wi_request_id w = r) ws))"

lemma nodes_of_simps [simp]:
  "nodes_of r [] = 0"
  "nodes_of r (w # ws) = (if wi_request_id w = r then graph_nodes (wi_runtime_graph w) else 0) + nodes_of r ws"
  "nodes_of r (ws @ vs) = nodes_of r ws + nodes_of r vs"
  by (simp_all add: nodes_of_def)

lemma nodes_of_nonneg: "0 \<le> nodes_of r ws"
  by (induction ws) (auto simp: graph_nodes_def)

lemma nodes_of_filter: "nodes_of r (filter P ws) \<le> nodes_of r ws"
  by (induction ws) (auto simp: graph_nodes_def)

lemma fold_count_raw:
  assumes "distinct (dict_keys d)"
  shows "distinct (dict_keys (fold count_raw ws d))" and "set (dict_keys (fold count_raw ws d)) = set (dict_keys d) \<union> wi_request_id ` set ws"
    and "dict_get (fold count_raw ws d) r 0 = dict_get d r 0 + nodes_of r ws"
proof -
  have "distinct (dict_keys (fold count_raw ws d)) \<and> set (dict_keys (fold count_raw ws d)) = set (dict_keys d) \<union> wi_request_id ` set ws \<and>
      dict_get (fold count_raw ws d) r 0 = dict_get d r 0 + nodes_of r ws"
    using assms
  proof (induction ws arbitrary: d)
    case (Cons w ws)
    have dist: "distinct (dict_keys (count_raw w d))" unfolding count_raw_def by (rule distinct_keys_update [OF Cons.prems])
    have keys: "set (dict_keys (count_raw w d)) = insert (wi_request_id w) (set (dict_keys d))"
      unfolding count_raw_def dict_keys_update by auto
    have get: "dict_get (count_raw w d) r 0 = dict_get d r 0 + (if wi_request_id w = r then graph_nodes (wi_runtime_graph w) else 0)"
      by (simp add: count_raw_def dict_get_update)
    show ?case using Cons.IH [OF dist] unfolding keys get by auto
  qed simp
  then show "distinct (dict_keys (fold count_raw ws d))" "set (dict_keys (fold count_raw ws d)) = set (dict_keys d) \<union> wi_request_id ` set ws"
    "dict_get (fold count_raw ws d) r 0 = dict_get d r 0 + nodes_of r ws" by blast+
qed

lemma request_raw_nodes_facts:
  "distinct (dict_keys (request_raw_nodes ws))" "set (dict_keys (request_raw_nodes ws)) = wi_request_id ` set ws"
  "map_of (request_raw_nodes ws) r = (if r \<in> wi_request_id ` set ws then Some (nodes_of r ws) else None)"
proof -
  note f = fold_count_raw [of "[]" ws, simplified, folded request_raw_nodes_def]
  show "distinct (dict_keys (request_raw_nodes ws))" "set (dict_keys (request_raw_nodes ws)) = wi_request_id ` set ws"
    using f(1,2) by simp_all
  show "map_of (request_raw_nodes ws) r = (if r \<in> wi_request_id ` set ws then Some (nodes_of r ws) else None)"
  proof (cases "map_of (request_raw_nodes ws) r")
    case None
    then have "r \<notin> set (dict_keys (request_raw_nodes ws))" by (simp add: map_of_eq_None_iff)
    then show ?thesis using None f(2) by simp
  next
    case (Some n)
    then have "r \<in> wi_request_id ` set ws" unfolding f(2) [symmetric] by (metis domI dom_map_of_conv_image_fst)
    moreover have "n = nodes_of r ws" using f(3) [of r] Some by (simp add: dict_get_def)
    ultimately show ?thesis using Some by simp
  qed
qed

section \<open>The shares of the optimised nodes\<close>

lemma sum_ones: "sum_list (map (\<lambda>(i, x). if i < k then 1 else (0 :: int)) (List.enumerate n xs)) = int (min (k - n) (length xs))"
  by (induction xs arbitrary: n) auto

lemma floor_shares:
  assumes "\<And>x. x \<in> set xs \<Longrightarrow> 0 \<le> g x" and "0 < S" and "S = sum_list (map g xs)"
  shows "sum_list (map (\<lambda>x. t * g x div S) xs) \<le> t" and "t < sum_list (map (\<lambda>x. t * g x div S) xs) + int (length xs)"
proof -
  have split: "S * sum_list (map (\<lambda>x. t * g x div S) ys) + sum_list (map (\<lambda>x. t * g x mod S) ys) = t * sum_list (map g ys)" for ys
    by (induction ys) (simp_all add: algebra_simps)
  have rest: "0 \<le> sum_list (map (\<lambda>x. t * g x mod S) ys)" "ys \<noteq> [] \<Longrightarrow> sum_list (map (\<lambda>x. t * g x mod S) ys) < S * int (length ys)" for ys
  proof -
    show "0 \<le> sum_list (map (\<lambda>x. t * g x mod S) ys)" using assms(2) by (intro sum_list_nonneg) auto
    show "ys \<noteq> [] \<Longrightarrow> sum_list (map (\<lambda>x. t * g x mod S) ys) < S * int (length ys)"
    proof (induction ys)
      case (Cons y ys)
      have "t * g y mod S < S" using assms(2) by simp
      then show ?case using Cons.IH by (cases ys) (auto simp: algebra_simps)
    qed simp
  qed
  have ne: "xs \<noteq> []" using assms(2,3) by auto
  let ?d = "sum_list (map (\<lambda>x. t * g x div S) xs)"
  have eq: "S * ?d + sum_list (map (\<lambda>x. t * g x mod S) xs) = t * S" using split [of xs] assms(3) by simp
  then have "S * ?d \<le> S * t" using rest(1) [of xs] by (simp add: algebra_simps)
  then show "?d \<le> t" using assms(2) by simp
  have "S * t < S * (?d + int (length xs))" using eq rest(2) [OF ne] by (simp add: algebra_simps)
  then show "t < ?d + int (length xs)" using assms(2) by simp
qed

lemma apportion_facts:
  assumes "distinct (dict_keys raw)" and "\<And>r n. map_of raw r = Some n \<Longrightarrow> 0 \<le> n" and "0 \<le> t"
  shows "dict_keys (apportion t raw) = sort (dict_keys raw)"
    and "\<And>r n. (r, n) \<in> set (apportion t raw) \<Longrightarrow> 0 \<le> n"
    and "0 < sum_list (dict_values raw) \<Longrightarrow> sum_list (dict_values (apportion t raw)) = t"
proof -
  define S where "S = sum_list (dict_values raw)"
  define share where "share r = (if S \<le> 0 then 0 else t * dict_get raw r 0 div S)" for r
  define order where "order = sort (dict_keys raw)"
  define k where "k = nat (t - sum_list (map share order))"
  have def: "apportion t raw = map (\<lambda>(i, r). (r, share r + (if i < k then 1 else 0))) (List.enumerate 0 order)"
  proof -
    have "share = (\<lambda>r. if S \<le> 0 then 0 else t * dict_get raw r 0 div S)" by (simp add: fun_eq_iff share_def)
    then show ?thesis by (simp only: apportion_def Let_def k_def order_def S_def)
  qed
  show "dict_keys (apportion t raw) = sort (dict_keys raw)" by (simp add: def order_def comp_def split_def)
  have get: "0 \<le> dict_get raw r 0" for r using assms(2) [of r] by (auto simp: dict_get_def split: option.split)
  have share: "0 \<le> share r" for r using assms(3) get by (simp add: share_def pos_imp_zdiv_nonneg_iff)
  then show "0 \<le> n" if "(r, n) \<in> set (apportion t raw)" for r n using that by (auto simp: def)
  assume pos: "0 < sum_list (dict_values raw)"
  have "map (\<lambda>r. dict_get raw r 0) (dict_keys raw) = dict_values raw"
    using assms(1) by (auto simp: dict_get_def)
  then have "sum_list (map (\<lambda>r. dict_get raw r 0) order) = S"
    unfolding S_def order_def by (metis mset_map mset_sort sum_mset_sum_list)
  note fl = floor_shares [of order "\<lambda>r. dict_get raw r 0" S t, OF get pos [folded S_def] this [symmetric]]
  have shares: "map share order = map (\<lambda>r. t * dict_get raw r 0 div S) order" using pos by (simp add: share_def S_def)
  have k: "int k = t - sum_list (map share order)" "k \<le> length order"
    using fl unfolding k_def shares by simp_all
  have "sum_list (dict_values (apportion t raw)) = sum_list (map (\<lambda>(i, r). share r + (if i < k then 1 else 0)) (List.enumerate 0 order))"
    by (simp add: def split_def comp_def)
  also have "\<dots> = sum_list (map share order) + sum_list (map (\<lambda>(i, x). if i < k then 1 else 0) (List.enumerate 0 order))"
  proof -
    have "map (\<lambda>p. share (snd p)) (List.enumerate 0 order) = map share (map snd (List.enumerate 0 order))"
      by (simp only: map_map comp_def)
    then have "map (\<lambda>p. share (snd p)) (List.enumerate 0 order) = map share order" by (simp only: map_snd_enumerate)
    then show ?thesis by (simp add: sum_list_addf split_def)
  qed
  also have "\<dots> = t" using k by (simp add: sum_ones)
  finally show "sum_list (dict_values (apportion t raw)) = t" .
qed

section \<open>Requests and batches, interleaved\<close>

text \<open>
  \<open>handle_request\<close>: a request without graphs is answered at once; otherwise its state is
  registered, its workflows are queued, and the state lists them and is ready.
\<close>

definition handle_request ::
  "(nat \<Rightarrow> string) \<Rightarrow> rat \<Rightarrow> 'd job \<Rightarrow> (requests \<times> 'd job_manager, 'd workflow_item list) op" where
  "handle_request fresh now jb st =
     (case st of (rs, jm) \<Rightarrow>
        if jb_runtime_graphs jb = [] then (Inr [], st)
        else case new_request_state (jb_runtime_graphs jb) (jb_workflow_slices jb) of
            Inl e \<Rightarrow> (Inl e, st)
          | Inr q \<Rightarrow>
              (let rs1 = AList.update (jb_request_id jb) q rs
               in case enqueue fresh now jb jm of
                    Inl e \<Rightarrow> (Inl e, (rs1, jm))
                  | Inr (items, jm') \<Rightarrow>
                      (Inr items, (AList.update (jb_request_id jb) (q\<lparr>rs_pending := map wi_workflow_id items, rs_ready := True\<rparr>) rs1, jm'))))"

text \<open>
  The open batches with their raw nodes by request and whether their optimised nodes were
  recorded; \<open>ac_totals\<close> remembers how many nodes a request came with.
\<close>

record 'd accounts =
  ac_requests :: requests
  ac_waiting :: "'d workflow_item list"
  ac_open :: "(string, (string, int) dict \<times> bool) dict"
  ac_totals :: "(string, int) dict"

inductive account_step :: "'d accounts \<Rightarrow> 'd accounts \<Rightarrow> bool" where
  request_arrives:
    "handle_request fresh now jb (ac_requests a, jm) = (Inr items, (rs, jm')) \<Longrightarrow> items \<noteq> [] \<Longrightarrow>
     jb_request_id jb \<notin> set (dict_keys (ac_requests a)) \<Longrightarrow>
     account_step a (a\<lparr>ac_requests := rs, ac_waiting := ac_waiting a @ items,
       ac_totals := AList.update (jb_request_id jb) (nodes_of (jb_request_id jb) items) (ac_totals a)\<rparr>)"
| batch_begins:
    "mset (ac_waiting a) = mset ws + mset rest \<Longrightarrow> bid \<notin> set (dict_keys (ac_open a)) \<Longrightarrow>
     begin_batch bid (request_raw_nodes (active_workflows cancelled ws)) (ac_requests a) = (res, rs) \<Longrightarrow>
     account_step a (a\<lparr>ac_requests := rs, ac_waiting := rest,
       ac_open := ac_open a @ [(bid, (request_raw_nodes (active_workflows cancelled ws), False))]\<rparr>)"
| batch_optimized:
    "map_of (ac_open a) bid = Some (rows, False) \<Longrightarrow> 0 \<le> tot \<Longrightarrow>
     optimize_batch bid tot rows (ac_requests a) = (res, rs) \<Longrightarrow>
     account_step a (a\<lparr>ac_requests := rs, ac_open := AList.update bid (rows, True) (ac_open a)\<rparr>)"
| batch_ends:
    "map_of (ac_open a) bid = Some (rows, optimized) \<Longrightarrow> end_batch bid rows (ac_requests a) = (res, rs) \<Longrightarrow>
     account_step a (a\<lparr>ac_requests := rs, ac_open := AList.delete bid (ac_open a)\<rparr>)"

inductive_cases account_stepE [consumes 1, case_names request_arrives batch_begins batch_optimized batch_ends]:
  "account_step a b"

inductive accounts_reachable :: "'d accounts \<Rightarrow> bool" where
  no_requests: "accounts_reachable \<lparr>ac_requests = [], ac_waiting = [], ac_open = [], ac_totals = []\<rparr>"
| one_more: "accounts_reachable a \<Longrightarrow> account_step a b \<Longrightarrow> accounts_reachable b"

definition sum_of :: "('v \<Rightarrow> int) \<Rightarrow> (string, 'v) dict \<Rightarrow> int" where
  "sum_of f d = sum_list (map f (dict_values d))"

lemma sum_of_update:
  "map_of d k = None \<Longrightarrow> sum_of f (AList.update k v d) = sum_of f d + f v"
  "map_of d k = Some u \<Longrightarrow> sum_of f (AList.update k v d) = sum_of f d - f u + f v"
  by (induction d) (auto simp: sum_of_def split: if_splits)

lemma sum_of_delete:
  "distinct (dict_keys d) \<Longrightarrow> map_of d k = Some u \<Longrightarrow> sum_of f (AList.delete k d) = sum_of f d - f u"
proof (induction d)
  case (Cons p d)
  have "k \<notin> fst ` set d \<Longrightarrow> AList.delete k d = d" by simp
  then show ?case using Cons by (cases p) (auto simp: sum_of_def)
qed simp

lemma sum_of_member:
  "(\<And>i u. map_of d i = Some u \<Longrightarrow> 0 \<le> f u) \<Longrightarrow> distinct (dict_keys d) \<Longrightarrow> map_of d k = Some v \<Longrightarrow> f v \<le> sum_of f d"
proof -
  assume pos: "\<And>i u. map_of d i = Some u \<Longrightarrow> 0 \<le> f u" and dist: "distinct (dict_keys d)" and v: "map_of d k = Some v"
  have "0 \<le> sum_of f (AList.delete k d)"
    unfolding sum_of_def by (rule sum_list_nonneg) (use pos dist in \<open>auto simp: AList.delete_eq\<close>)
  then show ?thesis using sum_of_delete [OF dist v, of f] by simp
qed

text \<open>
  The counters of one request against the open batches and the workflows that wait: a batch has an
  entry when it is open and has nodes of the request.
\<close>

fun count_fits :: "string \<Rightarrow> ((string, int) dict \<times> bool) option \<Rightarrow> node_counts option \<Rightarrow> bool" where
  "count_fits r None c \<longleftrightarrow> c = None"
| "count_fits r (Some (rows, opt)) c \<longleftrightarrow>
     (case map_of rows r of
        None \<Rightarrow> c = None
      | Some n \<Rightarrow> (case c of None \<Rightarrow> False
          | Some c \<Rightarrow> nc_raw c = n \<and> 0 \<le> nc_optimized c \<and> (\<not> opt \<longrightarrow> nc_optimized c = 0)))"

definition request_ok ::
  "(string, (string, int) dict \<times> bool) dict \<Rightarrow> 'd workflow_item list \<Rightarrow> int option \<Rightarrow> string \<Rightarrow> request_state \<Rightarrow> bool" where
  "request_ok op waiting tot r st \<longleftrightarrow>
     distinct (dict_keys (rs_batch_node_counts st)) \<and>
     (\<forall>bid. count_fits r (map_of op bid) (map_of (rs_batch_node_counts st) bid)) \<and>
     rs_processing_raw st = sum_of nc_raw (rs_batch_node_counts st) \<and>
     rs_processing_optimized st = sum_of nc_optimized (rs_batch_node_counts st) \<and>
     0 \<le> rs_processed_raw st \<and> 0 \<le> rs_processed_optimized st \<and> nodes_of r waiting \<le> rs_pending_raw st \<and>
     tot = Some (rs_pending_raw st + rs_processing_raw st + rs_processed_raw st)"

definition accounts_ok :: "'d accounts \<Rightarrow> bool" where
  "accounts_ok a \<longleftrightarrow>
     distinct (dict_keys (ac_open a)) \<and> (\<forall>w \<in> set (ac_waiting a). map_of (ac_requests a) (wi_request_id w) \<noteq> None) \<and>
     (\<forall>bid rows opt. map_of (ac_open a) bid = Some (rows, opt) \<longrightarrow> distinct (dict_keys rows) \<and>
        (\<forall>r n. map_of rows r = Some n \<longrightarrow> 0 \<le> n \<and> map_of (ac_requests a) r \<noteq> None)) \<and>
     (\<forall>r st. map_of (ac_requests a) r = Some st \<longrightarrow> request_ok (ac_open a) (ac_waiting a) (map_of (ac_totals a) r) r st)"

lemma request_okD:
  assumes "request_ok op waiting tot r st"
  shows "distinct (dict_keys (rs_batch_node_counts st))"
    and "count_fits r (map_of op bid) (map_of (rs_batch_node_counts st) bid)"
    and "rs_processing_raw st = sum_of nc_raw (rs_batch_node_counts st)"
    and "rs_processing_optimized st = sum_of nc_optimized (rs_batch_node_counts st)"
    and "0 \<le> rs_processed_raw st" "0 \<le> rs_processed_optimized st" "nodes_of r waiting \<le> rs_pending_raw st"
    and "tot = Some (rs_pending_raw st + rs_processing_raw st + rs_processed_raw st)"
  using assms unfolding request_ok_def by blast+

lemma accounts_okD:
  assumes "accounts_ok a"
  shows "distinct (dict_keys (ac_open a))" and "w \<in> set (ac_waiting a) \<Longrightarrow> map_of (ac_requests a) (wi_request_id w) \<noteq> None"
    and "map_of (ac_open a) bid = Some (rows, opt) \<Longrightarrow> distinct (dict_keys rows)"
    and "map_of (ac_open a) bid = Some (rows, opt) \<Longrightarrow> map_of rows r = Some n \<Longrightarrow> 0 \<le> n \<and> map_of (ac_requests a) r \<noteq> None"
    and "map_of (ac_requests a) r = Some st \<Longrightarrow> request_ok (ac_open a) (ac_waiting a) (map_of (ac_totals a) r) r st"
  using assms unfolding accounts_ok_def by blast+

lemma request_ok_waiting:
  assumes ok: "request_ok op waiting t r st" and "nodes_of r rest \<le> nodes_of r waiting"
  shows "request_ok op rest t r st"
  using order_trans [OF assms(2) request_okD(7) [OF ok]] ok unfolding request_ok_def by blast

lemma map_of_snoc_new:
  "map_of op bid = None \<Longrightarrow> map_of (op @ [(bid, x)]) b = (if b = bid then Some x else map_of op b)"
  by (auto simp: map_add_def split: option.split)

lemma count_fits_cases:
  assumes "count_fits r (Some (rows, opt)) c" and "map_of rows r = Some n"
  obtains k where "c = Some k" "nc_raw k = n" "0 \<le> nc_optimized k" "\<not> opt \<Longrightarrow> nc_optimized k = 0"
  using assms by (cases c) auto

lemma begin_request_ok:
  assumes ok: "request_ok op waiting t r st" and new: "map_of op bid = None"
    and n: "map_of rows r = Some n" and wait: "n + nodes_of r rest \<le> nodes_of r waiting"
  shows "\<exists>st'. begin_request bid n st = (Inr (), st') \<and> request_ok (op @ [(bid, (rows, False))]) rest t r st'"
proof -
  note d = request_okD [OF ok]
  have none: "map_of (rs_batch_node_counts st) bid = None" using d(2) [of bid] new by simp
  note counts = sum_of_update(1) [OF none]
  have "0 \<le> nodes_of r rest" by (rule nodes_of_nonneg)
  then have enough: "\<not> rs_pending_raw st < n" using d(7) wait by linarith
  let ?counts = "AList.update bid \<lparr>nc_raw = n, nc_optimized = 0\<rparr> (rs_batch_node_counts st)"
  let ?st = "st\<lparr>rs_pending_raw := rs_pending_raw st - n, rs_processing_raw := rs_processing_raw st + n, rs_batch_node_counts := ?counts\<rparr>"
  have fits: "count_fits r (map_of (op @ [(bid, (rows, False))]) b) (map_of ?counts b)" for b
    unfolding map_of_snoc_new [OF new] map_of_update using d(2) [of b] n by simp
  have "request_ok (op @ [(bid, (rows, False))]) rest t r ?st"
    using fits d(1,3-8) wait counts by (simp add: request_ok_def)
  then show ?thesis using enough by (simp add: begin_request_def)
qed

lemma begin_other:
  assumes ok: "request_ok op waiting t r st" and new: "map_of op bid = None" and n: "map_of rows r = None"
    and wait: "nodes_of r rest \<le> nodes_of r waiting"
  shows "request_ok (op @ [(bid, (rows, False))]) rest t r st"
proof -
  have "count_fits r (map_of (op @ [(bid, (rows, False))]) b) (map_of (rs_batch_node_counts st) b)" for b
    unfolding map_of_snoc_new [OF new] using request_okD(2) [OF ok, of b] new n by auto
  then show ?thesis using request_ok_waiting [OF ok wait] unfolding request_ok_def by blast
qed

lemma record_optimized_ok:
  assumes ok: "request_ok op waiting t r st" and bid: "map_of op bid = Some (rows, False)" and n: "map_of rows r = Some raw" and pos: "0 \<le> k"
  shows "\<exists>st'. record_optimized bid k st = (Inr (), st') \<and> request_ok (AList.update bid (rows, True) op) waiting t r st'"
proof -
  note d = request_okD [OF ok]
  obtain c where c: "map_of (rs_batch_node_counts st) bid = Some c" "nc_raw c = raw" "nc_optimized c = 0"
    using d(2) [of bid] unfolding bid by (rule count_fits_cases [OF _ n]) blast
  note counts = sum_of_update(2) [OF c(1)]
  let ?counts = "AList.update bid (c\<lparr>nc_optimized := k\<rparr>) (rs_batch_node_counts st)"
  let ?st = "st\<lparr>rs_processing_optimized := rs_processing_optimized st + k, rs_batch_node_counts := ?counts\<rparr>"
  have fits: "count_fits r (map_of (AList.update bid (rows, True) op) b) (map_of ?counts b)" for b
    unfolding map_of_update using d(2) [of b] n c pos by simp
  have "request_ok (AList.update bid (rows, True) op) waiting t r ?st"
    using fits d(1,3-8) counts c(3) by (simp add: request_ok_def)
  then show ?thesis using c by (simp add: record_optimized_def)
qed

lemma record_other:
  assumes ok: "request_ok op waiting t r st" and bid: "map_of op bid = Some (rows, False)" and n: "map_of rows r = None"
  shows "request_ok (AList.update bid (rows, True) op) waiting t r st"
proof -
  have "count_fits r (map_of (AList.update bid (rows, True) op) b) (map_of (rs_batch_node_counts st) b)" for b
    unfolding map_of_update using request_okD(2) [OF ok, of b] bid n by auto
  then show ?thesis using ok unfolding request_ok_def by blast
qed

lemma counts_nonneg:
  assumes ok: "request_ok op waiting t r st" and c: "map_of (rs_batch_node_counts st) i = Some c"
    and pos: "\<And>b rows opt n. map_of op b = Some (rows, opt) \<Longrightarrow> map_of rows r = Some n \<Longrightarrow> 0 \<le> n"
  shows "0 \<le> nc_raw c" "0 \<le> nc_optimized c"
proof -
  have f: "count_fits r (map_of op i) (Some c)" using request_okD(2) [OF ok, of i] c by simp
  obtain rows opt where b: "map_of op i = Some (rows, opt)" using f by (cases "map_of op i") auto
  obtain n where n: "map_of rows r = Some n" using f b by (cases "map_of rows r") auto
  from count_fits_cases [OF f [unfolded b] n] obtain k where "Some c = Some k" "nc_raw k = n" "0 \<le> nc_optimized k" by blast
  then show "0 \<le> nc_raw c" "0 \<le> nc_optimized c" using pos [OF b n] by simp_all
qed

lemma end_request_ok:
  assumes ok: "request_ok op waiting t r st" and bid: "map_of op bid = Some (rows, opt)" and n: "map_of rows r = Some raw"
    and pos: "\<And>b rows opt n. map_of op b = Some (rows, opt) \<Longrightarrow> map_of rows r = Some n \<Longrightarrow> 0 \<le> n"
  shows "\<exists>st'. end_request bid st = (Inr (), st') \<and> request_ok (AList.delete bid op) waiting t r st'"
proof -
  note d = request_okD [OF ok]
  obtain c where c: "map_of (rs_batch_node_counts st) bid = Some c"
    using d(2) [of bid] unfolding bid by (rule count_fits_cases [OF _ n]) blast
  note nonneg = counts_nonneg [OF ok _ pos]
  note counts = sum_of_delete [OF d(1) c]
  have le: "nc_raw c \<le> rs_processing_raw st" "nc_optimized c \<le> rs_processing_optimized st"
    unfolding d(3,4) by (rule sum_of_member [OF _ d(1) c], rule nonneg, assumption, assumption, assumption)+
  let ?counts = "AList.delete bid (rs_batch_node_counts st)"
  let ?st = "st\<lparr>rs_batch_node_counts := ?counts,
     rs_processing_raw := rs_processing_raw st - nc_raw c, rs_processed_raw := rs_processed_raw st + nc_raw c,
     rs_processing_optimized := rs_processing_optimized st - nc_optimized c,
     rs_processed_optimized := rs_processed_optimized st + nc_optimized c\<rparr>"
  have keys: "distinct (dict_keys ?counts)" using d(1) by (simp add: delete_keys distinct_removeAll)
  have fits: "count_fits r (map_of (AList.delete bid op) b) (map_of ?counts b)" for b
    unfolding delete_conv' using d(2) [of b] by simp
  have "0 \<le> nc_raw c" "0 \<le> nc_optimized c" by (rule nonneg [OF c], assumption, assumption)+
  then have "request_ok (AList.delete bid op) waiting t r ?st"
    using keys fits d(3-8) counts by (simp add: request_ok_def)
  moreover have "end_request bid st = (Inr (), ?st)"
    using le c by (simp add: end_request_def then_op_def move_raw_def move_optimized_def)
  ultimately show ?thesis by blast
qed

lemma end_other:
  assumes ok: "request_ok op waiting t r st" and bid: "map_of op bid = Some (rows, opt)" and n: "map_of rows r = None"
  shows "request_ok (AList.delete bid op) waiting t r st"
proof -
  have "count_fits r (map_of (AList.delete bid op) b) (map_of (rs_batch_node_counts st) b)" for b
    unfolding delete_conv' using request_okD(2) [OF ok, of b] bid n by auto
  then show ?thesis using ok unfolding request_ok_def by blast
qed

lemma each_request_inv:
  assumes dist: "distinct (dict_keys rows)"
    and "\<And>r x st. map_of rows r = Some x \<Longrightarrow> map_of rs r = Some st \<Longrightarrow> \<exists>st'. f x st = (Inr (), st') \<and> Q r st'"
    and "\<And>r st. map_of rows r = None \<Longrightarrow> map_of rs r = Some st \<Longrightarrow> Q r st"
  shows "\<exists>rs'. each_request f rows rs = (Inr (), rs') \<and> (\<forall>r. map_of rs' r = None \<longleftrightarrow> map_of rs r = None) \<and>
    (\<forall>r st. map_of rs' r = Some st \<longrightarrow> Q r st)"
proof -
  have "\<exists>st'. f x st = (Inr (), st')" if "(r, x) \<in> set rows" "map_of rs r = Some st" for r x st
    using assms(2) [OF map_of_is_SomeI [OF dist that(1)] that(2)] by blast
  then have "\<exists>rs'. each_request f rows rs = (Inr (), rs') \<and>
    (\<forall>r. map_of rs' r = (case map_of rs r of None \<Rightarrow> None
       | Some st \<Rightarrow> Some (case map_of rows r of None \<Rightarrow> st | Some x \<Rightarrow> snd (f x st))))"
    by (rule each_request_ok [OF dist])
  then obtain rs' where run: "each_request f rows rs = (Inr (), rs')"
    and rs': "\<And>r. map_of rs' r = (case map_of rs r of None \<Rightarrow> None
       | Some st \<Rightarrow> Some (case map_of rows r of None \<Rightarrow> st | Some x \<Rightarrow> snd (f x st)))" by blast
  have "Q r st" if "map_of rs' r = Some st" for r st
  proof (cases "map_of rs r")
    case None
    then show ?thesis using that rs' [of r] by simp
  next
    case (Some u)
    show ?thesis
    proof (cases "map_of rows r")
      case None
      then show ?thesis using assms(3) [OF None Some] that rs' [of r] Some by simp
    next
      case row: (Some x)
      then show ?thesis using assms(2) [OF row Some] that rs' [of r] Some by auto
    qed
  qed
  moreover have "map_of rs' r = None \<longleftrightarrow> map_of rs r = None" for r using rs' [of r] by (simp split: option.splits)
  ultimately show ?thesis using run by blast
qed

lemma nodes_of_mset: "mset ws = mset vs \<Longrightarrow> nodes_of r ws = nodes_of r vs"
proof -
  assume eq: "mset ws = mset vs"
  let ?f = "graph_nodes \<circ> wi_runtime_graph" and ?P = "\<lambda>w. wi_request_id w = r"
  have "mset (map ?f (filter ?P ws)) = mset (map ?f (filter ?P vs))" unfolding mset_map mset_filter eq by (rule refl)
  then show ?thesis unfolding nodes_of_def by (metis sum_mset_sum_list)
qed

lemma nodes_of_active: "nodes_of r (active_workflows cancelled ws) \<le> nodes_of r ws"
  unfolding active_workflows_def by (rule nodes_of_filter)

lemma begin_ok:
  fixes cancelled :: "string list"
  assumes ok: "accounts_ok a" and wait: "mset (ac_waiting a) = mset ws + mset rest" and new: "bid \<notin> set (dict_keys (ac_open a))"
  defines "rows \<equiv> request_raw_nodes (active_workflows cancelled ws)"
  shows "\<exists>rs. begin_batch bid rows (ac_requests a) = (Inr (), rs) \<and>
    accounts_ok (a\<lparr>ac_requests := rs, ac_waiting := rest, ac_open := ac_open a @ [(bid, (rows, False))]\<rparr>)"
proof -
  note d = accounts_okD [OF ok]
  note raw = request_raw_nodes_facts [of "active_workflows cancelled ws", folded rows_def]
  have fresh: "map_of (ac_open a) bid = None" using new by (simp add: map_of_eq_None_iff)
  have split: "nodes_of r (ac_waiting a) = nodes_of r ws + nodes_of r rest" for r
    using nodes_of_mset [of "ac_waiting a" "ws @ rest" r] wait by simp
  let ?op = "ac_open a @ [(bid, (rows, False))]"
  let ?Q = "\<lambda>r st. request_ok ?op rest (map_of (ac_totals a) r) r st"
  have one: "\<exists>st'. begin_request bid n st = (Inr (), st') \<and> ?Q r st'"
    if n: "map_of rows r = Some n" and st: "map_of (ac_requests a) r = Some st" for r n st
  proof (rule begin_request_ok [OF d(5) [OF st] fresh n])
    have "n = nodes_of r (active_workflows cancelled ws)" using n raw(3) [of r] by (simp split: if_splits)
    then show "n + nodes_of r rest \<le> nodes_of r (ac_waiting a)" using split [of r] nodes_of_active [of r cancelled ws] by simp
  qed
  have other: "?Q r st" if n: "map_of rows r = None" and st: "map_of (ac_requests a) r = Some st" for r st
    by (rule begin_other [OF d(5) [OF st] fresh n]) (use split [of r] nodes_of_nonneg [of r ws] in simp)
  have "\<exists>rs. begin_batch bid rows (ac_requests a) = (Inr (), rs) \<and> (\<forall>r. map_of rs r = None \<longleftrightarrow> map_of (ac_requests a) r = None) \<and>
    (\<forall>r st. map_of rs r = Some st \<longrightarrow> ?Q r st)"
    unfolding begin_batch_def by (rule each_request_inv [OF raw(1)]) (rule one other, assumption, assumption)+
  then obtain rs where
    run: "begin_batch bid rows (ac_requests a) = (Inr (), rs)" and same: "\<And>r. map_of rs r = None \<longleftrightarrow> map_of (ac_requests a) r = None"
    and Q: "\<And>r st. map_of rs r = Some st \<Longrightarrow> ?Q r st" by blast
  have known: "map_of (ac_requests a) (wi_request_id w) \<noteq> None" if "w \<in> set ws \<union> set rest" for w
    using d(2) [of w] that mset_eq_setD [of "ac_waiting a" "ws @ rest"] wait by auto
  have row: "0 \<le> n \<and> map_of (ac_requests a) r \<noteq> None" if "map_of rows r = Some n" for r n
    using that raw(3) [of r] nodes_of_nonneg known by (auto simp: active_workflows_def split: if_splits)
  have opened: "distinct (dict_keys rs1) \<and> (\<forall>r n. map_of rs1 r = Some n \<longrightarrow> 0 \<le> n \<and> map_of rs r \<noteq> None)"
    if "map_of ?op b = Some (rs1, opt)" for b rs1 opt
    using that raw(1) row d(3,4) [of b] unfolding map_of_snoc_new [OF fresh] same by (auto split: if_splits)
  have "accounts_ok (a\<lparr>ac_requests := rs, ac_waiting := rest, ac_open := ?op\<rparr>)"
    unfolding accounts_ok_def using d(1) new Q opened known same by simp
  with run show ?thesis by blast
qed

lemma optimize_ok:
  assumes ok: "accounts_ok a" and bid: "map_of (ac_open a) bid = Some (rows, False)" and pos: "0 \<le> t"
  shows "\<exists>rs. optimize_batch bid t rows (ac_requests a) = (Inr (), rs) \<and>
    accounts_ok (a\<lparr>ac_requests := rs, ac_open := AList.update bid (rows, True) (ac_open a)\<rparr>)"
proof -
  note d = accounts_okD [OF ok]
  have rows: "0 \<le> n" if "map_of rows r = Some n" for r n using d(4) [OF bid that] by blast
  have ap: "dict_keys (apportion t rows) = sort (dict_keys rows)" "\<And>r n. (r, n) \<in> set (apportion t rows) \<Longrightarrow> 0 \<le> n"
    by (rule apportion_facts [OF d(3) [OF bid] _ pos], rule rows, assumption)
      (rule apportion_facts(2) [OF d(3) [OF bid] _ pos], rule rows, assumption, assumption)
  have dist: "distinct (dict_keys (apportion t rows))" using d(3) [OF bid] unfolding ap(1) by simp
  have keys: "map_of (apportion t rows) r = None \<longleftrightarrow> map_of rows r = None" for r
    unfolding map_of_eq_None_iff using arg_cong [OF ap(1), of set] by simp
  let ?op = "AList.update bid (rows, True) (ac_open a)"
  let ?Q = "\<lambda>r st. request_ok ?op (ac_waiting a) (map_of (ac_totals a) r) r st"
  have one: "\<exists>st'. record_optimized bid k st = (Inr (), st') \<and> ?Q r st'"
    if k: "map_of (apportion t rows) r = Some k" and st: "map_of (ac_requests a) r = Some st" for r k st
  proof -
    obtain raw where "map_of rows r = Some raw" using keys [of r] k by (cases "map_of rows r") auto
    then show ?thesis using record_optimized_ok [OF d(5) [OF st] bid] ap(2) [OF map_of_SomeD [OF k]] by blast
  qed
  have other: "?Q r st" if n: "map_of (apportion t rows) r = None" and st: "map_of (ac_requests a) r = Some st" for r st
  proof (rule record_other [OF d(5) [OF st] bid])
    show "map_of rows r = None" using n keys by metis
  qed
  have "\<exists>rs. optimize_batch bid t rows (ac_requests a) = (Inr (), rs) \<and> (\<forall>r. map_of rs r = None \<longleftrightarrow> map_of (ac_requests a) r = None) \<and>
    (\<forall>r st. map_of rs r = Some st \<longrightarrow> ?Q r st)"
    unfolding optimize_batch_def by (rule each_request_inv [OF dist]) (rule one other, assumption, assumption)+
  then obtain rs where
    run: "optimize_batch bid t rows (ac_requests a) = (Inr (), rs)" and same: "\<And>r. map_of rs r = None \<longleftrightarrow> map_of (ac_requests a) r = None"
    and Q: "\<And>r st. map_of rs r = Some st \<Longrightarrow> ?Q r st" by blast
  have opened: "distinct (dict_keys rs1) \<and> (\<forall>r n. map_of rs1 r = Some n \<longrightarrow> 0 \<le> n \<and> map_of rs r \<noteq> None)"
    if "map_of ?op b = Some (rs1, opt)" for b rs1 opt
    using that d(3,4) [of b] d(3,4) [OF bid] unfolding map_of_update same by (auto split: if_splits)
  have keys: "distinct (dict_keys ?op)" by (rule distinct_keys_update [OF d(1)])
  have known: "map_of rs (wi_request_id w) \<noteq> None" if "w \<in> set (ac_waiting a)" for w using d(2) [OF that] unfolding same by assumption
  have "accounts_ok (a\<lparr>ac_requests := rs, ac_open := ?op\<rparr>)"
    unfolding accounts_ok_def using keys known Q opened by simp
  with run show ?thesis by blast
qed

lemma end_ok:
  assumes ok: "accounts_ok a" and bid: "map_of (ac_open a) bid = Some (rows, opt)"
  shows "\<exists>rs. end_batch bid rows (ac_requests a) = (Inr (), rs) \<and>
    accounts_ok (a\<lparr>ac_requests := rs, ac_open := AList.delete bid (ac_open a)\<rparr>)"
proof -
  note d = accounts_okD [OF ok]
  let ?op = "AList.delete bid (ac_open a)"
  let ?Q = "\<lambda>r st. request_ok ?op (ac_waiting a) (map_of (ac_totals a) r) r st"
  have one: "\<exists>st'. end_request bid st = (Inr (), st') \<and> ?Q r st'"
    if "map_of rows r = Some n" and st: "map_of (ac_requests a) r = Some st" for r n st
    by (rule end_request_ok [OF d(5) [OF st] bid that(1)]) (use d(4) in blast)
  have other: "?Q r st" if n: "map_of rows r = None" and st: "map_of (ac_requests a) r = Some st" for r st
    by (rule end_other [OF d(5) [OF st] bid n])
  have "\<exists>rs. end_batch bid rows (ac_requests a) = (Inr (), rs) \<and> (\<forall>r. map_of rs r = None \<longleftrightarrow> map_of (ac_requests a) r = None) \<and>
    (\<forall>r st. map_of rs r = Some st \<longrightarrow> ?Q r st)"
    unfolding end_batch_def by (rule each_request_inv [OF d(3) [OF bid]]) (rule one other, assumption, assumption)+
  then obtain rs where
    run: "end_batch bid rows (ac_requests a) = (Inr (), rs)" and same: "\<And>r. map_of rs r = None \<longleftrightarrow> map_of (ac_requests a) r = None"
    and Q: "\<And>r st. map_of rs r = Some st \<Longrightarrow> ?Q r st" by blast
  have opened: "distinct (dict_keys rs1) \<and> (\<forall>r n. map_of rs1 r = Some n \<longrightarrow> 0 \<le> n \<and> map_of rs r \<noteq> None)"
    if "map_of ?op b = Some (rs1, opt)" for b rs1 opt
    using that d(3,4) [of b] unfolding delete_conv' same by (auto split: if_splits)
  have keys: "distinct (dict_keys ?op)" using d(1) by (simp add: delete_keys distinct_removeAll)
  have known: "map_of rs (wi_request_id w) \<noteq> None" if "w \<in> set (ac_waiting a)" for w using d(2) [OF that] unfolding same by assumption
  have "accounts_ok (a\<lparr>ac_requests := rs, ac_open := ?op\<rparr>)"
    unfolding accounts_ok_def using keys known Q opened by simp
  with run show ?thesis by blast
qed

lemma make_items:
  assumes "emap (\<lambda>(i, g). make_item now jb (fresh i) g) igs = Inr items"
  shows "map wi_runtime_graph items = map (\<lambda>(i, g). snd g) igs" and "\<forall>w \<in> set items. wi_request_id w = jb_request_id jb"
proof -
  have "map wi_runtime_graph items = map (\<lambda>(i, g). snd g) igs \<and> (\<forall>w \<in> set items. wi_request_id w = jb_request_id jb)"
    using assms by (induction igs arbitrary: items) (auto simp: result_simps make_item_def)
  then show "map wi_runtime_graph items = map (\<lambda>(i, g). snd g) igs" "\<forall>w \<in> set items. wi_request_id w = jb_request_id jb"
    by simp_all
qed

lemma enqueued_items:
  assumes "enqueue fresh now jb jm = Inr (items, jm')"
  shows "map wi_runtime_graph items = dict_values (jb_runtime_graphs jb)" and "\<forall>w \<in> set items. wi_request_id w = jb_request_id jb"
proof -
  have run: "emap (\<lambda>(i, g). make_item now jb (fresh i) g) (List.enumerate 0 (jb_runtime_graphs jb)) = Inr items"
    using assms by (auto simp: enqueue_def ebind_Inr_iff)
  have "map (\<lambda>(i, g). snd g) (List.enumerate 0 (jb_runtime_graphs jb)) = dict_values (jb_runtime_graphs jb)"
    unfolding split_def by (metis (no_types, lifting) comp_apply map_eq_conv map_map map_snd_enumerate)
  with make_items [OF run] show "map wi_runtime_graph items = dict_values (jb_runtime_graphs jb)"
    "\<forall>w \<in> set items. wi_request_id w = jb_request_id jb" by simp_all
qed

lemma nodes_of_own: "\<forall>w \<in> set ws. wi_request_id w = r \<Longrightarrow> nodes_of r ws = sum_list (map graph_nodes (map wi_runtime_graph ws))"
  by (induction ws) simp_all

lemma nodes_of_others: "\<forall>w \<in> set ws. wi_request_id w \<noteq> r \<Longrightarrow> nodes_of r ws = 0"
  by (induction ws) simp_all

lemma arrival_ok:
  assumes ok: "accounts_ok a" and run: "handle_request fresh now jb (ac_requests a, jm) = (Inr items, (rs, jm'))"
    and ne: "items \<noteq> []" and new: "jb_request_id jb \<notin> set (dict_keys (ac_requests a))"
  shows "accounts_ok (a\<lparr>ac_requests := rs, ac_waiting := ac_waiting a @ items,
       ac_totals := AList.update (jb_request_id jb) (nodes_of (jb_request_id jb) items) (ac_totals a)\<rparr>)"
proof -
  note d = accounts_okD [OF ok]
  let ?r = "jb_request_id jb"
  have graphs: "jb_runtime_graphs jb \<noteq> []" using run ne by (auto simp: handle_request_def)
  obtain q where q: "new_request_state (jb_runtime_graphs jb) (jb_workflow_slices jb) = Inr q"
    using run graphs by (cases "new_request_state (jb_runtime_graphs jb) (jb_workflow_slices jb)") (auto simp: handle_request_def)
  obtain jm2 where enq: "enqueue fresh now jb jm = Inr (items, jm2)"
    and rs: "rs = AList.update ?r (q\<lparr>rs_pending := map wi_workflow_id items, rs_ready := True\<rparr>) (AList.update ?r q (ac_requests a))"
    using run graphs q by (cases "enqueue fresh now jb jm") (auto simp: handle_request_def Let_def)
  note items = enqueued_items [OF enq]
  let ?q = "q\<lparr>rs_pending := map wi_workflow_id items, rs_ready := True\<rparr>"
  have none: "map_of (ac_requests a) ?r = None" using new by (simp add: map_of_eq_None_iff)
  have at: "map_of rs r = (if r = ?r then Some ?q else map_of (ac_requests a) r)" for r
    unfolding rs map_of_update by simp
  have qf: "rs_pending_raw q = nodes_of ?r items" "rs_processing_raw q = 0" "rs_processing_optimized q = 0"
    "rs_processed_raw q = 0" "rs_processed_optimized q = 0" "rs_batch_node_counts q = []"
    using q nodes_of_own [OF items(2)] items(1) by (auto simp: new_request_state_def split: if_splits)
  have waiting: "nodes_of ?r (ac_waiting a) = 0" by (rule nodes_of_others, rule ballI) (metis d(2) none)
  have fits: "count_fits ?r (map_of (ac_open a) bid) None" for bid
  proof (cases "map_of (ac_open a) bid")
    case (Some x)
    obtain rows opt where x: "x = (rows, opt)" by (cases x)
    show ?thesis
    proof (cases "map_of rows ?r")
      case None
      then show ?thesis using Some x by simp
    next
      case n: (Some n)
      show ?thesis using d(4) [OF Some [unfolded x] n] none by simp
    qed
  qed simp
  have mine: "request_ok (ac_open a) (ac_waiting a @ items) (Some (nodes_of ?r items)) ?r ?q"
    using qf fits waiting by (simp add: request_ok_def sum_of_def)
  have other: "request_ok (ac_open a) (ac_waiting a @ items) (map_of (ac_totals a) r) r st"
    if "map_of (ac_requests a) r = Some st" "r \<noteq> ?r" for r st
  proof (rule request_ok_waiting [OF d(5) [OF that(1)]])
    show "nodes_of r (ac_waiting a @ items) \<le> nodes_of r (ac_waiting a)"
      using nodes_of_others [of items r] items(2) that(2) by simp
  qed
  have all: "request_ok (ac_open a) (ac_waiting a @ items) (map_of (AList.update ?r (nodes_of ?r items) (ac_totals a)) r) r st"
    if "map_of rs r = Some st" for r st
    using that mine other unfolding map_of_update at by (auto split: if_splits)
  have known: "map_of rs (wi_request_id w) \<noteq> None" if "w \<in> set (ac_waiting a @ items)" for w
    unfolding at using that d(2) [of w] items(2) by auto
  have opened: "distinct (dict_keys rows) \<and> (\<forall>r n. map_of rows r = Some n \<longrightarrow> 0 \<le> n \<and> map_of rs r \<noteq> None)"
    if "map_of (ac_open a) bid = Some (rows, opt)" for bid rows opt
    using d(3) [OF that] d(4) [OF that] unfolding at by (auto split: if_splits)
  show ?thesis unfolding accounts_ok_def using d(1) known opened all by simp
qed

lemma account_step_ok: "account_step a b \<Longrightarrow> accounts_ok a \<Longrightarrow> accounts_ok b"
proof (induction rule: account_step.induct)
  case (request_arrives fresh now jb a jm items rs jm')
  then show ?case using arrival_ok by blast
next
  case (batch_begins a ws rest bid cancelled res rs)
  then show ?case using begin_ok [OF batch_begins(4,1,2), of cancelled] by auto
next
  case (batch_optimized a bid rows t res rs)
  then show ?case using optimize_ok [OF batch_optimized(4,1,2)] by auto
next
  case (batch_ends a bid rows opt res rs)
  then show ?case using end_ok [OF batch_ends(3,1)] by auto
qed

lemma accounts_reachable_ok: "accounts_reachable a \<Longrightarrow> accounts_ok a"
proof (induction rule: accounts_reachable.induct)
  case no_requests
  show ?case by (simp add: accounts_ok_def)
next
  case (one_more a b)
  then show ?case using account_step_ok by blast
qed

lemma request_ok_facts:
  assumes ok: "accounts_ok a" and st: "map_of (ac_requests a) r = Some st"
  shows "0 \<le> rs_pending_raw st" "0 \<le> rs_processing_raw st" "0 \<le> rs_processed_raw st"
    and "map_of (ac_totals a) r = Some (rs_pending_raw st + rs_processing_raw st + rs_processed_raw st)"
    and "ac_open a = [] \<Longrightarrow> rs_processing_raw st = 0 \<and> rs_processing_optimized st = 0"
proof -
  note d = request_okD [OF accounts_okD(5) [OF ok st]]
  show "0 \<le> rs_pending_raw st" using d(7) nodes_of_nonneg [of r "ac_waiting a"] by simp
  show "0 \<le> rs_processed_raw st" by (rule d(5))
  show "map_of (ac_totals a) r = Some (rs_pending_raw st + rs_processing_raw st + rs_processed_raw st)" by (rule d(8))
  have "0 \<le> sum_of nc_raw (rs_batch_node_counts st)"
    unfolding sum_of_def
  proof (rule sum_list_nonneg)
    fix n assume "n \<in> set (map nc_raw (dict_values (rs_batch_node_counts st)))"
    then obtain i c where c: "(i, c) \<in> set (rs_batch_node_counts st)" "n = nc_raw c" by auto
    have "0 \<le> nc_raw c"
      by (rule counts_nonneg(1) [OF accounts_okD(5) [OF ok st] map_of_is_SomeI [OF d(1) c(1)]])
        (use accounts_okD(4) [OF ok] in blast)
    then show "0 \<le> n" using c(2) by simp
  qed
  then show "0 \<le> rs_processing_raw st" by (simp add: d(3))
  show "rs_processing_raw st = 0 \<and> rs_processing_optimized st = 0" if "ac_open a = []"
  proof -
    have "map_of (rs_batch_node_counts st) bid = None" for bid using d(2) [of bid] that by simp
    then have "rs_batch_node_counts st = []" by (cases "rs_batch_node_counts st") (fastforce split: if_splits)+
    then show ?thesis by (simp add: d(3,4) sum_of_def)
  qed
qed

lemma counters_keep_up:
  assumes "accounts_reachable a"
  shows "mset (ac_waiting a) = mset ws + mset rest \<Longrightarrow> bid \<notin> set (dict_keys (ac_open a)) \<Longrightarrow>
      fst (begin_batch bid (request_raw_nodes (active_workflows cancelled ws)) (ac_requests a)) = Inr ()"
    and "map_of (ac_open a) bid = Some (rows, False) \<Longrightarrow> 0 \<le> n \<Longrightarrow> fst (optimize_batch bid n rows (ac_requests a)) = Inr ()"
    and "map_of (ac_open a) bid = Some (rows, opt) \<Longrightarrow>
      \<exists>rs. close_batch bid rows workers b (ac_requests a, srv) = (Inr (), (rs, release_batch workers b srv))"
    and "map_of (ac_requests a) r = Some st \<Longrightarrow>
      0 \<le> rs_pending_raw st \<and> 0 \<le> rs_processing_raw st \<and> 0 \<le> rs_processed_raw st \<and>
      map_of (ac_totals a) r = Some (rs_pending_raw st + rs_processing_raw st + rs_processed_raw st) \<and>
      (ac_open a = [] \<longrightarrow> rs_processing_raw st = 0 \<and> rs_processing_optimized st = 0)"
proof -
  note ok = accounts_reachable_ok [OF assms]
  show "fst (begin_batch bid (request_raw_nodes (active_workflows cancelled ws)) (ac_requests a)) = Inr ()"
    if "mset (ac_waiting a) = mset ws + mset rest" "bid \<notin> set (dict_keys (ac_open a))"
    using begin_ok [OF ok that, of cancelled] by auto
  show "fst (optimize_batch bid n rows (ac_requests a)) = Inr ()"
    if "map_of (ac_open a) bid = Some (rows, False)" "0 \<le> n" using optimize_ok [OF ok that] by auto
  show "\<exists>rs. close_batch bid rows workers b (ac_requests a, srv) = (Inr (), (rs, release_batch workers b srv))"
    if "map_of (ac_open a) bid = Some (rows, opt)" using end_ok [OF ok that] by (auto simp: close_batch_def)
  show "0 \<le> rs_pending_raw st \<and> 0 \<le> rs_processing_raw st \<and> 0 \<le> rs_processed_raw st \<and>
      map_of (ac_totals a) r = Some (rs_pending_raw st + rs_processing_raw st + rs_processed_raw st) \<and>
      (ac_open a = [] \<longrightarrow> rs_processing_raw st = 0 \<and> rs_processing_optimized st = 0)"
    if "map_of (ac_requests a) r = Some st" using request_ok_facts [OF ok that] by blast
qed

text \<open>
  C20: However requests arrive and batches begin, are optimised and end, the node counters never
  underflow: none of the three bookkeeping steps raises, so the end of a batch always gives its
  workers back. Of every known request, the nodes it came with are pending, being processed or
  processed, none of them negative, and nothing counts as being processed once no batch is open.
\<close>

theorem counters_never_underflow:
  assumes "accounts_reachable a"
  shows "(\<forall>ws rest bid cancelled. mset (ac_waiting a) = mset ws + mset rest \<longrightarrow> bid \<notin> set (dict_keys (ac_open a)) \<longrightarrow>
      fst (begin_batch bid (request_raw_nodes (active_workflows cancelled ws)) (ac_requests a)) = Inr ()) \<and>
    (\<forall>bid rows n. map_of (ac_open a) bid = Some (rows, False) \<longrightarrow> 0 \<le> n \<longrightarrow> fst (optimize_batch bid n rows (ac_requests a)) = Inr ()) \<and>
    (\<forall>bid rows opt. map_of (ac_open a) bid = Some (rows, opt) \<longrightarrow>
      (\<exists>rs. close_batch bid rows workers b (ac_requests a, srv) = (Inr (), (rs, release_batch workers b srv)))) \<and>
    (\<forall>r st. map_of (ac_requests a) r = Some st \<longrightarrow>
      0 \<le> rs_pending_raw st \<and> 0 \<le> rs_processing_raw st \<and> 0 \<le> rs_processed_raw st \<and>
      map_of (ac_totals a) r = Some (rs_pending_raw st + rs_processing_raw st + rs_processed_raw st) \<and>
      (ac_open a = [] \<longrightarrow> rs_processing_raw st = 0 \<and> rs_processing_optimized st = 0))"
  by (intro conjI allI impI; (rule counters_keep_up [OF assms]; assumption)?)
    (use counters_keep_up(4) [OF assms] in blast)+

text \<open>One request whose only workflow is in an open batch.\<close>

definition account_example_items :: "unit workflow_item list" where
  "account_example_items = (case enqueue show_nat 5 (example_job ''u'') (new_job_manager (\<lambda>_. 5) 3 ''default'') of
     Inr (items, _) \<Rightarrow> items | Inl _ \<Rightarrow> [])"

definition account_example_request :: "requests" where
  "account_example_request = fst (snd (handle_request show_nat 5 (example_job ''u'') ([], new_job_manager (\<lambda>_. 5) 3 ''default'')))"

definition account_example :: "unit accounts" where
  "account_example = \<lparr>ac_requests = account_example_request, ac_waiting = account_example_items, ac_open = [], ac_totals = [(''r'', 1)]\<rparr>"

lemma account_example_arrives:
  obtains jm where "handle_request show_nat 5 (example_job ''u'') ([], new_job_manager (\<lambda>_. 5) 3 ''default'') =
      (Inr account_example_items, (account_example_request, jm))"
proof -
  have "case handle_request show_nat 5 (example_job ''u'') ([], new_job_manager (\<lambda>_. 5) 3 ''default'') of
      (Inr items, _) \<Rightarrow> items = account_example_items | _ \<Rightarrow> False" by code_simp
  then show ?thesis
    using that by (auto simp: account_example_request_def split: prod.splits sum.splits)
qed

lemma account_example_reachable: "accounts_reachable account_example"
proof (rule account_example_arrives)
  fix jm :: "unit job_manager"
  assume run: "handle_request show_nat 5 (example_job ''u'') ([], new_job_manager (\<lambda>_. 5) 3 ''default'') =
      (Inr account_example_items, (account_example_request, jm))"
  have items: "account_example_items \<noteq> []" "nodes_of ''r'' account_example_items = 1" "jb_request_id (example_job ''u'') = ''r''"
    by code_simp+
  let ?a = "\<lparr>ac_requests = [], ac_waiting = [], ac_open = [], ac_totals = []\<rparr> :: unit accounts"
  have "account_step ?a account_example"
    using account_step.request_arrives [of show_nat 5 "example_job ''u''" ?a, OF _ items(1)] run items
    by (simp add: account_example_def)
  with accounts_reachable.no_requests show ?thesis by (rule accounts_reachable.one_more)
qed

theorem counters_never_underflow_witness:
  "fst (begin_batch ''b'' (request_raw_nodes (active_workflows [] account_example_items)) (ac_requests account_example)) = Inr () \<and>
   request_raw_nodes (active_workflows [] account_example_items) = [(''r'', 1)] \<and>
   (\<exists>st. map_of (ac_requests account_example) ''r'' = Some st \<and> rs_pending_raw st + rs_processing_raw st + rs_processed_raw st = 1)"
proof -
  have wait: "mset (ac_waiting account_example) = mset account_example_items + mset []" "''b'' \<notin> set (dict_keys (ac_open account_example))"
    by (simp_all add: account_example_def)
  have known: "map_of (ac_requests account_example) ''r'' \<noteq> None" by code_simp
  then obtain st where st: "map_of (ac_requests account_example) ''r'' = Some st" by auto
  have "map_of (ac_totals account_example) ''r'' = Some 1" by (simp add: account_example_def)
  then have "rs_pending_raw st + rs_processing_raw st + rs_processed_raw st = 1"
  proof -
    have "map_of (ac_totals account_example) ''r'' = Some (rs_pending_raw st + rs_processing_raw st + rs_processed_raw st)"
      using counters_never_underflow [OF account_example_reachable, where ?'b = unit] st by blast
    with \<open>map_of (ac_totals account_example) ''r'' = Some 1\<close> show ?thesis by simp
  qed
  moreover have "request_raw_nodes (active_workflows [] account_example_items) = [(''r'', 1)]" by code_simp
  ultimately show ?thesis
    using counters_never_underflow [OF account_example_reachable] wait st by blast
qed

section \<open>Shares of the scheduling time\<close>

definition update_request :: "(request_state \<Rightarrow> request_state) \<Rightarrow> string \<Rightarrow> requests \<Rightarrow> requests" where
  "update_request f r rs = (case map_of rs r of None \<Rightarrow> rs | Some st \<Rightarrow> AList.update r (f st) rs)"

definition record_job_manager_time :: "string list \<Rightarrow> rat \<Rightarrow> rat \<Rightarrow> requests \<Rightarrow> requests" where
  "record_job_manager_time members selection clustering rs =
     (if members = [] \<or> selection \<le> 0 \<and> clustering \<le> 0 then rs
      else let n = of_nat (length members) in
        fold (update_request (\<lambda>st. st\<lparr>rs_selection_seconds := rs_selection_seconds st + max 0 selection / n,
            rs_clustering_seconds := rs_clustering_seconds st + max 0 clustering / n\<rparr>)) members rs)"

text \<open>By optimised nodes, or equally when none was counted.\<close>

definition time_share :: "string list \<Rightarrow> (string, int) dict \<Rightarrow> rat \<Rightarrow> string \<Rightarrow> rat" where
  "time_share members optimized elapsed r =
     (let tot = sum_list (map (\<lambda>r. max 0 (dict_get optimized r 0)) members)
      in if tot \<le> 0 then elapsed / of_nat (length members)
         else elapsed * of_int (max 0 (dict_get optimized r 0)) / of_int tot)"

definition record_optimizer_time :: "string list \<Rightarrow> (string, int) dict \<Rightarrow> rat \<Rightarrow> requests \<Rightarrow> requests" where
  "record_optimizer_time members optimized elapsed rs =
     (if elapsed \<le> 0 \<or> members = [] then rs
      else fold (\<lambda>r. update_request (\<lambda>st. st\<lparr>rs_optimization_seconds :=
          rs_optimization_seconds st + time_share members optimized elapsed r\<rparr>) r) members rs)"

lemma map_of_update_request:
  "map_of (update_request f r rs) q = (if q = r then map_option f (map_of rs r) else map_of rs q)"
  by (auto simp: update_request_def map_of_update split: option.split)

lemma map_of_fold_update_request:
  "distinct ms \<Longrightarrow> map_of (fold (\<lambda>r. update_request (f r) r) ms rs) q =
     (if q \<in> set ms then map_option (f q) (map_of rs q) else map_of rs q)"
  by (induction ms arbitrary: rs) (auto simp: map_of_update_request)

lemma time_shares_sum:
  assumes "members \<noteq> []"
  shows "sum_list (map (time_share members optimized elapsed) members) = elapsed"
proof -
  let ?n = "\<lambda>r. max 0 (dict_get optimized r 0)"
  let ?t = "sum_list (map ?n members)"
  show ?thesis
  proof (cases "?t \<le> 0")
    case True
    have "sum_list (map (\<lambda>_. c) ms) = of_nat (length ms) * c" for ms :: "string list" and c :: rat
      by (induction ms) (simp_all add: algebra_simps)
    from this [where ms = members and c = "elapsed / of_nat (length members)"] show ?thesis using True assms by (simp add: time_share_def [abs_def] Let_def)
  next
    case False
    have "sum_list (map (\<lambda>r. elapsed * of_int (?n r) / of_int ?t) ms) = elapsed * of_int (sum_list (map ?n ms)) / of_int ?t" for ms
      by (induction ms) (simp_all add: add_divide_distrib algebra_simps)
    from this [of members] show ?thesis using False by (simp add: time_share_def [abs_def] Let_def)
  qed
qed

text \<open>The scheduling time of a batch is shared out completely.\<close>

lemma optimizer_time_shared:
  assumes "distinct members" and "members \<noteq> []" and "0 < elapsed" and "\<And>r. r \<in> set members \<Longrightarrow> \<exists>st. map_of rs r = Some st"
  shows "sum_list (map (\<lambda>r. rs_optimization_seconds (the (map_of (record_optimizer_time members optimized elapsed rs) r))) members) =
    sum_list (map (\<lambda>r. rs_optimization_seconds (the (map_of rs r))) members) + elapsed"
proof -
  have each: "rs_optimization_seconds (the (map_of (record_optimizer_time members optimized elapsed rs) r)) =
      rs_optimization_seconds (the (map_of rs r)) + time_share members optimized elapsed r" if "r \<in> set members" for r
    using assms(1-3) assms(4) [OF that] that
    by (auto simp: record_optimizer_time_def map_of_fold_update_request)
  have "map (\<lambda>r. rs_optimization_seconds (the (map_of (record_optimizer_time members optimized elapsed rs) r))) members =
      map (\<lambda>r. rs_optimization_seconds (the (map_of rs r)) + time_share members optimized elapsed r) members"
    by (rule map_cong [OF refl each])
  from arg_cong [OF this, of sum_list] show ?thesis
    unfolding sum_list_addf time_shares_sum [OF assms(2)] .
qed

section \<open>Cancelling a request that shares executions\<close>

text \<open>
  Which requests an execution works for, and the other way round; the history is kept when the
  execution has ended.
\<close>

record tracking =
  tk_contexts :: "(string, string list) dict"
  tk_ids :: "(string, string list) dict"
  tk_history :: "(string, string list) dict"

definition note_execution :: "string \<Rightarrow> string \<Rightarrow> (string, string list) dict \<Rightarrow> (string, string list) dict" where
  "note_execution e r d = AList.update r (set_add e (dict_get d r [])) d"

definition start_execution :: "string \<Rightarrow> string list \<Rightarrow> tracking \<Rightarrow> tracking" where
  "start_execution e members tk =
     tk\<lparr>tk_contexts := AList.update e members (tk_contexts tk),
        tk_ids := fold (note_execution e) members (tk_ids tk), tk_history := fold (note_execution e) members (tk_history tk)\<rparr>"

definition forget_execution :: "string \<Rightarrow> string \<Rightarrow> (string, string list) dict \<Rightarrow> (string, string list) dict" where
  "forget_execution e r d =
     (case map_of d r of
        None \<Rightarrow> d
      | Some es \<Rightarrow> (let es' = filter (\<lambda>x. x \<noteq> e) es in if es' = [] then AList.delete r d else AList.update r es' d))"

definition cleanup_execution_tracking :: "string \<Rightarrow> string list \<Rightarrow> tracking \<Rightarrow> tracking" where
  "cleanup_execution_tracking e members tk =
     tk\<lparr>tk_contexts := AList.delete e (tk_contexts tk), tk_ids := fold (forget_execution e) members (tk_ids tk)\<rparr>"

definition should_cancel_execution :: "string \<Rightarrow> string list \<Rightarrow> flow_manager \<Rightarrow> bool \<times> flow_manager" where
  "should_cancel_execution e members m =
     (if e \<in> set (fm_cancelled m) then (True, m)
      else if length (filter (\<lambda>r. r \<in> set (fm_cancelled m)) members) < length members then (False, m)
      else (True, snd (cancel_request e m)))"

definition server_cancel_request :: "tracking \<Rightarrow> string \<Rightarrow> flow_manager \<Rightarrow> flow_manager" where
  "server_cancel_request tk r m =
     fold (\<lambda>e m. case map_of (tk_contexts tk) e of None \<Rightarrow> m | Some members \<Rightarrow> snd (should_cancel_execution e members m))
       (dict_get (tk_ids tk) r []) (snd (cancel_request r m))"

definition trace_ids_for_request :: "tracking \<Rightarrow> flow_manager \<Rightarrow> string \<Rightarrow> string list" where
  "trace_ids_for_request tk m r =
     dedupe_into [] (map snd (filter (\<lambda>(key, _). fst key \<in> set (dict_get (tk_ids tk) r []) \<union> set (dict_get (tk_history tk) r []))
       (fm_workflow_id m)))"

text \<open>The two tables agree, and execution ids are not request ids.\<close>

definition tracks :: "tracking \<Rightarrow> bool" where
  "tracks tk \<longleftrightarrow>
     (\<forall>e r. e \<in> set (dict_get (tk_ids tk) r []) \<longleftrightarrow> (\<exists>members. map_of (tk_contexts tk) e = Some members \<and> r \<in> set members)) \<and>
     (\<forall>e members. map_of (tk_contexts tk) e = Some members \<longrightarrow> (\<forall>r \<in> set members. map_of (tk_contexts tk) r = None))"

definition cancelled_together :: "tracking \<Rightarrow> flow_manager \<Rightarrow> bool" where
  "cancelled_together tk m \<longleftrightarrow>
     (\<forall>e members. map_of (tk_contexts tk) e = Some members \<longrightarrow>
        (e \<in> set (fm_cancelled m) \<longleftrightarrow> set members \<subseteq> set (fm_cancelled m)))"

lemma cancelled_after: "set (fm_cancelled (snd (cancel_request r m))) = insert r (set (fm_cancelled m))"
  by (simp add: cancel_request_def)

lemma should_cancel_set:
  "set (fm_cancelled (snd (should_cancel_execution e members m))) =
     (if set members \<subseteq> set (fm_cancelled m) then insert e (set (fm_cancelled m)) else set (fm_cancelled m))"
  "fst (should_cancel_execution e members m) \<longleftrightarrow> e \<in> set (fm_cancelled m) \<or> set members \<subseteq> set (fm_cancelled m)"
proof -
  have "length (filter (\<lambda>r. r \<in> C) members) < length members \<longleftrightarrow> \<not> set members \<subseteq> C" for C :: "string set"
    by (metis (no_types, lifting) filter_True length_filter_less linorder_neq_iff subset_eq)
  then show "set (fm_cancelled (snd (should_cancel_execution e members m))) =
     (if set members \<subseteq> set (fm_cancelled m) then insert e (set (fm_cancelled m)) else set (fm_cancelled m))"
    "fst (should_cancel_execution e members m) \<longleftrightarrow> e \<in> set (fm_cancelled m) \<or> set members \<subseteq> set (fm_cancelled m)"
    by (auto simp: should_cancel_execution_def cancelled_after)
qed

lemma cancel_executions:
  assumes "tracks tk"
  shows "set (fm_cancelled (fold (\<lambda>e m. case map_of (tk_contexts tk) e of None \<Rightarrow> m | Some members \<Rightarrow> snd (should_cancel_execution e members m)) es m)) =
    set (fm_cancelled m) \<union> {e \<in> set es. \<exists>members. map_of (tk_contexts tk) e = Some members \<and> set members \<subseteq> set (fm_cancelled m)}"
proof (induction es arbitrary: m)
  case (Cons e es)
  show ?case
  proof (cases "map_of (tk_contexts tk) e")
    case None
    then show ?thesis using Cons [of m] by auto
  next
    case (Some members)
    let ?m = "snd (should_cancel_execution e members m)"
    have same: "set ms \<subseteq> set (fm_cancelled ?m) \<longleftrightarrow> set ms \<subseteq> set (fm_cancelled m)" if "map_of (tk_contexts tk) f = Some ms" for f ms
    proof -
      have "e \<notin> set ms" using assms that Some unfolding tracks_def by fastforce
      then show ?thesis by (auto simp: should_cancel_set)
    qed
    then have "{f \<in> set es. \<exists>ms. map_of (tk_contexts tk) f = Some ms \<and> set ms \<subseteq> set (fm_cancelled ?m)} =
        {f \<in> set es. \<exists>ms. map_of (tk_contexts tk) f = Some ms \<and> set ms \<subseteq> set (fm_cancelled m)}" by blast
    then show ?thesis using Cons [of ?m] Some by (auto simp: should_cancel_set)
  qed
qed simp

lemma server_cancel_step:
  assumes ok: "tracks tk" and together: "cancelled_together tk m" and r: "map_of (tk_contexts tk) r = None"
  shows "cancelled_together tk (server_cancel_request tk r m)"
    and "map_of (tk_contexts tk) q = None \<Longrightarrow>
      q \<in> set (fm_cancelled (server_cancel_request tk r m)) \<longleftrightarrow> q = r \<or> q \<in> set (fm_cancelled m)"
proof -
  let ?C = "insert r (set (fm_cancelled m))"
  have set: "set (fm_cancelled (server_cancel_request tk r m)) =
      ?C \<union> {e \<in> set (dict_get (tk_ids tk) r []). \<exists>members. map_of (tk_contexts tk) e = Some members \<and> set members \<subseteq> ?C}"
    unfolding server_cancel_request_def cancel_executions [OF ok] cancelled_after by (rule refl)
  show requests: "q \<in> set (fm_cancelled (server_cancel_request tk r m)) \<longleftrightarrow> q = r \<or> q \<in> set (fm_cancelled m)"
    if "map_of (tk_contexts tk) q = None" for q
    using that by (auto simp: set)
  show "cancelled_together tk (server_cancel_request tk r m)"
    unfolding cancelled_together_def
  proof (intro allI impI)
    fix e members assume e: "map_of (tk_contexts tk) e = Some members"
    have req: "map_of (tk_contexts tk) q = None" if "q \<in> set members" for q using ok e that unfolding tracks_def by blast
    have sub: "set members \<subseteq> set (fm_cancelled (server_cancel_request tk r m)) \<longleftrightarrow> set members \<subseteq> ?C"
      using requests [OF req] by blast
    have mine: "e \<in> set (dict_get (tk_ids tk) r []) \<longleftrightarrow> r \<in> set members" using ok e unfolding tracks_def by auto
    have "e \<noteq> r" using e r by auto
    then show "e \<in> set (fm_cancelled (server_cancel_request tk r m)) \<longleftrightarrow>
        set members \<subseteq> set (fm_cancelled (server_cancel_request tk r m))"
      using together e mine unfolding sub cancelled_together_def by (auto simp: set)
  qed
qed

text \<open>
  C21: An execution that several requests share is cancelled by their cancellations exactly when the
  last of them is cancelled, in whatever order they come: as long as one member is not cancelled,
  its work goes on.
\<close>

theorem shared_execution_cancelled:
  assumes "tracks tk" and "cancelled_together tk m" and "\<forall>r \<in> set rids. map_of (tk_contexts tk) r = None"
    and "map_of (tk_contexts tk) e = Some members"
  shows "e \<in> set (fm_cancelled (fold (server_cancel_request tk) rids m)) \<longleftrightarrow>
    (\<forall>r \<in> set members. r \<in> set rids \<or> r \<in> set (fm_cancelled m))"
proof -
  have "cancelled_together tk (fold (server_cancel_request tk) rids m) \<and>
      (\<forall>q. map_of (tk_contexts tk) q = None \<longrightarrow>
        (q \<in> set (fm_cancelled (fold (server_cancel_request tk) rids m)) \<longleftrightarrow> q \<in> set rids \<or> q \<in> set (fm_cancelled m)))"
    using assms(2,3)
  proof (induction rids arbitrary: m)
    case (Cons r rids)
    have r: "map_of (tk_contexts tk) r = None" using Cons.prems(2) by simp
    note s = server_cancel_step [OF assms(1) Cons.prems(1) r]
    show ?case using Cons.IH [OF s(1)] Cons.prems(2) s(2) by auto
  qed simp
  moreover have "map_of (tk_contexts tk) q = None" if "q \<in> set members" for q using assms(1,4) that unfolding tracks_def by blast
  ultimately show ?thesis using assms(4) unfolding cancelled_together_def by blast
qed

theorem shared_execution_cancelled_witness:
  "let tk = start_execution ''exec'' [''a'', ''b''] \<lparr>tk_contexts = [], tk_ids = [], tk_history = []\<rparr>
   in ''exec'' \<notin> set (fm_cancelled (fold (server_cancel_request tk) [''b''] new_manager)) \<and>
      ''exec'' \<in> set (fm_cancelled (fold (server_cancel_request tk) [''b'', ''a''] new_manager))"
proof -
  let ?tk = "start_execution ''exec'' [''a'', ''b''] \<lparr>tk_contexts = [], tk_ids = [], tk_history = []\<rparr>"
  have tk: "tk_contexts ?tk = [(''exec'', [''a'', ''b''])]" "tk_ids ?tk = [(''a'', [''exec'']), (''b'', [''exec''])]" by code_simp+
  have ok: "tracks ?tk" unfolding tracks_def tk by (auto simp: dict_get_def)
  have together: "cancelled_together ?tk new_manager" unfolding cancelled_together_def tk by (simp add: new_manager_def)
  show ?thesis
    using shared_execution_cancelled [OF ok together, of "[''b'']" "''exec''" "[''a'', ''b'']"]
      shared_execution_cancelled [OF ok together, of "[''b'', ''a'']" "''exec''" "[''a'', ''b'']"]
    unfolding tk by (simp add: new_manager_def)
qed

end
