(* ===== verification/Builder.thy ===== *)
theory Builder
  imports Dsl
begin

text \<open>
  From a compiled DSL graph to a runtime graph (\<open>RuntimeGraphBuilder\<close> of
  \<open>runtime/runtime_graph.py\<close>): which model ops feed a model op and how its prompt is put together
  from columns, steps and messages; the runtime nodes of the chat, vision, embedding, image and
  retrieval ops; and \<open>build\<close>, which checks that no op of the graph is left over. The text that
  Python's \<open>str\<close> gives for a value (\<open>render\<close>) and the digest of a name are parameters.
\<close>

section \<open>Settings\<close>

type_synonym input_values = "(string, string list) dict"

text \<open>The variables of \<open>envs\<close> that are read.\<close>

record builder_env =
  be_num_batched_tokens :: int
  be_cudagraph_size :: int
  be_gpu_memory :: rat
  be_model_len :: int
  be_output_destination :: string
  be_data_url :: string
  be_worker_url :: string
  be_data_token :: string

definition default_output_destination :: "builder_env \<Rightarrow> spec" where
  "default_output_destination env =
     (if be_output_destination env = ''http'' then [(''type'', PStr ''http''), (''timeoutSec'', PInt 3600)]
      else [(''type'', PStr ''local'')])"

definition prefix_char :: "char \<Rightarrow> bool" where
  "prefix_char c \<longleftrightarrow> is_alnum c \<or> c = CHR ''_'' \<or> c = CHR ''-''"

definition sanitize_node_prefix :: "string \<Rightarrow> string" where
  "sanitize_node_prefix p = (let safe = strip_chars ''_'' (collapse_runs prefix_char False p) in if safe = [] then ''graph'' else safe)"

text \<open>\<open>digest\<close> is the first eight hexadecimal digits of the SHA-256 of the name.\<close>

definition make_node_prefix :: "(string \<Rightarrow> string) \<Rightarrow> string \<Rightarrow> string" where
  "make_node_prefix digest n = sanitize_node_prefix n @ ''_'' @ digest n"

section \<open>Values of any type\<close>

text \<open>\<open>for x in v or []\<close>: strings and dicts can be iterated over as well.\<close>

definition iterate :: "pyval \<Rightarrow> pyval list result" where
  "iterate v =
     (if \<not> py_truthy v then Inr []
      else case v of
          PList xs \<Rightarrow> Inr xs
        | PTuple xs \<Rightarrow> Inr xs
        | PStr s \<Rightarrow> Inr (map (\<lambda>c. PStr [c]) s)
        | PDict d \<Rightarrow> Inr (map (\<lambda>(k, _). PStr k) d)
        | _ \<Rightarrow> Inl (TypeError ''not iterable''))"

text \<open>\<open>v or {}\<close>, whose \<open>get\<close> then fails on anything but a dict.\<close>

definition dict_or_empty :: "pyval \<Rightarrow> spec result" where
  "dict_or_empty v = (if py_truthy v then as_dict v else Inr [])"

definition update_all :: "spec \<Rightarrow> spec \<Rightarrow> spec" where
  "update_all d e = foldl (\<lambda>d (k, v). AList.update k v d) d e"

definition or_spec :: "spec option \<Rightarrow> spec \<Rightarrow> spec" where
  "or_spec c dflt = (case c of None \<Rightarrow> dflt | Some s \<Rightarrow> if s = [] then dflt else s)"

section \<open>The parts every runtime op has\<close>

definition default_vllm_config :: "builder_env \<Rightarrow> bool \<Rightarrow> spec" where
  "default_vllm_config env enable_mm_embeds =
     [(''max_num_batched_tokens'', PInt (be_num_batched_tokens env)), (''max_cudagraph_capture_size'', PInt (be_cudagraph_size env)),
      (''gpu_memory_utilization'', PFloat (be_gpu_memory env)), (''trust_remote_code'', PBool True),
      (''env_vars'', PDict [(''VLLM_ATTENTION_BACKEND'', PStr ''FLASHINFER'')])] @
     (if be_model_len env > 0 then [(''max_model_len'', PInt (be_model_len env))] else []) @
     (if enable_mm_embeds then [(''enable_mm_embeds'', PBool True), (''limit_mm_per_prompt'', PDict [(''image'', PInt 1)])] else [])"

definition config_model :: "spec \<Rightarrow> pyval" where
  "config_model config = dict_get config ''model'' PNone"

definition model_source :: "spec \<Rightarrow> spec" where
  "model_source config =
     [(''source'', PDict [(''type'', PStr ''huggingface''), (''identifier'', config_model config), (''revision'', PStr ''main'')])]"

definition build_model_spec :: "builder_env \<Rightarrow> spec \<Rightarrow> string \<Rightarrow> spec option \<Rightarrow> spec result" where
  "build_model_spec env config backend backend_config =
     ebind (engine_overlay config) (\<lambda>overlay.
       let base = model_source config
       in if backend = ''vllm''
          then Inr (base @ [(''vllm'', PDict (update_all (or_spec backend_config (default_vllm_config env False)) overlay))])
          else if backend = ''transformers''
          then Inr (base @ [(''transformers'', PDict (or_spec backend_config
                 [(''mode'', PStr ''visual-embedding''), (''device_map'', PStr ''auto''), (''trust_remote_code'', PBool True)]))])
          else if backend = ''diffusers''
          then if list_ex (\<lambda>n. dict_get config n PNone \<noteq> PNone) [''max_model_len'', ''gpu_memory_utilization'', ''tensor_parallel_size'']
            then Inl (ValueError ''diffusers backend does not accept typed engine fields'')
            else Inr (base @ [(''diffusers'', PDict (update_all (or_spec backend_config
                   [(''dtype'', PStr ''bf16''), (''use_safetensors'', PBool True)]) overlay))])
          else Inr base)"

definition build_output_spec :: "builder_env \<Rightarrow> string list \<Rightarrow> spec" where
  "build_output_spec env artifacts =
     [(''destination'', PDict (default_output_destination env)),
      (''artifacts'', pstrs (if artifacts = [] then [''results.json'', ''logs''] else artifacts))]"

definition is_s3_item :: "pyval \<Rightarrow> bool" where
  "is_s3_item v \<longleftrightarrow> (case v of PStr s \<Rightarrow> starts_with ''s3://'' s | _ \<Rightarrow> False)"

definition worker_url :: "builder_env \<Rightarrow> string" where
  "worker_url env = (if be_worker_url env = [] then be_data_url env else be_worker_url env)"

definition attach_lumid_cfg :: "builder_env \<Rightarrow> spec \<Rightarrow> spec result" where
  "attach_lumid_cfg env data =
     (if dict_get data ''type'' PNone \<noteq> PStr ''list'' \<or> ''lumid_cfg'' \<in> set (dict_keys data) then Inr data
      else case dict_get data ''items'' PNone of
          PList items \<Rightarrow>
            if \<not> list_ex is_s3_item items then Inr data
            else if be_data_url env = [] then Inl (ValueError ''LUMID_DATA_URL is required'')
            else if be_data_token env = [] then Inl (ValueError ''LUMID_DATA_TOKEN is required'')
            else Inr (AList.update ''lumid_cfg''
              (PDict [(''lumid_data_url'', PStr (worker_url env)), (''lumid_data_token'', PStr (be_data_token env)), (''encoding'', PStr ''utf-8'')]) data)
        | _ \<Rightarrow> Inr data)"

text \<open>A model name or a condition of another type than its annotation is a \<open>TypeError\<close> here.\<close>

definition as_condition :: "pyval \<Rightarrow> (string, string) dict option result" where
  "as_condition v =
     (case v of
        PNone \<Rightarrow> Inr None
      | PDict d \<Rightarrow> ebind (emap (\<lambda>(k, v). ebind (as_str v) (\<lambda>s. Inr (k, s))) d) (\<lambda>c. Inr (Some c))
      | _ \<Rightarrow> Inl (TypeError ''condition is not a dict''))"

definition create_runtime_op ::
  "builder_env \<Rightarrow> string \<Rightarrow> string \<Rightarrow> spec \<Rightarrow> spec \<Rightarrow> spec \<Rightarrow> string \<Rightarrow> pyval \<Rightarrow> string list \<Rightarrow> spec option \<Rightarrow> pyval \<Rightarrow> runtime_op result" where
  "create_runtime_op env nid task_type data model_spec inference backend model deps output condition =
     ebind (attach_lumid_cfg env data) (\<lambda>data.
     ebind (as_str model) (\<lambda>m.
     ebind (as_condition condition) (\<lambda>c.
       Inr \<lparr>op_node_id = nid, op_task_type = task_type, op_backend = backend, op_model = m, op_data_spec = data,
         op_model_spec = model_spec, op_inference_spec = inference, op_dependencies = deps, op_output_spec = output,
         op_condition = c\<rparr>)))"

section \<open>Prompts\<close>

text \<open>
  A message is a role, if it has one, with the label of a column or step or a literal text
  (\<open>str | tuple[Roles, str]\<close>). A step is its template or code, its arguments, and whether it is code.
\<close>

type_synonym packed = "string option \<times> string"

record trace_state =
  tr_visited :: "string list"
  tr_upstream :: "string list"
  tr_columns :: "(string, spec) dict"
  tr_steps :: "(string, string \<times> pyval list \<times> bool) dict"
  tr_buffer :: "(string, packed list) dict"

text \<open>\<open>Roles(role)\<close>.\<close>

definition message_role :: "string \<Rightarrow> string result" where
  "message_role s = (if s \<in> {''system'', ''user'', ''assistant''} then Inr s else Inl (ValueError ''not a valid role''))"

definition mark_visited :: "string \<Rightarrow> trace_state \<Rightarrow> trace_state" where
  "mark_visited i st = st\<lparr>tr_visited := set_add i (tr_visited st)\<rparr>"

definition set_column :: "string \<Rightarrow> spec \<Rightarrow> trace_state \<Rightarrow> trace_state" where
  "set_column l c st = st\<lparr>tr_columns := AList.update l c (tr_columns st)\<rparr>"

definition add_column :: "string \<Rightarrow> spec \<Rightarrow> trace_state \<Rightarrow> trace_state" where
  "add_column l c st = (if l \<in> set (dict_keys (tr_columns st)) then st else set_column l c st)"

definition set_step :: "string \<Rightarrow> string \<Rightarrow> pyval list \<Rightarrow> bool \<Rightarrow> trace_state \<Rightarrow> trace_state" where
  "set_step l s args is_function st = st\<lparr>tr_steps := AList.update l (s, args, is_function) (tr_steps st)\<rparr>"

definition remember :: "string \<Rightarrow> packed list \<Rightarrow> trace_state \<Rightarrow> trace_state" where
  "remember i ms st = st\<lparr>tr_buffer := AList.update i ms (tr_buffer st)\<rparr>"

text \<open>A loop that threads a state and collects values.\<close>

fun smap :: "('a \<Rightarrow> 's \<Rightarrow> ('b \<times> 's) result) \<Rightarrow> 'a list \<Rightarrow> 's \<Rightarrow> ('b list \<times> 's) result" where
  "smap f [] s = Inr ([], s)"
| "smap f (x # xs) s = ebind (f x s) (\<lambda>(y, s). ebind (smap f xs s) (\<lambda>(ys, s). Inr (y # ys, s)))"

definition node_column :: "string \<Rightarrow> string \<Rightarrow> spec" where
  "node_column i path = [(''node'', PStr i), (''path'', PStr path)]"

definition list_column :: "pyval \<Rightarrow> spec" where
  "list_column items = [(''data'', PDict [(''type'', PStr ''list''), (''items'', items)])]"

definition returns_history :: "op_body \<Rightarrow> bool" where
  "returns_history b = (case chat_of b of None \<Rightarrow> False | Some c \<Rightarrow> py_truthy (ch_return_history c))"

definition trace_llm :: "string \<Rightarrow> op_body \<Rightarrow> trace_state \<Rightarrow> trace_state" where
  "trace_llm i b st =
     (let st' =
        (if i \<in> set (tr_upstream st) then st
         else set_column (i @ ''_output'') (node_column i ''items.output'')
           ((if returns_history b then set_column (i @ ''_context'') (node_column i ''items.metadata.prompt'') else id)
             (st\<lparr>tr_upstream := tr_upstream st @ [i]\<rparr>)))
      in remember i ((if returns_history b then [(None, i @ ''_context'')] else []) @ [(Some ''assistant'', i @ ''_output'')]) st')"

definition retrieval_path :: "pyval \<Rightarrow> string" where
  "retrieval_path mode =
     (if mode = PStr ''sql'' then ''items.table'' else if mode = PStr ''s3'' then ''items.content'' else ''items.output'')"

definition trace_retrieval :: "string \<Rightarrow> pyval \<Rightarrow> trace_state \<Rightarrow> trace_state result" where
  "trace_retrieval i data st =
     ebind (if i \<in> set (dict_keys (tr_columns st)) then Inr st
            else ebind (as_dict data) (\<lambda>d. Inr (add_column i (node_column i (retrieval_path (dict_get d ''mode'' PNone))) st)))
       (\<lambda>st. Inr (remember i [(Some ''user'', i)] st))"

definition trace_input :: "input_values \<Rightarrow> string \<Rightarrow> string \<Rightarrow> trace_state \<Rightarrow> trace_state result" where
  "trace_input ins i n st =
     ebind (if i \<in> set (dict_keys (tr_columns st)) then Inr st
            else ebind (dict_index ins n) (\<lambda>vs. Inr (add_column i (list_column (pstrs vs)) st)))
       (\<lambda>st. Inr (remember i [(Some ''user'', i)] st))"

text \<open>A message op gives its own role to the messages of an input, which have to be those of a user.\<close>

definition with_role :: "string \<Rightarrow> packed list \<Rightarrow> packed list result" where
  "with_role role ms =
     emap (\<lambda>(r, m). if r \<noteq> Some ''user'' then Inl AssertionError else ebind (message_role role) (\<lambda>r. Inr (Some r, m))) ms"

definition append_messages :: "string \<Rightarrow> packed list \<Rightarrow> trace_state \<Rightarrow> trace_state" where
  "append_messages i ms st = remember i (dict_get (tr_buffer st) i [] @ ms) st"

definition trace_message ::
  "(ref \<Rightarrow> trace_state \<Rightarrow> (packed list \<times> trace_state) result) \<Rightarrow> dsl_op \<Rightarrow> string \<times> (nat + string) \<Rightarrow> trace_state \<Rightarrow> trace_state result" where
  "trace_message trace op m st =
     (case m of
        (role, Inr text) \<Rightarrow> ebind (message_role role) (\<lambda>r. Inr (append_messages (d_id op) [(Some r, text)] st))
      | (role, Inl k) \<Rightarrow>
          ebind (input_ref op k) (\<lambda>r. ebind (trace r st) (\<lambda>(ms, st).
          ebind (with_role role ms) (\<lambda>ms. Inr (append_messages (d_id op) ms st)))))"

text \<open>The messages of the inputs by id.\<close>

definition trace_labels ::
  "dsl_graph \<Rightarrow> (ref \<Rightarrow> trace_state \<Rightarrow> (packed list \<times> trace_state) result) \<Rightarrow> dsl_op \<Rightarrow> trace_state \<Rightarrow> ((string, packed list) dict \<times> trace_state) result" where
  "trace_labels g trace op st =
     ebind (smap (\<lambda>r st. ebind (ref_id (dg_heap g) r) (\<lambda>i. ebind (trace r st) (\<lambda>(ms, st). Inr ((i, ms), st)))) (d_inputs op) st)
       (\<lambda>(rows, st). Inr (dict_of rows, st))"

definition format_argument :: "dsl_graph \<Rightarrow> dsl_op \<Rightarrow> (string, packed list) dict \<Rightarrow> string \<times> nat \<Rightarrow> pyval result" where
  "format_argument g op labels kw =
     (case kw of (k, i) \<Rightarrow> ebind (input_id (dg_heap g) op i) (\<lambda>j. ebind (dict_index labels j) (\<lambda>ms.
       case ms of [] \<Rightarrow> Inl IndexError | (_, m) # _ \<Rightarrow> Inr (PDict [(''label'', PStr k), (''value'', PStr m)]))))"

definition message_spec :: "packed \<Rightarrow> pyval" where
  "message_spec m =
     (case m of (None, c) \<Rightarrow> PDict [(''content'', PStr c)] | (Some r, c) \<Rightarrow> PDict [(''role'', PStr r), (''content'', PStr c)])"

definition lambda_argument :: "dsl_graph \<Rightarrow> (string, packed list) dict \<Rightarrow> ref \<Rightarrow> pyval result" where
  "lambda_argument g labels r =
     ebind (ref_id (dg_heap g) r) (\<lambda>j. ebind (dict_index labels j) (\<lambda>ms.
       if length ms > 1 then Inr (PList (map message_spec ms))
       else case ms of [] \<Rightarrow> Inl IndexError | (_, c) # _ \<Rightarrow> Inr (PStr c)))"

definition trace_format ::
  "dsl_graph \<Rightarrow> (ref \<Rightarrow> trace_state \<Rightarrow> (packed list \<times> trace_state) result) \<Rightarrow> dsl_op \<Rightarrow> string \<Rightarrow> (string, nat) dict \<Rightarrow> trace_state \<Rightarrow> trace_state result" where
  "trace_format g trace op t kwargs st =
     (if d_inputs op = [] then Inl AssertionError
      else ebind (trace_labels g trace op st) (\<lambda>(labels, st).
        if list_ex (\<lambda>(_, ms). length ms \<noteq> 1) labels then Inl AssertionError
        else ebind (emap (format_argument g op labels) kwargs) (\<lambda>args.
          let l = ''format_'' @ d_id op in Inr (remember (d_id op) [(Some ''user'', l)] (set_step l t args False st)))))"

definition trace_lambda ::
  "dsl_graph \<Rightarrow> (ref \<Rightarrow> trace_state \<Rightarrow> (packed list \<times> trace_state) result) \<Rightarrow> dsl_op \<Rightarrow> string \<Rightarrow> trace_state \<Rightarrow> trace_state result" where
  "trace_lambda g trace op code st =
     ebind (trace_labels g trace op st) (\<lambda>(labels, st).
     ebind (emap (lambda_argument g labels) (d_inputs op)) (\<lambda>args.
       let l = ''lambda_'' @ d_id op in Inr (remember (d_id op) [(Some ''user'', l)] (set_step l code args True st))))"

text \<open>One op behind its inputs; \<open>target\<close> is the op whose prompt is put together.\<close>

definition trace_body ::
  "dsl_graph \<Rightarrow> input_values \<Rightarrow> string \<Rightarrow> (ref \<Rightarrow> trace_state \<Rightarrow> (packed list \<times> trace_state) result) \<Rightarrow> dsl_op \<Rightarrow> trace_state \<Rightarrow> trace_state result" where
  "trace_body g ins target trace op st =
     (case d_body op of
        InputOp n \<Rightarrow> trace_input ins (d_id op) n st
      | DataOp v \<Rightarrow> Inr (remember (d_id op) [(Some ''user'', d_id op)] (add_column (d_id op) (list_column v) st))
      | DataRetrievalOp v \<Rightarrow> trace_retrieval (d_id op) v st
      | MessageOp roles refs \<Rightarrow> efold (trace_message trace op) (zip roles refs) (remember (d_id op) [] st)
      | FormatOp t _ kwargs \<Rightarrow> trace_format g trace op t kwargs st
      | LambdaOp _ code \<Rightarrow> trace_lambda g trace op code st
      | OutputOp _ _ \<Rightarrow> Inl (RuntimeError ''Unsupported op type in input chain'')
      | b \<Rightarrow> if d_id op = target then Inl AssertionError else Inr (trace_llm (d_id op) b st))"

primrec trace_ancestors ::
  "nat \<Rightarrow> dsl_graph \<Rightarrow> input_values \<Rightarrow> string \<Rightarrow> ref \<Rightarrow> trace_state \<Rightarrow> (packed list \<times> trace_state) result" where
  "trace_ancestors 0 g ins target r st = Inl Diverges"
| "trace_ancestors (Suc n) g ins target r st =
     ebind (dict_index (dg_heap g) r) (\<lambda>op.
       case map_of (tr_buffer st) (d_id op) of
         Some ms \<Rightarrow> Inr (ms, st)
       | None \<Rightarrow>
           ebind (trace_body g ins target (trace_ancestors n g ins target) op (mark_visited (d_id op) st)) (\<lambda>st.
             Inr (dict_get (tr_buffer st) (d_id op) [], st)))"

text \<open>\<open>_infer_structural_messages\<close>: the model ops that feed the op, and its prompt.\<close>

record template =
  tp_columns :: "pyval list"
  tp_steps :: "pyval list option"
  tp_messages :: "pyval list"

definition step_spec :: "string \<times> string \<times> pyval list \<times> bool \<Rightarrow> pyval" where
  "step_spec s = (case s of (l, t, args, f) \<Rightarrow>
     PDict [(''label'', PStr l), (if f then ''function'' else ''template'', PStr t), (''arguments'', PList args)])"

definition template_spec :: "template \<Rightarrow> spec" where
  "template_spec t =
     [(''name'', PStr ''format''), (''columns'', PList (tp_columns t)),
      (''options'', PDict [(''format'', PDict ((case tp_steps t of None \<Rightarrow> [] | Some s \<Rightarrow> [(''steps'', PList s)]) @
        [(''messages'', PList (tp_messages t))]))])]"

definition infer_structural_messages ::
  "dsl_graph \<Rightarrow> input_values \<Rightarrow> string \<Rightarrow> dsl_op \<Rightarrow> string list \<Rightarrow> ((string list \<times> template) \<times> string list) result" where
  "infer_structural_messages g ins target op visited =
     ebind (input_ref op 0) (\<lambda>r.
     ebind (trace_ancestors (Suc (length (dg_heap g))) g ins target r
         \<lparr>tr_visited = visited, tr_upstream = [], tr_columns = [], tr_steps = [], tr_buffer = []\<rparr>) (\<lambda>(ms, st).
       Inr ((tr_upstream st,
         \<lparr>tp_columns = map (\<lambda>(l, c). PDict ((''label'', PStr l) # c)) (tr_columns st), tp_steps = Some (map step_spec (tr_steps st)),
          tp_messages = map message_spec ms\<rparr>), tr_visited st)))"

section \<open>The nodes a template reads\<close>

text \<open>\<open>data.get(k)\<close>.\<close>

abbreviation field_of :: "spec \<Rightarrow> string \<Rightarrow> pyval" where
  "field_of d k \<equiv> dict_get d k PNone"

definition nested_columns :: "spec \<Rightarrow> pyval list result" where
  "nested_columns c =
     (case field_of c ''data'' of
        PDict d \<Rightarrow>
          if field_of d ''type'' = PStr ''dataframe'' then iterate (field_of d ''columns'')
          else if field_of d ''type'' = PStr ''graph_template'' then
            (case field_of d ''template'' of PDict t \<Rightarrow> iterate (field_of t ''columns'') | _ \<Rightarrow> Inr [])
          else Inr []
      | _ \<Rightarrow> Inr [])"

declare emap_cong [fundef_cong]

lemma ebind_cong [fundef_cong]:
  "m = m' \<Longrightarrow> (\<And>x. m' = Inr x \<Longrightarrow> f x = g x) \<Longrightarrow> ebind m f = ebind m' g"
  by (cases m') auto

lemma field_of_size: "field_of d k = v \<Longrightarrow> v = PNone \<or> size v < size (PDict d)"
proof (cases "map_of d k")
  case (Some w)
  then have "size w < Suc (size_list (size_prod (\<lambda>_. 0) size) d)" by (rule pyval_dict_size [OF map_of_SomeD])
  moreover assume "field_of d k = v"
  ultimately show ?thesis using Some by (simp add: dict_get_def)
qed (simp add: dict_get_def)

lemma iterate_size:
  assumes "iterate v = Inr xs" and "x \<in> set xs"
  shows "size x = 0 \<or> size x < size v"
proof (cases v)
  case (PList ys)
  with assms show ?thesis by (auto simp: iterate_def split: if_splits dest: size_list_estimation' [where f = size and y = "size x"])
next
  case (PTuple ys)
  with assms show ?thesis by (auto simp: iterate_def split: if_splits dest: size_list_estimation' [where f = size and y = "size x"])
qed (use assms in \<open>auto simp: iterate_def split: if_splits\<close>)

lemma nested_columns_size:
  assumes "nested_columns c = Inr cols" and "x \<in> set cols"
  shows "size x < size (PDict c)"
proof -
  obtain d where d: "field_of c ''data'' = PDict d" using assms by (auto simp: nested_columns_def split: pyval.splits)
  then have small: "size (PDict d) < size (PDict c)" using field_of_size [OF d] by simp
  have inner: "size x < size (PDict c)" if "iterate (field_of e ''columns'') = Inr cols" "size (PDict e) < size (PDict c)" for e
    using iterate_size [OF that(1) assms(2)] field_of_size [of e "''columns''" "field_of e ''columns''"] that(2) by auto
  have split: "nested_columns c =
      (if field_of d ''type'' = PStr ''dataframe'' then iterate (field_of d ''columns'')
       else if field_of d ''type'' = PStr ''graph_template'' then
         (case field_of d ''template'' of PDict t \<Rightarrow> iterate (field_of t ''columns'') | _ \<Rightarrow> Inr [])
       else Inr [])" by (simp only: nested_columns_def d pyval.case)
  show ?thesis
  proof (cases "field_of d ''type'' = PStr ''dataframe''")
    case True
    with assms(1) split have "iterate (field_of d ''columns'') = Inr cols" by simp
    then show ?thesis by (rule inner) (rule small)
  next
    case False
    with assms split obtain t where t: "field_of d ''template'' = PDict t" "iterate (field_of t ''columns'') = Inr cols"
      by (cases "field_of d ''template''") (simp_all only: if_False pyval.case, auto split: if_splits)
    then have "size (PDict t) < size (PDict c)" using field_of_size [OF t(1)] small by simp
    with t(2) show ?thesis by (rule inner)
  qed
qed

function (sequential) column_nodes :: "pyval \<Rightarrow> string list result" where
  "column_nodes (PDict c) =
     ebind (nested_columns c) (\<lambda>cols. ebind (emap column_nodes cols) (\<lambda>deps.
       Inr ((case field_of c ''node'' of PStr n \<Rightarrow> [n] | _ \<Rightarrow> []) @ concat deps)))"
| "column_nodes _ = Inr []"
  by pat_completeness auto
termination
proof (relation "measure size")
  fix c cols x
  assume cols: "nested_columns c = Inr cols" and x: "x \<in> set cols"
  show "(x, PDict c) \<in> measure size"
    using nested_columns_size [OF cols x] by simp
qed simp


definition collect_dependencies :: "pyval list \<Rightarrow> string list result" where
  "collect_dependencies columns = ebind (emap column_nodes columns) (\<lambda>deps. Inr (dedupe_into [] (concat deps)))"

section \<open>Row-wise prompts\<close>

text \<open>The column of a table that is given with its data or with the node it comes from; others are dropped.\<close>

definition row_column :: "pyval \<Rightarrow> (pyval \<times> string option) option result" where
  "row_column col =
     ebind (as_dict col) (\<lambda>d.
       Inr (case (field_of d ''label'', field_of d ''data'', field_of d ''node'', field_of d ''path'') of
           (PStr l, PDict v, _, _) \<Rightarrow> Some (PDict [(''label'', PStr l), (''data'', PDict v)], None)
         | (PStr l, _, PStr n, PStr p) \<Rightarrow> Some (PDict [(''label'', PStr l), (''node'', PStr n), (''path'', PStr p)], Some n)
         | _ \<Rightarrow> None))"

definition row_columns :: "pyval \<Rightarrow> (pyval list \<times> string list) result" where
  "row_columns v =
     ebind (iterate v) (\<lambda>cols. ebind (emap row_column cols) (\<lambda>rows.
       let rows = List.map_filter id rows in Inr (map fst rows, List.map_filter snd rows)))"

definition chat_message :: "string \<Rightarrow> pyval \<Rightarrow> pyval" where
  "chat_message role content = PDict [(''role'', PStr role), (''content'', content)]"

definition row_messages :: "chat_fields \<Rightarrow> pyval list result" where
  "row_messages c =
     ebind (iterate (ch_system_messages c)) (\<lambda>sys. Inr (map (chat_message ''system'') sys @ [chat_message ''user'' (ch_rowwise_template c)]))"

section \<open>Aggregated tables\<close>

definition table_column :: "pyval \<Rightarrow> (pyval \<times> string) option result" where
  "table_column col =
     ebind (as_dict col) (\<lambda>d.
       Inr (case (field_of d ''label'', field_of d ''node'', field_of d ''path'') of
           (PStr l, PStr n, PStr p) \<Rightarrow> Some (PDict [(''label'', PStr l), (''node'', PStr n), (''path'', PStr p)], n)
         | _ \<Rightarrow> None))"

definition ident_start :: "char \<Rightarrow> bool" where
  "ident_start c \<longleftrightarrow> (is_alnum c \<and> \<not> (48 \<le> (of_char c :: nat) \<and> (of_char c :: nat) \<le> 57)) \<or> c = CHR ''_''"

definition ident_char :: "char \<Rightarrow> bool" where
  "ident_char c \<longleftrightarrow> is_alnum c \<or> c = CHR ''_''"

text \<open>The names in braces of a template; a match holds no brace, so it does not matter where the search goes on.\<close>

fun placeholders :: "string \<Rightarrow> string list" where
  "placeholders [] = []"
| "placeholders (c # s) =
     (let n = takeWhile ident_char s; rest = dropWhile ident_char s
      in (if c = CHR ''{'' \<and> n \<noteq> [] \<and> ident_start (hd n) \<and> rest \<noteq> [] \<and> hd rest = CHR ''}'' then [n] else []) @ placeholders s)"

definition labels_of :: "pyval list \<Rightarrow> string list" where
  "labels_of vs = List.map_filter (\<lambda>v. case v of PDict d \<Rightarrow> (case field_of d ''label'' of PStr l \<Rightarrow> Some l | _ \<Rightarrow> None) | _ \<Rightarrow> None) vs"

text \<open>A step gets an argument for every placeholder that is a column and has none yet.\<close>

definition aggregate_step :: "string list \<Rightarrow> pyval \<Rightarrow> pyval result" where
  "aggregate_step columns step =
     (case step of
        PDict s \<Rightarrow>
          (case dict_get s ''arguments'' (PList []) of
             PList args \<Rightarrow>
               let wanted = (case field_of s ''template'' of PStr t \<Rightarrow> sort (remdups (placeholders t)) | _ \<Rightarrow> []);
                   extra = filter (\<lambda>l. l \<notin> set (labels_of args) \<and> l \<in> set columns) wanted
               in Inr (PDict (AList.update ''arguments'' (PList (args @ map (\<lambda>l. PDict [(''label'', PStr l), (''value'', PStr l)]) extra)) s))
           | _ \<Rightarrow> Inl (ValueError ''aggregate format step arguments must be a list''))
      | _ \<Rightarrow> Inl (ValueError ''aggregate format step must be an object''))"

text \<open>The data of an aggregating op, and what it depends on beside its prompt.\<close>

definition aggregate_data :: "pyval \<Rightarrow> template \<Rightarrow> (spec \<times> string list) result" where
  "aggregate_data table t =
     ebind (iterate table) (\<lambda>cols. ebind (emap table_column cols) (\<lambda>rows.
     ebind (collect_dependencies (tp_columns t)) (\<lambda>deps.
       let rows = List.map_filter id rows;
           columns = tp_columns t @ [PDict [(''label'', PStr ''df''),
             (''data'', PDict [(''type'', PStr ''dataframe''), (''columns'', PList (map fst rows))])]]
       in ebind (emap (aggregate_step (labels_of columns)) (case tp_steps t of None \<Rightarrow> [] | Some s \<Rightarrow> s)) (\<lambda>steps.
         Inr ([(''type'', PStr ''graph_template''),
            (''template'', PDict [(''name'', PStr ''format''), (''columns'', PList columns),
               (''options'', PDict [(''format'', PDict ((''messages'', PList (tp_messages t)) #
                  (if steps = [] then [] else [(''steps'', PList steps)])))])])],
           map snd rows @ deps)))))"

section \<open>Embedding and image ops\<close>

definition content_op :: "dsl_graph \<Rightarrow> dsl_op \<Rightarrow> dsl_op result" where
  "content_op g op = ebind (input_ref op 0) (dict_index (dg_heap g))"

definition validate_embedding_texts :: "pyval list \<Rightarrow> unit result" where
  "validate_embedding_texts items =
     (if list_all (\<lambda>v. case v of PStr s \<Rightarrow> str_strip s \<noteq> [] | _ \<Rightarrow> False) items then Inr ()
      else Inl (ValueError ''text input must be a non-empty string''))"

definition list_data :: "pyval list \<Rightarrow> spec" where
  "list_data items = [(''type'', PStr ''list''), (''items'', PList items)]"

definition node_data :: "string \<Rightarrow> string \<Rightarrow> spec" where
  "node_data n path = [(''type'', PStr ''list''), (''node'', PStr n), (''path'', PStr path)]"

definition embedding_data :: "input_values \<Rightarrow> dsl_op \<Rightarrow> (spec \<times> string list) result" where
  "embedding_data ins c =
     (case d_body c of
        InputOp n \<Rightarrow>
          let items = map PStr (dict_get ins n [])
          in if items = [] then Inl (ValueError ''content references InputOp with no values supplied'')
             else ebind (validate_embedding_texts items) (\<lambda>_. Inr (list_data items, []))
      | DataOp v \<Rightarrow>
          if \<not> py_truthy v then Inl (ValueError ''empty text input'')
          else ebind (iterate v) (\<lambda>items. ebind (validate_embedding_texts items) (\<lambda>_. Inr (list_data items, [])))
      | _ \<Rightarrow> Inr (node_data (d_id c) ''items.output'', [d_id c]))"

definition build_embedding_node ::
  "builder_env \<Rightarrow> dsl_graph \<Rightarrow> input_values \<Rightarrow> dsl_op \<Rightarrow> spec \<Rightarrow> string list \<Rightarrow> (runtime_op \<times> string list) result" where
  "build_embedding_node env g ins op config visited =
     ebind (content_op g op) (\<lambda>c.
     ebind (embedding_data ins c) (\<lambda>(data, deps).
     ebind (build_model_spec env config ''vllm'' (Some [(''convert'', PStr ''embed'')])) (\<lambda>ms.
     ebind (create_runtime_op env (d_id op) ''embedding'' data ms [] ''vllm'' (config_model config) deps
         (Some (build_output_spec env [''results.json'', ''embeddings.safetensors''])) PNone) (\<lambda>node.
       Inr (node, set_add (d_id c) (set_add (d_id op) visited))))))"

text \<open>A format op that only passes its input on is looked through.\<close>

definition image_content :: "dsl_graph \<Rightarrow> dsl_op \<Rightarrow> dsl_op result" where
  "image_content g c =
     (case d_body c of
        FormatOp t _ _ \<Rightarrow> if t = ''{ref0}'' \<and> length (d_inputs c) = 1 then content_op g c else Inr c
      | _ \<Rightarrow> Inr c)"

definition image_data :: "input_values \<Rightarrow> dsl_op \<Rightarrow> (spec \<times> string list) result" where
  "image_data ins c =
     (case d_body c of
        InputOp n \<Rightarrow>
          (case map_of ins n of
             None \<Rightarrow> Inl (ValueError ''content references InputOp with no values supplied'')
           | Some vs \<Rightarrow> Inr (list_data (map PStr vs), []))
      | _ \<Rightarrow> Inr (node_data (d_id c) ''items.output'', [d_id c]))"

definition build_image_node ::
  "builder_env \<Rightarrow> dsl_graph \<Rightarrow> input_values \<Rightarrow> dsl_op \<Rightarrow> spec \<Rightarrow> string list \<Rightarrow> (runtime_op \<times> string list) result" where
  "build_image_node env g ins op config visited =
     ebind (content_op g op) (\<lambda>c.
     ebind (inference_spec config) (\<lambda>sampling.
     ebind (image_content g c) (\<lambda>c'.
     ebind (image_data ins c') (\<lambda>(data, deps).
     ebind (build_model_spec env config ''omni'' None) (\<lambda>ms.
     ebind (create_runtime_op env (d_id op) ''omni_text2image'' data ms
         (update_all [(''num_inference_steps'', PInt 8), (''guidance_scale'', PFloat 1), (''height'', PInt 1024), (''width'', PInt 1024)] sampling)
         ''omni'' (config_model config) deps (Some (build_output_spec env [''results.json'', ''images/''])) PNone) (\<lambda>node.
       Inr (node, set_add (d_id c) (set_add (d_id op) visited))))))))"

section \<open>Chat ops\<close>

definition graph_template_data :: "template \<Rightarrow> spec" where
  "graph_template_data t = [(''type'', PStr ''graph_template''), (''template'', PDict (template_spec t))]"

text \<open>Row by row, over a table, or with the prompt as it is: the data and the dependencies.\<close>

definition chat_data :: "chat_fields \<Rightarrow> string list \<Rightarrow> template \<Rightarrow> (spec \<times> string list \<times> pyval) result" where
  "chat_data c upstream t =
     (if py_truthy (ch_rowwise_template c) then
        ebind (row_columns (ch_rowwise_columns c)) (\<lambda>(columns, nodes).
          if columns = [] then Inl (ValueError ''empty rowwise_columns'')
          else ebind (row_messages c) (\<lambda>messages.
            Inr ([(''type'', PStr ''dataframe''), (''columns'', PList columns), (''messages'', PList messages)],
              foldl (\<lambda>ds n. set_add n ds) upstream nodes, PNone)))
      else if py_truthy (ch_aggregate_table c) then
        ebind (aggregate_data (ch_aggregate_table c) t) (\<lambda>(data, nodes). Inr (data, foldl (\<lambda>ds n. set_add n ds) upstream nodes, PNone))
      else
        ebind (collect_dependencies (tp_columns t)) (\<lambda>nodes.
          Inr (graph_template_data t, dedupe_into [] (upstream @ nodes), ch_condition c)))"

definition chat_inference :: "chat_fields \<Rightarrow> spec \<Rightarrow> spec" where
  "chat_inference c sampling = (if py_truthy (ch_structural_outputs c) then AList.update ''templates'' (ch_structural_outputs c) sampling else sampling)"

definition chat_task :: "string option \<Rightarrow> string \<times> string" where
  "chat_task override =
     (case override of
        Some t \<Rightarrow> if t = ''data_profile'' then (''data_profiling'', ''data_profiling'')
                  else (if t = [] then ''inference'' else t, ''vllm'')
      | None \<Rightarrow> (''inference'', ''vllm''))"

definition build_chat_node ::
  "builder_env \<Rightarrow> dsl_graph \<Rightarrow> input_values \<Rightarrow> string option \<Rightarrow> dsl_op \<Rightarrow> chat_fields \<Rightarrow> string list \<Rightarrow> (runtime_op \<times> string list) result" where
  "build_chat_node env g ins override op c visited =
     ebind (infer_structural_messages g ins (d_id op) op visited) (\<lambda>((upstream, t), visited).
     ebind (inference_spec (ch_config c)) (\<lambda>sampling.
     ebind (chat_data c upstream t) (\<lambda>(data, deps, condition).
     case chat_task override of (task, backend) \<Rightarrow>
     ebind (build_model_spec env (ch_config c) backend None) (\<lambda>ms.
     ebind (create_runtime_op env (d_id op) task data ms (chat_inference c sampling) backend (config_model (ch_config c)) deps None condition) (\<lambda>node.
       Inr (node, visited))))))"

section \<open>Vision ops\<close>

definition vision_template :: "chat_fields \<Rightarrow> template \<Rightarrow> template result" where
  "vision_template c t =
     (if py_truthy (ch_rowwise_template c) then
        ebind (row_columns (ch_rowwise_columns c)) (\<lambda>(columns, nodes).
          if columns = [] then Inl (ValueError ''empty rowwise_columns'')
          else ebind (row_messages c) (\<lambda>messages. Inr \<lparr>tp_columns = columns, tp_steps = None, tp_messages = messages\<rparr>))
      else Inr t)"

text \<open>The data of the embedding node, the column of the prompt that has one row for each image, and the dependencies.\<close>

definition resolve_vlm_image_source :: "dsl_graph \<Rightarrow> input_values \<Rightarrow> string \<Rightarrow> string \<Rightarrow> (spec \<times> pyval \<times> string list) result" where
  "resolve_vlm_image_source g ins src path =
     (case graph_op g src of
        None \<Rightarrow> Inl (ValueError ''unknown image source'')
      | Some op \<Rightarrow>
          (case d_body op of
             InputOp n \<Rightarrow>
               (case map_of ins n of
                  None \<Rightarrow> Inl (ValueError ''Missing inputs for image source'')
                | Some vs \<Rightarrow> Inr (list_data (map PStr vs),
                    PDict [(''label'', PStr (d_id op @ ''_batch'')), (''data'', PDict (list_data (map (\<lambda>_. PStr []) vs)))], []))
           | ImageGenerationOp _ _ \<Rightarrow>
               let p = (if path = ''images'' then ''items.image'' else path)
               in Inr (node_data src p, PDict [(''label'', PStr (src @ ''_batch'')), (''node'', PStr src), (''path'', PStr p)], [src])
           | DataRetrievalOp _ \<Rightarrow>
               let p = (if path \<noteq> ''images'' then path else ''items.content'')
               in Inr (node_data src p, PDict [(''label'', PStr (src @ ''_batch'')), (''node'', PStr src), (''path'', PStr p)], [src])
           | _ \<Rightarrow> Inl (ValueError ''image source must be an InputOp, ImageGenerationOp, or DataRetrievalOp'')))"

definition embedding_name :: "string \<Rightarrow> string" where
  "embedding_name i = i @ ''_embedding''"

definition vision_data :: "template \<Rightarrow> string \<Rightarrow> spec" where
  "vision_data t i =
     graph_template_data t @ [(''image_embedding'', PDict [(''node'', PStr (embedding_name i)), (''path'', PStr ''embedding_file'')])]"

definition build_vision_nodes ::
  "builder_env \<Rightarrow> dsl_graph \<Rightarrow> input_values \<Rightarrow> dsl_op \<Rightarrow> chat_fields \<Rightarrow> string \<Rightarrow> string \<Rightarrow> string list \<Rightarrow> (runtime_op list \<times> string list) result" where
  "build_vision_nodes env g ins op c src path visited =
     ebind (infer_structural_messages g ins (d_id op) op visited) (\<lambda>((upstream, t), visited).
     ebind (vision_template c t) (\<lambda>t.
     ebind (resolve_vlm_image_source g ins src path) (\<lambda>(data, batch, source_deps).
     let t = t\<lparr>tp_columns := tp_columns t @ [batch]\<rparr>; config = ch_config c in
     ebind (build_model_spec env config ''transformers'' None) (\<lambda>ems.
     ebind (create_runtime_op env (embedding_name (d_id op)) ''embedding'' data ems [] ''transformers'' (config_model config) source_deps
         (Some [(''destination'', PDict (default_output_destination env)), (''artifacts'', pstrs [''results.json'', ''visual_embeddings.pt''])])
         PNone) (\<lambda>enode.
     ebind (inference_spec config) (\<lambda>sampling.
     ebind (collect_dependencies (tp_columns t)) (\<lambda>nodes.
     ebind (build_model_spec env config ''vllm'' (Some (default_vllm_config env True))) (\<lambda>ms.
     ebind (create_runtime_op env (d_id op) ''inference'' (vision_data t (d_id op)) ms sampling ''vllm'' (config_model config)
         (dedupe_into [] (upstream @ nodes @ [embedding_name (d_id op)])) None PNone) (\<lambda>node.
       Inr ([enode, node], set_add src visited))))))))))"

section \<open>Retrieval ops\<close>

text \<open>\<open>re.search(r"\bFROM\s+([^\s]+)", s, re.IGNORECASE)\<close>: the word behind the first such \<open>from\<close>.\<close>

definition is_space :: "char \<Rightarrow> bool" where
  "is_space c \<longleftrightarrow> c \<in> set whitespace \<or> c = CHR 0x85 \<or> c = CHR 0xA0"

definition regex_word_char :: "char \<Rightarrow> bool" where
  "regex_word_char c \<longleftrightarrow> ident_char c \<or>
     (let n = of_char c :: nat in n \<in> {0xAA, 0xB2, 0xB3, 0xB5, 0xB9, 0xBA, 0xBC, 0xBD, 0xBE} \<or> (0xC0 \<le> n \<and> n \<noteq> 0xD7 \<and> n \<noteq> 0xF7))"

definition table_after :: "string \<Rightarrow> string option" where
  "table_after s =
     (let rest = drop 4 s; tail = dropWhile is_space rest
      in if str_lower (take 4 s) = ''from'' \<and> rest \<noteq> [] \<and> is_space (hd rest) \<and> tail \<noteq> []
         then Some (takeWhile (\<lambda>c. \<not> is_space c) tail) else None)"

fun find_table :: "bool \<Rightarrow> string \<Rightarrow> string option" where
  "find_table in_word [] = None"
| "find_table in_word (c # s) =
     (case if in_word then None else table_after (c # s) of
        Some t \<Rightarrow> Some t
      | None \<Rightarrow> find_table (regex_word_char c) s)"

definition extract_table_from_sql_template :: "string \<Rightarrow> string result" where
  "extract_table_from_sql_template t =
     (case find_table False t of None \<Rightarrow> Inl (ValueError ''Unable to infer SQL table'') | Some n \<Rightarrow> Inr n)"

text \<open>Parameters with one value are written into the template; a quote in the value is doubled.\<close>

definition single_value :: "pyval \<Rightarrow> (string \<times> pyval) option" where
  "single_value p =
     (case p of
        PDict d \<Rightarrow>
          (case (field_of d ''label'', field_of d ''data'') of
             (PStr l, PDict v) \<Rightarrow>
               (case (field_of v ''type'', field_of v ''items'') of
                  (PStr ty, PList [x]) \<Rightarrow> if ty = ''list'' then Some (l, x) else None
                | _ \<Rightarrow> None)
           | _ \<Rightarrow> None)
      | _ \<Rightarrow> None)"

definition braced :: "string \<Rightarrow> string" where
  "braced l = ''{'' @ l @ ''}''"

definition quote_char :: string where
  "quote_char = [CHR 0x27]"

fun inline_single_value_list_params :: "(pyval \<Rightarrow> string) \<Rightarrow> string \<Rightarrow> pyval list \<Rightarrow> string \<times> pyval list" where
  "inline_single_value_list_params render t [] = (t, [])"
| "inline_single_value_list_params render t (p # ps) =
     (case single_value p of
        Some (l, x) \<Rightarrow>
          if contains_str (braced l) t
          then inline_single_value_list_params render (str_replace (braced l) (str_replace quote_char (quote_char @ quote_char) (render x)) t) ps
          else (let (t', rest) = inline_single_value_list_params render t ps in (t', p # rest))
      | None \<Rightarrow> (let (t', rest) = inline_single_value_list_params render t ps in (t', p # rest)))"

text \<open>\<open>mode not in {...}\<close> fails on a value that cannot be hashed.\<close>

definition retrieval_mode :: "spec \<Rightarrow> string result" where
  "retrieval_mode d =
     ebind (dict_index d ''mode'') (\<lambda>m. case m of
       PStr s \<Rightarrow> if s \<in> {''sql'', ''s3'', ''agent''} then Inr s else Inl (ValueError ''mode must be sql, s3, or agent'')
     | PList _ \<Rightarrow> Inl (TypeError ''unhashable type'')
     | PDict _ \<Rightarrow> Inl (TypeError ''unhashable type'')
     | _ \<Rightarrow> Inl (ValueError ''mode must be sql, s3, or agent''))"

definition params_of :: "spec \<Rightarrow> pyval list result" where
  "params_of d =
     (let v = field_of d ''params'' in
      if \<not> py_truthy v then Inr [] else case v of PList ps \<Rightarrow> Inr ps | _ \<Rightarrow> Inl (ValueError ''params must be a list''))"

definition retrieval_template :: "spec \<Rightarrow> string \<Rightarrow> string result" where
  "retrieval_template d mode =
     (if mode \<in> {''sql'', ''s3''} then
        (case field_of d ''template'' of PStr t \<Rightarrow> Inr t | _ \<Rightarrow> Inl (ValueError ''requires template''))
      else
        (case (field_of d ''description'', field_of d ''schema_scope'') of
           (PStr t, PNone) \<Rightarrow> Inr t
         | (PStr t, PStr _) \<Rightarrow> Inr t
         | (PStr t, _) \<Rightarrow> Inl (ValueError ''schema_scope must be a string'')
         | _ \<Rightarrow> Inl (ValueError ''requires description'')))"

definition is_input :: "dsl_op \<Rightarrow> bool" where
  "is_input op \<longleftrightarrow> (case d_body op of InputOp _ \<Rightarrow> True | _ \<Rightarrow> False)"

text \<open>The upstream ops that are no inputs, in order.\<close>

definition input_dependencies :: "dsl_graph \<Rightarrow> dsl_op \<Rightarrow> string list result" where
  "input_dependencies g op =
     ebind (emap (dict_index (dg_heap g)) (d_inputs op)) (\<lambda>ops. Inr (dedupe_into [] (map d_id (filter (\<lambda>u. \<not> is_input u) ops))))"

text \<open>A parameter that names an input op gets its values; one that names another op adds a dependency.\<close>

definition resolve_param :: "dsl_graph \<Rightarrow> input_values \<Rightarrow> pyval \<Rightarrow> string list \<Rightarrow> (pyval \<times> string list) result" where
  "resolve_param g ins p deps =
     (case p of
        PDict d \<Rightarrow>
          (case field_of d ''node'' of
             PStr n \<Rightarrow>
               (case map_option d_body (graph_op g n) of
                  Some (InputOp m) \<Rightarrow>
                    (case map_of ins m of
                       None \<Rightarrow> Inl (ValueError ''no values were supplied for that input'')
                     | Some vs \<Rightarrow>
                         if field_of d ''path'' \<notin> {PNone, PStr []} then Inl (ValueError ''InputOp-derived params cannot be drilled'')
                         else Inr (PDict [(''label'', field_of d ''label''), (''data'', PDict (list_data (map PStr vs)))], deps))
                | _ \<Rightarrow> Inr (p, set_add n deps))
           | _ \<Rightarrow> Inr (p, deps))
      | _ \<Rightarrow> Inr (p, deps))"

definition copy_fields :: "string list \<Rightarrow> spec \<Rightarrow> spec" where
  "copy_fields ks d = List.map_filter (\<lambda>k. map_option (Pair k) (map_of d k)) ks"

definition sql_table :: "spec \<Rightarrow> string \<Rightarrow> spec" where
  "sql_table d t =
     (case field_of d ''table'' of
        PStr n \<Rightarrow> if str_strip n \<noteq> [] then [(''table'', PStr (str_strip n))]
                  else (case find_table False t of None \<Rightarrow> [] | Some n \<Rightarrow> [(''table'', PStr n)])
      | _ \<Rightarrow> (case find_table False t of None \<Rightarrow> [] | Some n \<Rightarrow> [(''table'', PStr n)]))"

definition mode_fields :: "spec \<Rightarrow> string \<Rightarrow> string \<Rightarrow> spec" where
  "mode_fields d mode t =
     (if mode = ''sql'' then [(''template'', PStr t)] @ sql_table d t @ [(''output_format'', dict_get d ''output_format'' (PStr ''jsonl''))]
      else if mode = ''s3'' then [(''template'', PStr t), (''encoding'', dict_get d ''encoding'' (PStr ''utf-8''))]
      else [(''description'', PStr t)] @ (if py_truthy (field_of d ''schema_scope'') then copy_fields [''schema_scope''] d else []) @
        copy_fields [''output_format'', ''max_steps'', ''model''] d)"

definition build_retrieval_node ::
  "builder_env \<Rightarrow> (pyval \<Rightarrow> string) \<Rightarrow> dsl_graph \<Rightarrow> input_values \<Rightarrow> dsl_op \<Rightarrow> pyval \<Rightarrow> runtime_op result" where
  "build_retrieval_node env render g ins op data =
     ebind (dict_or_empty data) (\<lambda>d.
     if field_of d ''type'' \<noteq> PStr ''lumid'' then Inl (ValueError ''requires type: lumid'')
     else ebind (retrieval_mode d) (\<lambda>mode.
     if be_data_url env = [] then Inl (ValueError ''requires LUMID_DATA_URL'')
     else if be_data_token env = [] then Inl (ValueError ''requires LUMID_DATA_TOKEN'')
     else ebind (params_of d) (\<lambda>params.
     ebind (retrieval_template d mode) (\<lambda>t.
     ebind (input_dependencies g op) (\<lambda>deps.
     ebind (smap (resolve_param g ins) params deps) (\<lambda>(resolved, deps).
     let (t, resolved) = (if mode \<in> {''sql'', ''s3''} then inline_single_value_list_params render t resolved else (t, resolved));
         spec = [(''type'', PStr ''lumid''), (''mode'', PStr mode), (''lumid_data_url'', PStr (worker_url env)),
           (''lumid_data_token'', PStr (be_data_token env)), (''params'', PList resolved)] @ mode_fields d mode t @ copy_fields [''verify''] d
     in create_runtime_op env (d_id op) ''data_retrieval'' spec [] [] ''data_retrieval'' (PStr ''data_retrieval'') deps None PNone))))))"

section \<open>The graph\<close>

text \<open>The model ops, the retrieval ops, the op each output op reads with its name and path, and the visited ids.\<close>

record op_survey =
  os_llm :: "(string \<times> dsl_op) list"
  os_retrieval :: "(string \<times> dsl_op \<times> pyval) list"
  os_outputs :: "(string, string \<times> string option) dict"
  os_visited :: "string list"

definition is_source :: "op_body \<Rightarrow> bool" where
  "is_source b \<longleftrightarrow> is_llm b \<or> (case b of DataRetrievalOp _ \<Rightarrow> True | _ \<Rightarrow> False)"

definition survey_op :: "dsl_graph \<Rightarrow> string \<times> ref \<Rightarrow> op_survey \<Rightarrow> op_survey result" where
  "survey_op g x s =
     (case x of (i, r) \<Rightarrow>
        ebind (dict_index (dg_heap g) r) (\<lambda>op.
          case d_body op of
            DataRetrievalOp v \<Rightarrow> Inr (s\<lparr>os_retrieval := os_retrieval s @ [(i, op, v)], os_visited := set_add i (os_visited s)\<rparr>)
          | OutputOp n path \<Rightarrow>
              if length (d_inputs op) \<noteq> 1 then Inl AssertionError
              else ebind (content_op g op) (\<lambda>source.
                if \<not> is_source (d_body source) then Inl (ValueError ''OutputOp input must be an LLMOp or DataRetrievalOp'')
                else Inr (s\<lparr>os_outputs := AList.update (d_id source) (n, path) (os_outputs s), os_visited := set_add i (os_visited s)\<rparr>))
          | b \<Rightarrow> if is_llm b then Inr (s\<lparr>os_llm := os_llm s @ [(i, op)], os_visited := set_add i (os_visited s)\<rparr>) else Inr s))"

definition survey :: "dsl_graph \<Rightarrow> op_survey result" where
  "survey g =
     ebind (efold (survey_op g) (dg_ids g) \<lparr>os_llm = [], os_retrieval = [], os_outputs = [], os_visited = []\<rparr>) (\<lambda>s.
       if os_llm s = [] \<and> os_retrieval s = [] then Inl (ValueError ''Graph must contain at least one LLMOp or DataRetrievalOp'')
       else Inr s)"

definition mark_retrieval_upstream :: "dsl_graph \<Rightarrow> dsl_op \<Rightarrow> pyval \<Rightarrow> string list \<Rightarrow> string list result" where
  "mark_retrieval_upstream g op data visited =
     ebind (emap (ref_id (dg_heap g)) (d_inputs op)) (\<lambda>ids.
     ebind (dict_or_empty data) (\<lambda>d.
       let named = (case field_of d ''params'' of
             PList ps \<Rightarrow> List.map_filter (\<lambda>p. case p of
                 PDict q \<Rightarrow> (case field_of q ''node'' of PStr n \<Rightarrow> if n \<in> set (dict_keys (dg_ids g)) then Some n else None | _ \<Rightarrow> None)
               | _ \<Rightarrow> None) ps
           | _ \<Rightarrow> [])
       in Inr (foldl (\<lambda>vs i. set_add i vs) visited (ids @ named))))"

record build_state =
  bs_graph :: runtime_graph
  bs_visited :: "string list"

definition add_node :: "runtime_op \<Rightarrow> runtime_graph \<Rightarrow> runtime_graph" where
  "add_node op rg = rg\<lparr>rg_nodes := AList.update (op_node_id op) op (rg_nodes rg), rg_node_order := rg_node_order rg @ [op_node_id op]\<rparr>"

definition set_runtime_ids :: "string \<Rightarrow> string list \<Rightarrow> runtime_graph \<Rightarrow> runtime_graph" where
  "set_runtime_ids i ns rg = rg\<lparr>rg_dsl_to_runtime := AList.update i ns (rg_dsl_to_runtime rg)\<rparr>"

definition set_output :: "string \<Rightarrow> string \<Rightarrow> string option \<Rightarrow> runtime_graph \<Rightarrow> runtime_graph" where
  "set_output n name path rg =
     rg\<lparr>rg_output_node_map := AList.update n name (rg_output_node_map rg),
        rg_output_paths := (case path of None \<Rightarrow> rg_output_paths rg | Some p \<Rightarrow> AList.update n p (rg_output_paths rg))\<rparr>"

definition given_path :: "string option \<Rightarrow> string option" where
  "given_path p = (case p of None \<Rightarrow> None | Some s \<Rightarrow> if s = [] then None else Some s)"

text \<open>Where the values of a retrieval node are when its output op does not say.\<close>

definition default_path :: "pyval \<Rightarrow> string" where
  "default_path mode = (if mode = PStr ''s3'' then ''items.content'' else ''items.table'')"

definition add_retrieval_op ::
  "dsl_graph \<Rightarrow> (dsl_op \<Rightarrow> pyval \<Rightarrow> runtime_op option result) \<Rightarrow> (string, string \<times> string option) dict \<Rightarrow> string \<times> dsl_op \<times> pyval \<Rightarrow> build_state \<Rightarrow> build_state result" where
  "add_retrieval_op g node_of outputs x s =
     (case x of (i, op, v) \<Rightarrow>
        ebind (mark_retrieval_upstream g op v (bs_visited s)) (\<lambda>visited.
        ebind (node_of op v) (\<lambda>node.
          case node of
            None \<Rightarrow> Inr (s\<lparr>bs_visited := visited\<rparr>)
          | Some n \<Rightarrow>
              let rg = set_runtime_ids i [op_node_id n] (add_node n (bs_graph s))
              in (case map_of outputs i of
                    None \<Rightarrow> Inr \<lparr>bs_graph = rg, bs_visited = visited\<rparr>
                  | Some (name, path) \<Rightarrow>
                      ebind (as_dict v) (\<lambda>d. ebind (dict_index d ''mode'') (\<lambda>mode.
                        Inr \<lparr>bs_graph = set_output (op_node_id n) name
                             (Some (case given_path path of None \<Rightarrow> default_path mode | Some p \<Rightarrow> p)) rg, bs_visited = visited\<rparr>))))))"

definition build_llm_nodes ::
  "builder_env \<Rightarrow> dsl_graph \<Rightarrow> input_values \<Rightarrow> string option \<Rightarrow> dsl_op \<Rightarrow> string list \<Rightarrow> (runtime_op list \<times> string list) result" where
  "build_llm_nodes env g ins override op visited =
     (case d_body op of
        LLMVisionOp c src path \<Rightarrow> build_vision_nodes env g ins op c src path visited
      | LLMChatOp c \<Rightarrow> ebind (build_chat_node env g ins override op c visited) (\<lambda>(n, vs). Inr ([n], vs))
      | EmbeddingOp config _ \<Rightarrow> ebind (build_embedding_node env g ins op config visited) (\<lambda>(n, vs). Inr ([n], vs))
      | ImageGenerationOp config _ \<Rightarrow> ebind (build_image_node env g ins op config visited) (\<lambda>(n, vs). Inr ([n], vs))
      | _ \<Rightarrow> Inl AssertionError)"

definition runtime_ids_of :: "string \<Rightarrow> op_body \<Rightarrow> string list" where
  "runtime_ids_of i b = (case b of LLMVisionOp _ _ _ \<Rightarrow> [embedding_name i, i] | _ \<Rightarrow> [i])"

text \<open>A node whose name is taken is left out.\<close>

definition add_new_node :: "runtime_graph \<Rightarrow> runtime_op \<Rightarrow> runtime_graph" where
  "add_new_node rg op = (if op_node_id op \<in> set (dict_keys (rg_nodes rg)) then rg else add_node op rg)"

definition add_llm_op ::
  "builder_env \<Rightarrow> dsl_graph \<Rightarrow> input_values \<Rightarrow> string option \<Rightarrow> (string, string \<times> string option) dict \<Rightarrow> string \<times> dsl_op \<Rightarrow> build_state \<Rightarrow> build_state result" where
  "add_llm_op env g ins override outputs x s =
     (case x of (i, op) \<Rightarrow>
        ebind (build_llm_nodes env g ins override op (bs_visited s)) (\<lambda>(ns, visited).
          let rg = set_runtime_ids i (runtime_ids_of i (d_body op)) (foldl add_new_node (bs_graph s) ns)
          in Inr \<lparr>bs_graph = (case map_of outputs i of None \<Rightarrow> rg | Some (name, path) \<Rightarrow> set_output i name (given_path path) rg),
                  bs_visited = visited\<rparr>))"

definition empty_runtime_graph :: runtime_graph where
  "empty_runtime_graph = \<lparr>rg_nodes = [], rg_node_order = [], rg_output_node_map = [], rg_output_paths = [], rg_dsl_to_runtime = []\<rparr>"

text \<open>
  \<open>build\<close>: \<open>node_of\<close> makes the node of a retrieval op; a data profile has its own and leaves the
  model ops out.
\<close>

definition build_with ::
  "(dsl_graph \<Rightarrow> input_values \<Rightarrow> dsl_op \<Rightarrow> pyval \<Rightarrow> runtime_op option result) \<Rightarrow> builder_env \<Rightarrow> (string \<Rightarrow> string) \<Rightarrow> string option \<Rightarrow> string option \<Rightarrow> compiled_graph \<Rightarrow> runtime_graph result" where
  "build_with node_of env digest override node_prefix cg =
     (let g = cg_graph cg; ins = cg_inputs cg; profile = (override = Some ''data_profile'') in
      ebind (survey g) (\<lambda>sv.
      ebind (efold (add_retrieval_op g (node_of g ins) (os_outputs sv)) (os_retrieval sv) \<lparr>bs_graph = empty_runtime_graph, bs_visited = os_visited sv\<rparr>) (\<lambda>s.
      ebind (if profile then Inr s else efold (add_llm_op env g ins override (os_outputs sv)) (os_llm sv) s) (\<lambda>s.
      if \<not> profile \<and> list_ex (\<lambda>i. i \<notin> set (bs_visited s)) (dict_keys (dg_ids g))
      then Inl (ValueError ''Graph transformation failed: ops were not visited'')
      else ebind (rg_topological_order (bs_graph s)) (\<lambda>order.
        let rg = bs_graph s\<lparr>rg_node_order := order\<rparr>
        in case given_path node_prefix of None \<Rightarrow> Inr rg | Some p \<Rightarrow> with_node_prefix (make_node_prefix digest p) ''__'' rg)))))"

definition build_runtime_graph ::
  "builder_env \<Rightarrow> (pyval \<Rightarrow> string) \<Rightarrow> (string \<Rightarrow> string) \<Rightarrow> string option \<Rightarrow> compiled_graph \<Rightarrow> runtime_graph result" where
  "build_runtime_graph env render digest node_prefix cg =
     build_with (\<lambda>g ins op v. ebind (build_retrieval_node env render g ins op v) (\<lambda>n. Inr (Some n))) env digest None node_prefix cg"

end
