(* ===== verification/BuilderTrace.thy ===== *)
theory BuilderTrace
  imports Builder
begin

text \<open>
  What the trace of a prompt finds: the reference relation of the ops that feed an op, the labels of
  the columns, and the proof that the trace adds exactly the ops that feed the prompt and that it
  ends on every typed graph.
\<close>

section \<open>Which ops feed a prompt\<close>

text \<open>
  The reference: the model and retrieval ops whose outputs reach an op, through messages, formats
  and lambdas only. A message op reads the inputs that its messages name.
\<close>

definition operands :: "dsl_op \<Rightarrow> ref list" where
  "operands op =
     (case d_body op of
        MessageOp roles refs \<Rightarrow> List.map_filter (\<lambda>m. case m of (_, Inl k) \<Rightarrow> Some (d_inputs op ! k) | _ \<Rightarrow> None) (zip roles refs)
      | FormatOp _ _ _ \<Rightarrow> d_inputs op
      | LambdaOp _ _ \<Rightarrow> d_inputs op
      | _ \<Rightarrow> [])"

inductive feeds :: "(ref, dsl_op) dict \<Rightarrow> ref \<Rightarrow> string \<Rightarrow> bool" for heap where
  source: "map_of heap r = Some op \<Longrightarrow> is_source (d_body op) \<Longrightarrow> feeds heap r (d_id op)"
| operand: "map_of heap r = Some op \<Longrightarrow> s \<in> set (operands op) \<Longrightarrow> feeds heap s i \<Longrightarrow> feeds heap r i"

inductive_cases feedsE: "feeds heap r i"

text \<open>What the trace has to find: an id as a column, and the id of a model op among the upstream ops as well.\<close>

definition llm_id :: "(ref, dsl_op) dict \<Rightarrow> string \<Rightarrow> bool" where
  "llm_id heap i \<longleftrightarrow> (\<exists>r op. map_of heap r = Some op \<and> d_id op = i \<and> is_llm (d_body op))"

definition fed :: "(ref, dsl_op) dict \<Rightarrow> ref \<Rightarrow> (string + string) set" where
  "fed heap r = Inl ` {i. feeds heap r i} \<union> Inr ` {i. feeds heap r i \<and> llm_id heap i}"

text \<open>The ids differ from each other and from the labels and nodes that are made from ids.\<close>

definition clean_ids :: "(ref, dsl_op) dict \<Rightarrow> bool" where
  "clean_ids heap \<longleftrightarrow>
     distinct (dict_keys heap) \<and> distinct (map (\<lambda>(r, op). d_id op) heap) \<and>
     list_all (\<lambda>(r, p). list_all (\<lambda>(s, q). d_id p \<notin> {d_id q @ ''_output'', d_id q @ ''_context'', embedding_name (d_id q)}) heap) heap"

lemma clean_idsD:
  assumes "clean_ids heap" and "map_of heap r = Some p" and "map_of heap s = Some q"
  shows "d_id p = d_id q \<longleftrightarrow> r = s"
    "d_id p \<noteq> d_id q @ ''_output''" "d_id p \<noteq> d_id q @ ''_context''" "d_id p \<noteq> embedding_name (d_id q)"
proof -
  have mem: "(r, p) \<in> set heap" "(s, q) \<in> set heap" using assms(2,3) by (simp_all add: map_of_SomeD)
  have "inj_on (\<lambda>(r, op). d_id op) (set heap)" using assms(1) by (simp add: clean_ids_def distinct_map)
  with mem have "d_id p = d_id q \<Longrightarrow> (r, p) = (s, q)" using inj_onD [of "\<lambda>(r, op). d_id op" "set heap" "(r, p)" "(s, q)"] by simp
  with assms(2,3) show "d_id p = d_id q \<longleftrightarrow> r = s" by auto
  from assms(1) mem show "d_id p \<noteq> d_id q @ ''_output''" "d_id p \<noteq> d_id q @ ''_context''" "d_id p \<noteq> embedding_name (d_id q)"
    by (force simp: clean_ids_def list_all_iff)+
qed

lemma fed_source:
  assumes "map_of heap r = Some op" and "is_source (d_body op)"
  shows "fed heap r = (if llm_id heap (d_id op) then {Inl (d_id op), Inr (d_id op)} else {Inl (d_id op)})"
proof -
  have "operands op = []" using assms(2) by (auto simp: operands_def is_source_def split: op_body.splits)
  then have "feeds heap r i \<longleftrightarrow> i = d_id op" for i using assms by (auto elim: feedsE intro: feeds.source)
  then show ?thesis by (auto simp: fed_def)
qed

lemma fed_other:
  assumes "map_of heap r = Some op" and "\<not> is_source (d_body op)"
  shows "fed heap r = (\<Union>s \<in> set (operands op). fed heap s)"
proof -
  have "feeds heap r i \<longleftrightarrow> (\<exists>s \<in> set (operands op). feeds heap s i)" for i
  proof
    assume "feeds heap r i"
    then show "\<exists>s \<in> set (operands op). feeds heap s i" using assms by (cases rule: feeds.cases) auto
  qed (use assms(1) in \<open>blast intro: feeds.operand\<close>)
  then show ?thesis by (auto simp: fed_def)
qed

lemma is_llm_id:
  assumes "clean_ids heap" and "map_of heap r = Some op"
  shows "llm_id heap (d_id op) \<longleftrightarrow> is_llm (d_body op)"
proof
  assume "llm_id heap (d_id op)"
  then obtain s q where q: "map_of heap s = Some q" "d_id q = d_id op" "is_llm (d_body q)" by (auto simp: llm_id_def)
  with clean_idsD(1) [OF assms(1) q(1) assms(2)] assms(2) show "is_llm (d_body op)" by simp
qed (use assms in \<open>auto simp: llm_id_def\<close>)

section \<open>Columns\<close>

definition column_reads :: "spec \<Rightarrow> string list" where
  "column_reads c = (case field_of c ''node'' of PStr n \<Rightarrow> [n] | _ \<Rightarrow> [])"

definition plain_column :: "spec \<Rightarrow> bool" where
  "plain_column c \<longleftrightarrow> nested_columns c = Inr []"

text \<open>A column of an op: its output or context, or the op itself; the label tells the op.\<close>

definition column_ok :: "(ref, dsl_op) dict \<Rightarrow> string \<Rightarrow> spec \<Rightarrow> bool" where
  "column_ok heap l c \<longleftrightarrow> plain_column c \<and>
     (\<exists>r op. map_of heap r = Some op \<and>
        (if is_llm (d_body op) then l \<in> {d_id op @ ''_output'', d_id op @ ''_context''} \<and> column_reads c = [d_id op]
         else l = d_id op \<and> column_reads c = (if is_source (d_body op) then [d_id op] else [])))"

lemma output_context: "x @ ''_output'' \<noteq> y @ ''_context''"
proof
  assume "x @ ''_output'' = y @ ''_context''"
  then have "take 3 (rev (x @ ''_output'')) = take 3 (rev (y @ ''_context''))" by simp
  then show False by simp
qed

lemma column_ok_unique:
  assumes clean: "clean_ids heap" and "column_ok heap l c" and "column_ok heap l c'"
  shows "column_reads c = column_reads c'"
proof -
  from assms(2) obtain r p where p: "map_of heap r = Some p"
      "if is_llm (d_body p) then l \<in> {d_id p @ ''_output'', d_id p @ ''_context''} \<and> column_reads c = [d_id p]
       else l = d_id p \<and> column_reads c = (if is_source (d_body p) then [d_id p] else [])"
    unfolding column_ok_def by blast
  from assms(3) obtain s q where q: "map_of heap s = Some q"
      "if is_llm (d_body q) then l \<in> {d_id q @ ''_output'', d_id q @ ''_context''} \<and> column_reads c' = [d_id q]
       else l = d_id q \<and> column_reads c' = (if is_source (d_body q) then [d_id q] else [])"
    unfolding column_ok_def by blast
  note pq = clean_idsD [OF clean p(1) q(1)] clean_idsD [OF clean q(1) p(1)]
  have "d_id p = d_id q"
    using p(2) q(2) pq output_context [of "d_id p" "d_id q"] output_context [of "d_id q" "d_id p"]
    by (cases "is_llm (d_body p)"; cases "is_llm (d_body q)") auto
  with pq(1) have "r = s" by simp
  with p q show ?thesis by (auto split: if_splits)
qed

definition columns_ok :: "(ref, dsl_op) dict \<Rightarrow> trace_state \<Rightarrow> bool" where
  "columns_ok heap st \<longleftrightarrow> distinct (dict_keys (tr_columns st)) \<and> list_all (\<lambda>(l, c). column_ok heap l c) (tr_columns st)"

definition known :: "trace_state \<Rightarrow> (string + string) set" where
  "known st = Inl ` (\<Union>(l, c) \<in> set (tr_columns st). set (column_reads c)) \<union> Inr ` set (tr_upstream st)"

lemma set_update_distinct:
  "distinct (dict_keys d) \<Longrightarrow> set (AList.update k v d) = insert (k, v) {x \<in> set d. fst x \<noteq> k}"
  by (induction d) (auto simp: image_iff)

lemma set_column_ok:
  assumes "clean_ids heap" and "columns_ok heap st" and "column_ok heap l c"
  shows "columns_ok heap (set_column l c st)" "known (set_column l c st) = known st \<union> Inl ` set (column_reads c)"
proof -
  have d: "distinct (dict_keys (tr_columns st))" using assms(2) by (simp add: columns_ok_def)
  note upd = set_update_distinct [OF d, of l c]
  show "columns_ok heap (set_column l c st)"
    using assms(2,3) by (auto simp: columns_ok_def set_column_def list_all_iff upd)
  have same: "column_reads c' = column_reads c" if "(l, c') \<in> set (tr_columns st)" for c'
    using that assms by (intro column_ok_unique [OF assms(1)]) (auto simp: columns_ok_def list_all_iff)
  have "(\<Union>(l, c) \<in> set (AList.update l c (tr_columns st)). set (column_reads c)) =
      (\<Union>(l, c) \<in> set (tr_columns st). set (column_reads c)) \<union> set (column_reads c)" (is "?L = ?R")
  proof
    show "?L \<subseteq> ?R" by (auto simp: upd)
    show "?R \<subseteq> ?L"
    proof
      fix i assume "i \<in> ?R"
      then consider "i \<in> set (column_reads c)" | l' c' where "(l', c') \<in> set (tr_columns st)" "i \<in> set (column_reads c')" by auto
      then show "i \<in> ?L"
      proof cases
        case (2 l' c')
        then show ?thesis using same by (cases "l' = l") (force simp: upd)+
      qed (auto simp: upd)
    qed
  qed
  then show "known (set_column l c st) = known st \<union> Inl ` set (column_reads c)" by (auto simp: known_def set_column_def)
qed

lemma add_column_ok:
  assumes "clean_ids heap" and "columns_ok heap st" and "column_ok heap l c"
  shows "columns_ok heap (add_column l c st)" "known (add_column l c st) = known st \<union> Inl ` set (column_reads c)"
proof -
  have "known st = known st \<union> Inl ` set (column_reads c)" if "l \<in> set (dict_keys (tr_columns st))"
  proof -
    from that obtain c' where c': "(l, c') \<in> set (tr_columns st)" by auto
    then have "column_reads c' = column_reads c"
      using assms by (intro column_ok_unique [OF assms(1)]) (auto simp: columns_ok_def list_all_iff)
    with c' show ?thesis by (force simp: known_def)
  qed
  then show "columns_ok heap (add_column l c st)" "known (add_column l c st) = known st \<union> Inl ` set (column_reads c)"
    using set_column_ok [OF assms] assms(2) by (auto simp: add_column_def)
qed

lemma node_column_reads [simp]: "column_reads (node_column i p) = [i]" "plain_column (node_column i p)"
  by (simp_all add: column_reads_def node_column_def dict_get_def plain_column_def nested_columns_def)

lemma list_column_reads [simp]: "column_reads (list_column v) = []" "plain_column (list_column v)"
  by (simp_all add: column_reads_def list_column_def dict_get_def plain_column_def nested_columns_def)

section \<open>What the trace finds\<close>

text \<open>
  The ops that have been traced are known to the full, but for those (\<open>X\<close>) that are still being
  traced: their entry in the buffer may be there before their inputs are.
\<close>

definition trace_inv :: "(ref, dsl_op) dict \<Rightarrow> string set \<Rightarrow> trace_state \<Rightarrow> bool" where
  "trace_inv heap X st \<longleftrightarrow>
     columns_ok heap st \<and> (\<forall>i \<in> set (tr_upstream st). Inl i \<in> known st) \<and>
     (\<forall>r op. map_of heap r = Some op \<longrightarrow> d_id op \<in> set (dict_keys (tr_buffer st)) \<longrightarrow> d_id op \<notin> X \<longrightarrow> fed heap r \<subseteq> known st)"

definition grows :: "(ref, dsl_op) dict \<Rightarrow> string set \<Rightarrow> (string + string) set \<Rightarrow> trace_state \<Rightarrow> trace_state \<Rightarrow> bool" where
  "grows heap X F st st' \<longleftrightarrow> (trace_inv heap X st \<longrightarrow> trace_inv heap X st' \<and> known st' = known st \<union> F)"

lemma grows_refl: "grows heap X {} st st"
  by (simp add: grows_def)

lemma grows_trans: "grows heap X F st st' \<Longrightarrow> grows heap X G st' st'' \<Longrightarrow> grows heap X (F \<union> G) st st''"
  by (auto simp: grows_def)

lemma smap_grows:
  assumes "smap f xs st = Inr (ys, t)"
    and "\<And>x s y s'. x \<in> set xs \<Longrightarrow> f x s = Inr (y, s') \<Longrightarrow> grows heap X (F x) s s'"
  shows "grows heap X (\<Union>x \<in> set xs. F x) st t"
  using assms
proof (induction xs arbitrary: st ys)
  case (Cons x xs)
  from Cons.prems(1) obtain y s zs where "f x st = Inr (y, s)" "smap f xs s = Inr (zs, t)" by (auto simp: ebind_Inr_iff)
  with Cons.IH [of s zs] Cons.prems(2) have "grows heap X (F x) st s" "grows heap X (\<Union>x \<in> set xs. F x) s t" by simp_all
  from grows_trans [OF this] show ?case by simp
qed (simp add: grows_refl)

lemma efold_grows:
  assumes "efold f xs st = Inr t"
    and "\<And>x s s'. x \<in> set xs \<Longrightarrow> f x s = Inr s' \<Longrightarrow> grows heap X (F x) s s'"
  shows "grows heap X (\<Union>x \<in> set xs. F x) st t"
  using assms
proof (induction xs arbitrary: st)
  case (Cons x xs)
  from Cons.prems(1) obtain s where "f x st = Inr s" "efold f xs s = Inr t" by (auto simp: ebind_Inr_iff)
  with Cons.IH [of s] Cons.prems(2) have "grows heap X (F x) st s" "grows heap X (\<Union>x \<in> set xs. F x) s t" by simp_all
  from grows_trans [OF this] show ?case by simp
qed (simp add: grows_refl)

lemma known_simps [simp]:
  "known (mark_visited i st) = known st" "known (remember i ms st) = known st" "known (set_step l s args f st) = known st"
  by (simp_all add: known_def mark_visited_def remember_def set_step_def)

lemma columns_ok_simps [simp]:
  "columns_ok heap (mark_visited i st) = columns_ok heap st" "columns_ok heap (remember i ms st) = columns_ok heap st"
  "columns_ok heap (set_step l s args f st) = columns_ok heap st"
  by (simp_all add: columns_ok_def mark_visited_def remember_def set_step_def)

lemma other_fields_simps [simp]:
  "tr_buffer (mark_visited i st) = tr_buffer st" "tr_buffer (set_step l s args f st) = tr_buffer st"
  "tr_buffer (set_column l c st) = tr_buffer st" "tr_buffer (add_column l c st) = tr_buffer st"
  "tr_upstream (mark_visited i st) = tr_upstream st" "tr_upstream (remember i ms st) = tr_upstream st"
  "tr_upstream (set_step l s args f st) = tr_upstream st" "tr_upstream (set_column l c st) = tr_upstream st"
  "tr_upstream (add_column l c st) = tr_upstream st" "tr_columns (remember i ms st) = tr_columns st"
  "tr_columns (mark_visited i st) = tr_columns st" "tr_columns (set_step l s args f st) = tr_columns st"
  by (simp_all add: mark_visited_def set_step_def set_column_def add_column_def remember_def)

lemma keys_remember [simp]: "set (dict_keys (tr_buffer (remember i ms st))) = insert i (set (dict_keys (tr_buffer st)))"
  by (simp add: remember_def image_keys_update)

lemma grows_remember: "i \<in> X \<Longrightarrow> grows heap X {} st (remember i ms st)"
  unfolding grows_def trace_inv_def keys_remember by auto

lemma grows_mark: "grows heap X {} st (mark_visited i st)"
  by (simp add: grows_def trace_inv_def)

lemma grows_step: "grows heap X {} st (set_step l s args f st)"
  by (simp add: grows_def trace_inv_def)

lemma grows_append: "i \<in> X \<Longrightarrow> grows heap X {} st (append_messages i ms st)"
  unfolding append_messages_def by (rule grows_remember)

lemma trace_inv_grow:
  assumes "trace_inv heap X st" and "columns_ok heap st'" and "known st \<subseteq> known st'" and "tr_buffer st' = tr_buffer st"
    and "\<forall>i \<in> set (tr_upstream st'). i \<in> set (tr_upstream st) \<or> Inl i \<in> known st'"
  shows "trace_inv heap X st'"
  using assms unfolding trace_inv_def by (metis subset_trans subsetD)

lemma grows_column:
  assumes "clean_ids heap" and "column_ok heap l c"
  shows "grows heap X (Inl ` set (column_reads c)) st (add_column l c st)"
    "grows heap X (Inl ` set (column_reads c)) st (set_column l c st)"
proof -
  have cols: "columns_ok heap st" if "trace_inv heap X st" using that by (simp add: trace_inv_def)
  have "trace_inv heap X (add_column l c st)" "known (add_column l c st) = known st \<union> Inl ` set (column_reads c)" if "trace_inv heap X st"
    using trace_inv_grow [OF that, of "add_column l c st"] add_column_ok [OF assms(1) cols [OF that] assms(2)] by simp_all
  then show "grows heap X (Inl ` set (column_reads c)) st (add_column l c st)" by (simp add: grows_def)
  have "trace_inv heap X (set_column l c st)" "known (set_column l c st) = known st \<union> Inl ` set (column_reads c)" if "trace_inv heap X st"
    using trace_inv_grow [OF that, of "set_column l c st"] set_column_ok [OF assms(1) cols [OF that] assms(2)] by simp_all
  then show "grows heap X (Inl ` set (column_reads c)) st (set_column l c st)" by (simp add: grows_def)
qed

text \<open>An op that has just been traced is known, so it need not count as being traced any more.\<close>

lemma grows_finish:
  assumes clean: "clean_ids heap" and r: "map_of heap r = Some op" and grow: "grows heap (insert (d_id op) X) (fed heap r) st st'"
  shows "grows heap X (fed heap r) st st'"
proof -
  have "trace_inv heap X st'" if inv: "trace_inv heap X st"
  proof -
    from inv have "trace_inv heap (insert (d_id op) X) st" by (auto simp: trace_inv_def)
    with grow have st': "trace_inv heap (insert (d_id op) X) st'" "known st' = known st \<union> fed heap r" by (simp_all add: grows_def)
    have "fed heap s \<subseteq> known st'" if "map_of heap s = Some p" "d_id p \<in> set (dict_keys (tr_buffer st'))" "d_id p \<notin> X" for s p
    proof (cases "d_id p = d_id op")
      case True
      with clean_idsD(1) [OF clean that(1) r] have "s = r" by simp
      with st'(2) show ?thesis by blast
    next
      case False
      with st'(1) that show ?thesis unfolding trace_inv_def by blast
    qed
    with st'(1) show ?thesis by (simp add: trace_inv_def)
  qed
  moreover have "known st' = known st \<union> fed heap r" if "trace_inv heap X st"
  proof -
    from that have "trace_inv heap (insert (d_id op) X) st" by (auto simp: trace_inv_def)
    with grow show ?thesis by (simp add: grows_def)
  qed
  ultimately show ?thesis by (simp add: grows_def)
qed

text \<open>The ops that read nothing here.\<close>

lemma trace_llm_grows:
  assumes clean: "clean_ids heap" and r: "map_of heap r = Some op" and llm: "is_llm (d_body op)" and "d_id op \<in> X"
  shows "grows heap X (fed heap r) st (trace_llm (d_id op) (d_body op) st)"
proof -
  let ?i = "d_id op"
  have fed: "fed heap r = {Inl ?i, Inr ?i}"
    using fed_source [OF r] llm is_llm_id [OF clean r] by (simp add: is_source_def)
  have ok: "column_ok heap (?i @ ''_output'') (node_column ?i p)" "column_ok heap (?i @ ''_context'') (node_column ?i p)" for p
    using r llm by (auto simp: column_ok_def)
  show ?thesis
  proof (cases "?i \<in> set (tr_upstream st)")
    case True
    then have "grows heap X {Inl ?i, Inr ?i} st st" by (auto simp: grows_def trace_inv_def known_def)
    from grows_trans [OF this grows_remember [OF assms(4)]] True show ?thesis
      by (simp add: trace_llm_def fed Let_def)
  next
    case False
    let ?st1 = "st\<lparr>tr_upstream := tr_upstream st @ [?i]\<rparr>"
    let ?st2 = "(if returns_history (d_body op) then set_column (?i @ ''_context'') (node_column ?i ''items.metadata.prompt'') else id) ?st1"
    let ?st3 = "set_column (?i @ ''_output'') (node_column ?i ''items.output'') ?st2"
    have "trace_inv heap X ?st3 \<and> known ?st3 = known st \<union> fed heap r" if inv: "trace_inv heap X st"
    proof -
      have cols: "columns_ok heap ?st1" using inv by (simp add: trace_inv_def columns_ok_def)
      have k1: "known ?st1 = known st \<union> {Inr ?i}" by (auto simp: known_def)
      have c2: "columns_ok heap ?st2" "known ?st2 \<union> {Inl ?i} = known ?st1 \<union> {Inl ?i}"
        using set_column_ok [OF clean cols ok(2)] cols by auto
      note c3 = set_column_ok [OF clean c2(1) ok(1) [of "''items.output''"]]
      have k3: "known ?st3 = known st \<union> fed heap r" using c2(2) k1 by (auto simp: c3(2) fed)
      have "tr_upstream ?st3 = tr_upstream st @ [?i]" "tr_buffer ?st3 = tr_buffer st" by auto
      then have "trace_inv heap X ?st3" by (intro trace_inv_grow [OF inv c3(1)]) (use k3 fed in auto)
      with k3 show ?thesis by blast
    qed
    then have "grows heap X (fed heap r) st ?st3" by (simp add: grows_def)
    from grows_trans [OF this grows_remember [OF assms(4)]] False show ?thesis by (simp add: trace_llm_def Let_def)
  qed
qed

lemma fed_leaf: "map_of heap r = Some op \<Longrightarrow> \<not> is_source (d_body op) \<Longrightarrow> operands op = [] \<Longrightarrow> fed heap r = {}"
  by (simp add: fed_other)

lemma trace_leaf_grows:
  assumes clean: "clean_ids heap" and r: "map_of heap r = Some op" and "d_id op \<in> X"
    and leaf: "\<not> is_llm (d_body op)" and c: "plain_column c" "column_reads c = (if is_source (d_body op) then [d_id op] else [])"
    and none: "operands op = []"
  shows "grows heap X (fed heap r) st (remember (d_id op) ms (add_column (d_id op) c st))"
proof -
  have "fed heap r = Inl ` set (column_reads c)"
    using fed_source [OF r] fed_leaf [OF r _ none] is_llm_id [OF clean r] leaf c(2) by auto
  moreover have "column_ok heap (d_id op) c" using r leaf c by (auto simp: column_ok_def)
  note grows_trans [OF grows_column(1) [OF clean this] grows_remember [OF assms(3)]]
  ultimately show ?thesis by simp
qed

text \<open>The ops that put the messages of their inputs together.\<close>

lemma trace_labels_grows:
  assumes "trace_labels g trace op st = Inr (labels, st')"
    and "\<And>s st ms st'. s \<in> set (d_inputs op) \<Longrightarrow> trace s st = Inr (ms, st') \<Longrightarrow> grows heap X (fed heap s) st st'"
  shows "grows heap X (\<Union>s \<in> set (d_inputs op). fed heap s) st st'"
proof -
  from assms(1) obtain rows where
    "smap (\<lambda>r st. ebind (ref_id (dg_heap g) r) (\<lambda>i. ebind (trace r st) (\<lambda>(ms, st). Inr ((i, ms), st)))) (d_inputs op) st = Inr (rows, st')"
    by (auto simp: trace_labels_def ebind_Inr_iff)
  then show ?thesis by (rule smap_grows) (auto simp: ebind_Inr_iff intro: assms(2))
qed

lemma trace_message_grows:
  assumes "trace_message trace op m st = Inr st'" and "d_id op \<in> X"
    and "\<And>s st ms st'. s \<in> set (d_inputs op) \<Longrightarrow> trace s st = Inr (ms, st') \<Longrightarrow> grows heap X (fed heap s) st st'"
  shows "grows heap X (case m of (_, Inl k) \<Rightarrow> fed heap (d_inputs op ! k) | _ \<Rightarrow> {}) st st'"
proof (cases m)
  case (Pair role c)
  show ?thesis
  proof (cases c)
    case (Inl k)
    with assms(1) Pair obtain ms ms' st1 where k: "k < length (d_inputs op)" and t: "trace (d_inputs op ! k) st = Inr (ms, st1)"
      and st': "st' = append_messages (d_id op) ms' st1"
      by (auto simp: trace_message_def input_ref_def ebind_Inr_iff split: if_splits)
    note step = assms(3) [OF nth_mem [OF k] t]
    from grows_trans [OF step grows_append [OF assms(2)]] show ?thesis by (simp add: Pair Inl st')
  next
    case (Inr words)
    with assms(1) Pair obtain ms where "st' = append_messages (d_id op) ms st" by (auto simp: trace_message_def ebind_Inr_iff)
    with grows_append [OF assms(2)] show ?thesis by (simp add: Pair Inr)
  qed
qed

lemma map_filter_union:
  "(\<Union>s \<in> set (List.map_filter (\<lambda>m. case m of (_, Inl k) \<Rightarrow> Some (f k) | _ \<Rightarrow> None) ms). F s) =
     (\<Union>m \<in> set ms. case m of (_, Inl k) \<Rightarrow> F (f k) | _ \<Rightarrow> {})"
proof (induction ms)
  case (Cons m ms)
  then show ?case by (cases m; cases "snd m") (auto simp: map_filter_simps)
qed (simp add: map_filter_simps)

lemma trace_body_grows:
  assumes clean: "clean_ids (dg_heap g)" and r: "map_of (dg_heap g) r = Some op"
    and run: "trace_body g ins target trace op st = Inr st'" and X: "d_id op \<in> X"
    and IH: "\<And>s st ms st'. s \<in> set (d_inputs op) \<Longrightarrow> trace s st = Inr (ms, st') \<Longrightarrow> grows (dg_heap g) X (fed (dg_heap g) s) st st'"
  shows "grows (dg_heap g) X (fed (dg_heap g) r) st st'"
proof -
  let ?h = "dg_heap g"
  note leaf = trace_leaf_grows [OF clean r X]
  have keep: "grows ?h X (fed ?h r) st (remember (d_id op) ms st)"
    if "d_id op \<in> set (dict_keys (tr_columns st))" "\<not> is_llm (d_body op)" "operands op = []" for ms
    using leaf [OF that(2) _ _ that(3), of "if is_source (d_body op) then node_column (d_id op) [] else list_column PNone" st ms] that(1)
    by (simp add: add_column_def split: if_splits)
  have llm: "grows ?h X (fed ?h r) st st'" if "is_llm (d_body op)"
  proof -
    from run that have "st' = trace_llm (d_id op) (d_body op) st" by (cases "d_body op") (auto simp: trace_body_def split: if_splits)
    then show ?thesis using trace_llm_grows [OF clean r that X] by simp
  qed
  show ?thesis
  proof (cases "d_body op")
    case (DataOp v)
    with run have "st' = remember (d_id op) [(Some ''user'', d_id op)] (add_column (d_id op) (list_column v) st)" by (simp add: trace_body_def)
    then show ?thesis using leaf [of "list_column v"] DataOp by (simp add: operands_def is_source_def)
  next
    case (InputOp n)
    with run consider "d_id op \<in> set (dict_keys (tr_columns st))" "st' = remember (d_id op) [(Some ''user'', d_id op)] st"
      | vs where "st' = remember (d_id op) [(Some ''user'', d_id op)] (add_column (d_id op) (list_column (pstrs vs)) st)"
      by (auto simp: trace_body_def trace_input_def ebind_Inr_iff split: if_splits)
    then show ?thesis
    proof cases
      case 1
      with keep InputOp show ?thesis by (simp add: operands_def)
    next
      case (2 vs)
      then show ?thesis using leaf [of "list_column (pstrs vs)"] InputOp by (simp add: operands_def is_source_def)
    qed
  next
    case (DataRetrievalOp v)
    with run consider "d_id op \<in> set (dict_keys (tr_columns st))" "st' = remember (d_id op) [(Some ''user'', d_id op)] st"
      | p where "st' = remember (d_id op) [(Some ''user'', d_id op)] (add_column (d_id op) (node_column (d_id op) p) st)"
      by (auto simp: trace_body_def trace_retrieval_def ebind_Inr_iff split: if_splits)
    then show ?thesis
    proof cases
      case 1
      with keep DataRetrievalOp show ?thesis by (simp add: operands_def)
    next
      case (2 p)
      then show ?thesis using leaf [of "node_column (d_id op) p"] DataRetrievalOp by (simp add: operands_def is_source_def)
    qed
  next
    case (MessageOp roles refs)
    then have fed: "fed ?h r = (\<Union>m \<in> set (zip roles refs). case m of (_, Inl k) \<Rightarrow> fed ?h (d_inputs op ! k) | _ \<Rightarrow> {})"
      using fed_other [OF r] by (simp add: is_source_def operands_def map_filter_union)
    from MessageOp run have "efold (trace_message trace op) (zip roles refs) (remember (d_id op) [] st) = Inr st'" by (simp add: trace_body_def)
    then have "grows ?h X (fed ?h r) (remember (d_id op) [] st) st'"
      unfolding fed by (rule efold_grows) (rule trace_message_grows [OF _ X IH])
    with grows_trans [OF grows_remember [OF X]] show ?thesis by fastforce
  next
    case (FormatOp t args kwargs)
    then have fed: "fed ?h r = (\<Union>s \<in> set (d_inputs op). fed ?h s)" using fed_other [OF r] by (simp add: is_source_def operands_def)
    from FormatOp run obtain labels as st1 where l: "trace_labels g trace op st = Inr (labels, st1)"
      and st': "st' = remember (d_id op) [(Some ''user'', ''format_'' @ d_id op)] (set_step (''format_'' @ d_id op) t as False st1)"
      by (auto simp: trace_body_def trace_format_def ebind_Inr_iff Let_def split: if_splits)
    from trace_labels_grows [OF l IH] have "grows ?h X (fed ?h r) st st1" by (simp add: fed)
    from grows_trans [OF this grows_trans [OF grows_step grows_remember [OF X]]] show ?thesis by (simp add: st')
  next
    case (LambdaOp n code)
    then have fed: "fed ?h r = (\<Union>s \<in> set (d_inputs op). fed ?h s)" using fed_other [OF r] by (simp add: is_source_def operands_def)
    from LambdaOp run obtain labels as st1 where l: "trace_labels g trace op st = Inr (labels, st1)"
      and st': "st' = remember (d_id op) [(Some ''user'', ''lambda_'' @ d_id op)] (set_step (''lambda_'' @ d_id op) code as True st1)"
      by (auto simp: trace_body_def trace_lambda_def ebind_Inr_iff Let_def)
    from trace_labels_grows [OF l IH] have "grows ?h X (fed ?h r) st st1" by (simp add: fed)
    from grows_trans [OF this grows_trans [OF grows_step grows_remember [OF X]]] show ?thesis by (simp add: st')
  next
    case (OutputOp n p)
    with run show ?thesis by (simp add: trace_body_def)
  qed (use llm in simp_all)
qed

text \<open>Whatever is traced is known afterwards, and nothing else.\<close>

lemma trace_grows:
  assumes "clean_ids (dg_heap g)" and "acyclic (op_edges (dg_heap g))"
    and "trace_ancestors n g ins target r st = Inr (ms, st')"
    and "\<And>s op. (s, r) \<in> (op_edges (dg_heap g))\<^sup>* \<Longrightarrow> map_of (dg_heap g) s = Some op \<Longrightarrow> d_id op \<notin> X"
  shows "grows (dg_heap g) X (fed (dg_heap g) r) st st'"
  using assms(3,4)
proof (induction n arbitrary: r st ms st' X)
  case (Suc n)
  let ?h = "dg_heap g"
  from Suc.prems(1) obtain op where r: "map_of ?h r = Some op" by (auto simp: ebind_Inr_iff dict_index_Inr_iff)
  show ?case
  proof (cases "map_of (tr_buffer st) (d_id op)")
    case None
    with Suc.prems(1) r obtain st1 where
      body: "trace_body g ins target (trace_ancestors n g ins target) op (mark_visited (d_id op) st) = Inr st1" and st': "st' = st1"
      by (auto simp: ebind_Inr_iff dict_index_Inr_iff)
    have "grows ?h (insert (d_id op) X) (fed ?h r) (mark_visited (d_id op) st) st1"
    proof (rule trace_body_grows [OF assms(1) r body])
      fix s st ms st'
      assume s: "s \<in> set (d_inputs op)" and t: "trace_ancestors n g ins target s st = Inr (ms, st')"
      have edge: "(s, r) \<in> op_edges ?h" using s r by (auto simp: op_edges_def)
      show "grows ?h (insert (d_id op) X) (fed ?h s) st st'"
      proof (rule Suc.IH [OF t])
        fix u p assume u: "(u, s) \<in> (op_edges ?h)\<^sup>*" "map_of ?h u = Some p"
        with edge have path: "(u, r) \<in> (op_edges ?h)\<^sup>+" by simp
        with assms(2) have "u \<noteq> r" by (auto simp: acyclic_def)
        with clean_idsD(1) [OF assms(1) u(2) r] have "d_id p \<noteq> d_id op" by simp
        moreover have "d_id p \<notin> X" by (rule Suc.prems(2) [OF trancl_into_rtrancl [OF path] u(2)])
        ultimately show "d_id p \<notin> insert (d_id op) X" by simp
      qed
    qed simp
    then have "grows ?h (insert (d_id op) X) (fed ?h r) st st1" using grows_trans [OF grows_mark] by fastforce
    then show ?thesis unfolding st' by (rule grows_finish [OF assms(1) r])
  next
    case (Some ms')
    with Suc.prems(1) r have st': "st' = st" by (auto simp: ebind_Inr_iff dict_index_Inr_iff)
    have "d_id op \<notin> X" by (rule Suc.prems(2) [OF rtrancl_refl r])
    moreover have "d_id op \<in> set (dict_keys (tr_buffer st))" using Some by (force dest: map_of_SomeD)
    ultimately have "fed ?h r \<subseteq> known st" if "trace_inv ?h X st" using that r unfolding trace_inv_def by blast
    then show ?thesis by (auto simp: st' grows_def)
  qed
qed simp

section \<open>The build always ends\<close>

named_theorems ends_simps \<open>calls that cannot run out of fuel\<close>

lemma ebind_ends: "m \<noteq> Inl Diverges \<Longrightarrow> (\<And>x. m = Inr x \<Longrightarrow> f x \<noteq> Inl Diverges) \<Longrightarrow> ebind m f \<noteq> Inl Diverges"
  by (cases m) auto

lemma emap_ends: "(\<And>x. x \<in> set xs \<Longrightarrow> f x \<noteq> Inl Diverges) \<Longrightarrow> emap f xs \<noteq> Inl Diverges"
  using emap_Inl by fastforce

lemma efold_ends: "(\<And>x s. x \<in> set xs \<Longrightarrow> f x s \<noteq> Inl Diverges) \<Longrightarrow> efold f xs s \<noteq> Inl Diverges"
  by (rule efold_raises)

lemma smap_ends: "(\<And>x s. x \<in> set xs \<Longrightarrow> f x s \<noteq> Inl Diverges) \<Longrightarrow> smap f xs s \<noteq> Inl Diverges"
proof (induction xs arbitrary: s)
  case (Cons x xs)
  then show ?case by (auto simp: ebind_Inl_iff)
qed simp

lemma small_ends [ends_simps]:
  "dict_index m k \<noteq> Inl Diverges" "as_str v \<noteq> Inl Diverges" "as_dict v \<noteq> Inl Diverges" "iterate v \<noteq> Inl Diverges"
  "dict_or_empty v \<noteq> Inl Diverges" "input_ref op i \<noteq> Inl Diverges" "message_role s \<noteq> Inl Diverges"
  "validate_embedding_texts vs \<noteq> Inl Diverges" "retrieval_template d s \<noteq> Inl Diverges" "params_of d \<noteq> Inl Diverges"
  "with_extras d v s \<noteq> Inl Diverges" "attach_lumid_cfg env d \<noteq> Inl Diverges" "aggregate_step ls v \<noteq> Inl Diverges"
  by (auto simp: dict_index_def as_str_def as_dict_def iterate_def dict_or_empty_def input_ref_def message_role_def
      validate_embedding_texts_def retrieval_template_def params_of_def with_extras_def attach_lumid_cfg_def aggregate_step_def Let_def
      split: option.splits pyval.splits)

lemma composed_ends [ends_simps]:
  "inference_spec c \<noteq> Inl Diverges" "engine_overlay c \<noteq> Inl Diverges" "ref_id h r \<noteq> Inl Diverges" "input_id h op i \<noteq> Inl Diverges"
  "content_op g op \<noteq> Inl Diverges" "as_condition v \<noteq> Inl Diverges" "retrieval_mode d \<noteq> Inl Diverges"
  by (auto simp: inference_spec_def engine_overlay_def ref_id_def input_id_def content_op_def as_condition_def retrieval_mode_def
      ebind_Inl_iff ends_simps split: pyval.splits dest!: emap_Inl)

lemma spec_ends [ends_simps]:
  "build_model_spec env c b o' \<noteq> Inl Diverges" "create_runtime_op env i t d ms inf' b m deps out c' \<noteq> Inl Diverges"
  by (auto simp: build_model_spec_def create_runtime_op_def ebind_Inl_iff ends_simps Let_def)

lemma nested_columns_ends [ends_simps]: "nested_columns c \<noteq> Inl Diverges"
  by (auto simp: nested_columns_def ends_simps split: pyval.splits)

lemma column_nodes_ends [ends_simps]: "column_nodes c \<noteq> Inl Diverges"
  by (induction c rule: column_nodes.induct) (auto simp: ebind_Inl_iff ends_simps dest!: emap_Inl)

lemma columns_end [ends_simps]:
  "collect_dependencies cols \<noteq> Inl Diverges" "row_columns v \<noteq> Inl Diverges" "row_messages c \<noteq> Inl Diverges"
  "aggregate_data v t \<noteq> Inl Diverges"
  by (auto simp: collect_dependencies_def row_columns_def row_column_def row_messages_def aggregate_data_def table_column_def
      ebind_Inl_iff ends_simps Let_def dest!: emap_Inl)

text \<open>The steps from an op to its inputs are bounded by the number of ops below it.\<close>

definition below :: "(ref, dsl_op) dict \<Rightarrow> ref \<Rightarrow> ref set" where
  "below heap r = {s. (s, r) \<in> (op_edges heap)\<^sup>+}"

lemma below_keys: "heap_typed heap \<Longrightarrow> below heap r \<subseteq> set (dict_keys heap)"
  using op_edges_keys trancl_domain by (auto simp: below_def Field_def dest!: tranclD)

lemma below_smaller:
  assumes "heap_typed heap" and "acyclic (op_edges heap)" and "(s, r) \<in> op_edges heap"
  shows "card (below heap s) < card (below heap r)"
proof (rule psubset_card_mono)
  show "finite (below heap r)" by (rule finite_subset [OF below_keys [OF assms(1)]]) simp
  have "s \<in> below heap r" "s \<notin> below heap s" using assms(2,3) by (auto simp: below_def acyclic_def)
  moreover have "below heap s \<subseteq> below heap r" using assms(3) by (auto simp: below_def)
  ultimately show "below heap s \<subset> below heap r" by blast
qed

lemma trace_message_ends:
  assumes "\<And>s st. s \<in> set (d_inputs op) \<Longrightarrow> trace s st \<noteq> Inl Diverges"
  shows "trace_message trace op m st \<noteq> Inl Diverges"
proof -
  have "with_role role ms \<noteq> Inl Diverges" for role ms
    by (auto simp: with_role_def ebind_Inl_iff ends_simps dest!: emap_Inl split: if_splits)
  moreover have "trace s st \<noteq> Inl Diverges" if "input_ref op k = Inr s" for k s st
    by (rule assms) (use that in \<open>auto simp: input_ref_def split: if_splits\<close>)
  ultimately show ?thesis by (auto simp: trace_message_def ebind_Inl_iff ends_simps split: prod.splits sum.splits)
qed

lemma trace_labels_ends:
  assumes "\<And>s st. s \<in> set (d_inputs op) \<Longrightarrow> trace s st \<noteq> Inl Diverges"
  shows "trace_labels g trace op st \<noteq> Inl Diverges"
  unfolding trace_labels_def
proof (rule ebind_ends)
  show "smap (\<lambda>r st. ebind (ref_id (dg_heap g) r) (\<lambda>i. ebind (trace r st) (\<lambda>(ms, st). Inr ((i, ms), st)))) (d_inputs op) st \<noteq> Inl Diverges"
    by (rule smap_ends) (auto simp: ebind_Inl_iff ends_simps assms split: prod.splits)
qed auto

lemma arguments_end [ends_simps]: "format_argument g op labels kw \<noteq> Inl Diverges" "lambda_argument g labels r \<noteq> Inl Diverges"
  by (auto simp: format_argument_def lambda_argument_def ebind_Inl_iff ends_simps split: prod.splits list.splits)

lemma trace_body_ends:
  assumes "\<And>s st. s \<in> set (d_inputs op) \<Longrightarrow> trace s st \<noteq> Inl Diverges"
  shows "trace_body g ins target trace op st \<noteq> Inl Diverges"
proof -
  note labels = trace_labels_ends [of op trace g, OF assms]
  have "efold (trace_message trace op) ms st \<noteq> Inl Diverges" for ms st
    by (rule efold_ends) (rule trace_message_ends [OF assms])
  moreover have "trace_format g trace op t kwargs st \<noteq> Inl Diverges" for t kwargs
    unfolding trace_format_def by (auto simp: ebind_Inl_iff labels ends_simps Let_def dest!: emap_Inl)
  moreover have "trace_lambda g trace op code st \<noteq> Inl Diverges" for code
    unfolding trace_lambda_def by (auto simp: ebind_Inl_iff labels ends_simps Let_def dest!: emap_Inl)
  moreover have "trace_input ins i n st \<noteq> Inl Diverges" "trace_retrieval i v st \<noteq> Inl Diverges" for i n v
    by (auto simp: trace_input_def trace_retrieval_def ebind_Inl_iff ends_simps split: if_splits)
  ultimately show ?thesis by (auto simp: trace_body_def split: op_body.splits)
qed

lemma trace_ends:
  assumes "heap_typed (dg_heap g)" and "acyclic (op_edges (dg_heap g))"
  shows "card (below (dg_heap g) r) < n \<Longrightarrow> trace_ancestors n g ins target r st \<noteq> Inl Diverges"
proof (induction n arbitrary: r st)
  case (Suc n)
  have "trace_body g ins target (trace_ancestors n g ins target) op st' \<noteq> Inl Diverges" if r: "map_of (dg_heap g) r = Some op" for op st'
  proof (rule trace_body_ends)
    fix s st assume "s \<in> set (d_inputs op)"
    with r have "(s, r) \<in> op_edges (dg_heap g)" by (auto simp: op_edges_def)
    with below_smaller [OF assms] Suc.prems have "card (below (dg_heap g) s) < n" by fastforce
    then show "trace_ancestors n g ins target s st \<noteq> Inl Diverges" by (rule Suc.IH)
  qed
  then show ?case by (auto simp: ebind_Inl_iff ends_simps dict_index_Inr_iff split: option.splits)
qed simp

lemma infer_ends:
  assumes "graph_typed g"
  shows "infer_structural_messages g ins target op visited \<noteq> Inl Diverges"
proof -
  have h: "heap_typed (dg_heap g)" "acyclic (op_edges (dg_heap g))" using assms by (auto simp: graph_typed_def)
  have "card (below (dg_heap g) r) \<le> card (set (dict_keys (dg_heap g)))" for r
    by (rule card_mono) (use below_keys [OF h(1)] in auto)
  also have "\<dots> \<le> length (dg_heap g)" using card_length [of "dict_keys (dg_heap g)"] by simp
  finally show ?thesis
    unfolding infer_structural_messages_def
    using trace_ends [OF h, of _ "Suc (length (dg_heap g))"] by (fastforce simp: ebind_Inl_iff ends_simps less_Suc_eq_le simp del: trace_ancestors.simps)
qed

end
