(* ===== verification/BuilderGraph.thy ===== *)
theory BuilderGraph
  imports BuilderTrace
begin

text \<open>
  What the builder promises: it ends, its graph has one node for every model and retrieval op (and
  one more for the images of a vision op), the nodes of chat ops depend on the ops that feed their
  prompts, and the order of the nodes respects the dependencies.
\<close>

section \<open>Calls that end\<close>

lemma data_ends [ends_simps]:
  "embedding_data ins c \<noteq> Inl Diverges" "image_data ins c \<noteq> Inl Diverges" "image_content g c \<noteq> Inl Diverges"
  "chat_data f ups t \<noteq> Inl Diverges" "vision_template f t \<noteq> Inl Diverges" "resolve_vlm_image_source g ins src p \<noteq> Inl Diverges"
  by (auto simp: embedding_data_def image_data_def image_content_def chat_data_def vision_template_def resolve_vlm_image_source_def
      ebind_Inl_iff ends_simps Let_def split: op_body.splits option.splits prod.splits)

lemma retrieval_ends [ends_simps]: "build_retrieval_node env render g ins op v \<noteq> Inl Diverges"
proof -
  have "resolve_param g ins p deps \<noteq> Inl Diverges" for p deps
    by (auto simp: resolve_param_def split: pyval.splits option.splits op_body.splits)
  then have "smap (resolve_param g ins) ps deps \<noteq> Inl Diverges" for ps deps by (rule smap_ends)
  then show ?thesis
    by (auto simp: build_retrieval_node_def input_dependencies_def ebind_Inl_iff ends_simps Let_def dest!: emap_Inl split: prod.splits)
qed

lemma llm_nodes_end:
  assumes "graph_typed g"
  shows "build_llm_nodes env g ins override op visited \<noteq> Inl Diverges"
proof -
  note infer = infer_ends [OF assms]
  have "build_chat_node env g ins override op f visited \<noteq> Inl Diverges" for f
    by (auto simp: build_chat_node_def ebind_Inl_iff infer ends_simps split: prod.splits)
  moreover have "build_vision_nodes env g ins op f src p visited \<noteq> Inl Diverges" for f src p
    by (auto simp: build_vision_nodes_def ebind_Inl_iff infer ends_simps Let_def split: prod.splits)
  moreover have "build_embedding_node env g ins op c visited \<noteq> Inl Diverges" "build_image_node env g ins op c visited \<noteq> Inl Diverges" for c
    by (auto simp: build_embedding_node_def build_image_node_def ebind_Inl_iff ends_simps split: prod.splits)
  ultimately show ?thesis by (auto simp: build_llm_nodes_def ebind_Inl_iff split: op_body.splits prod.splits)
qed

section \<open>The nodes of the graph\<close>

text \<open>The nodes so far, with the DSL ids they stand for.\<close>

definition nodes_ok :: "runtime_graph \<Rightarrow> bool" where
  "nodes_ok rg \<longleftrightarrow>
     distinct (dict_keys (rg_nodes rg)) \<and> rg_node_order rg = dict_keys (rg_nodes rg) \<and>
     list_all (\<lambda>(n, op). op_node_id op = n) (rg_nodes rg) \<and>
     distinct (dict_keys (rg_output_node_map rg)) \<and> set (dict_keys (rg_output_node_map rg)) \<subseteq> set (dict_keys (rg_nodes rg)) \<and>
     distinct (dict_keys (rg_output_paths rg)) \<and> set (dict_keys (rg_output_paths rg)) \<subseteq> set (dict_keys (rg_nodes rg)) \<and>
     distinct (dict_keys (rg_dsl_to_runtime rg))"

lemma nodes_ok_wf: "nodes_ok rg \<Longrightarrow> rg_wf rg"
  by (auto simp: nodes_ok_def rg_wf_def)

lemma nodes_ok_order: "nodes_ok rg \<Longrightarrow> distinct order \<Longrightarrow> set order = set (rg_node_order rg) \<Longrightarrow> rg_wf (rg\<lparr>rg_node_order := order\<rparr>)"
  by (auto simp: nodes_ok_def rg_wf_def)

lemma nodes_ok_empty: "nodes_ok empty_runtime_graph"
  by (simp add: nodes_ok_def empty_runtime_graph_def)

lemma nodes_ok_add: "nodes_ok rg \<Longrightarrow> op_node_id op \<notin> set (dict_keys (rg_nodes rg)) \<Longrightarrow> nodes_ok (add_node op rg)"
  by (auto simp: nodes_ok_def add_node_def update_new)

lemma nodes_ok_add_new: "nodes_ok rg \<Longrightarrow> nodes_ok (foldl add_new_node rg ns)"
proof (induction ns arbitrary: rg)
  case (Cons n ns)
  have "nodes_ok (add_new_node rg n)" using Cons.prems nodes_ok_add [OF Cons.prems, of n] by (simp add: add_new_node_def)
  from Cons.IH [OF this] show ?case by simp
qed simp

lemma nodes_ok_ids: "nodes_ok rg \<Longrightarrow> nodes_ok (set_runtime_ids i ns rg)"
  by (simp add: nodes_ok_def set_runtime_ids_def)

lemma nodes_ok_output: "nodes_ok rg \<Longrightarrow> n \<in> set (dict_keys (rg_nodes rg)) \<Longrightarrow> nodes_ok (set_output n name path rg)"
  by (auto simp: nodes_ok_def set_output_def image_keys_update split: option.splits)

lemma node_keys_simps [simp]:
  "rg_nodes (set_runtime_ids i ns rg) = rg_nodes rg" "rg_nodes (set_output n name path rg) = rg_nodes rg"
  "rg_nodes (add_node op rg) = AList.update (op_node_id op) op (rg_nodes rg)"
  by (simp_all add: set_runtime_ids_def set_output_def add_node_def)

text \<open>The nodes that are added for one op have the names of the op.\<close>

lemma created_id: "create_runtime_op env i t d ms smp b m deps out c = Inr n \<Longrightarrow> op_node_id n = i \<and> op_dependencies n = deps"
  by (auto simp: create_runtime_op_def ebind_Inr_iff)

lemma llm_node_ids:
  assumes "build_llm_nodes env g ins override op visited = Inr (ns, visited')"
  shows "map op_node_id ns = runtime_ids_of (d_id op) (d_body op)" "is_llm (d_body op)"
  using assms
  by (auto simp: build_llm_nodes_def build_chat_node_def build_vision_nodes_def build_embedding_node_def build_image_node_def
      runtime_ids_of_def ebind_Inr_iff Let_def created_id case_prod_unfold split: op_body.splits)

lemma retrieval_node_id: "build_retrieval_node env render g ins op v = Inr n \<Longrightarrow> op_node_id n = d_id op"
  by (auto simp: build_retrieval_node_def ebind_Inr_iff Let_def case_prod_unfold dest: created_id split: if_splits)

lemma add_new_nodes_keys: "set (dict_keys (rg_nodes (foldl add_new_node rg ns))) = set (dict_keys (rg_nodes rg)) \<union> set (map op_node_id ns)"
  by (induction ns arbitrary: rg) (auto simp: add_new_node_def image_keys_update)

lemma add_new_nodes_kept:
  "map_of (rg_nodes rg) n = Some op \<Longrightarrow> map_of (rg_nodes (foldl add_new_node rg ns)) n = Some op"
proof (induction ns arbitrary: rg)
  case (Cons m ns)
  then have "map_of (rg_nodes (add_new_node rg m)) n = Some op" by (force simp: add_new_node_def map_of_update dest: map_of_SomeD)
  from Cons.IH [OF this] show ?case by simp
qed simp

section \<open>The rows of a typed graph\<close>

lemma typed_rows:
  assumes "graph_typed g" and "clean_ids (dg_heap g)"
  shows "distinct (dict_keys (dg_ids g))" "set (dict_values (dg_ids g)) = Field (op_edges (dg_heap g))"
    "(i, r) \<in> set (dg_ids g) \<Longrightarrow> \<exists>op. map_of (dg_heap g) r = Some op \<and> d_id op = i"
proof -
  from assms(1) obtain order where h: "heap_typed (dg_heap g)" and o: "distinct order" "set order = Field (op_edges (dg_heap g))"
    and ids: "dg_ids g = dict_of (map (\<lambda>r. (d_id (the (deref g r)), r)) order)" by (auto simp: graph_typed_def)
  have op: "\<exists>op. map_of (dg_heap g) r = Some op" if "r \<in> set order" for r
    using that op_edges_keys [OF h] o(2) by (metis (no_types) in_mono map_of_eq_None_iff not_None_eq set_map)
  have "inj_on (\<lambda>r. d_id (the (deref g r))) (set order)"
  proof (rule inj_onI)
    fix r s assume "r \<in> set order" "s \<in> set order" and same: "d_id (the (deref g r)) = d_id (the (deref g s))"
    then obtain p q where pq: "map_of (dg_heap g) r = Some p" "map_of (dg_heap g) s = Some q" using op by blast
    with same clean_idsD(1) [OF assms(2) pq] show "r = s" by (simp add: deref_def)
  qed
  then have "distinct (map fst (map (\<lambda>r. (d_id (the (deref g r)), r)) order))" using o(1) by (simp add: comp_def distinct_map)
  then have rows: "dg_ids g = map (\<lambda>r. (d_id (the (deref g r)), r)) order" and d: "distinct (dict_keys (dg_ids g))"
    unfolding ids by (simp_all add: dict_of_distinct_id)
  show "distinct (dict_keys (dg_ids g))" by (rule d)
  show "set (dict_values (dg_ids g)) = Field (op_edges (dg_heap g))" by (simp add: rows comp_def o(2))
  show "\<exists>op. map_of (dg_heap g) r = Some op \<and> d_id op = i" if "(i, r) \<in> set (dg_ids g)"
    using that op by (fastforce simp: rows deref_def)
qed

lemma graph_op_iff:
  assumes "graph_typed g" and "clean_ids (dg_heap g)"
  shows "graph_op g i = Some op \<longleftrightarrow> (\<exists>r. (i, r) \<in> set (dg_ids g) \<and> map_of (dg_heap g) r = Some op)"
  using typed_rows(1) [OF assms] by (auto simp: graph_op_def deref_def bind_eq_Some_conv)

lemma graph_op_id: "graph_typed g \<Longrightarrow> clean_ids (dg_heap g) \<Longrightarrow> graph_op g i = Some op \<Longrightarrow> d_id op = i"
  using typed_rows(3) by (fastforce simp: graph_op_iff)

section \<open>The survey\<close>

lemma efold_prefix:
  assumes "efold f xs s = Inr t" and "P [] s"
    and "\<And>ys x zs u v. xs = ys @ x # zs \<Longrightarrow> P ys u \<Longrightarrow> f x u = Inr v \<Longrightarrow> P (ys @ [x]) v"
  shows "P xs t"
proof -
  have "P (ys @ xs') t" if "efold f xs' u = Inr t" "P ys u" "xs = ys @ xs'" for ys xs' u
    using that
  proof (induction xs' arbitrary: ys u)
    case (Cons x xs')
    from Cons.prems(1) obtain v where v: "f x u = Inr v" "efold f xs' v = Inr t" by (auto simp: ebind_Inr_iff)
    have "P (ys @ [x]) v" by (rule assms(3)) (use Cons.prems v in auto)
    from Cons.IH [OF v(2) this] Cons.prems(3) show ?case by simp
  qed simp
  from this [OF assms(1,2)] show ?thesis by simp
qed

definition llm_rows :: "dsl_graph \<Rightarrow> (string \<times> ref) list \<Rightarrow> (string \<times> dsl_op) list" where
  "llm_rows g rows = List.map_filter (\<lambda>(i, r). case map_of (dg_heap g) r of
     Some op \<Rightarrow> if is_llm (d_body op) then Some (i, op) else None | None \<Rightarrow> None) rows"

definition retrieval_rows :: "dsl_graph \<Rightarrow> (string \<times> ref) list \<Rightarrow> (string \<times> dsl_op \<times> pyval) list" where
  "retrieval_rows g rows = List.map_filter (\<lambda>(i, r). case map_of (dg_heap g) r of
     Some op \<Rightarrow> (case d_body op of DataRetrievalOp v \<Rightarrow> Some (i, op, v) | _ \<Rightarrow> None) | None \<Rightarrow> None) rows"

lemma map_filter_snoc: "List.map_filter f (xs @ [x]) = List.map_filter f xs @ (case f x of None \<Rightarrow> [] | Some y \<Rightarrow> [y])"
  by (induction xs) (auto simp: map_filter_simps split: option.splits)

lemma survey_rows:
  assumes "survey g = Inr sv"
  shows "os_llm sv = llm_rows g (dg_ids g)" "os_retrieval sv = retrieval_rows g (dg_ids g)"
proof -
  from assms have run: "efold (survey_op g) (dg_ids g) \<lparr>os_llm = [], os_retrieval = [], os_outputs = [], os_visited = []\<rparr> = Inr sv"
    by (auto simp: survey_def ebind_Inr_iff split: if_splits)
  have "os_llm sv = llm_rows g (dg_ids g) \<and> os_retrieval sv = retrieval_rows g (dg_ids g)"
  proof (rule efold_prefix [OF run, where P = "\<lambda>ys u. os_llm u = llm_rows g ys \<and> os_retrieval u = retrieval_rows g ys"])
    show "os_llm \<lparr>os_llm = [], os_retrieval = [], os_outputs = [], os_visited = []\<rparr> = llm_rows g [] \<and>
        os_retrieval \<lparr>os_llm = [], os_retrieval = [], os_outputs = [], os_visited = []\<rparr> = retrieval_rows g []"
      by (simp add: llm_rows_def retrieval_rows_def map_filter_simps)
  next
    fix ys x zs u v
    assume u: "os_llm u = llm_rows g ys \<and> os_retrieval u = retrieval_rows g ys" and step: "survey_op g x u = Inr v"
    obtain i r where x: "x = (i, r)" by (cases x)
    from step obtain op where op: "map_of (dg_heap g) r = Some op" by (auto simp: survey_op_def x ebind_Inr_iff dict_index_Inr_iff)
    with step u show "os_llm v = llm_rows g (ys @ [x]) \<and> os_retrieval v = retrieval_rows g (ys @ [x])"
      by (cases "d_body op") (auto simp: x survey_op_def dict_index_def llm_rows_def retrieval_rows_def map_filter_snoc ebind_Inr_iff split: if_splits)
  qed
  then show "os_llm sv = llm_rows g (dg_ids g)" "os_retrieval sv = retrieval_rows g (dg_ids g)" by simp_all
qed

lemma set_map_filter: "y \<in> set (List.map_filter f xs) \<longleftrightarrow> (\<exists>x \<in> set xs. f x = Some y)"
  by (induction xs) (auto simp: map_filter_simps split: option.splits)

lemma rows_mem:
  "(i, op) \<in> set (llm_rows g rows) \<longleftrightarrow> (\<exists>r. (i, r) \<in> set rows \<and> map_of (dg_heap g) r = Some op \<and> is_llm (d_body op))"
  "(i, op, v) \<in> set (retrieval_rows g rows) \<longleftrightarrow> (\<exists>r. (i, r) \<in> set rows \<and> map_of (dg_heap g) r = Some op \<and> d_body op = DataRetrievalOp v)"
  by (force simp: llm_rows_def retrieval_rows_def set_map_filter split: option.splits op_body.splits if_splits)+

lemma rows_keys:
  "set (map fst (llm_rows g rows)) \<subseteq> set (map fst rows)" "set (map fst (retrieval_rows g rows)) \<subseteq> set (map fst rows)"
  by (force simp: llm_rows_def retrieval_rows_def set_map_filter split: option.splits op_body.splits if_splits)+

lemma rows_distinct:
  assumes "distinct (map fst rows)"
  shows "distinct (map fst (llm_rows g rows))" "distinct (map fst (retrieval_rows g rows))"
proof -
  have "distinct (map fst (llm_rows g rows)) \<and> distinct (map fst (retrieval_rows g rows))"
    using assms
  proof (induction rows)
    case (Cons x rows)
    obtain i r where x: "x = (i, r)" by (cases x)
    from Cons.prems have "i \<notin> set (map fst (llm_rows g rows))" "i \<notin> set (map fst (retrieval_rows g rows))"
      using rows_keys [of g rows] by (auto simp: x)
    with Cons show ?case
      by (auto simp: x llm_rows_def retrieval_rows_def map_filter_simps split: option.splits op_body.splits)
  qed (simp add: llm_rows_def retrieval_rows_def map_filter_simps)
  then show "distinct (map fst (llm_rows g rows))" "distinct (map fst (retrieval_rows g rows))" by simp_all
qed

section \<open>The two loops of the build\<close>

lemma retrieval_loop:
  assumes run: "efold (add_retrieval_op g node_of outputs) rows s = Inr t" and d: "distinct (map fst rows)"
    and ids: "\<forall>(i, op, v) \<in> set rows. d_id op = i"
    and node: "\<And>op v n. node_of op v = Inr (Some n) \<Longrightarrow> op_node_id n = d_id op"
    and s: "bs_graph s = empty_runtime_graph"
  shows "nodes_ok (bs_graph t)" "set (dict_keys (rg_nodes (bs_graph t))) \<subseteq> set (map fst rows)"
    "(\<And>op v. node_of op v \<noteq> Inr None) \<Longrightarrow> set (dict_keys (rg_nodes (bs_graph t))) = set (map fst rows)"
proof -
  let ?P = "\<lambda>ys u. nodes_ok (bs_graph u) \<and> set (dict_keys (rg_nodes (bs_graph u))) \<subseteq> set (map fst ys) \<and>
      ((\<forall>op v. node_of op v \<noteq> Inr None) \<longrightarrow> set (dict_keys (rg_nodes (bs_graph u))) = set (map fst ys))"
  have "?P rows t"
  proof (rule efold_prefix [OF run, where P = ?P])
    show "?P [] s" using nodes_ok_empty by (simp add: s) (simp add: empty_runtime_graph_def)
  next
    fix ys x zs u w
    assume split: "rows = ys @ x # zs" and u: "?P ys u" and step: "add_retrieval_op g node_of outputs x u = Inr w"
    obtain i op v where x: "x = (i, op, v)" by (cases x)
    have i: "d_id op = i" "i \<notin> set (map fst ys)" using ids d by (auto simp: split x)
    from step obtain visited n where n: "node_of op v = Inr n" and w: "(case n of
          None \<Rightarrow> Inr (u\<lparr>bs_visited := visited\<rparr>)
        | Some n \<Rightarrow>
            let rg = set_runtime_ids i [op_node_id n] (add_node n (bs_graph u))
            in (case map_of outputs i of
                  None \<Rightarrow> Inr \<lparr>bs_graph = rg, bs_visited = visited\<rparr>
                | Some (name, path) \<Rightarrow>
                    ebind (as_dict v) (\<lambda>d. ebind (dict_index d ''mode'') (\<lambda>mode.
                      Inr \<lparr>bs_graph = set_output (op_node_id n) name
                           (Some (case given_path path of None \<Rightarrow> default_path mode | Some p \<Rightarrow> p)) rg, bs_visited = visited\<rparr>)))) = Inr w"
      unfolding add_retrieval_op_def x by (auto simp: ebind_Inr_iff)
    show "?P (ys @ [x]) w"
    proof (cases n)
      case None
      with w have "bs_graph w = bs_graph u" by auto
      with u n None show ?thesis by (auto simp: x simp del: set_map)
    next
      case (Some m)
      with node n i have m: "op_node_id m = i" "i \<notin> set (dict_keys (rg_nodes (bs_graph u)))" using u by auto
      let ?rg = "set_runtime_ids i [i] (add_node m (bs_graph u))"
      have ok: "nodes_ok ?rg" using u m by (intro nodes_ok_ids nodes_ok_add) auto
      have keys: "set (dict_keys (rg_nodes ?rg)) = insert i (set (dict_keys (rg_nodes (bs_graph u))))" by (simp add: m image_keys_update)
      from w consider "bs_graph w = ?rg" | name path where "bs_graph w = set_output i name path ?rg"
        by (auto simp: Some Let_def m ebind_Inr_iff split: option.splits)
      then have "nodes_ok (bs_graph w) \<and> rg_nodes (bs_graph w) = rg_nodes ?rg"
        using ok nodes_ok_output [OF ok] keys by (cases) auto
      with keys u show ?thesis by (auto simp: x)
    qed
  qed
  then show "nodes_ok (bs_graph t)" "set (dict_keys (rg_nodes (bs_graph t))) \<subseteq> set (map fst rows)"
    "(\<And>op v. node_of op v \<noteq> Inr None) \<Longrightarrow> set (dict_keys (rg_nodes (bs_graph t))) = set (map fst rows)" by blast+
qed

text \<open>The nodes of an op keep their place; its main node is the last of its nodes.\<close>

definition has_node :: "builder_env \<Rightarrow> dsl_graph \<Rightarrow> input_values \<Rightarrow> string option \<Rightarrow> runtime_graph \<Rightarrow> string \<times> dsl_op \<Rightarrow> bool" where
  "has_node env g ins override rg x \<longleftrightarrow>
     (\<exists>visited ns visited'. build_llm_nodes env g ins override (snd x) visited = Inr (ns, visited') \<and>
        map_of (rg_nodes rg) (fst x) = Some (last ns))"

lemma last_node:
  assumes ids: "map op_node_id ns = runtime_ids_of i b" and new: "i \<notin> set (dict_keys (rg_nodes rg))"
  shows "map_of (rg_nodes (foldl add_new_node rg ns)) i = Some (last ns)"
proof -
  have ne: "ns \<noteq> []" using ids by (cases ns) (auto simp: runtime_ids_of_def split: op_body.splits)
  have other: "embedding_name i \<noteq> i" by (simp add: embedding_name_def)
  have "set (map op_node_id (butlast ns)) \<subseteq> {embedding_name i}"
    using ids by (simp add: map_butlast) (auto simp: runtime_ids_of_def split: op_body.splits)
  then have absent: "i \<notin> set (dict_keys (rg_nodes (foldl add_new_node rg (butlast ns))))"
    using new other by (subst add_new_nodes_keys) auto
  have "op_node_id (last ns) = last (runtime_ids_of i b)" using ids ne by (metis last_map)
  also have "\<dots> = i" by (simp add: runtime_ids_of_def split: op_body.splits)
  finally have "op_node_id (last ns) = i" .
  with absent have "map_of (rg_nodes (add_new_node (foldl add_new_node rg (butlast ns)) (last ns))) i = Some (last ns)"
    by (simp add: add_new_node_def map_of_update)
  also have "add_new_node (foldl add_new_node rg (butlast ns)) (last ns) = foldl add_new_node rg (butlast ns @ [last ns])" by simp
  finally show ?thesis using ne by simp
qed

lemma llm_loop:
  assumes run: "efold (add_llm_op env g ins override outputs) rows s = Inr t" and d: "distinct (map fst rows)"
    and ids: "\<forall>(i, op) \<in> set rows. d_id op = i" and s: "nodes_ok (bs_graph s)"
    and fresh: "\<forall>(i, op) \<in> set rows. i \<notin> set (dict_keys (rg_nodes (bs_graph s))) \<and> (\<forall>(j, q) \<in> set rows. i \<noteq> embedding_name j)"
  shows "nodes_ok (bs_graph t)"
    "set (dict_keys (rg_nodes (bs_graph t))) = set (dict_keys (rg_nodes (bs_graph s))) \<union> (\<Union>(i, op) \<in> set rows. set (runtime_ids_of i (d_body op)))"
    "\<forall>x \<in> set rows. has_node env g ins override (bs_graph t) x"
proof -
  let ?P = "\<lambda>ys u. nodes_ok (bs_graph u) \<and>
      set (dict_keys (rg_nodes (bs_graph u))) = set (dict_keys (rg_nodes (bs_graph s))) \<union> (\<Union>(i, op) \<in> set ys. set (runtime_ids_of i (d_body op))) \<and>
      (\<forall>x \<in> set ys. has_node env g ins override (bs_graph u) x)"
  have "?P rows t"
  proof (rule efold_prefix [OF run, where P = ?P])
    show "?P [] s" using s by simp
  next
    fix ys x zs u w
    assume split: "rows = ys @ x # zs" and u: "?P ys u" and step: "add_llm_op env g ins override outputs x u = Inr w"
    obtain i op where x: "x = (i, op)" by (cases x)
    have i: "d_id op = i" "i \<notin> set (map fst ys)" using ids d by (auto simp: split x)
    from step obtain ns visited where ns: "build_llm_nodes env g ins override op (bs_visited u) = Inr (ns, visited)"
      and w: "bs_graph w = (let rg = set_runtime_ids i (runtime_ids_of i (d_body op)) (foldl add_new_node (bs_graph u) ns)
        in case map_of outputs i of None \<Rightarrow> rg | Some (name, path) \<Rightarrow> set_output i name (given_path path) rg)"
      by (auto simp: add_llm_op_def x Let_def ebind_Inr_iff)
    note nid = llm_node_ids(1) [OF ns, unfolded i(1)]
    have mem: "(i, op) \<in> set rows" "set ys \<subseteq> set rows" by (auto simp: split x)
    have "i \<notin> set (runtime_ids_of j (d_body q))" if "(j, q) \<in> set ys" for j q
    proof -
      have "i \<noteq> j" using i(2) that by force
      moreover have "i \<noteq> embedding_name j" using fresh mem that by blast
      ultimately show ?thesis by (auto simp: runtime_ids_of_def split: op_body.splits)
    qed
    moreover have "i \<notin> set (dict_keys (rg_nodes (bs_graph s)))" using fresh mem(1) by blast
    ultimately have new: "i \<notin> set (dict_keys (rg_nodes (bs_graph u)))" using u by auto
    let ?rg = "foldl add_new_node (bs_graph u) ns"
    have ok: "nodes_ok ?rg" using u by (intro nodes_ok_add_new) simp
    have keys: "set (dict_keys (rg_nodes ?rg)) = set (dict_keys (rg_nodes (bs_graph u))) \<union> set (runtime_ids_of i (d_body op))"
      using add_new_nodes_keys [of "bs_graph u" ns] by (simp only: nid)
    have node: "map_of (rg_nodes ?rg) i = Some (last ns)" by (rule last_node [OF nid new])
    then have "i \<in> set (dict_keys (rg_nodes ?rg))" by (force dest: map_of_SomeD)
    with ok have "nodes_ok (bs_graph w)" "rg_nodes (bs_graph w) = rg_nodes ?rg"
      unfolding w Let_def by (auto simp: nodes_ok_ids nodes_ok_output split: option.splits prod.splits)
    moreover have "has_node env g ins override (bs_graph w) y" if "y \<in> set ys" for y
    proof -
      from that u obtain vs ms vs' where y: "build_llm_nodes env g ins override (snd y) vs = Inr (ms, vs')"
        "map_of (rg_nodes (bs_graph u)) (fst y) = Some (last ms)" unfolding has_node_def by blast
      from add_new_nodes_kept [OF y(2), of ns] y(1) calculation(2) show ?thesis unfolding has_node_def by auto
    qed
    moreover have "has_node env g ins override (bs_graph w) x" using ns node calculation(2) by (auto simp: has_node_def x)
    ultimately show "?P (ys @ [x]) w" using u keys by (auto simp: x)
  qed
  then show "nodes_ok (bs_graph t)"
    "set (dict_keys (rg_nodes (bs_graph t))) = set (dict_keys (rg_nodes (bs_graph s))) \<union> (\<Union>(i, op) \<in> set rows. set (runtime_ids_of i (d_body op)))"
    "\<forall>x \<in> set rows. has_node env g ins override (bs_graph t) x" by blast+
qed

section \<open>The dependencies of chat and vision nodes\<close>

lemma collect_plain:
  assumes "list_all (\<lambda>(l, c). plain_column c) cols"
    and "collect_dependencies (map (\<lambda>(l, c). PDict ((''label'', PStr l) # c)) cols) = Inr ds"
  shows "set ds = (\<Union>(l, c) \<in> set cols. set (column_reads c))"
proof -
  have field: "field_of ((''label'', PStr l) # c) k = field_of c k" if "k \<noteq> ''label''" for l c k
    using that by (simp add: dict_get_def)
  have reads: "column_nodes (PDict ((''label'', PStr l) # c)) = Inr (column_reads c)" if "plain_column c" for l c
  proof -
    have "nested_columns ((''label'', PStr l) # c) = Inr []" using that field [of "''data''" l c] by (simp add: plain_column_def nested_columns_def)
    then show ?thesis using field [of "''node''" l c] by (simp add: column_reads_def)
  qed
  have "emap column_nodes (map (\<lambda>(l, c). PDict ((''label'', PStr l) # c)) cols) = Inr (map (\<lambda>(l, c). column_reads c) cols)"
    using assms(1) reads by (induction cols) auto
  with assms(2) have "ds = dedupe_into [] (concat (map (\<lambda>(l, c). column_reads c) cols))" by (simp add: collect_dependencies_def)
  then have "set ds = set (concat (map (\<lambda>(l, c). column_reads c) cols))" by (simp add: set_dedupe_into)
  also have "\<dots> = (\<Union>(l, c) \<in> set cols. set (column_reads c))" by (induction cols) auto
  finally show ?thesis .
qed

lemma infer_reads:
  assumes "graph_typed g" and clean: "clean_ids (dg_heap g)"
    and "infer_structural_messages g ins target op visited = Inr ((ups, t), visited')"
  shows "set ups = {j. feeds (dg_heap g) (d_inputs op ! 0) j \<and> llm_id (dg_heap g) j}"
    "collect_dependencies (tp_columns t) = Inr ds \<Longrightarrow> set ds = {j. feeds (dg_heap g) (d_inputs op ! 0) j}"
proof -
  let ?h = "dg_heap g" and ?r = "d_inputs op ! 0"
  let ?st = "\<lparr>tr_visited = visited, tr_upstream = [], tr_columns = [], tr_steps = [], tr_buffer = []\<rparr>"
  from assms(3) obtain ms st where run: "trace_ancestors (Suc (length ?h)) g ins target ?r ?st = Inr (ms, st)"
    and ups: "ups = tr_upstream st" and cols: "tp_columns t = map (\<lambda>(l, c). PDict ((''label'', PStr l) # c)) (tr_columns st)"
    by (auto simp: infer_structural_messages_def input_ref_def ebind_Inr_iff simp del: trace_ancestors.simps split: if_splits)
  have "acyclic (op_edges ?h)" using assms(1) by (auto simp: graph_typed_def)
  from trace_grows [OF clean this run, of "{}"] have "grows ?h {} (fed ?h ?r) ?st st" by simp
  moreover have "trace_inv ?h {} ?st" "known ?st = {}" by (simp_all add: trace_inv_def columns_ok_def known_def)
  ultimately have inv: "trace_inv ?h {} st" and known: "known st = fed ?h ?r" by (simp_all add: grows_def)
  show "set ups = {j. feeds ?h ?r j \<and> llm_id ?h j}"
  proof (rule set_eqI)
    fix j
    have "j \<in> set ups \<longleftrightarrow> Inr j \<in> known st" by (auto simp: ups known_def)
    then show "j \<in> set ups \<longleftrightarrow> j \<in> {j. feeds ?h ?r j \<and> llm_id ?h j}" by (auto simp: known fed_def)
  qed
  show "set ds = {j. feeds ?h ?r j}" if "collect_dependencies (tp_columns t) = Inr ds"
  proof (rule set_eqI)
    fix j
    have "list_all (\<lambda>(l, c). plain_column c) (tr_columns st)"
      using inv by (auto simp: trace_inv_def columns_ok_def column_ok_def list_all_iff)
    from collect_plain [OF this that [unfolded cols]] have "j \<in> set ds \<longleftrightarrow> Inl j \<in> known st" by (auto simp: known_def)
    then show "j \<in> set ds \<longleftrightarrow> j \<in> {j. feeds ?h ?r j}" by (auto simp: known fed_def)
  qed
qed

lemma set_foldl_set_add: "set (foldl (\<lambda>ds n. set_add n ds) ds ns) = set ds \<union> set ns"
  by (induction ns arbitrary: ds) auto

definition plain_chat :: "chat_fields \<Rightarrow> bool" where
  "plain_chat c \<longleftrightarrow> \<not> py_truthy (ch_rowwise_template c) \<and> \<not> py_truthy (ch_aggregate_table c)"

text \<open>What the main node of a chat or vision op depends on.\<close>

definition reads_prompt :: "(ref, dsl_op) dict \<Rightarrow> dsl_op \<Rightarrow> runtime_op \<Rightarrow> bool" where
  "reads_prompt heap op n \<longleftrightarrow>
     {j. feeds heap (d_inputs op ! 0) j \<and> llm_id heap j} \<subseteq> set (op_dependencies n) \<and>
     (case d_body op of
        LLMChatOp c \<Rightarrow> plain_chat c \<longrightarrow> set (op_dependencies n) = {j. feeds heap (d_inputs op ! 0) j}
      | _ \<Rightarrow> embedding_name (d_id op) \<in> set (op_dependencies n))"

lemma chat_data_reads:
  assumes "chat_data c ups t = Inr (data, deps, condition)"
  shows "set ups \<subseteq> set deps" "plain_chat c \<Longrightarrow> \<exists>ds. collect_dependencies (tp_columns t) = Inr ds \<and> set deps = set ups \<union> set ds"
  using assms
  by (auto simp: chat_data_def plain_chat_def ebind_Inr_iff set_dedupe_into set_foldl_set_add case_prod_unfold split: if_splits)

lemma llm_node_reads:
  assumes typed: "graph_typed g" and clean: "clean_ids (dg_heap g)"
    and run: "build_llm_nodes env g ins override op visited = Inr (ns, visited')" and chat: "chat_of (d_body op) = Some c"
  shows "reads_prompt (dg_heap g) op (last ns)"
proof (cases "d_body op")
  case (LLMChatOp d)
  with run obtain n ups t vs smp data deps cond where n: "ns = [n]" "op_dependencies n = deps"
    and infer: "infer_structural_messages g ins (d_id op) op visited = Inr ((ups, t), vs)"
    and data: "chat_data d ups t = Inr (data, deps, cond)"
    by (auto simp: build_llm_nodes_def build_chat_node_def ebind_Inr_iff case_prod_unfold created_id)
  note reads = infer_reads [OF typed clean infer]
  from chat_data_reads [OF data] reads show ?thesis by (auto simp: reads_prompt_def n LLMChatOp)
next
  case (LLMVisionOp d src p)
  with run obtain enode n ups t vs nodes where n: "ns = [enode, n]" "op_dependencies n = dedupe_into [] (ups @ nodes @ [embedding_name (d_id op)])"
    and infer: "infer_structural_messages g ins (d_id op) op visited = Inr ((ups, t), vs)"
    by (auto simp: build_llm_nodes_def build_vision_nodes_def ebind_Inr_iff case_prod_unfold created_id Let_def)
  with infer_reads(1) [OF typed clean infer] show ?thesis by (auto simp: reads_prompt_def LLMVisionOp set_dedupe_into)
qed (use chat in simp_all)

section \<open>The whole build\<close>

definition build_nodes :: "dsl_graph \<Rightarrow> string set" where
  "build_nodes g = {n. \<exists>i op. graph_op g i = Some op \<and> is_source (d_body op) \<and> n \<in> set (runtime_ids_of i (d_body op))}"

lemma is_source_iff: "is_source b \<longleftrightarrow> is_llm b \<or> (\<exists>v. b = DataRetrievalOp v)"
  by (cases b) (auto simp: is_source_def)

lemma retrieval_ids: "b = DataRetrievalOp v \<Longrightarrow> runtime_ids_of i b = [i]"
  by (simp add: runtime_ids_of_def)

definition retrieval_builder :: "builder_env \<Rightarrow> (pyval \<Rightarrow> string) \<Rightarrow> dsl_graph \<Rightarrow> input_values \<Rightarrow> dsl_op \<Rightarrow> pyval \<Rightarrow> runtime_op option result" where
  "retrieval_builder env render g ins op v = ebind (build_retrieval_node env render g ins op v) (\<lambda>n. Inr (Some n))"

lemma build_loops:
  fixes s1 s2 :: build_state
  assumes typed: "graph_typed g" and clean: "clean_ids (dg_heap g)" and sv: "survey g = Inr sv"
    and s1: "efold (add_retrieval_op g (retrieval_builder env render g ins) (os_outputs sv)) (os_retrieval sv)
      \<lparr>bs_graph = empty_runtime_graph, bs_visited = os_visited sv\<rparr> = Inr s1"
    and s2: "efold (add_llm_op env g ins None (os_outputs sv)) (os_llm sv) s1 = Inr s2"
  shows "nodes_ok (bs_graph s2)" "set (dict_keys (rg_nodes (bs_graph s2))) = build_nodes g"
    "\<And>i op. graph_op g i = Some op \<Longrightarrow> is_llm (d_body op) \<Longrightarrow> has_node env g ins None (bs_graph s2) (i, op)"
proof -
  let ?g = g and ?ins = ins and ?node = "retrieval_builder env render g ins"
  note rows = survey_rows [OF sv] and ids = typed_rows [OF typed clean]
  have d: "distinct (map fst (os_llm sv))" "distinct (map fst (os_retrieval sv))" unfolding rows using rows_distinct [OF ids(1)] by auto
  have rid: "\<forall>(i, op, v) \<in> set (os_retrieval sv). d_id op = i" and lid: "\<forall>(i, op) \<in> set (os_llm sv). d_id op = i"
    using ids(3) by (fastforce simp: rows rows_mem)+
  have none: "?node op v \<noteq> Inr None" for op v by (auto simp: retrieval_builder_def ebind_Inr_iff)
  have node: "op_node_id n = d_id op" if "?node op v = Inr (Some n)" for op v n
    using that retrieval_node_id by (auto simp: retrieval_builder_def ebind_Inr_iff)
  have r: "nodes_ok (bs_graph s1)" "set (dict_keys (rg_nodes (bs_graph s1))) = set (map fst (os_retrieval sv))"
    using retrieval_loop(1) [OF s1 d(2) rid node] retrieval_loop(3) [OF s1 d(2) rid node] none by auto
  have kinds: "i \<notin> set (map fst (os_retrieval sv)) \<and> (\<forall>(j, q) \<in> set (os_llm sv). i \<noteq> embedding_name j)" if "(i, op) \<in> set (os_llm sv)" for i op
  proof -
    from that obtain r where i: "(i, r) \<in> set (dg_ids ?g)" "map_of (dg_heap ?g) r = Some op" "is_llm (d_body op)" by (auto simp: rows rows_mem)
    have "i \<noteq> j" if "(j, q, v) \<in> set (os_retrieval sv)" for j q v
    proof
      assume same: "i = j"
      from that obtain r' where j: "(j, r') \<in> set (dg_ids ?g)" "map_of (dg_heap ?g) r' = Some q" "d_body q = DataRetrievalOp v"
        by (auto simp: rows rows_mem)
      with i same ids(1) have "r = r'" by (metis map_of_is_SomeI option.inject)
      with i j show False by simp
    qed
    moreover have "i \<noteq> embedding_name j" if "(j, q) \<in> set (os_llm sv)" for j q
    proof -
      from that obtain r' where j: "map_of (dg_heap ?g) r' = Some q" by (auto simp: rows rows_mem)
      have "d_id op = i" "d_id q = j" using lid that \<open>(i, op) \<in> set (os_llm sv)\<close> by auto
      with clean_idsD(4) [OF clean i(2) j] show ?thesis by simp
    qed
    ultimately show ?thesis by fastforce
  qed
  have fresh: "\<forall>(i, op) \<in> set (os_llm sv). i \<notin> set (dict_keys (rg_nodes (bs_graph s1))) \<and> (\<forall>(j, q) \<in> set (os_llm sv). i \<noteq> embedding_name j)"
    unfolding r(2) using kinds by blast
  note l = llm_loop [OF s2 d(1) lid r(1) fresh]
  show "set (dict_keys (rg_nodes (bs_graph s2))) = build_nodes ?g"
  proof (rule set_eqI)
    fix n
    have "n \<in> set (dict_keys (rg_nodes (bs_graph s2))) \<longleftrightarrow>
        (\<exists>i op v. (i, op, v) \<in> set (os_retrieval sv) \<and> n = i) \<or> (\<exists>i op. (i, op) \<in> set (os_llm sv) \<and> n \<in> set (runtime_ids_of i (d_body op)))"
      unfolding l(2) r(2) by force
    also have "\<dots> \<longleftrightarrow> n \<in> build_nodes ?g"
      unfolding rows build_nodes_def mem_Collect_eq graph_op_iff [OF typed clean] rows_mem is_source_iff
      by (auto simp: retrieval_ids) (fastforce simp: retrieval_ids)+
    finally show "n \<in> set (dict_keys (rg_nodes (bs_graph s2))) \<longleftrightarrow> n \<in> build_nodes ?g" .
  qed
  show "has_node env ?g ?ins None (bs_graph s2) (i, op)" if "graph_op ?g i = Some op" "is_llm (d_body op)" for i op
    using l(3) that by (auto simp: rows rows_mem graph_op_iff [OF typed clean])
  show "nodes_ok (bs_graph s2)" by (rule l(1))
qed

lemma build_unfold:
  "build_runtime_graph env render digest prefix cg =
     ebind (survey (cg_graph cg)) (\<lambda>sv.
     ebind (efold (add_retrieval_op (cg_graph cg) (retrieval_builder env render (cg_graph cg) (cg_inputs cg)) (os_outputs sv)) (os_retrieval sv)
         \<lparr>bs_graph = empty_runtime_graph, bs_visited = os_visited sv\<rparr>) (\<lambda>s.
     ebind (efold (add_llm_op env (cg_graph cg) (cg_inputs cg) None (os_outputs sv)) (os_llm sv) s) (\<lambda>s.
     if list_ex (\<lambda>i. i \<notin> set (bs_visited s)) (dict_keys (dg_ids (cg_graph cg)))
     then Inl (ValueError ''Graph transformation failed: ops were not visited'')
     else ebind (rg_topological_order (bs_graph s)) (\<lambda>order.
       case given_path prefix of
         None \<Rightarrow> Inr (bs_graph s\<lparr>rg_node_order := order\<rparr>)
       | Some p \<Rightarrow> with_node_prefix (make_node_prefix digest p) ''__'' (bs_graph s\<lparr>rg_node_order := order\<rparr>)))))"
  by (simp add: build_runtime_graph_def build_with_def Let_def retrieval_builder_def [abs_def] cong: if_cong)

lemma build_run:
  assumes typed: "graph_typed (cg_graph cg)" and clean: "clean_ids (dg_heap (cg_graph cg))"
    and run: "build_runtime_graph env render digest None cg = Inr rg"
  obtains s :: build_state and order where "nodes_ok (bs_graph s)" "set (dict_keys (rg_nodes (bs_graph s))) = build_nodes (cg_graph cg)"
    "\<forall>i op. graph_op (cg_graph cg) i = Some op \<longrightarrow> is_llm (d_body op) \<longrightarrow> has_node env (cg_graph cg) (cg_inputs cg) None (bs_graph s) (i, op)"
    "rg_topological_order (bs_graph s) = Inr order" "rg = bs_graph s\<lparr>rg_node_order := order\<rparr>"
proof -
  from run obtain sv s1 and s2 :: build_state and order where sv: "survey (cg_graph cg) = Inr sv"
    and s1: "efold (add_retrieval_op (cg_graph cg) (retrieval_builder env render (cg_graph cg) (cg_inputs cg)) (os_outputs sv)) (os_retrieval sv)
      \<lparr>bs_graph = empty_runtime_graph, bs_visited = os_visited sv\<rparr> = Inr s1"
    and s2: "efold (add_llm_op env (cg_graph cg) (cg_inputs cg) None (os_outputs sv)) (os_llm sv) s1 = Inr s2"
    and order: "rg_topological_order (bs_graph s2) = Inr order" and rg: "rg = bs_graph s2\<lparr>rg_node_order := order\<rparr>"
    by (auto simp: build_unfold ebind_Inr_iff given_path_def split: if_splits)
  note loops = build_loops [OF typed clean sv s1 s2]
  show thesis by (rule that [OF loops(1,2) _ order rg]) (intro allI impI loops(3))
qed

lemma build_never_diverges:
  assumes typed: "graph_typed (cg_graph cg)" and clean: "clean_ids (dg_heap (cg_graph cg))"
  shows "build_runtime_graph env render digest prefix cg \<noteq> Inl Diverges"
proof -
  let ?g = "cg_graph cg" and ?ins = "cg_inputs cg"
  have "survey_op ?g x s \<noteq> Inl Diverges" for x s
    by (auto simp: survey_op_def ebind_Inl_iff ends_simps split: prod.splits op_body.splits)
  then have survey: "survey ?g \<noteq> Inl Diverges" by (auto simp: survey_def ebind_Inl_iff efold_ends)
  have "add_retrieval_op ?g (retrieval_builder env render ?g ?ins) outs x s \<noteq> Inl Diverges" for outs x s
    by (auto simp: add_retrieval_op_def mark_retrieval_upstream_def retrieval_builder_def ebind_Inl_iff ends_simps Let_def
        dest!: emap_Inl split: prod.splits option.splits)
  then have one: "efold (add_retrieval_op ?g (retrieval_builder env render ?g ?ins) outs) rows s \<noteq> Inl Diverges" for outs rows s
    by (rule efold_ends)
  have "add_llm_op env ?g ?ins None outs x s \<noteq> Inl Diverges" for outs x s
    by (auto simp: add_llm_op_def ebind_Inl_iff llm_nodes_end [OF typed] Let_def split: prod.splits)
  then have two: "efold (add_llm_op env ?g ?ins None outs) rows s \<noteq> Inl Diverges" for outs rows and s :: build_state
    by (rule efold_ends)
  have prefix: "with_node_prefix p sep rg \<noteq> Inl Diverges" for p sep rg
    by (auto simp: with_node_prefix_def Let_def ebind_Inl_iff ends_simps dest!: emap_Inl)
  show ?thesis
    unfolding build_unfold
  proof (intro ebind_ends survey one two)
    fix sv s1 and s2 :: build_state
    assume run: "survey ?g = Inr sv"
      "efold (add_retrieval_op ?g (retrieval_builder env render ?g ?ins) (os_outputs sv)) (os_retrieval sv)
        \<lparr>bs_graph = empty_runtime_graph, bs_visited = os_visited sv\<rparr> = Inr s1"
      "efold (add_llm_op env ?g ?ins None (os_outputs sv)) (os_llm sv) s1 = Inr s2"
    have "rg_topological_order (bs_graph s2) \<noteq> Inl Diverges"
      using rg_topological_order_ok [OF nodes_ok_wf [OF build_loops(1) [OF typed clean run]]] by auto
    then show "(if list_ex (\<lambda>i. i \<notin> set (bs_visited s2)) (dict_keys (dg_ids ?g))
        then Inl (ValueError ''Graph transformation failed: ops were not visited'')
        else ebind (rg_topological_order (bs_graph s2)) (\<lambda>order.
          case given_path prefix of
            None \<Rightarrow> Inr (bs_graph s2\<lparr>rg_node_order := order\<rparr>)
          | Some p \<Rightarrow> with_node_prefix (make_node_prefix digest p) ''__'' (bs_graph s2\<lparr>rg_node_order := order\<rparr>))) \<noteq> Inl Diverges"
      using prefix by (auto simp: ebind_Inl_iff split: option.splits)
  qed
qed

lemma operands_inputs: "op_typed K op \<Longrightarrow> s \<in> set (operands op) \<Longrightarrow> s \<in> set (d_inputs op)"
  by (cases "d_body op") (auto simp: operands_def op_typed_def set_map_filter list_all_iff split: sum.splits dest!: set_zip_rightD)

lemma feeds_source:
  assumes "feeds heap r i" and "heap_typed heap"
  shows "\<exists>s op. (s, r) \<in> (op_edges heap)\<^sup>* \<and> map_of heap s = Some op \<and> is_source (d_body op) \<and> d_id op = i"
  using assms(1)
proof (induction rule: feeds.induct)
  case (operand r op s i)
  have "op_typed (set (dict_keys heap)) op" using assms(2) operand(1) unfolding heap_typed_def by blast
  from operands_inputs [OF this operand(2)] operand(1) have "(s, r) \<in> op_edges heap" by (auto simp: op_edges_def)
  with operand.IH show ?case by (blast intro: rtrancl_into_rtrancl)
qed blast

lemma fed_nodes:
  assumes "graph_typed g" and "clean_ids (dg_heap g)" and "graph_op g i = Some op" and "chat_of (d_body op) = Some c"
    and "feeds (dg_heap g) (d_inputs op ! 0) j"
  shows "j \<in> build_nodes g"
proof -
  have h: "heap_typed (dg_heap g)" using assms(1) by (simp add: graph_typed_def)
  from assms(3) obtain r where r: "map_of (dg_heap g) r = Some op" by (auto simp: graph_op_iff [OF assms(1,2)])
  with h have "op_typed (set (dict_keys (dg_heap g))) op" unfolding heap_typed_def by blast
  with assms(4) have "d_inputs op \<noteq> []" by (cases "d_body op") (auto simp: op_typed_def)
  then have edge: "(d_inputs op ! 0, r) \<in> op_edges (dg_heap g)" using r by (auto simp: op_edges_def)
  from feeds_source [OF assms(5) h] obtain s p where s: "(s, d_inputs op ! 0) \<in> (op_edges (dg_heap g))\<^sup>*"
    "map_of (dg_heap g) s = Some p" "is_source (d_body p)" "d_id p = j" by blast
  from s(1) edge have "(s, r) \<in> (op_edges (dg_heap g))\<^sup>+" by simp
  then have "s \<in> Field (op_edges (dg_heap g))" by (auto simp: Field_def dest: tranclD)
  then have "s \<in> set (dict_values (dg_ids g))" by (simp only: typed_rows(2) [OF assms(1,2)])
  then obtain k where k: "(k, s) \<in> set (dg_ids g)" by auto
  with typed_rows(3) [OF assms(1,2) k] s(2,4) have "k = j" by simp
  with k s(2) have "graph_op g j = Some p" by (auto simp: graph_op_iff [OF assms(1,2)])
  moreover have "j \<in> set (runtime_ids_of j (d_body p))" by (simp add: runtime_ids_of_def split: op_body.splits)
  ultimately show ?thesis using s(3) by (auto simp: build_nodes_def)
qed

definition plain_graph_ok :: "dsl_graph \<Rightarrow> runtime_graph \<Rightarrow> bool" where
  "plain_graph_ok g rg \<longleftrightarrow>
     rg_wf rg \<and> set (dict_keys (rg_nodes rg)) = build_nodes g \<and> in_dep_order (rg_dep_edges rg) (rg_node_order rg) \<and>
     (\<forall>i op c. graph_op g i = Some op \<longrightarrow> chat_of (d_body op) = Some c \<longrightarrow>
        (\<exists>n. map_of (rg_nodes rg) i = Some n \<and> reads_prompt (dg_heap g) op n \<and>
           {j. feeds (dg_heap g) (d_inputs op ! 0) j} \<subseteq> set (dict_keys (rg_nodes rg))))"

lemma build_plain:
  assumes "graph_typed (cg_graph cg)" and "clean_ids (dg_heap (cg_graph cg))"
    and "build_runtime_graph env render digest None cg = Inr rg"
  shows "plain_graph_ok (cg_graph cg) rg"
proof -
  let ?g = "cg_graph cg"
  obtain s :: build_state and order where s: "nodes_ok (bs_graph s)" "set (dict_keys (rg_nodes (bs_graph s))) = build_nodes ?g"
    and llm: "\<forall>i op. graph_op ?g i = Some op \<longrightarrow> is_llm (d_body op) \<longrightarrow> has_node env ?g (cg_inputs cg) None (bs_graph s) (i, op)"
    and order: "rg_topological_order (bs_graph s) = Inr order" and rg: "rg = bs_graph s\<lparr>rg_node_order := order\<rparr>"
    by (rule build_run [OF assms])
  have o: "distinct order" "set order = set (rg_node_order (bs_graph s))" "in_dep_order (rg_dep_edges (bs_graph s)) order"
    using rg_topological_order_ok [OF nodes_ok_wf [OF s(1)]] by (simp_all add: order)
  have edges: "rg_dep_edges rg = rg_dep_edges (bs_graph s)" by (simp add: rg rg_dep_edges_def rg_deps_def)
  have "\<exists>n. map_of (rg_nodes rg) i = Some n \<and> reads_prompt (dg_heap ?g) op n \<and>
      {j. feeds (dg_heap ?g) (d_inputs op ! 0) j} \<subseteq> set (dict_keys (rg_nodes rg))"
    if op: "graph_op ?g i = Some op" and chat: "chat_of (d_body op) = Some c" for i op c
  proof -
    have "is_llm (d_body op)" using chat by (cases "d_body op") simp_all
    with llm op obtain vs ns vs' where ns: "build_llm_nodes env ?g (cg_inputs cg) None op vs = Inr (ns, vs')"
      "map_of (rg_nodes (bs_graph s)) i = Some (last ns)" unfolding has_node_def by force
    have "feeds (dg_heap ?g) (d_inputs op ! 0) j \<Longrightarrow> j \<in> build_nodes ?g" for j
      by (rule fed_nodes [OF assms(1,2) op chat])
    with llm_node_reads [OF assms(1,2) ns(1) chat] ns(2) s(2) show ?thesis by (auto simp: rg)
  qed
  with nodes_ok_order [OF s(1) o(1,2)] s(2) o(3) show ?thesis unfolding plain_graph_ok_def edges by (simp add: rg)
qed

text \<open>How the server names the nodes of a graph that it builds under a prefix.\<close>

definition node_name :: "(string \<Rightarrow> string) \<Rightarrow> string option \<Rightarrow> string \<Rightarrow> string" where
  "node_name digest prefix i = (case prefix of None \<Rightarrow> i | Some [] \<Rightarrow> i | Some p \<Rightarrow> make_node_prefix digest p @ ''__'' @ i)"

lemma ebind_nested: "ebind (ebind m f) h = ebind m (\<lambda>x. ebind (f x) h)"
  by (cases m) simp_all

lemma ebind_if: "ebind (if c then Inl e else m) h = (if c then Inl e else ebind m h)"
  by simp

lemma build_with_prefix:
  "build_runtime_graph env render digest prefix cg =
     ebind (build_runtime_graph env render digest None cg) (\<lambda>rg.
       case given_path prefix of None \<Rightarrow> Inr rg | Some p \<Rightarrow> with_node_prefix (make_node_prefix digest p) ''__'' rg)"
proof -
  have none: "given_path None = None" by (simp add: given_path_def)
  show ?thesis
    unfolding build_unfold [of env render digest prefix] build_unfold [of env render digest None] none
    by (simp only: ebind_nested ebind_if ebind.simps option.case)
qed

lemma build_renamed:
  assumes "rg_wf rg0" and "(case given_path prefix of None \<Rightarrow> Inr rg0
      | Some p \<Rightarrow> with_node_prefix (make_node_prefix digest p) ''__'' rg0) = Inr rg"
  shows "rg_wf rg \<and> rg_node_order rg = map (node_name digest prefix) (rg_node_order rg0) \<and>
    rg_output_node_map rg = map (\<lambda>(n, name). (node_name digest prefix n, name)) (rg_output_node_map rg0) \<and>
    (\<forall>n op. map_of (rg_nodes rg0) n = Some op \<longrightarrow> (\<exists>op'. map_of (rg_nodes rg) (node_name digest prefix n) = Some op' \<and>
       op_dependencies op' = map (\<lambda>d. if d \<in> set (rg_node_order rg0) then node_name digest prefix d else d) (op_dependencies op)))"
proof (cases "given_path prefix")
  case None
  have name: "node_name digest prefix = (\<lambda>i. i)"
    by (rule ext) (use None in \<open>auto simp: node_name_def given_path_def split: option.splits list.splits if_splits\<close>)
  show ?thesis using assms None unfolding name by simp
next
  case (Some p)
  have name: "node_name digest prefix = (\<lambda>i. make_node_prefix digest p @ ''__'' @ i)"
    by (rule ext) (use Some in \<open>auto simp: node_name_def given_path_def split: option.splits list.splits if_splits\<close>)
  have "make_node_prefix digest p \<noteq> []" by (simp add: make_node_prefix_def)
  from with_node_prefix_correct [OF assms(1) this, of "''__''"] assms(2) Some show ?thesis
    unfolding name by (fastforce dest: map_of_SomeD)
qed


text \<open>A prompt that reaches a second chat op through a format op.\<close>

definition chat_json :: "string \<Rightarrow> string \<Rightarrow> string \<times> pyval" where
  "chat_json i m =
     (i, PDict [(''_op'', PStr ''LLMChatOp''), (''_id'', PStr i), (''_max_iter'', PNone), (''messages'', PStr m),
        (''config'', PDict [(''model'', PStr ''llama'')]), (''return_history'', PBool False), (''cacheable'', PBool True)])"

definition two_chats_json :: spec where
  "two_chats_json =
     [(''q'', PDict [(''_op'', PStr ''InputOp''), (''_id'', PStr ''q''), (''_max_iter'', PNone), (''name'', PStr ''question'')]),
      (''m'', PDict [(''_op'', PStr ''MessageOp''), (''_id'', PStr ''m''), (''_max_iter'', PNone),
         (''messages'', PList [PDict [(''role'', PStr ''system''), (''content'', PStr ''Be brief'')], PDict [(''role'', PStr ''user''), (''content'', PStr ''q'')]])]),
      chat_json ''a'' ''m'',
      (''f'', PDict [(''_op'', PStr ''FormatOp''), (''_id'', PStr ''f''), (''_max_iter'', PNone), (''template'', PStr ''{x} {y}''),
         (''format_args'', PList []), (''format_kwargs'', PDict [(''x'', PStr ''q''), (''y'', PStr ''a'')])]),
      (''n'', PDict [(''_op'', PStr ''MessageOp''), (''_id'', PStr ''n''), (''_max_iter'', PNone),
         (''messages'', PList [PDict [(''role'', PStr ''user''), (''content'', PStr ''f'')]])]),
      chat_json ''b'' ''n'',
      (''o'', PDict [(''_op'', PStr ''OutputOp''), (''_id'', PStr ''o''), (''_max_iter'', PNone), (''_inputs'', pstrs [''b'']), (''name'', PStr ''answer'')])]"

definition example_env :: builder_env where
  "example_env =
     \<lparr>be_num_batched_tokens = 2048, be_cudagraph_size = 64, be_gpu_memory = 9 / 10, be_model_len = 0,
      be_output_destination = ''local'', be_data_url = [], be_worker_url = [], be_data_token = []\<rparr>"

definition built :: "spec \<Rightarrow> input_values \<Rightarrow> (compiled_graph \<times> runtime_graph) option" where
  "built json ins =
     (case graph_from_json Inr json of
        Inl _ \<Rightarrow> None
      | Inr g \<Rightarrow> (case build_runtime_graph example_env (\<lambda>_. []) id None \<lparr>cg_graph = g, cg_inputs = ins\<rparr> of
          Inr rg \<Rightarrow> Some (\<lparr>cg_graph = g, cg_inputs = ins\<rparr>, rg) | Inl _ \<Rightarrow> None))"

definition two_chats_checked :: "compiled_graph \<Rightarrow> runtime_graph \<Rightarrow> bool" where
  "two_chats_checked cg rg \<longleftrightarrow>
     clean_ids (dg_heap (cg_graph cg)) \<and> rg_node_order rg = [''a'', ''b''] \<and>
     map (\<lambda>(n, op). (n, op_dependencies op)) (rg_nodes rg) = [(''a'', []), (''b'', [''a''])] \<and>
     map_option (\<lambda>op. case d_body op of LLMChatOp c \<Rightarrow> plain_chat c | _ \<Rightarrow> False) (graph_op (cg_graph cg) ''b'') = Some True"

lemma two_chats_built: "\<exists>cg rg. built two_chats_json [(''question'', [''hi''])] = Some (cg, rg) \<and> two_chats_checked cg rg"
proof -
  have "(case built two_chats_json [(''question'', [''hi''])] of Some (cg, rg) \<Rightarrow> two_chats_checked cg rg | None \<Rightarrow> False)" by code_simp
  then show ?thesis by (cases "built two_chats_json [(''question'', [''hi''])]") auto
qed

lemma read_typed:
  assumes "graph_from_json materialize json = Inr g"
  shows "graph_typed g"
proof -
  from assms obtain heap where
    read: "efold (\<lambda>(k, v) heap. ebind (op_from_json materialize v heap) (\<lambda>op. Inr (AList.update k op heap))) json [] = Inr heap"
    and g: "graph_of heap = Inr g" by (auto simp: graph_from_json_def ebind_Inr_iff)
  have "heap_typed heap" by (rule op_from_json_heap_typed [OF read]) (simp add: heap_typed_def)
  with g show ?thesis by (rule graph_of_typed)
qed

lemma built_facts:
  assumes "built json ins = Some (cg, rg)"
  shows "graph_typed (cg_graph cg)" "build_runtime_graph example_env (\<lambda>_. []) id None cg = Inr rg"
  using assms read_typed [of Inr json "cg_graph cg"] by (auto simp: built_def split: sum.splits)


text \<open>
  C39: Building a runtime graph always ends, with or without a prefix for the node names: on a typed
  graph whose ids are apart, neither the trace of the prompts nor the sort of the nodes runs for ever.
\<close>

theorem build_runtime_graph_ends:
  assumes "graph_typed (cg_graph cg)" and "clean_ids (dg_heap (cg_graph cg))"
  shows "build_runtime_graph env render digest prefix cg \<noteq> Inl Diverges"
  using assms by (rule build_never_diverges)

theorem build_runtime_graph_ends_witness:
  "\<exists>cg rg. built two_chats_json [(''question'', [''hi''])] = Some (cg, rg) \<and>
     build_runtime_graph example_env (\<lambda>_. []) id (Some ''job'') cg \<noteq> Inl Diverges"
proof -
  obtain cg rg where cg: "built two_chats_json [(''question'', [''hi''])] = Some (cg, rg)" and clean: "clean_ids (dg_heap (cg_graph cg))"
    using two_chats_built unfolding two_chats_checked_def by blast
  from build_runtime_graph_ends [OF built_facts(1) [OF cg] clean] cg show ?thesis by blast
qed

section \<open>Images of a prompt that no node computes\<close>

lemma image_node:
  assumes "build_image_node env g ins op config visited = Inr (n, visited')" and "content_op g op = Inr c" and "image_content g c = Inr c'"
    and "\<forall>m. d_body c' \<noteq> InputOp m"
  shows "op_data_spec n = node_data (d_id c') ''items.output'' \<and> op_dependencies n = [d_id c']"
proof -
  have data: "image_data ins c' = Inr (node_data (d_id c') ''items.output'', [d_id c'])"
    using assms(4) by (cases "d_body c'") (auto simp: image_data_def)
  have "attach_lumid_cfg env (node_data i p) = Inr (node_data i p)" for i p
    by (simp add: attach_lumid_cfg_def node_data_def dict_get_def)
  with assms(1-3) data show ?thesis
    by (auto simp: build_image_node_def create_runtime_op_def ebind_Inr_iff)
qed

lemma no_build_node:
  assumes typed: "graph_typed g" and clean: "clean_ids (dg_heap g)" and c: "map_of (dg_heap g) r = Some c" and "\<not> is_source (d_body c)"
  shows "d_id c \<notin> build_nodes g"
proof
  assume "d_id c \<in> build_nodes g"
  then obtain i op where op: "graph_op g i = Some op" "is_source (d_body op)" "d_id c \<in> set (runtime_ids_of i (d_body op))"
    by (auto simp: build_nodes_def)
  from op(1) obtain s where s: "(i, s) \<in> set (dg_ids g)" "map_of (dg_heap g) s = Some op" by (auto simp: graph_op_iff [OF typed clean])
  with typed_rows(3) [OF typed clean s(1)] have i: "d_id op = i" by simp
  note apart = clean_idsD [OF clean c s(2)]
  from op(3) apart(4) i have "d_id c = d_id op" by (auto simp: runtime_ids_of_def split: op_body.splits)
  with apart(1) c s(2) op(2) assms(4) show False by simp
qed


definition literal_image_json :: spec where
  "literal_image_json =
     [(''p'', PDict [(''_op'', PStr ''DataOp''), (''_id'', PStr ''p''), (''_max_iter'', PNone), (''data'', pstrs [''a red cat''])]),
      (''i'', PDict [(''_op'', PStr ''ImageGenerationOp''), (''_id'', PStr ''i''), (''_max_iter'', PNone), (''content'', PStr ''p''),
         (''config'', PDict [(''model'', PStr ''flux'')]), (''cacheable'', PBool False)]),
      (''o'', PDict [(''_op'', PStr ''OutputOp''), (''_id'', PStr ''o''), (''_max_iter'', PNone), (''_inputs'', pstrs [''i'']), (''name'', PStr ''picture'')])]"

definition literal_image_checked :: "compiled_graph \<Rightarrow> runtime_graph \<Rightarrow> bool" where
  "literal_image_checked cg rg \<longleftrightarrow>
     clean_ids (dg_heap (cg_graph cg)) \<and> dict_keys (rg_nodes rg) = [''i''] \<and>
     (case graph_op (cg_graph cg) ''i'' of
        None \<Rightarrow> False
      | Some op \<Rightarrow> op_class (d_body op) = ''ImageGenerationOp'' \<and>
          map_sum id (\<lambda>c. (d_id c, d_body c)) (content_op (cg_graph cg) op) = Inr (''p'', DataOp (pstrs [''a red cat''])))"

lemma literal_image_built: "\<exists>cg rg. built literal_image_json [] = Some (cg, rg) \<and> literal_image_checked cg rg"
proof -
  have "(case built literal_image_json [] of Some (cg, rg) \<Rightarrow> literal_image_checked cg rg | None \<Rightarrow> False)" by code_simp
  then show ?thesis by (cases "built literal_image_json []") auto
qed


end
