(* ===== verification/Spec2Isabelle.thy ===== *)
theory Spec2Isabelle
  imports Prelude TopoSort RuntimeGraphs PyStrings Dedupe Clustering JobQueue Channels HaloSchedule HaloPlans HaloOptimizer JobStorage Sharding FlowTasks Dsl Slices Results Workers Accounting BuilderGraph
begin

text \<open>
  A verification development for the Lumilake server (\<open>src/src/lumilake_server\<close>): workflows of
  language-model and data-retrieval ops are accepted as jobs, cut into slices, queued, batched,
  compiled to runtime graphs, merged, scheduled on GPU and CPU workers, run by FlowMesh, and their
  outputs are cut back to the requests they belong to. Every definition translates the Python code;
  the manifest maps it to the lines it stands for.

  The way of a job through the server, and the theories that model it:

  \<^item> \<open>Dsl\<close>: a workflow is a graph of ops (\<open>graphs/graph.py\<close>, \<open>ops/*.py\<close>, \<open>common.py\<close>), read from JSON,
    compiled with its inputs, copied and written back. Ops are objects, so a graph has a store.
  \<^item> \<open>Slices\<close>: \<open>routes/jobs.py\<close> cuts the inputs of a job into slices; \<open>runtime/server.py\<close> puts the
    slices of one workflow that meet in a batch together again and rewrites the literals of the graph.
  \<^item> \<open>JobQueue\<close> with \<open>Clustering\<close>: \<open>runtime/job_manager\<close>, the queue of workflows by hardware partition,
    priority and user, with starvation and fairness rules, two-phase reservations and the choice of
    similar workflows for a batch.
  \<^item> \<open>Workers\<close>: the scheduler loop of \<open>runtime/server.py\<close>, which reserves a batch, chooses workers that fit,
    commits or aborts, and the check of a schedule. \<open>Accounting\<close>: the node counters of the requests while
    batches begin, are optimised and end, shares of the scheduling time, cancellation of shared work.
  \<^item> \<open>Builder\<close>, \<open>BuilderTrace\<close>, \<open>BuilderGraph\<close>: \<open>RuntimeGraphBuilder\<close> of \<open>runtime/runtime_graph.py\<close>, from a
    compiled graph to runtime nodes with their prompts, data and dependencies. \<open>RuntimeGraphs\<close>: the
    runtime graphs, their order, prefixes, merging and export; redaction of credentials.
  \<^item> \<open>Dedupe\<close>: \<open>runtime/optimizer/base.py\<close>, identical ops of a batch become one.
  \<^item> \<open>HaloDP\<close>, \<open>HaloSearch\<close>, \<open>HaloSchedule\<close>, \<open>HaloPlans\<close>: the dynamic program \<open>schedule/halo_dp.py\<close>, its
    meaning, what it guarantees, and the plans it searches, specified without its loops. \<open>HaloCosts\<close>,
    \<open>HaloOptimizer\<close>: the cost model and \<open>generate_schedule\<close> around it, and the optimizer that only
    sorts. \<open>TopoSort\<close>: the two topological sorts.
  \<^item> \<open>Sharding\<close>, \<open>FlowTasks\<close>: \<open>runtime_manager/flowmesh.py\<close>, which cuts nodes into shards, writes the task
    document, follows the tasks by polling and collects outputs.
  \<^item> \<open>Results\<close>: the outputs of a batch go back to the slices and requests they came from; complete
    requests are answered. \<open>JobStorage\<close>: the three archives of finished jobs. \<open>Channels\<close>: the queues and the
    event loop the parts talk through.
  \<^item> \<open>Prelude\<close> and \<open>PyStrings\<close> hold what all share: exceptions as a sum type, operations on a state,
    dicts as association lists in insertion order, JSON values, and Python's string operations.

  What the lemma groups show. Each component has an invariant that all its operations keep
  (\<open>jm_wf\<close> of the queue, \<open>server_inv\<close> of the scheduler loop, \<open>accounts_ok\<close> of the counters, \<open>rg_wf\<close> of runtime
  graphs, \<open>graph_typed\<close> of DSL graphs), the behaviour of its operations with their errors, and, where
  the code has a contract, a specification it refines: plans for the Halo search, one contract for
  all three archives, the relation \<open>feeds\<close> for prompts. Concurrency is a step relation: requests,
  batches and the scheduler loop interleave in \<open>server_step\<close> and \<open>account_step\<close>, waiters and closers in
  \<open>ts_step\<close>; the safety and progress theorems hold for all reachable states. The interfaces are
  locales: \<open>ready_queue\<close> (both sorts), \<open>affinity_selector\<close> and \<open>batch_source\<close> (the queue and its
  clients), \<open>fifo_channel\<close> (both channels), \<open>summary_store\<close> and \<open>output_index\<close> (the archives), each interpreted
  on the model's own operations.

  Conventions and bounds. Strings are over the 8-bit alphabet; integers are Python's; floats are
  rationals, or reals in the Halo cost model; clocks, random choices and the answers of FlowMesh are
  arguments. Sets that Python iterates over are lists, and the theorems do not depend on their order.
  A JSON field of another type than its annotation is a \<open>TypeError\<close> when it is read. Loops that are not
  structural have fuel, and a run that needs more is the value \<open>Diverges\<close>, which the termination theorems
  exclude: the Halo search gets fuel from the number of nodes, the trace of a prompt one step for each
  op of the graph (\<open>build_runtime_graph_ends\<close>), the sorts one round for each node.

  Parameters, for code that is not in the repository: the compilation of the source of a lambda op,
  SHA-256 and the other hashes, the text \<open>str\<close> or JSON gives for a value, the blob service and SQLite with
  the laws that are used of them, pydantic's validation and FlowMesh itself. The workflow parsers are
  a parameter of the slicing as well, although they are in the repository.

  Not modelled: the parsers for n8n and YAML workflows (\<open>parser/\<close>); the life of a job in the HTTP
  handlers (\<open>routes/jobs.py\<close> but for the slicing) and the status merging, plan cache, artifact
  relocation, start and close of \<open>runtime/server.py\<close>; the subprocess that runs the optimizer; the data
  profile (\<open>utils/data_profile_offload.py\<close> and the profile nodes of the builder, an argument of
  \<open>build_with\<close>); start-up, plug-ins, logging and metrics; the SDK, the command line and the deployment
  packages, which are calls to other services and terminal output.
\<close>

end
